(* ===== verification/Prelude.thy ===== *)
theory Prelude
  imports Main "HOL-Library.Word" "HOL-Library.Signed_Division"
begin

text \<open>
  Shared vocabulary of the development.

  Go's fixed-width integers are modelled as \<open>int\<close> with the wrap-around written out: \<open>u64\<close>,
  \<open>u32\<close>, \<open>u16\<close> and \<open>i64\<close> are the conversions \<open>uint64(x)\<close>, \<open>uint32(x)\<close>, \<open>uint16(x)\<close> and
  \<open>int64(x)\<close>, and are also applied to the result of every addition, subtraction and
  multiplication that the source performs at that width. Go's \<open>int\<close> is 64 bits wide on the
  platforms the program targets. Division and remainder on signed operands truncate towards
  zero (\<open>sdiv\<close>, \<open>smod\<close> of \<open>Signed_Division\<close>).

  Errors are values: an operation that can fail returns \<open>error + 'a\<close>. \<open>Err\<close> carries the
  fixed part of the message of the Go error (a message formatted with run-time values is
  identified by its fixed prefix); the sentinel errors the program tests for are constructors
  of their own; \<open>Panic\<close> is a run-time panic.
\<close>

section \<open>Errors and results\<close>

datatype error =
    Err string
  | EOF
  | UnexpectedEOF
  | BytesNotAvailable
  | CacheClosed
  | Panic

type_synonym 'a result = "error + 'a"

definition bindR :: "'a result \<Rightarrow> ('a \<Rightarrow> 'b result) \<Rightarrow> 'b result" where
  "bindR r f = (case r of Inl e \<Rightarrow> Inl e | Inr v \<Rightarrow> f v)"

lemma bindR_Inl [simp]: "bindR (Inl e) f = Inl e"
  by (simp add: bindR_def)

lemma bindR_Inr [simp]: "bindR (Inr v) f = f v"
  by (simp add: bindR_def)

lemma bindR_eq_Inr: "bindR r f = Inr y \<longleftrightarrow> (\<exists>v. r = Inr v \<and> f v = Inr y)"
  by (cases r) auto

section \<open>Machine integers\<close>

named_theorems wrap \<open>conversions that do nothing on values in range\<close>

definition u64 :: "int \<Rightarrow> int" where
  "u64 x = x mod 18446744073709551616"

definition u32 :: "int \<Rightarrow> int" where
  "u32 x = x mod 4294967296"

definition u16 :: "int \<Rightarrow> int" where
  "u16 x = x mod 65536"

definition i64 :: "int \<Rightarrow> int" where
  "i64 x = (x + 9223372036854775808) mod 18446744073709551616 - 9223372036854775808"

abbreviation max_i64 :: int where
  "max_i64 \<equiv> 9223372036854775807"

lemma u64_id [wrap]: "0 \<le> x \<Longrightarrow> x < 18446744073709551616 \<Longrightarrow> u64 x = x"
  by (simp add: u64_def)

lemma u32_id [wrap]: "0 \<le> x \<Longrightarrow> x < 4294967296 \<Longrightarrow> u32 x = x"
  by (simp add: u32_def)

lemma u16_id [wrap]: "0 \<le> x \<Longrightarrow> x < 65536 \<Longrightarrow> u16 x = x"
  by (simp add: u16_def)

lemma i64_id [wrap]: "- 9223372036854775808 \<le> x \<Longrightarrow> x \<le> max_i64 \<Longrightarrow> i64 x = x"
  by (simp add: i64_def)

lemma u64_bounds [simp]: "0 \<le> u64 x" "u64 x < 18446744073709551616"
  by (simp_all add: u64_def)

lemma u32_bounds [simp]: "0 \<le> u32 x" "u32 x < 4294967296"
  by (simp_all add: u32_def)

lemma u16_bounds [simp]: "0 \<le> u16 x" "u16 x < 65536"
  by (simp_all add: u16_def)

lemma i64_bounds [simp]: "- 9223372036854775808 \<le> i64 x" "i64 x \<le> max_i64"
proof -
  have "0 \<le> (x + 9223372036854775808) mod 18446744073709551616"
    and "(x + 9223372036854775808) mod 18446744073709551616 < 18446744073709551616"
    by simp_all
  then show "- 9223372036854775808 \<le> i64 x" "i64 x \<le> max_i64"
    unfolding i64_def by linarith+
qed

section \<open>Integer division\<close>

lemma div_less_iff:
  assumes "0 < (b::int)"
  shows "a div b < c \<longleftrightarrow> a < c * b"
proof -
  have m: "a = a div b * b + a mod b" "0 \<le> a mod b" "a mod b < b"
    using assms by simp_all
  show ?thesis
  proof
    assume "a div b < c"
    then have "(a div b + 1) * b \<le> c * b" using assms by (intro mult_right_mono) simp_all
    then have "a div b * b + b \<le> c * b" by (simp add: distrib_right)
    with m show "a < c * b" by linarith
  next
    assume "a < c * b"
    with m have "a div b * b < c * b" by linarith
    then show "a div b < c" using assms by (simp add: mult_less_cancel_right_pos)
  qed
qed

lemma le_div_iff: "0 < (b::int) \<Longrightarrow> c \<le> a div b \<longleftrightarrow> c * b \<le> a"
  using div_less_iff [of b a c] by linarith

lemma ceil_div_le_iff:
  assumes "0 < (b::int)"
  shows "(a + b - 1) div b \<le> k \<longleftrightarrow> a \<le> k * b"
proof -
  have "(a + b - 1) div b \<le> k \<longleftrightarrow> (a + b - 1) div b < k + 1" by linarith
  also have "\<dots> \<longleftrightarrow> a + b - 1 < (k + 1) * b"
    by (rule div_less_iff [OF assms])
  finally show ?thesis by (simp add: distrib_right) linarith
qed

section \<open>Bytes\<close>

type_synonym byte = "8 word"
type_synonym bytes = "byte list"

text \<open>Identifiers of builds, Go's \<open>uuid.UUID\<close> (an array of 16 bytes), read as a 128-bit
  big-endian number; \<open>uuid.Nil\<close> is the all-zero array. SHA-256 checksums (arrays of 32 bytes)
  are read the same way.\<close>

type_synonym uuid = "128 word"
type_synonym checksum = "256 word"

abbreviation uuid_Nil :: uuid where
  "uuid_Nil \<equiv> 0"

text \<open>Little-endian encoding of the low \<open>n\<close> bytes of an integer, two's complement for
  negative ones, as \<open>encoding/binary\<close> writes it.\<close>

fun le_bytes :: "nat \<Rightarrow> int \<Rightarrow> bytes" where
  "le_bytes 0 v = []"
| "le_bytes (Suc n) v = word_of_int v # le_bytes n (v div 256)"

fun le_int :: "bytes \<Rightarrow> int" where
  "le_int [] = 0"
| "le_int (b # bs) = uint b + 256 * le_int bs"

lemma length_le_bytes [simp]: "length (le_bytes n v) = n"
  by (induction n arbitrary: v) auto

lemma le_int_bounds: "0 \<le> le_int bs \<and> le_int bs < 256 ^ length bs"
proof (induction bs)
  case Nil
  show ?case by simp
next
  case (Cons b bs)
  have "0 \<le> uint b" "uint b < 256"
    using uint_lt2p [of b] by simp_all
  with Cons.IH show ?case by (simp add: algebra_simps)
qed

lemma le_int_le_bytes: "le_int (le_bytes n v) = v mod 256 ^ n"
proof (induction n arbitrary: v)
  case 0
  show ?case by simp
next
  case (Suc n)
  have "le_int (le_bytes (Suc n) v) = v mod 256 + 256 * (v div 256 mod 256 ^ n)"
    by (simp add: Suc.IH uint_word_of_int)
  also have "\<dots> = v mod (256 * 256 ^ n)"
    by (simp add: mod_mult2_eq' [symmetric] zmod_zmult2_eq)
  finally show ?case by simp
qed

lemma le_bytes_le_int: "le_bytes (length bs) (le_int bs) = bs"
proof (induction bs)
  case Nil
  show ?case by simp
next
  case (Cons b bs)
  have b: "0 \<le> uint b" "uint b < 256"
    using uint_lt2p [of b] by simp_all
  then have d: "(uint b + 256 * le_int bs) div 256 = le_int bs"
    by simp
  have z: "(256 :: byte) = 0" by simp
  have "word_of_int (uint b + 256 * le_int bs) = b + 256 * word_of_int (le_int bs)" by simp
  also have "\<dots> = b" by (subst z) simp
  finally have "word_of_int (uint b + 256 * le_int bs) = b" .
  with d Cons.IH show ?case by simp
qed

section \<open>Binary search\<close>

text \<open>Go's \<open>sort.Search(n, f)\<close>: the loop of the standard library, on indices \<open>lo \<le> hi\<close>.\<close>

function sort_search_loop :: "(nat \<Rightarrow> bool) \<Rightarrow> nat \<Rightarrow> nat \<Rightarrow> nat" where
  "sort_search_loop f lo hi =
     (if lo < hi
      then let mid = (lo + hi) div 2
           in if f mid then sort_search_loop f lo mid else sort_search_loop f (mid + 1) hi
      else lo)"
  by pat_completeness auto
termination
  by (relation "measure (\<lambda>(f, lo, hi). hi - lo)") auto

declare sort_search_loop.simps [simp del]

definition sort_Search :: "nat \<Rightarrow> (nat \<Rightarrow> bool) \<Rightarrow> nat" where
  "sort_Search n f = sort_search_loop f 0 n"

lemma sort_search_loop_spec:
  assumes "lo \<le> hi" "hi \<le> n" "\<And>i j. i \<le> j \<Longrightarrow> j < n \<Longrightarrow> f i \<Longrightarrow> f j"
    and "\<forall>i < lo. \<not> f i" "\<forall>i. hi \<le> i \<and> i < n \<longrightarrow> f i"
  shows "sort_search_loop f lo hi \<le> n \<and> (\<forall>i < sort_search_loop f lo hi. \<not> f i) \<and>
    (\<forall>i. sort_search_loop f lo hi \<le> i \<and> i < n \<longrightarrow> f i)"
  using assms
proof (induction "hi - lo" arbitrary: lo hi rule: less_induct)
  case less
  show ?case
  proof (cases "lo < hi")
    case False
    then have "sort_search_loop f lo hi = lo" by (simp add: sort_search_loop.simps [of f lo hi])
    with False less.prems show ?thesis by simp
  next
    case True
    let ?mid = "(lo + hi) div 2"
    have mid: "lo \<le> ?mid" "?mid < hi" using True by auto
    show ?thesis
    proof (cases "f ?mid")
      case f: True
      have up: "f i" if "?mid \<le> i" "i < n" for i
        by (rule less.prems(3) [OF that f])
      have "sort_search_loop f lo ?mid \<le> n \<and> (\<forall>i < sort_search_loop f lo ?mid. \<not> f i) \<and>
        (\<forall>i. sort_search_loop f lo ?mid \<le> i \<and> i < n \<longrightarrow> f i)"
        by (rule less.hyps) (use mid less.prems up True in auto)
      then show ?thesis using True f by (simp add: sort_search_loop.simps [of f lo hi])
    next
      case f: False
      have down: "\<not> f i" if "i < ?mid + 1" for i
        using less.prems(3) [of i ?mid] that f mid less.prems(2) by auto
      have "sort_search_loop f (?mid + 1) hi \<le> n \<and> (\<forall>i < sort_search_loop f (?mid + 1) hi. \<not> f i) \<and>
        (\<forall>i. sort_search_loop f (?mid + 1) hi \<le> i \<and> i < n \<longrightarrow> f i)"
        by (rule less.hyps) (use mid less.prems down True in auto)
      then show ?thesis using True f by (simp add: sort_search_loop.simps [of f lo hi])
    qed
  qed
qed

text \<open>For a predicate that stays true once it is true, the result is the first index where it
  holds, or \<open>n\<close>.\<close>

definition upclosed :: "nat \<Rightarrow> (nat \<Rightarrow> bool) \<Rightarrow> bool" where
  "upclosed n f \<longleftrightarrow> (\<forall>i j. i \<le> j \<longrightarrow> j < n \<longrightarrow> f i \<longrightarrow> f j)"

lemma sort_Search_spec:
  assumes "upclosed n f"
  shows "sort_Search n f \<le> n" "i < sort_Search n f \<Longrightarrow> \<not> f i"
    "sort_Search n f \<le> i \<Longrightarrow> i < n \<Longrightarrow> f i"
proof -
  have "sort_search_loop f 0 n \<le> n \<and> (\<forall>i < sort_search_loop f 0 n. \<not> f i) \<and>
    (\<forall>i. sort_search_loop f 0 n \<le> i \<and> i < n \<longrightarrow> f i)"
    by (rule sort_search_loop_spec) (use assms in \<open>auto simp: upclosed_def\<close>)
  then show "sort_Search n f \<le> n" "i < sort_Search n f \<Longrightarrow> \<not> f i"
    "sort_Search n f \<le> i \<Longrightarrow> i < n \<Longrightarrow> f i" by (simp_all add: sort_Search_def)
qed

lemma sort_Search_unique:
  assumes "k \<le> n" "\<And>i. i < k \<Longrightarrow> \<not> f i" "\<And>i. k \<le> i \<Longrightarrow> i < n \<Longrightarrow> f i"
  shows "sort_Search n f = k"
proof -
  have "f j" if "i \<le> j" "j < n" "f i" for i j
    using assms(2) [of i] assms(3) [of j] that by (meson le_less_trans not_le)
  then have "upclosed n f" by (auto simp: upclosed_def)
  note spec = sort_Search_spec [OF this]
  have "\<not> sort_Search n f < k"
  proof
    assume "sort_Search n f < k"
    then show False
      using spec(3) [of "sort_Search n f"] spec(1) assms(1,2) by fastforce
  qed
  moreover have "\<not> k < sort_Search n f"
  proof
    assume "k < sort_Search n f"
    then show False
      using spec(1,2) assms(3) [of k]
      by fastforce
  qed
  ultimately show ?thesis by simp
qed

end
