(* ===== verification/Bitmap.thy ===== *)
theory Bitmap
  imports Prelude
begin

text \<open>
  The bitmap library the program uses (\<open>github.com/RoaringBitmap/roaring\<close>) is not part of the
  repository, so its operations are a parameter of every definition that uses a bitmap: a
  record of functions over an abstract bitmap type. The locale \<open>roaring_bitmap\<close> states what the
  program relies on, through an abstraction to sets of 32-bit indices; the components prove
  their own lemmas from these laws only. \<open>listbm_ops\<close> is a concrete instance that satisfies
  the laws and evaluates, which the concrete examples of the development run on.
\<close>

section \<open>The interface\<close>

record 'b bitmap_ops =
  bm_New :: 'b
  bm_Add :: "'b \<Rightarrow> int \<Rightarrow> 'b"
  bm_AddRange :: "'b \<Rightarrow> int \<Rightarrow> int \<Rightarrow> 'b"
  bm_RemoveRange :: "'b \<Rightarrow> int \<Rightarrow> int \<Rightarrow> 'b"
  bm_Contains :: "'b \<Rightarrow> int \<Rightarrow> bool"
  bm_CardinalityInRange :: "'b \<Rightarrow> int \<Rightarrow> int \<Rightarrow> int"
  bm_GetCardinality :: "'b \<Rightarrow> int"
  bm_Or :: "'b \<Rightarrow> 'b \<Rightarrow> 'b"
  bm_AndNot :: "'b \<Rightarrow> 'b \<Rightarrow> 'b"
  bm_Ranges :: "'b \<Rightarrow> (int \<times> int) list"
  bm_Iterator :: "'b \<Rightarrow> int list"

definition run_set :: "(int \<times> int) list \<Rightarrow> int set" where
  "run_set rs = (\<Union>(s, e) \<in> set rs. {s..<e})"

text \<open>Ascending, disjoint, non-empty half-open ranges.\<close>

fun ascending_runs :: "(int \<times> int) list \<Rightarrow> bool" where
  "ascending_runs [] = True"
| "ascending_runs ((s, e) # rs) =
     (s < e \<and> (\<forall>(s', e') \<in> set rs. e \<le> s') \<and> ascending_runs rs)"

locale roaring_bitmap =
  fixes ops :: "'b bitmap_ops" and bset :: "'b \<Rightarrow> int set"
  assumes bset_range: "bset b \<subseteq> {0..<4294967296}"
    and bset_New: "bset (bm_New ops) = {}"
    and bset_Add: "0 \<le> x \<Longrightarrow> x < 4294967296 \<Longrightarrow> bset (bm_Add ops b x) = insert x (bset b)"
    and bset_AddRange: "0 \<le> s \<Longrightarrow> e \<le> 4294967296 \<Longrightarrow>
          bset (bm_AddRange ops b s e) = bset b \<union> {s..<e}"
    and bset_RemoveRange: "0 \<le> s \<Longrightarrow> e \<le> 4294967296 \<Longrightarrow>
          bset (bm_RemoveRange ops b s e) = bset b - {s..<e}"
    and Contains_iff: "0 \<le> x \<Longrightarrow> x < 4294967296 \<Longrightarrow> bm_Contains ops b x \<longleftrightarrow> x \<in> bset b"
    and CardinalityInRange_eq: "0 \<le> s \<Longrightarrow> e \<le> 4294967296 \<Longrightarrow>
          bm_CardinalityInRange ops b s e = int (card (bset b \<inter> {s..<e}))"
    and GetCardinality_eq: "bm_GetCardinality ops b = int (card (bset b))"
    and bset_Or: "bset (bm_Or ops b c) = bset b \<union> bset c"
    and bset_AndNot: "bset (bm_AndNot ops b c) = bset b - bset c"
    and Ranges_asc: "ascending_runs (bm_Ranges ops b)"
    and Ranges_set: "run_set (bm_Ranges ops b) = bset b"
    and Iterator_sorted: "sorted_wrt (<) (bm_Iterator ops b)"
    and Iterator_set: "set (bm_Iterator ops b) = bset b"
begin

lemma finite_bset [simp]: "finite (bset b)"
  using bset_range finite_subset by blast

lemma bset_bounds: "x \<in> bset b \<Longrightarrow> 0 \<le> x \<and> x < 4294967296"
  using bset_range [of b] by auto

text \<open>A full count over a range is membership of the whole range.\<close>

lemma full_count_iff:
  assumes "0 \<le> s" "s \<le> e" "e \<le> 4294967296"
  shows "bm_CardinalityInRange ops b s e = e - s \<longleftrightarrow> {s..<e} \<subseteq> bset b"
proof -
  have "int (card (bset b \<inter> {s..<e})) = int (card {s..<e}) \<longleftrightarrow> bset b \<inter> {s..<e} = {s..<e}"
    using card_subset_eq [of "{s..<e}" "bset b \<inter> {s..<e}"]
    by (metis Int_lower2 finite_atLeastLessThan_int of_nat_eq_iff)
  moreover have "int (card {s..<e}) = e - s"
    using assms(2) by simp
  ultimately show ?thesis
    using assms by (auto simp: CardinalityInRange_eq)
qed

end

lemma run_set_Nil [simp]: "run_set [] = {}"
  by (simp add: run_set_def)

lemma run_set_Cons [simp]: "run_set ((s, e) # rs) = {s..<e} \<union> run_set rs"
  by (simp add: run_set_def)

lemma ascending_runs_lower:
  "ascending_runs rs \<Longrightarrow> (\<forall>(s, e) \<in> set rs. lo \<le> s) \<Longrightarrow> x \<in> run_set rs \<Longrightarrow> lo \<le> x"
  by (auto simp: run_set_def split_beta)

lemma ascending_runs_nonempty: "ascending_runs rs \<Longrightarrow> (s, e) \<in> set rs \<Longrightarrow> s < e"
  by (induction rs rule: ascending_runs.induct) auto

section \<open>A concrete instance\<close>

fun runs_of :: "int list \<Rightarrow> (int \<times> int) list" where
  "runs_of [] = []"
| "runs_of (x # xs) =
     (case runs_of xs of
        [] \<Rightarrow> [(x, x + 1)]
      | (s, e) # rs \<Rightarrow> if s = x + 1 then (x, e) # rs else (x, x + 1) # (s, e) # rs)"

lemma runs_of_starts: "(s, e) \<in> set (runs_of xs) \<Longrightarrow> s \<in> set xs \<and> s < e"
  by (induction xs arbitrary: s e) (auto split: list.splits if_splits, fastforce+)

lemma run_set_runs_of: "run_set (runs_of xs) = set xs"
proof (induction xs)
  case Nil
  show ?case by simp
next
  case (Cons x xs)
  show ?case
  proof (cases "runs_of xs")
    case Nil
    with Cons.IH show ?thesis by auto
  next
    case (Cons r rs)
    obtain s e where r: "r = (s, e)" by (cases r)
    with Cons have s: "runs_of xs = (s, e) # rs" by simp
    with Cons.IH have xs: "{s..<e} \<union> run_set rs = set xs" by simp
    have "s < e" using runs_of_starts [of s e xs] s by simp
    then have join: "s = x + 1 \<Longrightarrow> {x..<e} = insert x {s..<e}" by auto
    have one: "{x..<x + 1} = {x}" by auto
    show ?thesis
      by (cases "s = x + 1") (simp_all add: s join one flip: xs)
  qed
qed

lemma ascending_runs_of: "sorted_wrt (<) xs \<Longrightarrow> ascending_runs (runs_of xs)"
proof (induction xs)
  case Nil
  show ?case by simp
next
  case (Cons x xs)
  then have IH: "ascending_runs (runs_of xs)" and lt: "\<forall>y \<in> set xs. x + 1 \<le> y"
    by auto
  have "\<forall>(s, e) \<in> set (runs_of xs). x + 1 \<le> s"
    using lt runs_of_starts by fastforce
  with IH show ?case by (auto split: list.splits)
qed

definition listbm_set :: "32 word list \<Rightarrow> int set" where
  "listbm_set b = uint ` set b"

definition listbm_sorted :: "32 word list \<Rightarrow> int list" where
  "listbm_sorted b = map uint (sort (remdups b))"

definition listbm_ops :: "32 word list bitmap_ops" where
  "listbm_ops = \<lparr>
     bm_New = [],
     bm_Add = (\<lambda>b x. List.insert (word_of_int x) b),
     bm_AddRange = (\<lambda>b s e. b @ map word_of_int [s..e - 1]),
     bm_RemoveRange = (\<lambda>b s e. filter (\<lambda>w. \<not> (s \<le> uint w \<and> uint w < e)) b),
     bm_Contains = (\<lambda>b x. x \<in> set (map uint b)),
     bm_CardinalityInRange = (\<lambda>b s e. int (length (filter (\<lambda>x. s \<le> x \<and> x < e) (listbm_sorted b)))),
     bm_GetCardinality = (\<lambda>b. int (length (listbm_sorted b))),
     bm_Or = (\<lambda>b c. b @ c),
     bm_AndNot = (\<lambda>b c. filter (\<lambda>w. w \<notin> set c) b),
     bm_Ranges = (\<lambda>b. runs_of (listbm_sorted b)),
     bm_Iterator = (\<lambda>b. listbm_sorted b)\<rparr>"

lemma set_listbm_sorted [simp]: "set (listbm_sorted b) = listbm_set b"
  by (simp add: listbm_sorted_def listbm_set_def)

lemma sorted_listbm_sorted: "sorted_wrt (<) (listbm_sorted b)"
proof -
  have "sorted_wrt (<) (sort (remdups b))"
    using sorted_sort [of "remdups b"] by (simp add: strict_sorted_iff)
  then show ?thesis
    by (simp add: listbm_sorted_def sorted_wrt_map word_less_def [symmetric])
qed

lemma uint_word32 [simp]: "0 \<le> x \<Longrightarrow> x < 4294967296 \<Longrightarrow> uint (word_of_int x :: 32 word) = x"
  by (simp add: uint_word_of_int)

lemma card_listbm: "int (length (filter P (listbm_sorted b))) = int (card {x \<in> listbm_set b. P x})"
proof -
  have "distinct (listbm_sorted b)"
    using sorted_listbm_sorted strict_sorted_iff by blast
  then show ?thesis
    using distinct_card [of "filter P (listbm_sorted b)"] by (simp add: Collect_conj_eq)
qed

interpretation lbm: roaring_bitmap listbm_ops listbm_set
proof unfold_locales
  fix b c :: "32 word list" and x s e :: int
  show "listbm_set b \<subseteq> {0..<4294967296}"
    using uint_lt2p [where 'a = 32] by (auto simp: listbm_set_def)
  show "listbm_set (bm_New listbm_ops) = {}"
    by (simp add: listbm_ops_def listbm_set_def)
  show "listbm_set (bm_Add listbm_ops b x) = insert x (listbm_set b)"
    if "0 \<le> x" "x < 4294967296"
    using that by (simp add: listbm_ops_def listbm_set_def)
  show "listbm_set (bm_AddRange listbm_ops b s e) = listbm_set b \<union> {s..<e}"
    if "0 \<le> s" "e \<le> 4294967296"
  proof -
    have "uint (word_of_int y :: 32 word) = y" if "y \<in> {s..e - 1}" for y
      using that \<open>0 \<le> s\<close> \<open>e \<le> 4294967296\<close> by simp
    then have "(\<lambda>y. uint (word_of_int y :: 32 word)) ` {s..e - 1} = {s..e - 1}" by simp
    then show ?thesis
      by (auto simp: listbm_ops_def listbm_set_def image_Un image_image)
  qed
  show "listbm_set (bm_RemoveRange listbm_ops b s e) = listbm_set b - {s..<e}"
    by (auto simp: listbm_ops_def listbm_set_def)
  show "bm_Contains listbm_ops b x \<longleftrightarrow> x \<in> listbm_set b"
    by (auto simp: listbm_ops_def listbm_set_def)
  show "bm_CardinalityInRange listbm_ops b s e = int (card (listbm_set b \<inter> {s..<e}))"
    using card_listbm [of "\<lambda>x. s \<le> x \<and> x < e" b]
    by (simp add: listbm_ops_def Int_def)
  show "bm_GetCardinality listbm_ops b = int (card (listbm_set b))"
    using card_listbm [of "\<lambda>_. True" b] by (simp add: listbm_ops_def)
  show "listbm_set (bm_Or listbm_ops b c) = listbm_set b \<union> listbm_set c"
    by (auto simp: listbm_ops_def listbm_set_def)
  show "listbm_set (bm_AndNot listbm_ops b c) = listbm_set b - listbm_set c"
  proof -
    have "inj (uint :: 32 word \<Rightarrow> int)" by (metis injI word_of_int_uint)
    moreover have "set (filter (\<lambda>w. w \<notin> set c) b) = set b - set c" by auto
    ultimately show ?thesis by (simp add: listbm_ops_def listbm_set_def image_set_diff del: set_filter)
  qed
  show "ascending_runs (bm_Ranges listbm_ops b)"
    and "run_set (bm_Ranges listbm_ops b) = listbm_set b"
    by (simp_all add: listbm_ops_def ascending_runs_of sorted_listbm_sorted run_set_runs_of)
  show "sorted_wrt (<) (bm_Iterator listbm_ops b)"
    by (simp add: listbm_ops_def sorted_listbm_sorted)
  show "set (bm_Iterator listbm_ops b) = listbm_set b"
    by (simp add: listbm_ops_def)
qed

end
