(* ===== verification/Blocks.thy ===== *)
theory Blocks
  imports Bitmap
begin

text \<open>
  Block arithmetic and byte ranges: \<open>packages/shared/pkg/storage/header/block.go\<close>, the zero
  test of \<open>header/diff.go\<close> and the ranges of \<open>packages/orchestrator/pkg/sandbox/block/range.go\<close>.
  Division by a zero block size panics in Go; the
  definitions are used with positive block sizes only, which the lemmas state.
\<close>

section \<open>Block indices (block.go)\<close>

definition PageSize :: int where "PageSize = 4096"
definition HugepageSize :: int where "HugepageSize = 2097152"

definition BlockOffset :: "int \<Rightarrow> int \<Rightarrow> int" where
  "BlockOffset idx blockSize = i64 (idx * blockSize)"

definition BlockIdx :: "int \<Rightarrow> int \<Rightarrow> int" where
  "BlockIdx off blockSize = i64 (off sdiv blockSize)"

definition BlockCeilIdx :: "int \<Rightarrow> int \<Rightarrow> int" where
  "BlockCeilIdx off blockSize = i64 (i64 (i64 (off + blockSize) - 1) sdiv blockSize)"

definition TotalBlocks :: "int \<Rightarrow> int \<Rightarrow> int" where
  "TotalBlocks sz blockSize = i64 (i64 (i64 (sz + blockSize) - 1) sdiv blockSize)"

definition BlocksOffsets :: "int \<Rightarrow> int \<Rightarrow> int list" where
  "BlocksOffsets sz blockSize =
     map (\<lambda>i. BlockOffset i blockSize) [0..TotalBlocks sz blockSize - 1]"

lemma sdiv_nonneg: "0 \<le> a \<Longrightarrow> 0 < b \<Longrightarrow> (a::int) sdiv b = a div b"
  by (simp add: signed_divide_int_def sgn_if)

lemma smod_nonneg: "0 \<le> a \<Longrightarrow> 0 < b \<Longrightarrow> (a::int) smod b = a mod b"
  by (cases "a = 0") (simp_all add: signed_modulo_int_def)

lemma div_le_nonneg: "0 \<le> a \<Longrightarrow> 0 < b \<Longrightarrow> (a::int) div b \<le> a"
  using int_div_less_self [of a b] by (cases "a = 0"; cases "b = 1") auto

lemma BlockIdx_eq:
  assumes "0 \<le> off" "off \<le> max_i64" "0 < bs"
  shows "BlockIdx off bs = off div bs"
proof -
  have "0 \<le> off div bs" "off div bs \<le> off"
    using assms div_le_nonneg by (simp_all add: pos_imp_zdiv_nonneg_iff)
  with assms show ?thesis
    unfolding BlockIdx_def by (simp add: sdiv_nonneg wrap)
qed

lemma BlockCeilIdx_eq:
  assumes "0 \<le> off" "0 < bs" "off + bs \<le> max_i64"
  shows "BlockCeilIdx off bs = (off + bs - 1) div bs"
proof -
  have "0 \<le> (off + bs - 1) div bs"
    using assms by (simp add: pos_imp_zdiv_nonneg_iff)
  moreover have "(off + bs - 1) div bs \<le> off + bs - 1"
    using assms by (intro div_le_nonneg) simp_all
  moreover have "i64 (off + bs) = off + bs" "i64 (off + bs - 1) = off + bs - 1"
    using assms by (simp_all add: wrap)
  ultimately show ?thesis
    using assms unfolding BlockCeilIdx_def by (simp add: sdiv_nonneg wrap)
qed

lemma BlockOffset_eq:
  "0 \<le> idx \<Longrightarrow> 0 \<le> bs \<Longrightarrow> idx * bs \<le> max_i64 \<Longrightarrow> BlockOffset idx bs = idx * bs"
  unfolding BlockOffset_def using mult_nonneg_nonneg [of idx bs] by (intro i64_id) linarith+

lemma TotalBlocks_BlockCeilIdx: "TotalBlocks = BlockCeilIdx"
  by (intro ext) (simp add: TotalBlocks_def BlockCeilIdx_def)

section \<open>The zero test (diff.go)\<close>

definition IsZero :: "bytes \<Rightarrow> bool" where
  "IsZero b =
     (let n = length b in
      if n = 0 then True
      else if or (or (b ! 0) (b ! (n - 1))) (b ! (n div 2)) \<noteq> 0 then False
      else if n \<le> 3 then True
      else take (n - 1) b = drop 1 b)"

lemma shift_eq_constant:
  "take (length xs - 1) xs = drop 1 xs \<Longrightarrow> i < length xs \<Longrightarrow> xs ! i = xs ! 0"
proof (induction i)
  case 0
  show ?case by simp
next
  case (Suc i)
  have "xs ! Suc i = drop 1 xs ! i" using Suc.prems by simp
  also have "\<dots> = take (length xs - 1) xs ! i" using Suc.prems(1) by simp
  also have "\<dots> = xs ! i" using Suc.prems(2) by simp
  finally show ?case using Suc by simp
qed

lemma constant_shift_eq: "\<forall>x \<in> set xs. x = c \<Longrightarrow> take (length xs - 1) xs = drop 1 xs"
proof (rule nth_equalityI)
  fix i assume c: "\<forall>x \<in> set xs. x = c" and "i < length (take (length xs - 1) xs)"
  then have "i < length xs" "Suc i < length xs" by auto
  with c have "xs ! i = c" "xs ! Suc i = c" using nth_mem by blast+
  then show "take (length xs - 1) xs ! i = drop 1 xs ! i"
    using \<open>Suc i < length xs\<close> by simp
qed simp

lemma or_eq_0: "or (a :: 'a::len word) b = 0 \<longleftrightarrow> a = 0 \<and> b = 0"
  by (auto simp: bit_eq_iff bit_or_iff)

lemma IsZero_iff_aux: "IsZero b \<longleftrightarrow> (\<forall>x \<in> set b. x = 0)"
proof (cases "length b = 0")
  case True
  then show ?thesis by (simp add: IsZero_def)
next
  case False
  let ?n = "length b"
  let ?s = "b ! 0 = 0 \<and> b ! (?n - 1) = 0 \<and> b ! (?n div 2) = 0"
  have unf: "IsZero b \<longleftrightarrow> ?s \<and> (?n \<le> 3 \<or> take (?n - 1) b = drop 1 b)"
    using False by (auto simp: IsZero_def Let_def or_eq_0)
  show ?thesis
  proof
    assume *: "\<forall>x \<in> set b. x = 0"
    with False have ?s by simp
    with * unf constant_shift_eq [of b 0] show "IsZero b" by simp
  next
    assume z: "IsZero b"
    show "\<forall>x \<in> set b. x = 0"
    proof (cases "?n \<le> 3")
      case True
      have "i = 0 \<or> i = ?n - 1 \<or> i = ?n div 2" if "i < ?n" for i
        using that True by arith
      then show ?thesis
        using z unf by (metis in_set_conv_nth)
    next
      case 2: False
      then have "\<forall>i < ?n. b ! i = b ! 0"
        using z unf shift_eq_constant by blast
      with z unf show ?thesis by (auto simp: in_set_conv_nth)
    qed
  qed
qed

section \<open>Byte ranges (range.go)\<close>

record Range =
  RStart :: int
  RSize :: int

definition End :: "Range \<Rightarrow> int" where
  "End r = i64 (RStart r + RSize r)"

definition NewRange :: "int \<Rightarrow> int \<Rightarrow> Range" where
  "NewRange start sz = \<lparr>RStart = start, RSize = sz\<rparr>"

definition NewRangeFromBlocks :: "int \<Rightarrow> int \<Rightarrow> int \<Rightarrow> Range" where
  "NewRangeFromBlocks startIdx numberOfBlocks blockSize =
     \<lparr>RStart = BlockOffset startIdx blockSize, RSize = BlockOffset numberOfBlocks blockSize\<rparr>"

definition BitsetRanges :: "'b bitmap_ops \<Rightarrow> 'b \<Rightarrow> int \<Rightarrow> Range list" where
  "BitsetRanges ops b blockSize =
     map (\<lambda>(start, endExcl). NewRangeFromBlocks start (i64 (endExcl - start)) blockSize)
       (bm_Ranges ops b)"

definition GetSize :: "Range list \<Rightarrow> int" where
  "GetSize rs = foldl (\<lambda>acc r. i64 (acc + RSize r)) 0 rs"

section \<open>Properties\<close>

text \<open>The zero test that probes three bytes and then compares the buffer with itself
  shifted by one is exact: it answers true precisely when every byte is zero.\<close>

theorem IsZero_exact: "IsZero b \<longleftrightarrow> b = replicate (length b) 0"
  unfolding IsZero_iff_aux by (auto simp: replicate_eqI dest: sym)
    (metis in_set_replicate)

end
