(* ===== verification/BuildMapping.thy ===== *)
theory BuildMapping
  imports Blocks
begin

text \<open>
  The source map of a snapshot layer, \<open>packages/shared/pkg/storage/header/mapping.go\<close> and the
  validation of \<open>header/inspect.go\<close>: a list of \<open>BuildMap\<close> entries that says, for every byte of
  a block device, which build stores it and at which offset of that build's artifact.

  The abstract view of such a list is the partial function \<open>src_at\<close> from device addresses to
  (build, storage address). Building a layer over its parent (\<open>MergeMappings\<close>) is the override
  of these functions, joining entries (\<open>NormalizeMappings\<close>) leaves them unchanged up to the
  storage address of empty (\<open>uuid.Nil\<close>) regions, and the mappings created from a bitmap of
  dirty blocks cover exactly those blocks.
\<close>

section \<open>Entries\<close>

record BuildMap =
  Offset :: int
  Length :: int
  BuildId :: uuid
  BuildStorageOffset :: int

abbreviation bm_end :: "BuildMap \<Rightarrow> int" where
  "bm_end m \<equiv> Offset m + Length m"

text \<open>Entries whose device and storage ranges fit in a non-negative \<open>int64\<close>.\<close>

definition bm_ok :: "BuildMap \<Rightarrow> bool" where
  "bm_ok m \<longleftrightarrow> 0 \<le> Offset m \<and> 0 \<le> Length m \<and> Offset m + Length m \<le> max_i64 \<and>
     0 \<le> BuildStorageOffset m \<and> BuildStorageOffset m + Length m \<le> max_i64"

definition maps_ok :: "BuildMap list \<Rightarrow> bool" where
  "maps_ok ms \<longleftrightarrow> (\<forall>m \<in> set ms. bm_ok m)"

text \<open>Entries in device order, without overlap.\<close>

definition disjoint_sorted :: "BuildMap list \<Rightarrow> bool" where
  "disjoint_sorted ms \<longleftrightarrow> sorted_wrt (\<lambda>a b. bm_end a \<le> Offset b) ms"

text \<open>Where the byte at device address \<open>x\<close> is stored. Entries of the build \<open>uuid.Nil\<close> are holes:
  they read as zeros and their storage offset has no meaning.\<close>

definition bm_src :: "BuildMap \<Rightarrow> int \<Rightarrow> uuid \<times> int" where
  "bm_src m x = (if BuildId m = uuid_Nil then (uuid_Nil, 0)
     else (BuildId m, BuildStorageOffset m + (x - Offset m)))"

fun src_at :: "BuildMap list \<Rightarrow> int \<Rightarrow> (uuid \<times> int) option" where
  "src_at [] x = None"
| "src_at (m # ms) x =
     (if Offset m \<le> x \<and> x < Offset m + Length m
      then Some (bm_src m x)
      else src_at ms x)"

section \<open>Creating mappings from bitmaps\<close>

fun createMapping_loop :: "uuid \<Rightarrow> int \<Rightarrow> int \<Rightarrow> (int \<times> int) list \<Rightarrow> BuildMap list" where
  "createMapping_loop buildId blockSize buildStorageOffset [] = []"
| "createMapping_loop buildId blockSize buildStorageOffset ((start, endExcl) # rs) =
     (let blockLength = i64 (endExcl - start);
          m = \<lparr>Offset = u64 (BlockOffset start blockSize),
               Length = u64 (BlockOffset blockLength blockSize),
               BuildId = buildId,
               BuildStorageOffset = buildStorageOffset\<rparr>
      in m # createMapping_loop buildId blockSize (u64 (buildStorageOffset + Length m)) rs)"

definition CreateMapping :: "'b bitmap_ops \<Rightarrow> uuid \<Rightarrow> 'b \<Rightarrow> int \<Rightarrow> BuildMap list" where
  "CreateMapping ops buildId dirty blockSize =
     createMapping_loop buildId blockSize 0 (bm_Ranges ops dirty)"

definition createIdentityMapping :: "'b bitmap_ops \<Rightarrow> uuid \<Rightarrow> 'b \<Rightarrow> int \<Rightarrow> BuildMap list" where
  "createIdentityMapping ops buildId dirty blockSize =
     map (\<lambda>(start, endExcl).
            let blockLength = i64 (endExcl - start);
                off = u64 (BlockOffset start blockSize)
            in \<lparr>Offset = off,
                Length = u64 (BlockOffset blockLength blockSize),
                BuildId = buildId,
                BuildStorageOffset = off\<rparr>)
       (bm_Ranges ops dirty)"

section \<open>Merging a diff over a base\<close>

text \<open>The part of \<open>base\<close> before \<open>diff\<close> (its length is \<open>leftBaseLength\<close>) and the part after it
  (starting \<open>rightBaseShift\<close> bytes into \<open>base\<close>).\<close>

definition leftBaseLength :: "BuildMap \<Rightarrow> BuildMap \<Rightarrow> int" where
  "leftBaseLength base diff = i64 (i64 (Offset diff) - i64 (Offset base))"

definition leftBase :: "BuildMap \<Rightarrow> BuildMap \<Rightarrow> BuildMap" where
  "leftBase base diff =
     \<lparr>Offset = Offset base, Length = u64 (leftBaseLength base diff),
      BuildId = BuildId base, BuildStorageOffset = BuildStorageOffset base\<rparr>"

definition rightBaseShift :: "BuildMap \<Rightarrow> BuildMap \<Rightarrow> int" where
  "rightBaseShift base diff =
     i64 (i64 (i64 (Offset diff) + i64 (Length diff)) - i64 (Offset base))"

definition rightBaseLength :: "BuildMap \<Rightarrow> BuildMap \<Rightarrow> int" where
  "rightBaseLength base diff = i64 (i64 (Length base) - rightBaseShift base diff)"

definition rightBase :: "BuildMap \<Rightarrow> BuildMap \<Rightarrow> BuildMap" where
  "rightBase base diff =
     \<lparr>Offset = u64 (Offset base + u64 (rightBaseShift base diff)),
      Length = u64 (rightBaseLength base diff),
      BuildId = BuildId base,
      BuildStorageOffset = u64 (BuildStorageOffset base + u64 (rightBaseShift base diff))\<rparr>"

text \<open>The loop of \<open>MergeMappings\<close>: the two lists are the entries from \<open>baseIdx\<close> and \<open>diffIdx\<close>
  on, the result is what the rest of the loop and the two final appends add to \<open>mappings\<close>.
  The last branch of the source, which only prints a message and would loop, is the \<open>else\<close>
  branch here; \<open>merge_no_invalid_case\<close> shows that it is never taken.\<close>

function merge_loop :: "BuildMap list \<Rightarrow> BuildMap list \<Rightarrow> BuildMap list" where
  "merge_loop [] diffs = diffs"
| "merge_loop (base # bases) [] = base # bases"
| "merge_loop (base # bases) (diff # diffs) =
     (if Length base = 0 then merge_loop bases (diff # diffs)
      else if Length diff = 0 then merge_loop (base # bases) diffs
      else if u64 (Offset base + Length base) \<le> Offset diff
        then base # merge_loop bases (diff # diffs)
      else if u64 (Offset diff + Length diff) \<le> Offset base
        then diff # merge_loop (base # bases) diffs
      else if Offset base \<ge> Offset diff \<and>
              u64 (Offset base + Length base) \<le> u64 (Offset diff + Length diff)
        then merge_loop bases (diff # diffs)
      else if Offset diff \<ge> Offset base \<and>
              u64 (Offset diff + Length diff) \<le> u64 (Offset base + Length base)
        then (if leftBaseLength base diff > 0 then [leftBase base diff] else []) @
             diff #
             (if rightBaseLength base diff > 0
              then merge_loop (rightBase base diff # bases) diffs
              else merge_loop bases diffs)
      else if Offset base > Offset diff
        then diff #
             (if rightBaseLength base diff > 0
              then merge_loop (rightBase base diff # bases) diffs
              else merge_loop bases diffs)
      else if Offset diff > Offset base
        then (if leftBaseLength base diff > 0 then [leftBase base diff] else []) @
             merge_loop bases (diff # diffs)
      else [])"
  by pat_completeness auto
termination
  by (relation "measure (\<lambda>(bs, ds). length bs + length ds)") auto

declare merge_loop.simps(3) [simp del]

definition MergeMappings :: "BuildMap list \<Rightarrow> BuildMap list \<Rightarrow> BuildMap list" where
  "MergeMappings baseMapping diffMapping =
     (if diffMapping = [] then baseMapping else merge_loop baseMapping diffMapping)"

section \<open>Normalisation\<close>

fun normalize_loop :: "BuildMap \<Rightarrow> BuildMap list \<Rightarrow> BuildMap list" where
  "normalize_loop current [] = [current]"
| "normalize_loop current (mp # mps) =
     (let storageContiguous = (BuildId mp = uuid_Nil \<or>
            BuildStorageOffset mp = u64 (BuildStorageOffset current + Length current))
      in if BuildId mp = BuildId current \<and> storageContiguous
         then normalize_loop (current\<lparr>Length := u64 (Length current + Length mp)\<rparr>) mps
         else current # normalize_loop mp mps)"

definition NormalizeMappings :: "BuildMap list \<Rightarrow> BuildMap list" where
  "NormalizeMappings mappings =
     (case mappings of [] \<Rightarrow> [] | m # ms \<Rightarrow> normalize_loop m ms)"

section \<open>Validation and comparison (inspect.go)\<close>

fun validate_loop :: "BuildMap list \<Rightarrow> int \<Rightarrow> int \<Rightarrow> int \<Rightarrow> int result" where
  "validate_loop [] sz blockSize currentOffset = Inr currentOffset"
| "validate_loop (m # ms) sz blockSize currentOffset =
     (if blockSize = 0 then Inl Panic
      else if currentOffset \<noteq> Offset m then Inl (Err ''does not start at the correct offset'')
      else if Length m mod blockSize \<noteq> 0 then Inl (Err ''has an invalid length'')
      else if u64 (currentOffset + Length m) > sz then Inl (Err ''goes beyond the size'')
      else validate_loop ms sz blockSize (u64 (currentOffset + Length m)))"

text \<open>A zero block size panics in the division of the first entry (\<open>mod\<close>, or the division in an
  error message). The error message of the final check formats the last mapping, which panics on
  an empty list.\<close>

definition ValidateMappings :: "BuildMap list \<Rightarrow> int \<Rightarrow> int \<Rightarrow> unit result" where
  "ValidateMappings mappings sz blockSize =
     bindR (validate_loop mappings sz blockSize 0) (\<lambda>currentOffset.
       if currentOffset \<noteq> sz
       then (if mappings = [] then Inl Panic else Inl (Err ''does not cover the whole size''))
       else Inr ())"

definition BuildMap_Equal :: "BuildMap \<Rightarrow> BuildMap \<Rightarrow> bool" where
  "BuildMap_Equal a b \<longleftrightarrow> Offset a = Offset b \<and> Length a = Length b \<and> BuildId a = BuildId b"

definition Equal :: "BuildMap list \<Rightarrow> BuildMap list \<Rightarrow> bool" where
  "Equal a b \<longleftrightarrow> length a = length b \<and> list_all2 BuildMap_Equal a b"

definition Layers :: "BuildMap list \<Rightarrow> uuid set" where
  "Layers mappings = BuildId ` set mappings"

section \<open>Basic facts\<close>

definition lower :: "int \<Rightarrow> BuildMap list \<Rightarrow> bool" where
  "lower a ms \<longleftrightarrow> (\<forall>m \<in> set ms. a \<le> Offset m)"

lemma lower_simps [simp]:
  "lower a []" "lower a (m # ms) \<longleftrightarrow> a \<le> Offset m \<and> lower a ms"
  "lower a (xs @ ys) \<longleftrightarrow> lower a xs \<and> lower a ys"
  by (auto simp: lower_def)

lemma lower_mono: "lower a ms \<Longrightarrow> b \<le> a \<Longrightarrow> lower b ms"
  by (auto simp: lower_def)

lemma maps_ok_simps [simp]:
  "maps_ok []" "maps_ok (m # ms) \<longleftrightarrow> bm_ok m \<and> maps_ok ms"
  "maps_ok (xs @ ys) \<longleftrightarrow> maps_ok xs \<and> maps_ok ys"
  by (auto simp: maps_ok_def)

lemma disjoint_sorted_simps [simp]:
  "disjoint_sorted []"
  "disjoint_sorted (m # ms) \<longleftrightarrow> lower (bm_end m) ms \<and> disjoint_sorted ms"
  by (auto simp: disjoint_sorted_def lower_def)

lemma src_at_lower: "lower a ms \<Longrightarrow> x < a \<Longrightarrow> src_at ms x = None"
  by (induction ms) auto

lemma bm_ok_nonneg: "bm_ok m \<Longrightarrow> 0 \<le> Length m"
  by (simp add: bm_ok_def)

section \<open>Correctness of MergeMappings\<close>

text \<open>On entries in range the machine arithmetic of the loop is exact.\<close>

lemma u64_end: "bm_ok m \<Longrightarrow> u64 (Offset m + Length m) = bm_end m"
  by (simp add: bm_ok_def wrap)

lemma leftBaseLength_eq:
  "bm_ok b \<Longrightarrow> bm_ok d \<Longrightarrow> leftBaseLength b d = Offset d - Offset b"
  by (simp add: bm_ok_def leftBaseLength_def wrap)

lemma rightBaseShift_eq:
  "bm_ok b \<Longrightarrow> bm_ok d \<Longrightarrow> rightBaseShift b d = bm_end d - Offset b"
  by (simp add: bm_ok_def rightBaseShift_def wrap)

lemma rightBaseLength_eq:
  "bm_ok b \<Longrightarrow> bm_ok d \<Longrightarrow> rightBaseLength b d = bm_end b - bm_end d"
  by (simp add: rightBaseLength_def rightBaseShift_eq) (simp add: bm_ok_def wrap)

lemma leftBase_eq:
  "bm_ok b \<Longrightarrow> bm_ok d \<Longrightarrow> Offset b \<le> Offset d \<Longrightarrow>
   leftBase b d = b\<lparr>Length := Offset d - Offset b\<rparr>"
  by (simp add: leftBase_def leftBaseLength_eq) (simp add: bm_ok_def wrap)

lemma rightBase_eq:
  assumes "bm_ok b" "bm_ok d" "Offset b \<le> bm_end d" "bm_end d \<le> bm_end b"
  shows "rightBase b d =
    b\<lparr>Offset := bm_end d, Length := bm_end b - bm_end d,
      BuildStorageOffset := BuildStorageOffset b + (bm_end d - Offset b)\<rparr>"
  using assms
  by (simp add: rightBase_def rightBaseShift_eq rightBaseLength_eq) (simp add: bm_ok_def wrap)

lemma bm_ok_leftBase:
  "bm_ok b \<Longrightarrow> Offset b \<le> Offset d \<Longrightarrow> Offset d \<le> bm_end b \<Longrightarrow>
   bm_ok (b\<lparr>Length := Offset d - Offset b\<rparr>)"
  by (simp add: bm_ok_def)

lemma bm_ok_rightBase:
  "bm_ok b \<Longrightarrow> Offset b \<le> e \<Longrightarrow> e \<le> bm_end b \<Longrightarrow>
   bm_ok (b\<lparr>Offset := e, Length := bm_end b - e,
      BuildStorageOffset := BuildStorageOffset b + (e - Offset b)\<rparr>)"
  by (simp add: bm_ok_def)

text \<open>The branches of the loop on entries in range: skip an empty base or diff entry, base
  before diff, diff before base, base hidden by diff, and the two overlaps that keep a left
  part and those that keep a right part of base.\<close>

lemma merge_loop_Cons:
  assumes "bm_ok b" "bm_ok d"
  shows "merge_loop (b # bs) (d # ds) =
    (if Length b = 0 then merge_loop bs (d # ds)
     else if Length d = 0 then merge_loop (b # bs) ds
     else if bm_end b \<le> Offset d then b # merge_loop bs (d # ds)
     else if bm_end d \<le> Offset b then d # merge_loop (b # bs) ds
     else if Offset d \<le> Offset b \<and> bm_end b \<le> bm_end d then merge_loop bs (d # ds)
     else if bm_end d < bm_end b
       then (if Offset b < Offset d then [b\<lparr>Length := Offset d - Offset b\<rparr>] else []) @ d #
            merge_loop (b\<lparr>Offset := bm_end d, Length := bm_end b - bm_end d,
              BuildStorageOffset := BuildStorageOffset b + (bm_end d - Offset b)\<rparr> # bs) ds
     else if bm_end d = bm_end b then b\<lparr>Length := Offset d - Offset b\<rparr> # d # merge_loop bs ds
     else b\<lparr>Length := Offset d - Offset b\<rparr> # merge_loop bs (d # ds))"
proof -
  have l: "leftBase b d = b\<lparr>Length := Offset d - Offset b\<rparr>" if "Offset b < Offset d"
    using that assms by (simp add: leftBase_eq)
  have r: "rightBase b d = b\<lparr>Offset := bm_end d, Length := bm_end b - bm_end d,
              BuildStorageOffset := BuildStorageOffset b + (bm_end d - Offset b)\<rparr>"
    if "Offset b < bm_end d" "bm_end d < bm_end b"
    using that assms by (simp add: rightBase_eq)
  note conv = u64_end [OF assms(1)] u64_end [OF assms(2)] leftBaseLength_eq [OF assms]
    rightBaseLength_eq [OF assms]
  show ?thesis
    unfolding merge_loop.simps(3) conv
    by (cases "Offset b < Offset d"; cases "bm_end d < bm_end b"; cases "bm_end d = bm_end b")
      (simp_all add: l r)
qed

text \<open>The branch that would loop is not reachable, for any entries at all.\<close>

lemma merge_no_invalid_case:
  assumes "\<not> (Offset base \<ge> Offset diff \<and>
              u64 (Offset base + Length base) \<le> u64 (Offset diff + Length diff))"
    and "\<not> (Offset diff \<ge> Offset base \<and>
              u64 (Offset diff + Length diff) \<le> u64 (Offset base + Length base))"
  shows "Offset base > Offset diff \<or> Offset diff > Offset base"
  using assms by linarith

text \<open>How two byte ranges can lie to each other, as the loop tells them apart.\<close>

lemma overlap_cases:
  fixes o1 l1 o2 l2 :: int
  assumes "0 \<le> l1" "0 \<le> l2"
  obtains "l1 = 0" | "0 < l1" "l2 = 0"
    | "0 < l1" "0 < l2" "o1 + l1 \<le> o2"
    | "0 < l1" "0 < l2" "o2 < o1 + l1" "o2 + l2 \<le> o1"
    | "0 < l1" "0 < l2" "o2 < o1 + l1" "o1 < o2 + l2" "o2 \<le> o1" "o1 + l1 \<le> o2 + l2"
    | "0 < l1" "0 < l2" "o2 < o1 + l1" "o1 < o2 + l2" "o2 + l2 < o1 + l1"
    | "0 < l1" "0 < l2" "o1 < o2" "o2 < o1 + l1" "o2 + l2 = o1 + l1"
    | "0 < l1" "0 < l2" "o1 < o2" "o2 < o1 + l1" "o1 + l1 < o2 + l2"
proof -
  consider "l1 = 0" | "0 < l1" "l2 = 0" | "0 < l1" "0 < l2" "o1 + l1 \<le> o2"
    | "0 < l1" "0 < l2" "o2 < o1 + l1" "o2 + l2 \<le> o1"
    | "0 < l1" "0 < l2" "o2 < o1 + l1" "o1 < o2 + l2"
    using assms by linarith
  then show thesis
  proof cases
    case 5
    then consider "o2 \<le> o1" "o1 + l1 \<le> o2 + l2" | "o2 + l2 < o1 + l1"
      | "o1 < o2" "o2 + l2 = o1 + l1" | "o1 < o2" "o1 + l1 < o2 + l2"
      by linarith
    with 5 that(5-8) show thesis by cases blast+
  qed (use that(1-4) in blast)+
qed
text \<open>Induction along the loop, one case per branch, for relations between the two lists and
  the result.\<close>

lemma merge_loop_induct [consumes 2, case_names base diff skip_base skip_diff before after
    hidden right exact left]:
  assumes "maps_ok bs" "maps_ok ds"
    and "\<And>ds. maps_ok ds \<Longrightarrow> P [] ds ds"
    and "\<And>bs. maps_ok bs \<Longrightarrow> P bs [] bs"
    and "\<And>b bs d ds r. bm_ok b \<Longrightarrow> bm_ok d \<Longrightarrow> Length b = 0 \<Longrightarrow> P bs (d # ds) r \<Longrightarrow> P (b # bs) (d # ds) r"
    and "\<And>b bs d ds r. bm_ok b \<Longrightarrow> bm_ok d \<Longrightarrow> Length d = 0 \<Longrightarrow> P (b # bs) ds r \<Longrightarrow> P (b # bs) (d # ds) r"
    and "\<And>b bs d ds r. bm_ok b \<Longrightarrow> bm_ok d \<Longrightarrow> 0 < Length b \<Longrightarrow> bm_end b \<le> Offset d \<Longrightarrow>
           P bs (d # ds) r \<Longrightarrow> P (b # bs) (d # ds) (b # r)"
    and "\<And>b bs d ds r. bm_ok b \<Longrightarrow> bm_ok d \<Longrightarrow> 0 < Length d \<Longrightarrow> bm_end d \<le> Offset b \<Longrightarrow>
           P (b # bs) ds r \<Longrightarrow> P (b # bs) (d # ds) (d # r)"
    and "\<And>b bs d ds r. bm_ok b \<Longrightarrow> bm_ok d \<Longrightarrow> Offset d \<le> Offset b \<Longrightarrow> bm_end b \<le> bm_end d \<Longrightarrow>
           P bs (d # ds) r \<Longrightarrow> P (b # bs) (d # ds) r"
    and "\<And>b bs d ds r. bm_ok b \<Longrightarrow> bm_ok d \<Longrightarrow> 0 < Length d \<Longrightarrow>
           Offset d < bm_end b \<Longrightarrow> Offset b < bm_end d \<Longrightarrow> bm_end d < bm_end b \<Longrightarrow>
           P (b\<lparr>Offset := bm_end d, Length := bm_end b - bm_end d,
              BuildStorageOffset := BuildStorageOffset b + (bm_end d - Offset b)\<rparr> # bs) ds r \<Longrightarrow>
           P (b # bs) (d # ds)
             ((if Offset b < Offset d then [b\<lparr>Length := Offset d - Offset b\<rparr>] else []) @ d # r)"
    and "\<And>b bs d ds r. bm_ok b \<Longrightarrow> bm_ok d \<Longrightarrow> 0 < Length d \<Longrightarrow>
           Offset b < Offset d \<Longrightarrow> bm_end d = bm_end b \<Longrightarrow> P bs ds r \<Longrightarrow>
           P (b # bs) (d # ds) (b\<lparr>Length := Offset d - Offset b\<rparr> # d # r)"
    and "\<And>b bs d ds r. bm_ok b \<Longrightarrow> bm_ok d \<Longrightarrow> 0 < Length d \<Longrightarrow>
           Offset b < Offset d \<Longrightarrow> Offset d < bm_end b \<Longrightarrow> bm_end b < bm_end d \<Longrightarrow>
           P bs (d # ds) r \<Longrightarrow> P (b # bs) (d # ds) (b\<lparr>Length := Offset d - Offset b\<rparr> # r)"
  shows "P bs ds (merge_loop bs ds)"
  using assms(1,2)
proof (induction "length bs + length ds" arbitrary: bs ds rule: less_induct)
  case less
  note IH = less.hyps and P = assms(3-)
  show ?case
  proof (cases bs)
    case Nil
    then show ?thesis using less.prems P(1) by simp
  next
    case b: (Cons b bs')
    show ?thesis
    proof (cases ds)
      case Nil
      then show ?thesis using b less.prems P(2) [of bs] by simp
    next
      case d: (Cons d ds')
      from less.prems b d have ok: "bm_ok b" "bm_ok d" "maps_ok bs'" "maps_ok ds'" by simp_all
      have len: "0 \<le> Length b" "0 \<le> Length d" using ok bm_ok_nonneg by simp_all
      have r1: "P bs' (d # ds') (merge_loop bs' (d # ds'))" using IH [of bs' "d # ds'"] ok b d by simp
      have r2: "P (b # bs') ds' (merge_loop (b # bs') ds')" using IH [of "b # bs'" ds'] ok b d by simp
      have r3: "P bs' ds' (merge_loop bs' ds')" using IH [of bs' ds'] ok b d by simp
      let ?rb = "b\<lparr>Offset := bm_end d, Length := bm_end b - bm_end d,
              BuildStorageOffset := BuildStorageOffset b + (bm_end d - Offset b)\<rparr>"
      have r4: "P (?rb # bs') ds' (merge_loop (?rb # bs') ds')"
        if "Offset b < bm_end d" "bm_end d < bm_end b"
        using IH [of "?rb # bs'" ds'] ok b d bm_ok_rightBase [of b "bm_end d"] that by simp
      show ?thesis
      proof (rule overlap_cases [OF len])
        assume c: "Length b = 0"
        then show ?thesis using P(3) [OF ok(1,2) c r1] b d by (simp add: merge_loop_Cons ok)
      next
        assume c: "0 < Length b" "Length d = 0"
        then show ?thesis using P(4) [OF ok(1,2) c(2) r2] b d by (simp add: merge_loop_Cons ok)
      next
        assume c: "0 < Length b" "0 < Length d" "bm_end b \<le> Offset d"
        then show ?thesis using P(5) [OF ok(1,2) c(1,3) r1] b d by (simp add: merge_loop_Cons ok)
      next
        assume c: "0 < Length b" "0 < Length d" "Offset d < bm_end b" "bm_end d \<le> Offset b"
        then show ?thesis using P(6) [OF ok(1,2) c(2,4) r2] b d by (simp add: merge_loop_Cons ok)
      next
        assume c: "0 < Length b" "0 < Length d" "Offset d < bm_end b" "Offset b < bm_end d" "Offset d \<le> Offset b" "bm_end b \<le> bm_end d"
        then show ?thesis using P(7) [OF ok(1,2) c(5,6) r1] b d by (simp add: merge_loop_Cons ok)
      next
        assume c: "0 < Length b" "0 < Length d" "Offset d < bm_end b" "Offset b < bm_end d" "bm_end d < bm_end b"
        then show ?thesis using P(8) [OF ok(1,2) c(2-5) r4 [OF c(4,5)]] b d
          by (simp add: merge_loop_Cons ok)
      next
        assume c: "0 < Length b" "0 < Length d" "Offset b < Offset d" "Offset d < bm_end b" "bm_end d = bm_end b"
        then show ?thesis using P(9) [OF ok(1,2) c(2,3,5) r3] b d by (simp add: merge_loop_Cons ok)
      next
        assume c: "0 < Length b" "0 < Length d" "Offset b < Offset d" "Offset d < bm_end b" "bm_end b < bm_end d"
        then show ?thesis using P(10) [OF ok(1,2) c(2-5) r1] b d by (simp add: merge_loop_Cons ok)
      qed
    qed
  qed
qed

lemma merge_loop_ok: "maps_ok bs \<Longrightarrow> maps_ok ds \<Longrightarrow> maps_ok (merge_loop bs ds)"
  by (induction rule: merge_loop_induct [where P = "\<lambda>bs ds r. maps_ok r"]) (auto simp: bm_ok_leftBase)


lemma merge_loop_sorted:
  assumes "maps_ok bs" "maps_ok ds" "disjoint_sorted bs" "disjoint_sorted ds"
  shows "disjoint_sorted (merge_loop bs ds)"
    and "\<And>a. lower a bs \<Longrightarrow> lower a ds \<Longrightarrow> lower a (merge_loop bs ds)"
proof -
  let ?P = "\<lambda>bs ds r. disjoint_sorted bs \<longrightarrow> disjoint_sorted ds \<longrightarrow>
    disjoint_sorted r \<and> (\<forall>a. lower a bs \<longrightarrow> lower a ds \<longrightarrow> lower a r)"
  have "?P bs ds (merge_loop bs ds)"
    using assms(1,2)
  proof (induction rule: merge_loop_induct [where P = ?P])
    case (before b bs d ds r)
    then have "disjoint_sorted (d # ds) \<longrightarrow> lower (bm_end b) ds"
      by (auto dest!: bm_ok_nonneg elim: lower_mono)
    with before show ?case by auto
  next
    case (after b bs d ds r)
    then have "disjoint_sorted (b # bs) \<longrightarrow> lower (bm_end d) bs"
      by (auto dest!: bm_ok_nonneg elim: lower_mono)
    with after show ?case by auto
  next
    case (right b bs d ds r)
    then have "disjoint_sorted (b # bs) \<longrightarrow> lower (bm_end d) bs"
      by (auto elim: lower_mono)
    with right have "disjoint_sorted (b # bs) \<longrightarrow> disjoint_sorted (d # ds) \<longrightarrow> lower (bm_end d) r"
      by auto
    with right show ?case by (auto elim: lower_mono)
  next
    case (exact b bs d ds r)
    then have "disjoint_sorted (b # bs) \<longrightarrow> disjoint_sorted (d # ds) \<longrightarrow>
        lower (Offset d) bs \<and> lower (Offset d) ds"
      by (auto elim: lower_mono)
    with exact show ?case by auto
  next
    case (left b bs d ds r)
    then have "disjoint_sorted (b # bs) \<longrightarrow> disjoint_sorted (d # ds) \<longrightarrow>
        lower (Offset d) bs \<and> lower (Offset d) ds"
      by (auto elim: lower_mono)
    with left show ?case by auto
  qed (auto dest!: bm_ok_nonneg elim: lower_mono)
  with assms(3,4) show "disjoint_sorted (merge_loop bs ds)"
    and "\<And>a. lower a bs \<Longrightarrow> lower a ds \<Longrightarrow> lower a (merge_loop bs ds)" by auto
qed

lemma merge_loop_src:
  assumes "maps_ok bs" "maps_ok ds" "disjoint_sorted bs" "disjoint_sorted ds"
  shows "src_at (merge_loop bs ds) = src_at bs ++ src_at ds"
proof -
  let ?P = "\<lambda>bs ds r. disjoint_sorted bs \<longrightarrow> disjoint_sorted ds \<longrightarrow>
    (\<forall>x. src_at r x = (src_at bs ++ src_at ds) x)"
  have "?P bs ds (merge_loop bs ds)"
    using assms(1,2)
  proof (induction rule: merge_loop_induct [where P = ?P])
    case (before b bs d ds r)
    then show ?case
      by (auto dest!: bm_ok_nonneg simp: map_add_def src_at_lower bm_src_def split: option.splits)
  qed (auto simp: map_add_def src_at_lower bm_src_def split: option.splits)
  with assms(3,4) show ?thesis by auto
qed


text \<open>Entries that cover exactly \<open>[a, z)\<close>, in order and without gaps; none is empty.\<close>

fun tiles :: "int \<Rightarrow> BuildMap list \<Rightarrow> int \<Rightarrow> bool" where
  "tiles a [] z \<longleftrightarrow> a = z"
| "tiles a (m # ms) z \<longleftrightarrow> Offset m = a \<and> 0 < Length m \<and> tiles (bm_end m) ms z"

definition all_pos :: "BuildMap list \<Rightarrow> bool" where
  "all_pos ms \<longleftrightarrow> (\<forall>m \<in> set ms. 0 < Length m)"

lemma all_pos_simps [simp]:
  "all_pos []" "all_pos (m # ms) \<longleftrightarrow> 0 < Length m \<and> all_pos ms"
  "all_pos (xs @ ys) \<longleftrightarrow> all_pos xs \<and> all_pos ys"
  by (auto simp: all_pos_def)

lemma tiles_le: "tiles a ms z \<Longrightarrow> a \<le> z"
  by (induction ms arbitrary: a) force+

lemma tiles_lower: "tiles a ms z \<Longrightarrow> lower a ms"
proof (induction ms arbitrary: a)
  case (Cons m ms)
  from Cons.prems have "tiles (bm_end m) ms z" by auto
  then have "lower (bm_end m) ms" by (rule Cons.IH)
  then show ?case using Cons.prems by (auto elim: lower_mono)
qed simp

lemma tiles_sorted: "tiles a ms z \<Longrightarrow> disjoint_sorted ms"
  by (induction ms arbitrary: a) (auto intro: tiles_lower)

lemma tiles_all_pos: "tiles a ms z \<Longrightarrow> all_pos ms"
  by (induction ms arbitrary: a) auto

lemma tiles_src: "tiles a ms z \<Longrightarrow> src_at ms x \<noteq> None \<longleftrightarrow> a \<le> x \<and> x < z"
proof (induction ms arbitrary: a)
  case (Cons m ms)
  then show ?case
    using tiles_le [of "bm_end m" ms z] tiles_lower [of a "m # ms" z] src_at_lower [of a ms x] by auto
qed auto

lemma tiles_iff_src:
  assumes "disjoint_sorted ms" "all_pos ms" "a \<le> z"
    and "\<And>x. src_at ms x \<noteq> None \<longleftrightarrow> a \<le> x \<and> x < z"
  shows "tiles a ms z"
  using assms
proof (induction ms arbitrary: a)
  case Nil
  from Nil(4) [of a] Nil(3) show ?case by auto
next
  case (Cons m ms)
  have pos: "0 < Length m" and low: "lower (bm_end m) ms" using Cons.prems by auto
  have "src_at (m # ms) (Offset m) \<noteq> None" "src_at (m # ms) (bm_end m - 1) \<noteq> None"
    using pos by auto
  then have m: "a \<le> Offset m" "bm_end m \<le> z"
    using Cons.prems(4) [of "Offset m"] Cons.prems(4) [of "bm_end m - 1"] by linarith+
  have "a < z" using m pos by linarith
  then have "src_at (m # ms) a \<noteq> None" using Cons.prems(4) by blast
  then have a: "Offset m = a"
    using m low pos src_at_lower [of "bm_end m" ms a] by (auto split: if_splits)
  have "src_at ms x \<noteq> None \<longleftrightarrow> bm_end m \<le> x \<and> x < z" for x
    using Cons.prems(4) [of x] a low pos src_at_lower [of "bm_end m" ms x]
    by (auto split: if_splits)
  with Cons.IH [of "bm_end m"] Cons.prems m a pos show ?case by auto
qed

lemma merge_loop_pos:
  "maps_ok bs \<Longrightarrow> maps_ok ds \<Longrightarrow> all_pos bs \<Longrightarrow> all_pos ds \<Longrightarrow> all_pos (merge_loop bs ds)"
proof -
  assume ok: "maps_ok bs" "maps_ok ds" and pos: "all_pos bs" "all_pos ds"
  let ?P = "\<lambda>bs ds r. all_pos bs \<longrightarrow> all_pos ds \<longrightarrow> all_pos r"
  have "?P bs ds (merge_loop bs ds)"
    using ok by (induction rule: merge_loop_induct [where P = ?P]) auto
  with pos show ?thesis by blast
qed

text \<open>Holes never claim a storage offset beyond their device offset. Every construction keeps
  this, and it bounds the storage column of joined holes.\<close>

definition nil_low :: "BuildMap list \<Rightarrow> bool" where
  "nil_low ms \<longleftrightarrow> (\<forall>m \<in> set ms. BuildId m = uuid_Nil \<longrightarrow> BuildStorageOffset m \<le> Offset m)"

lemma nil_low_simps [simp]:
  "nil_low []" "nil_low (m # ms) \<longleftrightarrow> (BuildId m = uuid_Nil \<longrightarrow> BuildStorageOffset m \<le> Offset m) \<and> nil_low ms"
  "nil_low (xs @ ys) \<longleftrightarrow> nil_low xs \<and> nil_low ys"
  by (auto simp: nil_low_def)

lemma merge_loop_nil_low:
  "maps_ok bs \<Longrightarrow> maps_ok ds \<Longrightarrow> nil_low bs \<Longrightarrow> nil_low ds \<Longrightarrow> nil_low (merge_loop bs ds)"
proof -
  assume ok: "maps_ok bs" "maps_ok ds" and low: "nil_low bs" "nil_low ds"
  let ?P = "\<lambda>bs ds r. nil_low bs \<longrightarrow> nil_low ds \<longrightarrow> nil_low r"
  have "?P bs ds (merge_loop bs ds)"
    using ok by (induction rule: merge_loop_induct [where P = ?P]) auto
  with low show ?thesis by blast
qed

lemmas merge_loop_facts =
  merge_loop_ok merge_loop_sorted merge_loop_src merge_loop_pos merge_loop_nil_low

lemma MergeMappings_loop: "MergeMappings bs ds = merge_loop bs ds"
  by (cases bs) (auto simp: MergeMappings_def)

lemma merge_tiles:
  assumes "maps_ok bs" "maps_ok ds" "tiles a bs z" "disjoint_sorted ds" "all_pos ds"
    and "\<And>x. src_at ds x \<noteq> None \<Longrightarrow> a \<le> x \<and> x < z"
  shows "tiles a (MergeMappings bs ds) z"
proof (rule tiles_iff_src)
  note s = tiles_sorted [OF assms(3)] and p = tiles_all_pos [OF assms(3)]
  show "disjoint_sorted (MergeMappings bs ds)" "all_pos (MergeMappings bs ds)"
    using assms s p by (simp_all add: MergeMappings_loop merge_loop_facts)
  show "a \<le> z" using assms(3) by (rule tiles_le)
  fix x
  show "src_at (MergeMappings bs ds) x \<noteq> None \<longleftrightarrow> a \<le> x \<and> x < z"
    using assms(6) [of x] tiles_src [OF assms(3), of x] assms(1,2,4) s
    by (auto simp: MergeMappings_loop merge_loop_src map_add_def split: option.splits)
qed

section \<open>Correctness of NormalizeMappings\<close>

definition joinable :: "BuildMap \<Rightarrow> BuildMap \<Rightarrow> bool" where
  "joinable a b \<longleftrightarrow> BuildId b = BuildId a \<and>
     (BuildId b = uuid_Nil \<or> BuildStorageOffset b = BuildStorageOffset a + Length a)"

lemma bm_ok_joined:
  assumes "bm_ok c" "bm_ok m" "Offset m = bm_end c" "joinable c m"
    and "BuildId c = uuid_Nil \<Longrightarrow> BuildStorageOffset c \<le> Offset c"
  shows "u64 (Length c + Length m) = Length c + Length m"
    and "bm_ok (c\<lparr>Length := Length c + Length m\<rparr>)"
  using assms by (auto simp: bm_ok_def joinable_def wrap)

text \<open>One step of the loop on entries in range.\<close>

lemma normalize_loop_Cons:
  assumes "bm_ok c" "bm_ok m" "Offset m = bm_end c"
    and "BuildId c = uuid_Nil \<Longrightarrow> BuildStorageOffset c \<le> Offset c"
  shows "normalize_loop c (m # ms) =
    (if joinable c m then normalize_loop (c\<lparr>Length := Length c + Length m\<rparr>) ms
     else c # normalize_loop m ms)"
proof -
  have "u64 (BuildStorageOffset c + Length c) = BuildStorageOffset c + Length c"
    using assms(1) by (simp add: bm_ok_def wrap)
  then show ?thesis
    using bm_ok_joined(1) [OF assms(1-3) _ assms(4)] by (auto simp: joinable_def Let_def)
qed

lemma normalize_loop_correct:
  assumes "bm_ok c" "maps_ok ms" "tiles a (c # ms) z" "nil_low (c # ms)"
  shows "maps_ok (normalize_loop c ms) \<and> tiles a (normalize_loop c ms) z \<and>
    nil_low (normalize_loop c ms) \<and> src_at (normalize_loop c ms) = src_at (c # ms)"
  using assms
proof (induction ms arbitrary: c a)
  case Nil
  then show ?case by simp
next
  case (Cons m ms)
  have step: "normalize_loop c (m # ms) =
    (if joinable c m then normalize_loop (c\<lparr>Length := Length c + Length m\<rparr>) ms
     else c # normalize_loop m ms)"
    using Cons.prems by (intro normalize_loop_Cons) auto
  show ?case
  proof (cases "joinable c m")
    case True
    let ?c = "c\<lparr>Length := Length c + Length m\<rparr>"
    have "bm_ok ?c" using Cons.prems True by (intro bm_ok_joined) auto
    then have IH: "maps_ok (normalize_loop ?c ms) \<and> tiles a (normalize_loop ?c ms) z \<and>
      nil_low (normalize_loop ?c ms) \<and> src_at (normalize_loop ?c ms) = src_at (?c # ms)"
      using Cons.prems by (intro Cons.IH) (auto simp: add.assoc)
    have "src_at (?c # ms) x = src_at (c # m # ms) x" for x
      using True Cons.prems by (auto simp: joinable_def bm_src_def)
    then show ?thesis using IH True step by (auto simp: fun_eq_iff)
  next
    case False
    have "maps_ok (normalize_loop m ms) \<and> tiles (bm_end c) (normalize_loop m ms) z \<and>
      nil_low (normalize_loop m ms) \<and> src_at (normalize_loop m ms) = src_at (m # ms)"
      using Cons.prems by (intro Cons.IH) auto
    then show ?thesis using False step Cons.prems by (auto simp: fun_eq_iff)
  qed
qed

lemma NormalizeMappings_correct:
  assumes "maps_ok ms" "tiles a ms z" "nil_low ms"
  shows "maps_ok (NormalizeMappings ms)" "tiles a (NormalizeMappings ms) z"
    "nil_low (NormalizeMappings ms)" "src_at (NormalizeMappings ms) = src_at ms"
  using assms normalize_loop_correct
  by (auto simp: NormalizeMappings_def split: list.split simp del: normalize_loop.simps src_at.simps tiles.simps)


lemma normalize_loop_head:
  "\<exists>c' rest. normalize_loop c ms = c' # rest \<and> BuildId c' = BuildId c \<and>
     BuildStorageOffset c' = BuildStorageOffset c"
proof (induction ms arbitrary: c)
  case (Cons m ms)
  from Cons.IH [of "c\<lparr>Length := u64 (Length c + Length m)\<rparr>"] show ?case by (simp add: Let_def)
qed simp

lemma normalize_loop_maximal:
  assumes "bm_ok c" "maps_ok ms" "tiles a (c # ms) z" "nil_low (c # ms)"
  shows "successively (\<lambda>a b. \<not> joinable a b) (normalize_loop c ms)"
  using assms
proof (induction ms arbitrary: c a)
  case Nil
  then show ?case by simp
next
  case (Cons m ms)
  have step: "normalize_loop c (m # ms) =
    (if joinable c m then normalize_loop (c\<lparr>Length := Length c + Length m\<rparr>) ms
     else c # normalize_loop m ms)"
    using Cons.prems by (intro normalize_loop_Cons) auto
  show ?case
  proof (cases "joinable c m")
    case True
    let ?c = "c\<lparr>Length := Length c + Length m\<rparr>"
    have "bm_ok ?c" using Cons.prems True by (intro bm_ok_joined) auto
    then have "successively (\<lambda>a b. \<not> joinable a b) (normalize_loop ?c ms)"
      using Cons.prems by (intro Cons.IH) (auto simp: add.assoc)
    then show ?thesis using True step by simp
  next
    case False
    have "successively (\<lambda>a b. \<not> joinable a b) (normalize_loop m ms)"
      using Cons.prems by (intro Cons.IH [where a = "bm_end c"]) auto
    then show ?thesis
      using False step normalize_loop_head [of m ms] by (auto simp: joinable_def)
  qed
qed

lemma normalize_loop_id:
  assumes "maps_ok (c # ms)" "tiles a (c # ms) z" "nil_low (c # ms)"
    and "successively (\<lambda>a b. \<not> joinable a b) (c # ms)"
  shows "normalize_loop c ms = c # ms"
  using assms
proof (induction ms arbitrary: c a)
  case (Cons m ms)
  have "normalize_loop c (m # ms) = c # normalize_loop m ms"
    using Cons.prems by (subst normalize_loop_Cons) auto
  moreover have "normalize_loop m ms = m # ms"
    using Cons.prems by (intro Cons.IH [where a = "bm_end c"]) auto
  ultimately show ?case by simp
qed simp

section \<open>Correctness of ValidateMappings\<close>

text \<open>Entries that lie end to end from \<open>a\<close> to \<open>z\<close>; unlike \<open>tiles\<close>, empty entries are allowed.\<close>

fun chained :: "int \<Rightarrow> BuildMap list \<Rightarrow> int \<Rightarrow> bool" where
  "chained a [] z \<longleftrightarrow> a = z"
| "chained a (m # ms) z \<longleftrightarrow> Offset m = a \<and> chained (bm_end m) ms z"

lemma tiles_chained: "tiles a ms z \<longleftrightarrow> chained a ms z \<and> all_pos ms"
  by (induction ms arbitrary: a) auto

lemma chained_le: "maps_ok ms \<Longrightarrow> chained a ms z \<Longrightarrow> a \<le> z"
proof (induction ms arbitrary: a)
  case (Cons m ms)
  then show ?case using bm_ok_nonneg [of m] by fastforce
qed simp

lemma validate_loop_ok:
  assumes "maps_ok ms" "0 \<le> cur" "bs \<noteq> 0"
  shows "validate_loop ms sz bs cur = Inr z \<longleftrightarrow>
    chained cur ms z \<and> (ms \<noteq> [] \<longrightarrow> z \<le> sz) \<and> (\<forall>m \<in> set ms. Length m mod bs = 0)"
  using assms
proof (induction ms arbitrary: cur)
  case Nil
  then show ?case by auto
next
  case (Cons m ms)
  show ?case
  proof (cases "Offset m = cur")
    case True
    then have end_eq: "u64 (cur + Length m) = bm_end m"
      using Cons.prems u64_end [of m] by simp
    have IH: "validate_loop ms sz bs (bm_end m) = Inr z \<longleftrightarrow>
      chained (bm_end m) ms z \<and> (ms \<noteq> [] \<longrightarrow> z \<le> sz) \<and> (\<forall>m \<in> set ms. Length m mod bs = 0)"
      by (rule Cons.IH) (use Cons.prems in \<open>simp_all add: bm_ok_def\<close>)
    have "chained (bm_end m) ms z \<Longrightarrow> bm_end m \<le> z"
      using Cons.prems(1) chained_le [of ms "bm_end m" z] by simp
    then show ?thesis using IH True end_eq Cons.prems(3) by (cases ms) auto
  next
    case False
    then show ?thesis using Cons.prems(3) by auto
  qed
qed

lemma ValidateMappings_iff:
  assumes "maps_ok ms" "bs \<noteq> 0"
  shows "ValidateMappings ms sz bs = Inr () \<longleftrightarrow>
    chained 0 ms sz \<and> (\<forall>m \<in> set ms. Length m mod bs = 0)"
  using validate_loop_ok [OF assms(1) _ assms(2), of 0 sz]
  by (auto simp: ValidateMappings_def bindR_eq_Inr split: if_splits)

section \<open>Mappings created from bitmaps\<close>

text \<open>Runs of block indices that a bitmap can hold, and block sizes for which no byte offset of
  such a block overflows.\<close>

definition runs_ok :: "(int \<times> int) list \<Rightarrow> bool" where
  "runs_ok rs \<longleftrightarrow> ascending_runs rs \<and> (\<forall>(s, e) \<in> set rs. 0 \<le> s \<and> e \<le> 4294967296)"

abbreviation block_size_ok :: "int \<Rightarrow> bool" where
  "block_size_ok bs \<equiv> 0 < bs \<and> bs \<le> 1073741824"

lemma runs_ok_Cons:
  "runs_ok ((s, e) # rs) \<longleftrightarrow>
     0 \<le> s \<and> s < e \<and> e \<le> 4294967296 \<and> (\<forall>(s', e') \<in> set rs. e \<le> s') \<and> runs_ok rs"
  by (auto simp: runs_ok_def)

text \<open>The created entries without machine arithmetic: entry \<open>[s, e)\<close> of the runs starts at
  \<open>s * bs\<close>, and storage offsets are packed.\<close>

fun packed :: "uuid \<Rightarrow> int \<Rightarrow> int \<Rightarrow> (int \<times> int) list \<Rightarrow> BuildMap list" where
  "packed i bs sto [] = []"
| "packed i bs sto ((s, e) # rs) =
     \<lparr>Offset = s * bs, Length = (e - s) * bs, BuildId = i, BuildStorageOffset = sto\<rparr> #
     packed i bs (sto + (e - s) * bs) rs"

lemma block_mult_bound:
  assumes "block_size_ok bs" "0 \<le> k" "k \<le> 4294967296"
  shows "0 \<le> k * bs" "k * bs \<le> 4611686018427387904"
proof -
  show "0 \<le> k * bs" using assms by simp
  have "k * bs \<le> 4294967296 * 1073741824"
    using assms by (intro mult_mono) simp_all
  then show "k * bs \<le> 4611686018427387904" by simp
qed

lemma run_entry_exact:
  assumes "block_size_ok bs" "0 \<le> s" "s < e" "e \<le> 4294967296"
  shows "u64 (BlockOffset s bs) = s * bs"
    and "i64 (e - s) = e - s" "u64 (BlockOffset (e - s) bs) = (e - s) * bs"
proof -
  note b = block_mult_bound [OF assms(1), of s] block_mult_bound [OF assms(1), of "e - s"]
  have 1: "BlockOffset s bs = s * bs" using assms b by (intro BlockOffset_eq) linarith+
  have 2: "BlockOffset (e - s) bs = (e - s) * bs" using assms b by (intro BlockOffset_eq) linarith+
  show "u64 (BlockOffset s bs) = s * bs" unfolding 1 using assms b by (intro u64_id) linarith+
  show "u64 (BlockOffset (e - s) bs) = (e - s) * bs"
    unfolding 2 using assms b by (intro u64_id) linarith+
  show "i64 (e - s) = e - s" using assms by (intro i64_id) linarith+
qed

lemma packed_next:
  assumes "block_size_ok bs" "runs_ok ((s, e) # rs)" "0 \<le> sto" "sto \<le> s * bs"
  shows "0 \<le> sto + (e - s) * bs" "sto + (e - s) * bs \<le> 4611686018427387904"
    and "\<forall>(s', e') \<in> set rs. sto + (e - s) * bs \<le> s' * bs"
proof -
  have e: "sto + (e - s) * bs \<le> e * bs"
    using assms(4) by (simp add: left_diff_distrib)
  have b: "0 \<le> (e - s) * bs" "e * bs \<le> 4611686018427387904"
    using assms(1,2) block_mult_bound [OF assms(1), of e] by (simp_all add: runs_ok_Cons)
  show "0 \<le> sto + (e - s) * bs" "sto + (e - s) * bs \<le> 4611686018427387904"
    using assms(3) e b by linarith+
  have "e * bs \<le> s' * bs" if "(s', e') \<in> set rs" for s' e'
    using that assms(1,2) by (intro mult_right_mono) (auto simp: runs_ok_Cons)
  with e show "\<forall>(s', e') \<in> set rs. sto + (e - s) * bs \<le> s' * bs" by fastforce
qed

lemma createMapping_loop_packed:
  assumes "block_size_ok bs" "runs_ok rs" "0 \<le> sto" "\<forall>(s, e) \<in> set rs. sto \<le> s * bs"
  shows "createMapping_loop i bs sto rs = packed i bs sto rs"
  using assms
proof (induction rs arbitrary: sto)
  case (Cons r rs)
  obtain s e where r: "r = (s, e)" by (cases r)
  have b: "0 \<le> s" "s < e" "e \<le> 4294967296" "runs_ok rs"
    using Cons.prems(2) by (simp_all add: r runs_ok_Cons)
  have "sto \<le> s * bs" using Cons.prems(4) by (simp add: r)
  note next_sto = packed_next [OF Cons.prems(1) Cons.prems(2) [unfolded r] Cons.prems(3) this]
  have "u64 (sto + (e - s) * bs) = sto + (e - s) * bs"
    using next_sto by (intro u64_id) linarith+
  with Cons.IH [OF Cons.prems(1) b(4) next_sto(1,3)] show ?case
    by (simp add: r Let_def run_entry_exact [OF Cons.prems(1) b(1-3)])
qed simp

lemma packed_lower: "0 \<le> bs \<Longrightarrow> \<forall>(s, e) \<in> set rs. k \<le> s \<Longrightarrow> lower (k * bs) (packed i bs sto rs)"
  by (induction i bs sto rs rule: packed.induct) (auto intro: mult_right_mono)

lemma packed_wf:
  assumes "block_size_ok bs" "runs_ok rs" "0 \<le> sto" "\<forall>(s, e) \<in> set rs. sto \<le> s * bs"
  shows "maps_ok (packed i bs sto rs) \<and> disjoint_sorted (packed i bs sto rs) \<and>
    all_pos (packed i bs sto rs) \<and> nil_low (packed i bs sto rs)"
  using assms
proof (induction rs arbitrary: sto)
  case (Cons r rs)
  obtain s e where r: "r = (s, e)" by (cases r)
  have b: "0 \<le> s" "s < e" "e \<le> 4294967296" "runs_ok rs" "\<forall>(s', e') \<in> set rs. e \<le> s'"
    using Cons.prems(2) by (simp_all add: r runs_ok_Cons)
  have sto: "sto \<le> s * bs" using Cons.prems(4) by (simp add: r)
  note next_sto = packed_next [OF Cons.prems(1) Cons.prems(2) [unfolded r] Cons.prems(3) this]
  have "s * bs + (e - s) * bs = e * bs" by (simp add: left_diff_distrib)
  moreover note block_mult_bound [OF Cons.prems(1), of s] block_mult_bound [OF Cons.prems(1), of e]
    packed_lower [of bs rs e i "sto + (e - s) * bs"] Cons.IH [OF Cons.prems(1) b(4) next_sto(1,3)]
  ultimately show ?case
    using Cons.prems(1,3) b sto next_sto(2) by (auto simp: r bm_ok_def)
qed simp

lemma in_block_run: "0 < bs \<Longrightarrow> s * bs \<le> x \<and> x < e * bs \<longleftrightarrow> s \<le> x div bs \<and> x div bs < (e::int)"
  by (simp add: le_div_iff div_less_iff)

text \<open>The rank of a block: how many blocks of the runs precede it.\<close>

definition rank :: "int set \<Rightarrow> int \<Rightarrow> int" where
  "rank S k = int (card {j \<in> S. j < k})"

lemma rank_first_run:
  assumes "\<forall>(s', e') \<in> set rs. e \<le> s'" "ascending_runs rs" "s \<le> k" "k < e"
  shows "rank ({s..<e} \<union> run_set rs) k = k - s"
proof -
  have "{j \<in> {s..<e} \<union> run_set rs. j < k} = {s..<k}"
    using assms ascending_runs_lower [OF assms(2), of e] by fastforce
  then show ?thesis using assms(3) by (simp add: rank_def)
qed

lemma rank_later_run:
  assumes "\<forall>(s', e') \<in> set rs. e \<le> s'" "ascending_runs rs" "s < e" "e \<le> k"
  shows "rank ({s..<e} \<union> run_set rs) k = (e - s) + rank (run_set rs) k"
proof -
  have "{j \<in> {s..<e} \<union> run_set rs. j < k} = {s..<e} \<union> {j \<in> run_set rs. j < k}"
    using assms(4) by auto
  moreover have "{s..<e} \<inter> {j \<in> run_set rs. j < k} = {}"
    using ascending_runs_lower [OF assms(2), of e] assms(1) by fastforce
  moreover have "finite {j \<in> run_set rs. j < k}"
    by (rule finite_subset [of _ "run_set rs"]) (auto simp: run_set_def)
  ultimately show ?thesis
    using assms(3) by (simp add: rank_def card_Un_disjoint)
qed

lemma packed_src:
  assumes "block_size_ok bs" "runs_ok rs"
  shows "src_at (packed i bs sto rs) x =
    (if x div bs \<in> run_set rs
     then Some (if i = uuid_Nil then (uuid_Nil, 0)
                else (i, sto + rank (run_set rs) (x div bs) * bs + x mod bs))
     else None)"
  using assms
proof (induction rs arbitrary: sto)
  case (Cons r rs)
  obtain s e where r: "r = (s, e)" by (cases r)
  have b: "0 \<le> s" "s < e" "runs_ok rs" "ascending_runs rs" "\<forall>(s', e') \<in> set rs. e \<le> s'"
    using Cons.prems(2) by (auto simp: r runs_ok_def)
  have len: "s * bs + (e - s) * bs = e * bs" by (simp add: left_diff_distrib)
  note IH = Cons.IH [OF Cons.prems(1) b(3), of "sto + (e - s) * bs"]
  have x: "x = x div bs * bs + x mod bs" by simp
  consider "s \<le> x div bs" "x div bs < e" | "x div bs < s" | "e \<le> x div bs" by linarith
  then show ?case
  proof cases
    case 1
    then have "s * bs \<le> x \<and> x < e * bs"
      using in_block_run [of bs s x e] Cons.prems(1) by simp
    moreover have "x - s * bs = (x div bs - s) * bs + x mod bs"
      using x by (simp add: left_diff_distrib)
    ultimately show ?thesis
      using 1 rank_first_run [OF b(5,4) 1] by (simp add: r bm_src_def len)
  next
    case 2
    then have "\<not> (s * bs \<le> x \<and> x < e * bs)"
      using in_block_run [of bs s x e] Cons.prems(1) by simp
    moreover have "x div bs \<notin> run_set rs"
      using 2 b ascending_runs_lower [OF b(4), of e] by fastforce
    ultimately show ?thesis using 2 IH by (simp add: r len)
  next
    case 3
    then have "\<not> x < e * bs"
      using div_less_iff [of bs x e] Cons.prems(1) by simp
    then show ?thesis
      using 3 IH rank_later_run [OF b(5,4,2) 3] by (simp add: r len distrib_right)
  qed
qed simp


text \<open>The identity mapping stores every dirty byte at its own device address.\<close>

lemma identity_wf:
  assumes "block_size_ok bs" "runs_ok rs" "i \<noteq> uuid_Nil"
    and "ms = map (\<lambda>(s, e). \<lparr>Offset = s * bs, Length = (e - s) * bs, BuildId = i,
                               BuildStorageOffset = s * bs\<rparr>) rs"
  shows "maps_ok ms \<and> disjoint_sorted ms \<and> all_pos ms \<and> nil_low ms \<and>
    (\<forall>k. (\<forall>(s, e) \<in> set rs. k \<le> s) \<longrightarrow> lower (k * bs) ms) \<and>
    (\<forall>x. src_at ms x = (if x div bs \<in> run_set rs then Some (i, x) else None))"
  using assms
proof (induction rs arbitrary: ms)
  case (Cons r rs)
  obtain s e where r: "r = (s, e)" by (cases r)
  let ?m = "\<lparr>Offset = s * bs, Length = (e - s) * bs, BuildId = i, BuildStorageOffset = s * bs\<rparr>"
  let ?ms = "map (\<lambda>(s, e). \<lparr>Offset = s * bs, Length = (e - s) * bs, BuildId = i,
                               BuildStorageOffset = s * bs\<rparr>) rs"
  have b: "0 \<le> s" "s < e" "e \<le> 4294967296" "runs_ok rs" "\<forall>(s', e') \<in> set rs. e \<le> s'"
    using Cons.prems(2) by (simp_all add: r runs_ok_Cons)
  have len: "s * bs + (e - s) * bs = e * bs" by (simp add: left_diff_distrib)
  note bounds = block_mult_bound [OF Cons.prems(1), of s] block_mult_bound [OF Cons.prems(1), of e]
  have m: "bm_ok ?m" using b bounds len Cons.prems(1) by (simp add: bm_ok_def)
  have ms: "ms = ?m # ?ms" using Cons.prems(4) by (simp add: r)
  note IH = Cons.IH [OF Cons.prems(1) b(4) Cons.prems(3) refl]
  have low: "lower (e * bs) ?ms" using IH b(5) by blast
  have x: "src_at ms x = (if x div bs \<in> run_set (r # rs) then Some (i, x) else None)" for x
    using IH in_block_run [of bs s x e] Cons.prems(1,3) by (auto simp: ms r len bm_src_def)
  show ?case
    using m IH low x b Cons.prems(1,3) by (auto simp: ms r len intro: mult_right_mono)
qed simp

context roaring_bitmap
begin

lemma runs_ok_Ranges: "runs_ok (bm_Ranges ops b)"
proof -
  have "0 \<le> s \<and> e \<le> 4294967296" if "(s, e) \<in> set (bm_Ranges ops b)" for s e
  proof -
    have "s < e" using Ranges_asc that by (rule ascending_runs_nonempty)
    then have "s \<in> bset b" "e - 1 \<in> bset b"
      using that Ranges_set [of b] by (force simp: run_set_def)+
    then show ?thesis using bset_bounds [of s b] bset_bounds [of "e - 1" b] by simp
  qed
  then show ?thesis using Ranges_asc by (auto simp: runs_ok_def)
qed

lemma CreateMapping_packed:
  "block_size_ok bs \<Longrightarrow> CreateMapping ops i b bs = packed i bs 0 (bm_Ranges ops b)"
  unfolding CreateMapping_def
  by (rule createMapping_loop_packed) (use runs_ok_Ranges [of b] in \<open>auto simp: runs_ok_def\<close>)

lemma CreateMapping_wf:
  assumes "block_size_ok bs"
  shows "maps_ok (CreateMapping ops i b bs)" "disjoint_sorted (CreateMapping ops i b bs)"
    "all_pos (CreateMapping ops i b bs)" "nil_low (CreateMapping ops i b bs)"
proof -
  have "\<forall>(s, e) \<in> set (bm_Ranges ops b). 0 \<le> s * bs"
    using runs_ok_Ranges [of b] assms by (auto simp: runs_ok_def)
  then show "maps_ok (CreateMapping ops i b bs)" "disjoint_sorted (CreateMapping ops i b bs)"
    "all_pos (CreateMapping ops i b bs)" "nil_low (CreateMapping ops i b bs)"
    using packed_wf [OF assms runs_ok_Ranges [of b], of 0 i] assms
    by (simp_all add: CreateMapping_packed)
qed

lemma CreateMapping_src:
  "block_size_ok bs \<Longrightarrow> src_at (CreateMapping ops i b bs) x =
    (if x div bs \<in> bset b
     then Some (if i = uuid_Nil then (uuid_Nil, 0)
                else (i, rank (bset b) (x div bs) * bs + x mod bs))
     else None)"
  using packed_src [OF _ runs_ok_Ranges, of bs i 0 b x] by (simp add: CreateMapping_packed Ranges_set)

lemma createIdentityMapping_wf:
  assumes "block_size_ok bs" "i \<noteq> uuid_Nil"
  shows "maps_ok (createIdentityMapping ops i b bs)" "disjoint_sorted (createIdentityMapping ops i b bs)"
    "all_pos (createIdentityMapping ops i b bs)" "nil_low (createIdentityMapping ops i b bs)"
    "src_at (createIdentityMapping ops i b bs) x = (if x div bs \<in> bset b then Some (i, x) else None)"
proof -
  have e: "s < e \<and> 0 \<le> s \<and> e \<le> 4294967296" if "(s, e) \<in> set (bm_Ranges ops b)" for s e
    using runs_ok_Ranges [of b] ascending_runs_nonempty [OF Ranges_asc that] that
    by (auto simp: runs_ok_def)
  have "createIdentityMapping ops i b bs =
      map (\<lambda>(s, e). \<lparr>Offset = s * bs, Length = (e - s) * bs, BuildId = i,
                      BuildStorageOffset = s * bs\<rparr>) (bm_Ranges ops b)"
    unfolding createIdentityMapping_def
    by (rule map_cong [OF refl]) (auto simp: run_entry_exact [OF assms(1)] Let_def dest!: e)
  note wf = identity_wf [OF assms(1) runs_ok_Ranges [of b] assms(2) this]
  then show "maps_ok (createIdentityMapping ops i b bs)"
    "disjoint_sorted (createIdentityMapping ops i b bs)"
    "all_pos (createIdentityMapping ops i b bs)" "nil_low (createIdentityMapping ops i b bs)"
    "src_at (createIdentityMapping ops i b bs) x = (if x div bs \<in> bset b then Some (i, x) else None)"
    by (simp_all add: Ranges_set)
qed

end

section \<open>Properties\<close>

text \<open>(C8) Layering a diff over a base is override of the source maps: for entries in range, in
  device order and without overlap, every byte of the merged mapping comes from the diff where
  the diff covers it and from the base, at an unchanged storage address, everywhere else; the
  result is again in range, in order and without overlap.\<close>

theorem MergeMappings_override:
  assumes "maps_ok base" "disjoint_sorted base" "maps_ok diff" "disjoint_sorted diff"
  shows "src_at (MergeMappings base diff) = src_at base ++ src_at diff \<and>
    maps_ok (MergeMappings base diff) \<and> disjoint_sorted (MergeMappings base diff)"
  using assms by (simp add: MergeMappings_loop merge_loop_facts)

theorem MergeMappings_override_witness:
  "src_at (MergeMappings
     [\<lparr>Offset = 0, Length = 16384, BuildId = 1, BuildStorageOffset = 4096\<rparr>]
     [\<lparr>Offset = 4096, Length = 4096, BuildId = 2, BuildStorageOffset = 0\<rparr>]) 9000 = Some (1, 13096)"
  using MergeMappings_override [of
      "[\<lparr>Offset = 0, Length = 16384, BuildId = 1, BuildStorageOffset = 4096\<rparr>]"
      "[\<lparr>Offset = 4096, Length = 4096, BuildId = 2, BuildStorageOffset = 0\<rparr>]"]
  by (simp add: bm_ok_def bm_src_def map_add_def)

text \<open>When the base covers the device \<open>[0, z)\<close> without gaps or empty entries and the diff
  stays inside the device, the merged mapping again covers \<open>[0, z)\<close> without gaps or empty
  entries: no byte of the device loses its source.\<close>

theorem MergeMappings_covers:
  assumes "maps_ok base" "tiles 0 base z" "maps_ok diff" "disjoint_sorted diff" "all_pos diff"
    and "\<And>m. m \<in> set diff \<Longrightarrow> 0 \<le> Offset m \<and> bm_end m \<le> z"
  shows "tiles 0 (MergeMappings base diff) z"
proof (rule merge_tiles [OF assms(1,3,2,4,5)])
  have "\<exists>m \<in> set ms. Offset m \<le> x \<and> x < bm_end m" if "src_at ms x \<noteq> None" for ms x
    using that by (induction ms) (auto split: if_splits)
  then show "0 \<le> x \<and> x < z" if "src_at diff x \<noteq> None" for x
    using that assms(6) by fastforce
qed

theorem MergeMappings_covers_witness:
  "tiles 0 (MergeMappings
     [\<lparr>Offset = 0, Length = 8192, BuildId = 1, BuildStorageOffset = 0\<rparr>,
      \<lparr>Offset = 8192, Length = 8192, BuildId = 3, BuildStorageOffset = 0\<rparr>]
     [\<lparr>Offset = 4096, Length = 8192, BuildId = 2, BuildStorageOffset = 0\<rparr>]) 16384"
  by (rule MergeMappings_covers) (auto simp: bm_ok_def)

text \<open>Joining adjacent entries of a mapping that covers the device leaves the source of
  every byte and the coverage unchanged, leaves no two neighbours that could still be joined,
  and running it again changes nothing. (\<open>nil_low\<close>: holes do not claim a storage offset beyond
  their device offset, which all mappings built by this package satisfy.)\<close>

theorem NormalizeMappings_minimal:
  assumes "maps_ok ms" "tiles 0 ms z" "nil_low ms"
  shows "src_at (NormalizeMappings ms) = src_at ms \<and> tiles 0 (NormalizeMappings ms) z \<and>
    successively (\<lambda>a b. \<not> joinable a b) (NormalizeMappings ms) \<and>
    NormalizeMappings (NormalizeMappings ms) = NormalizeMappings ms"
proof -
  note c = NormalizeMappings_correct [OF assms]
  have s: "successively (\<lambda>a b. \<not> joinable a b) (NormalizeMappings ms)"
    using assms by (cases ms) (auto simp: NormalizeMappings_def
      simp del: normalize_loop.simps tiles.simps intro!: normalize_loop_maximal)
  have "NormalizeMappings (NormalizeMappings ms) = NormalizeMappings ms"
    using c s normalize_loop_id
    by (cases "NormalizeMappings ms")
      (auto simp: NormalizeMappings_def [of "_ # _"] NormalizeMappings_def [of "[]"]
        simp del: tiles.simps nil_low_simps(2) maps_ok_simps(2))
  with c s show ?thesis by blast
qed

theorem NormalizeMappings_minimal_witness:
  "src_at (NormalizeMappings
     [\<lparr>Offset = 0, Length = 4096, BuildId = 1, BuildStorageOffset = 0\<rparr>,
      \<lparr>Offset = 4096, Length = 4096, BuildId = 1, BuildStorageOffset = 4096\<rparr>]) =
   src_at
     [\<lparr>Offset = 0, Length = 4096, BuildId = 1, BuildStorageOffset = 0\<rparr>,
      \<lparr>Offset = 4096, Length = 4096, BuildId = 1, BuildStorageOffset = 4096\<rparr>]"
  using NormalizeMappings_minimal [of
     "[\<lparr>Offset = 0, Length = 4096, BuildId = 1, BuildStorageOffset = 0\<rparr>,
      \<lparr>Offset = 4096, Length = 4096, BuildId = 1, BuildStorageOffset = 4096\<rparr>]" 8192]
  by (simp add: bm_ok_def)

text \<open>The mapping created from a bitmap of dirty blocks covers exactly the dirty blocks and
  packs them without gaps in ascending order: the byte at offset \<open>x\<close> of a dirty block is stored
  at the rank of its block among the dirty blocks. The bitmap is any one that keeps the
  documented laws of the bitmap library.\<close>

theorem CreateMapping_packs_dirty:
  assumes "roaring_bitmap ops bset" "0 < blockSize" "blockSize \<le> 1073741824" "buildId \<noteq> uuid_Nil"
  shows "src_at (CreateMapping ops buildId dirty blockSize) x =
      (if x div blockSize \<in> bset dirty
       then Some (buildId, rank (bset dirty) (x div blockSize) * blockSize + x mod blockSize)
       else None) \<and>
    maps_ok (CreateMapping ops buildId dirty blockSize) \<and>
    disjoint_sorted (CreateMapping ops buildId dirty blockSize) \<and>
    all_pos (CreateMapping ops buildId dirty blockSize)"
  using assms roaring_bitmap.CreateMapping_src [OF assms(1), of blockSize buildId dirty x]
    roaring_bitmap.CreateMapping_wf [OF assms(1), of blockSize buildId dirty] by simp

theorem CreateMapping_packs_dirty_witness:
  "src_at (CreateMapping listbm_ops 7 [5, 2] 4096) 8200 =
     Some (7, rank {2, 5} 2 * 4096 + 8)"
  using CreateMapping_packs_dirty [OF lbm.roaring_bitmap_axioms, of 4096 7 "[5, 2]" 8200]
  by (simp add: listbm_set_def insert_commute)

text \<open>\<open>ValidateMappings\<close> accepts a mapping exactly when its entries lie end to end from 0 to
  the device size with lengths that are multiples of the block size; it panics exactly on an
  empty mapping of a non-empty device, where its error message indexes the last entry.\<close>

theorem ValidateMappings_accepts_iff:
  assumes "maps_ok ms" "blockSize \<noteq> 0"
  shows "(ValidateMappings ms sz blockSize = Inr () \<longleftrightarrow>
      chained 0 ms sz \<and> (\<forall>m \<in> set ms. Length m mod blockSize = 0)) \<and>
    (ValidateMappings ms sz blockSize = Inl Panic \<longleftrightarrow> ms = [] \<and> sz \<noteq> 0)"
proof -
  have "validate_loop l sz blockSize c \<noteq> Inl Panic" for l c
    using assms(2) by (induction l arbitrary: c) auto
  then have "ValidateMappings ms sz blockSize = Inl Panic \<longleftrightarrow> ms = [] \<and> sz \<noteq> 0"
    by (auto simp: ValidateMappings_def bindR_def split: sum.splits if_splits)
  then show ?thesis using ValidateMappings_iff [OF assms] by blast
qed

theorem ValidateMappings_accepts_iff_witness:
  "ValidateMappings [\<lparr>Offset = 0, Length = 8192, BuildId = 1, BuildStorageOffset = 0\<rparr>] 8192 4096
     = Inr ()"
  using ValidateMappings_accepts_iff [of
    "[\<lparr>Offset = 0, Length = 8192, BuildId = 1, BuildStorageOffset = 0\<rparr>]" 4096 8192]
  by (simp add: bm_ok_def)

end
