(* ===== verification/Compact.thy ===== *)
theory Compact
  imports BuildMapping
begin

text \<open>
  The compact form of a mapping, \<open>packages/shared/pkg/storage/header/compact.go\<close>: parallel columns
  of block indices (32 bits) and of indices into a table of builds (16 bits). The fields of
  the Go struct are not exported, so every value comes from \<open>NewMapping\<close> or
  \<open>newMappingFromColumns\<close>, which establish the representation invariant \<open>cm_wf\<close>. The main
  results: packing loses nothing (\<open>Slice\<close> after \<open>NewMapping\<close> gives the entries back),
  packing fails exactly when an entry does not fit, the hand-written binary search finds the
  entry that covers an offset, and \<open>Validate\<close> agrees with \<open>ValidateMappings\<close> on the entries.
\<close>

record Mapping =
  m_blockSize :: int
  m_builds :: "uuid list"
  m_offsets :: "int list"
  m_lengths :: "int list"
  m_storage :: "int list"
  m_buildIdx :: "int list"

definition nilBuildIdx :: int where "nilBuildIdx = 65535"
definition maxBuildsPerHeader :: int where "maxBuildsPerHeader = nilBuildIdx"
definition maxBlockIdx :: int where "maxBlockIdx = 4294967295"

section \<open>Construction\<close>

type_synonym columns = "int list \<times> int list \<times> int list \<times> int list"

text \<open>The index of a build: \<open>nilBuildIdx\<close> for \<open>uuid.Nil\<close>, the one in the table, or a new one.\<close>

definition build_index ::
  "uuid \<Rightarrow> (uuid \<rightharpoonup> int) \<Rightarrow> uuid list \<Rightarrow> (int \<times> (uuid \<rightharpoonup> int) \<times> uuid list) result" where
  "build_index b idxByBuild builds =
     (if b \<noteq> uuid_Nil
      then (case idxByBuild b of
              Some idx \<Rightarrow> Inr (idx, idxByBuild, builds)
            | None \<Rightarrow>
                if int (length builds) \<ge> maxBuildsPerHeader
                then Inl (Err ''compact mapping: more than max unique build IDs'')
                else let idx = u16 (int (length builds))
                     in Inr (idx, idxByBuild(b \<mapsto> idx), builds @ [b]))
      else Inr (nilBuildIdx, idxByBuild, builds))"

fun newMapping_loop ::
  "int \<Rightarrow> BuildMap list \<Rightarrow> (uuid \<rightharpoonup> int) \<Rightarrow> uuid list \<Rightarrow> (uuid list \<times> columns) result" where
  "newMapping_loop blockSize [] idxByBuild builds = Inr (builds, [], [], [], [])"
| "newMapping_loop blockSize (m # ms) idxByBuild builds =
     (if Offset m mod blockSize \<noteq> 0
        then Inl (Err ''compact mapping: offset not block-aligned'')
      else if Length m mod blockSize \<noteq> 0
        then Inl (Err ''compact mapping: length not block-aligned'')
      else if BuildStorageOffset m mod blockSize \<noteq> 0
        then Inl (Err ''compact mapping: build storage offset not block-aligned'')
      else let offBlocks = Offset m div blockSize;
               lenBlocks = Length m div blockSize;
               stoBlocks = BuildStorageOffset m div blockSize
           in if offBlocks > maxBlockIdx \<or> lenBlocks > maxBlockIdx \<or> stoBlocks > maxBlockIdx
              then Inl (Err ''compact mapping: block index out of uint32 range'')
              else bindR (build_index (BuildId m) idxByBuild builds) (\<lambda>(idx, idxByBuild', builds').
                   bindR (newMapping_loop blockSize ms idxByBuild' builds')
                     (\<lambda>(bs, os, ls, ss, is).
                        Inr (bs, u32 offBlocks # os, u32 lenBlocks # ls, u32 stoBlocks # ss, idx # is))))"

definition NewMapping :: "int \<Rightarrow> BuildMap list \<Rightarrow> Mapping result" where
  "NewMapping blockSize src =
     (if blockSize = 0 then Inl (Err ''compact mapping: block size cannot be zero'')
      else if src = [] then
        Inr \<lparr>m_blockSize = blockSize, m_builds = [], m_offsets = [], m_lengths = [],
             m_storage = [], m_buildIdx = []\<rparr>
      else bindR (newMapping_loop blockSize src Map.empty []) (\<lambda>(bs, os, ls, ss, is).
        Inr \<lparr>m_blockSize = blockSize, m_builds = bs, m_offsets = os, m_lengths = ls,
             m_storage = ss, m_buildIdx = is\<rparr>))"

definition newMappingFromColumns ::
  "int \<Rightarrow> uuid list \<Rightarrow> int list \<Rightarrow> int list \<Rightarrow> int list \<Rightarrow> int list \<Rightarrow> Mapping result" where
  "newMappingFromColumns blockSize builds offsets lengths storage buildIdx =
     (let n = length offsets in
      if length lengths \<noteq> n \<or> length storage \<noteq> n \<or> length buildIdx \<noteq> n
        then Inl (Err ''compact mapping: column length mismatch'')
      else if \<exists>bi \<in> set buildIdx. bi \<noteq> nilBuildIdx \<and> bi \<ge> int (length builds)
        then Inl (Err ''compact mapping: buildIdx out of range'')
      else Inr \<lparr>m_blockSize = blockSize, m_builds = builds, m_offsets = offsets,
                m_lengths = lengths, m_storage = storage, m_buildIdx = buildIdx\<rparr>)"

section \<open>Reading\<close>

definition Len :: "Mapping \<Rightarrow> nat" where
  "Len m = length (m_offsets m)"

definition BlockSize :: "Mapping \<Rightarrow> int" where
  "BlockSize m = m_blockSize m"

definition Builds :: "Mapping \<Rightarrow> uuid list" where
  "Builds m = m_builds m"

text \<open>The entry at an index within the columns, and \<open>At\<close>, which panics outside them.\<close>

definition entry :: "Mapping \<Rightarrow> nat \<Rightarrow> BuildMap" where
  "entry m i =
     \<lparr>Offset = u64 (m_offsets m ! i * m_blockSize m),
      Length = u64 (m_lengths m ! i * m_blockSize m),
      BuildId = (if m_buildIdx m ! i \<noteq> nilBuildIdx
                 then m_builds m ! nat (m_buildIdx m ! i) else uuid_Nil),
      BuildStorageOffset = u64 (m_storage m ! i * m_blockSize m)\<rparr>"

definition At :: "Mapping \<Rightarrow> int \<Rightarrow> BuildMap result" where
  "At m i = (if 0 \<le> i \<and> i < int (Len m) then Inr (entry m (nat i)) else Inl Panic)"

definition All :: "Mapping \<Rightarrow> (nat \<times> BuildMap) list" where
  "All m = map (\<lambda>i. (i, entry m i)) [0..<Len m]"

definition Slice :: "Mapping \<Rightarrow> BuildMap list" where
  "Slice m = map (entry m) [0..<Len m]"

fun add_sums :: "int list \<Rightarrow> (int \<times> int) list \<Rightarrow> int list" where
  "add_sums sums [] = sums"
| "add_sums sums ((bi, l) # rest) =
     add_sums (if bi \<noteq> nilBuildIdx then sums[nat bi := u64 (sums ! nat bi + l)] else sums) rest"

definition BytesByBuild :: "Mapping \<Rightarrow> uuid \<rightharpoonup> int" where
  "BytesByBuild m =
     (let sums = add_sums (replicate (length (m_builds m)) 0) (zip (m_buildIdx m) (m_lengths m))
      in foldl (\<lambda>out (b, blocks). out(b \<mapsto> u64 (blocks * m_blockSize m))) Map.empty
           (zip (m_builds m) sums))"

fun cvalidate_loop :: "int \<Rightarrow> int \<Rightarrow> (int \<times> int) list \<Rightarrow> int \<Rightarrow> int result" where
  "cvalidate_loop mbs sz [] currentOffset = Inr currentOffset"
| "cvalidate_loop mbs sz ((ob, lb) # rest) currentOffset =
     (let offset = u64 (ob * mbs); len = u64 (lb * mbs) in
      if currentOffset \<noteq> offset then Inl (Err ''mapping validation failed: offset'')
      else if u64 (currentOffset + len) > sz then Inl (Err ''mapping validation failed: beyond size'')
      else cvalidate_loop mbs sz rest (u64 (currentOffset + len)))"

definition Validate :: "Mapping \<Rightarrow> int \<Rightarrow> int \<Rightarrow> unit result" where
  "Validate m sz blockSize =
     (if blockSize = 0 then Inl (Err ''mapping validation failed: zero block size'')
      else if m_blockSize m mod blockSize \<noteq> 0 then ValidateMappings (Slice m) sz blockSize
      else bindR (cvalidate_loop (m_blockSize m) sz (zip (m_offsets m) (m_lengths m)) 0)
        (\<lambda>currentOffset.
           if currentOffset \<noteq> sz then Inl (Err ''mapping validation failed: total'') else Inr ()))"

function search_loop :: "int list \<Rightarrow> int \<Rightarrow> nat \<Rightarrow> nat \<Rightarrow> nat" where
  "search_loop offsets target lo hi =
     (if lo < hi
      then let mid = (lo + hi) div 2
           in if offsets ! mid > target then search_loop offsets target lo mid
              else search_loop offsets target (mid + 1) hi
      else lo)"
  by pat_completeness auto
termination
  by (relation "measure (\<lambda>(offsets, target, lo, hi). hi - lo)") auto

declare search_loop.simps [simp del]

definition SearchOffset :: "Mapping \<Rightarrow> int \<Rightarrow> nat" where
  "SearchOffset m off =
     (if off < 0 \<or> m_offsets m = [] then 0
      else search_loop (m_offsets m) (u64 off div m_blockSize m) 0 (length (m_offsets m)))"

section \<open>The representation invariant\<close>

definition cm_wf :: "Mapping \<Rightarrow> bool" where
  "cm_wf m \<longleftrightarrow>
     0 < m_blockSize m \<and>
     length (m_lengths m) = Len m \<and> length (m_storage m) = Len m \<and> length (m_buildIdx m) = Len m \<and>
     (\<forall>x \<in> set (m_offsets m) \<union> set (m_lengths m) \<union> set (m_storage m). 0 \<le> x \<and> x \<le> maxBlockIdx) \<and>
     (\<forall>bi \<in> set (m_buildIdx m). 0 \<le> bi \<and> (bi = nilBuildIdx \<or> bi < int (length (m_builds m)))) \<and>
     int (length (m_builds m)) \<le> maxBuildsPerHeader"

section \<open>Packing and unpacking\<close>

text \<open>Entries as Go can hold them, and entries that fit the columns.\<close>

definition bm_u64 :: "BuildMap \<Rightarrow> bool" where
  "bm_u64 m \<longleftrightarrow> 0 \<le> Offset m \<and> Offset m < 18446744073709551616 \<and>
     0 \<le> Length m \<and> Length m < 18446744073709551616 \<and>
     0 \<le> BuildStorageOffset m \<and> BuildStorageOffset m < 18446744073709551616"

definition fits :: "int \<Rightarrow> BuildMap \<Rightarrow> bool" where
  "fits bs m \<longleftrightarrow>
     Offset m mod bs = 0 \<and> Length m mod bs = 0 \<and> BuildStorageOffset m mod bs = 0 \<and>
     Offset m div bs \<le> maxBlockIdx \<and> Length m div bs \<le> maxBlockIdx \<and>
     BuildStorageOffset m div bs \<le> maxBlockIdx"

abbreviation cm :: "int \<Rightarrow> uuid list \<Rightarrow> columns \<Rightarrow> Mapping" where
  "cm bs builds c \<equiv> (case c of (os, ls, ss, bis) \<Rightarrow>
     \<lparr>m_blockSize = bs, m_builds = builds, m_offsets = os, m_lengths = ls,
      m_storage = ss, m_buildIdx = bis\<rparr>)"

lemma Slice_Nil [simp]: "m_offsets m = [] \<Longrightarrow> Slice m = []"
  by (simp add: Slice_def Len_def)

lemma Slice_Cons [simp]:
  "Slice \<lparr>m_blockSize = bs, m_builds = builds, m_offsets = x # os, m_lengths = l # ls,
          m_storage = s # ss, m_buildIdx = bi # bis\<rparr> =
   \<lparr>Offset = u64 (x * bs), Length = u64 (l * bs),
    BuildId = (if bi \<noteq> nilBuildIdx then builds ! nat bi else uuid_Nil),
    BuildStorageOffset = u64 (s * bs)\<rparr> #
   Slice \<lparr>m_blockSize = bs, m_builds = builds, m_offsets = os, m_lengths = ls,
          m_storage = ss, m_buildIdx = bis\<rparr>"
  by (simp add: Slice_def Len_def entry_def upt_conv_Cons map_Suc_upt [symmetric] comp_def
      del: upt_Suc)

text \<open>The table of builds under construction: an index per known build, none twice.\<close>

definition table_ok :: "(uuid \<rightharpoonup> int) \<Rightarrow> uuid list \<Rightarrow> bool" where
  "table_ok idx builds \<longleftrightarrow> distinct builds \<and> uuid_Nil \<notin> set builds \<and>
     (\<forall>b. idx b = None \<longleftrightarrow> b \<notin> set builds) \<and>
     (\<forall>b i. idx b = Some i \<longrightarrow> 0 \<le> i \<and> i < int (length builds) \<and> builds ! nat i = b) \<and>
     length builds \<le> 65535"

lemma table_ok_add:
  assumes "table_ok idx builds" "idx b = None" "b \<noteq> uuid_Nil" "length builds < 65535"
  shows "table_ok (idx(b \<mapsto> int (length builds))) (builds @ [b])"
proof -
  have "0 \<le> i \<and> i < int (length (builds @ [b])) \<and> (builds @ [b]) ! nat i = b'"
    if "(idx(b \<mapsto> int (length builds))) b' = Some i" for b' i
  proof (cases "b' = b")
    case True
    with that show ?thesis by auto
  next
    case False
    with that assms(1) have "0 \<le> i" "i < int (length builds)" "builds ! nat i = b'"
      by (auto simp: table_ok_def)
    then show ?thesis by (auto simp: nth_append)
  qed
  with assms show ?thesis by (auto simp: table_ok_def)
qed

lemma build_index_Inr:
  assumes "build_index b idx builds = Inr (i, idx', builds')" "table_ok idx builds"
  shows "table_ok idx' builds' \<and> (\<exists>ext. builds' = builds @ ext) \<and>
    set builds' = set builds \<union> ({b} - {uuid_Nil}) \<and> 0 \<le> i \<and>
    (i = nilBuildIdx \<and> b = uuid_Nil \<or>
     i < int (length builds') \<and> i \<noteq> nilBuildIdx \<and> builds' ! nat i = b)"
proof -
  consider "b = uuid_Nil" | "b \<noteq> uuid_Nil" "idx b = None" | "b \<noteq> uuid_Nil" "idx b \<noteq> None" by blast
  then show ?thesis
  proof cases
    case 1
    with assms show ?thesis by (auto simp: build_index_def nilBuildIdx_def)
  next
    case 2
    with assms(1) have len: "length builds < 65535" and "i = u16 (int (length builds))"
      "idx' = idx(b \<mapsto> i)" "builds' = builds @ [b]"
      by (auto simp: build_index_def maxBuildsPerHeader_def nilBuildIdx_def Let_def split: if_splits)
    moreover have "u16 (int (length builds)) = int (length builds)" using len by (simp add: u16_id)
    ultimately show ?thesis
      using 2 table_ok_add [OF assms(2) 2(2,1) len] by (auto simp: nilBuildIdx_def)
  next
    case 3
    with assms(1) have "idx b = Some i" "idx' = idx" "builds' = builds"
      by (auto simp: build_index_def)
    moreover from this assms(2) have "0 \<le> i" "i < int (length builds)" "builds ! nat i = b"
      "b \<in> set builds" "length builds \<le> 65535"
      by (force simp: table_ok_def)+
    ultimately show ?thesis using assms(2) by (auto simp: nilBuildIdx_def)
  qed
qed

lemma build_index_fails_iff:
  assumes "table_ok idx builds"
  shows "(\<exists>e. build_index b idx builds = Inl e) \<longleftrightarrow>
    card (set builds \<union> ({b} - {uuid_Nil})) > 65535"
proof -
  have c: "card (set builds) = length builds" "length builds \<le> 65535"
    using assms by (simp_all add: table_ok_def distinct_card)
  have "card (set builds \<union> {b}) = (if b \<in> set builds then length builds else Suc (length builds))"
    using c by (simp add: insert_absorb)
  moreover have "idx b = None \<longleftrightarrow> b \<notin> set builds" using assms by (simp add: table_ok_def)
  ultimately show ?thesis
    using c by (auto simp: build_index_def maxBuildsPerHeader_def nilBuildIdx_def Let_def
      split: if_splits option.splits)
qed

text \<open>What the loop of \<open>NewMapping\<close> produces, and when it fails.\<close>

definition cols_ok :: "nat \<Rightarrow> uuid list \<Rightarrow> columns \<Rightarrow> bool" where
  "cols_ok n builds c = (case c of (os, ls, ss, bis) \<Rightarrow>
     length os = n \<and> length ls = n \<and> length ss = n \<and> length bis = n \<and>
     (\<forall>x \<in> set os \<union> set ls \<union> set ss. 0 \<le> x \<and> x \<le> maxBlockIdx) \<and>
     (\<forall>bi \<in> set bis. 0 \<le> bi \<and> (bi = nilBuildIdx \<or> bi < int (length builds))))"

lemma packed_column:
  assumes "0 < bs" "0 \<le> x" "x < 18446744073709551616" "x mod bs = 0" "x div bs \<le> maxBlockIdx"
  shows "u64 (u32 (x div bs) * bs) = x" "0 \<le> u32 (x div bs) \<and> u32 (x div bs) \<le> maxBlockIdx"
proof -
  have "u32 (x div bs) = x div bs"
    using assms by (intro u32_id) (auto simp: maxBlockIdx_def pos_imp_zdiv_nonneg_iff)
  moreover have "x div bs * bs = x" using assms(4) by (simp add: mod_0_imp_dvd)
  ultimately show "u64 (u32 (x div bs) * bs) = x" using assms by (simp add: u64_id)
  show "0 \<le> u32 (x div bs) \<and> u32 (x div bs) \<le> maxBlockIdx"
    using u32_bounds [of "x div bs"] unfolding maxBlockIdx_def by linarith
qed

lemma newMapping_loop_Inr:
  assumes "newMapping_loop bs ms idx builds = Inr (builds', c)" "table_ok idx builds"
    and "0 < bs" "\<forall>m \<in> set ms. bm_u64 m"
  shows "(\<exists>ext. builds' = builds @ ext) \<and> (\<exists>idx'. table_ok idx' builds') \<and>
    cols_ok (length ms) builds' c \<and> Slice (cm bs builds' c) = ms"
  using assms
proof (induction ms arbitrary: idx builds builds' c)
  case Nil
  then show ?case by (auto simp: cols_ok_def)
next
  case (Cons m ms)
  from Cons.prems(1) obtain i idx1 builds1 os ls ss bis where
    b: "build_index (BuildId m) idx builds = Inr (i, idx1, builds1)"
    and l: "newMapping_loop bs ms idx1 builds1 = Inr (builds', os, ls, ss, bis)"
    and f: "fits bs m"
    and c: "c = (u32 (Offset m div bs) # os, u32 (Length m div bs) # ls,
      u32 (BuildStorageOffset m div bs) # ss, i # bis)"
    by (auto simp: bindR_eq_Inr Let_def fits_def split: if_splits)
  note t = build_index_Inr [OF b Cons.prems(2)]
  then have "table_ok idx1 builds1" by blast
  note IH = Cons.IH [OF l this Cons.prems(3)]
  then have IH: "(\<exists>ext. builds' = builds1 @ ext)" "\<exists>idx'. table_ok idx' builds'"
    "cols_ok (length ms) builds' (os, ls, ss, bis)" "Slice (cm bs builds' (os, ls, ss, bis)) = ms"
    using Cons.prems(4) by auto
  then obtain ext where ext: "builds' = builds1 @ ext" by blast
  have u: "bm_u64 m" using Cons.prems(4) by simp
  note p = packed_column [OF Cons.prems(3)]
  have i: "(if i \<noteq> nilBuildIdx then builds' ! nat i else uuid_Nil) = BuildId m"
    "0 \<le> i \<and> (i = nilBuildIdx \<or> i < int (length builds'))"
    using t ext by (auto simp: nth_append)
  have "Slice (cm bs builds' c) = m # ms"
    using IH(4) i(1) p(1) u f by (simp add: c bm_u64_def fits_def)
  moreover have "cols_ok (Suc (length ms)) builds' c"
    using IH(3) i(2) p(2) u f by (simp add: c cols_ok_def bm_u64_def fits_def)
  ultimately show ?case using t IH(2) ext by auto
qed

lemma newMapping_loop_succeeds_iff:
  assumes "table_ok idx builds" "0 < bs"
  shows "(\<exists>r. newMapping_loop bs ms idx builds = Inr r) \<longleftrightarrow>
    (\<forall>m \<in> set ms. fits bs m) \<and> card (set builds \<union> (BuildId ` set ms - {uuid_Nil})) \<le> 65535"
  using assms
proof (induction ms arbitrary: idx builds)
  case Nil
  then show ?case by (auto simp: table_ok_def distinct_card)
next
  case (Cons m ms)
  let ?all = "set builds \<union> (BuildId ` set (m # ms) - {uuid_Nil})"
  show ?case
  proof (cases "fits bs m")
    case False
    then show ?thesis by (auto simp: fits_def Let_def)
  next
    case f: True
    then have step: "newMapping_loop bs (m # ms) idx builds =
      bindR (build_index (BuildId m) idx builds) (\<lambda>(i, idx', builds').
        bindR (newMapping_loop bs ms idx' builds') (\<lambda>(b, os, ls, ss, bis).
          Inr (b, u32 (Offset m div bs) # os, u32 (Length m div bs) # ls,
            u32 (BuildStorageOffset m div bs) # ss, i # bis)))"
      by (simp add: fits_def Let_def not_less)
    show ?thesis
    proof (cases "build_index (BuildId m) idx builds")
      case (Inl e)
      then have "card (set builds \<union> ({BuildId m} - {uuid_Nil})) > 65535"
        using build_index_fails_iff [OF Cons.prems(1)] by blast
      moreover have "card (set builds \<union> ({BuildId m} - {uuid_Nil})) \<le> card ?all"
        by (intro card_mono) auto
      ultimately show ?thesis using Inl step by simp
    next
      case (Inr r)
      obtain i idx' builds' where r: "r = (i, idx', builds')" by (cases r) auto
      note t = build_index_Inr [OF Inr [unfolded r] Cons.prems(1)]
      then have t: "table_ok idx' builds'" "set builds' = set builds \<union> ({BuildId m} - {uuid_Nil})"
        by blast+
      have "set builds' \<union> (BuildId ` set ms - {uuid_Nil}) = ?all" using t(2) by auto
      then show ?thesis
        using Cons.IH [OF t(1) Cons.prems(2)] Inr r step f by (auto simp: bindR_eq_Inr)
    qed
  qed
qed

lemma table_ok_empty [simp]: "table_ok Map.empty []"
  by (simp add: table_ok_def)

lemma NewMapping_Inr:
  assumes "NewMapping bs src = Inr m" "0 \<le> bs" "\<forall>e \<in> set src. bm_u64 e"
  shows "Slice m = src" "cm_wf m" "m_blockSize m = bs" "distinct (m_builds m)" "uuid_Nil \<notin> set (m_builds m)"
proof -
  have bs: "0 < bs" using assms(1,2) by (auto simp: NewMapping_def split: if_splits)
  have "Slice m = src \<and> cm_wf m \<and> m_blockSize m = bs \<and> distinct (m_builds m) \<and> uuid_Nil \<notin> set (m_builds m)"
  proof (cases "src = []")
    case True
    with assms(1) bs show ?thesis
      by (auto simp: NewMapping_def cm_wf_def Len_def maxBuildsPerHeader_def nilBuildIdx_def)
  next
    case False
    with assms(1) bs obtain builds os ls ss bis where
      l: "newMapping_loop bs src Map.empty [] = Inr (builds, os, ls, ss, bis)"
      and m: "m = cm bs builds (os, ls, ss, bis)"
      by (auto simp: NewMapping_def bindR_eq_Inr)
    from newMapping_loop_Inr [OF l table_ok_empty bs assms(3)] obtain idx where
      t: "table_ok idx builds" and c: "cols_ok (length src) builds (os, ls, ss, bis)"
      and s: "Slice m = src" unfolding m by auto
    show ?thesis
      using t c s bs
      by (auto simp: m cm_wf_def cols_ok_def table_ok_def Len_def maxBuildsPerHeader_def nilBuildIdx_def)
  qed
  then show "Slice m = src" "cm_wf m" "m_blockSize m = bs" "distinct (m_builds m)" "uuid_Nil \<notin> set (m_builds m)"
    by simp_all
qed

lemma NewMapping_succeeds_iff:
  assumes "0 \<le> bs"
  shows "(\<exists>m. NewMapping bs src = Inr m) \<longleftrightarrow>
    bs \<noteq> 0 \<and> (\<forall>e \<in> set src. fits bs e) \<and> card (BuildId ` set src - {uuid_Nil}) \<le> 65535"
  using newMapping_loop_succeeds_iff [of Map.empty "[]" bs src] assms
  by (auto simp: NewMapping_def bindR_eq_Inr)

section \<open>Searching\<close>

text \<open>The hand-written loop is \<open>sort.Search\<close>.\<close>

lemma search_loop_sort_search:
  "search_loop offsets target lo hi = sort_search_loop (\<lambda>i. offsets ! i > target) lo hi"
proof (induction offsets target lo hi rule: search_loop.induct)
  case (1 offsets target lo hi)
  then show ?case
    by (subst search_loop.simps, subst sort_search_loop.simps) (auto simp: Let_def)
qed

text \<open>Block sizes for which no byte offset of a column overflows.\<close>

lemma entry_exact:
  assumes "cm_wf m" "m_blockSize m \<le> 4294967296" "i < Len m"
  shows "Offset (entry m i) = m_offsets m ! i * m_blockSize m"
    "Length (entry m i) = m_lengths m ! i * m_blockSize m"
    "BuildStorageOffset (entry m i) = m_storage m ! i * m_blockSize m"
proof -
  have u: "u64 (x * m_blockSize m) = x * m_blockSize m" if "0 \<le> x \<and> x \<le> maxBlockIdx" for x
  proof (rule u64_id)
    show "0 \<le> x * m_blockSize m" using that assms(1) by (simp add: cm_wf_def)
    have "x * m_blockSize m \<le> 4294967295 * 4294967296"
      using that assms(1,2) by (intro mult_mono) (auto simp: maxBlockIdx_def cm_wf_def)
    then show "x * m_blockSize m < 18446744073709551616" by simp
  qed
  have "0 \<le> m_offsets m ! i \<and> m_offsets m ! i \<le> maxBlockIdx"
    "0 \<le> m_lengths m ! i \<and> m_lengths m ! i \<le> maxBlockIdx"
    "0 \<le> m_storage m ! i \<and> m_storage m ! i \<le> maxBlockIdx"
    using assms(1,3) by (auto simp: cm_wf_def Len_def)
  then show "Offset (entry m i) = m_offsets m ! i * m_blockSize m"
    "Length (entry m i) = m_lengths m ! i * m_blockSize m"
    "BuildStorageOffset (entry m i) = m_storage m ! i * m_blockSize m"
    by (simp_all add: entry_def u)
qed

lemma SearchOffset_bounds:
  assumes "cm_wf m" "m_blockSize m \<le> 4294967296" "sorted (m_offsets m)"
    and "0 \<le> off" "off \<le> max_i64"
  shows "SearchOffset m off \<le> Len m"
    "i < SearchOffset m off \<Longrightarrow> Offset (entry m i) \<le> off"
    "SearchOffset m off \<le> i \<Longrightarrow> i < Len m \<Longrightarrow> off < Offset (entry m i)"
proof -
  let ?f = "\<lambda>i. m_offsets m ! i > u64 off div m_blockSize m"
  have bs: "0 < m_blockSize m" using assms(1) by (simp add: cm_wf_def)
  have f: "?f i \<longleftrightarrow> off < Offset (entry m i)" if "i < Len m" for i
    using that assms bs div_less_iff [OF bs, of off "m_offsets m ! i"] by (simp add: entry_exact u64_id)
  have s: "SearchOffset m off = sort_Search (Len m) ?f"
  proof (cases "m_offsets m = []")
    case True
    then show ?thesis
      by (simp add: SearchOffset_def sort_Search_def Len_def sort_search_loop.simps [of _ 0 0])
  next
    case False
    then show ?thesis
      using assms(4) by (simp add: SearchOffset_def sort_Search_def search_loop_sort_search Len_def)
  qed
  have "?f j" if "a \<le> j" "j < Len m" "?f a" for a j
    using that sorted_nth_mono [OF assms(3), of a j] by (simp add: Len_def)
  then have "upclosed (Len m) ?f" by (auto simp: upclosed_def)
  note spec = sort_Search_spec [OF this]
  show "SearchOffset m off \<le> Len m" using spec(1) s by simp
  show "i < SearchOffset m off \<Longrightarrow> Offset (entry m i) \<le> off" using spec(1) spec(2) [of i] f [of i] s by simp
  show "SearchOffset m off \<le> i \<Longrightarrow> i < Len m \<Longrightarrow> off < Offset (entry m i)"
    using spec(3) [of i] f [of i] s by simp
qed

section \<open>Validation\<close>

lemma cvalidate_loop_slice:
  assumes "length ls = length os" "length ss = length os" "length bis = length os"
    and "0 < mbs" "mbs \<le> 4294967296" "bs \<noteq> 0" "mbs mod bs = 0"
    and "\<forall>l \<in> set ls. 0 \<le> l \<and> l \<le> maxBlockIdx"
  shows "cvalidate_loop mbs sz (zip os ls) cur = Inr z \<longleftrightarrow>
    validate_loop (Slice (cm mbs builds (os, ls, ss, bis))) sz bs cur = Inr z"
  using assms
proof (induction os arbitrary: ls ss bis cur)
  case Nil
  then show ?case by simp
next
  case (Cons x os)
  then obtain l ls' s ss' bi bis' where c: "ls = l # ls'" "ss = s # ss'" "bis = bi # bis'"
    by (metis length_Suc_conv length_Cons)
  have "l * mbs \<le> 4294967295 * 4294967296"
    using Cons.prems c by (intro mult_mono) (auto simp: maxBlockIdx_def)
  then have "u64 (l * mbs) = l * mbs" using Cons.prems c by (intro u64_id) auto
  moreover have "l * mbs mod bs = 0" using Cons.prems(7) by (simp add: mod_mult_right_eq [symmetric])
  ultimately have "u64 (l * mbs) mod bs = 0" by simp
  then show ?case
    using Cons.IH [of ls' ss' bis'] Cons.prems c by (simp add: Let_def)
qed

lemma Validate_Slice:
  assumes "cm_wf m" "m_blockSize m \<le> 4294967296" "bs \<noteq> 0"
  shows "Validate m sz bs = Inr () \<longleftrightarrow> ValidateMappings (Slice m) sz bs = Inr ()"
proof (cases "m_blockSize m mod bs = 0")
  case False
  then show ?thesis using assms(3) by (simp add: Validate_def)
next
  case True
  have "cvalidate_loop (m_blockSize m) sz (zip (m_offsets m) (m_lengths m)) 0 = Inr z \<longleftrightarrow>
      validate_loop (Slice m) sz bs 0 = Inr z" for z
    using cvalidate_loop_slice [of "m_lengths m" "m_offsets m" "m_storage m" "m_buildIdx m"
        "m_blockSize m" bs sz 0 z "m_builds m"] assms True
    by (cases m) (simp add: cm_wf_def Len_def)
  then show ?thesis
    using assms(3) True
    by (auto simp: Validate_def ValidateMappings_def bindR_eq_Inr split: if_splits)
qed

section \<open>Bytes per build\<close>

lemma add_sums_nth:
  assumes "\<forall>(bi, l) \<in> set ps. bi = nilBuildIdx \<or> 0 \<le> bi \<and> bi < int (length sums)"
    and "k < length sums" "k < 65535" "\<forall>x \<in> set sums. x = u64 x"
  shows "add_sums sums ps ! k = u64 (sums ! k + (\<Sum>(bi, l) \<leftarrow> ps. if bi = int k then l else 0))
    \<and> length (add_sums sums ps) = length sums"
  using assms
proof (induction sums ps rule: add_sums.induct)
  case (1 sums)
  then show ?case by simp
next
  case (2 sums bi l rest)
  show ?case
  proof (cases "bi = nilBuildIdx")
    case True
    then have "bi \<noteq> int k" using 2(4) by (simp add: nilBuildIdx_def)
    with True 2 show ?thesis by simp
  next
    case False
    let ?sums = "sums[nat bi := u64 (sums ! nat bi + l)]"
    have idem: "u64 x = u64 (u64 x)" for x by (simp add: u64_def)
    have IH: "add_sums ?sums rest ! k = u64 (?sums ! k + (\<Sum>(bi, l) \<leftarrow> rest. if bi = int k then l else 0))
      \<and> length (add_sums ?sums rest) = length sums"
      using 2(1) 2(2-5) False idem set_update_subset_insert [of sums "nat bi"]
      by (auto simp: subset_iff)
    have "0 \<le> bi" using 2(2) False by auto
    then show ?thesis
      using IH False 2(3) by (cases "bi = int k") (auto simp: u64_def mod_simps add.assoc)
  qed
qed

lemma foldl_upd_distinct:
  assumes "distinct (map fst ps)"
  shows "foldl (\<lambda>out (b, x). out(b \<mapsto> g x)) m0 ps b =
    (case map_of ps b of Some x \<Rightarrow> Some (g x) | None \<Rightarrow> m0 b)"
  using assms
proof (induction ps arbitrary: m0)
  case (Cons p ps)
  then have "fst p \<notin> set (map fst ps)" by simp
  then have "map_of ps (fst p) = None" by (simp add: map_of_eq_None_iff)
  with Cons show ?case by (auto split: prod.splits option.splits)
qed simp

lemma BytesByBuild_sum:
  assumes "cm_wf m" "m_blockSize m \<le> 4294967296" "distinct (m_builds m)" "uuid_Nil \<notin> set (m_builds m)"
  shows "BytesByBuild m b = (if b \<in> set (m_builds m)
    then Some (u64 (\<Sum>e \<leftarrow> Slice m. if BuildId e = b then Length e else 0)) else None)"
proof -
  let ?n = "length (m_builds m)"
  let ?ps = "zip (m_buildIdx m) (m_lengths m)"
  let ?sums = "add_sums (replicate ?n 0) ?ps"
  let ?S = "\<lambda>k. \<Sum>(bi, l) \<leftarrow> ?ps. if bi = int k then l else 0"
  have wf: "\<forall>(bi, l) \<in> set ?ps. bi = nilBuildIdx \<or> 0 \<le> bi \<and> bi < int (length (replicate ?n 0))"
    and n: "?n \<le> 65535"
    using assms(1) by (auto simp: cm_wf_def maxBuildsPerHeader_def nilBuildIdx_def dest: set_zip_leftD)
  have sums: "?sums ! k = u64 (?S k)" "length ?sums = ?n" if "k < ?n" for k
    using add_sums_nth [OF wf, of k] that n by (auto simp: u64_def)
  have out: "BytesByBuild m b =
      (case map_of (zip (m_builds m) ?sums) b of
         Some x \<Rightarrow> Some (u64 (x * m_blockSize m)) | None \<Rightarrow> None)"
    unfolding BytesByBuild_def Let_def
    by (subst foldl_upd_distinct) (simp_all add: assms(3) map_fst_zip_take)
  show ?thesis
  proof (cases "b \<in> set (m_builds m)")
    case False
    then have "map_of (zip (m_builds m) ?sums) b = None"
      by (auto simp: map_of_eq_None_iff dest: set_zip_leftD)
    then show ?thesis using False out by simp
  next
    case True
    then obtain k where k: "k < ?n" "m_builds m ! k = b" by (auto simp: in_set_conv_nth)
    have map: "map_of (zip (m_builds m) ?sums) b = Some (u64 (?S k))"
      using k sums assms(3) by (intro map_of_is_SomeI) (auto simp: map_fst_zip_take in_set_zip)
    have ent: "(if BuildId (entry m i) = b then Length (entry m i) else 0) =
        (if m_buildIdx m ! i = int k then m_lengths m ! i else 0) * m_blockSize m"
      if "i < Len m" for i
    proof -
      have "m_buildIdx m ! i \<in> set (m_buildIdx m)" using that assms(1) by (simp add: cm_wf_def)
      then have bi: "0 \<le> m_buildIdx m ! i"
        "m_buildIdx m ! i = nilBuildIdx \<or> m_buildIdx m ! i < int ?n"
        using assms(1) by (auto simp: cm_wf_def)
      have "b \<noteq> uuid_Nil" using True assms(4) by auto
      then have "BuildId (entry m i) = b \<longleftrightarrow>
          m_buildIdx m ! i \<noteq> nilBuildIdx \<and> m_builds m ! nat (m_buildIdx m ! i) = m_builds m ! k"
        using k(2) by (simp add: entry_def)
      also have "\<dots> \<longleftrightarrow> m_buildIdx m ! i \<noteq> nilBuildIdx \<and> nat (m_buildIdx m ! i) = k"
        using bi k(1) by (auto simp: nth_eq_iff_index_eq [OF assms(3)])
      also have "\<dots> \<longleftrightarrow> m_buildIdx m ! i = int k"
        using bi(1) k(1) n by (auto simp: nilBuildIdx_def)
      finally have "BuildId (entry m i) = b \<longleftrightarrow> m_buildIdx m ! i = int k" .
      then show ?thesis using entry_exact(2) [OF assms(1,2) that] by simp
    qed
    have zip: "?ps = map (\<lambda>i. (m_buildIdx m ! i, m_lengths m ! i)) [0..<Len m]"
      using assms(1) by (intro nth_equalityI) (auto simp: cm_wf_def)
    have "(\<Sum>e \<leftarrow> Slice m. if BuildId e = b then Length e else 0) =
        (\<Sum>i \<leftarrow> [0..<Len m]. (if m_buildIdx m ! i = int k then m_lengths m ! i else 0) * m_blockSize m)"
      unfolding Slice_def map_map comp_def using ent
      by (intro arg_cong [of _ _ sum_list] map_cong) auto
    also have "\<dots> = ?S k * m_blockSize m"
      by (simp add: zip comp_def sum_list_mult_const)
    finally show ?thesis
      using True map out by (simp add: u64_def mod_simps)
  qed
qed

lemma newMappingFromColumns_wf:
  assumes "newMappingFromColumns bs builds os ls ss bis = Inr m" "0 < bs"
    and "\<forall>x \<in> set os \<union> set ls \<union> set ss. 0 \<le> x \<and> x \<le> maxBlockIdx" "\<forall>bi \<in> set bis. 0 \<le> bi"
    and "int (length builds) \<le> maxBuildsPerHeader"
  shows "cm_wf m"
  using assms by (auto simp: newMappingFromColumns_def cm_wf_def Len_def Let_def split: if_splits)

section \<open>Properties\<close>

text \<open>Packing a mapping loses nothing and fails only when it must: \<open>NewMapping\<close> succeeds
  exactly when the block size is not zero, every entry is block-aligned with 32-bit block
  indices, and at most 65535 distinct builds are referenced; the packed form satisfies the
  representation invariant and \<open>Slice\<close> gives back the entries.\<close>

theorem NewMapping_lossless:
  assumes "0 \<le> blockSize" "\<forall>e \<in> set src. bm_u64 e"
  shows "((\<exists>m. NewMapping blockSize src = Inr m) \<longleftrightarrow>
      blockSize \<noteq> 0 \<and> (\<forall>e \<in> set src. fits blockSize e) \<and>
      card (BuildId ` set src - {uuid_Nil}) \<le> 65535) \<and>
    (\<forall>m. NewMapping blockSize src = Inr m \<longrightarrow> Slice m = src \<and> cm_wf m \<and> distinct (m_builds m))"
  using NewMapping_succeeds_iff [OF assms(1)] NewMapping_Inr [OF _ assms] by blast

theorem NewMapping_lossless_witness:
  "\<exists>m. NewMapping 4096
     [\<lparr>Offset = 0, Length = 8192, BuildId = 5, BuildStorageOffset = 4096\<rparr>,
      \<lparr>Offset = 8192, Length = 4096, BuildId = 0, BuildStorageOffset = 0\<rparr>] = Inr m \<and>
   Slice m = [\<lparr>Offset = 0, Length = 8192, BuildId = 5, BuildStorageOffset = 4096\<rparr>,
      \<lparr>Offset = 8192, Length = 4096, BuildId = 0, BuildStorageOffset = 0\<rparr>]"
  using NewMapping_lossless [of 4096
    "[\<lparr>Offset = 0, Length = 8192, BuildId = 5, BuildStorageOffset = 4096\<rparr>,
      \<lparr>Offset = 8192, Length = 4096, BuildId = 0, BuildStorageOffset = 0\<rparr>]"]
  by (auto simp: bm_u64_def fits_def maxBlockIdx_def)

text \<open>The search over block columns finds the place of a byte offset without materialising
  entries: its result splits the entries into those that start at or before the offset and those
  that start after it.\<close>

theorem SearchOffset_splits:
  assumes "cm_wf m" "m_blockSize m \<le> 4294967296" "sorted (m_offsets m)" "0 \<le> off" "off \<le> max_i64"
  shows "SearchOffset m off \<le> Len m \<and>
    (\<forall>i < SearchOffset m off. Offset (entry m i) \<le> off) \<and>
    (\<forall>i. SearchOffset m off \<le> i \<and> i < Len m \<longrightarrow> off < Offset (entry m i))"
  using SearchOffset_bounds [OF assms] by blast

theorem SearchOffset_splits_witness:
  "SearchOffset
     \<lparr>m_blockSize = 4096, m_builds = [5], m_offsets = [0, 2], m_lengths = [2, 1],
      m_storage = [0, 0], m_buildIdx = [0, nilBuildIdx]\<rparr> 9000 \<le> 2"
  using SearchOffset_splits [of
    "\<lparr>m_blockSize = 4096, m_builds = [5], m_offsets = [0, 2], m_lengths = [2, 1],
      m_storage = [0, 0], m_buildIdx = [0, nilBuildIdx]\<rparr>" 9000]
  by (auto simp: cm_wf_def Len_def nilBuildIdx_def maxBuildsPerHeader_def maxBlockIdx_def)

text \<open>Validation on the columns agrees with \<open>ValidateMappings\<close> on the materialised entries,
  which its comment claims.\<close>

theorem Validate_agrees:
  assumes "cm_wf m" "m_blockSize m \<le> 4294967296" "blockSize \<noteq> 0"
  shows "Validate m sz blockSize = Inr () \<longleftrightarrow> ValidateMappings (Slice m) sz blockSize = Inr ()"
  using assms by (rule Validate_Slice)

theorem Validate_agrees_witness:
  "Validate \<lparr>m_blockSize = 4096, m_builds = [5], m_offsets = [0, 2], m_lengths = [2, 1],
      m_storage = [0, 0], m_buildIdx = [0, nilBuildIdx]\<rparr> 12288 2048 = Inr () \<longleftrightarrow>
   ValidateMappings (Slice \<lparr>m_blockSize = 4096, m_builds = [5], m_offsets = [0, 2],
      m_lengths = [2, 1], m_storage = [0, 0], m_buildIdx = [0, nilBuildIdx]\<rparr>) 12288 2048 = Inr ()"
  by (rule Validate_agrees)
    (auto simp: cm_wf_def Len_def nilBuildIdx_def maxBuildsPerHeader_def maxBlockIdx_def)

text \<open>The bytes attributed to a build are the sum of the lengths of its entries, for every
  build of the table and no other.\<close>

theorem BytesByBuild_sums_lengths:
  assumes "cm_wf m" "m_blockSize m \<le> 4294967296" "distinct (m_builds m)"
    and "uuid_Nil \<notin> set (m_builds m)"
  shows "BytesByBuild m b = (if b \<in> set (m_builds m)
    then Some (u64 (\<Sum>e \<leftarrow> Slice m. if BuildId e = b then Length e else 0)) else None)"
  using assms by (rule BytesByBuild_sum)

theorem BytesByBuild_sums_lengths_witness:
  "BytesByBuild \<lparr>m_blockSize = 4096, m_builds = [5], m_offsets = [0, 2, 3], m_lengths = [2, 1, 4],
      m_storage = [0, 0, 2], m_buildIdx = [0, nilBuildIdx, 0]\<rparr> 5 = Some 24576"
  by (subst BytesByBuild_sums_lengths)
    (auto simp: cm_wf_def Len_def nilBuildIdx_def maxBuildsPerHeader_def maxBlockIdx_def u64_def)

end
