(* ===== verification/Codec.thy ===== *)
theory Codec
  imports Prelude
begin

text \<open>
  The parts of Go's \<open>encoding/binary\<close> and \<open>io\<close> that the storage formats use. A reader is the list
  of the bytes not yet read. \<open>io.ReadFull\<close> tells an exhausted reader (\<open>EOF\<close>) from one that ends
  in the middle of a value (\<open>UnexpectedEOF\<close>), and \<open>binary.Read\<close> reads a whole fixed-size value, struct
  or slice that way before it decodes it.

  The locale \<open>codec\<close> is the interface the formats are built on: an encoder and a decoder such
  that decoding what was written returns the value and leaves the rest of the input; a
  \<open>sized_codec\<close> also writes a fixed number of bytes. Sequences of values are proved once from
  these laws, and each primitive is an interpretation.
\<close>

section \<open>Reading\<close>

definition read_full :: "nat \<Rightarrow> bytes \<Rightarrow> (bytes \<times> bytes) result" where
  "read_full n r =
     (if n = 0 then Inr ([], r)
      else if r = [] then Inl EOF
      else if length r < n then Inl UnexpectedEOF
      else Inr (take n r, drop n r))"

lemma read_full_append [simp]: "length b = n \<Longrightarrow> read_full n (b @ r) = Inr (b, r)"
  by (auto simp: read_full_def)

lemma read_full_Inr: "read_full n r = Inr (b, r') \<longleftrightarrow> r = b @ r' \<and> length b = n"
  by (auto simp: read_full_def split: if_splits)

text \<open>\<open>binary.Read\<close> of a fixed-size value of \<open>n\<close> bytes that \<open>f\<close> decodes.\<close>

definition binary_read :: "nat \<Rightarrow> (bytes \<Rightarrow> 'a) \<Rightarrow> bytes \<Rightarrow> ('a \<times> bytes) result" where
  "binary_read n f r = bindR (read_full n r) (\<lambda>(b, r'). Inr (f b, r'))"

fun get_many :: "(bytes \<Rightarrow> ('a \<times> bytes) result) \<Rightarrow> nat \<Rightarrow> bytes \<Rightarrow> ('a list \<times> bytes) result" where
  "get_many get 0 r = Inr ([], r)"
| "get_many get (Suc n) r =
     bindR (get r) (\<lambda>(x, r'). bindR (get_many get n r') (\<lambda>(xs, r''). Inr (x # xs, r'')))"

definition put_many :: "('a \<Rightarrow> bytes) \<Rightarrow> 'a list \<Rightarrow> bytes" where
  "put_many put xs = concat (map put xs)"

lemma put_many_simps [simp]:
  "put_many put [] = []" "put_many put (x # xs) = put x @ put_many put xs"
  by (simp_all add: put_many_def)

text \<open>Reading a sequence when each value that was written as \<open>put x\<close> reads as \<open>g x\<close>.\<close>

lemma get_many_view:
  "\<forall>x \<in> set xs. \<forall>rest. get (put x @ rest) = Inr (g x, rest) \<Longrightarrow>
   get_many get (length xs) (put_many put xs @ rest) = Inr (map g xs, rest)"
  by (induction xs) simp_all

text \<open>\<open>binary.Read\<close> of a slice of \<open>n\<close> values of \<open>size\<close> bytes each.\<close>

fun decode_slice :: "nat \<Rightarrow> (bytes \<Rightarrow> 'a) \<Rightarrow> nat \<Rightarrow> bytes \<Rightarrow> 'a list" where
  "decode_slice sz f 0 b = []"
| "decode_slice sz f (Suc n) b = f (take sz b) # decode_slice sz f n (drop sz b)"

definition binary_read_slice :: "nat \<Rightarrow> (bytes \<Rightarrow> 'a) \<Rightarrow> nat \<Rightarrow> bytes \<Rightarrow> ('a list \<times> bytes) result" where
  "binary_read_slice sz f n r = binary_read (n * sz) (decode_slice sz f n) r"

section \<open>Codecs\<close>

locale codec =
  fixes put :: "'a \<Rightarrow> bytes" and get :: "bytes \<Rightarrow> ('a \<times> bytes) result" and ok :: "'a \<Rightarrow> bool"
  assumes get_put: "ok x \<Longrightarrow> get (put x @ rest) = Inr (x, rest)"
begin

lemma get_many_put:
  "\<forall>x \<in> set xs. ok x \<Longrightarrow> get_many get (length xs) (put_many put xs @ rest) = Inr (xs, rest)"
  using get_many_view [of xs get put "\<lambda>x. x"] by (simp add: get_put)

end

locale sized_codec =
  fixes sz :: nat and put :: "'a \<Rightarrow> bytes" and dec :: "bytes \<Rightarrow> 'a" and ok :: "'a \<Rightarrow> bool"
  assumes put_size: "length (put x) = sz"
    and dec_put: "ok x \<Longrightarrow> dec (put x) = x"
begin

lemma read_put: "ok x \<Longrightarrow> binary_read sz dec (put x @ rest) = Inr (x, rest)"
  by (simp add: binary_read_def put_size dec_put)

lemma length_put_many: "length (put_many put xs) = length xs * sz"
  by (induction xs) (simp_all add: put_size)

lemma decode_slice_put:
  "\<forall>x \<in> set xs. ok x \<Longrightarrow> decode_slice sz dec (length xs) (put_many put xs) = xs"
  by (induction xs) (simp_all add: put_size dec_put)

lemma read_slice_put:
  "\<forall>x \<in> set xs. ok x \<Longrightarrow>
   binary_read_slice sz dec (length xs) (put_many put xs @ rest) = Inr (xs, rest)"
  by (simp add: binary_read_slice_def binary_read_def length_put_many decode_slice_put)

end

sublocale sized_codec \<subseteq> codec put "binary_read sz dec" ok
  by unfold_locales (rule read_put)

section \<open>Fixed-size values\<close>

definition i32 :: "int \<Rightarrow> int" where
  "i32 x = (x + 2147483648) mod 4294967296 - 2147483648"

lemma i32_id [wrap]: "- 2147483648 \<le> x \<Longrightarrow> x < 2147483648 \<Longrightarrow> i32 x = x"
  by (simp add: i32_def)

abbreviation "u32_ok x \<equiv> 0 \<le> x \<and> x < (4294967296::int)"
abbreviation "u64_ok x \<equiv> 0 \<le> x \<and> x < (18446744073709551616::int)"
abbreviation "i64_ok x \<equiv> - 9223372036854775808 \<le> x \<and> x \<le> max_i64"
abbreviation "i32_ok x \<equiv> - 2147483648 \<le> x \<and> x < (2147483648::int)"

definition put_u32 :: "int \<Rightarrow> bytes" where "put_u32 = le_bytes 4"
definition put_u64 :: "int \<Rightarrow> bytes" where "put_u64 = le_bytes 8"
definition dec_i64 :: "bytes \<Rightarrow> int" where "dec_i64 b = i64 (le_int b)"
definition dec_i32 :: "bytes \<Rightarrow> int" where "dec_i32 b = i32 (le_int b)"

abbreviation "get_u32 \<equiv> binary_read 4 le_int"
abbreviation "get_u64 \<equiv> binary_read 8 le_int"

text \<open>Byte arrays such as \<open>uuid.UUID\<close> are written as they are.\<close>

definition put_uuid :: "uuid \<Rightarrow> bytes" where "put_uuid u = rev (le_bytes 16 (uint u))"
definition dec_uuid :: "bytes \<Rightarrow> uuid" where "dec_uuid b = word_of_int (le_int (rev b))"
definition put_checksum :: "checksum \<Rightarrow> bytes" where "put_checksum u = rev (le_bytes 32 (uint u))"
definition dec_checksum :: "bytes \<Rightarrow> checksum" where "dec_checksum b = word_of_int (le_int (rev b))"

interpretation u32c: sized_codec 4 put_u32 le_int u32_ok
  by unfold_locales (simp_all add: put_u32_def le_int_le_bytes)

interpretation u64c: sized_codec 8 put_u64 le_int u64_ok
  by unfold_locales (simp_all add: put_u64_def le_int_le_bytes)

interpretation i64c: sized_codec 8 put_u64 dec_i64 i64_ok
  by unfold_locales (simp_all add: put_u64_def dec_i64_def le_int_le_bytes i64_def mod_simps)

interpretation i32c: sized_codec 4 put_u32 dec_i32 i32_ok
  by unfold_locales (simp_all add: put_u32_def dec_i32_def le_int_le_bytes i32_def mod_simps)

interpretation uuidc: sized_codec 16 put_uuid dec_uuid "\<lambda>_. True"
proof unfold_locales
  fix x :: uuid
  have "uint x mod 256 ^ 16 = uint x" using uint_lt2p [of x] by simp
  then show "dec_uuid (put_uuid x) = x"
    by (simp only: put_uuid_def dec_uuid_def rev_rev_ident le_int_le_bytes) simp
qed (simp add: put_uuid_def)

interpretation checksumc: sized_codec 32 put_checksum dec_checksum "\<lambda>_. True"
proof unfold_locales
  fix x :: checksum
  have "uint x mod 256 ^ 32 = uint x" using uint_lt2p [of x] by simp
  then show "dec_checksum (put_checksum x) = x"
    by (simp only: put_checksum_def dec_checksum_def rev_rev_ident le_int_le_bytes) simp
qed (simp add: put_checksum_def)

section \<open>Variable-length integers\<close>

text \<open>\<open>binary.PutUvarint\<close> and \<open>binary.ReadUvarint\<close>: seven bits per byte, least significant first. The
  reader counts bytes in \<open>i\<close> and gives up after ten. The bits it combines with \<open>|\<close> do not
  overlap, so the combination is written as a sum.\<close>

function put_uvarint :: "int \<Rightarrow> bytes" where
  "put_uvarint x =
     (if x < 128 then [word_of_int x] else word_of_int (x mod 128 + 128) # put_uvarint (x div 128))"
  by pat_completeness auto
termination
  by (relation "measure nat") auto

declare put_uvarint.simps [simp del]

fun read_uvarint_loop :: "nat \<Rightarrow> int \<Rightarrow> bytes \<Rightarrow> (int \<times> bytes) result" where
  "read_uvarint_loop i x [] =
     (if i \<ge> 10 then Inl (Err ''varint overflow'') else if i > 0 then Inl UnexpectedEOF else Inl EOF)"
| "read_uvarint_loop i x (b # r) =
     (if i \<ge> 10 then Inl (Err ''varint overflow'')
      else if uint b < 128
        then (if i = 9 \<and> uint b > 1 then Inl (Err ''varint overflow'')
              else Inr (u64 (x + uint b * 2 ^ (7 * i)), r))
      else read_uvarint_loop (i + 1) (u64 (x + (uint b mod 128) * 2 ^ (7 * i))) r)"

definition get_uvarint :: "bytes \<Rightarrow> (int \<times> bytes) result" where
  "get_uvarint r = read_uvarint_loop 0 0 r"

lemma uint_byte [simp]: "0 \<le> x \<Longrightarrow> x < 256 \<Longrightarrow> uint (word_of_int x :: byte) = x"
  by (simp add: uint_word_of_int)

lemma shifted_less:
  assumes "(0::int) \<le> x" "x < 2 ^ k" "0 \<le> v" "v < 2 ^ m"
  shows "x + v * 2 ^ k < 2 ^ (k + m)"
proof -
  have "(v + 1) * 2 ^ k \<le> 2 ^ m * 2 ^ k" using assms by (intro mult_right_mono) auto
  then show ?thesis using assms(2) by (simp add: distrib_right power_add mult.commute)
qed

lemma read_uvarint_loop_put:
  assumes "i \<le> 9" "0 \<le> x" "x < 2 ^ (7 * i)" "0 \<le> v" "v < 2 ^ (64 - 7 * i)"
  shows "read_uvarint_loop i x (put_uvarint v @ rest) = Inr (x + v * 2 ^ (7 * i), rest)"
  using assms
proof (induction v arbitrary: i x rule: put_uvarint.induct)
  case (1 v)
  have sum: "x + v * 2 ^ (7 * i) < 2 ^ 64"
    using shifted_less [OF 1(3,4,5,6)] 1(2) by simp
  show ?case
  proof (cases "v < 128")
    case True
    moreover have "i = 9 \<Longrightarrow> v < 2" using 1(6) by simp
    moreover have "u64 (x + v * 2 ^ (7 * i)) = x + v * 2 ^ (7 * i)"
      using sum 1(3,5) by (intro u64_id) simp_all
    ultimately show ?thesis using 1(2,5) by (auto simp: put_uvarint.simps [of v])
  next
    case False
    have i: "i \<le> 8"
    proof (rule ccontr)
      assume "\<not> i \<le> 8"
      with 1(2) have "i = 9" by simp
      then have "v < 2" using 1(6) by simp
      with False show False by simp
    qed
    let ?x = "x + v mod 128 * 2 ^ (7 * i)"
    have "v * 2 ^ (7 * i) = (v mod 128 + 128 * (v div 128)) * 2 ^ (7 * i)" by simp
    then have r: "x + v * 2 ^ (7 * i) = ?x + v div 128 * 2 ^ (7 * (i + 1))"
      by (simp only: distrib_right) (simp add: power_add)
    have x': "0 \<le> ?x" "?x < 2 ^ (7 * (i + 1))"
      using shifted_less [of x "7 * i" "v mod 128" 7] 1(3,4) by (simp_all add: power_add)
    have "(2::int) ^ (7 * (i + 1)) \<le> 2 ^ 63" using i by (intro power_increasing) auto
    then have u: "u64 ?x = ?x" using x' by (intro u64_id) auto
    have "64 - 7 * i = 7 + (64 - 7 * (i + 1))" using i by simp
    then have p: "(2::int) ^ (64 - 7 * i) = 128 * 2 ^ (64 - 7 * (i + 1))"
      by (simp only: power_add) simp
    have "v div 128 < 2 ^ (64 - 7 * (i + 1))"
      using 1(6) unfolding p by (simp add: div_less_iff mult.commute)
    then have IH: "read_uvarint_loop (i + 1) ?x (put_uvarint (v div 128) @ rest) =
        Inr (?x + v div 128 * 2 ^ (7 * (i + 1)), rest)"
      using 1(1) [OF False, of "i + 1" ?x] i x' False by simp
    have m: "0 \<le> v mod 128" "v mod 128 < 128" by simp_all
    moreover obtain w :: byte where w: "w = word_of_int (v mod 128 + 128)" by blast
    ultimately have b: "uint w = v mod 128 + 128"
      by (simp only: w, intro uint_byte) linarith+
    have "put_uvarint v = w # put_uvarint (v div 128)"
      using False by (simp only: w put_uvarint.simps [of v]) simp
    moreover have "\<not> uint w < 128" "uint w mod 128 = v mod 128" using b m by (linarith, simp)
    ultimately show ?thesis using IH i r u by simp
  qed
qed

interpretation uvarintc: codec put_uvarint get_uvarint u64_ok
  by unfold_locales (simp add: get_uvarint_def read_uvarint_loop_put)

text \<open>\<open>binary.PutVarint\<close> and \<open>binary.ReadVarint\<close>: the zig-zag coding of signed integers.\<close>

definition zigzag :: "int \<Rightarrow> int" where
  "zigzag x = (let ux = u64 (2 * u64 x) in if x < 0 then u64 (- 1 - ux) else ux)"

definition unzigzag :: "int \<Rightarrow> int" where
  "unzigzag ux = (let x = i64 (ux div 2) in if ux mod 2 \<noteq> 0 then - 1 - x else x)"

definition put_varint :: "int \<Rightarrow> bytes" where
  "put_varint x = put_uvarint (zigzag x)"

definition get_varint :: "bytes \<Rightarrow> (int \<times> bytes) result" where
  "get_varint r = bindR (get_uvarint r) (\<lambda>(ux, r'). Inr (unzigzag ux, r'))"

lemma u64_neg: "- 18446744073709551616 \<le> y \<Longrightarrow> y < 0 \<Longrightarrow> u64 y = y + 18446744073709551616"
  unfolding u64_def by (subst mod_add_self2 [symmetric], subst mod_pos_pos_trivial) auto

lemma zigzag_eq:
  assumes "i64_ok x"
  shows "zigzag x = (if x < 0 then - 2 * x - 1 else 2 * x)"
proof (cases "x < 0")
  case True
  have "u64 (2 * u64 x) = u64 (2 * x)" by (simp add: u64_def mod_simps)
  also have "\<dots> = 2 * x + 18446744073709551616" using True assms by (intro u64_neg) auto
  finally have "zigzag x = u64 (- 2 * x - 1 - 18446744073709551616)"
    using True by (simp add: zigzag_def)
  also have "\<dots> = - 2 * x - 1" using True assms by (subst u64_neg) auto
  finally show ?thesis using True by simp
next
  case False
  with assms show ?thesis by (simp add: zigzag_def u64_id)
qed

lemma zigzag_ok: "i64_ok x \<Longrightarrow> u64_ok (zigzag x)"
  by (auto simp: zigzag_eq)

lemma unzigzag_zigzag: "i64_ok x \<Longrightarrow> unzigzag (zigzag x) = x"
proof -
  assume x: "i64_ok x"
  have "(- 2 * x - 1) div 2 = - x - 1" "(- 2 * x - 1) mod 2 = 1" by presburger+
  then show ?thesis
    using x by (auto simp: zigzag_eq unzigzag_def i64_id)
qed

interpretation varintc: codec put_varint get_varint i64_ok
  by unfold_locales (simp add: put_varint_def get_varint_def uvarintc.get_put zigzag_ok unzigzag_zigzag)

end
