(* ===== verification/FrameTable.thy ===== *)
theory FrameTable
  imports Codec
begin

text \<open>
  The decompression index of a compressed artifact,
  \<open>packages/shared/pkg/storage/compress_frame_table.go\<close>: frames with absolute start offsets and
  sizes in the uncompressed (U) and the compressed (C) address space. A nil \<open>*FrameTable\<close> is
  \<open>None\<close>. Shown here: lookup finds the frame that covers an offset and reports gaps, a table built
  from frame sizes covers its file without gaps, trimming keeps exactly the frames that meet a
  range and never changes a lookup inside one, and the binary form is read back unchanged.
\<close>

section \<open>Data\<close>

type_synonym CompressionType = byte

definition CompressionNone :: CompressionType where "CompressionNone = 0"
definition CompressionZstd :: CompressionType where "CompressionZstd = 1"
definition CompressionLZ4 :: CompressionType where "CompressionLZ4 = 2"

text \<open>The default uncompressed size of a frame (compress_config.go).\<close>

definition DefaultCompressFrameSize :: int where "DefaultCompressFrameSize = 2097152"

definition maxDeserializedFrames :: int where "maxDeserializedFrames = 1048576"

record FrameSize =
  fsU :: int
  fsC :: int

record SRange =
  srOffset :: int
  srLength :: int

record frameEntry =
  StartU :: int
  StartC :: int
  SizeU :: int
  SizeC :: int

record FrameTable =
  compressionType :: CompressionType
  entries :: "frameEntry list"

definition UncompressedFrameTable :: FrameTable where
  "UncompressedFrameTable = \<lparr>compressionType = CompressionNone, entries = []\<rparr>"

section \<open>Construction and sizes\<close>

text \<open>A \<open>FullFrameTable\<close> wraps a table that covers its whole file; the wrapper has no state of
  its own, so it is the table itself here.\<close>

definition FullFromTable :: "FrameTable option \<Rightarrow> FrameTable" where
  "FullFromTable ft =
     (case ft of None \<Rightarrow> UncompressedFrameTable
      | Some t \<Rightarrow> if entries t = [] then UncompressedFrameTable else t)"

fun newFull_loop :: "int \<Rightarrow> int \<Rightarrow> FrameSize list \<Rightarrow> frameEntry list" where
  "newFull_loop u c [] = []"
| "newFull_loop u c (s # ss) =
     \<lparr>StartU = u, StartC = c, SizeU = fsU s, SizeC = fsC s\<rparr> #
     newFull_loop (i64 (u + fsU s)) (i64 (c + fsC s)) ss"

definition NewFullFrameTable :: "CompressionType \<Rightarrow> FrameSize list \<Rightarrow> FrameTable" where
  "NewFullFrameTable ct sizes = \<lparr>compressionType = ct, entries = newFull_loop 0 0 sizes\<rparr>"

definition ft_CompressionType :: "FrameTable option \<Rightarrow> CompressionType" where
  "ft_CompressionType ft = (case ft of None \<Rightarrow> CompressionNone | Some t \<Rightarrow> compressionType t)"

definition IsCompressed :: "FrameTable option \<Rightarrow> bool" where
  "IsCompressed ft = (case ft of None \<Rightarrow> False | Some t \<Rightarrow> compressionType t \<noteq> CompressionNone)"

definition NumFrames :: "FrameTable option \<Rightarrow> nat" where
  "NumFrames ft = (case ft of None \<Rightarrow> 0 | Some t \<Rightarrow> length (entries t))"

definition endU :: "frameEntry \<Rightarrow> int" where "endU e = i64 (StartU e + SizeU e)"
definition endC :: "frameEntry \<Rightarrow> int" where "endC e = i64 (StartC e + SizeC e)"

definition FrameAt :: "FrameTable \<Rightarrow> int \<Rightarrow> (int \<times> int \<times> int \<times> int) result" where
  "FrameAt ft i =
     (if 0 \<le> i \<and> i < int (length (entries ft))
      then let e = entries ft ! nat i in Inr (StartU e, endU e, StartC e, endC e)
      else Inl Panic)"

definition UncompressedSize :: "FrameTable option \<Rightarrow> int" where
  "UncompressedSize ft =
     (case ft of None \<Rightarrow> 0 | Some t \<Rightarrow> foldl (\<lambda>total e. i64 (total + SizeU e)) 0 (entries t))"

definition CompressedSize :: "FrameTable option \<Rightarrow> int" where
  "CompressedSize ft =
     (case ft of None \<Rightarrow> 0 | Some t \<Rightarrow> foldl (\<lambda>total e. i64 (total + SizeC e)) 0 (entries t))"

section \<open>Lookup\<close>

definition locate :: "FrameTable option \<Rightarrow> int \<Rightarrow> frameEntry result" where
  "locate ft off =
     (case ft of None \<Rightarrow> Inl (Err ''locate called with nil frame table'')
      | Some t \<Rightarrow>
          let i = sort_Search (length (entries t)) (\<lambda>i. StartU (entries t ! i) > off)
          in if i = 0 then Inl (Err ''offset not found in frame table'')
             else let e = entries t ! (i - 1)
                  in if off \<ge> endU e then Inl (Err ''offset is in a gap'') else Inr e)"

definition LocateCompressed :: "FrameTable option \<Rightarrow> int \<Rightarrow> SRange result" where
  "LocateCompressed ft off = bindR (locate ft off) (\<lambda>e.
     if off \<noteq> StartU e then Inl (Err ''offset is not frame-aligned'')
     else Inr \<lparr>srOffset = StartC e, srLength = SizeC e\<rparr>)"

definition LocateUncompressed :: "FrameTable option \<Rightarrow> int \<Rightarrow> SRange result" where
  "LocateUncompressed ft off = bindR (locate ft off) (\<lambda>e.
     Inr \<lparr>srOffset = StartU e, srLength = SizeU e\<rparr>)"

section \<open>Binary form\<close>

definition put_frameEntry :: "frameEntry \<Rightarrow> bytes" where
  "put_frameEntry e = put_u64 (StartU e) @ put_u64 (StartC e) @ put_u32 (SizeU e) @ put_u32 (SizeC e)"

definition dec_frameEntry :: "bytes \<Rightarrow> frameEntry" where
  "dec_frameEntry b =
     \<lparr>StartU = dec_i64 (take 8 b), StartC = dec_i64 (take 8 (drop 8 b)),
      SizeU = dec_i32 (take 4 (drop 16 b)), SizeC = dec_i32 (take 4 (drop 20 b))\<rparr>"

definition Serialize :: "FrameTable option \<Rightarrow> bytes" where
  "Serialize ft =
     (case ft of
        Some t \<Rightarrow>
          if compressionType t \<noteq> CompressionNone
          then put_u32 (uint (compressionType t)) @ put_u32 (int (length (entries t))) @
               (if length (entries t) > 0 then put_many put_frameEntry (entries t) else [])
          else put_u32 0 @ put_u32 0
      | None \<Rightarrow> put_u32 0 @ put_u32 0)"

text \<open>The checks on the entries read, in order; \<open>prev\<close> is the entry before.\<close>

fun check_entries :: "frameEntry option \<Rightarrow> frameEntry list \<Rightarrow> unit result" where
  "check_entries prev [] = Inr ()"
| "check_entries prev (e # es) =
     (if SizeU e \<le> 0 \<or> SizeC e \<le> 0 then Inl (Err ''frame has zero or negative size'')
      else if (case prev of None \<Rightarrow> False | Some p \<Rightarrow> StartU e < endU p)
        then Inl (Err ''U-entries not sorted'')
      else if (case prev of None \<Rightarrow> False | Some p \<Rightarrow> StartC e < endC p)
        then Inl (Err ''C-entries not sorted'')
      else check_entries (Some e) es)"

definition DeserializeFrameTable :: "bytes \<Rightarrow> (FrameTable option \<times> bytes) result" where
  "DeserializeFrameTable r =
     bindR (get_u32 r) (\<lambda>(ct, r1).
     bindR (get_u32 r1) (\<lambda>(n, r2).
       if ct = 0 \<and> n > 0 then Inl (Err ''compression type is 0 but frame count is not'')
       else if ct = 0 \<or> n = 0 then Inr (None, r2)
       else if n > maxDeserializedFrames then Inl (Err ''frame count exceeds maximum'')
       else bindR (binary_read_slice 24 dec_frameEntry (nat n) r2) (\<lambda>(es, r3).
            bindR (check_entries None es) (\<lambda>_.
              Inr (Some \<lparr>compressionType = word_of_int ct, entries = es\<rparr>, r3)))))"

section \<open>Trimming\<close>

function mark_loop :: "frameEntry list \<Rightarrow> int \<Rightarrow> nat \<Rightarrow> bool list \<times> nat \<Rightarrow> bool list \<times> nat" where
  "mark_loop es endu i (keep, kept) =
     (if i < length es \<and> StartU (es ! i) < endu
      then mark_loop es endu (i + 1) (if \<not> keep ! i then (keep[i := True], kept + 1) else (keep, kept))
      else (keep, kept))"
  by pat_completeness auto
termination
  by (relation "measure (\<lambda>(es, endu, i, s). length es - i)") auto

declare mark_loop.simps [simp del]

definition mark_range :: "frameEntry list \<Rightarrow> bool list \<times> nat \<Rightarrow> SRange \<Rightarrow> bool list \<times> nat" where
  "mark_range es s r =
     (let startu = srOffset r; endu = i64 (srOffset r + srLength r);
          lo = sort_Search (length es) (\<lambda>i. endU (es ! i) > startu)
      in mark_loop es endu lo s)"

definition TrimToRanges :: "FrameTable option \<Rightarrow> SRange list \<Rightarrow> FrameTable option" where
  "TrimToRanges ft ranges =
     (case ft of None \<Rightarrow> None
      | Some t \<Rightarrow>
          if entries t = [] \<or> ranges = [] then ft
          else let (keep, kept) = foldl (mark_range (entries t)) (replicate (length (entries t)) False, 0) ranges
               in if kept = length (entries t) then ft
                  else Some \<lparr>compressionType = compressionType t,
                             entries = map fst (filter snd (zip (entries t) keep))\<rparr>)"

section \<open>Names\<close>

definition Suffix :: "CompressionType \<Rightarrow> string" where
  "Suffix ct = (if ct = CompressionZstd then ''.zstd'' else if ct = CompressionLZ4 then ''.lz4'' else '''')"

definition ct_String :: "CompressionType \<Rightarrow> string" where
  "ct_String ct = (if ct = CompressionZstd then ''zstd'' else if ct = CompressionLZ4 then ''lz4'' else ''none'')"

definition parseCompressionType :: "string \<Rightarrow> CompressionType" where
  "parseCompressionType s =
     (if s = ''lz4'' then CompressionLZ4 else if s = ''zstd'' then CompressionZstd else CompressionNone)"

section \<open>Well-formed tables\<close>

definition frame_ok :: "frameEntry \<Rightarrow> bool" where
  "frame_ok e \<longleftrightarrow> 0 \<le> StartU e \<and> 0 < SizeU e \<and> SizeU e < 2147483648 \<and> StartU e + SizeU e \<le> max_i64 \<and>
     0 \<le> StartC e \<and> 0 < SizeC e \<and> SizeC e < 2147483648 \<and> StartC e + SizeC e \<le> max_i64"

abbreviation precedes :: "frameEntry \<Rightarrow> frameEntry \<Rightarrow> bool" where
  "precedes a b \<equiv> StartU a + SizeU a \<le> StartU b \<and> StartC a + SizeC a \<le> StartC b"

definition entries_ok :: "frameEntry list \<Rightarrow> bool" where
  "entries_ok es \<longleftrightarrow> (\<forall>e \<in> set es. frame_ok e) \<and> sorted_wrt precedes es"

abbreviation covers_offset :: "frameEntry \<Rightarrow> int \<Rightarrow> bool" where
  "covers_offset e off \<equiv> StartU e \<le> off \<and> off < StartU e + SizeU e"

lemma endU_eq: "frame_ok e \<Longrightarrow> endU e = StartU e + SizeU e"
  unfolding endU_def frame_ok_def by (intro i64_id) linarith+

lemma endC_eq: "frame_ok e \<Longrightarrow> endC e = StartC e + SizeC e"
  unfolding endC_def frame_ok_def by (intro i64_id) linarith+

lemma entries_ok_Nil [simp]: "entries_ok []"
  by (simp add: entries_ok_def)

lemma entries_ok_Cons:
  "entries_ok (e # es) \<longleftrightarrow> frame_ok e \<and> (\<forall>e' \<in> set es. precedes e e') \<and> entries_ok es"
  by (auto simp: entries_ok_def)

lemma entries_ok_nth: "entries_ok es \<Longrightarrow> i < length es \<Longrightarrow> frame_ok (es ! i)"
  by (auto simp: entries_ok_def)

lemma entries_ok_before:
  "entries_ok es \<Longrightarrow> i < j \<Longrightarrow> j < length es \<Longrightarrow> StartU (es ! i) + SizeU (es ! i) \<le> StartU (es ! j)"
  by (auto simp: entries_ok_def sorted_wrt_iff_nth_less)

lemma entries_ok_mono:
  assumes "entries_ok es" "i \<le> j" "j < length es"
  shows "StartU (es ! i) \<le> StartU (es ! j)"
    "StartU (es ! i) + SizeU (es ! i) \<le> StartU (es ! j) + SizeU (es ! j)"
  using assms entries_ok_before [OF assms(1), of i j] entries_ok_nth [OF assms(1), of i]
    entries_ok_nth [OF assms(1), of j]
  by (cases "i = j"; auto simp: frame_ok_def)+

lemma entries_ok_filter: "entries_ok es \<Longrightarrow> entries_ok (filter P es)"
  by (auto simp: entries_ok_def intro: sorted_wrt_filter)

lemma cover_unique:
  assumes "entries_ok es" "e \<in> set es" "e' \<in> set es" "covers_offset e off" "covers_offset e' off"
  shows "e = e'"
proof -
  obtain i j where ij: "i < length es" "es ! i = e" "j < length es" "es ! j = e'"
    using assms(2,3) by (auto simp: in_set_conv_nth)
  then have "\<not> i < j" "\<not> j < i"
    using entries_ok_before [OF assms(1), of i j] entries_ok_before [OF assms(1), of j i] assms(4,5)
    by auto
  with ij show ?thesis by simp
qed

lemma locate_iff:
  assumes "entries_ok (entries t)"
  shows "locate (Some t) off = Inr e \<longleftrightarrow> e \<in> set (entries t) \<and> covers_offset e off"
proof -
  let ?es = "entries t"
  let ?f = "\<lambda>i. StartU (?es ! i) > off"
  let ?i = "sort_Search (length ?es) ?f"
  have "upclosed (length ?es) ?f"
    using entries_ok_mono(1) [OF assms] by (fastforce simp: upclosed_def)
  note spec = sort_Search_spec [OF this]
  have found: "?es ! (?i - 1) \<in> set ?es" "StartU (?es ! (?i - 1)) \<le> off"
      "endU (?es ! (?i - 1)) = StartU (?es ! (?i - 1)) + SizeU (?es ! (?i - 1))" if "?i \<noteq> 0"
    using that spec(1) spec(2) [of "?i - 1"] entries_ok_nth [OF assms, of "?i - 1"] endU_eq by auto
  have other: "?i \<noteq> 0 \<and> e = ?es ! (?i - 1)" if e: "e \<in> set ?es" "covers_offset e off"
  proof -
    obtain k where k: "k < length ?es" "?es ! k = e" using e(1) by (auto simp: in_set_conv_nth)
    have "k < ?i" using spec(3) [of k] k e(2) by (meson not_le)
    moreover have "\<not> k < ?i - 1"
      using entries_ok_before [OF assms, of k "?i - 1"] spec(1) spec(2) [of "?i - 1"] k e(2) by force
    ultimately have "k = ?i - 1" "?i \<noteq> 0" by auto
    with k show ?thesis by simp
  qed
  show ?thesis
    using found other by (auto simp: locate_def Let_def split: if_splits)
qed

lemma locate_fails_iff:
  "entries_ok (entries t) \<Longrightarrow>
   (\<exists>err. locate (Some t) off = Inl err) \<longleftrightarrow> \<not> (\<exists>e \<in> set (entries t). covers_offset e off)"
  using locate_iff [of t off] by (cases "locate (Some t) off") auto

section \<open>Full tables\<close>

fun sizes_ok :: "int \<Rightarrow> int \<Rightarrow> FrameSize list \<Rightarrow> bool" where
  "sizes_ok u c [] \<longleftrightarrow> 0 \<le> u \<and> u \<le> max_i64 \<and> 0 \<le> c \<and> c \<le> max_i64"
| "sizes_ok u c (s # ss) \<longleftrightarrow> 0 \<le> u \<and> 0 \<le> c \<and>
     0 < fsU s \<and> fsU s < 2147483648 \<and> 0 < fsC s \<and> fsC s < 2147483648 \<and>
     sizes_ok (u + fsU s) (c + fsC s) ss"

lemma sizes_ok_le: "sizes_ok u c ss \<Longrightarrow> 0 \<le> u \<and> u \<le> max_i64 \<and> 0 \<le> c \<and> c \<le> max_i64"
proof (induction u c ss rule: sizes_ok.induct)
  case (2 u c s ss)
  then show ?case by force
qed simp

lemma sizes_ok_sum: "sizes_ok u c ss \<Longrightarrow> 0 \<le> sum_list (map fsU ss)"
  by (induction u c ss rule: sizes_ok.induct) auto

lemma newFull_loop_ok:
  assumes "sizes_ok u c ss"
  shows "entries_ok (newFull_loop u c ss) \<and>
    (\<forall>e \<in> set (newFull_loop u c ss). u \<le> StartU e \<and> c \<le> StartC e) \<and>
    (\<forall>off. (\<exists>e \<in> set (newFull_loop u c ss). covers_offset e off) \<longleftrightarrow>
       u \<le> off \<and> off < u + sum_list (map fsU ss))"
  using assms
proof (induction u c ss rule: sizes_ok.induct)
  case (1 u c)
  then show ?case by simp
next
  case (2 u c s ss)
  let ?e = "\<lparr>StartU = u, StartC = c, SizeU = fsU s, SizeC = fsC s\<rparr>"
  let ?rest = "newFull_loop (u + fsU s) (c + fsC s) ss"
  have s: "sizes_ok (u + fsU s) (c + fsC s) ss" using 2(2) by simp
  note b = sizes_ok_le [OF s]
  have wrap: "i64 (u + fsU s) = u + fsU s" "i64 (c + fsC s) = c + fsC s"
    using b by (intro i64_id; linarith)+
  note IH = 2(1) [OF s]
  note sum = sizes_ok_sum [OF s]
  have ok: "frame_ok ?e" using 2(2) b by (simp add: frame_ok_def)
  have "(\<exists>e \<in> set (?e # ?rest). covers_offset e off) \<longleftrightarrow>
      u \<le> off \<and> off < u + sum_list (map fsU (s # ss))" for off
    using IH 2(2) sum by auto
  then show ?case using IH ok 2(2) by (auto simp: wrap entries_ok_Cons)
qed

section \<open>Correctness of trimming\<close>

abbreviation count_true :: "bool list \<Rightarrow> nat" where
  "count_true keep \<equiv> length (filter (\<lambda>k. k) keep)"

lemma count_true_set: "i < length keep \<Longrightarrow> \<not> keep ! i \<Longrightarrow> count_true (keep[i := True]) = count_true keep + 1"
proof (induction keep arbitrary: i)
  case (Cons k keep)
  then show ?case by (cases i) auto
qed simp

lemma mark_loop_spec:
  assumes "entries_ok es" "length keep = length es" "kept = count_true keep"
    and "mark_loop es endu i (keep, kept) = (keep', kept')"
  shows "length keep' = length es \<and> kept' = count_true keep' \<and>
    (\<forall>k < length es. keep' ! k \<longleftrightarrow> keep ! k \<or> (i \<le> k \<and> StartU (es ! k) < endu))"
  using assms
proof (induction "length es - i" arbitrary: i keep kept rule: less_induct)
  case less
  show ?case
  proof (cases "i < length es \<and> StartU (es ! i) < endu")
    case True
    let ?s = "if \<not> keep ! i then (keep[i := True], kept + 1) else (keep, kept)"
    have rec: "mark_loop es endu (i + 1) ?s = (keep', kept')"
      using less.prems(4) True by (subst (asm) mark_loop.simps) simp
    obtain keep1 kept1 where s: "?s = (keep1, kept1)" by (cases ?s)
    then have k1: "keep1 = keep[i := True]" "kept1 = count_true keep1"
      using less.prems(2,3) True count_true_set [of i keep] by (auto split: if_splits)
        (metis (full_types) list_update_id)
    have "length keep' = length es \<and> kept' = count_true keep' \<and>
      (\<forall>k < length es. keep' ! k \<longleftrightarrow> keep1 ! k \<or> (i + 1 \<le> k \<and> StartU (es ! k) < endu))"
      using less.prems True k1 rec s by (intro less.hyps) auto
    then show ?thesis using True k1 less.prems(2) by (auto simp: nth_list_update le_less)
  next
    case False
    then have "keep' = keep" "kept' = kept"
      using less.prems(4) by (subst (asm) mark_loop.simps, simp)+
    moreover have "\<not> StartU (es ! k) < endu" if "i \<le> k" "k < length es" for k
      using False that entries_ok_mono(1) [OF less.prems(1), of i k] by auto
    ultimately show ?thesis using less.prems by auto
  qed
qed

text \<open>A frame meets a range when they share a byte, or the range is empty and lies inside.\<close>

definition meets :: "frameEntry \<Rightarrow> SRange \<Rightarrow> bool" where
  "meets e r \<longleftrightarrow> srOffset r < StartU e + SizeU e \<and> StartU e < srOffset r + srLength r"

definition range_ok :: "SRange \<Rightarrow> bool" where
  "range_ok r \<longleftrightarrow> 0 \<le> srOffset r \<and> 0 \<le> srLength r \<and> srOffset r + srLength r \<le> max_i64"

lemma mark_range_spec:
  assumes "entries_ok es" "length keep = length es" "kept = count_true keep" "range_ok r"
    and "mark_range es (keep, kept) r = (keep', kept')"
  shows "length keep' = length es \<and> kept' = count_true keep' \<and>
    (\<forall>k < length es. keep' ! k \<longleftrightarrow> keep ! k \<or> meets (es ! k) r)"
proof -
  let ?f = "\<lambda>i. endU (es ! i) > srOffset r"
  have eU: "endU (es ! k) = StartU (es ! k) + SizeU (es ! k)" if "k < length es" for k
    using endU_eq entries_ok_nth [OF assms(1) that] by simp
  have "?f j" if "i \<le> j" "j < length es" "?f i" for i j
    using entries_ok_mono(2) [OF assms(1) that(1,2)] that eU by simp
  then have "upclosed (length es) ?f" by (auto simp: upclosed_def)
  note spec = sort_Search_spec [OF this]
  let ?lo = "sort_Search (length es) ?f"
  have e: "i64 (srOffset r + srLength r) = srOffset r + srLength r"
    using assms(4) unfolding range_ok_def by (intro i64_id) linarith+
  have lo: "?lo \<le> k \<longleftrightarrow> srOffset r < StartU (es ! k) + SizeU (es ! k)" if "k < length es" for k
    unfolding eU [OF that, symmetric] using spec(2) [of k] spec(3) [OF _ that] not_le by blast
  show ?thesis
    using mark_loop_spec [OF assms(1-3), of "srOffset r + srLength r" ?lo keep' kept'] assms(5) lo
    by (auto simp: mark_range_def Let_def e meets_def)
qed

lemma mark_ranges_spec:
  assumes "entries_ok es" "length keep = length es" "kept = count_true keep" "\<forall>r \<in> set rs. range_ok r"
    and "foldl (mark_range es) (keep, kept) rs = (keep', kept')"
  shows "length keep' = length es \<and> kept' = count_true keep' \<and>
    (\<forall>k < length es. keep' ! k \<longleftrightarrow> keep ! k \<or> (\<exists>r \<in> set rs. meets (es ! k) r))"
  using assms
proof (induction rs arbitrary: keep kept)
  case (Cons r rs)
  obtain keep1 kept1 where s: "mark_range es (keep, kept) r = (keep1, kept1)" by fastforce
  have ok: "range_ok r" using Cons.prems(4) by simp
  note m = mark_range_spec [OF Cons.prems(1-3) ok s]
  have "length keep' = length es \<and> kept' = count_true keep' \<and>
    (\<forall>k < length es. keep' ! k \<longleftrightarrow> keep1 ! k \<or> (\<exists>r \<in> set rs. meets (es ! k) r))"
    using m Cons.prems s by (intro Cons.IH) auto
  with m show ?case by auto
qed simp

lemma filter_zip_keep:
  "length keep = length es \<Longrightarrow> (\<forall>k < length es. keep ! k = P (es ! k)) \<Longrightarrow>
   map fst (filter snd (zip es keep)) = filter P es"
proof (induction es arbitrary: keep)
  case (Cons e es)
  then obtain k ks where k: "keep = k # ks" by (cases keep) auto
  have "k = P e" using Cons.prems(2) k by auto
  moreover have "\<forall>i < length es. ks ! i = P (es ! i)" using Cons.prems(2) k by auto
  ultimately show ?case using Cons k by simp
qed simp

lemma count_true_all: "count_true keep = length keep \<Longrightarrow> k < length keep \<Longrightarrow> keep ! k"
  using length_filter_less [of _ keep "\<lambda>k. k"] nth_mem [of k keep] by fastforce

lemma TrimToRanges_eq:
  assumes "entries_ok (entries t)" "\<forall>r \<in> set rs. range_ok r" "rs \<noteq> []"
  shows "TrimToRanges (Some t) rs =
    Some (t\<lparr>entries := filter (\<lambda>e. \<exists>r \<in> set rs. meets e r) (entries t)\<rparr>)"
proof (cases "entries t = []")
  case True
  then show ?thesis by (cases t) (simp add: TrimToRanges_def)
next
  case False
  let ?P = "\<lambda>e. \<exists>r \<in> set rs. meets e r"
  let ?init = "(replicate (length (entries t)) False, 0)"
  obtain keep kept where f: "foldl (mark_range (entries t)) ?init rs = (keep, kept)" by fastforce
  have "count_true (replicate n False) = 0" for n by simp
  then have m: "length keep = length (entries t)" "kept = count_true keep"
      "\<forall>k < length (entries t). keep ! k \<longleftrightarrow> ?P (entries t ! k)"
    using mark_ranges_spec [OF assms(1) _ _ assms(2) f] by auto
  note fz = filter_zip_keep [of keep "entries t" ?P, OF m(1,3)]
  show ?thesis
  proof (cases "kept = length (entries t)")
    case True
    then have "\<forall>k < length (entries t). ?P (entries t ! k)"
      using m count_true_all [of keep] by auto
    then have "\<forall>e \<in> set (entries t). ?P e" by (auto simp: in_set_conv_nth)
    then have "filter ?P (entries t) = entries t" by simp
    with True False assms(3) f show ?thesis by (simp add: TrimToRanges_def)
  next
    case neq: False
    with False assms(3) f fz show ?thesis by (cases t) (simp add: TrimToRanges_def)
  qed
qed

lemma locate_TrimToRanges:
  assumes "entries_ok (entries t)" "\<forall>r \<in> set rs. range_ok r"
    and "r \<in> set rs" "srOffset r \<le> off" "off < srOffset r + srLength r"
  shows "locate (TrimToRanges (Some t) rs) off = Inr e \<longleftrightarrow> locate (Some t) off = Inr e"
proof -
  have "rs \<noteq> []" using assms(3) by auto
  note trim = TrimToRanges_eq [OF assms(1,2) this]
  let ?P = "\<lambda>e. \<exists>r \<in> set rs. meets e r"
  have "entries_ok (filter ?P (entries t))" using assms(1) by (rule entries_ok_filter)
  moreover have "?P e" if "covers_offset e off" for e
    using that assms(3-5) by (intro bexI [of _ r]) (auto simp: meets_def)
  ultimately show ?thesis
    using assms(1) by (auto simp: trim locate_iff)
qed

section \<open>Correctness of the binary form\<close>

abbreviation fe_typed :: "frameEntry \<Rightarrow> bool" where
  "fe_typed e \<equiv> i64_ok (StartU e) \<and> i64_ok (StartC e) \<and> i32_ok (SizeU e) \<and> i32_ok (SizeC e)"

interpretation fec: sized_codec 24 put_frameEntry dec_frameEntry fe_typed
  by unfold_locales
    (simp_all add: put_frameEntry_def dec_frameEntry_def u64c.put_size u32c.put_size
      i64c.dec_put i32c.dec_put)

lemma frame_ok_typed: "frame_ok e \<Longrightarrow> fe_typed e"
  unfolding frame_ok_def by linarith

lemma check_entries_ok:
  "entries_ok es \<Longrightarrow> (case prev of None \<Rightarrow> True | Some p \<Rightarrow> entries_ok (p # es)) \<Longrightarrow>
   check_entries prev es = Inr ()"
proof (induction prev es rule: check_entries.induct)
  case (2 prev e es)
  have e: "frame_ok e" using 2(2) by (simp add: entries_ok_Cons)
  have "\<not> StartU e < endU p \<and> \<not> StartC e < endC p" if "prev = Some p" for p
    using that 2(3) endU_eq [of p] endC_eq [of p] by (auto simp: entries_ok_Cons)
  moreover have "check_entries (Some e) es = Inr ()"
    using 2 by (cases "SizeU e \<le> 0 \<or> SizeC e \<le> 0"; cases prev)
      (auto simp: entries_ok_Cons frame_ok_def endU_eq endC_eq)
  ultimately show ?case using e by (auto simp: frame_ok_def split: option.split)
qed simp

text \<open>The table that a serialised table stands for: tables without compression or without
  frames are written as nil.\<close>

definition canonical :: "FrameTable option \<Rightarrow> FrameTable option" where
  "canonical ft = (case ft of None \<Rightarrow> None
     | Some t \<Rightarrow> if compressionType t = CompressionNone \<or> entries t = [] then None else Some t)"

lemma Deserialize_Serialize:
  assumes "case ft of None \<Rightarrow> True
    | Some t \<Rightarrow> entries_ok (entries t) \<and> int (length (entries t)) \<le> maxDeserializedFrames"
  shows "DeserializeFrameTable (Serialize ft @ rest) = Inr (canonical ft, rest)"
proof (cases "canonical ft")
  case None
  then have "Serialize ft = put_u32 0 @ put_u32 0 \<or>
      (\<exists>t. ft = Some t \<and> Serialize ft = put_u32 (uint (compressionType t)) @ put_u32 0)"
    by (auto simp: canonical_def Serialize_def split: option.splits if_splits)
  moreover have "u32_ok (uint b)" for b :: byte
    using uint_lt2p [of b] by simp
  ultimately show ?thesis
    using None by (auto simp: DeserializeFrameTable_def u32c.read_put)
next
  case (Some t)
  then have t: "ft = Some t" "compressionType t \<noteq> CompressionNone" "entries t \<noteq> []"
    by (auto simp: canonical_def split: option.splits if_splits)
  then have es: "entries_ok (entries t)" "int (length (entries t)) \<le> 1048576"
    using assms by (simp_all add: maxDeserializedFrames_def)
  have ct: "u32_ok (uint (compressionType t))" "uint (compressionType t) \<noteq> 0"
    using uint_lt2p [of "compressionType t"] t(2) uint_0_iff [of "compressionType t"]
    by (simp_all add: CompressionNone_def)
  have n: "u32_ok (int (length (entries t)))" using es(2) by simp
  have typed: "\<forall>e \<in> set (entries t). fe_typed e"
    using es(1) frame_ok_typed by (auto simp: entries_ok_def)
  have "check_entries None (entries t) = Inr ()" using es(1) by (intro check_entries_ok) auto
  then show ?thesis
    using t Some ct n es(2)
    by (simp add: DeserializeFrameTable_def Serialize_def u32c.read_put fec.read_slice_put [OF typed]
        maxDeserializedFrames_def)
qed

lemma check_entries_Inr:
  "check_entries prev es = Inr () \<Longrightarrow>
   (\<forall>e \<in> set es. 0 < SizeU e \<and> 0 < SizeC e) \<and>
   successively (\<lambda>a b. endU a \<le> StartU b \<and> endC a \<le> StartC b)
     (case prev of None \<Rightarrow> es | Some p \<Rightarrow> p # es)"
  by (induction prev es rule: check_entries.induct)
    (auto split: if_splits option.splits)

text \<open>The compression type is read as 32 bits and then cut to a byte, without a check that it
  names a codec.\<close>

lemma DeserializeFrameTable_ct_truncated:
  "DeserializeFrameTable
     (put_u32 256 @ put_u32 1 @ put_frameEntry \<lparr>StartU = 0, StartC = 0, SizeU = 1, SizeC = 1\<rparr>) =
   Inr (Some \<lparr>compressionType = CompressionNone,
              entries = [\<lparr>StartU = 0, StartC = 0, SizeU = 1, SizeC = 1\<rparr>]\<rparr>, [])"
  using fec.read_slice_put [of "[\<lparr>StartU = 0, StartC = 0, SizeU = 1, SizeC = 1\<rparr>]" "[]"]
  by (simp add: DeserializeFrameTable_def u32c.read_put maxDeserializedFrames_def CompressionNone_def)

section \<open>Properties\<close>

text \<open>Looking up an uncompressed offset in a well-formed table finds exactly the frame that
  covers it; it fails exactly when no frame covers the offset (before the first frame, in a gap
  of a sparse table, or past the end).\<close>

theorem locate_finds_frame:
  assumes "entries_ok (entries t)"
  shows "(locate (Some t) off = Inr e \<longleftrightarrow> e \<in> set (entries t) \<and> covers_offset e off) \<and>
    ((\<exists>err. locate (Some t) off = Inl err) \<longleftrightarrow> \<not> (\<exists>e \<in> set (entries t). covers_offset e off))"
  using locate_iff [OF assms] locate_fails_iff [OF assms] by blast

theorem locate_finds_frame_witness:
  "locate (Some \<lparr>compressionType = CompressionZstd, entries =
      [\<lparr>StartU = 0, StartC = 0, SizeU = 4096, SizeC = 100\<rparr>,
       \<lparr>StartU = 8192, StartC = 100, SizeU = 4096, SizeC = 50\<rparr>]\<rparr>) 9000 =
   Inr \<lparr>StartU = 8192, StartC = 100, SizeU = 4096, SizeC = 50\<rparr>"
  using locate_finds_frame [of "\<lparr>compressionType = CompressionZstd, entries =
      [\<lparr>StartU = 0, StartC = 0, SizeU = 4096, SizeC = 100\<rparr>,
       \<lparr>StartU = 8192, StartC = 100, SizeU = 4096, SizeC = 50\<rparr>]\<rparr>" 9000
       "\<lparr>StartU = 8192, StartC = 100, SizeU = 4096, SizeC = 50\<rparr>"]
  by (simp add: entries_ok_def frame_ok_def)

text \<open>The table built from consecutive frame sizes is well-formed and covers its file
  without gaps: every offset below the total uncompressed size has a frame, no other has.\<close>

theorem NewFullFrameTable_covers:
  assumes "sizes_ok 0 0 sizes"
  shows "entries_ok (entries (NewFullFrameTable ct sizes)) \<and>
    ((\<exists>e. locate (Some (NewFullFrameTable ct sizes)) off = Inr e) \<longleftrightarrow>
       0 \<le> off \<and> off < sum_list (map fsU sizes))"
proof -
  have ok: "entries_ok (entries (NewFullFrameTable ct sizes))"
    using newFull_loop_ok [OF assms] by (simp add: NewFullFrameTable_def)
  have "(\<exists>e. locate (Some (NewFullFrameTable ct sizes)) off = Inr e) \<longleftrightarrow>
      (\<exists>e \<in> set (newFull_loop 0 0 sizes). covers_offset e off)"
    using locate_iff [OF ok, of off] by (auto simp: NewFullFrameTable_def)
  with ok newFull_loop_ok [OF assms] show ?thesis by simp
qed

theorem NewFullFrameTable_covers_witness:
  "\<exists>e. locate (Some (NewFullFrameTable CompressionLZ4
     [\<lparr>fsU = 2097152, fsC = 600000\<rparr>, \<lparr>fsU = 2097152, fsC = 700000\<rparr>])) 3000000 = Inr e"
  using NewFullFrameTable_covers [of
    "[\<lparr>fsU = 2097152, fsC = 600000\<rparr>, \<lparr>fsU = 2097152, fsC = 700000\<rparr>]" CompressionLZ4 3000000]
  by simp

text \<open>(C32) Trimming a frame table to the ranges a layer references keeps exactly the frames that
  meet a range, and leaves every lookup at an offset inside a range unchanged, so a trimmed
  header resolves the same reads.\<close>

theorem TrimToRanges_keeps_reads:
  assumes "entries_ok (entries t)" "\<forall>r \<in> set ranges. range_ok r" "ranges \<noteq> []"
  shows "TrimToRanges (Some t) ranges =
      Some (t\<lparr>entries := filter (\<lambda>e. \<exists>r \<in> set ranges. meets e r) (entries t)\<rparr>) \<and>
    (\<forall>r \<in> set ranges. \<forall>off e. srOffset r \<le> off \<longrightarrow> off < srOffset r + srLength r \<longrightarrow>
       (locate (TrimToRanges (Some t) ranges) off = Inr e \<longleftrightarrow> locate (Some t) off = Inr e))"
  using TrimToRanges_eq [OF assms] locate_TrimToRanges [OF assms(1,2)] by blast

theorem TrimToRanges_keeps_reads_witness:
  "TrimToRanges (Some \<lparr>compressionType = CompressionZstd, entries =
      [\<lparr>StartU = 0, StartC = 0, SizeU = 4096, SizeC = 100\<rparr>,
       \<lparr>StartU = 4096, StartC = 100, SizeU = 4096, SizeC = 50\<rparr>]\<rparr>)
     [\<lparr>srOffset = 5000, srLength = 10\<rparr>] =
   Some \<lparr>compressionType = CompressionZstd, entries =
      [\<lparr>StartU = 4096, StartC = 100, SizeU = 4096, SizeC = 50\<rparr>]\<rparr>"
  using TrimToRanges_keeps_reads [of "\<lparr>compressionType = CompressionZstd, entries =
      [\<lparr>StartU = 0, StartC = 0, SizeU = 4096, SizeC = 100\<rparr>,
       \<lparr>StartU = 4096, StartC = 100, SizeU = 4096, SizeC = 50\<rparr>]\<rparr>" "[\<lparr>srOffset = 5000, srLength = 10\<rparr>]"]
  by (simp add: entries_ok_def frame_ok_def range_ok_def meets_def)

text \<open>A frame table that was serialised is read back unchanged, and the reader stops right
  after it; nil, uncompressed and empty tables are read back as nil.\<close>

theorem FrameTable_roundtrip:
  assumes "case ft of None \<Rightarrow> True
    | Some t \<Rightarrow> entries_ok (entries t) \<and> int (length (entries t)) \<le> maxDeserializedFrames"
  shows "DeserializeFrameTable (Serialize ft @ rest) = Inr (canonical ft, rest)"
  using assms by (rule Deserialize_Serialize)

theorem FrameTable_roundtrip_witness:
  "DeserializeFrameTable (Serialize (Some \<lparr>compressionType = CompressionZstd, entries =
      [\<lparr>StartU = 0, StartC = 0, SizeU = 4096, SizeC = 100\<rparr>]\<rparr>) @ [7]) =
   Inr (Some \<lparr>compressionType = CompressionZstd, entries =
      [\<lparr>StartU = 0, StartC = 0, SizeU = 4096, SizeC = 100\<rparr>]\<rparr>, [7])"
  by (subst FrameTable_roundtrip)
    (simp_all add: entries_ok_def frame_ok_def maxDeserializedFrames_def canonical_def
      CompressionZstd_def CompressionNone_def)

end
