(* ===== verification/Header.thy ===== *)
theory Header
  imports Compact FrameTable "HOL-Library.AList"
begin

text \<open>
  Snapshot headers: \<open>packages/shared/pkg/storage/header/metadata.go\<close> and \<open>header.go\<close>. A header holds
  the metadata of a layer, its compact mapping and, for the formats that have it, a table of
  builds. Go's \<open>map[uuid.UUID]BuildData\<close> is an association list (read with \<open>map_of\<close>, written with
  \<open>AList.update\<close>) under \<open>option\<close>, since the code tells a nil map from an empty one. Metadata is never
  nil in a constructed header, so it is not an option here; logging and tracing are left out.

  The main results: a diff header is built successfully from a well-formed parent and its
  mapping is the parent's overridden by the packed dirty blocks and by holes for the empty
  blocks; the well-formedness of headers is kept; and \<open>GetShiftedMapping\<close> resolves every aligned
  offset to the source that the mapping gives it.
\<close>

section \<open>Metadata (metadata.go)\<close>

definition metadataVersion :: int where "metadataVersion = 3"
definition MetadataVersionV4 :: int where "MetadataVersionV4 = 4"
definition MetadataVersionV5 :: int where "MetadataVersionV5 = 5"
definition NormalizeFixVersion :: int where "NormalizeFixVersion = 3"

record Metadata =
  Version :: int
  md_BlockSize :: int
  md_Size :: int
  Generation :: int
  md_BuildId :: uuid
  BaseBuildId :: uuid

definition NewTemplateMetadata :: "uuid \<Rightarrow> int \<Rightarrow> int \<Rightarrow> Metadata" where
  "NewTemplateMetadata buildId blockSize sz =
     \<lparr>Version = metadataVersion, md_BlockSize = blockSize, md_Size = sz, Generation = 0,
      md_BuildId = buildId, BaseBuildId = buildId\<rparr>"

definition NextGeneration :: "Metadata \<Rightarrow> uuid \<Rightarrow> Metadata" where
  "NextGeneration m buildID =
     \<lparr>Version = Version m, md_BlockSize = md_BlockSize m, md_Size = md_Size m,
      Generation = u64 (Generation m + 1), md_BuildId = buildID, BaseBuildId = BaseBuildId m\<rparr>"

definition metadataSize :: nat where "metadataSize = 64"

definition put_Metadata :: "Metadata \<Rightarrow> bytes" where
  "put_Metadata m = put_u64 (Version m) @ put_u64 (md_BlockSize m) @ put_u64 (md_Size m) @
     put_u64 (Generation m) @ put_uuid (md_BuildId m) @ put_uuid (BaseBuildId m)"

definition dec_Metadata :: "bytes \<Rightarrow> Metadata" where
  "dec_Metadata b =
     \<lparr>Version = le_int (take 8 b), md_BlockSize = le_int (take 8 (drop 8 b)),
      md_Size = le_int (take 8 (drop 16 b)), Generation = le_int (take 8 (drop 24 b)),
      md_BuildId = dec_uuid (take 16 (drop 32 b)), BaseBuildId = dec_uuid (take 16 (drop 48 b))\<rparr>"

definition deserializeMetadata :: "bytes \<Rightarrow> Metadata result" where
  "deserializeMetadata data = bindR (binary_read metadataSize dec_Metadata data) (\<lambda>(m, _). Inr m)"

section \<open>Headers (header.go)\<close>

record BuildData =
  bd_Size :: int
  bd_Checksum :: checksum
  bd_FrameData :: "FrameTable option"

type_synonym builds = "(uuid \<times> BuildData) list"

record Header =
  h_Metadata :: Metadata
  h_Builds :: "builds option"
  h_Mapping :: Mapping
  h_Incomplete :: bool

definition CloneForUpload :: "Header \<Rightarrow> int \<Rightarrow> Header" where
  "CloneForUpload t version =
     \<lparr>h_Metadata = (h_Metadata t)\<lparr>Version := version\<rparr>, h_Builds = h_Builds t,
      h_Mapping = h_Mapping t, h_Incomplete = False\<rparr>"

definition SetBuild :: "Header \<Rightarrow> uuid \<Rightarrow> BuildData \<Rightarrow> Header" where
  "SetBuild t buildID bd =
     t\<lparr>h_Builds := Some (AList.update buildID bd (case h_Builds t of None \<Rightarrow> [] | Some bs \<Rightarrow> bs))\<rparr>"

definition NewHeader :: "Metadata \<Rightarrow> BuildMap list \<Rightarrow> Header result" where
  "NewHeader metadata mapping =
     (if md_BlockSize metadata = 0 then Inl (Err ''block size cannot be zero'')
      else let mapping' =
             (if mapping = []
              then [\<lparr>Offset = 0,
                     Length = u64 (u64 (u64 (md_Size metadata + PageSize) - 1) div PageSize * PageSize),
                     BuildId = md_BuildId metadata, BuildStorageOffset = 0\<rparr>]
              else mapping)
           in bindR (NewMapping PageSize mapping') (\<lambda>compact.
                Inr \<lparr>h_Metadata = metadata, h_Builds = None, h_Mapping = compact, h_Incomplete = False\<rparr>))"

text \<open>The entries of \<open>sourceBuilds\<close> for the builds that the new mapping references.\<close>

fun inherit_builds :: "builds \<Rightarrow> uuid list \<Rightarrow> builds \<Rightarrow> builds" where
  "inherit_builds sourceBuilds [] acc = acc"
| "inherit_builds sourceBuilds (i # is) acc =
     inherit_builds sourceBuilds is
       (case map_of sourceBuilds i of Some bd \<Rightarrow> AList.update i bd acc | None \<Rightarrow> acc)"

definition newDiffHeader :: "Metadata \<Rightarrow> BuildMap list \<Rightarrow> builds option \<Rightarrow> Header result" where
  "newDiffHeader metadata mapping sourceBuilds =
     bindR (NewHeader metadata mapping) (\<lambda>h.
       Inr (h\<lparr>h_Builds := (case sourceBuilds of None \<Rightarrow> h_Builds h
                | Some sb \<Rightarrow> Some (inherit_builds sb (Builds (h_Mapping h)) [])),
              h_Incomplete := True\<rparr>))"

definition IsNormalizeFixApplied :: "Header \<Rightarrow> bool" where
  "IsNormalizeFixApplied t \<longleftrightarrow> Version (h_Metadata t) \<ge> NormalizeFixVersion"

definition getMapping :: "Header \<Rightarrow> int \<Rightarrow> (BuildMap \<times> int) result" where
  "getMapping t off =
     (if (off < 0 \<or> off \<ge> i64 (md_Size (h_Metadata t))) \<and> IsNormalizeFixApplied t
        then Inl (Err ''offset is out of bounds'')
      else if off smod PageSize \<noteq> 0 \<and> IsNormalizeFixApplied t
        then Inl (Err ''offset is not aligned to page size'')
      else let i = SearchOffset (h_Mapping t) off
           in if i = 0 then Inl (Err ''no source found for offset'')
              else bindR (At (h_Mapping t) (int i - 1)) (\<lambda>mapping.
                let shift = i64 (off - i64 (Offset mapping))
                in if shift \<ge> i64 (Length mapping) \<and> IsNormalizeFixApplied t
                   then Inl (Err ''offset is beyond the end of mapping'')
                   else Inr (mapping, shift)))"

definition GetShiftedMapping :: "Header \<Rightarrow> int \<Rightarrow> BuildMap result" where
  "GetShiftedMapping t off =
     bindR (getMapping t off) (\<lambda>(mapping, shift).
       let mappedLength = i64 (i64 (Length mapping) - shift);
           b = \<lparr>Offset = u64 (BuildStorageOffset mapping + u64 shift), Length = u64 mappedLength,
                BuildId = BuildId mapping, BuildStorageOffset = 0\<rparr>
       in if mappedLength < 0
          then (if IsNormalizeFixApplied t then Inl (Err ''mapped length is negative'')
                else Inr (b\<lparr>Length := 0\<rparr>))
          else Inr b)"

definition GetBuildFrameData :: "Header \<Rightarrow> uuid \<Rightarrow> FrameTable option" where
  "GetBuildFrameData t buildID =
     (case (case h_Builds t of None \<Rightarrow> None | Some bs \<Rightarrow> map_of bs buildID) of
        None \<Rightarrow> None
      | Some bd \<Rightarrow>
          (case bd_FrameData bd of None \<Rightarrow> Some UncompressedFrameTable | Some ft \<Rightarrow> Some ft))"

definition SelfBuildData :: "Header \<Rightarrow> (int \<times> FrameTable) result" where
  "SelfBuildData t =
     (case (case h_Builds t of None \<Rightarrow> None | Some bs \<Rightarrow> map_of bs (md_BuildId (h_Metadata t))) of
        None \<Rightarrow> Inl (Err ''header has no self entry'')
      | Some bd \<Rightarrow> Inr (bd_Size bd, FullFromTable (bd_FrameData bd)))"

text \<open>The sorting of \<open>ValidateHeader\<close> need not be stable in Go; entries with equal offsets are
  rejected in either order, as an overlap or as an empty entry.\<close>

fun check_adjacent :: "BuildMap list \<Rightarrow> unit result" where
  "check_adjacent (a # b # ms) =
     (if u64 (Offset a + Length a) < Offset b then Inl (Err ''gap in mappings'')
      else if u64 (Offset a + Length a) > Offset b then Inl (Err ''overlap in mappings'')
      else check_adjacent (b # ms))"
| "check_adjacent _ = Inr ()"

fun check_bounds :: "int \<Rightarrow> BuildMap list \<Rightarrow> unit result" where
  "check_bounds sz [] = Inr ()"
| "check_bounds sz (m # ms) =
     (if Offset m > sz then Inl (Err ''mapping has Offset beyond header size'')
      else if Length m = 0 then Inl (Err ''mapping has zero length'')
      else check_bounds sz ms)"

definition ValidateHeader :: "Header option \<Rightarrow> unit result" where
  "ValidateHeader ho =
     (case ho of None \<Rightarrow> Inl (Err ''header is nil'')
      | Some h \<Rightarrow>
          let md = h_Metadata h in
          if md_BlockSize md = 0 then Inl (Err ''header has zero block size'')
          else if md_Size md = 0 then Inl (Err ''header has zero size'')
          else if Len (h_Mapping h) = 0 then Inl (Err ''header has no mappings'')
          else let sortedMappings = sort_key Offset (Slice (h_Mapping h)) in
            if Offset (hd sortedMappings) \<noteq> 0 then Inl (Err ''mappings do not start at 0'')
            else bindR (check_adjacent sortedMappings) (\<lambda>_.
              let lastMapping = last sortedMappings;
                  lastEnd = u64 (Offset lastMapping + Length lastMapping)
              in if lastEnd < md_Size md then Inl (Err ''mappings do not cover entire file'')
                 else if lastEnd > u64 (md_Size md + md_BlockSize md)
                   then Inl (Err ''last mapping extends too far'')
                 else check_bounds (md_Size md) (Slice (h_Mapping h))))"

section \<open>Diff headers (metadata.go)\<close>

record 'b DiffMetadata =
  Dirty :: 'b
  Empty :: 'b
  dm_BlockSize :: int

definition NewDiffMetadata :: "'b bitmap_ops \<Rightarrow> int \<Rightarrow> 'b option \<Rightarrow> 'b option \<Rightarrow> 'b DiffMetadata" where
  "NewDiffMetadata ops blockSize dirty emptyBits =
     \<lparr>Dirty = (case dirty of None \<Rightarrow> bm_New ops | Some b \<Rightarrow> b),
      Empty = (case emptyBits of None \<Rightarrow> bm_New ops | Some b \<Rightarrow> b),
      dm_BlockSize = blockSize\<rparr>"

definition toDiffMapping :: "'b bitmap_ops \<Rightarrow> 'b DiffMetadata \<Rightarrow> uuid \<Rightarrow> BuildMap list" where
  "toDiffMapping ops d buildID =
     MergeMappings (CreateMapping ops buildID (Dirty d) (dm_BlockSize d))
       (CreateMapping ops uuid_Nil (Empty d) (dm_BlockSize d))"

definition ToProvisionalDiffHeader ::
  "'b bitmap_ops \<Rightarrow> 'b DiffMetadata \<Rightarrow> Header \<Rightarrow> uuid \<Rightarrow> Header result" where
  "ToProvisionalDiffHeader ops d originalHeader buildID =
     (let dirtyMappings = createIdentityMapping ops buildID (Dirty d) (dm_BlockSize d);
          emptyMappings = CreateMapping ops uuid_Nil (Empty d) (dm_BlockSize d);
          diffMapping = MergeMappings dirtyMappings emptyMappings;
          m = NormalizeMappings (MergeMappings (Slice (h_Mapping originalHeader)) diffMapping);
          metadata = NextGeneration (h_Metadata originalHeader) buildID
      in bindR (newDiffHeader metadata m (h_Builds originalHeader)) (\<lambda>h.
         bindR (Validate (h_Mapping h) (md_Size (h_Metadata h)) PageSize) (\<lambda>_. Inr h)))"

definition ToDiffHeader ::
  "'b bitmap_ops \<Rightarrow> 'b DiffMetadata \<Rightarrow> Header \<Rightarrow> uuid \<Rightarrow> Header result" where
  "ToDiffHeader ops d originalHeader buildID =
     (let diffMapping = toDiffMapping ops d buildID;
          m = NormalizeMappings (MergeMappings (Slice (h_Mapping originalHeader)) diffMapping);
          metadata = NextGeneration (h_Metadata originalHeader) buildID
      in bindR (newDiffHeader metadata m (h_Builds originalHeader)) (\<lambda>header.
         case Validate (h_Mapping header) (md_Size (h_Metadata header)) PageSize of
           Inl e \<Rightarrow> if IsNormalizeFixApplied header then Inl e else Inr header
         | Inr _ \<Rightarrow> Inr header))"

definition ToResizedDiffHeader ::
  "'b bitmap_ops \<Rightarrow> 'b DiffMetadata \<Rightarrow> Header \<Rightarrow> uuid \<Rightarrow> int \<Rightarrow> Header result" where
  "ToResizedDiffHeader ops d originalHeader buildID newSize =
     (let resizedHeader = originalHeader\<lparr>h_Metadata := (h_Metadata originalHeader)\<lparr>md_Size := newSize\<rparr>\<rparr>
      in bindR (ToDiffHeader ops d resizedHeader buildID) (\<lambda>header.
         bindR (Validate (h_Mapping header) (md_Size (h_Metadata header)) PageSize) (\<lambda>_. Inr header)))"

text \<open>The builder that a pause runs over the dirty blocks. The writer is a parameter: a function
  from its state and the block to the new state, the count written and an error.\<close>

record 'b DiffMetadataBuilder =
  bld_dirty :: 'b
  bld_empty :: 'b
  bld_blockSize :: int

definition NewDiffMetadataBuilder :: "'b bitmap_ops \<Rightarrow> int \<Rightarrow> 'b DiffMetadataBuilder" where
  "NewDiffMetadataBuilder ops blockSize =
     \<lparr>bld_dirty = bm_New ops, bld_empty = bm_New ops, bld_blockSize = blockSize\<rparr>"

definition Process ::
  "'b bitmap_ops \<Rightarrow> ('w \<Rightarrow> bytes \<Rightarrow> 'w \<times> int \<times> error option) \<Rightarrow> 'b DiffMetadataBuilder \<Rightarrow> 'w \<Rightarrow>
   bytes \<Rightarrow> int \<Rightarrow> 'b DiffMetadataBuilder \<times> 'w \<times> unit result" where
  "Process ops write b out block off =
     (let blockIdx = BlockIdx off (bld_blockSize b) in
      if IsZero block
      then (b\<lparr>bld_empty := bm_Add ops (bld_empty b) (u32 blockIdx)\<rparr>, out, Inr ())
      else let b' = b\<lparr>bld_dirty := bm_Add ops (bld_dirty b) (u32 blockIdx)\<rparr>
           in case write out block of (out', n, err) \<Rightarrow>
                (case err of
                   Some e \<Rightarrow> (b', out', Inl e)
                 | None \<Rightarrow>
                     if n \<noteq> bld_blockSize b then (b', out', Inl (Err ''short write''))
                     else (b', out', Inr ())))"

definition Build :: "'b DiffMetadataBuilder \<Rightarrow> 'b DiffMetadata" where
  "Build b = \<lparr>Dirty = bld_dirty b, Empty = bld_empty b, dm_BlockSize = bld_blockSize b\<rparr>"

section \<open>Page-aligned mappings\<close>

text \<open>Entries that the compact mapping of a header can hold: multiples of the page size whose
  ends have 32-bit page indices.\<close>

definition page_ok :: "BuildMap \<Rightarrow> bool" where
  "page_ok m \<longleftrightarrow> 4096 dvd Offset m \<and> 4096 dvd Length m \<and> 4096 dvd BuildStorageOffset m \<and>
     0 \<le> Offset m \<and> 0 \<le> Length m \<and> 0 \<le> BuildStorageOffset m \<and>
     Offset m + Length m \<le> 17592186040320 \<and> BuildStorageOffset m + Length m \<le> 17592186040320"

definition pages_ok :: "BuildMap list \<Rightarrow> bool" where
  "pages_ok ms \<longleftrightarrow> (\<forall>m \<in> set ms. page_ok m)"

lemma pages_ok_simps [simp]:
  "pages_ok []" "pages_ok (m # ms) \<longleftrightarrow> page_ok m \<and> pages_ok ms"
  "pages_ok (xs @ ys) \<longleftrightarrow> pages_ok xs \<and> pages_ok ys"
  by (auto simp: pages_ok_def)

lemma page_ok_bm_ok: "page_ok m \<Longrightarrow> bm_ok m"
  by (simp add: page_ok_def bm_ok_def)

lemma pages_ok_maps_ok: "pages_ok ms \<Longrightarrow> maps_ok ms"
  by (simp add: pages_ok_def maps_ok_def page_ok_bm_ok)

lemma page_ok_fits: "page_ok m \<Longrightarrow> fits PageSize m \<and> bm_u64 m"
proof -
  assume m: "page_ok m"
  have "x div 4096 \<le> maxBlockIdx" if "x \<le> 17592186040320" for x
    using that div_less_iff [of 4096 x "maxBlockIdx + 1"] by (simp add: maxBlockIdx_def)
  with m show ?thesis
    by (auto simp: page_ok_def fits_def bm_u64_def PageSize_def)
qed

lemma merge_pages:
  assumes "pages_ok bs" "pages_ok ds"
  shows "pages_ok (MergeMappings bs ds)"
proof -
  let ?P = "\<lambda>bs ds r. pages_ok bs \<longrightarrow> pages_ok ds \<longrightarrow> pages_ok r"
  have ok: "maps_ok bs" "maps_ok ds" using assms by (simp_all add: pages_ok_maps_ok)
  have "?P bs ds (merge_loop bs ds)"
    using ok
  proof (induction rule: merge_loop_induct [where P = ?P])
    case (right b bs d ds r)
    then show ?case by (auto simp: page_ok_def)
  qed (auto simp: page_ok_def)
  with assms show ?thesis by (simp add: MergeMappings_loop)
qed

lemma merge_ids:
  assumes "maps_ok bs" "maps_ok ds"
  shows "BuildId ` set (MergeMappings bs ds) \<subseteq> BuildId ` set bs \<union> BuildId ` set ds"
proof -
  let ?P = "\<lambda>bs ds r. BuildId ` set r \<subseteq> BuildId ` set bs \<union> BuildId ` set ds"
  have "?P bs ds (merge_loop bs ds)"
    using assms by (induction rule: merge_loop_induct [where P = ?P]) auto
  then show ?thesis by (simp add: MergeMappings_loop)
qed

lemma normalize_pages:
  assumes "pages_ok ms" "tiles a ms z" "nil_low ms"
  shows "pages_ok (NormalizeMappings ms) \<and> BuildId ` set (NormalizeMappings ms) \<subseteq> BuildId ` set ms"
proof -
  have "pages_ok (normalize_loop c ms) \<and> BuildId ` set (normalize_loop c ms) \<subseteq> BuildId ` set (c # ms)"
    if "pages_ok (c # ms)" "tiles a (c # ms) z" "nil_low (c # ms)" for c ms a
    using that
  proof (induction ms arbitrary: c a)
    case (Cons m ms)
    have step: "normalize_loop c (m # ms) =
      (if joinable c m then normalize_loop (c\<lparr>Length := Length c + Length m\<rparr>) ms
       else c # normalize_loop m ms)"
      using Cons.prems by (intro normalize_loop_Cons) (auto intro: page_ok_bm_ok)
    show ?case
    proof (cases "joinable c m")
      case True
      let ?c = "c\<lparr>Length := Length c + Length m\<rparr>"
      have "page_ok ?c" using Cons.prems True by (auto simp: page_ok_def joinable_def)
      then have "pages_ok (normalize_loop ?c ms) \<and>
          BuildId ` set (normalize_loop ?c ms) \<subseteq> BuildId ` set (?c # ms)"
        using Cons.prems by (intro Cons.IH [of ?c a]) (auto simp: add.assoc)
      then show ?thesis unfolding step using True by auto
    next
      case False
      have "pages_ok (normalize_loop m ms) \<and> BuildId ` set (normalize_loop m ms) \<subseteq> BuildId ` set (m # ms)"
        using Cons.prems by (intro Cons.IH [of m "bm_end c"]) auto
      then show ?thesis unfolding step using False Cons.prems(1) by auto
    qed
  qed simp
  note loop = this
  show ?thesis
  proof (cases ms)
    case (Cons m ms')
    then show ?thesis using loop [of m ms' a] assms
      by (simp add: NormalizeMappings_def del: tiles.simps nil_low_simps pages_ok_simps)
  qed (simp add: NormalizeMappings_def)
qed

lemma packed_pages:
  assumes "block_size_ok bs" "4096 dvd bs" "runs_ok rs" "0 \<le> sto" "4096 dvd sto"
    and "\<forall>(s, e) \<in> set rs. sto \<le> s * bs \<and> e * bs \<le> 17592186040320"
  shows "pages_ok (packed i bs sto rs)"
  using assms
proof (induction rs arbitrary: sto)
  case (Cons r rs)
  obtain s e where r: "r = (s, e)" by (cases r)
  have b: "0 \<le> s" "s < e" "runs_ok rs" using Cons.prems(3) by (simp_all add: r runs_ok_Cons)
  have sto: "sto \<le> s * bs" using Cons.prems(6) by (simp add: r)
  note next_sto = packed_next [OF Cons.prems(1) Cons.prems(3) [unfolded r] Cons.prems(4) sto]
  have "s * bs + (e - s) * bs = e * bs" by (simp add: left_diff_distrib)
  moreover have "0 \<le> (e - s) * bs" "0 \<le> s * bs" using b Cons.prems(1) by simp_all
  ultimately have "page_ok \<lparr>Offset = s * bs, Length = (e - s) * bs, BuildId = i, BuildStorageOffset = sto\<rparr>"
    using Cons.prems(2,4-6) sto by (auto simp: page_ok_def r)
  moreover have "pages_ok (packed i bs (sto + (e - s) * bs) rs)"
    using Cons.IH [of "sto + (e - s) * bs"] Cons.prems next_sto b(3) by (auto simp: r)
  ultimately show ?case by (simp add: r)
qed simp

section \<open>Well-formed headers\<close>

text \<open>What every constructed header satisfies: its mapping is packed in pages, covers the device
  \<open>[0, Size)\<close> without gaps, and references few enough builds for one more to be added.\<close>

definition header_wf :: "Header \<Rightarrow> bool" where
  "header_wf h \<longleftrightarrow> cm_wf (h_Mapping h) \<and> m_blockSize (h_Mapping h) = PageSize \<and>
     md_BlockSize (h_Metadata h) \<noteq> 0 \<and> NormalizeFixVersion \<le> Version (h_Metadata h) \<and>
     tiles 0 (Slice (h_Mapping h)) (md_Size (h_Metadata h)) \<and>
     pages_ok (Slice (h_Mapping h)) \<and> nil_low (Slice (h_Mapping h))"

abbreviation build_ids :: "Header \<Rightarrow> uuid set" where
  "build_ids h \<equiv> BuildId ` set (Slice (h_Mapping h)) - {uuid_Nil}"

lemma NewHeader_pages:
  assumes "md_BlockSize md \<noteq> 0" "ms \<noteq> []" "pages_ok ms"
    and "card (BuildId ` set ms - {uuid_Nil}) \<le> 65535"
  obtains c where "NewHeader md ms =
      Inr \<lparr>h_Metadata = md, h_Builds = None, h_Mapping = c, h_Incomplete = False\<rparr>"
    and "Slice c = ms" "cm_wf c" "m_blockSize c = PageSize"
proof -
  have "\<forall>m \<in> set ms. fits PageSize m" and u: "\<forall>m \<in> set ms. bm_u64 m"
    using assms(3) page_ok_fits by (auto simp: pages_ok_def)
  then obtain c where c: "NewMapping PageSize ms = Inr c"
    using NewMapping_succeeds_iff [of PageSize ms] assms(4) by (auto simp: PageSize_def)
  have P: "0 \<le> PageSize" by (simp add: PageSize_def)
  note i = NewMapping_Inr [OF c P u]
  show thesis
    by (rule that [of c]) (use c assms i in \<open>simp_all add: NewHeader_def\<close>)
qed

lemma Validate_tiles:
  assumes "cm_wf c" "m_blockSize c = PageSize" "pages_ok (Slice c)"
  shows "Validate c sz PageSize = Inr () \<longleftrightarrow> chained 0 (Slice c) sz"
proof -
  have p: "PageSize \<noteq> 0" "m_blockSize c \<le> 4294967296" using assms(2) by (simp_all add: PageSize_def)
  have "\<forall>m \<in> set (Slice c). Length m mod PageSize = 0"
    using assms(3) by (auto simp: pages_ok_def page_ok_def PageSize_def)
  then show ?thesis
    using Validate_Slice [OF assms(1) p(2,1)] ValidateMappings_iff [OF pages_ok_maps_ok [OF assms(3)] p(1)]
    by simp
qed

lemma tiles_chained_pos: "tiles a ms z \<Longrightarrow> chained a ms z"
  by (simp add: tiles_chained)

lemma map_of_inherit:
  "map_of (inherit_builds sb ids acc) i =
     (if i \<in> set ids \<and> map_of sb i \<noteq> None then map_of sb i else map_of acc i)"
  by (induction ids arbitrary: acc) (auto simp: update_conv' split: option.splits)

definition inside :: "int \<Rightarrow> BuildMap list \<Rightarrow> bool" where
  "inside z ms \<longleftrightarrow> (\<forall>x. src_at ms x \<noteq> None \<longrightarrow> 0 \<le> x \<and> x < z)"

text \<open>Composing a diff over a well-formed header, as all three constructions of diff headers do.\<close>

lemma compose_over:
  assumes "header_wf h" "pages_ok ds" "disjoint_sorted ds" "all_pos ds" "nil_low ds"
    and "inside (md_Size (h_Metadata h)) ds"
    and "m = NormalizeMappings (MergeMappings (Slice (h_Mapping h)) ds)"
  shows "pages_ok m" "tiles 0 m (md_Size (h_Metadata h))" "nil_low m"
    "src_at m = src_at (Slice (h_Mapping h)) ++ src_at ds"
    "BuildId ` set m \<subseteq> BuildId ` set (Slice (h_Mapping h)) \<union> BuildId ` set ds"
proof -
  let ?base = "Slice (h_Mapping h)" let ?z = "md_Size (h_Metadata h)"
  let ?mm = "MergeMappings ?base ds"
  have base: "pages_ok ?base" "tiles 0 ?base ?z" "nil_low ?base"
    using assms(1) by (simp_all add: header_wf_def)
  note ok = pages_ok_maps_ok [OF base(1)] pages_ok_maps_ok [OF assms(2)]
  have t: "tiles 0 ?mm ?z" using assms(6) by (intro merge_tiles [OF ok base(2) assms(3,4)]) (auto simp: inside_def)
  have p: "pages_ok ?mm" using base(1) assms(2) by (rule merge_pages)
  have n: "nil_low ?mm" using ok base(3) assms(5) by (simp add: MergeMappings_loop merge_loop_nil_low)
  note nm = NormalizeMappings_correct [OF pages_ok_maps_ok [OF p] t n]
  note np = normalize_pages [OF p t n]
  show "pages_ok m" "tiles 0 m ?z" "nil_low m" using nm np assms(7) by simp_all
  show "src_at m = src_at ?base ++ src_at ds"
    using nm(4) ok tiles_sorted [OF base(2)] assms(3,7) by (simp add: MergeMappings_loop merge_loop_src)
  show "BuildId ` set m \<subseteq> BuildId ` set ?base \<union> BuildId ` set ds"
    using np merge_ids [OF ok] assms(7) by blast
qed

lemma tiles_end_bound: "pages_ok ms \<Longrightarrow> tiles a ms z \<Longrightarrow> ms \<noteq> [] \<Longrightarrow> z \<le> 17592186040320"
proof (induction ms arbitrary: a)
  case (Cons m ms)
  then show ?case by (cases ms) (auto simp: page_ok_def)
qed simp

lemma slice_ids:
  assumes "cm_wf c"
  shows "BuildId ` set (Slice c) - {uuid_Nil} \<subseteq> set (m_builds c)"
proof -
  have "BuildId (entry c i) \<in> insert uuid_Nil (set (m_builds c))" if "i < Len c" for i
  proof -
    have "m_buildIdx c ! i \<in> set (m_buildIdx c)" using that assms by (simp add: cm_wf_def)
    then show ?thesis using assms by (auto simp: entry_def cm_wf_def)
  qed
  then show ?thesis by (fastforce simp: Slice_def)
qed

definition build_data :: "Header \<Rightarrow> uuid \<Rightarrow> BuildData option" where
  "build_data h i = (case h_Builds h of None \<Rightarrow> None | Some bs \<Rightarrow> map_of bs i)"

lemma diff_header_of:
  assumes "header_wf h" "0 < md_Size (h_Metadata h)" "pages_ok m"
    "tiles 0 m (md_Size (h_Metadata h))" "nil_low m" "card (BuildId ` set m - {uuid_Nil}) \<le> 65535"
  obtains h' where "newDiffHeader (NextGeneration (h_Metadata h) i) m (h_Builds h) = Inr h'"
    "header_wf h'" "Slice (h_Mapping h') = m" "h_Metadata h' = NextGeneration (h_Metadata h) i"
    "h_Incomplete h'" "\<forall>b \<in> build_ids h'. build_data h' b = build_data h b"
    "Validate (h_Mapping h') (md_Size (h_Metadata h')) PageSize = Inr ()"
proof -
  let ?md = "NextGeneration (h_Metadata h) i"
  have ne: "m \<noteq> []" using assms(2,4) by auto
  have md: "md_BlockSize ?md \<noteq> 0" using assms(1) by (simp add: header_wf_def NextGeneration_def)
  from NewHeader_pages [OF md ne assms(3,6)] obtain c where
    c: "NewHeader ?md m = Inr \<lparr>h_Metadata = ?md, h_Builds = None, h_Mapping = c, h_Incomplete = False\<rparr>"
      "Slice c = m" "cm_wf c" "m_blockSize c = PageSize" .
  let ?h' = "\<lparr>h_Metadata = ?md, h_Builds = (case h_Builds h of None \<Rightarrow> None
      | Some sb \<Rightarrow> Some (inherit_builds sb (Builds c) [])), h_Mapping = c, h_Incomplete = True\<rparr>"
  have n: "newDiffHeader ?md m (h_Builds h) = Inr ?h'"
    by (simp add: newDiffHeader_def c(1) split: option.split)
  have wf: "header_wf ?h'" using assms(1,3-5) c by (simp add: header_wf_def NextGeneration_def)
  have b: "\<forall>b \<in> build_ids ?h'. build_data ?h' b = build_data h b"
    using slice_ids [OF c(3)] by (auto simp: build_data_def map_of_inherit Builds_def split: option.splits)
  have v: "Validate (h_Mapping ?h') (md_Size (h_Metadata ?h')) PageSize = Inr ()"
    using Validate_tiles [OF c(3,4)] assms(3,4) c(2) tiles_chained_pos by (simp add: NextGeneration_def)
  show thesis
    by (rule that [OF n wf _ _ _ b v]) (simp_all add: c(2))
qed

section \<open>The diff of a layer\<close>

text \<open>The source map of a diff, without mappings: empty blocks are holes, other dirty blocks are
  packed in order.\<close>

definition diff_src :: "uuid \<Rightarrow> int \<Rightarrow> int set \<Rightarrow> int set \<Rightarrow> int \<rightharpoonup> uuid \<times> int" where
  "diff_src i bs D E x =
     (if x div bs \<in> E then Some (uuid_Nil, 0)
      else if x div bs \<in> D then Some (i, rank D (x div bs) * bs + x mod bs)
      else None)"

text \<open>A diff whose blocks lie within a device of \<open>z\<close> bytes.\<close>

definition diff_within :: "int \<Rightarrow> int set \<Rightarrow> int set \<Rightarrow> int \<Rightarrow> bool" where
  "diff_within bs D E z \<longleftrightarrow> block_size_ok bs \<and> 4096 dvd bs \<and> (\<forall>k \<in> D \<union> E. (k + 1) * bs \<le> z)"

lemma block_within:
  assumes "0 < (bs::int)" "x div bs = k" "0 \<le> k" "(k + 1) * bs \<le> z"
  shows "0 \<le> x \<and> x < z"
  using assms div_less_iff [of bs x "k + 1"] le_div_iff [of bs 0 x] by auto

context roaring_bitmap
begin

lemma runs_within:
  assumes "\<forall>k \<in> bset b. (k + 1) * bs \<le> z" "(s, e) \<in> set (bm_Ranges ops b)"
  shows "e * bs \<le> z"
proof -
  have "s < e" using Ranges_asc assms(2) by (rule ascending_runs_nonempty)
  then have "e - 1 \<in> bset b" using assms(2) Ranges_set [of b] by (force simp: run_set_def)
  then show ?thesis using assms(1) by fastforce
qed

lemma CreateMapping_pages:
  assumes "block_size_ok bs" "4096 dvd bs" "\<forall>k \<in> bset b. (k + 1) * bs \<le> z" "z \<le> 17592186040320"
  shows "pages_ok (CreateMapping ops i b bs)"
proof -
  have "0 \<le> s * bs \<and> e * bs \<le> 17592186040320" if "(s, e) \<in> set (bm_Ranges ops b)" for s e
    using that runs_within [OF assms(3) that] runs_ok_Ranges [of b] assms(1,4)
    by (auto simp: runs_ok_def)
  then show ?thesis
    using packed_pages [OF assms(1,2) runs_ok_Ranges [of b], of 0 i] assms(1)
    by (auto simp: CreateMapping_packed)
qed

lemma createIdentityMapping_pages:
  assumes "block_size_ok bs" "4096 dvd bs" "\<forall>k \<in> bset b. (k + 1) * bs \<le> z" "z \<le> 17592186040320"
  shows "pages_ok (createIdentityMapping ops i b bs)"
proof -
  have "page_ok \<lparr>Offset = u64 (BlockOffset s bs), Length = u64 (BlockOffset (i64 (e - s)) bs),
      BuildId = i, BuildStorageOffset = u64 (BlockOffset s bs)\<rparr>"
    if se: "(s, e) \<in> set (bm_Ranges ops b)" for s e
  proof -
    have b: "s < e" "0 \<le> s" "e \<le> 4294967296"
      using runs_ok_Ranges [of b] ascending_runs_nonempty [OF Ranges_asc se] se by (auto simp: runs_ok_def)
    have "s * bs + (e - s) * bs = e * bs" by (simp add: left_diff_distrib)
    moreover have "0 \<le> (e - s) * bs" "0 \<le> s * bs" using b assms(1) by simp_all
    ultimately show ?thesis
      using runs_within [OF assms(3) se] assms(2,4)
      by (simp add: run_entry_exact [OF assms(1) b(2,1,3)] page_ok_def)
  qed
  then show ?thesis
    by (auto simp: createIdentityMapping_def pages_ok_def Let_def)
qed

lemma src_within:
  assumes "block_size_ok bs" "\<forall>k \<in> bset b. (k + 1) * bs \<le> z"
  shows "inside z (CreateMapping ops i b bs)"
  unfolding inside_def
proof (intro allI impI)
  fix x assume "src_at (CreateMapping ops i b bs) x \<noteq> None"
  then have k: "x div bs \<in> bset b" using assms by (simp add: CreateMapping_src split: if_splits)
  show "0 \<le> x \<and> x < z"
    by (rule block_within [of bs x "x div bs"]) (use assms k bset_bounds [OF k] in auto)
qed

lemma ids_CreateMapping: "BuildId ` set (CreateMapping ops i b bs) \<subseteq> {i}"
proof -
  have "BuildId ` set (createMapping_loop i bs sto rs) \<subseteq> {i}" for sto rs
    by (induction i bs sto rs rule: createMapping_loop.induct) (auto simp: Let_def)
  then show ?thesis by (simp add: CreateMapping_def)
qed

lemma merged_diff_facts:
  assumes "block_size_ok bs" "4096 dvd bs" "\<forall>k \<in> bset e. (k + 1) * bs \<le> z" "z \<le> 17592186040320"
    and "pages_ok dm" "disjoint_sorted dm" "all_pos dm" "nil_low dm"
    and "inside z dm"
    and "ds = MergeMappings dm (CreateMapping ops uuid_Nil e bs)"
  shows "pages_ok ds" "disjoint_sorted ds" "all_pos ds" "nil_low ds"
    "src_at ds x = (if x div bs \<in> bset e then Some (uuid_Nil, 0) else src_at dm x)"
    "inside z ds"
    "BuildId ` set ds \<subseteq> BuildId ` set dm \<union> {uuid_Nil}"
proof -
  let ?em = "CreateMapping ops uuid_Nil e bs"
  note em = CreateMapping_wf [OF assms(1), of uuid_Nil e]
  note pages = CreateMapping_pages [OF assms(1-4), of uuid_Nil]
  note ok = pages_ok_maps_ok [OF assms(5)] em(1)
  note facts = ok em assms(6-8)
  show "pages_ok ds" unfolding assms(10) by (rule merge_pages [OF assms(5) pages])
  show "disjoint_sorted ds" "all_pos ds" "nil_low ds"
    unfolding assms(10) MergeMappings_loop using facts by (simp_all add: merge_loop_facts)
  have src: "src_at ds = src_at dm ++ src_at ?em"
    unfolding assms(10) MergeMappings_loop using facts by (simp add: merge_loop_src)
  show "src_at ds x = (if x div bs \<in> bset e then Some (uuid_Nil, 0) else src_at dm x)"
    using assms(1) by (simp add: src map_add_def CreateMapping_src)
  show "inside z ds"
    using assms(9) src_within [OF assms(1,3), of uuid_Nil]
    by (fastforce simp: inside_def src map_add_def split: option.splits)
  show "BuildId ` set ds \<subseteq> BuildId ` set dm \<union> {uuid_Nil}"
    unfolding assms(10) using merge_ids [OF ok] ids_CreateMapping [of uuid_Nil e bs] by blast
qed

end

lemma compose_header:
  assumes "header_wf h" "0 < md_Size (h_Metadata h)" "pages_ok ds" "disjoint_sorted ds" "all_pos ds"
    "nil_low ds" "inside (md_Size (h_Metadata h)) ds"
    and "BuildId ` set ds \<subseteq> {i, uuid_Nil}" "card (build_ids h) \<le> 65534"
    and "m = NormalizeMappings (MergeMappings (Slice (h_Mapping h)) ds)"
  obtains h' where "newDiffHeader (NextGeneration (h_Metadata h) i) m (h_Builds h) = Inr h'"
    "header_wf h'" "src_at (Slice (h_Mapping h')) = src_at (Slice (h_Mapping h)) ++ src_at ds"
    "h_Metadata h' = NextGeneration (h_Metadata h) i" "h_Incomplete h'"
    "\<forall>b \<in> build_ids h'. build_data h' b = build_data h b"
    "Validate (h_Mapping h') (md_Size (h_Metadata h')) PageSize = Inr ()"
proof -
  note c = compose_over [OF assms(1,3-7,10)]
  have "BuildId ` set m - {uuid_Nil} \<subseteq> insert i (build_ids h)" using c(5) assms(8) by blast
  then have "card (BuildId ` set m - {uuid_Nil}) \<le> card (insert i (build_ids h))"
    by (intro card_mono) auto
  also have "\<dots> \<le> 65535" using assms(9) card_insert_le_m1 [of 65535 "build_ids h" i] by simp
  finally have n: "card (BuildId ` set m - {uuid_Nil}) \<le> 65535" .
  from diff_header_of [OF assms(1,2) c(1-3) n] obtain h' where
    h': "newDiffHeader (NextGeneration (h_Metadata h) i) m (h_Builds h) = Inr h'" "header_wf h'"
      "Slice (h_Mapping h') = m" "h_Metadata h' = NextGeneration (h_Metadata h) i" "h_Incomplete h'"
      "\<forall>b \<in> build_ids h'. build_data h' b = build_data h b"
      "Validate (h_Mapping h') (md_Size (h_Metadata h')) PageSize = Inr ()" .
  show thesis by (rule that [OF h'(1,2) _ h'(4-7)]) (simp add: h'(3) c(4))
qed

lemma header_size_bound: "header_wf h \<Longrightarrow> 0 < md_Size (h_Metadata h) \<Longrightarrow> md_Size (h_Metadata h) \<le> 17592186040320"
  by (rule tiles_end_bound [of "Slice (h_Mapping h)" 0]) (auto simp: header_wf_def)

context roaring_bitmap
begin

lemma ToDiffHeader_spec:
  assumes "header_wf h" "0 < md_Size (h_Metadata h)" "card (build_ids h) \<le> 65534" "i \<noteq> uuid_Nil"
    and "diff_within (dm_BlockSize d) (bset (Dirty d)) (bset (Empty d)) (md_Size (h_Metadata h))"
  shows "\<exists>h'. ToDiffHeader ops d h i = Inr h' \<and> header_wf h' \<and>
    src_at (Slice (h_Mapping h')) =
      src_at (Slice (h_Mapping h)) ++ diff_src i (dm_BlockSize d) (bset (Dirty d)) (bset (Empty d)) \<and>
    h_Metadata h' = NextGeneration (h_Metadata h) i \<and> h_Incomplete h' \<and>
    (\<forall>b \<in> build_ids h'. build_data h' b = build_data h b)"
proof -
  let ?bs = "dm_BlockSize d" let ?z = "md_Size (h_Metadata h)"
  let ?dm = "CreateMapping ops i (Dirty d) ?bs"
  have bs: "block_size_ok ?bs" "4096 dvd ?bs" "\<forall>k \<in> bset (Empty d). (k + 1) * ?bs \<le> ?z"
    "\<forall>k \<in> bset (Dirty d). (k + 1) * ?bs \<le> ?z"
    using assms(5) by (auto simp: diff_within_def)
  note z = header_size_bound [OF assms(1,2)]
  note dm = CreateMapping_wf [OF bs(1), of i "Dirty d"]
  note dp = CreateMapping_pages [OF bs(1,2,4) z, of i]
  have ds_eq: "toDiffMapping ops d i = MergeMappings ?dm (CreateMapping ops uuid_Nil (Empty d) ?bs)"
    by (simp add: toDiffMapping_def)
  note ds = merged_diff_facts [OF bs(1-3) z dp dm(2-4) src_within [OF bs(1,4)] ds_eq]
  have ids: "BuildId ` set (toDiffMapping ops d i) \<subseteq> {i, uuid_Nil}"
    using ds(7) ids_CreateMapping [of i "Dirty d" ?bs] by blast
  have src: "src_at (toDiffMapping ops d i) = diff_src i ?bs (bset (Dirty d)) (bset (Empty d))"
    by (rule ext) (simp add: ds(5) diff_src_def CreateMapping_src bs(1) assms(4))
  from compose_header [OF assms(1,2) ds(1-4,6) ids assms(3) refl] obtain h' where
    "newDiffHeader (NextGeneration (h_Metadata h) i)
       (NormalizeMappings (MergeMappings (Slice (h_Mapping h)) (toDiffMapping ops d i))) (h_Builds h) = Inr h'"
    "header_wf h'" "src_at (Slice (h_Mapping h')) = src_at (Slice (h_Mapping h)) ++ src_at (toDiffMapping ops d i)"
    "h_Metadata h' = NextGeneration (h_Metadata h) i" "h_Incomplete h'"
    "\<forall>b \<in> build_ids h'. build_data h' b = build_data h b"
    "Validate (h_Mapping h') (md_Size (h_Metadata h')) PageSize = Inr ()" .
  then show ?thesis by (simp add: ToDiffHeader_def Let_def src)
qed

lemma ToProvisionalDiffHeader_spec:
  assumes "header_wf h" "0 < md_Size (h_Metadata h)" "card (build_ids h) \<le> 65534" "i \<noteq> uuid_Nil"
    and "diff_within (dm_BlockSize d) (bset (Dirty d)) (bset (Empty d)) (md_Size (h_Metadata h))"
  shows "\<exists>h'. ToProvisionalDiffHeader ops d h i = Inr h' \<and> header_wf h' \<and>
    src_at (Slice (h_Mapping h')) = src_at (Slice (h_Mapping h)) ++
      (\<lambda>x. if x div dm_BlockSize d \<in> bset (Empty d) then Some (uuid_Nil, 0)
           else if x div dm_BlockSize d \<in> bset (Dirty d) then Some (i, x) else None)"
proof -
  let ?bs = "dm_BlockSize d" let ?z = "md_Size (h_Metadata h)"
  let ?dm = "createIdentityMapping ops i (Dirty d) ?bs"
  have bs: "block_size_ok ?bs" "4096 dvd ?bs" "\<forall>k \<in> bset (Empty d). (k + 1) * ?bs \<le> ?z"
    "\<forall>k \<in> bset (Dirty d). (k + 1) * ?bs \<le> ?z"
    using assms(5) by (auto simp: diff_within_def)
  note z = header_size_bound [OF assms(1,2)]
  note dm = createIdentityMapping_wf [OF bs(1) assms(4), of "Dirty d"]
  note dp = createIdentityMapping_pages [OF bs(1,2,4) z, of i]
  have within: "inside ?z ?dm"
    unfolding inside_def
  proof (intro allI impI)
    fix x assume "src_at ?dm x \<noteq> None"
    then have k: "x div ?bs \<in> bset (Dirty d)" using dm(5) [of x] by (auto split: if_splits)
    show "0 \<le> x \<and> x < ?z"
      by (rule block_within [of ?bs x "x div ?bs"]) (use bs bset_bounds [OF k] k in auto)
  qed
  let ?ds = "MergeMappings ?dm (CreateMapping ops uuid_Nil (Empty d) ?bs)"
  note ds = merged_diff_facts [OF bs(1-3) z dp dm(2-4) within refl]
  have ids: "BuildId ` set ?ds \<subseteq> {i, uuid_Nil}"
    using ds(7) by (auto simp: createIdentityMapping_def Let_def)
  from compose_header [OF assms(1,2) ds(1-4,6) ids assms(3) refl] obtain h' where
    "newDiffHeader (NextGeneration (h_Metadata h) i)
       (NormalizeMappings (MergeMappings (Slice (h_Mapping h)) ?ds)) (h_Builds h) = Inr h'"
    "header_wf h'" "src_at (Slice (h_Mapping h')) = src_at (Slice (h_Mapping h)) ++ src_at ?ds"
    "Validate (h_Mapping h') (md_Size (h_Metadata h')) PageSize = Inr ()" .
  moreover have "src_at ?ds = (\<lambda>x. if x div ?bs \<in> bset (Empty d) then Some (uuid_Nil, 0)
      else if x div ?bs \<in> bset (Dirty d) then Some (i, x) else None)"
    by (rule ext) (simp add: ds(5) dm(5))
  ultimately show ?thesis by (simp add: ToProvisionalDiffHeader_def Let_def)
qed

end

section \<open>Resolving offsets\<close>

lemma tiles_next:
  "tiles a ms z \<Longrightarrow> i < length ms \<Longrightarrow>
   bm_end (ms ! i) = (if Suc i < length ms then Offset (ms ! Suc i) else z)"
proof (induction ms arbitrary: a i)
  case (Cons m ms)
  then show ?case by (cases i; cases ms) auto
qed simp

lemma tiles_hd: "tiles a ms z \<Longrightarrow> ms \<noteq> [] \<Longrightarrow> Offset (ms ! 0) = a"
  by (cases ms) auto

lemma src_at_nth:
  "disjoint_sorted ms \<Longrightarrow> i < length ms \<Longrightarrow> Offset (ms ! i) \<le> x \<Longrightarrow> x < bm_end (ms ! i) \<Longrightarrow>
   src_at ms x = Some (bm_src (ms ! i) x)"
proof (induction ms arbitrary: i)
  case (Cons m ms)
  show ?case
  proof (cases i)
    case (Suc j)
    with Cons.prems have j: "j < length ms" "Offset (ms ! j) \<le> x" "x < bm_end (ms ! j)"
      "disjoint_sorted ms" by auto
    have "bm_end m \<le> Offset (ms ! j)" using Cons.prems(1) j(1) by (auto simp: lower_def)
    then show ?thesis using Cons.IH [OF j(4,1,2,3)] Suc j(2) by simp
  qed (use Cons.prems in simp)
qed simp

lemma sorted_offsets:
  assumes "header_wf h"
  shows "sorted (m_offsets (h_Mapping h))"
proof -
  let ?c = "h_Mapping h"
  have c: "cm_wf ?c" "m_blockSize ?c \<le> 4294967296" "m_blockSize ?c = 4096"
    "tiles 0 (Slice ?c) (md_Size (h_Metadata h))" "pages_ok (Slice ?c)"
    using assms by (simp_all add: header_wf_def PageSize_def)
  have "m_offsets ?c ! i \<le> m_offsets ?c ! j" if "i < j" "j < Len ?c" for i j
  proof -
    have s: "bm_end (Slice ?c ! i) \<le> Offset (Slice ?c ! j)"
      using tiles_sorted [OF c(4)] that by (auto simp: disjoint_sorted_def sorted_wrt_iff_nth_less Slice_def)
    have "0 \<le> Length (Slice ?c ! i)"
      using c(5) that by (auto simp: pages_ok_def page_ok_def Slice_def)
    with s have "Offset (entry ?c i) \<le> Offset (entry ?c j)" using that by (simp add: Slice_def)
    then show ?thesis using entry_exact(1) [OF c(1,2)] that c(3) by simp
  qed
  then show ?thesis by (auto simp: sorted_iff_nth_mono_less Len_def)
qed

lemma getMapping_spec:
  assumes "header_wf h" "0 \<le> off" "off < md_Size (h_Metadata h)" "off mod 4096 = 0"
  obtains e where "getMapping h off = Inr (e, off - Offset e)" "e \<in> set (Slice (h_Mapping h))"
    "Offset e \<le> off" "off < bm_end e" "bm_end e \<le> md_Size (h_Metadata h)" "page_ok e"
    "\<And>x. off \<le> x \<Longrightarrow> x < bm_end e \<Longrightarrow> src_at (Slice (h_Mapping h)) x = Some (bm_src e x)"
proof -
  let ?c = "h_Mapping h" let ?z = "md_Size (h_Metadata h)"
  have c: "cm_wf ?c" "m_blockSize ?c \<le> 4294967296" "tiles 0 (Slice ?c) ?z" "pages_ok (Slice ?c)"
    and v: "IsNormalizeFixApplied h"
    using assms(1) by (simp_all add: header_wf_def PageSize_def IsNormalizeFixApplied_def)
  have z: "?z \<le> 17592186040320" using assms(2,3) by (intro header_size_bound [OF assms(1)]) linarith
  have off: "off \<le> max_i64" using assms(3) z by linarith
  note search = SearchOffset_bounds [OF c(1,2) sorted_offsets [OF assms(1)] assms(2) off]
  let ?r = "SearchOffset ?c off"
  have len: "length (Slice ?c) = Len ?c" by (simp add: Slice_def)
  have ne: "Slice ?c \<noteq> []" using assms(2,3) c(3) by auto
  then have "0 < Len ?c" using len by (metis length_greater_0_conv)
  then have "Offset (entry ?c 0) = 0" using tiles_hd [OF c(3) ne] by (simp add: Slice_def)
  then have r: "?r \<noteq> 0" using search(3) [of 0] \<open>0 < Len ?c\<close> assms(2) by auto
  let ?e = "entry ?c (?r - 1)"
  have idx: "?r - 1 < Len ?c" "?r - 1 < ?r" using search(1) r by auto
  have nth: "Slice ?c ! (?r - 1) = ?e" using idx by (simp add: Slice_def)
  have lo: "Offset ?e \<le> off" using search(2) idx by simp
  have next_e: "bm_end ?e = (if ?r < Len ?c then Offset (entry ?c ?r) else ?z)"
    using tiles_next [OF c(3), of "?r - 1"] idx r nth len by (auto simp: Slice_def)
  have hi: "off < bm_end ?e" using next_e search(3) [of ?r] assms(3) by auto
  have mem: "?e \<in> set (Slice ?c)" using idx by (simp add: Slice_def)
  then have p: "page_ok ?e" using c(4) by (auto simp: pages_ok_def)
  have le: "bm_end ?e \<le> ?z"
    using tiles_src [OF c(3), of "bm_end ?e - 1"]
      src_at_nth [OF tiles_sorted [OF c(3)], of "?r - 1" "bm_end ?e - 1"] idx nth len hi lo by auto
  have src: "src_at (Slice ?c) x = Some (bm_src ?e x)" if "off \<le> x" "x < bm_end ?e" for x
    using src_at_nth [OF tiles_sorted [OF c(3)], of "?r - 1" x] that idx nth len lo by simp
  have conv: "i64 (Offset ?e) = Offset ?e" "i64 (Length ?e) = Length ?e" "i64 ?z = ?z"
    "i64 (off - Offset ?e) = off - Offset ?e"
    using p z assms(2,3) lo unfolding page_ok_def by (intro i64_id; linarith)+
  have al: "off smod PageSize = 0" using assms(2,4) by (simp add: smod_nonneg PageSize_def)
  have at: "At ?c (int ?r - 1) = Inr ?e"
    using idx r by (simp add: At_def nat_diff_distrib)
  have "getMapping h off = Inr (?e, off - Offset ?e)"
    using assms(2,3) conv al at r hi by (simp add: getMapping_def Let_def)
  then show thesis using that mem lo hi le p src by blast
qed

lemma GetShiftedMapping_entry:
  assumes "header_wf h" "0 \<le> off" "off < md_Size (h_Metadata h)" "off mod 4096 = 0"
  obtains e where "e \<in> set (Slice (h_Mapping h))" "page_ok e" "Offset e \<le> off" "off < bm_end e"
    "bm_end e \<le> md_Size (h_Metadata h)"
    "GetShiftedMapping h off = Inr \<lparr>Offset = BuildStorageOffset e + (off - Offset e), Length = bm_end e - off,
       BuildId = BuildId e, BuildStorageOffset = 0\<rparr>"
    "\<And>x. off \<le> x \<Longrightarrow> x < bm_end e \<Longrightarrow> src_at (Slice (h_Mapping h)) x = Some (bm_src e x)"
proof -
  obtain e where e: "getMapping h off = Inr (e, off - Offset e)" "Offset e \<le> off" "off < bm_end e"
    "bm_end e \<le> md_Size (h_Metadata h)" "page_ok e" "e \<in> set (Slice (h_Mapping h))"
    "\<And>x. off \<le> x \<Longrightarrow> x < bm_end e \<Longrightarrow> src_at (Slice (h_Mapping h)) x = Some (bm_src e x)"
    using getMapping_spec [OF assms] by metis
  let ?s = "off - Offset e"
  have p: "0 \<le> Offset e" "bm_end e \<le> 17592186040320" "0 \<le> BuildStorageOffset e"
    "BuildStorageOffset e + Length e \<le> 17592186040320"
    using e(5) by (simp_all add: page_ok_def)
  have conv: "i64 (Length e) = Length e" "i64 (Length e - ?s) = bm_end e - off"
    "u64 (bm_end e - off) = bm_end e - off" "u64 ?s = ?s"
    "u64 (BuildStorageOffset e + ?s) = BuildStorageOffset e + ?s"
  proof -
    show "i64 (Length e) = Length e" using e(2,3) p by (intro i64_id) linarith+
    have "i64 (Length e - ?s) = Length e - ?s" using e(2,3) p by (intro i64_id) linarith+
    then show "i64 (Length e - ?s) = bm_end e - off" by simp
  qed (use e(2,3) p in \<open>intro u64_id; linarith\<close>)+
  have g: "GetShiftedMapping h off = Inr \<lparr>Offset = BuildStorageOffset e + ?s, Length = bm_end e - off,
      BuildId = BuildId e, BuildStorageOffset = 0\<rparr>"
    using e(1,3) conv by (simp add: GetShiftedMapping_def Let_def)
  show thesis by (rule that [OF e(6,5,2,3,4) g e(7)])
qed

lemma GetShiftedMapping_spec:
  assumes "header_wf h" "0 \<le> off" "off < md_Size (h_Metadata h)" "off mod 4096 = 0"
  shows "\<exists>b. GetShiftedMapping h off = Inr b \<and> 0 < Length b \<and> off + Length b \<le> md_Size (h_Metadata h) \<and>
    (\<forall>k. 0 \<le> k \<and> k < Length b \<longrightarrow>
       src_at (Slice (h_Mapping h)) (off + k) =
         Some (if BuildId b = uuid_Nil then (uuid_Nil, 0) else (BuildId b, Offset b + k)))"
proof -
  obtain e where "off < bm_end e" "bm_end e \<le> md_Size (h_Metadata h)"
    "GetShiftedMapping h off = Inr \<lparr>Offset = BuildStorageOffset e + (off - Offset e), Length = bm_end e - off,
       BuildId = BuildId e, BuildStorageOffset = 0\<rparr>"
    "\<And>x. off \<le> x \<Longrightarrow> x < bm_end e \<Longrightarrow> src_at (Slice (h_Mapping h)) x = Some (bm_src e x)"
    using GetShiftedMapping_entry [OF assms] by metis
  then show ?thesis by (auto simp: bm_src_def)
qed

lemma GetShiftedMapping_rejects:
  assumes "header_wf h" "0 < md_Size (h_Metadata h)"
    and "off < 0 \<or> md_Size (h_Metadata h) \<le> off \<or> off smod 4096 \<noteq> 0"
  shows "\<exists>e. GetShiftedMapping h off = Inl e"
proof -
  have "i64 (md_Size (h_Metadata h)) = md_Size (h_Metadata h)"
    using header_size_bound [OF assms(1,2)] assms(2) by (intro i64_id) linarith+
  then show ?thesis
    using assms by (auto simp: GetShiftedMapping_def getMapping_def IsNormalizeFixApplied_def
        header_wf_def PageSize_def Let_def)
qed

section \<open>Well-formed headers pass validation\<close>

lemma tiles_sort_key: "tiles a ms z \<Longrightarrow> sort_key Offset ms = ms"
proof (rule sort_key_id_if_sorted)
  assume t: "tiles a ms z"
  have "sorted_wrt (\<lambda>a b. Offset a \<le> Offset b) ms"
    using tiles_sorted [OF t] tiles_all_pos [OF t] unfolding disjoint_sorted_def all_pos_def
    by (rule_tac sorted_wrt_mono_rel [rotated]) fastforce+
  then show "sorted (map Offset ms)" by (simp add: sorted_map)
qed

lemma tiles_check_adjacent: "tiles a ms z \<Longrightarrow> maps_ok ms \<Longrightarrow> check_adjacent ms = Inr ()"
proof (induction ms arbitrary: a rule: check_adjacent.induct)
  case (1 m1 m2 ms)
  then have "u64 (Offset m1 + Length m1) = bm_end m1" by (intro u64_end) simp
  with 1 show ?case by auto
qed auto

lemma tiles_check_bounds:
  "tiles a ms z \<Longrightarrow> z \<le> sz \<Longrightarrow> check_bounds sz ms = Inr ()"
proof (induction ms arbitrary: a)
  case (Cons m ms)
  then have "bm_end m \<le> z" using tiles_le [of "bm_end m" ms z] by auto
  with Cons show ?case by auto
qed simp

lemma tiles_last: "tiles a ms z \<Longrightarrow> ms \<noteq> [] \<Longrightarrow> bm_end (last ms) = z"
  by (induction ms arbitrary: a) auto

lemma header_wf_validates:
  assumes "header_wf h" "0 < md_Size (h_Metadata h)" "0 \<le> md_BlockSize (h_Metadata h)"
    "md_Size (h_Metadata h) + md_BlockSize (h_Metadata h) < 18446744073709551616"
  shows "ValidateHeader (Some h) = Inr ()"
proof -
  let ?ms = "Slice (h_Mapping h)" let ?z = "md_Size (h_Metadata h)"
  have t: "tiles 0 ?ms ?z" and p: "pages_ok ?ms" and b: "md_BlockSize (h_Metadata h) \<noteq> 0"
    using assms(1) by (simp_all add: header_wf_def)
  have ne: "?ms \<noteq> []" using t assms(2) by auto
  then have len: "Len (h_Mapping h) \<noteq> 0" by (auto simp: Slice_def)
  have "last ?ms \<in> set ?ms" using ne by simp
  then have "u64 (bm_end (last ?ms)) = bm_end (last ?ms)"
    using p by (intro u64_end) (auto simp: pages_ok_def page_ok_bm_ok)
  then have last: "u64 (bm_end (last ?ms)) = ?z" using tiles_last [OF t ne] by simp
  have u: "u64 (?z + md_BlockSize (h_Metadata h)) = ?z + md_BlockSize (h_Metadata h)"
    using assms by (intro u64_id) linarith+
  have hd: "Offset (hd ?ms) = 0" using t ne by (cases ?ms) auto
  show ?thesis
    using b assms(2,3) len hd last u
    by (simp add: ValidateHeader_def Let_def tiles_sort_key [OF t]
        tiles_check_adjacent [OF t pages_ok_maps_ok [OF p]] tiles_check_bounds [OF t])
qed

text \<open>A new template header maps the whole device to its own build.\<close>

lemma NewHeader_template:
  assumes "0 < sz" "sz \<le> 17592186040320" "4096 dvd sz" "bs \<noteq> 0" "i \<noteq> uuid_Nil"
  shows "\<exists>h. NewHeader (NewTemplateMetadata i bs sz) [] = Inr h \<and> header_wf h \<and>
    Slice (h_Mapping h) = [\<lparr>Offset = 0, Length = sz, BuildId = i, BuildStorageOffset = 0\<rparr>]"
proof -
  let ?md = "NewTemplateMetadata i bs sz"
  let ?ms = "[\<lparr>Offset = 0, Length = sz, BuildId = i, BuildStorageOffset = 0\<rparr>]"
  have u1: "u64 (sz + 4096) = sz + 4096" "u64 (sz + 4096 - 1) = sz + 4096 - 1"
    using assms by (intro u64_id; linarith)+
  have "(sz + 4096 - 1) div 4096 * 4096 = sz" using assms(3) by auto
  then have len: "u64 (u64 (u64 (sz + PageSize) - 1) div PageSize * PageSize) = sz"
    using assms(1,2) u1 by (simp add: PageSize_def u64_id)
  have p: "pages_ok ?ms" using assms by (simp add: page_ok_def)
  from NewHeader_pages [of ?md ?ms] p assms(4) obtain c where
    c: "NewHeader ?md ?ms = Inr \<lparr>h_Metadata = ?md, h_Builds = None, h_Mapping = c, h_Incomplete = False\<rparr>"
      "Slice c = ?ms" "cm_wf c" "m_blockSize c = PageSize"
    using card_Diff1_le [of "{i}" uuid_Nil] by (auto simp: NewTemplateMetadata_def)
  have "NewHeader ?md [] = NewHeader ?md ?ms"
    using len by (simp add: NewHeader_def NewTemplateMetadata_def)
  then show ?thesis
    using c p assms by (auto simp: header_wf_def NewTemplateMetadata_def metadataVersion_def NormalizeFixVersion_def)
qed

section \<open>The builder of a diff\<close>

text \<open>Running the builder over blocks, given with their block indices, into a buffer.\<close>

abbreviation buffer_write :: "bytes \<Rightarrow> bytes \<Rightarrow> bytes \<times> int \<times> error option" where
  "buffer_write w b \<equiv> (w @ b, int (length b), None)"

fun process_all ::
  "'b bitmap_ops \<Rightarrow> (int \<times> bytes) list \<Rightarrow> 'b DiffMetadataBuilder \<Rightarrow> bytes \<Rightarrow>
   ('b DiffMetadataBuilder \<times> bytes) result" where
  "process_all ops [] b out = Inr (b, out)"
| "process_all ops ((k, block) # rest) b out =
     (case Process ops buffer_write b out block (k * bld_blockSize b) of
        (b', out', Inl e) \<Rightarrow> Inl e
      | (b', out', Inr _) \<Rightarrow> process_all ops rest b' out')"

abbreviation nonzero :: "(int \<times> bytes) list \<Rightarrow> (int \<times> bytes) list" where
  "nonzero bl \<equiv> filter (\<lambda>(k, block). \<not> IsZero block) bl"

definition blocks_ok :: "int \<Rightarrow> (int \<times> bytes) list \<Rightarrow> bool" where
  "blocks_ok bs bl \<longleftrightarrow> (\<forall>(k, block) \<in> set bl. 0 \<le> k \<and> k < 4294967296 \<and> int (length block) = bs)"

context roaring_bitmap
begin

lemma process_all_spec:
  assumes "block_size_ok (bld_blockSize b)" "blocks_ok (bld_blockSize b) bl"
  shows "\<exists>b'. process_all ops bl b out = Inr (b', out @ concat (map snd (nonzero bl))) \<and>
    bld_blockSize b' = bld_blockSize b \<and>
    bset (bld_dirty b') = bset (bld_dirty b) \<union> fst ` set (nonzero bl) \<and>
    bset (bld_empty b') = bset (bld_empty b) \<union> fst ` set (filter (\<lambda>(k, block). IsZero block) bl)"
  using assms
proof (induction bl arbitrary: b out)
  case (Cons x bl)
  obtain k block where x: "x = (k, block)" by (cases x)
  let ?bs = "bld_blockSize b"
  have k: "0 \<le> k" "k < 4294967296" "int (length block) = ?bs" "blocks_ok ?bs bl"
    using Cons.prems(2) by (auto simp: x blocks_ok_def)
  have "k * ?bs \<le> max_i64" using block_mult_bound [OF Cons.prems(1), of k] k by auto
  moreover have "0 \<le> k * ?bs" using k Cons.prems(1) by simp
  ultimately have "BlockIdx (k * ?bs) ?bs = k"
    using BlockIdx_eq [of "k * ?bs" ?bs] Cons.prems(1) by simp
  then have idx: "u32 (BlockIdx (k * ?bs) ?bs) = k" using k by (simp add: u32_id)
  show ?case
  proof (cases "IsZero block")
    case True
    let ?b = "b\<lparr>bld_empty := bm_Add ops (bld_empty b) k\<rparr>"
    obtain b' where "process_all ops bl ?b out = Inr (b', out @ concat (map snd (nonzero bl)))"
      "bld_blockSize b' = ?bs" "bset (bld_dirty b') = bset (bld_dirty b) \<union> fst ` set (nonzero bl)"
      "bset (bld_empty b') = insert k (bset (bld_empty b)) \<union> fst ` set (filter (\<lambda>(k, block). IsZero block) bl)"
      using Cons.IH [of ?b out] Cons.prems(1) k bset_Add [OF k(1,2)] by auto
    then show ?thesis using True idx by (auto simp: x Process_def Let_def)
  next
    case False
    let ?b = "b\<lparr>bld_dirty := bm_Add ops (bld_dirty b) k\<rparr>"
    obtain b' where "process_all ops bl ?b (out @ block) = Inr (b', (out @ block) @ concat (map snd (nonzero bl)))"
      "bld_blockSize b' = ?bs" "bset (bld_dirty b') = insert k (bset (bld_dirty b)) \<union> fst ` set (nonzero bl)"
      "bset (bld_empty b') = bset (bld_empty b) \<union> fst ` set (filter (\<lambda>(k, block). IsZero block) bl)"
      using Cons.IH [of ?b "out @ block"] Cons.prems(1) k bset_Add [OF k(1,2)] by auto
    then show ?thesis using False idx k(3) by (auto simp: x Process_def Let_def)
  qed
qed simp

end

text \<open>Blocks of equal length that are written one after the other are found at their rank.\<close>

lemma concat_rank:
  assumes "sorted_wrt (<) (map fst nz)" "\<forall>(k, block) \<in> set nz. length block = n" "(k, block) \<in> set nz"
  shows "take n (drop (nat (rank (fst ` set nz) k) * n) (concat (map snd nz))) = block"
  using assms
proof (induction nz)
  case (Cons x nz)
  obtain k0 b0 where x: "x = (k0, b0)" by (cases x)
  have lt: "\<forall>j \<in> fst ` set nz. k0 < j" using Cons.prems(1) by (auto simp: x)
  show ?case
  proof (cases "(k, block) \<in> set nz")
    case True
    then have "k0 < k" using lt by force
    then have "{j \<in> fst ` set (x # nz). j < k} = insert k0 {j \<in> fst ` set nz. j < k}"
      by (auto simp: x)
    moreover have "k0 \<notin> {j \<in> fst ` set nz. j < k}" "finite {j \<in> fst ` set nz. j < k}" using lt by auto
    ultimately have "nat (rank (fst ` set (x # nz)) k) = Suc (nat (rank (fst ` set nz) k))"
      by (simp add: rank_def)
    moreover have "length b0 = n" using Cons.prems(2) by (simp add: x)
    ultimately show ?thesis using Cons.IH Cons.prems True by (simp add: x)
  next
    case False
    then have e: "k = k0" "block = b0" using Cons.prems(3) by (auto simp: x)
    then have "{j \<in> fst ` set (x # nz). j < k} = {}" using lt by (auto simp: x)
    then have "rank (fst ` set (x # nz)) k = 0" by (simp add: rank_def)
    then show ?thesis using Cons.prems(2) e by (simp add: x)
  qed
qed simp

context roaring_bitmap
begin

lemma pause_diff:
  assumes "0 < bs" "bs \<le> 1073741824" "blocks_ok bs blocks" "sorted_wrt (<) (map fst blocks)" "i \<noteq> uuid_Nil"
  shows "\<exists>b out. process_all ops blocks (NewDiffMetadataBuilder ops bs) [] = Inr (b, out) \<and>
    bset (Empty (Build b)) = {k. \<exists>block. (k, block) \<in> set blocks \<and> IsZero block} \<and>
    (\<forall>k block. (k, block) \<in> set blocks \<and> \<not> IsZero block \<longrightarrow>
       (\<exists>pos. src_at (CreateMapping ops i (Dirty (Build b)) bs) (k * bs) = Some (i, pos) \<and>
              take (nat bs) (drop (nat pos) out) = block))"
proof -
  let ?b0 = "NewDiffMetadataBuilder ops bs" let ?nz = "nonzero blocks"
  have b0: "bld_blockSize ?b0 = bs" "bset (bld_dirty ?b0) = {}" "bset (bld_empty ?b0) = {}"
    by (simp_all add: NewDiffMetadataBuilder_def bset_New)
  from process_all_spec [of ?b0 blocks "[]"] obtain b where
    b: "process_all ops blocks ?b0 [] = Inr (b, concat (map snd ?nz))"
      "bset (bld_dirty b) = fst ` set ?nz"
      "bset (bld_empty b) = fst ` set (filter (\<lambda>(k, block). IsZero block) blocks)"
    using assms b0 by auto
  have sorted: "sorted_wrt (<) (map fst ?nz)"
    using assms(4) by (simp add: sorted_wrt_map sorted_wrt_filter)
  have len: "\<forall>(k, block) \<in> set ?nz. length block = nat bs"
    using assms(3) by (auto simp: blocks_ok_def)
  have read: "\<exists>pos. src_at (CreateMapping ops i (Dirty (Build b)) bs) (k * bs) = Some (i, pos) \<and>
      take (nat bs) (drop (nat pos) (concat (map snd ?nz))) = block"
    if "(k, block) \<in> set blocks" "\<not> IsZero block" for k block
  proof (intro exI conjI)
    have nz: "(k, block) \<in> set ?nz" using that by simp
    then have "k \<in> fst ` set ?nz" by force
    then show "src_at (CreateMapping ops i (Dirty (Build b)) bs) (k * bs) =
        Some (i, rank (fst ` set ?nz) k * bs)"
      using assms(1,2,5) b(2) by (simp add: CreateMapping_src Build_def)
    have "nat (rank (fst ` set ?nz) k * bs) = nat (rank (fst ` set ?nz) k) * nat bs"
      using assms(1) by (simp add: nat_mult_distrib rank_def)
    then show "take (nat bs) (drop (nat (rank (fst ` set ?nz) k * bs)) (concat (map snd ?nz))) = block"
      using concat_rank [OF sorted len nz] by simp
  qed
  have "bset (Empty (Build b)) = {k. \<exists>block. (k, block) \<in> set blocks \<and> IsZero block}"
    using b(3) by (force simp: Build_def)
  with b(1) read show ?thesis by blast
qed

end

section \<open>Properties\<close>

text \<open>(C1) Pausing composes correctly: from a well-formed parent header and a diff whose blocks
  lie inside the device, \<open>ToDiffHeader\<close> succeeds, and the new mapping sends every byte to a hole
  where its block is empty, to the packed position in the new build where its block is dirty,
  and to the parent's source everywhere else. The new header is well-formed again, of the next
  generation, marked as pending, and inherits the build data of every build it references.\<close>

theorem ToDiffHeader_composes:
  assumes "roaring_bitmap ops bset" "header_wf h" "0 < md_Size (h_Metadata h)"
    "card (build_ids h) \<le> 65534" "buildID \<noteq> uuid_Nil"
    "diff_within (dm_BlockSize d) (bset (Dirty d)) (bset (Empty d)) (md_Size (h_Metadata h))"
  shows "\<exists>h'. ToDiffHeader ops d h buildID = Inr h' \<and> header_wf h' \<and>
    src_at (Slice (h_Mapping h')) = src_at (Slice (h_Mapping h)) ++
      diff_src buildID (dm_BlockSize d) (bset (Dirty d)) (bset (Empty d)) \<and>
    h_Metadata h' = NextGeneration (h_Metadata h) buildID \<and> h_Incomplete h' \<and>
    (\<forall>b \<in> build_ids h'. build_data h' b = build_data h b)"
  by (rule roaring_bitmap.ToDiffHeader_spec [OF assms])

definition example_header :: Header where
  "example_header =
     \<lparr>h_Metadata = \<lparr>Version = 3, md_BlockSize = 4096, md_Size = 16384, Generation = 0,
                    md_BuildId = 1, BaseBuildId = 1\<rparr>,
      h_Builds = None,
      h_Mapping = \<lparr>m_blockSize = 4096, m_builds = [1], m_offsets = [0], m_lengths = [4],
                   m_storage = [0], m_buildIdx = [0]\<rparr>,
      h_Incomplete = False\<rparr>"

lemma example_header_wf:
  "header_wf example_header" "md_Size (h_Metadata example_header) = 16384"
  "build_ids example_header = {1}"
  by (simp_all add: example_header_def header_wf_def cm_wf_def Len_def maxBlockIdx_def nilBuildIdx_def
      maxBuildsPerHeader_def PageSize_def NormalizeFixVersion_def page_ok_def u64_def)

theorem ToDiffHeader_composes_witness:
  "\<exists>h'. ToDiffHeader listbm_ops \<lparr>Dirty = [1], Empty = [2], dm_BlockSize = 4096\<rparr> example_header 9 = Inr h' \<and>
     header_wf h'"
  using ToDiffHeader_composes [OF lbm.roaring_bitmap_axioms example_header_wf(1), of 9
      "\<lparr>Dirty = [1], Empty = [2], dm_BlockSize = 4096\<rparr>"]
  by (auto simp: example_header_wf diff_within_def listbm_set_def)

text \<open>A provisional header, which serves a resume before deduplication, resolves the
  dirty blocks of the pause to their own device addresses and everything else as the final
  header does: holes for empty blocks, the parent's source otherwise.\<close>

theorem ToProvisionalDiffHeader_composes:
  assumes "roaring_bitmap ops bset" "header_wf h" "0 < md_Size (h_Metadata h)"
    "card (build_ids h) \<le> 65534" "buildID \<noteq> uuid_Nil"
    "diff_within (dm_BlockSize d) (bset (Dirty d)) (bset (Empty d)) (md_Size (h_Metadata h))"
  shows "\<exists>h'. ToProvisionalDiffHeader ops d h buildID = Inr h' \<and> header_wf h' \<and>
    src_at (Slice (h_Mapping h')) = src_at (Slice (h_Mapping h)) ++
      (\<lambda>x. if x div dm_BlockSize d \<in> bset (Empty d) then Some (uuid_Nil, 0)
           else if x div dm_BlockSize d \<in> bset (Dirty d) then Some (buildID, x) else None)"
  by (rule roaring_bitmap.ToProvisionalDiffHeader_spec [OF assms])

theorem ToProvisionalDiffHeader_composes_witness:
  "\<exists>h'. ToProvisionalDiffHeader listbm_ops \<lparr>Dirty = [1], Empty = [2], dm_BlockSize = 4096\<rparr>
     example_header 9 = Inr h' \<and> src_at (Slice (h_Mapping h')) 5000 = Some (9, 5000)"
  using ToProvisionalDiffHeader_composes [OF lbm.roaring_bitmap_axioms example_header_wf(1), of 9
      "\<lparr>Dirty = [1], Empty = [2], dm_BlockSize = 4096\<rparr>"]
  by (auto simp: example_header_wf diff_within_def listbm_set_def map_add_def)

text \<open>\<open>GetShiftedMapping\<close> resolves every page-aligned offset of the device: it returns a
  non-empty range that stays inside the device, and each byte of the range has exactly the
  source that the mapping of the header gives it.\<close>

theorem GetShiftedMapping_resolves:
  assumes "header_wf h" "0 \<le> off" "off < md_Size (h_Metadata h)" "off mod 4096 = 0"
  shows "\<exists>b. GetShiftedMapping h off = Inr b \<and> 0 < Length b \<and> off + Length b \<le> md_Size (h_Metadata h) \<and>
    (\<forall>k. 0 \<le> k \<and> k < Length b \<longrightarrow>
       src_at (Slice (h_Mapping h)) (off + k) =
         Some (if BuildId b = uuid_Nil then (uuid_Nil, 0) else (BuildId b, Offset b + k)))"
  using assms by (rule GetShiftedMapping_spec)

theorem GetShiftedMapping_resolves_witness:
  "\<exists>b. GetShiftedMapping example_header 8192 = Inr b \<and> 0 < Length b \<and> 8192 + Length b \<le> 16384"
  using GetShiftedMapping_resolves [OF example_header_wf(1), of 8192] by (auto simp: example_header_wf)

text \<open>Template headers and the headers derived from them are accepted by \<open>ValidateHeader\<close>:
  the header of a new template is well-formed, and every well-formed header validates.\<close>

theorem headers_validate:
  assumes "0 < sz" "sz \<le> 17592186040320" "4096 dvd sz" "0 < blockSize" "blockSize < 9223372036854775808"
    "buildId \<noteq> uuid_Nil"
  shows "(\<exists>h. NewHeader (NewTemplateMetadata buildId blockSize sz) [] = Inr h \<and> header_wf h \<and>
      ValidateHeader (Some h) = Inr ()) \<and>
    (\<forall>h. header_wf h \<and> md_Size (h_Metadata h) = sz \<and> md_BlockSize (h_Metadata h) = blockSize \<longrightarrow>
       ValidateHeader (Some h) = Inr ())"
proof -
  have v: "ValidateHeader (Some h) = Inr ()"
    if "header_wf h" "md_Size (h_Metadata h) = sz" "md_BlockSize (h_Metadata h) = blockSize" for h
    using that assms by (intro header_wf_validates) auto
  have "h_Metadata h = md" if "NewHeader md ms = Inr h" for h md ms
    using that by (auto simp: NewHeader_def Let_def bindR_eq_Inr split: if_splits)
  then show ?thesis
    using NewHeader_template [OF assms(1-3), of blockSize buildId] assms(4,6) v
    by (fastforce simp: NewTemplateMetadata_def)
qed

theorem headers_validate_witness:
  "\<exists>h. NewHeader (NewTemplateMetadata 3 2097152 4194304) [] = Inr h \<and> ValidateHeader (Some h) = Inr ()"
  using headers_validate [of 4194304 2097152 3] by auto

text \<open>The diff that a pause writes can be read back: running the builder over the blocks in
  ascending order records exactly the all-zero blocks as empty and the others as dirty, and each
  dirty block is found in the artifact at the position that the mapping built from the dirty
  bitmap gives it.\<close>

theorem pause_diff_readable:
  assumes "roaring_bitmap ops bset" "0 < bs" "bs \<le> 1073741824" "blocks_ok bs blocks"
    "sorted_wrt (<) (map fst blocks)" "buildID \<noteq> uuid_Nil"
  shows "\<exists>b out. process_all ops blocks (NewDiffMetadataBuilder ops bs) [] = Inr (b, out) \<and>
    bset (Empty (Build b)) = {k. \<exists>block. (k, block) \<in> set blocks \<and> IsZero block} \<and>
    (\<forall>k block. (k, block) \<in> set blocks \<and> \<not> IsZero block \<longrightarrow>
       (\<exists>pos. src_at (CreateMapping ops buildID (Dirty (Build b)) bs) (k * bs) = Some (buildID, pos) \<and>
              take (nat bs) (drop (nat pos) out) = block))"
  by (rule roaring_bitmap.pause_diff [OF assms])

theorem pause_diff_readable_witness:
  "\<exists>b out. process_all listbm_ops [(0, [1, 2]), (1, [0, 0]), (5, [0, 3])]
     (NewDiffMetadataBuilder listbm_ops 2) [] = Inr (b, out) \<and>
   listbm_set (Empty (Build b)) = {1}"
  using pause_diff_readable [OF lbm.roaring_bitmap_axioms, of 2 "[(0, [1, 2]), (1, [0, 0]), (5, [0, 3])]" 1]
  by (auto simp: blocks_ok_def IsZero_def)

end
