(* ===== verification/Serial.thy ===== *)
theory Serial
  imports Header
begin

text \<open>
  The binary formats of headers, versions 3 and 4:
  \<open>packages/shared/pkg/storage/header/serialization_v3.go\<close> and \<open>serialization_v4.go\<close>, with the section
  of builds that version 5 shares. The LZ4 library is a parameter: a compressor, and a decoder
  that maps compressed bytes to the stream it yields and the error the stream ends with, if
  any. The locale \<open>lz4\<close> states the documented round trip; a decoder that copies its input is
  the concrete instance.

  Writing to a \<open>bytes.Buffer\<close> does not fail, so the error branches after such writes have no
  counterpart; the results of the compressor can fail and do.
\<close>

section \<open>The compression library\<close>

record lz4_ops =
  lz_compress :: "bytes \<Rightarrow> bytes result"
  lz_decode :: "bytes \<Rightarrow> bytes \<times> error option"

locale lz4 =
  fixes lz :: lz4_ops
  assumes compress_total: "\<exists>c. lz_compress lz x = Inr c"
    and decode_compress: "lz_compress lz x = Inr c \<Longrightarrow> lz_decode lz c = (x, None)"

definition copy_lz4 :: lz4_ops where
  "copy_lz4 = \<lparr>lz_compress = Inr, lz_decode = (\<lambda>b. (b, None))\<rparr>"

interpretation copylz: lz4 copy_lz4
  by unfold_locales (simp_all add: copy_lz4_def)

definition compressLZ4 :: "lz4_ops \<Rightarrow> bytes \<Rightarrow> bytes result" where
  "compressLZ4 lz data = lz_compress lz data"

text \<open>\<open>io.CopyN\<close> of at most \<open>expected + 1\<close> bytes; the end of the stream before that is not an error.\<close>

definition decompressLZ4 :: "lz4_ops \<Rightarrow> bytes \<Rightarrow> int \<Rightarrow> bytes result" where
  "decompressLZ4 lz src expected =
     (case lz_decode lz src of (out, err) \<Rightarrow>
        if int (length out) \<ge> expected + 1 then Inr (take (nat (expected + 1)) out)
        else (case err of None \<Rightarrow> Inr out
              | Some e \<Rightarrow> if e = EOF then Inr out else Inl e))"

context lz4
begin

lemma decompress_compress:
  "compressLZ4 lz x = Inr c \<Longrightarrow> decompressLZ4 lz c (int (length x)) = Inr x"
  by (simp add: compressLZ4_def decompressLZ4_def decode_compress)

end

section \<open>Records\<close>

definition v4SizePrefixLen :: nat where "v4SizePrefixLen = 4"
definition v4FlagsLen :: nat where "v4FlagsLen = 1"
definition v4MaxUncompressedHeaderSize :: int where "v4MaxUncompressedHeaderSize = 268435456"
definition v4FlagIncomplete :: byte where "v4FlagIncomplete = 1"
definition v4BuildInfoSize :: int where "v4BuildInfoSize = 56"
definition v4MappingSize :: int where "v4MappingSize = 40"
definition frameTableHeaderSize :: int where "frameTableHeaderSize = 8"

text \<open>\<open>v3SerializableBuildMap\<close> and \<open>v4SerializableBuildMap\<close> have the same layout.\<close>

definition put_BuildMap :: "BuildMap \<Rightarrow> bytes" where
  "put_BuildMap m = put_u64 (Offset m) @ put_u64 (Length m) @ put_uuid (BuildId m) @
     put_u64 (BuildStorageOffset m)"

definition dec_BuildMap :: "bytes \<Rightarrow> BuildMap" where
  "dec_BuildMap b =
     \<lparr>Offset = le_int (take 8 b), Length = le_int (take 8 (drop 8 b)),
      BuildId = dec_uuid (take 16 (drop 16 b)), BuildStorageOffset = le_int (take 8 (drop 32 b))\<rparr>"

record v4SerializableBuildInfo =
  bi_BuildId :: uuid
  bi_FileSize :: int
  bi_Checksum :: checksum

definition put_BuildInfo :: "v4SerializableBuildInfo \<Rightarrow> bytes" where
  "put_BuildInfo e = put_uuid (bi_BuildId e) @ put_u64 (bi_FileSize e) @ put_checksum (bi_Checksum e)"

definition dec_BuildInfo :: "bytes \<Rightarrow> v4SerializableBuildInfo" where
  "dec_BuildInfo b =
     \<lparr>bi_BuildId = dec_uuid (take 16 b), bi_FileSize = dec_i64 (take 8 (drop 16 b)),
      bi_Checksum = dec_checksum (take 32 (drop 24 b))\<rparr>"

interpretation mdc: sized_codec 64 put_Metadata dec_Metadata
  "\<lambda>m. u64_ok (Version m) \<and> u64_ok (md_BlockSize m) \<and> u64_ok (md_Size m) \<and> u64_ok (Generation m)"
  by unfold_locales
    (simp_all add: put_Metadata_def dec_Metadata_def u64c.put_size uuidc.put_size u64c.dec_put uuidc.dec_put)

interpretation bmc: sized_codec 40 put_BuildMap dec_BuildMap bm_u64
  by unfold_locales
    (simp_all add: put_BuildMap_def dec_BuildMap_def u64c.put_size uuidc.put_size u64c.dec_put uuidc.dec_put
      bm_u64_def)

interpretation bic: sized_codec 56 put_BuildInfo dec_BuildInfo "\<lambda>e. i64_ok (bi_FileSize e)"
  by unfold_locales
    (simp_all add: put_BuildInfo_def dec_BuildInfo_def u64c.put_size uuidc.put_size checksumc.put_size
      i64c.dec_put uuidc.dec_put checksumc.dec_put)

section \<open>Version 3 (serialization_v3.go)\<close>

definition serializeV3 :: "Metadata \<Rightarrow> Mapping \<Rightarrow> bytes result" where
  "serializeV3 metadata mappings =
     Inr (put_Metadata metadata @ put_many put_BuildMap (map snd (All mappings)))"

function readV3_loop :: "bytes \<Rightarrow> BuildMap list result" where
  "readV3_loop r =
     (case binary_read 40 dec_BuildMap r of
        Inl e \<Rightarrow> if e = EOF then Inr [] else Inl e
      | Inr (m, r') \<Rightarrow> bindR (readV3_loop r') (\<lambda>ms. Inr (m # ms)))"
  by pat_completeness auto
termination
proof (relation "measure length")
  fix r x m r'
  assume "binary_read 40 dec_BuildMap r = Inr x" "(m, r') = x"
  then show "(r', r) \<in> measure length"
    by (auto simp: binary_read_def bindR_eq_Inr read_full_Inr)
qed simp

declare readV3_loop.simps [simp del]

definition deserializeV3 :: "Metadata \<Rightarrow> bytes \<Rightarrow> Header result" where
  "deserializeV3 metadata blockData =
     bindR (readV3_loop blockData) (\<lambda>mappings. NewHeader metadata mappings)"

section \<open>Version 4 (serialization_v4.go)\<close>

text \<open>The ranges of a build that the mapping references, in the order of the mapping; a build that
  is not referenced has none.\<close>

definition extractRelevantRanges :: "Mapping \<Rightarrow> uuid \<Rightarrow> SRange list" where
  "extractRelevantRanges mappings i =
     map (\<lambda>m. \<lparr>srOffset = i64 (BuildStorageOffset m), srLength = i64 (Length m)\<rparr>)
       (filter (\<lambda>m. BuildId m = i) (map snd (All mappings)))"

definition put_build :: "builds \<Rightarrow> (uuid \<Rightarrow> SRange list) \<Rightarrow> uuid \<Rightarrow> bytes" where
  "put_build bs buildRanges i =
     (case map_of bs i of
        None \<Rightarrow> []
      | Some bd \<Rightarrow>
          put_BuildInfo \<lparr>bi_BuildId = i, bi_FileSize = bd_Size bd, bi_Checksum = bd_Checksum bd\<rparr> @
          Serialize (TrimToRanges (bd_FrameData bd) (buildRanges i)))"

definition writeV4BuildsSection :: "builds option \<Rightarrow> Mapping \<Rightarrow> bytes" where
  "writeV4BuildsSection builds mapping =
     (let bs = (case builds of None \<Rightarrow> [] | Some bs \<Rightarrow> bs);
          buildIDs = sort (remdups (map fst bs))
      in put_u32 (int (length buildIDs)) @
         put_many (put_build bs (extractRelevantRanges mapping)) buildIDs)"

definition get_build :: "bytes \<Rightarrow> ((uuid \<times> BuildData) \<times> bytes) result" where
  "get_build r =
     bindR (binary_read 56 dec_BuildInfo r) (\<lambda>(e, r1).
     bindR (DeserializeFrameTable r1) (\<lambda>(ft, r2).
       Inr ((bi_BuildId e, \<lparr>bd_Size = bi_FileSize e, bd_Checksum = bi_Checksum e, bd_FrameData = ft\<rparr>), r2)))"

definition readV4BuildsSection :: "bytes \<Rightarrow> (builds option \<times> bytes) result" where
  "readV4BuildsSection r =
     bindR (get_u32 r) (\<lambda>(numBuilds, r1).
       if numBuilds = 0 then Inr (None, r1)
       else if numBuilds > int (length r1) div (v4BuildInfoSize + frameTableHeaderSize)
         then Inl (Err ''build count exceeds remaining bytes'')
       else bindR (get_many get_build (nat numBuilds) r1) (\<lambda>(bs, r2).
              Inr (Some (foldl (\<lambda>m (i, bd). AList.update i bd m) [] bs), r2)))"

text \<open>The frame of versions 4 and 5: metadata, flags, uncompressed size, compressed block.\<close>

definition assemble :: "lz4_ops \<Rightarrow> Metadata \<Rightarrow> bytes \<Rightarrow> bool \<Rightarrow> (bytes \<times> int) result" where
  "assemble lz metadata blockBytes incomplete =
     bindR (compressLZ4 lz blockBytes) (\<lambda>compressed.
       let flags = (if incomplete then v4FlagIncomplete else 0)
       in Inr (put_Metadata metadata @ [flags] @ put_u32 (int (length blockBytes)) @ compressed,
               int (length blockBytes)))"

definition disassemble :: "lz4_ops \<Rightarrow> bytes \<Rightarrow> (bool \<times> bytes) result" where
  "disassemble lz blockData =
     (if length blockData < v4FlagsLen + v4SizePrefixLen
      then Inl (Err ''header block too short for flags + size prefix'')
      else let flags = blockData ! 0;
               sz = le_int (take 4 (drop v4FlagsLen blockData))
           in if sz > v4MaxUncompressedHeaderSize then Inl (Err ''header uncompressed size exceeds cap'')
              else bindR (decompressLZ4 lz (drop (v4FlagsLen + v4SizePrefixLen) blockData) sz)
                (\<lambda>decompressed.
                   if int (length decompressed) \<noteq> sz then Inl (Err ''header decompressed size != prefix'')
                   else Inr (and flags v4FlagIncomplete \<noteq> 0, decompressed)))"

definition v4_block :: "builds option \<Rightarrow> Mapping \<Rightarrow> bytes" where
  "v4_block builds mappings =
     writeV4BuildsSection builds mappings @ put_u32 (int (Len mappings)) @
     put_many put_BuildMap (map snd (All mappings))"

definition serializeV4 ::
  "lz4_ops \<Rightarrow> Metadata \<Rightarrow> builds option \<Rightarrow> Mapping \<Rightarrow> bool \<Rightarrow> (bytes \<times> int) result" where
  "serializeV4 lz metadata builds mappings incomplete =
     assemble lz metadata (v4_block builds mappings) incomplete"

definition deserializeV4 :: "lz4_ops \<Rightarrow> Metadata \<Rightarrow> bytes \<Rightarrow> Header result" where
  "deserializeV4 lz metadata blockData =
     bindR (disassemble lz blockData) (\<lambda>(incomplete, decompressed).
     bindR (readV4BuildsSection decompressed) (\<lambda>(builds, r1).
     bindR (get_u32 r1) (\<lambda>(numMappings, r2).
       if numMappings > int (length r2) div v4MappingSize
       then Inl (Err ''mapping count exceeds remaining bytes'')
       else bindR (get_many (binary_read 40 dec_BuildMap) (nat numMappings) r2) (\<lambda>(mappings, _).
            bindR (NewHeader metadata mappings) (\<lambda>h.
              Inr (h\<lparr>h_Builds := builds, h_Incomplete := incomplete\<rparr>))))))"

section \<open>Round trip of the mappings\<close>

lemma All_Slice [simp]: "map snd (All m) = Slice m"
  by (simp add: All_def Slice_def)

lemma readV3_loop_put: "\<forall>m \<in> set ms. bm_u64 m \<Longrightarrow> readV3_loop (put_many put_BuildMap ms) = Inr ms"
proof (induction ms)
  case Nil
  show ?case by (simp add: readV3_loop.simps [of "[]"] binary_read_def read_full_def)
next
  case (Cons m ms)
  then show ?case
    by (subst readV3_loop.simps) (simp add: bmc.read_put)
qed

lemma pages_ok_u64: "pages_ok ms \<Longrightarrow> \<forall>m \<in> set ms. bm_u64 m"
  using page_ok_fits by (auto simp: pages_ok_def)

text \<open>A header that reads back the same entries.\<close>

lemma NewHeader_reload:
  assumes "header_wf h" "0 < md_Size (h_Metadata h)"
  obtains c where "NewHeader (h_Metadata h) (Slice (h_Mapping h)) =
      Inr \<lparr>h_Metadata = h_Metadata h, h_Builds = None, h_Mapping = c, h_Incomplete = False\<rparr>"
    and "Slice c = Slice (h_Mapping h)" "cm_wf c" "m_blockSize c = PageSize"
proof -
  let ?c = "h_Mapping h"
  have wf: "cm_wf ?c" and p: "pages_ok (Slice ?c)" and b: "md_BlockSize (h_Metadata h) \<noteq> 0"
    and t: "tiles 0 (Slice ?c) (md_Size (h_Metadata h))"
    using assms(1) by (simp_all add: header_wf_def)
  have ne: "Slice ?c \<noteq> []" using t assms(2) by auto
  have "card (BuildId ` set (Slice ?c) - {uuid_Nil}) \<le> card (set (m_builds ?c))"
    using slice_ids [OF wf] by (intro card_mono) auto
  also have "\<dots> \<le> length (m_builds ?c)" by (rule card_length)
  also have "\<dots> \<le> 65535" using wf by (simp add: cm_wf_def maxBuildsPerHeader_def nilBuildIdx_def)
  finally have "card (BuildId ` set (Slice ?c) - {uuid_Nil}) \<le> 65535" .
  from NewHeader_pages [OF b ne p this] that show thesis by blast
qed

section \<open>Round trip of the builds section\<close>

definition ft_wf :: "FrameTable option \<Rightarrow> bool" where
  "ft_wf ft = (case ft of None \<Rightarrow> True
     | Some t \<Rightarrow> entries_ok (entries t) \<and> int (length (entries t)) \<le> maxDeserializedFrames)"

definition builds_wf :: "builds \<Rightarrow> bool" where
  "builds_wf bs \<longleftrightarrow> (\<forall>(i, bd) \<in> set bs. i64_ok (bd_Size bd) \<and> ft_wf (bd_FrameData bd)) \<and>
     length bs < 4294967296"

text \<open>What a reader finds for a build: its frame table trimmed to the ranges the mapping references.\<close>

definition stored_build :: "Mapping \<Rightarrow> uuid \<Rightarrow> BuildData \<Rightarrow> BuildData" where
  "stored_build m i bd =
     bd\<lparr>bd_FrameData := canonical (TrimToRanges (bd_FrameData bd) (extractRelevantRanges m i))\<rparr>"

lemma extracted_range_ok: "pages_ok (Slice m) \<Longrightarrow> \<forall>r \<in> set (extractRelevantRanges m i). range_ok r"
proof
  fix r assume p: "pages_ok (Slice m)" and "r \<in> set (extractRelevantRanges m i)"
  then obtain e where e: "e \<in> set (Slice m)"
    and r: "r = \<lparr>srOffset = i64 (BuildStorageOffset e), srLength = i64 (Length e)\<rparr>"
    by (auto simp: extractRelevantRanges_def)
  have "page_ok e" using p e by (simp add: pages_ok_def)
  then have b: "0 \<le> BuildStorageOffset e" "0 \<le> Length e" "BuildStorageOffset e + Length e \<le> 17592186040320"
    by (simp_all add: page_ok_def)
  then have "i64 (BuildStorageOffset e) = BuildStorageOffset e" "i64 (Length e) = Length e"
    by (intro i64_id; linarith)+
  with b show "range_ok r" by (simp add: r range_ok_def)
qed

lemma ft_wf_trim:
  assumes "ft_wf ft" "\<forall>r \<in> set rs. range_ok r"
  shows "ft_wf (TrimToRanges ft rs)"
proof (cases ft)
  case None
  then show ?thesis by (simp add: TrimToRanges_def ft_wf_def)
next
  case (Some t)
  show ?thesis
  proof (cases "rs = []")
    case True
    then show ?thesis using Some assms(1) by (simp add: TrimToRanges_def)
  next
    case False
    have ok: "entries_ok (entries t)" using assms(1) Some by (simp add: ft_wf_def)
    let ?P = "\<lambda>e. \<exists>r \<in> set rs. meets e r"
    have "int (length (filter ?P (entries t))) \<le> int (length (entries t))"
      unfolding of_nat_le_iff by (rule length_filter_le)
    moreover have "int (length (entries t)) \<le> maxDeserializedFrames"
      using assms(1) Some by (simp add: ft_wf_def)
    ultimately have "int (length (filter ?P (entries t))) \<le> maxDeserializedFrames" by (rule order_trans)
    then show ?thesis
      using TrimToRanges_eq [OF ok assms(2) False] Some ok by (simp add: ft_wf_def entries_ok_filter)
  qed
qed

lemma get_build_put:
  assumes "builds_wf bs" "map_of bs i = Some bd" "pages_ok (Slice m)"
  shows "get_build (put_build bs (extractRelevantRanges m) i @ rest) = Inr ((i, stored_build m i bd), rest)"
proof -
  have bd: "i64_ok (bd_Size bd)" "ft_wf (bd_FrameData bd)"
    using assms(1) map_of_SomeD [OF assms(2)] by (auto simp: builds_wf_def)
  note ft = ft_wf_trim [OF bd(2) extracted_range_ok [OF assms(3), of i]]
  show ?thesis
    using bd(1) assms(2) Deserialize_Serialize [OF ft [unfolded ft_wf_def], of rest]
    by (simp add: get_build_def put_build_def bic.read_put stored_build_def)
qed

lemma length_Serialize: "8 \<le> length (Serialize ft)"
  by (auto simp: Serialize_def u32c.put_size split: option.split)

lemma length_put_builds:
  "\<forall>i \<in> set ids. map_of bs i \<noteq> None \<Longrightarrow> 64 * length ids \<le> length (put_many (put_build bs rngs) ids)"
proof (induction ids)
  case (Cons i ids)
  then obtain bd where "map_of bs i = Some bd" by auto
  then have "64 \<le> length (put_build bs rngs i)"
    using length_Serialize [of "TrimToRanges (bd_FrameData bd) (rngs i)"]
    by (simp add: put_build_def bic.put_size)
  with Cons show ?case by simp
qed simp

lemma foldl_update_map_of:
  "distinct (map fst xs) \<Longrightarrow>
   map_of (foldl (\<lambda>m (i, bd). AList.update i bd m) acc xs) = map_of acc ++ map_of xs"
proof (induction xs arbitrary: acc)
  case (Cons x xs)
  then have "fst x \<notin> dom (map_of xs)" by (simp add: dom_map_of_conv_image_fst)
  with Cons show ?case
    by (auto simp: update_conv' map_add_upd_left fun_eq_iff map_add_def domIff split: option.splits prod.splits)
qed simp

lemma map_of_map_key:
  "map_of (map (\<lambda>i. (i, g i)) ids) i = (if i \<in> set ids then Some (g i) else None)"
  by (induction ids) auto

lemma builds_section_roundtrip:
  assumes "case b of None \<Rightarrow> True | Some bs \<Rightarrow> builds_wf bs" "pages_ok (Slice m)"
  obtains b' where "readV4BuildsSection (writeV4BuildsSection b m @ rest) = Inr (b', rest)"
    and "\<And>i. (case b' of None \<Rightarrow> None | Some bs' \<Rightarrow> map_of bs' i) =
        map_option (stored_build m i) (case b of None \<Rightarrow> None | Some bs \<Rightarrow> map_of bs i)"
proof -
  let ?bs = "case b of None \<Rightarrow> [] | Some bs \<Rightarrow> bs"
  let ?ids = "sort (remdups (map fst ?bs))"
  let ?rngs = "extractRelevantRanges m"
  let ?g = "\<lambda>i. (i, stored_build m i (the (map_of ?bs i)))"
  have wf: "builds_wf ?bs" using assms(1) by (cases b) (simp_all add: builds_wf_def)
  have mem: "map_of ?bs i \<noteq> None \<longleftrightarrow> i \<in> set ?ids" for i
    by (simp add: map_of_eq_None_iff)
  have look: "(case b of None \<Rightarrow> None | Some bs \<Rightarrow> map_of bs i) = map_of ?bs i" for i
    by (cases b) simp_all
  have len: "length ?ids < 4294967296"
    using wf length_remdups_leq [of "map fst ?bs"] by (simp add: builds_wf_def)
  have get: "get_many get_build (length ?ids) (put_many (put_build ?bs ?rngs) ?ids @ rest) =
      Inr (map ?g ?ids, rest)"
  proof (rule get_many_view, intro ballI allI)
    fix i rest assume "i \<in> set ?ids"
    then obtain bd where "map_of ?bs i = Some bd" using mem [of i] by auto
    then show "get_build (put_build ?bs ?rngs i @ rest) = Inr (?g i, rest)"
      using get_build_put [OF wf _ assms(2), of i bd rest] by simp
  qed
  have size: "64 * length ?ids \<le> length (put_many (put_build ?bs ?rngs) ?ids)"
    using mem by (intro length_put_builds) blast
  show thesis
  proof (cases "?ids = []")
    case True
    then have "readV4BuildsSection (writeV4BuildsSection b m @ rest) = Inr (None, rest)"
      unfolding readV4BuildsSection_def writeV4BuildsSection_def Let_def True
      by (simp add: u32c.read_put)
    moreover have "map_of ?bs i = None" for i using mem [of i] True by (metis empty_iff list.set(1))
    ultimately show thesis using that [of None] look by simp
  next
    case False
    let ?b' = "foldl (\<lambda>m (i, bd). AList.update i bd m) [] (map ?g ?ids)"
    have count: "int (length ?ids) \<le> int (length (put_many (put_build ?bs ?rngs) ?ids @ rest)) div 64"
      using size by (simp add: le_div_iff)
    have u: "u32_ok (int (length ?ids))" using len by simp
    have pos: "int (length ?ids) \<noteq> 0" using False by (simp only: length_0_conv of_nat_eq_0_iff) simp
    have r: "readV4BuildsSection (writeV4BuildsSection b m @ rest) = Inr (Some ?b', rest)"
      unfolding readV4BuildsSection_def writeV4BuildsSection_def Let_def append_assoc
        u32c.read_put [OF u]
      using count pos get by (simp add: v4BuildInfoSize_def frameTableHeaderSize_def)
    have "distinct (map fst (map ?g ?ids))" by (simp add: comp_def)
    then have "map_of ?b' = map_of (map ?g ?ids)" by (subst foldl_update_map_of) simp_all
    then have "map_of ?b' i = map_option (stored_build m i) (map_of ?bs i)" for i
      using mem [of i] map_of_map_key [of "\<lambda>i. stored_build m i (the (map_of ?bs i))" ?ids i] by auto
    then show thesis using that [OF r] look by simp
  qed
qed

section \<open>Round trip of versions 3 and 4\<close>

definition md_typed :: "Metadata \<Rightarrow> bool" where
  "md_typed m \<longleftrightarrow> u64_ok (Version m) \<and> u64_ok (md_BlockSize m) \<and> u64_ok (md_Size m) \<and> u64_ok (Generation m)"

lemma deserializeMetadata_put:
  "md_typed m \<Longrightarrow> deserializeMetadata (put_Metadata m) = Inr m"
  using mdc.read_put [of m "[]"] by (simp add: deserializeMetadata_def metadataSize_def md_typed_def)

lemma length_put_Metadata [simp]: "length (put_Metadata m) = 64"
  by (rule mdc.put_size)

context lz4
begin

lemma assemble_roundtrip:
  assumes "int (length bb) \<le> v4MaxUncompressedHeaderSize"
  obtains tail where "assemble lz md bb inc = Inr (put_Metadata md @ tail, int (length bb))"
    and "disassemble lz tail = Inr (inc, bb)"
proof -
  obtain c where c: "compressLZ4 lz bb = Inr c"
    using compress_total unfolding compressLZ4_def by blast
  let ?tail = "[if inc then v4FlagIncomplete else 0] @ put_u32 (int (length bb)) @ c"
  have u: "u32_ok (int (length bb))" using assms by (simp add: v4MaxUncompressedHeaderSize_def)
  have a: "assemble lz md bb inc = Inr (put_Metadata md @ ?tail, int (length bb))"
    by (simp add: assemble_def c Let_def)
  have "disassemble lz ?tail = Inr (inc, bb)"
    using assms decompress_compress [OF c] u32c.dec_put [OF u]
    by (simp add: disassemble_def v4FlagsLen_def v4SizePrefixLen_def u32c.put_size v4FlagIncomplete_def Let_def)
  with a that show thesis by blast
qed

end

lemma length_put_BuildMaps: "length (put_many put_BuildMap ms) = 40 * length ms"
  by (simp add: bmc.length_put_many)

lemma v4_body_roundtrip:
  assumes "header_wf h" "0 < md_Size (h_Metadata h)" "case h_Builds h of None \<Rightarrow> True | Some bs \<Rightarrow> builds_wf bs"
    and "disassemble lz tail = Inr (inc, v4_block (h_Builds h) (h_Mapping h))"
    and "Len (h_Mapping h) < 4294967296"
  shows "\<exists>h'. deserializeV4 lz (h_Metadata h) tail = Inr h' \<and> h_Metadata h' = h_Metadata h \<and>
    Slice (h_Mapping h') = Slice (h_Mapping h) \<and> cm_wf (h_Mapping h') \<and> m_blockSize (h_Mapping h') = PageSize \<and>
    h_Incomplete h' = inc \<and>
    (\<forall>i. build_data h' i = map_option (stored_build (h_Mapping h) i) (build_data h i))"
proof -
  let ?m = "h_Mapping h" let ?ms = "Slice ?m"
  have p: "pages_ok ?ms" using assms(1) by (simp add: header_wf_def)
  have len: "length ?ms = Len ?m" by (simp add: Slice_def)
  let ?rest = "put_u32 (int (Len ?m)) @ put_many put_BuildMap ?ms"
  from builds_section_roundtrip [OF assms(3) p, of ?rest] obtain b' where
    b': "readV4BuildsSection (writeV4BuildsSection (h_Builds h) ?m @ ?rest) = Inr (b', ?rest)"
    "\<And>i. (case b' of None \<Rightarrow> None | Some bs' \<Rightarrow> map_of bs' i) =
        map_option (stored_build ?m i) (case h_Builds h of None \<Rightarrow> None | Some bs \<Rightarrow> map_of bs i)" by blast
  have u: "u32_ok (int (Len ?m))" using assms(5) by simp
  have cnt: "get_u32 ?rest = Inr (int (Len ?m), put_many put_BuildMap ?ms)" by (rule u32c.read_put [OF u])
  have maps: "get_many (binary_read 40 dec_BuildMap) (Len ?m) (put_many put_BuildMap ?ms) = Inr (?ms, [])"
    using bmc.get_many_put [OF pages_ok_u64 [OF p], of "[]"] by (simp add: len)
  obtain c where c: "NewHeader (h_Metadata h) ?ms =
      Inr \<lparr>h_Metadata = h_Metadata h, h_Builds = None, h_Mapping = c, h_Incomplete = False\<rparr>"
    "Slice c = ?ms" "cm_wf c" "m_blockSize c = PageSize"
    using NewHeader_reload [OF assms(1,2)] by metis
  have "deserializeV4 lz (h_Metadata h) tail =
      Inr \<lparr>h_Metadata = h_Metadata h, h_Builds = b', h_Mapping = c, h_Incomplete = inc\<rparr>"
    unfolding deserializeV4_def assms(4) v4_block_def All_Slice
    using b'(1) cnt maps c(1)
    by (simp add: length_put_BuildMaps v4MappingSize_def len)
  then show ?thesis using c b'(2) by (simp add: build_data_def)
qed

lemma v3_body_roundtrip:
  assumes "header_wf h" "0 < md_Size (h_Metadata h)"
  shows "\<exists>h'. deserializeV3 (h_Metadata h) (put_many put_BuildMap (Slice (h_Mapping h))) = Inr h' \<and>
    h_Metadata h' = h_Metadata h \<and> Slice (h_Mapping h') = Slice (h_Mapping h) \<and>
    cm_wf (h_Mapping h') \<and> m_blockSize (h_Mapping h') = PageSize \<and>
    \<not> h_Incomplete h' \<and> h_Builds h' = None"
proof -
  have "pages_ok (Slice (h_Mapping h))" using assms(1) by (simp add: header_wf_def)
  then have r: "readV3_loop (put_many put_BuildMap (Slice (h_Mapping h))) = Inr (Slice (h_Mapping h))"
    by (intro readV3_loop_put pages_ok_u64)
  obtain c where "NewHeader (h_Metadata h) (Slice (h_Mapping h)) =
      Inr \<lparr>h_Metadata = h_Metadata h, h_Builds = None, h_Mapping = c, h_Incomplete = False\<rparr>"
    "Slice c = Slice (h_Mapping h)" "cm_wf c" "m_blockSize c = PageSize"
    using NewHeader_reload [OF assms] by metis
  with r show ?thesis by (simp add: deserializeV3_def)
qed

end
