(* ===== verification/SerialV5.thy ===== *)
theory SerialV5
  imports Serial
begin

text \<open>
  Version 5 of the header format, \<open>packages/shared/pkg/storage/header/serialization_v5.go\<close>: the
  mapping is written as columns of variable-length integers, without the holes, which the reader
  reconstructs. The result that matters: reading back a well-formed header gives a mapping with
  the same source for every byte.
\<close>

section \<open>Writing\<close>

definition maxV5MappingEntries :: int where "maxV5MappingEntries = 8388608"

text \<open>The values of a column at the entries that are not holes.\<close>

definition live :: "Mapping \<Rightarrow> int list \<Rightarrow> int list" where
  "live m col = map fst (filter (\<lambda>(v, bi). bi \<noteq> nilBuildIdx) (zip col (m_buildIdx m)))"

fun put_offset_deltas :: "int \<Rightarrow> int list \<Rightarrow> bytes" where
  "put_offset_deltas prevOffset [] = []"
| "put_offset_deltas prevOffset (off # offs) =
     put_uvarint (u64 (off - prevOffset)) @ put_offset_deltas off offs"

fun put_storage_deltas :: "int \<Rightarrow> int list \<Rightarrow> bytes" where
  "put_storage_deltas prevStorage [] = []"
| "put_storage_deltas prevStorage (s # ss) =
     put_varint (i64 (s - prevStorage)) @ put_storage_deltas s ss"

definition writeV5MappingSection :: "Mapping \<Rightarrow> bytes" where
  "writeV5MappingSection m =
     (let n = length (filter (\<lambda>bi. bi \<noteq> nilBuildIdx) (m_buildIdx m))
      in put_u32 (int (length (m_builds m))) @ put_many put_uuid (m_builds m) @
         put_u32 (int n) @
         put_offset_deltas 0 (live m (m_offsets m)) @
         put_many put_uvarint (live m (m_lengths m)) @
         put_storage_deltas 0 (live m (m_storage m)) @
         put_many put_uvarint (live m (m_buildIdx m)))"

definition v5_block :: "builds option \<Rightarrow> Mapping \<Rightarrow> bytes" where
  "v5_block builds mapping = writeV4BuildsSection builds mapping @ writeV5MappingSection mapping"

definition serializeV5 ::
  "lz4_ops \<Rightarrow> Metadata \<Rightarrow> builds option \<Rightarrow> Mapping \<Rightarrow> bool \<Rightarrow> (bytes \<times> int) result" where
  "serializeV5 lz metadata builds mapping incomplete =
     assemble lz metadata (v5_block builds mapping) incomplete"

section \<open>Reading\<close>

fun read_offsets :: "nat \<Rightarrow> int \<Rightarrow> bytes \<Rightarrow> (int list \<times> bytes) result" where
  "read_offsets 0 prevOffset r = Inr ([], r)"
| "read_offsets (Suc n) prevOffset r =
     bindR (get_uvarint r) (\<lambda>(d, r1).
       if d > maxBlockIdx then Inl (Err ''offset delta exceeds uint32'')
       else let prevOffset' = u64 (prevOffset + d)
            in if prevOffset' > maxBlockIdx then Inl (Err ''offset block exceeds uint32'')
               else bindR (read_offsets n prevOffset' r1) (\<lambda>(os, r2). Inr (u32 prevOffset' # os, r2)))"

fun read_lengths :: "nat \<Rightarrow> bytes \<Rightarrow> (int list \<times> bytes) result" where
  "read_lengths 0 r = Inr ([], r)"
| "read_lengths (Suc n) r =
     bindR (get_uvarint r) (\<lambda>(v, r1).
       if v > maxBlockIdx then Inl (Err ''length block exceeds uint32'')
       else bindR (read_lengths n r1) (\<lambda>(ls, r2). Inr (u32 v # ls, r2)))"

fun read_storage :: "nat \<Rightarrow> int \<Rightarrow> bytes \<Rightarrow> (int list \<times> bytes) result" where
  "read_storage 0 prevStorage r = Inr ([], r)"
| "read_storage (Suc n) prevStorage r =
     bindR (get_varint r) (\<lambda>(d, r1).
       let prevStorage' = i64 (prevStorage + d)
       in if prevStorage' < 0 \<or> prevStorage' > maxBlockIdx then Inl (Err ''storage block out of range'')
          else bindR (read_storage n prevStorage' r1) (\<lambda>(ss, r2). Inr (u32 prevStorage' # ss, r2)))"

fun read_indices :: "int \<Rightarrow> nat \<Rightarrow> bytes \<Rightarrow> (int list \<times> bytes) result" where
  "read_indices m 0 r = Inr ([], r)"
| "read_indices m (Suc n) r =
     bindR (get_uvarint r) (\<lambda>(v, r1).
       if v \<ge> m then Inl (Err ''build index out of range'')
       else bindR (read_indices m n r1) (\<lambda>(is, r2). Inr (u16 v # is, r2)))"

text \<open>An entry of the columns: offset, length and storage in blocks, and the build index.\<close>

type_synonym quad = "int \<times> int \<times> int \<times> int"

text \<open>The last loop of \<open>readV5MappingSection\<close>: the entries with the holes between them; \<open>current\<close> is
  the end of the entry before. (The loop before it only computes the capacity of the columns.)\<close>

fun rebuild :: "int \<Rightarrow> int \<Rightarrow> quad list \<Rightarrow> quad list result" where
  "rebuild sizeBlocks current [] =
     Inr (if current < sizeBlocks then [(current, u32 (u32 sizeBlocks - current), 0, nilBuildIdx)] else [])"
| "rebuild sizeBlocks current ((off, len, sto, bi) # es) =
     (if len = 0 then Inl (Err ''zero-length mapping'')
      else if off < current then Inl (Err ''mapping offset overlaps previous end'')
      else let gap = (if off > current then [(current, u32 (off - current), 0, nilBuildIdx)] else []);
               end' = u64 (off + len)
           in if end' > sizeBlocks then Inl (Err ''mapping end block exceeds size'')
              else bindR (rebuild sizeBlocks (u32 end') es) (\<lambda>qs. Inr (gap @ (off, len, sto, bi) # qs)))"

abbreviation q_off :: "quad \<Rightarrow> int" where "q_off q \<equiv> fst q"
abbreviation q_len :: "quad \<Rightarrow> int" where "q_len q \<equiv> fst (snd q)"
abbreviation q_sto :: "quad \<Rightarrow> int" where "q_sto q \<equiv> fst (snd (snd q))"
abbreviation q_bi :: "quad \<Rightarrow> int" where "q_bi q \<equiv> snd (snd (snd q))"

definition maxEntriesByMemory :: int where
  "maxEntriesByMemory = v4MaxUncompressedHeaderSize div (14 + 2 * 14)"

definition readV5MappingSection :: "bytes \<Rightarrow> int \<Rightarrow> int \<Rightarrow> Mapping result" where
  "readV5MappingSection r blockSize sz =
     (let sizeBlocks = (if sz mod blockSize \<noteq> 0 then sz div blockSize + 1 else sz div blockSize) in
      if sizeBlocks > maxBlockIdx then Inl (Err ''mapping size block exceeds uint32'')
      else bindR (get_u32 r) (\<lambda>(m, r1).
        if m > maxBuildsPerHeader then Inl (Err ''mapping build count exceeds maximum'')
        else if m > int (length r1) div 16 then Inl (Err ''mapping build count exceeds remaining bytes'')
        else bindR (get_many (binary_read 16 dec_uuid) (nat m) r1) (\<lambda>(builds, r2).
        bindR (get_u32 r2) (\<lambda>(n, r3).
          if n > maxV5MappingEntries then Inl (Err ''mapping count exceeds maximum'')
          else if n = 0 then
            (if sz = 0 then newMappingFromColumns blockSize builds [] [] [] []
             else newMappingFromColumns blockSize builds [0] [u32 sizeBlocks] [0] [nilBuildIdx])
          else if n > min (int (length r3) div 4) maxEntriesByMemory
            then Inl (Err ''mapping count exceeds remaining bytes'')
          else bindR (read_offsets (nat n) 0 r3) (\<lambda>(os, r4).
               bindR (read_lengths (nat n) r4) (\<lambda>(ls, r5).
               bindR (read_storage (nat n) 0 r5) (\<lambda>(ss, r6).
               bindR (read_indices m (nat n) r6) (\<lambda>(is, r7).
               bindR (rebuild sizeBlocks 0 (zip os (zip ls (zip ss is)))) (\<lambda>qs.
                 newMappingFromColumns blockSize builds (map q_off qs) (map q_len qs)
                   (map q_sto qs) (map q_bi qs))))))))))"

definition deserializeV5 :: "lz4_ops \<Rightarrow> Metadata \<Rightarrow> bytes \<Rightarrow> Header result" where
  "deserializeV5 lz metadata blockData =
     (if md_BlockSize metadata = 0 then Inl (Err ''v5 header has zero block size'')
      else bindR (disassemble lz blockData) (\<lambda>(incomplete, decompressed).
           bindR (readV4BuildsSection decompressed) (\<lambda>(builds, r1).
           bindR (readV5MappingSection r1 PageSize (md_Size metadata)) (\<lambda>mapping.
             Inr \<lparr>h_Metadata = metadata, h_Builds = builds, h_Mapping = mapping,
                  h_Incomplete = incomplete\<rparr>))))"

section \<open>Dispatch on the version (serialization.go)\<close>

definition metadataVersionMask :: int where "metadataVersionMask = 65535"

definition metadataFormatVersion :: "int \<Rightarrow> int" where
  "metadataFormatVersion version = and version metadataVersionMask"

definition SerializeHeader :: "lz4_ops \<Rightarrow> Header \<Rightarrow> bytes result" where
  "SerializeHeader lz h =
     (let v = metadataFormatVersion (Version (h_Metadata h)) in
      if v = 1 \<or> v = 2 \<or> v = 3 then serializeV3 (h_Metadata h) (h_Mapping h)
      else if v = MetadataVersionV4
        then bindR (serializeV4 lz (h_Metadata h) (h_Builds h) (h_Mapping h) (h_Incomplete h)) (\<lambda>(data, _). Inr data)
      else if v = MetadataVersionV5
        then bindR (serializeV5 lz (h_Metadata h) (h_Builds h) (h_Mapping h) (h_Incomplete h)) (\<lambda>(data, _). Inr data)
      else Inl (Err ''unsupported header version''))"

definition DeserializeBytes :: "lz4_ops \<Rightarrow> bytes \<Rightarrow> Header result" where
  "DeserializeBytes lz data =
     (if length data < metadataSize then Inl (Err ''header too short'')
      else bindR (deserializeMetadata (take metadataSize data)) (\<lambda>metadata.
        let blockData = drop metadataSize data; v = metadataFormatVersion (Version metadata)
        in if v = MetadataVersionV5 then deserializeV5 lz metadata blockData
           else if v = MetadataVersionV4 then deserializeV4 lz metadata blockData
           else if v = 1 \<or> v = 2 \<or> v = 3 then deserializeV3 metadata blockData
           else Inl (Err ''unsupported header version'')))"

section \<open>Reading back the columns\<close>

abbreviation block_ok :: "int \<Rightarrow> bool" where
  "block_ok x \<equiv> 0 \<le> x \<and> x \<le> maxBlockIdx"

lemma read_offsets_put:
  "sorted (prev # os) \<Longrightarrow> \<forall>x \<in> set (prev # os). block_ok x \<Longrightarrow>
   read_offsets (length os) prev (put_offset_deltas prev os @ rest) = Inr (os, rest)"
proof (induction os arbitrary: prev)
  case (Cons x os)
  have b: "0 \<le> prev" "prev \<le> x" "x \<le> 4294967295" using Cons.prems by (auto simp: maxBlockIdx_def)
  then have "u64 (x - prev) = x - prev" "u64 x = x" "u32 x = x"
    by (auto simp: u64_id u32_id)
  moreover have "u64_ok (x - prev)" using b by auto
  moreover have "read_offsets (length os) x (put_offset_deltas x os @ rest) = Inr (os, rest)"
    using Cons by auto
  ultimately show ?case using b by (simp add: uvarintc.get_put maxBlockIdx_def)
qed simp

lemma read_lengths_put:
  "\<forall>x \<in> set ls. block_ok x \<Longrightarrow>
   read_lengths (length ls) (put_many put_uvarint ls @ rest) = Inr (ls, rest)"
proof (induction ls)
  case (Cons x ls)
  then have "0 \<le> x" "x \<le> 4294967295" by (auto simp: maxBlockIdx_def)
  with Cons show ?case by (simp add: uvarintc.get_put maxBlockIdx_def u32_id)
qed simp

lemma read_storage_put:
  "\<forall>x \<in> set (prev # ss). block_ok x \<Longrightarrow>
   read_storage (length ss) prev (put_storage_deltas prev ss @ rest) = Inr (ss, rest)"
proof (induction ss arbitrary: prev)
  case (Cons x ss)
  have b: "0 \<le> prev" "prev \<le> 4294967295" "0 \<le> x" "x \<le> 4294967295"
    using Cons.prems by (auto simp: maxBlockIdx_def)
  then have "i64 (x - prev) = x - prev" "i64 x = x" "u32 x = x" "i64_ok (x - prev)"
    by (auto simp: i64_id u32_id)
  moreover have "read_storage (length ss) x (put_storage_deltas x ss @ rest) = Inr (ss, rest)"
    using Cons by auto
  ultimately show ?case using b by (simp add: varintc.get_put maxBlockIdx_def)
qed simp

lemma read_indices_put:
  "\<forall>x \<in> set bis. 0 \<le> x \<and> x < m \<Longrightarrow> m \<le> 65535 \<Longrightarrow>
   read_indices m (length bis) (put_many put_uvarint bis @ rest) = Inr (bis, rest)"
proof (induction bis)
  case (Cons x bis)
  then have "0 \<le> x" "x < m" "u64_ok x" "u16 x = x" by (auto simp: u16_id)
  with Cons show ?case by (simp add: uvarintc.get_put)
qed simp

lemma length_put_uvarint: "1 \<le> length (put_uvarint v)"
  by (subst put_uvarint.simps) simp

lemma length_columns:
  "length os \<le> length (put_offset_deltas p os)" "length ss \<le> length (put_storage_deltas p' ss)"
  "length ls \<le> length (put_many put_uvarint ls)"
proof -
  show "length os \<le> length (put_offset_deltas p os)"
  proof (induction os arbitrary: p)
    case (Cons x os)
    show ?case using Cons [of x] length_put_uvarint [of "u64 (x - p)"] by simp
  qed simp
  show "length ss \<le> length (put_storage_deltas p' ss)"
  proof (induction ss arbitrary: p')
    case (Cons x ss)
    show ?case
      using Cons [of x] length_put_uvarint [of "zigzag (i64 (x - p'))"] by (simp add: put_varint_def)
  qed simp
  show "length ls \<le> length (put_many put_uvarint ls)"
  proof (induction ls)
    case (Cons x ls)
    then show ?case using length_put_uvarint [of x] by simp
  qed simp
qed

section \<open>Entries as rows\<close>

definition quads :: "Mapping \<Rightarrow> quad list" where
  "quads m = zip (m_offsets m) (zip (m_lengths m) (zip (m_storage m) (m_buildIdx m)))"

definition row :: "uuid list \<Rightarrow> quad \<Rightarrow> BuildMap" where
  "row builds q = \<lparr>Offset = q_off q * 4096, Length = q_len q * 4096,
     BuildId = (if q_bi q \<noteq> nilBuildIdx then builds ! nat (q_bi q) else uuid_Nil),
     BuildStorageOffset = q_sto q * 4096\<rparr>"

lemma row_sel [simp]:
  "Offset (row builds q) = q_off q * 4096" "Length (row builds q) = q_len q * 4096"
  "BuildId (row builds q) = (if q_bi q \<noteq> nilBuildIdx then builds ! nat (q_bi q) else uuid_Nil)"
  "BuildStorageOffset (row builds q) = q_sto q * 4096"
  by (simp_all add: row_def)

definition quad_ok :: "nat \<Rightarrow> quad \<Rightarrow> bool" where
  "quad_ok n q \<longleftrightarrow> block_ok (q_off q) \<and> block_ok (q_len q) \<and> block_ok (q_sto q) \<and>
     0 \<le> q_bi q \<and> (q_bi q = nilBuildIdx \<or> q_bi q < int n)"

abbreviation of_quads :: "uuid list \<Rightarrow> quad list \<Rightarrow> Mapping" where
  "of_quads builds qs \<equiv> \<lparr>m_blockSize = PageSize, m_builds = builds, m_offsets = map q_off qs,
     m_lengths = map q_len qs, m_storage = map q_sto qs, m_buildIdx = map q_bi qs\<rparr>"

lemma page_mult: "block_ok x \<Longrightarrow> u64 (x * PageSize) = x * 4096"
  unfolding PageSize_def maxBlockIdx_def by (rule u64_id) auto

lemma Slice_of_quads: "\<forall>q \<in> set qs. quad_ok n q \<Longrightarrow> Slice (of_quads builds qs) = map (row builds) qs"
  by (induction qs) (auto simp: page_mult quad_ok_def row_def)

lemma of_quads_quads:
  assumes "cm_wf m" "m_blockSize m = PageSize"
  shows "m = of_quads (m_builds m) (quads m)" "\<forall>q \<in> set (quads m). quad_ok (length (m_builds m)) q"
    "length (quads m) = Len m"
proof -
  have l: "length (m_lengths m) = Len m" "length (m_storage m) = Len m" "length (m_buildIdx m) = Len m"
    "length (m_offsets m) = Len m"
    using assms(1) by (simp_all add: cm_wf_def Len_def)
  have z: "map snd (quads m) = zip (m_lengths m) (zip (m_storage m) (m_buildIdx m))"
    "map snd (zip (m_lengths m) (zip (m_storage m) (m_buildIdx m))) = zip (m_storage m) (m_buildIdx m)"
    using l by (simp_all add: quads_def)
  have c: "map q_off (quads m) = m_offsets m" "map q_len (quads m) = m_lengths m"
    "map q_sto (quads m) = m_storage m" "map q_bi (quads m) = m_buildIdx m"
  proof -
    show "map q_off (quads m) = m_offsets m" using l by (simp add: quads_def)
    have "map q_len (quads m) = map fst (map snd (quads m))" by simp
    then show "map q_len (quads m) = m_lengths m" unfolding z(1) using l by simp
    have "map q_sto (quads m) = map fst (map snd (map snd (quads m)))" by simp
    then show "map q_sto (quads m) = m_storage m" unfolding z using l by simp
    have "map q_bi (quads m) = map snd (map snd (map snd (quads m)))" by simp
    then show "map q_bi (quads m) = m_buildIdx m" unfolding z using l by simp
  qed
  show "m = of_quads (m_builds m) (quads m)" using c assms(2) by simp
  show "length (quads m) = Len m" using l by (simp add: quads_def)
  show "\<forall>q \<in> set (quads m). quad_ok (length (m_builds m)) q"
  proof
    fix q assume "q \<in> set (quads m)"
    then have "q_off q \<in> set (m_offsets m)" "q_len q \<in> set (m_lengths m)"
      "q_sto q \<in> set (m_storage m)" "q_bi q \<in> set (m_buildIdx m)"
      unfolding c [symmetric] by simp_all
    then show "quad_ok (length (m_builds m)) q" using assms(1) by (auto simp: cm_wf_def quad_ok_def)
  qed
qed

abbreviation live_rows :: "quad list \<Rightarrow> quad list" where
  "live_rows qs \<equiv> filter (\<lambda>q. q_bi q \<noteq> nilBuildIdx) qs"

lemma live_of_quads:
  "live (of_quads builds qs) (map f qs) = map f (live_rows qs)"
  by (induction qs) (simp_all add: live_def)

lemma zip_rows: "zip (map q_off qs) (zip (map q_len qs) (zip (map q_sto qs) (map q_bi qs))) = qs"
  by (induction qs) simp_all

section \<open>Reconstructing the holes\<close>

lemma rebuild_spec:
  assumes "\<forall>q \<in> set qs. quad_ok n q" "tiles (a * 4096) (map (row builds) qs) (zb * 4096)"
    and "0 \<le> cur" "cur \<le> a" "zb \<le> maxBlockIdx"
  shows "\<exists>rs. rebuild zb cur (live_rows qs) = Inr rs \<and> (\<forall>q \<in> set rs. quad_ok n q) \<and>
    (\<forall>q \<in> set rs. q \<in> set qs \<or> q_bi q = nilBuildIdx \<and> q_sto q = 0) \<and>
    tiles (cur * 4096) (map (row builds) rs) (zb * 4096) \<and> 
    (\<forall>x. src_at (map (row builds) rs) x =
      (if cur * 4096 \<le> x \<and> x < a * 4096 then Some (uuid_Nil, 0) else src_at (map (row builds) qs) x))"
  using assms
proof (induction qs arbitrary: a cur)
  case Nil
  then have a: "a = zb" by simp
  have "u32 zb = zb" "u32 (zb - cur) = zb - cur"
    using Nil.prems a by (auto simp: u32_id maxBlockIdx_def)
  then show ?case
    using Nil.prems a by (auto simp: quad_ok_def bm_src_def left_diff_distrib nilBuildIdx_def maxBlockIdx_def)
next
  case (Cons q qs)
  obtain o1 l s b where q: "q = (o1, l, s, b)" by (cases q) auto
  have qok: "quad_ok n q" and qs: "\<forall>q \<in> set qs. quad_ok n q" using Cons.prems(1) by auto
  have o1: "o1 = a" "0 < l" and t: "tiles ((a + l) * 4096) (map (row builds) qs) (zb * 4096)"
    using Cons.prems(2) by (auto simp: q distrib_right)
  have le: "a + l \<le> zb" using tiles_le [OF t] by simp
  show ?case
  proof (cases "b = nilBuildIdx")
    case True
    obtain rs where rs: "rebuild zb cur (live_rows qs) = Inr rs" "\<forall>q \<in> set rs. quad_ok n q"
      "\<forall>q \<in> set rs. q \<in> set qs \<or> q_bi q = nilBuildIdx \<and> q_sto q = 0"
      "tiles (cur * 4096) (map (row builds) rs) (zb * 4096)"
      "\<forall>x. src_at (map (row builds) rs) x =
      (if cur * 4096 \<le> x \<and> x < (a + l) * 4096 then Some (uuid_Nil, 0) else src_at (map (row builds) qs) x)"
      using Cons.IH [OF qs t Cons.prems(3) _ Cons.prems(5)] Cons.prems(4) o1 by auto
    have "(if cur * 4096 \<le> x \<and> x < (a + l) * 4096 then Some (uuid_Nil, 0) else src_at (map (row builds) qs) x) =
      (if cur * 4096 \<le> x \<and> x < a * 4096 then Some (uuid_Nil, 0) else src_at (map (row builds) (q # qs)) x)" for x
      using True Cons.prems(4) o1 by (auto simp: q bm_src_def distrib_right)
    with rs(1,4,5) True rs(2) show ?thesis using rs(3) by (auto simp: q)
  next
    case False
    have empty: "\<not> ((a + l) * 4096 \<le> x \<and> x < (a + l) * 4096)" for x by simp
    have "0 \<le> a + l" using Cons.prems(3,4) o1 by simp
    from Cons.IH [OF qs t this order_refl Cons.prems(5), unfolded if_not_P [OF empty]]
    obtain rs where rs: "rebuild zb (a + l) (live_rows qs) = Inr rs" "\<forall>q \<in> set rs. quad_ok n q"
      "\<forall>q \<in> set rs. q \<in> set qs \<or> q_bi q = nilBuildIdx \<and> q_sto q = 0"
      "tiles ((a + l) * 4096) (map (row builds) rs) (zb * 4096)"
      "\<forall>x. src_at (map (row builds) rs) x = src_at (map (row builds) qs) x"
      by blast
    let ?gap = "if a > cur then [(cur, a - cur, 0, nilBuildIdx)] else []"
    have u: "u64 (a + l) = a + l" "u32 (a + l) = a + l" "u32 (a - cur) = a - cur"
      using Cons.prems(3-5) o1 le by (auto simp: u64_id u32_id maxBlockIdx_def)
    have r: "rebuild zb cur (live_rows (q # qs)) = Inr (?gap @ q # rs)"
      using False o1 le Cons.prems(4) rs(1) u by (simp add: q)
    have ok: "\<forall>q \<in> set (?gap @ q # rs). quad_ok n q"
      using qok rs(2) Cons.prems(3-5) le o1 by (auto simp: quad_ok_def maxBlockIdx_def nilBuildIdx_def)
    have t': "tiles (cur * 4096) (map (row builds) (?gap @ q # rs)) (zb * 4096)"
      using rs(4) o1 Cons.prems(4) by (auto simp: q left_diff_distrib distrib_right)
    have "src_at (map (row builds) (?gap @ q # rs)) x =
      (if cur * 4096 \<le> x \<and> x < a * 4096 then Some (uuid_Nil, 0) else src_at (map (row builds) (q # qs)) x)" for x
      using rs(5) o1 Cons.prems(4) by (auto simp: q bm_src_def left_diff_distrib)
    moreover have "\<forall>q' \<in> set (?gap @ q # rs). q' \<in> set (q # qs) \<or> q_bi q' = nilBuildIdx \<and> q_sto q' = 0"
      using rs(3) by auto
    ultimately show ?thesis using r ok t' by blast
  qed
qed

lemma rows_end_dvd: "tiles a (map (row builds) qs) z \<Longrightarrow> 4096 dvd a \<Longrightarrow> 4096 dvd z"
proof (induction qs arbitrary: a)
  case (Cons q qs)
  have "4096 dvd bm_end (row builds q)" using Cons.prems by auto
  then show ?case using Cons.IH [of "bm_end (row builds q)"] Cons.prems(1) by auto
qed simp

lemma offsets_sorted:
  "tiles a (map (row builds) qs) z \<Longrightarrow> sorted (map q_off qs) \<and> (\<forall>q \<in> set qs. a \<le> q_off q * 4096 \<and> 0 < q_len q)"
proof (induction qs arbitrary: a)
  case (Cons q qs)
  then have q: "q_off q * 4096 = a" "0 < q_len q" "tiles (bm_end (row builds q)) (map (row builds) qs) z"
    by auto
  note IH = Cons.IH [OF q(3)]
  have "q_off q \<le> q_off q'" "a \<le> q_off q' * 4096" if "q' \<in> set qs" for q'
    using IH that q(1,2) by fastforce+
  with IH q show ?case by auto
qed simp

lemma v5_columns_roundtrip:
  assumes "\<forall>q \<in> set L. quad_ok k q \<and> q_bi q \<noteq> nilBuildIdx" "sorted (map q_off L)" "k \<le> 65535"
  shows "read_offsets (length L) 0 (put_offset_deltas 0 (map q_off L) @ r) = Inr (map q_off L, r)"
    "read_lengths (length L) (put_many put_uvarint (map q_len L) @ r) = Inr (map q_len L, r)"
    "read_storage (length L) 0 (put_storage_deltas 0 (map q_sto L) @ r) = Inr (map q_sto L, r)"
    "read_indices (int k) (length L) (put_many put_uvarint (map q_bi L) @ r) = Inr (map q_bi L, r)"
proof -
  have "\<forall>x \<in> set (map q_off L). block_ok x" "\<forall>x \<in> set (map q_len L). block_ok x"
    "\<forall>x \<in> set (map q_sto L). block_ok x" "\<forall>x \<in> set (map q_bi L). 0 \<le> x \<and> x < int k"
    using assms(1) by (auto simp: quad_ok_def)
  moreover from this(1) assms(2) have "sorted (0 # map q_off L)" by auto
  moreover have "block_ok 0" by (simp add: maxBlockIdx_def)
  ultimately show "read_offsets (length L) 0 (put_offset_deltas 0 (map q_off L) @ r) = Inr (map q_off L, r)"
    "read_lengths (length L) (put_many put_uvarint (map q_len L) @ r) = Inr (map q_len L, r)"
    "read_storage (length L) 0 (put_storage_deltas 0 (map q_sto L) @ r) = Inr (map q_sto L, r)"
    "read_indices (int k) (length L) (put_many put_uvarint (map q_bi L) @ r) = Inr (map q_bi L, r)"
    using read_offsets_put [of 0 "map q_off L" r] read_lengths_put [of "map q_len L" r]
      read_storage_put [of 0 "map q_sto L" r] read_indices_put [of "map q_bi L" "int k" r] assms(3)
    by auto
qed

text \<open>The mapping that a reader reconstructs from the entries \<open>qs\<close> over \<open>zb\<close> blocks.\<close>

lemma read_write_v5:
  assumes "\<forall>q \<in> set qs. quad_ok (length builds) q" "length builds \<le> 65535"
    and "tiles 0 (map (row builds) qs) (zb * 4096)" "0 < zb" "zb \<le> maxBlockIdx"
    and "int (length (live_rows qs)) \<le> maxEntriesByMemory"
    and "rebuild zb 0 (live_rows qs) = Inr rs" "\<forall>q \<in> set rs. quad_ok (length builds) q"
  shows "readV5MappingSection (writeV5MappingSection (of_quads builds qs)) PageSize (zb * 4096) =
    Inr (of_quads builds rs)"
proof -
  define L where "L = live_rows qs"
  define r7 where "r7 = put_many put_uvarint (map q_bi L)"
  define r6 where "r6 = put_storage_deltas 0 (map q_sto L) @ r7"
  define r5 where "r5 = put_many put_uvarint (map q_len L) @ r6"
  define r4 where "r4 = put_offset_deltas 0 (map q_off L) @ r5"
  define r3 where "r3 = put_u32 (int (length L)) @ r4"
  define r2 where "r2 = put_many put_uuid builds @ r3"
  have n: "int (length L) \<le> 6391320" "int (length L) \<le> maxEntriesByMemory"
    using assms(6) by (simp_all add: L_def maxEntriesByMemory_def v4MaxUncompressedHeaderSize_def)
  have m: "int (length builds) \<le> maxBuildsPerHeader"
    using assms(2) by (simp add: maxBuildsPerHeader_def nilBuildIdx_def)
  have w: "writeV5MappingSection (of_quads builds qs) = put_u32 (int (length builds)) @ r2"
    using live_of_quads [of builds qs q_off] live_of_quads [of builds qs q_len]
      live_of_quads [of builds qs q_sto] live_of_quads [of builds qs q_bi]
    by (simp add: writeV5MappingSection_def Let_def filter_map comp_def r2_def r3_def r4_def r5_def
        r6_def r7_def L_def)
  have sorted: "sorted (map q_off L)"
    using offsets_sorted [OF assms(3)] by (auto simp: L_def sorted_map intro: sorted_wrt_filter)
  have "\<forall>q \<in> set L. quad_ok (length builds) q \<and> q_bi q \<noteq> nilBuildIdx" using assms(1) by (auto simp: L_def)
  note cols = v5_columns_roundtrip [OF this sorted assms(2)]
  have get: "get_u32 (put_u32 (int (length builds)) @ r2) = Inr (int (length builds), r2)"
    "get_many (binary_read 16 dec_uuid) (length builds) r2 = Inr (builds, r3)"
    "get_u32 r3 = Inr (int (length L), r4)"
    "read_offsets (length L) 0 r4 = Inr (map q_off L, r5)" "read_lengths (length L) r5 = Inr (map q_len L, r6)"
    "read_storage (length L) 0 r6 = Inr (map q_sto L, r7)"
    "read_indices (int (length builds)) (length L) r7 = Inr (map q_bi L, [])"
    using cols(1) [of r5] cols(2) [of r6] cols(3) [of r7] cols(4) [of "[]"] n(1) assms(2)
      uuidc.get_many_put [of builds r3]
    by (simp_all add: r2_def r3_def r4_def r5_def r6_def r7_def u32c.read_put)
  have l16: "\<not> int (length builds) > int (length r2) div 16"
    by (simp add: r2_def uuidc.length_put_many not_less le_div_iff)
  have "4 * length L \<le> length r4"
    using length_columns(1) [of "map q_off L" 0] length_columns(2) [of "map q_sto L" 0]
      length_columns(3) [of "map q_len L"] length_columns(3) [of "map q_bi L"]
    by (simp add: r4_def r5_def r6_def r7_def)
  then have cnt: "\<not> int (length L) > min (int (length r4) div 4) maxEntriesByMemory"
    using n(2) by (auto simp: not_less le_div_iff)
  have col: "newMappingFromColumns PageSize builds (map q_off rs) (map q_len rs) (map q_sto rs) (map q_bi rs) =
      Inr (of_quads builds rs)"
    using assms(8) by (auto simp: newMappingFromColumns_def quad_ok_def Let_def)
  have sb: "zb * 4096 mod PageSize = 0" "zb * 4096 div PageSize = zb" by (simp_all add: PageSize_def)
  have empty: "newMappingFromColumns PageSize builds [0] [u32 zb] [0] [nilBuildIdx] = Inr (of_quads builds rs)"
    if "L = []"
    using that assms(4,5,7) by (auto simp: L_def newMappingFromColumns_def Let_def u32_id maxBlockIdx_def)
  have max: "\<not> maxV5MappingEntries < int (length L)" "\<not> maxBlockIdx < zb" "\<not> maxBuildsPerHeader < int (length builds)"
    using n(1) assms(5) m by (simp_all add: maxV5MappingEntries_def)
  have rows: "zip (map q_off L) (zip (map q_len L) (zip (map q_sto L) (map q_bi L))) = L" by (rule zip_rows)
  show ?thesis
    unfolding w readV5MappingSection_def Let_def
    using get l16 cnt empty sb assms(4,7) col max rows by (cases "L = []") (simp_all add: L_def [symmetric])
qed

lemma v5_mapping_roundtrip:
  assumes "header_wf h" "0 < md_Size (h_Metadata h)"
    and "int (length (live_rows (quads (h_Mapping h)))) \<le> maxEntriesByMemory"
  shows "\<exists>m'. readV5MappingSection (writeV5MappingSection (h_Mapping h)) PageSize (md_Size (h_Metadata h)) = Inr m' \<and>
    cm_wf m' \<and> m_blockSize m' = PageSize \<and> tiles 0 (Slice m') (md_Size (h_Metadata h)) \<and>
    pages_ok (Slice m') \<and> nil_low (Slice m') \<and> src_at (Slice m') = src_at (Slice (h_Mapping h))"
proof -
  let ?m = "h_Mapping h" let ?z = "md_Size (h_Metadata h)" let ?qs = "quads ?m" let ?b = "m_builds ?m"
  have wf: "cm_wf ?m" "m_blockSize ?m = PageSize" "tiles 0 (Slice ?m) ?z" "pages_ok (Slice ?m)" "nil_low (Slice ?m)"
    using assms(1) by (simp_all add: header_wf_def)
  note q = of_quads_quads [OF wf(1,2)]
  have sl: "Slice ?m = map (row ?b) ?qs" using Slice_of_quads [OF q(2)] q(1) by metis
  have nb: "length ?b \<le> 65535" using wf(1) by (simp add: cm_wf_def maxBuildsPerHeader_def nilBuildIdx_def)
  have t: "tiles (0 * 4096) (map (row ?b) ?qs) ?z" using wf(3) by (simp add: sl)
  obtain zb where zb: "?z = zb * 4096" using rows_end_dvd [OF t] by (auto simp: dvd_def mult.commute)
  have zbound: "0 < zb" "zb \<le> maxBlockIdx"
    using assms(2) header_size_bound [OF assms(1,2)] zb by (auto simp: maxBlockIdx_def)
  have none: "\<not> ((0::int) * 4096 \<le> x \<and> x < 0 * 4096)" for x by simp
  from rebuild_spec [OF q(2) t [unfolded zb] order_refl order_refl zbound(2), unfolded if_not_P [OF none]]
  obtain rs where rs: "rebuild zb 0 (live_rows ?qs) = Inr rs" "\<forall>q \<in> set rs. quad_ok (length ?b) q"
      "\<forall>q \<in> set rs. q \<in> set ?qs \<or> q_bi q = nilBuildIdx \<and> q_sto q = 0"
      "tiles 0 (map (row ?b) rs) ?z" "\<forall>x. src_at (map (row ?b) rs) x = src_at (map (row ?b) ?qs) x"
    by (auto simp: zb)
  let ?m' = "of_quads ?b rs"
  have sl': "Slice ?m' = map (row ?b) rs" by (rule Slice_of_quads [OF rs(2)])
  have read: "readV5MappingSection (writeV5MappingSection ?m) PageSize ?z = Inr ?m'"
    using read_write_v5 [OF q(2) nb _ zbound assms(3) rs(1,2)] t zb q(1) by simp
  have each: "page_ok (row ?b r) \<and> (BuildId (row ?b r) = uuid_Nil \<longrightarrow> BuildStorageOffset (row ?b r) \<le> Offset (row ?b r))"
    if "r \<in> set rs" for r
  proof (cases "r \<in> set ?qs")
    case True
    then show ?thesis using wf(4,5) by (auto simp: sl pages_ok_def nil_low_def)
  next
    case False
    then have g: "q_bi r = nilBuildIdx" "q_sto r = 0" "quad_ok (length ?b) r" using that rs(2,3) by auto
    have "src_at (map (row ?b) rs) (bm_end (row ?b r) - 1) \<noteq> None"
      using that offsets_sorted [OF rs(4)] src_at_nth [OF tiles_sorted [OF rs(4)], of _ "bm_end (row ?b r) - 1"]
      by (force simp: in_set_conv_nth)
    then have "bm_end (row ?b r) - 1 < ?z" using tiles_src [OF rs(4)] by blast
    then show ?thesis
      using g header_size_bound [OF assms(1,2)] by (auto simp: page_ok_def quad_ok_def)
  qed
  have "cm_wf ?m'"
    using rs(2) nb by (auto simp: cm_wf_def Len_def quad_ok_def PageSize_def maxBuildsPerHeader_def nilBuildIdx_def)
  then show ?thesis
    using read rs(4,5) each by (auto simp: sl' sl [symmetric] pages_ok_def nil_low_def fun_eq_iff)
qed

section \<open>Storing and loading (serialization.go)\<close>

text \<open>The object store is a parameter: opening a blob, replacing its content and reading it. The
  locale \<open>blob_store\<close> states that a blob that was put is read back.\<close>

record ('s, 'o) storage_ops =
  st_OpenBlob :: "'s \<Rightarrow> string \<Rightarrow> 'o result"
  st_Put :: "'s \<Rightarrow> 'o \<Rightarrow> bytes \<Rightarrow> 's \<times> unit result"
  st_GetBlob :: "'s \<Rightarrow> 'o \<Rightarrow> bytes result"

locale blob_store =
  fixes st :: "('s, 'o) storage_ops"
  assumes get_after_put: "st_OpenBlob st s p = Inr b \<Longrightarrow> st_Put st s b data = (s', Inr ()) \<Longrightarrow>
      \<exists>b'. st_OpenBlob st s' p = Inr b' \<and> st_GetBlob st s' b' = Inr data"

definition map_store :: "(string \<rightharpoonup> bytes, string) storage_ops" where
  "map_store = \<lparr>st_OpenBlob = (\<lambda>s p. Inr p), st_Put = (\<lambda>s b data. (s(b \<mapsto> data), Inr ())),
     st_GetBlob = (\<lambda>s b. case s b of None \<Rightarrow> Inl (Err ''object does not exist'') | Some d \<Rightarrow> Inr d)\<rparr>"

interpretation mapst: blob_store map_store
  by unfold_locales (auto simp: map_store_def)

text \<open>The result of \<open>StoreHeader\<close>: compression type, stored and uncompressed byte counts.\<close>

definition StoreHeader ::
  "('s, 'o) storage_ops \<Rightarrow> lz4_ops \<Rightarrow> 's \<Rightarrow> string \<Rightarrow> Header option \<Rightarrow> 's \<times> (string \<times> int \<times> int) result" where
  "StoreHeader st lz s path ho =
     (case ho of None \<Rightarrow> (s, Inl (Err ''header is nil''))
      | Some h \<Rightarrow>
        if h_Incomplete h then (s, Inl (Err ''refusing to persist incomplete header''))
        else
          let v = metadataFormatVersion (Version (h_Metadata h));
              encoded =
                (if v = 1 \<or> v = 2 \<or> v = 3
                 then bindR (serializeV3 (h_Metadata h) (h_Mapping h)) (\<lambda>data.
                        Inr (data, [], int (length data)))
                 else if v = MetadataVersionV4 \<or> v = MetadataVersionV5
                 then bindR (if v = MetadataVersionV5
                             then serializeV5 lz (h_Metadata h) (h_Builds h) (h_Mapping h) (h_Incomplete h)
                             else serializeV4 lz (h_Metadata h) (h_Builds h) (h_Mapping h) (h_Incomplete h))
                        (\<lambda>(data, blockUncompressed).
                           if blockUncompressed > v4MaxUncompressedHeaderSize
                           then Inl (Err ''refusing to persist header: uncompressed block exceeds cap'')
                           else Inr (data, ct_String CompressionLZ4,
                                  int (metadataSize + v4FlagsLen + v4SizePrefixLen) + blockUncompressed))
                 else Inl (Err ''unsupported header version''))
          in (case encoded of
               Inl e \<Rightarrow> (s, Inl e)
             | Inr enc \<Rightarrow>
                 (case enc of (data, cfg, uncompressed) \<Rightarrow>
                   (case st_OpenBlob st s path of
                      Inl e \<Rightarrow> (s, Inl e)
                    | Inr blob \<Rightarrow>
                        (case st_Put st s blob data of (s', r) \<Rightarrow>
                          (case r of
                             Inl e \<Rightarrow> (s', Inl e)
                           | Inr _ \<Rightarrow> (s', Inr (cfg, int (length data), uncompressed))))))))"

fun backfill_loop :: "uuid list \<Rightarrow> builds option \<Rightarrow> builds option" where
  "backfill_loop [] bs = bs"
| "backfill_loop (bid # bids) bs =
     (if (case bs of None \<Rightarrow> False | Some l \<Rightarrow> map_of l bid \<noteq> None) then backfill_loop bids bs
      else backfill_loop bids (Some (AList.update bid
             \<lparr>bd_Size = 0, bd_Checksum = 0, bd_FrameData = None\<rparr>
             (case bs of None \<Rightarrow> [] | Some l \<Rightarrow> l))))"

definition backfillMissingV3UncompressedBuilds :: "Header \<Rightarrow> Header" where
  "backfillMissingV3UncompressedBuilds h = h\<lparr>h_Builds := backfill_loop (Builds (h_Mapping h)) (h_Builds h)\<rparr>"

definition LoadHeader ::
  "('s, 'o) storage_ops \<Rightarrow> lz4_ops \<Rightarrow> 's \<Rightarrow> string \<Rightarrow> (Header \<times> int) result" where
  "LoadHeader st lz s path =
     bindR (st_OpenBlob st s path) (\<lambda>blob.
     bindR (st_GetBlob st s blob) (\<lambda>data.
     bindR (DeserializeBytes lz data) (\<lambda>h.
       Inr (if \<not> h_Incomplete h then backfillMissingV3UncompressedBuilds h else h, int (length data)))))"

definition headerCodec :: "Header option \<Rightarrow> CompressionType" where
  "headerCodec ho =
     (case ho of None \<Rightarrow> CompressionNone
      | Some h \<Rightarrow>
          let v = metadataFormatVersion (Version (h_Metadata h))
          in if v = MetadataVersionV4 \<or> v = MetadataVersionV5 then CompressionLZ4 else CompressionNone)"

definition Deserialize :: "('s, 'o) storage_ops \<Rightarrow> lz4_ops \<Rightarrow> 's \<Rightarrow> 'o \<Rightarrow> Header result" where
  "Deserialize st lz s blob = bindR (st_GetBlob st s blob) (\<lambda>data. DeserializeBytes lz data)"

section \<open>Round trip of headers\<close>

text \<open>A header within the limits that the readers enforce: typed metadata, frame tables that can be
  read back, an inner block within the size cap and, for version 5, a bounded number of entries.\<close>

definition storable :: "Header \<Rightarrow> bool" where
  "storable h \<longleftrightarrow> header_wf h \<and> 0 < md_Size (h_Metadata h) \<and> md_typed (h_Metadata h) \<and>
     (case h_Builds h of None \<Rightarrow> True | Some bs \<Rightarrow> builds_wf bs) \<and>
     (let v = metadataFormatVersion (Version (h_Metadata h)) in
      v \<in> {1, 2, 3} \<or>
      v = MetadataVersionV4 \<and> int (length (v4_block (h_Builds h) (h_Mapping h))) \<le> v4MaxUncompressedHeaderSize \<or>
      v = MetadataVersionV5 \<and> int (length (v5_block (h_Builds h) (h_Mapping h))) \<le> v4MaxUncompressedHeaderSize \<and>
        int (length (live_rows (quads (h_Mapping h)))) \<le> maxEntriesByMemory)"

text \<open>What a reader of \<open>h\<close> finds: the same metadata and sources; from version 4 on also the pending
  flag and the build data, with frame tables trimmed to the referenced ranges.\<close>

definition reloads :: "Header \<Rightarrow> Header \<Rightarrow> bool" where
  "reloads h h' \<longleftrightarrow> header_wf h' \<and> h_Metadata h' = h_Metadata h \<and>
     src_at (Slice (h_Mapping h')) = src_at (Slice (h_Mapping h)) \<and>
     (metadataFormatVersion (Version (h_Metadata h)) \<notin> {1, 2, 3} \<longrightarrow>
        h_Incomplete h' = h_Incomplete h \<and>
        (\<forall>i. build_data h' i = map_option (stored_build (h_Mapping h) i) (build_data h i))) \<and>
     (metadataFormatVersion (Version (h_Metadata h)) \<in> {1, 2, 3} \<longrightarrow>
        \<not> h_Incomplete h' \<and> h_Builds h' = None)"

lemma DeserializeBytes_put:
  assumes "md_typed md"
  shows "DeserializeBytes lz (put_Metadata md @ tail) =
    (let v = metadataFormatVersion (Version md)
     in if v = MetadataVersionV5 then deserializeV5 lz md tail
        else if v = MetadataVersionV4 then deserializeV4 lz md tail
        else if v = 1 \<or> v = 2 \<or> v = 3 then deserializeV3 md tail
        else Inl (Err ''unsupported header version''))"
  using deserializeMetadata_put [OF assms] by (simp add: DeserializeBytes_def metadataSize_def Let_def)

lemma header_wf_same_slice:
  "header_wf h \<Longrightarrow> h_Metadata h' = h_Metadata h \<Longrightarrow> Slice (h_Mapping h') = Slice (h_Mapping h) \<Longrightarrow>
   cm_wf (h_Mapping h') \<Longrightarrow> m_blockSize (h_Mapping h') = PageSize \<Longrightarrow> header_wf h'"
  by (simp add: header_wf_def)

context lz4
begin

lemma v3_roundtrip:
  assumes "storable h" "metadataFormatVersion (Version (h_Metadata h)) \<in> {1, 2, 3}"
  shows "\<exists>data h'. SerializeHeader lz h = Inr data \<and> DeserializeBytes lz data = Inr h' \<and> reloads h h'"
proof -
  have wf: "header_wf h" "0 < md_Size (h_Metadata h)" "md_typed (h_Metadata h)"
    using assms(1) by (simp_all add: storable_def)
  have v: "metadataFormatVersion (Version (h_Metadata h)) \<noteq> 4" "metadataFormatVersion (Version (h_Metadata h)) \<noteq> 5"
    using assms(2) by auto
  let ?tail = "put_many put_BuildMap (Slice (h_Mapping h))"
  have s: "SerializeHeader lz h = Inr (put_Metadata (h_Metadata h) @ ?tail)"
    using assms(2) by (auto simp: SerializeHeader_def serializeV3_def Let_def)
  from v3_body_roundtrip [OF wf(1,2)] obtain h' where
    h': "deserializeV3 (h_Metadata h) ?tail = Inr h'" "h_Metadata h' = h_Metadata h"
      "Slice (h_Mapping h') = Slice (h_Mapping h)" "cm_wf (h_Mapping h')" "m_blockSize (h_Mapping h') = PageSize"
      "\<not> h_Incomplete h'" "h_Builds h' = None" by blast
  have "DeserializeBytes lz (put_Metadata (h_Metadata h) @ ?tail) = Inr h'"
    using h'(1) v assms(2) wf(3)
    by (auto simp: DeserializeBytes_put MetadataVersionV4_def MetadataVersionV5_def Let_def)
  moreover have "reloads h h'"
    using header_wf_same_slice [OF wf(1) h'(2-5)] h' assms(2) by (auto simp: reloads_def)
  ultimately show ?thesis using s by blast
qed

lemma v4_roundtrip:
  assumes "storable h" "metadataFormatVersion (Version (h_Metadata h)) = 4"
  shows "\<exists>data h'. SerializeHeader lz h = Inr data \<and> DeserializeBytes lz data = Inr h' \<and> reloads h h'"
proof -
  have wf: "header_wf h" "0 < md_Size (h_Metadata h)" "md_typed (h_Metadata h)"
      "case h_Builds h of None \<Rightarrow> True | Some bs \<Rightarrow> builds_wf bs"
    and cap: "int (length (v4_block (h_Builds h) (h_Mapping h))) \<le> v4MaxUncompressedHeaderSize"
    using assms by (auto simp: storable_def Let_def MetadataVersionV5_def)
  have len: "Len (h_Mapping h) < 4294967296"
    using cap length_put_BuildMaps [of "Slice (h_Mapping h)"]
    by (simp add: v4_block_def v4MaxUncompressedHeaderSize_def Slice_def)
  obtain tail where t: "assemble lz (h_Metadata h) (v4_block (h_Builds h) (h_Mapping h)) (h_Incomplete h) =
      Inr (put_Metadata (h_Metadata h) @ tail, int (length (v4_block (h_Builds h) (h_Mapping h))))"
    "disassemble lz tail = Inr (h_Incomplete h, v4_block (h_Builds h) (h_Mapping h))"
    using assemble_roundtrip [OF cap] by metis
  from v4_body_roundtrip [OF wf(1,2,4) t(2) len] obtain h' where
    h': "deserializeV4 lz (h_Metadata h) tail = Inr h'" "h_Metadata h' = h_Metadata h"
      "Slice (h_Mapping h') = Slice (h_Mapping h)" "cm_wf (h_Mapping h')" "m_blockSize (h_Mapping h') = PageSize"
      "h_Incomplete h' = h_Incomplete h"
      "\<forall>i. build_data h' i = map_option (stored_build (h_Mapping h) i) (build_data h i)" by blast
  have "SerializeHeader lz h = Inr (put_Metadata (h_Metadata h) @ tail)"
    using t(1) assms(2) by (simp add: SerializeHeader_def serializeV4_def MetadataVersionV4_def)
  moreover have "DeserializeBytes lz (put_Metadata (h_Metadata h) @ tail) = Inr h'"
    using h'(1) assms(2) wf(3) by (simp add: DeserializeBytes_put MetadataVersionV4_def MetadataVersionV5_def)
  moreover have "reloads h h'"
    using header_wf_same_slice [OF wf(1) h'(2-5)] h' assms(2) by (simp add: reloads_def)
  ultimately show ?thesis by blast
qed

lemma v5_roundtrip:
  assumes "storable h" "metadataFormatVersion (Version (h_Metadata h)) = 5"
  shows "\<exists>data h'. SerializeHeader lz h = Inr data \<and> DeserializeBytes lz data = Inr h' \<and> reloads h h'"
proof -
  let ?m = "h_Mapping h" let ?md = "h_Metadata h"
  have wf: "header_wf h" "0 < md_Size ?md" "md_typed ?md"
      "case h_Builds h of None \<Rightarrow> True | Some bs \<Rightarrow> builds_wf bs"
    and cap: "int (length (v5_block (h_Builds h) ?m)) \<le> v4MaxUncompressedHeaderSize"
    and n: "int (length (live_rows (quads ?m))) \<le> maxEntriesByMemory"
    using assms by (auto simp: storable_def Let_def MetadataVersionV4_def)
  have p: "pages_ok (Slice ?m)" and bs: "md_BlockSize ?md \<noteq> 0" using wf(1) by (simp_all add: header_wf_def)
  obtain tail where t: "assemble lz ?md (v5_block (h_Builds h) ?m) (h_Incomplete h) =
      Inr (put_Metadata ?md @ tail, int (length (v5_block (h_Builds h) ?m)))"
    "disassemble lz tail = Inr (h_Incomplete h, v5_block (h_Builds h) ?m)"
    using assemble_roundtrip [OF cap] by metis
  from builds_section_roundtrip [OF wf(4) p, of "writeV5MappingSection ?m"] obtain b' where
    b': "readV4BuildsSection (v5_block (h_Builds h) ?m) = Inr (b', writeV5MappingSection ?m)"
    "\<And>i. (case b' of None \<Rightarrow> None | Some bs' \<Rightarrow> map_of bs' i) =
        map_option (stored_build ?m i) (case h_Builds h of None \<Rightarrow> None | Some bs \<Rightarrow> map_of bs i)"
    unfolding v5_block_def by metis
  from v5_mapping_roundtrip [OF wf(1,2) n] obtain m' where
    m': "readV5MappingSection (writeV5MappingSection ?m) PageSize (md_Size ?md) = Inr m'"
      "cm_wf m'" "m_blockSize m' = PageSize" "tiles 0 (Slice m') (md_Size ?md)"
      "pages_ok (Slice m')" "nil_low (Slice m')" "src_at (Slice m') = src_at (Slice ?m)" by blast
  let ?h' = "\<lparr>h_Metadata = ?md, h_Builds = b', h_Mapping = m', h_Incomplete = h_Incomplete h\<rparr>"
  have "SerializeHeader lz h = Inr (put_Metadata ?md @ tail)"
    using t(1) assms(2) by (simp add: SerializeHeader_def serializeV5_def MetadataVersionV4_def MetadataVersionV5_def)
  moreover have "DeserializeBytes lz (put_Metadata ?md @ tail) = Inr ?h'"
    using assms(2) wf(3) bs t(2) b'(1) m'(1)
    by (simp add: DeserializeBytes_put MetadataVersionV5_def deserializeV5_def)
  moreover have "reloads h ?h'"
    using m' wf(1) b'(2) assms(2) by (simp add: reloads_def header_wf_def build_data_def)
  ultimately show ?thesis by blast
qed

lemma header_roundtrip:
  assumes "storable h"
  shows "\<exists>data h'. SerializeHeader lz h = Inr data \<and> DeserializeBytes lz data = Inr h' \<and> reloads h h'"
  using v3_roundtrip [OF assms] v4_roundtrip [OF assms] v5_roundtrip [OF assms] assms
  by (auto simp: storable_def Let_def MetadataVersionV4_def MetadataVersionV5_def)

end

text \<open>What \<open>StoreHeader\<close> puts is what \<open>SerializeHeader\<close> writes.\<close>

lemma StoreHeader_Inr:
  assumes "StoreHeader st lz s path (Some h) = (s', Inr r)"
  obtains data blob where "SerializeHeader lz h = Inr data" "st_OpenBlob st s path = Inr blob"
    "st_Put st s blob data = (s', Inr ())" "\<not> h_Incomplete h"
proof -
  let ?v = "metadataFormatVersion (Version (h_Metadata h))"
  have inc: "\<not> h_Incomplete h" using assms by (auto simp: StoreHeader_def split: if_splits)
  have v: "?v \<in> {1, 2, 3} \<or> ?v = MetadataVersionV4 \<or> ?v = MetadataVersionV5"
    using assms inc by (auto simp: StoreHeader_def Let_def split: if_splits)
  then have "\<exists>data blob. SerializeHeader lz h = Inr data \<and> st_OpenBlob st s path = Inr blob \<and>
      st_Put st s blob data = (s', Inr ())"
  proof (elim disjE)
    assume "?v \<in> {1, 2, 3}"
    then show ?thesis
      using assms inc by (auto simp: StoreHeader_def SerializeHeader_def serializeV3_def Let_def
        split: sum.splits prod.splits)
  next
    assume "?v = MetadataVersionV4"
    then show ?thesis
      using assms inc by (cases "serializeV4 lz (h_Metadata h) (h_Builds h) (h_Mapping h) (h_Incomplete h)")
        (auto simp: StoreHeader_def SerializeHeader_def Let_def MetadataVersionV4_def MetadataVersionV5_def
        split: sum.splits prod.splits if_splits)
  next
    assume "?v = MetadataVersionV5"
    then show ?thesis
      using assms inc by (cases "serializeV5 lz (h_Metadata h) (h_Builds h) (h_Mapping h) (h_Incomplete h)")
        (auto simp: StoreHeader_def SerializeHeader_def Let_def MetadataVersionV4_def MetadataVersionV5_def
        split: sum.splits prod.splits if_splits)
  qed
  with inc that show thesis by blast
qed

abbreviation lookup_build :: "builds option \<Rightarrow> uuid \<Rightarrow> BuildData option" where
  "lookup_build bs i \<equiv> (case bs of None \<Rightarrow> None | Some l \<Rightarrow> map_of l i)"

lemma lookup_build_update:
  "lookup_build (Some (AList.update j bd (case bs of None \<Rightarrow> [] | Some l \<Rightarrow> l))) i =
     (if i = j then Some bd else lookup_build bs i)"
  by (cases bs) (simp_all add: update_conv')

lemma backfill_loop_spec:
  "lookup_build (backfill_loop ids bs) i =
     (if lookup_build bs i = None \<and> i \<in> set ids
      then Some \<lparr>bd_Size = 0, bd_Checksum = 0, bd_FrameData = None\<rparr> else lookup_build bs i)"
proof (induction ids arbitrary: bs)
  case (Cons j ids)
  show ?case
  proof (cases "lookup_build bs j")
    case None
    then have "backfill_loop (j # ids) bs = backfill_loop ids (Some (AList.update j
        \<lparr>bd_Size = 0, bd_Checksum = 0, bd_FrameData = None\<rparr> (case bs of None \<Rightarrow> [] | Some l \<Rightarrow> l)))"
      by (auto split: option.splits)
    then show ?thesis using None by (simp only: Cons.IH lookup_build_update) auto
  next
    case (Some bd)
    then have "backfill_loop (j # ids) bs = backfill_loop ids bs" by (auto split: option.splits)
    then show ?thesis using Some by (simp only: Cons.IH) auto
  qed
qed simp

lemma v5_count_rejected_aux:
  assumes "length (m_builds m) \<le> 65535"
    and "maxEntriesByMemory < int (length (filter (\<lambda>bi. bi \<noteq> nilBuildIdx) (m_buildIdx m)))"
    and "int (length (filter (\<lambda>bi. bi \<noteq> nilBuildIdx) (m_buildIdx m))) < 4294967296"
  shows "\<exists>e. readV5MappingSection (writeV5MappingSection m) blockSize sz = Inl e"
proof -
  define n where "n = int (length (filter (\<lambda>bi. bi \<noteq> nilBuildIdx) (m_buildIdx m)))"
  obtain r4 where w: "writeV5MappingSection m =
      put_u32 (int (length (m_builds m))) @ put_many put_uuid (m_builds m) @ put_u32 n @ r4"
    by (simp add: writeV5MappingSection_def Let_def n_def)
  have n: "maxEntriesByMemory < n" "0 \<le> n \<and> n < 4294967296" using assms(2,3) by (simp_all add: n_def)
  then have n0: "n \<noteq> 0" by (auto simp: maxEntriesByMemory_def v4MaxUncompressedHeaderSize_def)
  have get: "get_u32 (put_u32 (int (length (m_builds m))) @ put_many put_uuid (m_builds m) @ put_u32 n @ r4) =
      Inr (int (length (m_builds m)), put_many put_uuid (m_builds m) @ put_u32 n @ r4)"
    "get_many (binary_read 16 dec_uuid) (length (m_builds m)) (put_many put_uuid (m_builds m) @ put_u32 n @ r4) =
      Inr (m_builds m, put_u32 n @ r4)"
    "get_u32 (put_u32 n @ r4) = Inr (n, r4)"
    using assms(1) n(2) uuidc.get_many_put [of "m_builds m" "put_u32 n @ r4"] by (simp_all add: u32c.read_put)
  show ?thesis
    unfolding w readV5MappingSection_def Let_def get(1)
    using n n0 get(2,3) by (auto simp: min_less_iff_disj)
qed

section \<open>Properties\<close>

text \<open>(C2) Every header within the readers' limits survives serialisation in each of the
  formats 3, 4 and 5: the bytes are read back to a well-formed header with the same metadata
  and the same source for every byte of the device; formats 4 and 5 also give back the pending
  flag and the build data with frame tables trimmed to the referenced ranges. The compression
  library is any one with the documented round trip.\<close>

theorem SerializeHeader_roundtrip:
  assumes "lz4 lz" "storable h"
  shows "\<exists>data h'. SerializeHeader lz h = Inr data \<and> DeserializeBytes lz data = Inr h' \<and> reloads h h'"
  by (rule lz4.header_roundtrip [OF assms])

definition example_v5 :: Header where
  "example_v5 = example_header\<lparr>h_Metadata := (h_Metadata example_header)\<lparr>Version := 5\<rparr>,
     h_Mapping := \<lparr>m_blockSize = 4096, m_builds = [1], m_offsets = [0, 1], m_lengths = [1, 3],
                   m_storage = [0, 2], m_buildIdx = [65535, 0]\<rparr>\<rparr>"

lemma example_v5_storable: "storable example_v5" "\<not> h_Incomplete example_v5"
proof -
  have d: "put_uvarint 0 = [0]" "put_uvarint 1 = [1]" "put_uvarint 3 = [3]" "put_varint 2 = [4]"
    by (simp_all add: put_uvarint.simps put_varint_def zigzag_eq)
  have "int (length (v5_block (h_Builds example_v5) (h_Mapping example_v5))) \<le> v4MaxUncompressedHeaderSize"
    by (simp add: example_v5_def example_header_def v5_block_def writeV4BuildsSection_def Let_def
        writeV5MappingSection_def live_def nilBuildIdx_def u64_def i64_def d u32c.put_size uuidc.put_size
        v4MaxUncompressedHeaderSize_def)
  moreover have "header_wf example_v5"
    by (simp add: example_v5_def example_header_def header_wf_def cm_wf_def Len_def maxBlockIdx_def nilBuildIdx_def
      maxBuildsPerHeader_def PageSize_def NormalizeFixVersion_def page_ok_def u64_def)
  moreover have "int (length (live_rows (quads (h_Mapping example_v5)))) \<le> maxEntriesByMemory"
    by (simp add: example_v5_def example_header_def quads_def nilBuildIdx_def maxEntriesByMemory_def
        v4MaxUncompressedHeaderSize_def)
  moreover have "metadataFormatVersion (Version (h_Metadata example_v5)) = MetadataVersionV5"
    by (simp add: example_v5_def example_header_def metadataFormatVersion_def metadataVersionMask_def
        MetadataVersionV5_def)
  ultimately show "storable example_v5"
    by (simp add: storable_def Let_def) (simp add: example_v5_def example_header_def md_typed_def)
  show "\<not> h_Incomplete example_v5" by (simp add: example_v5_def example_header_def)
qed

theorem SerializeHeader_roundtrip_witness:
  "\<exists>data h'. SerializeHeader copy_lz4 example_v5 = Inr data \<and> DeserializeBytes copy_lz4 data = Inr h' \<and>
     reloads example_v5 h'"
  by (rule SerializeHeader_roundtrip [OF copylz.lz4_axioms example_v5_storable(1)])

text \<open>A header that was stored can be loaded: after a successful \<open>StoreHeader\<close>, \<open>LoadHeader\<close> on the
  same path succeeds and returns a well-formed header with the same metadata and sources, in
  which every referenced build has an entry. A pending header is never persisted.\<close>

theorem store_then_load:
  assumes "lz4 lz" "blob_store st" "storable h" "StoreHeader st lz s path (Some h) = (s', Inr r)"
  shows "\<not> h_Incomplete h \<and>
    (\<exists>h' n. LoadHeader st lz s' path = Inr (h', n) \<and> header_wf h' \<and> h_Metadata h' = h_Metadata h \<and>
       src_at (Slice (h_Mapping h')) = src_at (Slice (h_Mapping h)) \<and>
       (\<forall>b \<in> build_ids h'. build_data h' b \<noteq> None))"
proof -
  obtain data blob where d: "SerializeHeader lz h = Inr data" "st_OpenBlob st s path = Inr blob"
    "st_Put st s blob data = (s', Inr ())" "\<not> h_Incomplete h"
    using StoreHeader_Inr [OF assms(4)] by metis
  obtain b' where b': "st_OpenBlob st s' path = Inr b'" "st_GetBlob st s' b' = Inr data"
    using blob_store.get_after_put [OF assms(2) d(2,3)] by blast
  obtain h1 where h1: "DeserializeBytes lz data = Inr h1" "reloads h h1"
    using lz4.header_roundtrip [OF assms(1,3)] d(1) by auto
  let ?h' = "backfillMissingV3UncompressedBuilds h1"
  have inc: "\<not> h_Incomplete h1" using h1(2) d(4) by (auto simp: reloads_def)
  have load: "LoadHeader st lz s' path = Inr (?h', int (length data))"
    using b' h1(1) inc by (simp add: LoadHeader_def)
  have wf: "cm_wf (h_Mapping h1)" using h1(2) by (simp add: reloads_def header_wf_def)
  have "\<forall>b \<in> build_ids ?h'. build_data ?h' b \<noteq> None"
    using slice_ids [OF wf]
    by (auto simp: backfill_loop_spec backfillMissingV3UncompressedBuilds_def build_data_def Builds_def)
  then show ?thesis
    using load d(4) h1(2)
    by (auto simp: reloads_def backfillMissingV3UncompressedBuilds_def header_wf_def)
qed

theorem store_then_load_witness:
  "\<exists>s' r h' n. StoreHeader map_store copy_lz4 Map.empty ''x'' (Some example_v5) = (s', Inr r) \<and>
     LoadHeader map_store copy_lz4 s' ''x'' = Inr (h', n) \<and> header_wf h'"
proof -
  obtain s' r where "StoreHeader map_store copy_lz4 Map.empty ''x'' (Some example_v5) = (s', Inr r)"
    using example_v5_storable
    by (auto simp: StoreHeader_def storable_def Let_def serializeV5_def serializeV4_def serializeV3_def assemble_def
        compressLZ4_def copy_lz4_def map_store_def MetadataVersionV4_def MetadataVersionV5_def)
  with store_then_load [OF copylz.lz4_axioms mapst.blob_store_axioms example_v5_storable(1) this]
  show ?thesis by blast
qed

text \<open>The writer of version 5 has no bound on the number of entries, but the reader has: a
  mapping with more than \<open>maxEntriesByMemory\<close> (6,391,320) entries that are not holes is written
  without complaint and rejected when it is read back, for every device size.\<close>

theorem v5_count_rejected:
  assumes "length (m_builds m) \<le> 65535"
    and "maxEntriesByMemory < int (length (filter (\<lambda>bi. bi \<noteq> nilBuildIdx) (m_buildIdx m)))"
    and "int (length (filter (\<lambda>bi. bi \<noteq> nilBuildIdx) (m_buildIdx m))) < 4294967296"
  shows "\<exists>e. readV5MappingSection (writeV5MappingSection m) blockSize sz = Inl e"
  using assms by (rule v5_count_rejected_aux)

theorem v5_count_rejected_witness:
  "\<exists>e. readV5MappingSection (writeV5MappingSection
     \<lparr>m_blockSize = 4096, m_builds = [1], m_offsets = map int [0..<6391321], m_lengths = replicate 6391321 1,
      m_storage = map int [0..<6391321], m_buildIdx = replicate 6391321 0\<rparr>) 4096 26178850816 = Inl e"
proof (rule v5_count_rejected)
  have "filter (\<lambda>bi. bi \<noteq> nilBuildIdx) (replicate n 0) = replicate n 0" for n
    by (simp add: nilBuildIdx_def filter_replicate)
  then show "maxEntriesByMemory < int (length (filter (\<lambda>bi. bi \<noteq> nilBuildIdx) (m_buildIdx
     \<lparr>m_blockSize = 4096, m_builds = [1], m_offsets = map int [0..<6391321], m_lengths = replicate 6391321 1,
      m_storage = map int [0..<6391321], m_buildIdx = replicate 6391321 0\<rparr>)))"
    and "int (length (filter (\<lambda>bi. bi \<noteq> nilBuildIdx) (m_buildIdx
     \<lparr>m_blockSize = 4096, m_builds = [1], m_offsets = map int [0..<6391321], m_lengths = replicate 6391321 1,
      m_storage = map int [0..<6391321], m_buildIdx = replicate 6391321 0\<rparr>))) < 4294967296"
    by (simp_all only: Mapping.simps length_replicate maxEntriesByMemory_def v4MaxUncompressedHeaderSize_def) simp_all
qed simp

end
