(* ===== verification/Tracker.thy ===== *)
theory Tracker
  imports Blocks
begin

text \<open>
  The block tracker of a cache, \<open>packages/orchestrator/pkg/sandbox/block/tracker.go\<close>: two bitmaps that
  record which blocks hold data and which are known to be zero. Each method runs under the
  mutex of the tracker, so it is one step on the pair of bitmaps. The abstraction \<open>state_of\<close> is a
  function from block indices to states; \<open>SetRange\<close> is its update on a range, the queries are
  its readings, and the two bitmaps stay disjoint, which \<open>Present\<close> relies on when it adds
  cardinalities. Also here: the tracker of block accesses for prefetching,
  \<open>block/prefetch_tracker.go\<close>.
\<close>

section \<open>The tracker\<close>

datatype State = NotPresent | Dirty | Zero

record 'b Tracker =
  t_dirty :: 'b
  t_zero :: 'b

definition NewTracker :: "'b bitmap_ops \<Rightarrow> 'b Tracker" where
  "NewTracker ops = \<lparr>t_dirty = bm_New ops, t_zero = bm_New ops\<rparr>"

definition SetRange :: "'b bitmap_ops \<Rightarrow> 'b Tracker \<Rightarrow> int \<Rightarrow> int \<Rightarrow> State \<Rightarrow> 'b Tracker" where
  "SetRange ops t start endi state =
     (if endi \<le> start then t
      else case state of
        Dirty \<Rightarrow> \<lparr>t_dirty = bm_AddRange ops (t_dirty t) start endi,
                  t_zero = bm_RemoveRange ops (t_zero t) start endi\<rparr>
      | Zero \<Rightarrow> \<lparr>t_dirty = bm_RemoveRange ops (t_dirty t) start endi,
                 t_zero = bm_AddRange ops (t_zero t) start endi\<rparr>
      | NotPresent \<Rightarrow> \<lparr>t_dirty = bm_RemoveRange ops (t_dirty t) start endi,
                       t_zero = bm_RemoveRange ops (t_zero t) start endi\<rparr>)"

definition Get :: "'b bitmap_ops \<Rightarrow> 'b Tracker \<Rightarrow> int \<Rightarrow> State" where
  "Get ops t idx =
     (if bm_Contains ops (t_dirty t) idx then Dirty
      else if bm_Contains ops (t_zero t) idx then Zero
      else NotPresent)"

definition HasRange :: "'b bitmap_ops \<Rightarrow> 'b Tracker \<Rightarrow> int \<Rightarrow> int \<Rightarrow> State \<Rightarrow> bool" where
  "HasRange ops t start endi state =
     (if endi \<le> start then endi = start
      else case state of
        Dirty \<Rightarrow> bm_CardinalityInRange ops (t_dirty t) start endi = u32 (endi - start)
      | Zero \<Rightarrow> bm_CardinalityInRange ops (t_zero t) start endi = u32 (endi - start)
      | NotPresent \<Rightarrow> False)"

definition Present :: "'b bitmap_ops \<Rightarrow> 'b Tracker \<Rightarrow> int \<Rightarrow> int \<Rightarrow> bool" where
  "Present ops t start endi =
     (if endi \<le> start then endi = start
      else u64 (bm_CardinalityInRange ops (t_dirty t) start endi +
                bm_CardinalityInRange ops (t_zero t) start endi) = u64 (endi - start))"

definition Export :: "'b Tracker \<Rightarrow> 'b \<times> 'b" where
  "Export t = (t_dirty t, t_zero t)"

section \<open>The tracker as a function from blocks to states\<close>

definition state_of :: "int set \<Rightarrow> int set \<Rightarrow> int \<Rightarrow> State" where
  "state_of D Z i = (if i \<in> D then Dirty else if i \<in> Z then Zero else NotPresent)"

abbreviation idx_range :: "int \<Rightarrow> int \<Rightarrow> bool" where
  "idx_range s e \<equiv> 0 \<le> s \<and> s < 4294967296 \<and> 0 \<le> e \<and> e < (4294967296::int)"

context roaring_bitmap
begin

definition tracker_ok :: "'b Tracker \<Rightarrow> bool" where
  "tracker_ok t \<longleftrightarrow> bset (t_dirty t) \<inter> bset (t_zero t) = {}"

definition tstate :: "'b Tracker \<Rightarrow> int \<Rightarrow> State" where
  "tstate t = state_of (bset (t_dirty t)) (bset (t_zero t))"

lemma NewTracker_spec: "tracker_ok (NewTracker ops)" "tstate (NewTracker ops) = (\<lambda>_. NotPresent)"
  by (auto simp: tracker_ok_def tstate_def state_of_def NewTracker_def bset_New)

lemma SetRange_spec:
  assumes "tracker_ok t" "idx_range s e"
  shows "tracker_ok (SetRange ops t s e st)"
    "tstate (SetRange ops t s e st) = (\<lambda>i. if s \<le> i \<and> i < e then st else tstate t i)"
proof -
  have "bset (bm_AddRange ops b s e) = bset b \<union> {s..<e}" "bset (bm_RemoveRange ops b s e) = bset b - {s..<e}" for b
    using assms(2) by (auto simp: bset_AddRange bset_RemoveRange)
  then show "tracker_ok (SetRange ops t s e st)"
    "tstate (SetRange ops t s e st) = (\<lambda>i. if s \<le> i \<and> i < e then st else tstate t i)"
    using assms(1) by (auto simp: SetRange_def tracker_ok_def tstate_def state_of_def fun_eq_iff split: State.split)
qed

lemma Get_spec: "0 \<le> i \<Longrightarrow> i < 4294967296 \<Longrightarrow> Get ops t i = tstate t i"
  by (simp add: Get_def tstate_def state_of_def Contains_iff)

lemma HasRange_spec:
  assumes "tracker_ok t" "idx_range s e" "s \<le> e" "st \<noteq> NotPresent"
  shows "HasRange ops t s e st \<longleftrightarrow> (\<forall>i. s \<le> i \<and> i < e \<longrightarrow> tstate t i = st)"
proof -
  have u: "u32 (e - s) = e - s" using assms(2,3) by (intro u32_id) auto
  have "bm_CardinalityInRange ops b s e = e - s \<longleftrightarrow> {s..<e} \<subseteq> bset b" for b
    using assms(2,3) by (intro full_count_iff) auto
  then show ?thesis
    using assms(1,3,4) u
    by (cases st) (auto simp: HasRange_def tstate_def state_of_def tracker_ok_def subset_iff split: if_splits)
qed

lemma Present_spec:
  assumes "tracker_ok t" "idx_range s e" "s \<le> e"
  shows "Present ops t s e \<longleftrightarrow> (\<forall>i. s \<le> i \<and> i < e \<longrightarrow> tstate t i \<noteq> NotPresent)"
proof -
  let ?D = "bset (t_dirty t) \<inter> {s..<e}" and ?Z = "bset (t_zero t) \<inter> {s..<e}"
  have c: "bm_CardinalityInRange ops (t_dirty t) s e + bm_CardinalityInRange ops (t_zero t) s e =
      int (card (?D \<union> ?Z))"
    using assms(1,2) by (subst card_Un_disjoint) (auto simp: CardinalityInRange_eq tracker_ok_def)
  have sub: "?D \<union> ?Z \<subseteq> {s..<e}" by auto
  then have le: "int (card (?D \<union> ?Z)) \<le> e - s"
    using card_mono [OF _ sub] assms(3) by simp
  have u: "u64 (int (card (?D \<union> ?Z))) = int (card (?D \<union> ?Z))" "u64 (e - s) = e - s"
    using le assms(2,3) by (auto intro!: u64_id)
  have "int (card (?D \<union> ?Z)) = e - s \<longleftrightarrow> ?D \<union> ?Z = {s..<e}"
  proof
    assume "int (card (?D \<union> ?Z)) = e - s"
    then have "card (?D \<union> ?Z) = card {s..<e}" by simp
    with sub show "?D \<union> ?Z = {s..<e}" by (intro card_subset_eq) auto
  qed (use assms(3) in simp)
  moreover have "?D \<union> ?Z = {s..<e} \<longleftrightarrow> (\<forall>i. s \<le> i \<and> i < e \<longrightarrow> tstate t i \<noteq> NotPresent)"
  proof -
    have "tstate t i \<noteq> NotPresent \<longleftrightarrow> i \<in> bset (t_dirty t) \<union> bset (t_zero t)" for i
      by (simp add: tstate_def state_of_def)
    then show ?thesis by (simp only: set_eq_iff) auto
  qed
  ultimately show ?thesis
    unfolding Present_def c u using assms(3) by (cases "s = e") simp_all
qed

end

section \<open>Prefetch data (prefetch\_tracker.go)\<close>

datatype AccessType = Read | Write | Prefetch

record PrefetchBlockEntry =
  pe_Index :: int
  pe_Order :: int
  pe_AccessType :: AccessType

record PrefetchTracker =
  pt_blockSize :: int
  pt_blockEntries :: "(int \<times> PrefetchBlockEntry) list"
  pt_orderCounter :: int
  pt_isTracking :: bool

definition NewPrefetchTracker :: "int \<Rightarrow> PrefetchTracker" where
  "NewPrefetchTracker blockSize =
     \<lparr>pt_blockSize = blockSize, pt_blockEntries = [], pt_orderCounter = 1, pt_isTracking = True\<rparr>"

definition PrefetchTracker_Add :: "PrefetchTracker \<Rightarrow> int \<Rightarrow> AccessType \<Rightarrow> PrefetchTracker" where
  "PrefetchTracker_Add t off accessType =
     (if \<not> pt_isTracking t then t
      else let idx = u64 (BlockIdx off (pt_blockSize t))
           in (case map_of (pt_blockEntries t) idx of
                 Some _ \<Rightarrow> t
               | None \<Rightarrow>
                   t\<lparr>pt_blockEntries := (idx, \<lparr>pe_Index = idx, pe_Order = pt_orderCounter t,
                        pe_AccessType = accessType\<rparr>) # pt_blockEntries t,
                     pt_orderCounter := u64 (pt_orderCounter t + 1)\<rparr>))"

definition PrefetchData :: "PrefetchTracker \<Rightarrow> PrefetchTracker \<times> (int \<times> PrefetchBlockEntry) list \<times> int" where
  "PrefetchData t = (t\<lparr>pt_isTracking := False\<rparr>, pt_blockEntries t, pt_blockSize t)"

text \<open>The entries are the accessed blocks, each once, numbered in the order of first access.\<close>

definition prefetch_ok :: "PrefetchTracker \<Rightarrow> bool" where
  "prefetch_ok t \<longleftrightarrow> distinct (map fst (pt_blockEntries t)) \<and>
     (\<forall>(i, e) \<in> set (pt_blockEntries t). pe_Index e = i) \<and>
     map (pe_Order \<circ> snd) (rev (pt_blockEntries t)) = [1..int (length (pt_blockEntries t))] \<and>
     pt_orderCounter t = int (length (pt_blockEntries t)) + 1"

lemma NewPrefetchTracker_ok: "prefetch_ok (NewPrefetchTracker bs)"
  by (simp add: prefetch_ok_def NewPrefetchTracker_def)

lemma PrefetchTracker_Add_ok:
  assumes "prefetch_ok t" "int (length (pt_blockEntries t)) < 18446744073709551614"
  shows "prefetch_ok (PrefetchTracker_Add t off a)"
proof -
  let ?n = "int (length (pt_blockEntries t))"
  have u: "u64 (pt_orderCounter t + 1) = ?n + 2"
    using assms by (simp add: prefetch_ok_def u64_id)
  have "[1..?n + 1] = [1..?n] @ [?n + 1]" by (simp add: upto_rec2)
  then show ?thesis
    using assms u by (auto simp: PrefetchTracker_Add_def prefetch_ok_def Let_def map_of_eq_None_iff
        add.commute split: option.split)
qed

lemma PrefetchTracker_Add_first:
  assumes "pt_isTracking t" "idx = u64 (BlockIdx off (pt_blockSize t))"
  shows "map_of (pt_blockEntries (PrefetchTracker_Add t off a)) =
    (case map_of (pt_blockEntries t) idx of
       Some e \<Rightarrow> map_of (pt_blockEntries t)
     | None \<Rightarrow> (map_of (pt_blockEntries t))(idx \<mapsto>
         \<lparr>pe_Index = idx, pe_Order = pt_orderCounter t, pe_AccessType = a\<rparr>))"
  using assms by (auto simp: PrefetchTracker_Add_def Let_def split: option.split)

section \<open>Properties\<close>

text \<open>The tracker is a function from blocks to states. Setting a range changes exactly the
  blocks of the range and keeps the two bitmaps disjoint; reading a block, and asking whether a
  range is in one state or has been observed at all, answer according to that function. The
  bitmaps are any that keep the documented laws of the bitmap library.\<close>

theorem Tracker_refines_states:
  assumes "roaring_bitmap ops bset" "bset (t_dirty t) \<inter> bset (t_zero t) = {}"
    and "0 \<le> s" "s \<le> e" "e < 4294967296" "0 \<le> i" "i < 4294967296"
  shows "bset (t_dirty (SetRange ops t s e st)) \<inter> bset (t_zero (SetRange ops t s e st)) = {} \<and>
    Get ops (SetRange ops t s e st) i = (if s \<le> i \<and> i < e then st else Get ops t i) \<and>
    (Present ops t s e \<longleftrightarrow> (\<forall>k. s \<le> k \<and> k < e \<longrightarrow> Get ops t k \<noteq> NotPresent)) \<and>
    (st \<noteq> NotPresent \<longrightarrow> (HasRange ops t s e st \<longleftrightarrow> (\<forall>k. s \<le> k \<and> k < e \<longrightarrow> Get ops t k = st)))"
proof -
  have ok: "roaring_bitmap.tracker_ok bset t"
    using assms(1,2) by (simp add: roaring_bitmap.tracker_ok_def)
  have r: "idx_range s e" using assms by auto
  have g: "Get ops t' k = roaring_bitmap.tstate bset t' k" if "0 \<le> k" "k < 4294967296" for t' k
    using roaring_bitmap.Get_spec [OF assms(1) that] .
  have gr: "(\<forall>k. s \<le> k \<and> k < e \<longrightarrow> P (Get ops t k)) \<longleftrightarrow>
      (\<forall>k. s \<le> k \<and> k < e \<longrightarrow> P (roaring_bitmap.tstate bset t k))" for P
    using g [of _ t] assms(3,5) by (metis dual_order.strict_trans order_trans)
  note sr = roaring_bitmap.SetRange_spec [OF assms(1) ok r, of st]
  show ?thesis
    using sr roaring_bitmap.Present_spec [OF assms(1) ok r assms(4)]
      roaring_bitmap.HasRange_spec [OF assms(1) ok r assms(4), of st] assms(1,6,7)
    by (simp add: g gr [of "\<lambda>x. x \<noteq> NotPresent"] gr [of "\<lambda>x. x = st"] roaring_bitmap.tracker_ok_def)
qed

theorem Tracker_refines_states_witness:
  "Get listbm_ops (SetRange listbm_ops (NewTracker listbm_ops) 2 5 Zero) 3 = Zero"
  using Tracker_refines_states [OF lbm.roaring_bitmap_axioms, of "NewTracker listbm_ops" 2 5 3 Zero]
  by (simp add: NewTracker_def listbm_ops_def listbm_set_def)

end
