(* ===== verification/Cache.thy ===== *)
theory Cache
  imports Tracker
begin

text \<open>
  The block cache and the overlay device of a sandbox:
  \<open>packages/orchestrator/pkg/sandbox/block/cache.go\<close> and \<open>overlay.go\<close>. The cache is a memory-mapped
  file with a tracker of which blocks it holds; the mapping is a list of bytes (\<open>None\<close> when the
  size is zero). Opening, truncating and mapping the file, unmapping and removing it are
  operations of the system and appear as parameters. Every method of the cache holds its mutex
  for its whole duration, so it is one step on the state; a read of the overlay takes it once for each
  block (\<open>read_block\<close>). \<open>MADV\_REMOVE\<close> and \<open>clear\<close> both leave
  zeros in the range.

  What is shown: a write is recorded exactly, with all-zero blocks as \<open>Zero\<close>; the overlay of a
  cache over a read-only device is a device whose content is changed by writes as a plain
  array would be, and read back accordingly.
\<close>

section \<open>Byte ranges of a buffer\<close>

definition sub :: "'a list \<Rightarrow> int \<Rightarrow> int \<Rightarrow> 'a list" where
  "sub b lo hi = take (nat (hi - lo)) (drop (nat lo) b)"

text \<open>The slice expression \<open>b[lo:hi]\<close>, on a buffer without spare capacity.\<close>

definition go_slice :: "'a list \<Rightarrow> int \<Rightarrow> int \<Rightarrow> 'a list result" where
  "go_slice b lo hi = (if 0 \<le> lo \<and> lo \<le> hi \<and> hi \<le> int (length b) then Inr (sub b lo hi) else Inl Panic)"

definition overwrite :: "'a list \<Rightarrow> int \<Rightarrow> 'a list \<Rightarrow> 'a list" where
  "overwrite m off d = take (nat off) m @ d @ drop (nat off + length d) m"

text \<open>Go's \<open>copy(dst, src)\<close>: the new destination and the count.\<close>

definition go_copy :: "'a list \<Rightarrow> 'a list \<Rightarrow> 'a list \<times> int" where
  "go_copy dst src =
     (let n = min (length dst) (length src) in (take n src @ drop n dst, int n))"

text \<open>The bytes of a function of offsets.\<close>

definition bytes_of :: "(int \<Rightarrow> byte) \<Rightarrow> int \<Rightarrow> nat \<Rightarrow> bytes" where
  "bytes_of f off n = map (\<lambda>k. f (off + int k)) [0..<n]"

section \<open>The cache (cache.go)\<close>

record 'b Cache =
  c_filePath :: string
  c_size :: int
  c_blockSize :: int
  c_mmap :: "bytes option"
  c_tracker :: "'b Tracker"
  c_dirtyFile :: bool
  c_closed :: bool

text \<open>\<open>map_file path size\<close> opens the file, sets its size and maps it.\<close>

definition NewCache ::
  "'b bitmap_ops \<Rightarrow> (string \<Rightarrow> int \<Rightarrow> bytes result) \<Rightarrow> int \<Rightarrow> int \<Rightarrow> string \<Rightarrow> bool \<Rightarrow> 'b Cache result" where
  "NewCache ops map_file sz blockSize filePath dirtyFile =
     bindR (map_file filePath sz) (\<lambda>m.
       Inr \<lparr>c_filePath = filePath, c_size = sz, c_blockSize = blockSize,
            c_mmap = (if sz = 0 then None else Some m), c_tracker = NewTracker ops,
            c_dirtyFile = dirtyFile, c_closed = False\<rparr>)"

definition isCached :: "'b bitmap_ops \<Rightarrow> 'b Cache \<Rightarrow> int \<Rightarrow> int \<Rightarrow> bool" where
  "isCached ops c off len =
     (let start = u32 (BlockIdx off (c_blockSize c));
          endi = u32 (BlockCeilIdx (min (i64 (off + len)) (c_size c)) (c_blockSize c))
      in Present ops (c_tracker c) start endi)"

definition setIsCached :: "'b bitmap_ops \<Rightarrow> 'b Cache \<Rightarrow> int \<Rightarrow> int \<Rightarrow> 'b Cache" where
  "setIsCached ops c off len =
     (let start = u32 (BlockIdx off (c_blockSize c));
          endi = u32 (BlockCeilIdx (i64 (off + len)) (c_blockSize c))
      in c\<lparr>c_tracker := SetRange ops (c_tracker c) start endi Dirty\<rparr>)"

definition Cache_Slice :: "'b bitmap_ops \<Rightarrow> 'b Cache \<Rightarrow> int \<Rightarrow> int \<Rightarrow> bytes result" where
  "Cache_Slice ops c off len =
     (if c_closed c then Inl CacheClosed
      else case c_mmap c of None \<Rightarrow> Inr []
      | Some m \<Rightarrow>
          if c_dirtyFile c \<or> isCached ops c off len
          then go_slice m off (min (i64 (off + len)) (c_size c))
          else Inl BytesNotAvailable)"

definition sliceDirect :: "'b Cache \<Rightarrow> int \<Rightarrow> int \<Rightarrow> bytes result" where
  "sliceDirect c off len =
     (if c_closed c then Inl CacheClosed
      else case c_mmap c of None \<Rightarrow> Inr []
      | Some m \<Rightarrow>
          if off < 0 \<or> off \<ge> c_size c then Inl BytesNotAvailable
          else go_slice m off (min (i64 (off + len)) (c_size c)))"

definition Cache_ReadAt :: "'b bitmap_ops \<Rightarrow> 'b Cache \<Rightarrow> bytes \<Rightarrow> int \<Rightarrow> (bytes \<times> int) result" where
  "Cache_ReadAt ops c b off =
     (case c_mmap c of None \<Rightarrow> Inr (b, 0)
      | Some _ \<Rightarrow>
          if c_closed c then Inl CacheClosed
          else bindR (Cache_Slice ops c off (int (length b))) (\<lambda>slice. Inr (go_copy b slice)))"

text \<open>One run of blocks of \<open>WriteAtWithoutLock\<close>: all zero or not.\<close>

definition flush ::
  "'b bitmap_ops \<Rightarrow> bytes \<Rightarrow> int \<Rightarrow> 'b Cache \<Rightarrow> int \<Rightarrow> int \<Rightarrow> bool \<Rightarrow> 'b Cache result" where
  "flush ops b off c runStart runEnd runZero =
     (let m = (case c_mmap c of None \<Rightarrow> [] | Some m \<Rightarrow> m);
          startIdx = u32 (BlockIdx runStart (c_blockSize c));
          endIdx = u32 (BlockCeilIdx runEnd (c_blockSize c))
      in if \<not> (0 \<le> runStart \<and> runStart \<le> runEnd \<and> runEnd \<le> int (length m)) then Inl Panic
         else if runZero
         then Inr (c\<lparr>c_mmap := Some (overwrite m runStart (replicate (nat (runEnd - runStart)) 0)),
                     c_tracker := SetRange ops (c_tracker c) startIdx endIdx Zero\<rparr>)
         else Inr (c\<lparr>c_mmap := Some (overwrite m runStart (sub b (runStart - off) (runEnd - off))),
                     c_tracker := SetRange ops (c_tracker c) startIdx endIdx Dirty\<rparr>))"

text \<open>The loop over the blocks of a write and the final flush. A block size of zero panics in the
  alignment check before the loop, and there are no negative ones.\<close>

function write_loop ::
  "'b bitmap_ops \<Rightarrow> bytes \<Rightarrow> int \<Rightarrow> int \<Rightarrow> int \<Rightarrow> 'b Cache \<Rightarrow> int \<Rightarrow> int \<Rightarrow> bool \<Rightarrow> 'b Cache result" where
  "write_loop ops b off blockSize endo c i runStart runZero =
     (if i < endo \<and> 0 < blockSize
      then let z = IsZero (sub b (i - off) (i - off + blockSize))
           in if z = runZero then write_loop ops b off blockSize endo c (i + blockSize) runStart runZero
              else bindR (flush ops b off c runStart i runZero) (\<lambda>c'.
                     write_loop ops b off blockSize endo c' (i + blockSize) i z)
      else flush ops b off c runStart endo runZero)"
  by pat_completeness auto
termination
  by (relation "measure (\<lambda>(ops, b, off, bs, endo, c, i, rs, rz). nat (endo - i))") auto

declare write_loop.simps [simp del]

definition WriteAtWithoutLock ::
  "'b bitmap_ops \<Rightarrow> 'b Cache \<Rightarrow> bytes \<Rightarrow> int \<Rightarrow> ('b Cache \<times> int) result" where
  "WriteAtWithoutLock ops c b off =
     (if c_closed c then Inl CacheClosed
      else if c_mmap c = None then Inr (c, 0)
      else if c_blockSize c = 0 then Inl Panic
      else if int (length b) smod c_blockSize c \<noteq> 0 \<or> off smod c_blockSize c \<noteq> 0
        then Inl (Err ''misaligned write'')
      else let endo = min (i64 (off + int (length b))) (c_size c)
           in if endo \<le> off then Inr (c, 0)
              else bindR (write_loop ops b off (c_blockSize c) endo c (off + c_blockSize c) off
                            (IsZero (sub b 0 (c_blockSize c))))
                     (\<lambda>c'. Inr (c', endo - off)))"

definition Cache_WriteAt :: "'b bitmap_ops \<Rightarrow> 'b Cache \<Rightarrow> bytes \<Rightarrow> int \<Rightarrow> ('b Cache \<times> int) result" where
  "Cache_WriteAt ops c b off =
     (if c_mmap c = None then Inr (c, 0)
      else if c_closed c then Inl CacheClosed
      else WriteAtWithoutLock ops c b off)"

definition Cache_WriteZeroesAt :: "'b bitmap_ops \<Rightarrow> 'b Cache \<Rightarrow> int \<Rightarrow> int \<Rightarrow> ('b Cache \<times> int) result" where
  "Cache_WriteZeroesAt ops c off len =
     (case c_mmap c of None \<Rightarrow> Inr (c, 0)
      | Some m \<Rightarrow>
          if c_closed c then Inl CacheClosed
          else let endo = min (i64 (off + len)) (c_size c)
               in if endo \<le> off then Inr (c, 0)
                  else if \<not> (0 \<le> off \<and> endo \<le> int (length m)) then Inl Panic
                  else Inr (c\<lparr>c_mmap := Some (overwrite m off (replicate (nat (endo - off)) 0)),
                              c_tracker := SetRange ops (c_tracker c)
                                (u32 (BlockIdx off (c_blockSize c)))
                                (u32 (BlockCeilIdx endo (c_blockSize c))) Zero\<rparr>, endo - off))"

text \<open>Closing: the results of unmapping and of removing the file are parameters; their errors are
  joined.\<close>

definition Cache_Close :: "unit result \<Rightarrow> unit result \<Rightarrow> 'b Cache \<Rightarrow> 'b Cache \<times> unit result" where
  "Cache_Close unmapped removed c =
     (if c_mmap c = None then (c, removed)
      else if c_closed c then (c, Inl CacheClosed)
      else (c\<lparr>c_closed := True\<rparr>, bindR unmapped (\<lambda>_. removed)))"

definition Cache_Size :: "'b Cache \<Rightarrow> int result" where
  "Cache_Size c = (if c_closed c then Inl CacheClosed else Inr (c_size c))"

section \<open>The overlay (overlay.go)\<close>

text \<open>The read-only device below is given by its \<open>ReadAt\<close>, from a buffer and an offset to the buffer
  filled and the count read.\<close>

record 'b Overlay =
  o_device :: "bytes \<Rightarrow> int \<Rightarrow> (bytes \<times> int) result"
  o_cache :: "'b Cache"
  o_cacheEjected :: bool
  o_blockSize :: int

definition NewOverlay :: "(bytes \<Rightarrow> int \<Rightarrow> (bytes \<times> int) result) \<Rightarrow> int \<Rightarrow> 'b Cache \<Rightarrow> 'b Overlay" where
  "NewOverlay device deviceBlockSize cache =
     \<lparr>o_device = device, o_cache = cache, o_cacheEjected = False, o_blockSize = deviceBlockSize\<rparr>"

text \<open>\<open>ReadAt\<close> block by block: the cache, or the device where the cache does not have the block. The lock
  of the cache is taken for each block, so writes may come between two of them; the device below is
  read only, so within a block it does not matter when it is asked.\<close>

definition read_block :: "'b bitmap_ops \<Rightarrow> 'b Overlay \<Rightarrow> int \<Rightarrow> int \<Rightarrow> bytes \<Rightarrow> bytes result" where
  "read_block ops ov off blockOff p =
     bindR (go_slice p blockOff (i64 (blockOff + o_blockSize ov))) (\<lambda>buf.
       (case Cache_ReadAt ops (o_cache ov) buf (i64 (off + blockOff)) of
          Inr (buf', n) \<Rightarrow> Inr (overwrite p blockOff buf')
        | Inl e \<Rightarrow>
            if e \<noteq> BytesNotAvailable then Inl e
            else bindR (o_device ov buf (i64 (off + blockOff))) (\<lambda>(buf', n). Inr (overwrite p blockOff buf'))))"

fun read_blocks :: "'b bitmap_ops \<Rightarrow> 'b Overlay \<Rightarrow> int \<Rightarrow> int list \<Rightarrow> bytes \<Rightarrow> bytes result" where
  "read_blocks ops ov off [] p = Inr p"
| "read_blocks ops ov off (blockOff # rest) p =
     bindR (read_block ops ov off blockOff p) (read_blocks ops ov off rest)"

definition Overlay_ReadAt :: "'b bitmap_ops \<Rightarrow> 'b Overlay \<Rightarrow> bytes \<Rightarrow> int \<Rightarrow> (bytes \<times> int) result" where
  "Overlay_ReadAt ops ov p off =
     bindR (read_blocks ops ov off (BlocksOffsets (int (length p)) (o_blockSize ov)) p)
       (\<lambda>p'. Inr (p', int (length p)))"

definition EjectCache :: "'b Overlay \<Rightarrow> 'b Overlay \<times> 'b Cache result" where
  "EjectCache ov =
     (if o_cacheEjected ov then (ov, Inl (Err ''cache already ejected''))
      else (ov\<lparr>o_cacheEjected := True\<rparr>, Inr (o_cache ov)))"

definition Overlay_WriteAt :: "'b bitmap_ops \<Rightarrow> 'b Overlay \<Rightarrow> bytes \<Rightarrow> int \<Rightarrow> ('b Overlay \<times> int) result" where
  "Overlay_WriteAt ops ov p off =
     bindR (Cache_WriteAt ops (o_cache ov) p off) (\<lambda>(c, n). Inr (ov\<lparr>o_cache := c\<rparr>, n))"

definition Overlay_WriteZeroesAt :: "'b bitmap_ops \<Rightarrow> 'b Overlay \<Rightarrow> int \<Rightarrow> int \<Rightarrow> ('b Overlay \<times> int) result" where
  "Overlay_WriteZeroesAt ops ov off len =
     bindR (Cache_WriteZeroesAt ops (o_cache ov) off len) (\<lambda>(c, n). Inr (ov\<lparr>o_cache := c\<rparr>, n))"

definition Overlay_Close :: "unit result \<Rightarrow> unit result \<Rightarrow> 'b Overlay \<Rightarrow> 'b Overlay \<times> unit result" where
  "Overlay_Close unmapped removed ov =
     (if o_cacheEjected ov then (ov, Inr ())
      else case Cache_Close unmapped removed (o_cache ov) of (c, r) \<Rightarrow> (ov\<lparr>o_cache := c\<rparr>, r))"

section \<open>Lemmas on byte ranges\<close>

lemma length_bytes_of [simp]: "length (bytes_of f off n) = n"
  by (simp add: bytes_of_def)

lemma nth_bytes_of [simp]: "i < n \<Longrightarrow> bytes_of f off n ! i = f (off + int i)"
  by (simp add: bytes_of_def)

lemma length_sub [simp]: "0 \<le> lo \<Longrightarrow> lo \<le> hi \<Longrightarrow> hi \<le> int (length b) \<Longrightarrow> length (sub b lo hi) = nat (hi - lo)"
  by (simp add: sub_def)

lemma nth_sub [simp]:
  "0 \<le> lo \<Longrightarrow> int i < hi - lo \<Longrightarrow> hi \<le> int (length b) \<Longrightarrow> sub b lo hi ! i = b ! (nat lo + i)"
  by (simp add: sub_def)

lemma sub_append:
  assumes "0 \<le> lo" "lo \<le> mid" "mid \<le> hi"
  shows "sub b lo hi = sub b lo mid @ sub b mid hi"
proof -
  have "nat (hi - lo) = nat (mid - lo) + nat (hi - mid)" "nat mid = nat (mid - lo) + nat lo"
    using assms by linarith+
  then show ?thesis unfolding sub_def by (simp only: take_add drop_drop)
qed

lemma sub_all [simp]: "sub b 0 (int (length b)) = b"
  by (simp add: sub_def)

lemma length_overwrite [simp]:
  "0 \<le> off \<Longrightarrow> off + int (length d) \<le> int (length m) \<Longrightarrow> length (overwrite m off d) = length m"
  by (simp add: overwrite_def)

lemma nth_overwrite:
  assumes "0 \<le> off" "off + int (length d) \<le> int (length m)" "i < length m"
  shows "overwrite m off d ! i =
    (if off \<le> int i \<and> int i < off + int (length d) then d ! (i - nat off) else m ! i)"
proof -
  have *: "length (take (nat off) m) = nat off" using assms by simp
  consider "i < nat off" | "nat off \<le> i" "i < nat off + length d" | "nat off + length d \<le> i" by linarith
  then show ?thesis
    using assms * by cases (auto simp: overwrite_def nth_append)
qed

lemma overwrite_append:
  assumes "0 \<le> off" "off + int (length d) + int (length e) \<le> int (length m)"
  shows "overwrite (overwrite m off d) (off + int (length d)) e = overwrite m off (d @ e)"
proof (rule nth_equalityI)
  show "length (overwrite (overwrite m off d) (off + int (length d)) e) = length (overwrite m off (d @ e))"
    using assms by simp
next
  fix i assume "i < length (overwrite (overwrite m off d) (off + int (length d)) e)"
  then have i: "i < length m" using assms by simp
  have "nat (off + int (length d)) = nat off + length d" using assms by linarith
  with i assms show "overwrite (overwrite m off d) (off + int (length d)) e ! i = overwrite m off (d @ e) ! i"
    by (auto simp: nth_overwrite nth_append)
qed

section \<open>What a write leaves in the cache\<close>

text \<open>The block of index \<open>k\<close> in a buffer written at \<open>off\<close>, and the state it gets.\<close>

definition block_of :: "bytes \<Rightarrow> int \<Rightarrow> int \<Rightarrow> int \<Rightarrow> bytes" where
  "block_of b off bs k = sub b (k * bs - off) (k * bs - off + bs)"

definition written_state :: "bytes \<Rightarrow> int \<Rightarrow> int \<Rightarrow> int \<Rightarrow> State" where
  "written_state b off bs k = (if IsZero (block_of b off bs k) then Zero else Dirty)"

lemma zero_blocks:
  assumes "0 < bs" "0 \<le> off" "bs dvd off" "bs dvd rs" "bs dvd re" "off \<le> rs" "rs \<le> re" "re - off \<le> int (length b)"
    and z: "\<And>k. rs div bs \<le> k \<Longrightarrow> k < re div bs \<Longrightarrow> IsZero (block_of b off bs k)"
  shows "sub b (rs - off) (re - off) = replicate (nat (re - rs)) 0"
proof (rule nth_equalityI)
  fix i assume "i < length (sub b (rs - off) (re - off))"
  then have i: "int i < re - rs" using assms by simp
  define k where "k = (rs + int i) div bs"
  obtain r where rs: "rs = bs * r" using assms(4) by (rule dvdE)
  obtain q where re: "re = bs * q" using assms(5) by (rule dvdE)
  obtain o' where o': "off = bs * o'" using assms(3) by (rule dvdE)
  have k: "r \<le> k" "k < q" "k * bs \<le> rs + int i" "rs + int i < k * bs + bs"
  proof -
    show "k * bs \<le> rs + int i" "rs + int i < k * bs + bs"
      using le_div_iff [OF assms(1), of k "rs + int i"] div_less_iff [OF assms(1), of "rs + int i" "k + 1"]
      by (simp_all add: k_def distrib_right)
    show "r \<le> k" using assms(1) rs by (simp add: k_def pos_imp_zdiv_nonneg_iff)
    show "k < q" unfolding k_def using i re assms(1)
      by (metis add_diff_cancel_left' add_less_cancel_left diff_add_cancel div_less_iff mult.commute)
  qed
  have kq: "(k + 1) * bs \<le> q * bs" using k assms(1) by (intro mult_right_mono) linarith+
  have ko: "o' * bs \<le> k * bs"
  proof (intro mult_right_mono)
    have "bs * o' \<le> bs * r" using assms(6) rs o' by simp
    then show "o' \<le> k" using k(1) assms(1) by simp
  qed (use assms(1) in simp)
  have "IsZero (block_of b off bs k)" using z [of k] k rs re assms(1) by simp
  moreover have "b ! nat (rs - off + int i) \<in> set (block_of b off bs k)"
  proof -
    have le: "0 \<le> k * bs - off" "k * bs - off + bs \<le> int (length b)"
      using ko kq re o' assms(8) by (simp_all add: algebra_simps)
    define j where "j = nat (rs + int i - k * bs)"
    have j: "int j = rs + int i - k * bs" using k by (simp add: j_def)
    have "j < length (block_of b off bs k)" using le j k assms(1) by (simp add: block_of_def)
    moreover have "block_of b off bs k ! j = b ! nat (rs - off + int i)"
    proof -
      have "nat (k * bs - off) + j = nat (rs - off + int i)" using le j by linarith
      then show ?thesis using le j k by (simp add: block_of_def)
    qed
    ultimately show ?thesis by (metis nth_mem)
  qed
  ultimately have "b ! nat (rs - off + int i) = 0" by (simp add: IsZero_iff_aux)
  moreover have "sub b (rs - off) (re - off) ! i = b ! nat (rs - off + int i)"
  proof -
    have "nat (rs - off) + i = nat (rs - off + int i)" using assms(6) by linarith
    then show ?thesis using i assms by simp
  qed
  ultimately show "sub b (rs - off) (re - off) ! i = replicate (nat (re - rs)) 0 ! i"
    using i by simp
qed (use assms in simp)

text \<open>A cache in use: mapped, open, of whole blocks that the 32-bit indices of the tracker can
  name.\<close>

definition cache_shape :: "'b Cache \<Rightarrow> bool" where
  "cache_shape c \<longleftrightarrow>
     (case c_mmap c of None \<Rightarrow> False | Some m \<Rightarrow> int (length m) = c_size c) \<and>
     0 < c_blockSize c \<and> c_blockSize c dvd c_size c \<and> c_size c div c_blockSize c < 4294967296 \<and>
     c_size c + c_blockSize c \<le> max_i64 \<and> \<not> c_closed c \<and> \<not> c_dirtyFile c"

lemma aligned_div_less:
  "0 < (bs::int) \<Longrightarrow> bs dvd a \<Longrightarrow> bs dvd b \<Longrightarrow> a div bs < b div bs \<longleftrightarrow> a < b"
  by (elim dvdE) simp

lemma aligned_ceil: "0 < (bs::int) \<Longrightarrow> bs dvd a \<Longrightarrow> (a + bs - 1) div bs = a div bs"
  using ceil_div_le_iff [of bs a "a div bs"] zdiv_mono1 [of a "a + bs - 1" bs]
  by (intro antisym) simp_all

lemma cache_idx:
  assumes "cache_shape c" "0 \<le> x" "x \<le> c_size c" "c_blockSize c dvd x"
  shows "u32 (BlockIdx x (c_blockSize c)) = x div c_blockSize c"
    "u32 (BlockCeilIdx x (c_blockSize c)) = x div c_blockSize c"
    "0 \<le> x div c_blockSize c" "x div c_blockSize c < 4294967296"
proof -
  let ?bs = "c_blockSize c"
  have s: "0 < ?bs" "c_size c div ?bs < 4294967296" "c_size c + ?bs \<le> max_i64"
    using assms(1) by (simp_all add: cache_shape_def)
  show r: "0 \<le> x div ?bs" "x div ?bs < 4294967296"
    using s assms zdiv_mono1 [of x "c_size c" ?bs] by (simp_all add: pos_imp_zdiv_nonneg_iff)
  have x: "x \<le> max_i64" "x + ?bs \<le> max_i64" using s assms(3) by linarith+
  show "u32 (BlockIdx x ?bs) = x div ?bs"
    using BlockIdx_eq [OF assms(2) x(1) s(1)] r by (simp add: u32_id)
  show "u32 (BlockCeilIdx x ?bs) = x div ?bs"
    using BlockCeilIdx_eq [OF assms(2) s(1) x(2)] r aligned_ceil [OF s(1) assms(4)] by (simp add: u32_id)
qed

context roaring_bitmap
begin

definition wrote :: "'b Cache \<Rightarrow> 'b Cache \<Rightarrow> int \<Rightarrow> bytes \<Rightarrow> (int \<Rightarrow> State) \<Rightarrow> bool" where
  "wrote c c' off d st \<longleftrightarrow>
     c_mmap c' = Some (overwrite (the (c_mmap c)) off d) \<and>
     (c_filePath c', c_size c', c_blockSize c', c_dirtyFile c', c_closed c') =
       (c_filePath c, c_size c, c_blockSize c, c_dirtyFile c, c_closed c) \<and>
     tracker_ok (c_tracker c') \<and>
     (\<forall>k. tstate (c_tracker c') k =
        (if off div c_blockSize c \<le> k \<and> k < (off + int (length d)) div c_blockSize c then st k
         else tstate (c_tracker c) k))"

lemma wrote_shape:
  assumes "cache_shape c" "wrote c c' off d st" "0 \<le> off" "off + int (length d) \<le> c_size c"
  shows "cache_shape c'" "c_blockSize c' = c_blockSize c" "c_size c' = c_size c" "tracker_ok (c_tracker c')"
proof -
  obtain m where m: "c_mmap c = Some m" "int (length m) = c_size c"
    using assms(1) by (auto simp: cache_shape_def split: option.splits)
  show "cache_shape c'" "c_blockSize c' = c_blockSize c" "c_size c' = c_size c" "tracker_ok (c_tracker c')"
    using assms m by (simp_all add: wrote_def cache_shape_def)
qed

lemma wrote_trans:
  assumes "cache_shape c" "wrote c c1 off d st" "wrote c1 c2 (off + int (length d)) e st" "0 \<le> off"
    "off + int (length d) + int (length e) \<le> c_size c"
  shows "wrote c c2 off (d @ e) st"
proof -
  obtain m where m: "c_mmap c = Some m" "int (length m) = c_size c"
    using assms(1) by (auto simp: cache_shape_def split: option.splits)
  have le: "off + int (length d) \<le> c_size c" using assms(5) by linarith
  note s1 = wrote_shape [OF assms(1,2,4) le]
  have bs: "0 < c_blockSize c" using assms(1) by (simp add: cache_shape_def)
  let ?q = "\<lambda>x. x div c_blockSize c"
  have "?q off \<le> ?q (off + int (length d))" "?q (off + int (length d)) \<le> ?q (off + int (length d) + int (length e))"
    using bs by (simp_all add: zdiv_mono1)
  moreover have "overwrite (overwrite m off d) (off + int (length d)) e = overwrite m off (d @ e)"
    using assms(4,5) m by (intro overwrite_append) simp_all
  ultimately show ?thesis
    using assms(2,3) m s1 by (auto simp: wrote_def add.assoc)
qed

lemma flush_spec:
  assumes c: "cache_shape c" "tracker_ok (c_tracker c)" and bs: "bs = c_blockSize c"
    and al: "bs dvd off" "bs dvd rs" "bs dvd re"
    and r: "0 \<le> off" "off \<le> rs" "rs < re" "re \<le> c_size c" "re - off \<le> int (length b)"
    and z: "\<And>k. rs div bs \<le> k \<Longrightarrow> k < re div bs \<Longrightarrow> IsZero (block_of b off bs k) = rz"
  shows "\<exists>c'. flush ops b off c rs re rz = Inr c' \<and>
    wrote c c' rs (sub b (rs - off) (re - off)) (written_state b off bs)"
proof -
  obtain m where m: "c_mmap c = Some m" "int (length m) = c_size c"
    using c(1) by (auto simp: cache_shape_def split: option.splits)
  have bs0: "0 < bs" using c(1) bs by (simp add: cache_shape_def)
  have rr: "0 \<le> rs" "rs \<le> c_size c" "0 \<le> re" "rs \<le> re" using r by linarith+
  note i = cache_idx [OF c(1) rr(1,2) al(2) [unfolded bs]] cache_idx [OF c(1) rr(3) r(4) al(3) [unfolded bs]]
  have rg: "idx_range (rs div bs) (re div bs)" using i bs by simp
  have d: "length (sub b (rs - off) (re - off)) = nat (re - rs)" using r by simp
  define D where "D = (if rz then replicate (nat (re - rs)) 0 else sub b (rs - off) (re - off))"
  define S where "S = (if rz then Zero else Dirty)"
  have D: "D = sub b (rs - off) (re - off)"
  proof (cases rz)
    case True
    then show ?thesis unfolding D_def using zero_blocks [OF bs0 r(1) al r(2) rr(4) r(5)] z by simp
  qed (simp add: D_def)
  have st: "written_state b off bs k = S" if "rs div bs \<le> k" "k < re div bs" for k
    using z [OF that] by (simp add: written_state_def S_def)
  let ?c = "c\<lparr>c_mmap := Some (overwrite m rs D), c_tracker := SetRange ops (c_tracker c) (rs div bs) (re div bs) S\<rparr>"
  have "flush ops b off c rs re rz = Inr ?c"
    using m r rr i bs by (simp add: flush_def Let_def D_def S_def)
  moreover have "wrote c ?c rs (sub b (rs - off) (re - off)) (written_state b off bs)"
  proof -
    have len: "rs + int (length (sub b (rs - off) (re - off))) = re" using d rr by simp
    show ?thesis
      unfolding wrote_def len
      using m D SetRange_spec [OF c(2) rg, of S] st by (auto simp: bs)
  qed
  ultimately show ?thesis by blast
qed

end

lemma aligned_step: "0 < (bs::int) \<Longrightarrow> bs dvd i \<Longrightarrow> bs dvd en \<Longrightarrow> i < en \<Longrightarrow> i + bs \<le> en"
  using aligned_div_less [of bs i en] le_div_iff [of bs "i div bs + 1" en]
  by (simp add: distrib_right)

context roaring_bitmap
begin

lemma write_loop_spec:
  assumes "cache_shape c" "tracker_ok (c_tracker c)" "bs = c_blockSize c"
    and "bs dvd off" "bs dvd rs" "bs dvd en" "0 \<le> off" "off \<le> rs"
    and "en \<le> c_size c" "en - off \<le> int (length b)"
    and "bs dvd i" "rs < i" "i \<le> en"
    and "\<And>k. rs div bs \<le> k \<Longrightarrow> k < i div bs \<Longrightarrow> IsZero (block_of b off bs k) = rz"
  shows "\<exists>c'. write_loop ops b off bs en c i rs rz = Inr c' \<and>
    wrote c c' rs (sub b (rs - off) (en - off)) (written_state b off bs)"
  using assms
proof (induction "nat (en - i)" arbitrary: c i rs rz rule: less_induct)
  case less
  note pre = less.prems(1-10) and pi = less.prems(11-13) and rz = less.prems(14)
  have bs: "0 < bs" using pre(1,3) by (simp add: cache_shape_def)
  show ?case
  proof (cases "i < en")
    case False
    then have "i = en" using pi(3) by simp
    then show ?thesis
      using flush_spec [OF pre(1,2,3,4,5,6,7,8) _ pre(9,10)] pi(2) rz by (subst write_loop.simps) simp
  next
    case True
    define z where "z = IsZero (sub b (i - off) (i - off + bs))"
    obtain q where i: "i = bs * q" using pi(1) by (rule dvdE)
    have ik: "i div bs = q" "(i + bs) div bs = q + 1" using i bs by simp_all
    have zq: "IsZero (block_of b off bs q) = z" by (simp add: z_def block_of_def i mult.commute)
    have nx: "nat (en - (i + bs)) < nat (en - i)" "bs dvd i + bs" "i < i + bs" "i + bs \<le> en"
      using True bs pi(1) aligned_step [OF bs pi(1) pre(6) True] by simp_all
    show ?thesis
    proof (cases "z = rz")
      case eq: True
      have "IsZero (block_of b off bs k) = rz" if "rs div bs \<le> k" "k < (i + bs) div bs" for k
        using rz [of k] that ik zq eq by (cases "k = q") auto
      moreover have "rs < i + bs" using pi(2) bs by simp
      ultimately have "\<exists>c'. write_loop ops b off bs en c (i + bs) rs rz = Inr c' \<and>
          wrote c c' rs (sub b (rs - off) (en - off)) (written_state b off bs)"
        using less.hyps [OF nx(1) pre nx(2) _ nx(4)] by blast
      then show ?thesis using True bs eq by (subst write_loop.simps) (simp add: z_def Let_def)
    next
      case ne: False
      have le: "i \<le> c_size c" "i - off \<le> int (length b)" "0 \<le> rs" "off \<le> i" using pre(7-10) pi by linarith+
      obtain c1 where c1: "flush ops b off c rs i rz = Inr c1"
        "wrote c c1 rs (sub b (rs - off) (i - off)) (written_state b off bs)"
        using flush_spec [OF pre(1,2,3,4,5) pi(1) pre(7,8) pi(2) le(1,2) rz] by blast
      have l1: "int (length (sub b (rs - off) (i - off))) = i - rs" using pre(8) le pi by simp
      note s1 = wrote_shape [OF pre(1) c1(2) le(3), unfolded l1, simplified, OF le(1)]
      have "IsZero (block_of b off bs k) = z" if "i div bs \<le> k" "k < (i + bs) div bs" for k
        using that ik zq by (cases "k = q") auto
      then obtain c2 where c2: "write_loop ops b off bs en c1 (i + bs) i z = Inr c2"
        "wrote c1 c2 i (sub b (i - off) (en - off)) (written_state b off bs)"
        using less.hyps [OF nx(1) s1(1,4) _ pre(4) pi(1) pre(6,7) le(4) _ pre(10) nx(2,3,4)] s1 pre(3,9) by auto
      have "wrote c c2 rs (sub b (rs - off) (i - off) @ sub b (i - off) (en - off)) (written_state b off bs)"
        using c1(2) c2(2) pre le l1 pi by (intro wrote_trans) simp_all
      then have "wrote c c2 rs (sub b (rs - off) (en - off)) (written_state b off bs)"
        using sub_append [of "rs - off" "i - off" "en - off" b] pre(8) pi by simp
      moreover have "write_loop ops b off bs en c i rs rz = Inr c2"
        using True bs ne c1(1) c2(1) by (subst write_loop.simps) (simp add: Let_def flip: z_def)
      ultimately show ?thesis by blast
    qed
  qed
qed

lemma WriteAt_spec:
  assumes c: "cache_shape c" "tracker_ok (c_tracker c)" and bs: "bs = c_blockSize c"
    and al: "bs dvd off" "bs dvd int (length b)" and r: "0 \<le> off" "off + int (length b) \<le> c_size c"
  shows "\<exists>c'. Cache_WriteAt ops c b off = Inr (c', int (length b)) \<and>
    wrote c c' off b (written_state b off bs)"
proof -
  have bs0: "0 < bs" using c(1) bs by (simp add: cache_shape_def)
  obtain m where m: "c_mmap c = Some m" using c(1) by (auto simp: cache_shape_def split: option.splits)
  have cl: "\<not> c_closed c" "off + int (length b) \<le> max_i64"
    using c(1) r by (simp_all add: cache_shape_def)
  have en: "min (i64 (off + int (length b))) (c_size c) = off + int (length b)"
    using cl r by (simp add: i64_id)
  have al0: "int (length b) smod bs = 0" "off smod bs = 0"
    using al bs0 r by (simp_all add: smod_nonneg)
  show ?thesis
  proof (cases "b = []")
    case True
    have "wrote c c off [] st" for st
      using m c by (auto simp: wrote_def overwrite_def)
    then show ?thesis using True m cl en al0 bs bs0
      by (auto simp: Cache_WriteAt_def WriteAtWithoutLock_def)
  next
    case False
    then have n: "off < off + int (length b)" by simp
    have dv: "bs dvd off + bs" "bs dvd off + int (length b)" using al by simp_all
    have st: "off + bs \<le> off + int (length b)" using aligned_step [OF bs0 al(1) dv(2) n] .
    have "\<exists>c'. write_loop ops b off bs (off + int (length b)) c (off + bs) off (IsZero (sub b 0 bs)) = Inr c' \<and>
      wrote c c' off (sub b (off - off) (off + int (length b) - off)) (written_state b off bs)"
    proof (rule write_loop_spec [OF c bs al(1,1) dv(2) r(1) _ r(2) _ dv(1) _ st])
      fix k assume k: "off div bs \<le> k" "k < (off + bs) div bs"
      then have "k = off div bs" using bs0 div_add_self2 [of bs off] by simp
      then show "IsZero (block_of b off bs k) = IsZero (sub b 0 bs)"
        using al(1) by (simp add: block_of_def)
    qed (use bs0 in simp_all)
    then show ?thesis using n m cl en al0 bs bs0
      by (auto simp: Cache_WriteAt_def WriteAtWithoutLock_def Let_def)
  qed
qed

lemma WriteZeroesAt_spec:
  assumes c: "cache_shape c" "tracker_ok (c_tracker c)" and bs: "bs = c_blockSize c"
    and al: "bs dvd off" "bs dvd len" and r: "0 \<le> off" "0 \<le> len" "off + len \<le> c_size c"
  shows "\<exists>c'. Cache_WriteZeroesAt ops c off len = Inr (c', len) \<and>
    wrote c c' off (replicate (nat len) 0) (\<lambda>_. Zero)"
proof -
  obtain m where m: "c_mmap c = Some m" "int (length m) = c_size c"
    using c(1) by (auto simp: cache_shape_def split: option.splits)
  have cl: "\<not> c_closed c" "off + len \<le> max_i64" using c(1) r by (simp_all add: cache_shape_def)
  have en: "min (i64 (off + len)) (c_size c) = off + len" using cl r by (simp add: i64_id)
  have rr: "off \<le> c_size c" "0 \<le> off + len" using r by linarith+
  have dv: "bs dvd off + len" using al by simp
  note i = cache_idx [OF c(1) r(1) rr(1) al(1) [unfolded bs]] cache_idx [OF c(1) rr(2) r(3) dv [unfolded bs]]
  have rg: "idx_range (off div bs) ((off + len) div bs)" using i bs by simp
  show ?thesis
  proof (cases "len = 0")
    case True
    then show ?thesis using m c cl en by (auto simp: Cache_WriteZeroesAt_def wrote_def overwrite_def)
  next
    case False
    have "wrote c (c\<lparr>c_mmap := Some (overwrite m off (replicate (nat len) 0)),
        c_tracker := SetRange ops (c_tracker c) (off div bs) ((off + len) div bs) Zero\<rparr>) off
        (replicate (nat len) 0) (\<lambda>_. Zero)"
      using m r(2) SetRange_spec [OF c(2) rg, of Zero] bs by (simp add: wrote_def)
    then show ?thesis using False m cl en i bs r
      by (auto simp: Cache_WriteZeroesAt_def Let_def)
  qed
qed

end

section \<open>A block device as an array of bytes\<close>

text \<open>What the users of a device rely on, the dispatcher of block requests among them: the state
  \<open>rep\<close>resents an array of bytes, and aligned reads and writes inside it act as they do on the
  array.\<close>

definition req_fits :: "int \<Rightarrow> bytes \<Rightarrow> int \<Rightarrow> int \<Rightarrow> bool" where
  "req_fits bs img off len \<longleftrightarrow> 0 \<le> off \<and> 0 \<le> len \<and> off + len \<le> int (length img) \<and> bs dvd off \<and> bs dvd len"

datatype dev_op = DevWrite int bytes | DevZeroes int int

fun array_op :: "bytes \<Rightarrow> dev_op \<Rightarrow> bytes" where
  "array_op img (DevWrite off b) = overwrite img off b"
| "array_op img (DevZeroes off len) = overwrite img off (replicate (nat len) 0)"

fun op_fits :: "int \<Rightarrow> bytes \<Rightarrow> dev_op \<Rightarrow> bool" where
  "op_fits bs img (DevWrite off b) = req_fits bs img off (int (length b))"
| "op_fits bs img (DevZeroes off len) = req_fits bs img off len"

fun dev_run ::
  "('s \<Rightarrow> bytes \<Rightarrow> int \<Rightarrow> ('s \<times> int) result) \<Rightarrow> ('s \<Rightarrow> int \<Rightarrow> int \<Rightarrow> ('s \<times> int) result) \<Rightarrow>
   's \<Rightarrow> dev_op list \<Rightarrow> 's result" where
  "dev_run wr wz s [] = Inr s"
| "dev_run wr wz s (DevWrite off b # rest) = bindR (wr s b off) (\<lambda>(s', n). dev_run wr wz s' rest)"
| "dev_run wr wz s (DevZeroes off len # rest) = bindR (wz s off len) (\<lambda>(s', n). dev_run wr wz s' rest)"

locale block_device =
  fixes rep :: "'s \<Rightarrow> int \<Rightarrow> bytes \<Rightarrow> bool"
    and dev_read :: "'s \<Rightarrow> bytes \<Rightarrow> int \<Rightarrow> (bytes \<times> int) result"
    and dev_write :: "'s \<Rightarrow> bytes \<Rightarrow> int \<Rightarrow> ('s \<times> int) result"
    and dev_zeroes :: "'s \<Rightarrow> int \<Rightarrow> int \<Rightarrow> ('s \<times> int) result"
  assumes read_law: "rep s bs img \<Longrightarrow> req_fits bs img off (int (length p)) \<Longrightarrow>
      dev_read s p off = Inr (sub img off (off + int (length p)), int (length p))"
    and write_law: "rep s bs img \<Longrightarrow> req_fits bs img off (int (length p)) \<Longrightarrow>
      \<exists>s'. dev_write s p off = Inr (s', int (length p)) \<and> rep s' bs (overwrite img off p)"
    and zeroes_law: "rep s bs img \<Longrightarrow> req_fits bs img off len \<Longrightarrow>
      \<exists>s'. dev_zeroes s off len = Inr (s', len) \<and> rep s' bs (overwrite img off (replicate (nat len) 0))"
begin

lemma length_array_op: "op_fits bs img q \<Longrightarrow> length (array_op img q) = length img"
  by (cases q) (auto simp: req_fits_def)

lemma op_fits_length: "length img = length img' \<Longrightarrow> op_fits bs img q = op_fits bs img' q"
  by (cases q) (auto simp: req_fits_def)

lemma run_law:
  assumes "rep s bs img" "\<forall>q \<in> set qs. op_fits bs img q"
  shows "\<exists>s'. dev_run dev_write dev_zeroes s qs = Inr s' \<and> rep s' bs (foldl array_op img qs) \<and>
    length (foldl array_op img qs) = length img"
  using assms
proof (induction qs arbitrary: s img)
  case (Cons q qs)
  have l: "length (array_op img q) = length img" using Cons.prems by (intro length_array_op [of bs]) simp
  have "\<exists>s'. dev_run dev_write dev_zeroes s (q # qs) = dev_run dev_write dev_zeroes s' qs \<and> rep s' bs (array_op img q)"
    using Cons.prems write_law [of s bs img] zeroes_law [of s bs img] by (cases q) fastforce+
  then obtain s' where s': "dev_run dev_write dev_zeroes s (q # qs) = dev_run dev_write dev_zeroes s' qs" "rep s' bs (array_op img q)" by blast
  have "\<forall>r \<in> set qs. op_fits bs (array_op img q) r"
    using Cons.prems(2) op_fits_length [OF l] by simp
  with Cons.IH [OF s'(2)] s'(1) l show ?case by simp
qed simp

lemma run_read_law:
  assumes "rep s bs img" "\<forall>q \<in> set qs. op_fits bs img q" "req_fits bs img off (int (length p))"
  shows "\<exists>s'. dev_run dev_write dev_zeroes s qs = Inr s' \<and>
    dev_read s' p off = Inr (sub (foldl array_op img qs) off (off + int (length p)), int (length p))"
proof -
  obtain s' where "dev_run dev_write dev_zeroes s qs = Inr s'" "rep s' bs (foldl array_op img qs)"
    "length (foldl array_op img qs) = length img"
    using run_law [OF assms(1,2)] by blast
  with read_law [of s' bs "foldl array_op img qs" off p] assms(3) show ?thesis by (simp add: req_fits_def)
qed

end

section \<open>The overlay as a block device\<close>

text \<open>The device below a cache: every aligned read of a block returns the bytes of \<open>base\<close>.\<close>

definition reads_from :: "(bytes \<Rightarrow> int \<Rightarrow> (bytes \<times> int) result) \<Rightarrow> int \<Rightarrow> bytes \<Rightarrow> bool" where
  "reads_from device bs base \<longleftrightarrow>
     (\<forall>buf off. int (length buf) = bs \<longrightarrow> req_fits bs base off bs \<longrightarrow>
        device buf off = Inr (sub base off (off + bs), bs))"

definition overlay_image :: "(int \<Rightarrow> State) \<Rightarrow> int \<Rightarrow> bytes \<Rightarrow> bytes \<Rightarrow> bytes" where
  "overlay_image st bs m base =
     map (\<lambda>x. if st (int x div bs) = NotPresent then base ! x else m ! x) [0..<length base]"

lemma length_overlay_image [simp]: "length (overlay_image st bs m base) = length base"
  by (simp add: overlay_image_def)

lemma overlay_image_write:
  assumes "0 < bs" "0 \<le> off" "bs dvd off" "bs dvd int (length d)" "off + int (length d) \<le> int (length base)"
    "length m = length base"
    and st': "\<forall>k. st' k = (if off div bs \<le> k \<and> k < (off + int (length d)) div bs then ws k else st k)"
    and ws: "\<And>k. ws k \<noteq> NotPresent"
  shows "overlay_image st' bs (overwrite m off d) base = overwrite (overlay_image st bs m base) off d"
proof (rule nth_equalityI)
  fix i assume "i < length (overlay_image st' bs (overwrite m off d) base)"
  then have i: "i < length base" by simp
  have "off div bs \<le> int i div bs \<longleftrightarrow> off \<le> int i"
    using assms(1,3) le_div_iff [of bs "off div bs" "int i"] by simp
  moreover have "int i div bs < (off + int (length d)) div bs \<longleftrightarrow> int i < off + int (length d)"
    using assms(1,3,4) div_less_iff [of bs "int i" "(off + int (length d)) div bs"]
      dvd_div_mult_self [of bs "off + int (length d)"] by (simp only: dvd_add)
  ultimately show "overlay_image st' bs (overwrite m off d) base ! i = overwrite (overlay_image st bs m base) off d ! i"
    using i assms by (auto simp: overlay_image_def nth_overwrite)
qed (use assms in simp)

lemma overlay_image_block:
  assumes "0 < bs" "bs dvd off" "req_fits bs base off bs" "length m = length base"
  shows "sub (overlay_image st bs m base) off (off + bs) =
    (if st (off div bs) = NotPresent then sub base off (off + bs) else sub m off (off + bs))"
proof (rule nth_equalityI)
  fix i assume "i < length (sub (overlay_image st bs m base) off (off + bs))"
  then have i: "int i < bs" using assms by (simp add: req_fits_def)
  have "(off + int i) div bs = off div bs" using assms(1,2) i by (elim dvdE) simp
  moreover have "int (nat off + i) = off + int i" "nat off + i < length base"
    using assms(3) i by (auto simp: req_fits_def)
  ultimately show "sub (overlay_image st bs m base) off (off + bs) ! i =
    (if st (off div bs) = NotPresent then sub base off (off + bs) else sub m off (off + bs)) ! i"
    using i assms(3,4) by (simp add: req_fits_def overlay_image_def del: of_nat_add)
qed (use assms in \<open>simp add: req_fits_def\<close>)

lemma overwrite_prefix:
  assumes "sub p 0 a = x" "0 \<le> a" "a + int (length d) \<le> int (length p)"
  shows "sub (overwrite p a d) 0 (a + int (length d)) = x @ d"
proof -
  have "sub (overwrite p a d) 0 (a + int (length d)) = take (nat a) p @ d"
    using assms(2,3) by (simp add: sub_def overwrite_def nat_add_distrib)
  then show ?thesis using assms(1) by (simp add: sub_def)
qed

context roaring_bitmap
begin

definition overlay_rep :: "'b Overlay \<Rightarrow> int \<Rightarrow> bytes \<Rightarrow> bool" where
  "overlay_rep ov bs img \<longleftrightarrow>
     cache_shape (o_cache ov) \<and> tracker_ok (c_tracker (o_cache ov)) \<and>
     o_blockSize ov = bs \<and> c_blockSize (o_cache ov) = bs \<and>
     (\<exists>base. int (length base) = c_size (o_cache ov) \<and> reads_from (o_device ov) bs base \<and>
        img = overlay_image (tstate (c_tracker (o_cache ov))) bs (the (c_mmap (o_cache ov))) base)"

lemma overlay_write:
  assumes "overlay_rep ov bs img" "wrote (o_cache ov) c' off d ws" "req_fits bs img off (int (length d))"
    and "\<And>k. ws k \<noteq> NotPresent"
  shows "overlay_rep (ov\<lparr>o_cache := c'\<rparr>) bs (overwrite img off d)"
proof -
  let ?c = "o_cache ov"
  obtain base where b: "int (length base) = c_size ?c" "reads_from (o_device ov) bs base"
    "img = overlay_image (tstate (c_tracker ?c)) bs (the (c_mmap ?c)) base"
    using assms(1) by (auto simp: overlay_rep_def)
  have c: "cache_shape ?c" "o_blockSize ov = bs" "c_blockSize ?c = bs" "0 < bs" "length (the (c_mmap ?c)) = length base"
    using assms(1) b(1) by (auto simp: overlay_rep_def cache_shape_def split: option.splits)
  have f: "0 \<le> off" "off + int (length d) \<le> c_size ?c" "bs dvd off" "bs dvd int (length d)"
    using assms(3) b by (simp_all add: req_fits_def)
  note s = wrote_shape [OF c(1) assms(2) f(1,2)]
  have w: "c_mmap c' = Some (overwrite (the (c_mmap ?c)) off d)"
    "\<forall>k. tstate (c_tracker c') k = (if off div bs \<le> k \<and> k < (off + int (length d)) div bs then ws k
       else tstate (c_tracker ?c) k)"
    using assms(2) c(3) by (simp_all add: wrote_def)
  have "overlay_image (tstate (c_tracker c')) bs (overwrite (the (c_mmap ?c)) off d) base = overwrite img off d"
    unfolding b(3) using f b(1) c assms(4) w(2) by (intro overlay_image_write [where ws = ws]) simp_all
  then show ?thesis
    using s c b(1,2) w(1) by (auto simp: overlay_rep_def intro!: exI [of _ base])
qed

lemma Cache_ReadAt_block:
  assumes c: "cache_shape c" "tracker_ok (c_tracker c)" "c_mmap c = Some m"
    and bs: "bs = c_blockSize c" "int (length buf) = bs" and f: "req_fits bs m off bs"
  shows "Cache_ReadAt ops c buf off =
    (if tstate (c_tracker c) (off div bs) = NotPresent then Inl BytesNotAvailable
     else Inr (sub m off (off + bs), bs))"
proof -
  have m: "int (length m) = c_size c" "0 < bs" "\<not> c_closed c" "\<not> c_dirtyFile c" "c_size c \<le> max_i64"
    using c bs(1) by (simp_all add: cache_shape_def)
  have r: "0 \<le> off" "off \<le> c_size c" "0 \<le> off + bs" "off + bs \<le> c_size c" "bs dvd off" "bs dvd off + bs"
    using f m by (auto simp: req_fits_def)
  have i: "u32 (BlockIdx off bs) = off div bs" "u32 (BlockCeilIdx (off + bs) bs) = (off + bs) div bs"
    "0 \<le> off div bs" "(off + bs) div bs < 4294967296"
    using cache_idx [OF c(1), of off] cache_idx [OF c(1), of "off + bs"] r bs(1) by simp_all
  have q: "(off + bs) div bs = off div bs + 1" using m(2) div_add_self2 [of bs off] by simp
  have e: "min (i64 (off + bs)) (c_size c) = off + bs" using r m by (simp add: i64_id)
  have p: "Present ops (c_tracker c) (off div bs) (off div bs + 1) \<longleftrightarrow> tstate (c_tracker c) (off div bs) \<noteq> NotPresent"
  proof -
    have "(\<forall>k. off div bs \<le> k \<and> k < off div bs + 1 \<longrightarrow> tstate (c_tracker c) k \<noteq> NotPresent) \<longleftrightarrow>
        tstate (c_tracker c) (off div bs) \<noteq> NotPresent"
      by (metis add1_zle_eq eq_iff less_add_one zle_add1_eq_le)
    then show ?thesis
      using Present_spec [OF c(2), of "off div bs" "off div bs + 1"] i q by simp
  qed
  have "isCached ops c off bs \<longleftrightarrow> tstate (c_tracker c) (off div bs) \<noteq> NotPresent"
    using p i q e by (simp add: isCached_def bs(1))
  moreover have "go_copy buf (sub m off (off + bs)) = (sub m off (off + bs), bs)"
    using bs(2) r m by (simp add: go_copy_def Let_def)
  ultimately show ?thesis
    using c(3) m r e bs(2) by (simp add: Cache_ReadAt_def Cache_Slice_def go_slice_def)
qed

lemma read_block_spec:
  assumes rp: "overlay_rep ov bs img" and f: "bs dvd off" "0 \<le> off" "bs dvd b" "0 \<le> b"
    and len: "b + bs \<le> int (length p)" "off + (b + bs) \<le> int (length img)"
  shows "read_block ops ov off b p = Inr (overwrite p b (sub img (off + b) (off + b + bs)))"
proof -
  let ?c = "o_cache ov"
  obtain base m where b: "int (length base) = c_size ?c" "reads_from (o_device ov) bs base"
    "c_mmap ?c = Some m" "img = overlay_image (tstate (c_tracker ?c)) bs m base"
    using rp by (auto simp: overlay_rep_def cache_shape_def split: option.splits)
  have c: "cache_shape ?c" "tracker_ok (c_tracker ?c)" "o_blockSize ov = bs" "c_blockSize ?c = bs" "0 < bs"
    "length m = length base" "c_size ?c \<le> max_i64"
    using rp b by (auto simp: overlay_rep_def cache_shape_def)
  have fo: "off + (b + bs) \<le> c_size ?c" "bs dvd off + b" using len(2) b c(6) f(1,3) by simp_all
  have fb: "req_fits bs base (off + b) bs" "req_fits bs m (off + b) bs"
    using fo f c(5,6) b(1) by (simp_all add: req_fits_def)
  have w: "i64 (off + b) = off + b" "i64 (b + bs) = b + bs" using fo f c(5,7) by (auto intro!: i64_id)
  define buf where "buf = sub p b (b + bs)"
  have lb: "int (length buf) = bs" using len(1) f(4) c(5) by (simp add: buf_def)
  have blk: "sub img (off + b) (off + b + bs) = (if tstate (c_tracker ?c) ((off + b) div bs) = NotPresent
      then sub base (off + b) (off + b + bs) else sub m (off + b) (off + b + bs))"
    unfolding b(4) using fo fb c f by (intro overlay_image_block) simp_all
  have dev: "o_device ov buf (off + b) = Inr (sub base (off + b) (off + b + bs), bs)"
    using b(2) lb fb(1) unfolding reads_from_def by blast
  show ?thesis
    using c w lb len(1) f(4) blk dev b(3) Cache_ReadAt_block [OF c(1,2) b(3) c(4) [symmetric] lb fb(2)]
    by (simp add: read_block_def go_slice_def flip: buf_def)
qed

lemma read_blocks_spec:
  assumes rp: "overlay_rep ov bs img" and f: "req_fits bs img off (n * bs)" and len: "int (length p) = n * bs"
    and j: "0 \<le> j" "j \<le> n" and pre: "sub p 0 (j * bs) = sub img off (off + j * bs)"
  shows "read_blocks ops ov off (map (\<lambda>i. i * bs) [j..n - 1]) p = Inr (sub img off (off + n * bs))"
  using j len pre
proof (induction "nat (n - j)" arbitrary: j p)
  case 0
  then show ?case by (simp add: sub_def)
next
  case (Suc k)
  have bs: "0 < bs" using rp by (auto simp: overlay_rep_def cache_shape_def)
  have jn: "j < n" using Suc by linarith
  then have jb: "j * bs + bs \<le> n * bs" "0 \<le> j * bs"
    using mult_right_mono [of "j + 1" n bs] bs Suc.prems(1) by (simp_all add: distrib_right)
  have fo: "0 \<le> off" "off + n * bs \<le> int (length img)" "bs dvd off" using f by (simp_all add: req_fits_def)
  define blk where "blk = sub img (off + j * bs) (off + j * bs + bs)"
  have lk: "int (length blk) = bs" using jb fo bs by (simp add: blk_def)
  have step: "read_blocks ops ov off (map (\<lambda>i. i * bs) [j..n - 1]) p =
      read_blocks ops ov off (map (\<lambda>i. i * bs) [j + 1..n - 1]) (overwrite p (j * bs) blk)"
    using read_block_spec [OF rp fo(3,1) _ jb(2), of p] jb fo Suc.prems(3) jn by (simp add: upto_rec1 blk_def)
  have "sub (overwrite p (j * bs) blk) 0 (j * bs + int (length blk)) = sub img off (off + j * bs) @ blk"
    using Suc.prems jb lk by (intro overwrite_prefix) simp_all
  also have "\<dots> = sub img off (off + (j + 1) * bs)"
    using sub_append [of off "off + j * bs" "off + j * bs + bs" img] fo jb bs
    by (simp add: blk_def distrib_right add.assoc)
  finally have "sub (overwrite p (j * bs) blk) 0 ((j + 1) * bs) = sub img off (off + (j + 1) * bs)"
    using lk by (simp add: distrib_right)
  moreover have "length (overwrite p (j * bs) blk) = length p"
    using jb lk Suc.prems(3) by simp
  ultimately show ?case
    unfolding step using Suc.hyps(2) Suc.prems jn by (intro Suc.hyps(1)) simp_all
qed

lemma BlocksOffsets_aligned:
  assumes "0 < bs" "0 \<le> n" "n * bs + bs \<le> max_i64"
  shows "BlocksOffsets (n * bs) bs = map (\<lambda>i. i * bs) [0..n - 1]"
proof -
  have "TotalBlocks (n * bs) bs = n"
    using assms BlockCeilIdx_eq [of "n * bs" bs] aligned_ceil [of bs "n * bs"]
    by (simp add: TotalBlocks_BlockCeilIdx)
  moreover have "BlockOffset i bs = i * bs" if "0 \<le> i" "i < n" for i
  proof (intro BlockOffset_eq)
    have "i * bs \<le> n * bs" using assms(1) that by (intro mult_right_mono) simp_all
    then show "i * bs \<le> max_i64" using assms(1,3) by linarith
  qed (use that assms(1) in simp_all)
  ultimately show ?thesis by (auto simp: BlocksOffsets_def)
qed

end

text \<open>The overlay keeps the laws of a block device, for any bitmaps that keep theirs.\<close>

sublocale roaring_bitmap \<subseteq> ovdev: block_device overlay_rep "Overlay_ReadAt ops" "Overlay_WriteAt ops" "Overlay_WriteZeroesAt ops"
proof
  fix ov :: "'b Overlay" and bs :: int and img p :: bytes and off :: int
  assume r: "overlay_rep ov bs img" and f: "req_fits bs img off (int (length p))"
  have c: "cache_shape (o_cache ov)" "tracker_ok (c_tracker (o_cache ov))" "bs = c_blockSize (o_cache ov)"
    "o_blockSize ov = bs" "0 < bs" "int (length img) = c_size (o_cache ov)" "c_size (o_cache ov) + bs \<le> max_i64"
    using r by (auto simp: overlay_rep_def cache_shape_def)
  have ff: "bs dvd off" "bs dvd int (length p)" "0 \<le> off" "off + int (length p) \<le> c_size (o_cache ov)"
    using f c(6) by (simp_all add: req_fits_def)
  from ff(2) obtain n where n: "int (length p) = n * bs" by (metis dvdE mult.commute)
  have n0: "0 \<le> n" using n c(5) by (metis of_nat_0_le_iff zero_le_mult_iff not_le)
  have "n * bs + bs \<le> max_i64" using n ff c(7) by linarith
  then have bo: "BlocksOffsets (int (length p)) bs = map (\<lambda>i. i * bs) [0..n - 1]"
    unfolding n by (intro BlocksOffsets_aligned c(5) n0)
  have "read_blocks ops ov off (map (\<lambda>i. i * bs) [0..n - 1]) p = Inr (sub img off (off + n * bs))"
    using r f n n0 by (intro read_blocks_spec) (simp_all add: sub_def)
  then show "Overlay_ReadAt ops ov p off = Inr (sub img off (off + int (length p)), int (length p))"
    using n bo c(4) by (simp add: Overlay_ReadAt_def)
  show "\<exists>s'. Overlay_WriteAt ops ov p off = Inr (s', int (length p)) \<and> overlay_rep s' bs (overwrite img off p)"
    using WriteAt_spec [OF c(1,2,3) ff] overlay_write [OF r _ f]
    by (fastforce simp: Overlay_WriteAt_def written_state_def)
next
  fix ov :: "'b Overlay" and bs :: int and img :: bytes and off len :: int
  assume r: "overlay_rep ov bs img" and f: "req_fits bs img off len"
  have c: "cache_shape (o_cache ov)" "tracker_ok (c_tracker (o_cache ov))" "bs = c_blockSize (o_cache ov)"
    "int (length img) = c_size (o_cache ov)"
    using r by (auto simp: overlay_rep_def)
  have ff: "bs dvd off" "bs dvd len" "0 \<le> off" "0 \<le> len" "off + len \<le> c_size (o_cache ov)"
    "req_fits bs img off (int (length (replicate (nat len) (0 :: byte))))"
    using f c(4) by (simp_all add: req_fits_def)
  show "\<exists>s'. Overlay_WriteZeroesAt ops ov off len = Inr (s', len) \<and>
      overlay_rep s' bs (overwrite img off (replicate (nat len) 0))"
    using WriteZeroesAt_spec [OF c(1,2,3) ff(1-5)] overlay_write [OF r _ ff(6)]
    by (fastforce simp: Overlay_WriteZeroesAt_def)
qed

text \<open>A device whose reads go block by block, so that other requests may come between two blocks.\<close>

locale block_reader = block_device rep dev_read dev_write dev_zeroes
  for rep :: "'s \<Rightarrow> int \<Rightarrow> bytes \<Rightarrow> bool"
    and dev_read :: "'s \<Rightarrow> bytes \<Rightarrow> int \<Rightarrow> (bytes \<times> int) result"
    and dev_write :: "'s \<Rightarrow> bytes \<Rightarrow> int \<Rightarrow> ('s \<times> int) result"
    and dev_zeroes :: "'s \<Rightarrow> int \<Rightarrow> int \<Rightarrow> ('s \<times> int) result" +
  fixes dev_blocks :: "'s \<Rightarrow> int \<Rightarrow> int list"
    and dev_block :: "'s \<Rightarrow> int \<Rightarrow> int \<Rightarrow> bytes \<Rightarrow> bytes result"
  assumes blocks_law: "rep s bs img \<Longrightarrow> req_fits bs img off len \<Longrightarrow>
      dev_blocks s len = BlocksOffsets len bs \<and> 0 < bs \<and> (\<forall>b \<in> set (BlocksOffsets len bs). bs dvd b \<and> 0 \<le> b \<and> b + bs \<le> len)"
    and block_law: "rep s bs img \<Longrightarrow> bs dvd off \<Longrightarrow> 0 \<le> off \<Longrightarrow> bs dvd b \<Longrightarrow> 0 \<le> b \<Longrightarrow>
      b + bs \<le> int (length p) \<Longrightarrow> off + (b + bs) \<le> int (length img) \<Longrightarrow>
      dev_block s off b p = Inr (overwrite p b (sub img (off + b) (off + b + bs)))"

definition overlay_blocks :: "'b Overlay \<Rightarrow> int \<Rightarrow> int list" where
  "overlay_blocks ov len = BlocksOffsets len (o_blockSize ov)"

sublocale roaring_bitmap \<subseteq> ovrd: block_reader overlay_rep "Overlay_ReadAt ops" "Overlay_WriteAt ops" "Overlay_WriteZeroesAt ops"
  overlay_blocks "read_block ops"
proof
  fix ov :: "'b Overlay" and bs :: int and img :: bytes and off len :: int
  assume r: "overlay_rep ov bs img" and f: "req_fits bs img off len"
  have c: "o_blockSize ov = bs" "0 < bs" "int (length img) + bs \<le> max_i64"
    using r by (auto simp: overlay_rep_def cache_shape_def)
  have "bs dvd len" using f by (simp add: req_fits_def)
  then obtain n where n: "len = n * bs" by (metis dvdE mult.commute)
  have n0: "0 \<le> n" using f c(2) n by (simp add: req_fits_def zero_le_mult_iff)
  have "n * bs + bs \<le> max_i64" using f c(3) n by (simp add: req_fits_def)
  then have "BlocksOffsets len bs = map (\<lambda>i. i * bs) [0..n - 1]" unfolding n by (intro BlocksOffsets_aligned c(2) n0)
  moreover have "i * bs + bs \<le> n * bs" if "0 \<le> i" "i \<le> n - 1" for i
    using mult_right_mono [of "i + 1" n bs] c(2) that by (simp add: distrib_right)
  ultimately show "overlay_blocks ov len = BlocksOffsets len bs \<and> 0 < bs \<and>
      (\<forall>b \<in> set (BlocksOffsets len bs). bs dvd b \<and> 0 \<le> b \<and> b + bs \<le> len)"
    using c n by (auto simp: overlay_blocks_def)
qed (rule read_block_spec)

context roaring_bitmap
begin

lemmas overlay_run_read = ovdev.run_read_law

text \<open>An overlay over a fresh cache represents the image below it.\<close>

lemma fresh_overlay_rep:
  assumes "map_file path sz = Inr m" "int (length m) = sz"
    and "0 < sz" "0 < bs" "bs dvd sz" "sz div bs < 4294967296" "sz + bs \<le> max_i64"
    and "NewCache ops map_file sz bs path False = Inr c"
    and "reads_from device bs base" "length base = length m"
  shows "overlay_rep (NewOverlay device bs c) bs base"
proof -
  have c: "c = \<lparr>c_filePath = path, c_size = sz, c_blockSize = bs, c_mmap = Some m,
      c_tracker = NewTracker ops, c_dirtyFile = False, c_closed = False\<rparr>"
    using assms(1,3,8) by (simp add: NewCache_def)
  have "map ((!) base) [0..<length base] = base" by (simp add: map_nth)
  then show ?thesis
    using assms(2-7,9,10) NewTracker_spec
    by (auto simp: overlay_rep_def c cache_shape_def NewOverlay_def overlay_image_def intro!: exI [of _ base])
qed

end

section \<open>Properties\<close>

text \<open>(C9) The overlay device over a fresh cache behaves as a writable copy of the image below it:
  after any sequence of aligned writes and zero-writes inside the device, every aligned read
  returns what a plain array of bytes, initialised with the image and updated by the same
  sequence, holds there, and none of the requests fails. This covers the block-wise choice
  between cache and device, the coalescing of runs of zero blocks and the punched holes.\<close>

theorem Overlay_acts_as_array:
  assumes "roaring_bitmap ops bset" "map_file path sz = Inr m" "int (length m) = sz"
    and "0 < sz" "0 < bs" "bs dvd sz" "sz div bs < 4294967296" "sz + bs \<le> max_i64"
    and "NewCache ops map_file sz bs path False = Inr c"
    and "reads_from device bs base" "length base = length m"
    and "\<forall>q \<in> set qs. op_fits bs base q" "req_fits bs base off (int (length p))"
  shows "\<exists>ov'. dev_run (Overlay_WriteAt ops) (Overlay_WriteZeroesAt ops) (NewOverlay device bs c) qs = Inr ov' \<and>
    Overlay_ReadAt ops ov' p off =
      Inr (sub (foldl array_op base qs) off (off + int (length p)), int (length p))"
proof -
  have "roaring_bitmap.overlay_rep bset (NewOverlay device bs c) bs base"
    using assms by (intro roaring_bitmap.fresh_overlay_rep)
  from roaring_bitmap.overlay_run_read [OF assms(1) this assms(12,13)] show ?thesis .
qed

theorem Overlay_acts_as_array_witness:
  "\<exists>ov'. dev_run (Overlay_WriteAt listbm_ops) (Overlay_WriteZeroesAt listbm_ops)
     (NewOverlay (\<lambda>buf off. Inr (sub [1, 2, 3, 4, 5, 6] off (off + int (length buf)), int (length buf))) 2
        \<lparr>c_filePath = ''d'', c_size = 6, c_blockSize = 2, c_mmap = Some (replicate 6 0),
         c_tracker = NewTracker listbm_ops, c_dirtyFile = False, c_closed = False\<rparr>)
     [DevWrite 0 [9, 9, 0, 0], DevZeroes 0 2] = Inr ov' \<and>
   Overlay_ReadAt listbm_ops ov' (replicate 6 0) 0 = Inr ([0, 0, 0, 0, 5, 6], 6)"
proof -
  have dv: "(2::int) dvd 6" "(2::int) dvd 4" by presburger+
  have rd: "reads_from (\<lambda>buf off. Inr (sub [1, 2, 3, 4, 5, 6] off (off + int (length buf)), int (length buf))) 2
      [1, 2, 3, 4, 5, 6 :: byte]"
    by (simp add: reads_from_def)
  show ?thesis
    using Overlay_acts_as_array [OF lbm.roaring_bitmap_axioms, of "\<lambda>_ _. Inr (replicate 6 0)" "''d''" 6
        "replicate 6 0" 2 _ _ "[1, 2, 3, 4, 5, 6]" "[DevWrite 0 [9, 9, 0, 0], DevZeroes 0 2]" 0 "replicate 6 0",
        OF _ _ _ _ _ _ _ _ rd] dv
    by (simp add: NewCache_def req_fits_def overwrite_def sub_def numeral_eq_Suc)
qed

text \<open>A block-aligned write to the cache stores exactly the bytes given, touches nothing else,
  and leaves the tracker with \<open>Zero\<close> for the written blocks that are all zero and \<open>Dirty\<close> for
  the other ones, whatever runs the loop has coalesced; the other blocks keep their state.\<close>

theorem Cache_WriteAt_records:
  assumes "roaring_bitmap ops bset" "cache_shape c" "bset (t_dirty (c_tracker c)) \<inter> bset (t_zero (c_tracker c)) = {}"
    and "c_mmap c = Some m" "bs = c_blockSize c" "req_fits bs m off (int (length b))"
  shows "\<exists>c'. Cache_WriteAt ops c b off = Inr (c', int (length b)) \<and> cache_shape c' \<and>
    c_mmap c' = Some (overwrite m off b) \<and>
    (\<forall>k. 0 \<le> k \<and> k < 4294967296 \<longrightarrow> Get ops (c_tracker c') k =
      (if off div bs \<le> k \<and> k < (off + int (length b)) div bs
       then if block_of b off bs k = replicate (length (block_of b off bs k)) 0 then Zero else Dirty
       else Get ops (c_tracker c) k))"
proof -
  have t: "roaring_bitmap.tracker_ok bset (c_tracker c)"
    using assms(1,3) by (simp add: roaring_bitmap.tracker_ok_def)
  have ff: "bs dvd off" "bs dvd int (length b)" "0 \<le> off" "off + int (length b) \<le> c_size c"
    using assms(2,4,6) by (simp_all add: req_fits_def cache_shape_def)
  obtain c' where c': "Cache_WriteAt ops c b off = Inr (c', int (length b))"
    "roaring_bitmap.wrote bset c c' off b (written_state b off bs)"
    using roaring_bitmap.WriteAt_spec [OF assms(1,2) t assms(5) ff] by blast
  have "IsZero x \<longleftrightarrow> x = replicate (length x) 0" for x
    unfolding IsZero_iff_aux by (metis in_set_replicate replicate_eqI)
  then show ?thesis
    using c' roaring_bitmap.wrote_shape(1) [OF assms(1,2) c'(2) ff(3,4)] assms(1,4,5)
    by (auto simp: roaring_bitmap.wrote_def roaring_bitmap.Get_spec written_state_def)
qed

theorem Cache_WriteAt_records_witness:
  "\<exists>c'. Cache_WriteAt listbm_ops \<lparr>c_filePath = ''d'', c_size = 6, c_blockSize = 2, c_mmap = Some (replicate 6 7),
         c_tracker = NewTracker listbm_ops, c_dirtyFile = False, c_closed = False\<rparr> [1, 0, 0, 0] 2 = Inr (c', 4) \<and>
     c_mmap c' = Some [7, 7, 1, 0, 0, 0] \<and> Get listbm_ops (c_tracker c') 2 = Zero"
proof -
  have dv: "(2::int) dvd 6" "(2::int) dvd 4" by presburger+
  show ?thesis
    using Cache_WriteAt_records [OF lbm.roaring_bitmap_axioms, of "\<lparr>c_filePath = ''d'', c_size = 6, c_blockSize = 2,
       c_mmap = Some (replicate 6 7), c_tracker = NewTracker listbm_ops, c_dirtyFile = False, c_closed = False\<rparr>"
       "replicate 6 7" 2 2 "[1, 0, 0, 0]"] dv
    by (auto simp: req_fits_def cache_shape_def NewTracker_def listbm_ops_def listbm_set_def overwrite_def sub_def
        block_of_def numeral_eq_Suc)
qed

text \<open>Slicing a cache beyond its size. Where the offset is in the block that would follow the
  last one, the range of blocks to test is empty, so it counts as cached, and the slice
  expression with its start after its end panics; from the next block on the request is refused
  as not available. \<open>sliceDirect\<close> refuses both.\<close>

theorem Cache_Slice_beyond_size:
  assumes "cache_shape c" "c_size c < off" "0 \<le> len" "off + len \<le> max_i64"
    and "off div c_blockSize c < 4294967296"
  shows "Cache_Slice ops c off len =
      (if off < c_size c + c_blockSize c then Inl Panic else Inl BytesNotAvailable) \<and>
    sliceDirect c off len = Inl BytesNotAvailable"
proof -
  let ?bs = "c_blockSize c" and ?s = "c_size c"
  obtain m where m: "c_mmap c = Some m" "int (length m) = ?s"
    using assms(1) by (auto simp: cache_shape_def split: option.splits)
  have s: "0 < ?bs" "?bs dvd ?s" "0 \<le> ?s" "\<not> c_closed c" "\<not> c_dirtyFile c"
    using assms(1) m by (auto simp: cache_shape_def)
  have o: "0 \<le> off" "off \<le> max_i64" using assms(2-4) s(3) by linarith+
  have "u32 (BlockIdx off ?bs) = off div ?bs"
    using BlockIdx_eq [OF o s(1)] assms(5) o s(1) by (simp add: u32_id pos_imp_zdiv_nonneg_iff)
  moreover have "u32 (BlockCeilIdx ?s ?bs) = ?s div ?bs" using cache_idx [OF assms(1) s(3) _ s(2)] by simp
  moreover have e: "min (i64 (off + len)) ?s = ?s" using assms(2-4) o by (simp add: i64_id)
  moreover have "?s div ?bs \<le> off div ?bs" using assms(2) s(1) by (simp add: zdiv_mono1)
  moreover have "off div ?bs = ?s div ?bs \<longleftrightarrow> off < ?s + ?bs"
    using div_less_iff [OF s(1), of off "?s div ?bs + 1"] s(2) \<open>?s div ?bs \<le> off div ?bs\<close>
    by (auto simp: distrib_right)
  ultimately have "isCached ops c off len \<longleftrightarrow> off < ?s + ?bs"
    by (auto simp: isCached_def Present_def)
  then show ?thesis
    using m s e assms(2) by (simp add: Cache_Slice_def sliceDirect_def go_slice_def)
qed

theorem Cache_Slice_beyond_size_witness:
  "Cache_Slice listbm_ops \<lparr>c_filePath = ''d'', c_size = 6, c_blockSize = 2, c_mmap = Some (replicate 6 7),
     c_tracker = NewTracker listbm_ops, c_dirtyFile = False, c_closed = False\<rparr> 7 1 = Inl Panic"
proof -
  have dv: "(2::int) dvd 6" by presburger
  show ?thesis
    using Cache_Slice_beyond_size [of "\<lparr>c_filePath = ''d'', c_size = 6, c_blockSize = 2, c_mmap = Some (replicate 6 7),
     c_tracker = NewTracker listbm_ops, c_dirtyFile = False, c_closed = False\<rparr>" 7 1 listbm_ops] dv
    by (simp add: cache_shape_def)
qed

end
