(* ===== verification/Dedup.thy ===== *)
theory Dedup
  imports Header Cache "HOL-Library.Product_Lexorder"
begin

text \<open>
  Deduplication of a memory diff against its parent,
  \<open>packages/orchestrator/pkg/sandbox/block/dedup.go\<close>. Each page of the dirty blocks is stored in
  the diff, recorded as empty, or left to the parent; two budget passes then move further pages
  from the parent into the diff so that a restore needs fewer fetches.

  The source of the dirty blocks, the parent device (its header, its \<open>Slice\<close> and the optional
  cache probe), and the points at which the context is found cancelled are parameters. Go's
  floating-point operations are a record \<open>float_ops\<close>, so that the price formula is written
  out and nothing depends on how the operations round. The loop over the map of parent keys
  runs in no fixed order in Go; its effects commute, and the model runs it in insertion order.

  What is shown: whatever the budgets decide, the diff restores exactly the source pages; the
  window cap never increases the number of fetch windows of a block, stays in its budget, and
  finds the best selection of whole groups, as the comment of \<open>compact\<close> argues; window walks
  advance.
\<close>

section \<open>Plans, budgets, keys\<close>

record 'b dedupPlan =
  pageDirty :: 'b
  pageEmpty :: 'b
  exportedSize :: int
  promotedBlocks :: int
  promotedPages :: int
  parentFrames :: int
  promotedFrames :: int
  promotedFramePages :: int

record DedupBudget =
  MaxFetchWindowsPerBlock :: int
  MaxPromotedParentPagesPerBlock :: int
  MaxPagesPerPromotedFrame :: int
  BlockFaultPct :: int
  FetchRunWindowPages :: int

datatype dedupPageKind = dedupPageEmpty | dedupPageParent | dedupPageCurrent

record dedupFetchKey =
  fk_buildID :: uuid
  fk_window :: int

record dedupPageInfo =
  pi_kind :: dedupPageKind
  pi_key :: dedupFetchKey

text \<open>The zero value of a page.\<close>

definition empty_info :: dedupPageInfo where
  "empty_info = \<lparr>pi_kind = dedupPageEmpty, pi_key = \<lparr>fk_buildID = uuid_Nil, fk_window = 0\<rparr>\<rparr>"

record base_device =
  bd_Header :: "Header option"
  bd_Slice :: "int \<Rightarrow> int \<Rightarrow> bytes result"
  bd_IsCached :: "(int \<Rightarrow> int \<Rightarrow> bool) option"

record 'f float_ops =
  f_of_int :: "int \<Rightarrow> 'f"
  f_div :: "'f \<Rightarrow> 'f \<Rightarrow> 'f"
  f_sub :: "'f \<Rightarrow> 'f \<Rightarrow> 'f"
  f_mul :: "'f \<Rightarrow> 'f \<Rightarrow> 'f"
  f_pow :: "'f \<Rightarrow> 'f \<Rightarrow> 'f"
  f_le :: "'f \<Rightarrow> 'f \<Rightarrow> bool"

section \<open>Fetch keys\<close>

definition fetchKeyAndEnd :: "FrameTable option \<Rightarrow> uuid \<Rightarrow> int \<Rightarrow> int \<Rightarrow> dedupFetchKey \<times> int" where
  "fetchKeyAndEnd ft buildID off windowBytes =
     (let bucket = (\<lparr>fk_buildID = buildID, fk_window = i64 (off sdiv windowBytes)\<rparr>,
                    i64 (i64 (i64 (off sdiv windowBytes) + 1) * windowBytes))
      in if IsCompressed ft
         then (case LocateUncompressed ft off of
                 Inr u \<Rightarrow>
                   if i64 (srOffset u + srLength u) > off
                   then (\<lparr>fk_buildID = buildID, fk_window = srOffset u sdiv PageSize\<rparr>,
                         i64 (srOffset u + srLength u))
                   else bucket
               | Inl _ \<Rightarrow> bucket)
         else bucket)"

text \<open>The optional mapping stands for the pair \<open>mapped, hasMapping\<close>.\<close>

definition lookup_mapping :: "Header option \<Rightarrow> int \<Rightarrow> BuildMap option" where
  "lookup_mapping baseHeader pageOff =
     (case baseHeader of None \<Rightarrow> None
      | Some h \<Rightarrow> (case GetShiftedMapping h pageOff of Inr m \<Rightarrow> Some m | Inl _ \<Rightarrow> None))"

definition parentFetchKey :: "Header option \<Rightarrow> BuildMap option \<Rightarrow> int \<Rightarrow> int \<Rightarrow> dedupFetchKey" where
  "parentFetchKey baseHeader mapped pageOff windowBytes =
     (case mapped of
        None \<Rightarrow> \<lparr>fk_buildID = uuid_Nil, fk_window = pageOff sdiv windowBytes\<rparr>
      | Some m \<Rightarrow>
          fst (fetchKeyAndEnd
            (case baseHeader of None \<Rightarrow> None | Some h \<Rightarrow> GetBuildFrameData h (BuildId m))
            (BuildId m) (i64 (Offset m)) windowBytes))"

section \<open>Comparing the dirty pages with the parent\<close>

fun foldR :: "('a \<Rightarrow> 's \<Rightarrow> 's result) \<Rightarrow> 'a list \<Rightarrow> 's \<Rightarrow> 's result" where
  "foldR f [] s = Inr s"
| "foldR f (x # xs) s = bindR (f x s) (foldR f xs)"

text \<open>Where a page goes, in the order of the tests of the loop body.\<close>

datatype page_class = PEmpty | PCurrent | PParent dedupFetchKey

definition classify ::
  "base_device \<Rightarrow> bool \<Rightarrow> int \<Rightarrow> bytes \<Rightarrow> int \<Rightarrow> page_class result" where
  "classify base bestEffort windowBytes srcPage pageOff =
     (if IsZero srcPage then Inr PEmpty
      else let mapped = lookup_mapping (bd_Header base) pageOff
           in if (case mapped of None \<Rightarrow> False
                  | Some m \<Rightarrow> BuildId m = uuid_Nil \<and> i64 (Length m) \<ge> PageSize) then Inr PCurrent
              else if bestEffort \<and> (case bd_IsCached base of None \<Rightarrow> False | Some ic \<Rightarrow> \<not> ic pageOff PageSize)
                then Inr PCurrent
              else bindR (bd_Slice base pageOff PageSize) (\<lambda>basePage.
                     if srcPage \<noteq> basePage then Inr PCurrent
                     else Inr (PParent (parentFetchKey (bd_Header base) mapped pageOff windowBytes))))"

type_synonym 'b compare_state = "'b dedupPlan \<times> (dedupFetchKey \<times> 'b) list"

fun record_page :: "'b bitmap_ops \<Rightarrow> int \<Rightarrow> page_class \<Rightarrow> 'b compare_state \<Rightarrow> 'b compare_state" where
  "record_page ops pageIdx PEmpty (plan, parents) =
     (plan\<lparr>pageEmpty := bm_Add ops (pageEmpty plan) pageIdx\<rparr>, parents)"
| "record_page ops pageIdx PCurrent (plan, parents) =
     (plan\<lparr>pageDirty := bm_Add ops (pageDirty plan) pageIdx\<rparr>, parents)"
| "record_page ops pageIdx (PParent key) (plan, parents) =
     (plan, AList.update key
        (bm_Add ops (case map_of parents key of None \<Rightarrow> bm_New ops | Some bm \<Rightarrow> bm) pageIdx) parents)"

text \<open>The offsets \<open>lo\<close>, \<open>lo + step\<close>, \dots below \<open>hi\<close>, which the counting loops run through.\<close>

definition offsets :: "int \<Rightarrow> int \<Rightarrow> int \<Rightarrow> int list" where
  "offsets lo hi step = map (\<lambda>k. lo + k * step) [0..(hi - lo + step - 1) div step - 1]"

definition compare_page ::
  "'b bitmap_ops \<Rightarrow> base_device \<Rightarrow> bool \<Rightarrow> int \<Rightarrow> bytes \<Rightarrow> int \<Rightarrow> int \<Rightarrow> 'b compare_state \<Rightarrow>
   'b compare_state result" where
  "compare_page ops base bestEffort windowBytes srcBuf absOff i st =
     bindR (go_slice srcBuf i (i + PageSize)) (\<lambda>srcPage.
       bindR (classify base bestEffort windowBytes srcPage (absOff + i)) (\<lambda>cl.
         Inr (record_page ops (u32 ((absOff + i) sdiv PageSize)) cl st)))"

text \<open>\<open>ctxErr 0\<close> gives the error of the context when a block is reached in this loop, \<open>ctxErr 1\<close> in
  that of \<open>compactBlockWindows\<close>.\<close>

definition compare_block ::
  "'b bitmap_ops \<Rightarrow> (nat \<Rightarrow> int \<Rightarrow> error option) \<Rightarrow> (int \<Rightarrow> bytes result) \<Rightarrow> base_device \<Rightarrow> int \<Rightarrow> bool \<Rightarrow>
   int \<Rightarrow> int \<Rightarrow> 'b compare_state \<Rightarrow> 'b compare_state result" where
  "compare_block ops ctxErr src base blockSize bestEffort windowBytes absOff st =
     (case ctxErr 0 absOff of Some e \<Rightarrow> Inl e
      | None \<Rightarrow> bindR (src absOff) (\<lambda>srcBuf.
          foldR (compare_page ops base bestEffort windowBytes srcBuf absOff)
            (offsets 0 blockSize PageSize) st))"

definition compare_range ::
  "'b bitmap_ops \<Rightarrow> (nat \<Rightarrow> int \<Rightarrow> error option) \<Rightarrow> (int \<Rightarrow> bytes result) \<Rightarrow> base_device \<Rightarrow> int \<Rightarrow> bool \<Rightarrow>
   int \<Rightarrow> Range \<Rightarrow> 'b compare_state \<Rightarrow> 'b compare_state result" where
  "compare_range ops ctxErr src base blockSize bestEffort windowBytes r st =
     (case st of (plan, parents) \<Rightarrow>
        foldR (\<lambda>chunkOff. compare_block ops ctxErr src base blockSize bestEffort windowBytes (RStart r + chunkOff))
          (offsets 0 (RSize r) blockSize)
          (plan\<lparr>exportedSize := i64 (exportedSize plan + RSize r)\<rparr>, parents))"

section \<open>Blocks outside the diff\<close>

text \<open>\<open>None\<close> is a step that does not advance, from which the loop over \<open>off\<close> might never end; see
  \<open>window_advances\<close> below. A missing entry of a Go map of integers reads as zero.\<close>

function window_walk ::
  "FrameTable option \<Rightarrow> uuid \<Rightarrow> int \<Rightarrow> (dedupFetchKey \<Rightarrow> bool) \<Rightarrow> int \<Rightarrow> int \<Rightarrow> int \<Rightarrow>
   (dedupFetchKey \<Rightarrow> int) \<times> (dedupFetchKey \<Rightarrow> int) \<Rightarrow>
   ((dedupFetchKey \<Rightarrow> int) \<times> (dedupFetchKey \<Rightarrow> int)) option" where
  "window_walk ft buildID windowBytes candidate block off hi (counts, lastBlock) =
     (if off < hi
      then let (key, nxt) = fetchKeyAndEnd ft buildID off windowBytes;
               st' = (if candidate key \<and> lastBlock key \<noteq> block + 1
                      then (counts(key := counts key + 1), lastBlock(key := block + 1))
                      else (counts, lastBlock))
           in if off < nxt then window_walk ft buildID windowBytes candidate block nxt hi st' else None
      else Some (counts, lastBlock))"
  by pat_completeness auto
termination
  by (relation "measure (\<lambda>(ft, b, w, c, bl, off, hi, st). nat (hi - off))") auto

declare window_walk.simps [simp del]

definition external_block ::
  "'b bitmap_ops \<Rightarrow> 'b \<Rightarrow> FrameTable option \<Rightarrow> BuildMap \<Rightarrow> int \<Rightarrow> int \<Rightarrow> (dedupFetchKey \<Rightarrow> bool) \<Rightarrow> int \<Rightarrow>
   (dedupFetchKey \<Rightarrow> int) \<times> (dedupFetchKey \<Rightarrow> int) \<Rightarrow>
   ((dedupFetchKey \<Rightarrow> int) \<times> (dedupFetchKey \<Rightarrow> int)) option" where
  "external_block ops dirty ft m blockSize windowBytes candidate block st =
     (if bm_Contains ops dirty (u32 block) then Some st
      else let mo = i64 (Offset m); mb = i64 (BuildStorageOffset m);
               endo = i64 (u64 (Offset m + Length m));
               lo = max (block * blockSize) mo - mo + mb;
               hi = min ((block + 1) * blockSize) endo - mo + mb
           in window_walk ft (BuildId m) windowBytes candidate block lo hi st)"

fun foldO :: "('a \<Rightarrow> 's \<Rightarrow> 's option) \<Rightarrow> 'a list \<Rightarrow> 's \<Rightarrow> 's option" where
  "foldO f [] s = Some s"
| "foldO f (x # xs) s = (case f x s of None \<Rightarrow> None | Some s' \<Rightarrow> foldO f xs s')"

definition countExternalBlocks ::
  "'b bitmap_ops \<Rightarrow> (dedupFetchKey \<Rightarrow> bool) \<Rightarrow> bool \<Rightarrow> Header option \<Rightarrow> 'b \<Rightarrow> int \<Rightarrow> int \<Rightarrow>
   (dedupFetchKey \<Rightarrow> int) option" where
  "countExternalBlocks ops candidate noCandidates baseHeader dirty blockSize windowBytes =
     (case baseHeader of
        None \<Rightarrow> Some (\<lambda>_. 0)
      | Some h \<Rightarrow>
          if noCandidates then Some (\<lambda>_. 0)
          else map_option fst (foldO (\<lambda>(_, m) st.
            if BuildId m = uuid_Nil then Some st
            else foldO (external_block ops dirty (GetBuildFrameData h (BuildId m)) m blockSize windowBytes candidate)
                   [i64 (Offset m) sdiv blockSize..
                    (i64 (u64 (Offset m + Length m)) + blockSize - 1) div blockSize - 1] st)
            (All (h_Mapping h)) (\<lambda>_. 0, \<lambda>_. 0)))"

section \<open>Promotion of cheap frames\<close>

fun distinct_loop :: "int \<Rightarrow> int list \<Rightarrow> int \<Rightarrow> int \<Rightarrow> int" where
  "distinct_loop pagesPerBlock [] n lst = n"
| "distinct_loop pagesPerBlock (p # ps) n lst =
     (let b = p sdiv pagesPerBlock
      in if b \<noteq> lst then distinct_loop pagesPerBlock ps (n + 1) b
         else distinct_loop pagesPerBlock ps n lst)"

definition distinctBlocks :: "'b bitmap_ops \<Rightarrow> 'b \<Rightarrow> int \<Rightarrow> int" where
  "distinctBlocks ops pages pagesPerBlock = distinct_loop pagesPerBlock (bm_Iterator ops pages) 0 (- 1)"

definition frame_value :: "'f float_ops \<Rightarrow> int \<Rightarrow> int \<Rightarrow> int \<Rightarrow> 'f" where
  "frame_value fl blockFaultPct ext blocks =
     (let one = f_of_int fl 1;
          pFault = (if 0 < blockFaultPct \<and> blockFaultPct < 100
                    then f_div fl (f_of_int fl blockFaultPct) (f_of_int fl 100) else one)
      in f_mul fl (f_pow fl (f_sub fl one pFault) (f_of_int fl ext))
           (f_sub fl one (f_pow fl (f_sub fl one pFault) (f_of_int fl blocks))))"

definition promote_frame ::
  "'b bitmap_ops \<Rightarrow> 'f float_ops \<Rightarrow> (dedupFetchKey \<Rightarrow> int) \<Rightarrow> int \<Rightarrow> DedupBudget \<Rightarrow>
   dedupFetchKey \<times> 'b \<Rightarrow> 'b dedupPlan \<Rightarrow> 'b dedupPlan" where
  "promote_frame ops fl extBlocks pagesPerBlock budget kb p =
     (case kb of (k, bm) \<Rightarrow>
        let maxPages = min (MaxPagesPerPromotedFrame budget) (i64 (FetchRunWindowPages budget - 1));
            val = frame_value fl (BlockFaultPct budget) (extBlocks k) (distinctBlocks ops bm pagesPerBlock);
            n = i64 (bm_GetCardinality ops bm)
        in if n > 0 \<and> f_le fl (f_of_int fl n) (f_mul fl (f_of_int fl maxPages) val)
           then p\<lparr>pageDirty := bm_Or ops (pageDirty p) bm,
                  promotedFrames := i64 (promotedFrames p + 1),
                  promotedFramePages := i64 (promotedFramePages p + n)\<rparr>
           else p)"

definition promoteCheapFrames ::
  "'b bitmap_ops \<Rightarrow> 'f float_ops \<Rightarrow> (dedupFetchKey \<times> 'b) list \<Rightarrow> (dedupFetchKey \<Rightarrow> int) \<Rightarrow> int \<Rightarrow> DedupBudget \<Rightarrow>
   'b dedupPlan \<Rightarrow> 'b dedupPlan" where
  "promoteCheapFrames ops fl parentByKey extBlocks pagesPerBlock budget p =
     fold (promote_frame ops fl extBlocks pagesPerBlock budget) parentByKey p"

section \<open>The window cap of a block\<close>

record fetchWindower =
  windowPages :: int
  currentStart :: int

definition currentWindows :: "fetchWindower \<Rightarrow> int \<Rightarrow> int" where
  "currentWindows w n =
     (if n = 0 then 0
      else (currentStart w + n - 1) sdiv windowPages w - currentStart w sdiv windowPages w + 1)"

text \<open>Page indices grouped by key; the groups are then sorted by size and first index. No two groups
  have the same first index, so the order of the groups before sorting does not matter.\<close>

fun group_pages :: "nat \<Rightarrow> dedupPageInfo list \<Rightarrow> (dedupFetchKey \<times> nat list) list \<Rightarrow> (dedupFetchKey \<times> nat list) list" where
  "group_pages i [] acc = acc"
| "group_pages i (p # ps) acc =
     group_pages (Suc i) ps
       (if pi_kind p = dedupPageParent
        then AList.update (pi_key p) ((case map_of acc (pi_key p) of None \<Rightarrow> [] | Some is \<Rightarrow> is) @ [i]) acc
        else acc)"

definition parentKeyGroups :: "dedupPageInfo list \<Rightarrow> nat list list" where
  "parentKeyGroups pages = sort_key (\<lambda>g. (length g, hd g)) (map snd (group_pages 0 pages []))"

text \<open>The scan of the prefixes of the sorted groups: the best count, the number of groups and of
  pages chosen.\<close>

fun prefix_scan ::
  "fetchWindower \<Rightarrow> int \<Rightarrow> int \<Rightarrow> int \<Rightarrow> int \<Rightarrow> nat list list \<Rightarrow> nat \<Rightarrow> int \<Rightarrow> int \<times> nat \<times> int \<Rightarrow> int \<times> nat \<times> int" where
  "prefix_scan w nCur ngroups maxWindows maxPromoted [] g n (best, chosen, promoted) = (best, chosen, promoted)"
| "prefix_scan w nCur ngroups maxWindows maxPromoted (grp # groups) g n (best, chosen, promoted) =
     (let n' = n + int (length grp)
      in if n' > maxPromoted then (best, chosen, promoted)
         else let c = ngroups - (int g + 1) + currentWindows w (nCur + n');
                  r = (if c < best then (c, g + 1, n') else (best, chosen, promoted))
              in if fst r \<le> maxWindows then r
                 else prefix_scan w nCur ngroups maxWindows maxPromoted groups (g + 1) n' r)"

definition compact :: "fetchWindower \<Rightarrow> dedupPageInfo list \<Rightarrow> int \<Rightarrow> int \<Rightarrow> dedupPageInfo list \<times> int" where
  "compact w pages maxWindows maxPromoted =
     (if maxWindows \<le> 0 \<or> maxPromoted \<le> 0 then (pages, 0)
      else let nCur = int (length (filter (\<lambda>p. pi_kind p = dedupPageCurrent) pages));
               groups = parentKeyGroups pages;
               best = int (length groups) + currentWindows w nCur
           in if best \<le> maxWindows then (pages, 0)
              else case prefix_scan w nCur (int (length groups)) maxWindows maxPromoted groups 0 0 (best, 0, 0) of
                (_, chosen, promoted) \<Rightarrow>
                  (fold (\<lambda>i ps. ps[i := (ps ! i)\<lparr>pi_kind := dedupPageCurrent\<rparr>]) (concat (take chosen groups)) pages,
                   promoted))"

section \<open>The cap over all blocks\<close>

definition page_info ::
  "'b bitmap_ops \<Rightarrow> 'b dedupPlan \<Rightarrow> Header option \<Rightarrow> int \<Rightarrow> int \<Rightarrow> int \<Rightarrow> int \<Rightarrow> dedupPageInfo" where
  "page_info ops plan baseHeader windowBytes absOff firstPage p =
     (let pageIdx = u32 (firstPage + u32 p)
      in if bm_Contains ops (pageDirty plan) pageIdx then empty_info\<lparr>pi_kind := dedupPageCurrent\<rparr>
         else if bm_Contains ops (pageEmpty plan) pageIdx then empty_info
         else let pageOff = absOff + p * PageSize
              in \<lparr>pi_kind = dedupPageParent,
                  pi_key = parentFetchKey baseHeader (lookup_mapping baseHeader pageOff) pageOff windowBytes\<rparr>)"

definition compact_block ::
  "'b bitmap_ops \<Rightarrow> (nat \<Rightarrow> int \<Rightarrow> error option) \<Rightarrow> Header option \<Rightarrow> int \<Rightarrow> int \<Rightarrow> DedupBudget \<Rightarrow>
   int \<Rightarrow> 'b dedupPlan \<times> int \<Rightarrow> ('b dedupPlan \<times> int) result" where
  "compact_block ops ctxErr baseHeader blockSize windowBytes budget absOff st =
     (case st of (plan, currentStoredPages) \<Rightarrow>
       case ctxErr 1 absOff of Some e \<Rightarrow> Inl e
       | None \<Rightarrow>
          let firstPage = u32 (absOff sdiv PageSize);
              pages = map (page_info ops plan baseHeader windowBytes absOff firstPage)
                        [0..blockSize sdiv PageSize - 1];
              w = \<lparr>windowPages = FetchRunWindowPages budget, currentStart = currentStoredPages\<rparr>;
              (pages', n) = compact w pages (MaxFetchWindowsPerBlock budget) (MaxPromotedParentPagesPerBlock budget);
              plan' = (if n > 0 then plan\<lparr>promotedBlocks := i64 (promotedBlocks plan + 1),
                                          promotedPages := i64 (promotedPages plan + n)\<rparr> else plan);
              current = filter (\<lambda>p. pi_kind (pages' ! nat p) = dedupPageCurrent) [0..int (length pages') - 1]
          in Inr (plan'\<lparr>pageDirty := fold (\<lambda>p b. bm_Add ops b (u32 (firstPage + u32 p))) current (pageDirty plan')\<rparr>,
                  currentStoredPages + int (length current)))"

definition compactBlockWindows ::
  "'b bitmap_ops \<Rightarrow> (nat \<Rightarrow> int \<Rightarrow> error option) \<Rightarrow> 'b dedupPlan \<Rightarrow> Header option \<Rightarrow> 'b \<Rightarrow> int \<Rightarrow> int \<Rightarrow>
   DedupBudget \<Rightarrow> 'b dedupPlan result" where
  "compactBlockWindows ops ctxErr plan baseHeader dirty blockSize windowBytes budget =
     (if MaxFetchWindowsPerBlock budget \<le> 0 \<or> MaxPromotedParentPagesPerBlock budget \<le> 0 then Inr plan
      else bindR (foldR (\<lambda>r. foldR (\<lambda>chunkOff.
                     compact_block ops ctxErr baseHeader blockSize windowBytes budget (RStart r + chunkOff))
                   (offsets 0 (RSize r) blockSize))
             (BitsetRanges ops dirty blockSize) (plan, 0)) (\<lambda>(plan', _). Inr plan'))"

section \<open>The whole comparison\<close>

text \<open>The outer option is \<open>None\<close> only where a window walk does not advance.\<close>

definition dedupCompare ::
  "'b bitmap_ops \<Rightarrow> 'f float_ops \<Rightarrow> (nat \<Rightarrow> int \<Rightarrow> error option) \<Rightarrow> (int \<Rightarrow> bytes result) \<Rightarrow> base_device \<Rightarrow> 'b \<Rightarrow>
   int \<Rightarrow> bool \<Rightarrow> DedupBudget \<Rightarrow> 'b dedupPlan result option" where
  "dedupCompare ops fl ctxErr src base dirty blockSize bestEffort budget0 =
     (let budget = (if FetchRunWindowPages budget0 \<le> 0
                    then budget0\<lparr>FetchRunWindowPages := DefaultCompressFrameSize sdiv PageSize\<rparr> else budget0);
          windowBytes = i64 (FetchRunWindowPages budget * PageSize);
          plan0 = \<lparr>pageDirty = bm_New ops, pageEmpty = bm_New ops, exportedSize = 0, promotedBlocks = 0,
                   promotedPages = 0, parentFrames = 0, promotedFrames = 0, promotedFramePages = 0\<rparr>
      in case foldR (compare_range ops ctxErr src base blockSize bestEffort windowBytes)
                (BitsetRanges ops dirty blockSize) (plan0, []) of
           Inl e \<Rightarrow> Some (Inl e)
         | Inr (plan1, parentByKey) \<Rightarrow>
             let plan2 = plan1\<lparr>parentFrames := int (length parentByKey)\<rparr>;
                 finish = (\<lambda>plan. compactBlockWindows ops ctxErr plan (bd_Header base) dirty blockSize windowBytes budget)
             in if MaxPagesPerPromotedFrame budget > 0
                then map_option (\<lambda>extBlocks.
                       finish (promoteCheapFrames ops fl parentByKey extBlocks (blockSize sdiv PageSize) budget plan2))
                     (countExternalBlocks ops (\<lambda>k. map_of parentByKey k \<noteq> None) (parentByKey = [])
                        (bd_Header base) dirty blockSize windowBytes)
                else Some (finish plan2))"

section \<open>Groups of parent pages\<close>

abbreviation is_parent :: "dedupPageInfo \<Rightarrow> bool" where
  "is_parent p \<equiv> pi_kind p = dedupPageParent"

abbreviation is_current :: "dedupPageInfo \<Rightarrow> bool" where
  "is_current p \<equiv> pi_kind p = dedupPageCurrent"

definition parent_keys :: "dedupPageInfo list \<Rightarrow> dedupFetchKey set" where
  "parent_keys pages = pi_key ` {p \<in> set pages. is_parent p}"

definition key_pages :: "dedupPageInfo list \<Rightarrow> dedupFetchKey \<Rightarrow> nat list" where
  "key_pages pages k = filter (\<lambda>i. is_parent (pages ! i) \<and> pi_key (pages ! i) = k) [0..<length pages]"

lemma key_pages_snoc:
  "key_pages (pages @ [p]) k = key_pages pages k @ (if is_parent p \<and> pi_key p = k then [length pages] else [])"
  by (auto simp: key_pages_def nth_append intro!: filter_cong)

lemma group_pages_spec:
  assumes "distinct (map fst acc)" "i = length pre"
    "\<forall>k. map_of acc k = (if key_pages pre k = [] then None else Some (key_pages pre k))"
  shows "distinct (map fst (group_pages i ps acc)) \<and>
    (\<forall>k. map_of (group_pages i ps acc) k =
      (if key_pages (pre @ ps) k = [] then None else Some (key_pages (pre @ ps) k)))"
  using assms
proof (induction ps arbitrary: i acc pre)
  case (Cons p ps)
  let ?acc = "if is_parent p
    then AList.update (pi_key p) ((case map_of acc (pi_key p) of None \<Rightarrow> [] | Some is \<Rightarrow> is) @ [i]) acc else acc"
  have d: "distinct (map fst ?acc)" using Cons.prems(1) by (simp add: distinct_update)
  have "map_of ?acc k = (if key_pages (pre @ [p]) k = [] then None else Some (key_pages (pre @ [p]) k))" for k
    using Cons.prems(2,3) by (auto simp: key_pages_snoc update_conv')
  then show ?case
    using Cons.IH [OF d, of "Suc i" "pre @ [p]"] Cons.prems(2)
    by (simp only: group_pages.simps length_append_singleton append.assoc append_Cons append_Nil) simp
qed simp

lemma key_pages_Nil_iff: "key_pages pages k = [] \<longleftrightarrow> k \<notin> parent_keys pages"
  by (fastforce simp: key_pages_def parent_keys_def filter_empty_conv in_set_conv_nth)

lemma key_pages_inj: "inj_on (key_pages pages) (parent_keys pages)"
proof (rule inj_onI)
  fix k l assume kl: "k \<in> parent_keys pages" "l \<in> parent_keys pages" "key_pages pages k = key_pages pages l"
  then obtain i where "i \<in> set (key_pages pages k)" "i \<in> set (key_pages pages l)"
    using key_pages_Nil_iff by (metis list.set_intros(1) neq_Nil_conv)
  then show "k = l" by (auto simp: key_pages_def)
qed

lemma parentKeyGroups_spec:
  "distinct (parentKeyGroups pages)"
  "set (parentKeyGroups pages) = key_pages pages ` parent_keys pages"
  "sorted (map length (parentKeyGroups pages))"
proof -
  let ?gs = "group_pages 0 pages []"
  have g: "distinct (map fst ?gs)"
    "\<And>k. map_of ?gs k = (if k \<in> parent_keys pages then Some (key_pages pages k) else None)"
    using group_pages_spec [of "[]" 0 "[]" pages] by (auto simp: key_pages_def key_pages_Nil_iff [symmetric])
  have el: "(k, x) \<in> set ?gs \<longleftrightarrow> k \<in> parent_keys pages \<and> x = key_pages pages k" for k x
    using map_of_eq_Some_iff [OF g(1), of k x] g(2) [of k] by (auto split: if_splits)
  have "inj_on snd (set ?gs)"
    using key_pages_inj [of pages] by (auto simp: inj_on_def el)
  then have "distinct (map snd ?gs)" using g(1) by (simp add: distinct_map)
  then show "distinct (parentKeyGroups pages)" by (simp add: parentKeyGroups_def)
  show "set (parentKeyGroups pages) = key_pages pages ` parent_keys pages"
  proof -
    have "set ?gs = (\<lambda>k. (k, key_pages pages k)) ` parent_keys pages" using el by auto
    then show ?thesis by (simp add: parentKeyGroups_def image_image)
  qed
  have "sorted (map (\<lambda>g. (length g, hd g)) (parentKeyGroups pages))"
    by (simp add: parentKeyGroups_def)
  then show "sorted (map length (parentKeyGroups pages))"
    by (auto simp: sorted_map less_eq_prod_def elim!: sorted_wrt_mono_rel [rotated])
qed

lemma finite_parent_keys [simp]: "finite (parent_keys pages)"
  by (simp add: parent_keys_def)

lemma length_parentKeyGroups: "length (parentKeyGroups pages) = card (parent_keys pages)"
  using parentKeyGroups_spec(1,2) [of pages] distinct_card card_image [OF key_pages_inj] by metis

section \<open>Whole-key promotion and its cost\<close>

definition promote_keys :: "dedupFetchKey set \<Rightarrow> dedupPageInfo list \<Rightarrow> dedupPageInfo list" where
  "promote_keys K pages =
     map (\<lambda>p. if is_parent p \<and> pi_key p \<in> K then p\<lparr>pi_kind := dedupPageCurrent\<rparr> else p) pages"

definition promotion_cost :: "dedupFetchKey set \<Rightarrow> dedupPageInfo list \<Rightarrow> int" where
  "promotion_cost K pages = int (length (filter (\<lambda>p. is_parent p \<and> pi_key p \<in> K) pages))"

definition fetch_windows :: "fetchWindower \<Rightarrow> dedupPageInfo list \<Rightarrow> int" where
  "fetch_windows w pages =
     int (card (parent_keys pages)) + currentWindows w (int (length (filter is_current pages)))"

lemma promote_keys_windows:
  "fetch_windows w (promote_keys K pages) =
     int (card (parent_keys pages - K)) +
     currentWindows w (int (length (filter is_current pages)) + promotion_cost K pages)"
proof -
  have "parent_keys (promote_keys K pages) = parent_keys pages - K"
    by (force simp: parent_keys_def promote_keys_def)
  moreover have "length (filter is_current (promote_keys K pages)) =
      length (filter is_current pages) + length (filter (\<lambda>p. is_parent p \<and> pi_key p \<in> K) pages)"
    by (induction pages) (auto simp: promote_keys_def)
  ultimately show ?thesis by (simp add: fetch_windows_def promotion_cost_def)
qed

lemma length_key_pages:
  "length (key_pages pages k) = length (filter (\<lambda>p. is_parent p \<and> pi_key p = k) pages)"
  unfolding key_pages_def length_filter_conv_card by (simp cong: conj_cong)

lemma promotion_cost_sum:
  assumes "finite K"
  shows "promotion_cost K pages = int (\<Sum>k \<in> K. length (key_pages pages k))"
proof (induction pages)
  case Nil
  show ?case by (simp add: promotion_cost_def length_key_pages)
next
  case (Cons p pages)
  have "(\<Sum>k \<in> K. if is_parent p \<and> pi_key p = k then Suc (f k) else f k) =
      (\<Sum>k \<in> K. f k) + (if is_parent p \<and> pi_key p \<in> K then 1 else 0)" for f :: "dedupFetchKey \<Rightarrow> nat"
  proof -
    have "(\<Sum>k \<in> K. if is_parent p \<and> pi_key p = k then Suc (f k) else f k) =
        (\<Sum>k \<in> K. f k + (if pi_key p = k then if is_parent p then 1 else 0 else 0))"
      by (intro sum.cong) auto
    then show ?thesis using assms by (simp add: sum.distrib)
  qed
  then show ?case using Cons.IH
    by (simp add: promotion_cost_def length_key_pages if_distrib [of length] cong: if_cong)
qed

lemma currentWindows_mono:
  assumes "0 < windowPages w" "0 \<le> currentStart w" "0 \<le> a" "a \<le> b"
  shows "currentWindows w a \<le> currentWindows w b"
proof -
  have "(currentStart w + a - 1) div windowPages w \<le> (currentStart w + b - 1) div windowPages w"
    "currentStart w div windowPages w \<le> (currentStart w + b - 1) div windowPages w" if "0 < b"
    using assms that by (intro zdiv_mono1; simp)+
  then show ?thesis
    using assms by (auto simp: currentWindows_def sdiv_nonneg)
qed

lemma sorted_prefix_least:
  assumes "distinct gs" "sorted (map f gs)" "T \<subseteq> set gs"
  shows "sum_list (map f (take (card T) gs)) \<le> (\<Sum>g \<in> T. f g :: nat)"
  using assms
proof (induction gs arbitrary: T)
  case (Cons g gs)
  have fin: "finite T" using Cons.prems(3) finite_subset by blast
  show ?case
  proof (cases "T = {}")
    case False
    define t where "t = (if g \<in> T then g else (SOME t. t \<in> T))"
    have t: "t \<in> T" using False by (auto simp: t_def some_in_eq)
    have le: "f g \<le> f t" using t Cons.prems(2,3) by auto
    have "T - {t} \<subseteq> set gs" using Cons.prems(3) t by (auto simp: t_def)
    then have "sum_list (map f (take (card (T - {t})) gs)) \<le> (\<Sum>g \<in> T - {t}. f g)"
      using Cons.prems by (intro Cons.IH) auto
    moreover have "card T = Suc (card (T - {t}))" using t fin by (metis card_Suc_Diff1)
    moreover have "(\<Sum>g \<in> T. f g) = f t + (\<Sum>g \<in> T - {t}. f g)" using t fin by (simp add: sum.remove)
    ultimately show ?thesis using le by simp
  qed simp
qed simp

section \<open>The scan and the choice of \<open>compact\<close>\<close>

text \<open>The fetch windows that remain when the first \<open>j\<close> groups are promoted.\<close>

definition prefix_pages :: "nat list list \<Rightarrow> nat \<Rightarrow> int" where
  "prefix_pages gs j = int (sum_list (map length (take j gs)))"

definition prefix_windows :: "fetchWindower \<Rightarrow> int \<Rightarrow> nat list list \<Rightarrow> nat \<Rightarrow> int" where
  "prefix_windows w nCur gs j = int (length gs) - int j + currentWindows w (nCur + prefix_pages gs j)"

definition scan_ok ::
  "fetchWindower \<Rightarrow> int \<Rightarrow> int \<Rightarrow> nat list list \<Rightarrow> nat \<Rightarrow> int \<times> nat \<times> int \<Rightarrow> bool" where
  "scan_ok w nCur maxPromoted gs g r \<longleftrightarrow>
     (case r of (best, chosen, promoted) \<Rightarrow>
        chosen \<le> length gs \<and> promoted = prefix_pages gs chosen \<and> promoted \<le> maxPromoted \<and>
        best = prefix_windows w nCur gs chosen \<and> (0 < chosen \<longrightarrow> best < prefix_windows w nCur gs 0) \<and>
        (\<forall>j \<le> g. best \<le> prefix_windows w nCur gs j))"

lemma prefix_pages_Suc: "j < length gs \<Longrightarrow> prefix_pages gs (Suc j) = prefix_pages gs j + int (length (gs ! j))"
  by (simp add: prefix_pages_def take_Suc_conv_app_nth)

lemma prefix_pages_mono: "i \<le> j \<Longrightarrow> prefix_pages gs i \<le> prefix_pages gs j"
proof (induction j)
  case (Suc j)
  then show ?case
    by (cases "i = Suc j"; cases "j < length gs") (auto simp: prefix_pages_Suc, simp add: prefix_pages_def)
qed simp

lemma prefix_scan_spec:
  assumes "scan_ok w nCur mp gs g (best, chosen, promoted)" "g \<le> length gs" "mw < best"
    and "prefix_scan w nCur (int (length gs)) mw mp (drop g gs) g (prefix_pages gs g) (best, chosen, promoted) = r"
  shows "scan_ok w nCur mp gs 0 r \<and>
    (fst r \<le> mw \<or> (\<forall>j \<le> length gs. prefix_pages gs j \<le> mp \<longrightarrow> fst r \<le> prefix_windows w nCur gs j))"
  using assms
proof (induction "drop g gs" arbitrary: g best chosen promoted)
  case Nil
  then show ?case by (auto simp: scan_ok_def)
next
  case (Cons grp rest)
  have g: "g < length gs" using Cons.hyps(2) by (metis drop_eq_Nil2 list.distinct(1) not_less)
  have grp: "grp = gs ! g" "rest = drop (Suc g) gs"
    using Cons.hyps(2) g by (metis Cons_nth_drop_Suc list.inject)+
  have n': "prefix_pages gs g + int (length grp) = prefix_pages gs (Suc g)" using g grp prefix_pages_Suc by simp
  have c: "int (length gs) - (int g + 1) + currentWindows w (nCur + prefix_pages gs (Suc g)) =
      prefix_windows w nCur gs (Suc g)" by (simp add: prefix_windows_def)
  show ?case
  proof (cases "prefix_pages gs (Suc g) > mp")
    case True
    then have r: "r = (best, chosen, promoted)"
      using Cons.prems(4) unfolding Cons.hyps(2) [symmetric] by (simp add: n')
    have "j \<le> g" if "prefix_pages gs j \<le> mp" for j
    proof (rule ccontr)
      assume "\<not> j \<le> g"
      then have "prefix_pages gs (Suc g) \<le> prefix_pages gs j" by (intro prefix_pages_mono) simp
      with that True show False by linarith
    qed
    then show ?thesis using Cons.prems(1) r by (auto simp: scan_ok_def)
  next
    case False
    define q where "q = (if prefix_windows w nCur gs (Suc g) < best
       then (prefix_windows w nCur gs (Suc g), Suc g, prefix_pages gs (Suc g)) else (best, chosen, promoted))"
    have q: "scan_ok w nCur mp gs (Suc g) q"
    proof -
      have "best \<le> prefix_windows w nCur gs 0" using Cons.prems(1) by (auto simp: scan_ok_def)
      then show ?thesis
        using Cons.prems(1) False g by (auto simp: scan_ok_def q_def le_Suc_eq; fastforce)
    qed
    have r: "r = (if fst q \<le> mw then q else prefix_scan w nCur (int (length gs)) mw mp rest (Suc g) (prefix_pages gs (Suc g)) q)"
      using Cons.prems(4) False unfolding Cons.hyps(2) [symmetric]
      by (simp only: prefix_scan.simps Let_def n' c if_False q_def Suc_eq_plus1 [symmetric] fst_conv)
    show ?thesis
    proof (cases "fst q \<le> mw")
      case True
      then show ?thesis using q r by (auto simp: scan_ok_def)
    next
      case nle: False
      obtain b ch p where qe: "q = (b, ch, p)" by (cases q)
      show ?thesis
        using Cons.hyps(1) [OF grp(2), of b ch p] q nle r g qe grp(2) by auto
    qed
  qed
qed

lemma fold_promote_nth:
  "length (fold (\<lambda>i ps. ps[i := (ps ! i)\<lparr>pi_kind := dedupPageCurrent\<rparr>]) idxs ps) = length ps"
  "j < length ps \<Longrightarrow> fold (\<lambda>i ps. ps[i := (ps ! i)\<lparr>pi_kind := dedupPageCurrent\<rparr>]) idxs ps ! j =
     (if j \<in> set idxs then (ps ! j)\<lparr>pi_kind := dedupPageCurrent\<rparr> else ps ! j)"
proof (induction idxs arbitrary: ps)
  case (Cons a idxs)
  case 1
  show ?case using Cons by simp
  case 2
  then show ?case using Cons by (cases "j = a") simp_all
qed simp_all

lemma fold_promote_keys:
  assumes "set idxs = (\<Union>k \<in> K. set (key_pages pages k))"
  shows "fold (\<lambda>i ps. ps[i := (ps ! i)\<lparr>pi_kind := dedupPageCurrent\<rparr>]) idxs pages = promote_keys K pages"
proof (rule nth_equalityI)
  fix j assume "j < length (fold (\<lambda>i ps. ps[i := (ps ! i)\<lparr>pi_kind := dedupPageCurrent\<rparr>]) idxs pages)"
  then have "j < length pages" by (simp add: fold_promote_nth)
  then show "fold (\<lambda>i ps. ps[i := (ps ! i)\<lparr>pi_kind := dedupPageCurrent\<rparr>]) idxs pages ! j = promote_keys K pages ! j"
    by (simp add: fold_promote_nth assms promote_keys_def key_pages_def)
qed (simp add: fold_promote_nth promote_keys_def)

text \<open>The first \<open>j\<close> groups belong to \<open>j\<close> keys, whose promotion costs the pages of the groups.\<close>

lemma prefix_keys:
  assumes "j \<le> card (parent_keys pages)"
  obtains K where "K \<subseteq> parent_keys pages" "card K = j"
    "set (take j (parentKeyGroups pages)) = key_pages pages ` K"
    "promotion_cost K pages = prefix_pages (parentKeyGroups pages) j"
proof -
  let ?gs = "parentKeyGroups pages"
  have "set (take j ?gs) \<subseteq> key_pages pages ` parent_keys pages"
    using parentKeyGroups_spec(2) [of pages] set_take_subset by fastforce
  then obtain K where K: "K \<subseteq> parent_keys pages" "set (take j ?gs) = key_pages pages ` K"
    by (metis subset_image_iff)
  have inj: "inj_on (key_pages pages) K" using key_pages_inj K(1) inj_on_subset by blast
  have d: "distinct (take j ?gs)" using parentKeyGroups_spec(1) by (rule distinct_take)
  have "card (set (take j ?gs)) = j" using distinct_card [OF d] assms by (simp add: length_parentKeyGroups)
  then have "card K = j" using K(2) card_image [OF inj] by simp
  moreover have "promotion_cost K pages = prefix_pages ?gs j"
  proof -
    have "finite K" using K(1) finite_parent_keys by (rule finite_subset)
    then have "promotion_cost K pages = int (\<Sum>g \<in> set (take j ?gs). length g)"
      using inj K(2) by (simp add: promotion_cost_sum sum.reindex)
    then show ?thesis
      using sum_list_distinct_conv_sum_set [OF d, of length] by (simp add: prefix_pages_def)
  qed
  ultimately show thesis using K that by blast
qed

lemma prefix_windows_promote:
  assumes "K \<subseteq> parent_keys pages" "card K = j" "promotion_cost K pages = prefix_pages (parentKeyGroups pages) j"
  shows "prefix_windows w (int (length (filter is_current pages))) (parentKeyGroups pages) j =
    fetch_windows w (promote_keys K pages)"
proof -
  have "finite K" using assms(1) finite_parent_keys by (rule finite_subset)
  then have "int (card (parent_keys pages - K)) = int (card (parent_keys pages)) - int j"
    using assms(1,2) card_mono [OF finite_parent_keys assms(1)] by (simp add: card_Diff_subset of_nat_diff)
  then show ?thesis
    by (simp add: promote_keys_windows prefix_windows_def length_parentKeyGroups assms(3))
qed

lemma any_keys_prefix:
  assumes "0 < windowPages w" "0 \<le> currentStart w"
  obtains j where "j \<le> card (parent_keys pages)"
    "prefix_pages (parentKeyGroups pages) j \<le> promotion_cost K pages"
    "prefix_windows w (int (length (filter is_current pages))) (parentKeyGroups pages) j \<le>
       fetch_windows w (promote_keys K pages)"
proof -
  let ?gs = "parentKeyGroups pages" and ?K = "K \<inter> parent_keys pages"
  have fin: "finite ?K" by simp
  have inj: "inj_on (key_pages pages) ?K" using key_pages_inj inj_on_subset by blast
  have cst: "promotion_cost K pages = promotion_cost ?K pages"
    unfolding promotion_cost_def by (intro arg_cong [of _ _ int] arg_cong [of _ _ length] filter_cong)
      (auto simp: parent_keys_def)
  have sub: "key_pages pages ` ?K \<subseteq> set ?gs" using parentKeyGroups_spec(2) [of pages] by auto
  have "sum_list (map length (take (card (key_pages pages ` ?K)) ?gs)) \<le> (\<Sum>g \<in> key_pages pages ` ?K. length g)"
    by (rule sorted_prefix_least [OF parentKeyGroups_spec(1,3) sub])
  then have le: "prefix_pages ?gs (card ?K) \<le> promotion_cost K pages"
    using cst inj fin by (simp add: prefix_pages_def card_image sum.reindex promotion_cost_sum del: of_nat_sum)
  have "card ?K \<le> card (parent_keys pages)" by (intro card_mono) auto
  moreover have "parent_keys pages - K = parent_keys pages - ?K" by auto
  then have "int (card (parent_keys pages - K)) = int (card (parent_keys pages)) - int (card ?K)"
    using \<open>card ?K \<le> card (parent_keys pages)\<close> by (simp add: card_Diff_subset of_nat_diff)
  then have "prefix_windows w (int (length (filter is_current pages))) ?gs (card ?K) \<le> fetch_windows w (promote_keys K pages)"
    using le currentWindows_mono [OF assms, of "int (length (filter is_current pages)) + prefix_pages ?gs (card ?K)"
        "int (length (filter is_current pages)) + promotion_cost K pages"]
    by (simp add: promote_keys_windows prefix_windows_def length_parentKeyGroups prefix_pages_def)
  ultimately show thesis using le that by blast
qed

lemma compact_choice:
  assumes "compact w pages mw mp = (pages', n)" "0 < windowPages w" "0 \<le> currentStart w"
  shows "\<exists>K. pages' = promote_keys K pages \<and> n = promotion_cost K pages \<and> n \<le> max mp 0 \<and>
    fetch_windows w pages' \<le> fetch_windows w pages \<and> (0 < n \<longrightarrow> fetch_windows w pages' < fetch_windows w pages) \<and>
    (0 < mw \<and> 0 < mp \<longrightarrow> fetch_windows w pages' \<le> mw \<or>
      (\<forall>K'. promotion_cost K' pages \<le> mp \<longrightarrow> fetch_windows w pages' \<le> fetch_windows w (promote_keys K' pages)))"
proof -
  let ?gs = "parentKeyGroups pages" and ?n = "int (length (filter is_current pages))"
  have none: "promote_keys {} pages = pages" "promotion_cost {} pages = 0"
    by (simp_all add: promote_keys_def promotion_cost_def)
  have w0: "prefix_windows w ?n ?gs 0 = fetch_windows w pages" "prefix_pages ?gs 0 = 0"
    by (simp_all add: prefix_windows_def prefix_pages_def fetch_windows_def length_parentKeyGroups)
  let ?best = "int (length ?gs) + currentWindows w ?n"
  have best: "?best = fetch_windows w pages" using w0(1) by (simp add: prefix_windows_def prefix_pages_def)
  show ?thesis
  proof (cases "mw \<le> 0 \<or> mp \<le> 0 \<or> ?best \<le> mw")
    case True
    then have "pages' = pages" "n = 0" using assms(1) by (auto simp: compact_def split: if_splits)
    then show ?thesis using none True best by (intro exI [of _ "{}"]) auto
  next
    case False
    define r where "r = prefix_scan w ?n (int (length ?gs)) mw mp (drop 0 ?gs) 0 (prefix_pages ?gs 0) (?best, 0, 0)"
    have "scan_ok w ?n mp ?gs 0 (?best, 0, 0)" using False w0 best by (simp add: scan_ok_def)
    then have r: "scan_ok w ?n mp ?gs 0 r"
      "fst r \<le> mw \<or> (\<forall>j \<le> length ?gs. prefix_pages ?gs j \<le> mp \<longrightarrow> fst r \<le> prefix_windows w ?n ?gs j)"
      using prefix_scan_spec [OF _ _ _ r_def [symmetric]] False by auto
    obtain b ch p where re: "r = (b, ch, p)" by (cases r)
    have ch: "ch \<le> card (parent_keys pages)" using r(1) re by (simp add: scan_ok_def length_parentKeyGroups)
    obtain K where K: "K \<subseteq> parent_keys pages" "card K = ch" "set (take ch ?gs) = key_pages pages ` K"
      "promotion_cost K pages = prefix_pages ?gs ch" using prefix_keys [OF ch] .
    note pw = prefix_windows_promote [OF K(1,2,4), of w]
    have "set (concat (take ch ?gs)) = (\<Union>k \<in> K. set (key_pages pages k))" using K(3) by simp
    then have e: "pages' = promote_keys K pages" "n = p"
      using assms(1) False re fold_promote_keys [of "concat (take ch ?gs)" pages K]
      by (auto simp: compact_def Let_def r_def w0(2))
    have p: "p = promotion_cost K pages" "p \<le> mp" "b = fetch_windows w pages'" "b \<le> fetch_windows w pages"
      "0 < ch \<longrightarrow> b < fetch_windows w pages"
      using r(1) re K(4) pw w0 e(1) by (auto simp: scan_ok_def)
    have "0 < ch" if "0 < p" using that r(1) re by (cases ch) (auto simp: scan_ok_def prefix_pages_def)
    moreover have "fetch_windows w pages' \<le> fetch_windows w (promote_keys K' pages)"
      if "\<not> fetch_windows w pages' \<le> mw" "promotion_cost K' pages \<le> mp" for K'
    proof -
      obtain j where "j \<le> card (parent_keys pages)" "prefix_pages ?gs j \<le> promotion_cost K' pages"
        "prefix_windows w ?n ?gs j \<le> fetch_windows w (promote_keys K' pages)"
        using any_keys_prefix [OF assms(2,3)] .
      with r(2) re p(3) that show ?thesis by (fastforce simp: length_parentKeyGroups)
    qed
    ultimately show ?thesis using e p False by (intro exI [of _ K]) auto
  qed
qed

section \<open>The diff restores the source\<close>

lemma foldR_inv:
  assumes "\<And>x Q st st'. x \<in> set xs \<Longrightarrow> I Q st \<Longrightarrow> f x st = Inr st' \<Longrightarrow> I (Q \<union> g x) st'"
    and "I Q st" "foldR f xs st = Inr st'"
  shows "I (Q \<union> (\<Union>x \<in> set xs. g x)) st'"
  using assms
proof (induction xs arbitrary: Q st)
  case (Cons x xs)
  obtain s1 where s1: "f x st = Inr s1" "foldR f xs s1 = Inr st'" using Cons.prems(3) by (auto simp: bindR_eq_Inr)
  have "I (Q \<union> g x) s1" using Cons.prems(1) [OF _ Cons.prems(2) s1(1)] by simp
  from Cons.IH [OF _ this s1(2)] Cons.prems(1) show ?case by (simp add: Un_assoc)
qed simp

lemma foldR_total:
  assumes "\<And>x st. x \<in> set xs \<Longrightarrow> \<exists>st'. f x st = Inr st'"
  shows "\<exists>st'. foldR f xs st = Inr st'"
  using assms
proof (induction xs arbitrary: st)
  case (Cons x xs)
  obtain s1 where "f x st = Inr s1" using Cons.prems by fastforce
  moreover have "\<exists>st'. foldR f xs s1 = Inr st'" using Cons by simp
  ultimately show ?case by simp
qed simp

text \<open>The pages of a set of blocks, and the content that the source gives to a page.\<close>

definition block_pages :: "int \<Rightarrow> int \<Rightarrow> int set" where
  "block_pages bs b = {b * (bs div 4096)..<(b + 1) * (bs div 4096)}"

definition dirty_pages :: "int \<Rightarrow> int set \<Rightarrow> int set" where
  "dirty_pages bs B = (\<Union>b \<in> B. block_pages bs b)"

definition page_of :: "(int \<Rightarrow> bytes result) \<Rightarrow> int \<Rightarrow> int \<Rightarrow> bytes result" where
  "page_of src bs p =
     (let b = p * 4096 div bs * bs in bindR (src b) (\<lambda>buf. go_slice buf (p * 4096 - b) (p * 4096 - b + 4096)))"

definition page_class_of :: "(int \<Rightarrow> bytes result) \<Rightarrow> base_device \<Rightarrow> int \<Rightarrow> bool \<Rightarrow> int \<Rightarrow> int \<Rightarrow> page_class result" where
  "page_class_of src base bs bestEffort windowBytes p =
     bindR (page_of src bs p) (\<lambda>pg. classify base bestEffort windowBytes pg (p * 4096))"

lemma offsets_aligned: "0 < step \<Longrightarrow> 0 \<le> n \<Longrightarrow> offsets 0 (n * step) step = map (\<lambda>k. k * step) [0..n - 1]"
  using aligned_ceil [of step "n * step"] by (simp add: offsets_def)

lemma block_size_pages: "4096 dvd bs \<Longrightarrow> offsets 0 bs PageSize = map (\<lambda>k. k * 4096) [0..bs div 4096 - 1]" if "0 < bs"
  using offsets_aligned [of 4096 "bs div 4096"] that by (simp add: PageSize_def pos_imp_zdiv_nonneg_iff)

lemma page_in_block:
  assumes "0 < (bs::int)" "4096 dvd bs" "k \<in> {0..bs div 4096 - 1}"
  shows "(b * bs + k * 4096) div 4096 = b * (bs div 4096) + k" "(b * bs + k * 4096) div bs = b"
proof -
  obtain m where m: "bs = 4096 * m" using assms(2) by (rule dvdE)
  show "(b * bs + k * 4096) div 4096 = b * (bs div 4096) + k"
    unfolding m using div_mult_self2 [of 4096 "k * 4096" "b * m"] by (simp add: mult.left_commute mult.assoc)
  have "k * 4096 \<ge> 0" "k * 4096 < bs" using assms(3) m by auto
  then show "(b * bs + k * 4096) div bs = b" using assms(1) by simp
qed

lemma block_pages_range:
  assumes "0 < bs" "4096 dvd bs" "0 \<le> b" "(b + 1) * bs \<le> 17592186044416" "p \<in> block_pages bs b"
  shows "0 \<le> p" "p < 4294967296"
proof -
  obtain m where m: "bs = 4096 * m" using assms(2) by (rule dvdE)
  have p: "b * m \<le> p" "p < (b + 1) * m" using assms(5) m by (simp_all add: block_pages_def)
  have "0 \<le> b * m" using assms(1,3) m by simp
  with p show "0 \<le> p" by linarith
  have "(b + 1) * m * 4096 \<le> 17592186044416" using assms(4) m by (simp add: ac_simps)
  with p show "p < 4294967296" by linarith
qed

context roaring_bitmap
begin

definition compared :: "(int \<Rightarrow> page_class result) \<Rightarrow> int set \<Rightarrow> 'b compare_state \<Rightarrow> bool" where
  "compared cl Q st \<longleftrightarrow>
     (case st of (plan, parents) \<Rightarrow>
        bset (pageDirty plan) = {p \<in> Q. cl p = Inr PCurrent} \<and>
        bset (pageEmpty plan) = {p \<in> Q. cl p = Inr PEmpty} \<and>
        (\<forall>k. (case map_of parents k of None \<Rightarrow> {} | Some bm \<Rightarrow> bset bm) = {p \<in> Q. cl p = Inr (PParent k)}) \<and>
        distinct (map fst parents) \<and>
        (\<forall>p \<in> Q. \<exists>c. cl p = Inr c))"

lemma record_page_compared:
  assumes "compared cl Q st" "cl p = Inr c" "0 \<le> p" "p < 4294967296"
  shows "compared cl (Q \<union> {p}) (record_page ops p c st)"
proof -
  obtain plan parents where st: "st = (plan, parents)" by (cases st)
  have add: "bset (bm_Add ops b p) = insert p (bset b)" for b using assms(3,4) by (rule bset_Add)
  have *: "bset (bm_Add ops (case map_of parents k of None \<Rightarrow> bm_New ops | Some bm \<Rightarrow> bm) p) =
      insert p {q \<in> Q. cl q = Inr (PParent k)}" for k
  proof -
    have "(case map_of parents k of None \<Rightarrow> {} | Some bm \<Rightarrow> bset bm) = {q \<in> Q. cl q = Inr (PParent k)}"
      using assms(1) st by (simp add: compared_def)
    then show ?thesis by (cases "map_of parents k") (auto simp: add bset_New)
  qed
  show ?thesis
  proof (cases c)
    case (PParent k)
    have "(case map_of (AList.update k b parents) l of None \<Rightarrow> {} | Some bm \<Rightarrow> bset bm) =
        (if l = k then bset b else case map_of parents l of None \<Rightarrow> {} | Some bm \<Rightarrow> bset bm)" for l b
      by (simp add: update_conv')
    then show ?thesis
      using assms(1,2) st PParent * [of k] by (auto simp: compared_def distinct_update)
  qed (use assms(1,2) st in \<open>auto simp: compared_def add\<close>)
qed

lemma compare_block_spec:
  assumes bs: "0 < bs" "4096 dvd bs" and b: "0 \<le> b" "(b + 1) * bs \<le> 17592186044416"
    and inv: "compared (page_class_of src base bs be wb) Q st"
    and run: "compare_block ops ctxErr src base bs be wb (b * bs) st = Inr st'"
  shows "compared (page_class_of src base bs be wb) (Q \<union> block_pages bs b) st'"
proof -
  let ?cl = "page_class_of src base bs be wb" and ?m = "bs div 4096"
  obtain buf where buf: "src (b * bs) = Inr buf"
    "foldR (compare_page ops base be wb buf (b * bs)) (map (\<lambda>k. k * 4096) [0..?m - 1]) st = Inr st'"
    using run block_size_pages [OF bs] by (auto simp: compare_block_def bindR_eq_Inr split: option.splits)
  have step: "compared ?cl (Q \<union> {b * ?m + i div 4096}) s'"
    if i: "i \<in> set (map (\<lambda>k. k * 4096) [0..?m - 1])" and I: "compared ?cl Q s"
      and s': "compare_page ops base be wb buf (b * bs) i s = Inr s'" for Q s s' i
  proof -
    from i obtain k where k: "i = k * 4096" "k \<in> {0..?m - 1}" by auto
    let ?p = "b * ?m + k"
    note pb = page_in_block [OF bs k(2), of b]
    have p4: "?p * 4096 = b * bs + k * 4096" using bs(2) by (simp add: distrib_right)
    have rng: "0 \<le> ?p" "?p < 4294967296"
      using k(2) by (intro block_pages_range [OF bs b]; simp add: block_pages_def distrib_right)+
    have off: "0 \<le> b * bs + k * 4096" using b(1) bs(1) k(2) by simp
    have u: "u32 ((b * bs + i) sdiv PageSize) = ?p"
      using pb(1) rng off by (simp add: k(1) PageSize_def sdiv_nonneg u32_id)
    have "page_of src bs ?p = go_slice buf i (i + PageSize)"
      unfolding page_of_def Let_def p4 pb(2) by (simp add: buf(1) k(1) PageSize_def)
    then obtain c where "?cl ?p = Inr c" "s' = record_page ops ?p c s"
      using s' unfolding page_class_of_def p4 compare_page_def u by (auto simp: bindR_eq_Inr k(1))
    then show ?thesis using record_page_compared [OF I _ rng] k(1) by simp
  qed
  have "(\<Union>i \<in> set (map (\<lambda>k. k * 4096) [0..?m - 1]). {b * ?m + i div 4096}) = block_pages bs b"
    by (auto simp: block_pages_def distrib_right image_iff intro!: bexI [of _ "_ - b * ?m"])
  moreover have "compared ?cl (Q \<union> (\<Union>i \<in> set (map (\<lambda>k. k * 4096) [0..?m - 1]). {b * ?m + i div 4096})) st'"
    by (rule foldR_inv [where I = "compared ?cl", OF _ inv buf(2)], rule step)
  ultimately show ?thesis by simp
qed

end

text \<open>What both loops over the dirty blocks have in common.\<close>

definition over_blocks ::
  "'b bitmap_ops \<Rightarrow> 'b \<Rightarrow> int \<Rightarrow> (Range \<Rightarrow> 's \<Rightarrow> 's) \<Rightarrow> (int \<Rightarrow> 's \<Rightarrow> 's result) \<Rightarrow> 's \<Rightarrow> 's result" where
  "over_blocks ops dirty bs pre f =
     foldR (\<lambda>r st. foldR (\<lambda>chunkOff. f (RStart r + chunkOff)) (offsets 0 (RSize r) bs) (pre r st))
       (BitsetRanges ops dirty bs)"

definition blocks_fit :: "int \<Rightarrow> int set \<Rightarrow> bool" where
  "blocks_fit bs B \<longleftrightarrow> 0 < bs \<and> 4096 dvd bs \<and> (\<forall>b \<in> B. (b + 1) * bs \<le> 17592186044416)"

context roaring_bitmap
begin

lemma BitsetRanges_eq:
  assumes "blocks_fit bs (bset dirty)"
  shows "BitsetRanges ops dirty bs =
    map (\<lambda>(s, e). \<lparr>RStart = s * bs, RSize = (e - s) * bs\<rparr>) (bm_Ranges ops dirty)"
proof -
  have "NewRangeFromBlocks s (i64 (e - s)) bs = \<lparr>RStart = s * bs, RSize = (e - s) * bs\<rparr>"
    if se: "(s, e) \<in> set (bm_Ranges ops dirty)" for s e
  proof -
    have lt: "s < e" using ascending_runs_nonempty [OF Ranges_asc se] .
    have sub: "{s..<e} \<subseteq> bset dirty" using se Ranges_set [of dirty] by (auto simp: run_set_def)
    then have "e - 1 \<in> bset dirty" "0 \<le> s" using lt bset_bounds [of s dirty] by auto
    then have bs: "0 < bs" "e * bs \<le> 17592186044416" "0 \<le> s" using assms by (force simp: blocks_fit_def)+
    have "e \<le> e * bs" using mult_left_mono [of 1 bs e] bs lt by simp
    then have w: "i64 (e - s) = e - s" using lt bs by (intro i64_id) linarith+
    have "s * bs \<le> e * bs" "(e - s) * bs \<le> e * bs" using lt bs by (simp_all add: mult_right_mono)
    then have "BlockOffset s bs = s * bs" "BlockOffset (e - s) bs = (e - s) * bs"
      using bs lt by (intro BlockOffset_eq; linarith)+
    then show ?thesis by (simp add: NewRangeFromBlocks_def w)
  qed
  then show ?thesis by (auto simp: BitsetRanges_def)
qed

lemma over_blocks_inv:
  assumes fit: "blocks_fit bs (bset dirty)"
    and step: "\<And>b Q st st'. b \<in> bset dirty \<Longrightarrow> I Q st \<Longrightarrow> f (b * bs) st = Inr st' \<Longrightarrow> I (Q \<union> block_pages bs b) st'"
    and pre: "\<And>r Q st. I Q st \<Longrightarrow> I Q (pre r st)"
    and "I {} st" "over_blocks ops dirty bs pre f st = Inr st'"
  shows "I (dirty_pages bs (bset dirty)) st'"
proof -
  have bs: "0 < bs" using fit by (simp add: blocks_fit_def)
  let ?rs = "map (\<lambda>(s, e). \<lparr>RStart = s * bs, RSize = (e - s) * bs\<rparr>) (bm_Ranges ops dirty)"
  let ?g = "\<lambda>r :: Range. \<Union>b \<in> {RStart r div bs..<(RStart r + RSize r) div bs}. block_pages bs b"
  have "I ({} \<union> (\<Union>r \<in> set ?rs. ?g r)) st'"
  proof (rule foldR_inv [where I = I, OF _ assms(4) assms(5) [unfolded over_blocks_def BitsetRanges_eq [OF fit]]])
    fix r Q st st'
    assume "r \<in> set ?rs" and I: "I Q st"
      and run: "foldR (\<lambda>chunkOff. f (RStart r + chunkOff)) (offsets 0 (RSize r) bs) (pre r st) = Inr st'"
    then obtain s e where se: "(s, e) \<in> set (bm_Ranges ops dirty)" "r = \<lparr>RStart = s * bs, RSize = (e - s) * bs\<rparr>"
      by auto
    have lt: "s < e" using ascending_runs_nonempty [OF Ranges_asc se(1)] .
    have sub: "{s..<e} \<subseteq> bset dirty" using se(1) Ranges_set [of dirty] by (auto simp: run_set_def)
    have off: "offsets 0 (RSize r) bs = map (\<lambda>k. k * bs) [0..e - s - 1]"
      using offsets_aligned [OF bs, of "e - s"] lt se(2) by simp
    have "I (Q \<union> (\<Union>c \<in> set (map (\<lambda>k. k * bs) [0..e - s - 1]). block_pages bs (s + c div bs))) st'"
    proof (rule foldR_inv [where I = I, OF _ pre [OF I] run [unfolded off]])
      fix c Q st st'
      assume c: "c \<in> set (map (\<lambda>k. k * bs) [0..e - s - 1])" and I: "I Q st" and f: "f (RStart r + c) st = Inr st'"
      from c obtain k where "c = k * bs" "k \<in> {0..e - s - 1}" unfolding set_map set_upto by (rule imageE)
      then have k: "c = k * bs" "0 \<le> k" "s + k < e" by auto
      have "c div bs = k" using k bs by simp
      moreover have "s + k \<in> bset dirty" using k sub by auto
      ultimately show "I (Q \<union> block_pages bs (s + c div bs)) st'"
        using step [OF _ I] f k(1) se(2) by (simp add: distrib_right)
    qed
    moreover have "(\<Union>c \<in> set (map (\<lambda>k. k * bs) [0..e - s - 1]). block_pages bs (s + c div bs)) =
        (\<Union>b \<in> {s..<e}. block_pages bs b)"
    proof -
      have im: "{s..<e} = (\<lambda>k. s + k) ` {0..e - s - 1}" by (auto simp: image_iff intro!: bexI [of _ "_ - s"])
      show ?thesis unfolding im using bs by (simp add: image_image del: image_add_atLeastAtMost)
    qed
    moreover have "(s * bs + (e - s) * bs) div bs = e" using bs by (simp flip: distrib_right)
    ultimately show "I (Q \<union> ?g r) st'" using se(2) bs by simp
  qed
  moreover have "(\<Union>r \<in> set ?rs. ?g r) = dirty_pages bs (bset dirty)"
  proof -
    have "(s * bs + (e - s) * bs) div bs = e" for s e using bs by (simp flip: distrib_right)
    then show ?thesis using bs unfolding dirty_pages_def Ranges_set [symmetric] run_set_def by (auto; force)
  qed
  ultimately show ?thesis by simp
qed

end

lemma promote_frames_empty:
  "pageEmpty (fold (promote_frame ops fl ext ppb budget) kbs p) = pageEmpty p"
  by (induction kbs arbitrary: p) (auto simp: promote_frame_def Let_def split_beta)

lemma compact_kinds:
  assumes "compact w pages mw mp = (pages', n)" "0 < windowPages w" "0 \<le> currentStart w"
  shows "length pages' = length pages"
    "\<And>i. i < length pages \<Longrightarrow> is_current (pages' ! i) \<Longrightarrow> is_current (pages ! i) \<or> is_parent (pages ! i)"
  using compact_choice [OF assms] by (auto simp: promote_keys_def split: if_splits)

context roaring_bitmap
begin

lemma promote_frames_dirty:
  "bset (pageDirty p) \<subseteq> bset (pageDirty (fold (promote_frame ops fl ext ppb budget) kbs p)) \<and>
   bset (pageDirty (fold (promote_frame ops fl ext ppb budget) kbs p)) \<subseteq>
     bset (pageDirty p) \<union> (\<Union>(k, bm) \<in> set kbs. bset bm)"
proof (induction kbs arbitrary: p)
  case (Cons kb kbs)
  let ?p = "promote_frame ops fl ext ppb budget kb p"
  have "bset (pageDirty p) \<subseteq> bset (pageDirty ?p) \<and> bset (pageDirty ?p) \<subseteq> bset (pageDirty p) \<union> bset (snd kb)"
    by (auto simp: promote_frame_def Let_def split_beta bset_Or)
  with Cons.IH [of ?p] show ?case by (cases kb) auto
qed simp

lemma bset_Add_fold:
  "\<forall>x \<in> set xs. 0 \<le> f x \<and> f x < 4294967296 \<Longrightarrow>
   bset (fold (\<lambda>x b. bm_Add ops b (f x)) xs b) = bset b \<union> f ` set xs"
  by (induction xs arbitrary: b) (auto simp: bset_Add)

text \<open>While blocks are compacted: the empty pages stay, and stored pages are added outside them.\<close>

definition compacting :: "int set \<Rightarrow> int set \<Rightarrow> int set \<Rightarrow> int set \<Rightarrow> 'b dedupPlan \<times> int \<Rightarrow> bool" where
  "compacting D E R Q st \<longleftrightarrow>
     (case st of (plan, n) \<Rightarrow> bset (pageEmpty plan) = E \<and> D \<subseteq> bset (pageDirty plan) \<and>
        bset (pageDirty plan) \<subseteq> D \<union> (Q \<union> R - E) \<and> 0 \<le> n)"

lemma compact_block_spec:
  assumes bs: "0 < bs" "4096 dvd bs" and b: "0 \<le> b" "(b + 1) * bs \<le> 17592186044416"
    and w: "0 < FetchRunWindowPages budget"
    and inv: "compacting D E R Q st"
    and run: "compact_block ops ctxErr h bs wb budget (b * bs) st = Inr st'"
  shows "compacting D E R (Q \<union> block_pages bs b) st'"
proof -
  let ?m = "bs div 4096"
  obtain plan n where st: "st = (plan, n)" by (cases st)
  define first where "first = u32 ((b * bs) sdiv PageSize)"
  define pages where "pages = map (page_info ops plan h wb (b * bs) first) [0..bs sdiv PageSize - 1]"
  have m: "0 < ?m" "bs sdiv PageSize = ?m" using bs by (auto simp: PageSize_def sdiv_nonneg elim!: dvdE)
  have rng: "0 \<le> b * ?m + p \<and> b * ?m + p < 4294967296" if "0 \<le> p" "p < ?m" for p
    using block_pages_range [OF bs b, of "b * ?m + p"] that by (simp add: block_pages_def distrib_right)
  have bm: "b * bs div 4096 = b * ?m" using bs(2) by (simp add: div_mult_swap)
  have first: "first = b * ?m" unfolding first_def
    using rng [of 0] m bs b(1) by (simp add: PageSize_def sdiv_nonneg bm u32_id)
  have idx: "u32 (first + u32 p) = b * ?m + p" if "0 \<le> p" "p < ?m" for p
  proof -
    have "u32 p = p" using rng [OF that] that mult_nonneg_nonneg [of b ?m] b(1) m(1) by (intro u32_id) linarith+
    then show ?thesis using rng [OF that] by (simp add: first u32_id)
  qed
  obtain pages' k where c: "compact \<lparr>windowPages = FetchRunWindowPages budget, currentStart = n\<rparr> pages
      (MaxFetchWindowsPerBlock budget) (MaxPromotedParentPagesPerBlock budget) = (pages', k)"
    by (metis surj_pair)
  have n0: "0 \<le> n" using inv st by (simp add: compacting_def)
  note ck = compact_kinds [OF c]
  have len: "int (length pages) = ?m" using m by (simp add: pages_def)
  define cur where "cur = filter (\<lambda>p. is_current (pages' ! nat p)) [0..int (length pages') - 1]"
  have cur: "0 \<le> p \<and> p < ?m \<and> b * ?m + p \<in> bset (pageDirty plan) \<union> (block_pages bs b - E)" if "p \<in> set cur" for p
  proof -
    have p: "0 \<le> p" "p < ?m" "is_current (pages' ! nat p)"
      using that ck(1) w n0 len by (auto simp: cur_def)
    have "is_current (pages ! nat p) \<or> is_parent (pages ! nat p)"
      using ck(2) [of "nat p"] w n0 p len by simp
    moreover have "pages ! nat p = page_info ops plan h wb (b * bs) first p"
      using p m by (simp add: pages_def)
    ultimately have "b * ?m + p \<in> bset (pageDirty plan) \<or> b * ?m + p \<notin> bset (pageEmpty plan)"
      using rng [OF p(1,2)] by (auto simp: page_info_def Let_def idx [OF p(1,2)] Contains_iff empty_info_def split: if_splits)
    then show ?thesis using p inv st by (auto simp: compacting_def block_pages_def distrib_right)
  qed
  have st': "pageEmpty (fst st') = pageEmpty plan" "snd st' = n + int (length cur)"
    "pageDirty (fst st') = fold (\<lambda>p b. bm_Add ops b (u32 (first + u32 p))) cur (pageDirty plan)"
    using run c by (auto simp: compact_block_def st Let_def first_def [symmetric] pages_def [symmetric]
        cur_def split: option.splits)
  have u: "\<forall>p \<in> set cur. 0 \<le> u32 (first + u32 p) \<and> u32 (first + u32 p) < 4294967296" by simp
  have "bset (pageDirty (fst st')) = bset (pageDirty plan) \<union> (\<lambda>p. b * ?m + p) ` set cur"
  proof -
    have "(\<lambda>p. u32 (first + u32 p)) ` set cur = (\<lambda>p. b * ?m + p) ` set cur"
      using cur idx by (intro image_cong) auto
    then show ?thesis unfolding st'(3) bset_Add_fold [OF u] by simp
  qed
  then show ?thesis
    using inv st st'(1,2) cur n0 by (cases st') (auto simp: compacting_def)
qed

end

section \<open>The stages of the comparison\<close>

definition effective_budget :: "DedupBudget \<Rightarrow> DedupBudget" where
  "effective_budget budget = (if FetchRunWindowPages budget \<le> 0
     then budget\<lparr>FetchRunWindowPages := DefaultCompressFrameSize sdiv PageSize\<rparr> else budget)"

definition window_bytes :: "DedupBudget \<Rightarrow> int" where
  "window_bytes budget = i64 (FetchRunWindowPages (effective_budget budget) * PageSize)"

definition plan0 :: "'b bitmap_ops \<Rightarrow> 'b dedupPlan" where
  "plan0 ops = \<lparr>pageDirty = bm_New ops, pageEmpty = bm_New ops, exportedSize = 0, promotedBlocks = 0,
     promotedPages = 0, parentFrames = 0, promotedFrames = 0, promotedFramePages = 0\<rparr>"

lemma effective_window: "0 < FetchRunWindowPages (effective_budget budget)"
  by (simp add: effective_budget_def DefaultCompressFrameSize_def PageSize_def sdiv_nonneg)

lemmas stage_defs = effective_budget_def [symmetric] window_bytes_def [symmetric] plan0_def [symmetric]

lemma dedupCompare_stages:
  assumes "dedupCompare ops fl ctxErr src base dirty bs be budget = Some (Inr plan)"
  obtains plan1 parents planP where
    "foldR (compare_range ops ctxErr src base bs be (window_bytes budget)) (BitsetRanges ops dirty bs) (plan0 ops, []) =
       Inr (plan1, parents)"
    "planP = plan1\<lparr>parentFrames := int (length parents)\<rparr> \<or>
     (\<exists>ext. planP = promoteCheapFrames ops fl parents ext (bs sdiv PageSize) (effective_budget budget)
        (plan1\<lparr>parentFrames := int (length parents)\<rparr>))"
    "compactBlockWindows ops ctxErr planP (bd_Header base) dirty bs (window_bytes budget) (effective_budget budget) = Inr plan"
proof -
  let ?loop = "foldR (compare_range ops ctxErr src base bs be (window_bytes budget)) (BitsetRanges ops dirty bs) (plan0 ops, [])"
  obtain plan1 parents where r: "?loop = Inr (plan1, parents)"
    using assms by (auto simp: dedupCompare_def Let_def stage_defs split: sum.splits)
  let ?p2 = "plan1\<lparr>parentFrames := int (length parents)\<rparr>"
  have "\<exists>planP. (planP = ?p2 \<or> (\<exists>ext. planP = promoteCheapFrames ops fl parents ext (bs sdiv PageSize) (effective_budget budget) ?p2)) \<and>
      compactBlockWindows ops ctxErr planP (bd_Header base) dirty bs (window_bytes budget) (effective_budget budget) = Inr plan"
    using assms r by (auto simp: dedupCompare_def Let_def stage_defs split: if_splits)
  with r show thesis using that by blast
qed

context roaring_bitmap
begin

lemma compare_loop_spec:
  assumes fit: "blocks_fit bs (bset dirty)"
    and run: "foldR (compare_range ops ctxErr src base bs be wb) (BitsetRanges ops dirty bs) (plan0 ops, []) = Inr st"
  shows "compared (page_class_of src base bs be wb) (dirty_pages bs (bset dirty)) st"
proof -
  let ?cl = "page_class_of src base bs be wb"
  let ?pre = "\<lambda>r st. ((fst st)\<lparr>exportedSize := i64 (exportedSize (fst st) + RSize r)\<rparr>, snd st)"
  have bs: "0 < bs" "4096 dvd bs" "\<And>b. b \<in> bset dirty \<Longrightarrow> 0 \<le> b \<and> (b + 1) * bs \<le> 17592186044416"
    using fit bset_bounds by (auto simp: blocks_fit_def)
  have "compare_range ops ctxErr src base bs be wb = (\<lambda>r st. foldR (\<lambda>chunkOff.
      compare_block ops ctxErr src base bs be wb (RStart r + chunkOff)) (offsets 0 (RSize r) bs) (?pre r st))"
    by (simp add: fun_eq_iff compare_range_def split_beta)
  then have r: "over_blocks ops dirty bs ?pre (compare_block ops ctxErr src base bs be wb) (plan0 ops, []) = Inr st"
    using run by (simp add: over_blocks_def)
  show ?thesis
  proof (rule over_blocks_inv [where I = "compared ?cl", OF fit _ _ _ r])
    show "compared ?cl {} (plan0 ops, [])" by (simp add: compared_def plan0_def bset_New)
    show "compared ?cl Q (?pre r st)" if "compared ?cl Q st" for r Q st
      using that by (simp add: compared_def split_beta)
    show "compared ?cl (Q \<union> block_pages bs b) st'"
      if "b \<in> bset dirty" "compared ?cl Q st" "compare_block ops ctxErr src base bs be wb (b * bs) st = Inr st'" for b Q st st'
      using compare_block_spec [OF bs(1,2) _ _ that(2,3)] bs(3) [OF that(1)] by simp
  qed
qed

lemma compared_parents:
  assumes "compared cl Q (plan, parents)" "(k, bm) \<in> set parents"
  shows "bset bm = {p \<in> Q. cl p = Inr (PParent k)}"
proof -
  have "map_of parents k = Some bm" using assms by (simp add: compared_def)
  moreover have "(case map_of parents k of None \<Rightarrow> {} | Some bm \<Rightarrow> bset bm) = {p \<in> Q. cl p = Inr (PParent k)}"
    using assms(1) by (simp add: compared_def)
  ultimately show ?thesis by simp
qed

lemma compactBlockWindows_spec:
  assumes fit: "blocks_fit bs (bset dirty)" and w: "0 < FetchRunWindowPages budget"
    and run: "compactBlockWindows ops ctxErr planP h dirty bs wb budget = Inr plan"
    and D: "bset (pageDirty planP) \<subseteq> dirty_pages bs (bset dirty) - bset (pageEmpty planP)"
  shows "bset (pageEmpty plan) = bset (pageEmpty planP) \<and> bset (pageDirty planP) \<subseteq> bset (pageDirty plan) \<and>
    bset (pageDirty plan) \<subseteq> dirty_pages bs (bset dirty) - bset (pageEmpty planP)"
proof (cases "MaxFetchWindowsPerBlock budget \<le> 0 \<or> MaxPromotedParentPagesPerBlock budget \<le> 0")
  case True
  then show ?thesis using run D by (simp add: compactBlockWindows_def)
next
  case False
  let ?I = "compacting (bset (pageDirty planP)) (bset (pageEmpty planP)) {}"
  have bs: "0 < bs" "4096 dvd bs" "\<And>b. b \<in> bset dirty \<Longrightarrow> 0 \<le> b \<and> (b + 1) * bs \<le> 17592186044416"
    using fit bset_bounds by (auto simp: blocks_fit_def)
  obtain n where r: "over_blocks ops dirty bs (\<lambda>r st. st) (compact_block ops ctxErr h bs wb budget) (planP, 0) = Inr (plan, n)"
    using run False by (auto simp: compactBlockWindows_def over_blocks_def bindR_eq_Inr)
  have "?I (dirty_pages bs (bset dirty)) (plan, n)"
  proof (rule over_blocks_inv [where I = ?I, OF fit _ _ _ r])
    show "?I {} (planP, 0)" by (simp add: compacting_def)
    show "?I (Q \<union> block_pages bs b) st'"
      if "b \<in> bset dirty" "?I Q st" "compact_block ops ctxErr h bs wb budget (b * bs) st = Inr st'" for b Q st st'
      using compact_block_spec [OF bs(1,2) _ _ w that(2,3)] bs(3) [OF that(1)] by simp
  qed
  then show ?thesis using D by (auto simp: compacting_def)
qed

lemma dedupCompare_plan:
  assumes fit: "blocks_fit bs (bset dirty)"
    and run: "dedupCompare ops fl ctxErr src base dirty bs be budget = Some (Inr plan)"
    and Q: "Q = dirty_pages bs (bset dirty)" and cl: "cl = page_class_of src base bs be (window_bytes budget)"
  shows "bset (pageEmpty plan) = {p \<in> Q. cl p = Inr PEmpty}"
    "{p \<in> Q. cl p = Inr PCurrent} \<subseteq> bset (pageDirty plan)"
    "bset (pageDirty plan) \<subseteq> Q - bset (pageEmpty plan)"
    "\<forall>p \<in> Q. \<exists>c. cl p = Inr c"
proof -
  obtain plan1 parents planP where
    r1: "foldR (compare_range ops ctxErr src base bs be (window_bytes budget)) (BitsetRanges ops dirty bs) (plan0 ops, []) =
       Inr (plan1, parents)" and
    p: "planP = plan1\<lparr>parentFrames := int (length parents)\<rparr> \<or>
     (\<exists>ext. planP = promoteCheapFrames ops fl parents ext (bs sdiv PageSize) (effective_budget budget)
        (plan1\<lparr>parentFrames := int (length parents)\<rparr>))" and
    r2: "compactBlockWindows ops ctxErr planP (bd_Header base) dirty bs (window_bytes budget) (effective_budget budget) = Inr plan"
    using dedupCompare_stages [OF run] .
  have c: "compared cl Q (plan1, parents)" using compare_loop_spec [OF fit r1] Q cl by simp
  then have c1: "bset (pageDirty plan1) = {p \<in> Q. cl p = Inr PCurrent}" "bset (pageEmpty plan1) = {p \<in> Q. cl p = Inr PEmpty}"
    "\<forall>p \<in> Q. \<exists>c. cl p = Inr c" by (simp_all add: compared_def)
  have par: "(\<Union>(k, bm) \<in> set parents. bset bm) \<subseteq> {p \<in> Q. \<exists>k. cl p = Inr (PParent k)}"
    using compared_parents [OF c] by auto
  have "pageEmpty planP = pageEmpty plan1 \<and> bset (pageDirty plan1) \<subseteq> bset (pageDirty planP) \<and>
    bset (pageDirty planP) \<subseteq> bset (pageDirty plan1) \<union> (\<Union>(k, bm) \<in> set parents. bset bm)"
  proof (rule disjE [OF p])
    assume "\<exists>ext. planP = promoteCheapFrames ops fl parents ext (bs sdiv PageSize) (effective_budget budget)
        (plan1\<lparr>parentFrames := int (length parents)\<rparr>)"
    then obtain ext where e: "planP = fold (promote_frame ops fl ext (bs sdiv PageSize) (effective_budget budget)) parents
        (plan1\<lparr>parentFrames := int (length parents)\<rparr>)" by (auto simp: promoteCheapFrames_def)
    show ?thesis
      using promote_frames_dirty [of "plan1\<lparr>parentFrames := int (length parents)\<rparr>" fl ext "bs sdiv PageSize"
          "effective_budget budget" parents] unfolding e by (simp add: promote_frames_empty)
  qed auto
  note pl = this
  then have "bset (pageDirty planP) \<subseteq> Q - bset (pageEmpty planP)" using c1 par by fastforce
  note cb = compactBlockWindows_spec [OF fit effective_window r2 this [unfolded Q]]
  show "bset (pageEmpty plan) = {p \<in> Q. cl p = Inr PEmpty}" "\<forall>p \<in> Q. \<exists>c. cl p = Inr c"
    "{p \<in> Q. cl p = Inr PCurrent} \<subseteq> bset (pageDirty plan)" "bset (pageDirty plan) \<subseteq> Q - bset (pageEmpty plan)"
    using cb pl c1 Q by auto
qed

end

section \<open>The comparison returns\<close>

text \<open>The end of a window is past the offset, so the walks over windows end.\<close>

lemma window_advances:
  assumes "0 < wb" "0 \<le> off" "off + wb \<le> max_i64"
  shows "off < snd (fetchKeyAndEnd ft bid off wb)"
proof -
  have q: "0 \<le> off div wb" "off div wb \<le> off" using assms div_le_nonneg by (simp_all add: pos_imp_zdiv_nonneg_iff)
  have m: "off < (off div wb + 1) * wb" "(off div wb + 1) * wb \<le> off + wb"
    using div_less_iff [OF assms(1), of off "off div wb + 1"] le_div_iff [OF assms(1), of "off div wb" off]
    by (simp_all add: distrib_right)
  have "i64 (i64 (i64 (off div wb) + 1) * wb) = (off div wb + 1) * wb"
    using q m assms by (simp add: i64_id)
  then show ?thesis
    using assms m(1) by (auto simp: fetchKeyAndEnd_def Let_def sdiv_nonneg split: sum.splits)
qed

lemma window_walk_total:
  assumes "0 < wb" "0 \<le> off" "hi + wb \<le> max_i64"
  shows "\<exists>st'. window_walk ft bid wb cand block off hi st = Some st'"
  using assms
proof (induction ft bid wb cand block off hi st rule: window_walk.induct)
  case (1 ft bid wb cand block off hi counts lastBlock)
  show ?case
  proof (cases "off < hi")
    case True
    obtain key nxt where kn: "fetchKeyAndEnd ft bid off wb = (key, nxt)" by fastforce
    have lt: "off < nxt" using window_advances [of wb off ft bid] 1(2-4) True kn by simp
    show ?thesis
      using 1(1) [OF True kn [symmetric] refl refl lt] 1(2-4) True kn lt
      by (subst window_walk.simps) (simp add: Let_def)
  qed (simp add: window_walk.simps)
qed

lemma foldO_total: "(\<And>x st. x \<in> set xs \<Longrightarrow> \<exists>st'. f x st = Some st') \<Longrightarrow> \<exists>st'. foldO f xs st = Some st'"
proof (induction xs arbitrary: st)
  case (Cons x xs)
  obtain s1 where "f x st = Some s1" using Cons.prems by fastforce
  moreover have "\<exists>st'. foldO f xs s1 = Some st'" using Cons by simp
  ultimately show ?case by simp
qed simp

lemma external_block_total:
  assumes "page_ok m" "0 < wb" "wb \<le> 4503599627370496"
  shows "\<exists>st'. external_block ops dirty ft m bs wb cand block st = Some st'"
proof -
  have e: "i64 (Offset m) = Offset m" "i64 (BuildStorageOffset m) = BuildStorageOffset m"
    "i64 (u64 (Offset m + Length m)) = Offset m + Length m"
    using assms(1) by (auto simp: page_ok_def u64_id i64_id)
  let ?lo = "max (block * bs) (Offset m) - Offset m + BuildStorageOffset m"
  let ?hi = "min ((block + 1) * bs) (Offset m + Length m) - Offset m + BuildStorageOffset m"
  have lo: "0 \<le> ?lo" using assms(1) by (auto simp: page_ok_def)
  have "?hi \<le> 17592186040320" using assms(1) by (auto simp: page_ok_def)
  then have hi: "?hi + wb \<le> max_i64" using assms(3) by linarith
  show ?thesis
    using window_walk_total [OF assms(2) lo hi] by (auto simp: external_block_def Let_def e)
qed

lemma countExternalBlocks_total:
  assumes "\<forall>h. baseHeader = Some h \<longrightarrow> header_wf h" "0 < wb" "wb \<le> 4503599627370496"
  shows "\<exists>c. countExternalBlocks ops cand nc baseHeader dirty bs wb = Some c"
proof (cases baseHeader)
  case None
  then show ?thesis by (simp add: countExternalBlocks_def)
next
  case (Some h)
  have "page_ok (snd e)" if "e \<in> set (All (h_Mapping h))" for e
    using that assms(1) Some by (auto simp: All_def Slice_def header_wf_def pages_ok_def)
  then have ok: "page_ok m" if "(i, m) \<in> set (All (h_Mapping h))" for i m using that by force
  have "\<exists>st'. foldO (external_block ops dirty ft m bs wb cand) xs st = Some st'" if "page_ok m" for ft m xs st
    using external_block_total [OF that assms(2,3)] by (intro foldO_total)
  then have "\<exists>st'. foldO (\<lambda>(_, m) st. if BuildId m = uuid_Nil then Some st
      else foldO (external_block ops dirty (GetBuildFrameData h (BuildId m)) m bs wb cand)
        [i64 (Offset m) sdiv bs..(i64 (u64 (Offset m + Length m)) + bs - 1) div bs - 1] st)
      (All (h_Mapping h)) st = Some st'" for st
    using ok by (intro foldO_total) (auto split: prod.splits)
  then show ?thesis using Some by (auto simp: countExternalBlocks_def)
qed

lemma compactBlockWindows_total:
  "\<exists>plan'. compactBlockWindows ops (\<lambda>_ _. None) plan h dirty bs wb budget = Inr plan'"
proof -
  have "\<exists>st'. compact_block ops (\<lambda>_ _. None) h bs wb budget a st = Inr st'" for a st
    by (cases st) (simp add: compact_block_def Let_def split_beta)
  then have "\<exists>st'. foldR (\<lambda>r. foldR (\<lambda>c. compact_block ops (\<lambda>_ _. None) h bs wb budget (RStart r + c))
      (offsets 0 (RSize r) bs)) (BitsetRanges ops dirty bs) st = Inr st'" for st
    by (intro foldR_total)
  then obtain st' where "foldR (\<lambda>r. foldR (\<lambda>c. compact_block ops (\<lambda>_ _. None) h bs wb budget (RStart r + c))
      (offsets 0 (RSize r) bs)) (BitsetRanges ops dirty bs) (plan, 0) = Inr st'" by blast
  then show ?thesis by (cases st') (simp add: compactBlockWindows_def)
qed

lemma classify_total: "bd_Slice base off 4096 = Inr pg \<Longrightarrow> \<exists>c. classify base be wb srcPage off = Inr c"
  by (auto simp: classify_def Let_def PageSize_def)

context roaring_bitmap
begin

lemma compare_loop_total:
  assumes fit: "blocks_fit bs (bset dirty)"
    and src: "\<forall>b \<in> bset dirty. \<exists>buf. src (b * bs) = Inr buf \<and> int (length buf) = bs"
    and base: "\<forall>p \<in> dirty_pages bs (bset dirty). \<exists>pg. bd_Slice base (p * 4096) 4096 = Inr pg"
  shows "\<exists>st'. foldR (compare_range ops (\<lambda>_ _. None) src base bs be wb) (BitsetRanges ops dirty bs) st = Inr st'"
proof -
  have bs: "0 < bs" "4096 dvd bs" using fit by (auto simp: blocks_fit_def)
  have block: "\<exists>st'. compare_block ops (\<lambda>_ _. None) src base bs be wb (b * bs) st = Inr st'" if b: "b \<in> bset dirty" for b st
  proof -
    obtain buf where buf: "src (b * bs) = Inr buf" "int (length buf) = bs" using src b by blast
    have "\<exists>st'. compare_page ops base be wb buf (b * bs) i st = Inr st'"
      if "i \<in> set (map (\<lambda>k. k * 4096) [0..bs div 4096 - 1])" for i st
    proof -
      from that obtain k where k: "i = k * 4096" "k \<in> {0..bs div 4096 - 1}" unfolding set_map set_upto by (rule imageE)
      have "(k + 1) * 4096 \<le> bs div 4096 * 4096" using k(2) by (intro mult_right_mono) auto
      then have sl: "\<exists>pg. go_slice buf i (i + PageSize) = Inr pg"
        using k bs(2) buf(2) by (simp add: go_slice_def PageSize_def distrib_right)
      have "b * (bs div 4096) + k \<in> dirty_pages bs (bset dirty)"
        using b k(2) by (auto simp: dirty_pages_def block_pages_def distrib_right intro!: bexI [of _ b])
      then obtain pg where "bd_Slice base ((b * (bs div 4096) + k) * 4096) 4096 = Inr pg" using base by blast
      moreover have "(b * (bs div 4096) + k) * 4096 = b * bs + i" using bs(2) k(1) by (simp add: distrib_right)
      ultimately have "bd_Slice base (b * bs + i) 4096 = Inr pg" by simp
      from sl obtain sp where sp: "go_slice buf i (i + PageSize) = Inr sp" by blast
      obtain c where "classify base be wb sp (b * bs + i) = Inr c"
        using classify_total [of base "b * bs + i" pg be wb sp] \<open>bd_Slice base (b * bs + i) 4096 = Inr pg\<close> by blast
      with sp show ?thesis by (simp add: compare_page_def)
    qed
    then have "\<exists>st'. foldR (compare_page ops base be wb buf (b * bs)) (map (\<lambda>k. k * 4096) [0..bs div 4096 - 1]) st = Inr st'"
      by (rule foldR_total)
    then show ?thesis using buf(1) block_size_pages [OF bs] by (simp add: compare_block_def)
  qed
  show ?thesis
  proof (rule foldR_total)
    fix r and st :: "'b compare_state"
    assume "r \<in> set (BitsetRanges ops dirty bs)"
    then obtain s e where se: "(s, e) \<in> set (bm_Ranges ops dirty)" "r = \<lparr>RStart = s * bs, RSize = (e - s) * bs\<rparr>"
      using BitsetRanges_eq [OF fit] by auto
    have lt: "s < e" using ascending_runs_nonempty [OF Ranges_asc se(1)] .
    have sub: "{s..<e} \<subseteq> bset dirty" using se(1) Ranges_set [of dirty] by (auto simp: run_set_def)
    have off: "offsets 0 (RSize r) bs = map (\<lambda>k. k * bs) [0..e - s - 1]"
      using offsets_aligned [OF bs(1), of "e - s"] lt se(2) by simp
    have "\<exists>st'. foldR (\<lambda>c. compare_block ops (\<lambda>_ _. None) src base bs be wb (RStart r + c))
        (map (\<lambda>k. k * bs) [0..e - s - 1]) st = Inr st'" for st
    proof (rule foldR_total)
      fix c st assume "c \<in> set (map (\<lambda>k. k * bs) [0..e - s - 1])"
      then obtain k where k: "c = k * bs" "k \<in> {0..e - s - 1}" unfolding set_map set_upto by (rule imageE)
      then have "s + k \<in> bset dirty" using sub by auto
      from block [OF this] show "\<exists>st'. compare_block ops (\<lambda>_ _. None) src base bs be wb (RStart r + c) st = Inr st'"
        using k(1) se(2) by (simp add: distrib_right)
    qed
    then show "\<exists>st'. compare_range ops (\<lambda>_ _. None) src base bs be wb r st = Inr st'"
      using off by (cases st) (simp add: compare_range_def)
  qed
qed

lemma dedupCompare_total:
  assumes fit: "blocks_fit bs (bset dirty)"
    and src: "\<forall>b \<in> bset dirty. \<exists>buf. src (b * bs) = Inr buf \<and> int (length buf) = bs"
    and base: "\<forall>p \<in> dirty_pages bs (bset dirty). \<exists>pg. bd_Slice base (p * 4096) 4096 = Inr pg"
    and h: "\<forall>h. bd_Header base = Some h \<longrightarrow> header_wf h" and w: "FetchRunWindowPages budget \<le> 1099511627776"
  shows "\<exists>plan. dedupCompare ops fl (\<lambda>_ _. None) src base dirty bs be budget = Some (Inr plan)"
proof -
  have "FetchRunWindowPages (effective_budget budget) \<le> 1099511627776"
    using w by (simp add: effective_budget_def DefaultCompressFrameSize_def PageSize_def sdiv_nonneg)
  then have wb: "0 < window_bytes budget" "window_bytes budget \<le> 4503599627370496"
    using effective_window [of budget] by (simp_all add: window_bytes_def PageSize_def i64_id)
  obtain plan1 parents where r: "foldR (compare_range ops (\<lambda>_ _. None) src base bs be (window_bytes budget))
      (BitsetRanges ops dirty bs) (plan0 ops, []) = Inr (plan1, parents)"
    using compare_loop_total [OF fit src base] by (metis surj_pair)
  obtain ext where e: "countExternalBlocks ops (\<lambda>k. map_of parents k \<noteq> None) (parents = []) (bd_Header base) dirty bs
      (window_bytes budget) = Some ext"
    using countExternalBlocks_total [OF h wb, of ops "\<lambda>k. map_of parents k \<noteq> None" "parents = []" dirty bs] by blast
  show ?thesis
    using r e compactBlockWindows_total [of ops _ "bd_Header base" dirty bs "window_bytes budget" "effective_budget budget"]
    by (auto simp: dedupCompare_def Let_def stage_defs)
qed

end

text \<open>A small source and parent: one dirty block of two pages, of which the parent has the first.\<close>

definition example_src :: "int \<Rightarrow> bytes result" where
  "example_src off = Inr (replicate 4096 1 @ replicate 4096 2)"

definition example_base :: base_device where
  "example_base = \<lparr>bd_Header = Some example_header, bd_Slice = (\<lambda>off len. Inr (replicate (nat len) 1)), bd_IsCached = None\<rparr>"

definition example_floats :: "int float_ops" where
  "example_floats = \<lparr>f_of_int = (\<lambda>x. x), f_div = (div), f_sub = (-), f_mul = (*), f_pow = (\<lambda>a b. a ^ nat b), f_le = (\<le>)\<rparr>"

definition example_budget :: DedupBudget where
  "example_budget = \<lparr>MaxFetchWindowsPerBlock = 1, MaxPromotedParentPagesPerBlock = 1, MaxPagesPerPromotedFrame = 4,
     BlockFaultPct = 0, FetchRunWindowPages = 0\<rparr>"

lemma example_dedup_returns:
  "\<exists>plan. dedupCompare listbm_ops example_floats (\<lambda>_ _. None) example_src example_base [0] 8192 False example_budget =
     Some (Inr plan)"
  by (rule lbm.dedupCompare_total)
    (auto simp: blocks_fit_def listbm_set_def example_src_def example_base_def example_budget_def example_header_wf)

section \<open>Properties\<close>

text \<open>(C11) Deduplication never changes the restored image, whatever the budgets, the cache state and
  the rounding of the price formula make it promote. The stored and the empty pages are
  disjoint and lie in the dirty blocks; a page recorded as empty is all zero in the source, and
  a page that is neither is read from the parent at a place where the parent returns exactly
  the source's bytes.\<close>

theorem dedup_restores_source:
  assumes "roaring_bitmap ops bset" "blocks_fit bs (bset dirty)"
    and "dedupCompare ops fl ctxErr src base dirty bs bestEffort budget = Some (Inr plan)"
  shows "bset (pageDirty plan) \<inter> bset (pageEmpty plan) = {} \<and>
    bset (pageDirty plan) \<union> bset (pageEmpty plan) \<subseteq> dirty_pages bs (bset dirty) \<and>
    (\<forall>p \<in> dirty_pages bs (bset dirty). \<exists>pg. page_of src bs p = Inr pg \<and>
      (p \<in> bset (pageDirty plan) \<or>
       p \<in> bset (pageEmpty plan) \<and> pg = replicate (length pg) 0 \<or>
       p \<notin> bset (pageEmpty plan) \<and> bd_Slice base (p * 4096) 4096 = Inr pg))"
proof -
  let ?cl = "page_class_of src base bs bestEffort (window_bytes budget)"
  note d = roaring_bitmap.dedupCompare_plan [OF assms(1,2,3) refl refl]
  have "\<exists>pg. page_of src bs p = Inr pg \<and> (p \<in> bset (pageDirty plan) \<or>
       p \<in> bset (pageEmpty plan) \<and> pg = replicate (length pg) 0 \<or>
       p \<notin> bset (pageEmpty plan) \<and> bd_Slice base (p * 4096) 4096 = Inr pg)"
    if p: "p \<in> dirty_pages bs (bset dirty)" for p
  proof -
    obtain c pg where c: "?cl p = Inr c" "page_of src bs p = Inr pg" "classify base bestEffort (window_bytes budget) pg (p * 4096) = Inr c"
      using d(4) p by (fastforce simp: page_class_of_def bindR_eq_Inr)
    have zero: "pg = replicate (length pg) 0" if "IsZero pg"
      using that unfolding IsZero_iff_aux by (metis replicate_eqI)
    show ?thesis
    proof (cases c)
      case PEmpty
      have "IsZero pg" using c(3) PEmpty by (auto simp: classify_def Let_def bindR_eq_Inr split: if_splits)
      then show ?thesis using c p d(1) PEmpty zero by auto
    next
      case PCurrent
      then show ?thesis using c p d(2) by auto
    next
      case (PParent k)
      have "bd_Slice base (p * 4096) 4096 = Inr pg"
        using c(3) PParent by (auto simp: classify_def Let_def bindR_eq_Inr PageSize_def split: if_splits)
      then show ?thesis using c p d(1) PParent by auto
    qed
  qed
  then show ?thesis using d(1,3) by auto
qed

theorem dedup_restores_source_witness:
  "\<exists>plan. dedupCompare listbm_ops example_floats (\<lambda>_ _. None) example_src example_base [0] 8192 False example_budget =
     Some (Inr plan) \<and> 1 \<in> listbm_set (pageDirty plan) \<union> listbm_set (pageEmpty plan)"
proof -
  obtain plan where p: "dedupCompare listbm_ops example_floats (\<lambda>_ _. None) example_src example_base [0] 8192 False
      example_budget = Some (Inr plan)"
    using example_dedup_returns by blast
  have fit: "blocks_fit 8192 (listbm_set [0])" by (simp add: blocks_fit_def listbm_set_def)
  have "1 \<in> dirty_pages 8192 (listbm_set [0])" by (simp add: dirty_pages_def listbm_set_def block_pages_def)
  then obtain pg where "page_of example_src 8192 1 = Inr pg" and pg: "1 \<in> listbm_set (pageDirty plan) \<or>
      1 \<in> listbm_set (pageEmpty plan) \<or> bd_Slice example_base 4096 4096 = Inr pg"
    using dedup_restores_source [OF lbm.roaring_bitmap_axioms fit p] by fastforce
  then have "pg = replicate 4096 2"
    by (simp add: page_of_def example_src_def go_slice_def sub_def)
  then have "bd_Slice example_base 4096 4096 \<noteq> Inr pg" by (simp add: example_base_def)
  with p pg show ?thesis by blast
qed

text \<open>The window cap of a block promotes whole fetch keys only and within its budget, never
  increases the number of fetch windows, decreases it whenever it promotes a page, and unless it
  reaches the cap there is no affordable selection of keys with fewer windows: scanning the
  prefixes of the groups sorted by size loses nothing.\<close>

theorem compact_optimal:
  assumes "compact w pages maxWindows maxPromoted = (pages', n)" "0 < windowPages w" "0 \<le> currentStart w"
  shows "\<exists>K. pages' = promote_keys K pages \<and> n = promotion_cost K pages \<and> n \<le> max maxPromoted 0 \<and>
    fetch_windows w pages' \<le> fetch_windows w pages \<and> (0 < n \<longrightarrow> fetch_windows w pages' < fetch_windows w pages) \<and>
    (0 < maxWindows \<and> 0 < maxPromoted \<longrightarrow> fetch_windows w pages' \<le> maxWindows \<or>
      (\<forall>K'. promotion_cost K' pages \<le> maxPromoted \<longrightarrow>
         fetch_windows w pages' \<le> fetch_windows w (promote_keys K' pages)))"
  using assms by (rule compact_choice)

theorem compact_optimal_witness:
  "fetch_windows \<lparr>windowPages = 4, currentStart = 0\<rparr>
     (fst (compact \<lparr>windowPages = 4, currentStart = 0\<rparr>
        [\<lparr>pi_kind = dedupPageParent, pi_key = \<lparr>fk_buildID = 7, fk_window = 0\<rparr>\<rparr>,
         \<lparr>pi_kind = dedupPageParent, pi_key = \<lparr>fk_buildID = 7, fk_window = 5\<rparr>\<rparr>] 1 2)) \<le> 1"
proof -
  define P where "P = [\<lparr>pi_kind = dedupPageParent, pi_key = \<lparr>fk_buildID = 7, fk_window = 0\<rparr>\<rparr>,
         \<lparr>pi_kind = dedupPageParent, pi_key = \<lparr>fk_buildID = 7, fk_window = 5\<rparr>\<rparr>]"
  let ?w = "\<lparr>windowPages = 4, currentStart = 0\<rparr> :: fetchWindower"
  have pk: "parent_keys (promote_keys UNIV P) = {}" by (auto simp: parent_keys_def promote_keys_def P_def)
  have all: "promotion_cost UNIV P \<le> 2" "fetch_windows ?w (promote_keys UNIV P) = 1"
    using pk by (simp_all add: P_def promotion_cost_def fetch_windows_def promote_keys_def
        currentWindows_def sdiv_nonneg)
  have "fetch_windows ?w (fst (compact ?w P 1 2)) \<le> 1 \<or>
      (\<forall>K'. promotion_cost K' P \<le> 2 \<longrightarrow>
         fetch_windows ?w (fst (compact ?w P 1 2)) \<le> fetch_windows ?w (promote_keys K' P))"
    using compact_optimal [of ?w P 1 2, OF surjective_pairing] by auto
  then have "fetch_windows ?w (fst (compact ?w P 1 2)) \<le> 1" using all by force
  then show ?thesis by (simp add: P_def)
qed

text \<open>The comparison returns: with a parent whose header is well-formed, readable source blocks
  and parent pages and a context that is not cancelled, every loop ends, those that count the
  blocks outside the diff window by window included, and a plan results.\<close>

theorem dedup_returns:
  assumes "roaring_bitmap ops bset" "blocks_fit bs (bset dirty)"
    and "\<forall>b \<in> bset dirty. \<exists>buf. src (b * bs) = Inr buf \<and> int (length buf) = bs"
    and "\<forall>p \<in> dirty_pages bs (bset dirty). \<exists>pg. bd_Slice base (p * 4096) 4096 = Inr pg"
    and "\<forall>h. bd_Header base = Some h \<longrightarrow> header_wf h" "FetchRunWindowPages budget \<le> 1099511627776"
  shows "\<exists>plan. dedupCompare ops fl (\<lambda>_ _. None) src base dirty bs bestEffort budget = Some (Inr plan)"
  using assms by (rule roaring_bitmap.dedupCompare_total)

theorem dedup_returns_witness:
  "\<exists>plan. dedupCompare listbm_ops example_floats (\<lambda>_ _. None) example_src example_base [0, 3] 8192 True example_budget =
     Some (Inr plan)"
  by (rule dedup_returns [OF lbm.roaring_bitmap_axioms])
    (auto simp: blocks_fit_def listbm_set_def example_src_def example_base_def example_budget_def example_header_wf)

end
