(* ===== verification/BuildFile.thy ===== *)
theory BuildFile
  imports Header Cache
begin

text \<open>
  Reading a layered file, \<open>packages/orchestrator/pkg/sandbox/build/build.go\<close>: a read is planned
  as segments of the builds that the header maps it to, holes are filled with zeros, and the
  segments are read from the diffs of the builds, in order or in parallel. The diffs (local or
  remote), the store that resolves a build to its diff and the scheduling of the parallel reads
  are parameters: \<open>hdr a i\<close> is the header loaded in iteration \<open>i\<close> of attempt \<open>a\<close>, since
  headers may be swapped at any time; \<open>gb a\<close> resolves builds in attempt \<open>a\<close>, since a diff may
  be evicted and closed between planning and reading, upon which the whole read is repeated;
  \<open>sched a\<close> is the order in which the segments of a parallel read take effect.

  Also here: the futures of \<open>packages/shared/pkg/utils/set_once.go\<close> and the choice of the header
  that a pause may build on, \<open>DurableHeader\<close>, with the swaps it races with.

  What is shown: whatever is evicted, swapped for an equivalent header or read in parallel, a
  read returns the bytes of the image the header denotes; \<open>Slice\<close> agrees with it on all its
  paths; reads past the end; and late swaps never replace a finalised header.
\<close>

section \<open>Diffs and segments\<close>

text \<open>\<open>d_ReadAt\<close> returns the buffer as it is left, and the count or the error.\<close>

record Diff =
  d_ReadAt :: "bytes \<Rightarrow> int \<Rightarrow> FrameTable option \<Rightarrow> bytes \<times> int result"
  d_Slice :: "int \<Rightarrow> int \<Rightarrow> FrameTable option \<Rightarrow> bytes result"
  d_IsCached :: "(int \<Rightarrow> int \<Rightarrow> bool) option"

record readSegment =
  rs_dstOff :: int
  rs_srcOff :: int
  rs_length :: int
  rs_diff :: Diff
  rs_ft :: "FrameTable option"

definition buildCacheSize :: nat where "buildCacheSize = 16"

definition cachedBuild ::
  "(uuid \<Rightarrow> Diff result) \<Rightarrow> uuid \<Rightarrow> (uuid \<times> Diff) list \<Rightarrow> (Diff \<times> (uuid \<times> Diff) list) result" where
  "cachedBuild getBuild buildID ids =
     (case map_of ids buildID of
        Some d \<Rightarrow> Inr (d, ids)
      | None \<Rightarrow> bindR (getBuild buildID) (\<lambda>diff.
          Inr (diff, if length ids < buildCacheSize then ids @ [(buildID, diff)] else ids)))"

section \<open>Planning\<close>

type_synonym plan = "readSegment list \<times> nat \<times> nat"

function plan_loop ::
  "(nat \<Rightarrow> Header) \<Rightarrow> (uuid \<Rightarrow> Diff result) \<Rightarrow> int \<Rightarrow> nat \<Rightarrow> bytes \<Rightarrow> nat \<Rightarrow> readSegment list \<Rightarrow>
   (uuid \<times> Diff) list \<Rightarrow> bytes \<times> plan result" where
  "plan_loop hdr getBuild off i p n segments ids =
     (if n < length p
      then case GetShiftedMapping (hdr i) (i64 (off + int n)) of
          Inl e \<Rightarrow> (p, Inl e)
        | Inr m \<Rightarrow>
            let readLength = min (i64 (Length m)) (int (length p - n))
            in if readLength \<le> 0 then (p, Inr (segments, n, length ids))
               else if BuildId m = uuid_Nil
               then plan_loop hdr getBuild off (i + 1)
                      (overwrite p (int n) (replicate (nat readLength) 0)) (n + nat readLength) segments ids
               else case cachedBuild getBuild (BuildId m) ids of
                   Inl e \<Rightarrow> (p, Inl e)
                 | Inr (diff, ids') \<Rightarrow>
                     plan_loop hdr getBuild off (i + 1) p (n + nat readLength)
                       (segments @ [\<lparr>rs_dstOff = int n, rs_srcOff = i64 (Offset m), rs_length = readLength,
                          rs_diff = diff, rs_ft = GetBuildFrameData (hdr i) (BuildId m)\<rparr>]) ids'
      else (p, Inr (segments, n, length ids)))"
  by pat_completeness auto
termination
  by (relation "measure (\<lambda>(hdr, gb, off, i, p, n, segs, ids). length p - n)") (auto simp: overwrite_def)

declare plan_loop.simps [simp del]

definition planRead ::
  "(nat \<Rightarrow> Header) \<Rightarrow> (uuid \<Rightarrow> Diff result) \<Rightarrow> bytes \<Rightarrow> int \<Rightarrow> bytes \<times> plan result" where
  "planRead hdr getBuild p off = plan_loop hdr getBuild off 0 p 0 [] []"

section \<open>Reading the segments\<close>

definition read_segment :: "bytes \<Rightarrow> readSegment \<Rightarrow> bytes \<times> unit result" where
  "read_segment p s =
     (case go_slice p (rs_dstOff s) (rs_dstOff s + rs_length s) of
        Inl e \<Rightarrow> (p, Inl e)
      | Inr dst \<Rightarrow>
          (case d_ReadAt (rs_diff s) dst (rs_srcOff s) (rs_ft s) of
             (dst', r) \<Rightarrow>
               (overwrite p (rs_dstOff s) dst',
                case r of Inl e \<Rightarrow> Inl e
                | Inr n \<Rightarrow> if n \<noteq> rs_length s then Inl UnexpectedEOF else Inr ())))"

fun read_in_order :: "bytes \<Rightarrow> readSegment list \<Rightarrow> bytes \<times> unit result" where
  "read_in_order p [] = (p, Inr ())"
| "read_in_order p (s # ss) =
     (case read_segment p s of
        (p', Inl e) \<Rightarrow> (p', Inl e)
      | (p', Inr _) \<Rightarrow> read_in_order p' ss)"

text \<open>The group of parallel reads waits for all of them and returns the first error.\<close>

fun read_all :: "bytes \<Rightarrow> readSegment list \<Rightarrow> bytes \<times> unit result" where
  "read_all p [] = (p, Inr ())"
| "read_all p (s # ss) =
     (case read_segment p s of
        (p', r) \<Rightarrow> (case read_all p' ss of (p'', r') \<Rightarrow> (p'', case r of Inl e \<Rightarrow> Inl e | Inr _ \<Rightarrow> r')))"

definition readSegments ::
  "(readSegment list \<Rightarrow> readSegment list) \<Rightarrow> bytes \<Rightarrow> readSegment list \<Rightarrow> int \<Rightarrow> bytes \<times> unit result" where
  "readSegments sched p segments maxParallel =
     (if maxParallel > 1 \<and> length segments > 1 then read_all p (sched segments)
      else read_in_order p segments)"

text \<open>The retry loop; \<open>None\<close> when the fuel, a bound on the number of attempts, does not suffice.\<close>

fun readAt ::
  "nat \<Rightarrow> (nat \<Rightarrow> nat \<Rightarrow> Header) \<Rightarrow> (nat \<Rightarrow> uuid \<Rightarrow> Diff result) \<Rightarrow>
   (nat \<Rightarrow> readSegment list \<Rightarrow> readSegment list) \<Rightarrow> int \<Rightarrow> nat \<Rightarrow> bytes \<Rightarrow> int \<Rightarrow>
   (bytes \<times> int \<times> error option) option" where
  "readAt 0 hdr gb sched maxParallel a p off = None"
| "readAt (Suc fuel) hdr gb sched maxParallel a p off =
     (let retry = (\<lambda>e q. if e = CacheClosed then readAt fuel hdr gb sched maxParallel (a + 1) q off
                         else Some (q, 0, Some e))
      in case planRead (hdr a) (gb a) p off of
           (p1, Inl e) \<Rightarrow> retry e p1
         | (p1, Inr (segments, n, distinctBuilds)) \<Rightarrow>
             (case readSegments (sched a) p1 segments maxParallel of
                (p2, Inl e) \<Rightarrow> retry e p2
              | (p2, Inr _) \<Rightarrow>
                  Some (p2, int n, if n < length p then Some EOF else None)))"

text \<open>\<open>Slice\<close>: without a copy when the range lies in one mapping, through \<open>readAt\<close> otherwise or
  when the fast path fails.\<close>

definition File_Slice ::
  "nat \<Rightarrow> Header \<Rightarrow> (uuid \<Rightarrow> Diff result) \<Rightarrow> (nat \<Rightarrow> nat \<Rightarrow> Header) \<Rightarrow> (nat \<Rightarrow> uuid \<Rightarrow> Diff result) \<Rightarrow>
   (nat \<Rightarrow> readSegment list \<Rightarrow> readSegment list) \<Rightarrow> int \<Rightarrow> int \<Rightarrow> int \<Rightarrow> bytes result option" where
  "File_Slice fuel h getBuild hdr gb sched maxParallel off len =
     (let slow = (if len < 0 then Some (Inl Panic)
                  else case readAt fuel hdr gb sched maxParallel 0 (replicate (nat len) 0) off of
                    None \<Rightarrow> None
                  | Some (out, n, err) \<Rightarrow> Some (case err of Some e \<Rightarrow> Inl e | None \<Rightarrow> Inr out))
      in if len > 0
         then (case GetShiftedMapping h off of
                 Inl _ \<Rightarrow> slow
               | Inr m \<Rightarrow>
                   if i64 (Length m) < len then slow
                   else if BuildId m = uuid_Nil
                   then (if len \<le> HugepageSize then Some (Inr (replicate (nat len) 0)) else slow)
                   else (case getBuild (BuildId m) of
                           Inl _ \<Rightarrow> slow
                         | Inr diff \<Rightarrow>
                             (case d_Slice diff (i64 (Offset m)) len (GetBuildFrameData h (BuildId m)) of
                                Inr s \<Rightarrow> Some (Inr s)
                              | Inl _ \<Rightarrow> slow)))
         else slow)"

function cached_loop :: "Header \<Rightarrow> (uuid \<Rightarrow> Diff option) \<Rightarrow> int \<Rightarrow> int \<Rightarrow> int \<Rightarrow> bool" where
  "cached_loop h lookup off len n =
     (if n < len
      then case GetShiftedMapping h (i64 (off + n)) of
          Inl _ \<Rightarrow> False
        | Inr m \<Rightarrow>
            let segLen = min (i64 (Length m)) (len - n)
            in if segLen \<le> 0 then False
               else if BuildId m \<noteq> uuid_Nil \<and>
                 (case lookup (BuildId m) of None \<Rightarrow> True
                  | Some diff \<Rightarrow> (case d_IsCached diff of None \<Rightarrow> True | Some ic \<Rightarrow> \<not> ic (i64 (Offset m)) segLen))
               then False
               else cached_loop h lookup off len (n + segLen)
      else True)"
  by pat_completeness auto
termination
  by (relation "measure (\<lambda>(h, lookup, off, len, n). nat (len - n))") auto

declare cached_loop.simps [simp del]

definition File_IsCached :: "Header option \<Rightarrow> (uuid \<Rightarrow> Diff option) \<Rightarrow> int \<Rightarrow> int \<Rightarrow> bool" where
  "File_IsCached header lookup off len =
     (case header of None \<Rightarrow> False | Some h \<Rightarrow> cached_loop h lookup off len 0)"

section \<open>Futures (set\_once.go)\<close>

text \<open>\<open>so_done\<close> is whether the channel \<open>Done\<close> is closed.\<close>

record 'a SetOnce =
  so_res :: "'a result option"
  so_done :: bool

definition NewSetOnce :: "'a SetOnce" where
  "NewSetOnce = \<lparr>so_res = None, so_done = False\<rparr>"

definition setResult :: "'a SetOnce \<Rightarrow> 'a result \<Rightarrow> 'a SetOnce \<times> unit result" where
  "setResult s r =
     (if so_done s \<or> so_res s \<noteq> None then (s\<lparr>so_done := True\<rparr>, Inl (Err ''value already set''))
      else (\<lparr>so_res = Some r, so_done = True\<rparr>, Inr ()))"

definition SetOnce_Result :: "'a SetOnce \<Rightarrow> 'a result" where
  "SetOnce_Result s = (case so_res s of None \<Rightarrow> Inl (Err ''value not set'') | Some r \<Rightarrow> r)"

text \<open>\<open>None\<close> where the call blocks; \<open>ctxErr\<close> is the error of the context when it is done.\<close>

definition WaitWithContext :: "'a SetOnce \<Rightarrow> error option \<Rightarrow> 'a result option" where
  "WaitWithContext s ctxErr = (if so_done s then Some (SetOnce_Result s) else map_option Inl ctxErr)"

section \<open>The header of a file and its swaps\<close>

text \<open>Headers are shared by pointer and compared by pointer: a \<open>hptr\<close> is a pointer with the header it
  points to.\<close>

type_synonym hptr = "nat \<times> Header"

record File =
  f_header :: "hptr option"
  f_durable :: "hptr SetOnce option"

definition SwapHeader :: "File \<Rightarrow> hptr option \<Rightarrow> File" where
  "SwapHeader b h = b\<lparr>f_header := h\<rparr>"

definition SwapHeaderIfCurrent :: "File \<Rightarrow> hptr option \<Rightarrow> hptr option \<Rightarrow> File \<times> bool" where
  "SwapHeaderIfCurrent b old next =
     (if map_option fst (f_header b) = map_option fst old then (b\<lparr>f_header := next\<rparr>, True) else (b, False))"

definition SetDurableHeader :: "File \<Rightarrow> hptr SetOnce \<Rightarrow> File" where
  "SetDurableHeader b f = b\<lparr>f_durable := Some f\<rparr>"

definition finalised :: "hptr option \<Rightarrow> bool" where
  "finalised h = (case h of None \<Rightarrow> False | Some (p, hh) \<Rightarrow> \<not> h_Incomplete hh)"

definition DurableHeader :: "File \<Rightarrow> error option \<Rightarrow> hptr option result option" where
  "DurableHeader b ctxErr =
     (if finalised (f_header b) then Some (Inr (f_header b))
      else case f_durable b of
          Some f \<Rightarrow> map_option (\<lambda>r. bindR r (\<lambda>h. Inr (Some h))) (WaitWithContext f ctxErr)
        | None \<Rightarrow> Some (Inr (f_header b)))"

definition DurableHeaderNow :: "File \<Rightarrow> hptr option \<times> bool" where
  "DurableHeaderNow b =
     (if finalised (f_header b) then (f_header b, True)
      else case f_durable b of
          None \<Rightarrow> (f_header b, True)
        | Some f \<Rightarrow>
            if so_done f
            then (case SetOnce_Result f of Inr h \<Rightarrow> (Some h, True) | Inl _ \<Rightarrow> (None, False))
            else (None, False))"

text \<open>What happens to the header of a file that is served from a provisional header
  (\<open>template/cache.go\<close>, \<open>build_upload.go\<close>): the deduplication sets the durable future, the
  goroutine that waits for it swaps the header if it is still the provisional one, and uploads
  publish finalised headers unconditionally. These run concurrently, in any order.\<close>

inductive file_step :: "hptr \<Rightarrow> File \<Rightarrow> File \<Rightarrow> bool" for prov :: hptr where
  dedup_done: "f_durable b = Some f \<Longrightarrow> (\<forall>d. r = Inr d \<longrightarrow> fst d \<noteq> fst prov) \<Longrightarrow>
    file_step prov b (b\<lparr>f_durable := Some (fst (setResult f r))\<rparr>)"
| late_swap: "f_durable b = Some f \<Longrightarrow> so_done f \<Longrightarrow> SetOnce_Result f = Inr d \<Longrightarrow>
    file_step prov b (fst (SwapHeaderIfCurrent b (Some prov) (Some d)))"
| publish: "finalised (Some h) \<Longrightarrow> fst h \<noteq> fst prov \<Longrightarrow> file_step prov b (SwapHeader b (Some h))"

definition provisional_file :: "hptr \<Rightarrow> File" where
  "provisional_file prov = \<lparr>f_header = Some prov, f_durable = Some NewSetOnce\<rparr>"

section \<open>The image a header denotes\<close>

text \<open>\<open>content b o\<close> is the byte at offset \<open>o\<close> of the data of build \<open>b\<close>, whose size is \<open>bsize b\<close>.\<close>

definition denotes :: "Header \<Rightarrow> (uuid \<Rightarrow> int \<Rightarrow> byte) \<Rightarrow> (int \<Rightarrow> byte) \<Rightarrow> bool" where
  "denotes h content img \<longleftrightarrow>
     (\<forall>x. 0 \<le> x \<and> x < md_Size (h_Metadata h) \<longrightarrow>
        img x = (case src_at (Slice (h_Mapping h)) x of
                   Some (b, o') \<Rightarrow> if b = uuid_Nil then 0 else content b o' | None \<Rightarrow> 0))"

definition stored_in :: "Header \<Rightarrow> (uuid \<Rightarrow> int) \<Rightarrow> bool" where
  "stored_in h bsize \<longleftrightarrow>
     (\<forall>m \<in> set (Slice (h_Mapping h)). BuildId m \<noteq> uuid_Nil \<longrightarrow> BuildStorageOffset m + Length m \<le> bsize (BuildId m))"

text \<open>A diff serves the data of its build; once it is closed, its reads fail with \<open>CacheClosed\<close>
  instead, whatever they have left in the buffer.\<close>

definition diff_serves :: "(uuid \<Rightarrow> int \<Rightarrow> byte) \<Rightarrow> (uuid \<Rightarrow> int) \<Rightarrow> uuid \<Rightarrow> Diff \<Rightarrow> bool" where
  "diff_serves content bsize b d \<longleftrightarrow>
     (\<forall>dst off ft. 0 \<le> off \<and> off + int (length dst) \<le> bsize b \<longrightarrow>
        d_ReadAt d dst off ft = (bytes_of (content b) off (length dst), Inr (int (length dst))))"

definition diff_serves_or_closed :: "(uuid \<Rightarrow> int \<Rightarrow> byte) \<Rightarrow> (uuid \<Rightarrow> int) \<Rightarrow> uuid \<Rightarrow> Diff \<Rightarrow> bool" where
  "diff_serves_or_closed content bsize b d \<longleftrightarrow>
     (\<forall>dst off ft. 0 \<le> off \<and> off + int (length dst) \<le> bsize b \<longrightarrow>
        d_ReadAt d dst off ft = (bytes_of (content b) off (length dst), Inr (int (length dst))) \<or>
        (\<exists>q. length q = length dst \<and> d_ReadAt d dst off ft = (q, Inl CacheClosed)))"

lemma diff_serves_weaken: "diff_serves content bsize b d \<Longrightarrow> diff_serves_or_closed content bsize b d"
  by (simp add: diff_serves_def diff_serves_or_closed_def)

section \<open>Segments of an image\<close>

definition in_segment :: "nat \<Rightarrow> readSegment \<Rightarrow> bool" where
  "in_segment x s \<longleftrightarrow> rs_dstOff s \<le> int x \<and> int x < rs_dstOff s + rs_length s"

definition segment_ok ::
  "(uuid \<Rightarrow> int \<Rightarrow> byte) \<Rightarrow> (uuid \<Rightarrow> int) \<Rightarrow> (uuid \<Rightarrow> Diff \<Rightarrow> bool) \<Rightarrow> (int \<Rightarrow> byte) \<Rightarrow> int \<Rightarrow> nat \<Rightarrow> readSegment \<Rightarrow> bool" where
  "segment_ok content bsize D img off len s \<longleftrightarrow>
     0 \<le> rs_dstOff s \<and> 0 < rs_length s \<and> rs_dstOff s + rs_length s \<le> int len \<and> 0 \<le> rs_srcOff s \<and>
     (\<exists>b. D b (rs_diff s) \<and> rs_srcOff s + rs_length s \<le> bsize b \<and>
        (\<forall>k. 0 \<le> k \<and> k < rs_length s \<longrightarrow> content b (rs_srcOff s + k) = img (off + rs_dstOff s + k)))"

lemma segment_ok_mono:
  "segment_ok content bsize D img off len s \<Longrightarrow> (\<And>b d. D b d \<Longrightarrow> D' b d) \<Longrightarrow> segment_ok content bsize D' img off len s"
  by (auto simp: segment_ok_def)

text \<open>Reading one segment writes the bytes of the image at their place, or fails because the diff is
  closed.\<close>

lemma read_segment_spec:
  assumes "segment_ok content bsize (diff_serves_or_closed content bsize) img off (length p) s"
    and "read_segment p s = (p', r)"
  shows "length p' = length p \<and> (r = Inl CacheClosed \<or> r = Inr () \<and>
    (\<forall>x < length p. p' ! x = (if in_segment x s then img (off + int x) else p ! x)))"
proof -
  obtain b where b: "diff_serves_or_closed content bsize b (rs_diff s)" "rs_srcOff s + rs_length s \<le> bsize b"
    "\<And>k. 0 \<le> k \<Longrightarrow> k < rs_length s \<Longrightarrow> content b (rs_srcOff s + k) = img (off + rs_dstOff s + k)"
    using assms(1) by (auto simp: segment_ok_def)
  have s: "0 \<le> rs_dstOff s" "0 < rs_length s" "rs_dstOff s + rs_length s \<le> int (length p)" "0 \<le> rs_srcOff s"
    using assms(1) by (simp_all add: segment_ok_def)
  define dst where "dst = sub p (rs_dstOff s) (rs_dstOff s + rs_length s)"
  have dst: "go_slice p (rs_dstOff s) (rs_dstOff s + rs_length s) = Inr dst" "int (length dst) = rs_length s"
    using s by (simp_all add: go_slice_def dst_def)
  have "d_ReadAt (rs_diff s) dst (rs_srcOff s) (rs_ft s) =
      (bytes_of (content b) (rs_srcOff s) (length dst), Inr (rs_length s)) \<or>
      (\<exists>q. length q = length dst \<and> d_ReadAt (rs_diff s) dst (rs_srcOff s) (rs_ft s) = (q, Inl CacheClosed))"
    using b(1,2) s(4) dst(2) unfolding diff_serves_or_closed_def by metis
  then show ?thesis
  proof
    assume d: "d_ReadAt (rs_diff s) dst (rs_srcOff s) (rs_ft s) =
      (bytes_of (content b) (rs_srcOff s) (length dst), Inr (rs_length s))"
    let ?q = "bytes_of (content b) (rs_srcOff s) (length dst)"
    have r: "p' = overwrite p (rs_dstOff s) ?q" "r = Inr ()" using assms(2) dst(1) d by (simp_all add: read_segment_def)
    have "p' ! x = (if in_segment x s then img (off + int x) else p ! x)" if "x < length p" for x
    proof -
      have "?q ! (x - nat (rs_dstOff s)) = img (off + int x)" if i: "in_segment x s"
      proof -
        have k: "int (x - nat (rs_dstOff s)) = int x - rs_dstOff s" using s(1) i by (simp add: in_segment_def of_nat_diff nat_le_iff)
        then have "x - nat (rs_dstOff s) < length dst" using dst(2) i by (simp add: in_segment_def)
        then show ?thesis using b(3) [of "int x - rs_dstOff s"] i k by (simp add: in_segment_def)
      qed
      then show ?thesis using that s dst(2) r(1) by (simp add: nth_overwrite in_segment_def)
    qed
    then show ?thesis using r s dst(2) by simp
  next
    assume "\<exists>q. length q = length dst \<and> d_ReadAt (rs_diff s) dst (rs_srcOff s) (rs_ft s) = (q, Inl CacheClosed)"
    then show ?thesis using assms(2) dst s by (auto simp: read_segment_def)
  qed
qed

lemma read_segment_serves:
  assumes "segment_ok content bsize (diff_serves content bsize) img off (length p) s"
  shows "snd (read_segment p s) = Inr ()"
proof -
  obtain b where b: "diff_serves content bsize b (rs_diff s)" "rs_srcOff s + rs_length s \<le> bsize b"
    using assms by (auto simp: segment_ok_def)
  then show ?thesis
    using assms by (auto simp: segment_ok_def read_segment_def go_slice_def diff_serves_def)
qed

text \<open>Any number of segments, in any order: what is right stays right, what the segments cover becomes
  right.\<close>

definition right_at :: "(int \<Rightarrow> byte) \<Rightarrow> int \<Rightarrow> bytes \<Rightarrow> nat \<Rightarrow> bool" where
  "right_at img off p x \<longleftrightarrow> x < length p \<and> p ! x = img (off + int x)"

lemma read_segments_spec:
  assumes "\<forall>s \<in> set ss. segment_ok content bsize (diff_serves_or_closed content bsize) img off (length p) s"
    and "run = read_all \<or> run = read_in_order" "run p ss = (p', r)"
  shows "length p' = length p \<and> (r = Inl CacheClosed \<or> r = Inr () \<and>
    (\<forall>x < length p. right_at img off p x \<or> (\<exists>s \<in> set ss. in_segment x s) \<longrightarrow> right_at img off p' x))"
  using assms
proof (induction ss arbitrary: p p' r)
  case Nil
  then show ?case by auto
next
  case (Cons s ss)
  obtain q r1 where q: "read_segment p s = (q, r1)" by fastforce
  note rs = read_segment_spec [of content bsize img off p s q r1, OF _ q]
  have l: "length q = length p" and r1: "r1 = Inl CacheClosed \<or> r1 = Inr () \<and>
    (\<forall>x < length p. q ! x = (if in_segment x s then img (off + int x) else p ! x))"
    using rs Cons.prems(1) by auto
  obtain p2 r2 where p2: "run q ss = (p2, r2)" by fastforce
  have "\<forall>s \<in> set ss. segment_ok content bsize (diff_serves_or_closed content bsize) img off (length q) s"
    using Cons.prems(1) l by simp
  note ih = Cons.IH [OF this Cons.prems(2) p2]
  have res: "(p', r) = (p2, r2) \<and> r1 = Inr () \<or> r = Inl CacheClosed \<and> (p' = p2 \<or> p' = q) \<and> r1 = Inl CacheClosed"
    using Cons.prems(2,3) q p2 r1 by auto
  then show ?case
  proof
    assume "(p', r) = (p2, r2) \<and> r1 = Inr ()"
    then show ?thesis using ih l r1 by (auto simp: right_at_def)
  qed (use ih l in auto)
qed

lemma read_segments_serves:
  assumes "\<forall>s \<in> set ss. segment_ok content bsize (diff_serves content bsize) img off (length p) s"
    and "run = read_all \<or> run = read_in_order"
  shows "snd (run p ss) = Inr ()"
  using assms
proof (induction ss arbitrary: p)
  case (Cons s ss)
  obtain q r1 where q: "read_segment p s = (q, r1)" by fastforce
  have "r1 = Inr ()" using read_segment_serves [of content bsize img off p s] Cons.prems(1) q by simp
  moreover have "length q = length p"
    using read_segment_spec [OF segment_ok_mono [OF _ diff_serves_weaken] q] Cons.prems(1) by auto
  ultimately show ?case using Cons.IH [of q] Cons.prems q by (auto split: prod.splits)
qed auto

section \<open>Plans\<close>

text \<open>Headers that all denote the image, and a store that resolves the builds they refer to.\<close>

definition view_ok ::
  "(uuid \<Rightarrow> int \<Rightarrow> byte) \<Rightarrow> (uuid \<Rightarrow> int) \<Rightarrow> (int \<Rightarrow> byte) \<Rightarrow> int \<Rightarrow> (uuid \<Rightarrow> Diff \<Rightarrow> bool) \<Rightarrow>
   (uuid \<Rightarrow> Diff result) \<Rightarrow> Header \<Rightarrow> bool" where
  "view_ok content bsize img sz D getBuild h \<longleftrightarrow>
     header_wf h \<and> md_Size (h_Metadata h) = sz \<and> denotes h content img \<and> stored_in h bsize \<and>
     (\<forall>m \<in> set (Slice (h_Mapping h)). BuildId m \<noteq> uuid_Nil \<longrightarrow> (\<exists>d. getBuild (BuildId m) = Inr d \<and> D (BuildId m) d))"

lemma view_ok_segment:
  assumes "view_ok content bsize img sz D getBuild h" "0 \<le> x" "x < sz" "x mod 4096 = 0"
  obtains m where "GetShiftedMapping h x = Inr m" "0 < Length m" "x + Length m \<le> sz" "4096 dvd Length m"
    "i64 (Length m) = Length m" "i64 (Offset m) = Offset m" "0 \<le> Offset m"
    "BuildId m = uuid_Nil \<longrightarrow> (\<forall>k. 0 \<le> k \<and> k < Length m \<longrightarrow> img (x + k) = 0)"
    "BuildId m \<noteq> uuid_Nil \<longrightarrow> (\<forall>k. 0 \<le> k \<and> k < Length m \<longrightarrow> content (BuildId m) (Offset m + k) = img (x + k))"
    "BuildId m \<noteq> uuid_Nil \<longrightarrow> Offset m + Length m \<le> bsize (BuildId m)"
    "BuildId m \<noteq> uuid_Nil \<longrightarrow> (\<exists>d. getBuild (BuildId m) = Inr d \<and> D (BuildId m) d)"
proof -
  have h: "header_wf h" "md_Size (h_Metadata h) = sz" "denotes h content img" "stored_in h bsize"
    using assms(1) by (simp_all add: view_ok_def)
  obtain e where e: "e \<in> set (Slice (h_Mapping h))" "page_ok e" "Offset e \<le> x" "x < bm_end e" "bm_end e \<le> sz"
    "GetShiftedMapping h x = Inr \<lparr>Offset = BuildStorageOffset e + (x - Offset e), Length = bm_end e - x,
       BuildId = BuildId e, BuildStorageOffset = 0\<rparr>"
    "\<And>y. x \<le> y \<Longrightarrow> y < bm_end e \<Longrightarrow> src_at (Slice (h_Mapping h)) y = Some (bm_src e y)"
    using GetShiftedMapping_entry [OF h(1)] assms(2,3,4) h(2) by metis
  have p: "4096 dvd bm_end e" "0 \<le> Offset e" "0 \<le> BuildStorageOffset e" "bm_end e \<le> 17592186040320"
    "BuildStorageOffset e + Length e \<le> 17592186040320"
    using e(2) by (simp_all add: page_ok_def)
  have img: "img (x + k) = (if BuildId e = uuid_Nil then 0 else content (BuildId e) (BuildStorageOffset e + (x - Offset e) + k))"
    if "0 \<le> k" "k < bm_end e - x" for k
    using that h(2,3) e(5) e(7) [of "x + k"] assms(2) by (auto simp: denotes_def bm_src_def algebra_simps)
  show thesis
  proof (rule that [OF e(6)], goal_cases)
    case 3
    show ?case using p(1) assms(4) by (simp add: mod_eq_0_iff_dvd)
  next
    case 9
    show ?case using h(4) e(1,3,4) by (auto simp: stored_in_def)
  next
    case 10
    show ?case using assms(1) e(1) by (auto simp: view_ok_def)
  qed (use e(3,4,5) p assms(2) img in \<open>auto intro!: i64_id\<close>)
qed

text \<open>The invariant of planning: the bytes before \<open>n\<close> are zero-filled already or covered by a segment.\<close>

definition planned ::
  "(uuid \<Rightarrow> int \<Rightarrow> byte) \<Rightarrow> (uuid \<Rightarrow> int) \<Rightarrow> (uuid \<Rightarrow> Diff \<Rightarrow> bool) \<Rightarrow> (int \<Rightarrow> byte) \<Rightarrow> int \<Rightarrow> bytes \<Rightarrow> nat \<Rightarrow>
   readSegment list \<Rightarrow> bool" where
  "planned content bsize D img off p n segs \<longleftrightarrow> n \<le> length p \<and>
     (\<forall>s \<in> set segs. segment_ok content bsize D img off (length p) s) \<and>
     (\<forall>x < n. right_at img off p x \<or> (\<exists>s \<in> set segs. in_segment x s))"

lemma plan_loop_spec:
  assumes "\<forall>j. view_ok content bsize img sz D getBuild (hdr j)"
    and "0 \<le> off" "off + int (length p) \<le> sz" "sz \<le> max_i64"
    and "planned content bsize D img off p n segs" "(off + int n) mod 4096 = 0 \<or> n = length p"
    and "\<forall>(b, d) \<in> set ids. D b d"
  shows "\<exists>p' segs' k. plan_loop hdr getBuild off i p n segs ids = (p', Inr (segs', length p, k)) \<and>
    length p' = length p \<and> planned content bsize D img off p' (length p) segs'"
  using assms
proof (induction hdr getBuild off i p n segs ids rule: plan_loop.induct)
  case (1 hdr getBuild off i p n segs ids)
  note view = 1(3) and off = 1(4,5,6) and pl = 1(7) and al = 1(8) and idok = 1(9)
  show ?case
  proof (cases "n < length p")
    case False
    then have "n = length p" using pl by (simp add: planned_def)
    then show ?thesis using pl by (subst plan_loop.simps) auto
  next
    case True
    let ?x = "off + int n"
    have x: "0 \<le> ?x" "?x < sz" "?x mod 4096 = 0" "i64 ?x = ?x" using off True al by (auto intro!: i64_id)
    obtain m where m: "GetShiftedMapping (hdr i) ?x = Inr m" "0 < Length m" "?x + Length m \<le> sz" "4096 dvd Length m"
      "i64 (Length m) = Length m" "i64 (Offset m) = Offset m" "0 \<le> Offset m"
      "BuildId m = uuid_Nil \<longrightarrow> (\<forall>k. 0 \<le> k \<and> k < Length m \<longrightarrow> img (?x + k) = 0)"
      "BuildId m \<noteq> uuid_Nil \<longrightarrow> (\<forall>k. 0 \<le> k \<and> k < Length m \<longrightarrow> content (BuildId m) (Offset m + k) = img (?x + k))"
      "BuildId m \<noteq> uuid_Nil \<longrightarrow> Offset m + Length m \<le> bsize (BuildId m)"
      "BuildId m \<noteq> uuid_Nil \<longrightarrow> (\<exists>d. getBuild (BuildId m) = Inr d \<and> D (BuildId m) d)"
      using view_ok_segment [OF spec [OF view, of i] x(1,2,3)] .
    define l where "l = min (Length m) (int (length p - n))"
    have l: "0 < l" "l \<le> Length m" "n + nat l \<le> length p" using m(2) True by (auto simp: l_def)
    have al': "(off + int (n + nat l)) mod 4096 = 0 \<or> n + nat l = length p"
    proof (cases "l = Length m")
      case True
      then show ?thesis using x(3) m(4) l(1) by (simp add: add.assoc [symmetric] mod_eq_0_iff_dvd)
    qed (use l in \<open>auto simp: l_def\<close>)
    have g: "GetShiftedMapping (hdr i) (i64 ?x) = Inr m" using m(1) x(4) by simp
    have ll: "l = min (i64 (Length m)) (int (length p - n))" using m(5) by (simp add: l_def)
    have nl: "\<not> min (i64 (Length m)) (int (length p - n)) \<le> 0" unfolding ll [symmetric] using l(1) by simp
    have l0: "\<not> l \<le> 0" using l(1) by simp
    show ?thesis
    proof (cases "BuildId m = uuid_Nil")
      case nil: True
      let ?p = "overwrite p (int n) (replicate (nat l) 0)"
      have lp: "length ?p = length p" using l by simp
      have "planned content bsize D img off ?p (n + nat l) segs"
      proof -
        have "right_at img off ?p y \<or> (\<exists>s \<in> set segs. in_segment y s)" if "y < n + nat l" for y
        proof (cases "y < n")
          case True
          then show ?thesis using pl l by (auto simp: planned_def right_at_def nth_overwrite)
        next
          case False
          have "0 \<le> int y - int n \<and> int y - int n < Length m" using False that l by linarith
          then have "img (?x + (int y - int n)) = 0" using m(8) nil by blast
          then have "img (off + int y) = 0" by simp
          then show ?thesis using False that l by (auto simp: right_at_def nth_overwrite)
        qed
        then show ?thesis using pl lp l by (simp add: planned_def)
      qed
      from 1(1) [OF True g ll l0 nil, unfolded lp, OF view off this al' idok]
      show ?thesis using True g nl nil by (subst plan_loop.simps) (simp only: if_True if_False simp_thms sum.case Let_def ll [symmetric] l0)
    next
      case ne: False
      obtain d ids' where c: "cachedBuild getBuild (BuildId m) ids = Inr (d, ids')" "D (BuildId m) d" "\<forall>(b, d) \<in> set ids'. D b d"
        using m(11) ne idok by (cases "map_of ids (BuildId m)") (auto simp: cachedBuild_def dest: map_of_SomeD)
      let ?s = "\<lparr>rs_dstOff = int n, rs_srcOff = i64 (Offset m), rs_length = l, rs_diff = d,
         rs_ft = GetBuildFrameData (hdr i) (BuildId m)\<rparr>"
      have so: "segment_ok content bsize D img off (length p) ?s"
        using l m(6,7) m(9,10) ne c(2) by (auto simp: segment_ok_def intro!: exI [of _ "BuildId m"])
      have "planned content bsize D img off p (n + nat l) (segs @ [?s])"
      proof -
        have "right_at img off p y \<or> (\<exists>s \<in> set (segs @ [?s]). in_segment y s)" if "y < n + nat l" for y
          using that pl l by (cases "y < n") (auto simp: planned_def in_segment_def)
        then show ?thesis using pl so l by (auto simp: planned_def)
      qed
      from 1(2) [OF True g ll l0 ne c(1) refl view off this al' c(3)]
      show ?thesis using True g nl ne c(1) by (subst plan_loop.simps) (simp only: if_True if_False simp_thms sum.case prod.case Let_def ll [symmetric] l0)
    qed
  qed
qed

lemma planRead_spec:
  assumes "\<forall>j. view_ok content bsize img sz D getBuild (hdr j)"
    and "0 \<le> off" "off + int (length p) \<le> sz" "sz \<le> max_i64" "off mod 4096 = 0"
  shows "\<exists>p' segs k. planRead hdr getBuild p off = (p', Inr (segs, length p, k)) \<and>
    length p' = length p \<and> planned content bsize D img off p' (length p) segs"
  unfolding planRead_def using assms by (intro plan_loop_spec) (simp_all add: planned_def)

section \<open>The retried read\<close>

text \<open>One attempt, on diffs that may be closed: it succeeds with the image or fails with
  \<open>CacheClosed\<close>; when no diff is closed it succeeds.\<close>

abbreviation permutes_segments :: "(readSegment list \<Rightarrow> readSegment list) \<Rightarrow> bool" where
  "permutes_segments sched \<equiv> \<forall>ss. set (sched ss) = set ss"

lemma right_everywhere: "\<forall>x < length p. right_at img off p x \<Longrightarrow> p = bytes_of img off (length p)"
  by (rule nth_equalityI) (simp_all add: right_at_def)

lemma readSegments_spec:
  assumes "planned content bsize (diff_serves_or_closed content bsize) img off p (length p) segs"
    and "permutes_segments sched" "readSegments sched p segs maxParallel = (p', r)"
  shows "length p' = length p \<and> (r = Inl CacheClosed \<or> r = Inr () \<and> p' = bytes_of img off (length p))"
proof -
  obtain run ss where run: "run = read_all \<or> run = read_in_order" "run p ss = (p', r)" "set ss = set segs"
    using assms(2,3) by (auto simp: readSegments_def split: if_splits)
  have ok: "\<forall>s \<in> set ss. segment_ok content bsize (diff_serves_or_closed content bsize) img off (length p) s"
    using assms(1) run(3) by (simp add: planned_def)
  have "\<forall>x < length p. right_at img off p x \<or> (\<exists>s \<in> set ss. in_segment x s)"
    using assms(1) run(3) by (simp add: planned_def)
  with read_segments_spec [OF ok run(1,2)] show ?thesis
    using right_everywhere [of p' img off] by auto
qed

lemma readSegments_serves:
  assumes "planned content bsize (diff_serves content bsize) img off p (length p) segs" "permutes_segments sched"
  shows "snd (readSegments sched p segs maxParallel) = Inr ()"
proof -
  have "\<forall>s \<in> set segs. segment_ok content bsize (diff_serves content bsize) img off (length p) s"
    using assms(1) by (simp add: planned_def)
  then show ?thesis
    using read_segments_serves [of segs content bsize img off p read_in_order]
      read_segments_serves [of "sched segs" content bsize img off p read_all] assms(2)
    by (simp add: readSegments_def)
qed

lemma planned_mono:
  "planned content bsize D img off p n segs \<Longrightarrow> (\<And>b d. D b d \<Longrightarrow> D' b d) \<Longrightarrow> planned content bsize D' img off p n segs"
  using segment_ok_mono by (fastforce simp: planned_def)

lemma view_ok_mono:
  "view_ok content bsize img sz D gb h \<Longrightarrow> (\<And>b d. D b d \<Longrightarrow> D' b d) \<Longrightarrow> view_ok content bsize img sz D' gb h"
  by (fastforce simp: view_ok_def)

lemma readAt_spec:
  assumes "\<forall>a j. view_ok content bsize img sz (diff_serves_or_closed content bsize) (gb a) (hdr a j)"
    and "\<forall>j. view_ok content bsize img sz (diff_serves content bsize) (gb k) (hdr k j)"
    and "0 \<le> off" "off + int (length p) \<le> sz" "sz \<le> max_i64" "off mod 4096 = 0"
    and "\<forall>a. permutes_segments (sched a)" "a \<le> k" "k - a < fuel"
  shows "readAt fuel hdr gb sched maxParallel a p off = Some (bytes_of img off (length p), int (length p), None)"
  using assms(4,8,9)
proof (induction fuel arbitrary: a p)
  case (Suc fuel)
  obtain p1 segs c where p1: "planRead (hdr a) (gb a) p off = (p1, Inr (segs, length p, c))" "length p1 = length p"
    "planned content bsize (diff_serves_or_closed content bsize) img off p1 (length p) segs"
    using planRead_spec [OF spec [OF assms(1), of a] assms(3) Suc.prems(1) assms(5,6)] by blast
  obtain p2 r where p2: "readSegments (sched a) p1 segs maxParallel = (p2, r)" by fastforce
  have r: "length p2 = length p" "r = Inl CacheClosed \<or> r = Inr () \<and> p2 = bytes_of img off (length p)"
    using readSegments_spec [of content bsize img off p1 segs "sched a" maxParallel p2 r] p1(2,3) p2 assms(7) by auto
  show ?case
  proof (cases "r = Inr ()")
    case True
    then show ?thesis using p1 p2 r by (simp add: Let_def)
  next
    case False
    have "a \<noteq> k"
    proof
      assume "a = k"
      then obtain p1' segs' c' where q: "planRead (hdr a) (gb a) p off = (p1', Inr (segs', length p, c'))"
        "planned content bsize (diff_serves content bsize) img off p1' (length p) segs'"
        using planRead_spec [OF assms(2,3) Suc.prems(1) assms(5,6)] by blast
      then show False
        using readSegments_serves [of content bsize img off p1 segs "sched a" maxParallel] p1 p2 False assms(7) by simp
    qed
    then have "readAt fuel hdr gb sched maxParallel (a + 1) p2 off = Some (bytes_of img off (length p2), int (length p2), None)"
      using Suc.prems r(1) by (intro Suc.IH) simp_all
    then show ?thesis using p1(1) p2 r False by (simp add: Let_def)
  qed
qed simp

section \<open>Slices and reads past the end\<close>

definition diff_slices :: "(uuid \<Rightarrow> int \<Rightarrow> byte) \<Rightarrow> (uuid \<Rightarrow> int) \<Rightarrow> uuid \<Rightarrow> Diff \<Rightarrow> bool" where
  "diff_slices content bsize b d \<longleftrightarrow>
     (\<forall>off len ft s. 0 \<le> off \<and> 0 < len \<and> off + len \<le> bsize b \<and> d_Slice d off len ft = Inr s \<longrightarrow>
        s = bytes_of (content b) off (nat len))"

lemma plan_loop_past_end:
  assumes "\<forall>j. view_ok content bsize img sz D getBuild (hdr j)"
    and "0 \<le> off" "off + int n \<le> sz" "sz < off + int (length p)" "off + int (length p) \<le> max_i64"
    and "(off + int n) mod 4096 = 0" "\<forall>(b, d) \<in> set ids. D b d"
  shows "\<exists>p'. plan_loop hdr getBuild off i p n segs ids = (p', Inl (Err ''offset is out of bounds''))"
  using assms
proof (induction hdr getBuild off i p n segs ids rule: plan_loop.induct)
  case (1 hdr getBuild off i p n segs ids)
  note view = 1(3) and off = 1(4,5,6,7) and al = 1(8) and idok = 1(9)
  let ?x = "off + int n"
  have n: "n < length p" and ix: "i64 ?x = ?x" using off by (auto intro!: i64_id)
  show ?case
  proof (cases "?x < sz")
    case False
    then have "?x = sz" using off(2) by simp
    moreover have "header_wf (hdr i)" "md_Size (h_Metadata (hdr i)) = sz" using view by (simp_all add: view_ok_def)
    moreover have "i64 sz = sz" using off by (intro i64_id) linarith+
    ultimately have "GetShiftedMapping (hdr i) (i64 ?x) = Inl (Err ''offset is out of bounds'')"
      by (simp add: ix GetShiftedMapping_def getMapping_def header_wf_def IsNormalizeFixApplied_def)
    then show ?thesis using n by (subst plan_loop.simps) simp
  next
    case True
    have x: "0 \<le> ?x" using off by simp
    obtain m where m: "GetShiftedMapping (hdr i) ?x = Inr m" "0 < Length m" "?x + Length m \<le> sz" "4096 dvd Length m"
      "i64 (Length m) = Length m" "BuildId m \<noteq> uuid_Nil \<longrightarrow> (\<exists>d. getBuild (BuildId m) = Inr d \<and> D (BuildId m) d)"
      using view_ok_segment [OF spec [OF view, of i] x True al] by metis
    have l: "Length m = min (i64 (Length m)) (int (length p - n))" using m(3,5) off n by (simp add: of_nat_diff)
    have g: "GetShiftedMapping (hdr i) (i64 ?x) = Inr m" using m(1) ix by simp
    have l0: "\<not> Length m \<le> 0" using m(2) by simp
    have nx: "off + int (n + nat (Length m)) \<le> sz" "(off + int (n + nat (Length m))) mod 4096 = 0"
      using m(2,3,4) al by (auto simp: add.assoc [symmetric] mod_eq_0_iff_dvd)
    show ?thesis
    proof (cases "BuildId m = uuid_Nil")
      case nil: True
      have lp: "length (overwrite p (int n) (replicate (nat (Length m)) 0)) = length p" using nx(1) off by simp
      from 1(1) [OF n g l l0 nil, unfolded lp, OF view off(1) nx(1) off(3,4) nx(2) idok]
      show ?thesis using n g nil
        by (subst plan_loop.simps) (simp only: if_True if_False simp_thms sum.case Let_def l [symmetric] l0)
    next
      case ne: False
      obtain d ids' where c: "cachedBuild getBuild (BuildId m) ids = Inr (d, ids')" "\<forall>(b, d) \<in> set ids'. D b d"
        using m(6) ne idok by (cases "map_of ids (BuildId m)") (auto simp: cachedBuild_def dest: map_of_SomeD)
      from 1(2) [OF n g l l0 ne c(1) refl view off(1) nx(1) off(3,4) nx(2) c(2)]
      show ?thesis using n g ne c(1)
        by (subst plan_loop.simps) (simp only: if_True if_False simp_thms sum.case prod.case Let_def l [symmetric] l0)
    qed
  qed
qed

lemma readAt_past_end:
  assumes "\<forall>j. view_ok content bsize img sz D (gb a) (hdr a j)"
    and "0 \<le> off" "off \<le> sz" "sz < off + int (length p)" "off + int (length p) \<le> max_i64" "off mod 4096 = 0" "0 < fuel"
  shows "\<exists>q. readAt fuel hdr gb sched maxParallel a p off = Some (q, 0, Some (Err ''offset is out of bounds''))"
proof -
  obtain f where "fuel = Suc f" using assms(7) by (cases fuel) auto
  moreover have "\<exists>p'. planRead (hdr a) (gb a) p off = (p', Inl (Err ''offset is out of bounds''))"
    unfolding planRead_def using assms by (intro plan_loop_past_end) auto
  ultimately show ?thesis by (auto simp: Let_def)
qed

section \<open>Swaps of provisional headers\<close>

definition swap_inv :: "hptr \<Rightarrow> File \<Rightarrow> bool" where
  "swap_inv prov b \<longleftrightarrow>
     (\<exists>f. f_durable b = Some f \<and> (so_res f \<noteq> None \<longrightarrow> so_done f) \<and> (\<forall>d. so_res f = Some (Inr d) \<longrightarrow> fst d \<noteq> fst prov)) \<and>
     (\<exists>h. f_header b = Some h \<and> (fst h = fst prov \<longrightarrow> h = prov))"

lemma file_step_inv:
  assumes "file_step prov b b'" "swap_inv prov b"
  shows "swap_inv prov b'"
  using assms
proof (cases rule: file_step.cases)
  case (dedup_done f r)
  then show ?thesis using assms(2) by (auto simp: swap_inv_def setResult_def)
next
  case (late_swap f d)
  then have "fst d \<noteq> fst prov" using assms(2) by (cases d) (auto simp: swap_inv_def SetOnce_Result_def split: option.splits)
  then show ?thesis using late_swap(1) assms(2) by (cases d) (auto simp: swap_inv_def SwapHeaderIfCurrent_def)
next
  case (publish h)
  then show ?thesis using assms(2) by (auto simp: swap_inv_def SwapHeader_def)
qed

lemma file_steps_inv: "(file_step prov)\<^sup>*\<^sup>* b b' \<Longrightarrow> swap_inv prov b \<Longrightarrow> swap_inv prov b'"
  by (induction rule: rtranclp_induct) (auto intro: file_step_inv)

lemma finalised_step:
  assumes "file_step prov b b'" "swap_inv prov b" "\<not> finalised (Some prov)" "finalised (f_header b)"
  shows "finalised (f_header b')"
  using assms
proof (cases rule: file_step.cases)
  case (late_swap f d)
  have "map_option fst (f_header b) \<noteq> map_option fst (Some prov)"
    using assms(2,3,4) by (auto simp: swap_inv_def)
  then show ?thesis using assms(4) late_swap by (simp add: SwapHeaderIfCurrent_def)
qed (auto simp: SwapHeader_def)

lemma finalised_steps:
  assumes "(file_step prov)\<^sup>*\<^sup>* b b'" "swap_inv prov b" "\<not> finalised (Some prov)" "finalised (f_header b)"
  shows "finalised (f_header b')"
  using assms(1)
proof (induction rule: rtranclp_induct)
  case (step y z)
  then show ?case using finalised_step [of prov y z] file_steps_inv [OF step(1) assms(2)] assms(3) by blast
qed (rule assms(4))

section \<open>Properties\<close>

text \<open>(C4) A read inside the image returns the bytes of the image. The headers may be swapped during
  the read for others that denote the same image, diffs may be evicted and closed at any read,
  the segments may be read in parallel in any order, and the buffer may hold anything; as soon
  as some attempt finds its diffs open, the read has returned.\<close>

theorem File_readAt_image:
  assumes "\<forall>a j. view_ok content bsize img sz (diff_serves_or_closed content bsize) (gb a) (hdr a j)"
    and "\<forall>j. view_ok content bsize img sz (diff_serves content bsize) (gb k) (hdr k j)"
    and "0 \<le> off" "off + int (length p) \<le> sz" "sz \<le> max_i64" "off mod 4096 = 0"
    and "\<forall>a. permutes_segments (sched a)" "k < fuel"
  shows "readAt fuel hdr gb sched maxParallel 0 p off = Some (bytes_of img off (length p), int (length p), None)"
  using assms by (intro readAt_spec) simp_all
definition example_image :: "int \<Rightarrow> byte" where
  "example_image x = (case src_at (Slice (h_Mapping example_header)) x of
      Some (b, o') \<Rightarrow> if b = uuid_Nil then 0 else word_of_int (uint b + o') | None \<Rightarrow> 0)"

definition example_bsize :: "uuid \<Rightarrow> int" where
  "example_bsize b = Max ((\<lambda>m. BuildStorageOffset m + Length m) ` set (Slice (h_Mapping example_header)))"

definition example_diff :: "bool \<Rightarrow> uuid \<Rightarrow> Diff" where
  "example_diff closed b =
     \<lparr>d_ReadAt = (\<lambda>dst off ft. if closed then (dst, Inl CacheClosed)
           else (bytes_of (\<lambda>o'. word_of_int (uint b + o')) off (length dst), Inr (int (length dst)))),
      d_Slice = (\<lambda>off len ft. if closed then Inl CacheClosed
           else Inr (bytes_of (\<lambda>o'. word_of_int (uint b + o')) off (nat len))),
      d_IsCached = None\<rparr>"

lemma example_view:
  assumes "\<And>b. D b (example_diff closed b)"
  shows "view_ok (\<lambda>b o'. word_of_int (uint b + o')) example_bsize example_image 16384 D
    (\<lambda>b. Inr (example_diff closed b)) example_header"
proof -
  have "stored_in example_header example_bsize" by (auto simp: stored_in_def example_bsize_def intro!: Max_ge)
  moreover have "denotes example_header (\<lambda>b o'. word_of_int (uint b + o')) example_image"
    unfolding denotes_def example_image_def by blast
  ultimately show ?thesis using assms by (simp add: view_ok_def example_header_wf)
qed

lemma example_diff_serves:
  "diff_serves_or_closed (\<lambda>b o'. word_of_int (uint b + o')) example_bsize b (example_diff closed b)"
  "diff_serves (\<lambda>b o'. word_of_int (uint b + o')) example_bsize b (example_diff False b)"
  "diff_slices (\<lambda>b o'. word_of_int (uint b + o')) example_bsize b (example_diff closed b)"
  by (simp_all add: diff_serves_def diff_serves_or_closed_def diff_slices_def example_diff_def)

theorem File_readAt_image_witness:
  "readAt 2 (\<lambda>_ _. example_header) (\<lambda>a b. Inr (example_diff (a = 0) b)) (\<lambda>_. rev) 4 0 (replicate 8192 0) 8192 =
     Some (bytes_of example_image 8192 8192, 8192, None)"
proof -
  have "readAt 2 (\<lambda>_ _. example_header) (\<lambda>a b. Inr (example_diff (a = 0) b)) (\<lambda>_. rev) 4 0 (replicate 8192 0) 8192 =
     Some (bytes_of example_image 8192 (length (replicate 8192 (0::byte))), int (length (replicate 8192 (0::byte))), None)"
    by (rule File_readAt_image [where k = 1 and bsize = example_bsize and sz = 16384])
      (auto intro!: example_view example_diff_serves)
  then show ?thesis by simp
qed

text \<open>\<open>Slice\<close> returns the bytes of the image on all its paths: the shared zero page, the slice of a
  single diff, and the copy through \<open>readAt\<close> it falls back to.\<close>

theorem File_Slice_image:
  assumes "view_ok content bsize img sz (diff_slices content bsize) getBuild h"
    and "\<forall>a j. view_ok content bsize img sz (diff_serves_or_closed content bsize) (gb a) (hdr a j)"
    and "\<forall>j. view_ok content bsize img sz (diff_serves content bsize) (gb k) (hdr k j)"
    and "0 \<le> off" "0 \<le> len" "off + len \<le> sz" "sz \<le> max_i64" "off mod 4096 = 0"
    and "\<forall>a. permutes_segments (sched a)" "k < fuel"
  shows "File_Slice fuel h getBuild hdr gb sched maxParallel off len = Some (Inr (bytes_of img off (nat len)))"
proof -
  have slow: "readAt fuel hdr gb sched maxParallel 0 (replicate (nat len) 0) off =
      Some (bytes_of img off (nat len), len, None)"
    using readAt_spec [OF assms(2,3,4) _ assms(7,8,9), of "replicate (nat len) 0" 0 fuel maxParallel] assms by simp
  show ?thesis
  proof (cases "len = 0")
    case True
    then show ?thesis using slow by (simp add: File_Slice_def Let_def)
  next
    case False
    then have lt: "0 < len" "off < sz" using assms(5,6) by simp_all
    obtain m where m: "GetShiftedMapping h off = Inr m" "i64 (Length m) = Length m" "i64 (Offset m) = Offset m" "0 \<le> Offset m"
      "BuildId m = uuid_Nil \<longrightarrow> (\<forall>k. 0 \<le> k \<and> k < Length m \<longrightarrow> img (off + k) = 0)"
      "BuildId m \<noteq> uuid_Nil \<longrightarrow> (\<forall>k. 0 \<le> k \<and> k < Length m \<longrightarrow> content (BuildId m) (Offset m + k) = img (off + k))"
      "BuildId m \<noteq> uuid_Nil \<longrightarrow> Offset m + Length m \<le> bsize (BuildId m)"
      "BuildId m \<noteq> uuid_Nil \<longrightarrow> (\<exists>d. getBuild (BuildId m) = Inr d \<and> diff_slices content bsize (BuildId m) d)"
      using view_ok_segment [OF assms(1,4) lt(2) assms(8)] by metis
    have zero: "replicate (nat len) 0 = bytes_of img off (nat len)" if "BuildId m = uuid_Nil" "len \<le> Length m"
      using m(5) that lt(1) by (intro nth_equalityI) auto
    have data: "s = bytes_of img off (nat len)"
      if "BuildId m \<noteq> uuid_Nil" "len \<le> Length m" "getBuild (BuildId m) = Inr d" "d_Slice d (Offset m) len ft = Inr s" for d ft s
    proof -
      have "s = bytes_of (content (BuildId m)) (Offset m) (nat len)"
        using m(4,7,8) that lt(1) by (auto simp: diff_slices_def)
      then show ?thesis using m(6) that(1,2) lt(1) by (auto intro!: nth_equalityI)
    qed
    show ?thesis
      using m(1,2,3) lt(1) slow zero data by (auto simp: File_Slice_def Let_def split: sum.split)
  qed
qed

theorem File_Slice_image_witness:
  "File_Slice 1 example_header (\<lambda>b. Inr (example_diff False b)) (\<lambda>_ _. example_header)
     (\<lambda>_ b. Inr (example_diff False b)) (\<lambda>_. rev) 4 8192 4096 = Some (Inr (bytes_of example_image 8192 4096))"
proof -
  have "File_Slice 1 example_header (\<lambda>b. Inr (example_diff False b)) (\<lambda>_ _. example_header)
     (\<lambda>_ b. Inr (example_diff False b)) (\<lambda>_. rev) 4 8192 4096 = Some (Inr (bytes_of example_image 8192 (nat 4096)))"
    by (rule File_Slice_image [where k = 0 and bsize = example_bsize and sz = 16384])
      (auto intro!: example_view example_diff_serves)
  then show ?thesis by simp
qed

text \<open>A read that runs past the end of the device does not report the bytes before the end with
  \<open>io.EOF\<close>: for headers from version 3 on, looking up the first offset past the end is an error,
  and the read fails with it and a count of zero.\<close>

theorem File_readAt_past_end:
  assumes "\<forall>j. view_ok content bsize img sz D (gb 0) (hdr 0 j)"
    and "0 \<le> off" "off \<le> sz" "sz < off + int (length p)" "off + int (length p) \<le> max_i64" "off mod 4096 = 0" "0 < fuel"
  shows "\<exists>q. readAt fuel hdr gb sched maxParallel 0 p off = Some (q, 0, Some (Err ''offset is out of bounds''))"
  using assms by (rule readAt_past_end)

theorem File_readAt_past_end_witness:
  "\<exists>q. readAt 1 (\<lambda>_ _. example_header) (\<lambda>_ b. Inr (example_diff False b)) (\<lambda>_. rev) 4 0 (replicate 8192 0) 12288 =
     Some (q, 0, Some (Err ''offset is out of bounds''))"
  by (rule File_readAt_past_end [where img = example_image and D = "\<lambda>_ _. True"])
    (auto intro!: example_view)

text \<open>(C33) While a file is served from a provisional header, in every interleaving of the
  deduplication, the swap to its result and the publishing of finalised headers,
  \<open>DurableHeader\<close> never returns the provisional header, and a finalised header, once
  installed, is never replaced by one that is not.\<close>

theorem durable_header_safe:
  assumes "\<not> finalised (Some prov)" "(file_step prov)\<^sup>*\<^sup>* (provisional_file prov) b"
  shows "(\<forall>ctxErr h. DurableHeader b ctxErr = Some (Inr (Some h)) \<longrightarrow> fst h \<noteq> fst prov) \<and>
    (\<forall>h. DurableHeaderNow b = (Some h, True) \<longrightarrow> fst h \<noteq> fst prov) \<and>
    (\<forall>b'. finalised (f_header b) \<and> (file_step prov)\<^sup>*\<^sup>* b b' \<longrightarrow> finalised (f_header b'))"
proof -
  have "swap_inv prov (provisional_file prov)" by (simp add: swap_inv_def provisional_file_def NewSetOnce_def)
  then have inv: "swap_inv prov b" using file_steps_inv [OF assms(2)] by blast
  have "fst h \<noteq> fst prov" if "DurableHeader b ctxErr = Some (Inr (Some h))" for ctxErr h
    using that inv assms(1)
    by (auto simp: DurableHeader_def swap_inv_def WaitWithContext_def SetOnce_Result_def bindR_eq_Inr split: if_splits option.splits)
  moreover have "fst h \<noteq> fst prov" if "DurableHeaderNow b = (Some h, True)" for h
    using that inv assms(1)
    by (auto simp: DurableHeaderNow_def swap_inv_def SetOnce_Result_def split: if_splits option.splits sum.splits)
  ultimately show ?thesis using finalised_steps [OF _ inv assms(1)] by blast
qed

theorem durable_header_safe_witness:
  "\<exists>prov d b. (file_step prov)\<^sup>*\<^sup>* (provisional_file prov) b \<and> DurableHeader b None = Some (Inr (Some d)) \<and>
     fst d \<noteq> fst prov"
proof -
  let ?prov = "(0, example_header\<lparr>h_Incomplete := True\<rparr>) :: hptr" and ?d = "(1, example_header) :: hptr"
  let ?b = "(provisional_file ?prov)\<lparr>f_durable := Some (fst (setResult NewSetOnce (Inr ?d)))\<rparr>"
  have r: "(file_step ?prov)\<^sup>*\<^sup>* (provisional_file ?prov) ?b"
    by (rule r_into_rtranclp, rule file_step.dedup_done) (simp_all add: provisional_file_def)
  have p: "\<not> finalised (Some ?prov)" by (simp add: finalised_def)
  have d: "DurableHeader ?b None = Some (Inr (Some ?d))"
    using p by (simp add: DurableHeader_def provisional_file_def NewSetOnce_def setResult_def WaitWithContext_def SetOnce_Result_def)
  show ?thesis using durable_header_safe [OF p r] r d by blast
qed

end
