(* ===== verification/Chunker.thy ===== *)
theory Chunker
  imports FrameTable Cache
begin

text \<open>
  Fetching the data of a build on demand:
  \<open>packages/orchestrator/pkg/sandbox/block/streaming_chunk.go\<close> and \<open>fetch_session.go\<close>. Reads that
  miss the cache fetch whole chunks; one background fetch per chunk is shared by all readers
  that need it, which wait for their blocks on the condition variable of the fetch session.

  The model is a step relation over the chunker and its clients. A client is a call of
  \<open>Slice\<close> with a program counter; \<open>client_step\<close> is the code from one synchronisation point to the
  next (every critical section of \<open>fetchMu\<close> and of the mutex of a session is one step, and
  between the check of the context and \<open>cond.Wait\<close> the mutex is held, so that is a program
  point of its own). \<open>fetch_step\<close> is the background goroutine \<open>runFetch\<close>. What the upstream
  reader delivers is chosen by the environment: for uncompressed data the bytes of the build;
  for a compressed frame also damaged ones, at the offsets of the parameter \<open>corrupt\<close>, if \<open>Close\<close>
  then reports the failed checksum. Panics, errors and cancellation may happen at any time. Metrics and the source of a fetch are left out.

  What is shown: whatever a call returns is the data of the build, in every interleaving,
  also with damaged frames and with sessions of different chunk geometry, as long as no damaged
  frame overlaps a chunk that is read uncompressed (a damaged one can overwrite bytes that were
  verified, and a run that returns them is given); every run ends, with all calls returned; a cancelled waiter can miss its wake-up; a range that crosses the end
  of uncompressed data is never answered.
\<close>

section \<open>Fetch sessions (fetch\_session.go)\<close>

record fetchSession =
  fs_chunkOff :: int
  fs_chunkLen :: int
  fs_fetchErr :: "error option"
  fs_done :: bool
  fs_bytesReady :: int

definition newFetchSession :: "int \<Rightarrow> int \<Rightarrow> fetchSession" where
  "newFetchSession chunkOff chunkLen =
     \<lparr>fs_chunkOff = chunkOff, fs_chunkLen = chunkLen, fs_fetchErr = None, fs_done = False, fs_bytesReady = 0\<rparr>"

abbreviation chunk_end :: "fetchSession \<Rightarrow> int" where
  "chunk_end s \<equiv> fs_chunkOff s + fs_chunkLen s"

definition contains :: "fetchSession \<Rightarrow> int \<Rightarrow> int \<Rightarrow> bool" where
  "contains s off len \<longleftrightarrow> fs_chunkOff s \<le> off \<and> chunk_end s \<ge> off + len"

definition advance :: "int \<Rightarrow> fetchSession \<Rightarrow> fetchSession" where
  "advance n s = s\<lparr>fs_bytesReady := n\<rparr>"

definition setDone :: "fetchSession \<Rightarrow> fetchSession" where
  "setDone s = s\<lparr>fs_bytesReady := fs_chunkLen s, fs_done := True\<rparr>"

definition fail :: "error \<Rightarrow> fetchSession \<Rightarrow> fetchSession" where
  "fail err s = s\<lparr>fs_fetchErr := Some err, fs_done := True\<rparr>"

definition failIfRunning :: "error \<Rightarrow> fetchSession \<Rightarrow> fetchSession" where
  "failIfRunning err s = (if fs_done s then s else s\<lparr>fs_fetchErr := Some err, fs_done := True\<rparr>)"

section \<open>The chunker (streaming\_chunk.go)\<close>

text \<open>Sessions are shared by pointer: \<open>k_heap\<close> holds every session ever created, \<open>k_sessions\<close>
  the indices of those in \<open>fetchSessions\<close>. \<open>k_fetch\<close> has the state of the goroutine of each
  session: its frame table and where it is.\<close>

datatype fetch_pc =
    FAddress
  | FOpen
  | FRead bytes
  | FAdvance bytes "error option"
  | FClose bytes "error option"
  | FCached
  | FDone
  | FFail error
  | FBroadcast
  | FDefer error
  | FWake
  | FRelease
  | FGone

record 'b Chunker =
  k_cache :: "'b Cache"
  k_size :: int
  k_sessions :: "nat list"
  k_heap :: "fetchSession list"
  k_fetch :: "(FrameTable option \<times> fetch_pc) list"

definition NewChunker ::
  "'b bitmap_ops \<Rightarrow> (string \<Rightarrow> int \<Rightarrow> bytes result) \<Rightarrow> int \<Rightarrow> int \<Rightarrow> string \<Rightarrow> 'b Chunker result" where
  "NewChunker ops map_file sz blockSize cachePath =
     bindR (NewCache ops map_file sz blockSize cachePath False) (\<lambda>cache.
       Inr \<lparr>k_cache = cache, k_size = sz, k_sessions = [], k_heap = [], k_fetch = []\<rparr>)"

definition MemoryChunkSize :: int where "MemoryChunkSize = 4194304"

definition locateChunk :: "int \<Rightarrow> int \<Rightarrow> FrameTable option \<Rightarrow> (int \<times> int) result" where
  "locateChunk sz off ft =
     (if IsCompressed ft
      then bindR (LocateUncompressed ft off) (\<lambda>r. Inr (srOffset r, srLength r))
      else let chunkOff = (off sdiv MemoryChunkSize) * MemoryChunkSize
           in Inr (chunkOff, min MemoryChunkSize (sz - chunkOff)))"

definition getOrCreateSession ::
  "'b bitmap_ops \<Rightarrow> 'b Chunker \<Rightarrow> int \<Rightarrow> int \<Rightarrow> FrameTable option \<Rightarrow> 'b Chunker \<times> nat option" where
  "getOrCreateSession ops k off len ft =
     (case find (\<lambda>i. contains (k_heap k ! i) off len) (k_sessions k) of
        Some i \<Rightarrow> (k, Some i)
      | None \<Rightarrow>
          if isCached ops (k_cache k) off len then (k, None)
          else (k\<lparr>k_sessions := k_sessions k @ [length (k_heap k)],
                  k_heap := k_heap k @ [newFetchSession off len],
                  k_fetch := k_fetch k @ [(ft, FAddress)]\<rparr>, Some (length (k_heap k))))"

text \<open>The swap-delete of a pointer from the list of active sessions.\<close>

fun swap_delete :: "nat \<Rightarrow> nat list \<Rightarrow> nat list" where
  "swap_delete s [] = []"
| "swap_delete s (a # as) =
     (if a = s then (if as = [] then [] else List.last as # butlast as) else a # swap_delete s as)"

definition releaseSession :: "'b Chunker \<Rightarrow> nat \<Rightarrow> 'b Chunker" where
  "releaseSession k s = k\<lparr>k_sessions := swap_delete s (k_sessions k)\<rparr>"

definition addressBytes :: "'b Cache \<Rightarrow> int \<Rightarrow> int \<Rightarrow> bytes result" where
  "addressBytes c off len =
     (case c_mmap c of None \<Rightarrow> Inr []
      | Some m \<Rightarrow>
          if c_closed c then Inl CacheClosed
          else if off \<ge> c_size c then Inl (Err ''offset is out of bounds'')
          else go_slice m off (min (i64 (off + len)) (c_size c)))"

section \<open>Clients\<close>

text \<open>Where a call of \<open>Slice\<close> is: before the cache, at the head of the loop over chunks, with a
  session for the blocks from \<open>b\<close> to \<open>endBlock\<close> of the current chunk, in \<open>registerAndWait\<close> for
  block \<open>b\<close> (before the lock, holding it after the context was checked, asleep), before the
  final read, returned.\<close>

datatype client_pc =
    CTry
  | CLoop int
  | CSession int int int nat
  | CBlock int int int nat
  | CLock int int int nat
  | CPark int int int nat
  | CWait int int int nat
  | CDirect
  | CRet "bytes result"

record client =
  cl_off :: int
  cl_len :: int
  cl_ft :: "FrameTable option"
  cl_cancelled :: bool
  cl_fired :: bool
  cl_pc :: client_pc

abbreviation cl_end :: "client \<Rightarrow> int" where
  "cl_end c \<equiv> i64 (cl_off c + cl_len c)"

definition new_client :: "int \<Rightarrow> int \<Rightarrow> FrameTable option \<Rightarrow> client" where
  "new_client off len ft =
     \<lparr>cl_off = off, cl_len = len, cl_ft = ft, cl_cancelled = False, cl_fired = False, cl_pc = CTry\<rparr>"

text \<open>The byte, counted from the start of the chunk, up to which a session must have fetched for the
  block at \<open>blockOff\<close>.\<close>

definition end_byte :: "int \<Rightarrow> fetchSession \<Rightarrow> int \<Rightarrow> int" where
  "end_byte blockSize s blockOff = min (blockOff + blockSize - fs_chunkOff s) (fs_chunkLen s)"

text \<open>\<open>registerAndWait\<close>, up to its lock: the checks and the fast path without the lock.\<close>

definition register_check :: "int \<Rightarrow> fetchSession \<Rightarrow> int \<Rightarrow> bool result" where
  "register_check blockSize s blockOff =
     (if blockOff smod blockSize \<noteq> 0 then Inl (Err ''blockOff is not aligned to block size'')
      else if blockOff < fs_chunkOff s \<or> blockOff \<ge> chunk_end s then Inl (Err ''blockOff is outside session range'')
      else Inr (fs_bytesReady s \<ge> end_byte blockSize s blockOff))"

text \<open>One round of the loop under the lock: ready, failed, or nothing yet.\<close>

definition wait_check ::
  "'b bitmap_ops \<Rightarrow> 'b Cache \<Rightarrow> fetchSession \<Rightarrow> int \<Rightarrow> bool \<Rightarrow> bool result" where
  "wait_check ops cache s blockOff cancelled =
     (if fs_bytesReady s \<ge> end_byte (c_blockSize cache) s blockOff then Inr True
      else if fs_done s
      then (if isCached ops cache blockOff (c_blockSize cache) then Inr True
            else case fs_fetchErr s of
                None \<Rightarrow> Inl (Err ''fetch session terminated without error but block not cached'')
              | Some e \<Rightarrow> Inl e)
      else if cancelled then Inl (Err ''context canceled'')
      else Inr False)"

definition client_step ::
  "'b bitmap_ops \<Rightarrow> (nat \<Rightarrow> bool) \<Rightarrow> 'b Chunker \<Rightarrow> client \<Rightarrow> ('b Chunker \<times> client) option" where
  "client_step ops mu_free k c =
     (let bs = c_blockSize (k_cache k); go = (\<lambda>p. Some (k, c\<lparr>cl_pc := p\<rparr>))
      in case cl_pc c of
          CTry \<Rightarrow>
            (case Cache_Slice ops (k_cache k) (cl_off c) (cl_len c) of
               Inr b \<Rightarrow> go (CRet (Inr b))
             | Inl e \<Rightarrow> go (if e \<noteq> BytesNotAvailable then CRet (Inl e) else CLoop (cl_off c)))
        | CLoop cur \<Rightarrow>
            if cur < cl_end c
            then (case locateChunk (k_size k) cur (cl_ft c) of
                    Inl e \<Rightarrow> go (CRet (Inl e))
                  | Inr (chunkOff, chunkLen) \<Rightarrow>
                      let chunkEnd = chunkOff + chunkLen;
                          rangeEnd = min (cl_end c) chunkEnd;
                          startBlock = (cur sdiv bs) * bs;
                          endBlock = ((rangeEnd - 1) sdiv bs) * bs
                      in (case getOrCreateSession ops k chunkOff chunkLen (cl_ft c) of
                            (k', None) \<Rightarrow> Some (k', c\<lparr>cl_pc := CLoop chunkEnd\<rparr>)
                          | (k', Some s) \<Rightarrow> Some (k', c\<lparr>cl_pc := CSession startBlock endBlock chunkEnd s\<rparr>)))
            else go CDirect
        | CSession b endBlock next s \<Rightarrow>
            if fs_bytesReady (k_heap k ! s) \<ge>
               min (endBlock + bs) (chunk_end (k_heap k ! s)) - fs_chunkOff (k_heap k ! s)
            then go (CLoop next) else go (CBlock b endBlock next s)
        | CBlock b endBlock next s \<Rightarrow>
            if b > endBlock \<or> b \<ge> chunk_end (k_heap k ! s) then go (CLoop next)
            else (case register_check bs (k_heap k ! s) b of
                    Inl e \<Rightarrow> go (CRet (Inl e))
                  | Inr True \<Rightarrow> go (CBlock (b + bs) endBlock next s)
                  | Inr False \<Rightarrow> Some (k, c\<lparr>cl_fired := False, cl_pc := CLock b endBlock next s\<rparr>))
        | CLock b endBlock next s \<Rightarrow>
            if \<not> mu_free s then None
            else (case wait_check ops (k_cache k) (k_heap k ! s) b (cl_cancelled c) of
                    Inl e \<Rightarrow> go (CRet (Inl e))
                  | Inr True \<Rightarrow> go (CBlock (b + bs) endBlock next s)
                  | Inr False \<Rightarrow> go (CPark b endBlock next s))
        | CPark b endBlock next s \<Rightarrow> go (CWait b endBlock next s)
        | CWait b endBlock next s \<Rightarrow> None
        | CDirect \<Rightarrow> go (CRet (sliceDirect (k_cache k) (cl_off c) (cl_len c)))
        | CRet r \<Rightarrow> None)"

text \<open>\<open>ReadAt\<close> copies what \<open>Slice\<close> returned.\<close>

definition Chunker_ReadAt :: "bytes \<Rightarrow> bytes result \<Rightarrow> (bytes \<times> int) result" where
  "Chunker_ReadAt b res = bindR res (\<lambda>s. Inr (go_copy b s))"

definition Chunker_IsCached :: "'b bitmap_ops \<Rightarrow> 'b Chunker \<Rightarrow> int \<Rightarrow> int \<Rightarrow> bool" where
  "Chunker_IsCached ops k off len = isCached ops (k_cache k) off len"

text \<open>The mutex of a session is held between the check of the context and the wait.\<close>

definition mu_free :: "client list \<Rightarrow> nat \<Rightarrow> bool" where
  "mu_free cls s \<longleftrightarrow> (\<forall>c \<in> set cls. case cl_pc c of CPark b e n s' \<Rightarrow> s' \<noteq> s | _ \<Rightarrow> True)"

text \<open>\<open>cond.Broadcast\<close>.\<close>

definition wake :: "nat \<Rightarrow> client \<Rightarrow> client" where
  "wake s c = (case cl_pc c of CWait b e n s' \<Rightarrow> if s' = s then c\<lparr>cl_pc := CLock b e n s\<rparr> else c | _ \<Rightarrow> c)"

definition waits_on :: "client \<Rightarrow> nat option" where
  "waits_on c = (case cl_pc c of CLock b e n s \<Rightarrow> Some s | CPark b e n s \<Rightarrow> Some s | CWait b e n s \<Rightarrow> Some s | _ \<Rightarrow> None)"

section \<open>The background fetch\<close>

definition set_pc :: "nat \<Rightarrow> fetch_pc \<Rightarrow> 'b Chunker \<Rightarrow> 'b Chunker" where
  "set_pc s p k = k\<lparr>k_fetch := (k_fetch k)[s := (fst (k_fetch k ! s), p)]\<rparr>"

definition on_session :: "nat \<Rightarrow> (fetchSession \<Rightarrow> fetchSession) \<Rightarrow> 'b Chunker \<Rightarrow> 'b Chunker" where
  "on_session s f k = k\<lparr>k_heap := (k_heap k)[s := f (k_heap k ! s)]\<rparr>"

definition write_mmap :: "int \<Rightarrow> bytes \<Rightarrow> 'b Chunker \<Rightarrow> 'b Chunker" where
  "write_mmap off b k =
     k\<lparr>k_cache := (k_cache k)\<lparr>c_mmap := map_option (\<lambda>m. overwrite m off b) (c_mmap (k_cache k))\<rparr>\<rparr>"

text \<open>What the upstream readers promise. The bytes they deliver are those of the build, except that a
  compressed frame may arrive damaged: at the offsets in \<open>corrupt\<close> any bytes may come, whatever else
  is being fetched. A compressed frame is verified when its reader is closed.\<close>

definition upstream_delivers ::
  "(int \<Rightarrow> byte) \<Rightarrow> (int \<Rightarrow> bool) \<Rightarrow> FrameTable option \<Rightarrow> int \<Rightarrow> bytes \<Rightarrow> bool" where
  "upstream_delivers content corrupt ft off b \<longleftrightarrow>
     (\<forall>i < length b. b ! i = content (off + int i) \<or> IsCompressed ft \<and> corrupt (off + int i))"

definition frame_verified :: "(int \<Rightarrow> byte) \<Rightarrow> FrameTable option \<Rightarrow> int \<Rightarrow> bytes \<Rightarrow> bool" where
  "frame_verified content ft off d \<longleftrightarrow> IsCompressed ft \<longrightarrow> (\<forall>i < length d. d ! i = content (off + int i))"

text \<open>\<open>after_read\<close>: on to the next batch, or out of the loop with the error.\<close>

definition after_read :: "bytes \<Rightarrow> error option \<Rightarrow> fetch_pc" where
  "after_read d e = (case e of None \<Rightarrow> FRead d | Some _ \<Rightarrow> FClose d e)"

text \<open>\<open>fetch_step content corrupt ops readBatch free k s k' bc\<close>: the goroutine of session \<open>s\<close> takes the
  chunker from \<open>k\<close> to \<open>k'\<close> and broadcasts if \<open>bc\<close>; \<open>free\<close> is whether the mutex of the session is free.\<close>

inductive fetch_step ::
  "(int \<Rightarrow> byte) \<Rightarrow> (int \<Rightarrow> bool) \<Rightarrow> 'b bitmap_ops \<Rightarrow> int \<Rightarrow> bool \<Rightarrow> 'b Chunker \<Rightarrow> nat \<Rightarrow> 'b Chunker \<Rightarrow> bool \<Rightarrow> bool"
  for content :: "int \<Rightarrow> byte" and corrupt :: "int \<Rightarrow> bool" and ops :: "'b bitmap_ops" and readBatch :: int and free :: bool
    and k :: "'b Chunker" and s :: nat where
  address_fails: "k_fetch k ! s = (ft, FAddress) \<Longrightarrow>
    addressBytes (k_cache k) (fs_chunkOff (k_heap k ! s)) (fs_chunkLen (k_heap k ! s)) = Inl e \<Longrightarrow>
    fetch_step content corrupt ops readBatch free k s (set_pc s (FFail e) k) False"
| address_ok: "k_fetch k ! s = (ft, FAddress) \<Longrightarrow>
    addressBytes (k_cache k) (fs_chunkOff (k_heap k ! s)) (fs_chunkLen (k_heap k ! s)) = Inr b \<Longrightarrow>
    fetch_step content corrupt ops readBatch free k s (set_pc s FOpen k) False"
| open_fails: "k_fetch k ! s = (ft, FOpen) \<Longrightarrow>
    fetch_step content corrupt ops readBatch free k s (set_pc s (FFail e) k) False"
| open_ok: "k_fetch k ! s = (ft, FOpen) \<Longrightarrow>
    fetch_step content corrupt ops readBatch free k s (set_pc s (FRead []) k) False"
| read_batch: "k_fetch k ! s = (ft, FRead d) \<Longrightarrow> int (length d) < fs_chunkLen (k_heap k ! s) \<Longrightarrow>
    want = min readBatch (fs_chunkLen (k_heap k ! s) - int (length d)) \<Longrightarrow>
    fs_chunkOff (k_heap k ! s) + int (length d) + want \<le> c_size (k_cache k) \<Longrightarrow>
    int (length b) \<le> want \<Longrightarrow> (e = None \<longleftrightarrow> int (length b) = want) \<Longrightarrow>
    upstream_delivers content corrupt ft (fs_chunkOff (k_heap k ! s) + int (length d)) b \<Longrightarrow>
    fetch_step content corrupt ops readBatch free k s
      (set_pc s (if b \<noteq> [] \<and> \<not> IsCompressed ft then FAdvance (d @ b) e else after_read (d @ b) e)
        (write_mmap (fs_chunkOff (k_heap k ! s) + int (length d)) b k)) False"
| publish_progress: "k_fetch k ! s = (ft, FAdvance d e) \<Longrightarrow> free \<Longrightarrow>
    fetch_step content corrupt ops readBatch free k s
      (set_pc s (after_read d e) (on_session s (advance (int (length d))) k)) True"
| all_read: "k_fetch k ! s = (ft, FRead d) \<Longrightarrow> int (length d) \<ge> fs_chunkLen (k_heap k ! s) \<Longrightarrow>
    fetch_step content corrupt ops readBatch free k s (set_pc s (FClose d None) k) False"
| close_fails: "k_fetch k ! s = (ft, FClose d None) \<Longrightarrow>
    fetch_step content corrupt ops readBatch free k s (set_pc s (FFail e) k) False"
| close_ok: "k_fetch k ! s = (ft, FClose d None) \<Longrightarrow> frame_verified content ft (fs_chunkOff (k_heap k ! s)) d \<Longrightarrow>
    fetch_step content corrupt ops readBatch free k s (set_pc s FCached k) False"
| close_after_error: "k_fetch k ! s = (ft, FClose d (Some e)) \<Longrightarrow>
    fetch_step content corrupt ops readBatch free k s (set_pc s (FFail e) k) False"
| mark_cached: "k_fetch k ! s = (ft, FCached) \<Longrightarrow>
    fetch_step content corrupt ops readBatch free k s
      (set_pc s FDone (k\<lparr>k_cache := setIsCached ops (k_cache k) (fs_chunkOff (k_heap k ! s)) (fs_chunkLen (k_heap k ! s))\<rparr>)) False"
| set_done: "k_fetch k ! s = (ft, FDone) \<Longrightarrow> free \<Longrightarrow>
    fetch_step content corrupt ops readBatch free k s (set_pc s FBroadcast (on_session s setDone k)) False"
| failed: "k_fetch k ! s = (ft, FFail e) \<Longrightarrow> free \<Longrightarrow>
    fetch_step content corrupt ops readBatch free k s (set_pc s FBroadcast (on_session s (fail e) k)) False"
| broadcast: "k_fetch k ! s = (ft, FBroadcast) \<Longrightarrow>
    fetch_step content corrupt ops readBatch free k s
      (set_pc s (FDefer (Err ''fetch exited without completing'')) k) True"
| panics: "k_fetch k ! s = (ft, p) \<Longrightarrow> p = FAddress \<or> p = FOpen \<or> p = FRead d \<or> p = FClose d e \<Longrightarrow>
    fetch_step content corrupt ops readBatch free k s (set_pc s (FDefer (Err ''fetch panicked'')) k) False"
| deferred: "k_fetch k ! s = (ft, FDefer e) \<Longrightarrow> free \<Longrightarrow>
    fetch_step content corrupt ops readBatch free k s (set_pc s FWake (on_session s (failIfRunning e) k)) False"
| deferred_broadcast: "k_fetch k ! s = (ft, FWake) \<Longrightarrow>
    fetch_step content corrupt ops readBatch free k s (set_pc s FRelease k) True"
| release: "k_fetch k ! s = (ft, FRelease) \<Longrightarrow>
    fetch_step content corrupt ops readBatch free k s (set_pc s FGone (releaseSession k s)) False"

text \<open>The whole: a client moves, is cancelled, or the function registered for its cancellation
  broadcasts; a fetch moves; the cache is closed when no fetch holds its read lock.\<close>

definition lock_released :: "fetch_pc \<Rightarrow> bool" where
  "lock_released p = (case p of FAddress \<Rightarrow> True | FDefer e \<Rightarrow> True | FWake \<Rightarrow> True | FRelease \<Rightarrow> True | FGone \<Rightarrow> True | _ \<Rightarrow> False)"

type_synonym 'b world = "'b Chunker \<times> client list"

inductive chunk_step :: "(int \<Rightarrow> byte) \<Rightarrow> (int \<Rightarrow> bool) \<Rightarrow> 'b bitmap_ops \<Rightarrow> int \<Rightarrow> 'b world \<Rightarrow> 'b world \<Rightarrow> bool"
  for content :: "int \<Rightarrow> byte" and corrupt :: "int \<Rightarrow> bool" and ops :: "'b bitmap_ops" and readBatch :: int where
  client: "i < length cls \<Longrightarrow> client_step ops (mu_free cls) k (cls ! i) = Some (k', c') \<Longrightarrow>
    chunk_step content corrupt ops readBatch (k, cls) (k', cls[i := c'])"
| cancel: "i < length cls \<Longrightarrow> \<not> cl_cancelled (cls ! i) \<Longrightarrow>
    chunk_step content corrupt ops readBatch (k, cls) (k, cls[i := (cls ! i)\<lparr>cl_cancelled := True\<rparr>])"
| after_func: "i < length cls \<Longrightarrow> cl_cancelled (cls ! i) \<Longrightarrow> \<not> cl_fired (cls ! i) \<Longrightarrow> waits_on (cls ! i) = Some s \<Longrightarrow>
    chunk_step content corrupt ops readBatch (k, cls) (k, map (wake s) (cls[i := (cls ! i)\<lparr>cl_fired := True\<rparr>]))"
| fetch: "s < length (k_heap k) \<Longrightarrow> fetch_step content corrupt ops readBatch (mu_free cls s) k s k' bc \<Longrightarrow>
    chunk_step content corrupt ops readBatch (k, cls) (k', if bc then map (wake s) cls else cls)"
| close_cache: "\<forall>(ft, p) \<in> set (k_fetch k). lock_released p \<Longrightarrow> \<not> c_closed (k_cache k) \<Longrightarrow>
    chunk_step content corrupt ops readBatch (k, cls) (k\<lparr>k_cache := (k_cache k)\<lparr>c_closed := True\<rparr>\<rparr>, cls)"

section \<open>Bytes of the cache\<close>

lemmas chunk_simps = set_pc_def on_session_def write_mmap_def

definition chunk_cache_ok :: "'b Cache \<Rightarrow> bool" where
  "chunk_cache_ok c \<longleftrightarrow>
     (\<exists>m. c_mmap c = Some m \<and> int (length m) = c_size c) \<and> 0 < c_blockSize c \<and>
     (c_size c + c_blockSize c) div c_blockSize c < 4294967296 \<and> c_size c + c_blockSize c \<le> max_i64 \<and> \<not> c_dirtyFile c"

definition byte_at :: "'b Cache \<Rightarrow> int \<Rightarrow> byte" where
  "byte_at c x = (case c_mmap c of Some m \<Rightarrow> if 0 \<le> x \<and> x < int (length m) then m ! nat x else 0 | None \<Rightarrow> 0)"

lemma div_before_ceil: "0 < (bs::int) \<Longrightarrow> x < hi \<Longrightarrow> x div bs < (hi + bs - 1) div bs"
  using zdiv_mono1 [of "x + bs" "hi + bs - 1" bs] div_add_self2 [of bs x] by simp

lemma div_range_iff:
  assumes "0 < (bs::int)" "lo < hi"
  shows "(\<forall>j. lo div bs \<le> j \<and> j < (hi + bs - 1) div bs \<longrightarrow> P j) \<longleftrightarrow> (\<forall>x. lo \<le> x \<and> x < hi \<longrightarrow> P (x div bs))"
proof (intro iffI allI impI)
  fix x assume P: "\<forall>j. lo div bs \<le> j \<and> j < (hi + bs - 1) div bs \<longrightarrow> P j" and x: "lo \<le> x \<and> x < hi"
  have "x div bs < (hi + bs - 1) div bs" using div_before_ceil [OF assms(1)] x by blast
  moreover have "lo div bs \<le> x div bs" using x assms(1) by (intro zdiv_mono1) simp_all
  ultimately show "P (x div bs)" using P by simp
next
  fix j assume P: "\<forall>x. lo \<le> x \<and> x < hi \<longrightarrow> P (x div bs)" and j: "lo div bs \<le> j \<and> j < (hi + bs - 1) div bs"
  have "(j + 1) * bs \<le> hi + bs - 1" using j assms(1) le_div_iff [of bs "j + 1" "hi + bs - 1"] by simp
  then have h: "j * bs < hi" by (simp add: distrib_right)
  have l: "lo < (j + 1) * bs" using j assms(1) div_less_iff [of bs lo "j + 1"] by simp
  define x where "x = max lo (j * bs)"
  have "x div bs = j"
  proof (rule antisym)
    show "x div bs \<le> j" using l assms(1) div_less_iff [of bs x "j + 1"] by (simp add: x_def distrib_right)
    show "j \<le> x div bs" using assms(1) le_div_iff [of bs j x] by (simp add: x_def)
  qed
  moreover have "lo \<le> x \<and> x < hi" using h assms(2) by (simp add: x_def)
  ultimately show "P j" using P by blast
qed

context roaring_bitmap
begin

definition cached :: "'b Cache \<Rightarrow> int \<Rightarrow> bool" where
  "cached c x \<longleftrightarrow> tstate (c_tracker c) (x div c_blockSize c) \<noteq> NotPresent"

lemma cached_upd [simp]:
  "cached (c\<lparr>c_mmap := m\<rparr>) = cached c" "cached (c\<lparr>c_closed := b\<rparr>) = cached c" "byte_at (c\<lparr>c_closed := b\<rparr>) = byte_at c"
  by (simp_all add: cached_def byte_at_def fun_eq_iff)

lemma chunk_idx:
  assumes "chunk_cache_ok c" "0 \<le> x" "x \<le> c_size c"
  shows "u32 (BlockIdx x (c_blockSize c)) = x div c_blockSize c"
    "u32 (BlockCeilIdx x (c_blockSize c)) = (x + c_blockSize c - 1) div c_blockSize c"
    "0 \<le> x div c_blockSize c" "x div c_blockSize c < 4294967296"
    "0 \<le> (x + c_blockSize c - 1) div c_blockSize c" "(x + c_blockSize c - 1) div c_blockSize c < 4294967296"
proof -
  let ?bs = "c_blockSize c"
  have c: "0 < ?bs" "(c_size c + ?bs) div ?bs < 4294967296" "c_size c + ?bs \<le> max_i64"
    using assms(1) by (auto simp: chunk_cache_ok_def)
  have m: "x div ?bs \<le> (c_size c + ?bs) div ?bs" "(x + ?bs - 1) div ?bs \<le> (c_size c + ?bs) div ?bs"
    using c(1) assms(3) by (auto intro!: zdiv_mono1)
  show n: "0 \<le> x div ?bs" "x div ?bs < 4294967296" "0 \<le> (x + ?bs - 1) div ?bs" "(x + ?bs - 1) div ?bs < 4294967296"
    using c m assms(2) by (simp_all add: pos_imp_zdiv_nonneg_iff)
  show "u32 (BlockIdx x ?bs) = x div ?bs" "u32 (BlockCeilIdx x ?bs) = (x + ?bs - 1) div ?bs"
    using BlockIdx_eq [OF assms(2) _ c(1)] BlockCeilIdx_eq [OF assms(2) c(1)] n c assms(3) by (simp_all add: u32_id)
qed

lemma isCached_iff:
  assumes "chunk_cache_ok c" "tracker_ok (c_tracker c)" "0 \<le> off" "off < c_size c" "0 < len" "off + len \<le> max_i64"
  shows "isCached ops c off len \<longleftrightarrow> (\<forall>x. off \<le> x \<and> x < min (off + len) (c_size c) \<longrightarrow> cached c x)"
proof -
  let ?e = "min (off + len) (c_size c)"
  have bs: "0 < c_blockSize c" using assms(1) by (simp add: chunk_cache_ok_def)
  have e: "0 \<le> ?e" "?e \<le> c_size c" "off < ?e" "off \<le> c_size c" using assms by simp_all
  have "i64 (off + len) = off + len" using assms(3,5,6) by (intro i64_id) simp_all
  then have "isCached ops c off len \<longleftrightarrow> Present ops (c_tracker c) (off div c_blockSize c) ((?e + c_blockSize c - 1) div c_blockSize c)"
    using chunk_idx [OF assms(1,3) e(4)] chunk_idx [OF assms(1) e(1,2)] by (simp add: isCached_def)
  also have "\<dots> \<longleftrightarrow> (\<forall>j. off div c_blockSize c \<le> j \<and> j < (?e + c_blockSize c - 1) div c_blockSize c \<longrightarrow> tstate (c_tracker c) j \<noteq> NotPresent)"
    using chunk_idx [OF assms(1,3) e(4)] chunk_idx [OF assms(1) e(1,2)] bs e(3)
    by (intro Present_spec [OF assms(2)]) (auto intro!: zdiv_mono1)
  also have "\<dots> \<longleftrightarrow> (\<forall>x. off \<le> x \<and> x < ?e \<longrightarrow> cached c x)"
    using div_range_iff [OF bs e(3)] by (simp add: cached_def)
  finally show ?thesis .
qed

lemma setIsCached_spec:
  assumes "chunk_cache_ok c" "tracker_ok (c_tracker c)" "0 \<le> off" "0 < len" "off + len \<le> c_size c"
    and al: "c_blockSize c dvd off" "c_blockSize c dvd off + len \<or> off + len = c_size c"
  shows "tracker_ok (c_tracker (setIsCached ops c off len))"
    "0 \<le> x \<Longrightarrow> x < c_size c \<Longrightarrow> cached (setIsCached ops c off len) x \<longleftrightarrow> cached c x \<or> off \<le> x \<and> x < off + len"
proof -
  let ?bs = "c_blockSize c" and ?e = "off + len"
  have bs: "0 < ?bs" "c_size c \<le> max_i64" using assms(1) by (auto simp: chunk_cache_ok_def)
  have r: "off \<le> c_size c" "0 \<le> ?e" using assms by simp_all
  have "i64 ?e = ?e" using assms(3,4,5) bs by (intro i64_id) simp_all
  then have s: "setIsCached ops c off len = c\<lparr>c_tracker := SetRange ops (c_tracker c) (off div ?bs) ((?e + ?bs - 1) div ?bs) Dirty\<rparr>"
    using chunk_idx [OF assms(1,3) r(1)] chunk_idx [OF assms(1) r(2) assms(5)] by (simp add: setIsCached_def)
  have ir: "idx_range (off div ?bs) ((?e + ?bs - 1) div ?bs)"
    using chunk_idx [OF assms(1,3) r(1)] chunk_idx [OF assms(1) r(2) assms(5)] by simp
  note sp = SetRange_spec [OF assms(2) ir, of Dirty]
  show "tracker_ok (c_tracker (setIsCached ops c off len))" using sp(1) by (simp add: s)
  assume x: "0 \<le> x" "x < c_size c"
  have "off div ?bs \<le> x div ?bs \<longleftrightarrow> off \<le> x"
  proof -
    obtain q where q: "off = ?bs * q" using al(1) by (rule dvdE)
    then have "off div ?bs = q" using bs(1) by simp
    then show ?thesis using le_div_iff [OF bs(1), of q x] q by (simp add: mult.commute)
  qed
  moreover have "x div ?bs < (?e + ?bs - 1) div ?bs \<longleftrightarrow> x < ?e"
    using al(2)
  proof
    assume d: "?bs dvd ?e"
    then obtain q where q: "?e = ?bs * q" by (rule dvdE)
    then have "(?e + ?bs - 1) div ?bs = q" using aligned_ceil [OF bs(1) d] bs(1) by simp
    then show ?thesis using div_less_iff [OF bs(1), of x q] q by (simp add: mult.commute)
  next
    assume "?e = c_size c"
    moreover have "x div ?bs < (c_size c + ?bs - 1) div ?bs" using div_before_ceil [OF bs(1) x(2)] .
    ultimately show ?thesis using x by simp
  qed
  ultimately show "cached (setIsCached ops c off len) x \<longleftrightarrow> cached c x \<or> off \<le> x \<and> x < off + len"
    by (auto simp: cached_def s sp(2))
qed

end

lemma byte_at_write:
  assumes "chunk_cache_ok (k_cache k)" "0 \<le> off" "off + int (length b) \<le> c_size (k_cache k)"
  shows "byte_at (k_cache (write_mmap off b k)) x =
    (if off \<le> x \<and> x < off + int (length b) then b ! nat (x - off) else byte_at (k_cache k) x)"
proof -
  obtain m where m: "c_mmap (k_cache k) = Some m" "int (length m) = c_size (k_cache k)"
    using assms(1) by (auto simp: chunk_cache_ok_def)
  have "nat x - nat off = nat (x - off)" if "off \<le> x" using that assms(2) by linarith
  then show ?thesis using assms(2,3) m by (auto simp: byte_at_def nth_overwrite write_mmap_def)
qed

lemma setIsCached_same [simp]:
  "c_mmap (setIsCached ops c off len) = c_mmap c" "c_size (setIsCached ops c off len) = c_size c"
  "c_blockSize (setIsCached ops c off len) = c_blockSize c" "c_closed (setIsCached ops c off len) = c_closed c"
  "c_dirtyFile (setIsCached ops c off len) = c_dirtyFile c"
  by (simp_all add: setIsCached_def Let_def)

lemma byte_at_setIsCached [simp]: "byte_at (setIsCached ops c off len) = byte_at c"
  by (simp add: byte_at_def fun_eq_iff)

section \<open>The invariant of the chunker\<close>

text \<open>Over the bytes \<open>B\<close> of the mapping, which of them are cached \<open>C\<close>, and the sessions. \<open>FE\<close> has all
  compressed frames of the build; the frame tables that readers bring are parts of it. \<open>R x v\<close>: the
  byte \<open>v\<close> is acceptable at offset \<open>x\<close>. At the offsets in \<open>cor\<close> any byte may arrive in a compressed
  frame; no chunk that is fetched uncompressed has any of them. Where what arrives does not matter
  (for termination), \<open>R\<close> accepts every byte and \<open>cor\<close> is empty.\<close>

abbreviation in_chunk :: "fetchSession \<Rightarrow> int \<Rightarrow> bool" where
  "in_chunk s x \<equiv> fs_chunkOff s \<le> x \<and> x < chunk_end s"

abbreviation is_ready :: "fetchSession \<Rightarrow> int \<Rightarrow> bool" where
  "is_ready s x \<equiv> fs_chunkOff s \<le> x \<and> x < fs_chunkOff s + fs_bytesReady s"

definition frame_of :: "frameEntry list \<Rightarrow> int \<Rightarrow> int \<Rightarrow> bool" where
  "frame_of FE off len \<longleftrightarrow> (\<exists>e \<in> set FE. StartU e = off \<and> SizeU e = len)"

definition chunk_ok :: "(int \<Rightarrow> bool) \<Rightarrow> frameEntry list \<Rightarrow> int \<Rightarrow> int \<Rightarrow> int \<Rightarrow> int \<Rightarrow> bool \<Rightarrow> bool" where
  "chunk_ok cor FE bs sz off len cmp \<longleftrightarrow>
     0 \<le> off \<and> 0 < len \<and> off + len \<le> sz \<and> bs dvd off \<and> (bs dvd off + len \<or> off + len = sz) \<and> (cmp \<longrightarrow> frame_of FE off len) \<and>
     (\<not> cmp \<longrightarrow> (\<forall>x. off \<le> x \<and> x < off + len \<longrightarrow> \<not> cor x))"

definition sess_ok :: "(int \<Rightarrow> bool) \<Rightarrow> frameEntry list \<Rightarrow> int \<Rightarrow> int \<Rightarrow> (int \<Rightarrow> bool) \<Rightarrow> fetchSession \<Rightarrow> bool \<Rightarrow> bool" where
  "sess_ok cor FE bs sz C s cmp \<longleftrightarrow>
     chunk_ok cor FE bs sz (fs_chunkOff s) (fs_chunkLen s) cmp \<and> 0 \<le> fs_bytesReady s \<and> fs_bytesReady s \<le> fs_chunkLen s \<and>
     (cmp \<longrightarrow> 0 < fs_bytesReady s \<longrightarrow> (\<forall>x. in_chunk s x \<longrightarrow> C x))"

definition delivered :: "(int \<Rightarrow> byte \<Rightarrow> bool) \<Rightarrow> (int \<Rightarrow> byte) \<Rightarrow> fetchSession \<Rightarrow> bool \<Rightarrow> bytes \<Rightarrow> bool" where
  "delivered R B s cmp d \<longleftrightarrow> \<not> fs_done s \<and> int (length d) \<le> fs_chunkLen s \<and>
     (if cmp then fs_bytesReady s = 0 \<and>
        (\<forall>i < length d. B (fs_chunkOff s + int i) = d ! i \<or> R (fs_chunkOff s + int i) (B (fs_chunkOff s + int i)))
      else fs_bytesReady s \<le> int (length d) \<and>
        (\<forall>i < length d. R (fs_chunkOff s + int i) (B (fs_chunkOff s + int i))))"

fun pc_ok ::
  "(int \<Rightarrow> byte \<Rightarrow> bool) \<Rightarrow> (int \<Rightarrow> bool) \<Rightarrow> (int \<Rightarrow> byte) \<Rightarrow> fetchSession \<Rightarrow> bool \<Rightarrow> fetch_pc \<Rightarrow> bool" where
  "pc_ok R C B s cmp FAddress = delivered R B s cmp []"
| "pc_ok R C B s cmp FOpen = delivered R B s cmp []"
| "pc_ok R C B s cmp (FRead d) = delivered R B s cmp d"
| "pc_ok R C B s cmp (FAdvance d e) = (delivered R B s cmp d \<and> \<not> cmp)"
| "pc_ok R C B s cmp (FClose d e) = (delivered R B s cmp d \<and> (e = None \<longrightarrow> int (length d) = fs_chunkLen s))"
| "pc_ok R C B s cmp FCached = (\<not> fs_done s \<and> (\<forall>x. in_chunk s x \<longrightarrow> R x (B x)) \<and> (cmp \<longrightarrow> fs_bytesReady s = 0))"
| "pc_ok R C B s cmp FDone = (\<not> fs_done s \<and> (\<forall>x. in_chunk s x \<longrightarrow> R x (B x)) \<and> (\<forall>x. in_chunk s x \<longrightarrow> C x))"
| "pc_ok R C B s cmp (FFail e) = (\<not> fs_done s)"
| "pc_ok R C B s cmp FBroadcast = fs_done s"
| "pc_ok R C B s cmp (FDefer e) = True"
| "pc_ok R C B s cmp FWake = fs_done s"
| "pc_ok R C B s cmp FRelease = fs_done s"
| "pc_ok R C B s cmp FGone = fs_done s"

fun fetching :: "fetch_pc \<Rightarrow> bool" where
  "fetching FAddress = True" | "fetching FOpen = True" | "fetching (FRead d) = True" | "fetching (FAdvance d e) = True"
| "fetching (FClose d e) = True" | "fetching FCached = True"
| "fetching FDone = False" | "fetching (FFail e) = False" | "fetching FBroadcast = False" | "fetching (FDefer e) = False"
| "fetching FWake = False" | "fetching FRelease = False" | "fetching FGone = False"

abbreviation comp_of :: "(FrameTable option \<times> fetch_pc) list \<Rightarrow> nat \<Rightarrow> bool" where
  "comp_of fs s \<equiv> IsCompressed (fst (fs ! s))"

definition sessions_ok ::
  "(int \<Rightarrow> byte \<Rightarrow> bool) \<Rightarrow> (int \<Rightarrow> bool) \<Rightarrow> frameEntry list \<Rightarrow> int \<Rightarrow> int \<Rightarrow> (int \<Rightarrow> bool) \<Rightarrow> (int \<Rightarrow> byte) \<Rightarrow> fetchSession list \<Rightarrow>
   (FrameTable option \<times> fetch_pc) list \<Rightarrow> bool" where
  "sessions_ok R cor FE bs sz C B heap fs \<longleftrightarrow> length fs = length heap \<and>
     (\<forall>s < length heap. sess_ok cor FE bs sz C (heap ! s) (comp_of fs s) \<and>
        pc_ok R C B (heap ! s) (comp_of fs s) (snd (fs ! s)) \<and> (\<forall>x. is_ready (heap ! s) x \<longrightarrow> R x (B x)))"

definition listed_ok :: "nat list \<Rightarrow> fetchSession list \<Rightarrow> (FrameTable option \<times> fetch_pc) list \<Rightarrow> bool" where
  "listed_ok ss heap fs \<longleftrightarrow> distinct ss \<and> (\<forall>s. s \<in> set ss \<longleftrightarrow> s < length heap \<and> snd (fs ! s) \<noteq> FGone) \<and>
     (\<forall>s \<in> set ss. \<forall>s' \<in> set ss. s \<noteq> s' \<and> comp_of fs s \<and> comp_of fs s' \<longrightarrow>
        (fs_chunkOff (heap ! s), fs_chunkLen (heap ! s)) \<noteq> (fs_chunkOff (heap ! s'), fs_chunkLen (heap ! s')))"

definition frames_ok ::
  "(int \<Rightarrow> bool) \<Rightarrow> frameEntry list \<Rightarrow> (int \<Rightarrow> bool) \<Rightarrow> fetchSession list \<Rightarrow> (FrameTable option \<times> fetch_pc) list \<Rightarrow> bool" where
  "frames_ok cor FE C heap fs \<longleftrightarrow>
     (\<forall>e \<in> set FE. \<forall>x y. covers_offset e x \<and> covers_offset e y \<and> cor x \<and> C x \<longrightarrow> C y) \<and>
     (\<forall>s < length heap. fetching (snd (fs ! s)) \<longrightarrow> (\<forall>x. in_chunk (heap ! s) x \<and> cor x \<longrightarrow> \<not> C x))"

definition chunks_inv ::
  "(int \<Rightarrow> byte \<Rightarrow> bool) \<Rightarrow> (int \<Rightarrow> bool) \<Rightarrow> frameEntry list \<Rightarrow> int \<Rightarrow> int \<Rightarrow> (int \<Rightarrow> bool) \<Rightarrow> (int \<Rightarrow> byte) \<Rightarrow> nat list \<Rightarrow> fetchSession list \<Rightarrow>
   (FrameTable option \<times> fetch_pc) list \<Rightarrow> bool" where
  "chunks_inv R cor FE bs sz C B ss heap fs \<longleftrightarrow>
     sessions_ok R cor FE bs sz C B heap fs \<and> listed_ok ss heap fs \<and>
     (\<forall>x. 0 \<le> x \<and> x < sz \<and> C x \<longrightarrow> R x (B x)) \<and> frames_ok cor FE C heap fs"

lemma frames_disjoint:
  assumes "entries_ok FE" "frame_of FE a l" "frame_of FE a' l'" "a \<le> x" "x < a + l" "a' \<le> x" "x < a' + l'"
  shows "a = a' \<and> l = l'"
  using assms cover_unique [OF assms(1), of _ _ x] unfolding frame_of_def by blast

lemma comp_of_upd: "fs ! s = (ft, p) \<Longrightarrow> s < length fs \<Longrightarrow> comp_of (fs[s := (ft, p')]) t = comp_of fs t"
  by (cases "t = s") simp_all

text \<open>A session changes its progress and its goroutine moves on.\<close>

lemma chunks_inv_session:
  assumes "chunks_inv R cor FE bs sz C B ss heap fs" "s < length heap" "fs ! s = (ft, p)" "p \<noteq> FGone" "p' \<noteq> FGone"
    and "fs_chunkOff s' = fs_chunkOff (heap ! s)" "fs_chunkLen s' = fs_chunkLen (heap ! s)"
    and "sess_ok cor FE bs sz C s' (IsCompressed ft)" "pc_ok R C B s' (IsCompressed ft) p'"
    and "\<forall>x. is_ready s' x \<longrightarrow> R x (B x)" "fetching p' \<longrightarrow> fetching p"
  shows "chunks_inv R cor FE bs sz C B ss (heap[s := s']) (fs[s := (ft, p')])"
proof -
  have l: "length fs = length heap" using assms(1) by (simp add: chunks_inv_def sessions_ok_def)
  have "sessions_ok R cor FE bs sz C B (heap[s := s']) (fs[s := (ft, p')])"
    using assms l by (auto simp: chunks_inv_def sessions_ok_def nth_list_update)
  moreover have "listed_ok ss (heap[s := s']) (fs[s := (ft, p')])"
    using assms l by (auto simp: chunks_inv_def listed_ok_def nth_list_update)
  moreover have "frames_ok cor FE C (heap[s := s']) (fs[s := (ft, p')])"
    using assms l by (auto simp: chunks_inv_def frames_ok_def nth_list_update)
  ultimately show ?thesis using assms(1) by (simp add: chunks_inv_def)
qed

lemma chunks_inv_pc:
  assumes "chunks_inv R cor FE bs sz C B ss heap fs" "s < length heap" "fs ! s = (ft, p)" "p \<noteq> FGone" "p' \<noteq> FGone"
    and "pc_ok R C B (heap ! s) (IsCompressed ft) p'" "fetching p' \<longrightarrow> fetching p"
  shows "chunks_inv R cor FE bs sz C B ss heap (fs[s := (ft, p')])"
proof -
  have "sess_ok cor FE bs sz C (heap ! s) (IsCompressed ft)" "\<forall>x. is_ready (heap ! s) x \<longrightarrow> R x (B x)"
    using assms(1,2,3) by (auto simp: chunks_inv_def sessions_ok_def)
  from chunks_inv_session [OF assms(1-5) refl refl this(1) assms(6) this(2) assms(7)] show ?thesis by simp
qed

lemma chunks_inv_sess:
  assumes "chunks_inv R cor FE bs sz C B ss heap fs" "s < length heap" "fs ! s = (ft, p)"
  shows "sess_ok cor FE bs sz C (heap ! s) (IsCompressed ft)" "pc_ok R C B (heap ! s) (IsCompressed ft) p"
    "length fs = length heap" "\<And>x. is_ready (heap ! s) x \<Longrightarrow> R x (B x)"
    "chunk_ok cor FE bs sz (fs_chunkOff (heap ! s)) (fs_chunkLen (heap ! s)) (IsCompressed ft)"
  using assms by (auto simp: chunks_inv_def sessions_ok_def sess_ok_def)

text \<open>A chunk being fetched that has a byte which may arrive damaged shares that byte with no other.\<close>

lemma chunk_exclusive:
  assumes "chunks_inv R cor FE bs sz C B ss heap fs" "entries_ok FE" "cor x"
    and "s < length heap" "snd (fs ! s) \<noteq> FGone" "s' < length heap" "snd (fs ! s') \<noteq> FGone" "s \<noteq> s'" "in_chunk (heap ! s) x"
  shows "\<not> in_chunk (heap ! s') x"
proof
  assume x: "in_chunk (heap ! s') x"
  have l: "listed_ok ss heap fs" using assms(1) by (simp add: chunks_inv_def)
  have f: "comp_of fs t \<and> frame_of FE (fs_chunkOff (heap ! t)) (fs_chunkLen (heap ! t))" if "t < length heap" "in_chunk (heap ! t) x" for t
    using assms(1,3) that by (auto simp: chunks_inv_def sessions_ok_def sess_ok_def chunk_ok_def)
  have "fs_chunkOff (heap ! s) = fs_chunkOff (heap ! s') \<and> fs_chunkLen (heap ! s) = fs_chunkLen (heap ! s')"
    using frames_disjoint [OF assms(2)] f [OF assms(4,9)] f [OF assms(6) x] x assms(9) by blast
  then show False using l f [OF assms(4,9)] f [OF assms(6) x] assms(4-8) by (auto simp: listed_ok_def)
qed

text \<open>The chunk is marked as cached.\<close>

lemma chunks_inv_mark:
  assumes inv: "chunks_inv R cor FE bs sz C B ss heap fs" "entries_ok FE" and s: "s < length heap" "fs ! s = (ft, FCached)"
    and C': "\<And>x. 0 \<le> x \<Longrightarrow> x < sz \<Longrightarrow> C' x \<longleftrightarrow> C x \<or> in_chunk (heap ! s) x"
    and sub: "\<forall>e \<in> set FE. 0 \<le> StartU e \<and> StartU e + SizeU e \<le> sz"
  shows "chunks_inv R cor FE bs sz C' B ss heap (fs[s := (ft, FDone)])"
proof -
  note ses = chunks_inv_sess [OF inv(1) s]
  have inside: "0 \<le> x \<and> x < sz" if "t < length heap" "in_chunk (heap ! t) x" for t x
    using inv(1) that by (auto simp: chunks_inv_def sessions_ok_def sess_ok_def chunk_ok_def)
  have mono: "C' x" if "t < length heap" "in_chunk (heap ! t) x" "C x" for t x
    using C' inside [OF that(1,2)] that(3) by blast
  have pc: "pc_ok R C' B (heap ! t) (comp_of fs t) (snd (fs ! t))" if "t < length heap" for t
  proof -
    have "pc_ok R C B (heap ! t) (comp_of fs t) (snd (fs ! t))"
      using inv(1) that by (simp add: chunks_inv_def sessions_ok_def)
    then show ?thesis using mono that by (cases "snd (fs ! t)") auto
  qed
  have own: "pc_ok R C' B (heap ! s) (IsCompressed ft) FDone"
    using ses(2) C' inside [OF s(1)] by auto
  have "sessions_ok R cor FE bs sz C' B heap (fs[s := (ft, FDone)])"
    unfolding sessions_ok_def
  proof (intro conjI allI impI)
    fix t assume t: "t < length heap"
    have st: "sess_ok cor FE bs sz C (heap ! t) (comp_of fs t)" "\<forall>x. is_ready (heap ! t) x \<longrightarrow> R x (B x)"
      using inv(1) t by (simp_all add: chunks_inv_def sessions_ok_def)
    have cm: "comp_of (fs[s := (ft, FDone)]) t = comp_of fs t"
      using s ses(3) by (intro comp_of_upd) simp_all
    show "sess_ok cor FE bs sz C' (heap ! t) (comp_of (fs[s := (ft, FDone)]) t)"
      using st(1) mono [OF t] unfolding cm by (auto simp: sess_ok_def)
    show "pc_ok R C' B (heap ! t) (comp_of (fs[s := (ft, FDone)]) t) (snd (fs[s := (ft, FDone)] ! t))"
      using own pc [OF t] s ses(3) by (cases "t = s") simp_all
    show "R x (B x)" if "is_ready (heap ! t) x" for x using st(2) that by blast
  qed (use ses(3) in simp)
  moreover have "listed_ok ss heap (fs[s := (ft, FDone)])"
    using inv(1) s ses(3) by (auto simp: chunks_inv_def listed_ok_def nth_list_update)
  moreover have "frames_ok cor FE C' heap (fs[s := (ft, FDone)])"
  proof -
    have fo: "frames_ok cor FE C heap fs" using inv(1) by (simp add: chunks_inv_def)
    have "C' y" if e: "e \<in> set FE" "covers_offset e x" "covers_offset e y" "cor x" "C' x" for e x y
    proof -
      have b: "0 \<le> x" "x < sz" "0 \<le> y" "y < sz" using sub e by force+
      have fe: "frame_of FE (StartU e) (SizeU e)" using e(1) by (auto simp: frame_of_def)
      have "in_chunk (heap ! s) y" if "in_chunk (heap ! s) x"
      proof -
        have "frame_of FE (fs_chunkOff (heap ! s)) (fs_chunkLen (heap ! s))"
          using ses(5) e(4) that by (auto simp: chunk_ok_def)
        then show ?thesis using frames_disjoint [OF inv(2) _ fe, of _ _ x] e that by auto
      qed
      moreover have "C x \<Longrightarrow> C y" using fo e unfolding frames_ok_def by blast
      ultimately show ?thesis using C' b e(5) by blast
    qed
    moreover have "\<not> C' x" if t: "t < length heap" "fetching (snd (fs[s := (ft, FDone)] ! t))" "in_chunk (heap ! t) x \<and> cor x" for t x
    proof -
      have ne: "t \<noteq> s" using t(2) s ses(3) by auto
      then have ft: "fetching (snd (fs ! t))" using t(2) by simp
      then have "\<not> in_chunk (heap ! s) x"
        using chunk_exclusive [OF inv _ t(1) _ s(1) _ ne] t(3) s(2) by (cases "snd (fs ! t)") simp_all
      then show ?thesis using C' inside [OF t(1)] fo t(1,3) ft by (auto simp: frames_ok_def)
    qed
    ultimately show ?thesis unfolding frames_ok_def by blast
  qed
  moreover have "R x (B x)" if "0 \<le> x" "x < sz" "C' x" for x
    using inv(1) C' that ses(2) by (auto simp: chunks_inv_def)
  ultimately show ?thesis by (simp add: chunks_inv_def)
qed

text \<open>A batch of bytes is written to the mapping.\<close>

lemma delivered_append:
  assumes "delivered R B s cmp d" "int (length d) + int (length b) \<le> fs_chunkLen s"
    and B': "\<And>x. B' x = (if fs_chunkOff s + int (length d) \<le> x \<and> x < fs_chunkOff s + int (length d) + int (length b)
      then b ! nat (x - fs_chunkOff s - int (length d)) else B x)"
    and "cmp \<or> (\<forall>i < length b. R (fs_chunkOff s + int (length d) + int i) (b ! i))"
  shows "delivered R B' s cmp (d @ b)"
proof -
  have new: "B' (fs_chunkOff s + int i) = (if i < length d then B (fs_chunkOff s + int i) else b ! (i - length d))"
    if "i < length d + length b" for i
  proof (cases "i < length d")
    case False
    then have "nat (fs_chunkOff s + int i - fs_chunkOff s - int (length d)) = i - length d" by simp
    then show ?thesis using that False by (simp add: B')
  qed (simp add: B')
  show ?thesis
  proof (cases cmp)
    case True
    then show ?thesis using assms(1,2) new by (auto simp: delivered_def nth_append)
  next
    case False
    have "R (fs_chunkOff s + int i) (b ! (i - length d))" if "i < length d + length b" "\<not> i < length d" for i
    proof -
      have "i - length d < length b" using that by simp
      then have "R (fs_chunkOff s + int (length d) + int (i - length d)) (b ! (i - length d))" using False assms(4) by blast
      then show ?thesis using that by (simp add: of_nat_diff)
    qed
    then show ?thesis using assms(1,2) new False by (auto simp: delivered_def)
  qed
qed

lemma pc_ok_bytes:
  assumes "pc_ok R C B s cmp p" "\<And>x. in_chunk s x \<Longrightarrow> B' x = B x \<or> R x (B' x)"
  shows "pc_ok R C B' s cmp p"
proof -
  have "delivered R B' s cmp d" if d: "delivered R B s cmp d" for d
  proof -
    have "B' (fs_chunkOff s + int i) = B (fs_chunkOff s + int i) \<or> R (fs_chunkOff s + int i) (B' (fs_chunkOff s + int i))"
      if "i < length d" for i
      using assms(2) [of "fs_chunkOff s + int i"] d that by (simp add: delivered_def)
    then show ?thesis using d unfolding delivered_def by (metis (full_types))
  qed
  moreover have "\<forall>x. in_chunk s x \<longrightarrow> R x (B' x)" if "\<forall>x. in_chunk s x \<longrightarrow> R x (B x)"
    using that assms(2) by metis
  ultimately show ?thesis using assms(1) by (cases p) auto
qed

lemma chunks_inv_write:
  assumes inv: "chunks_inv R cor FE bs sz C B ss heap fs" "entries_ok FE" and s: "s < length heap" "fs ! s = (ft, FRead d)"
    and len: "int (length d) + int (length b) \<le> fs_chunkLen (heap ! s)"
    and B': "\<And>x. B' x = (if fs_chunkOff (heap ! s) + int (length d) \<le> x \<and> x < fs_chunkOff (heap ! s) + int (length d) + int (length b)
      then b ! nat (x - fs_chunkOff (heap ! s) - int (length d)) else B x)"
    and up: "\<And>i. i < length b \<Longrightarrow> R (fs_chunkOff (heap ! s) + int (length d) + int i) (b ! i) \<or>
      IsCompressed ft \<and> cor (fs_chunkOff (heap ! s) + int (length d) + int i)"
    and p': "p' = FAdvance (d @ b) e \<and> \<not> IsCompressed ft \<or> p' = FRead (d @ b) \<or> p' = FClose (d @ b) (Some er)"
  shows "chunks_inv R cor FE bs sz C B' ss heap (fs[s := (ft, p')])"
proof -
  note ses = chunks_inv_sess [OF inv(1) s]
  let ?ses = "heap ! s"
  have good: "B' x = B x \<or> R x (B' x) \<or> IsCompressed ft \<and> cor x \<and> in_chunk ?ses x" for x
  proof (cases "fs_chunkOff ?ses + int (length d) \<le> x \<and> x < fs_chunkOff ?ses + int (length d) + int (length b)")
    case True
    define i where "i = nat (x - fs_chunkOff ?ses - int (length d))"
    have i: "i < length b" "fs_chunkOff ?ses + int (length d) + int i = x" using True by (auto simp: i_def)
    have "in_chunk ?ses x" "B' x = b ! i" using True len by (auto simp: B' i_def)
    then show ?thesis using up [OF i(1)] unfolding i(2) by metis
  qed (auto simp: B')
  have other: "B' x = B x \<or> R x (B' x)" if t: "t < length heap" "snd (fs ! t) \<noteq> FGone" "t \<noteq> s" "in_chunk (heap ! t) x" for t x
    using good [of x] chunk_exclusive [OF inv _ t(1,2) s(1) _ t(3,4)] s(2) by auto
  have kept: "R x (B' x)" if "R x (B x)" "0 \<le> x" "x < sz" "C x" for x
  proof -
    have "\<not> in_chunk ?ses x" if "cor x"
      using inv(1) that s \<open>C x\<close> unfolding chunks_inv_def frames_ok_def by (metis fetching.simps(3) snd_conv)
    then show ?thesis using good [of x] that by metis
  qed
  have cached: "R x (B x) \<and> 0 \<le> x \<and> x < sz" if t: "t < length heap" "C x" "in_chunk (heap ! t) x" for t x
    using inv(1) t by (auto simp: chunks_inv_def sessions_ok_def sess_ok_def chunk_ok_def)
  have ready: "R x (B' x)" if t: "t < length heap" "is_ready (heap ! t) x" for t x
  proof -
    have st: "sess_ok cor FE bs sz C (heap ! t) (comp_of fs t)" "R x (B x)"
      using inv(1) t by (auto simp: chunks_inv_def sessions_ok_def)
    then have ic: "in_chunk (heap ! t) x" using t(2) by (auto simp: sess_ok_def)
    show ?thesis
    proof (cases "C x")
      case True
      then show ?thesis using kept cached [OF t(1) _ ic] by blast
    next
      case False
      then have "\<not> comp_of fs t" using st(1) t(2) ic by (auto simp: sess_ok_def)
      then have "\<not> cor x" using st(1) ic by (auto simp: sess_ok_def chunk_ok_def)
      then show ?thesis using good [of x] st(2) by metis
    qed
  qed
  have del: "delivered R B' ?ses (IsCompressed ft) (d @ b)"
  proof (rule delivered_append [OF _ len B'])
    show "delivered R B ?ses (IsCompressed ft) d" using ses(2) by simp
    show "IsCompressed ft \<or> (\<forall>i < length b. R (fs_chunkOff ?ses + int (length d) + int i) (b ! i))"
      using up by blast
  qed
  have "sessions_ok R cor FE bs sz C B' heap (fs[s := (ft, p')])"
    unfolding sessions_ok_def
  proof (intro conjI allI impI)
    fix t assume t: "t < length heap"
    have cm: "comp_of (fs[s := (ft, p')]) t = comp_of fs t" using s ses(3) by (intro comp_of_upd) simp_all
    have st: "sess_ok cor FE bs sz C (heap ! t) (comp_of fs t)" "pc_ok R C B (heap ! t) (comp_of fs t) (snd (fs ! t))"
      using inv(1) t by (simp_all add: chunks_inv_def sessions_ok_def)
    show "sess_ok cor FE bs sz C (heap ! t) (comp_of (fs[s := (ft, p')]) t)" using st(1) unfolding cm .
    show "pc_ok R C B' (heap ! t) (comp_of (fs[s := (ft, p')]) t) (snd (fs[s := (ft, p')] ! t))"
    proof (cases "t = s")
      case True
      then show ?thesis using p' del s ses(3) by auto
    next
      case False
      have "pc_ok R C B' (heap ! t) (comp_of fs t) (snd (fs ! t))"
        using pc_ok_bytes [OF st(2)] other [OF t _ False] st(2) by (cases "snd (fs ! t) = FGone") auto
      then show ?thesis using False by simp
    qed
    show "R x (B' x)" if "is_ready (heap ! t) x" for x using ready [OF t that] .
  qed (use ses(3) in simp)
  moreover have "listed_ok ss heap (fs[s := (ft, p')])"
    using inv(1) s ses(3) p' by (auto simp: chunks_inv_def listed_ok_def nth_list_update)
  moreover have "frames_ok cor FE C heap (fs[s := (ft, p')])"
    using inv(1) s ses(3) by (auto simp: chunks_inv_def frames_ok_def nth_list_update)
  moreover have "\<forall>x. 0 \<le> x \<and> x < sz \<and> C x \<longrightarrow> R x (B' x)" using inv(1) kept by (simp add: chunks_inv_def)
  ultimately show ?thesis by (simp add: chunks_inv_def)
qed

text \<open>The session leaves the list.\<close>

lemma set_swap_delete: "distinct ss \<Longrightarrow> set (swap_delete s ss) = set ss - {s} \<and> distinct (swap_delete s ss)"
proof (induction ss)
  case (Cons a as)
  show ?case
  proof (cases "a = s")
    case True
    then show ?thesis
    proof (cases as rule: rev_cases)
      case (snoc ys y)
      then show ?thesis using True Cons.prems by auto
    qed simp
  next
    case False
    then show ?thesis using Cons by auto
  qed
qed simp

lemma chunks_inv_release:
  assumes "chunks_inv R cor FE bs sz C B ss heap fs" "s < length heap" "fs ! s = (ft, FRelease)"
  shows "chunks_inv R cor FE bs sz C B (swap_delete s ss) heap (fs[s := (ft, FGone)])"
proof -
  note ses = chunks_inv_sess [OF assms]
  have lo: "listed_ok ss heap fs" using assms(1) by (simp add: chunks_inv_def)
  have d: "set (swap_delete s ss) = set ss - {s}" "distinct (swap_delete s ss)"
    using lo set_swap_delete [of ss s] by (simp_all add: listed_ok_def)
  have "listed_ok (swap_delete s ss) heap (fs[s := (ft, FGone)])"
    using lo assms ses(3) d by (auto simp: listed_ok_def nth_list_update)
  moreover have "sessions_ok R cor FE bs sz C B heap (fs[s := (ft, FGone)])"
    using assms ses by (auto simp: chunks_inv_def sessions_ok_def nth_list_update)
  moreover have "frames_ok cor FE C heap (fs[s := (ft, FGone)])"
    using assms ses(3) by (auto simp: chunks_inv_def frames_ok_def nth_list_update)
  ultimately show ?thesis using assms(1) by (simp add: chunks_inv_def)
qed

text \<open>A session is created for a chunk that no active session contains and that is not fully
  cached.\<close>

lemma chunks_inv_create:
  assumes inv: "chunks_inv R cor FE bs sz C B ss heap fs" "entries_ok FE"
    and ck: "chunk_ok cor FE bs sz off len (IsCompressed ft)"
    and free: "\<forall>i \<in> set ss. \<not> contains (heap ! i) off len" and nc: "\<exists>x. off \<le> x \<and> x < off + len \<and> \<not> C x"
  shows "chunks_inv R cor FE bs sz C B (ss @ [length heap]) (heap @ [newFetchSession off len]) (fs @ [(ft, FAddress)])"
proof -
  let ?n = "newFetchSession off len"
  have l: "length fs = length heap" "listed_ok ss heap fs" using inv(1) by (simp_all add: chunks_inv_def sessions_ok_def)
  have n: "fs_chunkOff ?n = off" "fs_chunkLen ?n = len" "fs_bytesReady ?n = 0" "\<not> fs_done ?n"
    by (simp_all add: newFetchSession_def)
  have ok: "sess_ok cor FE bs sz C ?n (IsCompressed ft)" "pc_ok R C B ?n (IsCompressed ft) FAddress"
    using ck n by (simp_all add: sess_ok_def delivered_def chunk_ok_def)
  have "sessions_ok R cor FE bs sz C B (heap @ [?n]) (fs @ [(ft, FAddress)])"
    using inv(1) ok n l(1) by (auto simp: chunks_inv_def sessions_ok_def nth_append less_Suc_eq)
  moreover have "listed_ok (ss @ [length heap]) (heap @ [?n]) (fs @ [(ft, FAddress)])"
  proof -
    have "(fs_chunkOff (heap ! t), fs_chunkLen (heap ! t)) \<noteq> (off, len)" if "t \<in> set ss" for t
      using free that by (auto simp: contains_def)
    then show ?thesis using l n by (auto simp: listed_ok_def nth_append less_Suc_eq)
  qed
  moreover have "frames_ok cor FE C (heap @ [?n]) (fs @ [(ft, FAddress)])"
  proof -
    have f: "frames_ok cor FE C heap fs" using inv(1) by (simp add: chunks_inv_def)
    obtain x where x: "off \<le> x" "x < off + len" "\<not> C x" using nc by blast
    have "\<not> C y" if y: "off \<le> y" "y < off + len" "cor y" for y
    proof -
      obtain e where e: "e \<in> set FE" "StartU e = off" "SizeU e = len" using ck y by (auto simp: chunk_ok_def frame_of_def)
      then show ?thesis using f x y unfolding frames_ok_def by blast
    qed
    then show ?thesis using f n l(1) by (auto simp: frames_ok_def nth_append less_Suc_eq)
  qed
  ultimately show ?thesis using inv(1) by (simp add: chunks_inv_def)
qed

section \<open>Every step keeps the invariant\<close>

text \<open>The frames of the build: in order, inside the data, on block boundaries or at the end.\<close>

definition geometry_ok :: "frameEntry list \<Rightarrow> int \<Rightarrow> int \<Rightarrow> bool" where
  "geometry_ok FE bs sz \<longleftrightarrow> entries_ok FE \<and> bs dvd MemoryChunkSize \<and>
     (\<forall>e \<in> set FE. bs dvd StartU e \<and> StartU e + SizeU e \<le> sz \<and> (bs dvd StartU e + SizeU e \<or> StartU e + SizeU e = sz))"

text \<open>A reader brings no frames, or some of those of the build.\<close>

definition table_ok :: "frameEntry list \<Rightarrow> FrameTable option \<Rightarrow> bool" where
  "table_ok FE ft \<longleftrightarrow> (IsCompressed ft \<longrightarrow> (\<exists>t. ft = Some t \<and> entries_ok (entries t) \<and> set (entries t) \<subseteq> set FE))"

lemma geometry_frame: "geometry_ok FE bs sz \<Longrightarrow> e \<in> set FE \<Longrightarrow> frame_ok e \<and> 0 \<le> StartU e"
  by (auto simp: geometry_ok_def entries_ok_def frame_ok_def)

text \<open>A reader without frames gets the chunk of \<open>MemoryChunkSize\<close> bytes around an offset.\<close>

definition chunk_intact :: "(int \<Rightarrow> bool) \<Rightarrow> FrameTable option \<Rightarrow> int \<Rightarrow> bool" where
  "chunk_intact cor ft x \<longleftrightarrow> (\<not> IsCompressed ft \<longrightarrow> (\<forall>y. y div MemoryChunkSize = x div MemoryChunkSize \<longrightarrow> \<not> cor y))"

lemma locateChunk_ok:
  assumes "geometry_ok FE bs sz" "table_ok FE ft" "0 \<le> x" "x < sz" "locateChunk sz x ft = Inr (off, len)" "chunk_intact cor ft x"
  shows "chunk_ok cor FE bs sz off len (IsCompressed ft)" "off \<le> x" "x < off + len"
proof -
  have "chunk_ok cor FE bs sz off len (IsCompressed ft) \<and> off \<le> x \<and> x < off + len"
  proof (cases "IsCompressed ft")
    case True
    then obtain t where t: "ft = Some t" "entries_ok (entries t)" "set (entries t) \<subseteq> set FE"
      using assms(2) by (auto simp: table_ok_def)
    obtain e where e: "locate (Some t) x = Inr e" "off = StartU e" "len = SizeU e"
      using assms(5) True t(1) by (auto simp: locateChunk_def LocateUncompressed_def bindR_eq_Inr)
    have "e \<in> set FE" "covers_offset e x" using locate_iff [OF t(2), of x e] e(1) t(3) by auto
    then show ?thesis using geometry_frame [OF assms(1)] assms(1) e True
      by (auto simp: chunk_ok_def geometry_ok_def frame_of_def frame_ok_def)
  next
    case False
    let ?q = "x div MemoryChunkSize"
    have o: "off = ?q * MemoryChunkSize" "len = min MemoryChunkSize (sz - off)"
      using assms(3,5) False by (auto simp: locateChunk_def Let_def sdiv_nonneg MemoryChunkSize_def)
    have q: "off \<le> x" "x < off + MemoryChunkSize" "0 \<le> off"
      using assms(3) mult_div_mod_eq [of MemoryChunkSize x] pos_mod_bound [of MemoryChunkSize x] pos_mod_sign [of MemoryChunkSize x]
      by (simp_all add: o(1) MemoryChunkSize_def pos_imp_zdiv_nonneg_iff mult.commute)
    have d: "bs dvd MemoryChunkSize" using assms(1) by (simp add: geometry_ok_def)
    then have "bs dvd off" by (simp add: o(1))
    moreover have "\<not> cor y" if "off \<le> y" "y < off + len" for y
    proof -
      have "y div MemoryChunkSize = ?q"
        using that o by (intro int_div_pos_eq [where r = "y - off"]) (auto simp: MemoryChunkSize_def)
      then show ?thesis using assms(6) False by (simp add: chunk_intact_def)
    qed
    ultimately show ?thesis using q o(2) d False assms(4) by (auto simp: chunk_ok_def min_def)
  qed
  then show "chunk_ok cor FE bs sz off len (IsCompressed ft)" "off \<le> x" "x < off + len" by auto
qed

context roaring_bitmap
begin

definition kinv :: "(int \<Rightarrow> byte \<Rightarrow> bool) \<Rightarrow> (int \<Rightarrow> bool) \<Rightarrow> frameEntry list \<Rightarrow> 'b Chunker \<Rightarrow> bool" where
  "kinv R cor FE k \<longleftrightarrow> chunk_cache_ok (k_cache k) \<and> tracker_ok (c_tracker (k_cache k)) \<and> k_size k = c_size (k_cache k) \<and>
     geometry_ok FE (c_blockSize (k_cache k)) (c_size (k_cache k)) \<and>
     chunks_inv R cor FE (c_blockSize (k_cache k)) (c_size (k_cache k)) (cached (k_cache k)) (byte_at (k_cache k))
       (k_sessions k) (k_heap k) (k_fetch k)"

lemma kinv_geometry: "kinv R cor FE k \<Longrightarrow> entries_ok FE"
  by (simp add: kinv_def geometry_ok_def)

lemma kinv_pc:
  assumes "kinv R cor FE k" "s < length (k_heap k)" "k_fetch k ! s = (ft, p)" "p \<noteq> FGone" "p' \<noteq> FGone"
    and "pc_ok R (cached (k_cache k)) (byte_at (k_cache k)) (k_heap k ! s) (IsCompressed ft) p'" "fetching p' \<longrightarrow> fetching p"
  shows "kinv R cor FE (set_pc s p' k)"
  using chunks_inv_pc [OF _ assms(2-7)] assms(1,3) by (simp add: kinv_def chunk_simps)

lemma kinv_session:
  assumes "kinv R cor FE k" "s < length (k_heap k)" "k_fetch k ! s = (ft, p)" "p \<noteq> FGone" "p' \<noteq> FGone"
    and "fs_chunkOff (f (k_heap k ! s)) = fs_chunkOff (k_heap k ! s)" "fs_chunkLen (f (k_heap k ! s)) = fs_chunkLen (k_heap k ! s)"
    and "sess_ok cor FE (c_blockSize (k_cache k)) (c_size (k_cache k)) (cached (k_cache k)) (f (k_heap k ! s)) (IsCompressed ft)"
    and "pc_ok R (cached (k_cache k)) (byte_at (k_cache k)) (f (k_heap k ! s)) (IsCompressed ft) p'"
    and "\<forall>x. is_ready (f (k_heap k ! s)) x \<longrightarrow> R x (byte_at (k_cache k) x)" "fetching p' \<longrightarrow> fetching p"
  shows "kinv R cor FE (set_pc s p' (on_session s f k))"
  using chunks_inv_session [OF _ assms(2-11)] assms(1,3) by (simp add: kinv_def chunk_simps)

lemma kinv_sess:
  assumes "kinv R cor FE k" "s < length (k_heap k)" "k_fetch k ! s = (ft, p)"
  shows "sess_ok cor FE (c_blockSize (k_cache k)) (c_size (k_cache k)) (cached (k_cache k)) (k_heap k ! s) (IsCompressed ft)"
    "pc_ok R (cached (k_cache k)) (byte_at (k_cache k)) (k_heap k ! s) (IsCompressed ft) p"
    "\<And>x. is_ready (k_heap k ! s) x \<Longrightarrow> R x (byte_at (k_cache k) x)"
    "chunk_ok cor FE (c_blockSize (k_cache k)) (c_size (k_cache k)) (fs_chunkOff (k_heap k ! s)) (fs_chunkLen (k_heap k ! s)) (IsCompressed ft)"
    "length (k_fetch k) = length (k_heap k)"
proof -
  have "chunks_inv R cor FE (c_blockSize (k_cache k)) (c_size (k_cache k)) (cached (k_cache k)) (byte_at (k_cache k))
      (k_sessions k) (k_heap k) (k_fetch k)" using assms(1) by (simp add: kinv_def)
  note cs = chunks_inv_sess [OF this assms(2,3)]
  show "sess_ok cor FE (c_blockSize (k_cache k)) (c_size (k_cache k)) (cached (k_cache k)) (k_heap k ! s) (IsCompressed ft)"
    "pc_ok R (cached (k_cache k)) (byte_at (k_cache k)) (k_heap k ! s) (IsCompressed ft) p"
    "\<And>x. is_ready (k_heap k ! s) x \<Longrightarrow> R x (byte_at (k_cache k) x)"
    "chunk_ok cor FE (c_blockSize (k_cache k)) (c_size (k_cache k)) (fs_chunkOff (k_heap k ! s)) (fs_chunkLen (k_heap k ! s)) (IsCompressed ft)"
    "length (k_fetch k) = length (k_heap k)"
    using cs by blast+
qed

lemma kinv_write:
  assumes inv: "kinv R cor FE k" and s: "s < length (k_heap k)" "k_fetch k ! s = (ft, FRead d)"
    and len: "int (length d) + int (length b) \<le> fs_chunkLen (k_heap k ! s)"
    and up: "\<And>i. i < length b \<Longrightarrow> R (fs_chunkOff (k_heap k ! s) + int (length d) + int i) (b ! i) \<or>
      IsCompressed ft \<and> cor (fs_chunkOff (k_heap k ! s) + int (length d) + int i)"
    and p': "p' = FAdvance (d @ b) e \<and> \<not> IsCompressed ft \<or> p' = FRead (d @ b) \<or> p' = FClose (d @ b) (Some er)"
  shows "kinv R cor FE (set_pc s p' (write_mmap (fs_chunkOff (k_heap k ! s) + int (length d)) b k))"
proof -
  let ?off = "fs_chunkOff (k_heap k ! s) + int (length d)"
  note ses = kinv_sess [OF inv s]
  have r: "chunk_cache_ok (k_cache k)" "0 \<le> ?off" "?off + int (length b) \<le> c_size (k_cache k)"
    using inv ses(4) len by (auto simp: kinv_def chunk_ok_def)
  obtain m where m: "c_mmap (k_cache k) = Some m" "int (length m) = c_size (k_cache k)"
    using r(1) by (auto simp: chunk_cache_ok_def)
  have "chunks_inv R cor FE (c_blockSize (k_cache k)) (c_size (k_cache k)) (cached (k_cache k))
      (byte_at (k_cache (write_mmap ?off b k))) (k_sessions k) (k_heap k) ((k_fetch k)[s := (ft, p')])"
  proof (rule chunks_inv_write [OF _ kinv_geometry [OF inv] s len _ _ p'])
    show "R (?off + int i) (b ! i) \<or> IsCompressed ft \<and> cor (?off + int i)" if "i < length b" for i
      using up [OF that] .
    show "byte_at (k_cache (write_mmap ?off b k)) x = (if ?off \<le> x \<and> x < ?off + int (length b)
        then b ! nat (x - fs_chunkOff (k_heap k ! s) - int (length d)) else byte_at (k_cache k) x)" for x
      unfolding byte_at_write [OF r] by (simp only: diff_diff_add)
  qed (use inv in \<open>simp add: kinv_def\<close>)
  then show ?thesis using inv s(2) m r by (simp add: kinv_def chunk_cache_ok_def cached_def chunk_simps)
qed

lemma kinv_mark:
  assumes inv: "kinv R cor FE k" and s: "s < length (k_heap k)" "k_fetch k ! s = (ft, FCached)"
  shows "kinv R cor FE (set_pc s FDone
    (k\<lparr>k_cache := setIsCached ops (k_cache k) (fs_chunkOff (k_heap k ! s)) (fs_chunkLen (k_heap k ! s))\<rparr>))"
proof -
  let ?c = "setIsCached ops (k_cache k) (fs_chunkOff (k_heap k ! s)) (fs_chunkLen (k_heap k ! s))"
  note ses = kinv_sess [OF inv s]
  have ck: "chunk_cache_ok (k_cache k)" "tracker_ok (c_tracker (k_cache k))" "k_size k = c_size (k_cache k)"
    using inv by (simp_all add: kinv_def)
  have c: "0 \<le> fs_chunkOff (k_heap k ! s)" "0 < fs_chunkLen (k_heap k ! s)" "chunk_end (k_heap k ! s) \<le> c_size (k_cache k)"
    "c_blockSize (k_cache k) dvd fs_chunkOff (k_heap k ! s)"
    "c_blockSize (k_cache k) dvd chunk_end (k_heap k ! s) \<or> chunk_end (k_heap k ! s) = c_size (k_cache k)"
    using ses(4) ck(3) by (auto simp: chunk_ok_def)
  note sp = setIsCached_spec [OF ck(1,2) c]
  have "chunks_inv R cor FE (c_blockSize (k_cache k)) (c_size (k_cache k)) (cached ?c) (byte_at (k_cache k))
      (k_sessions k) (k_heap k) ((k_fetch k)[s := (ft, FDone)])"
  proof (rule chunks_inv_mark [OF _ kinv_geometry [OF inv] s])
    show "\<forall>e \<in> set FE. 0 \<le> StartU e \<and> StartU e + SizeU e \<le> c_size (k_cache k)"
      using inv geometry_frame unfolding kinv_def geometry_ok_def by blast
  qed (use inv sp(2) in \<open>simp_all add: kinv_def\<close>)
  then show ?thesis using inv s(2) sp(1) by (simp add: kinv_def chunk_cache_ok_def chunk_simps)
qed

lemma kinv_release:
  assumes "kinv R cor FE k" "s < length (k_heap k)" "k_fetch k ! s = (ft, FRelease)"
  shows "kinv R cor FE (set_pc s FGone (releaseSession k s))"
  using chunks_inv_release [OF _ assms(2,3)] assms(1,3) by (simp add: kinv_def releaseSession_def chunk_simps)

end

text \<open>The invariant is about an environment that delivers \<open>content\<close> with damage at \<open>corrupt\<close>.\<close>

definition env_fits :: "(int \<Rightarrow> byte) \<Rightarrow> (int \<Rightarrow> bool) \<Rightarrow> (int \<Rightarrow> byte \<Rightarrow> bool) \<Rightarrow> (int \<Rightarrow> bool) \<Rightarrow> bool" where
  "env_fits content corrupt R cor \<longleftrightarrow> (\<forall>x. R x (content x)) \<and> (\<forall>x v. corrupt x \<longrightarrow> cor x \<or> R x v)"

lemma upstream_fits:
  "env_fits content corrupt R cor \<Longrightarrow> upstream_delivers content corrupt ft off b \<Longrightarrow> i < length b \<Longrightarrow>
   R (off + int i) (b ! i) \<or> IsCompressed ft \<and> cor (off + int i)"
  unfolding env_fits_def upstream_delivers_def by metis

context roaring_bitmap
begin

definition claimed :: "'b Chunker \<Rightarrow> int \<Rightarrow> bool" where
  "claimed k x \<longleftrightarrow> cached (k_cache k) x \<or> (\<exists>s < length (k_heap k). is_ready (k_heap k ! s) x)"

lemma claimed_right:
  assumes "kinv R cor FE k" "claimed k x" "0 \<le> x" "x < c_size (k_cache k)"
  shows "R x (byte_at (k_cache k) x)"
  using assms by (auto simp: kinv_def chunks_inv_def claimed_def sessions_ok_def)

text \<open>What a step of a fetch keeps: the invariant, the shape, and every claim.\<close>

definition keeps :: "'b Chunker \<Rightarrow> 'b Chunker \<Rightarrow> bool" where
  "keeps k k' \<longleftrightarrow> k_size k' = k_size k \<and> c_size (k_cache k') = c_size (k_cache k) \<and>
     c_blockSize (k_cache k') = c_blockSize (k_cache k) \<and> length (k_heap k) \<le> length (k_heap k') \<and>
     (\<forall>s < length (k_heap k). fs_chunkOff (k_heap k' ! s) = fs_chunkOff (k_heap k ! s) \<and> fs_chunkLen (k_heap k' ! s) = fs_chunkLen (k_heap k ! s)) \<and>
     (\<forall>x. 0 \<le> x \<and> x < c_size (k_cache k) \<and> claimed k x \<longrightarrow> claimed k' x)"

lemma keeps_refl: "keeps k k" by (simp add: keeps_def)

lemma keeps_pc: "keeps k k' \<Longrightarrow> keeps k (set_pc s p k')"
  by (simp add: keeps_def claimed_def chunk_simps)

lemma keeps_session:
  assumes "s < length (k_heap k)" "fs_chunkOff (f (k_heap k ! s)) = fs_chunkOff (k_heap k ! s)"
    "fs_chunkLen (f (k_heap k ! s)) = fs_chunkLen (k_heap k ! s)" "fs_bytesReady (k_heap k ! s) \<le> fs_bytesReady (f (k_heap k ! s))"
  shows "keeps k (on_session s f k)"
proof -
  have "claimed (on_session s f k) x" if x: "claimed k x" for x
  proof (cases "cached (k_cache k) x")
    case False
    then obtain t where t: "t < length (k_heap k)" "is_ready (k_heap k ! t) x" using x by (auto simp: claimed_def)
    then have "is_ready (k_heap (on_session s f k) ! t) x" using assms by (cases "t = s") (auto simp: chunk_simps)
    then show ?thesis using t(1) by (auto simp: claimed_def chunk_simps)
  qed (simp add: claimed_def chunk_simps)
  moreover have "fs_chunkOff (k_heap (on_session s f k) ! t) = fs_chunkOff (k_heap k ! t) \<and>
      fs_chunkLen (k_heap (on_session s f k) ! t) = fs_chunkLen (k_heap k ! t)" for t
    using assms by (cases "t = s") (auto simp: chunk_simps)
  ultimately show ?thesis by (simp add: keeps_def chunk_simps)
qed

lemma step_pc:
  assumes "kinv R cor FE k" "s < length (k_heap k)" "k_fetch k ! s = (ft, p)" "p \<noteq> FGone" "p' \<noteq> FGone"
    and "pc_ok R (cached (k_cache k)) (byte_at (k_cache k)) (k_heap k ! s) (IsCompressed ft) p \<Longrightarrow>
      pc_ok R (cached (k_cache k)) (byte_at (k_cache k)) (k_heap k ! s) (IsCompressed ft) p'"
    and "fetching p' \<longrightarrow> fetching p"
  shows "kinv R cor FE (set_pc s p' k) \<and> keeps k (set_pc s p' k)"
  using kinv_pc [OF assms(1-5) assms(6) [OF kinv_sess(2) [OF assms(1-3)]] assms(7)] keeps_pc [OF keeps_refl] by blast

lemma fetch_step_keeps:
  assumes "fetch_step content corrupt ops readBatch free k s k' bc" "kinv R cor FE k" "s < length (k_heap k)"
    and env: "env_fits content corrupt R cor"
  shows "kinv R cor FE k' \<and> keeps k k'"
  using assms(1)
proof cases
  case (address_fails ft e)
  show ?thesis unfolding address_fails(1) by (rule step_pc [OF assms(2,3) address_fails(3)]) (use address_fails in \<open>auto simp: delivered_def\<close>)
next
  case (address_ok ft b)
  show ?thesis unfolding address_ok(1) by (rule step_pc [OF assms(2,3) address_ok(3)]) (use address_ok in \<open>auto simp: delivered_def\<close>)
next
  case (open_fails ft e)
  show ?thesis unfolding open_fails(1) by (rule step_pc [OF assms(2,3) open_fails(3)]) (use open_fails in \<open>auto simp: delivered_def\<close>)
next
  case (open_ok ft)
  show ?thesis unfolding open_ok(1) by (rule step_pc [OF assms(2,3) open_ok(3)]) (use open_ok in \<open>auto simp: delivered_def\<close>)
next
  case (all_read ft d)
  show ?thesis unfolding all_read(1) by (rule step_pc [OF assms(2,3) all_read(3)]) (use all_read in \<open>auto simp: delivered_def\<close>)
next
  case (close_fails ft d e)
  show ?thesis unfolding close_fails(1) by (rule step_pc [OF assms(2,3) close_fails(3)]) (use close_fails in \<open>auto simp: delivered_def\<close>)
next
  case (close_after_error ft d e)
  show ?thesis unfolding close_after_error(1) by (rule step_pc [OF assms(2,3) close_after_error(3)]) (use close_after_error in \<open>auto simp: delivered_def\<close>)
next
  case (close_ok ft d)
  let ?ses = "k_heap k ! s"
  have d: "delivered R (byte_at (k_cache k)) ?ses (IsCompressed ft) d" "int (length d) = fs_chunkLen ?ses"
    using kinv_sess(2) [OF assms(2,3) close_ok(3)] by auto
  have "R x (byte_at (k_cache k) x)" if x: "in_chunk ?ses x" for x
  proof -
    define i where "i = nat (x - fs_chunkOff ?ses)"
    have i: "i < length d" "fs_chunkOff ?ses + int i = x" using x d(2) by (auto simp: i_def)
    then have "IsCompressed ft \<longrightarrow> R x (d ! i)" using close_ok(4) env by (auto simp: frame_verified_def env_fits_def)
    then show ?thesis using d(1) i unfolding delivered_def by (metis (full_types))
  qed
  then have "pc_ok R (cached (k_cache k)) (byte_at (k_cache k)) ?ses (IsCompressed ft) FCached"
    using d(1) by (auto simp: delivered_def split: if_splits)
  then show ?thesis using kinv_pc [OF assms(2,3) close_ok(3)] keeps_pc [OF keeps_refl] close_ok(1) by simp
next
  case (broadcast ft)
  show ?thesis unfolding broadcast(1) by (rule step_pc [OF assms(2,3) broadcast(3)]) (use broadcast in \<open>auto simp: delivered_def\<close>)
next
  case (panics ft p d e)
  show ?thesis unfolding panics(1) by (rule step_pc [OF assms(2,3) panics(3)]) (use panics in \<open>auto simp: delivered_def\<close>)
next
  case (deferred_broadcast ft)
  show ?thesis unfolding deferred_broadcast(1) by (rule step_pc [OF assms(2,3) deferred_broadcast(3)]) (use deferred_broadcast in \<open>auto simp: delivered_def\<close>)
next
  case (mark_cached ft)
  have "keeps k (k\<lparr>k_cache := setIsCached ops (k_cache k) (fs_chunkOff (k_heap k ! s)) (fs_chunkLen (k_heap k ! s))\<rparr>)"
  proof -
    have c: "chunk_cache_ok (k_cache k)" "tracker_ok (c_tracker (k_cache k))" using assms(2) by (simp_all add: kinv_def)
    show ?thesis
      using setIsCached_spec(2) [OF c] kinv_sess(4) [OF assms(2,3) mark_cached(3)]
      by (auto simp: keeps_def claimed_def chunk_ok_def)
  qed
  then show ?thesis using kinv_mark [OF assms(2,3) mark_cached(3)] mark_cached(1) keeps_pc by simp
next
  case (read_batch ft d want b e)
  let ?off = "fs_chunkOff (k_heap k ! s) + int (length d)"
  let ?p = "if b \<noteq> [] \<and> \<not> IsCompressed ft then FAdvance (d @ b) e else after_read (d @ b) e"
  have "?p = FAdvance (d @ b) e \<and> \<not> IsCompressed ft \<or> ?p = FRead (d @ b) \<or> ?p = FClose (d @ b) (Some (the e))"
    by (auto simp: after_read_def split: option.split)
  moreover have "int (length d) + int (length b) \<le> fs_chunkLen (k_heap k ! s)" using read_batch(5,7) by linarith
  ultimately have "kinv R cor FE (set_pc s ?p (write_mmap ?off b k))"
    using kinv_write [OF assms(2,3) read_batch(3) _ upstream_fits [OF env read_batch(9)]] by blast
  moreover have "keeps k (write_mmap ?off b k)" by (simp add: keeps_def claimed_def chunk_simps)
  ultimately show ?thesis using read_batch(1) keeps_pc by simp
next
  case (publish_progress ft d e)
  note ses = kinv_sess [OF assms(2,3) publish_progress(3)]
  let ?f = "advance (int (length d))"
  have d: "delivered R (byte_at (k_cache k)) (k_heap k ! s) False d" "\<not> IsCompressed ft"
    using ses(2) by auto
  then have d': "delivered R (byte_at (k_cache k)) (?f (k_heap k ! s)) False d"
    by (simp add: delivered_def advance_def)
  have "kinv R cor FE (set_pc s (after_read d e) (on_session s ?f k))"
  proof (rule kinv_session [OF assms(2,3) publish_progress(3)])
    show "sess_ok cor FE (c_blockSize (k_cache k)) (c_size (k_cache k)) (cached (k_cache k)) (?f (k_heap k ! s)) (IsCompressed ft)"
      using ses(1) d by (simp add: sess_ok_def advance_def delivered_def)
    show "pc_ok R (cached (k_cache k)) (byte_at (k_cache k)) (?f (k_heap k ! s)) (IsCompressed ft) (after_read d e)"
      using d' d(2) by (simp add: after_read_def split: option.split)
    show "\<forall>x. is_ready (?f (k_heap k ! s)) x \<longrightarrow> R x (byte_at (k_cache k) x)"
    proof (intro allI impI)
      fix x assume x: "is_ready (?f (k_heap k ! s)) x"
      then have "nat (x - fs_chunkOff (k_heap k ! s)) < length d" "fs_chunkOff (k_heap k ! s) + int (nat (x - fs_chunkOff (k_heap k ! s))) = x"
        by (auto simp: advance_def)
      then show "R x (byte_at (k_cache k) x)" using d(1) unfolding delivered_def by (metis (full_types))
    qed
  qed (auto simp: advance_def after_read_def split: option.split)
  moreover have "keeps k (on_session s ?f k)"
    using assms(3) d by (intro keeps_session) (simp_all add: advance_def delivered_def)
  ultimately show ?thesis using publish_progress(1) keeps_pc by simp
next
  case (set_done ft)
  note ses = kinv_sess [OF assms(2,3) set_done(3)]
  have "kinv R cor FE (set_pc s FBroadcast (on_session s setDone k))"
    using ses(1,2) by (intro kinv_session [OF assms(2,3) set_done(3)]) (auto simp: setDone_def sess_ok_def)
  moreover have "keeps k (on_session s setDone k)"
    using assms(3) ses(1) by (intro keeps_session) (simp_all add: setDone_def sess_ok_def)
  ultimately show ?thesis using set_done(1) keeps_pc by simp
next
  case (failed ft e)
  note ses = kinv_sess [OF assms(2,3) failed(3)]
  have "kinv R cor FE (set_pc s FBroadcast (on_session s (fail e) k))"
    using ses(1,3) by (intro kinv_session [OF assms(2,3) failed(3)]) (auto simp: fail_def sess_ok_def)
  moreover have "keeps k (on_session s (fail e) k)"
    using assms(3) by (intro keeps_session) (simp_all add: fail_def)
  ultimately show ?thesis using failed(1) keeps_pc by simp
next
  case (deferred ft e)
  note ses = kinv_sess [OF assms(2,3) deferred(3)]
  have "kinv R cor FE (set_pc s FWake (on_session s (failIfRunning e) k))"
    using ses(1,3) by (intro kinv_session [OF assms(2,3) deferred(3)]) (auto simp: failIfRunning_def sess_ok_def)
  moreover have "keeps k (on_session s (failIfRunning e) k)"
    using assms(3) by (intro keeps_session) (simp_all add: failIfRunning_def)
  ultimately show ?thesis using deferred(1) keeps_pc by simp
next
  case (release ft)
  have "keeps k (releaseSession k s)" by (simp add: keeps_def claimed_def releaseSession_def)
  then show ?thesis using kinv_release [OF assms(2,3) release(3)] release(1) keeps_pc by simp
qed

end

section \<open>What a client has seen so far\<close>

definition all_right :: "(int \<Rightarrow> byte \<Rightarrow> bool) \<Rightarrow> client \<Rightarrow> bytes \<Rightarrow> bool" where
  "all_right R c b \<longleftrightarrow> length b = nat (cl_len c) \<and> (\<forall>i < length b. R (cl_off c + int i) (b ! i))"

lemma all_right_upd [simp]:
  "all_right R (c\<lparr>cl_pc := p\<rparr>) = all_right R c" "all_right R (c\<lparr>cl_fired := f\<rparr>) = all_right R c"
  "all_right R (c\<lparr>cl_cancelled := f\<rparr>) = all_right R c"
  by (simp_all add: all_right_def fun_eq_iff)

context roaring_bitmap
begin

definition client_ok :: "(int \<Rightarrow> bool) \<Rightarrow> frameEntry list \<Rightarrow> 'b Chunker \<Rightarrow> client \<Rightarrow> bool" where
  "client_ok cor FE k c \<longleftrightarrow> 0 \<le> cl_off c \<and> 0 < cl_len c \<and> cl_off c + cl_len c \<le> c_size (k_cache k) \<and> table_ok FE (cl_ft c) \<and>
     (\<forall>x. cl_off c \<le> x \<and> x < cl_off c + cl_len c \<longrightarrow> chunk_intact cor (cl_ft c) x)"

definition seen :: "'b Chunker \<Rightarrow> client \<Rightarrow> int \<Rightarrow> bool" where
  "seen k c x \<longleftrightarrow> (\<forall>y. cl_off c \<le> y \<and> y < cl_off c + cl_len c \<and> y < x \<longrightarrow> claimed k y)"

text \<open>The blocks from \<open>b\<close> to \<open>e\<close> of session \<open>s\<close> are still to be waited for, up to the end \<open>next\<close> of the
  client's own chunk.\<close>

definition block_ok :: "'b Chunker \<Rightarrow> client \<Rightarrow> int \<Rightarrow> int \<Rightarrow> int \<Rightarrow> nat \<Rightarrow> bool" where
  "block_ok k c b e next s \<longleftrightarrow> s < length (k_heap k) \<and> c_blockSize (k_cache k) dvd b \<and> c_blockSize (k_cache k) dvd e \<and>
     fs_chunkOff (k_heap k ! s) \<le> b \<and> next \<le> chunk_end (k_heap k ! s) \<and>
     min (cl_off c + cl_len c) next \<le> e + c_blockSize (k_cache k) \<and> cl_off c \<le> next \<and> seen k c (min b next)"

fun seen_ok :: "(int \<Rightarrow> byte \<Rightarrow> bool) \<Rightarrow> 'b Chunker \<Rightarrow> client \<Rightarrow> client_pc \<Rightarrow> bool" where
  "seen_ok R k c CTry = True"
| "seen_ok R k c (CLoop cur) = (cl_off c \<le> cur \<and> seen k c cur)"
| "seen_ok R k c (CSession b e n s) = block_ok k c b e n s"
| "seen_ok R k c (CBlock b e n s) = block_ok k c b e n s"
| "seen_ok R k c (CLock b e n s) = (block_ok k c b e n s \<and> b < chunk_end (k_heap k ! s) \<and> b \<le> e)"
| "seen_ok R k c (CPark b e n s) = (block_ok k c b e n s \<and> b < chunk_end (k_heap k ! s) \<and> b \<le> e)"
| "seen_ok R k c (CWait b e n s) = (block_ok k c b e n s \<and> b < chunk_end (k_heap k ! s) \<and> b \<le> e)"
| "seen_ok R k c CDirect = seen k c (cl_off c + cl_len c)"
| "seen_ok R k c (CRet r) = (\<forall>b. r = Inr b \<longrightarrow> all_right R c b)"

definition cinv :: "(int \<Rightarrow> byte \<Rightarrow> bool) \<Rightarrow> (int \<Rightarrow> bool) \<Rightarrow> frameEntry list \<Rightarrow> 'b Chunker \<Rightarrow> client \<Rightarrow> bool" where
  "cinv R cor FE k c \<longleftrightarrow> client_ok cor FE k c \<and> seen_ok R k c (cl_pc c)"

lemma seen_keeps: "client_ok cor FE k c \<Longrightarrow> keeps k k' \<Longrightarrow> seen k c x \<Longrightarrow> seen k' c x"
  by (auto simp: seen_def keeps_def client_ok_def)

lemma block_ok_keeps: "client_ok cor FE k c \<Longrightarrow> keeps k k' \<Longrightarrow> block_ok k c b e n s \<Longrightarrow> block_ok k' c b e n s"
  using seen_keeps by (auto simp: block_ok_def keeps_def)

lemma cinv_keeps:
  assumes "cinv R cor FE k c" "keeps k k'"
  shows "cinv R cor FE k' c"
proof -
  have ok: "client_ok cor FE k c" "seen_ok R k c (cl_pc c)" using assms(1) by (simp_all add: cinv_def)
  have "client_ok cor FE k' c" using ok(1) assms(2) by (simp add: client_ok_def keeps_def)
  moreover have "seen_ok R k' c (cl_pc c)"
    using ok(2) seen_keeps [OF ok(1) assms(2)] block_ok_keeps [OF ok(1) assms(2)] assms(2)
    by (cases "cl_pc c") (auto simp: block_ok_def keeps_def)
  ultimately show ?thesis by (simp add: cinv_def)
qed

lemma seen_upd [simp]:
  "seen k (c\<lparr>cl_pc := p\<rparr>) = seen k c" "seen k (c\<lparr>cl_fired := f\<rparr>) = seen k c" "seen k (c\<lparr>cl_cancelled := f\<rparr>) = seen k c"
  "client_ok cor FE k (c\<lparr>cl_pc := p\<rparr>) = client_ok cor FE k c" "client_ok cor FE k (c\<lparr>cl_fired := f\<rparr>) = client_ok cor FE k c"
  "client_ok cor FE k (c\<lparr>cl_cancelled := f\<rparr>) = client_ok cor FE k c"
  by (simp_all add: seen_def client_ok_def fun_eq_iff)

lemma block_ok_upd [simp]:
  "block_ok k (c\<lparr>cl_pc := p\<rparr>) = block_ok k c" "block_ok k (c\<lparr>cl_fired := f\<rparr>) = block_ok k c"
  "block_ok k (c\<lparr>cl_cancelled := f\<rparr>) = block_ok k c"
  by (simp_all add: block_ok_def fun_eq_iff)

lemma seen_ok_upd [simp]:
  "seen_ok R k (c\<lparr>cl_pc := p\<rparr>) q = seen_ok R k c q" "seen_ok R k (c\<lparr>cl_fired := f\<rparr>) q = seen_ok R k c q"
  "seen_ok R k (c\<lparr>cl_cancelled := f\<rparr>) q = seen_ok R k c q"
  by (cases q; simp)+

lemma cl_end_eq: "kinv R cor FE k \<Longrightarrow> client_ok cor FE k c \<Longrightarrow> cl_end c = cl_off c + cl_len c"
  by (intro i64_id) (auto simp: kinv_def client_ok_def chunk_cache_ok_def)

text \<open>What is claimed is read correctly.\<close>

lemma slice_right:
  assumes "kinv R cor FE k" "client_ok cor FE k c" "seen k c (cl_off c + cl_len c)" "c_mmap (k_cache k) = Some m"
  shows "\<exists>b. go_slice m (cl_off c) (min (cl_end c) (c_size (k_cache k))) = Inr b \<and> all_right R c b"
proof -
  have c: "0 \<le> cl_off c" "0 < cl_len c" "cl_off c + cl_len c \<le> c_size (k_cache k)" using assms(2) by (simp_all add: client_ok_def)
  have m: "int (length m) = c_size (k_cache k)" using assms(1,4) by (auto simp: kinv_def chunk_cache_ok_def)
  have "R (cl_off c + int i) (sub m (cl_off c) (cl_off c + cl_len c) ! i)" if "i < nat (cl_len c)" for i
  proof -
    have "claimed k (cl_off c + int i)" using assms(3) that by (simp add: seen_def)
    then have "R (cl_off c + int i) (byte_at (k_cache k) (cl_off c + int i))"
      using claimed_right [OF assms(1)] c that by simp
    moreover have "nat (cl_off c + int i) = nat (cl_off c) + i" "cl_off c + int i < c_size (k_cache k)" using c that by simp_all
    ultimately show ?thesis using c m that assms(4) by (simp add: byte_at_def)
  qed
  then have "all_right R c (sub m (cl_off c) (cl_off c + cl_len c))"
    using c m by (simp add: all_right_def)
  then show ?thesis using c m by (simp add: cl_end_eq [OF assms(1,2)] go_slice_def)
qed

end

context roaring_bitmap
begin

lemma getOrCreateSession_ok:
  assumes inv: "kinv R cor FE k" and ck: "chunk_ok cor FE (c_blockSize (k_cache k)) (c_size (k_cache k)) off len (IsCompressed ft)"
    and g: "getOrCreateSession ops k off len ft = (k', r)"
  shows "kinv R cor FE k'" "keeps k k'" "r = None \<Longrightarrow> k' = k \<and> (\<forall>x. off \<le> x \<and> x < off + len \<longrightarrow> claimed k x)"
    "r = Some s \<Longrightarrow> s < length (k_heap k') \<and> contains (k_heap k' ! s) off len"
proof -
  have cc: "chunk_cache_ok (k_cache k)" "tracker_ok (c_tracker (k_cache k))" "c_size (k_cache k) \<le> max_i64"
    using inv by (auto simp: kinv_def chunk_cache_ok_def)
  have ic: "isCached ops (k_cache k) off len \<longleftrightarrow> (\<forall>x. off \<le> x \<and> x < off + len \<longrightarrow> cached (k_cache k) x)"
    using isCached_iff [OF cc(1,2), of off len] ck cc(3) by (simp add: chunk_ok_def min_def)
  have ls: "listed_ok (k_sessions k) (k_heap k) (k_fetch k)" using inv by (simp add: kinv_def chunks_inv_def)
  have "kinv R cor FE k' \<and> keeps k k' \<and> (r = None \<longrightarrow> k' = k \<and> (\<forall>x. off \<le> x \<and> x < off + len \<longrightarrow> claimed k x)) \<and>
    (\<forall>s. r = Some s \<longrightarrow> s < length (k_heap k') \<and> contains (k_heap k' ! s) off len)"
  proof (cases "find (\<lambda>i. contains (k_heap k ! i) off len) (k_sessions k)")
    case (Some i)
    then have "i \<in> set (k_sessions k)" "contains (k_heap k ! i) off len" by (auto simp: find_Some_iff)
    moreover have "k' = k" "r = Some i" using g Some by (simp_all add: getOrCreateSession_def)
    ultimately show ?thesis using inv keeps_refl ls by (simp add: listed_ok_def)
  next
    case None
    show ?thesis
    proof (cases "isCached ops (k_cache k) off len")
      case True
      then show ?thesis using g None inv keeps_refl ic by (auto simp: getOrCreateSession_def claimed_def)
    next
      case False
      let ?k = "k\<lparr>k_sessions := k_sessions k @ [length (k_heap k)], k_heap := k_heap k @ [newFetchSession off len],
                  k_fetch := k_fetch k @ [(ft, FAddress)]\<rparr>"
      have k': "k' = ?k" "r = Some (length (k_heap k))" using g None False by (simp_all add: getOrCreateSession_def)
      have "kinv R cor FE ?k"
        using chunks_inv_create [OF _ kinv_geometry [OF inv] ck] None False ic inv by (simp add: kinv_def find_None_iff)
      moreover have "keeps k ?k" by (auto simp: keeps_def claimed_def nth_append)
      ultimately show ?thesis using k' by (simp add: contains_def newFetchSession_def)
    qed
  qed
  then show "kinv R cor FE k'" "keeps k k'" "r = None \<Longrightarrow> k' = k \<and> (\<forall>x. off \<le> x \<and> x < off + len \<longrightarrow> claimed k x)"
    "r = Some s \<Longrightarrow> s < length (k_heap k') \<and> contains (k_heap k' ! s) off len" by auto
qed

lemma block_aligned:
  assumes "chunk_cache_ok (k_cache k)" "bs = c_blockSize (k_cache k)" "0 \<le> (x::int)"
  shows "bs dvd (x sdiv bs) * bs" "(x sdiv bs) * bs \<le> x" "x < (x sdiv bs) * bs + bs" "(x sdiv bs) * bs = x div bs * bs"
    "a \<le> x \<Longrightarrow> bs dvd a \<Longrightarrow> a \<le> (x sdiv bs) * bs"
proof -
  have bs: "0 < bs" using assms(1,2) by (simp add: chunk_cache_ok_def)
  show e: "(x sdiv bs) * bs = x div bs * bs" using assms(3) bs by (simp add: sdiv_nonneg)
  show "bs dvd (x sdiv bs) * bs" by simp
  show "(x sdiv bs) * bs \<le> x" "x < (x sdiv bs) * bs + bs"
    using div_mult_mod_eq [of x bs] pos_mod_bound [OF bs, of x] pos_mod_sign [OF bs, of x] unfolding e by linarith+
  assume "a \<le> x" "bs dvd a"
  then show "a \<le> (x sdiv bs) * bs" unfolding e
    using zdiv_mono1 [of a x bs] bs by (metis dvd_div_mult_self mult_right_mono less_imp_le)
qed

lemma loop_step:
  assumes inv: "kinv R cor FE k" and ok: "client_ok cor FE k c" "cl_off c \<le> cur" "seen k c cur" "cur < cl_off c + cl_len c"
    and loc: "locateChunk (k_size k) cur (cl_ft c) = Inr (off, len)"
    and g: "getOrCreateSession ops k off len (cl_ft c) = (k', r)"
  shows "kinv R cor FE k' \<and> keeps k k' \<and> cur < off + len \<and>
    (r = None \<longrightarrow> seen k' c (off + len)) \<and>
    (\<forall>s. r = Some s \<longrightarrow> block_ok k' c ((cur sdiv c_blockSize (k_cache k)) * c_blockSize (k_cache k))
       (((min (cl_off c + cl_len c) (off + len) - 1) sdiv c_blockSize (k_cache k)) * c_blockSize (k_cache k)) (off + len) s)"
proof -
  let ?bs = "c_blockSize (k_cache k)" and ?re = "min (cl_off c + cl_len c) (off + len)"
  have c: "0 \<le> cl_off c" "0 < cl_len c" "cl_off c + cl_len c \<le> c_size (k_cache k)" "table_ok FE (cl_ft c)"
    using ok(1) by (simp_all add: client_ok_def)
  have geo: "geometry_ok FE ?bs (c_size (k_cache k))" "k_size k = c_size (k_cache k)" "chunk_cache_ok (k_cache k)"
    using inv by (simp_all add: kinv_def)
  have cur: "0 \<le> cur" "cur < c_size (k_cache k)" using ok c by linarith+
  have "chunk_intact cor (cl_ft c) cur" using ok by (simp add: client_ok_def)
  note lc = locateChunk_ok [OF geo(1) c(4) cur loc [unfolded geo(2)] this]
  note gc = getOrCreateSession_ok [OF inv lc(1) g]
  have al: "?bs dvd off" using lc(1) by (simp add: chunk_ok_def)
  note bl = block_aligned [OF geo(3) refl cur(1)]
  have re: "0 \<le> ?re - 1" "cur \<le> ?re - 1" using lc(3) ok(4) cur(1) by linarith+
  note be = block_aligned [OF geo(3) refl re(1)]
  have s': "seen k' c (min (cur sdiv ?bs * ?bs) (off + len))"
    using seen_keeps [OF ok(1) gc(2) ok(3)] bl(2) by (auto simp: seen_def)
  have "block_ok k' c ((cur sdiv ?bs) * ?bs) (((?re - 1) sdiv ?bs) * ?bs) (off + len) s" if "r = Some s" for s
    using gc(4) [OF that] gc(2) bl(1) bl(5) [OF lc(2) al] be(1,3) s' ok(2) lc(3)
    by (auto simp: block_ok_def keeps_def contains_def)
  moreover have "seen k' c (off + len)" if "r = None"
  proof -
    have "claimed k y" if "cl_off c \<le> y" "y < cl_off c + cl_len c" "y < off + len" for y
      using gc(3) [OF \<open>r = None\<close>] ok(3) lc(2) that unfolding seen_def by (cases "y < cur") auto
    then show ?thesis using gc(3) [OF that] by (simp add: seen_def)
  qed
  ultimately show ?thesis using gc(1,2) lc(3) by blast
qed

end

context roaring_bitmap
begin

text \<open>A block that is ready, or cached, has been seen.\<close>

lemma block_seen:
  assumes inv: "kinv R cor FE k" and ok: "client_ok cor FE k c" "block_ok k c b e n s" "b < chunk_end (k_heap k ! s)"
    and rd: "fs_bytesReady (k_heap k ! s) \<ge> end_byte (c_blockSize (k_cache k)) (k_heap k ! s) b \<or> isCached ops (k_cache k) b (c_blockSize (k_cache k))"
  shows "block_ok k c (b + c_blockSize (k_cache k)) e n s"
proof -
  let ?bs = "c_blockSize (k_cache k)" and ?s = "k_heap k ! s"
  have s: "s < length (k_heap k)" "fs_chunkOff ?s \<le> b" "n \<le> chunk_end ?s" "seen k c (min b n)" "?bs dvd b"
    using ok(2) by (simp_all add: block_ok_def)
  have cc: "chunk_cache_ok (k_cache k)" "tracker_ok (c_tracker (k_cache k))" "0 < ?bs" "c_size (k_cache k) + ?bs \<le> max_i64"
    using inv by (auto simp: kinv_def chunk_cache_ok_def)
  obtain ft p where fp: "k_fetch k ! s = (ft, p)" by fastforce
  have ch: "0 \<le> fs_chunkOff ?s" "chunk_end ?s \<le> c_size (k_cache k)" using kinv_sess(4) [OF inv s(1) fp] by (simp_all add: chunk_ok_def)
  have "claimed k y" if y: "b \<le> y" "y < b + ?bs" "y < n" for y
    using rd
  proof
    assume "end_byte ?bs ?s b \<le> fs_bytesReady ?s"
    then have "is_ready ?s y" using y s by (auto simp: end_byte_def)
    then show ?thesis using s(1) by (auto simp: claimed_def)
  next
    assume i: "isCached ops (k_cache k) b ?bs"
    have b: "0 \<le> b" "b < c_size (k_cache k)" "b + ?bs \<le> max_i64" using s ch ok(3) cc(4) by linarith+
    have "cached (k_cache k) y" using isCached_iff [OF cc(1,2) b(1,2) cc(3) b(3)] i y s(3) ch(2) by simp
    then show ?thesis by (simp add: claimed_def)
  qed
  then have "claimed k y" if "cl_off c \<le> y" "y < cl_off c + cl_len c" "y < b + ?bs" "y < n" for y
    using s(4) that unfolding seen_def by (cases "y < b") auto
  then show ?thesis using ok(2) cc(3) by (auto simp: block_ok_def seen_def)
qed

lemma block_exit:
  assumes inv: "kinv R cor FE k" and ok: "block_ok k c b e n s" and ex: "b > e \<or> b \<ge> chunk_end (k_heap k ! s)"
  shows "seen k c n"
proof -
  let ?bs = "c_blockSize (k_cache k)"
  have bs: "0 < ?bs" using inv by (auto simp: kinv_def chunk_cache_ok_def)
  have "e < b \<Longrightarrow> e + ?bs \<le> b" using ok bs aligned_step [of ?bs e b] by (simp add: block_ok_def)
  then have "min (cl_off c + cl_len c) n \<le> b" using ok ex by (auto simp: block_ok_def)
  then show ?thesis using ok by (auto simp: block_ok_def seen_def)
qed

lemma session_fast:
  assumes inv: "kinv R cor FE k" and ok: "block_ok k c b e n s"
    and rd: "fs_bytesReady (k_heap k ! s) \<ge> min (e + c_blockSize (k_cache k)) (chunk_end (k_heap k ! s)) - fs_chunkOff (k_heap k ! s)"
  shows "seen k c n"
proof -
  have "claimed k y" if y: "cl_off c \<le> y" "y < cl_off c + cl_len c" "y < n" for y
  proof (cases "y < b")
    case False
    then have "is_ready (k_heap k ! s) y" using ok rd y by (auto simp: block_ok_def)
    then show ?thesis using ok by (auto simp: claimed_def block_ok_def)
  qed (use ok y in \<open>auto simp: block_ok_def seen_def\<close>)
  then show ?thesis by (simp add: seen_def)
qed

lemma client_step_keeps:
  assumes st: "client_step ops mf k c = Some (k', c')" and inv: "kinv R cor FE k" "cinv R cor FE k c"
  shows "kinv R cor FE k' \<and> keeps k k' \<and> cinv R cor FE k' c'"
proof -
  have ok: "client_ok cor FE k c" "seen_ok R k c (cl_pc c)" using inv(2) by (simp_all add: cinv_def)
  note en = cl_end_eq [OF inv(1) ok(1)]
  have cc: "chunk_cache_ok (k_cache k)" "tracker_ok (c_tracker (k_cache k))" "\<not> c_dirtyFile (k_cache k)" "c_size (k_cache k) \<le> max_i64"
    using inv(1) by (auto simp: kinv_def chunk_cache_ok_def)
  obtain m where m: "c_mmap (k_cache k) = Some m" using cc(1) by (auto simp: chunk_cache_ok_def)
  have same: "kinv R cor FE k' \<and> keeps k k' \<and> cinv R cor FE k' c'"
    if "k' = k" "cl_off c' = cl_off c" "cl_len c' = cl_len c" "cl_ft c' = cl_ft c" "seen_ok R k c' (cl_pc c')"
    using that inv(1) ok(1) keeps_refl by (simp add: cinv_def client_ok_def)
  show ?thesis
  proof (cases "cl_pc c")
    case CTry
    have "seen k c (cl_off c + cl_len c)" if "isCached ops (k_cache k) (cl_off c) (cl_len c)"
      using isCached_iff [OF cc(1,2), of "cl_off c" "cl_len c"] that ok(1) cc(4)
      by (auto simp: client_ok_def seen_def claimed_def)
    then have "all_right R c b" if "Cache_Slice ops (k_cache k) (cl_off c) (cl_len c) = Inr b" for b
      using slice_right [OF inv(1) ok(1) _ m] that m cc(3) by (auto simp: Cache_Slice_def split: if_splits)
    moreover have "seen k c (cl_off c)" by (auto simp: seen_def)
    ultimately show ?thesis
      using st CTry by (intro same) (auto simp: client_step_def Let_def split: sum.splits if_splits)
  next
    case (CLoop cur)
    have cu: "cl_off c \<le> cur" "seen k c cur" using ok(2) CLoop by simp_all
    show ?thesis
    proof (cases "cur < cl_off c + cl_len c")
      case True
      note lt = this
      show ?thesis
      proof (cases "locateChunk (k_size k) cur (cl_ft c)")
        case (Inl e)
        then show ?thesis using st CLoop lt en by (intro same) (auto simp: client_step_def Let_def)
      next
        case (Inr ol)
        obtain off len where ol: "ol = (off, len)" by fastforce
        obtain k2 r where g: "getOrCreateSession ops k off len (cl_ft c) = (k2, r)" by fastforce
        note ls = loop_step [OF inv(1) ok(1) cu lt Inr [unfolded ol] g]
        have ok2: "client_ok cor FE k2 c" using ok(1) ls by (simp add: client_ok_def keeps_def)
        show ?thesis
        proof (cases r)
          case None
          then have "k' = k2" "c' = c\<lparr>cl_pc := CLoop (off + len)\<rparr>"
            using st CLoop lt en Inr ol g by (simp_all add: client_step_def Let_def)
          then show ?thesis using ls None ok2 cu(1) by (simp add: cinv_def)
        next
          case (Some s)
          then have "k' = k2" "c' = c\<lparr>cl_pc := CSession ((cur sdiv c_blockSize (k_cache k)) * c_blockSize (k_cache k))
              (((min (cl_off c + cl_len c) (off + len) - 1) sdiv c_blockSize (k_cache k)) * c_blockSize (k_cache k)) (off + len) s\<rparr>"
            using st CLoop lt en Inr ol g by (simp_all add: client_step_def Let_def)
          then show ?thesis using ls Some ok2 by (simp add: cinv_def)
        qed
      qed
    next
      case False
      then show ?thesis using st CLoop en cu by (intro same) (auto simp: client_step_def Let_def seen_def)
    qed
  next
    case (CSession b e n s)
    then have bk: "block_ok k c b e n s" using ok(2) by simp
    show ?thesis
    proof (cases "fs_bytesReady (k_heap k ! s) \<ge> min (e + c_blockSize (k_cache k)) (chunk_end (k_heap k ! s)) - fs_chunkOff (k_heap k ! s)")
      case True
      then have "k' = k" "c' = c\<lparr>cl_pc := CLoop n\<rparr>" using st CSession by (simp_all add: client_step_def Let_def)
      then show ?thesis using session_fast [OF inv(1) bk True] bk by (intro same) (simp_all add: block_ok_def)
    next
      case False
      then have "k' = k" "c' = c\<lparr>cl_pc := CBlock b e n s\<rparr>" using st CSession by (simp_all add: client_step_def Let_def)
      then show ?thesis using bk by (intro same) simp_all
    qed
  next
    case (CBlock b e n s)
    then have bk: "block_ok k c b e n s" using ok(2) by simp
    show ?thesis
    proof (cases "b > e \<or> b \<ge> chunk_end (k_heap k ! s)")
      case True
      then show ?thesis using st CBlock bk block_exit [OF inv(1) bk]
        by (intro same) (auto simp: client_step_def Let_def block_ok_def)
    next
      case False
      then show ?thesis using st CBlock bk block_seen [OF inv(1) ok(1) bk]
        by (intro same) (auto simp: client_step_def register_check_def Let_def split: if_splits sum.splits bool.splits)
    qed
  next
    case (CLock b e n s)
    then have bk: "block_ok k c b e n s" "b < chunk_end (k_heap k ! s)" "b \<le> e" using ok(2) by simp_all
    then show ?thesis using st CLock block_seen [OF inv(1) ok(1) bk(1,2)]
      by (intro same) (auto simp: client_step_def wait_check_def Let_def split: if_splits option.splits)
  next
    case CDirect
    then have "all_right R c b" if "sliceDirect (k_cache k) (cl_off c) (cl_len c) = Inr b" for b
      using slice_right [OF inv(1) ok(1) _ m] ok(2) that m by (auto simp: sliceDirect_def split: if_splits)
    then show ?thesis using st CDirect by (intro same) (auto simp: client_step_def Let_def)
  next
    case (CPark b e n s)
    then have "k' = k" "c' = c\<lparr>cl_pc := CWait b e n s\<rparr>" using st by (simp_all add: client_step_def Let_def)
    then show ?thesis using ok(2) CPark by (intro same) simp_all
  qed (use st in \<open>simp_all add: client_step_def Let_def\<close>)
qed

end

end
