(* ===== verification/ChunkerRuns.thy ===== *)
theory ChunkerRuns
  imports Chunker
begin

text \<open>
  Runs of the chunker of \<open>Chunker\<close>: the step relation keeps the invariants, every run ends with all
  calls returned, and the properties of the component.
\<close>

section \<open>Runs\<close>

fun wait_ok :: "fetchSession list \<Rightarrow> (FrameTable option \<times> fetch_pc) list \<Rightarrow> client_pc \<Rightarrow> bool" where
  "wait_ok heap fs (CPark b e n s) = (\<not> fs_done (heap ! s))"
| "wait_ok heap fs (CWait b e n s) = (fs_done (heap ! s) \<longrightarrow> snd (fs ! s) = FBroadcast \<or> snd (fs ! s) = FWake)"
| "wait_ok heap fs p = True"

lemma wake_same [simp]:
  "cl_off (wake s c) = cl_off c" "cl_len (wake s c) = cl_len c" "cl_ft (wake s c) = cl_ft c"
  "cl_cancelled (wake s c) = cl_cancelled c" "cl_fired (wake s c) = cl_fired c"
  by (simp_all add: wake_def split: client_pc.split)

lemma wait_ok_wake: "wait_ok heap fs (cl_pc c) \<Longrightarrow> wait_ok heap fs (cl_pc (wake s c))"
  by (cases "cl_pc c") (auto simp: wake_def)

text \<open>A step of a fetch leaves a waiter of a finished session only where a broadcast follows.\<close>

lemma fetch_step_session:
  assumes "fetch_step content corrupt ops readBatch free k s k' bc"
  shows "length (k_heap k') = length (k_heap k)" "t \<noteq> s \<Longrightarrow> k_heap k' ! t = k_heap k ! t" "t \<noteq> s \<Longrightarrow> k_fetch k' ! t = k_fetch k ! t"
  using assms by (induction rule: fetch_step.induct) (simp_all add: chunk_simps releaseSession_def)

context roaring_bitmap
begin

lemma fetch_step_waiters:
  assumes st: "fetch_step content corrupt ops readBatch (mu_free cls s) k s k' bc" and inv: "kinv R cor FE k" "s < length (k_heap k)"
    and c: "c \<in> set cls" "wait_ok (k_heap k) (k_fetch k) (cl_pc c)"
  shows "wait_ok (k_heap k') (k_fetch k') (cl_pc (if bc then wake s c else c))"
proof -
  obtain ft p where p: "k_fetch k ! s = (ft, p)" by fastforce
  have pk: "pc_ok R (cached (k_cache k)) (byte_at (k_cache k)) (k_heap k ! s) (IsCompressed ft) p"
    "s < length (k_fetch k)" using kinv_sess [OF inv p] inv(2) by simp_all
  consider (park) b e n where "cl_pc c = CPark b e n s" | (wait) b e n where "cl_pc c = CWait b e n s"
    | (other) "\<forall>b e n. cl_pc c \<noteq> CPark b e n s \<and> cl_pc c \<noteq> CWait b e n s" by blast
  then show ?thesis
  proof cases
    case park
    then have nf: "\<not> mu_free cls s" unfolding mu_free_def using c(1) by (intro notI) (drule bspec, assumption, simp)
    from st have "fs_done (k_heap k' ! s) = fs_done (k_heap k ! s)"
      by (cases rule: fetch_step.cases) (use nf in \<open>simp_all add: chunk_simps releaseSession_def advance_def\<close>)
    then show ?thesis using c(2) park by (simp add: wake_def)
  next
    case wait
    show ?thesis
    proof (cases bc)
      case False
      from st have "fs_done (k_heap k' ! s) \<longrightarrow> snd (k_fetch k' ! s) = FBroadcast \<or> snd (k_fetch k' ! s) = FWake"
        by (cases rule: fetch_step.cases)
          (use pk c(2) wait p inv(2) False in \<open>auto simp: chunk_simps releaseSession_def delivered_def after_read_def split: option.splits\<close>)
      then show ?thesis using False wait by simp
    qed (use wait in \<open>simp add: wake_def\<close>)
  next
    case other
    then have "cl_pc (if bc then wake s c else c) = cl_pc c"
      by (cases "cl_pc c") (auto simp: wake_def)
    then show ?thesis using c(2) other fetch_step_session [OF st] by (cases "cl_pc c") auto
  qed
qed

definition winv :: "(int \<Rightarrow> byte \<Rightarrow> bool) \<Rightarrow> (int \<Rightarrow> bool) \<Rightarrow> frameEntry list \<Rightarrow> 'b world \<Rightarrow> bool" where
  "winv R cor FE w \<longleftrightarrow> kinv R cor FE (fst w) \<and>
     (\<forall>c \<in> set (snd w). cinv R cor FE (fst w) c \<and> wait_ok (k_heap (fst w)) (k_fetch (fst w)) (cl_pc c))"

lemma cinv_wake: "cinv R cor FE k c \<Longrightarrow> cinv R cor FE k (wake s c)"
  by (cases "cl_pc c") (auto simp: wake_def cinv_def)

lemma getOrCreate_prefix:
  assumes "getOrCreateSession ops k off len ft = (k', r)" "t < length (k_heap k)"
  shows "k_heap k' ! t = k_heap k ! t" "length (k_fetch k) = length (k_heap k) \<Longrightarrow> k_fetch k' ! t = k_fetch k ! t"
  using assms by (auto simp: getOrCreateSession_def nth_append split: option.splits if_splits)

lemma client_step_prefix:
  assumes "client_step ops mf k c = Some (k', c')" "t < length (k_heap k)"
  shows "k_heap k' ! t = k_heap k ! t" "length (k_fetch k) = length (k_heap k) \<Longrightarrow> k_fetch k' ! t = k_fetch k ! t"
  using assms getOrCreate_prefix [OF _ assms(2)]
  by (auto simp: client_step_def Let_def split: client_pc.splits sum.splits if_splits option.splits prod.splits bool.splits)

lemma client_step_wait:
  assumes "client_step ops mf k c = Some (k', c')" "wait_ok (k_heap k) (k_fetch k) (cl_pc c)"
  shows "wait_ok (k_heap k') (k_fetch k') (cl_pc c')"
  using assms
  by (auto simp: client_step_def Let_def wait_check_def split: client_pc.splits sum.splits if_splits option.splits prod.splits bool.splits)

lemma chunk_step_inv:
  assumes "chunk_step content corrupt ops readBatch w w'" "winv R cor FE w"
    and env: "env_fits content corrupt R cor"
  shows "winv R cor FE w'"
  using assms(1,2)
proof (induction rule: chunk_step.induct)
  case (client i cls k k' c')
  have inv: "kinv R cor FE k" "cinv R cor FE k (cls ! i)" "wait_ok (k_heap k) (k_fetch k) (cl_pc (cls ! i))"
    using client by (simp_all add: winv_def)
  note st = client_step_keeps [OF client(2) inv(1,2)]
  have l: "length (k_fetch k) = length (k_heap k)" using inv(1) by (simp add: kinv_def chunks_inv_def sessions_ok_def)
  have "cinv R cor FE k' c \<and> wait_ok (k_heap k') (k_fetch k') (cl_pc c)" if c: "c \<in> set (cls[i := c'])" for c
  proof (cases "c = c'")
    case True
    then show ?thesis using st client_step_wait [OF client(2) inv(3)] by simp
  next
    case False
    then have "c \<in> set cls" using c set_update_subset_insert [of cls i c'] by blast
    then have ok: "cinv R cor FE k c" "wait_ok (k_heap k) (k_fetch k) (cl_pc c)" using client(3) by (simp_all add: winv_def)
    have "wait_ok (k_heap k') (k_fetch k') (cl_pc c)"
      using ok client_step_prefix [OF client(2)] l by (cases "cl_pc c") (auto simp: cinv_def block_ok_def)
    then show ?thesis using cinv_keeps [OF ok(1)] st by blast
  qed
  then show ?case using st by (simp add: winv_def)
next
  case (cancel i cls k)
  then show ?case by (auto simp: winv_def cinv_def dest!: set_update_subset_insert [THEN subsetD])
next
  case (after_func i cls s k)
  have "cinv R cor FE k c \<and> wait_ok (k_heap k) (k_fetch k) (cl_pc c)" if "c \<in> set (cls[i := (cls ! i)\<lparr>cl_fired := True\<rparr>])" for c
    using that after_func by (auto simp: winv_def cinv_def dest!: set_update_subset_insert [THEN subsetD])
  then show ?case using after_func(5) cinv_wake wait_ok_wake by (auto simp: winv_def)
next
  case (fetch s k cls k' bc)
  have k: "kinv R cor FE k" using fetch(3) by (simp add: winv_def)
  note st = fetch_step_keeps [OF fetch(2) k fetch(1) env]
  have "cinv R cor FE k' (if bc then wake s c else c) \<and> wait_ok (k_heap k') (k_fetch k') (cl_pc (if bc then wake s c else c))" if "c \<in> set cls" for c
    using fetch(3) that cinv_keeps [of R cor FE k c k'] st cinv_wake fetch_step_waiters [OF fetch(2) k fetch(1) that] by (auto simp: winv_def)
  then show ?case using st by (auto simp: winv_def split: if_splits)
next
  case (close_cache k cls)
  have "keeps k (k\<lparr>k_cache := (k_cache k)\<lparr>c_closed := True\<rparr>\<rparr>)" by (simp add: keeps_def claimed_def)
  then show ?case using close_cache(3) cinv_keeps by (auto simp: winv_def kinv_def chunk_cache_ok_def)
qed

lemma chunk_steps_inv: "(chunk_step content corrupt ops readBatch)\<^sup>*\<^sup>* w w' \<Longrightarrow> winv R cor FE w \<Longrightarrow> env_fits content corrupt R cor \<Longrightarrow> winv R cor FE w'"
  by (induction rule: rtranclp_induct) (auto intro: chunk_step_inv)

end

section \<open>Every run ends\<close>

text \<open>What is left to do: for a client, by chunks and blocks; for a fetch, by the bytes not yet read; for
  a waiter, until it sleeps. A client that moves on may start a fetch, and a fetch may wake
  waiters, so the three are compared lexicographically.\<close>

definition blocks_left :: "int \<Rightarrow> int \<Rightarrow> int \<Rightarrow> nat" where
  "blocks_left bs b e = nat ((e - b) div bs + 1)"

fun client_left :: "int \<Rightarrow> int \<Rightarrow> int \<Rightarrow> client_pc \<Rightarrow> nat" where
  "client_left bs off en CTry = 6 * nat (en - off) + 4"
| "client_left bs off en (CLoop cur) = 6 * nat (en - cur) + 3"
| "client_left bs off en (CSession b e n s) = 6 * nat (en - n) + 5 + 2 * blocks_left bs b e"
| "client_left bs off en (CBlock b e n s) = 6 * nat (en - n) + 4 + 2 * blocks_left bs b e"
| "client_left bs off en (CLock b e n s) = 6 * nat (en - n) + 3 + 2 * blocks_left bs b e"
| "client_left bs off en (CPark b e n s) = 6 * nat (en - n) + 3 + 2 * blocks_left bs b e"
| "client_left bs off en (CWait b e n s) = 6 * nat (en - n) + 3 + 2 * blocks_left bs b e"
| "client_left bs off en CDirect = 1"
| "client_left bs off en (CRet r) = 0"

fun fetch_left :: "int \<Rightarrow> fetch_pc \<Rightarrow> nat" where
  "fetch_left len FAddress = 4 * nat len + 14"
| "fetch_left len FOpen = 4 * nat len + 13"
| "fetch_left len (FRead d) = 4 * nat (len - int (length d)) + 12"
| "fetch_left len (FAdvance d e) = 4 * nat (len - int (length d)) + 13"
| "fetch_left len (FClose d e) = 11"
| "fetch_left len FCached = 10"
| "fetch_left len FDone = 9"
| "fetch_left len (FFail e) = 9"
| "fetch_left len FBroadcast = 8"
| "fetch_left len (FDefer e) = 7"
| "fetch_left len FWake = 6"
| "fetch_left len FRelease = 5"
| "fetch_left len FGone = 0"

fun awake :: "client_pc \<Rightarrow> nat" where
  "awake (CLock b e n s) = 2" | "awake (CPark b e n s) = 1" | "awake p = 0"

definition left1 :: "'b world \<Rightarrow> nat" where
  "left1 w = (\<Sum>c \<leftarrow> snd w. client_left (c_blockSize (k_cache (fst w))) (cl_off c) (cl_off c + cl_len c) (cl_pc c) +
     (if cl_cancelled c then 0 else 1)) + (if c_closed (k_cache (fst w)) then 0 else 1)"

definition left2 :: "'b world \<Rightarrow> nat" where
  "left2 w = (\<Sum>s < length (k_heap (fst w)). fetch_left (fs_chunkLen (k_heap (fst w) ! s)) (snd (k_fetch (fst w) ! s))) +
     (\<Sum>c \<leftarrow> snd w. if cl_fired c then 0 else 1)"

definition left3 :: "'b world \<Rightarrow> nat" where
  "left3 w = (\<Sum>c \<leftarrow> snd w. awake (cl_pc c))"

lemma sum_list_upd:
  "i < length xs \<Longrightarrow> f x < (f (xs ! i) :: nat) \<Longrightarrow> (\<Sum>c \<leftarrow> xs[i := x]. f c) < (\<Sum>c \<leftarrow> xs. f c)"
  "i < length xs \<Longrightarrow> f x = (f (xs ! i) :: nat) \<Longrightarrow> (\<Sum>c \<leftarrow> xs[i := x]. f c) = (\<Sum>c \<leftarrow> xs. f c)"
  by (induction xs arbitrary: i) (auto simp: nth_Cons split: nat.splits)

lemma wake_left [simp]: "client_left bs off en (cl_pc (wake s c)) = client_left bs off en (cl_pc c)"
  by (cases "cl_pc c") (auto simp: wake_def)

lemma blocks_left_step: "0 < bs \<Longrightarrow> b \<le> e \<Longrightarrow> blocks_left bs b e = Suc (blocks_left bs (b + bs) e)"
proof -
  assume a: "0 < bs" "b \<le> e"
  have "(e - (b + bs)) div bs = (e - b) div bs - 1" using a(1) div_add_self2 [of bs "e - b - bs"] by (simp add: diff_diff_add [symmetric])
  moreover have "0 \<le> (e - b) div bs" using a by (simp add: pos_imp_zdiv_nonneg_iff)
  ultimately show ?thesis by (simp add: blocks_left_def)
qed

lemma blocks_left_range:
  assumes "0 < bs" "0 \<le> x" "x < y"
  shows "blocks_left bs ((x sdiv bs) * bs) (((y - 1) sdiv bs) * bs) \<le> nat (y - x)"
proof -
  have e: "(x sdiv bs) * bs = x div bs * bs" "((y - 1) sdiv bs) * bs = (y - 1) div bs * bs" using assms by (simp_all add: sdiv_nonneg)
  have "(y - 1) div bs - x div bs \<le> y - 1 - x"
  proof -
    have "(y - 1) div bs \<le> (x + (y - 1 - x) * bs) div bs"
    proof (intro zdiv_mono1)
      have "1 * (y - 1 - x) \<le> bs * (y - 1 - x)" using assms by (intro mult_right_mono) simp_all
      then show "y - 1 \<le> x + (y - 1 - x) * bs" by (simp add: mult.commute)
    qed (use assms in simp)
    also have "\<dots> = x div bs + (y - 1 - x)" using assms(1) by simp
    finally show ?thesis by simp
  qed
  moreover have "((y - 1) div bs * bs - x div bs * bs) div bs = (y - 1) div bs - x div bs"
    using assms(1) by (simp add: left_diff_distrib [symmetric])
  ultimately show ?thesis unfolding blocks_left_def e using assms(3) by simp
qed

context roaring_bitmap
begin

lemma client_step_left:
  assumes st: "client_step ops mf k c = Some (k', c')" and inv: "kinv R cor FE k" "cinv R cor FE k c"
  defines "L \<equiv> client_left (c_blockSize (k_cache k)) (cl_off c) (cl_off c + cl_len c)"
  shows "cl_cancelled c' = cl_cancelled c \<and> cl_off c' = cl_off c \<and> cl_len c' = cl_len c \<and>
    c_closed (k_cache k') = c_closed (k_cache k) \<and>
    (L (cl_pc c') < L (cl_pc c) \<or> L (cl_pc c') = L (cl_pc c) \<and> k' = k \<and> cl_fired c' = cl_fired c \<and> awake (cl_pc c') < awake (cl_pc c))"
proof -
  have ok: "client_ok cor FE k c" "seen_ok R k c (cl_pc c)" using inv(2) by (simp_all add: cinv_def)
  note en = cl_end_eq [OF inv(1) ok(1)]
  have bs: "0 < c_blockSize (k_cache k)" using inv(1) by (auto simp: kinv_def chunk_cache_ok_def)
  show ?thesis
  proof (cases "cl_pc c")
    case CTry
    then show ?thesis using st by (auto simp: client_step_def Let_def L_def split: sum.splits if_splits)
  next
    case (CLoop cur)
    have cu: "cl_off c \<le> cur" "seen k c cur" using ok(2) CLoop by simp_all
    show ?thesis
    proof (cases "cur < cl_off c + cl_len c")
      case True
      note lt = this
      show ?thesis
      proof (cases "locateChunk (k_size k) cur (cl_ft c)")
        case (Inl e)
        then show ?thesis using st CLoop lt en by (auto simp: client_step_def Let_def L_def)
      next
        case (Inr ol)
        obtain off len where ol: "ol = (off, len)" by fastforce
        obtain k2 r where g: "getOrCreateSession ops k off len (cl_ft c) = (k2, r)" by fastforce
        have kc: "k_cache k2 = k_cache k" using g by (auto simp: getOrCreateSession_def split: option.splits if_splits)
        have nx: "cur < off + len" using loop_step [OF inv(1) ok(1) cu lt Inr [unfolded ol] g] by simp
        let ?re = "min (cl_off c + cl_len c) (off + len)"
        let ?bl = "blocks_left (c_blockSize (k_cache k)) ((cur sdiv c_blockSize (k_cache k)) * c_blockSize (k_cache k))
          (((?re - 1) sdiv c_blockSize (k_cache k)) * c_blockSize (k_cache k))"
        have "blocks_left (c_blockSize (k_cache k)) ((cur sdiv c_blockSize (k_cache k)) * c_blockSize (k_cache k))
          (((?re - 1) sdiv c_blockSize (k_cache k)) * c_blockSize (k_cache k)) \<le> nat (?re - cur)"
          using ok(1) cu(1) lt nx by (intro blocks_left_range [OF bs]) (auto simp: client_ok_def)
        moreover have "nat (cl_off c + cl_len c - cur) = nat (cl_off c + cl_len c - (off + len)) + nat (?re - cur)" "0 < nat (?re - cur)"
          using lt nx by linarith+
        ultimately have "5 + 2 * ?bl + 6 * nat (cl_off c + cl_len c - (off + len)) < 6 * nat (cl_off c + cl_len c - cur) + 3"
          "nat (cl_off c + cl_len c - (off + len)) < nat (cl_off c + cl_len c - cur)" by linarith+
        then show ?thesis using st CLoop lt en Inr ol g kc by (cases r) (auto simp: client_step_def Let_def L_def)
      qed
    qed (use st CLoop en in \<open>auto simp: client_step_def Let_def L_def\<close>)
  next
    case (CBlock b e n s)
    then show ?thesis using st blocks_left_step [OF bs, of b e]
      by (auto simp: client_step_def Let_def L_def split: if_splits sum.splits bool.splits)
  next
    case (CLock b e n s)
    then have "b \<le> e" using ok(2) by simp
    then show ?thesis using st CLock blocks_left_step [OF bs, of b e]
      by (auto simp: client_step_def Let_def L_def split: if_splits sum.splits bool.splits)
  qed (use st in \<open>auto simp: client_step_def Let_def L_def split: if_splits\<close>)
qed

end

context roaring_bitmap
begin

lemma fetch_step_left:
  assumes st: "fetch_step content corrupt ops readBatch free k s k' bc" and inv: "kinv R cor FE k" "s < length (k_heap k)" "0 < readBatch"
  shows "fs_chunkLen (k_heap k' ! s) = fs_chunkLen (k_heap k ! s) \<and>
    fetch_left (fs_chunkLen (k_heap k' ! s)) (snd (k_fetch k' ! s)) < fetch_left (fs_chunkLen (k_heap k ! s)) (snd (k_fetch k ! s)) \<and>
    c_blockSize (k_cache k') = c_blockSize (k_cache k) \<and> c_closed (k_cache k') = c_closed (k_cache k)"
proof -
  have l: "s < length (k_fetch k)" using inv by (simp add: kinv_def chunks_inv_def sessions_ok_def)
  from st show ?thesis
  proof (cases rule: fetch_step.cases)
    case (read_batch ft d want b e)
    have "0 < want" using read_batch(4,5) inv(3) by simp
    then have "e = None \<Longrightarrow> b \<noteq> []" using read_batch(8) by auto
    moreover have "int (length d) + int (length b) \<le> fs_chunkLen (k_heap k ! s)" using read_batch(5,7) by simp
    ultimately show ?thesis using read_batch l inv(2)
      by (cases b) (auto simp: chunk_simps after_read_def split: option.split)
  qed (use l inv(2) in \<open>auto simp: chunk_simps releaseSession_def advance_def setDone_def fail_def failIfRunning_def after_read_def
    split: option.splits\<close>)
qed

lemma chunk_step_left:
  assumes "chunk_step content corrupt ops readBatch w w'" "winv R cor FE w" "0 < readBatch"
  shows "(w', w) \<in> measures [left1, left2, left3]"
  using assms
proof (induction rule: chunk_step.induct)
  case (client i cls k k' c')
  have inv: "kinv R cor FE k" "cinv R cor FE k (cls ! i)" using client by (simp_all add: winv_def)
  note st = client_step_left [OF client(2) inv]
  have bs: "c_blockSize (k_cache k') = c_blockSize (k_cache k)" using client_step_keeps [OF client(2) inv] by (simp add: keeps_def)
  let ?f = "\<lambda>c. client_left (c_blockSize (k_cache k)) (cl_off c) (cl_off c + cl_len c) (cl_pc c) + (if cl_cancelled c then 0 else 1)"
  show ?case
  proof (cases "?f c' < ?f (cls ! i)")
    case True
    then have "(\<Sum>c \<leftarrow> cls[i := c']. ?f c) < (\<Sum>c \<leftarrow> cls. ?f c)" by (rule sum_list_upd(1) [OF client(1)])
    then show ?thesis using st bs by (simp add: left1_def)
  next
    case False
    then have s: "?f c' = ?f (cls ! i)" "k' = k" "cl_fired c' = cl_fired (cls ! i)" "awake (cl_pc c') < awake (cl_pc (cls ! i))"
      using st by auto
    have "(\<Sum>c \<leftarrow> cls[i := c']. ?f c) = (\<Sum>c \<leftarrow> cls. ?f c)" by (rule sum_list_upd(2) [OF client(1) s(1)])
    moreover have "(\<Sum>c \<leftarrow> cls[i := c']. if cl_fired c then 0 else 1) = (\<Sum>c \<leftarrow> cls. if cl_fired c then 0 else (1::nat))"
      using client(1) s(3) by (intro sum_list_upd) simp_all
    moreover have "(\<Sum>c \<leftarrow> cls[i := c']. awake (cl_pc c)) < (\<Sum>c \<leftarrow> cls. awake (cl_pc c))" by (rule sum_list_upd(1) [OF client(1) s(4)])
    ultimately show ?thesis using s(2) by (simp add: left1_def left2_def left3_def)
  qed
next
  case (cancel i cls k)
  let ?f = "\<lambda>c. client_left (c_blockSize (k_cache k)) (cl_off c) (cl_off c + cl_len c) (cl_pc c) + (if cl_cancelled c then 0 else 1)"
  have "(\<Sum>c \<leftarrow> cls[i := (cls ! i)\<lparr>cl_cancelled := True\<rparr>]. ?f c) < (\<Sum>c \<leftarrow> cls. ?f c)" using cancel(1,2) by (intro sum_list_upd) simp_all
  then show ?case by (simp add: left1_def)
next
  case (after_func i cls s k)
  let ?f = "\<lambda>c. client_left (c_blockSize (k_cache k)) (cl_off c) (cl_off c + cl_len c) (cl_pc c) + (if cl_cancelled c then 0 else 1)"
  let ?u = "cls[i := (cls ! i)\<lparr>cl_fired := True\<rparr>]"
  have "(\<Sum>c \<leftarrow> ?u. ?f c) = (\<Sum>c \<leftarrow> cls. ?f c)" using after_func(1) by (intro sum_list_upd) simp_all
  moreover have "(\<Sum>c \<leftarrow> ?u. if cl_fired c then 0 else 1) < (\<Sum>c \<leftarrow> cls. if cl_fired c then 0 else (1::nat))"
    using after_func(1,3) by (intro sum_list_upd) simp_all
  ultimately show ?case by (simp add: left1_def left2_def o_def)
next
  case (fetch s k cls k' bc)
  have k: "kinv R cor FE k" using fetch(3) by (simp add: winv_def)
  note st = fetch_step_left [OF fetch(2) k fetch(1,4)] fetch_step_session [OF fetch(2)]
  let ?g = "\<lambda>k s. fetch_left (fs_chunkLen (k_heap k ! s)) (snd (k_fetch k ! s))"
  have "?g k' t \<le> ?g k t" for t using st by (cases "t = s") auto
  then have "(\<Sum>s < length (k_heap k'). ?g k' s) < (\<Sum>s < length (k_heap k). ?g k s)"
    using st fetch(1) by (simp, intro sum_strict_mono_ex1) auto
  then show ?case using st(1) by (cases bc) (simp_all add: left1_def left2_def o_def)
next
  case (close_cache k cls)
  then show ?case by (simp add: left1_def)
qed

text \<open>A fetch can always move, except while a waiter holds the mutex of its session.\<close>

lemma fetch_progress:
  assumes inv: "kinv R cor FE k" "s < length (k_heap k)" "snd (k_fetch k ! s) \<noteq> FGone" "0 < readBatch"
  shows "\<exists>k' bc. fetch_step content corrupt ops readBatch True k s k' bc"
proof -
  obtain ft p where p: "k_fetch k ! s = (ft, p)" by fastforce
  note ses = kinv_sess [OF inv(1,2) p]
  show ?thesis
  proof (cases p)
    case FAddress
    then show ?thesis using p fetch_step.panics [OF p] by blast
  next
    case (FRead d)
    show ?thesis
    proof (cases "int (length d) < fs_chunkLen (k_heap k ! s)")
      case True
      let ?want = "min readBatch (fs_chunkLen (k_heap k ! s) - int (length d))"
      have w: "fs_chunkOff (k_heap k ! s) + int (length d) + ?want \<le> c_size (k_cache k)" "0 < ?want"
        using ses(4) True inv(4) by (auto simp: chunk_ok_def)
      show ?thesis
        by (intro exI, rule fetch_step.read_batch [OF p [unfolded FRead] True refl, where b = "[]" and e = "Some EOF"])
          (use w in \<open>auto simp: upstream_delivers_def\<close>)
    next
      case False
      then show ?thesis using fetch_step.all_read p FRead by (metis linorder_not_less)
    qed
  next
    case (FClose d e)
    then show ?thesis using fetch_step.close_fails [of k s ft d content corrupt ops readBatch True EOF]
        fetch_step.close_after_error [of k s ft d "the e" content corrupt ops readBatch True] p
      by (cases e) (simp_all, blast+)
  next
    case FOpen
    then show ?thesis using fetch_step.open_ok [OF p [unfolded FOpen]] by blast
  next
    case (FAdvance d e)
    then show ?thesis using fetch_step.publish_progress [OF p [unfolded FAdvance] TrueI] by blast
  next
    case FCached
    then show ?thesis using fetch_step.mark_cached [OF p [unfolded FCached]] by blast
  next
    case FDone
    then show ?thesis using fetch_step.set_done [OF p [unfolded FDone] TrueI] by blast
  next
    case (FFail e)
    then show ?thesis using fetch_step.failed [OF p [unfolded FFail] TrueI] by blast
  next
    case FBroadcast
    then show ?thesis using fetch_step.broadcast [OF p [unfolded FBroadcast]] by blast
  next
    case (FDefer e)
    then show ?thesis using fetch_step.deferred [OF p [unfolded FDefer] TrueI] by blast
  next
    case FWake
    then show ?thesis using fetch_step.deferred_broadcast [OF p [unfolded FWake]] by blast
  next
    case FRelease
    then show ?thesis using fetch_step.release [OF p [unfolded FRelease]] by blast
  qed (use p inv(3) in simp)
qed

lemma stuck_returned:
  assumes inv: "winv R cor FE (k, cls)" "0 < readBatch" and st: "\<nexists>w'. chunk_step content corrupt ops readBatch (k, cls) w'" and c: "c \<in> set cls"
  shows "\<exists>r. cl_pc c = CRet r"
proof -
  have k: "kinv R cor FE k" using inv(1) by (simp add: winv_def)
  have none: "client_step ops (mu_free cls) k c = None" if "c \<in> set cls" for c
  proof (rule ccontr)
    assume "client_step ops (mu_free cls) k c \<noteq> None"
    then obtain k' c' where "client_step ops (mu_free cls) k c = Some (k', c')" by fastforce
    moreover obtain i where "i < length cls" "cls ! i = c" using \<open>c \<in> set cls\<close> by (auto simp: in_set_conv_nth)
    ultimately show False using st chunk_step.client by metis
  qed
  have np: "cl_pc c \<noteq> CPark b e n s" if "c \<in> set cls" for c b e n s
    using none [OF that] by (auto simp: client_step_def Let_def)
  have free: "mu_free cls s" for s
    unfolding mu_free_def using np by (auto split: client_pc.split)
  have gone: "snd (k_fetch k ! s) = FGone" if "s < length (k_heap k)" for s
    using fetch_progress [OF k that _ inv(2)] st chunk_step.fetch [OF that] free [of s] by metis
  have dn: "fs_done (k_heap k ! s)" if "s < length (k_heap k)" for s
    using kinv_sess(2) [OF k that, of "fst (k_fetch k ! s)" FGone] gone [OF that] by (metis pc_ok.simps(13) prod.collapse)
  have ok: "cinv R cor FE k c" "wait_ok (k_heap k) (k_fetch k) (cl_pc c)" using inv(1) c by (simp_all add: winv_def)
  show ?thesis
  proof (cases "cl_pc c")
    case (CWait b e n s)
    then have "s < length (k_heap k)" using ok(1) by (simp add: cinv_def block_ok_def)
    then show ?thesis using ok(2) CWait dn gone by simp
  next
    case (CLoop cur)
    then show ?thesis using none [OF c]
      by (auto simp: client_step_def Let_def split: if_splits sum.splits prod.splits option.splits)
  qed (use none [OF c] free in \<open>auto simp: client_step_def Let_def split: if_splits sum.splits bool.splits\<close>)
qed

end

section \<open>From a new chunker\<close>

text \<open>A chunker as \<open>NewChunker\<close> leaves it, and calls of \<open>Slice\<close> for ranges inside the data that have
  not started yet. \<open>map_file\<close> maps as many bytes as it is asked for.\<close>

definition chunker_setup ::
  "'b bitmap_ops \<Rightarrow> (string \<Rightarrow> int \<Rightarrow> bytes result) \<Rightarrow> int \<Rightarrow> int \<Rightarrow> string \<Rightarrow> frameEntry list \<Rightarrow> 'b Chunker \<Rightarrow> client list \<Rightarrow> bool" where
  "chunker_setup ops map_file sz bs path FE k cls \<longleftrightarrow>
     NewChunker ops map_file sz bs path = Inr k \<and> (\<forall>m. map_file path sz = Inr m \<longrightarrow> int (length m) = sz) \<and>
     0 < sz \<and> 0 < bs \<and> (sz + bs) div bs < 4294967296 \<and> sz + bs \<le> max_i64 \<and> geometry_ok FE bs sz \<and>
     (\<forall>c \<in> set cls. cl_pc c = CTry \<and> 0 \<le> cl_off c \<and> 0 < cl_len c \<and> cl_off c + cl_len c \<le> sz \<and> table_ok FE (cl_ft c))"

text \<open>Frames that may arrive damaged stay apart from what is read uncompressed: no call without a frame
  table needs a chunk with a byte in \<open>corrupt\<close>.\<close>

definition corrupt_apart :: "(int \<Rightarrow> bool) \<Rightarrow> client list \<Rightarrow> bool" where
  "corrupt_apart corrupt cls \<longleftrightarrow>
     (\<forall>c \<in> set cls. \<forall>x. cl_off c \<le> x \<and> x < cl_off c + cl_len c \<longrightarrow> chunk_intact corrupt (cl_ft c) x)"

lemma corrupt_apart_compressed: "\<forall>c \<in> set cls. IsCompressed (cl_ft c) \<Longrightarrow> corrupt_apart corrupt cls"
  by (simp add: corrupt_apart_def chunk_intact_def)

lemma corrupt_apart_intact: "corrupt_apart (\<lambda>_. False) cls"
  by (simp add: corrupt_apart_def chunk_intact_def)

context roaring_bitmap
begin

lemma setup_winv:
  assumes "chunker_setup ops map_file sz bs path FE k cls" "corrupt_apart cor cls"
  shows "winv R cor FE (k, cls)"
proof -
  obtain m where m: "map_file path sz = Inr m" "int (length m) = sz" "sz \<noteq> 0"
    "k = \<lparr>k_cache = \<lparr>c_filePath = path, c_size = sz, c_blockSize = bs, c_mmap = Some m, c_tracker = NewTracker ops,
      c_dirtyFile = False, c_closed = False\<rparr>, k_size = sz, k_sessions = [], k_heap = [], k_fetch = []\<rparr>"
    using assms by (auto simp: chunker_setup_def NewChunker_def NewCache_def bindR_eq_Inr)
  have "\<not> cached (k_cache k) x" for x using m(4) NewTracker_spec by (simp add: cached_def)
  then have "chunks_inv R cor FE bs sz (cached (k_cache k)) (byte_at (k_cache k)) [] [] []"
    by (simp add: chunks_inv_def sessions_ok_def listed_ok_def frames_ok_def)
  then show ?thesis
    using assms m(2,4) NewTracker_spec(1) unfolding chunker_setup_def corrupt_apart_def
    by (auto simp: winv_def kinv_def chunk_cache_ok_def cinv_def client_ok_def)
qed

end

text \<open>A client that runs alone for some steps.\<close>

primrec client_iter :: "'b bitmap_ops \<Rightarrow> nat \<Rightarrow> nat \<Rightarrow> 'b world \<Rightarrow> 'b world option" where
  "client_iter ops i 0 w = Some w"
| "client_iter ops i (Suc n) w =
     (case client_step ops (mu_free (snd w)) (fst w) (snd w ! i) of
        None \<Rightarrow> None
      | Some (k', c') \<Rightarrow> client_iter ops i n (k', (snd w)[i := c']))"

lemma client_iter_steps:
  assumes "client_iter ops i n w = Some w'" "i < length (snd w)"
  shows "(chunk_step content corrupt ops readBatch)\<^sup>*\<^sup>* w w'"
  using assms
proof (induction n arbitrary: w)
  case (Suc n)
  obtain k' c' where c: "client_step ops (mu_free (snd w)) (fst w) (snd w ! i) = Some (k', c')"
    "client_iter ops i n (k', (snd w)[i := c']) = Some w'"
    using Suc.prems(1) by (auto split: option.splits)
  have "chunk_step content corrupt ops readBatch w (k', (snd w)[i := c'])"
    using chunk_step.client [OF Suc.prems(2) c(1)] by (cases w) simp
  then show ?case using Suc.IH [OF c(2)] Suc.prems(2) by (simp add: converse_rtranclp_into_rtranclp)
qed simp

definition example_chunker :: "32 word list Chunker" where
  "example_chunker = \<lparr>k_cache = \<lparr>c_filePath = [], c_size = 4, c_blockSize = 4, c_mmap = Some [0, 0, 0, 0],
      c_tracker = NewTracker listbm_ops, c_dirtyFile = False, c_closed = False\<rparr>, k_size = 4, k_sessions = [], k_heap = [], k_fetch = []\<rparr>"

lemma example_chunker_setup:
  "chunker_setup listbm_ops (\<lambda>_ n. Inr (replicate (nat n) 0)) 4 4 [] [] example_chunker [new_client 0 4 None]"
  by (simp add: chunker_setup_def NewChunker_def NewCache_def example_chunker_def geometry_ok_def MemoryChunkSize_def
      new_client_def table_ok_def IsCompressed_def ft_CompressionType_def CompressionNone_def numeral_eq_Suc)

section \<open>Properties\<close>

text \<open>(C5) Whatever a call of \<open>Slice\<close> returns is the data of the build: in every interleaving of any
  number of calls and background fetches, with read errors, panics, cancellation and closing
  at any time, with calls that see compressed frames sharing sessions with calls that do not, and
  with compressed frames that arrive damaged at any offsets in \<open>corrupt\<close>, as long as no call
  without a frame table reads from a chunk that has such an offset (all calls are compressed, or
  the frames that overlap an uncompressed chunk arrive intact). Without that condition it fails,
  as \<open>damaged_frame_overwrites\<close> shows.\<close>

theorem Chunker_returns_content:
  assumes "roaring_bitmap ops bset" "chunker_setup ops map_file sz bs path FE k0 cls0" "corrupt_apart corrupt cls0"
    and "(chunk_step content corrupt ops readBatch)\<^sup>*\<^sup>* (k0, cls0) (k, cls)" "c \<in> set cls" "cl_pc c = CRet (Inr b)"
  shows "b = bytes_of content (cl_off c) (nat (cl_len c))"
proof -
  let ?R = "\<lambda>x v. v = content x"
  have "env_fits content corrupt ?R corrupt" by (simp add: env_fits_def)
  then have "roaring_bitmap.winv bset ?R corrupt FE (k, cls)"
    using roaring_bitmap.chunk_steps_inv [OF assms(1,4) roaring_bitmap.setup_winv [OF assms(1,2,3)]] by blast
  then have "all_right ?R c b"
    using assms(5,6)
    by (auto simp: roaring_bitmap.winv_def [OF assms(1)] roaring_bitmap.cinv_def [OF assms(1)]
        roaring_bitmap.seen_ok.simps [OF assms(1)])
  then show ?thesis by (intro nth_equalityI) (simp_all add: all_right_def)
qed

definition example_fetch :: "fetch_pc \<Rightarrow> bytes \<Rightarrow> int \<Rightarrow> 32 word list Chunker" where
  "example_fetch p m n = example_chunker\<lparr>k_cache := (k_cache example_chunker)\<lparr>c_mmap := Some m\<rparr>, k_sessions := [0],
     k_heap := [(newFetchSession 0 4)\<lparr>fs_bytesReady := n\<rparr>], k_fetch := [(None, p)]\<rparr>"

lemma example_fetch_simps:
  "k_fetch (example_fetch p m n) ! 0 = (None, p)" "k_heap (example_fetch p m n) ! 0 = (newFetchSession 0 4)\<lparr>fs_bytesReady := n\<rparr>"
  "length (k_heap (example_fetch p m n)) = 1" "set_pc 0 q (example_fetch p m n) = example_fetch q m n"
  "on_session 0 (advance n') (example_fetch p m n) = example_fetch p m n'"
  "write_mmap off b (example_fetch p m n) = example_fetch p (overwrite m off b) n"
  "c_size (k_cache (example_fetch p m n)) = 4" "c_mmap (k_cache (example_fetch p m n)) = Some m" "\<not> c_closed (k_cache (example_fetch p m n))"
  by (simp_all add: example_fetch_def chunk_simps example_chunker_def newFetchSession_def advance_def)

theorem Chunker_returns_content_witness:
  "\<exists>k c. (chunk_step (\<lambda>x. word_of_int (x + 1)) (\<lambda>x. 4194304 \<le> x) listbm_ops 4)\<^sup>*\<^sup>* (example_chunker, [new_client 0 4 None]) (k, [c]) \<and>
     cl_pc c = CRet (Inr [1, 2, 3, 4]) \<and> bytes_of (\<lambda>x. word_of_int (x + 1)) (cl_off c) (nat (cl_len c)) = [1, 2, 3, 4]"
proof -
  let ?content = "\<lambda>x. word_of_int (x + 1) :: byte" and ?cor = "\<lambda>x::int. 4194304 \<le> x" and ?z = "[0, 0, 0, 0] :: bytes" and ?d = "[1, 2, 3, 4] :: bytes"
  let ?step = "chunk_step ?content ?cor listbm_ops 4" and ?c = "new_client 0 4 None"
  let ?cls = "[?c\<lparr>cl_pc := CSession 0 0 4 0\<rparr>]" and ?ret = "[?c\<lparr>cl_pc := CRet (Inr ?d)\<rparr>]"
  have fetch: "?step (k, ?cls) (k', ?cls)" if "length (k_heap k) = 1" "fetch_step ?content ?cor listbm_ops 4 True k 0 k' bc" for k k' bc
    using chunk_step.fetch [of 0 k ?content ?cor listbm_ops 4 ?cls k' bc] that by (auto simp: mu_free_def wake_def split: if_splits)
  have "client_iter listbm_ops 0 2 (example_chunker, [?c]) = Some (example_fetch FAddress ?z 0, ?cls)" by code_simp
  then have 1: "?step\<^sup>*\<^sup>* (example_chunker, [?c]) (example_fetch FAddress ?z 0, ?cls)" by (rule client_iter_steps) simp
  let ?fs = "\<lambda>p m n p' m' n' bc. fetch_step ?content ?cor listbm_ops 4 True (example_fetch p m n) 0 (example_fetch p' m' n') bc"
  have "addressBytes (k_cache (example_fetch FAddress ?z 0)) 0 4 = Inr ?z" by code_simp
  then have f1: "?fs FAddress ?z 0 FOpen ?z 0 False"
    using fetch_step.address_ok [of "example_fetch FAddress ?z 0" 0 None ?z ?content ?cor listbm_ops 4 True]
    by (simp only: example_fetch_simps newFetchSession_def fetchSession.simps)
  have f2: "?fs FOpen ?z 0 (FRead []) ?z 0 False"
    using fetch_step.open_ok [of "example_fetch FOpen ?z 0" 0 None ?content ?cor listbm_ops 4 True]
    by (simp only: example_fetch_simps)
  have "\<forall>i < length ?d. ?d ! i = ?content (0 + int i)" by (auto simp: less_Suc_eq numeral_eq_Suc)
  then have del: "upstream_delivers ?content ?cor None 0 ?d" unfolding upstream_delivers_def by blast
  have nc: "\<not> IsCompressed None" by (simp add: IsCompressed_def ft_CompressionType_def CompressionNone_def)
  have f3: "?fs (FRead []) ?z 0 (FAdvance ?d None) ?d 0 False"
    using fetch_step.read_batch [of "example_fetch (FRead []) ?z 0" 0 None "[]" 4 4 ?d None ?content ?cor listbm_ops True] del
    by (simp add: example_fetch_simps newFetchSession_def overwrite_def nc)
  have f4: "?fs (FAdvance ?d None) ?d 0 (FRead ?d) ?d 4 True"
    using fetch_step.publish_progress [of "example_fetch (FAdvance ?d None) ?d 0" 0 None ?d None True ?content ?cor listbm_ops 4]
    by (simp add: example_fetch_simps after_read_def)
  have 2: "?step\<^sup>*\<^sup>* (example_fetch FAddress ?z 0, ?cls) (example_fetch (FRead ?d) ?d 4, ?cls)"
    using fetch [OF example_fetch_simps(3) f1] fetch [OF example_fetch_simps(3) f2] fetch [OF example_fetch_simps(3) f3]
      fetch [OF example_fetch_simps(3) f4]
    by (meson rtranclp.rtrancl_into_rtrancl rtranclp.rtrancl_refl)
  have "\<exists>k. client_iter listbm_ops 0 3 (example_fetch (FRead ?d) ?d 4, ?cls) = Some (k, ?ret)" by (intro exI) code_simp
  then obtain k where "client_iter listbm_ops 0 3 (example_fetch (FRead ?d) ?d 4, ?cls) = Some (k, ?ret)" by blast
  then have 3: "?step\<^sup>*\<^sup>* (example_fetch (FRead ?d) ?d 4, ?cls) (k, ?ret)" by (rule client_iter_steps) simp
  have run: "?step\<^sup>*\<^sup>* (example_chunker, [?c]) (k, ?ret)"
    using 1 2 3 by (meson rtranclp_trans)
  have "y \<le> 4194303" if "y div MemoryChunkSize = x div MemoryChunkSize" "x < 4" "0 \<le> x" for x y :: int
    using that div_pos_pos_trivial [of x MemoryChunkSize] by (simp add: MemoryChunkSize_def div_eq_0_iff)
  then have "corrupt_apart ?cor [?c]"
    by (force simp: corrupt_apart_def chunk_intact_def new_client_def)
  from Chunker_returns_content [OF lbm.roaring_bitmap_axioms example_chunker_setup this run, of "hd ?ret" ?d]
  have "?d = bytes_of ?content (cl_off (hd ?ret)) (nat (cl_len (hd ?ret)))" by (simp del: of_int_add)
  then show ?thesis using run by (intro exI [of _ k] exI [of _ "hd ?ret"]) simp
qed

text \<open>(C6) No call waits forever. There is no infinite run, and where no step is possible any more,
  every call has returned: a fetch that fails, panics or is left without an answer still
  terminates its session and wakes all who wait for it.\<close>

theorem Chunker_all_return:
  assumes "roaring_bitmap ops bset" "chunker_setup ops map_file sz bs path FE k0 cls0" "0 < readBatch"
  shows "(\<nexists>f. f 0 = (k0, cls0) \<and> (\<forall>i. chunk_step content corrupt ops readBatch (f i) (f (Suc i)))) \<and>
    (\<forall>k cls. (chunk_step content corrupt ops readBatch)\<^sup>*\<^sup>* (k0, cls0) (k, cls) \<and> (\<nexists>w. chunk_step content corrupt ops readBatch (k, cls) w) \<longrightarrow>
       (\<forall>c \<in> set cls. \<exists>r. cl_pc c = CRet r))"
proof (intro conjI notI allI impI ballI)
  let ?inv = "roaring_bitmap.winv bset (\<lambda>_ _. True) (\<lambda>_. False) FE"
  have env: "env_fits content corrupt (\<lambda>_ _. True) (\<lambda>_. False)" by (simp add: env_fits_def)
  note init = roaring_bitmap.setup_winv [OF assms(1,2) corrupt_apart_intact, of "\<lambda>_ _. True"]
  assume "\<exists>f. f 0 = (k0, cls0) \<and> (\<forall>i. chunk_step content corrupt ops readBatch (f i) (f (Suc i)))"
  then obtain f where f: "f 0 = (k0, cls0)" "\<And>i. chunk_step content corrupt ops readBatch (f i) (f (Suc i))" by blast
  have "?inv (f i)" for i
    by (induction i) (use init f roaring_bitmap.chunk_step_inv [OF assms(1) _ _ env] in \<open>simp, blast\<close>)
  then have "(f (Suc i), f i) \<in> measures [left1, left2, left3]" for i
    using roaring_bitmap.chunk_step_left [OF assms(1) f(2) _ assms(3)] by blast
  moreover have "wf (measures [left1, left2, left3])" by simp
  ultimately show False unfolding wf_iff_no_infinite_down_chain by blast
next
  fix k cls c
  assume a: "(chunk_step content corrupt ops readBatch)\<^sup>*\<^sup>* (k0, cls0) (k, cls) \<and> (\<nexists>w. chunk_step content corrupt ops readBatch (k, cls) w)" "c \<in> set cls"
  have env: "env_fits content corrupt (\<lambda>_ _. True) (\<lambda>_. False)" by (simp add: env_fits_def)
  have "roaring_bitmap.winv bset (\<lambda>_ _. True) (\<lambda>_. False) FE (k, cls)"
    using roaring_bitmap.chunk_steps_inv [OF assms(1) conjunct1 [OF a(1)]
        roaring_bitmap.setup_winv [OF assms(1,2) corrupt_apart_intact] env] .
  then show "\<exists>r. cl_pc c = CRet r" using roaring_bitmap.stuck_returned [OF assms(1) _ assms(3)] a by blast
qed

theorem Chunker_all_return_witness:
  "\<nexists>f. f 0 = (example_chunker, [new_client 0 4 None]) \<and> (\<forall>i. chunk_step (\<lambda>x. word_of_int (x + 1)) (\<lambda>_. True) listbm_ops 4 (f i) (f (Suc i)))"
  using Chunker_all_return [OF lbm.roaring_bitmap_axioms example_chunker_setup, of 4 "\<lambda>x. word_of_int (x + 1)"] by simp

text \<open>A frame that fails its checksum can replace bytes that were verified. A call with the frame table
  starts the fetch of the frame from 0 to 4; a call without it finds no session that contains its
  chunk from 0 to 8 and starts another, which streams the right bytes; then the damaged frame is
  written over them, before its reader is closed, and the second call returns what is now there.\<close>

definition example_table :: FrameTable where
  "example_table = \<lparr>compressionType = CompressionZstd, entries = [\<lparr>StartU = 0, StartC = 0, SizeU = 4, SizeC = 2\<rparr>]\<rparr>"

definition mixed_fetch :: "fetch_pc \<Rightarrow> fetch_pc \<Rightarrow> bytes \<Rightarrow> int \<Rightarrow> 32 word list Chunker" where
  "mixed_fetch p q m n = example_chunker\<lparr>k_cache := (k_cache example_chunker)\<lparr>c_size := 8, c_mmap := Some m\<rparr>, k_size := 8,
     k_sessions := [0, 1], k_heap := [newFetchSession 0 4, (newFetchSession 0 8)\<lparr>fs_bytesReady := n\<rparr>],
     k_fetch := [(Some example_table, p), (None, q)]\<rparr>"

lemma mixed_fetch_simps:
  "k_fetch (mixed_fetch p q m n) ! 0 = (Some example_table, p)" "k_heap (mixed_fetch p q m n) ! 0 = newFetchSession 0 4"
  "k_fetch (mixed_fetch p q m n) ! Suc 0 = (None, q)" "k_heap (mixed_fetch p q m n) ! Suc 0 = (newFetchSession 0 8)\<lparr>fs_bytesReady := n\<rparr>"
  "length (k_heap (mixed_fetch p q m n)) = 2" "set_pc 0 r (mixed_fetch p q m n) = mixed_fetch r q m n"
  "set_pc (Suc 0) r (mixed_fetch p q m n) = mixed_fetch p r m n"
  "on_session (Suc 0) (advance n') (mixed_fetch p q m n) = mixed_fetch p q m n'"
  "write_mmap off b (mixed_fetch p q m n) = mixed_fetch p q (overwrite m off b) n"
  "c_size (k_cache (mixed_fetch p q m n)) = 8"
  by (simp_all add: mixed_fetch_def chunk_simps example_chunker_def newFetchSession_def advance_def)

definition mixed_chunker :: "32 word list Chunker" where
  "mixed_chunker = example_chunker\<lparr>k_cache := (k_cache example_chunker)\<lparr>c_size := 8, c_mmap := Some (replicate 8 0)\<rparr>, k_size := 8\<rparr>"

abbreviation mixed_step :: "32 word list world \<Rightarrow> 32 word list world \<Rightarrow> bool" where
  "mixed_step \<equiv> chunk_step (\<lambda>x. word_of_int (x + 1)) (\<lambda>_. True) listbm_ops 8"

abbreviation mixed_clients :: "client list" where
  "mixed_clients \<equiv> [new_client 0 4 (Some example_table), new_client 0 8 None]"

abbreviation mixed_waiting :: "client list" where
  "mixed_waiting \<equiv> [(new_client 0 4 (Some example_table))\<lparr>cl_pc := CSession 0 0 4 0\<rparr>,
     (new_client 0 8 None)\<lparr>cl_pc := CSession 0 4 8 1\<rparr>]"

lemma mixed_compressed: "IsCompressed (Some example_table)" "\<not> IsCompressed None"
  by code_simp+

lemma mixed_setup:
  "chunker_setup listbm_ops (\<lambda>_ n. Inr (replicate (nat n) 0)) 8 4 [] (entries example_table) mixed_chunker mixed_clients"
proof -
  have "NewChunker listbm_ops (\<lambda>_ n. Inr (replicate (nat n) 0)) 8 4 [] = Inr mixed_chunker"
    by (simp add: NewChunker_def NewCache_def mixed_chunker_def example_chunker_def bindR_def)
  moreover have "geometry_ok (entries example_table) 4 8"
    by (auto simp: geometry_ok_def example_table_def MemoryChunkSize_def entries_ok_def frame_ok_def)
  moreover have "table_ok (entries example_table) (Some example_table)" "table_ok (entries example_table) None"
    by (auto simp: table_ok_def mixed_compressed example_table_def entries_ok_def frame_ok_def)
  ultimately show ?thesis by (simp add: chunker_setup_def new_client_def)
qed

lemma mixed_start: "mixed_step\<^sup>*\<^sup>* (mixed_chunker, mixed_clients) (mixed_fetch FAddress FAddress (replicate 8 0) 0, mixed_waiting)"
proof -
  let ?k = "fst (the (client_iter listbm_ops 0 2 (mixed_chunker, mixed_clients)))"
  have s1: "client_iter listbm_ops 0 2 (mixed_chunker, mixed_clients) = Some (?k, [hd mixed_waiting, new_client 0 8 None])" by code_simp
  have s2: "client_iter listbm_ops 1 2 (?k, [hd mixed_waiting, new_client 0 8 None]) =
      Some (mixed_fetch FAddress FAddress (replicate 8 0) 0, mixed_waiting)" by code_simp
  show ?thesis by (rule rtranclp_trans [OF client_iter_steps [OF s1] client_iter_steps [OF s2]]) simp_all
qed

lemma mixed_move:
  assumes "fetch_step (\<lambda>x. word_of_int (x + 1)) (\<lambda>_. True) listbm_ops 8 True (mixed_fetch p q m n) i k' bc" "i < 2"
  shows "mixed_step (mixed_fetch p q m n, mixed_waiting) (k', mixed_waiting)"
  using chunk_step.fetch [of i "mixed_fetch p q m n" "\<lambda>x. word_of_int (x + 1)" "\<lambda>_. True" listbm_ops 8 mixed_waiting k' bc] assms
  by (auto simp: mu_free_def wake_def mixed_fetch_simps split: if_splits)

text \<open>The uncompressed session streams the right bytes.\<close>

lemma mixed_stream:
  "mixed_step\<^sup>*\<^sup>* (mixed_fetch FAddress FAddress (replicate 8 0) 0, mixed_waiting)
     (mixed_fetch FAddress (FRead [1, 2, 3, 4, 5, 6, 7, 8]) [1, 2, 3, 4, 5, 6, 7, 8] 8, mixed_waiting)"
proof -
  let ?z = "replicate 8 0 :: bytes" and ?d = "[1, 2, 3, 4, 5, 6, 7, 8] :: bytes" and ?content = "\<lambda>x. word_of_int (x + 1) :: byte"
  let ?fs = "\<lambda>k k' bc. fetch_step ?content (\<lambda>_. True) listbm_ops 8 True k (Suc 0) k' bc" and ?k = "mixed_fetch FAddress"
  have "addressBytes (k_cache (?k FAddress ?z 0)) 0 8 = Inr ?z" by code_simp
  then have a: "?fs (?k FAddress ?z 0) (?k FOpen ?z 0) False"
    using fetch_step.address_ok [of "?k FAddress ?z 0" "Suc 0" None ?z ?content "\<lambda>_. True" listbm_ops 8 True]
    by (simp only: mixed_fetch_simps newFetchSession_def fetchSession.simps)
  have o: "?fs (?k FOpen ?z 0) (?k (FRead []) ?z 0) False"
    using fetch_step.open_ok [of "?k FOpen ?z 0" "Suc 0" None ?content "\<lambda>_. True" listbm_ops 8 True]
    by (simp only: mixed_fetch_simps)
  have "\<forall>i < length ?d. ?d ! i = ?content (0 + int i)" by (auto simp: less_Suc_eq numeral_eq_Suc)
  then have up: "upstream_delivers ?content (\<lambda>_. True) None 0 ?d" unfolding upstream_delivers_def by blast
  have ow: "overwrite ?z 0 ?d = ?d" by (simp add: overwrite_def)
  have r: "?fs (?k (FRead []) ?z 0) (?k (FAdvance ?d None) ?d 0) False"
    using fetch_step.read_batch [of "?k (FRead []) ?z 0" "Suc 0" None "[]" 8 8 ?d None ?content "\<lambda>_. True" listbm_ops True] up
    by (simp add: mixed_fetch_simps newFetchSession_def ow mixed_compressed)
  have p: "?fs (?k (FAdvance ?d None) ?d 0) (?k (FRead ?d) ?d 8) True"
    using fetch_step.publish_progress [of "?k (FAdvance ?d None) ?d 0" "Suc 0" None ?d None True ?content "\<lambda>_. True" listbm_ops 8]
    by (simp add: mixed_fetch_simps after_read_def)
  show ?thesis
    using mixed_move [OF a] mixed_move [OF o] mixed_move [OF r] mixed_move [OF p]
    by (simp add: rtranclp.rtrancl_into_rtrancl [OF rtranclp.rtrancl_into_rtrancl
          [OF rtranclp.rtrancl_into_rtrancl [OF rtranclp.rtrancl_into_rtrancl [OF rtranclp.rtrancl_refl]]]])
qed

text \<open>The damaged frame is written over them.\<close>

lemma mixed_damage:
  "mixed_step\<^sup>*\<^sup>* (mixed_fetch FAddress q [1, 2, 3, 4, 5, 6, 7, 8] 8, mixed_waiting)
     (mixed_fetch (FRead [9, 9, 9, 9]) q [9, 9, 9, 9, 5, 6, 7, 8] 8, mixed_waiting)"
proof -
  let ?d = "[1, 2, 3, 4, 5, 6, 7, 8] :: bytes" and ?w = "[9, 9, 9, 9, 5, 6, 7, 8] :: bytes" and ?content = "\<lambda>x. word_of_int (x + 1) :: byte"
  let ?fs = "\<lambda>k k' bc. fetch_step ?content (\<lambda>_. True) listbm_ops 8 True k 0 k' bc" and ?k = "\<lambda>p m. mixed_fetch p q m 8"
  have "addressBytes (k_cache (?k FAddress ?d)) 0 4 = Inr [1, 2, 3, 4]"
    by (simp add: addressBytes_def mixed_fetch_def example_chunker_def go_slice_def sub_def i64_id)
  then have a: "?fs (?k FAddress ?d) (?k FOpen ?d) False"
    using fetch_step.address_ok [of "?k FAddress ?d" 0 "Some example_table" "[1, 2, 3, 4]" ?content "\<lambda>_. True" listbm_ops 8 True]
    by (simp only: mixed_fetch_simps newFetchSession_def fetchSession.simps)
  have o: "?fs (?k FOpen ?d) (?k (FRead []) ?d) False"
    using fetch_step.open_ok [of "?k FOpen ?d" 0 "Some example_table" ?content "\<lambda>_. True" listbm_ops 8 True]
    by (simp only: mixed_fetch_simps)
  have up: "upstream_delivers ?content (\<lambda>_. True) (Some example_table) 0 [9, 9, 9, 9]"
    by (simp add: upstream_delivers_def mixed_compressed)
  have ow: "overwrite ?d 0 [9, 9, 9, 9] = ?w" by (simp add: overwrite_def)
  have "?fs (?k (FRead []) ?d) (set_pc 0 (if [9, 9, 9, 9] \<noteq> ([] :: bytes) \<and> \<not> IsCompressed (Some example_table)
      then FAdvance ([] @ [9, 9, 9, 9]) None else after_read ([] @ [9, 9, 9, 9]) None)
      (write_mmap (fs_chunkOff (k_heap (?k (FRead []) ?d) ! 0) + int (length ([] :: bytes))) [9, 9, 9, 9] (?k (FRead []) ?d))) False"
    using up by (intro fetch_step.read_batch [where want = 4])
      (simp_all only: mixed_fetch_simps newFetchSession_def fetchSession.simps list.size of_nat_0 add_0_right, simp_all)
  then have r: "?fs (?k (FRead []) ?d) (?k (FRead [9, 9, 9, 9]) ?w) False"
    by (simp add: mixed_fetch_simps newFetchSession_def ow mixed_compressed after_read_def)
  show ?thesis
    using mixed_move [OF a] mixed_move [OF o] mixed_move [OF r]
    by (meson rtranclp.rtrancl_into_rtrancl rtranclp.rtrancl_refl zero_less_numeral)
qed

theorem damaged_frame_overwrites:
  "\<exists>k c c'. (chunk_step (\<lambda>x. word_of_int (x + 1)) (\<lambda>_. True) listbm_ops 8)\<^sup>*\<^sup>*
       (mixed_chunker, [new_client 0 4 (Some example_table), new_client 0 8 None]) (k, [c, c']) \<and>
     chunker_setup listbm_ops (\<lambda>_ n. Inr (replicate (nat n) 0)) 8 4 [] (entries example_table) mixed_chunker
       [new_client 0 4 (Some example_table), new_client 0 8 None] \<and>
     cl_pc c' = CRet (Inr [9, 9, 9, 9, 5, 6, 7, 8])"
proof -
  let ?d = "[1, 2, 3, 4, 5, 6, 7, 8] :: bytes" and ?w = "[9, 9, 9, 9, 5, 6, 7, 8] :: bytes"
  let ?fin = "mixed_fetch (FRead [9, 9, 9, 9]) (FRead ?d) ?w 8" and ?cls = "[hd mixed_waiting, (new_client 0 8 None)\<lparr>cl_pc := CRet (Inr ?w)\<rparr>]"
  have "\<exists>k. client_iter listbm_ops 1 3 (?fin, mixed_waiting) = Some (k, ?cls)" by (intro exI) code_simp
  then obtain k where "client_iter listbm_ops 1 3 (?fin, mixed_waiting) = Some (k, ?cls)" by blast
  then have "mixed_step\<^sup>*\<^sup>* (?fin, mixed_waiting) (k, ?cls)" by (rule client_iter_steps) simp
  then have "mixed_step\<^sup>*\<^sup>* (mixed_chunker, mixed_clients) (k, ?cls)"
    using rtranclp_trans [OF rtranclp_trans [OF mixed_start mixed_stream] mixed_damage] by (rule rtranclp_trans [rotated])
  then show ?thesis using mixed_setup by (intro exI conjI) (assumption | simp)+
qed

text \<open>(C34) A cancelled call can miss its wake-up. The function that runs on cancellation broadcasts
  without the mutex of the session; if it runs after the waiter has looked at its context and
  before it sleeps, the waiter stays asleep until the fetch makes progress.\<close>

theorem cancelled_waiter_asleep:
  "\<exists>k c. (chunk_step content corrupt listbm_ops readBatch)\<^sup>*\<^sup>* (example_chunker, [new_client 0 4 None]) (k, [c]) \<and>
     cl_cancelled c \<and> cl_fired c \<and> cl_pc c = CWait 0 0 4 0 \<and> client_step listbm_ops (mu_free [c]) k c = None"
proof -
  let ?step = "chunk_step content corrupt listbm_ops readBatch"
  define k c where "k = fst (the (client_iter listbm_ops 0 5 (example_chunker, [new_client 0 4 None])))"
    and "c = (new_client 0 4 None)\<lparr>cl_pc := CPark 0 0 4 0\<rparr>"
  have "client_iter listbm_ops 0 5 (example_chunker, [new_client 0 4 None]) = Some (k, [c])"
    unfolding k_def c_def by code_simp
  then have 1: "?step\<^sup>*\<^sup>* (example_chunker, [new_client 0 4 None]) (k, [c])" by (rule client_iter_steps) simp
  have 2: "?step (k, [c]) (k, [c\<lparr>cl_cancelled := True\<rparr>])"
    using chunk_step.cancel [of 0 "[c]" content corrupt listbm_ops readBatch k] by (simp add: c_def new_client_def)
  have 3: "?step (k, [c\<lparr>cl_cancelled := True\<rparr>]) (k, [c\<lparr>cl_cancelled := True, cl_fired := True\<rparr>])"
    using chunk_step.after_func [of 0 "[c\<lparr>cl_cancelled := True\<rparr>]" 0 content corrupt listbm_ops readBatch k]
    by (simp add: c_def new_client_def waits_on_def wake_def)
  have 4: "?step (k, [c\<lparr>cl_cancelled := True, cl_fired := True\<rparr>]) (k, [c\<lparr>cl_cancelled := True, cl_fired := True, cl_pc := CWait 0 0 4 0\<rparr>])"
    using chunk_step.client [of 0 "[c\<lparr>cl_cancelled := True, cl_fired := True\<rparr>]" listbm_ops k k
      "c\<lparr>cl_cancelled := True, cl_fired := True, cl_pc := CWait 0 0 4 0\<rparr>" content corrupt readBatch]
    by (simp add: client_step_def c_def)
  have "?step\<^sup>*\<^sup>* (example_chunker, [new_client 0 4 None]) (k, [c\<lparr>cl_cancelled := True, cl_fired := True, cl_pc := CWait 0 0 4 0\<rparr>])"
    using 1 2 3 4 by (meson rtranclp.rtrancl_into_rtrancl)
  then show ?thesis by (intro exI conjI) (auto simp: client_step_def)
qed

text \<open>(C35) A range that crosses the end of uncompressed data is never answered once its last chunk is
  cached: the loop over chunks goes to the end of the range, not of the data, and past the end of
  the data it finds the same last chunk again.\<close>

theorem Chunker_Slice_past_end_spins:
  assumes "\<not> IsCompressed (cl_ft c)" "locateChunk (k_size k) (k_size k) (cl_ft c) = Inr (off, len)"
    and "isCached ops (k_cache k) off len" "k_sessions k = []" "0 < k_size k"
    and "cl_pc c = CLoop (k_size k)" "k_size k < cl_end c"
  shows "client_step ops mf k c = Some (k, c)"
proof -
  have "off + len = k_size k"
    using assms(1,2,5) div_mult_mod_eq [of "k_size k" MemoryChunkSize] pos_mod_bound [of MemoryChunkSize "k_size k"]
    by (auto simp: locateChunk_def Let_def sdiv_nonneg MemoryChunkSize_def)
  then show ?thesis using assms(2-7) by (simp add: client_step_def getOrCreateSession_def Let_def)
qed

theorem Chunker_Slice_past_end_spins_witness:
  "client_step listbm_ops (\<lambda>_. True)
     (example_chunker\<lparr>k_cache := setIsCached listbm_ops (k_cache example_chunker) 0 4\<rparr>)
     ((new_client 0 8 None)\<lparr>cl_pc := CLoop 4\<rparr>) =
   Some (example_chunker\<lparr>k_cache := setIsCached listbm_ops (k_cache example_chunker) 0 4\<rparr>, (new_client 0 8 None)\<lparr>cl_pc := CLoop 4\<rparr>)"
proof (rule Chunker_Slice_past_end_spins [where off = 0 and len = 4])
  show "isCached listbm_ops (k_cache (example_chunker\<lparr>k_cache := setIsCached listbm_ops (k_cache example_chunker) 0 4\<rparr>)) 0 4"
    by code_simp
qed (code_simp | simp add: example_chunker_def new_client_def)+

end
