(* ===== verification/Nbd.thy ===== *)
theory Nbd
  imports Cache
begin

text \<open>
  The dispatcher of block requests, \<open>packages/orchestrator/pkg/sandbox/nbd/dispatch.go\<close>: it parses the
  requests that the kernel writes to a socket, calls the provider (the overlay device) and
  writes the responses.

  Two parts. \<open>Handle\<close> is the read loop: the kernel decides into which pieces the stream is cut;
  \<open>intr\<close> gives the error found at the \<open>k\<close>-th look at the fatal channel and the context, \<open>accept\<close>
  what the \<open>j\<close>-th command call returns. \<open>disp_step\<close> is what the commands do: each runs in a
  goroutine of its own, so backend calls and responses of different requests interleave.
  A buffer is the list of the bytes between its read and write position; moving the rest to
  its start does not show.

  What is shown: the commands do not depend on how the stream is cut; their sizes are bounded;
  and a dispatcher over a block device answers as one over a plain array, whatever the
  interleaving of their accesses (a read accesses block by block), shown for every device that
  satisfies the interface \<open>block_reader\<close>, of which the
  overlay is an instance.
\<close>

section \<open>The protocol\<close>

definition be_int :: "bytes \<Rightarrow> int" where "be_int b = le_int (rev b)"
definition be_bytes :: "nat \<Rightarrow> int \<Rightarrow> bytes" where "be_bytes n v = rev (le_bytes n v)"

definition dispatchBufferSize :: nat where "dispatchBufferSize = 4194304"
definition dispatchMaxWriteBufferSize :: int where "dispatchMaxWriteBufferSize = 33554432"

definition NBDCmdRead :: int where "NBDCmdRead = 0"
definition NBDCmdWrite :: int where "NBDCmdWrite = 1"
definition NBDCmdDisconnect :: int where "NBDCmdDisconnect = 2"
definition NBDCmdFlush :: int where "NBDCmdFlush = 3"
definition NBDCmdTrim :: int where "NBDCmdTrim = 4"
definition NBDCmdWriteZeroes :: int where "NBDCmdWriteZeroes = 6"

definition NBDRequestMagic :: int where "NBDRequestMagic = 0x25609513"
definition NBDResponseMagic :: int where "NBDResponseMagic = 0x67446698"

record Request =
  rq_Magic :: int
  rq_Flags :: int
  rq_Type :: int
  rq_Handle :: int
  rq_From :: int
  rq_Length :: int

definition parse_request :: "bytes \<Rightarrow> Request" where
  "parse_request header =
     \<lparr>rq_Magic = be_int (take 4 header), rq_Flags = be_int (take 2 (drop 4 header)),
      rq_Type = be_int (take 2 (drop 6 header)), rq_Handle = be_int (take 8 (drop 8 header)),
      rq_From = be_int (take 8 (drop 16 header)), rq_Length = be_int (take 4 (drop 24 header))\<rparr>"

definition response_bytes :: "int \<Rightarrow> int \<Rightarrow> bytes \<Rightarrow> bytes" where
  "response_bytes respError respHandle chunk =
     be_bytes 4 NBDResponseMagic @ be_bytes 4 respError @ be_bytes 8 respHandle @ chunk"

datatype nbd_cmd =
    CmdRead int int int
  | CmdWrite int int bytes
  | CmdWriteZeroes int int int

section \<open>The read loop\<close>

text \<open>One \<open>Read\<close> into a buffer of \<open>cap\<close> bytes: at most the piece that has arrived. The end of the
  pieces is the end of the connection.\<close>

definition fp_read :: "nat \<Rightarrow> bytes list \<Rightarrow> (bytes \<times> bytes list) result" where
  "fp_read cap reads =
     (case reads of [] \<Rightarrow> Inl EOF
      | r # rest \<Rightarrow> if length r \<le> cap then Inr (r, rest) else Inr (take cap r, drop cap r # rest))"

abbreviation pieces :: "bytes list \<Rightarrow> nat" where
  "pieces reads \<equiv> sum_list (map (\<lambda>r. Suc (length r)) reads)"

text \<open>The rest of the data of a write request, \<open>need\<close> bytes.\<close>

function read_data ::
  "(nat \<Rightarrow> error option) \<Rightarrow> nat \<Rightarrow> nat \<Rightarrow> bytes list \<Rightarrow> (bytes \<times> bytes list \<times> nat) result" where
  "read_data intr k need reads =
     (if need = 0 then Inr ([], reads, k)
      else case fp_read need reads of
          Inl e \<Rightarrow> Inl e
        | Inr (r, rest) \<Rightarrow>
            (case intr k of
               Some e \<Rightarrow> Inl e
             | None \<Rightarrow>
                 (case read_data intr (k + 1) (need - length r) rest of
                    Inl e \<Rightarrow> Inl e
                  | Inr (d, rest', k') \<Rightarrow> Inr (r @ d, rest', k'))))"
  by pat_completeness auto
termination
  by (relation "measure (\<lambda>(intr, k, need, reads). pieces reads)")
    (auto simp: fp_read_def split: list.splits if_splits)

declare read_data.simps [simp del]

lemma fp_read_pieces:
  "fp_read cap reads = Inr (r, rest) \<Longrightarrow> length r + pieces rest \<le> pieces reads"
  "fp_read cap reads = Inr (r, rest) \<Longrightarrow> concat reads = r @ concat rest \<and> length r \<le> cap"
  by (auto simp: fp_read_def split: list.splits if_splits)

lemma read_data_pieces: "read_data intr k need reads = Inr (d, rest, k') \<Longrightarrow> pieces rest \<le> pieces reads"
proof (induction intr k need reads arbitrary: d rest k' rule: read_data.induct)
  case (1 intr k need reads)
  show ?case
  proof (cases "need = 0")
    case True
    then show ?thesis using 1(2) by (simp add: read_data.simps)
  next
    case False
    then obtain r rst d' where r: "fp_read need reads = Inr (r, rst)" "intr k = None"
      "read_data intr (k + 1) (need - length r) rst = Inr (d', rest, k')"
      using 1(2) by (subst (asm) read_data.simps) (auto split: option.splits sum.splits)
    then show ?thesis using 1(1) [OF False r(1) refl r(2,3)] fp_read_pieces(1) [OF r(1)] by simp
  qed
qed

text \<open>What the loop does with a request: stop, call a command, or read the data of a write.\<close>

datatype action =
    AStop "unit result"
  | ACmd nbd_cmd
  | AData int int int

definition decide :: "Request \<Rightarrow> action" where
  "decide request =
     (if rq_Magic request \<noteq> NBDRequestMagic then AStop (Inl (Err ''received invalid MAGIC''))
      else if rq_Type request = NBDCmdDisconnect then AStop (Inr ())
      else if rq_Type request = NBDCmdFlush then AStop (Inl (Err ''not supported: Flush''))
      else if rq_Type request = NBDCmdRead
      then ACmd (CmdRead (rq_Handle request) (rq_From request) (rq_Length request))
      else if rq_Type request = NBDCmdWrite
      then if rq_Length request > dispatchMaxWriteBufferSize
           then AStop (Inl (Err ''nbd write request length exceeds maximum''))
           else AData (rq_Handle request) (rq_From request) (rq_Length request)
      else if rq_Type request = NBDCmdWriteZeroes \<or> rq_Type request = NBDCmdTrim
      then ACmd (CmdWriteZeroes (rq_Handle request) (rq_From request) (rq_Length request))
      else AStop (Inl (Err ''nbd not implemented'')))"

text \<open>The loop: look at the fatal channel and the context, read more if there is no complete header,
  handle one request otherwise. The result lists the commands that were accepted, and how the
  loop ended.\<close>

function nbd_loop ::
  "(nat \<Rightarrow> error option) \<Rightarrow> (nat \<Rightarrow> nbd_cmd \<Rightarrow> error option) \<Rightarrow> nat \<Rightarrow> nat \<Rightarrow> bytes \<Rightarrow> bytes list \<Rightarrow>
   nbd_cmd list \<times> unit result" where
  "nbd_loop intr accept k j buf reads =
     (case intr k of
        Some e \<Rightarrow> ([], Inl e)
      | None \<Rightarrow>
          if length buf < 28
          then (case fp_read (dispatchBufferSize - length buf) reads of
                  Inl e \<Rightarrow> ([], Inl e)
                | Inr (r, rest) \<Rightarrow> nbd_loop intr accept (k + 1) j (buf @ r) rest)
          else
            (case decide (parse_request (take 28 buf)) of
               AStop out \<Rightarrow> ([], out)
             | ACmd c \<Rightarrow>
                 (case accept j c of
                    Some e \<Rightarrow> ([], Inl e)
                  | None \<Rightarrow> apfst ((#) c) (nbd_loop intr accept (k + 1) (j + 1) (drop 28 buf) reads))
             | AData handle frm len \<Rightarrow>
                 (case read_data intr (k + 1) (nat len - length (drop 28 buf)) reads of
                    Inl e \<Rightarrow> ([], Inl e)
                  | Inr (tl_data, reads', k') \<Rightarrow>
                      let c = CmdWrite handle frm (take (nat len) (drop 28 buf) @ tl_data)
                      in (case accept j c of
                            Some e \<Rightarrow> ([], Inl e)
                          | None \<Rightarrow> apfst ((#) c) (nbd_loop intr accept k' (j + 1) (drop (nat len) (drop 28 buf)) reads')))))"
  by pat_completeness auto
termination
proof (relation "measures [\<lambda>(intr, accept, k, j, buf, reads). length buf + pieces reads, \<lambda>(intr, accept, k, j, buf, reads). length (concat reads)]",
    goal_cases)
  case (2 intr accept k j buf reads rr r rest)
  then have "0 < dispatchBufferSize - length buf" by (simp add: dispatchBufferSize_def)
  with 2(3) 2(4) show ?case by (auto simp: fp_read_def split: list.splits if_splits)
next
  case (4 intr accept k j buf reads handle frm len rr tl_data rest reads' k' c)
  then show ?case using read_data_pieces [of intr "k + 1" "nat len - length (drop 28 buf)" reads tl_data reads' k'] by auto
qed auto

declare nbd_loop.simps [simp del]

definition Handle ::
  "(nat \<Rightarrow> error option) \<Rightarrow> (nat \<Rightarrow> nbd_cmd \<Rightarrow> error option) \<Rightarrow> bytes list \<Rightarrow> nbd_cmd list \<times> unit result" where
  "Handle intr accept reads =
     (case fp_read dispatchBufferSize reads of
        Inl e \<Rightarrow> ([], Inl e)
      | Inr (r, rest) \<Rightarrow> nbd_loop intr accept 0 0 r rest)"

section \<open>Commands\<close>

text \<open>A task has been started: its backend call is to be made; a read has read some of its blocks into
  the buffer and these are left; or the call has returned and the response is to be written. The flag is whether the task counts as a pending response (an inline
  zero-write does not).\<close>

datatype task =
    Running nbd_cmd
  | Reading int int "int list" bytes
  | Ready int int bytes

record 's Dispatch =
  dp_prov :: 's
  dp_pending :: "(bool \<times> task) list"
  dp_orphans :: "task list"
  dp_shuttingDown :: bool
  dp_cancelled :: bool
  dp_fatal :: "error option"
  dp_asyncWriteZeroes :: bool
  dp_wire :: "bytes list"

definition NewDispatch :: "'s \<Rightarrow> bool \<Rightarrow> 's Dispatch" where
  "NewDispatch prov asyncWriteZeroes =
     \<lparr>dp_prov = prov, dp_pending = [], dp_orphans = [], dp_shuttingDown = False, dp_cancelled = False,
      dp_fatal = None, dp_asyncWriteZeroes = asyncWriteZeroes, dp_wire = []\<rparr>"

definition start_task :: "bool \<Rightarrow> 's Dispatch \<Rightarrow> nbd_cmd \<Rightarrow> 's Dispatch" where
  "start_task counted d c = d\<lparr>dp_pending := dp_pending d @ [(counted, Running c)]\<rparr>"

definition cmdRead :: "'s Dispatch \<Rightarrow> int \<Rightarrow> int \<Rightarrow> int \<Rightarrow> 's Dispatch \<times> unit result" where
  "cmdRead d cmdHandle cmdFrom cmdLength =
     (if dp_shuttingDown d then (d, Inl (Err ''shutting down''))
      else (start_task True d (CmdRead cmdHandle cmdFrom cmdLength), Inr ()))"

definition cmdWrite :: "'s Dispatch \<Rightarrow> int \<Rightarrow> int \<Rightarrow> bytes \<Rightarrow> 's Dispatch \<times> unit result" where
  "cmdWrite d cmdHandle cmdFrom cmdData =
     (if dp_shuttingDown d then (d, Inl (Err ''shutting down''))
      else (start_task True d (CmdWrite cmdHandle cmdFrom cmdData), Inr ()))"

definition cmdWriteZeroes :: "'s Dispatch \<Rightarrow> int \<Rightarrow> int \<Rightarrow> int \<Rightarrow> 's Dispatch \<times> unit result" where
  "cmdWriteZeroes d cmdHandle cmdFrom cmdLength =
     (if \<not> dp_asyncWriteZeroes d then (start_task False d (CmdWriteZeroes cmdHandle cmdFrom cmdLength), Inr ())
      else if dp_shuttingDown d then (d, Inl (Err ''shutting down''))
      else (start_task True d (CmdWriteZeroes cmdHandle cmdFrom cmdLength), Inr ()))"

fun nbd_call :: "'s Dispatch \<Rightarrow> nbd_cmd \<Rightarrow> 's Dispatch \<times> unit result" where
  "nbd_call d (CmdRead h f n) = cmdRead d h f n"
| "nbd_call d (CmdWrite h f b) = cmdWrite d h f b"
| "nbd_call d (CmdWriteZeroes h f n) = cmdWriteZeroes d h f n"

fun cmd_handle :: "nbd_cmd \<Rightarrow> int" where
  "cmd_handle (CmdRead h f n) = h" | "cmd_handle (CmdWrite h f b) = h" | "cmd_handle (CmdWriteZeroes h f n) = h"

fun task_handle :: "task \<Rightarrow> int" where
  "task_handle (Running c) = cmd_handle c" | "task_handle (Reading h off blocks p) = h" | "task_handle (Ready h e data) = h"

fun task_ready :: "task \<Rightarrow> bool" where
  "task_ready (Ready h e data) = True" | "task_ready (Running c) = False" | "task_ready (Reading h off blocks p) = False"

text \<open>The next access of a task to the provider: its new state and the task after it. Writes and
  zero-writes are one access; a read goes over the blocks \<open>bk\<close> with the access \<open>rd\<close> for each, and other
  tasks may come between two of them. A failure gives the error byte.\<close>

fun backend ::
  "('s \<Rightarrow> int \<Rightarrow> int list) \<Rightarrow> ('s \<Rightarrow> int \<Rightarrow> int \<Rightarrow> bytes \<Rightarrow> bytes result) \<Rightarrow> ('s \<Rightarrow> bytes \<Rightarrow> int \<Rightarrow> ('s \<times> int) result) \<Rightarrow>
   ('s \<Rightarrow> int \<Rightarrow> int \<Rightarrow> ('s \<times> int) result) \<Rightarrow> 's \<Rightarrow> task \<Rightarrow> 's \<times> task" where
  "backend bk rd wr wz s (Running (CmdRead h f n)) = (s, Reading h (i64 f) (bk s n) (replicate (nat n) 0))"
| "backend bk rd wr wz s (Reading h off [] p) = (s, Ready h 0 p)"
| "backend bk rd wr wz s (Reading h off (b # blocks) p) =
     (case rd s off b p of Inl e \<Rightarrow> (s, Ready h 1 []) | Inr p' \<Rightarrow> (s, Reading h off blocks p'))"
| "backend bk rd wr wz s (Running (CmdWrite h f b)) =
     (case wr s b (i64 f) of Inl e \<Rightarrow> (s, Ready h 1 []) | Inr (s', m) \<Rightarrow> (s', Ready h 0 []))"
| "backend bk rd wr wz s (Running (CmdWriteZeroes h f n)) =
     (case wz s (i64 f) n of Inl e \<Rightarrow> (s, Ready h 1 []) | Inr (s', m) \<Rightarrow> (s', Ready h 0 []))"
| "backend bk rd wr wz s (Ready h e data) = (s, Ready h e data)"

definition remove_nth :: "nat \<Rightarrow> 'a list \<Rightarrow> 'a list" where
  "remove_nth i xs = take i xs @ drop (Suc i) xs"

text \<open>A failed response of a background task goes to the fatal channel, which holds one error; an inline
  zero-write returns it to the loop.\<close>

fun report_fatal :: "bool \<Rightarrow> error \<Rightarrow> error option \<Rightarrow> error option" where
  "report_fatal True err None = Some err"
| "report_fatal b err f = f"

text \<open>Tasks run concurrently: the accesses and the response of each are separate steps, responses are
  written under a lock. When the context is cancelled a task answers with an error although
  its backend call goes on.\<close>

inductive disp_step ::
  "('s \<Rightarrow> int \<Rightarrow> int list) \<Rightarrow> ('s \<Rightarrow> int \<Rightarrow> int \<Rightarrow> bytes \<Rightarrow> bytes result) \<Rightarrow> ('s \<Rightarrow> bytes \<Rightarrow> int \<Rightarrow> ('s \<times> int) result) \<Rightarrow>
   ('s \<Rightarrow> int \<Rightarrow> int \<Rightarrow> ('s \<times> int) result) \<Rightarrow> (nbd_cmd \<Rightarrow> bool) \<Rightarrow> 's Dispatch \<Rightarrow> 's Dispatch \<Rightarrow> bool"
  for bk rd wr wz ok where
  issue: "ok c \<Longrightarrow> nbd_call d c = (d', r) \<Longrightarrow> disp_step bk rd wr wz ok d d'"
| execute: "i < length (dp_pending d) \<Longrightarrow> dp_pending d ! i = (b, t) \<Longrightarrow> \<not> task_ready t \<Longrightarrow>
    backend bk rd wr wz (dp_prov d) t = (s', t') \<Longrightarrow>
    disp_step bk rd wr wz ok d (d\<lparr>dp_prov := s', dp_pending := (dp_pending d)[i := (b, t')]\<rparr>)"
| abandon: "dp_cancelled d \<Longrightarrow> i < length (dp_pending d) \<Longrightarrow> dp_pending d ! i = (b, t) \<Longrightarrow> \<not> task_ready t \<Longrightarrow>
    disp_step bk rd wr wz ok d (d\<lparr>dp_pending := (dp_pending d)[i := (b, Ready (task_handle t) 1 [])], dp_orphans := t # dp_orphans d\<rparr>)"
| orphan: "i < length (dp_orphans d) \<Longrightarrow> backend bk rd wr wz (dp_prov d) (dp_orphans d ! i) = (s', t') \<Longrightarrow>
    disp_step bk rd wr wz ok d (d\<lparr>dp_prov := s', dp_orphans := (dp_orphans d)[i := t']\<rparr>)"
| respond: "i < length (dp_pending d) \<Longrightarrow> dp_pending d ! i = (b, Ready h e data) \<Longrightarrow>
    disp_step bk rd wr wz ok d (d\<lparr>dp_pending := remove_nth i (dp_pending d), dp_wire := dp_wire d @ [response_bytes e h data]\<rparr>)"
| respond_fails: "i < length (dp_pending d) \<Longrightarrow> dp_pending d ! i = (b, Ready h e data) \<Longrightarrow>
    disp_step bk rd wr wz ok d (d\<lparr>dp_pending := remove_nth i (dp_pending d),
      dp_fatal := report_fatal b err (dp_fatal d)\<rparr>)"
| cancel_ctx: "disp_step bk rd wr wz ok d (d\<lparr>dp_cancelled := True\<rparr>)"
| drain: "disp_step bk rd wr wz ok d (d\<lparr>dp_shuttingDown := True\<rparr>)"

section \<open>The stream without its pieces\<close>

function nbd_spec :: "(nat \<Rightarrow> nbd_cmd \<Rightarrow> error option) \<Rightarrow> nat \<Rightarrow> bytes \<Rightarrow> nbd_cmd list \<times> unit result" where
  "nbd_spec accept j s =
     (if length s < 28 then ([], Inl EOF)
      else
        (case decide (parse_request (take 28 s)) of
           AStop out \<Rightarrow> ([], out)
         | ACmd c \<Rightarrow>
             (case accept j c of
                Some e \<Rightarrow> ([], Inl e)
              | None \<Rightarrow> apfst ((#) c) (nbd_spec accept (j + 1) (drop 28 s)))
         | AData handle frm len \<Rightarrow>
             if length (drop 28 s) < nat len then ([], Inl EOF)
             else let c = CmdWrite handle frm (take (nat len) (drop 28 s))
                  in (case accept j c of
                        Some e \<Rightarrow> ([], Inl e)
                      | None \<Rightarrow> apfst ((#) c) (nbd_spec accept (j + 1) (drop (nat len) (drop 28 s))))))"
  by pat_completeness auto
termination
  by (relation "measure (\<lambda>(accept, j, s). length s)") auto

declare nbd_spec.simps [simp del]

lemma read_data_spec:
  assumes "\<forall>k. intr k = None"
  shows "if need \<le> length (concat reads)
    then \<exists>rest k'. read_data intr k need reads = Inr (take need (concat reads), rest, k') \<and> concat rest = drop need (concat reads)
    else read_data intr k need reads = Inl EOF"
  using assms
proof (induction intr k need reads rule: read_data.induct)
  case (1 intr k need reads)
  show ?case
  proof (cases "need = 0")
    case True
    then show ?thesis by (subst (1 2) read_data.simps) simp
  next
    case False
    show ?thesis
    proof (cases reads)
      case Nil
      then show ?thesis using False by (subst (1 2) read_data.simps) (simp add: fp_read_def)
    next
      case (Cons x xs)
      define r rest where "r = take need x" and "rest = (if length x \<le> need then xs else drop need x # xs)"
      have rd: "fp_read need reads = Inr (r, rest)" using Cons by (simp add: fp_read_def r_def rest_def)
      note fr = fp_read_pieces(2) [OF rd]
      note ih = 1(1) [OF False rd refl _ 1(2)] 
      have k: "intr k = None" using 1(2) by simp
      have eq: "read_data intr k need reads = (case read_data intr (k + 1) (need - length r) rest of
          Inl e \<Rightarrow> Inl e | Inr (d, rest', k') \<Rightarrow> Inr (r @ d, rest', k'))"
        using False rd k by (subst read_data.simps) simp
      show ?thesis
      proof (cases "need \<le> length (concat reads)")
        case True
        then have "need - length r \<le> length (concat rest)" using fr by simp
        then obtain rest' k' where "read_data intr (k + 1) (need - length r) rest = Inr (take (need - length r) (concat rest), rest', k')"
          "concat rest' = drop (need - length r) (concat rest)"
          using ih [OF k] by auto
        then show ?thesis using True fr eq by simp
      next
        case no: False
        then have "\<not> need - length r \<le> length (concat rest)" using fr by simp
        then have "read_data intr (k + 1) (need - length r) rest = Inl EOF" using ih [OF k] by simp
        then show ?thesis using no eq by simp
      qed
    qed
  qed
qed

lemma nbd_loop_spec:
  assumes "\<forall>k. intr k = None"
  shows "nbd_loop intr accept k j buf reads = nbd_spec accept j (buf @ concat reads)"
  using assms
proof (induction intr accept k j buf reads rule: nbd_loop.induct)
  case (1 intr accept k j buf reads)
  have k: "intr k = None" using 1(4) by simp
  show ?case
  proof (cases "length buf < 28")
    case True
    show ?thesis
    proof (cases "fp_read (dispatchBufferSize - length buf) reads")
      case (Inl e)
      then have "reads = []" "e = EOF" by (auto simp: fp_read_def split: list.splits if_splits)
      then show ?thesis using True k by (subst nbd_loop.simps, subst nbd_spec.simps) (simp add: fp_read_def)
    next
      case (Inr p)
      obtain r rest where p: "p = (r, rest)" by fastforce
      have "nbd_loop intr accept k j buf reads = nbd_loop intr accept (k + 1) j (buf @ r) rest"
        using True k Inr p by (subst nbd_loop.simps) simp
      also have "\<dots> = nbd_spec accept j ((buf @ r) @ concat rest)" using 1(1) [OF k True Inr p [symmetric] 1(4)] .
      also have "(buf @ r) @ concat rest = buf @ concat reads" using fp_read_pieces(2) [OF Inr [unfolded p]] by simp
      finally show ?thesis .
    qed
  next
    case False
    let ?s = "buf @ concat reads"
    have s: "take 28 ?s = take 28 buf" "drop 28 ?s = drop 28 buf @ concat reads" "\<not> length ?s < 28" using False by simp_all
    show ?thesis
    proof (cases "decide (parse_request (take 28 buf))")
      case (AStop out)
      then show ?thesis using False k s by (subst nbd_loop.simps, subst nbd_spec.simps) simp
    next
      case (ACmd c)
      show ?thesis
      proof (cases "accept j c")
        case None
        from 1(2) [OF k False ACmd None 1(4)] show ?thesis
          using False k s ACmd None by (subst nbd_loop.simps, subst nbd_spec.simps) simp
      qed (use False k s ACmd in \<open>subst nbd_loop.simps, subst nbd_spec.simps, simp\<close>)
    next
      case (AData handle frm len)
      let ?rest = "drop 28 buf" and ?C = "concat reads"
      let ?need = "nat len - length ?rest"
      have long: "length (drop 28 ?s) < nat len \<longleftrightarrow> \<not> ?need \<le> length ?C" using s(2) by auto
      show ?thesis
      proof (cases "?need \<le> length ?C")
        case True
        then obtain rest' k' where rd: "read_data intr (k + 1) ?need reads = Inr (take ?need ?C, rest', k')" "concat rest' = drop ?need ?C"
          using read_data_spec [OF 1(4), of ?need reads "k + 1"] by auto
        have t: "take (nat len) ?rest @ take ?need ?C = take (nat len) (drop 28 ?s)"
          "drop (nat len) ?rest @ drop ?need ?C = drop (nat len) (drop 28 ?s)" using s(2) by simp_all
        let ?c = "CmdWrite handle frm (take (nat len) (drop 28 ?s))"
        show ?thesis
        proof (cases "accept j ?c")
          case None
          have "nbd_loop intr accept k' (j + 1) (drop (nat len) ?rest) rest' = nbd_spec accept (j + 1) (drop (nat len) (drop 28 ?s))"
            using 1(3) [OF k False AData rd(1) refl refl refl _ 1(4)] None t rd(2) by simp
          then show ?thesis using False k s(1,3) AData rd(1) t long True None
            by (subst nbd_loop.simps, subst nbd_spec.simps) (simp add: Let_def)
        next
          case (Some e)
          then show ?thesis using False k s(1,3) AData rd(1) t long True
            by (subst nbd_loop.simps, subst nbd_spec.simps) (simp add: Let_def)
        qed
      next
        case no: False
        then have "read_data intr (k + 1) ?need reads = Inl EOF" using read_data_spec [OF 1(4), of ?need reads "k + 1"] by simp
        then show ?thesis using False k s AData long no by (subst nbd_loop.simps, subst nbd_spec.simps) simp
      qed
    qed
  qed
qed

lemma Handle_spec: "\<forall>k. intr k = None \<Longrightarrow> Handle intr accept reads = nbd_spec accept 0 (concat reads)"
proof (cases "fp_read dispatchBufferSize reads")
  case (Inl e)
  then have "reads = []" "e = EOF" by (auto simp: fp_read_def split: list.splits if_splits)
  then show ?thesis by (simp add: Handle_def fp_read_def nbd_spec.simps [of accept 0 "[]"])
next
  case (Inr p)
  assume "\<forall>k. intr k = None"
  then show ?thesis using Inr nbd_loop_spec [of intr accept 0 0] fp_read_pieces(2) [of dispatchBufferSize reads "fst p" "snd p"]
    by (cases p) (simp add: Handle_def)
qed

section \<open>Sizes\<close>

fun cmd_bounded :: "nbd_cmd \<Rightarrow> bool" where
  "cmd_bounded (CmdRead h f n) = (0 \<le> h \<and> h < 2 ^ 64 \<and> 0 \<le> f \<and> f < 2 ^ 64 \<and> 0 \<le> n \<and> n < 2 ^ 32)"
| "cmd_bounded (CmdWrite h f b) = (0 \<le> h \<and> h < 2 ^ 64 \<and> 0 \<le> f \<and> f < 2 ^ 64 \<and> int (length b) \<le> dispatchMaxWriteBufferSize)"
| "cmd_bounded (CmdWriteZeroes h f n) = (0 \<le> h \<and> h < 2 ^ 64 \<and> 0 \<le> f \<and> f < 2 ^ 64 \<and> 0 \<le> n \<and> n < 2 ^ 32)"

lemma be_int_bounds: "length b \<le> n \<Longrightarrow> 0 \<le> be_int b \<and> be_int b < 256 ^ n"
proof -
  assume "length b \<le> n"
  then have "(256 :: int) ^ length b \<le> 256 ^ n" by (intro power_increasing) simp_all
  moreover have "0 \<le> be_int b" "be_int b < 256 ^ length b" using le_int_bounds [of "rev b"] by (simp_all add: be_int_def)
  ultimately show ?thesis by linarith
qed

lemma parse_request_bounds:
  "0 \<le> rq_Handle (parse_request b) \<and> rq_Handle (parse_request b) < 2 ^ 64"
  "0 \<le> rq_From (parse_request b) \<and> rq_From (parse_request b) < 2 ^ 64"
  "0 \<le> rq_Length (parse_request b) \<and> rq_Length (parse_request b) < 2 ^ 32"
  using be_int_bounds [of "take 8 (drop 8 b)" 8] be_int_bounds [of "take 8 (drop 16 b)" 8] be_int_bounds [of "take 4 (drop 24 b)" 4]
  by (simp_all add: parse_request_def)

lemma decide_bounded:
  "decide (parse_request b) = ACmd c \<Longrightarrow> cmd_bounded c"
  "decide (parse_request b) = AData h f n \<Longrightarrow> cmd_bounded (CmdWrite h f []) \<and> 0 \<le> n \<and> n \<le> dispatchMaxWriteBufferSize"
  using parse_request_bounds [of b] by (auto simp: decide_def dispatchMaxWriteBufferSize_def split: if_splits)

lemma read_data_length: "read_data intr k need reads = Inr (d, rest, k') \<Longrightarrow> length d = need"
proof (induction intr k need reads arbitrary: d rest k' rule: read_data.induct)
  case (1 intr k need reads)
  show ?case
  proof (cases "need = 0")
    case True
    then show ?thesis using 1(2) by (simp add: read_data.simps)
  next
    case False
    then obtain r rst d' where r: "fp_read need reads = Inr (r, rst)" "intr k = None"
      "read_data intr (k + 1) (need - length r) rst = Inr (d', rest, k')" "d = r @ d'"
      using 1(2) by (subst (asm) read_data.simps) (auto split: option.splits sum.splits)
    then show ?thesis using 1(1) [OF False r(1) refl r(2,3)] fp_read_pieces(2) [OF r(1)] by simp
  qed
qed

lemma nbd_loop_bounded: "c \<in> set (fst (nbd_loop intr accept k j buf reads)) \<Longrightarrow> cmd_bounded c"
proof (induction intr accept k j buf reads rule: nbd_loop.induct)
  case (1 intr accept k j buf reads)
  have k: "intr k = None" using 1(4) by (subst (asm) nbd_loop.simps) (auto split: option.splits)
  show ?case
  proof (cases "length buf < 28")
    case True
    then show ?thesis using 1(4) k 1(1) [OF k True]
      by (subst (asm) nbd_loop.simps) (auto split: sum.splits)
  next
    case False
    show ?thesis
    proof (cases "decide (parse_request (take 28 buf))")
      case (AData handle frm len)
      obtain m reads' k' where rd: "read_data intr (k + 1) (nat len - length (drop 28 buf)) reads = Inr (m, reads', k')"
        using 1(4) k False AData by (subst (asm) nbd_loop.simps) (auto split: sum.splits)
      let ?c = "CmdWrite handle frm (take (nat len) (drop 28 buf) @ m)"
      have "int (length (take (nat len) (drop 28 buf) @ m)) \<le> dispatchMaxWriteBufferSize"
        using read_data_length [OF rd] decide_bounded(2) [OF AData] by (auto simp: dispatchMaxWriteBufferSize_def)
      then have "cmd_bounded ?c" using decide_bounded(2) [OF AData] by simp
      moreover have "c = ?c \<or> c \<in> set (fst (nbd_loop intr accept k' (j + 1) (drop (nat len) (drop 28 buf)) reads'))" "accept j ?c = None"
        using 1(4) k False AData rd by (subst (asm) nbd_loop.simps; auto simp: Let_def split: option.splits)+
      ultimately show ?thesis using 1(3) [OF k False AData rd refl refl refl] by blast
    qed (use 1(4) k False 1(2) [OF k False] decide_bounded(1) in
        \<open>(subst (asm) nbd_loop.simps, auto split: option.splits)+\<close>)
  qed
qed

section \<open>A dispatcher over an array\<close>

definition arr_blocks :: "int \<Rightarrow> bytes \<Rightarrow> int \<Rightarrow> int list" where
  "arr_blocks bs img len = BlocksOffsets len bs"

definition arr_block :: "int \<Rightarrow> bytes \<Rightarrow> int \<Rightarrow> int \<Rightarrow> bytes \<Rightarrow> bytes result" where
  "arr_block bs img off b p = Inr (overwrite p b (sub img (off + b) (off + b + bs)))"

definition arr_write :: "bytes \<Rightarrow> bytes \<Rightarrow> int \<Rightarrow> (bytes \<times> int) result" where
  "arr_write img p off = Inr (overwrite img off p, int (length p))"

definition arr_zeroes :: "bytes \<Rightarrow> int \<Rightarrow> int \<Rightarrow> (bytes \<times> int) result" where
  "arr_zeroes img off len = Inr (overwrite img off (replicate (nat len) 0), len)"

text \<open>The request is aligned and inside a device of \<open>n\<close> bytes.\<close>

fun cmd_fits :: "int \<Rightarrow> nat \<Rightarrow> nbd_cmd \<Rightarrow> bool" where
  "cmd_fits bs n (CmdRead h f m) = req_fits bs (replicate n 0) (i64 f) m"
| "cmd_fits bs n (CmdWrite h f b) = req_fits bs (replicate n 0) (i64 f) (int (length b))"
| "cmd_fits bs n (CmdWriteZeroes h f m) = req_fits bs (replicate n 0) (i64 f) m"

definition with_prov :: "'s Dispatch \<Rightarrow> 't \<Rightarrow> 't Dispatch" where
  "with_prov d p = \<lparr>dp_prov = p, dp_pending = dp_pending d, dp_orphans = dp_orphans d, dp_shuttingDown = dp_shuttingDown d,
     dp_cancelled = dp_cancelled d, dp_fatal = dp_fatal d, dp_asyncWriteZeroes = dp_asyncWriteZeroes d, dp_wire = dp_wire d\<rparr>"

lemma with_prov_simps [simp]:
  "dp_prov (with_prov d p) = p" "dp_pending (with_prov d p) = dp_pending d" "dp_orphans (with_prov d p) = dp_orphans d"
  "dp_shuttingDown (with_prov d p) = dp_shuttingDown d" "dp_cancelled (with_prov d p) = dp_cancelled d"
  "dp_fatal (with_prov d p) = dp_fatal d" "dp_wire (with_prov d p) = dp_wire d"
  by (simp_all add: with_prov_def)

fun task_fits :: "int \<Rightarrow> nat \<Rightarrow> task \<Rightarrow> bool" where
  "task_fits bs n (Running c) = cmd_fits bs n c"
| "task_fits bs n (Reading h off blocks p) = (bs dvd off \<and> 0 \<le> off \<and> 0 < bs \<and>
     (\<forall>b \<in> set blocks. bs dvd b \<and> 0 \<le> b \<and> b + bs \<le> int (length p) \<and> off + (b + bs) \<le> int n))"
| "task_fits bs n (Ready h e data) = True"

definition tasks_fit :: "int \<Rightarrow> nat \<Rightarrow> 's Dispatch \<Rightarrow> bool" where
  "tasks_fit bs n d \<longleftrightarrow> (\<forall>(b, t) \<in> set (dp_pending d). task_fits bs n t) \<and> (\<forall>t \<in> set (dp_orphans d). task_fits bs n t)"

lemma set_remove_nth: "set (remove_nth i xs) \<subseteq> set xs"
  by (auto simp: remove_nth_def dest: in_set_takeD in_set_dropD)

lemma nbd_call_with_prov: "nbd_call (with_prov d p) c = apfst (\<lambda>d'. with_prov d' p) (nbd_call d c)"
  by (cases c) (simp_all add: cmdRead_def cmdWrite_def cmdWriteZeroes_def start_task_def with_prov_def)

lemma nbd_call_same:
  "nbd_call d c = (d', r) \<Longrightarrow> dp_prov d' = dp_prov d \<and> dp_orphans d' = dp_orphans d \<and>
     (dp_pending d' = dp_pending d \<or> (\<exists>b. dp_pending d' = dp_pending d @ [(b, Running c)]))"
  by (cases c) (auto simp: cmdRead_def cmdWrite_def cmdWriteZeroes_def start_task_def split: if_splits)

context block_reader
begin

text \<open>An access to the device acts as the access to the array.\<close>

lemma backend_law:
  assumes "rep s bs img" "task_fits bs (length img) t"
  shows "\<exists>s' img' t'. backend dev_blocks dev_block dev_write dev_zeroes s t = (s', t') \<and>
    backend (arr_blocks bs) (arr_block bs) arr_write arr_zeroes img t = (img', t') \<and> rep s' bs img' \<and> length img' = length img \<and>
    task_fits bs (length img) t'"
proof (cases t)
  case (Running c)
  show ?thesis
  proof (cases c)
    case (CmdRead h f n)
    then have f: "req_fits bs img (i64 f) n" using assms(2) Running by (simp add: req_fits_def)
    then show ?thesis using blocks_law [OF assms(1) f] assms(1) Running CmdRead
      by (auto simp: arr_blocks_def req_fits_def)
  next
    case (CmdWrite h f b)
    then have f: "req_fits bs img (i64 f) (int (length b))" using assms(2) Running by (simp add: req_fits_def)
    then have "length (overwrite img (i64 f) b) = length img" by (simp add: req_fits_def)
    then show ?thesis using write_law [OF assms(1) f] Running CmdWrite by (auto simp: arr_write_def)
  next
    case (CmdWriteZeroes h f n)
    then have f: "req_fits bs img (i64 f) n" using assms(2) Running by (simp add: req_fits_def)
    then have "length (overwrite img (i64 f) (replicate (nat n) 0)) = length img" by (simp add: req_fits_def)
    then show ?thesis using zeroes_law [OF assms(1) f] Running CmdWriteZeroes by (auto simp: arr_zeroes_def)
  qed
next
  case (Reading h off blocks p)
  show ?thesis
  proof (cases blocks)
    case (Cons b rest)
    let ?blk = "sub img (off + b) (off + b + bs)"
    have f: "bs dvd off" "0 \<le> off" "bs dvd b" "0 \<le> b" "b + bs \<le> int (length p)" "off + (b + bs) \<le> int (length img)" "0 < bs"
      using assms(2) Reading Cons by simp_all
    then have "length (overwrite p b ?blk) = length p" by simp
    then show ?thesis using block_law [OF assms(1) f(1-6)] assms Reading Cons by (simp add: arr_block_def)
  qed (use assms(1) Reading in simp)
qed (use assms(1) in simp)

lemma disp_step_law:
  assumes "disp_step dev_blocks dev_block dev_write dev_zeroes (cmd_fits bs n) d d'"
    and "rep (dp_prov d) bs img" "length img = n" "tasks_fit bs n d"
  shows "\<exists>img'. disp_step (arr_blocks bs) (arr_block bs) arr_write arr_zeroes (cmd_fits bs n) (with_prov d img) (with_prov d' img') \<and>
    rep (dp_prov d') bs img' \<and> length img' = n \<and> tasks_fit bs n d'"
  using assms(1)
proof cases
  case (issue c r)
  have "disp_step (arr_blocks bs) (arr_block bs) arr_write arr_zeroes (cmd_fits bs n) (with_prov d img) (with_prov d' img)"
    using disp_step.issue [where ok = "cmd_fits bs n" and c = c and d = "with_prov d img" and d' = "with_prov d' img" and r = r] issue by (simp add: nbd_call_with_prov)
  moreover have "tasks_fit bs n d'" using nbd_call_same [OF issue(2)] assms(4) issue(1) by (auto simp: tasks_fit_def)
  ultimately show ?thesis using nbd_call_same [OF issue(2)] assms(2,3) by auto
next
  case (execute i b t s' t')
  have "task_fits bs (length img) t" using assms(3,4) execute(2,3) nth_mem [of i "dp_pending d"] by (auto simp: tasks_fit_def)
  then obtain img' where i: "backend (arr_blocks bs) (arr_block bs) arr_write arr_zeroes img t = (img', t')" "rep s' bs img'"
    "length img' = length img" "task_fits bs (length img) t'"
    using backend_law [OF assms(2)] execute(5) by fastforce
  have "tasks_fit bs n d'" using assms(3,4) execute(1) i(4)
    by (auto simp: tasks_fit_def dest!: set_update_subset_insert [THEN subsetD])
  then show ?thesis
    using disp_step.execute [of i "with_prov d img" b t "arr_blocks bs" "arr_block bs" arr_write arr_zeroes img' t' "cmd_fits bs n"]
      execute i assms(3)
    by (intro exI [of _ img']) (simp add: with_prov_def)
next
  case (abandon i b t)
  have "task_fits bs n t" using assms(4) abandon(3,4) nth_mem [of i "dp_pending d"] by (auto simp: tasks_fit_def)
  then have "tasks_fit bs n d'" using assms(4) abandon(1)
    by (auto simp: tasks_fit_def dest!: set_update_subset_insert [THEN subsetD])
  then show ?thesis
    using disp_step.abandon [of "with_prov d img" i b t "arr_blocks bs" "arr_block bs" arr_write arr_zeroes "cmd_fits bs n"] abandon assms(2,3)
    by (intro exI [of _ img]) (simp add: with_prov_def)
next
  case (orphan i s' t')
  have "task_fits bs (length img) (dp_orphans d ! i)" using assms(3,4) orphan(2) nth_mem [of i "dp_orphans d"] by (simp add: tasks_fit_def)
  then obtain img' where i: "backend (arr_blocks bs) (arr_block bs) arr_write arr_zeroes img (dp_orphans d ! i) = (img', t')" "rep s' bs img'"
    "length img' = length img" "task_fits bs (length img) t'"
    using backend_law [OF assms(2)] orphan(3) by fastforce
  have "tasks_fit bs n d'" using assms(3,4) orphan(1) i(4)
    by (auto simp: tasks_fit_def dest!: set_update_subset_insert [THEN subsetD])
  then show ?thesis
    using disp_step.orphan [of i "with_prov d img" "arr_blocks bs" "arr_block bs" arr_write arr_zeroes img' t' "cmd_fits bs n"] orphan i assms(3)
    by (intro exI [of _ img']) (simp add: with_prov_def)
next
  case (respond i b h e data)
  have "tasks_fit bs n d'" using assms(4) respond(1) set_remove_nth [of i "dp_pending d"] by (auto simp: tasks_fit_def)
  then show ?thesis
    using disp_step.respond [of i "with_prov d img" b h e data "arr_blocks bs" "arr_block bs" arr_write arr_zeroes "cmd_fits bs n"] respond assms(2,3)
    by (intro exI [of _ img]) (simp add: with_prov_def)
next
  case (respond_fails i b h e data err)
  have "tasks_fit bs n d'" using assms(4) respond_fails(1) set_remove_nth [of i "dp_pending d"] by (auto simp: tasks_fit_def)
  then show ?thesis
    using disp_step.respond_fails [of i "with_prov d img" b h e data "arr_blocks bs" "arr_block bs" arr_write arr_zeroes "cmd_fits bs n" err] respond_fails assms(2,3)
    by (intro exI [of _ img]) (simp add: with_prov_def)
next
  case cancel_ctx
  then show ?thesis
    using disp_step.cancel_ctx [of "arr_blocks bs" "arr_block bs" arr_write arr_zeroes "cmd_fits bs n" "with_prov d img"] assms(2-4)
    by (intro exI [of _ img]) (simp add: with_prov_def tasks_fit_def)
next
  case drain
  then show ?thesis
    using disp_step.drain [of "arr_blocks bs" "arr_block bs" arr_write arr_zeroes "cmd_fits bs n" "with_prov d img"] assms(2-4)
    by (intro exI [of _ img]) (simp add: with_prov_def tasks_fit_def)
qed

lemma disp_run_law:
  assumes "(disp_step dev_blocks dev_block dev_write dev_zeroes (cmd_fits bs n))\<^sup>*\<^sup>* d d'"
    and "rep (dp_prov d) bs img" "length img = n" "tasks_fit bs n d"
  shows "\<exists>img'. (disp_step (arr_blocks bs) (arr_block bs) arr_write arr_zeroes (cmd_fits bs n))\<^sup>*\<^sup>* (with_prov d img) (with_prov d' img') \<and>
    rep (dp_prov d') bs img' \<and> length img' = n \<and> tasks_fit bs n d'"
  using assms(1)
proof (induction rule: rtranclp_induct)
  case base
  then show ?case using assms(2-4) by blast
next
  case (step y z)
  then obtain img1 where i: "(disp_step (arr_blocks bs) (arr_block bs) arr_write arr_zeroes (cmd_fits bs n))\<^sup>*\<^sup>* (with_prov d img) (with_prov y img1)"
    "rep (dp_prov y) bs img1" "length img1 = n" "tasks_fit bs n y" by blast
  obtain img2 where "disp_step (arr_blocks bs) (arr_block bs) arr_write arr_zeroes (cmd_fits bs n) (with_prov y img1) (with_prov z img2)"
    "rep (dp_prov z) bs img2" "length img2 = n" "tasks_fit bs n z"
    using disp_step_law [OF step(2) i(2-4)] by blast
  then show ?case using rtranclp.rtrancl_into_rtrancl [OF i(1)] by blast
qed

end

context roaring_bitmap
begin

lemmas overlay_disp_run = ovrd.disp_run_law
lemmas overlay_read = ovdev.read_law

end

section \<open>Properties\<close>

text \<open>(C13) The commands that the read loop issues, and how it ends, depend on the bytes of the connection
  only, not on the pieces in which they arrive: headers and data may be cut anywhere, several
  requests may come in one piece, and data may exceed the buffer.\<close>

theorem Handle_split_independent:
  assumes "\<forall>k. intr k = None"
  shows "Handle intr accept reads = nbd_spec accept 0 (concat reads)"
  using assms by (rule Handle_spec)

theorem Handle_split_independent_witness:
  "Handle (\<lambda>_. None) (\<lambda>_ _. None)
     [[0x25, 0x60, 0x95], [0x13, 0, 0, 0, 1, 0, 0, 0, 0, 0, 0, 0, 7, 0, 0, 0, 0, 0, 0, 0x10, 0, 0, 0, 0],
      [2, 42], [43, 0x25, 0x60, 0x95, 0x13, 0, 0, 0, 2] @ replicate 20 0] =
   ([CmdWrite 7 4096 [42, 43]], Inr ())"
proof -
  have "nbd_spec (\<lambda>_ _. None) 0 (concat
     [[0x25, 0x60, 0x95], [0x13, 0, 0, 0, 1, 0, 0, 0, 0, 0, 0, 0, 7, 0, 0, 0, 0, 0, 0, 0x10, 0, 0, 0, 0],
      [2, 42], [43, 0x25, 0x60, 0x95, 0x13, 0, 0, 0, 2] @ replicate 20 0]) = ([CmdWrite 7 4096 [42, 43]], Inr ())"
    by code_simp
  then show ?thesis by (simp only: Handle_split_independent [OF allI, OF refl])
qed

text \<open>However the connection misbehaves, what the loop passes on is bounded: the data of a write
  by the 32 MiB that the loop allocates at most, handles and offsets by 64 bits, the lengths of reads
  and zero-writes by 32 bits.\<close>

theorem Handle_commands_bounded:
  assumes "c \<in> set (fst (Handle intr accept reads))"
  shows "cmd_bounded c"
  using assms nbd_loop_bounded by (auto simp: Handle_def split: sum.splits)

theorem Handle_commands_bounded_witness:
  "cmd_bounded (CmdRead 1 2 3)"
proof (rule Handle_commands_bounded)
  show "CmdRead 1 2 3 \<in> set (fst (Handle (\<lambda>_. None) (\<lambda>_ _. None)
    [[0x25, 0x60, 0x95, 0x13, 0, 0, 0, 0, 0, 0, 0, 0, 0, 0, 0, 1, 0, 0, 0, 0, 0, 0, 0, 2, 0, 0, 0, 3]]))"
    by (simp only: Handle_spec [OF allI, OF refl]) code_simp
qed

text \<open>(C12) The dispatcher over an overlay with a fresh cache answers as a dispatcher over a plain array of
  bytes does: in every interleaving of requests, accesses to the device, responses, cancellation
  and draining, each run is matched by a run over the array in the same state of all tasks and with
  the same responses on the wire, and at its end every aligned read of the overlay gives what the
  array holds. Writes and zero-writes are atomic in both; a read is atomic for each block only, so
  writes may fall between the blocks of a read, in the array as in the overlay.\<close>

theorem Dispatch_refines_array:
  assumes "roaring_bitmap ops bset" "map_file path sz = Inr m" "int (length m) = sz"
    and "0 < sz" "0 < bs" "bs dvd sz" "sz div bs < 4294967296" "sz + bs \<le> max_i64"
    and "NewCache ops map_file sz bs path False = Inr c"
    and "reads_from device bs base" "length base = length m"
    and "(disp_step overlay_blocks (read_block ops) (Overlay_WriteAt ops) (Overlay_WriteZeroesAt ops) (cmd_fits bs (length base)))\<^sup>*\<^sup>*
      (NewDispatch (NewOverlay device bs c) async) d"
  shows "\<exists>img. (disp_step (arr_blocks bs) (arr_block bs) arr_write arr_zeroes (cmd_fits bs (length base)))\<^sup>*\<^sup>*
      (NewDispatch base async) (with_prov d img) \<and> length img = length base \<and>
    (\<forall>p off. req_fits bs img off (int (length p)) \<longrightarrow>
       Overlay_ReadAt ops (dp_prov d) p off = Inr (sub img off (off + int (length p)), int (length p)))"
proof -
  have "roaring_bitmap.overlay_rep bset (NewOverlay device bs c) bs base"
    using assms by (intro roaring_bitmap.fresh_overlay_rep)
  then obtain img where "(disp_step (arr_blocks bs) (arr_block bs) arr_write arr_zeroes (cmd_fits bs (length base)))\<^sup>*\<^sup>*
      (NewDispatch base async) (with_prov d img)" "roaring_bitmap.overlay_rep bset (dp_prov d) bs img" "length img = length base"
    using roaring_bitmap.overlay_disp_run [OF assms(1,12), of base]
    by (auto simp: NewDispatch_def with_prov_def tasks_fit_def)
  then show ?thesis using roaring_bitmap.overlay_read [OF assms(1)] by blast
qed

definition example_overlay :: "32 word list Overlay" where
  "example_overlay = NewOverlay (\<lambda>buf off. Inr (sub [1, 2, 3, 4, 5, 6] off (off + int (length buf)), int (length buf))) 2
     \<lparr>c_filePath = ''d'', c_size = 6, c_blockSize = 2, c_mmap = Some (replicate 6 0),
      c_tracker = NewTracker listbm_ops, c_dirtyFile = False, c_closed = False\<rparr>"

definition example_written :: "32 word list Overlay" where
  "example_written = (case Overlay_WriteAt listbm_ops example_overlay [9, 8] 4 of Inr (ov, n) \<Rightarrow> ov | Inl e \<Rightarrow> example_overlay)"

definition example_disp :: "32 word list Overlay \<Rightarrow> task list \<Rightarrow> 32 word list Overlay Dispatch" where
  "example_disp ov ts = (NewDispatch ov True)\<lparr>dp_pending := map (Pair True) ts\<rparr>"

abbreviation example_nbd_step :: "32 word list Overlay Dispatch \<Rightarrow> 32 word list Overlay Dispatch \<Rightarrow> bool" where
  "example_nbd_step \<equiv> disp_step overlay_blocks (read_block listbm_ops) (Overlay_WriteAt listbm_ops) (Overlay_WriteZeroesAt listbm_ops) (cmd_fits 2 6)"

lemma example_issue:
  "cmd_fits 2 6 c \<Longrightarrow> example_nbd_step (example_disp ov ts) (example_disp ov (ts @ [Running c]))"
  by (rule disp_step.issue [of _ c _ _ "Inr ()"], assumption, cases c)
    (simp_all add: cmdRead_def cmdWrite_def cmdWriteZeroes_def start_task_def NewDispatch_def example_disp_def)

lemma example_execute:
  assumes "i < length ts" "\<not> task_ready (ts ! i)"
    and "backend overlay_blocks (read_block listbm_ops) (Overlay_WriteAt listbm_ops) (Overlay_WriteZeroesAt listbm_ops) ov (ts ! i) = (ov', t')"
  shows "example_nbd_step (example_disp ov ts) (example_disp ov' (ts[i := t']))"
  using disp_step.execute [of i "example_disp ov ts" True "ts ! i" overlay_blocks "read_block listbm_ops" "Overlay_WriteAt listbm_ops"
      "Overlay_WriteZeroesAt listbm_ops" ov' t' "cmd_fits 2 6"] assms
  by (simp add: example_disp_def NewDispatch_def map_update)

text \<open>A read of two blocks with a write of the second one between its accesses.\<close>

lemma example_nbd_run:
  "example_nbd_step\<^sup>*\<^sup>* (NewDispatch example_overlay True) (example_disp example_written [Ready 1 0 [3, 4, 9, 8], Ready 2 0 []])"
proof -
  let ?r = "CmdRead 1 2 4" and ?w = "CmdWrite 2 4 [9, 8]" and ?d = "example_disp example_overlay" and ?d' = "example_disp example_written"
  have fit: "cmd_fits 2 6 ?r" "cmd_fits 2 6 ?w" by (simp_all add: req_fits_def i64_id)
  have 1: "example_nbd_step (NewDispatch example_overlay True) (?d [Running ?r])"
    using example_issue [OF fit(1), of example_overlay "[]"] by (simp add: example_disp_def NewDispatch_def)
  have 2: "example_nbd_step (?d [Running ?r]) (?d [Running ?r, Running ?w])"
    using example_issue [OF fit(2), of example_overlay "[Running ?r]"] by simp
  note ex = example_execute
  have bl: "overlay_blocks example_overlay 4 = [0, 2]" by code_simp
  have b1: "read_block listbm_ops example_overlay 2 0 [0, 0, 0, 0] = Inr [3, 4, 0, 0]" by code_simp
  have b2: "read_block listbm_ops example_written 2 2 [3, 4, 0, 0] = Inr [3, 4, 9, 8]" by code_simp
  have "case Overlay_WriteAt listbm_ops example_overlay [9, 8] 4 of Inr (ov, n) \<Rightarrow> n = 2 | Inl e \<Rightarrow> False" by code_simp
  then have w: "Overlay_WriteAt listbm_ops example_overlay [9, 8] 4 = Inr (example_written, 2)"
    by (auto simp: example_written_def split: sum.splits)
  have i: "i64 2 = 2" "i64 4 = 4" by code_simp+
  have 3: "example_nbd_step (?d [Running ?r, Running ?w]) (?d [Reading 1 2 [0, 2] [0, 0, 0, 0], Running ?w])"
    using ex [of 0 "[Running ?r, Running ?w]" example_overlay] by (simp add: bl i numeral_eq_Suc)
  have 4: "example_nbd_step (?d [Reading 1 2 [0, 2] [0, 0, 0, 0], Running ?w]) (?d [Reading 1 2 [2] [3, 4, 0, 0], Running ?w])"
    using ex [of 0 "[Reading 1 2 [0, 2] [0, 0, 0, 0], Running ?w]" example_overlay] by (simp add: b1)
  have 5: "example_nbd_step (?d [Reading 1 2 [2] [3, 4, 0, 0], Running ?w]) (?d' [Reading 1 2 [2] [3, 4, 0, 0], Ready 2 0 []])"
    using ex [of 1 "[Reading 1 2 [2] [3, 4, 0, 0], Running ?w]" example_overlay] by (simp add: w i)
  have 6: "example_nbd_step (?d' [Reading 1 2 [2] [3, 4, 0, 0], Ready 2 0 []]) (?d' [Reading 1 2 [] [3, 4, 9, 8], Ready 2 0 []])"
    using ex [of 0 "[Reading 1 2 [2] [3, 4, 0, 0], Ready 2 0 []]" example_written] by (simp add: b2)
  have 7: "example_nbd_step (?d' [Reading 1 2 [] [3, 4, 9, 8], Ready 2 0 []]) (?d' [Ready 1 0 [3, 4, 9, 8], Ready 2 0 []])"
    using ex [of 0 "[Reading 1 2 [] [3, 4, 9, 8], Ready 2 0 []]" example_written] by simp
  show ?thesis using 1 2 3 4 5 6 7 by (meson rtranclp.rtrancl_into_rtrancl rtranclp.rtrancl_refl)
qed

theorem Dispatch_refines_array_witness:
  "\<exists>d img. (disp_step (arr_blocks 2) (arr_block 2) arr_write arr_zeroes (cmd_fits 2 6))\<^sup>*\<^sup>*
       (NewDispatch [1, 2, 3, 4, 5, 6] True) (with_prov d img) \<and>
     dp_pending (d :: 32 word list Overlay Dispatch) = [(True, Ready 1 0 [3, 4, 9, 8]), (True, Ready 2 0 [])] \<and>
     length img = 6 \<and> sub img 4 6 = [9, 8]"
proof -
  let ?d = "example_disp example_written [Ready 1 0 [3, 4, 9, 8], Ready 2 0 []]"
  have dv: "(2::int) dvd 6" "(2::int) dvd 4" by presburger+
  have rf: "reads_from (\<lambda>buf off. Inr (sub [1, 2, 3, 4, 5, 6] off (off + int (length buf)), int (length buf))) 2 [1, 2, 3, 4, 5, 6 :: byte]"
    by (simp add: reads_from_def)
  have "\<exists>img. (disp_step (arr_blocks 2) (arr_block 2) arr_write arr_zeroes (cmd_fits 2 (length [1, 2, 3, 4, 5, 6 :: byte])))\<^sup>*\<^sup>*
      (NewDispatch [1, 2, 3, 4, 5, 6] True) (with_prov ?d img) \<and> length img = length [1, 2, 3, 4, 5, 6 :: byte] \<and>
    (\<forall>p off. req_fits 2 img off (int (length p)) \<longrightarrow>
       Overlay_ReadAt listbm_ops (dp_prov ?d) p off = Inr (sub img off (off + int (length p)), int (length p)))"
    by (rule Dispatch_refines_array [OF lbm.roaring_bitmap_axioms, of "\<lambda>_ _. Inr (replicate 6 0)" "''d''" 6 "replicate 6 0" 2 _ _ _ True ?d,
        OF _ _ _ _ _ _ _ _ rf])
      (use example_nbd_run dv in \<open>simp_all add: NewCache_def example_overlay_def eval_nat_numeral\<close>)
  then obtain img where i: "(disp_step (arr_blocks 2) (arr_block 2) arr_write arr_zeroes (cmd_fits 2 6))\<^sup>*\<^sup>* (NewDispatch [1, 2, 3, 4, 5, 6] True) (with_prov ?d img)"
    "length img = 6" "Overlay_ReadAt listbm_ops (dp_prov ?d) [0, 0] 4 = Inr (sub img 4 6, 2)"
    using dv by (auto simp: req_fits_def eval_nat_numeral)
  have "Overlay_ReadAt listbm_ops (dp_prov ?d) [0, 0] 4 = Inr ([9, 8], 2)" by code_simp
  then show ?thesis using i by (intro exI [of _ ?d] exI [of _ img]) (simp add: example_disp_def)
qed

end
