(* ===== verification/SandboxState.thy ===== *)
theory SandboxState
  imports Prelude
begin

text \<open>
  The lifecycle of a sandbox in the API: the states and actions of
  \<open>packages/api/internal/sandbox/sandboxtypes/states.go\<close> and the state transitions of the Redis storage,
  \<open>packages/api/internal/sandbox/storage/redis/state_change.go\<close> and \<open>operations.go\<close>.

  The model has the keys of one sandbox: the stored sandbox, its members in the expiration index, the
  transition key and the result keys. \<open>StartRemoving\<close>, \<open>Update\<close> and \<open>Remove\<close> hold the lock of the
  sandbox, so each is one step, with one reading of the clock; \<open>Add\<close> takes no lock
  and is one step too. Of a sandbox there are the fields that this
  code reads. Transition identifiers are numbers that are not reused. Redis commands succeed;
  the expiry of the transition key and of result keys, and a callback that does not get its
  lock, are steps of the environment. Notifications only shorten the wait for the key to change,
  so a waiter may go on as soon as it has changed.

  What is shown: as long as the transition key does not expire, at most one transition is in
  progress and the key names it; the state of a sandbox changes along \<open>AllowedTransitions\<close>
  only; and when the key has expired, a late callback deletes the key of another transition.
\<close>

section \<open>States and actions (states.go)\<close>

datatype SbxState = StateRunning | StatePausing | StateKilling | StateSnapshotting

datatype TransitionEffect = TransitionExpires | TransitionTransient

record StateAction =
  sa_TargetState :: SbxState
  sa_Effect :: TransitionEffect

definition StateActionPause :: StateAction where
  "StateActionPause = \<lparr>sa_TargetState = StatePausing, sa_Effect = TransitionExpires\<rparr>"

definition StateActionKill :: StateAction where
  "StateActionKill = \<lparr>sa_TargetState = StateKilling, sa_Effect = TransitionExpires\<rparr>"

definition StateActionSnapshot :: StateAction where
  "StateActionSnapshot = \<lparr>sa_TargetState = StateSnapshotting, sa_Effect = TransitionTransient\<rparr>"

record RemoveOpts =
  ro_Action :: StateAction
  ro_Eviction :: bool

fun AllowedTransitions :: "SbxState \<Rightarrow> SbxState \<Rightarrow> bool" where
  "AllowedTransitions StateRunning t = (t = StatePausing \<or> t = StateKilling \<or> t = StateSnapshotting)"
| "AllowedTransitions StatePausing t = (t = StateKilling)"
| "AllowedTransitions StateSnapshotting t = (t = StateRunning \<or> t = StateKilling \<or> t = StatePausing)"
| "AllowedTransitions StateKilling t = False"

record Sandbox =
  sb_ExecutionID :: string
  sb_EndTime :: int
  sb_State :: SbxState

definition IsExpired :: "Sandbox \<Rightarrow> int \<Rightarrow> bool" where
  "IsExpired s now \<longleftrightarrow> now > sb_EndTime s"

datatype sbx_error =
    ErrNotFound
  | ErrEvictionInProgress
  | ErrEvictionNotNeeded
  | InvalidStateTransition SbxState SbxState
  | TransitionFailed string
  | UpdateFailed string

section \<open>The storage (operations.go)\<close>

record store =
  st_sbx :: "Sandbox option"
  st_index :: "string \<rightharpoonup> int"
  st_trans :: "nat option"
  st_result :: "nat \<rightharpoonup> string"
  st_next :: nat

definition Storage_Get :: "store \<Rightarrow> sbx_error + Sandbox" where
  "Storage_Get st = (case st_sbx st of None \<Rightarrow> Inl ErrNotFound | Some s \<Rightarrow> Inr s)"

text \<open>The index first, so that a stored sandbox is always indexed.\<close>

definition Storage_Add :: "Sandbox \<Rightarrow> store \<Rightarrow> store" where
  "Storage_Add s st =
     (let st1 = st\<lparr>st_index := (st_index st)(sb_ExecutionID s \<mapsto> sb_EndTime s)\<rparr>
      in st1\<lparr>st_sbx := Some s\<rparr>)"

definition Storage_Remove :: "store \<Rightarrow> store" where
  "Storage_Remove st =
     (let st1 = st\<lparr>st_sbx := None\<rparr>
      in case st_sbx st of
           None \<Rightarrow> st1
         | Some s \<Rightarrow> if sb_ExecutionID s = [] then st1 else st1\<lparr>st_index := (st_index st1)(sb_ExecutionID s := None)\<rparr>)"

definition Storage_Update :: "(Sandbox \<Rightarrow> sbx_error + Sandbox) \<Rightarrow> store \<Rightarrow> store \<times> (sbx_error + Sandbox)" where
  "Storage_Update updateFunc st =
     (case st_sbx st of
        None \<Rightarrow> (st, Inl ErrNotFound)
      | Some s \<Rightarrow>
          (case updateFunc s of
             Inl e \<Rightarrow> (st, Inl e)
           | Inr s' \<Rightarrow>
               let st1 = st\<lparr>st_sbx := Some s'\<rparr>
               in (if sb_EndTime s' \<noteq> sb_EndTime s
                   then st1\<lparr>st_index := (st_index st1)(sb_ExecutionID s' \<mapsto> sb_EndTime s')\<rparr> else st1, Inr s')))"

section \<open>State changes (state\_change.go)\<close>

datatype start_result =
    SFail sbx_error
  | SDone Sandbox
  | SStarted Sandbox nat
  | SJoin nat
  | SRetry nat

text \<open>With a transition in progress: join it, or wait for it and start again.\<close>

definition handleExistingTransition :: "Sandbox \<Rightarrow> SbxState \<Rightarrow> nat \<Rightarrow> start_result" where
  "handleExistingTransition sbx newState t =
     (if sb_State sbx = newState then SJoin t
      else if \<not> AllowedTransitions (sb_State sbx) newState
      then SFail (InvalidStateTransition (sb_State sbx) newState)
      else SRetry t)"

definition StartRemoving :: "int \<Rightarrow> RemoveOpts \<Rightarrow> store \<Rightarrow> store \<times> start_result" where
  "StartRemoving now opts st =
     (case st_sbx st of
        None \<Rightarrow> (st, SFail ErrNotFound)
      | Some sbx \<Rightarrow>
          let newState = sa_TargetState (ro_Action opts)
          in if ro_Eviction opts \<and> st_trans st \<noteq> None then (st, SFail ErrEvictionInProgress)
             else if ro_Eviction opts \<and> \<not> IsExpired sbx now then (st, SFail ErrEvictionNotNeeded)
             else case st_trans st of
                 Some t \<Rightarrow> (st, handleExistingTransition sbx newState t)
               | None \<Rightarrow>
                   if sb_State sbx = newState then (st, SDone sbx)
                   else if \<not> AllowedTransitions (sb_State sbx) newState
                   then (st, SFail (InvalidStateTransition (sb_State sbx) newState))
                   else
                     let updated = sbx\<lparr>sb_State := newState,
                           sb_EndTime := (if sa_Effect (ro_Action opts) = TransitionExpires \<and> \<not> IsExpired sbx now
                             then now else sb_EndTime sbx)\<rparr>;
                         t = st_next st
                     in (st\<lparr>st_sbx := Some updated, st_trans := Some t, st_result := (st_result st)(t \<mapsto> []),
                            st_next := t + 1\<rparr>, SStarted updated t))"

definition restoreToRunning :: "SbxState \<Rightarrow> store \<Rightarrow> store \<times> (sbx_error + Sandbox)" where
  "restoreToRunning fromState =
     Storage_Update (\<lambda>sbx. Inr (if sb_State sbx \<noteq> fromState then sbx else sbx\<lparr>sb_State := StateRunning\<rparr>))"

text \<open>The first part of the callback (the text of the error it wraps is left out): restore the state after a transient action that succeeded.\<close>

definition callback_restore :: "StateAction \<Rightarrow> string option \<Rightarrow> store \<Rightarrow> store \<times> bool" where
  "callback_restore action cbErr st =
     (if sa_Effect action = TransitionTransient \<and> cbErr = None
      then (case restoreToRunning (sa_TargetState action) st of (st', Inl e) \<Rightarrow> (st', True) | (st', Inr s) \<Rightarrow> (st', False))
      else (st, False))"

definition callback_result :: "StateAction \<Rightarrow> string option \<Rightarrow> bool \<Rightarrow> string" where
  "callback_result action cbErr restoreFailed =
     (if restoreFailed then ''failed to restore sandbox to running''
      else case cbErr of
          Some e \<Rightarrow> if sa_Effect action \<noteq> TransitionTransient then e else []
        | None \<Rightarrow> [])"

definition callback_set_result :: "nat \<Rightarrow> string \<Rightarrow> store \<Rightarrow> store" where
  "callback_set_result t v st = st\<lparr>st_result := (st_result st)(t \<mapsto> v)\<rparr>"

definition callback_delete_key :: "store \<Rightarrow> store" where
  "callback_delete_key st = st\<lparr>st_trans := None\<rparr>"

definition checkTransitionResult :: "store \<Rightarrow> nat \<Rightarrow> sbx_error + unit" where
  "checkTransitionResult st t =
     (case st_result st t of None \<Rightarrow> Inr () | Some r \<Rightarrow> if r \<noteq> [] then Inl (TransitionFailed r) else Inr ())"

text \<open>\<open>None\<close> while the wait goes on.\<close>

definition waitForTransition :: "store \<Rightarrow> nat \<Rightarrow> (sbx_error + unit) option" where
  "waitForTransition st t = (if st_trans st = Some t then None else Some (checkTransitionResult st t))"

definition WaitForStateChange :: "store \<Rightarrow> nat option" where
  "WaitForStateChange st = st_trans st"

section \<open>Callers\<close>

datatype outcome = OErr sbx_error | OAlreadyDone | OFinished | OUnblocked

datatype caller =
    Calling RemoveOpts
  | Joining nat
  | Retrying nat StateAction
  | Working nat StateAction
  | Publishing nat string
  | Deleting nat
  | Observing
  | ObsWaiting nat
  | Returned outcome

fun after_start :: "RemoveOpts \<Rightarrow> start_result \<Rightarrow> caller" where
  "after_start opts (SFail e) = Returned (OErr e)"
| "after_start opts (SDone s) = Returned OAlreadyDone"
| "after_start opts (SStarted s t) = Working t (ro_Action opts)"
| "after_start opts (SJoin t) = Joining t"
| "after_start opts (SRetry t) = Retrying t (ro_Action opts)"

text \<open>\<open>txn_step ttl\<close>: a caller moves, or something else happens to the keys. The transition key may
  expire if \<open>ttl\<close>.\<close>

inductive txn_step :: "bool \<Rightarrow> store \<times> caller list \<Rightarrow> store \<times> caller list \<Rightarrow> bool" for ttl where
  start: "i < length cs \<Longrightarrow> cs ! i = Calling opts \<Longrightarrow> StartRemoving now opts st = (st', r) \<Longrightarrow>
    txn_step ttl (st, cs) (st', cs[i := after_start opts r])"
| joined: "i < length cs \<Longrightarrow> cs ! i = Joining t \<Longrightarrow> waitForTransition st t = Some r \<Longrightarrow>
    txn_step ttl (st, cs) (st, cs[i := Returned (case r of Inr _ \<Rightarrow> OAlreadyDone | Inl e \<Rightarrow> OErr e)])"
| retry: "i < length cs \<Longrightarrow> cs ! i = Retrying t a \<Longrightarrow> waitForTransition st t = Some r \<Longrightarrow>
    txn_step ttl (st, cs) (st, cs[i := (case r of Inr _ \<Rightarrow> Calling \<lparr>ro_Action = a, ro_Eviction = False\<rparr> | Inl e \<Rightarrow> Returned (OErr e))])"
| finish: "i < length cs \<Longrightarrow> cs ! i = Working t a \<Longrightarrow> callback_restore a cbErr st = (st', failed) \<Longrightarrow>
    txn_step ttl (st, cs) (st', cs[i := Publishing t (callback_result a cbErr failed)])"
| publish: "i < length cs \<Longrightarrow> cs ! i = Publishing t v \<Longrightarrow>
    txn_step ttl (st, cs) (callback_set_result t v st, cs[i := Deleting t])"
| lock_lost: "i < length cs \<Longrightarrow> cs ! i = Publishing t v \<Longrightarrow> txn_step ttl (st, cs) (st, cs[i := Returned OFinished])"
| delete_key: "i < length cs \<Longrightarrow> cs ! i = Deleting t \<Longrightarrow>
    txn_step ttl (st, cs) (callback_delete_key st, cs[i := Returned OFinished])"
| observe: "i < length cs \<Longrightarrow> cs ! i = Observing \<Longrightarrow>
    txn_step ttl (st, cs) (st, cs[i := (case WaitForStateChange st of None \<Rightarrow> Returned OUnblocked | Some t \<Rightarrow> ObsWaiting t)])"
| observed: "i < length cs \<Longrightarrow> cs ! i = ObsWaiting t \<Longrightarrow> waitForTransition st t = Some r \<Longrightarrow>
    txn_step ttl (st, cs) (st, cs[i := Returned (case r of Inr _ \<Rightarrow> OUnblocked | Inl e \<Rightarrow> OErr e)])"
| add: "sb_State s = StateRunning \<Longrightarrow> txn_step ttl (st, cs) (Storage_Add s st, cs)"
| remove: "txn_step ttl (st, cs) (Storage_Remove st, cs)"
| update: "\<forall>s s'. f s = Inr s' \<longrightarrow> sb_State s' = sb_State s \<and> sb_ExecutionID s' = sb_ExecutionID s \<Longrightarrow>
    Storage_Update f st = (st', r) \<Longrightarrow> txn_step ttl (st, cs) (st', cs)"
| expire_result: "txn_step ttl (st, cs) (st\<lparr>st_result := (st_result st)(t := None)\<rparr>, cs)"
| expire_key: "ttl \<Longrightarrow> txn_step ttl (st, cs) (st\<lparr>st_trans := None\<rparr>, cs)"

definition empty_store :: store where
  "empty_store = \<lparr>st_sbx = None, st_index = Map.empty, st_trans = None, st_result = Map.empty, st_next = 0\<rparr>"

section \<open>Transitions exclude each other\<close>

fun owns :: "caller \<Rightarrow> nat option" where
  "owns (Working t a) = Some t" | "owns (Publishing t v) = Some t" | "owns (Deleting t) = Some t"
| "owns (Calling opts) = None" | "owns (Joining t) = None" | "owns (Retrying t a) = None" | "owns Observing = None"
| "owns (ObsWaiting t) = None" | "owns (Returned r) = None"

definition txn_inv :: "store \<times> caller list \<Rightarrow> bool" where
  "txn_inv w \<longleftrightarrow> (\<forall>t. st_trans (fst w) = Some t \<longrightarrow> t < st_next (fst w)) \<and>
     (\<forall>i < length (snd w). \<forall>t. owns (snd w ! i) = Some t \<longrightarrow> st_trans (fst w) = Some t) \<and>
     (\<forall>i < length (snd w). \<forall>j < length (snd w). i \<noteq> j \<longrightarrow> owns (snd w ! i) = None \<or> owns (snd w ! j) = None)"

lemma StartRemoving_keys:
  assumes "StartRemoving now opts st = (st', r)"
  shows "(st_trans st' = st_trans st \<and> st_next st' = st_next st \<and> owns (after_start opts r) = None) \<or>
    (st_trans st = None \<and> st_trans st' = Some (st_next st) \<and> st_next st' = st_next st + 1 \<and> owns (after_start opts r) = Some (st_next st))"
  using assms by (auto simp: StartRemoving_def handleExistingTransition_def Let_def split: option.splits if_splits)

lemma Storage_Update_keys:
  "Storage_Update f st = (st', r) \<Longrightarrow> st_trans st' = st_trans st \<and> st_next st' = st_next st \<and> st_result st' = st_result st"
  by (auto simp: Storage_Update_def Let_def split: option.splits sum.splits if_splits)

lemma callback_restore_keys:
  "callback_restore a cbErr st = (st', b) \<Longrightarrow> st_trans st' = st_trans st \<and> st_next st' = st_next st"
  using Storage_Update_keys
  by (auto simp: callback_restore_def restoreToRunning_def split: if_splits prod.splits sum.splits; blast)

lemma Storage_keys:
  "st_trans (Storage_Add s st) = st_trans st" "st_next (Storage_Add s st) = st_next st"
  "st_trans (Storage_Remove st) = st_trans st" "st_next (Storage_Remove st) = st_next st"
  by (auto simp: Storage_Add_def Storage_Remove_def Let_def split: option.splits)

text \<open>A caller that owns nothing before and after, or keeps what it owns.\<close>

lemma txn_inv_caller:
  assumes "txn_inv (st, cs)" "i < length cs" "owns c = owns (cs ! i) \<or> owns c = None"
    and "st_trans st' = st_trans st" "st_next st' = st_next st"
  shows "txn_inv (st', cs[i := c])"
proof -
  have o: "owns (cs[i := c] ! j) = owns (cs ! j) \<or> owns (cs[i := c] ! j) = None" for j
    using assms(2,3) by (cases "j = i") auto
  have "st_trans st' = Some t" if "j < length cs" "owns (cs[i := c] ! j) = Some t" for j t
  proof -
    have "owns (cs ! j) = Some t" using o [of j] that(2) by simp
    then show ?thesis using that(1) assms(1,4) by (simp add: txn_inv_def)
  qed
  moreover have "owns (cs[i := c] ! j) = None \<or> owns (cs[i := c] ! k) = None" if "j < length cs" "k < length cs" "j \<noteq> k" for j k
    using o [of j] o [of k] that assms(1) by (auto simp: txn_inv_def)
  ultimately show ?thesis using assms(1,4,5) by (simp add: txn_inv_def)
qed

lemma txn_step_inv:
  assumes "txn_step False w w'" "txn_inv w"
  shows "txn_inv w'"
  using assms
proof (induction rule: txn_step.induct)
  case (start i cs opts now st st' r)
  consider "st_trans st' = st_trans st" "st_next st' = st_next st" "owns (after_start opts r) = None"
    | "st_trans st = None" "st_trans st' = Some (st_next st)" "st_next st' = st_next st + 1" "owns (after_start opts r) = Some (st_next st)"
    using StartRemoving_keys [OF start(3)] by (elim disjE conjE) simp_all
  then show ?case
  proof cases
    case 1
    then show ?thesis using start txn_inv_caller by blast
  next
    case 2
    then have "owns (cs ! j) = None" if "j < length cs" for j
      using start(4) that by (cases "owns (cs ! j)") (auto simp: txn_inv_def)
    then show ?thesis using 2 start(1) by (auto simp: txn_inv_def nth_list_update)
  qed
next
  case (finish i cs t a cbErr st st' failed)
  then show ?case using callback_restore_keys [OF finish(3)] by (intro txn_inv_caller [OF finish(4,1)]) auto
next
  case (delete_key i cs t st)
  have "owns (cs ! j) = None" if "j < length cs" "j \<noteq> i" for j
    using delete_key that unfolding txn_inv_def by fastforce
  then show ?case using delete_key(1) by (auto simp: txn_inv_def callback_delete_key_def nth_list_update)
next
  case (update f st st' r cs)
  then show ?case using Storage_Update_keys [OF update(2)] by (simp add: txn_inv_def)
qed (auto intro!: txn_inv_caller simp: callback_set_result_def split: sum.splits option.splits,
  auto simp: txn_inv_def Storage_keys)

lemma txn_steps_inv: "(txn_step False)\<^sup>*\<^sup>* w w' \<Longrightarrow> txn_inv w \<Longrightarrow> txn_inv w'"
  by (induction rule: rtranclp_induct) (auto intro: txn_step_inv)

section \<open>States change as allowed\<close>

fun action_of :: "caller \<Rightarrow> StateAction option" where
  "action_of (Calling opts) = Some (ro_Action opts)" | "action_of (Retrying t a) = Some a" | "action_of (Working t a) = Some a"
| "action_of (Joining t) = None" | "action_of (Publishing t v) = None" | "action_of (Deleting t) = None"
| "action_of Observing = None" | "action_of (ObsWaiting t) = None" | "action_of (Returned r) = None"

definition actions_ok :: "caller list \<Rightarrow> bool" where
  "actions_ok cs \<longleftrightarrow> (\<forall>c \<in> set cs. \<forall>a. action_of c = Some a \<longrightarrow> a \<in> {StateActionPause, StateActionKill, StateActionSnapshot})"

definition state_moves :: "store \<Rightarrow> store \<Rightarrow> bool" where
  "state_moves st st' \<longleftrightarrow>
     (\<forall>s s'. st_sbx st = Some s \<and> st_sbx st' = Some s' \<longrightarrow>
        sb_State s' = sb_State s \<or> AllowedTransitions (sb_State s) (sb_State s') \<or> (\<exists>n. st' = Storage_Add n st))"

lemma action_after_start: "action_of (after_start opts r) = Some a \<Longrightarrow> a = ro_Action opts"
  by (cases r) auto

lemma actions_ok_upd: "actions_ok cs \<Longrightarrow> (\<And>a. action_of c = Some a \<Longrightarrow> action_of c' = Some a) \<Longrightarrow> c' \<in> set cs \<Longrightarrow> actions_ok (cs[i := c])"
  unfolding actions_ok_def using set_update_subset_insert [of cs i c] by blast

lemma actions_ok_none: "actions_ok cs \<Longrightarrow> action_of c = None \<Longrightarrow> actions_ok (cs[i := c])"
  unfolding actions_ok_def using set_update_subset_insert [of cs i c] by fastforce

lemma txn_step_moves:
  assumes "txn_step ttl w w'" "actions_ok (snd w)"
  shows "actions_ok (snd w') \<and> state_moves (fst w) (fst w')"
  using assms
proof (induction rule: txn_step.induct)
  case (start i cs opts now st st' r)
  have "actions_ok (cs[i := after_start opts r])"
    using start(1,2,4) action_after_start [of opts r] nth_mem [OF start(1)]
    by (intro actions_ok_upd [of cs _ "cs ! i"]) auto
  moreover have "state_moves st st'" using start(3)
    by (auto simp: state_moves_def StartRemoving_def handleExistingTransition_def Let_def split: option.splits if_splits)
  ultimately show ?case by simp
next
  case (retry i cs t a st r)
  have "actions_ok (cs[i := (case r of Inr _ \<Rightarrow> Calling \<lparr>ro_Action = a, ro_Eviction = False\<rparr> | Inl e \<Rightarrow> Returned (OErr e))])"
    using retry(1,2,4) nth_mem [OF retry(1)] by (intro actions_ok_upd [of cs _ "cs ! i"]) (auto split: sum.splits)
  then show ?case by (auto simp: state_moves_def)
next
  case (finish i cs t a cbErr st st' failed)
  have "a \<in> {StateActionPause, StateActionKill, StateActionSnapshot}"
    using finish(1,2,4) nth_mem [OF finish(1)] by (auto simp: actions_ok_def)
  then have "state_moves st st'" using finish(3)
    by (auto simp: state_moves_def callback_restore_def restoreToRunning_def Storage_Update_def StateActionPause_def
        StateActionKill_def StateActionSnapshot_def split: if_splits option.splits prod.splits sum.splits)
  moreover have "actions_ok (cs[i := Publishing t (callback_result a cbErr failed)])"
    using finish(1,4) nth_mem [OF finish(1)] by (intro actions_ok_upd [of cs _ "cs ! i"]) auto
  ultimately show ?case by simp
next
  case (update f st st' r cs)
  then show ?case
    by (auto simp: state_moves_def Storage_Update_def Let_def split: option.splits sum.splits if_splits)
qed (auto simp: state_moves_def callback_set_result_def callback_delete_key_def Storage_Remove_def Let_def
    intro!: actions_ok_none split: option.splits)

lemma txn_steps_actions: "(txn_step ttl)\<^sup>*\<^sup>* w w' \<Longrightarrow> actions_ok (snd w) \<Longrightarrow> actions_ok (snd w')"
  by (induction rule: rtranclp_induct) (auto dest: txn_step_moves)

section \<open>Properties\<close>

text \<open>(C14) Invariant: in every run from an empty store in which no transition key expires, for any
  number of callers and in every order of their steps, at most one caller at a time is between
  starting a transition and deleting its key, and the transition key names that caller's
  transition.\<close>

theorem transitions_exclusive:
  assumes "\<forall>c \<in> set cs. owns c = None" "(txn_step False)\<^sup>*\<^sup>* (empty_store, cs) (st, cs')"
    and "i < length cs'" "owns (cs' ! i) = Some t"
  shows "st_trans st = Some t \<and> (\<forall>j < length cs'. j = i \<or> owns (cs' ! j) = None)"
proof -
  have "txn_inv (empty_store, cs)" using assms(1) by (auto simp: txn_inv_def empty_store_def)
  then have "txn_inv (st, cs')" using assms(2) txn_steps_inv by blast
  then show ?thesis using assms(3,4) unfolding txn_inv_def by fastforce
qed

definition demo_sandbox :: Sandbox where
  "demo_sandbox = \<lparr>sb_ExecutionID = ''e'', sb_EndTime = 100, sb_State = StateRunning\<rparr>"

definition demo_stored :: store where
  "demo_stored = Storage_Add demo_sandbox empty_store"

lemma demo_added: "txn_step ttl (empty_store, cs) (demo_stored, cs)"
  unfolding demo_stored_def by (rule txn_step.add) (simp add: demo_sandbox_def)

lemma demo_start:
  assumes "StartRemoving 10 \<lparr>ro_Action = a, ro_Eviction = False\<rparr> st = (st', r)" "i < length cs"
    "cs ! i = Calling \<lparr>ro_Action = a, ro_Eviction = False\<rparr>"
  shows "txn_step ttl (st, cs) (st', cs[i := after_start \<lparr>ro_Action = a, ro_Eviction = False\<rparr> r])"
  using txn_step.start [OF assms(2,3,1)] .

theorem transitions_exclusive_witness:
  "\<exists>st. (txn_step False)\<^sup>*\<^sup>* (empty_store, [Calling \<lparr>ro_Action = StateActionPause, ro_Eviction = False\<rparr>, Observing])
      (st, [Working 0 StateActionPause, Observing]) \<and> st_trans st = Some 0"
proof -
  let ?cs = "[Calling \<lparr>ro_Action = StateActionPause, ro_Eviction = False\<rparr>, Observing]"
  obtain st where st: "StartRemoving 10 \<lparr>ro_Action = StateActionPause, ro_Eviction = False\<rparr> demo_stored =
      (st, SStarted (demo_sandbox\<lparr>sb_State := StatePausing, sb_EndTime := 10\<rparr>) 0)"
    by (auto simp: StartRemoving_def demo_stored_def demo_sandbox_def Storage_Add_def empty_store_def StateActionPause_def
        IsExpired_def Let_def)
  have "txn_step False (demo_stored, ?cs) (st, ?cs[0 := Working 0 StateActionPause])"
    using demo_start [OF st, of 0 ?cs False] by simp
  then have r: "(txn_step False)\<^sup>*\<^sup>* (empty_store, ?cs) (st, [Working 0 StateActionPause, Observing])"
    by (intro rtranclp.rtrancl_into_rtrancl [OF r_into_rtranclp [of "txn_step False"], OF demo_added]) simp
  show ?thesis using transitions_exclusive [OF _ r, of 0 0] r by auto
qed

text \<open>(C15) Safety: in every run from an empty store in which the callers ask for pause, kill or snapshot,
  also with expired keys and lost locks, a step that changes the state of the stored sandbox
  changes it along \<open>AllowedTransitions\<close>, unless it is \<open>Add\<close> storing a new sandbox.\<close>

theorem states_follow_AllowedTransitions:
  assumes "actions_ok cs" "(txn_step ttl)\<^sup>*\<^sup>* (empty_store, cs) (st1, cs1)" "txn_step ttl (st1, cs1) (st2, cs2)"
    and "st_sbx st1 = Some s1" "st_sbx st2 = Some s2" "sb_State s2 \<noteq> sb_State s1"
  shows "AllowedTransitions (sb_State s1) (sb_State s2) \<or> (\<exists>n. st2 = Storage_Add n st1)"
proof -
  have "actions_ok cs1" using txn_steps_actions [OF assms(2)] assms(1) by simp
  then have "state_moves st1 st2" using txn_step_moves [OF assms(3)] by simp
  then show ?thesis using assms(4-6) by (auto simp: state_moves_def)
qed

theorem states_follow_AllowedTransitions_witness:
  "\<exists>st s2 cs2. txn_step True (demo_stored, [Calling \<lparr>ro_Action = StateActionKill, ro_Eviction = False\<rparr>]) (st, cs2) \<and>
     st_sbx st = Some s2 \<and> sb_State s2 = StateKilling \<and>
     (AllowedTransitions StateRunning StateKilling \<or> (\<exists>n. st = Storage_Add n demo_stored))"
proof -
  let ?cs = "[Calling \<lparr>ro_Action = StateActionKill, ro_Eviction = False\<rparr>]"
  let ?s = "demo_sandbox\<lparr>sb_State := StateKilling, sb_EndTime := 10\<rparr>"
  obtain st where st: "StartRemoving 10 \<lparr>ro_Action = StateActionKill, ro_Eviction = False\<rparr> demo_stored = (st, SStarted ?s 0)"
      "st_sbx st = Some ?s"
    by (auto simp: StartRemoving_def demo_stored_def demo_sandbox_def Storage_Add_def empty_store_def StateActionKill_def
        IsExpired_def Let_def)
  have s: "txn_step True (demo_stored, ?cs) (st, ?cs[0 := Working 0 StateActionKill])"
    using demo_start [OF st(1), of 0 ?cs True] by simp
  have "st_sbx demo_stored = Some demo_sandbox" by (simp add: demo_stored_def Storage_Add_def Let_def)
  then show ?thesis
    using states_follow_AllowedTransitions [OF _ r_into_rtranclp [of "txn_step True"], OF _ demo_added s _ st(2), of demo_sandbox]
      s st(2) by (auto simp: actions_ok_def demo_sandbox_def)
qed

text \<open>(C36) Safety violation: when the transition key has expired before the callback of its transition
  runs, the callback deletes whatever key is there. Here a pause outlives its key and a kill starts,
  which sets the key to its own transition. From then on no key expires. The callback of the pause
  ends, the key of the kill is gone though the kill has not finished, and a second kill is told that the
  sandbox has been killed while the first one is still at work. Without expiry, only the callback of the
  pause can have deleted the key.\<close>

theorem late_callback_deletes_other_key:
  "let pause = Calling \<lparr>ro_Action = StateActionPause, ro_Eviction = False\<rparr>;
       kill = Calling \<lparr>ro_Action = StateActionKill, ro_Eviction = False\<rparr>
   in \<exists>st st'. (txn_step True)\<^sup>*\<^sup>* (empty_store, [pause, kill, kill]) (st, [Working 0 StateActionPause, Working 1 StateActionKill, kill]) \<and>
     st_trans st = Some 1 \<and>
     (txn_step False)\<^sup>*\<^sup>* (st, [Working 0 StateActionPause, Working 1 StateActionKill, kill])
       (st', [Returned OFinished, Working 1 StateActionKill, Returned OAlreadyDone]) \<and> st_trans st' = None"
proof -
  let ?p = "\<lparr>ro_Action = StateActionPause, ro_Eviction = False\<rparr>"
  let ?k = "\<lparr>ro_Action = StateActionKill, ro_Eviction = False\<rparr>"
  let ?sp = "demo_sandbox\<lparr>sb_State := StatePausing, sb_EndTime := 10\<rparr>"
  let ?sk = "demo_sandbox\<lparr>sb_State := StateKilling, sb_EndTime := 10\<rparr>"
  let ?i = "[''e'' \<mapsto> 100] :: string \<rightharpoonup> int"
  let ?st1 = "\<lparr>st_sbx = Some ?sp, st_index = ?i, st_trans = Some 0, st_result = [0 \<mapsto> []], st_next = 1\<rparr>"
  let ?st2 = "?st1\<lparr>st_trans := None\<rparr>"
  let ?st3 = "\<lparr>st_sbx = Some ?sk, st_index = ?i, st_trans = Some 1, st_result = [0 \<mapsto> [], 1 \<mapsto> []], st_next = 2\<rparr>"
  let ?st4 = "callback_set_result 0 [] ?st3"
  note defs = StartRemoving_def demo_stored_def demo_sandbox_def Storage_Add_def empty_store_def IsExpired_def
    StateActionPause_def StateActionKill_def Let_def
  have q1: "StartRemoving 10 ?p demo_stored = (?st1, SStarted ?sp 0)" by (simp add: defs)
  have q2: "StartRemoving 10 ?k ?st2 = (?st3, SStarted ?sk 1)" by (simp add: defs)
  have q3: "StartRemoving 10 ?k (callback_delete_key ?st4) = (callback_delete_key ?st4, SDone ?sk)"
    by (simp add: defs callback_delete_key_def callback_set_result_def)
  have s1: "txn_step True (demo_stored, [Calling ?p, Calling ?k, Calling ?k]) (?st1, [Working 0 StateActionPause, Calling ?k, Calling ?k])"
    using demo_start [OF q1, of 0 "[Calling ?p, Calling ?k, Calling ?k]" True] by simp
  have s2: "txn_step True (?st1, cs) (?st2, cs)" for cs using txn_step.expire_key [of True ?st1 cs] by simp
  have s3: "txn_step True (?st2, [Working 0 StateActionPause, Calling ?k, Calling ?k]) (?st3, [Working 0 StateActionPause, Working 1 StateActionKill, Calling ?k])"
    using demo_start [OF q2, of 1 "[Working 0 StateActionPause, Calling ?k, Calling ?k]" True] by simp
  have s4: "txn_step False (?st3, [Working 0 StateActionPause, Working 1 StateActionKill, Calling ?k]) (?st3, [Publishing 0 [], Working 1 StateActionKill, Calling ?k])"
    using txn_step.finish [of 0 "[Working 0 StateActionPause, Working 1 StateActionKill, Calling ?k]" 0 StateActionPause None ?st3 ?st3 False False]
    by (simp add: callback_restore_def callback_result_def StateActionPause_def)
  have s5: "txn_step False (?st3, [Publishing 0 [], Working 1 StateActionKill, Calling ?k]) (?st4, [Deleting 0, Working 1 StateActionKill, Calling ?k])"
    using txn_step.publish [of 0 "[Publishing 0 [], Working 1 StateActionKill, Calling ?k]" 0 "[]" False ?st3] by simp
  have s6: "txn_step False (?st4, [Deleting 0, Working 1 StateActionKill, Calling ?k]) (callback_delete_key ?st4, [Returned OFinished, Working 1 StateActionKill, Calling ?k])"
    using txn_step.delete_key [of 0 "[Deleting 0, Working 1 StateActionKill, Calling ?k]" 0 False ?st4] by simp
  have s7: "txn_step False (callback_delete_key ?st4, [Returned OFinished, Working 1 StateActionKill, Calling ?k])
      (callback_delete_key ?st4, [Returned OFinished, Working 1 StateActionKill, Returned OAlreadyDone])"
    using demo_start [OF q3, of 2 "[Returned OFinished, Working 1 StateActionKill, Calling ?k]" False] by simp
  have a: "(txn_step True)\<^sup>*\<^sup>* (empty_store, [Calling ?p, Calling ?k, Calling ?k]) (?st3, [Working 0 StateActionPause, Working 1 StateActionKill, Calling ?k])"
    using demo_added s1 s2 s3 by (meson rtranclp.rtrancl_into_rtrancl rtranclp.rtrancl_refl)
  have b: "(txn_step False)\<^sup>*\<^sup>* (?st3, [Working 0 StateActionPause, Working 1 StateActionKill, Calling ?k])
      (callback_delete_key ?st4, [Returned OFinished, Working 1 StateActionKill, Returned OAlreadyDone])"
    using s4 s5 s6 s7 by (meson rtranclp.rtrancl_into_rtrancl rtranclp.rtrancl_refl)
  from a b show ?thesis unfolding Let_def
    by (intro exI [of _ ?st3] exI [of _ "callback_delete_key ?st4"]) (simp add: callback_delete_key_def)
qed

end
