(* ===== verification/GuestMemory.thy ===== *)
theory GuestMemory
  imports Blocks
begin

text \<open>
  The guest memory in the address space of the host:
  \<open>packages/orchestrator/pkg/sandbox/uffd/memory/region.go\<close> and \<open>mapping.go\<close>. The hypervisor maps the
  guest memory in regions; a page fault comes with a host address, the snapshot is indexed by
  offsets. Addresses are 64-bit unsigned (\<open>uintptr\<close>), offsets 64-bit signed, and every conversion
  and sum wraps as in the source. The loop of \<open>GetHostVirtRanges\<close> advances by the size it has
  found, so nothing in the source bounds it; it is a partial function, and that it returns is a
  lemma for mappings that are well-formed.

  What is shown: on a well-formed mapping \<open>GetOffset\<close> and \<open>GetHostVirtAddr\<close> are inverse to each other,
  and the ranges that \<open>GetHostVirtRanges\<close> returns are the host addresses of the requested
  offsets, in order and each once.
\<close>

section \<open>Regions (region.go)\<close>

record Region =
  rg_BaseHostVirtAddr :: int
  rg_Size :: int
  rg_Offset :: int
  rg_PageSize :: int

definition endOffset :: "Region \<Rightarrow> int" where
  "endOffset r = i64 (u64 (rg_Offset r + rg_Size r))"

definition endHostVirtAddr :: "Region \<Rightarrow> int" where
  "endHostVirtAddr r = u64 (rg_BaseHostVirtAddr r + rg_Size r)"

definition shiftedOffset :: "Region \<Rightarrow> int \<Rightarrow> int" where
  "shiftedOffset r addr = i64 (u64 (u64 (addr - rg_BaseHostVirtAddr r) + rg_Offset r))"

definition shiftedHostVirtAddr :: "Region \<Rightarrow> int \<Rightarrow> int" where
  "shiftedHostVirtAddr r off = u64 (u64 (u64 off + rg_BaseHostVirtAddr r) - rg_Offset r)"

section \<open>The mapping (mapping.go)\<close>

fun GetOffset :: "Region list \<Rightarrow> int \<Rightarrow> int result" where
  "GetOffset [] hostVirtAddr = Inl (Err ''host virtual address not found in any mapping'')"
| "GetOffset (r # rs) hostVirtAddr =
     (if hostVirtAddr \<ge> rg_BaseHostVirtAddr r \<and> hostVirtAddr < endHostVirtAddr r
      then Inr (shiftedOffset r hostVirtAddr) else GetOffset rs hostVirtAddr)"

fun getHostVirtRegion :: "Region list \<Rightarrow> int \<Rightarrow> Region result" where
  "getHostVirtRegion [] off = Inl (Err ''offset not found in any mapping'')"
| "getHostVirtRegion (r # rs) off =
     (if off \<ge> i64 (rg_Offset r) \<and> off < endOffset r then Inr r else getHostVirtRegion rs off)"

definition GetHostVirtAddr :: "Region list \<Rightarrow> int \<Rightarrow> int result" where
  "GetHostVirtAddr rs off = bindR (getHostVirtRegion rs off) (\<lambda>region. Inr (shiftedHostVirtAddr region off))"

partial_function (option) hostVirtRanges_loop :: "Region list \<Rightarrow> int \<Rightarrow> int \<Rightarrow> int \<Rightarrow> Range list result option" where
  "hostVirtRanges_loop rs off sz n =
     (if n < sz
      then (case getHostVirtRegion rs (i64 (off + n)) of
              Inl e \<Rightarrow> Some (Inl e)
            | Inr region \<Rightarrow>
                Option.bind
                  (hostVirtRanges_loop rs off sz
                    (i64 (n + min (i64 (u64 (endHostVirtAddr region - shiftedHostVirtAddr region (i64 (off + n))))) (i64 (sz - n)))))
                  (\<lambda>rest. Some (map_sum id
                     ((#) (NewRange (i64 (shiftedHostVirtAddr region (i64 (off + n))))
                        (min (i64 (u64 (endHostVirtAddr region - shiftedHostVirtAddr region (i64 (off + n))))) (i64 (sz - n))))) rest)))
      else Some (Inr []))"

definition GetHostVirtRanges :: "Region list \<Rightarrow> int \<Rightarrow> int \<Rightarrow> Range list result option" where
  "GetHostVirtRanges rs off sz = hostVirtRanges_loop rs off sz 0"

section \<open>Well-formed mappings\<close>

text \<open>Regions within the user half of the address space, disjoint on the host and in the guest.\<close>

definition region_ok :: "Region \<Rightarrow> bool" where
  "region_ok r \<longleftrightarrow> 0 \<le> rg_BaseHostVirtAddr r \<and> 0 < rg_Size r \<and> 0 \<le> rg_Offset r \<and>
     rg_BaseHostVirtAddr r + rg_Size r \<le> max_i64 \<and> rg_Offset r + rg_Size r \<le> max_i64"

definition regions_ok :: "Region list \<Rightarrow> bool" where
  "regions_ok rs \<longleftrightarrow> (\<forall>r \<in> set rs. region_ok r) \<and>
     (\<forall>r \<in> set rs. \<forall>q \<in> set rs. r \<noteq> q \<longrightarrow>
        (rg_Offset r + rg_Size r \<le> rg_Offset q \<or> rg_Offset q + rg_Size q \<le> rg_Offset r) \<and>
        (rg_BaseHostVirtAddr r + rg_Size r \<le> rg_BaseHostVirtAddr q \<or>
         rg_BaseHostVirtAddr q + rg_Size q \<le> rg_BaseHostVirtAddr r))"

definition in_guest :: "Region \<Rightarrow> int \<Rightarrow> bool" where
  "in_guest r off \<longleftrightarrow> rg_Offset r \<le> off \<and> off < rg_Offset r + rg_Size r"

definition in_host :: "Region \<Rightarrow> int \<Rightarrow> bool" where
  "in_host r a \<longleftrightarrow> rg_BaseHostVirtAddr r \<le> a \<and> a < rg_BaseHostVirtAddr r + rg_Size r"

lemma region_ends [wrap]:
  assumes "region_ok r"
  shows "endOffset r = rg_Offset r + rg_Size r" "endHostVirtAddr r = rg_BaseHostVirtAddr r + rg_Size r"
    "i64 (rg_Offset r) = rg_Offset r"
  using assms by (simp_all add: region_ok_def endOffset_def endHostVirtAddr_def u64_id i64_id)

lemma shifted_eq [wrap]:
  "region_ok r \<Longrightarrow> in_host r a \<Longrightarrow> shiftedOffset r a = a - rg_BaseHostVirtAddr r + rg_Offset r"
  "region_ok r \<Longrightarrow> in_guest r off \<Longrightarrow> shiftedHostVirtAddr r off = off + rg_BaseHostVirtAddr r - rg_Offset r"
  by (simp_all add: region_ok_def in_host_def in_guest_def shiftedOffset_def shiftedHostVirtAddr_def u64_id i64_id)

lemma getHostVirtRegion_found:
  "\<forall>r \<in> set rs. region_ok r \<Longrightarrow> getHostVirtRegion rs off = Inr r \<Longrightarrow> r \<in> set rs \<and> in_guest r off"
  by (induction rs) (auto simp: region_ends in_guest_def split: if_splits)

lemma getHostVirtRegion_eq:
  assumes "regions_ok rs" "r \<in> set rs" "in_guest r off"
  shows "getHostVirtRegion rs off = Inr r"
proof -
  have ok: "\<forall>r \<in> set rs. region_ok r" using assms(1) by (simp add: regions_ok_def)
  have "\<exists>q. getHostVirtRegion rs off = Inr q"
    using ok assms(2,3) by (induction rs) (auto simp: region_ends in_guest_def)
  then obtain q where q: "getHostVirtRegion rs off = Inr q" ..
  have "q \<in> set rs" "in_guest q off" using getHostVirtRegion_found [OF ok q] by auto
  then have "q = r" using assms by (auto simp: regions_ok_def in_guest_def; force)
  with q show ?thesis by simp
qed

lemma GetOffset_eq:
  assumes "regions_ok rs" "r \<in> set rs" "in_host r a"
  shows "GetOffset rs a = Inr (a - rg_BaseHostVirtAddr r + rg_Offset r)"
proof -
  have "GetOffset qs a = Inr (a - rg_BaseHostVirtAddr r + rg_Offset r)"
    if "set qs \<subseteq> set rs" "r \<in> set qs" for qs
    using that
  proof (induction qs)
    case (Cons q qs)
    have q: "region_ok q" "q \<in> set rs" using Cons.prems(1) assms(1) by (auto simp: regions_ok_def)
    show ?case
    proof (cases "in_host q a")
      case True
      then have "q = r" using q(2) assms by (auto simp: regions_ok_def in_host_def; force)
      then show ?thesis using True q(1) assms(3) by (simp add: shifted_eq region_ends in_host_def)
    next
      case False
      then have "q \<noteq> r" using assms(3) by blast
      then have "r \<in> set qs" "set qs \<subseteq> set rs" using Cons.prems by auto
      moreover have "\<not> (a \<ge> rg_BaseHostVirtAddr q \<and> a < endHostVirtAddr q)"
        using False q(1) by (simp add: in_host_def region_ends)
      ultimately show ?thesis using Cons.IH by auto
    qed
  qed simp
  then show ?thesis using assms(2) by blast
qed

lemma GetOffset_found:
  "\<forall>r \<in> set rs. region_ok r \<Longrightarrow> GetOffset rs a = Inr off \<Longrightarrow>
   \<exists>r \<in> set rs. in_host r a \<and> in_guest r off \<and> off = a - rg_BaseHostVirtAddr r + rg_Offset r"
proof (induction rs)
  case (Cons r rs)
  then have r: "region_ok r" by simp
  show ?case
  proof (cases "in_host r a")
    case True
    then have "off = a - rg_BaseHostVirtAddr r + rg_Offset r"
      using Cons.prems r by (simp add: shifted_eq region_ends in_host_def)
    then show ?thesis using True by (auto simp: in_host_def in_guest_def)
  next
    case False
    then have "GetOffset rs a = Inr off" using Cons.prems r by (auto simp: in_host_def region_ends split: if_splits)
    then show ?thesis using Cons by auto
  qed
qed simp

lemma GetHostVirtAddr_eq:
  "regions_ok rs \<Longrightarrow> r \<in> set rs \<Longrightarrow> in_guest r off \<Longrightarrow>
   GetHostVirtAddr rs off = Inr (off + rg_BaseHostVirtAddr r - rg_Offset r)"
  by (simp add: GetHostVirtAddr_def getHostVirtRegion_eq shifted_eq regions_ok_def)

section \<open>The host ranges of a guest range\<close>

definition range_addrs :: "Range \<Rightarrow> int list" where
  "range_addrs r = [RStart r..RStart r + RSize r - 1]"

definition guest_covered :: "Region list \<Rightarrow> int \<Rightarrow> int \<Rightarrow> bool" where
  "guest_covered rs off sz \<longleftrightarrow> (\<forall>o' \<in> {off..<off + sz}. \<exists>r \<in> set rs. in_guest r o')"

definition host_addr :: "Region list \<Rightarrow> int \<Rightarrow> int" where
  "host_addr rs off = (case GetHostVirtAddr rs off of Inr a \<Rightarrow> a | Inl _ \<Rightarrow> 0)"

lemma host_addr_eq:
  "regions_ok rs \<Longrightarrow> r \<in> set rs \<Longrightarrow> in_guest r off \<Longrightarrow> host_addr rs off = off + rg_BaseHostVirtAddr r - rg_Offset r"
  by (simp add: host_addr_def GetHostVirtAddr_eq)

text \<open>One turn of the loop takes what is left of the region, or of the request.\<close>

lemma loop_turn:
  assumes "regions_ok rs" "r \<in> set rs" "in_guest r (off + n)" "0 \<le> off" "0 \<le> n" "n < sz" "off + sz \<le> max_i64"
    and "m = min (rg_Offset r + rg_Size r - (off + n)) (sz - n)"
  shows "0 < m" "n + m \<le> sz"
    "hostVirtRanges_loop rs off sz n = Option.bind (hostVirtRanges_loop rs off sz (n + m))
       (\<lambda>rest. Some (map_sum id ((#) (NewRange (host_addr rs (off + n)) m)) rest))"
    "range_addrs (NewRange (host_addr rs (off + n)) m) = map (host_addr rs) [off + n..off + n + m - 1]"
    "guest_covered rs (off + n) (sz - n) = guest_covered rs (off + (n + m)) (sz - (n + m))"
proof -
  have r: "region_ok r" using assms(1,2) by (simp add: regions_ok_def)
  show m: "0 < m" "n + m \<le> sz" using assms by (auto simp: in_guest_def)
  have h: "host_addr rs x = x + rg_BaseHostVirtAddr r - rg_Offset r" if "off + n \<le> x" "x < off + n + m" for x
    using that assms host_addr_eq [OF assms(1,2)] by (simp add: in_guest_def)
  have i: "i64 (off + n) = off + n" using assms by (intro i64_id) auto
  have a: "shiftedHostVirtAddr r (off + n) = host_addr rs (off + n)" "0 \<le> host_addr rs (off + n)" "host_addr rs (off + n) \<le> max_i64"
    using r assms(3) m h [of "off + n"] by (auto simp: shifted_eq in_guest_def region_ok_def)
  have d: "endHostVirtAddr r - host_addr rs (off + n) = rg_Offset r + rg_Size r - (off + n)"
    using r m h [of "off + n"] by (simp add: region_ends)
  have e: "u64 (rg_Offset r + rg_Size r - (off + n)) = rg_Offset r + rg_Size r - (off + n)"
    "i64 (rg_Offset r + rg_Size r - (off + n)) = rg_Offset r + rg_Size r - (off + n)" "i64 (sz - n) = sz - n"
    "i64 (n + m) = n + m"
    using r assms(3-7) m by (auto simp: in_guest_def region_ok_def intro!: u64_id i64_id)
  show "hostVirtRanges_loop rs off sz n = Option.bind (hostVirtRanges_loop rs off sz (n + m))
       (\<lambda>rest. Some (map_sum id ((#) (NewRange (host_addr rs (off + n)) m)) rest))"
    using assms(6) a d e i
    by (subst hostVirtRanges_loop.simps) (simp add: getHostVirtRegion_eq [OF assms(1-3)] assms(8) [symmetric] i64_id)
  have "[host_addr rs (off + n)..host_addr rs (off + n) + m - 1] = map (\<lambda>x. x + (rg_BaseHostVirtAddr r - rg_Offset r)) [off + n..off + n + m - 1]"
    using m h [of "off + n"] by (intro nth_equalityI) auto
  also have "\<dots> = map (host_addr rs) [off + n..off + n + m - 1]" using h by (intro map_cong) auto
  finally show "range_addrs (NewRange (host_addr rs (off + n)) m) = map (host_addr rs) [off + n..off + n + m - 1]"
    by (simp add: range_addrs_def NewRange_def)
  have c: "\<exists>q \<in> set rs. in_guest q x" if "off + n \<le> x" "x < off + n + m" for x
    using that assms(2,3,8) by (intro bexI [of _ r]) (auto simp: in_guest_def)
  have u: "{off + n..<off + n + (sz - n)} = {off + n..<off + n + m} \<union> {off + (n + m)..<off + (n + m) + (sz - (n + m))}"
    using m by auto
  show "guest_covered rs (off + n) (sz - n) = guest_covered rs (off + (n + m)) (sz - (n + m))"
    unfolding guest_covered_def u ball_Un using c by auto
qed

lemma hostVirtRanges_loop_spec:
  assumes "regions_ok rs" "0 \<le> off" "off + sz \<le> max_i64" "0 \<le> n" "n \<le> sz"
  shows "if guest_covered rs (off + n) (sz - n)
    then \<exists>rl. hostVirtRanges_loop rs off sz n = Some (Inr rl) \<and>
      concat (map range_addrs rl) = map (host_addr rs) [off + n..off + sz - 1] \<and> (\<forall>r \<in> set rl. 0 < RSize r)
    else \<exists>e. hostVirtRanges_loop rs off sz n = Some (Inl e)"
  using assms(4,5)
proof (induction "nat (sz - n)" arbitrary: n rule: less_induct)
  case less
  have ok: "\<forall>r \<in> set rs. region_ok r" using assms(1) by (simp add: regions_ok_def)
  show ?case
  proof (cases "n < sz")
    case False
    then show ?thesis using less.prems by (subst (1 2) hostVirtRanges_loop.simps) (simp add: guest_covered_def)
  next
    case True
    have i: "i64 (off + n) = off + n" using assms less.prems by (intro i64_id) auto
    show ?thesis
    proof (cases "\<exists>r \<in> set rs. in_guest r (off + n)")
      case False
      then obtain e where "getHostVirtRegion rs (off + n) = Inl e"
        using getHostVirtRegion_found [OF ok] by (cases "getHostVirtRegion rs (off + n)") auto
      moreover have "\<not> guest_covered rs (off + n) (sz - n)"
        using False True by (auto simp: guest_covered_def)
      ultimately show ?thesis using True i by (subst (1 2) hostVirtRanges_loop.simps) simp
    next
      case inr: True
      then obtain r where r: "r \<in> set rs" "in_guest r (off + n)" by blast
      define m where "m = min (rg_Offset r + rg_Size r - (off + n)) (sz - n)"
      note t = loop_turn [OF assms(1) r assms(2) less.prems(1) True assms(3) m_def]
      have s: "[off + n..off + sz - 1] = [off + n..off + n + m - 1] @ [off + (n + m)..off + sz - 1]"
        using t(1,2) upto_split1 [of "off + n" "off + n + m" "off + sz - 1"] upto_split2 [of "off + n" "off + n + m - 1" "off + sz - 1"]
        by (simp add: algebra_simps)
      have IH: "if guest_covered rs (off + (n + m)) (sz - (n + m))
        then \<exists>rl. hostVirtRanges_loop rs off sz (n + m) = Some (Inr rl) \<and>
          concat (map range_addrs rl) = map (host_addr rs) [off + (n + m)..off + sz - 1] \<and> (\<forall>r \<in> set rl. 0 < RSize r)
        else \<exists>e. hostVirtRanges_loop rs off sz (n + m) = Some (Inl e)"
        using t(1,2) less.prems True by (intro less.hyps) auto
      show ?thesis
      proof (cases "guest_covered rs (off + (n + m)) (sz - (n + m))")
        case True
        then obtain rl where rl: "hostVirtRanges_loop rs off sz (n + m) = Some (Inr rl)"
          "concat (map range_addrs rl) = map (host_addr rs) [off + (n + m)..off + sz - 1]" "\<forall>r \<in> set rl. 0 < RSize r"
          using IH by auto
        then have "concat (map range_addrs (NewRange (host_addr rs (off + n)) m # rl)) = map (host_addr rs) [off + n..off + sz - 1]"
          using t(4) s by simp
        then show ?thesis using True rl t(1,3,5) by (simp add: NewRange_def)
      next
        case False
        then show ?thesis using IH t(3,5) by auto
      qed
    qed
  qed
qed

section \<open>Properties\<close>

text \<open>Round trip: on a well-formed mapping, translating the address of a fault to an offset and back
  gives the address, and translating an offset of the guest memory to an address and back gives
  the offset; addresses and offsets outside the regions are errors.\<close>

theorem address_roundtrip:
  assumes "regions_ok rs"
  shows "(GetOffset rs a = Inr off \<longleftrightarrow> GetHostVirtAddr rs off = Inr a) \<and>
    ((\<exists>e. GetOffset rs a = Inl e) \<longleftrightarrow> (\<forall>r \<in> set rs. \<not> in_host r a)) \<and>
    ((\<exists>e. GetHostVirtAddr rs off = Inl e) \<longleftrightarrow> (\<forall>r \<in> set rs. \<not> in_guest r off))"
proof -
  have ok: "\<forall>r \<in> set rs. region_ok r" using assms by (simp add: regions_ok_def)
  have f: "\<exists>r \<in> set rs. in_host r x \<and> in_guest r y \<and> y = x - rg_BaseHostVirtAddr r + rg_Offset r" if "GetHostVirtAddr rs y = Inr x" for x y
  proof -
    obtain r where r: "getHostVirtRegion rs y = Inr r" using \<open>GetHostVirtAddr rs y = Inr x\<close> by (auto simp: GetHostVirtAddr_def bindR_eq_Inr)
    then have r': "r \<in> set rs" "in_guest r y" using getHostVirtRegion_found [OF ok] by auto
    then have "x = y + rg_BaseHostVirtAddr r - rg_Offset r" using GetHostVirtAddr_eq [OF assms r'] that by simp
    then show ?thesis using r' by (intro bexI [of _ r]) (simp_all add: in_host_def in_guest_def)
  qed
  have 1: "GetOffset rs a = Inr off \<longleftrightarrow> GetHostVirtAddr rs off = Inr a"
    using GetOffset_found [OF ok, of a off] f [of off a] GetOffset_eq [OF assms, of _ a] GetHostVirtAddr_eq [OF assms, of _ off]
    by fastforce
  have 2: "(\<exists>e. GetOffset rs a = Inl e) \<longleftrightarrow> (\<forall>r \<in> set rs. \<not> in_host r a)"
    using GetOffset_found [OF ok, of a] GetOffset_eq [OF assms, of _ a] by (cases "GetOffset rs a") auto
  have 3: "(\<exists>e. GetHostVirtAddr rs off = Inl e) \<longleftrightarrow> (\<forall>r \<in> set rs. \<not> in_guest r off)"
    using f [of off] GetHostVirtAddr_eq [OF assms, of _ off] by (cases "GetHostVirtAddr rs off") auto
  show ?thesis using 1 2 3 by blast
qed

definition two_regions :: "Region list" where
  "two_regions = [\<lparr>rg_BaseHostVirtAddr = 40960, rg_Size = 8192, rg_Offset = 0, rg_PageSize = 4096\<rparr>,
     \<lparr>rg_BaseHostVirtAddr = 81920, rg_Size = 4096, rg_Offset = 8192, rg_PageSize = 4096\<rparr>]"

lemma two_regions_ok: "regions_ok two_regions"
  by (simp add: two_regions_def regions_ok_def region_ok_def)

theorem address_roundtrip_witness: "GetHostVirtAddr two_regions 8195 = Inr 81923 \<and> GetOffset two_regions 81923 = Inr 8195"
proof -
  have "GetHostVirtAddr two_regions 8195 = Inr 81923" by code_simp
  then show ?thesis using address_roundtrip [OF two_regions_ok, of 81923 8195] by blast
qed

text \<open>(C31) Termination and function: for a well-formed mapping \<open>GetHostVirtRanges\<close> returns. If the regions
  cover the requested range, the ranges it returns are, one after the other, exactly the host
  addresses of the requested offsets, and none is empty; otherwise it returns an error.\<close>

theorem GetHostVirtRanges_exact:
  assumes "regions_ok rs" "0 \<le> off" "0 \<le> sz" "off + sz \<le> max_i64"
  shows "if guest_covered rs off sz
    then \<exists>rl. GetHostVirtRanges rs off sz = Some (Inr rl) \<and>
      concat (map range_addrs rl) = map (host_addr rs) [off..off + sz - 1] \<and> (\<forall>r \<in> set rl. 0 < RSize r)
    else \<exists>e. GetHostVirtRanges rs off sz = Some (Inl e)"
  using hostVirtRanges_loop_spec [OF assms(1,2,4), of 0] assms(3) by (simp add: GetHostVirtRanges_def cong: if_cong)

theorem GetHostVirtRanges_exact_witness:
  "\<exists>rl. GetHostVirtRanges two_regions 8190 4 = Some (Inr rl) \<and> concat (map range_addrs rl) = [49150, 49151, 81920, 81921]"
proof -
  have "guest_covered two_regions 8190 4" by (auto simp: guest_covered_def two_regions_def in_guest_def)
  moreover have "map (host_addr two_regions) [8190..8190 + 4 - 1] = [49150, 49151, 81920, 81921]" by code_simp
  ultimately show ?thesis using GetHostVirtRanges_exact [OF two_regions_ok, of 8190 4] by auto
qed

end
