(* ===== verification/Uffd.thy ===== *)
theory Uffd
  imports Tracker GuestMemory
begin

text \<open>
  Serving the page faults of a guest: \<open>packages/orchestrator/pkg/sandbox/uffd/userfaultfd\<close>
  (\<open>userfaultfd.go\<close>, \<open>fd.go\<close>, \<open>deferred.go\<close>, \<open>prefault.go\<close>) and \<open>DiffMetadata\<close> of \<open>uffd/uffd.go\<close>. The guest memory starts
  unmapped. The kernel reports accesses to missing pages and the removal of pages (a balloon);
  the handler installs pages from the snapshot, or zeros for removed pages, write-protected
  when they were read only, so that the kernel can tell written pages. A snapshot takes the
  written pages, counts removed pages that were not written as zero and leaves the rest to the
  parent.

  The serve loop, its workers, prefetching calls, the guest and the kernel interleave
  (\<open>uffd_step\<close>). A worker holds \<open>settleRequests\<close> shared from the look-up of the page to the update of
  the tracker; the loop takes it exclusively to apply removals. Every ioctl is a step. The kernel
  is a parameter: its state is abstract, \<open>kn_mem\<close> and \<open>kn_wp\<close> read it, and the locale \<open>uffd_kernel\<close> states
  what the manual documents of each ioctl. Pages are named by their index in the guest memory,
  which \<open>GuestMemory\<close> relates to addresses. A removal is reported, and the report read, before the
  pages go, so the pages are dropped at some time after the read (\<open>uw_zap\<close> has them until then).
  Metrics, logging, back-off times and the limit of workers are left out.

  \<open>uw_val\<close> is the memory as the guest must see it: what it wrote last, zero for a page removed since,
  the snapshot otherwise. \<open>uw_raced\<close> collects the pages on which operations overlapped in one of three
  ways: an install with a removal, a zero-fill for a write that finds the page mapped by another
  worker, a write of the guest between the two ioctls of a small zero page. What is shown: a
  snapshot has the memory the guest saw on every page outside that set, and no fault on them is
  left unanswered; on two of the overlaps a run shows that the snapshot is wrong.
\<close>

section \<open>Results of system calls (fd.go)\<close>

datatype io_error = Errno int | IoErr

definition ESRCH :: int where "ESRCH = 3"
definition EAGAIN :: int where "EAGAIN = 11"
definition EEXIST :: int where "EEXIST = 17"

definition classifyCopyResult :: "int \<Rightarrow> int \<Rightarrow> io_error option" where
  "classifyCopyResult bytesCopied pagesize =
     (if bytesCopied < 0 then Some (Errno (- bytesCopied))
      else if bytesCopied \<noteq> pagesize then Some (Errno EAGAIN)
      else None)"

text \<open>\<open>errno\<close> is the result of the ioctl, \<open>n\<close> the count the kernel writes into its argument.\<close>

definition Fd_copy :: "int \<Rightarrow> bytes \<Rightarrow> int \<Rightarrow> int \<Rightarrow> io_error option" where
  "Fd_copy pagesize data errno n =
     (if data = [] then Some IoErr
      else if errno \<noteq> 0 then Some (Errno errno)
      else classifyCopyResult n pagesize)"

definition Fd_zero :: "int \<Rightarrow> int \<Rightarrow> int \<Rightarrow> io_error option" where
  "Fd_zero pagesize errno n =
     (if errno \<noteq> 0 then Some (Errno errno)
      else if n \<noteq> pagesize then Some IoErr
      else None)"

definition Fd_call :: "int \<Rightarrow> io_error option" where
  "Fd_call errno = (if errno \<noteq> 0 then Some (Errno errno) else None)"

section \<open>Deferred faults (deferred.go)\<close>

record UffdPagefault =
  pf_address :: int
  pf_write :: bool
  pf_minor :: bool
  pf_wp :: bool

definition push :: "UffdPagefault \<Rightarrow> UffdPagefault list \<Rightarrow> UffdPagefault list" where
  "push pf d =
     (if \<exists>q \<in> set d. pf_address q = pf_address pf
      then map (\<lambda>q. if pf_address q = pf_address pf \<and> pf_write pf then q\<lparr>pf_write := True\<rparr> else q) d
      else d @ [pf])"

definition drain :: "UffdPagefault list \<Rightarrow> UffdPagefault list \<times> UffdPagefault list" where
  "drain d = (d, [])"

section \<open>The handler (userfaultfd.go)\<close>

record 'b Userfaultfd =
  uf_ma :: "Region list"
  uf_pageSize :: int
  uf_pageTracker :: "'b Tracker"
  uf_prefetchTracker :: PrefetchTracker
  uf_defaultCopyMode :: bool
  uf_closed :: bool

definition NewUserfaultfdFromFd :: "'b bitmap_ops \<Rightarrow> Region list \<Rightarrow> 'b Userfaultfd result" where
  "NewUserfaultfdFromFd ops regions =
     (case regions of
        [] \<Rightarrow> Inl (Err ''memory mapping has no regions'')
      | r # rs \<Rightarrow>
          let pageSize = rg_PageSize r
          in if pageSize \<noteq> PageSize \<and> pageSize \<noteq> HugepageSize then Inl (Err ''unsupported page size'')
             else if \<exists>q \<in> set rs. rg_PageSize q \<noteq> pageSize then Inl (Err ''region page size mismatch'')
             else Inr \<lparr>uf_ma = regions, uf_pageSize = pageSize, uf_pageTracker = NewTracker ops,
               uf_prefetchTracker = NewPrefetchTracker pageSize, uf_defaultCopyMode = False, uf_closed = False\<rparr>)"

datatype uffd_event =
    EvPagefault UffdPagefault
  | EvRemove int int
  | EvOther
  | EvInterrupted
  | EvFailed

fun readEvents :: "uffd_event list \<Rightarrow> ((int \<times> int) list \<times> UffdPagefault list) result" where
  "readEvents [] = Inr ([], [])"
| "readEvents (EvInterrupted # evs) = readEvents evs"
| "readEvents (EvFailed # evs) = Inl (Err ''failed reading uffd'')"
| "readEvents (EvOther # evs) = Inl (Err ''unexpected event type'')"
| "readEvents (EvPagefault pf # evs) = map_sum id (apsnd ((#) pf)) (readEvents evs)"
| "readEvents (EvRemove s e # evs) = map_sum id (apfst ((#) (s, e))) (readEvents evs)"

text \<open>The pages of a removal, and marking them in the tracker. An address outside the mapping is skipped.\<close>

definition remove_range :: "'b Userfaultfd \<Rightarrow> int \<times> int \<Rightarrow> (int \<times> int) option" where
  "remove_range u rm =
     (case GetOffset (uf_ma u) (fst rm) of
        Inl _ \<Rightarrow> None
      | Inr startOff \<Rightarrow>
          let startIdx = u32 (BlockIdx startOff (uf_pageSize u))
          in Some (startIdx, u32 (startIdx + u32 (u64 (snd rm - fst rm) div uf_pageSize u))))"

definition apply_remove :: "'b bitmap_ops \<Rightarrow> 'b Userfaultfd \<Rightarrow> int \<times> int \<Rightarrow> 'b Userfaultfd" where
  "apply_remove ops u rm =
     (case remove_range u rm of
        None \<Rightarrow> u
      | Some (startIdx, endIdx) \<Rightarrow> u\<lparr>uf_pageTracker := SetRange ops (uf_pageTracker u) startIdx endIdx Zero\<rparr>)"

text \<open>A worker serves one fault, or is a call of \<open>Prefault\<close> with the data of a page. Between \<open>Reading\<close> and
  \<open>Settling\<close> it holds the lock; it keeps the state it has found in the tracker, which is
  \<open>NotPresent\<close> if and only if it has a source.\<close>

datatype faultOutcome = faultInstalled | faultAlreadyPresent | faultDeferred | faultDiscarded

datatype wpc =
    Queued
  | Reading State nat
  | Filling State "bytes option"
  | Protecting State
  | Settling State faultOutcome

record worker =
  wk_pf :: UffdPagefault
  wk_offset :: int
  wk_data :: "bytes option"
  wk_pc :: wpc

definition accessType :: "worker \<Rightarrow> AccessType" where
  "accessType w = (if wk_data w \<noteq> None \<or> \<not> pf_write (wk_pf w) then Read else Write)"

definition page_idx :: "int \<Rightarrow> worker \<Rightarrow> int" where
  "page_idx pageSize w = u32 (BlockIdx (wk_offset w) pageSize)"

text \<open>One turn of the serve loop over the faults, new and deferred.\<close>

fun dispatch :: "'b Userfaultfd \<Rightarrow> UffdPagefault list \<Rightarrow> worker list \<times> unit result" where
  "dispatch u [] = ([], Inr ())"
| "dispatch u (pf # pfs) =
     (if pf_minor pf then ([], Inl (Err ''unexpected MINOR pagefault event, closing UFFD''))
      else if pf_wp pf then ([], Inl (Err ''unexpected WP pagefault event, closing UFFD''))
      else case GetOffset (uf_ma u) (pf_address pf) of
          Inl e \<Rightarrow> ([], Inl e)
        | Inr offset \<Rightarrow> apfst ((#) \<lparr>wk_pf = pf, wk_offset = offset, wk_data = None, wk_pc = Queued\<rparr>) (dispatch u pfs))"

text \<open>The look-up under the lock: \<open>Inl\<close> returns, \<open>Inr\<close> goes on. The result of a call is whether it installed
  the page.\<close>

definition serve_lookup :: "'b bitmap_ops \<Rightarrow> 'b Userfaultfd \<Rightarrow> worker \<Rightarrow> bool result + wpc" where
  "serve_lookup ops u w =
     (case Get ops (uf_pageTracker u) (page_idx (uf_pageSize u) w) of
        Dirty \<Rightarrow> Inl (Inr False)
      | Zero \<Rightarrow> Inr (Filling Zero None)
      | NotPresent \<Rightarrow> Inr (Reading NotPresent 0))"

definition Prefault_lookup :: "'b bitmap_ops \<Rightarrow> 'b Userfaultfd \<Rightarrow> worker \<Rightarrow> bytes \<Rightarrow> bool result + wpc" where
  "Prefault_lookup ops u w data =
     (if uf_closed u then Inl (Inl (Err ''userfaultfd is closed''))
      else case GetHostVirtAddr (uf_ma u) (wk_offset w) of
          Inl e \<Rightarrow> Inl (Inl e)
        | Inr addr \<Rightarrow>
            if int (length data) \<noteq> uf_pageSize u then Inl (Inl (Err ''data length does not match pagesize''))
            else if Get ops (uf_pageTracker u) (page_idx (uf_pageSize u) w) \<noteq> NotPresent then Inl (Inr False)
            else Inr (Filling NotPresent (Some data)))"

definition lookup :: "'b bitmap_ops \<Rightarrow> 'b Userfaultfd \<Rightarrow> worker \<Rightarrow> bool result + wpc" where
  "lookup ops u w = (case wk_data w of None \<Rightarrow> serve_lookup ops u w | Some data \<Rightarrow> Prefault_lookup ops u w data)"

text \<open>\<open>faultPage\<close>: which ioctl installs the page, and what its result means.\<close>

datatype install = IZeroProtect | IZero | ICopy bytes bool

definition zero_page :: "int \<Rightarrow> bytes" where
  "zero_page pageSize = replicate (nat pageSize) 0"

definition install_plan :: "'b Userfaultfd \<Rightarrow> AccessType \<Rightarrow> bytes option \<Rightarrow> install" where
  "install_plan u acc source =
     (let mode = (if acc = Read then True else uf_defaultCopyMode u)
      in case source of
           None \<Rightarrow>
             if uf_pageSize u = PageSize then (if acc = Read then IZeroProtect else IZero)
             else ICopy (zero_page (uf_pageSize u)) mode
         | Some b \<Rightarrow> ICopy b mode)"

definition outcome_of :: "io_error option \<Rightarrow> faultOutcome result" where
  "outcome_of writeErr =
     (if writeErr = Some (Errno EEXIST) then Inr faultAlreadyPresent
      else if writeErr = Some (Errno ESRCH) then Inr faultDiscarded
      else if writeErr = Some (Errno EAGAIN) then Inr faultDeferred
      else if writeErr \<noteq> None then Inl (Err ''failed uffdio copy'')
      else Inr faultInstalled)"

text \<open>A failed protection joins the error of the wake-up that follows it; \<open>errors.Is\<close> finds either of the two.\<close>

definition outcome_of_joined :: "io_error option \<Rightarrow> io_error option \<Rightarrow> faultOutcome result" where
  "outcome_of_joined err wakeErr =
     (if Some (Errno EEXIST) \<in> {err, wakeErr} then Inr faultAlreadyPresent
      else if Some (Errno ESRCH) \<in> {err, wakeErr} then Inr faultDiscarded
      else if Some (Errno EAGAIN) \<in> {err, wakeErr} then Inr faultDeferred
      else if err \<noteq> None \<or> wakeErr \<noteq> None then Inl (Err ''failed uffdio copy'')
      else Inr faultInstalled)"

definition sliceMaxRetries :: nat where "sliceMaxRetries = 3"

text \<open>A failed read of the source is tried again, unless the attempts are used up or the context is cancelled.\<close>

definition retry_read :: "nat \<Rightarrow> bool \<Rightarrow> nat option" where
  "retry_read attempt cancelled = (if attempt \<ge> sliceMaxRetries \<or> cancelled then None else Some (attempt + 1))"

text \<open>What a worker does with the outcome: the new handler, the new deferred faults and the result.\<close>

definition serve_settle ::
  "'b bitmap_ops \<Rightarrow> 'b Userfaultfd \<Rightarrow> UffdPagefault list \<Rightarrow> worker \<Rightarrow> State \<Rightarrow> faultOutcome \<Rightarrow>
   'b Userfaultfd \<times> UffdPagefault list \<times> bool result" where
  "serve_settle ops u deferred w state outcome =
     (let idx = page_idx (uf_pageSize u) w
      in case outcome of
           faultDeferred \<Rightarrow> (u, push (wk_pf w) deferred, Inr False)
         | faultDiscarded \<Rightarrow> (u, deferred, Inr False)
         | _ \<Rightarrow>
             ((if state = NotPresent \<or> accessType w = Write
               then u\<lparr>uf_pageTracker := SetRange ops (uf_pageTracker u) idx (u32 (idx + 1)) Dirty\<rparr> else u)
              \<lparr>uf_prefetchTracker := PrefetchTracker_Add (uf_prefetchTracker u) (wk_offset w) (accessType w)\<rparr>,
              deferred, Inr (outcome = faultInstalled)))"

definition Prefault_settle ::
  "'b bitmap_ops \<Rightarrow> 'b Userfaultfd \<Rightarrow> UffdPagefault list \<Rightarrow> worker \<Rightarrow> faultOutcome \<Rightarrow>
   'b Userfaultfd \<times> UffdPagefault list \<times> bool result" where
  "Prefault_settle ops u deferred w outcome =
     (let idx = page_idx (uf_pageSize u) w
      in if outcome = faultInstalled \<or> outcome = faultAlreadyPresent
         then (u\<lparr>uf_pageTracker := SetRange ops (uf_pageTracker u) idx (u32 (idx + 1)) Dirty,
                 uf_prefetchTracker := PrefetchTracker_Add (uf_prefetchTracker u) (wk_offset w) Prefetch\<rparr>,
               deferred, Inr (outcome = faultInstalled))
         else (u, deferred, Inr False))"

definition settle ::
  "'b bitmap_ops \<Rightarrow> 'b Userfaultfd \<Rightarrow> UffdPagefault list \<Rightarrow> worker \<Rightarrow> State \<Rightarrow> faultOutcome \<Rightarrow>
   'b Userfaultfd \<times> UffdPagefault list \<times> bool result" where
  "settle ops u deferred w state outcome =
     (if wk_data w = None then serve_settle ops u deferred w state outcome
      else Prefault_settle ops u deferred w outcome)"

text \<open>The pages of the next snapshot: written pages from the hypervisor, and removed pages that were not
  written.\<close>

definition ExportPageStates :: "'b Userfaultfd \<Rightarrow> 'b \<times> 'b" where
  "ExportPageStates u = Export (uf_pageTracker u)"

definition Uffd_DiffMetadata :: "'b bitmap_ops \<Rightarrow> 'b Userfaultfd \<Rightarrow> 'b \<Rightarrow> 'b \<times> 'b" where
  "Uffd_DiffMetadata ops u dirty = (dirty, bm_AndNot ops (snd (ExportPageStates u)) dirty)"

section \<open>The kernel\<close>

record 'k kernel =
  kn_mem :: "'k \<Rightarrow> int \<Rightarrow> bytes option"
  kn_wp :: "'k \<Rightarrow> int \<Rightarrow> bool"
  kn_copy :: "'k \<Rightarrow> int \<Rightarrow> bytes \<Rightarrow> bool \<Rightarrow> int \<Rightarrow> int \<Rightarrow> 'k \<Rightarrow> bool"
  kn_zero :: "'k \<Rightarrow> int \<Rightarrow> int \<Rightarrow> int \<Rightarrow> 'k \<Rightarrow> bool"
  kn_protect :: "'k \<Rightarrow> int \<Rightarrow> int \<Rightarrow> 'k \<Rightarrow> bool"

text \<open>\<open>kn_copy kn k p data wp errno n k'\<close>: UFFDIO_COPY of \<open>data\<close> to page \<open>p\<close> may return \<open>errno\<close> with the count \<open>n\<close>, and
  leaves the state \<open>k'\<close>; likewise UFFDIO_ZEROPAGE and UFFDIO_WRITEPROTECT. A page is installed
  whole or not at all, only where none is mapped; EEXIST says that one is.\<close>

locale uffd_kernel =
  fixes kn :: "'k kernel" and ps :: int
  assumes copy_full: "kn_copy kn k p data wp e n k' \<Longrightarrow> e = 0 \<Longrightarrow> n = ps \<Longrightarrow>
      kn_mem kn k p = None \<and> kn_mem kn k' = (kn_mem kn k)(p \<mapsto> data) \<and> kn_wp kn k' = (kn_wp kn k)(p := wp)"
    and copy_none: "kn_copy kn k p data wp e n k' \<Longrightarrow> \<not> (e = 0 \<and> n = ps) \<Longrightarrow>
      kn_mem kn k' = kn_mem kn k \<and> kn_wp kn k' = kn_wp kn k"
    and copy_exists: "kn_copy kn k p data wp e n k' \<Longrightarrow> e = EEXIST \<or> e = 0 \<and> n = - EEXIST \<Longrightarrow> kn_mem kn k p \<noteq> None"
    and zero_full: "kn_zero kn k p e n k' \<Longrightarrow> e = 0 \<Longrightarrow> n = ps \<Longrightarrow>
      kn_mem kn k p = None \<and> kn_mem kn k' = (kn_mem kn k)(p \<mapsto> zero_page ps) \<and> kn_wp kn k' = (kn_wp kn k)(p := False)"
    and zero_none: "kn_zero kn k p e n k' \<Longrightarrow> \<not> (e = 0 \<and> n = ps) \<Longrightarrow>
      kn_mem kn k' = kn_mem kn k \<and> kn_wp kn k' = kn_wp kn k"
    and zero_exists: "kn_zero kn k p e n k' \<Longrightarrow> e = EEXIST \<Longrightarrow> kn_mem kn k p \<noteq> None"
    and protect_full: "kn_protect kn k p e k' \<Longrightarrow> e = 0 \<Longrightarrow>
      kn_mem kn k' = kn_mem kn k \<and> kn_wp kn k' = (kn_wp kn k)(p := True)"
    and protect_none: "kn_protect kn k p e k' \<Longrightarrow> e \<noteq> 0 \<Longrightarrow> kn_mem kn k' = kn_mem kn k \<and> kn_wp kn k' = kn_wp kn k"

section \<open>Runs\<close>

datatype serve_loop =
    Polling
  | Applying "(int \<times> int) list" "UffdPagefault list"
  | Stopped "unit result"

record ('b, 'k) uworld =
  uw_u :: "'b Userfaultfd"
  uw_loop :: serve_loop
  uw_deferred :: "UffdPagefault list"
  uw_workers :: "worker list"
  uw_kernel :: 'k
  uw_zap :: "int list"
  uw_val :: "int \<Rightarrow> bytes"
  uw_raced :: "int set"

definition remove_pages :: "'b Userfaultfd \<Rightarrow> (int \<times> int) list \<Rightarrow> int list" where
  "remove_pages u rms = concat (map (\<lambda>rm. case remove_range u rm of None \<Rightarrow> [] | Some (s, e) \<Rightarrow> [s..e - 1]) rms)"

fun applying :: "'b Userfaultfd \<Rightarrow> serve_loop \<Rightarrow> int list" where
  "applying u (Applying rms pfs) = remove_pages u rms"
| "applying u Polling = []"
| "applying u (Stopped r) = []"

definition locked_at :: "int \<Rightarrow> worker list \<Rightarrow> int \<Rightarrow> worker set" where
  "locked_at pageSize ws p = {w \<in> set ws. wk_pc w \<noteq> Queued \<and> page_idx pageSize w = p}"

definition removing :: "('b, 'k) uworld \<Rightarrow> int \<Rightarrow> bool" where
  "removing w p \<longleftrightarrow> p \<in> set (applying (uw_u w) (uw_loop w)) \<or> p \<in> set (uw_zap w)"

definition drop_nth :: "nat \<Rightarrow> 'a list \<Rightarrow> 'a list" where
  "drop_nth i xs = take i xs @ drop (Suc i) xs"

definition set_pc :: "nat \<Rightarrow> wpc \<Rightarrow> worker list \<Rightarrow> worker list" where
  "set_pc i pc ws = ws[i := (ws ! i)\<lparr>wk_pc := pc\<rparr>]"

text \<open>After an ioctl: an error ends the worker, an outcome is settled.\<close>

definition after_io :: "nat \<Rightarrow> State \<Rightarrow> faultOutcome result \<Rightarrow> worker list \<Rightarrow> worker list" where
  "after_io i state r ws = (case r of Inl e \<Rightarrow> drop_nth i ws | Inr outcome \<Rightarrow> set_pc i (Settling state outcome) ws)"

abbreviation at_pc :: "('b, 'k) uworld \<Rightarrow> nat \<Rightarrow> wpc \<Rightarrow> int \<Rightarrow> bool" where
  "at_pc w i pc p \<equiv> i < length (uw_workers w) \<and> wk_pc (uw_workers w ! i) = pc \<and> p = page_idx (uf_pageSize (uw_u w)) (uw_workers w ! i)"

inductive uffd_step :: "'b bitmap_ops \<Rightarrow> 'k kernel \<Rightarrow> (int \<Rightarrow> bytes) \<Rightarrow> ('b, 'k) uworld \<Rightarrow> ('b, 'k) uworld \<Rightarrow> bool"
  for ops kn src where
  read_events: "uw_loop w = Polling \<Longrightarrow> readEvents evs = Inr (rms, pfs) \<Longrightarrow> pages = remove_pages (uw_u w) rms \<Longrightarrow>
    uffd_step ops kn src w (w\<lparr>uw_loop := Applying rms pfs, uw_zap := uw_zap w @ pages,
      uw_raced := uw_raced w \<union> {p \<in> set pages. locked_at (uf_pageSize (uw_u w)) (uw_workers w) p \<noteq> {}}\<rparr>)"
| read_fails: "uw_loop w = Polling \<Longrightarrow> readEvents evs = Inl e \<Longrightarrow> uffd_step ops kn src w (w\<lparr>uw_loop := Stopped (Inl e)\<rparr>)"
| apply_removes: "uw_loop w = Applying rms pfs \<Longrightarrow> rms = [] \<or> (\<forall>v \<in> set (uw_workers w). wk_pc v = Queued) \<Longrightarrow>
    u' = foldl (apply_remove ops) (uw_u w) rms \<Longrightarrow> drain (uw_deferred w) = (retried, rest) \<Longrightarrow>
    dispatch u' (retried @ pfs) = (ws, r) \<Longrightarrow>
    uffd_step ops kn src w (w\<lparr>uw_u := u', uw_loop := (case r of Inr _ \<Rightarrow> Polling | Inl e \<Rightarrow> Stopped (Inl e)),
      uw_deferred := rest, uw_workers := uw_workers w @ ws\<rparr>)"
| exit: "uw_loop w = Polling \<Longrightarrow> uw_workers w = [] \<Longrightarrow> uffd_step ops kn src w (w\<lparr>uw_loop := Stopped (Inr ())\<rparr>)"
| start_Prefault: "v = \<lparr>wk_pf = pf, wk_offset = off, wk_data = Some (src (u32 (BlockIdx off (uf_pageSize (uw_u w))))), wk_pc = Queued\<rparr> \<Longrightarrow>
    uffd_step ops kn src w (w\<lparr>uw_workers := uw_workers w @ [v]\<rparr>)"
| lookup_returns: "at_pc w i Queued p \<Longrightarrow> lookup ops (uw_u w) (uw_workers w ! i) = Inl r \<Longrightarrow>
    uffd_step ops kn src w (w\<lparr>uw_workers := drop_nth i (uw_workers w)\<rparr>)"
| lookup_goes_on: "at_pc w i Queued p \<Longrightarrow> lookup ops (uw_u w) (uw_workers w ! i) = Inr pc \<Longrightarrow>
    uffd_step ops kn src w (w\<lparr>uw_workers := set_pc i pc (uw_workers w),
      uw_raced := (if removing w p then insert p (uw_raced w) else uw_raced w)\<rparr>)"
| source_read: "at_pc w i (Reading s n) p \<Longrightarrow>
    uffd_step ops kn src w (w\<lparr>uw_workers := set_pc i (Filling s (Some (src p))) (uw_workers w)\<rparr>)"
| source_retry: "at_pc w i (Reading s n) p \<Longrightarrow> retry_read n cancelled = Some m \<Longrightarrow>
    uffd_step ops kn src w (w\<lparr>uw_workers := set_pc i (Reading s m) (uw_workers w)\<rparr>)"
| source_fails: "at_pc w i (Reading s n) p \<Longrightarrow> retry_read n cancelled = None \<Longrightarrow> uffd_step ops kn src w (w\<lparr>uw_workers := drop_nth i (uw_workers w)\<rparr>)"
| fill_copy: "at_pc w i (Filling s source) p \<Longrightarrow> install_plan (uw_u w) (accessType (uw_workers w ! i)) source = ICopy data mode \<Longrightarrow>
    kn_copy kn (uw_kernel w) p data mode e n k' \<Longrightarrow> r = outcome_of (Fd_copy (uf_pageSize (uw_u w)) data e n) \<Longrightarrow>
    uffd_step ops kn src w (w\<lparr>uw_workers := after_io i s r (uw_workers w), uw_kernel := k',
      uw_raced := (if source = None \<and> accessType (uw_workers w ! i) = Write \<and> r = Inr faultAlreadyPresent
        then insert p (uw_raced w) else uw_raced w)\<rparr>)"
| fill_zero: "at_pc w i (Filling s source) p \<Longrightarrow> install_plan (uw_u w) (accessType (uw_workers w ! i)) source = IZero \<Longrightarrow>
    kn_zero kn (uw_kernel w) p e n k' \<Longrightarrow> r = outcome_of (Fd_zero (uf_pageSize (uw_u w)) e n) \<Longrightarrow>
    uffd_step ops kn src w (w\<lparr>uw_workers := after_io i s r (uw_workers w), uw_kernel := k',
      uw_raced := (if r = Inr faultAlreadyPresent then insert p (uw_raced w) else uw_raced w)\<rparr>)"
| fill_zero_dontwake: "at_pc w i (Filling s source) p \<Longrightarrow>
    install_plan (uw_u w) (accessType (uw_workers w ! i)) source = IZeroProtect \<Longrightarrow>
    kn_zero kn (uw_kernel w) p e n k' \<Longrightarrow> writeErr = Fd_zero (uf_pageSize (uw_u w)) e n \<Longrightarrow>
    uffd_step ops kn src w (w\<lparr>uw_workers :=
        (if writeErr = None then set_pc i (Protecting s) (uw_workers w) else after_io i s (outcome_of writeErr) (uw_workers w)),
      uw_kernel := k'\<rparr>)"
| fill_protect: "at_pc w i (Protecting s) p \<Longrightarrow> kn_protect kn (uw_kernel w) p e k' \<Longrightarrow>
    r = (if e \<noteq> 0 then outcome_of_joined (Fd_call e) (Fd_call wakeErrno) else outcome_of (Fd_call wakeErrno)) \<Longrightarrow>
    uffd_step ops kn src w (w\<lparr>uw_workers := after_io i s r (uw_workers w), uw_kernel := k'\<rparr>)"
| settle: "at_pc w i (Settling s outcome) p \<Longrightarrow>
    settle ops (uw_u w) (uw_deferred w) (uw_workers w ! i) s outcome = (u', deferred', r) \<Longrightarrow>
    uffd_step ops kn src w (w\<lparr>uw_u := u', uw_deferred := deferred', uw_workers := drop_nth i (uw_workers w)\<rparr>)"
| close: "\<forall>v \<in> set (uw_workers w). wk_pc v = Queued \<Longrightarrow> uffd_step ops kn src w (w\<lparr>uw_u := (uw_u w)\<lparr>uf_closed := True\<rparr>\<rparr>)"
| guest_write: "kn_mem kn (uw_kernel w) p = Some old \<Longrightarrow> kn_mem kn k' = (kn_mem kn (uw_kernel w))(p \<mapsto> new) \<Longrightarrow>
    kn_wp kn k' = (kn_wp kn (uw_kernel w))(p := False) \<Longrightarrow>
    uffd_step ops kn src w (w\<lparr>uw_kernel := k', uw_val := (uw_val w)(p := new),
      uw_raced := (if \<exists>v \<in> locked_at (uf_pageSize (uw_u w)) (uw_workers w) p. \<exists>s. wk_pc v = Protecting s
        then insert p (uw_raced w) else uw_raced w)\<rparr>)"
| zap: "p \<in> set (uw_zap w) \<Longrightarrow> kn_mem kn k' = (kn_mem kn (uw_kernel w))(p := None) \<Longrightarrow>
    (\<forall>q. q \<noteq> p \<longrightarrow> kn_wp kn k' q = kn_wp kn (uw_kernel w) q) \<Longrightarrow>
    uffd_step ops kn src w (w\<lparr>uw_kernel := k', uw_zap := remove1 p (uw_zap w),
      uw_val := (uw_val w)(p := zero_page (uf_pageSize (uw_u w)))\<rparr>)"

text \<open>The start: a fresh handler, nothing mapped, the guest has the memory of the snapshot.\<close>

definition uffd_start :: "'b bitmap_ops \<Rightarrow> 'k kernel \<Rightarrow> (int \<Rightarrow> bytes) \<Rightarrow> Region list \<Rightarrow> ('b, 'k) uworld \<Rightarrow> bool" where
  "uffd_start ops kn src regions w \<longleftrightarrow>
     NewUserfaultfdFromFd ops regions = Inr (uw_u w) \<and> uw_loop w = Polling \<and> uw_deferred w = [] \<and> uw_workers w = [] \<and>
     kn_mem kn (uw_kernel w) = (\<lambda>_. None) \<and> uw_zap w = [] \<and> uw_val w = src \<and> uw_raced w = {} \<and>
     (\<forall>p. int (length (src p)) = uf_pageSize (uw_u w))"

text \<open>Nothing in flight: what the hypervisor's pause and the two locks of \<open>ExportPageStates\<close> wait for.\<close>

definition settled :: "('b, 'k) uworld \<Rightarrow> bool" where
  "settled w \<longleftrightarrow> (\<forall>v \<in> set (uw_workers w). wk_pc v = Queued) \<and> applying (uw_u w) (uw_loop w) = [] \<and> uw_zap w = []"

text \<open>The page that a snapshot restores, from its written and its empty pages.\<close>

definition snapshot_page :: "int \<Rightarrow> (int \<Rightarrow> bytes) \<Rightarrow> (int \<Rightarrow> bytes option) \<Rightarrow> int set \<Rightarrow> int set \<Rightarrow> int \<Rightarrow> bytes option" where
  "snapshot_page pageSize src mem dirty empt p =
     (if p \<in> dirty then mem p else if p \<in> empt then Some (zero_page pageSize) else Some (src p))"

section \<open>The invariant of a page\<close>

text \<open>The value that an access to a missing page must find, by the state of the page in the tracker.\<close>

definition fill_val :: "int \<Rightarrow> bytes \<Rightarrow> State \<Rightarrow> bytes" where
  "fill_val pageSize srcp T = (if T = Zero then zero_page pageSize else srcp)"

definition worker_ok :: "int \<Rightarrow> bytes \<Rightarrow> State \<Rightarrow> bytes option \<Rightarrow> bool \<Rightarrow> worker \<Rightarrow> bool" where
  "worker_ok pageSize srcp T M W v \<longleftrightarrow>
     (case wk_pc v of
        Queued \<Rightarrow> True
      | Reading s n \<Rightarrow> s = NotPresent \<and> T \<noteq> Zero
      | Filling s d \<Rightarrow> s = NotPresent \<and> d = Some srcp \<and> T \<noteq> Zero \<or> s = Zero \<and> d = None \<and> T \<noteq> NotPresent \<and> wk_data v = None
      | Protecting s \<Rightarrow> s = Zero \<and> wk_data v = None \<and> accessType v = Read \<and> T = Zero \<and> M = Some (zero_page pageSize)
      | Settling s out \<Rightarrow>
          (s = NotPresent \<and> T \<noteq> Zero \<or> s = Zero \<and> T \<noteq> NotPresent \<and> wk_data v = None) \<and>
          (out = faultInstalled \<or> out = faultAlreadyPresent \<longrightarrow> M \<noteq> None) \<and>
          (s = Zero \<and> accessType v = Write \<longrightarrow> out \<noteq> faultAlreadyPresent \<and> (out = faultInstalled \<longrightarrow> \<not> W)))"

definition protecting :: "worker \<Rightarrow> bool" where
  "protecting v \<longleftrightarrow> (\<exists>s. wk_pc v = Protecting s)"

definition dirtied :: "worker \<Rightarrow> bool" where
  "dirtied v \<longleftrightarrow> wk_pc v = Settling Zero faultInstalled \<and> accessType v = Write"

definition no_clash :: "worker set \<Rightarrow> bool" where
  "no_clash L \<longleftrightarrow> (\<forall>a \<in> L. \<forall>b \<in> L. protecting a \<longrightarrow> \<not> dirtied b)"

lemma no_clash_sub: "no_clash L \<Longrightarrow> L' \<subseteq> L \<Longrightarrow> no_clash L'"
  by (auto simp: no_clash_def)

lemma no_clash_insert:
  assumes "no_clash L" "protecting v \<Longrightarrow> \<not> dirtied v \<and> (\<forall>b \<in> L. \<not> dirtied b)" "dirtied v \<Longrightarrow> (\<forall>a \<in> L. \<not> protecting a)"
  shows "no_clash (insert v L)"
  unfolding no_clash_def
proof (intro ballI impI)
  fix a b assume ab: "a \<in> insert v L" "b \<in> insert v L" "protecting a"
  show "\<not> dirtied b"
  proof (cases "a = v")
    case True
    then have "protecting v" using ab(3) by simp
    from assms(2) [OF this] show ?thesis using ab(2) by (elim insertE) simp_all
  next
    case False
    then have a: "a \<in> L" using ab(1) by simp
    show ?thesis
    proof (cases "b = v")
      case True
      then show ?thesis using assms(3) a ab(3) by metis
    next
      case False
      then have "b \<in> L" using ab(2) by simp
      then show ?thesis using assms(1) a ab(3) unfolding no_clash_def by metis
    qed
  qed
qed

text \<open>While a page is being removed no install is in flight, and the page is gone, or marked, as far as the
  removal has come. Otherwise a missing page has the value that the tracker says, and so has a
  mapped one that was not written.\<close>

definition page_ok ::
  "int \<Rightarrow> bytes \<Rightarrow> State \<Rightarrow> bytes option \<Rightarrow> bool \<Rightarrow> bytes \<Rightarrow> bool \<Rightarrow> bool \<Rightarrow> worker set \<Rightarrow> bool" where
  "page_ok pageSize srcp T M W V ap zp L \<longleftrightarrow>
     (if ap \<or> zp
      then L = {} \<and> (\<forall>c. M = Some c \<longrightarrow> V = c) \<and> (\<not> zp \<longrightarrow> M = None \<and> V = zero_page pageSize) \<and> (\<not> ap \<longrightarrow> T = Zero)
      else (M = None \<longrightarrow> T \<noteq> Dirty \<and> V = fill_val pageSize srcp T) \<and>
        (\<forall>c. M = Some c \<longrightarrow> V = c \<and> (W \<longrightarrow> c = fill_val pageSize srcp T)) \<and>
        (\<forall>v \<in> L. worker_ok pageSize srcp T M W v) \<and> no_clash L)"

lemma page_ok_sub: "page_ok ps srcp T M W V ap zp L \<Longrightarrow> L' \<subseteq> L \<Longrightarrow> page_ok ps srcp T M W V ap zp L'"
  unfolding page_ok_def using no_clash_sub by (cases "ap \<or> zp") auto

lemma page_ok_insert:
  assumes "page_ok ps srcp T M W V False False L" "worker_ok ps srcp T M W v"
    and "protecting v \<Longrightarrow> \<not> dirtied v \<and> (\<forall>b \<in> L. \<not> dirtied b)" "dirtied v \<Longrightarrow> (\<forall>a \<in> L. \<not> protecting a)"
  shows "page_ok ps srcp T M W V False False (insert v L)"
proof -
  have "no_clash (insert v L)" using assms by (intro no_clash_insert) (simp_all add: page_ok_def)
  then show ?thesis using assms(1,2) by (simp add: page_ok_def)
qed

lemma page_ok_insert_plain:
  "page_ok ps srcp T M W V False False L \<Longrightarrow> worker_ok ps srcp T M W v \<Longrightarrow> \<not> protecting v \<Longrightarrow> \<not> dirtied v \<Longrightarrow>
   page_ok ps srcp T M W V False False (insert v L)"
  by (rule page_ok_insert) simp_all

lemma dirtied_mapped: "page_ok ps srcp T None W V False False L \<Longrightarrow> v \<in> L \<Longrightarrow> \<not> dirtied v \<and> \<not> protecting v"
  by (auto simp: page_ok_def worker_ok_def dirtied_def protecting_def split: wpc.splits)

lemma locked_at_append [simp]: "locked_at ps (ws @ ws') p = locked_at ps ws p \<union> locked_at ps ws' p"
  by (auto simp: locked_at_def)

lemma locked_at_drop_nth: "locked_at ps (drop_nth i ws) p \<subseteq> locked_at ps ws p"
  using set_take_subset [of i ws] set_drop_subset [of "Suc i" ws] by (auto simp: locked_at_def drop_nth_def)

lemma page_idx_pc [simp]: "page_idx ps (v\<lparr>wk_pc := pc\<rparr>) = page_idx ps v" "accessType (v\<lparr>wk_pc := pc\<rparr>) = accessType v"
  by (simp_all add: page_idx_def accessType_def)

lemma locked_at_set_pc:
  assumes "i < length ws"
  shows "locked_at ps (set_pc i pc ws) p \<subseteq>
    (if p = page_idx ps (ws ! i) \<and> pc \<noteq> Queued then insert ((ws ! i)\<lparr>wk_pc := pc\<rparr>) (locked_at ps ws p) else locked_at ps ws p)"
  using set_update_subset_insert [of ws i "(ws ! i)\<lparr>wk_pc := pc\<rparr>"] by (auto simp: locked_at_def set_pc_def)

lemma locked_at_queued: "\<forall>v \<in> set ws. wk_pc v = Queued \<Longrightarrow> locked_at ps ws p = {}"
  by (auto simp: locked_at_def)

lemma dispatch_queued_fst: "v \<in> set (fst (dispatch u pfs)) \<Longrightarrow> wk_pc v = Queued \<and> wk_data v = None"
  by (induction pfs) (auto split: if_splits sum.splits)

lemma dispatch_queued: "dispatch u pfs = (ws, r) \<Longrightarrow> v \<in> set ws \<Longrightarrow> wk_pc v = Queued \<and> wk_data v = None"
  using dispatch_queued_fst [of v u pfs] by simp

lemma apply_remove_fields:
  "uf_ma (foldl (apply_remove ops) u rms) = uf_ma u" "uf_pageSize (foldl (apply_remove ops) u rms) = uf_pageSize u"
  "uf_defaultCopyMode (foldl (apply_remove ops) u rms) = uf_defaultCopyMode u"
  by (induction rms arbitrary: u) (auto simp: apply_remove_def split: option.splits)

lemma remove_range_fields:
  "uf_ma u' = uf_ma u \<Longrightarrow> uf_pageSize u' = uf_pageSize u \<Longrightarrow> remove_range u' rm = remove_range u rm"
  by (simp add: remove_range_def split: sum.split)

lemma remove_range_bounds: "remove_range u rm = Some (s, e) \<Longrightarrow> 0 \<le> s \<and> s < 4294967296 \<and> 0 \<le> e \<and> e < 4294967296"
  by (auto simp: remove_range_def Let_def split: sum.splits)

lemma applying_fields:
  "uf_ma u' = uf_ma u \<Longrightarrow> uf_pageSize u' = uf_pageSize u \<Longrightarrow> applying u' l = applying u l"
  by (cases l) (simp_all add: remove_pages_def remove_range_fields [of u' u])

lemma page_idx_bounds [simp]: "0 \<le> page_idx ps v" "page_idx ps v < 4294967296"
  by (simp_all add: page_idx_def)

definition handler_ok :: "(int \<Rightarrow> bytes) \<Rightarrow> 'b Userfaultfd \<Rightarrow> worker list \<Rightarrow> bool" where
  "handler_ok src u ws \<longleftrightarrow> (uf_pageSize u = PageSize \<or> uf_pageSize u = HugepageSize) \<and> \<not> uf_defaultCopyMode u \<and>
     (\<forall>p. int (length (src p)) = uf_pageSize u) \<and>
     (\<forall>v \<in> set ws. \<forall>d. wk_data v = Some d \<longrightarrow> d = src (page_idx (uf_pageSize u) v))"

lemma handler_ok_sub: "handler_ok src u ws \<Longrightarrow> set ws' \<subseteq> set ws \<Longrightarrow> handler_ok src u ws'"
  by (auto simp: handler_ok_def)

lemma set_drop_nth: "set (drop_nth i ws) \<subseteq> set ws"
  using set_take_subset [of i ws] set_drop_subset [of "Suc i" ws] by (auto simp: drop_nth_def)

lemma handler_ok_set_pc: "handler_ok src u ws \<Longrightarrow> i < length ws \<Longrightarrow> handler_ok src u (set_pc i pc ws)"
  using set_update_subset_insert [of ws i "(ws ! i)\<lparr>wk_pc := pc\<rparr>"] nth_mem [of i ws]
  by (fastforce simp: handler_ok_def set_pc_def)

lemma handler_ok_after_io: "handler_ok src u ws \<Longrightarrow> i < length ws \<Longrightarrow> handler_ok src u (after_io i s r ws)"
  by (auto simp: after_io_def handler_ok_set_pc intro: handler_ok_sub [OF _ set_drop_nth] split: sum.splits)

section \<open>Steps on one page\<close>

lemma page_ok_locked:
  "page_ok ps srcp T M W V ap zp L \<Longrightarrow> v \<in> L \<Longrightarrow> \<not> ap \<and> \<not> zp \<and> worker_ok ps srcp T M W v"
  by (auto simp: page_ok_def split: if_splits)

lemma worker_ok_mapped: "worker_ok ps srcp T None W v \<Longrightarrow> worker_ok ps srcp T (Some d) W' v"
  by (auto simp: worker_ok_def split: wpc.splits)

text \<open>An install maps a missing page.\<close>

lemma page_ok_mapped:
  assumes "page_ok ps srcp T None W V False False L" "d = fill_val ps srcp T"
  shows "page_ok ps srcp T (Some d) W' V False False L"
  using assms worker_ok_mapped by (auto simp: page_ok_def)

lemma filling_cases:
  assumes "page_ok ps srcp T M W V ap zp L" "v \<in> L" "wk_pc v = Filling s source"
  shows "\<not> ap" "\<not> zp" "s = NotPresent \<and> source = Some srcp \<and> T \<noteq> Zero \<or> s = Zero \<and> source = None \<and> T \<noteq> NotPresent \<and> wk_data v = None"
    "M = None \<Longrightarrow> fill_val ps srcp T = (case source of None \<Rightarrow> zero_page ps | Some d \<Rightarrow> d)"
  using page_ok_locked [OF assms(1,2)] assms(1,3) by (auto simp: worker_ok_def page_ok_def fill_val_def) (cases T; auto)+

lemma page_ok_installed:
  assumes "page_ok ps srcp T None W V ap zp L" "v \<in> L" "wk_pc v = Filling s source"
    and "d = (case source of None \<Rightarrow> zero_page ps | Some x \<Rightarrow> x)" "source = None \<Longrightarrow> accessType v = Write \<Longrightarrow> \<not> W'"
  shows "page_ok ps srcp T (Some d) W' V ap zp (insert (v\<lparr>wk_pc := Settling s faultInstalled\<rparr>) L)"
proof -
  note f = filling_cases [OF assms(1-3)]
  have p: "page_ok ps srcp T (Some d) W' V False False L"
    using assms(1) f(1,2) f(4) assms(4) page_ok_mapped by (metis (full_types))
  have "worker_ok ps srcp T (Some d) W' (v\<lparr>wk_pc := Settling s faultInstalled\<rparr>)"
    using f(3) assms(5) by (auto simp: worker_ok_def)
  then have "page_ok ps srcp T (Some d) W' V False False (insert (v\<lparr>wk_pc := Settling s faultInstalled\<rparr>) L)"
    using dirtied_mapped [of ps srcp T W V L] assms(1) f(1,2)
    by (intro page_ok_insert [OF p]) (simp_all add: protecting_def)
  then show ?thesis using f(1,2) by simp
qed

lemma page_ok_zeroed:
  assumes "page_ok ps srcp T None W V ap zp L" "v \<in> L" "wk_pc v = Filling s None" "accessType v = Read"
  shows "page_ok ps srcp T (Some (zero_page ps)) W' V ap zp (insert (v\<lparr>wk_pc := Protecting s\<rparr>) L)"
proof -
  note f = filling_cases [OF assms(1-3)]
  have T: "T = Zero" using f assms(1) by (cases T) (auto simp: page_ok_def)
  have p: "page_ok ps srcp T (Some (zero_page ps)) W' V False False L"
    using assms(1) f(1,2) by (intro page_ok_mapped [of ps srcp T W]) (simp_all add: T fill_val_def)
  have "worker_ok ps srcp T (Some (zero_page ps)) W' (v\<lparr>wk_pc := Protecting s\<rparr>)"
    using f(3) T assms(4) by (auto simp: worker_ok_def)
  then have "page_ok ps srcp T (Some (zero_page ps)) W' V False False (insert (v\<lparr>wk_pc := Protecting s\<rparr>) L)"
    using dirtied_mapped [of ps srcp T W V L] assms(1) f(1,2)
    by (intro page_ok_insert [OF p]) (auto simp: dirtied_def)
  then show ?thesis using f(1,2) by simp
qed

text \<open>An outcome other than an install, with nothing mapped by it.\<close>

lemma page_ok_settling:
  assumes "page_ok ps srcp T M W V ap zp L" "v \<in> L" "wk_pc v = Filling s source \<or> wk_pc v = Protecting s"
    and "out \<noteq> faultInstalled" "out = faultAlreadyPresent \<Longrightarrow> M \<noteq> None \<and> \<not> (s = Zero \<and> accessType v = Write)"
  shows "page_ok ps srcp T M W V ap zp (insert (v\<lparr>wk_pc := Settling s out\<rparr>) L)"
proof -
  note w = page_ok_locked [OF assms(1,2)]
  then have "worker_ok ps srcp T M W (v\<lparr>wk_pc := Settling s out\<rparr>)"
    using assms(3-5) by (auto simp: worker_ok_def)
  moreover have p: "page_ok ps srcp T M W V False False L" using w assms(1) by simp
  ultimately have "page_ok ps srcp T M W V False False (insert (v\<lparr>wk_pc := Settling s out\<rparr>) L)"
    using assms(4) by (intro page_ok_insert [OF p]) (simp_all add: protecting_def dirtied_def)
  then show ?thesis using w by simp
qed

lemma page_ok_protected:
  assumes "page_ok ps srcp T M W V ap zp L" "v \<in> L" "wk_pc v = Protecting s"
  shows "page_ok ps srcp T M True V ap zp (insert (v\<lparr>wk_pc := Settling s out\<rparr>) L)"
proof -
  note w = page_ok_locked [OF assms(1,2)]
  have z: "s = Zero" "wk_data v = None" "accessType v = Read" "T = Zero" "M = Some (zero_page ps)" "\<not> ap" "\<not> zp"
    using w assms(3) by (auto simp: worker_ok_def)
  have "\<not> dirtied b" if "b \<in> L" for b using assms z that by (auto simp: page_ok_def no_clash_def protecting_def)
  then have "worker_ok ps srcp T M True b" if "b \<in> L" for b
    using assms(1) z that by (force simp: page_ok_def worker_ok_def dirtied_def split: wpc.splits)
  then have p: "page_ok ps srcp T M True V False False L"
    using assms(1) z by (auto simp: page_ok_def fill_val_def)
  have "worker_ok ps srcp T M True (v\<lparr>wk_pc := Settling s out\<rparr>)" using z by (auto simp: worker_ok_def)
  then have "page_ok ps srcp T M True V False False (insert (v\<lparr>wk_pc := Settling s out\<rparr>) L)"
    using z by (intro page_ok_insert [OF p]) (simp_all add: protecting_def dirtied_def)
  then show ?thesis using z by simp
qed

lemma Fd_copy_cases:
  assumes "data \<noteq> []" "0 < ps"
  shows "e = 0 \<and> n = ps \<and> outcome_of (Fd_copy ps data e n) = Inr faultInstalled \<or>
    \<not> (e = 0 \<and> n = ps) \<and> outcome_of (Fd_copy ps data e n) \<noteq> Inr faultInstalled \<and>
    (outcome_of (Fd_copy ps data e n) = Inr faultAlreadyPresent \<longrightarrow> e = EEXIST \<or> e = 0 \<and> n = - EEXIST)"
  using assms by (auto simp: Fd_copy_def classifyCopyResult_def outcome_of_def EEXIST_def ESRCH_def EAGAIN_def)

lemma Fd_zero_cases:
  "e = 0 \<and> n = ps \<and> Fd_zero ps e n = None \<and> outcome_of (Fd_zero ps e n) = Inr faultInstalled \<or>
    \<not> (e = 0 \<and> n = ps) \<and> Fd_zero ps e n \<noteq> None \<and> outcome_of (Fd_zero ps e n) \<noteq> Inr faultInstalled \<and>
    (outcome_of (Fd_zero ps e n) = Inr faultAlreadyPresent \<longrightarrow> e = EEXIST)"
  by (auto simp: Fd_zero_def outcome_of_def EEXIST_def ESRCH_def EAGAIN_def)

lemma install_plan_cases:
  assumes "\<not> uf_defaultCopyMode u"
  shows "install_plan u acc source = ICopy data mode \<Longrightarrow>
      data = (case source of None \<Rightarrow> zero_page (uf_pageSize u) | Some d \<Rightarrow> d) \<and> (mode \<longleftrightarrow> acc = Read)"
    "install_plan u acc source = IZero \<Longrightarrow> source = None \<and> acc \<noteq> Read"
    "install_plan u acc source = IZeroProtect \<Longrightarrow> source = None \<and> acc = Read"
  using assms by (auto simp: install_plan_def Let_def split: option.splits if_splits)

lemma accessType_cases: "accessType v \<noteq> Read \<longleftrightarrow> accessType v = Write"
  by (simp add: accessType_def)

text \<open>Settling marks the page.\<close>

lemma page_ok_marked:
  assumes "page_ok ps srcp T M W V ap zp L" "v \<in> L" "wk_pc v = Settling s out" "out = faultInstalled \<or> out = faultAlreadyPresent"
    and "wk_data v \<noteq> None \<or> s = NotPresent \<or> accessType v = Write"
  shows "page_ok ps srcp Dirty M W V ap zp L"
proof -
  note w = page_ok_locked [OF assms(1,2)]
  have s: "M \<noteq> None" "s = NotPresent \<and> T \<noteq> Zero \<or> s = Zero \<and> T \<noteq> NotPresent \<and> dirtied v \<and> \<not> W"
    using w assms(3-5) by (auto simp: worker_ok_def dirtied_def accessType_def)
  have "\<not> protecting a" if "a \<in> L" for a
  proof
    assume a: "protecting a"
    then have "T = Zero" using page_ok_locked [OF assms(1) that] by (auto simp: worker_ok_def protecting_def)
    then show False using s a assms(1,2) that by (auto simp: page_ok_def no_clash_def split: if_splits)
  qed
  then have "worker_ok ps srcp Dirty M W a" if "a \<in> L" for a
    using page_ok_locked [OF assms(1) that] that by (auto simp: worker_ok_def protecting_def split: wpc.splits)
  then show ?thesis using assms(1) s w by (auto simp: page_ok_def fill_val_def)
qed

context roaring_bitmap
begin

definition page_inv :: "'k kernel \<Rightarrow> (int \<Rightarrow> bytes) \<Rightarrow> ('b, 'k) uworld \<Rightarrow> int \<Rightarrow> bool" where
  "page_inv kn src w p \<longleftrightarrow>
     page_ok (uf_pageSize (uw_u w)) (src p) (tstate (uf_pageTracker (uw_u w)) p) (kn_mem kn (uw_kernel w) p) (kn_wp kn (uw_kernel w) p)
       (uw_val w p) (p \<in> set (applying (uw_u w) (uw_loop w))) (p \<in> set (uw_zap w)) (locked_at (uf_pageSize (uw_u w)) (uw_workers w) p)"

definition uinv :: "'k kernel \<Rightarrow> (int \<Rightarrow> bytes) \<Rightarrow> ('b, 'k) uworld \<Rightarrow> bool" where
  "uinv kn src w \<longleftrightarrow> tracker_ok (uf_pageTracker (uw_u w)) \<and> handler_ok src (uw_u w) (uw_workers w) \<and>
     (\<forall>p. 0 \<le> p \<and> p < 4294967295 \<and> p \<notin> uw_raced w \<longrightarrow> page_inv kn src w p)"

lemma uinv_page: "uinv kn src w \<Longrightarrow> 0 \<le> p \<Longrightarrow> p < 4294967295 \<Longrightarrow> p \<notin> uw_raced w \<Longrightarrow> page_inv kn src w p"
  by (simp add: uinv_def)

text \<open>Marking removals in the tracker.\<close>

lemma apply_remove_state:
  assumes "tracker_ok (uf_pageTracker u)"
  shows "tracker_ok (uf_pageTracker (apply_remove ops u rm)) \<and>
    tstate (uf_pageTracker (apply_remove ops u rm)) p = (if p \<in> set (remove_pages u [rm]) then Zero else tstate (uf_pageTracker u) p)"
proof (cases "remove_range u rm")
  case None
  then show ?thesis using assms by (simp add: apply_remove_def remove_pages_def)
next
  case (Some a)
  obtain s e where a: "a = (s, e)" by (cases a)
  then have "idx_range s e" using remove_range_bounds Some by blast
  then show ?thesis using SetRange_spec [OF assms, of s e Zero] Some a by (auto simp: apply_remove_def remove_pages_def)
qed

lemma apply_removes_state:
  assumes "tracker_ok (uf_pageTracker u)"
  shows "tracker_ok (uf_pageTracker (foldl (apply_remove ops) u rms)) \<and>
    tstate (uf_pageTracker (foldl (apply_remove ops) u rms)) p = (if p \<in> set (remove_pages u rms) then Zero else tstate (uf_pageTracker u) p)"
  using assms
proof (induction rms arbitrary: u)
  case Nil
  then show ?case by (simp add: remove_pages_def)
next
  case (Cons rm rms)
  let ?u = "apply_remove ops u rm"
  have u: "uf_ma ?u = uf_ma u" "uf_pageSize ?u = uf_pageSize u" using apply_remove_fields [of ops u "[rm]"] by simp_all
  have c: "remove_pages ?u rms = remove_pages u rms" by (simp add: remove_pages_def remove_range_fields [OF u])
  have "set (remove_pages u (rm # rms)) = set (remove_pages u [rm]) \<union> set (remove_pages u rms)" by (simp add: remove_pages_def)
  then show ?case using Cons.IH [of ?u] apply_remove_state [OF Cons.prems, of rm p] c by auto
qed

lemma settle_state:
  assumes "settle ops u deferred v s out = (u', deferred', r)" "tracker_ok (uf_pageTracker u)" "p < 4294967295"
  shows "uf_ma u' = uf_ma u" "uf_pageSize u' = uf_pageSize u" "uf_defaultCopyMode u' = uf_defaultCopyMode u" "tracker_ok (uf_pageTracker u')"
    "tstate (uf_pageTracker u') p = (if p = page_idx (uf_pageSize u) v \<and> (out = faultInstalled \<or> out = faultAlreadyPresent) \<and>
       (wk_data v \<noteq> None \<or> s = NotPresent \<or> accessType v = Write) then Dirty else tstate (uf_pageTracker u) p)"
proof -
  let ?i = "page_idx (uf_pageSize u) v"
  have b: "0 \<le> ?i" "?i < 4294967296" by simp_all
  have sr: "tracker_ok (SetRange ops (uf_pageTracker u) ?i (u32 (?i + 1)) Dirty) \<and>
    tstate (SetRange ops (uf_pageTracker u) ?i (u32 (?i + 1)) Dirty) p = (if p = ?i then Dirty else tstate (uf_pageTracker u) p)"
  proof (cases "?i < 4294967295")
    case True
    then have "idx_range ?i (?i + 1)" "u32 (?i + 1) = ?i + 1" using b by (auto intro: u32_id)
    then show ?thesis using SetRange_spec [OF assms(2), of ?i "?i + 1" Dirty] by auto
  next
    case False
    then have "?i = 4294967295" using b(2) by linarith
    then show ?thesis using assms(2,3) by (auto simp: SetRange_def u32_def)
  qed
  show "uf_ma u' = uf_ma u" "uf_pageSize u' = uf_pageSize u" "uf_defaultCopyMode u' = uf_defaultCopyMode u"
    using assms(1) by (auto simp: settle_def serve_settle_def Prefault_settle_def Let_def split: if_splits faultOutcome.splits)
  show "tracker_ok (uf_pageTracker u')" "tstate (uf_pageTracker u') p = (if p = ?i \<and> (out = faultInstalled \<or> out = faultAlreadyPresent) \<and>
       (wk_data v \<noteq> None \<or> s = NotPresent \<or> accessType v = Write) then Dirty else tstate (uf_pageTracker u) p)"
    using assms(1,2) sr by (auto simp: settle_def serve_settle_def Prefault_settle_def Let_def split: if_splits faultOutcome.splits)
qed

text \<open>A step of one worker changes the kernel and the workers at its page \<open>q\<close> only.\<close>

lemma uinv_worker_step:
  assumes "uinv kn src w" "handler_ok src (uw_u w) ws'" "uw_raced w \<subseteq> R"
    and "\<And>p. p \<noteq> q \<Longrightarrow> locked_at (uf_pageSize (uw_u w)) ws' p \<subseteq> locked_at (uf_pageSize (uw_u w)) (uw_workers w) p"
    and "\<And>p. p \<noteq> q \<Longrightarrow> kn_mem kn k' p = kn_mem kn (uw_kernel w) p \<and> kn_wp kn k' p = kn_wp kn (uw_kernel w) p"
    and "q \<notin> R \<Longrightarrow> page_inv kn src w q \<Longrightarrow> page_inv kn src (w\<lparr>uw_workers := ws', uw_kernel := k'\<rparr>) q"
  shows "uinv kn src (w\<lparr>uw_workers := ws', uw_kernel := k', uw_raced := R\<rparr>)"
proof -
  let ?w = "w\<lparr>uw_workers := ws', uw_kernel := k', uw_raced := R\<rparr>"
  have "page_inv kn src ?w p" if "0 \<le> p" "p < 4294967295" "p \<notin> R" for p
  proof (cases "p = q")
    case True
    then show ?thesis using assms(6) uinv_page [OF assms(1) that(1,2)] that(3) assms(3) by (auto simp: page_inv_def)
  next
    case False
    have "page_inv kn src w p" using uinv_page [OF assms(1) that(1,2)] that(3) assms(3) by blast
    from page_ok_sub [OF this [unfolded page_inv_def] assms(4) [OF False]]
    show ?thesis using assms(5) [OF False] by (simp add: page_inv_def)
  qed
  then show ?thesis using assms(1,2) by (simp add: uinv_def)
qed

lemma uinv_drop:
  assumes "uinv kn src w"
  shows "uinv kn src (w\<lparr>uw_workers := drop_nth i (uw_workers w)\<rparr>)"
proof -
  have "handler_ok src (uw_u w) (drop_nth i (uw_workers w))"
    using assms handler_ok_sub [OF _ set_drop_nth] by (auto simp: uinv_def)
  moreover have "page_inv kn src (w\<lparr>uw_workers := drop_nth i (uw_workers w)\<rparr>) p" if "page_inv kn src w p" for p
    using page_ok_sub [OF _ locked_at_drop_nth] that by (simp add: page_inv_def)
  ultimately show ?thesis using assms by (simp add: uinv_def)
qed

lemma uinv_set_pc:
  assumes "uinv kn src w" "i < length (uw_workers w)" "q = page_idx (uf_pageSize (uw_u w)) (uw_workers w ! i)" "uw_raced w \<subseteq> R"
    and "\<And>p. p \<noteq> q \<Longrightarrow> kn_mem kn k' p = kn_mem kn (uw_kernel w) p \<and> kn_wp kn k' p = kn_wp kn (uw_kernel w) p"
    and "\<And>srcp T V ap zp L. q \<notin> R \<Longrightarrow> (wk_pc (uw_workers w ! i) \<noteq> Queued \<Longrightarrow> uw_workers w ! i \<in> L) \<Longrightarrow> srcp = src q \<Longrightarrow>
      T = tstate (uf_pageTracker (uw_u w)) q \<Longrightarrow> removing w q = (ap \<or> zp) \<Longrightarrow>
      page_ok (uf_pageSize (uw_u w)) srcp T (kn_mem kn (uw_kernel w) q) (kn_wp kn (uw_kernel w) q) V ap zp L \<Longrightarrow>
      page_ok (uf_pageSize (uw_u w)) srcp T (kn_mem kn k' q) (kn_wp kn k' q) V ap zp (insert ((uw_workers w ! i)\<lparr>wk_pc := pc\<rparr>) L)"
  shows "uinv kn src (w\<lparr>uw_workers := set_pc i pc (uw_workers w), uw_kernel := k', uw_raced := R\<rparr>)"
proof (rule uinv_worker_step [OF assms(1) _ assms(4), where q = q])
  show "handler_ok src (uw_u w) (set_pc i pc (uw_workers w))"
    using assms(1,2) handler_ok_set_pc by (auto simp: uinv_def)
  show "locked_at (uf_pageSize (uw_u w)) (set_pc i pc (uw_workers w)) p \<subseteq> locked_at (uf_pageSize (uw_u w)) (uw_workers w) p"
    if "p \<noteq> q" for p
    using locked_at_set_pc [OF assms(2), of "uf_pageSize (uw_u w)" pc p] that assms(3) by (simp split: if_splits)
  show "kn_mem kn k' p = kn_mem kn (uw_kernel w) p \<and> kn_wp kn k' p = kn_wp kn (uw_kernel w) p" if "p \<noteq> q" for p
    using assms(5) that .
  assume r: "q \<notin> R" and p: "page_inv kn src w q"
  let ?L = "locked_at (uf_pageSize (uw_u w)) (uw_workers w) q"
  have "uw_workers w ! i \<in> ?L" if "wk_pc (uw_workers w ! i) \<noteq> Queued"
    using that assms(2,3) by (simp add: locked_at_def)
  then have "page_ok (uf_pageSize (uw_u w)) (src q) (tstate (uf_pageTracker (uw_u w)) q) (kn_mem kn k' q) (kn_wp kn k' q)
     (uw_val w q) (q \<in> set (applying (uw_u w) (uw_loop w))) (q \<in> set (uw_zap w)) (insert ((uw_workers w ! i)\<lparr>wk_pc := pc\<rparr>) ?L)"
    using p by (intro assms(6) r) (auto simp: page_inv_def removing_def)
  moreover have "locked_at (uf_pageSize (uw_u w)) (set_pc i pc (uw_workers w)) q \<subseteq> insert ((uw_workers w ! i)\<lparr>wk_pc := pc\<rparr>) ?L"
    using locked_at_set_pc [OF assms(2), of "uf_pageSize (uw_u w)" pc q] by (auto split: if_splits)
  ultimately show "page_inv kn src (w\<lparr>uw_workers := set_pc i pc (uw_workers w), uw_kernel := k'\<rparr>) q"
    using page_ok_sub by (simp add: page_inv_def)
qed

text \<open>The look-up.\<close>

lemma uinv_lookup:
  assumes "uinv kn src w" "at_pc w i Queued q" "lookup ops (uw_u w) (uw_workers w ! i) = Inr pc"
  shows "uinv kn src (w\<lparr>uw_workers := set_pc i pc (uw_workers w),
      uw_raced := (if removing w q then insert q (uw_raced w) else uw_raced w)\<rparr>)"
proof -
  let ?v = "uw_workers w ! i" and ?R = "if removing w q then insert q (uw_raced w) else uw_raced w"
  have q: "0 \<le> q" "q < 4294967296" "q = page_idx (uf_pageSize (uw_u w)) ?v" using assms(2) by auto
  have d: "wk_data ?v = Some x \<Longrightarrow> x = src q" for x
    using assms(1,2) by (auto simp: uinv_def handler_ok_def)
  have T: "Get ops (uf_pageTracker (uw_u w)) q = tstate (uf_pageTracker (uw_u w)) q" using Get_spec q by blast
  have "uinv kn src (w\<lparr>uw_workers := set_pc i pc (uw_workers w), uw_kernel := uw_kernel w, uw_raced := ?R\<rparr>)"
  proof (rule uinv_set_pc [where q = q])
    fix srcp T V ap zp L
    assume a: "q \<notin> ?R" "srcp = src q" "T = tstate (uf_pageTracker (uw_u w)) q" "removing w q = (ap \<or> zp)"
      "page_ok (uf_pageSize (uw_u w)) srcp T (kn_mem kn (uw_kernel w) q) (kn_wp kn (uw_kernel w) q) V ap zp L"
    then have n: "\<not> ap" "\<not> zp" by (auto split: if_splits)
    have "worker_ok (uf_pageSize (uw_u w)) srcp T (kn_mem kn (uw_kernel w) q) (kn_wp kn (uw_kernel w) q) (?v\<lparr>wk_pc := pc\<rparr>) \<and>
      \<not> protecting (?v\<lparr>wk_pc := pc\<rparr>) \<and> \<not> dirtied (?v\<lparr>wk_pc := pc\<rparr>)"
      using assms(3) d T q(3) a(2,3)
      by (auto simp: lookup_def serve_lookup_def Prefault_lookup_def worker_ok_def protecting_def dirtied_def
          split: option.splits State.splits if_splits sum.splits)
    then show "page_ok (uf_pageSize (uw_u w)) srcp T (kn_mem kn (uw_kernel w) q) (kn_wp kn (uw_kernel w) q) V ap zp (insert (?v\<lparr>wk_pc := pc\<rparr>) L)"
      using n a(5) by (simp add: page_ok_insert_plain)
  qed (use assms(1,2) in auto)
  then show ?thesis by simp
qed

text \<open>Reading the source.\<close>

lemma uinv_source:
  assumes "uinv kn src w" "at_pc w i (Reading s n) q" "pc = Filling s (Some (src q)) \<or> pc = Reading s m"
  shows "uinv kn src (w\<lparr>uw_workers := set_pc i pc (uw_workers w)\<rparr>)"
proof -
  have "uinv kn src (w\<lparr>uw_workers := set_pc i pc (uw_workers w), uw_kernel := uw_kernel w, uw_raced := uw_raced w\<rparr>)"
  proof (rule uinv_set_pc [where q = q])
    fix srcp T V ap zp L
    assume a: "(wk_pc (uw_workers w ! i) \<noteq> Queued \<Longrightarrow> uw_workers w ! i \<in> L)" "srcp = src q"
      and p: "page_ok (uf_pageSize (uw_u w)) srcp T (kn_mem kn (uw_kernel w) q) (kn_wp kn (uw_kernel w) q) V ap zp L"
    have "uw_workers w ! i \<in> L" using a(1) assms(2) by simp
    note l = page_ok_locked [OF p this]
    then have "worker_ok (uf_pageSize (uw_u w)) srcp T (kn_mem kn (uw_kernel w) q) (kn_wp kn (uw_kernel w) q) ((uw_workers w ! i)\<lparr>wk_pc := pc\<rparr>)"
      using assms(2,3) a(2) by (auto simp: worker_ok_def)
    then show "page_ok (uf_pageSize (uw_u w)) srcp T (kn_mem kn (uw_kernel w) q) (kn_wp kn (uw_kernel w) q) V ap zp (insert ((uw_workers w ! i)\<lparr>wk_pc := pc\<rparr>) L)"
      using p l assms(3) by (auto intro!: page_ok_insert_plain simp: protecting_def dirtied_def)
  qed (use assms(1,2) in auto)
  then show ?thesis by simp
qed

text \<open>The ioctls.\<close>

lemma uinv_after_io:
  assumes "uinv kn src w" "at_pc w i pc0 q" "pc0 \<noteq> Queued" "uw_raced w \<subseteq> R"
    and "\<And>p. p \<noteq> q \<Longrightarrow> kn_mem kn k' p = kn_mem kn (uw_kernel w) p \<and> kn_wp kn k' p = kn_wp kn (uw_kernel w) p"
    and "\<And>srcp T V ap zp L out. q \<notin> R \<Longrightarrow> uw_workers w ! i \<in> L \<Longrightarrow> r = Inr out \<Longrightarrow> srcp = src q \<Longrightarrow>
      page_ok (uf_pageSize (uw_u w)) srcp T (kn_mem kn (uw_kernel w) q) (kn_wp kn (uw_kernel w) q) V ap zp L \<Longrightarrow>
      page_ok (uf_pageSize (uw_u w)) srcp T (kn_mem kn k' q) (kn_wp kn k' q) V ap zp (insert ((uw_workers w ! i)\<lparr>wk_pc := Settling s out\<rparr>) L)"
    and "\<And>srcp T V ap zp L e. q \<notin> R \<Longrightarrow> uw_workers w ! i \<in> L \<Longrightarrow> r = Inl e \<Longrightarrow> srcp = src q \<Longrightarrow>
      page_ok (uf_pageSize (uw_u w)) srcp T (kn_mem kn (uw_kernel w) q) (kn_wp kn (uw_kernel w) q) V ap zp L \<Longrightarrow>
      page_ok (uf_pageSize (uw_u w)) srcp T (kn_mem kn k' q) (kn_wp kn k' q) V ap zp L"
  shows "uinv kn src (w\<lparr>uw_workers := after_io i s r (uw_workers w), uw_kernel := k', uw_raced := R\<rparr>)"
proof (cases r)
  case (Inr out)
  have "uinv kn src (w\<lparr>uw_workers := set_pc i (Settling s out) (uw_workers w), uw_kernel := k', uw_raced := R\<rparr>)"
    by (rule uinv_set_pc [where q = q]) (use assms Inr in auto)
  then show ?thesis using Inr by (simp add: after_io_def)
next
  case (Inl e)
  have "uinv kn src (w\<lparr>uw_workers := drop_nth i (uw_workers w), uw_kernel := k', uw_raced := R\<rparr>)"
  proof (rule uinv_worker_step [where q = q, OF assms(1) _ assms(4) _ assms(5)])
    show "handler_ok src (uw_u w) (drop_nth i (uw_workers w))"
      using assms(1) handler_ok_sub [OF _ set_drop_nth] by (auto simp: uinv_def)
    assume "q \<notin> R" and p: "page_inv kn src w q"
    moreover have "uw_workers w ! i \<in> locked_at (uf_pageSize (uw_u w)) (uw_workers w) q"
      using assms(2,3) by (auto simp: locked_at_def)
    ultimately have "page_ok (uf_pageSize (uw_u w)) (src q) (tstate (uf_pageTracker (uw_u w)) q) (kn_mem kn k' q) (kn_wp kn k' q)
      (uw_val w q) (q \<in> set (applying (uw_u w) (uw_loop w))) (q \<in> set (uw_zap w)) (locked_at (uf_pageSize (uw_u w)) (uw_workers w) q)"
      using Inl by (intro assms(7)) (auto simp: page_inv_def)
    from page_ok_sub [OF this locked_at_drop_nth]
    show "page_inv kn src (w\<lparr>uw_workers := drop_nth i (uw_workers w), uw_kernel := k'\<rparr>) q" by (simp add: page_inv_def)
  qed (use locked_at_drop_nth in auto)
  then show ?thesis using Inl by (simp add: after_io_def)
qed

lemma uinv_fill_copy:
  assumes "uffd_kernel kn (uf_pageSize (uw_u w))" "uinv kn src w" "at_pc w i (Filling s source) q"
    and "install_plan (uw_u w) (accessType (uw_workers w ! i)) source = ICopy data mode"
    and "kn_copy kn (uw_kernel w) q data mode e n k'" "r = outcome_of (Fd_copy (uf_pageSize (uw_u w)) data e n)"
    and "R = (if source = None \<and> accessType (uw_workers w ! i) = Write \<and> r = Inr faultAlreadyPresent then insert q (uw_raced w) else uw_raced w)"
  shows "uinv kn src (w\<lparr>uw_workers := after_io i s r (uw_workers w), uw_kernel := k', uw_raced := R\<rparr>)"
proof -
  let ?ps = "uf_pageSize (uw_u w)" and ?v = "uw_workers w ! i"
  have h: "0 < ?ps" "\<not> uf_defaultCopyMode (uw_u w)" "int (length (src q)) = ?ps"
    using assms(2) by (auto simp: uinv_def handler_ok_def PageSize_def HugepageSize_def)
  have d: "data = (case source of None \<Rightarrow> zero_page ?ps | Some d \<Rightarrow> d)" "mode \<longleftrightarrow> accessType ?v = Read"
    using install_plan_cases(1) [OF h(2) assms(4)] by auto
  have k: "kn_mem kn k' p = kn_mem kn (uw_kernel w) p \<and> kn_wp kn k' p = kn_wp kn (uw_kernel w) p" if "p \<noteq> q" for p
    using that uffd_kernel.copy_full [OF assms(1,5)] uffd_kernel.copy_none [OF assms(1,5)] by (cases "e = 0 \<and> n = ?ps") auto
  have ne: "data \<noteq> []" if "page_ok ?ps (src q) T M W V ap zp L" "?v \<in> L" for T M W V ap zp L
    using filling_cases(3) [OF that, of s source] assms(3) d(1) h(1,3) by (auto simp: zero_page_def)
  show ?thesis
  proof (rule uinv_after_io [OF assms(2,3)])
    fix srcp T V ap zp L out
    assume a: "q \<notin> R" "?v \<in> L" "r = Inr out" "srcp = src q"
      and p: "page_ok ?ps srcp T (kn_mem kn (uw_kernel w) q) (kn_wp kn (uw_kernel w) q) V ap zp L"
    have v: "wk_pc ?v = Filling s source" using assms(3) by simp
    have "data \<noteq> []" using ne p a(2,4) by blast
    from Fd_copy_cases [OF this h(1), of e n]
    show "page_ok ?ps srcp T (kn_mem kn k' q) (kn_wp kn k' q) V ap zp (insert (?v\<lparr>wk_pc := Settling s out\<rparr>) L)"
    proof (elim disjE conjE)
      assume c: "e = 0" "n = ?ps" "outcome_of (Fd_copy ?ps data e n) = Inr faultInstalled"
      note f = uffd_kernel.copy_full [OF assms(1,5) c(1,2)]
      have "out = faultInstalled" using c(3) assms(6) a(3) by simp
      moreover have "page_ok ?ps srcp T None (kn_wp kn (uw_kernel w) q) V ap zp L" using p f by simp
      ultimately show ?thesis using page_ok_installed [OF _ a(2) v d(1)] f d(2) by simp
    next
      assume c: "\<not> (e = 0 \<and> n = ?ps)" "outcome_of (Fd_copy ?ps data e n) \<noteq> Inr faultInstalled"
        "outcome_of (Fd_copy ?ps data e n) = Inr faultAlreadyPresent \<longrightarrow> e = EEXIST \<or> e = 0 \<and> n = - EEXIST"
      note f = uffd_kernel.copy_none [OF assms(1,5) c(1)]
      have "out \<noteq> faultInstalled" using c(2) assms(6) a(3) by auto
      moreover have "kn_mem kn (uw_kernel w) q \<noteq> None \<and> \<not> (s = Zero \<and> accessType ?v = Write)" if "out = faultAlreadyPresent"
        using that c(3) assms(6,7) a uffd_kernel.copy_exists [OF assms(1,5)] filling_cases(3) [OF p a(2) v] by (auto split: if_splits)
      ultimately show ?thesis using page_ok_settling [OF p a(2), of s source out] v f by simp
    qed
  next
    fix srcp T V ap zp L err
    assume a: "?v \<in> L" "r = Inl err" "srcp = src q"
      and p: "page_ok ?ps srcp T (kn_mem kn (uw_kernel w) q) (kn_wp kn (uw_kernel w) q) V ap zp L"
    have "data \<noteq> []" using ne p a by blast
    then have "\<not> (e = 0 \<and> n = ?ps)" using Fd_copy_cases [OF _ h(1), of data e n] assms(6) a(2) by auto
    then show "page_ok ?ps srcp T (kn_mem kn k' q) (kn_wp kn k' q) V ap zp L"
      using uffd_kernel.copy_none [OF assms(1,5)] p by simp
  qed (use assms(7) k in auto)
qed

lemma uinv_fill_zero:
  assumes "uffd_kernel kn (uf_pageSize (uw_u w))" "uinv kn src w" "at_pc w i (Filling s source) q"
    and "install_plan (uw_u w) (accessType (uw_workers w ! i)) source = IZero"
    and "kn_zero kn (uw_kernel w) q e n k'" "r = outcome_of (Fd_zero (uf_pageSize (uw_u w)) e n)"
    and "R = (if r = Inr faultAlreadyPresent then insert q (uw_raced w) else uw_raced w)"
  shows "uinv kn src (w\<lparr>uw_workers := after_io i s r (uw_workers w), uw_kernel := k', uw_raced := R\<rparr>)"
proof -
  let ?ps = "uf_pageSize (uw_u w)" and ?v = "uw_workers w ! i"
  have h: "\<not> uf_defaultCopyMode (uw_u w)" using assms(2) by (simp add: uinv_def handler_ok_def)
  have d: "source = None" using install_plan_cases(2) [OF h assms(4)] by simp
  have k: "kn_mem kn k' p = kn_mem kn (uw_kernel w) p \<and> kn_wp kn k' p = kn_wp kn (uw_kernel w) p" if "p \<noteq> q" for p
    using that uffd_kernel.zero_full [OF assms(1,5)] uffd_kernel.zero_none [OF assms(1,5)] by (cases "e = 0 \<and> n = ?ps") auto
  note fz = Fd_zero_cases [of e n ?ps]
  show ?thesis
  proof (rule uinv_after_io [OF assms(2,3)])
    fix srcp T V ap zp L out
    assume a: "q \<notin> R" "?v \<in> L" "r = Inr out"
      and p: "page_ok ?ps srcp T (kn_mem kn (uw_kernel w) q) (kn_wp kn (uw_kernel w) q) V ap zp L"
    have v: "wk_pc ?v = Filling s source" using assms(3) by simp
    from fz show "page_ok ?ps srcp T (kn_mem kn k' q) (kn_wp kn k' q) V ap zp (insert (?v\<lparr>wk_pc := Settling s out\<rparr>) L)"
    proof (elim disjE conjE)
      assume c: "e = 0" "n = ?ps" "outcome_of (Fd_zero ?ps e n) = Inr faultInstalled"
      note f = uffd_kernel.zero_full [OF assms(1,5) c(1,2)]
      have "out = faultInstalled" using c(3) assms(6) a(3) by simp
      moreover have "page_ok ?ps srcp T None (kn_wp kn (uw_kernel w) q) V ap zp L" using p f by simp
      ultimately show ?thesis using page_ok_installed [OF _ a(2) v, of ?ps srcp T _ V ap zp "zero_page ?ps" False] f d by simp
    next
      assume c: "\<not> (e = 0 \<and> n = ?ps)" "outcome_of (Fd_zero ?ps e n) \<noteq> Inr faultInstalled"
      note f = uffd_kernel.zero_none [OF assms(1,5) c(1)]
      have "out \<noteq> faultInstalled" "out \<noteq> faultAlreadyPresent" using c(2) assms(6,7) a by (auto split: if_splits)
      then show ?thesis using page_ok_settling [OF p a(2), of s source out] v f by simp
    qed
  next
    fix srcp T V ap zp L err
    assume a: "r = Inl err"
      and p: "page_ok ?ps srcp T (kn_mem kn (uw_kernel w) q) (kn_wp kn (uw_kernel w) q) V ap zp L"
    then have "\<not> (e = 0 \<and> n = ?ps)" using fz assms(6) by auto
    then show "page_ok ?ps srcp T (kn_mem kn k' q) (kn_wp kn k' q) V ap zp L"
      using uffd_kernel.zero_none [OF assms(1,5)] p by simp
  qed (use assms(7) k in auto)
qed

lemma uinv_fill_dontwake:
  assumes "uffd_kernel kn (uf_pageSize (uw_u w))" "uinv kn src w" "at_pc w i (Filling s source) q"
    and "install_plan (uw_u w) (accessType (uw_workers w ! i)) source = IZeroProtect"
    and "kn_zero kn (uw_kernel w) q e n k'" "writeErr = Fd_zero (uf_pageSize (uw_u w)) e n"
  shows "uinv kn src (w\<lparr>uw_workers :=
        (if writeErr = None then set_pc i (Protecting s) (uw_workers w) else after_io i s (outcome_of writeErr) (uw_workers w)),
      uw_kernel := k'\<rparr>)"
proof -
  let ?ps = "uf_pageSize (uw_u w)" and ?v = "uw_workers w ! i"
  have h: "\<not> uf_defaultCopyMode (uw_u w)" using assms(2) by (simp add: uinv_def handler_ok_def)
  have d: "source = None" "accessType ?v = Read" using install_plan_cases(3) [OF h assms(4)] by auto
  have k: "kn_mem kn k' p = kn_mem kn (uw_kernel w) p \<and> kn_wp kn k' p = kn_wp kn (uw_kernel w) p" if "p \<noteq> q" for p
    using that uffd_kernel.zero_full [OF assms(1,5)] uffd_kernel.zero_none [OF assms(1,5)] by (cases "e = 0 \<and> n = ?ps") auto
  have v: "wk_pc ?v = Filling s None" using assms(3) d(1) by simp
  show ?thesis
  proof (cases "writeErr = None")
    case True
    then have c: "e = 0" "n = ?ps" using Fd_zero_cases [of e n ?ps] assms(6) by auto
    note f = uffd_kernel.zero_full [OF assms(1,5) c]
    have "uinv kn src (w\<lparr>uw_workers := set_pc i (Protecting s) (uw_workers w), uw_kernel := k', uw_raced := uw_raced w\<rparr>)"
    proof (rule uinv_set_pc [where q = q])
      fix srcp T V ap zp L
      assume a: "wk_pc ?v \<noteq> Queued \<Longrightarrow> ?v \<in> L"
        and "page_ok ?ps srcp T (kn_mem kn (uw_kernel w) q) (kn_wp kn (uw_kernel w) q) V ap zp L"
      then have "page_ok ?ps srcp T None (kn_wp kn (uw_kernel w) q) V ap zp L" "?v \<in> L" using f v by auto
      from page_ok_zeroed [OF this v d(2)]
      show "page_ok ?ps srcp T (kn_mem kn k' q) (kn_wp kn k' q) V ap zp (insert (?v\<lparr>wk_pc := Protecting s\<rparr>) L)" using f by simp
    qed (use assms k in auto)
    then show ?thesis using True by simp
  next
    case False
    then have c: "\<not> (e = 0 \<and> n = ?ps)" "outcome_of writeErr \<noteq> Inr faultInstalled" "outcome_of writeErr = Inr faultAlreadyPresent \<longrightarrow> e = EEXIST"
      using Fd_zero_cases [of e n ?ps] assms(6) by auto
    note f = uffd_kernel.zero_none [OF assms(1,5) c(1)]
    have "uinv kn src (w\<lparr>uw_workers := after_io i s (outcome_of writeErr) (uw_workers w), uw_kernel := k', uw_raced := uw_raced w\<rparr>)"
    proof (rule uinv_after_io [OF assms(2,3)])
      fix srcp T V ap zp L out
      assume a: "?v \<in> L" "outcome_of writeErr = Inr out"
        and p: "page_ok ?ps srcp T (kn_mem kn (uw_kernel w) q) (kn_wp kn (uw_kernel w) q) V ap zp L"
      have "out = faultAlreadyPresent \<Longrightarrow> kn_mem kn (uw_kernel w) q \<noteq> None"
        using c(3) a(2) uffd_kernel.zero_exists [OF assms(1,5)] by auto
      then show "page_ok ?ps srcp T (kn_mem kn k' q) (kn_wp kn k' q) V ap zp (insert (?v\<lparr>wk_pc := Settling s out\<rparr>) L)"
        using page_ok_settling [OF p a(1), of s None out] v d(2) f c(2) a(2) by simp
    qed (use k f in auto)
    then show ?thesis using False by auto
  qed
qed

lemma uinv_protect:
  assumes "uffd_kernel kn (uf_pageSize (uw_u w))" "uinv kn src w" "at_pc w i (Protecting s) q"
    and "kn_protect kn (uw_kernel w) q e k'" "r = (if e \<noteq> 0 then outcome_of_joined (Fd_call e) (Fd_call wakeErrno) else outcome_of (Fd_call wakeErrno))"
  shows "uinv kn src (w\<lparr>uw_workers := after_io i s r (uw_workers w), uw_kernel := k'\<rparr>)"
proof -
  let ?ps = "uf_pageSize (uw_u w)" and ?v = "uw_workers w ! i"
  have k: "kn_mem kn k' p = kn_mem kn (uw_kernel w) p \<and> kn_wp kn k' p = kn_wp kn (uw_kernel w) p" if "p \<noteq> q" for p
    using that uffd_kernel.protect_full [OF assms(1,4)] uffd_kernel.protect_none [OF assms(1,4)] by (cases "e = 0") auto
  have v: "wk_pc ?v = Protecting s" using assms(3) by simp
  have "uinv kn src (w\<lparr>uw_workers := after_io i s (r) (uw_workers w), uw_kernel := k', uw_raced := uw_raced w\<rparr>)"
  proof (rule uinv_after_io [OF assms(2,3)])
    fix srcp T V ap zp L out
    assume a: "?v \<in> L" "r = Inr out"
      and p: "page_ok ?ps srcp T (kn_mem kn (uw_kernel w) q) (kn_wp kn (uw_kernel w) q) V ap zp L"
    have z: "s = Zero" "accessType ?v = Read" "kn_mem kn (uw_kernel w) q \<noteq> None"
      using page_ok_locked [OF p a(1)] v by (auto simp: worker_ok_def)
    show "page_ok ?ps srcp T (kn_mem kn k' q) (kn_wp kn k' q) V ap zp (insert (?v\<lparr>wk_pc := Settling s out\<rparr>) L)"
    proof (cases "e = 0")
      case True
      then show ?thesis using page_ok_protected [OF p a(1) v] uffd_kernel.protect_full [OF assms(1,4)] by simp
    next
      case False
      have "out \<noteq> faultInstalled" using a(2) False assms(5) by (auto simp: outcome_of_joined_def Fd_call_def split: if_splits)
      then show ?thesis
        using page_ok_settling [OF p a(1), of s None out] v z uffd_kernel.protect_none [OF assms(1,4) False] by simp
    qed
  next
    fix srcp T V ap zp L err
    assume a: "?v \<in> L"
      and p: "page_ok ?ps srcp T (kn_mem kn (uw_kernel w) q) (kn_wp kn (uw_kernel w) q) V ap zp L"
    show "page_ok ?ps srcp T (kn_mem kn k' q) (kn_wp kn k' q) V ap zp L"
    proof (cases "e = 0")
      case True
      then show ?thesis
        using page_ok_sub [OF page_ok_protected [OF p a v]] uffd_kernel.protect_full [OF assms(1,4)] by (simp add: subset_insertI)
    next
      case False
      then show ?thesis using uffd_kernel.protect_none [OF assms(1,4)] p by simp
    qed
  qed (use k in auto)
  then show ?thesis by simp
qed

text \<open>Settling, and the steps of the loop, the guest and the kernel.\<close>

lemma uinv_settle:
  assumes "uinv kn src w" "at_pc w i (Settling s out) q"
    and "settle ops (uw_u w) (uw_deferred w) (uw_workers w ! i) s out = (u', deferred', r)"
  shows "uinv kn src (w\<lparr>uw_u := u', uw_deferred := deferred', uw_workers := drop_nth i (uw_workers w)\<rparr>)"
proof -
  let ?v = "uw_workers w ! i" and ?w = "w\<lparr>uw_u := u', uw_deferred := deferred', uw_workers := drop_nth i (uw_workers w)\<rparr>"
  let ?ps = "uf_pageSize (uw_u w)"
  have t: "tracker_ok (uf_pageTracker (uw_u w))" using assms(1) by (simp add: uinv_def)
  have u: "uf_ma u' = uf_ma (uw_u w)" "uf_pageSize u' = ?ps" "uf_defaultCopyMode u' = uf_defaultCopyMode (uw_u w)" "tracker_ok (uf_pageTracker u')"
    using settle_state [OF assms(3) t, of 0] by simp_all
  have "page_inv kn src ?w p" if "0 \<le> p" "p < 4294967295" "p \<notin> uw_raced w" for p
  proof -
    let ?L = "locked_at ?ps (uw_workers w) p"
    have p: "page_ok ?ps (src p) (tstate (uf_pageTracker (uw_u w)) p) (kn_mem kn (uw_kernel w) p) (kn_wp kn (uw_kernel w) p)
      (uw_val w p) (p \<in> set (applying (uw_u w) (uw_loop w))) (p \<in> set (uw_zap w)) ?L"
      using uinv_page [OF assms(1) that] by (simp add: page_inv_def)
    have v: "?v \<in> ?L" "wk_pc ?v = Settling s out" if "p = q" using that assms(2) by (auto simp: locked_at_def)
    have "page_ok ?ps (src p) (tstate (uf_pageTracker u') p) (kn_mem kn (uw_kernel w) p) (kn_wp kn (uw_kernel w) p)
      (uw_val w p) (p \<in> set (applying (uw_u w) (uw_loop w))) (p \<in> set (uw_zap w)) ?L"
      using p page_ok_marked [OF p v] settle_state(5) [OF assms(3) t that(2)] assms(2) by auto
    from page_ok_sub [OF this locked_at_drop_nth]
    show ?thesis using applying_fields [OF u(1,2)] u(2) by (simp add: page_inv_def)
  qed
  moreover have "handler_ok src u' (drop_nth i (uw_workers w))"
    using assms(1) u handler_ok_sub [OF _ set_drop_nth, of src "uw_u w" "uw_workers w"] by (simp add: uinv_def handler_ok_def)
  ultimately show ?thesis using u(4) by (simp add: uinv_def)
qed

lemma uinv_read_events:
  assumes "uinv kn src w" "uw_loop w = Polling" "pages = remove_pages (uw_u w) rms"
  shows "uinv kn src (w\<lparr>uw_loop := Applying rms pfs, uw_zap := uw_zap w @ pages,
      uw_raced := uw_raced w \<union> {p \<in> set pages. locked_at (uf_pageSize (uw_u w)) (uw_workers w) p \<noteq> {}}\<rparr>)"
proof -
  have "page_inv kn src (w\<lparr>uw_loop := Applying rms pfs, uw_zap := uw_zap w @ pages, uw_raced := R\<rparr>) p"
    if "page_inv kn src w p" "p \<in> set pages \<Longrightarrow> locked_at (uf_pageSize (uw_u w)) (uw_workers w) p = {}" for p R
    using that assms(2,3) by (cases "p \<in> set pages") (auto simp: page_inv_def page_ok_def split: if_splits)
  then show ?thesis using assms(1) by (auto simp: uinv_def)
qed

lemma uinv_apply:
  assumes "uinv kn src w" "uw_loop w = Applying rms pfs" "rms = [] \<or> (\<forall>v \<in> set (uw_workers w). wk_pc v = Queued)"
    and "u' = foldl (apply_remove ops) (uw_u w) rms" "\<forall>v \<in> set ws. wk_pc v = Queued \<and> wk_data v = None" "applying u' l = []"
  shows "uinv kn src (w\<lparr>uw_u := u', uw_loop := l, uw_deferred := [], uw_workers := uw_workers w @ ws\<rparr>)"
proof -
  let ?w = "w\<lparr>uw_u := u', uw_loop := l, uw_deferred := [], uw_workers := uw_workers w @ ws\<rparr>"
  have u: "uf_ma u' = uf_ma (uw_u w)" "uf_pageSize u' = uf_pageSize (uw_u w)" "uf_defaultCopyMode u' = uf_defaultCopyMode (uw_u w)"
    using assms(4) apply_remove_fields by simp_all
  have t: "tracker_ok (uf_pageTracker u')"
    "tstate (uf_pageTracker u') p = (if p \<in> set (remove_pages (uw_u w) rms) then Zero else tstate (uf_pageTracker (uw_u w)) p)" for p
    using apply_removes_state assms(1,4) by (auto simp: uinv_def)
  have L: "locked_at ps ws p = {}" for ps p
    using assms(5) by (auto simp: locked_at_def)
  have "page_inv kn src ?w p" if "page_inv kn src w p" for p
  proof (cases "p \<in> set (remove_pages (uw_u w) rms)")
    case True
    then show ?thesis using that assms(2,6) u(2) t by (simp add: page_inv_def L page_ok_def fill_val_def no_clash_def)
  next
    case False
    then show ?thesis using that assms(2,6) u t by (simp add: page_inv_def L)
  qed
  moreover have "handler_ok src u' (uw_workers w @ ws)" using assms(1,5) u by (auto simp: uinv_def handler_ok_def)
  ultimately show ?thesis using assms(1) t(1) by (simp add: uinv_def)
qed

lemma uinv_guest_write:
  assumes "uinv kn src w" "kn_mem kn (uw_kernel w) p = Some old" "kn_mem kn k' = (kn_mem kn (uw_kernel w))(p \<mapsto> new)"
    and "kn_wp kn k' = (kn_wp kn (uw_kernel w))(p := False)"
    and "R = (if \<exists>v \<in> locked_at (uf_pageSize (uw_u w)) (uw_workers w) p. \<exists>s. wk_pc v = Protecting s then insert p (uw_raced w) else uw_raced w)"
  shows "uinv kn src (w\<lparr>uw_kernel := k', uw_val := (uw_val w)(p := new), uw_raced := R\<rparr>)"
proof -
  have k: "worker_ok ps srcp T (Some new) False v" if "worker_ok ps srcp T (Some old) W v" "\<forall>s. wk_pc v \<noteq> Protecting s" for ps srcp T W v
    using that by (auto simp: worker_ok_def split: wpc.splits)
  have "page_inv kn src (w\<lparr>uw_kernel := k', uw_val := (uw_val w)(p := new), uw_raced := R\<rparr>) q"
    if i: "page_inv kn src w q" and r: "q \<notin> R" for q
  proof (cases "q = p")
    case True
    then have "\<forall>v \<in> locked_at (uf_pageSize (uw_u w)) (uw_workers w) p. \<forall>s. wk_pc v \<noteq> Protecting s" using r assms(5) by (auto split: if_splits)
    then show ?thesis using i True assms(2-4) k by (auto simp: page_inv_def page_ok_def split: if_splits)
  next
    case False
    then show ?thesis using i assms(3,4) by (simp add: page_inv_def)
  qed
  then show ?thesis using assms(1,5) by (auto simp: uinv_def split: if_splits)
qed

lemma uinv_zap:
  assumes "uinv kn src w" "p \<in> set (uw_zap w)" "kn_mem kn k' = (kn_mem kn (uw_kernel w))(p := None)"
    and "\<forall>q. q \<noteq> p \<longrightarrow> kn_wp kn k' q = kn_wp kn (uw_kernel w) q"
  shows "uinv kn src (w\<lparr>uw_kernel := k', uw_zap := remove1 p (uw_zap w), uw_val := (uw_val w)(p := zero_page (uf_pageSize (uw_u w)))\<rparr>)"
proof -
  let ?w = "w\<lparr>uw_kernel := k', uw_zap := remove1 p (uw_zap w), uw_val := (uw_val w)(p := zero_page (uf_pageSize (uw_u w)))\<rparr>"
  have "page_inv kn src ?w q" if i: "page_inv kn src w q" for q
  proof (cases "q = p")
    case True
    then show ?thesis using i assms(2,3) by (auto simp: page_inv_def page_ok_def fill_val_def no_clash_def)
  next
    case False
    then have "q \<in> set (remove1 p (uw_zap w)) \<longleftrightarrow> q \<in> set (uw_zap w)" by (simp add: in_set_remove1)
    then show ?thesis using i False assms(3,4) by (simp add: page_inv_def)
  qed
  then show ?thesis using assms(1) by (simp add: uinv_def)
qed

lemma uinv_start:
  assumes "uffd_start ops kn src regions w"
  shows "uinv kn src w"
proof -
  have "NewUserfaultfdFromFd ops regions = Inr u \<Longrightarrow> uf_pageTracker u = NewTracker ops \<and> \<not> uf_defaultCopyMode u \<and>
      (uf_pageSize u = PageSize \<or> uf_pageSize u = HugepageSize)" for u
    by (auto simp: NewUserfaultfdFromFd_def Let_def split: list.splits if_splits)
  then have u: "uf_pageTracker (uw_u w) = NewTracker ops" "handler_ok src (uw_u w) []"
    using assms by (simp_all add: uffd_start_def handler_ok_def)
  then show ?thesis using assms NewTracker_spec
    by (auto simp: uinv_def uffd_start_def page_inv_def page_ok_def fill_val_def no_clash_def locked_at_def)
qed

lemma uinv_same:
  assumes "uinv kn src w" "uw_workers w' = uw_workers w" "uw_kernel w' = uw_kernel w" "uw_zap w' = uw_zap w" "uw_val w' = uw_val w"
    and "uw_raced w' = uw_raced w" "uf_ma (uw_u w') = uf_ma (uw_u w)" "uf_pageSize (uw_u w') = uf_pageSize (uw_u w)"
    and "uf_defaultCopyMode (uw_u w') = uf_defaultCopyMode (uw_u w)" "uf_pageTracker (uw_u w') = uf_pageTracker (uw_u w)"
    and "applying (uw_u w) (uw_loop w') = applying (uw_u w) (uw_loop w)"
  shows "uinv kn src w'"
  using assms applying_fields [OF assms(7,8)] by (simp add: uinv_def page_inv_def handler_ok_def)

lemma uffd_step_inv:
  assumes "uffd_step ops kn src w w'" "uffd_kernel kn (uf_pageSize (uw_u w))" "uinv kn src w"
  shows "uinv kn src w' \<and> uf_pageSize (uw_u w') = uf_pageSize (uw_u w)"
  using assms
proof (induction rule: uffd_step.induct)
  case (read_events w evs rms pfs pages)
  then show ?case using uinv_read_events [OF read_events(5,1,3)] by simp
next
  case (read_fails w evs e)
  then show ?case by (auto intro: uinv_same [of kn src w])
next
  case (apply_removes w rms pfs u' retried rest ws r)
  have "applying u' (case r of Inr _ \<Rightarrow> Polling | Inl e \<Rightarrow> Stopped (Inl e)) = []" by (cases r) auto
  then show ?case
    using uinv_apply [OF apply_removes(7,1,2,3)] dispatch_queued [OF apply_removes(5)] apply_remove_fields apply_removes(3,4)
    by (simp add: drain_def)
next
  case (exit w)
  then show ?case by (auto intro: uinv_same [of kn src w])
next
  case (start_Prefault v pf off w)
  have L: "locked_at ps [v] p = {}" for ps p using start_Prefault(1) by (auto simp: locked_at_def)
  have "handler_ok src (uw_u w) (uw_workers w @ [v])"
    using start_Prefault(1,3) by (auto simp: uinv_def handler_ok_def page_idx_def)
  then show ?case using start_Prefault(3) by (simp add: uinv_def page_inv_def L)
next
  case (lookup_returns w i p r)
  then show ?case using uinv_drop by simp
next
  case (lookup_goes_on w i p pc)
  then show ?case using uinv_lookup [of kn src w i p pc] by simp
next
  case (source_read w i s n p)
  then show ?case using uinv_source [of kn src w i s n p] by simp
next
  case (source_retry w i s n p cancelled m)
  then show ?case using uinv_source [of kn src w i s n p "Reading s m" m] by simp
next
  case (source_fails w i s n p cancelled)
  then show ?case using uinv_drop by simp
next
  case (fill_copy w i s source p data mode e n k' r)
  then show ?case using uinv_fill_copy [OF fill_copy(5,6,1,2,3,4) refl] by simp
next
  case (fill_zero w i s source p e n k' r)
  then show ?case using uinv_fill_zero [OF fill_zero(5,6,1,2,3,4) refl] by simp
next
  case (fill_zero_dontwake w i s source p e n k' writeErr)
  then show ?case using uinv_fill_dontwake [OF fill_zero_dontwake(5,6,1,2,3,4)] by simp
next
  case (fill_protect w i s p e k' r wakeErrno)
  then show ?case using uinv_protect [OF fill_protect(4,5,1,2,3)] by simp
next
  case (settle w i s outcome p u' deferred' r)
  then show ?case using uinv_settle [OF settle(4,1,2)] settle_state(2) [OF settle(2), of 0] by (simp add: uinv_def)
next
  case (close w)
  then show ?case by (auto intro: uinv_same [of kn src w])
next
  case (guest_write w p old k' new)
  then show ?case using uinv_guest_write [OF guest_write(5,1,2,3) refl] by simp
next
  case (zap p w k')
  then show ?case using uinv_zap by simp
qed

lemma uffd_steps_inv:
  assumes "(uffd_step ops kn src)\<^sup>*\<^sup>* w w'" "uffd_kernel kn (uf_pageSize (uw_u w))" "uinv kn src w"
  shows "uinv kn src w' \<and> uf_pageSize (uw_u w') = uf_pageSize (uw_u w)"
  using assms by (induction rule: rtranclp_induct) (auto dest: uffd_step_inv)

end

section \<open>A kernel\<close>

text \<open>A kernel that satisfies the laws, for the examples: its state is the memory and the protected pages.\<close>

definition mem_kernel :: "int \<Rightarrow> ((int \<Rightarrow> bytes option) \<times> (int \<Rightarrow> bool)) kernel" where
  "mem_kernel ps = \<lparr>kn_mem = fst, kn_wp = snd,
     kn_copy = (\<lambda>k p data wp e n k'.
       if e = 0 \<and> n = ps then fst k p = None \<and> k' = ((fst k)(p \<mapsto> data), (snd k)(p := wp))
       else k' = k \<and> (e = EEXIST \<and> fst k p \<noteq> None \<or> e = EAGAIN)),
     kn_zero = (\<lambda>k p e n k'.
       if e = 0 \<and> n = ps then fst k p = None \<and> k' = ((fst k)(p \<mapsto> zero_page ps), (snd k)(p := False))
       else k' = k \<and> (e = EEXIST \<and> fst k p \<noteq> None \<or> e = EAGAIN)),
     kn_protect = (\<lambda>k p e k'. if e = 0 then k' = (fst k, (snd k)(p := True)) else k' = k)\<rparr>"

interpretation mk: uffd_kernel "mem_kernel 4096" 4096
  by unfold_locales (auto simp: mem_kernel_def EEXIST_def EAGAIN_def split: if_splits)

section \<open>Properties\<close>

text \<open>(C10) Refinement: take any run of the serve loop, its workers and prefetching calls, with any
  interleaving, ioctl results, writes of the guest and removals, up to a point where nothing
  is in flight. The snapshot that \<open>DiffMetadata\<close> describes then restores every page to what the guest
  must see, which is also what is mapped there, for every page on which operations did not
  overlap.\<close>

theorem snapshot_restores_memory:
  assumes "roaring_bitmap ops bset" "uffd_start ops kn src regions w0" "pageSize = uf_pageSize (uw_u w0)" "uffd_kernel kn pageSize"
    and "(uffd_step ops kn src)\<^sup>*\<^sup>* w0 w" "settled w" "Uffd_DiffMetadata ops (uw_u w) dirty = (d, empt)"
    and "bset dirty = {p. 0 \<le> p \<and> p < 4294967296 \<and> kn_mem kn (uw_kernel w) p \<noteq> None \<and> \<not> kn_wp kn (uw_kernel w) p}"
    and "0 \<le> p" "p < 4294967295" "p \<notin> uw_raced w"
  shows "snapshot_page pageSize src (kn_mem kn (uw_kernel w)) (bset d) (bset empt) p = Some (uw_val w p) \<and>
    (\<forall>c. kn_mem kn (uw_kernel w) p = Some c \<longrightarrow> c = uw_val w p)"
proof -
  let ?T = "roaring_bitmap.tstate bset (uf_pageTracker (uw_u w)) p"
  have i: "roaring_bitmap.uinv bset kn src w" "uf_pageSize (uw_u w) = pageSize"
    using roaring_bitmap.uffd_steps_inv [OF assms(1,5)] roaring_bitmap.uinv_start [OF assms(1,2)] assms(3,4) by auto
  have p: "page_ok pageSize (src p) ?T (kn_mem kn (uw_kernel w) p) (kn_wp kn (uw_kernel w) p) (uw_val w p) False False {}"
    using roaring_bitmap.uinv_page [OF assms(1) i(1) assms(9-11)] assms(6) i(2)
    by (simp add: roaring_bitmap.page_inv_def [OF assms(1)] settled_def locked_at_queued)
  have e: "p \<in> bset empt \<longleftrightarrow> ?T = Zero \<and> p \<notin> bset dirty" "d = dirty"
    using assms(7) i(1) assms(1)
    by (auto simp: Uffd_DiffMetadata_def ExportPageStates_def Export_def roaring_bitmap.bset_AndNot roaring_bitmap.tstate_def state_of_def
        roaring_bitmap.uinv_def roaring_bitmap.tracker_ok_def)
  show ?thesis
    using p e assms(8-10) by (cases "kn_mem kn (uw_kernel w) p") (auto simp: page_ok_def snapshot_page_def fill_val_def split: if_splits)
qed

text \<open>Safety: when the tracker says that a page is resident, so that a fault on it is answered without an
  install, the page is mapped, in every state of every run, unless the page is being removed or
  operations on it have overlapped. So no such fault leaves its thread without a page.\<close>

theorem resident_page_is_mapped:
  assumes "roaring_bitmap ops bset" "uffd_start ops kn src regions w0" "uffd_kernel kn (uf_pageSize (uw_u w0))"
    and "(uffd_step ops kn src)\<^sup>*\<^sup>* w0 w" "0 \<le> p" "p < 4294967295" "p \<notin> uw_raced w" "\<not> removing w p"
    and "Get ops (uf_pageTracker (uw_u w)) p = Dirty"
  shows "kn_mem kn (uw_kernel w) p \<noteq> None"
proof -
  have "roaring_bitmap.uinv bset kn src w"
    using roaring_bitmap.uffd_steps_inv [OF assms(1,4)] roaring_bitmap.uinv_start [OF assms(1,2)] assms(3) by auto
  from roaring_bitmap.uinv_page [OF assms(1) this assms(5-7)] show ?thesis
    using assms(8,9) roaring_bitmap.Get_spec [OF assms(1), of p] assms(5,6)
    by (auto simp: roaring_bitmap.page_inv_def [OF assms(1)] removing_def page_ok_def)
qed

section \<open>Runs on a small memory\<close>

definition demo_regions :: "Region list" where
  "demo_regions = [\<lparr>rg_BaseHostVirtAddr = 40960, rg_Size = 8192, rg_Offset = 0, rg_PageSize = 4096\<rparr>]"

definition demo_src :: "int \<Rightarrow> bytes" where "demo_src = (\<lambda>p. replicate 4096 1)"

definition demo_new :: bytes where "demo_new = replicate 4096 2"

definition demo_pf :: UffdPagefault where
  "demo_pf = \<lparr>pf_address = 40960, pf_write = False, pf_minor = False, pf_wp = False\<rparr>"

definition demo_u :: "State \<Rightarrow> PrefetchTracker \<Rightarrow> 32 word list Userfaultfd" where
  "demo_u st pt = \<lparr>uf_ma = demo_regions, uf_pageSize = 4096,
     uf_pageTracker = (if st = NotPresent then NewTracker listbm_ops else SetRange listbm_ops (NewTracker listbm_ops) 0 1 st),
     uf_prefetchTracker = pt, uf_defaultCopyMode = False, uf_closed = False\<rparr>"

definition demo_world ::
  "State \<Rightarrow> PrefetchTracker \<Rightarrow> serve_loop \<Rightarrow> worker list \<Rightarrow> bytes option \<Rightarrow> bool \<Rightarrow> int list \<Rightarrow> bytes \<Rightarrow> int set \<Rightarrow>
   (32 word list, (int \<Rightarrow> bytes option) \<times> (int \<Rightarrow> bool)) uworld" where
  "demo_world st pt l ws m wp zs v R = \<lparr>uw_u = demo_u st pt, uw_loop = l, uw_deferred = [], uw_workers = ws,
     uw_kernel = ((\<lambda>_. None)(0 := m), (\<lambda>_. False)(0 := wp)), uw_zap = zs, uw_val = demo_src(0 := v), uw_raced = R\<rparr>"

abbreviation demo_step where "demo_step \<equiv> uffd_step listbm_ops (mem_kernel 4096) demo_src"
abbreviation demo_pt where "demo_pt \<equiv> NewPrefetchTracker 4096"
abbreviation demo_zero where "demo_zero \<equiv> zero_page 4096"

definition demo_worker :: "bytes option \<Rightarrow> wpc \<Rightarrow> worker" where
  "demo_worker d pc = \<lparr>wk_pf = demo_pf, wk_offset = 0, wk_data = d, wk_pc = pc\<rparr>"

lemma demo_facts [simp]:
  "page_idx 4096 (demo_worker d pc) = 0" "accessType (demo_worker d pc) = Read" "wk_pc (demo_worker d pc) = pc"
  "wk_data (demo_worker d pc) = d" "(demo_worker d pc)\<lparr>wk_pc := pc'\<rparr> = demo_worker d pc'" "wk_offset (demo_worker d pc) = 0"
  "uf_pageSize (demo_u st pt) = 4096" "uf_ma (demo_u st pt) = demo_regions" "uf_closed (demo_u st pt) = False"
  "Get listbm_ops (uf_pageTracker (demo_u st pt)) 0 = st" "length (demo_src p) = 4096" "demo_src p \<noteq> []"
  "uf_prefetchTracker (demo_u st pt) = pt"
  by (simp_all add: page_idx_def demo_worker_def BlockIdx_def u32_def i64_def accessType_def demo_pf_def demo_u_def demo_src_def)
    (cases st; simp add: Get_def SetRange_def NewTracker_def listbm_ops_def)

lemma demo_fields [simp]:
  "uw_u (demo_world st pt l ws m wp zs v R) = demo_u st pt" "uw_loop (demo_world st pt l ws m wp zs v R) = l"
  "uw_workers (demo_world st pt l ws m wp zs v R) = ws" "uw_zap (demo_world st pt l ws m wp zs v R) = zs"
  "uw_kernel (demo_world st pt l ws m wp zs v R) = ((\<lambda>_. None)(0 := m), (\<lambda>_. False)(0 := wp))"
  "uw_raced (demo_world st pt l ws m wp zs v R) = R" "uw_deferred (demo_world st pt l ws m wp zs v R) = []"
  "uw_val (demo_world st pt l ws m wp zs v R) = demo_src(0 := v)"
  by (simp_all add: demo_world_def)

lemma demo_removal: "remove_pages (demo_u st pt) [(40960, 45056)] = [0]"
  by (simp add: remove_pages_def remove_range_def demo_regions_def endHostVirtAddr_def shiftedOffset_def BlockIdx_def
      u64_def u32_def i64_def)

lemma demo_apply: "foldl (apply_remove listbm_ops) (demo_u NotPresent pt) [(40960, 45056)] = demo_u Zero pt"
  "foldl (apply_remove listbm_ops) (demo_u Dirty pt) [(40960, 45056)] = demo_u Zero pt"
  by (simp_all add: apply_remove_def remove_range_def demo_regions_def endHostVirtAddr_def shiftedOffset_def BlockIdx_def
      u64_def u32_def i64_def demo_u_def SetRange_def NewTracker_def listbm_ops_def)

lemma demo_read:
  assumes "readEvents evs = Inr (rms, pfs)"
  shows "demo_step (demo_world st pt Polling ws m wp zs v R) (demo_world st pt (Applying rms pfs) ws m wp
    (zs @ remove_pages (demo_u st pt) rms) v (R \<union> {p \<in> set (remove_pages (demo_u st pt) rms). locked_at 4096 ws p \<noteq> {}}))"
  using uffd_step.read_events [OF _ assms refl, of "demo_world st pt Polling ws m wp zs v R" listbm_ops "mem_kernel 4096" demo_src]
  by (simp add: demo_world_def)

lemma demo_applied:
  assumes "rms = [] \<or> ws = []" "foldl (apply_remove listbm_ops) (demo_u st pt) rms = demo_u st' pt" "dispatch (demo_u st' pt) pfs = (ws', Inr ())"
  shows "demo_step (demo_world st pt (Applying rms pfs) ws m wp zs v R) (demo_world st' pt Polling (ws @ ws') m wp zs v R)"
  using uffd_step.apply_removes [of "demo_world st pt (Applying rms pfs) ws m wp zs v R" rms pfs "demo_u st' pt" listbm_ops "[]" "[]" ws' "Inr ()" "mem_kernel 4096" demo_src] assms
  by (auto simp: demo_world_def drain_def)

lemma demo_zapped: "demo_step (demo_world st pt l ws m wp [0] v R) (demo_world st pt l ws None wp [] demo_zero R)"
  using uffd_step.zap [of 0 "demo_world st pt l ws m wp [0] v R" "mem_kernel 4096" "((\<lambda>_. None)(0 := None), (\<lambda>_. False)(0 := wp))" listbm_ops demo_src]
  by (simp add: demo_world_def mem_kernel_def)

lemma demo_looked:
  assumes "lookup listbm_ops (demo_u st pt) (demo_worker d Queued) = Inr pc" "l = Polling" "zs = []"
  shows "demo_step (demo_world st pt l [demo_worker d Queued] m wp zs v R) (demo_world st pt l [demo_worker d pc] m wp zs v R)"
  using uffd_step.lookup_goes_on [of 0 "demo_world st pt l [demo_worker d Queued] m wp zs v R" 0 listbm_ops pc "mem_kernel 4096" demo_src] assms
  by (simp add: demo_world_def removing_def set_pc_def)

lemma demo_zero_filled:
  "demo_step (demo_world st pt l [demo_worker None (Filling Zero None)] None wp zs v R)
     (demo_world st pt l [demo_worker None (Protecting Zero)] (Some demo_zero) False zs v R)"
  using uffd_step.fill_zero_dontwake [of 0 "demo_world st pt l [demo_worker None (Filling Zero None)] None wp zs v R" Zero None 0 "mem_kernel 4096" 0 4096
      "((\<lambda>_. None)(0 := Some demo_zero), (\<lambda>_. False)(0 := False))" None listbm_ops demo_src]
  by (simp add: demo_world_def install_plan_def PageSize_def mem_kernel_def Fd_zero_def set_pc_def demo_u_def)

lemma demo_protected:
  "demo_step (demo_world st pt l [demo_worker None (Protecting Zero)] m wp zs v R)
     (demo_world st pt l [demo_worker None (Settling Zero faultInstalled)] m True zs v R)"
  using uffd_step.fill_protect [of 0 "demo_world st pt l [demo_worker None (Protecting Zero)] m wp zs v R" Zero 0 "mem_kernel 4096" 0
      "((\<lambda>_. None)(0 := m), (\<lambda>_. False)(0 := True))" "Inr faultInstalled" 0 listbm_ops demo_src]
  by (simp add: demo_world_def mem_kernel_def Fd_call_def outcome_of_def after_io_def set_pc_def)

lemma demo_written:
  "demo_step (demo_world st pt l [demo_worker None (Protecting Zero)] (Some old) wp zs v R)
     (demo_world st pt l [demo_worker None (Protecting Zero)] (Some new) False zs new (insert 0 R))"
  using uffd_step.guest_write [of "mem_kernel 4096" "demo_world st pt l [demo_worker None (Protecting Zero)] (Some old) wp zs v R" 0 old
      "((\<lambda>_. None)(0 := Some new), (\<lambda>_. False)(0 := False))" new listbm_ops demo_src]
  by (simp add: demo_world_def mem_kernel_def locked_at_def)

lemma demo_settled:
  "demo_step (demo_world Zero pt l [demo_worker None (Settling Zero faultInstalled)] m wp zs v R)
     (demo_world Zero (PrefetchTracker_Add pt 0 Read) l [] m wp zs v R)"
  using uffd_step.settle [of 0 "demo_world Zero pt l [demo_worker None (Settling Zero faultInstalled)] m wp zs v R" Zero faultInstalled 0 listbm_ops
      "demo_u Zero (PrefetchTracker_Add pt 0 Read)" "[]" "Inr True" "mem_kernel 4096" demo_src]
  by (simp add: demo_world_def settle_def serve_settle_def drop_nth_def demo_u_def)

lemma demo_prefault:
  "demo_step (demo_world st pt l [] m wp zs v R) (demo_world st pt l [demo_worker (Some (demo_src 0)) Queued] m wp zs v R)"
  using uffd_step.start_Prefault [of "demo_worker (Some (demo_src 0)) Queued" demo_pf 0 demo_src "demo_world st pt l [] m wp zs v R" listbm_ops "mem_kernel 4096"]
  by (simp add: demo_world_def demo_worker_def BlockIdx_def u32_def i64_def)

lemma demo_copied:
  "demo_step (demo_world st pt l [demo_worker d (Filling NotPresent (Some (demo_src 0)))] None wp zs v R)
     (demo_world st pt l [demo_worker d (Settling NotPresent faultInstalled)] (Some (demo_src 0)) True zs v R)"
  using uffd_step.fill_copy [of 0 "demo_world st pt l [demo_worker d (Filling NotPresent (Some (demo_src 0)))] None wp zs v R" NotPresent "Some (demo_src 0)" 0
      "demo_src 0" True "mem_kernel 4096" 0 4096 "((\<lambda>_. None)(0 := Some (demo_src 0)), (\<lambda>_. False)(0 := True))" "Inr faultInstalled" listbm_ops demo_src]
  by (simp add: demo_world_def install_plan_def mem_kernel_def Fd_copy_def classifyCopyResult_def outcome_of_def after_io_def set_pc_def)

lemma demo_prefaulted:
  "demo_step (demo_world NotPresent pt l [demo_worker (Some x) (Settling NotPresent faultInstalled)] m wp zs v R)
     (demo_world Dirty (PrefetchTracker_Add pt 0 Prefetch) l [] m wp zs v R)"
  using uffd_step.settle [of 0 "demo_world NotPresent pt l [demo_worker (Some x) (Settling NotPresent faultInstalled)] m wp zs v R" NotPresent faultInstalled 0 listbm_ops
      "demo_u Dirty (PrefetchTracker_Add pt 0 Prefetch)" "[]" "Inr True" "mem_kernel 4096" demo_src]
  by (simp add: demo_world_def settle_def Prefault_settle_def drop_nth_def demo_u_def Let_def u32_def)

lemma demo_lookups:
  "lookup listbm_ops (demo_u Zero pt) (demo_worker None Queued) = Inr (Filling Zero None)"
  "lookup listbm_ops (demo_u NotPresent pt) (demo_worker (Some (demo_src 0)) Queued) = Inr (Filling NotPresent (Some (demo_src 0)))"
  by (simp_all add: lookup_def serve_lookup_def Prefault_lookup_def GetHostVirtAddr_def demo_regions_def endOffset_def u64_def i64_def)

lemma demo_dispatch: "dispatch (demo_u st pt) [demo_pf] = ([demo_worker None Queued], Inr ())" "dispatch (demo_u st pt) [] = ([], Inr ())"
  by (simp_all add: demo_pf_def demo_worker_def demo_regions_def endHostVirtAddr_def shiftedOffset_def u64_def i64_def)

abbreviation demo_w0 where "demo_w0 \<equiv> demo_world NotPresent demo_pt Polling [] None False [] (demo_src 0) {}"

lemma demo_uffd_start: "uffd_start listbm_ops (mem_kernel 4096) demo_src demo_regions demo_w0"
  by (simp add: uffd_start_def NewUserfaultfdFromFd_def demo_regions_def PageSize_def demo_world_def demo_u_def mem_kernel_def)

text \<open>Page 0 is removed, then read, up to the point where it is mapped and not yet protected.\<close>

lemma demo_zero_run:
  "demo_step\<^sup>*\<^sup>* demo_w0 (demo_world Zero demo_pt Polling [demo_worker None (Protecting Zero)] (Some demo_zero) False [] demo_zero {})"
proof -
  note c = converse_rtranclp_into_rtranclp [where r = demo_step]
  have 1: "demo_step demo_w0 (demo_world NotPresent demo_pt (Applying [(40960, 45056)] []) [] None False [0] (demo_src 0) {})"
    using demo_read [of "[EvRemove 40960 45056]" "[(40960, 45056)]" "[]" NotPresent demo_pt "[]" None False "[]" "demo_src 0" "{}"] by (simp add: demo_removal locked_at_def)
  have 2: "demo_step (demo_world NotPresent demo_pt (Applying [(40960, 45056)] []) [] None False [0] (demo_src 0) {})
      (demo_world Zero demo_pt Polling [] None False [0] (demo_src 0) {})"
    using demo_applied [OF _ demo_apply(1) demo_dispatch(2), where ws = "[]"] by simp
  have 4: "demo_step (demo_world Zero demo_pt Polling [] None False [] demo_zero {}) (demo_world Zero demo_pt (Applying [] [demo_pf]) [] None False [] demo_zero {})"
    using demo_read [of "[EvPagefault demo_pf]" "[]" "[demo_pf]" Zero demo_pt "[]" None False "[]" demo_zero "{}"] by (simp add: remove_pages_def)
  have 5: "demo_step (demo_world Zero demo_pt (Applying [] [demo_pf]) [] None False [] demo_zero {})
      (demo_world Zero demo_pt Polling [demo_worker None Queued] None False [] demo_zero {})"
    using demo_applied [OF _ _ demo_dispatch(1), of "[]" "[]" Zero demo_pt Zero None False "[]" demo_zero "{}"] by simp
  show ?thesis
    by (rule c [OF 1 c [OF 2 c [OF demo_zapped c [OF 4 c [OF 5 c [OF demo_looked [OF demo_lookups(1) refl refl]
          r_into_rtranclp [where r = demo_step, OF demo_zero_filled]]]]]]])
qed

theorem snapshot_restores_memory_witness:
  "let w = demo_world Zero (PrefetchTracker_Add demo_pt 0 Read) Polling [] (Some demo_zero) True [] demo_zero {}
   in demo_step\<^sup>*\<^sup>* demo_w0 w \<and> uw_val w 0 = demo_zero \<and>
     snapshot_page 4096 demo_src (kn_mem (mem_kernel 4096) (uw_kernel w)) (listbm_set (fst (Uffd_DiffMetadata listbm_ops (uw_u w) [])))
       (listbm_set (snd (Uffd_DiffMetadata listbm_ops (uw_u w) []))) 0 = Some demo_zero"
proof -
  let ?w = "demo_world Zero (PrefetchTracker_Add demo_pt 0 Read) Polling [] (Some demo_zero) True [] demo_zero {}"
  have r: "demo_step\<^sup>*\<^sup>* demo_w0 ?w"
    using rtranclp.rtrancl_into_rtrancl [OF rtranclp.rtrancl_into_rtrancl [OF demo_zero_run demo_protected] demo_settled] .
  have k: "listbm_set [] = {p. 0 \<le> p \<and> p < 4294967296 \<and> kn_mem (mem_kernel 4096) (uw_kernel ?w) p \<noteq> None \<and> \<not> kn_wp (mem_kernel 4096) (uw_kernel ?w) p}"
    by (auto simp: listbm_set_def mem_kernel_def)
  have "settled ?w" by (simp add: settled_def)
  from snapshot_restores_memory [OF lbm.roaring_bitmap_axioms demo_uffd_start _ mk.uffd_kernel_axioms r this prod.collapse [symmetric] k, of 0]
  have "snapshot_page 4096 demo_src (kn_mem (mem_kernel 4096) (uw_kernel ?w)) (listbm_set (fst (Uffd_DiffMetadata listbm_ops (uw_u ?w) [])))
       (listbm_set (snd (Uffd_DiffMetadata listbm_ops (uw_u ?w) []))) 0 = Some demo_zero" by simp
  then show ?thesis using r by (simp add: Let_def)
qed

text \<open>A prefetched page.\<close>

lemma demo_prefault_run:
  "demo_step\<^sup>*\<^sup>* demo_w0 (demo_world Dirty (PrefetchTracker_Add demo_pt 0 Prefetch) Polling [] (Some (demo_src 0)) True [] (demo_src 0) {})"
proof -
  note c = converse_rtranclp_into_rtranclp [where r = demo_step]
  show ?thesis
    by (rule c [OF demo_prefault c [OF demo_looked [OF demo_lookups(2) refl refl] c [OF demo_copied
          r_into_rtranclp [where r = demo_step, OF demo_prefaulted]]]])
qed

theorem resident_page_is_mapped_witness:
  "kn_mem (mem_kernel 4096) (uw_kernel (demo_world Dirty (PrefetchTracker_Add demo_pt 0 Prefetch) Polling [] (Some (demo_src 0)) True [] (demo_src 0) {})) 0 \<noteq> None"
  using resident_page_is_mapped [OF lbm.roaring_bitmap_axioms demo_uffd_start _ demo_prefault_run, of 0] mk.uffd_kernel_axioms
  by (simp add: removing_def)

text \<open>(C38) Lost write: a page of 4 KiB that was removed is read by one processor of the guest. The handler maps
  a zero page and protects it with a second ioctl; another processor writes the page in between.
  The page is then protected although it has been written: nothing is in flight, the guest has
  its data, and the snapshot restores zeros.\<close>

theorem zero_page_write_lost:
  "\<exists>w. demo_step\<^sup>*\<^sup>* demo_w0 w \<and> settled w \<and> kn_mem (mem_kernel 4096) (uw_kernel w) 0 = Some demo_new \<and> uw_val w 0 = demo_new \<and>
     {p. kn_mem (mem_kernel 4096) (uw_kernel w) p \<noteq> None \<and> \<not> kn_wp (mem_kernel 4096) (uw_kernel w) p} = {} \<and>
     snapshot_page 4096 demo_src (kn_mem (mem_kernel 4096) (uw_kernel w)) (listbm_set (fst (Uffd_DiffMetadata listbm_ops (uw_u w) [])))
       (listbm_set (snd (Uffd_DiffMetadata listbm_ops (uw_u w) []))) 0 = Some demo_zero \<and> demo_zero \<noteq> demo_new"
proof -
  let ?w = "demo_world Zero (PrefetchTracker_Add demo_pt 0 Read) Polling [] (Some demo_new) True [] demo_new {0}"
  note a = rtranclp.rtrancl_into_rtrancl [where r = demo_step]
  have "demo_step\<^sup>*\<^sup>* demo_w0 ?w"
    by (rule a [OF a [OF a [OF demo_zero_run demo_written [where new = demo_new]] demo_protected] demo_settled])
  moreover have "demo_zero \<noteq> demo_new" by (simp add: zero_page_def demo_new_def)
  moreover have "0 \<in> listbm_set (snd (Uffd_DiffMetadata listbm_ops (demo_u Zero pt) []))" for pt
    by (simp add: Uffd_DiffMetadata_def ExportPageStates_def Export_def demo_u_def SetRange_def NewTracker_def listbm_ops_def listbm_set_def)
  ultimately show ?thesis
    by (intro exI [of _ ?w]) (auto simp: settled_def mem_kernel_def snapshot_page_def Uffd_DiffMetadata_def listbm_set_def)
qed

text \<open>Stale page: a prefetching call has looked up a page, then the page is removed and the kernel drops
  it, then the call copies the old page in. Its update of the tracker is overwritten by the
  removal, so the guest reads the old contents of a page it has given back, and the snapshot
  restores zeros.\<close>

theorem prefault_revives_removed_page:
  "\<exists>w. demo_step\<^sup>*\<^sup>* demo_w0 w \<and> settled w \<and> kn_mem (mem_kernel 4096) (uw_kernel w) 0 = Some (demo_src 0) \<and> uw_val w 0 = demo_zero \<and>
     snapshot_page 4096 demo_src (kn_mem (mem_kernel 4096) (uw_kernel w)) (listbm_set (fst (Uffd_DiffMetadata listbm_ops (uw_u w) [])))
       (listbm_set (snd (Uffd_DiffMetadata listbm_ops (uw_u w) []))) 0 = Some demo_zero \<and> demo_zero \<noteq> demo_src 0"
proof -
  let ?pt = "PrefetchTracker_Add demo_pt 0 Prefetch" and ?rm = "[(40960, 45056)]"
  let ?w = "demo_world Zero ?pt Polling [] (Some (demo_src 0)) True [] demo_zero {0}"
  let ?v = "\<lambda>pc. [demo_worker (Some (demo_src 0)) pc]" and ?f = "Filling NotPresent (Some (demo_src 0))"
  note a = converse_rtranclp_into_rtranclp [where r = demo_step]
  have 3: "demo_step (demo_world NotPresent demo_pt Polling (?v ?f) None False [] (demo_src 0) {})
      (demo_world NotPresent demo_pt (Applying ?rm []) (?v ?f) None False [0] (demo_src 0) {0})"
    using demo_read [of "[EvRemove 40960 45056]" ?rm "[]" NotPresent demo_pt "?v ?f" None False "[]" "demo_src 0" "{}"]
    by (simp add: demo_removal locked_at_def cong: conj_cong)
  have 7: "demo_step (demo_world Dirty ?pt (Applying ?rm []) [] (Some (demo_src 0)) True [] demo_zero {0}) ?w"
    using demo_applied [OF _ demo_apply(2) demo_dispatch(2), where ws = "[]"] by simp
  have "demo_step\<^sup>*\<^sup>* demo_w0 ?w"
    by (rule a [OF demo_prefault a [OF demo_looked [OF demo_lookups(2) refl refl] a [OF 3 a [OF demo_zapped a [OF demo_copied
          a [OF demo_prefaulted r_into_rtranclp [where r = demo_step, OF 7]]]]]]])
  moreover have "demo_zero \<noteq> demo_src 0" by (simp add: zero_page_def demo_src_def)
  moreover have "0 \<in> listbm_set (snd (Uffd_DiffMetadata listbm_ops (demo_u Zero pt) []))" for pt
    by (simp add: Uffd_DiffMetadata_def ExportPageStates_def Export_def demo_u_def SetRange_def NewTracker_def listbm_ops_def listbm_set_def)
  ultimately show ?thesis
    by (intro exI [of _ ?w]) (auto simp: settled_def mem_kernel_def snapshot_page_def Uffd_DiffMetadata_def listbm_set_def)
qed

end
