(* ===== verification/Producer.thy ===== *)
theory Producer
  imports Prelude
begin

text \<open>
  The measurement protocol of the network usage accounting
  (\<open>orchestrator/pkg/sandbox/networkusage/producer.go\<close>): a virtual machine monitor, the producer,
  writes frames with byte counters, and answers requests with receipts. This theory holds the
  messages and their decoders.

  \<^item> \<open>encoding/json\<close> is used through the value a text denotes: \<open>json_parse\<close> of the record
    \<open>std\<close> returns it, or \<open>None\<close> for a text that is not one JSON value. A \<open>json.RawMessage\<close> is the
    value it denotes. Objects are association lists in the order of the text, so that a
    repeated key is visible to \<open>checkJSON\<close>.
  \<^item> \<open>utf8.Valid\<close>, \<open>sha256\<close> with its hexadecimal rendering and the time format are the other
    fields of \<open>std\<close>.
  \<^item> A Go error value is a list of errors: \<open>nil\<close> is the empty list and \<open>errors.Join\<close> is append.
  \<^item> A Go map is iterated in the order of the text; the source's order is unspecified, and only
    the choice between two errors depends on it.
\<close>

section \<open>Errors that can be joined\<close>

type_synonym gerr = "error list"

definition result_gerr :: "'a result \<Rightarrow> gerr" where
  "result_gerr r = (case r of Inl e \<Rightarrow> [e] | Inr _ \<Rightarrow> [])"

section \<open>The standard library\<close>

datatype json =
    JNull
  | JBool bool
  | JNum string
  | JStr string
  | JArr "json list"
  | JObj "(string \<times> json) list"

record std =
  json_parse :: "bytes \<Rightarrow> json option"
  utf8_valid :: "bytes \<Rightarrow> bool"
  sha256hex :: "bytes \<Rightarrow> string"
  fmt_time :: "int \<Rightarrow> string"
  parse_time :: "string \<Rightarrow> int option"

definition max_u64 :: int where
  "max_u64 = 18446744073709551615"

definition char_code :: "char \<Rightarrow> int" where
  "char_code c = of_char c"

text \<open>\<open>strconv.ParseUint(s, 10, 64)\<close>.\<close>

fun parse_digits :: "int \<Rightarrow> string \<Rightarrow> int option" where
  "parse_digits acc [] = Some acc"
| "parse_digits acc (c # cs) =
     (if 48 \<le> char_code c \<and> char_code c \<le> 57 then parse_digits (10 * acc + (char_code c - 48)) cs
      else None)"

definition ParseUint :: "string \<Rightarrow> int option" where
  "ParseUint s =
     (if s = [] then None
      else case parse_digits 0 s of None \<Rightarrow> None
           | Some v \<Rightarrow> if v \<le> max_u64 then Some v else None)"

text \<open>\<open>json.Unmarshal\<close> into a \<open>uint64\<close>, a \<open>string\<close>, a \<open>bool\<close>, and into pointers to them.\<close>

definition unmarshal_u64 :: "json \<Rightarrow> int result" where
  "unmarshal_u64 v = (case v of JNum s \<Rightarrow> (case ParseUint s of Some n \<Rightarrow> Inr n | None \<Rightarrow> Inl (Err ''json''))
                      | _ \<Rightarrow> Inl (Err ''json''))"

definition unmarshal_string :: "json \<Rightarrow> string result" where
  "unmarshal_string v = (case v of JStr s \<Rightarrow> Inr s | _ \<Rightarrow> Inl (Err ''json''))"

definition unmarshal_bool :: "json \<Rightarrow> bool result" where
  "unmarshal_bool v = (case v of JBool b \<Rightarrow> Inr b | _ \<Rightarrow> Inl (Err ''json''))"

definition unmarshal_ptr :: "(json \<Rightarrow> 'a result) \<Rightarrow> json \<Rightarrow> 'a option result" where
  "unmarshal_ptr f v = (if v = JNull then Inr None else bindR (f v) (\<lambda>x. Inr (Some x)))"

definition json_value :: "'z std_scheme \<Rightarrow> bytes \<Rightarrow> json result" where
  "json_value L raw = (case json_parse L raw of None \<Rightarrow> Inl (Err ''json'') | Some v \<Rightarrow> Inr v)"

definition has_prefix :: "string \<Rightarrow> string \<Rightarrow> bool" where
  "has_prefix s p \<longleftrightarrow> take (length p) s = p"

definition has_suffix :: "string \<Rightarrow> string \<Rightarrow> bool" where
  "has_suffix s p \<longleftrightarrow> length p \<le> length s \<and> drop (length s - length p) s = p"

text \<open>\<open>hex.DecodeString\<close> succeeds: an even number of hexadecimal digits.\<close>

definition hex_char :: "char \<Rightarrow> bool" where
  "hex_char c \<longleftrightarrow>
     (let n = char_code c in 48 \<le> n \<and> n \<le> 57 \<or> 97 \<le> n \<and> n \<le> 102 \<or> 65 \<le> n \<and> n \<le> 70)"

definition hex_ok :: "string \<Rightarrow> bool" where
  "hex_ok s \<longleftrightarrow> even (length s) \<and> list_all hex_char s"

section \<open>Messages\<close>

definition ProducerSchema :: string where
  "ProducerSchema = ''sig.fc-measurement.v1''"

definition TerminalSchema :: string where
  "TerminalSchema = ''sig.fc-terminal-measurement.v1''"

definition TerminalCutoff :: string where
  "TerminalCutoff = ''last_completed_device_operation''"

definition MaxProducerFrameBytes :: int where
  "MaxProducerFrameBytes = 1024 * 1024 + 1"

definition MaxProducerReceiptBytes :: int where
  "MaxProducerReceiptBytes = 2048"

record ProducerRequest =
  pr_Incarnation :: string
  pr_Sequence :: int
  pr_ID :: string

record ProducerHeader =
  ph_Schema :: string
  ph_Incarnation :: string
  ph_Attempt :: int
  ph_RequestSequence :: "int option"
  ph_RequestID :: "string option"
  ph_Loss :: bool

record ProducerFrame =
  pf_Header :: ProducerHeader
  pf_Cutoff :: string
  pf_Tx :: int
  pf_Rx :: int
  pf_NetworkPresent :: bool
  pf_DeviceMetricsPresent :: bool
  pf_Metrics :: json

record ProducerReceipt =
  pc_Header :: ProducerHeader
  pc_Cutoff :: string

section \<open>Validation of text\<close>

definition token_char :: "char \<Rightarrow> bool" where
  "token_char c \<longleftrightarrow>
     (let n = char_code c in
      97 \<le> n \<and> n \<le> 122 \<or> 65 \<le> n \<and> n \<le> 90 \<or> 48 \<le> n \<and> n \<le> 57 \<or> c = CHR ''_'' \<or> c = CHR ''-'')"

definition tokenOK :: "string \<Rightarrow> bool" where
  "tokenOK s \<longleftrightarrow> (if length s = 0 \<or> length s > 128 then False else list_all token_char s)"

text \<open>The walk of \<open>checkJSON\<close> over the tokens of a value, at a nesting depth.\<close>

fun check_value :: "nat \<Rightarrow> json \<Rightarrow> gerr" and check_members :: "nat \<Rightarrow> string list \<Rightarrow> (string \<times> json) list \<Rightarrow> gerr"
  and check_elements :: "nat \<Rightarrow> json list \<Rightarrow> gerr" where
  "check_value depth v =
     (if depth > 64 then [Err ''producer JSON nesting exceeds limit'']
      else case v of
        JObj kvs \<Rightarrow> check_members depth [] kvs
      | JArr vs \<Rightarrow> check_elements depth vs
      | _ \<Rightarrow> [])"
| "check_members depth seen [] = []"
| "check_members depth seen ((k, v) # kvs) =
     (if k \<in> set seen then [Err ''duplicate or invalid JSON key'']
      else let e = check_value (depth + 1) v in
        if e \<noteq> [] then e else check_members depth (k # seen) kvs)"
| "check_elements depth [] = []"
| "check_elements depth (v # vs) =
     (let e = check_value (depth + 1) v in if e \<noteq> [] then e else check_elements depth vs)"

definition hex_digit :: "byte \<Rightarrow> int option" where
  "hex_digit b =
     (let n = uint b in
      if 48 \<le> n \<and> n \<le> 57 then Some (n - 48)
      else if 97 \<le> n \<and> n \<le> 102 then Some (n - 87)
      else if 65 \<le> n \<and> n \<le> 70 then Some (n - 55) else None)"

fun parse_hex :: "int \<Rightarrow> bytes \<Rightarrow> int option" where
  "parse_hex acc [] = Some acc"
| "parse_hex acc (b # bs) = (case hex_digit b of None \<Rightarrow> None | Some d \<Rightarrow> parse_hex (16 * acc + d) bs)"

function unicode_escapes :: "bool \<Rightarrow> bytes \<Rightarrow> bool" where
  "unicode_escapes inside [] = True"
| "unicode_escapes inside (b # raw) =
     (if b = 34 then unicode_escapes (\<not> inside) raw
      else if \<not> inside \<or> b \<noteq> 92 then unicode_escapes inside raw
      else case raw of
        [] \<Rightarrow> False
      | c # rest \<Rightarrow>
          if c \<noteq> 117 then unicode_escapes inside rest
          else if length rest < 4 then False
          else case parse_hex 0 (take 4 rest) of
            None \<Rightarrow> False
          | Some v \<Rightarrow>
              let rest4 = drop 4 rest in
              if 56320 \<le> v \<and> v \<le> 57343 then False
              else if 55296 \<le> v \<and> v \<le> 56319 then
                (if length rest4 < 6 \<or> rest4 ! 0 \<noteq> 92 \<or> rest4 ! 1 \<noteq> 117 then False
                 else case parse_hex 0 (take 4 (drop 2 rest4)) of
                   None \<Rightarrow> False
                 | Some low \<Rightarrow>
                     if low < 56320 \<or> low > 57343 then False
                     else unicode_escapes inside (drop 6 rest4))
              else unicode_escapes inside rest4)"
  by pat_completeness auto
termination
  by (relation "measure (\<lambda>(inside, raw). length raw)") auto

definition validUnicodeEscapes :: "bytes \<Rightarrow> bool" where
  "validUnicodeEscapes raw = unicode_escapes False raw"

definition checkJSON :: "'z std_scheme \<Rightarrow> bytes \<Rightarrow> gerr" where
  "checkJSON L raw =
     (if \<not> utf8_valid L raw \<or> \<not> validUnicodeEscapes raw then [Err ''invalid producer UTF-8'']
      else case json_parse L raw of
        None \<Rightarrow> [Err ''json'']
      | Some v \<Rightarrow> check_value 0 v)"

section \<open>Decoders\<close>

definition object :: "json \<Rightarrow> string list \<Rightarrow> (string \<times> json) list result" where
  "object v allowed =
     (case v of
        JObj kvs \<Rightarrow>
          if allowed \<noteq> [] \<and> \<not> list_all (\<lambda>(k, _). k \<in> set allowed) kvs
          then Inl (Err ''unknown producer field'')
          else Inr kvs
      | JNull \<Rightarrow> Inl (Err ''required JSON object'')
      | _ \<Rightarrow> Inl (Err ''json''))"

definition object_at :: "(string \<times> json) list \<Rightarrow> string \<Rightarrow> string list \<Rightarrow> (string \<times> json) list result" where
  "object_at m k allowed = (case map_of m k of None \<Rightarrow> Inl (Err ''json'') | Some v \<Rightarrow> object v allowed)"

definition required :: "(json \<Rightarrow> 'a result) \<Rightarrow> (string \<times> json) list \<Rightarrow> string \<Rightarrow> 'a result" where
  "required out m k =
     (case map_of m k of
        None \<Rightarrow> Inl (Err ''missing producer field'')
      | Some v \<Rightarrow> if v = JNull then Inl (Err ''missing producer field'') else out v)"

definition nullable :: "(json \<Rightarrow> 'a result) \<Rightarrow> (string \<times> json) list \<Rightarrow> string \<Rightarrow> 'a option result" where
  "nullable out m k =
     (case map_of m k of
        None \<Rightarrow> Inl (Err ''missing producer field'')
      | Some v \<Rightarrow> unmarshal_ptr out v)"

definition decodeHeader :: "json \<Rightarrow> ProducerHeader result" where
  "decodeHeader raw =
     bindR (object raw [''schema'', ''incarnation'', ''attempt_sequence'', ''request_sequence'',
                        ''request_id'', ''loss_detected'']) (\<lambda>m.
     bindR (required unmarshal_string m ''schema'') (\<lambda>schema.
     bindR (required unmarshal_string m ''incarnation'') (\<lambda>incarnation.
     bindR (required unmarshal_u64 m ''attempt_sequence'') (\<lambda>attempt.
     bindR (required unmarshal_bool m ''loss_detected'') (\<lambda>loss.
     bindR (nullable unmarshal_u64 m ''request_sequence'') (\<lambda>requestSequence.
     bindR (nullable unmarshal_string m ''request_id'') (\<lambda>requestID.
     let h = \<lparr>ph_Schema = schema, ph_Incarnation = incarnation, ph_Attempt = attempt,
              ph_RequestSequence = requestSequence, ph_RequestID = requestID, ph_Loss = loss\<rparr> in
     if schema \<noteq> ProducerSchema \<or> \<not> tokenOK incarnation \<or> attempt = 0
     then Inl (Err ''invalid producer header'')
     else if (requestID = None) \<noteq> (requestSequence = None)
     then Inl (Err ''partial request identity'')
     else if requestID \<noteq> None \<and> (\<not> tokenOK (the requestID) \<or> the requestSequence = 0)
     then Inl (Err ''invalid producer request identity'')
     else Inr h)))))))"

definition decodeHeader_at :: "(string \<times> json) list \<Rightarrow> string \<Rightarrow> ProducerHeader result" where
  "decodeHeader_at m k = (case map_of m k of None \<Rightarrow> Inl (Err ''json'') | Some v \<Rightarrow> decodeHeader v)"

text \<open>The loop over the members of the metrics whose name starts with \<open>net_\<close>; returns
  \<open>DeviceMetricsPresent\<close>.\<close>

fun decode_devices :: "(string \<times> json) list \<Rightarrow> bool \<Rightarrow> bool result" where
  "decode_devices [] present = Inr present"
| "decode_devices ((k, v) # rest) present =
     (if has_prefix k ''net_'' then
        case object v [] of Inl e \<Rightarrow> Inl e
        | Inr device \<Rightarrow>
            (case required unmarshal_u64 device ''tx_bytes_count'' of Inl e \<Rightarrow> Inl e
             | Inr tx \<Rightarrow>
                (case required unmarshal_u64 device ''rx_bytes_count'' of Inl e \<Rightarrow> Inl e
                 | Inr rx \<Rightarrow> decode_devices rest True))
      else decode_devices rest present)"

definition decode_cutoff :: "(string \<times> json) list \<Rightarrow> ProducerHeader \<Rightarrow> string result" where
  "decode_cutoff m h =
     (case map_of m ''terminal_cutoff'' of
        None \<Rightarrow> Inr ''''
      | Some _ \<Rightarrow>
          (case required unmarshal_string m ''terminal_cutoff'' of
             Inl e \<Rightarrow> Inl (Err ''invalid terminal cutoff'')
           | Inr c \<Rightarrow>
               if c \<noteq> TerminalCutoff then Inl (Err ''invalid terminal cutoff'')
               else if ph_RequestID h = None then Inl (Err ''terminal frame without request'')
               else Inr c))"

definition decode_net :: "(string \<times> json) list \<Rightarrow> (int \<times> int \<times> bool) result" where
  "decode_net metrics =
     (case map_of metrics ''net'' of
        None \<Rightarrow> Inr (0, 0, False)
      | Some net \<Rightarrow>
          bindR (object net []) (\<lambda>n.
          bindR (required unmarshal_u64 n ''tx_bytes_count'') (\<lambda>tx.
          bindR (required unmarshal_u64 n ''rx_bytes_count'') (\<lambda>rx. Inr (tx, rx, True)))))"

definition DecodeProducerFrame :: "'z std_scheme \<Rightarrow> bytes \<Rightarrow> ProducerFrame result" where
  "DecodeProducerFrame L raw =
     (if raw = [] \<or> int (length raw) > MaxProducerFrameBytes \<or> last raw \<noteq> 10
      then Inl (Err ''producer frame size or missing newline'')
      else if 10 \<in> set (butlast raw)
      then Inl (Err ''multiple or noncanonical producer lines'')
      else case checkJSON L raw of
        e # _ \<Rightarrow> Inl e
      | [] \<Rightarrow>
          bindR (json_value L raw) (\<lambda>v.
          bindR (object v [''measurement'', ''metrics'', ''terminal_cutoff'']) (\<lambda>m.
          bindR (decodeHeader_at m ''measurement'') (\<lambda>h.
          bindR (object_at m ''metrics'' []) (\<lambda>metrics.
          bindR (decode_cutoff m h) (\<lambda>cutoff.
          bindR (decode_devices metrics False) (\<lambda>devices.
          bindR (decode_net metrics) (\<lambda>(tx, rx, net).
            Inr \<lparr>pf_Header = h, pf_Cutoff = cutoff, pf_Tx = tx, pf_Rx = rx, pf_NetworkPresent = net,
                 pf_DeviceMetricsPresent = devices, pf_Metrics = JObj metrics\<rparr>))))))))"

text \<open>A field that must have one fixed value, with the error of the caller.\<close>

definition required_const :: "(string \<times> json) list \<Rightarrow> string \<Rightarrow> string \<Rightarrow> error \<Rightarrow> string result" where
  "required_const m k c e = (if required unmarshal_string m k = Inr c then Inr c else Inl e)"

definition decode_receipt :: "json \<Rightarrow> bool \<Rightarrow> ProducerReceipt result" where
  "decode_receipt v terminal =
     (if terminal then
        bindR (object v [''schema'', ''cutoff'', ''measurement'']) (\<lambda>m.
        bindR (required_const m ''schema'' TerminalSchema (Err ''invalid terminal receipt schema'')) (\<lambda>_.
        bindR (required_const m ''cutoff'' TerminalCutoff (Err ''invalid terminal receipt cutoff'')) (\<lambda>cutoff.
        bindR (decodeHeader_at m ''measurement'') (\<lambda>h.
          Inr \<lparr>pc_Header = h, pc_Cutoff = cutoff\<rparr>))))
      else bindR (decodeHeader v) (\<lambda>h. Inr \<lparr>pc_Header = h, pc_Cutoff = ''''\<rparr>))"

definition DecodeProducerReceipt :: "'z std_scheme \<Rightarrow> bytes \<Rightarrow> bool \<Rightarrow> ProducerReceipt result" where
  "DecodeProducerReceipt L raw terminal =
     (if raw = [] \<or> int (length raw) > MaxProducerReceiptBytes then Inl (Err ''producer receipt size'')
      else case checkJSON L raw of
        e # _ \<Rightarrow> Inl e
      | [] \<Rightarrow>
          bindR (json_value L raw) (\<lambda>v.
          bindR (decode_receipt v terminal) (\<lambda>r.
            if ph_RequestID (pc_Header r) = None then Inl (Err ''receipt without request identity'')
            else Inr r)))"

definition headersEqual :: "ProducerHeader \<Rightarrow> ProducerHeader \<Rightarrow> bool" where
  "headersEqual a b \<longleftrightarrow>
     (if ph_Schema a \<noteq> ph_Schema b \<or> ph_Incarnation a \<noteq> ph_Incarnation b \<or>
         ph_Attempt a \<noteq> ph_Attempt b \<or> ph_Loss a \<noteq> ph_Loss b then False
      else if ph_RequestID a = None \<or> ph_RequestID b = None
      then ph_RequestID a = None \<and> ph_RequestID b = None \<and>
           ph_RequestSequence a = None \<and> ph_RequestSequence b = None
      else ph_RequestSequence b \<noteq> None \<and> ph_RequestSequence a \<noteq> None \<and>
           the (ph_RequestID a) = the (ph_RequestID b) \<and>
           the (ph_RequestSequence a) = the (ph_RequestSequence b))"

section \<open>Decoded messages are well formed\<close>

definition u64_ok :: "int \<Rightarrow> bool" where
  "u64_ok x \<longleftrightarrow> 0 \<le> x \<and> x \<le> max_u64"

definition header_ok :: "ProducerHeader \<Rightarrow> bool" where
  "header_ok h \<longleftrightarrow>
     ph_Schema h = ProducerSchema \<and> tokenOK (ph_Incarnation h) \<and> u64_ok (ph_Attempt h) \<and>
     ph_Attempt h \<noteq> 0 \<and>
     (case (ph_RequestID h, ph_RequestSequence h) of
        (None, None) \<Rightarrow> True
      | (Some i, Some s) \<Rightarrow> tokenOK i \<and> u64_ok s \<and> s \<noteq> 0
      | _ \<Rightarrow> False)"

definition frame_ok :: "ProducerFrame \<Rightarrow> bool" where
  "frame_ok f \<longleftrightarrow>
     header_ok (pf_Header f) \<and> u64_ok (pf_Tx f) \<and> u64_ok (pf_Rx f) \<and>
     (pf_Cutoff f = '''' \<or> pf_Cutoff f = TerminalCutoff \<and> ph_RequestID (pf_Header f) \<noteq> None)"

lemma parse_digits_nonneg: "parse_digits a s = Some v \<Longrightarrow> 0 \<le> a \<Longrightarrow> 0 \<le> v"
  by (induction s arbitrary: a) (auto split: if_splits)

lemma ParseUint_u64: "ParseUint s = Some v \<Longrightarrow> u64_ok v"
  by (auto simp: ParseUint_def u64_ok_def split: if_splits option.splits dest: parse_digits_nonneg)

lemma unmarshal_u64_u64: "unmarshal_u64 j = Inr v \<Longrightarrow> u64_ok v"
  by (auto simp: unmarshal_u64_def split: json.splits option.splits intro: ParseUint_u64)

lemma required_Inr: "required f m k = Inr x \<Longrightarrow> \<exists>v. map_of m k = Some v \<and> f v = Inr x"
  by (auto simp: required_def split: option.splits if_splits)

lemma required_u64: "required unmarshal_u64 m k = Inr x \<Longrightarrow> u64_ok x"
  by (auto dest!: required_Inr intro: unmarshal_u64_u64)

lemma nullable_u64: "nullable unmarshal_u64 m k = Inr (Some x) \<Longrightarrow> u64_ok x"
  by (auto simp: nullable_def unmarshal_ptr_def bindR_eq_Inr split: option.splits if_splits
      intro: unmarshal_u64_u64)

lemma decodeHeader_ok: "decodeHeader v = Inr h \<Longrightarrow> header_ok h"
  by (auto simp: decodeHeader_def bindR_eq_Inr Let_def header_ok_def
      dest!: required_u64 nullable_u64 split: if_splits option.splits)

lemma decodeHeader_at_ok: "decodeHeader_at m k = Inr h \<Longrightarrow> header_ok h"
  by (auto simp: decodeHeader_at_def split: option.splits intro: decodeHeader_ok)

lemma headersEqual_eq: "header_ok a \<Longrightarrow> header_ok b \<Longrightarrow> headersEqual a b \<longleftrightarrow> a = b"
  by (cases a; cases b) (auto simp: headersEqual_def header_ok_def split: option.splits)

lemma headersEqual_refl: "header_ok a \<Longrightarrow> headersEqual a a"
  by (simp add: headersEqual_eq)

lemma decode_net_ok: "decode_net m = Inr (tx, rx, p) \<Longrightarrow> u64_ok tx \<and> u64_ok rx"
  by (auto simp: decode_net_def bindR_eq_Inr u64_ok_def max_u64_def split: option.splits
      dest!: required_u64)

lemma decode_cutoff_ok:
  "decode_cutoff m h = Inr c \<Longrightarrow> c = '''' \<or> c = TerminalCutoff \<and> ph_RequestID h \<noteq> None"
  by (auto simp: decode_cutoff_def split: option.splits sum.splits if_splits)

lemma DecodeProducerFrame_ok:
  assumes "DecodeProducerFrame L raw = Inr f"
  shows "frame_ok f" "raw \<noteq> []" "int (length raw) \<le> MaxProducerFrameBytes" "last raw = 10"
    "10 \<notin> set (butlast raw)"
proof -
  from assms obtain h m metrics cutoff devices tx rx net
    where h: "decodeHeader_at m ''measurement'' = Inr h" and c: "decode_cutoff m h = Inr cutoff"
      and n: "decode_net metrics = Inr (tx, rx, net)"
      and f: "f = \<lparr>pf_Header = h, pf_Cutoff = cutoff, pf_Tx = tx, pf_Rx = rx, pf_NetworkPresent = net,
                 pf_DeviceMetricsPresent = devices, pf_Metrics = JObj metrics\<rparr>"
    by (auto simp: DecodeProducerFrame_def bindR_eq_Inr split: if_splits list.splits)
  show "frame_ok f"
    using decodeHeader_at_ok [OF h] decode_cutoff_ok [OF c] decode_net_ok [OF n]
    by (simp add: f frame_ok_def)
  show "raw \<noteq> []" "int (length raw) \<le> MaxProducerFrameBytes" "last raw = 10" "10 \<notin> set (butlast raw)"
    using assms by (auto simp: DecodeProducerFrame_def split: if_splits)
qed

lemma decode_receipt_ok:
  "decode_receipt v terminal = Inr r \<Longrightarrow>
     header_ok (pc_Header r) \<and> pc_Cutoff r = (if terminal then TerminalCutoff else '''')"
  by (auto simp: decode_receipt_def bindR_eq_Inr required_const_def split: if_splits
      intro: decodeHeader_ok decodeHeader_at_ok)

lemma DecodeProducerReceipt_ok:
  assumes "DecodeProducerReceipt L raw terminal = Inr r"
  shows "header_ok (pc_Header r)" "ph_RequestID (pc_Header r) \<noteq> None"
    "pc_Cutoff r = (if terminal then TerminalCutoff else '''')"
    "raw \<noteq> []" "int (length raw) \<le> MaxProducerReceiptBytes"
proof -
  from assms obtain v where "decode_receipt v terminal = Inr r"
    by (auto simp: DecodeProducerReceipt_def bindR_eq_Inr split: if_splits list.splits)
  then show "header_ok (pc_Header r)" "pc_Cutoff r = (if terminal then TerminalCutoff else '''')"
    by (auto dest: decode_receipt_ok)
  show "ph_RequestID (pc_Header r) \<noteq> None" "raw \<noteq> []" "int (length raw) \<le> MaxProducerReceiptBytes"
    using assms by (auto simp: DecodeProducerReceipt_def bindR_eq_Inr split: if_splits list.splits)
qed

lemma header_ok_request:
  "header_ok h \<Longrightarrow> ph_RequestID h \<noteq> None \<Longrightarrow> \<exists>i s. ph_RequestID h = Some i \<and> ph_RequestSequence h = Some s"
  by (auto simp: header_ok_def split: option.splits)

section \<open>Properties\<close>

text \<open>(C40) What the decoders return is well typed. The header of a frame or receipt has the
  producer's schema, tokens for its names, 64-bit sequence numbers that are not zero, and either
  both parts of a request or none; the counters of a frame are 64-bit values; a frame with the
  terminal cutoff answers a request; a receipt always names one, and has the cutoff exactly when
  a terminal one was asked for.\<close>

theorem producer_decoders_typed:
  "(\<forall>f. DecodeProducerFrame L raw = Inr f \<longrightarrow> frame_ok f) \<and>
   (\<forall>r. DecodeProducerReceipt L raw terminal = Inr r \<longrightarrow>
      header_ok (pc_Header r) \<and> ph_RequestID (pc_Header r) \<noteq> None \<and>
      pc_Cutoff r = (if terminal then TerminalCutoff else ''''))"
  by (auto dest: DecodeProducerFrame_ok(1) DecodeProducerReceipt_ok(1,2,3))

text \<open>A library whose every text is one receipt.\<close>

definition one_receipt :: json where
  "one_receipt =
     JObj [(''schema'', JStr ProducerSchema), (''incarnation'', JStr ''inc''), (''attempt_sequence'', JNum ''1''),
           (''request_sequence'', JNum ''18446744073709551615''), (''request_id'', JStr ''a''), (''loss_detected'', JBool False)]"

definition receipt_lib :: std where
  "receipt_lib = \<lparr>json_parse = (\<lambda>_. Some one_receipt), utf8_valid = (\<lambda>_. True), sha256hex = (\<lambda>_. ''''),
     fmt_time = (\<lambda>_. ''''), parse_time = (\<lambda>_. None)\<rparr>"

theorem producer_decoders_typed_witness:
  "\<exists>r. DecodeProducerReceipt receipt_lib [1] False = Inr r \<and> header_ok (pc_Header r) \<and>
     ph_RequestSequence (pc_Header r) = Some max_u64"
proof -
  let ?r = "DecodeProducerReceipt receipt_lib [1] False"
  have "(case ?r of Inl _ \<Rightarrow> False | Inr r \<Rightarrow> ph_RequestSequence (pc_Header r) = Some max_u64)" by code_simp
  then obtain r where "?r = Inr r" "ph_RequestSequence (pc_Header r) = Some max_u64" by (auto split: sum.splits)
  with producer_decoders_typed [of receipt_lib "[1]" False] show ?thesis by auto
qed

end
