(* ===== verification/Journal.thy ===== *)
theory Journal
  imports Producer "HOL-Library.Sublist"
begin

text \<open>
  The journal of host-observed network usage (\<open>networkusage/journal.go\<close>, with the records of
  \<open>correlation.go\<close>, \<open>closing.go\<close> and \<open>protected_delivery.go\<close> that it stores). A journal appends
  one line per record to a durable file and keeps the last record in memory. It continues
  counters: a record carries totals, the change since the previous record, and a flag \<open>Valid\<close>
  that is never regained.

  The Go interface \<open>durableFile\<close>, the clock and the callbacks of a journal are the record \<open>jenv\<close>
  of operations on a world \<open>'w\<close>, which each kind of file instantiates: what the operations
  return, errors and short writes included, is decided by the world. A Go \<open>time.Time\<close> is an \<open>int\<close>
  (nanoseconds since the zero time). The locale \<open>durable_log\<close> states what a file promises about
  the bytes it holds, and the lemmas about journals are proved in it once.
\<close>

section \<open>Records\<close>

record WorkloadBinding =
  wb_SandboxID :: string
  wb_ExecutionID :: string
  wb_TemplateID :: string
  wb_BuildID :: string
  wb_TeamID :: string
  wb_LifecycleID :: string
  wb_ProducerSHA256 :: string
  wb_ProducerIncarnation :: string

text \<open>The scopes of a request (\<open>RequestScope\<close>).\<close>

definition BaselineScope :: string where
  "BaselineScope = ''preboot_baseline''"

definition SampleScope :: string where
  "SampleScope = ''device_sample''"

definition TerminalScope :: string where
  "TerminalScope = ''terminal_device_cutoff''"

lemma scopes_distinct [simp]:
  "BaselineScope \<noteq> SampleScope" "SampleScope \<noteq> BaselineScope"
  "BaselineScope \<noteq> TerminalScope" "TerminalScope \<noteq> BaselineScope"
  "SampleScope \<noteq> TerminalScope" "TerminalScope \<noteq> SampleScope"
  "BaselineScope \<noteq> ''''" "SampleScope \<noteq> ''''" "TerminalScope \<noteq> ''''" "TerminalCutoff \<noteq> ''''"
  by (simp_all add: BaselineScope_def SampleScope_def TerminalScope_def TerminalCutoff_def)

record ProducerEvidence =
  pe_Incarnation :: string
  pe_Request :: "ProducerRequest option"
  pe_Header :: "ProducerHeader option"
  pe_Scope :: string
  pe_NetworkScope :: string
  pe_Cutoff :: string
  pe_Raw :: "bytes option"
  pe_SHA256 :: string
  pe_Bytes :: int
  pe_FrameSequence :: int
  pe_FrameSHA256 :: string
  pe_FrameBytes :: int

text \<open>Evidence with every field zero but the incarnation.\<close>

definition evidence :: "string \<Rightarrow> ProducerEvidence" where
  "evidence inc = \<lparr>pe_Incarnation = inc, pe_Request = None, pe_Header = None, pe_Scope = '''',
     pe_NetworkScope = '''', pe_Cutoff = '''', pe_Raw = None, pe_SHA256 = '''', pe_Bytes = 0,
     pe_FrameSequence = 0, pe_FrameSHA256 = '''', pe_FrameBytes = 0\<rparr>"

record Record =
  r_Workload :: "WorkloadBinding option"
  r_Producer :: "ProducerEvidence option"
  r_SchemaVersion :: int
  r_Kind :: string
  r_SandboxID :: string
  r_Incarnation :: string
  r_Sequence :: int
  r_ObservedAt :: string
  r_TxBytes :: int
  r_RxBytes :: int
  r_DeltaTxBytes :: int
  r_DeltaRxBytes :: int
  r_Valid :: bool
  r_Complete :: bool
  r_Reason :: string

text \<open>\<open>Record{SchemaVersion: 1, SandboxID: \<dots>, Incarnation: \<dots>, Valid: true}\<close>.\<close>

definition initial_record :: "string \<Rightarrow> string \<Rightarrow> Record" where
  "initial_record sandboxID incarnation =
     \<lparr>r_Workload = None, r_Producer = None, r_SchemaVersion = 1, r_Kind = '''', r_SandboxID = sandboxID,
      r_Incarnation = incarnation, r_Sequence = 0, r_ObservedAt = '''', r_TxBytes = 0, r_RxBytes = 0,
      r_DeltaTxBytes = 0, r_DeltaRxBytes = 0, r_Valid = True, r_Complete = False, r_Reason = ''''\<rparr>"

record CorrelationReference =
  cr_Header :: ProducerHeader
  cr_Scope :: string
  cr_Cutoff :: string
  cr_CorrelationSequence :: int
  cr_FrameSequence :: int
  cr_FrameSHA256 :: string
  cr_FrameBytes :: int
  cr_ReceiptSHA256 :: string
  cr_ReceiptBytes :: int

definition correlationReference :: "Record \<Rightarrow> CorrelationReference option" where
  "correlationReference r =
     (if r_Kind r \<noteq> ''producer_correlation'' then None
      else case r_Producer r of
        None \<Rightarrow> None
      | Some p \<Rightarrow>
          (case pe_Header p of
             None \<Rightarrow> None
           | Some h \<Rightarrow>
               if pe_Scope p \<noteq> BaselineScope \<and> pe_Scope p \<noteq> TerminalScope then None
               else Some \<lparr>cr_Header = h, cr_Scope = pe_Scope p, cr_Cutoff = pe_Cutoff p,
                          cr_CorrelationSequence = r_Sequence r, cr_FrameSequence = pe_FrameSequence p,
                          cr_FrameSHA256 = pe_FrameSHA256 p, cr_FrameBytes = pe_FrameBytes p,
                          cr_ReceiptSHA256 = pe_SHA256 p, cr_ReceiptBytes = pe_Bytes p\<rparr>))"

section \<open>The journal\<close>

record jstd = std +
  marshal :: "Record \<Rightarrow> bytes option"
  b64_encode :: "bytes \<Rightarrow> string"
  b64_decode :: "string \<Rightarrow> bytes option"

record 'w jenv =
  je_lib :: jstd
  je_now :: "'w \<Rightarrow> int \<times> 'w"
  je_Write :: "bytes \<Rightarrow> 'w \<Rightarrow> (int \<times> gerr) \<times> 'w"
  je_Sync :: "'w \<Rightarrow> gerr \<times> 'w"
  je_Close :: "'w \<Rightarrow> gerr \<times> 'w"
  je_beforeSeal :: "(Record \<Rightarrow> CorrelationReference option \<Rightarrow> CorrelationReference option \<Rightarrow> 'w \<Rightarrow> gerr \<times> 'w) option"
  je_afterSeal :: "(Record \<Rightarrow> gerr \<Rightarrow> 'w \<Rightarrow> gerr \<times> 'w) option"
  je_onClosed :: "(gerr \<Rightarrow> 'w \<Rightarrow> 'w) option"

record Journal =
  j_baselineReference :: "CorrelationReference option"
  j_terminalReference :: "CorrelationReference option"
  j_workload :: "WorkloadBinding option"
  j_last :: Record
  j_lastAt :: int
  j_failed :: gerr
  j_closed :: bool
  j_correlated :: bool

definition new_journal :: "Record \<Rightarrow> Journal" where
  "new_journal r = \<lparr>j_baselineReference = None, j_terminalReference = None, j_workload = None, j_last = r,
     j_lastAt = 0, j_failed = [], j_closed = False, j_correlated = False\<rparr>"

text \<open>The record that \<open>append\<close> writes at the clock reading \<open>now\<close>.\<close>

definition stamp :: "'w jenv \<Rightarrow> Journal \<Rightarrow> int \<Rightarrow> Record \<Rightarrow> Record" where
  "stamp E j now r =
     (let r = r\<lparr>r_Workload := j_workload j\<rparr>;
          r = (if j_lastAt j \<noteq> 0 \<and> now < j_lastAt j
               then r\<lparr>r_Valid := False, r_Reason := ''clock_regression''\<rparr> else r)
      in r\<lparr>r_ObservedAt := fmt_time (je_lib E) now\<rparr>)"

text \<open>Marshal, write in full, and sync; the error of the first step that fails.\<close>

definition write_record :: "'w jenv \<Rightarrow> Record \<Rightarrow> 'w \<Rightarrow> gerr \<times> 'w" where
  "write_record E r w =
     (case marshal (je_lib E) r of
        None \<Rightarrow> ([Err ''json''], w)
      | Some data \<Rightarrow>
          let line = data @ [10];
              ((n, e), w) = je_Write E line w;
              e = (if e = [] \<and> n \<noteq> int (length line) then [Err ''short write''] else e)
          in if e = [] then je_Sync E w else (e, w))"

definition set_reference :: "Record \<Rightarrow> Journal \<Rightarrow> Journal" where
  "set_reference r j =
     (case correlationReference r of
        None \<Rightarrow> j
      | Some ref \<Rightarrow>
          if cr_Scope ref = BaselineScope then j\<lparr>j_baselineReference := Some ref\<rparr>
          else j\<lparr>j_terminalReference := Some ref\<rparr>)"

definition journal_append :: "'w jenv \<Rightarrow> Record \<Rightarrow> Journal \<Rightarrow> 'w \<Rightarrow> gerr \<times> Journal \<times> 'w" where
  "journal_append E r j w =
     (if j_failed j \<noteq> [] then (j_failed j, j, w)
      else if j_closed j then ([Err ''network journal is closed''], j, w)
      else let (now, w) = je_now E w;
               r = stamp E j now r;
               (err, w) = write_record E r w
           in if err \<noteq> []
              then let f = Err ''persist network journal'' # err in (f, j\<lparr>j_failed := f\<rparr>, w)
              else ([], (set_reference r (j\<lparr>j_last := r\<rparr>))\<lparr>j_lastAt := now\<rparr>, w))"

definition journal_next :: "string \<Rightarrow> Journal \<Rightarrow> (gerr + Record) \<times> Journal" where
  "journal_next kind j =
     (if r_Sequence (j_last j) = max_u64
      then let e = [Err ''network journal sequence overflow''] in (Inl e, j\<lparr>j_failed := e\<rparr>)
      else let r = j_last j in
        (Inr (r\<lparr>r_Sequence := u64 (r_Sequence r + 1), r_Kind := kind, r_Reason := '''', r_Producer := None,
               r_DeltaTxBytes := 0, r_DeltaRxBytes := 0\<rparr>), j))"

text \<open>Whether adding the deltas to the totals of a record would overflow, and the addition.\<close>

definition counter_overflow :: "int \<Rightarrow> int \<Rightarrow> Record \<Rightarrow> bool" where
  "counter_overflow tx rx r \<longleftrightarrow> tx > u64 (max_u64 - r_TxBytes r) \<or> rx > u64 (max_u64 - r_RxBytes r)"

definition overflow_gap :: "Record \<Rightarrow> Record" where
  "overflow_gap r = r\<lparr>r_Kind := ''gap'', r_Valid := False, r_Reason := ''counter_overflow''\<rparr>"

definition add_counters :: "int \<Rightarrow> int \<Rightarrow> Record \<Rightarrow> Record" where
  "add_counters tx rx r =
     r\<lparr>r_DeltaTxBytes := tx, r_DeltaRxBytes := rx, r_TxBytes := u64 (r_TxBytes r + tx),
       r_RxBytes := u64 (r_RxBytes r + rx)\<rparr>"

definition Observe :: "'w jenv \<Rightarrow> int \<Rightarrow> int \<Rightarrow> Journal \<Rightarrow> 'w \<Rightarrow> gerr \<times> Journal \<times> 'w" where
  "Observe E tx rx j w =
     (if j_correlated j then ([Err ''journal owned by producer correlator''], j, w)
      else case journal_next ''sample'' j of
        (Inl e, j) \<Rightarrow> (e, j, w)
      | (Inr r, j) \<Rightarrow>
          if counter_overflow tx rx r
          then let (e, j, w) = journal_append E (overflow_gap r) j w
               in (Err ''network byte counter overflow'' # e, j, w)
          else journal_append E (add_counters tx rx r) j w)"

definition Gap :: "'w jenv \<Rightarrow> string \<Rightarrow> Journal \<Rightarrow> 'w \<Rightarrow> gerr \<times> Journal \<times> 'w" where
  "Gap E reason j w =
     (if j_correlated j then ([Err ''journal owned by producer correlator''], j, w)
      else if length reason = 0 \<or> length reason > 80
      then ([Err ''network journal gap reason must be bounded''], j, w)
      else case journal_next ''gap'' j of
        (Inl e, j) \<Rightarrow> (e, j, w)
      | (Inr r, j) \<Rightarrow> journal_append E (r\<lparr>r_Valid := False, r_Reason := reason\<rparr>) j w)"

definition before_seal :: "'w jenv \<Rightarrow> Journal \<Rightarrow> 'w \<Rightarrow> Journal \<times> 'w" where
  "before_seal E j w =
     (case je_beforeSeal E of
        None \<Rightarrow> (j, w)
      | Some f \<Rightarrow> let (e, w) = f (j_last j) (j_baselineReference j) (j_terminalReference j) w
                  in (j\<lparr>j_failed := j_failed j @ e\<rparr>, w))"

definition after_seal :: "'w jenv \<Rightarrow> Journal \<Rightarrow> 'w \<Rightarrow> Journal \<times> 'w" where
  "after_seal E j w =
     (case je_afterSeal E of
        None \<Rightarrow> (j, w)
      | Some f \<Rightarrow> let (e, w) = f (j_last j) (j_failed j) w in (j\<lparr>j_failed := j_failed j @ e\<rparr>, w))"

definition Journal_Close :: "'w jenv \<Rightarrow> Journal \<Rightarrow> 'w \<Rightarrow> gerr \<times> Journal \<times> 'w" where
  "Journal_Close E j w =
     (if j_closed j then (j_failed j, j, w)
      else let (j, w) = before_seal E j w;
               (err, j, w) = (case journal_next ''closed'' j of
                   (Inl e, j) \<Rightarrow> (e, j, w)
                 | (Inr r, j) \<Rightarrow> journal_append E (r\<lparr>r_Reason := ''terminal_coverage_unverified''\<rparr>) j w);
               j = j\<lparr>j_closed := True\<rparr>;
               (ce, w) = je_Close E w;
               j = j\<lparr>j_failed := err @ ce\<rparr>;
               (j, w) = after_seal E j w;
               w = (case je_onClosed E of None \<Rightarrow> w | Some f \<Rightarrow> f (j_failed j) w)
           in (j_failed j, j, w))"

text \<open>A nil journal is the disabled configuration: every method returns at once.\<close>

definition on_journal :: "(Journal \<Rightarrow> 'w \<Rightarrow> gerr \<times> Journal \<times> 'w) \<Rightarrow> Journal option \<Rightarrow> 'w \<Rightarrow> gerr \<times> Journal option \<times> 'w" where
  "on_journal f jo w = (case jo of None \<Rightarrow> ([], None, w) | Some j \<Rightarrow> let (e, j, w) = f j w in (e, Some j, w))"

definition string_bytes :: "string \<Rightarrow> bytes" where
  "string_bytes s = map of_char s"

text \<open>What the operating system answers to \<open>Open\<close>: opening the directory, creating the file, and
  syncing the directory.\<close>

record open_io =
  oi_openDir :: gerr
  oi_create :: gerr
  oi_syncDir :: gerr

definition start_journal :: "'w jenv \<Rightarrow> string \<Rightarrow> string \<Rightarrow> 'w \<Rightarrow> gerr \<times> Journal \<times> 'w" where
  "start_journal E sandboxID ident w =
     (let j = new_journal (initial_record sandboxID ident) in
      journal_append E ((j_last j)\<lparr>r_Kind := ''start''\<rparr>) j w)"

definition Open :: "'w jenv \<Rightarrow> open_io \<Rightarrow> string \<Rightarrow> string \<Rightarrow> string \<Rightarrow> 'w \<Rightarrow> (gerr + Journal option) \<times> 'w" where
  "Open E io directory sandboxID ident w =
     (if directory = '''' then (Inr None, w)
      else if \<not> has_prefix directory ''/'' \<or> sandboxID = '''' \<or> length sandboxID > 256 \<or>
              \<not> utf8_valid (je_lib E) (string_bytes sandboxID)
      then (Inl [Err ''network journal requires an absolute directory and bounded sandbox identity''], w)
      else if oi_openDir io \<noteq> [] then (Inl (Err ''open network journal directory'' # oi_openDir io), w)
      else if oi_create io \<noteq> [] then (Inl (Err ''create network journal'' # oi_create io), w)
      else let (err, j, w) = start_journal E sandboxID ident w;
               err = (if err = [] then oi_syncDir io else err)
           in if err \<noteq> [] then let (_, w) = je_Close E w in (Inl (Err ''persist network journal start'' # err), w)
              else (Inr (Some j), w))"

section \<open>What a journal may contain\<close>

definition line :: "'w jenv \<Rightarrow> Record \<Rightarrow> bytes" where
  "line E r = (case marshal (je_lib E) r of None \<Rightarrow> [] | Some d \<Rightarrow> d @ [10])"

definition record_typed :: "Record \<Rightarrow> bool" where
  "record_typed r \<longleftrightarrow>
     u64_ok (r_Sequence r) \<and> u64_ok (r_TxBytes r) \<and> u64_ok (r_RxBytes r) \<and>
     u64_ok (r_DeltaTxBytes r) \<and> u64_ok (r_DeltaRxBytes r)"

definition start_record :: "Record \<Rightarrow> bool" where
  "start_record r \<longleftrightarrow>
     r_Kind r = ''start'' \<and> r_Sequence r = 0 \<and> r_TxBytes r = 0 \<and> r_RxBytes r = 0 \<and>
     r_DeltaTxBytes r = 0 \<and> r_DeltaRxBytes r = 0 \<and> r_SchemaVersion r = 1 \<and> \<not> r_Complete r"

text \<open>A record that continues another: the next sequence number, the totals increased by the
  deltas without wrap-around, the same identity, and no validity regained.\<close>

definition rec_ext :: "Record \<Rightarrow> Record \<Rightarrow> bool" where
  "rec_ext r r' \<longleftrightarrow>
     record_typed r' \<and> r_Sequence r' = r_Sequence r + 1 \<and>
     r_TxBytes r' = r_TxBytes r + r_DeltaTxBytes r' \<and> r_RxBytes r' = r_RxBytes r + r_DeltaRxBytes r' \<and>
     (r_Valid r' \<longrightarrow> r_Valid r) \<and> r_SchemaVersion r' = r_SchemaVersion r \<and>
     r_SandboxID r' = r_SandboxID r \<and> r_Incarnation r' = r_Incarnation r \<and>
     r_Complete r' = r_Complete r"

definition rec_step :: "Record \<Rightarrow> Record \<Rightarrow> bool" where
  "rec_step r r' \<longleftrightarrow> r_Kind r \<noteq> ''closed'' \<and> rec_ext r r'"

definition record_chain :: "Record list \<Rightarrow> bool" where
  "record_chain rs \<longleftrightarrow> rs \<noteq> [] \<and> start_record (hd rs) \<and> successively rec_step rs"

text \<open>The log of a file holds the lines of a chain and, after a failure only, the beginning of
  one more line.\<close>

definition jlog :: "'w jenv \<Rightarrow> ('w \<Rightarrow> bytes) \<Rightarrow> bytes \<Rightarrow> Record list \<Rightarrow> Journal \<Rightarrow> 'w \<Rightarrow> bool" where
  "jlog E logf base rs j w \<longleftrightarrow>
     record_chain rs \<and> last rs = j_last j \<and>
     (\<exists>torn r. logf w = base @ concat (map (line E) rs) @ torn \<and> prefix torn (line E r) \<and>
       (j_failed j = [] \<longrightarrow> torn = []))"

definition jinv :: "'w jenv \<Rightarrow> ('w \<Rightarrow> bytes) \<Rightarrow> bytes \<Rightarrow> Record list \<Rightarrow> Journal \<Rightarrow> 'w \<Rightarrow> bool" where
  "jinv E logf base rs j w \<longleftrightarrow>
     jlog E logf base rs j w \<and> (r_Kind (j_last j) = ''closed'' \<longrightarrow> j_closed j)"

lemma rec_step_typed: "rec_step r r' \<Longrightarrow> record_typed r'"
  by (simp add: rec_step_def rec_ext_def)

lemma start_record_typed: "start_record r \<Longrightarrow> record_typed r"
  by (simp add: start_record_def record_typed_def u64_ok_def max_u64_def)

lemma successively_typed:
  "successively rec_step rs \<Longrightarrow> rs \<noteq> [] \<Longrightarrow> record_typed (hd rs) \<Longrightarrow> r \<in> set rs \<Longrightarrow> record_typed r"
proof (induction rs rule: induct_list012)
  case (3 a b rs)
  then show ?case by (auto dest: rec_step_typed)
qed auto

lemma record_chain_typed: "record_chain rs \<Longrightarrow> r \<in> set rs \<Longrightarrow> record_typed r"
  by (auto simp: record_chain_def intro: successively_typed start_record_typed)

lemma record_chain_last_typed: "record_chain rs \<Longrightarrow> record_typed (last rs)"
  by (rule record_chain_typed) (auto simp: record_chain_def)

lemma record_chain_snoc:
  "record_chain rs \<Longrightarrow> rec_step (last rs) r \<Longrightarrow> record_chain (rs @ [r])"
  by (auto simp: record_chain_def successively_append_iff)

lemma successively_nth:
  "successively P xs \<Longrightarrow> Suc i < length xs \<Longrightarrow> P (xs ! i) (xs ! Suc i)"
proof (induction xs arbitrary: i rule: induct_list012)
  case (3 x y zs)
  then show ?case by (cases i) auto
qed auto

text \<open>Along a chain the sequence numbers count the records and the totals are the sums of the
  deltas.\<close>

lemma record_chain_nth:
  assumes "record_chain rs" "i < length rs"
  shows "r_Sequence (rs ! i) = int i"
    and "r_TxBytes (rs ! i) = (\<Sum>r\<leftarrow>take (Suc i) rs. r_DeltaTxBytes r)"
    and "r_RxBytes (rs ! i) = (\<Sum>r\<leftarrow>take (Suc i) rs. r_DeltaRxBytes r)"
proof -
  have "r_Sequence (rs ! i) = int i \<and>
    r_TxBytes (rs ! i) = (\<Sum>r\<leftarrow>take (Suc i) rs. r_DeltaTxBytes r) \<and>
    r_RxBytes (rs ! i) = (\<Sum>r\<leftarrow>take (Suc i) rs. r_DeltaRxBytes r)"
    using assms(2)
  proof (induction i)
    case 0
    with assms(1) show ?case by (cases rs) (auto simp: record_chain_def start_record_def)
  next
    case (Suc i)
    have "rec_step (rs ! i) (rs ! Suc i)"
      using assms(1) Suc.prems by (auto simp: record_chain_def intro: successively_nth)
    with Suc show ?case by (auto simp: rec_step_def rec_ext_def take_Suc_conv_app_nth)
  qed
  then show "r_Sequence (rs ! i) = int i"
    and "r_TxBytes (rs ! i) = (\<Sum>r\<leftarrow>take (Suc i) rs. r_DeltaTxBytes r)"
    and "r_RxBytes (rs ! i) = (\<Sum>r\<leftarrow>take (Suc i) rs. r_DeltaRxBytes r)" by simp_all
qed

lemma record_chain_valid:
  assumes "record_chain rs" "i \<le> k" "k < length rs" "r_Valid (rs ! k)"
  shows "r_Valid (rs ! i)"
  using assms(2-4)
proof (induction k)
  case (Suc k)
  have "rec_step (rs ! k) (rs ! Suc k)"
    using assms(1) Suc.prems by (auto simp: record_chain_def intro: successively_nth)
  with Suc show ?case by (cases "i = Suc k") (auto simp: rec_step_def rec_ext_def)
qed simp

lemma record_chain_closed_last:
  assumes "record_chain rs" "i < length rs" "r_Kind (rs ! i) = ''closed''"
  shows "i = length rs - 1"
proof (rule ccontr)
  assume "i \<noteq> length rs - 1"
  with assms have "rec_step (rs ! i) (rs ! Suc i)"
    by (auto simp: record_chain_def intro: successively_nth)
  with assms(3) show False by (simp add: rec_step_def)
qed

section \<open>One step of a journal\<close>

lemma stamp_simps [simp]:
  "r_Sequence (stamp E j t r) = r_Sequence r" "r_TxBytes (stamp E j t r) = r_TxBytes r"
  "r_RxBytes (stamp E j t r) = r_RxBytes r" "r_DeltaTxBytes (stamp E j t r) = r_DeltaTxBytes r"
  "r_DeltaRxBytes (stamp E j t r) = r_DeltaRxBytes r" "r_Kind (stamp E j t r) = r_Kind r"
  "r_SchemaVersion (stamp E j t r) = r_SchemaVersion r" "r_SandboxID (stamp E j t r) = r_SandboxID r"
  "r_Incarnation (stamp E j t r) = r_Incarnation r" "r_Complete (stamp E j t r) = r_Complete r"
  "r_Producer (stamp E j t r) = r_Producer r" "r_Workload (stamp E j t r) = j_workload j"
  "r_ObservedAt (stamp E j t r) = fmt_time (je_lib E) t"
  by (simp_all add: stamp_def Let_def)

lemma stamp_valid: "r_Valid (stamp E j t r) \<Longrightarrow> r_Valid r"
  by (simp add: stamp_def Let_def split: if_splits)

lemma rec_ext_stamp: "rec_ext q r \<Longrightarrow> rec_ext q (stamp E j t r)"
  by (auto simp: rec_ext_def record_typed_def dest: stamp_valid)

lemma set_reference_simps [simp]:
  "j_last (set_reference r j) = j_last j" "j_lastAt (set_reference r j) = j_lastAt j"
  "j_failed (set_reference r j) = j_failed j" "j_closed (set_reference r j) = j_closed j"
  "j_correlated (set_reference r j) = j_correlated j" "j_workload (set_reference r j) = j_workload j"
  by (simp_all add: set_reference_def split: option.split)

lemma journal_next_Inr:
  assumes "journal_next k j = (Inr r, j')" "record_typed (j_last j)"
  shows "j' = j" "rec_ext (j_last j) r" "r_Kind r = k" "r_DeltaTxBytes r = 0" "r_DeltaRxBytes r = 0"
    "r_TxBytes r = r_TxBytes (j_last j)" "r_RxBytes r = r_RxBytes (j_last j)"
    "r_Valid r = r_Valid (j_last j)" "r_Producer r = None" "r_Sequence r = r_Sequence (j_last j) + 1"
proof -
  have "r_Sequence (j_last j) \<noteq> max_u64"
    using assms(1) by (simp add: journal_next_def Let_def split: if_splits)
  with assms(2) have u: "u64 (r_Sequence (j_last j) + 1) = r_Sequence (j_last j) + 1"
    by (auto simp: record_typed_def u64_ok_def max_u64_def intro: u64_id)
  with assms show "j' = j" "r_Kind r = k" "r_DeltaTxBytes r = 0" "r_DeltaRxBytes r = 0"
    "r_TxBytes r = r_TxBytes (j_last j)" "r_RxBytes r = r_RxBytes (j_last j)"
    "r_Valid r = r_Valid (j_last j)" "r_Producer r = None" "r_Sequence r = r_Sequence (j_last j) + 1"
    "rec_ext (j_last j) r"
    by (auto simp: journal_next_def Let_def rec_ext_def record_typed_def u64_ok_def max_u64_def
        split: if_splits)
qed

lemma journal_next_Inl:
  "journal_next k j = (Inl e, j') \<Longrightarrow> e \<noteq> [] \<and> j' = j\<lparr>j_failed := e\<rparr>"
  by (auto simp: journal_next_def Let_def split: if_splits)

lemma rec_ext_add_counters:
  assumes "rec_ext q r" "r_DeltaTxBytes r = 0" "r_DeltaRxBytes r = 0"
    and "\<not> counter_overflow tx rx r" "u64_ok tx" "u64_ok rx"
  shows "rec_ext q (add_counters tx rx r)" "r_TxBytes (add_counters tx rx r) = r_TxBytes r + tx"
    "r_RxBytes (add_counters tx rx r) = r_RxBytes r + rx"
proof -
  have t: "record_typed r" using assms(1) by (simp add: rec_ext_def)
  then have "u64 (max_u64 - r_TxBytes r) = max_u64 - r_TxBytes r"
    "u64 (max_u64 - r_RxBytes r) = max_u64 - r_RxBytes r"
    by (auto simp: record_typed_def u64_ok_def max_u64_def intro!: u64_id)
  with assms(4) have b: "r_TxBytes r + tx \<le> max_u64" "r_RxBytes r + rx \<le> max_u64"
    by (auto simp: counter_overflow_def)
  with t assms(5,6) have "u64 (r_TxBytes r + tx) = r_TxBytes r + tx" "u64 (r_RxBytes r + rx) = r_RxBytes r + rx"
    by (auto simp: record_typed_def u64_ok_def max_u64_def intro!: u64_id)
  then show "r_TxBytes (add_counters tx rx r) = r_TxBytes r + tx"
    "r_RxBytes (add_counters tx rx r) = r_RxBytes r + rx"
    by (simp_all add: add_counters_def)
  with assms b t show "rec_ext q (add_counters tx rx r)"
    by (auto simp: rec_ext_def add_counters_def record_typed_def u64_ok_def)
qed

lemma rec_ext_overflow_gap: "rec_ext q r \<Longrightarrow> rec_ext q (overflow_gap r)"
  by (auto simp: rec_ext_def overflow_gap_def record_typed_def)

lemma rec_ext_invalid: "rec_ext q r \<Longrightarrow> rec_ext q (r\<lparr>r_Valid := False, r_Reason := s\<rparr>)"
  by (auto simp: rec_ext_def record_typed_def)

lemma rec_ext_reason: "rec_ext q r \<Longrightarrow> rec_ext q (r\<lparr>r_Reason := s\<rparr>)"
  by (auto simp: rec_ext_def record_typed_def)

lemma rec_ext_producer: "rec_ext q r \<Longrightarrow> rec_ext q (r\<lparr>r_Producer := p\<rparr>)"
  by (auto simp: rec_ext_def record_typed_def)

section \<open>Files that keep what is written\<close>

locale durable_log =
  fixes E :: "'w jenv" and logf :: "'w \<Rightarrow> bytes"
  assumes now_log: "je_now E w = (t, w') \<Longrightarrow> logf w' = logf w"
    and write_log: "je_Write E p w = ((n, e), w') \<Longrightarrow>
      0 \<le> n \<and> n \<le> int (length p) \<and> logf w' = logf w @ take (nat n) p"
    and sync_log: "je_Sync E w = (e, w') \<Longrightarrow> logf w' = logf w"
    and close_log: "je_Close E w = (e, w') \<Longrightarrow> logf w' = logf w"
    and before_log: "je_beforeSeal E = Some f \<Longrightarrow> f r bl tr w = (e, w') \<Longrightarrow> logf w' = logf w"
    and after_log: "je_afterSeal E = Some g \<Longrightarrow> g r e' w = (e, w') \<Longrightarrow> logf w' = logf w"
    and closed_log: "je_onClosed E = Some h \<Longrightarrow> logf (h e' w) = logf w"
begin

text \<open>A record that was written without error is in the log as one line; otherwise the log has
  the beginning of that line.\<close>

lemma write_record_log:
  assumes "write_record E r w = (e, w')"
  shows "e = [] \<Longrightarrow> logf w' = logf w @ line E r"
    and "\<exists>torn. prefix torn (line E r) \<and> logf w' = logf w @ torn"
proof -
  have "(e = [] \<longrightarrow> logf w' = logf w @ line E r) \<and> (\<exists>torn. prefix torn (line E r) \<and> logf w' = logf w @ torn)"
  proof (cases "marshal (je_lib E) r")
    case None
    with assms show ?thesis by (auto simp: write_record_def line_def)
  next
    case (Some data)
    let ?l = "data @ [10]"
    obtain n e1 w1 where w1: "je_Write E ?l w = ((n, e1), w1)" by (metis prod.exhaust)
    note wl = write_log [OF w1]
    show ?thesis
    proof (cases "e1 = [] \<and> n = int (length ?l)")
      case True
      then have t: "take (nat n) ?l = ?l" by simp
      from assms Some w1 True have "je_Sync E w1 = (e, w')"
        by (simp add: write_record_def Let_def)
      from sync_log [OF this] wl t Some show ?thesis by (auto simp: line_def)
    next
      case False
      with assms Some w1 have "w' = w1" "e \<noteq> []"
        by (auto simp: write_record_def Let_def split: if_splits)
      moreover have "prefix (take (nat n) ?l) (line E r)" using Some take_is_prefix [of "nat n" ?l] by (simp add: line_def)
      ultimately show ?thesis using wl by blast
    qed
  qed
  then show "e = [] \<Longrightarrow> logf w' = logf w @ line E r"
    and "\<exists>torn. prefix torn (line E r) \<and> logf w' = logf w @ torn" by auto
qed

lemma append_jlog:
  assumes inv: "jinv E logf base rs j w" and r: "rec_ext (j_last j) r"
    and app: "journal_append E r j w = (e, j', w')"
  shows "\<exists>rs'. jlog E logf base rs' j' w' \<and> prefix rs rs' \<and>
    (e = [] \<longrightarrow> rs' = rs @ [j_last j'] \<and> r_Kind (j_last j') = r_Kind r \<and> j_closed j' = j_closed j) \<and>
    (e \<noteq> [] \<longrightarrow> rs' = rs \<and> j_last j' = j_last j \<and> j_closed j' = j_closed j)"
proof (cases "j_failed j \<noteq> [] \<or> j_closed j")
  case True
  then have "j' = j" "w' = w" "e \<noteq> []" using app by (auto simp: journal_append_def split: if_splits)
  then show ?thesis using inv by (auto simp: jinv_def)
next
  case False
  obtain now w1 where now: "je_now E w = (now, w1)" by fastforce
  let ?r = "stamp E j now r"
  obtain err w2 where wr: "write_record E ?r w1 = (err, w2)" by fastforce
  from inv False have chain: "record_chain rs" and lst: "last rs = j_last j" and k: "r_Kind (j_last j) \<noteq> ''closed''"
    and log: "logf w1 = base @ concat (map (line E) rs)"
    using now_log [OF now] by (auto simp: jinv_def jlog_def)
  show ?thesis
  proof (cases "err = []")
    case True
    with app False now wr have eq: "e = []" "w' = w2"
      "j' = (set_reference ?r (j\<lparr>j_last := ?r\<rparr>))\<lparr>j_lastAt := now\<rparr>"
      by (auto simp: journal_append_def Let_def)
    have "rec_step (last rs) ?r"
      using k lst rec_ext_stamp [OF r] by (simp add: rec_step_def)
    with chain have c: "record_chain (rs @ [?r])" by (rule record_chain_snoc)
    have "logf w2 = base @ concat (map (line E) (rs @ [?r]))"
      using write_record_log(1) [OF wr True] log by simp
    with c eq have "jlog E logf base (rs @ [?r]) j' w'"
      by (auto simp: jlog_def)
    with eq show ?thesis by (auto intro!: exI [of _ "rs @ [?r]"])
  next
    case f: False
    with app False now wr have eq: "e \<noteq> []" "w' = w2" "j_failed j' \<noteq> []" "j_last j' = j_last j" "j_closed j' = j_closed j"
      by (auto simp: journal_append_def Let_def)
    from write_record_log(2) [OF wr] obtain torn where "prefix torn (line E ?r)" "logf w2 = logf w1 @ torn" by blast
    with chain lst log eq have "jlog E logf base rs j' w'"
      by (auto simp: jlog_def)
    with eq show ?thesis by auto
  qed
qed

lemma append_jinv:
  assumes "jinv E logf base rs j w" "rec_ext (j_last j) r" "journal_append E r j w = (e, j', w')"
    and "r_Kind r \<noteq> ''closed''"
  shows "\<exists>rs'. jinv E logf base rs' j' w' \<and> prefix rs rs' \<and> j_closed j' = j_closed j \<and>
    (e = [] \<longrightarrow> rs' = rs @ [j_last j'] \<and> r_Kind (j_last j') = r_Kind r) \<and> (e \<noteq> [] \<longrightarrow> rs' = rs)"
proof -
  from append_jlog [OF assms(1-3)] obtain rs' where r: "jlog E logf base rs' j' w'" "prefix rs rs'"
    "e = [] \<longrightarrow> rs' = rs @ [j_last j'] \<and> r_Kind (j_last j') = r_Kind r \<and> j_closed j' = j_closed j"
    "e \<noteq> [] \<longrightarrow> rs' = rs \<and> j_last j' = j_last j \<and> j_closed j' = j_closed j" by blast
  then have "jinv E logf base rs' j' w'"
    using assms(1,4) by (cases "e = []") (auto simp: jinv_def)
  with r show ?thesis by (cases "e = []") auto
qed

lemma jinv_typed: "jinv E logf base rs j w \<Longrightarrow> record_typed (j_last j)"
  by (metis jinv_def jlog_def record_chain_last_typed)

lemma jinv_failed:
  "jinv E logf base rs j w \<Longrightarrow> e \<noteq> [] \<Longrightarrow> jinv E logf base rs (j\<lparr>j_failed := e\<rparr>) w"
  by (auto simp: jinv_def jlog_def)

lemma Observe_jinv:
  assumes inv: "jinv E logf base rs j w" and "u64_ok tx" "u64_ok rx"
    and o: "Observe E tx rx j w = (e, j', w')"
  shows "\<exists>rs'. jinv E logf base rs' j' w' \<and> prefix rs rs'"
proof (cases "j_correlated j")
  case True
  with o inv show ?thesis by (auto simp: Observe_def)
next
  case False
  note t = jinv_typed [OF inv]
  show ?thesis
  proof (cases "journal_next ''sample'' j")
    case (Pair res j1)
    show ?thesis
    proof (cases res)
      case (Inl f)
      with Pair False o journal_next_Inl [of "''sample''" j f j1] have "j' = j\<lparr>j_failed := f\<rparr>" "w' = w" "f \<noteq> []"
        by (auto simp: Observe_def)
      with jinv_failed [OF inv] show ?thesis by auto
    next
      case (Inr r)
      note n = journal_next_Inr [OF Pair [unfolded Inr] t]
      show ?thesis
      proof (cases "counter_overflow tx rx r")
        case True
        obtain e1 where "journal_append E (overflow_gap r) j w = (e1, j', w')"
          using o False Pair Inr True n(1) by (auto simp: Observe_def split: prod.splits)
        from append_jinv [OF inv rec_ext_overflow_gap [OF n(2)] this] show ?thesis
          by (auto simp: overflow_gap_def)
      next
        case nov: False
        have "journal_append E (add_counters tx rx r) j w = (e, j', w')"
          using o False Pair Inr nov n(1) by (simp add: Observe_def)
        from append_jinv [OF inv rec_ext_add_counters(1) [OF n(2,4,5) nov assms(2,3)] this] n(3) show ?thesis
          by (auto simp: add_counters_def)
      qed
    qed
  qed
qed

lemma Gap_jinv:
  assumes inv: "jinv E logf base rs j w" and g: "Gap E reason j w = (e, j', w')"
  shows "\<exists>rs'. jinv E logf base rs' j' w' \<and> prefix rs rs'"
proof (cases "j_correlated j \<or> length reason = 0 \<or> length reason > 80")
  case True
  with g have "j' = j" "w' = w" by (auto simp: Gap_def split: if_splits)
  with inv show ?thesis by auto
next
  case False
  show ?thesis
  proof (cases "journal_next ''gap'' j")
    case (Pair res j1)
    show ?thesis
    proof (cases res)
      case (Inl f)
      with Pair False g journal_next_Inl [of "''gap''" j f j1] have "j' = j\<lparr>j_failed := f\<rparr>" "w' = w" "f \<noteq> []"
        by (auto simp: Gap_def)
      with jinv_failed [OF inv] show ?thesis by auto
    next
      case (Inr r)
      note n = journal_next_Inr [OF Pair [unfolded Inr] jinv_typed [OF inv]]
      have "journal_append E (r\<lparr>r_Valid := False, r_Reason := reason\<rparr>) j w = (e, j', w')"
        using g False Pair Inr n(1) by (auto simp: Gap_def)
      from append_jinv [OF inv rec_ext_invalid [OF n(2)] this] n(3) show ?thesis by auto
    qed
  qed
qed

end

section \<open>Runs of a journal\<close>

datatype journal_op = JObserve int int | JGap string | JClose

definition journal_do :: "'w jenv \<Rightarrow> journal_op \<Rightarrow> Journal \<times> 'w \<Rightarrow> Journal \<times> 'w" where
  "journal_do E x s =
     (case x of
        JObserve tx rx \<Rightarrow> snd (Observe E tx rx (fst s) (snd s))
      | JGap reason \<Rightarrow> snd (Gap E reason (fst s) (snd s))
      | JClose \<Rightarrow> snd (Journal_Close E (fst s) (snd s)))"

definition journal_run :: "'w jenv \<Rightarrow> journal_op list \<Rightarrow> Journal \<times> 'w \<Rightarrow> Journal \<times> 'w" where
  "journal_run E xs s = fold (journal_do E) xs s"

definition op_typed :: "journal_op \<Rightarrow> bool" where
  "op_typed x = (case x of JObserve tx rx \<Rightarrow> u64_ok tx \<and> u64_ok rx | _ \<Rightarrow> True)"

lemma snd_conv_Pair: "snd x = y \<longleftrightarrow> (\<exists>e. x = (e, y))"
  by (cases x) auto

lemma append_ok:
  assumes "journal_append E r j w = ([], j', w')"
  shows "j_failed j' = []" "\<not> j_closed j'" "j_failed j = []" "\<not> j_closed j"
    "\<exists>now w1. je_now E w = (now, w1) \<and> write_record E (stamp E j now r) w1 = ([], w') \<and>
       j' = (set_reference (stamp E j now r) (j\<lparr>j_last := stamp E j now r\<rparr>))\<lparr>j_lastAt := now\<rparr>"
  using assms by (auto simp: journal_append_def Let_def split: if_splits prod.splits)

lemma append_failed:
  "j_failed j \<noteq> [] \<Longrightarrow> journal_append E r j w = (j_failed j, j, w)"
  by (simp add: journal_append_def)

context durable_log
begin

lemma jinv_same_log:
  assumes "jinv E logf base rs j w" "logf w' = logf w" "f = [] \<Longrightarrow> j_failed j = []"
  shows "jinv E logf base rs (j\<lparr>j_failed := f\<rparr>) w'"
  using assms by (fastforce simp: jinv_def jlog_def)

lemma before_seal_jinv:
  assumes "jinv E logf base rs j w" "before_seal E j w = (j', w')"
  shows "jinv E logf base rs j' w'" "j_failed j \<noteq> [] \<Longrightarrow> j_failed j' \<noteq> []" "j_closed j' = j_closed j"
    "logf w' = logf w" "j_last j' = j_last j"
  using assms
  by (auto simp: before_seal_def split: option.splits prod.splits intro!: jinv_same_log dest: before_log)

lemma after_seal_log:
  assumes "after_seal E j w = (j', w')"
  shows "logf w' = logf w" "j_failed j' = [] \<Longrightarrow> j_failed j = []" "j_closed j' = j_closed j" "j_last j' = j_last j"
  using assms by (auto simp: after_seal_def split: option.splits prod.splits dest: after_log)

lemma on_closed_log: "logf (case je_onClosed E of None \<Rightarrow> w | Some f \<Rightarrow> f e w) = logf w"
  by (auto split: option.split dest: closed_log)

definition seal_step :: "Journal \<Rightarrow> 'w \<Rightarrow> gerr \<times> Journal \<times> 'w" where
  "seal_step j w = (case journal_next ''closed'' j of
      (Inl e, j) \<Rightarrow> (e, j, w)
    | (Inr r, j) \<Rightarrow> journal_append E (r\<lparr>r_Reason := ''terminal_coverage_unverified''\<rparr>) j w)"

lemma seal_step_jlog:
  assumes inv: "jinv E logf base rs j w" and s: "seal_step j w = (e, j', w')"
  shows "\<exists>rs'. jlog E logf base rs' j' w' \<and> prefix rs rs' \<and> (e = [] \<longrightarrow> j_failed j' = []) \<and>
    (j_failed j \<noteq> [] \<longrightarrow> e \<noteq> [] \<and> logf w' = logf w)"
proof (cases "journal_next ''closed'' j")
  case (Pair res j1)
  show ?thesis
  proof (cases res)
    case (Inl f)
    with Pair s journal_next_Inl [of "''closed''" j f j1] have "j' = j\<lparr>j_failed := f\<rparr>" "w' = w" "f \<noteq> []" "e = f"
      by (auto simp: seal_step_def)
    with jinv_failed [OF inv] show ?thesis by (auto simp: jinv_def)
  next
    case (Inr r)
    note n = journal_next_Inr [OF Pair [unfolded Inr] jinv_typed [OF inv]]
    have a: "journal_append E (r\<lparr>r_Reason := ''terminal_coverage_unverified''\<rparr>) j w = (e, j', w')"
      using s Pair Inr n(1) by (simp add: seal_step_def)
    have "e = [] \<longrightarrow> j_failed j' = []" using append_ok(1) a by auto
    moreover have "j_failed j \<noteq> [] \<longrightarrow> e \<noteq> [] \<and> logf w' = logf w"
      using a by (auto simp: append_failed)
    ultimately show ?thesis
      using append_jlog [OF inv rec_ext_reason [OF n(2)] a] by blast
  qed
qed

lemma Close_steps:
  assumes "Journal_Close E j w = (e, j', w')" "\<not> j_closed j"
  obtains j1 w1 err j2 w2 ce w3 j4 w4 where
    "before_seal E j w = (j1, w1)" "seal_step j1 w1 = (err, j2, w2)" "je_Close E w2 = (ce, w3)"
    "after_seal E (j2\<lparr>j_closed := True, j_failed := err @ ce\<rparr>) w3 = (j', w4)"
    "logf w' = logf w4" "e = j_failed j'"
proof -
  obtain j1 w1 where 1: "before_seal E j w = (j1, w1)" by fastforce
  obtain err j2 w2 where 2: "seal_step j1 w1 = (err, j2, w2)" by (metis prod.exhaust)
  obtain ce w3 where 3: "je_Close E w2 = (ce, w3)" by fastforce
  obtain j4 w4 where 4: "after_seal E (j2\<lparr>j_closed := True, j_failed := err @ ce\<rparr>) w3 = (j4, w4)" by fastforce
  have "(e, j', w') = (j_failed j4, j4, case je_onClosed E of None \<Rightarrow> w4 | Some f \<Rightarrow> f (j_failed j4) w4)"
    using assms 1 2 3 4 by (auto simp: Journal_Close_def seal_step_def Let_def)
  then show thesis using that [OF 1 2 3] 4 on_closed_log by auto
qed

lemma Close_jinv:
  assumes inv: "jinv E logf base rs j w" and c: "Journal_Close E j w = (e, j', w')"
  shows "\<exists>rs'. jinv E logf base rs' j' w' \<and> prefix rs rs'"
proof (cases "j_closed j")
  case True
  with c inv show ?thesis by (auto simp: Journal_Close_def)
next
  case False
  from c False show ?thesis
  proof (rule Close_steps)
    fix j1 w1 err j2 w2 ce w3 j4 w4
    assume s: "before_seal E j w = (j1, w1)" "seal_step j1 w1 = (err, j2, w2)" "je_Close E w2 = (ce, w3)"
      "after_seal E (j2\<lparr>j_closed := True, j_failed := err @ ce\<rparr>) w3 = (j', w4)" "logf w' = logf w4"
    from seal_step_jlog [OF before_seal_jinv(1) [OF inv s(1)] s(2)] obtain rs'
      where r: "jlog E logf base rs' j2 w2" "prefix rs rs'" "err = [] \<longrightarrow> j_failed j2 = []" by blast
    have l: "logf w' = logf w2" using s(3,5) after_seal_log(1) [OF s(4)] close_log by simp
    have "jinv E logf base rs' j' w'"
      using r(1,3) l after_seal_log(2-) [OF s(4)] by (fastforce simp: jinv_def jlog_def)
    with r(2) show ?thesis by blast
  qed
qed

lemma journal_do_jinv:
  assumes "jinv E logf base rs j w" "op_typed x" "journal_do E x (j, w) = (j', w')"
  shows "\<exists>rs'. jinv E logf base rs' j' w' \<and> prefix rs rs'"
proof (cases x)
  case (JObserve tx rx)
  obtain e where "Observe E tx rx j w = (e, j', w')"
    using assms(3) JObserve by (auto simp: journal_do_def snd_conv_Pair)
  with Observe_jinv [OF assms(1)] assms(2) JObserve show ?thesis by (auto simp: op_typed_def)
next
  case (JGap reason)
  obtain e where "Gap E reason j w = (e, j', w')"
    using assms(3) JGap by (auto simp: journal_do_def snd_conv_Pair)
  with Gap_jinv [OF assms(1)] show ?thesis by blast
next
  case JClose
  obtain e where "Journal_Close E j w = (e, j', w')"
    using assms(3) JClose by (auto simp: journal_do_def snd_conv_Pair)
  with Close_jinv [OF assms(1)] show ?thesis by blast
qed

lemma journal_run_jinv:
  assumes "jinv E logf base rs j w" "list_all op_typed xs" "journal_run E xs (j, w) = (j', w')"
  shows "\<exists>rs'. jinv E logf base rs' j' w' \<and> prefix rs rs'"
  using assms
proof (induction xs arbitrary: rs j w)
  case Nil
  then show ?case by (auto simp: journal_run_def)
next
  case (Cons x xs)
  obtain j1 w1 where 1: "journal_do E x (j, w) = (j1, w1)" by fastforce
  from Cons.prems(2) have "op_typed x" by simp
  from journal_do_jinv [OF Cons.prems(1) this 1] obtain rs1
    where r: "jinv E logf base rs1 j1 w1" "prefix rs rs1" by blast
  have "journal_run E xs (j1, w1) = (j', w')" using Cons.prems(3) 1 by (simp add: journal_run_def)
  from Cons.IH [OF r(1) _ this] Cons.prems(2) r(2) show ?case
    by (auto intro: prefix_order.trans)
qed

lemma start_journal_jinv:
  assumes "start_journal E sandboxID ident w = ([], j, w')"
  shows "jinv E logf (logf w) [j_last j] j w'" "r_SandboxID (j_last j) = sandboxID"
    "r_Incarnation (j_last j) = ident" "r_Valid (j_last j)" "\<not> j_correlated j" "\<not> j_closed j" "j_failed j = []"
    "j_workload j = None"
proof -
  let ?r0 = "(initial_record sandboxID ident)\<lparr>r_Kind := ''start''\<rparr>"
  let ?j0 = "new_journal (initial_record sandboxID ident)"
  have "journal_append E ?r0 ?j0 w = ([], j, w')"
    using assms by (simp add: start_journal_def Let_def new_journal_def)
  from append_ok(5) [OF this] obtain now w1 where a: "je_now E w = (now, w1)"
    "write_record E (stamp E ?j0 now ?r0) w1 = ([], w')"
    "j = (set_reference (stamp E ?j0 now ?r0) (?j0\<lparr>j_last := stamp E ?j0 now ?r0\<rparr>))\<lparr>j_lastAt := now\<rparr>" by blast
  have s: "start_record (stamp E ?j0 now ?r0)"
    by (simp add: start_record_def initial_record_def)
  have "logf w' = logf w @ line E (stamp E ?j0 now ?r0)"
    using write_record_log(1) [OF a(2)] now_log [OF a(1)] by simp
  with s a(3) show "jinv E logf (logf w) [j_last j] j w'"
    by (auto simp: jinv_def jlog_def record_chain_def initial_record_def)
  show "r_SandboxID (j_last j) = sandboxID" "r_Incarnation (j_last j) = ident" "r_Valid (j_last j)"
    "\<not> j_correlated j" "\<not> j_closed j" "j_failed j = []" "j_workload j = None"
    using a(3) by (simp_all add: initial_record_def new_journal_def stamp_def Let_def)
qed

lemma failed_latched_do:
  assumes "j_failed j \<noteq> []" "journal_do E x (j, w) = (j', w')" "jinv E logf base rs j w"
  shows "j_failed j' \<noteq> []" "logf w' = logf w"
proof -
  have "j_failed j' \<noteq> [] \<and> logf w' = logf w"
  proof (cases x)
    case JClose
    show ?thesis
    proof (cases "j_closed j")
      case True
      with assms JClose show ?thesis by (auto simp: journal_do_def Journal_Close_def)
    next
      case False
      obtain e where "Journal_Close E j w = (e, j', w')"
        using assms(2) JClose by (auto simp: journal_do_def snd_conv_Pair)
      from this False show ?thesis
      proof (rule Close_steps)
        fix j1 w1 err j2 w2 ce w3 j4 w4
        assume s: "before_seal E j w = (j1, w1)" "seal_step j1 w1 = (err, j2, w2)" "je_Close E w2 = (ce, w3)"
          "after_seal E (j2\<lparr>j_closed := True, j_failed := err @ ce\<rparr>) w3 = (j', w4)" "logf w' = logf w4"
        note b = before_seal_jinv [OF assms(3) s(1)]
        from seal_step_jlog [OF b(1) s(2)] b(2) assms(1) have "err \<noteq> []" "logf w2 = logf w1" by auto
        with s(5) b(4) after_seal_log [OF s(4)] close_log [OF s(3)] show ?thesis by auto
      qed
    qed
  qed (use assms in \<open>auto simp: journal_do_def Observe_def Gap_def journal_next_def append_failed Let_def
         split: if_splits\<close>)
  then show "j_failed j' \<noteq> []" "logf w' = logf w" by simp_all
qed

lemma failed_latched_run:
  assumes "j_failed j \<noteq> []" "journal_run E xs (j, w) = (j', w')" "jinv E logf base rs j w" "list_all op_typed xs"
  shows "j_failed j' \<noteq> [] \<and> logf w' = logf w"
  using assms
proof (induction xs arbitrary: j w rs)
  case Nil
  then show ?case by (simp add: journal_run_def)
next
  case (Cons x xs)
  obtain j1 w1 where 1: "journal_do E x (j, w) = (j1, w1)" by fastforce
  from Cons.prems(4) have "op_typed x" by simp
  from journal_do_jinv [OF Cons.prems(3) this 1] obtain rs1 where r: "jinv E logf base rs1 j1 w1" by blast
  have "journal_run E xs (j1, w1) = (j', w')" using Cons.prems(2) 1 by (simp add: journal_run_def)
  with Cons.IH [OF _ this r] failed_latched_do [OF Cons.prems(1) 1 Cons.prems(3)] Cons.prems(4) show ?case by auto
qed

end

section \<open>A plain file\<close>

text \<open>An \<open>os.File\<close>: its bytes, and what the operating system will answer to the next calls. A
  write may be short or fail after part of the bytes; an exhausted list stands for success.\<close>

record os_file =
  of_data :: bytes
  of_writes :: "(nat \<times> gerr) list"
  of_syncs :: "gerr list"
  of_close :: gerr
  of_clock :: "int list"

definition os_write :: "bytes \<Rightarrow> os_file \<Rightarrow> (int \<times> gerr) \<times> os_file" where
  "os_write p w =
     (case of_writes w of
        [] \<Rightarrow> ((int (length p), []), w\<lparr>of_data := of_data w @ p\<rparr>)
      | (n, e) # fs \<Rightarrow>
          ((int (min n (length p)), e), w\<lparr>of_data := of_data w @ take n p, of_writes := fs\<rparr>))"

definition os_sync :: "os_file \<Rightarrow> gerr \<times> os_file" where
  "os_sync w = (case of_syncs w of [] \<Rightarrow> ([], w) | e # es \<Rightarrow> (e, w\<lparr>of_syncs := es\<rparr>))"

definition os_now :: "os_file \<Rightarrow> int \<times> os_file" where
  "os_now w = (case of_clock w of [] \<Rightarrow> (1, w) | t # ts \<Rightarrow> (t, w\<lparr>of_clock := ts\<rparr>))"

definition os_env :: "jstd \<Rightarrow> os_file jenv" where
  "os_env L = \<lparr>je_lib = L, je_now = os_now, je_Write = os_write, je_Sync = os_sync,
     je_Close = (\<lambda>w. (of_close w, w)), je_beforeSeal = None, je_afterSeal = None, je_onClosed = None\<rparr>"

interpretation os: durable_log "os_env L" of_data for L
  by unfold_locales
    (auto simp: os_env_def os_now_def os_write_def os_sync_def min_def split: list.splits prod.splits if_splits)

lemma Open_Some:
  assumes "Open E io directory sandboxID ident w = (Inr (Some j), w')"
  shows "start_journal E sandboxID ident w = ([], j, w')"
  using assms by (auto simp: Open_def Let_def split: if_splits prod.splits)

text \<open>(C23) The journal file is one chain of records, whatever the file answers: for every
  sequence of observations, gaps and closes after a successful \<open>Open\<close> of an empty file, with
  any faults of the file and any clock, the file holds one line per record of a chain, followed
  by the beginning of one more line only if the journal has failed. In the chain the \<open>i\<close>-th record has
  sequence number \<open>i\<close>, its totals are the exact sums of the deltas so far (no wrap-around), validity
  once lost is never regained, nothing follows a \<open>closed\<close> record, and the last record is the one
  the journal continues from.\<close>

theorem journal_file_is_chain:
  assumes "Open (os_env L) io directory sandboxID ident w = (Inr (Some j), w1)" "of_data w = []"
    and "list_all op_typed xs" "journal_run (os_env L) xs (j, w1) = (j', w')"
  shows "\<exists>rs torn r.
    of_data w' = concat (map (line (os_env L)) rs) @ torn \<and>
    prefix torn (line (os_env L) r) \<and> (j_failed j' = [] \<longrightarrow> torn = []) \<and>
    rs \<noteq> [] \<and> start_record (hd rs) \<and> last rs = j_last j' \<and>
    (\<forall>i < length rs. r_Sequence (rs ! i) = int i \<and>
       r_TxBytes (rs ! i) = (\<Sum>q\<leftarrow>take (Suc i) rs. r_DeltaTxBytes q) \<and>
       r_RxBytes (rs ! i) = (\<Sum>q\<leftarrow>take (Suc i) rs. r_DeltaRxBytes q)) \<and>
    (\<forall>i < length rs. r_Valid (rs ! i) \<longrightarrow> (\<forall>k \<le> i. r_Valid (rs ! k))) \<and>
    (\<forall>i < length rs. r_Kind (rs ! i) = ''closed'' \<longrightarrow> i = length rs - 1)"
proof -
  have "jinv (os_env L) of_data [] [j_last j] j w1"
    using os.start_journal_jinv(1) [OF Open_Some [OF assms(1)]] assms(2) by simp
  from os.journal_run_jinv [OF this assms(3,4)] obtain rs where i: "jinv (os_env L) of_data [] rs j' w'"
    by blast
  then have c: "record_chain rs" and l: "last rs = j_last j'"
    and t: "\<exists>torn r. of_data w' = concat (map (line (os_env L)) rs) @ torn \<and>
      prefix torn (line (os_env L) r) \<and> (j_failed j' = [] \<longrightarrow> torn = [])"
    by (auto simp: jinv_def jlog_def)
  note n = record_chain_nth [OF c] and v = record_chain_valid [OF c] and k = record_chain_closed_last [OF c]
  show ?thesis
  proof -
    from t obtain torn r where d: "of_data w' = concat (map (line (os_env L)) rs) @ torn"
      "prefix torn (line (os_env L) r)" "j_failed j' = [] \<longrightarrow> torn = []" by blast
    have "rs \<noteq> []" "start_record (hd rs)" using c by (auto simp: record_chain_def)
    with d l n v k show ?thesis by (intro exI [of _ rs] exI [of _ torn] exI [of _ r]) blast
  qed
qed

text \<open>A failure is latched: once a write or sync has failed, or the sequence is exhausted, no
  later operation writes a byte, and the journal stays failed.\<close>

theorem journal_failure_latched:
  assumes "Open (os_env L) io directory sandboxID ident w = (Inr (Some j), w1)"
    and "list_all op_typed xs" "journal_run (os_env L) xs (j, w1) = (j2, w2)" "j_failed j2 \<noteq> []"
    and "list_all op_typed ys" "journal_run (os_env L) ys (j2, w2) = (j3, w3)"
  shows "j_failed j3 \<noteq> [] \<and> of_data w3 = of_data w2"
proof -
  have "jinv (os_env L) of_data (of_data w) [j_last j] j w1"
    by (rule os.start_journal_jinv(1) [OF Open_Some [OF assms(1)]])
  from os.journal_run_jinv [OF this assms(2,3)] obtain rs
    where "jinv (os_env L) of_data (of_data w) rs j2 w2" by blast
  from os.failed_latched_run [OF assms(4,6) this assms(5)] show ?thesis .
qed

text \<open>A library that encodes a record as its sequence number, for the concrete runs.\<close>

definition demo_lib :: jstd where
  "demo_lib = \<lparr>json_parse = (\<lambda>_. None), utf8_valid = (\<lambda>_. True), sha256hex = (\<lambda>_. ''''),
     fmt_time = (\<lambda>_. ''''), parse_time = (\<lambda>_. Some 1),
     marshal = (\<lambda>r. Some [word_of_int (r_Sequence r)]),
     b64_encode = (\<lambda>b. map (\<lambda>x. char_of (unat x)) b), b64_decode = (\<lambda>s. Some (map (\<lambda>c. word_of_nat (of_char c)) s))\<rparr>"

definition demo_file :: os_file where
  "demo_file = \<lparr>of_data = [], of_writes = [(2, []), (2, []), (1, [Err ''disk full''])], of_syncs = [],
     of_close = [], of_clock = [5, 6, 7]\<rparr>"

definition demo_io :: open_io where
  "demo_io = \<lparr>oi_openDir = [], oi_create = [], oi_syncDir = []\<rparr>"

definition demo_opened :: "Journal \<times> os_file" where
  "demo_opened = (case Open (os_env demo_lib) demo_io ''/j'' ''sbx'' ''inc'' demo_file of
     (Inr (Some j), w) \<Rightarrow> (j, w) | (_, w) \<Rightarrow> (new_journal (initial_record '''' ''''), w))"

lemma demo_opened: "Open (os_env demo_lib) demo_io ''/j'' ''sbx'' ''inc'' demo_file =
    (Inr (Some (fst demo_opened)), snd demo_opened)"
  by code_simp

theorem journal_file_is_chain_witness:
  "\<exists>rs torn. [0, 10, 1, 10, 2] = concat (map (line (os_env demo_lib)) rs) @ torn \<and>
    length rs = 2 \<and> r_TxBytes (rs ! 1) = 5"
proof -
  let ?xs = "[JObserve 5 6, JObserve 1 1, JClose]"
  let ?s = "journal_run (os_env demo_lib) ?xs demo_opened"
  have d: "of_data (snd ?s) = [0, 10, 1, 10, 2]" "r_Sequence (j_last (fst ?s)) = 1" "r_TxBytes (j_last (fst ?s)) = 5"
    by code_simp+
  have t: "list_all op_typed ?xs" by (simp add: op_typed_def u64_ok_def max_u64_def)
  have z: "of_data demo_file = []" by (simp add: demo_file_def)
  have r: "journal_run (os_env demo_lib) ?xs (fst demo_opened, snd demo_opened) = (fst ?s, snd ?s)" by simp
  from journal_file_is_chain [OF demo_opened z t r] show ?thesis
  proof (elim exE conjE)
    fix rs torn q
    assume c: "of_data (snd ?s) = concat (map (line (os_env demo_lib)) rs) @ torn" "rs \<noteq> []" "last rs = j_last (fst ?s)"
      and q: "\<forall>i < length rs. r_Sequence (rs ! i) = int i \<and>
         r_TxBytes (rs ! i) = (\<Sum>q\<leftarrow>take (Suc i) rs. r_DeltaTxBytes q) \<and>
         r_RxBytes (rs ! i) = (\<Sum>q\<leftarrow>take (Suc i) rs. r_DeltaRxBytes q)"
    have n: "last rs = rs ! (length rs - 1)" using c(2) by (simp add: last_conv_nth)
    have "r_Sequence (rs ! (length rs - 1)) = int (length rs - 1)" using c(2) q by simp
    with n c(2,3) d(2) have "length rs = 2" by (cases rs) simp_all
    with n c d(1,3) show ?thesis by (intro exI [of _ rs] exI [of _ torn]) simp
  qed
qed

theorem journal_failure_latched_witness:
  "of_data (snd (journal_run (os_env demo_lib) [JObserve 5 6, JObserve 1 1, JGap ''x'', JClose] demo_opened)) =
   of_data (snd (journal_run (os_env demo_lib) [JObserve 5 6, JObserve 1 1] demo_opened))"
proof -
  let ?xs = "[JObserve 5 6, JObserve 1 1]" and ?ys = "[JGap ''x'', JClose]"
  let ?s = "journal_run (os_env demo_lib) ?xs demo_opened"
  let ?t = "journal_run (os_env demo_lib) ?ys ?s"
  have t: "list_all op_typed ?xs" "list_all op_typed ?ys" by (simp_all add: op_typed_def u64_ok_def max_u64_def)
  have f: "j_failed (fst ?s) \<noteq> []" by code_simp
  have "of_data (snd ?t) = of_data (snd ?s)"
    using journal_failure_latched [OF demo_opened t(1) _ f t(2), of "snd ?s" "fst ?t" "snd ?t"] by simp
  then show ?thesis by (simp add: journal_run_def)
qed

end
