(* ===== verification/Correlator.thy ===== *)
theory Correlator
  imports Journal
begin

text \<open>
  The correlator of the network usage accounting (\<open>networkusage/correlation.go\<close>). It owns a
  journal, keeps one requested flush in flight, and records the frames of the producer and the
  receipts of its API. A request whose frame and receipt agree becomes a fence. Both mutexes
  of the code are held for the whole of each method, so a method is one function of the state.
\<close>

section \<open>State\<close>

record DurableFence =
  df_Request :: ProducerRequest
  df_Header :: ProducerHeader
  df_Scope :: string
  df_Cutoff :: string
  df_FrameSequence :: int
  df_CorrelationSequence :: int
  df_FrameSHA256 :: string
  df_FrameBytes :: int

record pendingRequest =
  q_request :: ProducerRequest
  q_scope :: string
  q_frame :: "ProducerHeader option"
  q_cutoff :: string
  q_frameSequence :: int
  q_frameSHA256 :: string
  q_frameBytes :: int
  q_receipt :: "ProducerReceipt option"
  q_rawReceipt :: "bytes option"

definition new_pending :: "ProducerRequest \<Rightarrow> string \<Rightarrow> pendingRequest" where
  "new_pending req scope = \<lparr>q_request = req, q_scope = scope, q_frame = None, q_cutoff = '''',
     q_frameSequence = 0, q_frameSHA256 = '''', q_frameBytes = 0, q_receipt = None, q_rawReceipt = None\<rparr>"

record Correlator =
  c_journal :: Journal
  c_incarnation :: string
  c_attempt :: int
  c_requestSequence :: int
  c_baseline :: bool
  c_preboot :: bool
  c_activity :: bool
  c_pending :: "pendingRequest option"
  c_last :: "DurableFence option"
  c_failed :: gerr
  c_closed :: bool

section \<open>Operations\<close>

definition NewCorrelator :: "'w jenv \<Rightarrow> Journal \<Rightarrow> string \<Rightarrow> 'w \<Rightarrow> (gerr + Correlator) \<times> Journal \<times> 'w" where
  "NewCorrelator E j incarnation w =
     (if \<not> tokenOK incarnation
      then (Inl [Err ''correlation requires enabled journal and valid incarnation''], j, w)
      else if j_correlated j \<or> j_closed j \<or> j_failed j \<noteq> [] \<or> r_Sequence (j_last j) \<noteq> 0
      then (Inl [Err ''correlation requires fresh available journal''], j, w)
      else let j = j\<lparr>j_correlated := True\<rparr> in
        case journal_next ''producer_binding'' j of
          (Inl e, j) \<Rightarrow> (Inl e, j, w)
        | (Inr r, j) \<Rightarrow>
            let (e, j, w) = journal_append E (r\<lparr>r_Producer := Some (evidence incarnation)\<rparr>) j w in
            if e \<noteq> [] then (Inl e, j, w)
            else if \<not> r_Valid (j_last j) then (Inl [Err ''invalid journal binding''], j, w)
            else (Inr \<lparr>c_journal = j, c_incarnation = incarnation, c_attempt = 0, c_requestSequence = 0,
                       c_baseline = False, c_preboot = False, c_activity = False, c_pending = None,
                       c_last = None, c_failed = [], c_closed = False\<rparr>, j, w))"

definition available :: "Correlator \<Rightarrow> gerr \<times> Correlator" where
  "available c =
     (if c_failed c \<noteq> [] then (c_failed c, c)
      else if c_closed c then ([Err ''producer correlator closed''], c)
      else let j = c_journal c in
        if j_failed j \<noteq> [] \<or> j_closed j \<or> \<not> r_Valid (j_last j)
        then let e = Err ''producer journal unavailable or invalid'' # j_failed j
             in (e, c\<lparr>c_failed := e\<rparr>)
        else ([], c))"

definition count_record :: "int \<Rightarrow> int \<Rightarrow> Record \<Rightarrow> Record" where
  "count_record tx rx r =
     (if counter_overflow tx rx r then overflow_gap r else add_counters tx rx r)"

definition persist :: "'w jenv \<Rightarrow> string \<Rightarrow> ProducerEvidence \<Rightarrow> int \<Rightarrow> int \<Rightarrow> bool \<Rightarrow> Correlator \<Rightarrow> 'w \<Rightarrow> (gerr + int) \<times> Correlator \<times> 'w" where
  "persist E kind ev tx rx counted c w =
     (case journal_next kind (c_journal c) of
        (Inl e, j) \<Rightarrow> (Inl e, c\<lparr>c_journal := j, c_failed := e\<rparr>, w)
      | (Inr r, j) \<Rightarrow>
          let r = r\<lparr>r_Producer := Some ev\<rparr>;
              r = (if counted then count_record tx rx r else r);
              (e, j, w) = journal_append E r j w
          in if e \<noteq> [] then (Inl e, c\<lparr>c_journal := j, c_failed := e\<rparr>, w)
             else if \<not> r_Valid (j_last j)
             then let e = [Err ''producer journal invalid''] in (Inl e, c\<lparr>c_journal := j, c_failed := e\<rparr>, w)
             else (Inr (r_Sequence r), c\<lparr>c_journal := j\<rparr>, w))"

definition fail_evidence :: "jstd \<Rightarrow> string \<Rightarrow> bytes option \<Rightarrow> ProducerEvidence" where
  "fail_evidence L inc raw =
     (let b = (case raw of None \<Rightarrow> [] | Some x \<Rightarrow> x);
          ev = (evidence inc)\<lparr>pe_Bytes := int (length b)\<rparr>
      in if int (length b) \<le> MaxProducerFrameBytes
         then ev\<lparr>pe_Raw := raw, pe_SHA256 := sha256hex L b\<rparr> else ev)"

definition correlator_fail :: "'w jenv \<Rightarrow> string \<Rightarrow> bytes option \<Rightarrow> Correlator \<Rightarrow> 'w \<Rightarrow> gerr \<times> Correlator \<times> 'w" where
  "correlator_fail E reason raw c w =
     (let (e, j, w) = (case journal_next ''gap'' (c_journal c) of
            (Inl e, j) \<Rightarrow> (e, j, w)
          | (Inr r, j) \<Rightarrow>
              journal_append E (r\<lparr>r_Valid := False, r_Reason := reason,
                r_Producer := Some (fail_evidence (je_lib E) (c_incarnation c) raw)\<rparr>) j w);
          f = Err reason # e
      in (f, c\<lparr>c_journal := j, c_failed := f\<rparr>, w))"

definition is_scope :: "string \<Rightarrow> bool" where
  "is_scope s \<longleftrightarrow> s = BaselineScope \<or> s = SampleScope \<or> s = TerminalScope"

text \<open>The request that \<open>Begin\<close> repeats: the latest one, when it has this identity and scope.\<close>

definition repeated :: "string \<Rightarrow> string \<Rightarrow> Correlator \<Rightarrow> ProducerRequest option" where
  "repeated ident scope c =
     (case c_last c of
        None \<Rightarrow> None
      | Some f \<Rightarrow> if pr_ID (df_Request f) = ident \<and> df_Scope f = scope then Some (df_Request f) else None)"

definition last_terminal :: "Correlator \<Rightarrow> bool" where
  "last_terminal c \<longleftrightarrow> (case c_last c of None \<Rightarrow> False | Some f \<Rightarrow> df_Scope f = TerminalScope)"

text \<open>The part of \<open>Begin\<close> that starts a new request.\<close>

definition begin_new :: "'w jenv \<Rightarrow> string \<Rightarrow> string \<Rightarrow> Correlator \<Rightarrow> 'w \<Rightarrow> (gerr + ProducerRequest) \<times> Correlator \<times> 'w" where
  "begin_new E ident scope c w =
     (let req = \<lparr>pr_Incarnation = c_incarnation c, pr_Sequence = u64 (c_requestSequence c + 1), pr_ID = ident\<rparr> in
      case persist E ''producer_request''
             ((evidence (c_incarnation c))\<lparr>pe_Request := Some req, pe_Scope := scope\<rparr>) 0 0 False c w of
        (Inl e, c, w) \<Rightarrow> (Inl e, c, w)
      | (Inr _, c, w) \<Rightarrow>
          (Inr req, c\<lparr>c_preboot := c_preboot c \<or> scope = BaselineScope, c_requestSequence := pr_Sequence req,
                      c_pending := Some (new_pending req scope)\<rparr>, w))"

definition Begin :: "'w jenv \<Rightarrow> string \<Rightarrow> string \<Rightarrow> Correlator \<Rightarrow> 'w \<Rightarrow> (gerr + ProducerRequest) \<times> Correlator \<times> 'w" where
  "Begin E ident scope c w =
     (let (e, c) = available c in
      if e \<noteq> [] then (Inl e, c, w)
      else if \<not> tokenOK ident \<or> \<not> is_scope scope then (Inl [Err ''invalid producer request''], c, w)
      else case c_pending c of
        Some p \<Rightarrow>
          if pr_ID (q_request p) = ident \<and> q_scope p = scope then (Inr (q_request p), c, w)
          else (Inl [Err ''producer request already pending''], c, w)
      | None \<Rightarrow>
          (case repeated ident scope c of
             Some req \<Rightarrow> (Inr req, c, w)
           | None \<Rightarrow>
               if last_terminal c then (Inl [Err ''producer already terminal''], c, w)
               else if (\<not> c_baseline c \<and> scope \<noteq> BaselineScope) \<or> (c_baseline c \<and> scope = BaselineScope)
               then (Inl [Err ''baseline must precede device requests''], c, w)
               else if scope \<noteq> BaselineScope \<and> \<not> c_activity c
               then (Inl [Err ''activity intent required before device requests''], c, w)
               else if c_requestSequence c = max_u64
               then let (e, c, w) = correlator_fail E ''request_sequence_overflow'' None c w in (Inl e, c, w)
               else begin_new E ident scope c w))"

definition BeginActivity :: "'w jenv \<Rightarrow> Correlator \<Rightarrow> 'w \<Rightarrow> gerr \<times> Correlator \<times> 'w" where
  "BeginActivity E c w =
     (let (e, c) = available c in
      if e \<noteq> [] then (e, c, w)
      else if last_terminal c \<or> (case c_pending c of None \<Rightarrow> False | Some p \<Rightarrow> q_scope p = TerminalScope)
      then ([Err ''terminal request prohibits activity authorization''], c, w)
      else if c_activity c then ([], c, w)
      else if \<not> c_baseline c \<or> c_pending c \<noteq> None
      then ([Err ''matched baseline required before activity''], c, w)
      else case persist E ''producer_activity_intent''
                  ((evidence (c_incarnation c))\<lparr>pe_Scope := SampleScope\<rparr>) 0 0 False c w of
        (Inl e, c, w) \<Rightarrow> (e, c, w)
      | (Inr _, c, w) \<Rightarrow> ([], c\<lparr>c_activity := True\<rparr>, w))"

text \<open>\<open>match\<close> persists a correlation when the frame and the receipt of the pending request are
  both there.\<close>

definition match_evidence :: "'w jenv \<Rightarrow> Correlator \<Rightarrow> pendingRequest \<Rightarrow> ProducerHeader \<Rightarrow> ProducerEvidence" where
  "match_evidence E c p h =
     (let raw = (case q_rawReceipt p of None \<Rightarrow> [] | Some x \<Rightarrow> x) in
      \<lparr>pe_Incarnation = c_incarnation c, pe_Request = Some (q_request p), pe_Header = Some h,
       pe_Scope = q_scope p, pe_NetworkScope = '''', pe_Cutoff = q_cutoff p, pe_Raw = q_rawReceipt p,
       pe_SHA256 = sha256hex (je_lib E) raw, pe_Bytes = int (length raw),
       pe_FrameSequence = q_frameSequence p, pe_FrameSHA256 = q_frameSHA256 p,
       pe_FrameBytes = q_frameBytes p\<rparr>)"

definition match_fence :: "pendingRequest \<Rightarrow> ProducerHeader \<Rightarrow> int \<Rightarrow> DurableFence" where
  "match_fence p h seq =
     \<lparr>df_Request = q_request p, df_Header = h, df_Scope = q_scope p, df_Cutoff = q_cutoff p,
      df_FrameSequence = q_frameSequence p, df_CorrelationSequence = seq,
      df_FrameSHA256 = q_frameSHA256 p, df_FrameBytes = q_frameBytes p\<rparr>"

definition match :: "'w jenv \<Rightarrow> Correlator \<Rightarrow> 'w \<Rightarrow> gerr \<times> Correlator \<times> 'w" where
  "match E c w =
     (case c_pending c of
        None \<Rightarrow> ([], c, w)
      | Some p \<Rightarrow>
          (case (q_frame p, q_receipt p) of
             (Some h, Some rc) \<Rightarrow>
               if \<not> headersEqual h (pc_Header rc) \<or> q_cutoff p \<noteq> pc_Cutoff rc
               then correlator_fail E ''producer_frame_receipt_mismatch'' None c w
               else (case persist E ''producer_correlation'' (match_evidence E c p h) 0 0 False c w of
                   (Inl e, c, w) \<Rightarrow> (e, c, w)
                 | (Inr seq, c, w) \<Rightarrow>
                     ([], c\<lparr>c_last := Some (match_fence p h seq),
                            c_baseline := c_baseline c \<or> q_scope p = BaselineScope, c_pending := None\<rparr>, w))
           | _ \<Rightarrow> ([], c, w)))"

text \<open>The checks of \<open>ObserveFrame\<close> on a decoded frame, in the order of the code: the reason of
  the gap, or the network scope and the request scope under which it is recorded.\<close>

definition terminal_frame_seen :: "Correlator \<Rightarrow> bool" where
  "terminal_frame_seen c \<longleftrightarrow>
     last_terminal c \<or>
     (case c_pending c of None \<Rightarrow> False | Some p \<Rightarrow> q_scope p = TerminalScope \<and> q_frame p \<noteq> None)"

definition network_scope :: "Correlator \<Rightarrow> ProducerFrame \<Rightarrow> string + string" where
  "network_scope c f =
     (if \<not> pf_DeviceMetricsPresent f then
        if \<not> c_preboot c \<or> c_activity c \<or> pf_Tx f \<noteq> 0 \<or> pf_Rx f \<noteq> 0 then Inl ''missing_device_metrics''
        else Inr ''preboot_no_devices''
      else if \<not> pf_NetworkPresent f then Inl ''missing_network_counters''
      else Inr ''device_aggregate'')"

definition frame_scope :: "Correlator \<Rightarrow> ProducerFrame \<Rightarrow> string + string" where
  "frame_scope c f =
     (case ph_RequestID (pf_Header f) of
        None \<Rightarrow> if pf_Cutoff f \<noteq> '''' then Inl ''unexpected_terminal_frame'' else Inr ''''
      | Some i \<Rightarrow>
          (case c_pending c of
             None \<Rightarrow> Inl ''unexpected_requested_frame''
           | Some p \<Rightarrow>
               if q_frame p \<noteq> None \<or> i \<noteq> pr_ID (q_request p) \<or>
                  the (ph_RequestSequence (pf_Header f)) \<noteq> pr_Sequence (q_request p)
               then Inl ''unexpected_requested_frame''
               else if (q_scope p = TerminalScope) \<noteq> (pf_Cutoff f = TerminalCutoff)
               then Inl ''terminal_frame_scope_mismatch''
               else if pf_Cutoff f \<noteq> '''' \<and> q_scope p \<noteq> TerminalScope then Inl ''unexpected_terminal_frame''
               else Inr (q_scope p)))"

definition check_frame :: "Correlator \<Rightarrow> ProducerFrame \<Rightarrow> string + (string \<times> string)" where
  "check_frame c f =
     (if ph_Incarnation (pf_Header f) \<noteq> c_incarnation c \<or> c_attempt c = max_u64 \<or>
         ph_Attempt (pf_Header f) \<noteq> u64 (c_attempt c + 1) then Inl ''producer_sequence_or_incarnation''
      else if ph_Loss (pf_Header f) then Inl ''producer_reported_loss''
      else if terminal_frame_seen c then Inl ''frame_after_terminal''
      else case network_scope c f of
        Inl e \<Rightarrow> Inl e
      | Inr ns \<Rightarrow> (case frame_scope c f of Inl e \<Rightarrow> Inl e | Inr s \<Rightarrow> Inr (ns, s)))"

definition frame_evidence :: "'w jenv \<Rightarrow> Correlator \<Rightarrow> ProducerFrame \<Rightarrow> bytes \<Rightarrow> string \<Rightarrow> string \<Rightarrow> ProducerEvidence" where
  "frame_evidence E c f raw ns scope =
     (evidence (c_incarnation c))\<lparr>pe_Header := Some (pf_Header f), pe_Scope := scope, pe_NetworkScope := ns,
       pe_Cutoff := pf_Cutoff f, pe_Raw := Some raw, pe_SHA256 := sha256hex (je_lib E) raw,
       pe_Bytes := int (length raw)\<rparr>"

text \<open>The pending request once its frame is recorded at a sequence number.\<close>

definition set_frame :: "'w jenv \<Rightarrow> ProducerFrame \<Rightarrow> bytes \<Rightarrow> int \<Rightarrow> pendingRequest \<Rightarrow> pendingRequest" where
  "set_frame E f raw seq p =
     p\<lparr>q_frame := Some (pf_Header f), q_cutoff := pf_Cutoff f, q_frameSequence := seq,
       q_frameSHA256 := sha256hex (je_lib E) raw, q_frameBytes := int (length raw)\<rparr>"

definition ObserveFrame :: "'w jenv \<Rightarrow> bytes \<Rightarrow> Correlator \<Rightarrow> 'w \<Rightarrow> gerr \<times> Correlator \<times> 'w" where
  "ObserveFrame E raw c w =
     (let (e, c) = available c in
      if e \<noteq> [] then (e, c, w)
      else if \<not> c_preboot c then correlator_fail E ''frame_before_baseline_intent'' (Some raw) c w
      else case DecodeProducerFrame (je_lib E) raw of
        Inl _ \<Rightarrow> correlator_fail E ''invalid_producer_frame'' (Some raw) c w
      | Inr f \<Rightarrow>
          (case check_frame c f of
             Inl reason \<Rightarrow> correlator_fail E reason (Some raw) c w
           | Inr (ns, scope) \<Rightarrow>
               (case persist E ''producer_frame'' (frame_evidence E c f raw ns scope)
                       (pf_Tx f) (pf_Rx f) (ns = ''device_aggregate'') c w of
                  (Inl e, c, w) \<Rightarrow> (e, c, w)
                | (Inr seq, c, w) \<Rightarrow>
                    let c = c\<lparr>c_attempt := ph_Attempt (pf_Header f)\<rparr> in
                    if ph_RequestID (pf_Header f) = None then ([], c, w)
                    else match E (c\<lparr>c_pending := map_option (set_frame E f raw seq) (c_pending c)\<rparr>) w)))"

definition ObserveReceipt :: "'w jenv \<Rightarrow> bytes \<Rightarrow> Correlator \<Rightarrow> 'w \<Rightarrow> gerr \<times> Correlator \<times> 'w" where
  "ObserveReceipt E raw c w =
     (let (e, c) = available c in
      if e \<noteq> [] then (e, c, w)
      else case c_pending c of
        None \<Rightarrow>
          (case c_last c of
             None \<Rightarrow> correlator_fail E ''unexpected_producer_receipt'' (Some raw) c w
           | Some f \<Rightarrow>
               (case DecodeProducerReceipt (je_lib E) raw (df_Scope f = TerminalScope) of
                  Inl _ \<Rightarrow> correlator_fail E ''unexpected_producer_receipt'' (Some raw) c w
                | Inr rc \<Rightarrow>
                    if headersEqual (pc_Header rc) (df_Header f) \<and> pc_Cutoff rc = df_Cutoff f then ([], c, w)
                    else correlator_fail E ''unexpected_producer_receipt'' (Some raw) c w))
      | Some p \<Rightarrow>
          (case DecodeProducerReceipt (je_lib E) raw (q_scope p = TerminalScope) of
             Inl _ \<Rightarrow> correlator_fail E ''invalid_producer_receipt'' (Some raw) c w
           | Inr rc \<Rightarrow>
               let h = pc_Header rc in
               if ph_Incarnation h \<noteq> c_incarnation c \<or> ph_Loss h \<or> the (ph_RequestID h) \<noteq> pr_ID (q_request p) \<or>
                  the (ph_RequestSequence h) \<noteq> pr_Sequence (q_request p)
               then correlator_fail E ''producer_receipt_identity_or_loss'' (Some raw) c w
               else if (case q_receipt p of None \<Rightarrow> False
                        | Some old \<Rightarrow> \<not> headersEqual (pc_Header old) h \<or> pc_Cutoff old \<noteq> pc_Cutoff rc)
               then correlator_fail E ''conflicting_producer_receipt'' (Some raw) c w
               else match E (c\<lparr>c_pending := Some (p\<lparr>q_receipt := Some rc, q_rawReceipt := Some raw\<rparr>)\<rparr>) w))"

definition Fence :: "Correlator \<Rightarrow> (gerr + DurableFence option) \<times> Correlator" where
  "Fence c =
     (let (e, c) = available c in
      if e \<noteq> [] then (Inl e, c)
      else if c_pending c \<noteq> None then (Inr None, c) else (Inr (c_last c), c))"

definition Correlator_Gap :: "'w jenv \<Rightarrow> string \<Rightarrow> Correlator \<Rightarrow> 'w \<Rightarrow> gerr \<times> Correlator \<times> 'w" where
  "Correlator_Gap E reason c w =
     (if length reason = 0 \<or> length reason > 80 then ([Err ''invalid gap reason''], c, w)
      else let (e, c) = available c in
        if e \<noteq> [] then (e, c, w) else correlator_fail E reason None c w)"

definition Correlator_Close :: "'w jenv \<Rightarrow> Correlator \<Rightarrow> 'w \<Rightarrow> gerr \<times> Correlator \<times> 'w" where
  "Correlator_Close E c w =
     (if c_closed c then (c_failed c, c, w)
      else let (c, w) = (if c_pending c \<noteq> None \<and> c_failed c = []
                         then snd (correlator_fail E ''unresolved_producer_request'' None c w) else (c, w));
               (e, j, w) = Journal_Close E (c_journal c) w;
               f = c_failed c @ e
           in (f, c\<lparr>c_closed := True, c_journal := j, c_failed := f\<rparr>, w))"

section \<open>Runs\<close>

datatype correlator_op =
    CBegin string string | CActivity | CFrame bytes | CReceipt bytes | CGap string | CClose

definition correlator_do :: "'w jenv \<Rightarrow> correlator_op \<Rightarrow> Correlator \<times> 'w \<Rightarrow> Correlator \<times> 'w" where
  "correlator_do E x s =
     (case x of
        CBegin ident scope \<Rightarrow> snd (Begin E ident scope (fst s) (snd s))
      | CActivity \<Rightarrow> snd (BeginActivity E (fst s) (snd s))
      | CFrame raw \<Rightarrow> snd (ObserveFrame E raw (fst s) (snd s))
      | CReceipt raw \<Rightarrow> snd (ObserveReceipt E raw (fst s) (snd s))
      | CGap reason \<Rightarrow> snd (Correlator_Gap E reason (fst s) (snd s))
      | CClose \<Rightarrow> snd (Correlator_Close E (fst s) (snd s)))"

definition correlator_run :: "'w jenv \<Rightarrow> correlator_op list \<Rightarrow> Correlator \<times> 'w \<Rightarrow> Correlator \<times> 'w" where
  "correlator_run E xs s = fold (correlator_do E) xs s"

section \<open>What the journal says about a fence\<close>

text \<open>The intent to send a request with this scope is in the journal, as the record with this number.\<close>

definition request_recorded :: "Record list \<Rightarrow> ProducerRequest \<Rightarrow> string \<Rightarrow> int \<Rightarrow> bool" where
  "request_recorded rs req scope seq \<longleftrightarrow>
     (\<exists>r \<in> set rs. \<exists>ev. r_Kind r = ''producer_request'' \<and> r_Sequence r = seq \<and> r_Valid r \<and> r_Producer r = Some ev \<and>
        pe_Request ev = Some req \<and> pe_Scope ev = scope)"

text \<open>The frame of a request is in the journal: its exact bytes, under its sequence number, decode
  to this header and cutoff, and have this hash and length.\<close>

definition frame_recorded :: "jstd \<Rightarrow> Record list \<Rightarrow> int \<Rightarrow> ProducerHeader \<Rightarrow> string \<Rightarrow> string \<Rightarrow> int \<Rightarrow> bool" where
  "frame_recorded L rs seq h cutoff sha n \<longleftrightarrow>
     (\<exists>r \<in> set rs. \<exists>ev raw f.
        r_Kind r = ''producer_frame'' \<and> r_Sequence r = seq \<and> r_Valid r \<and> r_Producer r = Some ev \<and>
        pe_Raw ev = Some raw \<and> DecodeProducerFrame L raw = Inr f \<and> pf_Header f = h \<and> pf_Cutoff f = cutoff \<and>
        sha = sha256hex L raw \<and> n = int (length raw))"

definition correlation_recorded :: "jstd \<Rightarrow> Record list \<Rightarrow> DurableFence \<Rightarrow> bool" where
  "correlation_recorded L rs f \<longleftrightarrow>
     (\<exists>r \<in> set rs. \<exists>ev raw rc.
        r_Kind r = ''producer_correlation'' \<and> r_Sequence r = df_CorrelationSequence f \<and> r_Valid r \<and>
        r_Producer r = Some ev \<and> pe_Request ev = Some (df_Request f) \<and> pe_Scope ev = df_Scope f \<and>
        pe_FrameSequence ev = df_FrameSequence f \<and> pe_FrameSHA256 ev = df_FrameSHA256 f \<and>
        pe_FrameBytes ev = df_FrameBytes f \<and>
        pe_Raw ev = Some raw \<and> DecodeProducerReceipt L raw (df_Scope f = TerminalScope) = Inr rc \<and>
        pc_Header rc = df_Header f \<and> pc_Cutoff rc = df_Cutoff f)"

definition for_request :: "ProducerHeader \<Rightarrow> ProducerRequest \<Rightarrow> bool" where
  "for_request h req \<longleftrightarrow> ph_RequestID h = Some (pr_ID req) \<and> ph_RequestSequence h = Some (pr_Sequence req)"

definition fence_recorded :: "jstd \<Rightarrow> Record list \<Rightarrow> DurableFence \<Rightarrow> bool" where
  "fence_recorded L rs f \<longleftrightarrow>
     (\<exists>seq. request_recorded rs (df_Request f) (df_Scope f) seq \<and> seq < df_FrameSequence f) \<and>
     frame_recorded L rs (df_FrameSequence f) (df_Header f) (df_Cutoff f) (df_FrameSHA256 f) (df_FrameBytes f) \<and>
     correlation_recorded L rs f \<and> for_request (df_Header f) (df_Request f) \<and>
     df_FrameSequence f < df_CorrelationSequence f"

definition pending_ok :: "jstd \<Rightarrow> Record list \<Rightarrow> pendingRequest \<Rightarrow> bool" where
  "pending_ok L rs p \<longleftrightarrow>
     (\<exists>seq. request_recorded rs (q_request p) (q_scope p) seq \<and> (q_frame p \<noteq> None \<longrightarrow> seq < q_frameSequence p)) \<and>
     (\<forall>h. q_frame p = Some h \<longrightarrow> header_ok h \<and> for_request h (q_request p) \<and>
        frame_recorded L rs (q_frameSequence p) h (q_cutoff p) (q_frameSHA256 p) (q_frameBytes p)) \<and>
     (\<forall>rc. q_receipt p = Some rc \<longrightarrow>
        (\<exists>raw. q_rawReceipt p = Some raw \<and> DecodeProducerReceipt L raw (q_scope p = TerminalScope) = Inr rc))"

definition cinv :: "'w jenv \<Rightarrow> ('w \<Rightarrow> bytes) \<Rightarrow> bytes \<Rightarrow> Record list \<Rightarrow> Correlator \<Rightarrow> 'w \<Rightarrow> bool" where
  "cinv E logf base rs c w \<longleftrightarrow>
     jinv E logf base rs (c_journal c) w \<and>
     (\<forall>p. c_pending c = Some p \<longrightarrow> pending_ok (je_lib E) rs p) \<and>
     (\<forall>f. c_last c = Some f \<longrightarrow> fence_recorded (je_lib E) rs f)"

lemma frame_recorded_mono: "frame_recorded L rs seq h c s n \<Longrightarrow> set rs \<subseteq> set rs' \<Longrightarrow> frame_recorded L rs' seq h c s n"
  unfolding frame_recorded_def by blast

lemma request_recorded_mono: "request_recorded rs req scope seq \<Longrightarrow> set rs \<subseteq> set rs' \<Longrightarrow> request_recorded rs' req scope seq"
  unfolding request_recorded_def by blast

lemma correlation_recorded_mono: "correlation_recorded L rs f \<Longrightarrow> set rs \<subseteq> set rs' \<Longrightarrow> correlation_recorded L rs' f"
  unfolding correlation_recorded_def by blast

lemma fence_recorded_mono: "fence_recorded L rs f \<Longrightarrow> set rs \<subseteq> set rs' \<Longrightarrow> fence_recorded L rs' f"
  unfolding fence_recorded_def using request_recorded_mono frame_recorded_mono correlation_recorded_mono by meson

lemma pending_ok_mono: "pending_ok L rs p \<Longrightarrow> set rs \<subseteq> set rs' \<Longrightarrow> pending_ok L rs' p"
  unfolding pending_ok_def using request_recorded_mono frame_recorded_mono by meson

lemma record_chain_seq:
  assumes "record_chain rs" "r \<in> set rs"
  shows "r_Sequence r < int (length rs)"
  using assms record_chain_nth(1) [OF assms(1)] by (auto simp: in_set_conv_nth)

lemma record_chain_last_seq: "record_chain rs \<Longrightarrow> r_Sequence (last rs) + 1 = int (length rs)"
  by (subst last_conv_nth) (auto simp: record_chain_nth(1) record_chain_def of_nat_diff Suc_leI)

lemma frame_recorded_seq:
  "record_chain rs \<Longrightarrow> frame_recorded L rs seq h c s n \<Longrightarrow> seq < int (length rs)"
  unfolding frame_recorded_def using record_chain_seq by blast

lemma request_recorded_seq:
  "record_chain rs \<Longrightarrow> request_recorded rs req scope seq \<Longrightarrow> seq < int (length rs)"
  unfolding request_recorded_def using record_chain_seq by blast

lemma available_ok: "available c = ([], c') \<Longrightarrow>
    c' = c \<and> c_failed c = [] \<and> \<not> c_closed c \<and> j_failed (c_journal c) = [] \<and> \<not> j_closed (c_journal c) \<and>
    r_Valid (j_last (c_journal c))"
  by (auto simp: available_def Let_def split: if_splits)

lemma available_cases: "available c = (e, c') \<Longrightarrow> \<exists>f. c' = c\<lparr>c_failed := f\<rparr>"
  by (auto simp: available_def Let_def split: if_splits intro: exI [of _ "c_failed c"])

section \<open>The journal under the correlator\<close>

context durable_log
begin

lemma persist_Inr:
  assumes inv: "jinv E logf base rs (c_journal c) w" and p: "persist E kind ev tx rx cnt c w = (Inr seq, c', w')"
    and k: "kind \<noteq> ''closed''" and u: "cnt \<Longrightarrow> u64_ok tx \<and> u64_ok rx"
  shows "\<exists>r j. jinv E logf base (rs @ [r]) j w' \<and> c' = c\<lparr>c_journal := j\<rparr> \<and> r_Kind r = kind \<and>
    r_Producer r = Some ev \<and> r_Sequence r = seq \<and> r_Valid r \<and> seq = int (length rs) \<and> j_last j = r"
proof -
  note t = jinv_typed [OF inv]
  obtain r1 where n1: "journal_next kind (c_journal c) = (Inr r1, c_journal c)"
  proof (cases "journal_next kind (c_journal c)")
    case (Pair res j)
    with p have "\<exists>r. res = Inr r" by (cases res) (auto simp: persist_def)
    then obtain r where "res = Inr r" by blast
    with Pair journal_next_Inr(1) [OF _ t] that show thesis by metis
  qed
  note n = journal_next_Inr [OF n1 t]
  define r2 where "r2 = r1\<lparr>r_Producer := Some ev\<rparr>"
  define r3 where "r3 = (if cnt then count_record tx rx r2 else r2)"
  obtain e j w1 where a: "journal_append E r3 (c_journal c) w = (e, j, w1)" by (metis prod.exhaust)
  from p n1 a have res: "e = []" "r_Valid (j_last j)" "seq = r_Sequence r3" "c' = c\<lparr>c_journal := j\<rparr>" "w' = w1"
    by (auto simp: persist_def r2_def r3_def Let_def split: if_splits)
  have x2: "rec_ext (j_last (c_journal c)) r2" unfolding r2_def by (rule rec_ext_producer [OF n(2)])
  have x3: "rec_ext (j_last (c_journal c)) r3"
    using x2 n(4,5) u unfolding r3_def count_record_def
    by (auto simp: r2_def intro!: rec_ext_overflow_gap rec_ext_add_counters(1))
  from append_jlog [OF inv x3 a] res(1) have jl: "jlog E logf base (rs @ [j_last j]) j w'" "r_Kind (j_last j) = r_Kind r3"
    using res(5) by auto
  from append_ok(5) [OF a [unfolded res(1)]] have st: "\<exists>now. j_last j = stamp E (c_journal c) now r3" by auto
  with res(2) have "r_Valid r3" using stamp_valid by auto
  then have r3: "r_Kind r3 = kind" "r_Producer r3 = Some ev"
    using n(3) by (auto simp: r3_def count_record_def r2_def overflow_gap_def add_counters_def split: if_splits)
  have "r_Sequence r3 = int (length rs)"
    using x3 inv record_chain_last_seq [of rs] by (auto simp: rec_ext_def jinv_def jlog_def)
  with st r3 jl res k show ?thesis
    by (intro exI [of _ "j_last j"] exI [of _ j]) (auto simp: jinv_def)
qed

lemma persist_Inl:
  assumes inv: "jinv E logf base rs (c_journal c) w" and p: "persist E kind ev tx rx cnt c w = (Inl e, c', w')"
    and k: "kind \<noteq> ''closed''" and u: "cnt \<Longrightarrow> u64_ok tx \<and> u64_ok rx"
  shows "\<exists>rs' j. jinv E logf base rs' j w' \<and> prefix rs rs' \<and> c' = c\<lparr>c_journal := j, c_failed := e\<rparr> \<and> e \<noteq> []"
proof (cases "journal_next kind (c_journal c)")
  case (Pair res j1)
  show ?thesis
  proof (cases res)
    case (Inl f)
    with Pair p journal_next_Inl [of kind "c_journal c" f j1] have "c' = c\<lparr>c_journal := (c_journal c)\<lparr>j_failed := f\<rparr>, c_failed := e\<rparr>"
      "e = f" "w' = w" "f \<noteq> []" by (auto simp: persist_def)
    with jinv_failed [OF inv] show ?thesis by blast
  next
    case (Inr r1)
    note n = journal_next_Inr [OF Pair [unfolded Inr] jinv_typed [OF inv]]
    define r2 where "r2 = r1\<lparr>r_Producer := Some ev\<rparr>"
    define r3 where "r3 = (if cnt then count_record tx rx r2 else r2)"
    obtain e1 j w1 where a: "journal_append E r3 (c_journal c) w = (e1, j, w1)" by (metis prod.exhaust)
    from p Pair Inr n(1) a have res: "e \<noteq> []" "c' = c\<lparr>c_journal := j, c_failed := e\<rparr>" "w' = w1"
      by (auto simp: persist_def r2_def r3_def Let_def split: if_splits)
    have x2: "rec_ext (j_last (c_journal c)) r2" unfolding r2_def by (rule rec_ext_producer [OF n(2)])
    have x3: "rec_ext (j_last (c_journal c)) r3"
      using x2 n(4,5) u unfolding r3_def count_record_def
      by (auto simp: r2_def intro!: rec_ext_overflow_gap rec_ext_add_counters(1))
    moreover have "r_Kind r3 \<noteq> ''closed''"
      using n(3) k by (simp add: r3_def count_record_def r2_def overflow_gap_def add_counters_def)
    ultimately have "rec_ext (j_last (c_journal c)) r3" "r_Kind r3 \<noteq> ''closed''" .
    from append_jinv [OF inv this(1) a this(2)] res show ?thesis by auto
  qed
qed

lemma fail_jinv:
  assumes inv: "jinv E logf base rs (c_journal c) w" and f: "correlator_fail E reason raw c w = (e, c', w')"
  shows "\<exists>rs' j. jinv E logf base rs' j w' \<and> prefix rs rs' \<and> c' = c\<lparr>c_journal := j, c_failed := e\<rparr> \<and> e \<noteq> []"
proof (cases "journal_next ''gap'' (c_journal c)")
  case (Pair res j1)
  show ?thesis
  proof (cases res)
    case (Inl g)
    with Pair f journal_next_Inl [of "''gap''" "c_journal c" g j1] have
      "c' = c\<lparr>c_journal := (c_journal c)\<lparr>j_failed := g\<rparr>, c_failed := e\<rparr>" "w' = w" "g \<noteq> []" "e \<noteq> []"
      by (auto simp: correlator_fail_def Let_def)
    with jinv_failed [OF inv] show ?thesis by blast
  next
    case (Inr r)
    note n = journal_next_Inr [OF Pair [unfolded Inr] jinv_typed [OF inv]]
    let ?r = "r\<lparr>r_Valid := False, r_Reason := reason, r_Producer := Some (fail_evidence (je_lib E) (c_incarnation c) raw)\<rparr>"
    obtain e1 j w1 where a: "journal_append E ?r (c_journal c) w = (e1, j, w1)" by (metis prod.exhaust)
    from f Pair Inr n(1) a have res: "e \<noteq> []" "c' = c\<lparr>c_journal := j, c_failed := e\<rparr>" "w' = w1"
      by (auto simp: correlator_fail_def Let_def)
    have "rec_ext (j_last (c_journal c)) ?r" "r_Kind ?r \<noteq> ''closed''"
      using rec_ext_producer [OF rec_ext_invalid [OF n(2)]] n(3) by simp_all
    from append_jinv [OF inv this(1) a this(2)] res show ?thesis by auto
  qed
qed

end

context durable_log
begin

lemma cinv_extend:
  assumes "cinv E logf base rs c w" "jinv E logf base rs' j w'" "prefix rs rs'"
    and "c_journal c' = j" "c_pending c' = c_pending c" "c_last c' = c_last c"
  shows "cinv E logf base rs' c' w'"
  using assms set_mono_prefix [OF assms(3)]
  by (auto simp: cinv_def intro: pending_ok_mono fence_recorded_mono)

lemma cinv_failed: "cinv E logf base rs c w \<Longrightarrow> cinv E logf base rs (c\<lparr>c_failed := e\<rparr>) w"
  by (simp add: cinv_def)

lemma cinv_available: "cinv E logf base rs c w \<Longrightarrow> available c = (e, c') \<Longrightarrow> cinv E logf base rs c' w"
  using available_cases cinv_failed by metis

lemma fail_cinv:
  assumes "cinv E logf base rs c w" "correlator_fail E reason raw c w = (e, c', w')"
  shows "\<exists>rs'. cinv E logf base rs' c' w' \<and> prefix rs rs'"
proof -
  from assms(1) have "jinv E logf base rs (c_journal c) w" by (simp add: cinv_def)
  from fail_jinv [OF this assms(2)] obtain rs' j where "jinv E logf base rs' j w'" "prefix rs rs'"
    "c' = c\<lparr>c_journal := j, c_failed := e\<rparr>" by blast
  with cinv_extend [OF assms(1), of rs' j w' c'] show ?thesis by auto
qed

lemma persist_Inl_cinv:
  assumes "cinv E logf base rs c w" "persist E kind ev tx rx cnt c w = (Inl e, c', w')"
    and "kind \<noteq> ''closed''" "cnt \<Longrightarrow> u64_ok tx \<and> u64_ok rx"
  shows "\<exists>rs'. cinv E logf base rs' c' w' \<and> prefix rs rs'"
proof -
  from assms(1) have "jinv E logf base rs (c_journal c) w" by (simp add: cinv_def)
  from persist_Inl [OF this assms(2-4)] obtain rs' j where "jinv E logf base rs' j w'" "prefix rs rs'"
    "c' = c\<lparr>c_journal := j, c_failed := e\<rparr>" by auto
  with cinv_extend [OF assms(1), of rs' j w' c'] show ?thesis by auto
qed

lemma persist_Inr_cinv:
  assumes "cinv E logf base rs c w" "persist E kind ev tx rx cnt c w = (Inr seq, c', w')"
    and "kind \<noteq> ''closed''" "cnt \<Longrightarrow> u64_ok tx \<and> u64_ok rx"
  shows "\<exists>r j. cinv E logf base (rs @ [r]) c' w' \<and> c' = c\<lparr>c_journal := j\<rparr> \<and> r_Kind r = kind \<and>
    r_Producer r = Some ev \<and> r_Sequence r = seq \<and> r_Valid r \<and> seq = int (length rs) \<and> j_last j = r"
proof -
  from assms(1) have "jinv E logf base rs (c_journal c) w" by (simp add: cinv_def)
  from persist_Inr [OF this assms(2-4)] obtain r j where r: "jinv E logf base (rs @ [r]) j w'"
    "c' = c\<lparr>c_journal := j\<rparr>" "r_Kind r = kind" "r_Producer r = Some ev" "r_Sequence r = seq" "r_Valid r"
    "seq = int (length rs)" "j_last j = r" by auto
  with cinv_extend [OF assms(1) r(1), of c'] show ?thesis by auto
qed

lemma match_cinv:
  assumes inv: "cinv E logf base rs c w" and m: "match E c w = (e, c', w')"
  shows "\<exists>rs'. cinv E logf base rs' c' w' \<and> prefix rs rs'"
proof (cases "\<exists>p h rc. c_pending c = Some p \<and> q_frame p = Some h \<and> q_receipt p = Some rc")
  case False
  with m have "c' = c" "w' = w" by (auto simp: match_def split: option.splits)
  with inv show ?thesis by auto
next
  case True
  then obtain p h rc where p: "c_pending c = Some p" "q_frame p = Some h" "q_receipt p = Some rc" by blast
  show ?thesis
  proof (cases "\<not> headersEqual h (pc_Header rc) \<or> q_cutoff p \<noteq> pc_Cutoff rc")
    case True
    with m p have "correlator_fail E ''producer_frame_receipt_mismatch'' None c w = (e, c', w')" by (simp add: match_def)
    with fail_cinv [OF inv] show ?thesis by blast
  next
    case False
    obtain res c1 w1 where pr: "persist E ''producer_correlation'' (match_evidence E c p h) 0 0 False c w = (res, c1, w1)"
      by (metis prod.exhaust)
    show ?thesis
    proof (cases res)
      case (Inl f)
      with m p False pr have "c' = c1" "w' = w1" by (auto simp: match_def)
      with persist_Inl_cinv [OF inv pr [unfolded Inl]] show ?thesis by auto
    next
      case (Inr seq)
      with m p False pr have c': "c' = c1\<lparr>c_last := Some (match_fence p h seq),
          c_baseline := c_baseline c1 \<or> q_scope p = BaselineScope, c_pending := None\<rparr>" "w' = w1"
        by (auto simp: match_def)
      from persist_Inr_cinv [OF inv pr [unfolded Inr]] obtain r j where
        r: "cinv E logf base (rs @ [r]) c1 w1" "r_Kind r = ''producer_correlation''"
          "r_Producer r = Some (match_evidence E c p h)" "r_Sequence r = seq" "r_Valid r" "seq = int (length rs)"
        by auto
      from inv p have po: "pending_ok (je_lib E) rs p" and ch: "record_chain rs"
        by (auto simp: cinv_def jinv_def jlog_def)
      from po p obtain raw where raw: "q_rawReceipt p = Some raw"
        "DecodeProducerReceipt (je_lib E) raw (q_scope p = TerminalScope) = Inr rc"
        and ho: "header_ok h" "for_request h (q_request p)"
        and fr: "frame_recorded (je_lib E) rs (q_frameSequence p) h (q_cutoff p) (q_frameSHA256 p) (q_frameBytes p)"
        and rq: "\<exists>seq. request_recorded rs (q_request p) (q_scope p) seq \<and> seq < q_frameSequence p"
        by (auto simp: pending_ok_def)
      from False headersEqual_eq [OF ho(1) DecodeProducerReceipt_ok(1) [OF raw(2)]]
      have eq: "pc_Header rc = h" "pc_Cutoff rc = q_cutoff p" by auto
      have "\<exists>seq. request_recorded (rs @ [r]) (q_request p) (q_scope p) seq \<and> seq < q_frameSequence p"
        using rq request_recorded_mono [of rs _ _ _ "rs @ [r]"] by auto
      then have "fence_recorded (je_lib E) (rs @ [r]) (match_fence p h seq)"
        using r raw ho(2) eq frame_recorded_mono [OF fr, of "rs @ [r]"] frame_recorded_seq [OF ch fr]
        by (auto simp: fence_recorded_def match_fence_def correlation_recorded_def match_evidence_def Let_def)
      with r(1) c' show ?thesis by (auto simp: cinv_def)
    qed
  qed
qed

lemma check_frame_request:
  assumes "check_frame c f = Inr (ns, scope)" "ph_RequestID (pf_Header f) \<noteq> None" "header_ok (pf_Header f)"
  shows "\<exists>p. c_pending c = Some p \<and> for_request (pf_Header f) (q_request p) \<and> q_frame p = None \<and> scope = q_scope p"
  using assms header_ok_request [OF assms(3,2)]
  by (auto simp: check_frame_def frame_scope_def for_request_def split: if_splits sum.splits option.splits)

lemma ObserveFrame_cinv:
  assumes inv: "cinv E logf base rs c w" and o: "ObserveFrame E raw c w = (e, c', w')"
  shows "\<exists>rs'. cinv E logf base rs' c' w' \<and> prefix rs rs'"
proof -
  obtain e0 c0 where a: "available c = (e0, c0)" by fastforce
  note inv0 = cinv_available [OF inv a]
  have fl: "correlator_fail E reason (Some raw) c0 w = (e, c', w') \<Longrightarrow> ?thesis" for reason
    using fail_cinv [OF inv0] by blast
  consider (unavail) "e0 \<noteq> []" | (early) "e0 = []" "\<not> c_preboot c0"
    | (dec) x where "e0 = []" "c_preboot c0" "DecodeProducerFrame (je_lib E) raw = Inl x"
    | (check) f y where "e0 = []" "c_preboot c0" "DecodeProducerFrame (je_lib E) raw = Inr f" "check_frame c0 f = Inl y"
    | (ok) f ns scope where "e0 = []" "c_preboot c0" "DecodeProducerFrame (je_lib E) raw = Inr f"
        "check_frame c0 f = Inr (ns, scope)"
    by (metis sum.exhaust prod.exhaust)
  then show ?thesis
  proof cases
    case unavail
    with o a have "c' = c0" "w' = w" by (auto simp: ObserveFrame_def)
    with inv0 show ?thesis by auto
  next
    case early
    with o a fl show ?thesis by (simp add: ObserveFrame_def)
  next
    case dec
    with o a fl show ?thesis by (simp add: ObserveFrame_def)
  next
    case check
    with o a fl show ?thesis by (simp add: ObserveFrame_def)
  next
    case ok
    note fok = DecodeProducerFrame_ok [OF ok(3)]
    obtain res c1 w1 where pr: "persist E ''producer_frame'' (frame_evidence E c0 f raw ns scope)
        (pf_Tx f) (pf_Rx f) (ns = ''device_aggregate'') c0 w = (res, c1, w1)"
      by (metis prod.exhaust)
    have u: "u64_ok (pf_Tx f) \<and> u64_ok (pf_Rx f)" using fok(1) by (simp add: frame_ok_def)
    show ?thesis
    proof (cases res)
      case (Inl x)
      with o a ok pr have "c' = c1" "w' = w1" by (auto simp: ObserveFrame_def)
      with persist_Inl_cinv [OF inv0 pr [unfolded Inl]] u show ?thesis by auto
    next
      case (Inr seq)
      from persist_Inr_cinv [OF inv0 pr [unfolded Inr]] u obtain r j where
        r: "cinv E logf base (rs @ [r]) c1 w1" "c1 = c0\<lparr>c_journal := j\<rparr>" "r_Kind r = ''producer_frame''"
          "r_Producer r = Some (frame_evidence E c0 f raw ns scope)" "r_Sequence r = seq" "r_Valid r" "seq = int (length rs)"
        by auto
      show ?thesis
      proof (cases "ph_RequestID (pf_Header f) = None")
        case True
        with o a ok pr Inr have "c' = c1\<lparr>c_attempt := ph_Attempt (pf_Header f)\<rparr>" "w' = w1"
          by (auto simp: ObserveFrame_def Let_def)
        with r(1) show ?thesis by (auto simp: cinv_def)
      next
        case False
        let ?c2 = "c1\<lparr>c_attempt := ph_Attempt (pf_Header f), c_pending := map_option (set_frame E f raw seq) (c_pending c1)\<rparr>"
        from o a ok pr Inr False have m: "match E ?c2 w1 = (e, c', w')"
          by (auto simp: ObserveFrame_def Let_def)
        have ho: "header_ok (pf_Header f)" using fok(1) by (simp add: frame_ok_def)
        from check_frame_request [OF ok(4) False ho] r(2) obtain p where
          p: "c_pending c1 = Some p" "for_request (pf_Header f) (q_request p)" by auto
        from inv0 p(1) r(2) have po0: "pending_ok (je_lib E) rs p" and ch: "record_chain rs"
          by (simp_all add: cinv_def jinv_def jlog_def)
        then obtain n where n: "request_recorded rs (q_request p) (q_scope p) n" by (auto simp: pending_ok_def)
        have rq: "request_recorded (rs @ [r]) (q_request p) (q_scope p) n" "n < seq"
          using request_recorded_mono [OF n, of "rs @ [r]"] request_recorded_seq [OF ch n] r(7) by auto
        from r(1) p(1) have po: "pending_ok (je_lib E) (rs @ [r]) p" by (simp add: cinv_def)
        have "frame_recorded (je_lib E) (rs @ [r]) seq (pf_Header f) (pf_Cutoff f) (sha256hex (je_lib E) raw) (int (length raw))"
          unfolding frame_recorded_def using r(3-6) ok(3)
          by (auto simp: frame_evidence_def intro!: bexI [of _ r])
        with po p(2) ho rq have "pending_ok (je_lib E) (rs @ [r]) (set_frame E f raw seq p)"
          by (auto simp: pending_ok_def set_frame_def)
        with r(1) p(1) have "cinv E logf base (rs @ [r]) ?c2 w1" by (auto simp: cinv_def)
        from match_cinv [OF this m] show ?thesis by (meson append_prefixD)
      qed
    qed
  qed
qed

lemma ObserveReceipt_cinv:
  assumes inv: "cinv E logf base rs c w" and o: "ObserveReceipt E raw c w = (e, c', w')"
  shows "\<exists>rs'. cinv E logf base rs' c' w' \<and> prefix rs rs'"
proof -
  obtain e0 c0 where a: "available c = (e0, c0)" by fastforce
  note inv0 = cinv_available [OF inv a]
  consider (same) "c' = c0" "w' = w" | (failed) reason where "correlator_fail E reason (Some raw) c0 w = (e, c', w')"
    | (stored) p rc where "c_pending c0 = Some p"
        "DecodeProducerReceipt (je_lib E) raw (q_scope p = TerminalScope) = Inr rc"
        "match E (c0\<lparr>c_pending := Some (p\<lparr>q_receipt := Some rc, q_rawReceipt := Some raw\<rparr>)\<rparr>) w = (e, c', w')"
    using o a by (auto simp: ObserveReceipt_def Let_def split: if_splits option.splits sum.splits)
  then show ?thesis
  proof cases
    case same
    with inv0 show ?thesis by auto
  next
    case failed
    with fail_cinv [OF inv0] show ?thesis by blast
  next
    case stored
    let ?p = "p\<lparr>q_receipt := Some rc, q_rawReceipt := Some raw\<rparr>"
    from inv0 stored(1) have "pending_ok (je_lib E) rs p" by (simp add: cinv_def)
    with stored(2) have "pending_ok (je_lib E) rs ?p" by (auto simp: pending_ok_def)
    with inv0 have "cinv E logf base rs (c0\<lparr>c_pending := Some ?p\<rparr>) w" by (auto simp: cinv_def)
    from match_cinv [OF this stored(3)] show ?thesis .
  qed
qed

end

context durable_log
begin

lemma Begin_cinv:
  assumes inv: "cinv E logf base rs c w" and o: "Begin E ident scope c w = (e, c', w')"
  shows "\<exists>rs'. cinv E logf base rs' c' w' \<and> prefix rs rs'"
proof -
  obtain e0 c0 where a: "available c = (e0, c0)" by fastforce
  note inv0 = cinv_available [OF inv a]
  consider (same) "c' = c0" "w' = w" | (failed) f where "correlator_fail E ''request_sequence_overflow'' None c0 w = (f, c', w')"
    | (new) "begin_new E ident scope c0 w = (e, c', w')"
    using o a by (auto simp: Begin_def Let_def split: if_splits option.splits prod.splits)
  then show ?thesis
  proof cases
    case same
    with inv0 show ?thesis by auto
  next
    case failed
    with fail_cinv [OF inv0] show ?thesis by blast
  next
    case new
    let ?req = "\<lparr>pr_Incarnation = c_incarnation c0, pr_Sequence = u64 (c_requestSequence c0 + 1), pr_ID = ident\<rparr>"
    obtain res c1 w1 where pr: "persist E ''producer_request''
        ((evidence (c_incarnation c0))\<lparr>pe_Request := Some ?req, pe_Scope := scope\<rparr>) 0 0 False c0 w = (res, c1, w1)"
      by (metis prod.exhaust)
    show ?thesis
    proof (cases res)
      case (Inl x)
      with new pr have "c' = c1" "w' = w1" by (auto simp: begin_new_def)
      with persist_Inl_cinv [OF inv0 pr [unfolded Inl]] show ?thesis by auto
    next
      case (Inr seq)
      with new pr have "c_journal c' = c_journal c1" "c_last c' = c_last c1" "c_pending c' = Some (new_pending ?req scope)" "w' = w1"
        by (auto simp: begin_new_def Let_def)
      moreover from persist_Inr_cinv [OF inv0 pr [unfolded Inr]] obtain r where r: "cinv E logf base (rs @ [r]) c1 w1"
        "r_Kind r = ''producer_request''" "r_Valid r"
        "r_Producer r = Some ((evidence (c_incarnation c0))\<lparr>pe_Request := Some ?req, pe_Scope := scope\<rparr>)" by auto
      moreover have "request_recorded (rs @ [r]) ?req scope (r_Sequence r)"
        using r unfolding request_recorded_def by (intro bexI [of _ r]) simp_all
      then have "pending_ok (je_lib E) (rs @ [r]) (new_pending ?req scope)"
        by (auto simp: pending_ok_def new_pending_def)
      ultimately have "cinv E logf base (rs @ [r]) c' w'" by (auto simp: cinv_def)
      then show ?thesis by auto
    qed
  qed
qed

lemma BeginActivity_cinv:
  assumes inv: "cinv E logf base rs c w" and o: "BeginActivity E c w = (e, c', w')"
  shows "\<exists>rs'. cinv E logf base rs' c' w' \<and> prefix rs rs'"
proof -
  obtain e0 c0 where a: "available c = (e0, c0)" by fastforce
  note inv0 = cinv_available [OF inv a]
  obtain res c1 w1 where pr: "persist E ''producer_activity_intent''
      ((evidence (c_incarnation c0))\<lparr>pe_Scope := SampleScope\<rparr>) 0 0 False c0 w = (res, c1, w1)"
    by (metis prod.exhaust)
  consider (same) "c' = c0" "w' = w" | (failed) x where "res = Inl x" "c' = c1" "w' = w1"
    | (new) seq where "res = Inr seq" "c' = c1\<lparr>c_activity := True\<rparr>" "w' = w1"
    using o a pr by (auto simp: BeginActivity_def Let_def split: if_splits option.splits sum.splits)
  then show ?thesis
  proof cases
    case same
    with inv0 show ?thesis by auto
  next
    case failed
    with persist_Inl_cinv [OF inv0 pr [unfolded failed(1)]] show ?thesis by auto
  next
    case new
    from persist_Inr_cinv [OF inv0 pr [unfolded new(1)]] obtain r where "cinv E logf base (rs @ [r]) c1 w1" by auto
    with new(2,3) show ?thesis by (auto simp: cinv_def)
  qed
qed

lemma Correlator_Gap_cinv:
  assumes inv: "cinv E logf base rs c w" and o: "Correlator_Gap E reason c w = (e, c', w')"
  shows "\<exists>rs'. cinv E logf base rs' c' w' \<and> prefix rs rs'"
proof -
  obtain e0 c0 where a: "available c = (e0, c0)" by fastforce
  note inv0 = cinv_available [OF inv a]
  consider "c' = c" "w' = w" | "c' = c0" "w' = w" | "correlator_fail E reason None c0 w = (e, c', w')"
    using o a by (auto simp: Correlator_Gap_def Let_def split: if_splits)
  then show ?thesis using inv inv0 fail_cinv [OF inv0] by cases auto
qed

lemma Correlator_Close_cinv:
  assumes inv: "cinv E logf base rs c w" and o: "Correlator_Close E c w = (e, c', w')"
  shows "\<exists>rs'. cinv E logf base rs' c' w' \<and> prefix rs rs'"
proof (cases "c_closed c")
  case True
  with o inv show ?thesis by (auto simp: Correlator_Close_def)
next
  case False
  define s where "s = (if c_pending c \<noteq> None \<and> c_failed c = []
    then snd (correlator_fail E ''unresolved_producer_request'' None c w) else (c, w))"
  obtain c1 w1 where s1: "s = (c1, w1)" by fastforce
  have "\<exists>rs1. cinv E logf base rs1 c1 w1 \<and> prefix rs rs1"
    using fail_cinv [OF inv, of "''unresolved_producer_request''" None] s1 inv
    by (cases "c_pending c \<noteq> None \<and> c_failed c = []") (auto simp: s_def snd_conv_Pair)
  then obtain rs1 where i1: "cinv E logf base rs1 c1 w1" "prefix rs rs1" by blast
  obtain f j w2 where cl: "Journal_Close E (c_journal c1) w1 = (f, j, w2)" by (metis prod.exhaust)
  have c': "c_journal c' = j" "c_pending c' = c_pending c1" "c_last c' = c_last c1" "w' = w2"
    using o False s1 cl by (auto simp: Correlator_Close_def s_def Let_def)
  from i1(1) have "jinv E logf base rs1 (c_journal c1) w1" by (simp add: cinv_def)
  from Close_jinv [OF this cl] obtain rs2 where "jinv E logf base rs2 j w2" "prefix rs1 rs2" by blast
  with cinv_extend [OF i1(1) this c'(1-3)] i1(2) c'(4) show ?thesis
    by (auto intro: prefix_order.trans)
qed

lemma correlator_do_cinv:
  assumes "cinv E logf base rs c w" "correlator_do E x (c, w) = (c', w')"
  shows "\<exists>rs'. cinv E logf base rs' c' w' \<and> prefix rs rs'"
  using assms(2) Begin_cinv [OF assms(1)] BeginActivity_cinv [OF assms(1)] ObserveFrame_cinv [OF assms(1)]
    ObserveReceipt_cinv [OF assms(1)] Correlator_Gap_cinv [OF assms(1)] Correlator_Close_cinv [OF assms(1)]
  by (cases x) (auto simp: correlator_do_def snd_conv_Pair)

lemma correlator_run_cinv:
  assumes "cinv E logf base rs c w" "correlator_run E xs (c, w) = (c', w')"
  shows "\<exists>rs'. cinv E logf base rs' c' w' \<and> prefix rs rs'"
  using assms
proof (induction xs arbitrary: rs c w)
  case Nil
  then show ?case by (auto simp: correlator_run_def)
next
  case (Cons x xs)
  obtain c1 w1 where 1: "correlator_do E x (c, w) = (c1, w1)" by fastforce
  from correlator_do_cinv [OF Cons.prems(1) 1] obtain rs1
    where r: "cinv E logf base rs1 c1 w1" "prefix rs rs1" by blast
  have "correlator_run E xs (c1, w1) = (c', w')" using Cons.prems(2) 1 by (simp add: correlator_run_def)
  from Cons.IH [OF r(1) this] r(2) show ?case by (auto intro: prefix_order.trans)
qed

lemma NewCorrelator_cinv:
  assumes inv: "jinv E logf base rs j w" and n: "NewCorrelator E j inc w = (Inr c, j', w')"
  shows "\<exists>r. cinv E logf base (rs @ [r]) c w'" "c_failed c = []" "c_pending c = None" "c_last c = None"
    "c_incarnation c = inc" "c_attempt c = 0" "c_requestSequence c = 0"
    "\<not> c_baseline c" "\<not> c_preboot c" "\<not> c_activity c" "\<not> c_closed c" "tokenOK inc"
proof -
  let ?j0 = "j\<lparr>j_correlated := True\<rparr>"
  have inv0: "jinv E logf base rs ?j0 w" using inv by (auto simp: jinv_def jlog_def)
  note t = jinv_typed [OF inv0]
  obtain res j1 where nx: "journal_next ''producer_binding'' ?j0 = (res, j1)" by fastforce
  with n obtain r where r: "res = Inr r"
    by (cases res) (auto simp: NewCorrelator_def Let_def split: if_splits)
  note nr = journal_next_Inr [OF nx [unfolded r] t]
  let ?r = "r\<lparr>r_Producer := Some (evidence inc)\<rparr>"
  obtain e j2 w2 where a: "journal_append E ?r ?j0 w = (e, j2, w2)" by (metis prod.exhaust)
  from n nx r nr(1) a have eq: "e = []" "w2 = w'"
    "c = \<lparr>c_journal = j2, c_incarnation = inc, c_attempt = 0, c_requestSequence = 0,
          c_baseline = False, c_preboot = False, c_activity = False, c_pending = None,
          c_last = None, c_failed = [], c_closed = False\<rparr>" "tokenOK inc"
    by (auto simp: NewCorrelator_def Let_def split: if_splits)
  have "r_Kind ?r \<noteq> ''closed''" using nr(3) by simp
  from append_jinv [OF inv0 rec_ext_producer [OF nr(2)] a this] eq(1) obtain q
    where "jinv E logf base (rs @ [q]) j2 w2" by auto
  with eq show "\<exists>r. cinv E logf base (rs @ [r]) c w'" by (auto simp: cinv_def)
  show "c_failed c = []" "c_pending c = None" "c_last c = None" "c_incarnation c = inc" "c_attempt c = 0"
    "c_requestSequence c = 0" "\<not> c_baseline c" "\<not> c_preboot c" "\<not> c_activity c" "\<not> c_closed c" "tokenOK inc"
    using eq by simp_all
qed

end

section \<open>Frame and receipt in either order\<close>

lemma persist_pending:
  "persist E kind ev tx rx cnt (c\<lparr>c_pending := x\<rparr>) w =
     (let (res, c', w') = persist E kind ev tx rx cnt c w in (res, c'\<lparr>c_pending := x\<rparr>, w'))"
  by (simp add: persist_def Let_def split: prod.splits sum.splits)

lemma persist_keeps:
  assumes "persist E kind ev tx rx cnt c w = (res, c', w')"
  shows "c_pending c' = c_pending c" "c_last c' = c_last c" "c_incarnation c' = c_incarnation c"
    "c_activity c' = c_activity c" "c_preboot c' = c_preboot c" "c_baseline c' = c_baseline c"
    "c_attempt c' = c_attempt c" "c_requestSequence c' = c_requestSequence c" "c_closed c' = c_closed c"
    "c_failed c = [] \<Longrightarrow> c_failed c' = [] \<longleftrightarrow> (\<exists>x. res = Inr x)"
  using assms by (auto simp: persist_def Let_def journal_next_def split: prod.splits sum.splits if_splits)

lemma check_frame_cong:
  assumes "c_incarnation c' = c_incarnation c" "c_attempt c' = c_attempt c" "c_last c' = c_last c"
    "c_preboot c' = c_preboot c" "c_activity c' = c_activity c"
    and "rel_option (\<lambda>p' p. q_request p' = q_request p \<and> q_scope p' = q_scope p \<and> q_frame p' = q_frame p)
      (c_pending c') (c_pending c)"
  shows "check_frame c' f = check_frame c f"
proof -
  have "terminal_frame_seen c' = terminal_frame_seen c"
    using assms(3,6)
    by (cases "c_pending c'"; cases "c_pending c") (simp_all add: terminal_frame_seen_def last_terminal_def)
  moreover have "network_scope c' f = network_scope c f"
    using assms(4,5) by (simp add: network_scope_def)
  moreover have "frame_scope c' f = frame_scope c f"
  proof (cases "ph_RequestID (pf_Header f)")
    case None
    then show ?thesis by (simp add: frame_scope_def)
  next
    case (Some i)
    with assms(6) show ?thesis by (cases "c_pending c'"; cases "c_pending c") (simp_all add: frame_scope_def)
  qed
  ultimately show ?thesis unfolding check_frame_def assms(1,2) by (simp only:)
qed

lemma check_frame_pending:
  assumes "c_pending c = Some p" "q_request p' = q_request p" "q_scope p' = q_scope p" "q_frame p' = q_frame p"
  shows "check_frame (c\<lparr>c_pending := Some p'\<rparr>) f = check_frame c f"
  by (rule check_frame_cong) (simp_all add: assms)

lemma available_pending: "available c = ([], c) \<Longrightarrow> available (c\<lparr>c_pending := x\<rparr>) = ([], c\<lparr>c_pending := x\<rparr>)"
  by (auto simp: available_def Let_def split: if_splits)

lemma set_frame_receipt:
  "set_frame E f raw seq (p\<lparr>q_receipt := a, q_rawReceipt := b\<rparr>) =
     (set_frame E f raw seq p)\<lparr>q_receipt := a, q_rawReceipt := b\<rparr>"
  by (cases p) (simp add: set_frame_def)

lemma fail_not_ok: "correlator_fail E reason raw c w \<noteq> ([], c', w')"
  by (auto simp: correlator_fail_def Let_def split: prod.splits)

lemma ObserveFrame_ok:
  assumes "ObserveFrame E raw c w = ([], c', w')" "ph_RequestID (pf_Header f) \<noteq> None"
    and "DecodeProducerFrame (je_lib E) raw = Inr f"
  obtains ns scope seq c1 w1 where "available c = ([], c)" "c_preboot c" "check_frame c f = Inr (ns, scope)"
    "persist E ''producer_frame'' (frame_evidence E c f raw ns scope) (pf_Tx f) (pf_Rx f)
       (ns = ''device_aggregate'') c w = (Inr seq, c1, w1)"
    "match E (c1\<lparr>c_attempt := ph_Attempt (pf_Header f), c_pending := map_option (set_frame E f raw seq) (c_pending c1)\<rparr>) w1
       = ([], c', w')"
proof -
  obtain e0 c0 where a: "available c = (e0, c0)" by fastforce
  from assms(1) a have e: "e0 = []" by (auto simp: ObserveFrame_def split: if_splits)
  with a available_ok have c0: "c0 = c" by blast
  from assms a e c0 have p: "c_preboot c" by (auto simp: ObserveFrame_def fail_not_ok split: if_splits)
  with assms a e c0 obtain ns scope where ch: "check_frame c f = Inr (ns, scope)"
    by (cases "check_frame c f") (auto simp: ObserveFrame_def fail_not_ok)
  obtain res c1 w1 where pr: "persist E ''producer_frame'' (frame_evidence E c f raw ns scope) (pf_Tx f) (pf_Rx f)
       (ns = ''device_aggregate'') c w = (res, c1, w1)" by (metis prod.exhaust)
  from a e c0 have av: "c_failed c = []" using available_ok by blast
  from assms a e c0 p ch pr obtain seq where r: "res = Inr seq"
  proof (cases res)
    case (Inl x)
    with assms a e c0 p ch pr have "x = []" "c' = c1" by (auto simp: ObserveFrame_def)
    with persist_keeps(10) [OF pr av] Inl pr show ?thesis
      by (auto simp: persist_def Let_def journal_next_def split: prod.splits sum.splits if_splits)
  qed blast
  from assms a e c0 p ch pr r have "match E (c1\<lparr>c_attempt := ph_Attempt (pf_Header f),
      c_pending := map_option (set_frame E f raw seq) (c_pending c1)\<rparr>) w1 = ([], c', w')"
    by (simp add: ObserveFrame_def Let_def)
  with a e c0 p ch pr r that show thesis by simp
qed

text \<open>A receipt that the correlator accepts for its pending request.\<close>

definition receipt_matches :: "Correlator \<Rightarrow> pendingRequest \<Rightarrow> ProducerReceipt \<Rightarrow> bool" where
  "receipt_matches c p rc \<longleftrightarrow>
     ph_Incarnation (pc_Header rc) = c_incarnation c \<and> \<not> ph_Loss (pc_Header rc) \<and>
     the (ph_RequestID (pc_Header rc)) = pr_ID (q_request p) \<and>
     the (ph_RequestSequence (pc_Header rc)) = pr_Sequence (q_request p)"

lemma ObserveReceipt_pending:
  assumes "available c = ([], c)" "c_pending c = Some p" "q_receipt p = None"
    and "DecodeProducerReceipt (je_lib E) raw (q_scope p = TerminalScope) = Inr rc" "receipt_matches c p rc"
  shows "ObserveReceipt E raw c w =
    match E (c\<lparr>c_pending := Some (p\<lparr>q_receipt := Some rc, q_rawReceipt := Some raw\<rparr>)\<rparr>) w"
  using assms by (simp add: ObserveReceipt_def receipt_matches_def Let_def)

lemma ObserveReceipt_ok:
  assumes "ObserveReceipt E raw c w = ([], c', w')" "c_pending c = Some p" "q_receipt p = None"
  obtains rc where "available c = ([], c)"
    "DecodeProducerReceipt (je_lib E) raw (q_scope p = TerminalScope) = Inr rc" "receipt_matches c p rc"
proof -
  obtain e0 c0 where a: "available c = (e0, c0)" by fastforce
  from assms(1) a have e: "e0 = []" by (auto simp: ObserveReceipt_def split: if_splits)
  with a available_ok have "c0 = c" by blast
  with assms a e obtain rc where "DecodeProducerReceipt (je_lib E) raw (q_scope p = TerminalScope) = Inr rc"
    "receipt_matches c p rc"
    by (auto simp: ObserveReceipt_def receipt_matches_def Let_def fail_not_ok split: sum.splits if_splits)
  with a e \<open>c0 = c\<close> that show thesis by blast
qed

lemma frame_then_receipt:
  assumes "c_pending c = Some p" "q_frame p = None" "q_receipt p = None"
    and "DecodeProducerFrame (je_lib E) frame = Inr f" "ph_RequestID (pf_Header f) \<noteq> None"
    and "ObserveFrame E frame c w = ([], c1, w1)" "ObserveReceipt E receipt c1 w1 = ([], c2, w2)"
  shows "\<exists>c1'. ObserveReceipt E receipt c w = ([], c1', w) \<and> ObserveFrame E frame c1' w = ([], c2, w2)"
proof -
  from assms(6,5,4) show ?thesis
  proof (rule ObserveFrame_ok)
    fix ns scope seq d w'
    assume av: "available c = ([], c)" and pre: "c_preboot c" and ch: "check_frame c f = Inr (ns, scope)"
      and pr: "persist E ''producer_frame'' (frame_evidence E c f frame ns scope) (pf_Tx f) (pf_Rx f)
         (ns = ''device_aggregate'') c w = (Inr seq, d, w')"
      and m: "match E (d\<lparr>c_attempt := ph_Attempt (pf_Header f), c_pending := map_option (set_frame E f frame seq) (c_pending d)\<rparr>) w'
         = ([], c1, w1)"
    note kp = persist_keeps [OF pr]
    let ?p1 = "set_frame E f frame seq p"
    have m1: "c1 = d\<lparr>c_attempt := ph_Attempt (pf_Header f), c_pending := Some ?p1\<rparr>" "w1 = w'"
      using m kp(1) assms(1,3) by (auto simp: match_def set_frame_def)
    have p1: "c_pending c1 = Some ?p1" "q_receipt ?p1 = None" "q_scope ?p1 = q_scope p" "q_request ?p1 = q_request p"
      using m1 assms(3) by (simp_all add: set_frame_def)
    from assms(7) p1(1,2) show ?thesis
    proof (rule ObserveReceipt_ok)
      fix rc
      assume av1: "available c1 = ([], c1)"
        and dec: "DecodeProducerReceipt (je_lib E) receipt (q_scope ?p1 = TerminalScope) = Inr rc"
        and rm: "receipt_matches c1 ?p1 rc"
      have rm0: "receipt_matches c p rc" using rm p1 m1 kp(3) by (simp add: receipt_matches_def)
      let ?q = "p\<lparr>q_receipt := Some rc, q_rawReceipt := Some receipt\<rparr>"
      let ?c = "c\<lparr>c_pending := Some ?q\<rparr>"
      have "ObserveReceipt E receipt c w = match E ?c w"
        by (rule ObserveReceipt_pending [OF av assms(1,3) dec [unfolded p1(3)] rm0])
      then have first: "ObserveReceipt E receipt c w = ([], ?c, w)" using assms(2) by (simp add: match_def)
      have ch': "check_frame ?c f = Inr (ns, scope)"
        using ch check_frame_pending [OF assms(1), of ?q f] by simp
      have pr': "persist E ''producer_frame'' (frame_evidence E ?c f frame ns scope) (pf_Tx f) (pf_Rx f)
         (ns = ''device_aggregate'') ?c w = (Inr seq, d\<lparr>c_pending := Some ?q\<rparr>, w')"
        using pr by (simp add: persist_pending frame_evidence_def)
      let ?c3 = "d\<lparr>c_attempt := ph_Attempt (pf_Header f), c_pending := Some (set_frame E f frame seq ?q)\<rparr>"
      have "ObserveFrame E frame ?c w = match E ?c3 w'"
        using available_pending [OF av] pre ch' pr' assms(4,5) by (auto simp: ObserveFrame_def Let_def)
      moreover have "ObserveReceipt E receipt c1 w1 = match E ?c3 w'"
        using ObserveReceipt_pending [OF av1 p1(1,2) dec rm] m1 by (simp add: set_frame_receipt)
      ultimately have "ObserveFrame E frame ?c w = ([], c2, w2)" using assms(7) by simp
      with first show ?thesis by blast
    qed
  qed
qed

lemma persist_available:
  assumes "available c = ([], c)" "persist E kind ev tx rx cnt c w = (Inr seq, d, w')"
  shows "available (d\<lparr>c_attempt := a, c_pending := x\<rparr>) = ([], d\<lparr>c_attempt := a, c_pending := x\<rparr>)"
proof -
  have c: "c_failed c = []" "\<not> c_closed c" using available_ok [OF assms(1)] by simp_all
  obtain r j1 where n: "journal_next kind (c_journal c) = (Inr r, j1)"
    using assms(2) by (cases "journal_next kind (c_journal c)"; cases "fst (journal_next kind (c_journal c))") (auto simp: persist_def)
  let ?r = "if cnt then count_record tx rx (r\<lparr>r_Producer := Some ev\<rparr>) else r\<lparr>r_Producer := Some ev\<rparr>"
  obtain e j w1 where a: "journal_append E ?r j1 w = (e, j, w1)" by (metis prod.exhaust)
  from assms(2) n a have j: "e = []" "r_Valid (j_last j)" "d = c\<lparr>c_journal := j\<rparr>"
    by (auto simp: persist_def Let_def split: if_splits)
  with append_ok(1,2) [OF a [unfolded j(1)]] c show ?thesis by (simp add: available_def Let_def)
qed

lemma receipt_then_frame:
  assumes "c_pending c = Some p" "q_frame p = None" "q_receipt p = None"
    and "DecodeProducerFrame (je_lib E) frame = Inr f" "ph_RequestID (pf_Header f) \<noteq> None"
    and "ObserveReceipt E receipt c w = ([], c1, w1)" "ObserveFrame E frame c1 w1 = ([], c2, w2)"
  shows "\<exists>c1' w1'. ObserveFrame E frame c w = ([], c1', w1') \<and> ObserveReceipt E receipt c1' w1' = ([], c2, w2)"
  using assms(6,1,3)
proof (rule ObserveReceipt_ok)
  fix rc
  assume av: "available c = ([], c)"
    and dec: "DecodeProducerReceipt (je_lib E) receipt (q_scope p = TerminalScope) = Inr rc" and rm: "receipt_matches c p rc"
  let ?q = "p\<lparr>q_receipt := Some rc, q_rawReceipt := Some receipt\<rparr>"
  let ?c = "c\<lparr>c_pending := Some ?q\<rparr>"
  have c1: "c1 = ?c" "w1 = w"
    using ObserveReceipt_pending [OF av assms(1,3) dec rm, of w] assms(2,6) by (simp_all add: match_def)
  from assms(7)[unfolded c1] assms(5,4) show ?thesis
  proof (rule ObserveFrame_ok)
    fix ns scope seq d w'
    assume pre: "c_preboot ?c" and ch: "check_frame ?c f = Inr (ns, scope)"
      and pr: "persist E ''producer_frame'' (frame_evidence E ?c f frame ns scope) (pf_Tx f) (pf_Rx f)
         (ns = ''device_aggregate'') ?c w = (Inr seq, d, w')"
      and m: "match E (d\<lparr>c_attempt := ph_Attempt (pf_Header f), c_pending := map_option (set_frame E f frame seq) (c_pending d)\<rparr>) w'
         = ([], c2, w2)"
    note kp = persist_keeps [OF pr]
    let ?d = "d\<lparr>c_pending := Some p\<rparr>" and ?p1 = "set_frame E f frame seq p"
    have same: "?c\<lparr>c_pending := Some p\<rparr> = c" using assms(1) by (cases c) simp
    have ch0: "check_frame c f = Inr (ns, scope)"
      using ch check_frame_pending [OF assms(1), of ?q f] by simp
    have "persist E ''producer_frame'' (frame_evidence E c f frame ns scope) (pf_Tx f) (pf_Rx f)
         (ns = ''device_aggregate'') (?c\<lparr>c_pending := Some p\<rparr>) w = (Inr seq, ?d, w')"
      using pr unfolding persist_pending [where c = ?c and x = "Some p"] by (simp add: frame_evidence_def)
    then have pr0: "persist E ''producer_frame'' (frame_evidence E c f frame ns scope) (pf_Tx f) (pf_Rx f)
         (ns = ''device_aggregate'') c w = (Inr seq, ?d, w')" unfolding same .
    let ?c1 = "d\<lparr>c_attempt := ph_Attempt (pf_Header f), c_pending := Some ?p1\<rparr>"
    have "ObserveFrame E frame c w = match E ?c1 w'"
      using av pre ch0 pr0 assms(4,5) by (auto simp: ObserveFrame_def Let_def)
    then have first: "ObserveFrame E frame c w = ([], ?c1, w')" using assms(3) by (simp add: match_def set_frame_def)
    have p1: "c_pending ?c1 = Some ?p1" "q_receipt ?p1 = None" "q_scope ?p1 = q_scope p" "q_request ?p1 = q_request p"
      using assms(3) by (simp_all add: set_frame_def)
    have "receipt_matches ?c1 ?p1 rc" using rm p1 kp(3) by (simp add: receipt_matches_def)
    moreover have "available ?c1 = ([], ?c1)"
      using persist_available [OF av pr0, where a = "ph_Attempt (pf_Header f)" and x = "Some ?p1"] by simp
    ultimately have "ObserveReceipt E receipt ?c1 w' =
        match E (?c1\<lparr>c_pending := Some (?p1\<lparr>q_receipt := Some rc, q_rawReceipt := Some receipt\<rparr>)\<rparr>) w'"
      using ObserveReceipt_pending [of ?c1 ?p1] p1 dec by simp
    with m kp(1)
    have "ObserveReceipt E receipt ?c1 w' = ([], c2, w2)" by (simp add: set_frame_receipt)
    with first show ?thesis by blast
  qed
qed

text \<open>(C30) The response of the API may arrive before or after the frame. For a pending request that has neither yet,
  the frame followed by the receipt is accepted exactly if the receipt followed by the frame is, and
  both orders leave the same correlator, the same journal and the same file.\<close>

theorem receipt_frame_commute:
  assumes "c_pending c = Some p" "q_frame p = None" "q_receipt p = None"
    and "DecodeProducerFrame (je_lib E) frame = Inr f" "ph_RequestID (pf_Header f) \<noteq> None"
  shows "(\<exists>c1 w1. ObserveFrame E frame c w = ([], c1, w1) \<and> ObserveReceipt E receipt c1 w1 = ([], c2, w2)) \<longleftrightarrow>
    (\<exists>c1 w1. ObserveReceipt E receipt c w = ([], c1, w1) \<and> ObserveFrame E frame c1 w1 = ([], c2, w2))"
  using frame_then_receipt [OF assms] receipt_then_frame [OF assms] by blast

text \<open>(C22) A fence is durable evidence: whenever \<open>Fence\<close> returns one, whatever sequence of calls and
  file behaviour preceded it, the journal file consists of complete lines, and among its records are
  the intent to send the fence's request with its scope, after it the frame, with exact bytes that decode to the fence's header and have the recorded hash,
  and after it the correlation, whose receipt decodes to the same header and cutoff and which
  refers to that frame; the header answers the fence's request.\<close>

theorem fence_is_durable:
  assumes "Open (os_env L) io directory sandboxID ident w = (Inr (Some j), w1)" "of_data w = []"
    and "NewCorrelator (os_env L) j inc w1 = (Inr c, j2, w2)"
    and "correlator_run (os_env L) xs (c, w2) = (c', w3)" "Fence c' = (Inr (Some f), c'')"
  shows "\<exists>rs. of_data w3 = concat (map (line (os_env L)) rs) \<and> record_chain rs \<and> fence_recorded L rs f"
proof -
  have "jinv (os_env L) of_data [] [j_last j] j w1"
    using os.start_journal_jinv(1) [OF Open_Some [OF assms(1)]] assms(2) by simp
  from os.NewCorrelator_cinv(1) [OF this assms(3)] obtain r
    where "cinv (os_env L) of_data [] ([j_last j] @ [r]) c w2" by blast
  from os.correlator_run_cinv [OF this assms(4)] obtain rs where i: "cinv (os_env L) of_data [] rs c' w3" by blast
  obtain e0 c0 where a: "available c' = (e0, c0)" by fastforce
  with assms(5) have e: "e0 = []" and l: "c_last c0 = Some f" by (auto simp: Fence_def split: if_splits)
  from available_ok [OF a [unfolded e]] have c0: "c0 = c'" "j_failed (c_journal c') = []" by auto
  from i c0(2) have "of_data w3 = concat (map (line (os_env L)) rs)" "record_chain rs"
    by (auto simp: cinv_def jinv_def jlog_def)
  moreover have "fence_recorded L rs f" using i l c0(1) by (simp add: cinv_def os_env_def)
  ultimately show ?thesis by blast
qed

section \<open>A concrete exchange\<close>

text \<open>A library in which a few short byte strings stand for the JSON texts of an exchange: a
  baseline frame and receipt, and a terminal frame with one device and its receipt.\<close>

definition demo_header :: "string \<Rightarrow> string \<Rightarrow> string \<Rightarrow> json" where
  "demo_header attempt seq ident =
     JObj [(''schema'', JStr ProducerSchema), (''incarnation'', JStr ''inc''), (''attempt_sequence'', JNum attempt),
           (''request_sequence'', JNum seq), (''request_id'', JStr ident), (''loss_detected'', JBool False)]"

definition demo_device :: json where
  "demo_device = JObj [(''tx_bytes_count'', JNum ''5''), (''rx_bytes_count'', JNum ''7'')]"

definition demo_parse :: "bytes \<Rightarrow> json option" where
  "demo_parse b =
     (if b = [1, 10] then Some (JObj [(''measurement'', demo_header ''1'' ''1'' ''a''), (''metrics'', JObj [])])
      else if b = [2] then Some (demo_header ''1'' ''1'' ''a'')
      else if b = [3, 10] then Some (JObj [(''measurement'', demo_header ''2'' ''2'' ''b''),
        (''metrics'', JObj [(''net_eth0'', demo_device), (''net'', demo_device)]),
        (''terminal_cutoff'', JStr TerminalCutoff)])
      else if b = [4] then Some (JObj [(''schema'', JStr TerminalSchema), (''cutoff'', JStr TerminalCutoff),
        (''measurement'', demo_header ''2'' ''2'' ''b'')])
      else None)"

definition proto_lib :: jstd where
  "proto_lib = demo_lib\<lparr>json_parse := demo_parse, sha256hex := (\<lambda>b. replicate 64 (CHR ''0''))\<rparr>"

definition proto_file :: os_file where
  "proto_file = \<lparr>of_data = [], of_writes = [], of_syncs = [], of_close = [], of_clock = [5, 6, 7, 8, 9]\<rparr>"

definition proto_opened :: "Journal \<times> os_file" where
  "proto_opened = (case Open (os_env proto_lib) demo_io ''/j'' ''sbx'' ''j1'' proto_file of
     (Inr (Some j), w) \<Rightarrow> (j, w) | (_, w) \<Rightarrow> (new_journal (initial_record '''' ''''), w))"

definition proto_new :: "Correlator \<times> Journal \<times> os_file" where
  "proto_new = (case NewCorrelator (os_env proto_lib) (fst proto_opened) ''inc'' (snd proto_opened) of
     (Inr c, j, w) \<Rightarrow> (c, j, w)
   | (Inl _, j, w) \<Rightarrow> (\<lparr>c_journal = j, c_incarnation = '''', c_attempt = 0, c_requestSequence = 0,
                       c_baseline = False, c_preboot = False, c_activity = False, c_pending = None,
                       c_last = None, c_failed = [], c_closed = False\<rparr>, j, w))"

definition proto_start :: "Correlator \<times> os_file" where
  "proto_start = (fst proto_new, snd (snd proto_new))"

definition proto_begun :: "Correlator \<times> os_file" where
  "proto_begun = correlator_run (os_env proto_lib) [CBegin ''a'' BaselineScope] proto_start"

lemma proto_opened: "Open (os_env proto_lib) demo_io ''/j'' ''sbx'' ''j1'' proto_file =
    (Inr (Some (fst proto_opened)), snd proto_opened)"
  by code_simp

lemma proto_new: "NewCorrelator (os_env proto_lib) (fst proto_opened) ''inc'' (snd proto_opened) =
    (Inr (fst proto_new), fst (snd proto_new), snd (snd proto_new))"
  by code_simp

theorem receipt_frame_commute_witness:
  "\<exists>c2 w2. map_option df_CorrelationSequence (c_last c2) = Some 4 \<and>
    (\<exists>c1 w1. ObserveFrame (os_env proto_lib) [1, 10] (fst proto_begun) (snd proto_begun) = ([], c1, w1) \<and>
       ObserveReceipt (os_env proto_lib) [2] c1 w1 = ([], c2, w2)) \<and>
    (\<exists>c1 w1. ObserveReceipt (os_env proto_lib) [2] (fst proto_begun) (snd proto_begun) = ([], c1, w1) \<and>
       ObserveFrame (os_env proto_lib) [1, 10] c1 w1 = ([], c2, w2))"
proof -
  let ?E = "os_env proto_lib" and ?c = "fst proto_begun" and ?w = "snd proto_begun"
  let ?o = "ObserveReceipt ?E [2] ?c ?w"
  let ?q = "ObserveFrame ?E [1, 10] (fst (snd ?o)) (snd (snd ?o))"
  obtain p where p: "c_pending ?c = Some p" "q_frame p = None" "q_receipt p = None"
  proof -
    have "(case c_pending ?c of None \<Rightarrow> False | Some p \<Rightarrow> q_frame p = None \<and> q_receipt p = None)" by code_simp
    then show thesis using that by (auto split: option.splits)
  qed
  have d: "(case DecodeProducerFrame (je_lib ?E) [1, 10] of Inl _ \<Rightarrow> False | Inr f \<Rightarrow> ph_RequestID (pf_Header f) \<noteq> None)"
    by code_simp
  then obtain f where f: "DecodeProducerFrame (je_lib ?E) [1, 10] = Inr f" "ph_RequestID (pf_Header f) \<noteq> None"
    by (auto split: sum.splits)
  have e: "fst ?o = []" "fst ?q = []" "map_option df_CorrelationSequence (c_last (fst (snd ?q))) = Some 4"
    by code_simp+
  then have r: "\<exists>c1 w1. ObserveReceipt ?E [2] ?c ?w = ([], c1, w1) \<and> ObserveFrame ?E [1, 10] c1 w1 = ([], fst (snd ?q), snd (snd ?q))"
    by (metis prod.collapse)
  from receipt_frame_commute [OF p f, of ?w "[2]" "fst (snd ?q)" "snd (snd ?q)"] r e(3) show ?thesis by blast
qed

theorem fence_is_durable_witness:
  "let s = correlator_run (os_env proto_lib) [CBegin ''a'' BaselineScope, CReceipt [2], CFrame [1, 10]] proto_start
   in \<exists>rs f. fst (Fence (fst s)) = Inr (Some f) \<and> df_Scope f = BaselineScope \<and> df_FrameSequence f = 3 \<and>
     of_data (snd s) = concat (map (line (os_env proto_lib)) rs) \<and> record_chain rs \<and> fence_recorded proto_lib rs f"
proof -
  let ?E = "os_env proto_lib" and ?xs = "[CBegin ''a'' BaselineScope, CReceipt [2], CFrame [1, 10]]"
  let ?s = "correlator_run ?E ?xs proto_start"
  have d: "of_data proto_file = []" by (simp add: proto_file_def)
  have "(case Fence (fst ?s) of (Inr (Some f), c) \<Rightarrow> df_Scope f = BaselineScope \<and> df_FrameSequence f = 3 | _ \<Rightarrow> False)" by code_simp
  then obtain f c where f: "Fence (fst ?s) = (Inr (Some f), c)" "df_Scope f = BaselineScope" "df_FrameSequence f = 3"
    by (auto split: prod.splits sum.splits option.splits)
  have r: "correlator_run ?E ?xs (fst proto_new, snd (snd proto_new)) = (fst ?s, snd ?s)"
    by (simp add: proto_start_def)
  from fence_is_durable [OF proto_opened d proto_new r f(1)] f show ?thesis by (auto simp: Let_def)
qed

end
