(* ===== verification/RecordJson.thy ===== *)
theory RecordJson
  imports Journal
begin

text \<open>
  Journal records as JSON (the tags of \<open>Record\<close>, \<open>ProducerEvidence\<close>, \<open>ProducerRequest\<close>, \<open>ProducerHeader\<close> and
  \<open>WorkloadBinding\<close>) and the strict decoder of the consumer (\<open>networkusage/consumer_json.go\<close>). The
  decoder walks a value along the Go type of its target, which \<open>reflect\<close> gives it: here the type is
  a value of the datatype \<open>shape\<close>. The text of a JSON value is the business of \<open>encoding/json\<close> and a parameter; what
  is in the value is not.

  A Go string is a \<open>string\<close> and stands for valid UTF-8 (\<open>Open\<close> and \<open>WorkloadBinding.validate\<close> refuse
  others): \<open>encoding/json\<close> would replace other bytes.
\<close>

section \<open>Numbers and headers as text\<close>

text \<open>\<open>strconv.FormatUint(n, 10)\<close>.\<close>

function format_digits :: "int \<Rightarrow> string \<Rightarrow> string" where
  "format_digits n acc =
     (if n < 10 then char_of (nat (48 + n)) # acc
      else format_digits (n div 10) (char_of (nat (48 + n mod 10)) # acc))"
  by pat_completeness auto
termination
  by (relation "measure (\<lambda>(n, acc). nat n)") auto

declare format_digits.simps [simp del]

definition FormatUint :: "int \<Rightarrow> string" where
  "FormatUint n = format_digits n []"

text \<open>\<open>json.Marshal\<close> of a header.\<close>

definition header_json :: "ProducerHeader \<Rightarrow> json" where
  "header_json h =
     JObj [(''schema'', JStr (ph_Schema h)), (''incarnation'', JStr (ph_Incarnation h)),
           (''attempt_sequence'', JNum (FormatUint (ph_Attempt h))),
           (''request_sequence'', case ph_RequestSequence h of None \<Rightarrow> JNull | Some s \<Rightarrow> JNum (FormatUint s)),
           (''request_id'', case ph_RequestID h of None \<Rightarrow> JNull | Some i \<Rightarrow> JStr i),
           (''loss_detected'', JBool (ph_Loss h))]"

definition FormatInt :: "int \<Rightarrow> string" where
  "FormatInt n = (if n < 0 then CHR ''-'' # FormatUint (- n) else FormatUint n)"

definition int64_ok :: "int \<Rightarrow> bool" where
  "int64_ok n \<longleftrightarrow> - 9223372036854775808 \<le> n \<and> n \<le> 9223372036854775807"

text \<open>\<open>strconv.ParseInt(s, 10, 64)\<close> of a JSON number (which has no leading plus sign).\<close>

definition ParseInt :: "string \<Rightarrow> int option" where
  "ParseInt s =
     (let v = (case s of c # cs \<Rightarrow> if c = CHR ''-'' then map_option uminus (ParseUint cs) else ParseUint s
               | [] \<Rightarrow> None)
      in case v of None \<Rightarrow> None | Some n \<Rightarrow> if int64_ok n then Some n else None)"

section \<open>Records as JSON\<close>

text \<open>A member with the tag \<open>omitempty\<close>.\<close>

definition omit :: "bool \<Rightarrow> string \<Rightarrow> json \<Rightarrow> (string \<times> json) list" where
  "omit zero k v = (if zero then [] else [(k, v)])"

definition workload_json :: "WorkloadBinding \<Rightarrow> json" where
  "workload_json w =
     JObj [(''SandboxID'', JStr (wb_SandboxID w)), (''ExecutionID'', JStr (wb_ExecutionID w)),
           (''TemplateID'', JStr (wb_TemplateID w)), (''BuildID'', JStr (wb_BuildID w)),
           (''TeamID'', JStr (wb_TeamID w)), (''LifecycleID'', JStr (wb_LifecycleID w)),
           (''ProducerSHA256'', JStr (wb_ProducerSHA256 w)),
           (''ProducerIncarnation'', JStr (wb_ProducerIncarnation w))]"

definition request_json :: "ProducerRequest \<Rightarrow> json" where
  "request_json q =
     JObj [(''incarnation'', JStr (pr_Incarnation q)), (''request_sequence'', JNum (FormatUint (pr_Sequence q))),
           (''request_id'', JStr (pr_ID q))]"

definition evidence_json :: "jstd \<Rightarrow> ProducerEvidence \<Rightarrow> json" where
  "evidence_json L p =
     JObj ([(''incarnation'', JStr (pe_Incarnation p))] @
       (case pe_Request p of None \<Rightarrow> [] | Some q \<Rightarrow> [(''request'', request_json q)]) @
       (case pe_Header p of None \<Rightarrow> [] | Some h \<Rightarrow> [(''header'', header_json h)]) @
       omit (pe_Scope p = '''') ''scope'' (JStr (pe_Scope p)) @
       omit (pe_NetworkScope p = '''') ''networkScope'' (JStr (pe_NetworkScope p)) @
       omit (pe_Cutoff p = '''') ''cutoff'' (JStr (pe_Cutoff p)) @
       (case pe_Raw p of None \<Rightarrow> [] | Some b \<Rightarrow> omit (b = []) ''raw'' (JStr (b64_encode L b))) @
       omit (pe_SHA256 p = '''') ''sha256'' (JStr (pe_SHA256 p)) @
       omit (pe_Bytes p = 0) ''bytes'' (JNum (FormatInt (pe_Bytes p))) @
       omit (pe_FrameSequence p = 0) ''frameSequence'' (JStr (FormatUint (pe_FrameSequence p))) @
       omit (pe_FrameSHA256 p = '''') ''frameSha256'' (JStr (pe_FrameSHA256 p)) @
       omit (pe_FrameBytes p = 0) ''frameBytes'' (JNum (FormatInt (pe_FrameBytes p))))"

definition record_json :: "jstd \<Rightarrow> Record \<Rightarrow> json" where
  "record_json L r =
     JObj ((case r_Workload r of None \<Rightarrow> [] | Some w \<Rightarrow> [(''workload'', workload_json w)]) @
       (case r_Producer r of None \<Rightarrow> [] | Some p \<Rightarrow> [(''producer'', evidence_json L p)]) @
       [(''schemaVersion'', JNum (FormatInt (r_SchemaVersion r))), (''kind'', JStr (r_Kind r)),
        (''sandboxId'', JStr (r_SandboxID r)), (''incarnation'', JStr (r_Incarnation r)),
        (''sequence'', JStr (FormatUint (r_Sequence r))), (''observedAt'', JStr (r_ObservedAt r)),
        (''txBytes'', JStr (FormatUint (r_TxBytes r))), (''rxBytes'', JStr (FormatUint (r_RxBytes r))),
        (''deltaTxBytes'', JStr (FormatUint (r_DeltaTxBytes r))),
        (''deltaRxBytes'', JStr (FormatUint (r_DeltaRxBytes r))),
        (''valid'', JBool (r_Valid r)), (''complete'', JBool (r_Complete r))] @
       omit (r_Reason r = '''') ''reason'' (JStr (r_Reason r)))"

section \<open>The strict decoder\<close>

text \<open>The Go types that are decoded. A field has a name, the options \<open>omitempty\<close> and \<open>string\<close> of its
  tag, and a type.\<close>

datatype shape =
    SPtr shape
  | SStruct "(string \<times> bool \<times> bool \<times> shape) list"
  | SSlice shape
  | SBytes
  | SString
  | SBool
  | SUint
  | SInt

definition workload_shape :: shape where
  "workload_shape = SStruct (map (\<lambda>n. (n, False, False, SString))
     [''SandboxID'', ''ExecutionID'', ''TemplateID'', ''BuildID'', ''TeamID'', ''LifecycleID'', ''ProducerSHA256'',
      ''ProducerIncarnation''])"

definition request_shape :: shape where
  "request_shape = SStruct [(''incarnation'', False, False, SString), (''request_sequence'', False, False, SUint),
     (''request_id'', False, False, SString)]"

definition header_shape :: shape where
  "header_shape = SStruct [(''schema'', False, False, SString), (''incarnation'', False, False, SString),
     (''attempt_sequence'', False, False, SUint), (''request_sequence'', False, False, SPtr SUint),
     (''request_id'', False, False, SPtr SString), (''loss_detected'', False, False, SBool)]"

definition evidence_shape :: shape where
  "evidence_shape = SStruct [(''incarnation'', False, False, SString), (''request'', True, False, SPtr request_shape),
     (''header'', True, False, SPtr header_shape), (''scope'', True, False, SString),
     (''networkScope'', True, False, SString), (''cutoff'', True, False, SString), (''raw'', True, False, SBytes),
     (''sha256'', True, False, SString), (''bytes'', True, False, SInt), (''frameSequence'', True, True, SUint),
     (''frameSha256'', True, False, SString), (''frameBytes'', True, False, SInt)]"

definition record_shape :: shape where
  "record_shape = SStruct [(''workload'', True, False, SPtr workload_shape), (''producer'', True, False, SPtr evidence_shape),
     (''schemaVersion'', False, False, SInt), (''kind'', False, False, SString), (''sandboxId'', False, False, SString),
     (''incarnation'', False, False, SString), (''sequence'', False, True, SUint), (''observedAt'', False, False, SString),
     (''txBytes'', False, True, SUint), (''rxBytes'', False, True, SUint), (''deltaTxBytes'', False, True, SUint),
     (''deltaRxBytes'', False, True, SUint), (''valid'', False, False, SBool), (''complete'', False, False, SBool),
     (''reason'', True, False, SString)]"

definition first_err :: "gerr list \<Rightarrow> gerr" where
  "first_err es = (case filter (\<lambda>e. e \<noteq> []) es of [] \<Rightarrow> [] | e # _ \<Rightarrow> e)"

text \<open>\<open>json.Unmarshal\<close> into a \<open>[]byte\<close>: a base64 string, \<open>null\<close>, or an array of small numbers.\<close>

definition bytes_err :: "jstd \<Rightarrow> json \<Rightarrow> gerr" where
  "bytes_err L v =
     (case v of
        JNull \<Rightarrow> []
      | JStr s \<Rightarrow> if b64_decode L s = None then [Err ''json''] else []
      | JArr vs \<Rightarrow> if list_all (\<lambda>x. case x of JNull \<Rightarrow> True
                                | JNum s \<Rightarrow> (case ParseUint s of None \<Rightarrow> False | Some n \<Rightarrow> n < 256) | _ \<Rightarrow> False) vs
                   then [] else [Err ''json'']
      | _ \<Rightarrow> [Err ''json''])"

text \<open>The case of a field with the option \<open>string\<close>. A \<open>null\<close> leaves the string empty, which is not
  a number.\<close>

definition string_integer :: "json \<Rightarrow> gerr" where
  "string_integer v =
     (case v of
        JStr s \<Rightarrow> (case ParseUint s of
            None \<Rightarrow> [Err ''noncanonical journal integer'']
          | Some n \<Rightarrow> if FormatUint n \<noteq> s then [Err ''noncanonical journal integer''] else [])
      | JNull \<Rightarrow> [Err ''noncanonical journal integer'']
      | _ \<Rightarrow> [Err ''json''])"

definition scalar_err :: "bool \<Rightarrow> json \<Rightarrow> gerr" where
  "scalar_err fits v = (if v = JNull then [Err ''null retained scalar''] else if fits then [] else [Err ''json''])"

fun consumerShape :: "jstd \<Rightarrow> json \<Rightarrow> shape \<Rightarrow> bool \<Rightarrow> gerr"
  and shape_fields :: "jstd \<Rightarrow> (string \<times> json) list \<Rightarrow> (string \<times> bool \<times> bool \<times> shape) list \<Rightarrow> gerr" where
  "consumerShape L v (SPtr t) stringInteger = (if v = JNull then [] else consumerShape L v t stringInteger)"
| "consumerShape L v t True = string_integer v"
| "consumerShape L v (SStruct fs) False =
     (case v of
        JObj kvs \<Rightarrow>
          let e = shape_fields L kvs fs in
          if e \<noteq> [] then e
          else if list_all (\<lambda>(k, _). k \<in> fst ` set fs) kvs then []
          else [Err ''unknown retained field'']
      | JNull \<Rightarrow> [Err ''required retained object'']
      | _ \<Rightarrow> [Err ''json''])"
| "consumerShape L v SBytes False = bytes_err L v"
| "consumerShape L v (SSlice t) False =
     (case v of
        JArr vs \<Rightarrow> first_err (map (\<lambda>x. consumerShape L x t False) vs)
      | JNull \<Rightarrow> []
      | _ \<Rightarrow> [Err ''json''])"
| "consumerShape L v SString False = scalar_err (result_gerr (unmarshal_string v) = []) v"
| "consumerShape L v SBool False = scalar_err (result_gerr (unmarshal_bool v) = []) v"
| "consumerShape L v SUint False = scalar_err (result_gerr (unmarshal_u64 v) = []) v"
| "consumerShape L v SInt False = scalar_err (case v of JNum s \<Rightarrow> ParseInt s \<noteq> None | _ \<Rightarrow> False) v"
| "shape_fields L kvs [] = []"
| "shape_fields L kvs ((name, optional, integer, t) # fs) =
     (let e = (case map_of kvs name of
                 None \<Rightarrow> if optional then [] else [Err ''missing retained field'']
               | Some v \<Rightarrow> consumerShape L v t integer)
      in if e \<noteq> [] then e else shape_fields L kvs fs)"

text \<open>\<open>d.Decode\<close>, after the shape has been checked: each member that is there has the type of its
  field, and one that is not leaves the zero value.\<close>

definition get_string :: "(string \<times> json) list \<Rightarrow> string \<Rightarrow> string" where
  "get_string m k = (case map_of m k of Some (JStr s) \<Rightarrow> s | _ \<Rightarrow> '''')"

definition get_bool :: "(string \<times> json) list \<Rightarrow> string \<Rightarrow> bool" where
  "get_bool m k = (case map_of m k of Some (JBool b) \<Rightarrow> b | _ \<Rightarrow> False)"

definition get_num :: "(string \<times> json) list \<Rightarrow> string \<Rightarrow> int" where
  "get_num m k = (case map_of m k of Some (JNum s) \<Rightarrow> (case ParseInt s of Some n \<Rightarrow> n | None \<Rightarrow> 0) | _ \<Rightarrow> 0)"

definition get_uint :: "(string \<times> json) list \<Rightarrow> string \<Rightarrow> int" where
  "get_uint m k = (case map_of m k of Some (JNum s) \<Rightarrow> (case ParseUint s of Some n \<Rightarrow> n | None \<Rightarrow> 0) | _ \<Rightarrow> 0)"

definition get_string_uint :: "(string \<times> json) list \<Rightarrow> string \<Rightarrow> int" where
  "get_string_uint m k = (case ParseUint (get_string m k) of Some n \<Rightarrow> n | None \<Rightarrow> 0)"

definition get_bytes :: "jstd \<Rightarrow> (string \<times> json) list \<Rightarrow> string \<Rightarrow> bytes option" where
  "get_bytes L m k =
     (case map_of m k of
        Some (JStr s) \<Rightarrow> b64_decode L s
      | Some (JArr vs) \<Rightarrow> Some (map (\<lambda>x. case x of JNum s \<Rightarrow> (case ParseUint s of Some n \<Rightarrow> word_of_int n | None \<Rightarrow> 0) | _ \<Rightarrow> 0) vs)
      | _ \<Rightarrow> None)"

text \<open>A struct, and a pointer to one.\<close>

definition members :: "json \<Rightarrow> (string \<times> json) list" where
  "members v = (case v of JObj m \<Rightarrow> m | _ \<Rightarrow> [])"

definition get_ptr :: "(json \<Rightarrow> 'a) \<Rightarrow> (string \<times> json) list \<Rightarrow> string \<Rightarrow> 'a option" where
  "get_ptr f m k = (case map_of m k of None \<Rightarrow> None | Some v \<Rightarrow> if v = JNull then None else Some (f v))"

definition decode_workload :: "json \<Rightarrow> WorkloadBinding" where
  "decode_workload v = (let m = members v in
     \<lparr>wb_SandboxID = get_string m ''SandboxID'', wb_ExecutionID = get_string m ''ExecutionID'',
      wb_TemplateID = get_string m ''TemplateID'', wb_BuildID = get_string m ''BuildID'',
      wb_TeamID = get_string m ''TeamID'', wb_LifecycleID = get_string m ''LifecycleID'',
      wb_ProducerSHA256 = get_string m ''ProducerSHA256'',
      wb_ProducerIncarnation = get_string m ''ProducerIncarnation''\<rparr>)"

definition decode_request :: "json \<Rightarrow> ProducerRequest" where
  "decode_request v = (let m = members v in
     \<lparr>pr_Incarnation = get_string m ''incarnation'', pr_Sequence = get_uint m ''request_sequence'',
      pr_ID = get_string m ''request_id''\<rparr>)"

definition decode_header :: "json \<Rightarrow> ProducerHeader" where
  "decode_header v = (let m = members v in
     \<lparr>ph_Schema = get_string m ''schema'', ph_Incarnation = get_string m ''incarnation'',
      ph_Attempt = get_uint m ''attempt_sequence'',
      ph_RequestSequence = get_ptr (\<lambda>_. get_uint m ''request_sequence'') m ''request_sequence'',
      ph_RequestID = get_ptr (\<lambda>_. get_string m ''request_id'') m ''request_id'', ph_Loss = get_bool m ''loss_detected''\<rparr>)"

definition decode_evidence :: "jstd \<Rightarrow> json \<Rightarrow> ProducerEvidence" where
  "decode_evidence L v = (let m = members v in
     \<lparr>pe_Incarnation = get_string m ''incarnation'', pe_Request = get_ptr decode_request m ''request'',
      pe_Header = get_ptr decode_header m ''header'', pe_Scope = get_string m ''scope'',
      pe_NetworkScope = get_string m ''networkScope'', pe_Cutoff = get_string m ''cutoff'',
      pe_Raw = get_bytes L m ''raw'', pe_SHA256 = get_string m ''sha256'', pe_Bytes = get_num m ''bytes'',
      pe_FrameSequence = get_string_uint m ''frameSequence'', pe_FrameSHA256 = get_string m ''frameSha256'',
      pe_FrameBytes = get_num m ''frameBytes''\<rparr>)"

definition decode_record :: "jstd \<Rightarrow> json \<Rightarrow> Record" where
  "decode_record L v = (let m = members v in
     \<lparr>r_Workload = get_ptr decode_workload m ''workload'', r_Producer = get_ptr (decode_evidence L) m ''producer'',
      r_SchemaVersion = get_num m ''schemaVersion'', r_Kind = get_string m ''kind'',
      r_SandboxID = get_string m ''sandboxId'', r_Incarnation = get_string m ''incarnation'',
      r_Sequence = get_string_uint m ''sequence'', r_ObservedAt = get_string m ''observedAt'',
      r_TxBytes = get_string_uint m ''txBytes'', r_RxBytes = get_string_uint m ''rxBytes'',
      r_DeltaTxBytes = get_string_uint m ''deltaTxBytes'', r_DeltaRxBytes = get_string_uint m ''deltaRxBytes'',
      r_Valid = get_bool m ''valid'', r_Complete = get_bool m ''complete'', r_Reason = get_string m ''reason''\<rparr>)"

definition decodeConsumerJSON :: "jstd \<Rightarrow> bytes \<Rightarrow> Record result" where
  "decodeConsumerJSON L raw =
     (case checkJSON L raw of
        e # _ \<Rightarrow> Inl e
      | [] \<Rightarrow>
          bindR (json_value L raw) (\<lambda>v.
            case consumerShape L v record_shape False of
              e # _ \<Rightarrow> Inl e
            | [] \<Rightarrow> Inr (decode_record L v)))"

section \<open>A record survives encoding and decoding\<close>

text \<open>JSON omits an empty byte slice, so that it is read back as \<open>nil\<close>.\<close>

definition canon_evidence :: "ProducerEvidence \<Rightarrow> ProducerEvidence" where
  "canon_evidence p = (if pe_Raw p = Some [] then p\<lparr>pe_Raw := None\<rparr> else p)"

definition canon :: "Record \<Rightarrow> Record" where
  "canon r = r\<lparr>r_Producer := map_option canon_evidence (r_Producer r)\<rparr>"


lemma char_code_digit: "0 \<le> d \<Longrightarrow> d < 10 \<Longrightarrow> char_code (char_of (nat (48 + d))) = 48 + d"
proof -
  assume d: "0 \<le> d" "d < 10"
  then have "nat (48 + d) < 256" by simp
  then have "of_char (char_of (nat (48 + d)) :: char) = nat (48 + d)" by simp
  then have "int (of_char (char_of (nat (48 + d)) :: char)) = 48 + d" using d by simp
  then show ?thesis unfolding char_code_def by (simp only: of_nat_of_char)
qed

lemma parse_format_digits:
  assumes "0 \<le> n"
  shows "\<exists>k \<ge> 0. \<forall>a. parse_digits a (format_digits n acc) = parse_digits (a * 10 ^ nat k + n) acc"
  using assms
proof (induction n arbitrary: acc rule: measure_induct_rule [where f = nat])
  case (less n)
  show ?case
  proof (cases "n < 10")
    case True
    have "parse_digits a (format_digits n acc) = parse_digits (a * 10 ^ nat 1 + n) acc" for a
      using True less.prems char_code_digit [of n] by (simp add: format_digits.simps [of n] mult.commute)
    then show ?thesis by (intro exI [of _ 1]) simp
  next
    case False
    let ?acc = "char_of (nat (48 + n mod 10)) # acc"
    have "nat (n div 10) < nat n" "0 \<le> n div 10" using False less.prems by auto
    from less.IH [OF this, of ?acc] obtain k where k: "0 \<le> k"
      "\<And>a. parse_digits a (format_digits (n div 10) ?acc) = parse_digits (a * 10 ^ nat k + n div 10) ?acc" by blast
    have c: "char_code (char_of (nat (48 + n mod 10))) = 48 + n mod 10" by (rule char_code_digit) simp_all
    have m: "n mod 10 \<le> 9" using pos_mod_bound [of 10 n] by linarith
    have "parse_digits a (format_digits n acc) = parse_digits (a * 10 ^ nat (k + 1) + n) acc" for a
    proof -
      have "parse_digits a (format_digits n acc) = parse_digits (10 * (a * 10 ^ nat k + n div 10) + n mod 10) acc"
        using False c m by (simp add: format_digits.simps [of n] k(2))
      also have "10 * (a * 10 ^ nat k + n div 10) + n mod 10 = a * 10 ^ nat (k + 1) + n"
        using k(1) by (simp add: nat_add_distrib algebra_simps)
      finally show ?thesis .
    qed
    with k(1) show ?thesis by (intro exI [of _ "k + 1"]) auto
  qed
qed

lemma format_digits_nonempty: "format_digits n acc \<noteq> []"
proof (induction n acc rule: format_digits.induct)
  case (1 n acc)
  then show ?case by (subst format_digits.simps) simp
qed

lemma ParseUint_FormatUint: "u64_ok n \<Longrightarrow> ParseUint (FormatUint n) = Some n"
proof -
  assume u: "u64_ok n"
  then obtain k where "\<And>a. parse_digits a (format_digits n []) = parse_digits (a * 10 ^ nat k + n) []"
    using parse_format_digits [of n "[]"] by (auto simp: u64_ok_def)
  from this [of 0] u show ?thesis by (simp add: ParseUint_def FormatUint_def format_digits_nonempty u64_ok_def)
qed

lemma decode_header_json: "header_ok h \<Longrightarrow> decodeHeader (header_json h) = Inr h"
proof -
  assume h: "header_ok h"
  have a: "ParseUint (FormatUint (ph_Attempt h)) = Some (ph_Attempt h)"
    using h by (auto simp: header_ok_def intro: ParseUint_FormatUint)
  show ?thesis
  proof (cases "ph_RequestID h")
    case None
    with h have "ph_RequestSequence h = None" by (auto simp: header_ok_def split: option.splits)
    with None h a show ?thesis
      by (auto simp: decodeHeader_def header_json_def object_def required_def nullable_def unmarshal_ptr_def
          unmarshal_string_def unmarshal_u64_def unmarshal_bool_def header_ok_def)
  next
    case (Some i)
    with h obtain s where s: "ph_RequestSequence h = Some s" "tokenOK i" "u64_ok s" "s \<noteq> 0"
      by (auto simp: header_ok_def split: option.splits)
    with Some h a ParseUint_FormatUint [OF s(3)] show ?thesis
      by (auto simp: decodeHeader_def header_json_def object_def required_def nullable_def unmarshal_ptr_def
          unmarshal_string_def unmarshal_u64_def unmarshal_bool_def header_ok_def)
  qed
qed

lemma ParseInt_FormatInt:
  assumes "int64_ok n"
  shows "ParseInt (FormatInt n) = Some n"
proof (cases "n < 0")
  case True
  with assms have "ParseUint (FormatUint (- n)) = Some (- n)"
    by (intro ParseUint_FormatUint) (simp add: int64_ok_def u64_ok_def max_u64_def)
  with True assms show ?thesis by (simp add: ParseInt_def FormatInt_def)
next
  case False
  with assms have p: "ParseUint (FormatUint n) = Some n"
    by (intro ParseUint_FormatUint) (simp add: int64_ok_def u64_ok_def max_u64_def)
  then obtain c cs where c: "FormatUint n = c # cs" by (cases "FormatUint n") (auto simp: ParseUint_def)
  with p have "c \<noteq> CHR ''-''" by (auto simp: ParseUint_def char_code_def split: option.splits)
  with False c p assms show ?thesis by (simp add: ParseInt_def FormatInt_def)
qed

lemma map_add_omit [simp]: "(m ++ map_of (omit z k v)) k' = (if \<not> z \<and> k = k' then Some v else m k')"
  by (simp add: omit_def)

lemma map_of_omit_last [simp]: "map_of (omit z k v) k' = (if \<not> z \<and> k = k' then Some v else None)"
  by (simp add: omit_def)

lemma list_all_omit [simp]: "list_all P (omit z k v) \<longleftrightarrow> z \<or> P (k, v)"
  by (simp add: omit_def)

declare shape_fields.simps(2) [simp del]

definition field_fits :: "jstd \<Rightarrow> (string \<times> json) list \<Rightarrow> string \<times> bool \<times> bool \<times> shape \<Rightarrow> bool" where
  "field_fits L kvs f = (case f of (n, optional, integer, t) \<Rightarrow>
     (case map_of kvs n of None \<Rightarrow> optional | Some v \<Rightarrow> consumerShape L v t integer = []))"

lemma field_fits_simp [simp]:
  "field_fits L kvs (n, optional, integer, t) =
     (case map_of kvs n of None \<Rightarrow> optional | Some v \<Rightarrow> consumerShape L v t integer = [])"
  by (simp add: field_fits_def)

lemma shape_fields_Nil: "shape_fields L kvs fs = [] \<longleftrightarrow> list_all (field_fits L kvs) fs"
proof (induction fs)
  case (Cons f fs)
  obtain n optional integer t where f: "f = (n, optional, integer, t)" by (metis prod.exhaust)
  show ?case
    by (cases "map_of kvs n") (simp_all add: f Cons shape_fields.simps(2) Let_def)
qed simp

lemma check_members_Nil:
  "check_members d seen kvs = [] \<longleftrightarrow>
     distinct (map fst kvs) \<and> set seen \<inter> fst ` set kvs = {} \<and> list_all (\<lambda>kv. check_value (d + 1) (snd kv) = []) kvs"
proof (induction kvs arbitrary: seen)
  case (Cons kv kvs)
  obtain k v where kv: "kv = (k, v)" by (metis prod.exhaust)
  show ?case
    by (cases "check_value (d + 1) v = []") (auto simp: kv Cons Let_def simp del: check_value.simps)
qed simp

text \<open>The values of the Go types: numbers fit their width.\<close>

definition request_fits :: "ProducerRequest \<Rightarrow> bool" where
  "request_fits q \<longleftrightarrow> u64_ok (pr_Sequence q)"

definition header_fits :: "ProducerHeader \<Rightarrow> bool" where
  "header_fits h \<longleftrightarrow> u64_ok (ph_Attempt h) \<and> (case ph_RequestSequence h of None \<Rightarrow> True | Some s \<Rightarrow> u64_ok s)"

definition evidence_fits :: "ProducerEvidence \<Rightarrow> bool" where
  "evidence_fits p \<longleftrightarrow>
     (case pe_Request p of None \<Rightarrow> True | Some q \<Rightarrow> request_fits q) \<and>
     (case pe_Header p of None \<Rightarrow> True | Some h \<Rightarrow> header_fits h) \<and>
     int64_ok (pe_Bytes p) \<and> u64_ok (pe_FrameSequence p) \<and> int64_ok (pe_FrameBytes p)"

definition record_fits :: "Record \<Rightarrow> bool" where
  "record_fits r \<longleftrightarrow>
     (case r_Producer r of None \<Rightarrow> True | Some p \<Rightarrow> evidence_fits p) \<and> int64_ok (r_SchemaVersion r) \<and> u64_ok (r_Sequence r) \<and>
     u64_ok (r_TxBytes r) \<and> u64_ok (r_RxBytes r) \<and> u64_ok (r_DeltaTxBytes r) \<and> u64_ok (r_DeltaRxBytes r)"

definition b64_law :: "jstd \<Rightarrow> bool" where
  "b64_law L \<longleftrightarrow> (\<forall>b. b64_decode L (b64_encode L b) = Some b)"

lemmas scalar_simps = scalar_err_def result_gerr_def unmarshal_string_def unmarshal_bool_def unmarshal_u64_def
  string_integer_def ParseUint_FormatUint ParseInt_FormatInt

lemmas get_simps = members_def get_ptr_def get_string_def get_bool_def get_num_def get_uint_def get_string_uint_def
  get_bytes_def ParseUint_FormatUint ParseInt_FormatInt Let_def

lemma workload_shape_ok: "consumerShape L (workload_json w) workload_shape False = []"
  by (simp add: workload_json_def workload_shape_def shape_fields_Nil scalar_simps)

lemma decode_workload_json: "decode_workload (workload_json w) = w"
  by (simp add: workload_json_def decode_workload_def get_simps)

lemma request_shape_ok: "request_fits q \<Longrightarrow> consumerShape L (request_json q) request_shape False = []"
  by (simp add: request_json_def request_shape_def request_fits_def shape_fields_Nil scalar_simps)

lemma decode_request_json: "request_fits q \<Longrightarrow> decode_request (request_json q) = q"
  by (simp add: request_json_def decode_request_def request_fits_def get_simps)

lemma header_shape_ok: "header_fits h \<Longrightarrow> consumerShape L (header_json h) header_shape False = []"
  by (cases "ph_RequestSequence h"; cases "ph_RequestID h")
    (simp_all add: header_json_def header_shape_def header_fits_def shape_fields_Nil scalar_simps)

lemma decode_header_json_fits: "header_fits h \<Longrightarrow> decode_header (header_json h) = h"
  by (cases h) (auto simp: header_json_def decode_header_def header_fits_def get_simps split: option.splits)

lemmas json_not_null = workload_json_def request_json_def header_json_def evidence_json_def record_json_def

lemma json_is_object [simp]:
  "workload_json w \<noteq> JNull" "request_json q \<noteq> JNull" "header_json h \<noteq> JNull" "evidence_json L p \<noteq> JNull"
  by (simp_all add: json_not_null)

lemma case_omit:
  "(case x of None \<Rightarrow> [] | Some q \<Rightarrow> [(k, f q)]) = omit (x = None) k (f (the x))"
  "(case y of None \<Rightarrow> [] | Some b \<Rightarrow> omit (b = []) k (g b)) = omit (y = None \<or> y = Some []) k (g (the y))"
  by (simp_all add: omit_def split: option.splits)

text \<open>The members of an encoded evidence value and of a record, one by one.\<close>

definition evidence_members :: "jstd \<Rightarrow> ProducerEvidence \<Rightarrow> (string \<times> json) list" where
  "evidence_members L p = members (evidence_json L p)"

lemma evidence_json_members: "evidence_json L p = JObj (evidence_members L p)"
  by (simp add: evidence_members_def members_def evidence_json_def)

lemma evidence_lookup [simp]:
  "map_of (evidence_members L p) ''incarnation'' = Some (JStr (pe_Incarnation p))"
  "map_of (evidence_members L p) ''request'' = map_option request_json (pe_Request p)"
  "map_of (evidence_members L p) ''header'' = map_option header_json (pe_Header p)"
  "map_of (evidence_members L p) ''scope'' = (if pe_Scope p = '''' then None else Some (JStr (pe_Scope p)))"
  "map_of (evidence_members L p) ''networkScope'' = (if pe_NetworkScope p = '''' then None else Some (JStr (pe_NetworkScope p)))"
  "map_of (evidence_members L p) ''cutoff'' = (if pe_Cutoff p = '''' then None else Some (JStr (pe_Cutoff p)))"
  "map_of (evidence_members L p) ''raw'' =
     (if pe_Raw p = None \<or> pe_Raw p = Some [] then None else Some (JStr (b64_encode L (the (pe_Raw p)))))"
  "map_of (evidence_members L p) ''sha256'' = (if pe_SHA256 p = '''' then None else Some (JStr (pe_SHA256 p)))"
  "map_of (evidence_members L p) ''bytes'' = (if pe_Bytes p = 0 then None else Some (JNum (FormatInt (pe_Bytes p))))"
  "map_of (evidence_members L p) ''frameSequence'' =
     (if pe_FrameSequence p = 0 then None else Some (JStr (FormatUint (pe_FrameSequence p))))"
  "map_of (evidence_members L p) ''frameSha256'' = (if pe_FrameSHA256 p = '''' then None else Some (JStr (pe_FrameSHA256 p)))"
  "map_of (evidence_members L p) ''frameBytes'' = (if pe_FrameBytes p = 0 then None else Some (JNum (FormatInt (pe_FrameBytes p))))"
  by (simp_all add: evidence_members_def evidence_json_def members_def case_omit) auto

lemma evidence_keys:
  "list_all (\<lambda>(k, _). k \<in> set [''incarnation'', ''request'', ''header'', ''scope'', ''networkScope'', ''cutoff'', ''raw'',
     ''sha256'', ''bytes'', ''frameSequence'', ''frameSha256'', ''frameBytes'']) (evidence_members L p)"
  by (simp add: evidence_members_def evidence_json_def members_def case_omit)

lemma evidence_shape_ok:
  assumes "b64_law L" "evidence_fits p"
  shows "consumerShape L (evidence_json L p) evidence_shape False = []"
proof -
  have q: "pred_option (\<lambda>q. consumerShape L (request_json q) request_shape False = []) (pe_Request p)"
    using assms(2) by (cases "pe_Request p") (simp_all add: evidence_fits_def request_shape_ok)
  have h: "pred_option (\<lambda>h. consumerShape L (header_json h) header_shape False = []) (pe_Header p)"
    using assms(2) by (cases "pe_Header p") (simp_all add: evidence_fits_def header_shape_ok)
  have "int64_ok (pe_Bytes p)" "u64_ok (pe_FrameSequence p)" "int64_ok (pe_FrameBytes p)"
    using assms(2) by (simp_all add: evidence_fits_def)
  with assms(1) q h evidence_keys [of L p] show ?thesis
    by (cases "pe_Request p"; cases "pe_Header p")
      (simp_all add: evidence_json_members evidence_shape_def shape_fields_Nil scalar_simps bytes_err_def b64_law_def)
qed

lemma decode_evidence_json:
  assumes "b64_law L" "evidence_fits p"
  shows "decode_evidence L (evidence_json L p) = canon_evidence p"
proof -
  have q: "get_ptr decode_request (evidence_members L p) ''request'' = pe_Request p"
    using assms(2) by (cases "pe_Request p") (simp_all add: get_ptr_def evidence_fits_def decode_request_json)
  have h: "get_ptr decode_header (evidence_members L p) ''header'' = pe_Header p"
    using assms(2) by (cases "pe_Header p") (simp_all add: get_ptr_def evidence_fits_def decode_header_json_fits)
  have r: "get_bytes L (evidence_members L p) ''raw'' = (if pe_Raw p = Some [] then None else pe_Raw p)"
    using assms(1) by (cases "pe_Raw p") (simp_all add: get_bytes_def b64_law_def)
  have n: "get_num (evidence_members L p) ''bytes'' = pe_Bytes p"
      "get_num (evidence_members L p) ''frameBytes'' = pe_FrameBytes p"
      "get_string_uint (evidence_members L p) ''frameSequence'' = pe_FrameSequence p"
    using assms(2) by (simp_all add: get_simps evidence_fits_def) (simp_all add: ParseUint_def)
  have s: "get_string (evidence_members L p) ''incarnation'' = pe_Incarnation p"
      "get_string (evidence_members L p) ''scope'' = pe_Scope p"
      "get_string (evidence_members L p) ''networkScope'' = pe_NetworkScope p"
      "get_string (evidence_members L p) ''cutoff'' = pe_Cutoff p"
      "get_string (evidence_members L p) ''sha256'' = pe_SHA256 p"
      "get_string (evidence_members L p) ''frameSha256'' = pe_FrameSHA256 p"
    by (simp_all add: get_string_def)
  show ?thesis
    unfolding decode_evidence_def evidence_json_members members_def json.case Let_def q h r n s
    by (cases p) (simp add: canon_evidence_def)
qed

lemma record_shape_ok:
  assumes "b64_law L" "record_fits r"
  shows "consumerShape L (record_json L r) record_shape False = []"
  using assms
  by (cases "r_Workload r"; cases "r_Producer r")
    (simp_all add: record_json_def record_shape_def record_fits_def shape_fields_Nil scalar_simps
      workload_shape_ok evidence_shape_ok)

lemma decode_record_json:
  assumes "b64_law L" "record_fits r"
  shows "decode_record L (record_json L r) = canon r"
  using assms
  by (cases r; cases "r_Workload r"; cases "r_Producer r")
    (simp_all add: record_json_def decode_record_def record_fits_def get_simps
      decode_workload_json decode_evidence_json canon_def)

text \<open>The keys of an object that leaves some members out are distinct.\<close>

lemma subseq_omit: "subseq (map fst (omit z k v)) [k]"
  by (simp add: omit_def)

lemma omit_distinct:
  assumes "subseq (map fst kvs) ks" "distinct ks"
  shows "distinct (map fst kvs)"
  using assms by (auto simp: subseq_conv_nths intro: distinct_nthsI)

lemma check_value_simps:
  "d \<le> 64 \<Longrightarrow> check_value d (JStr s) = []" "d \<le> 64 \<Longrightarrow> check_value d (JNum s) = []" "d \<le> 64 \<Longrightarrow> check_value d (JBool b) = []"
  "d \<le> 64 \<Longrightarrow> check_value d JNull = []" "d \<le> 64 \<Longrightarrow> check_value d (JObj kvs) = check_members d [] kvs"
  by simp_all

declare check_value.simps [simp del]

lemma check_header_json: "d + 1 \<le> 64 \<Longrightarrow> check_value d (header_json h) = []"
  by (simp add: header_json_def check_members_Nil check_value_simps split: option.splits)

lemma check_request_json: "d + 1 \<le> 64 \<Longrightarrow> check_value d (request_json q) = []"
  by (simp add: request_json_def check_members_Nil check_value_simps)

lemma check_workload_json: "d + 1 \<le> 64 \<Longrightarrow> check_value d (workload_json w) = []"
  by (simp add: workload_json_def check_members_Nil check_value_simps)

lemma subseq_append_mono: "subseq a b \<Longrightarrow> subseq c d \<Longrightarrow> subseq (a @ c) (b @ d)"
  by (rule list_emb_append_mono)

lemma evidence_keys_distinct: "distinct (map fst (evidence_members L p))"
proof (rule omit_distinct)
  show "subseq (map fst (evidence_members L p))
    ([''incarnation''] @ [''request''] @ [''header''] @ [''scope''] @ [''networkScope''] @ [''cutoff''] @ [''raw''] @
     [''sha256''] @ [''bytes''] @ [''frameSequence''] @ [''frameSha256''] @ [''frameBytes''])"
    unfolding evidence_members_def evidence_json_def members_def json.case case_omit map_append
    by (intro subseq_append_mono subseq_omit) simp
qed simp

lemma check_evidence_json: "d + 2 \<le> 64 \<Longrightarrow> check_value d (evidence_json L p) = []"
proof -
  assume d: "d + 2 \<le> 64"
  have "list_all (\<lambda>kv. check_value (d + 1) (snd kv) = []) (evidence_members L p)"
    using d by (cases "pe_Request p"; cases "pe_Header p")
      (simp_all add: evidence_members_def evidence_json_def members_def case_omit check_header_json check_request_json check_value_simps)
  then show ?thesis
    using d evidence_keys_distinct by (simp add: evidence_json_members check_members_Nil check_value_simps)
qed

lemma check_record_json: "check_value 0 (record_json L r) = []"
proof -
  obtain kvs where j: "record_json L r = JObj kvs" by (simp add: record_json_def)
  have "subseq (map fst kvs) ([''workload''] @ [''producer''] @ [''schemaVersion'', ''kind'', ''sandboxId'',
      ''incarnation'', ''sequence'', ''observedAt'', ''txBytes'', ''rxBytes'', ''deltaTxBytes'', ''deltaRxBytes'',
      ''valid'', ''complete''] @ [''reason''])"
    using j [symmetric] unfolding record_json_def json.inject case_omit
    by (simp only: map_append) (intro subseq_append_mono subseq_omit, simp)
  then have "distinct (map fst kvs)" by (rule omit_distinct) simp
  moreover have "list_all (\<lambda>kv. check_value 1 (snd kv) = []) kvs"
    using j [symmetric] by (cases "r_Workload r"; cases "r_Producer r")
      (simp_all add: record_json_def case_omit check_workload_json check_evidence_json check_value_simps)
  ultimately show ?thesis by (simp add: j check_members_Nil check_value_simps)
qed

section \<open>What is assumed of the standard library\<close>

text \<open>The text of an encoded record is valid UTF-8 without lone surrogates or a newline, and parses, with or
  without a newline at its end, as the members that the tags prescribe. Only values of the Go type are encoded.\<close>

definition json_law :: "jstd \<Rightarrow> bool" where
  "json_law L \<longleftrightarrow>
     b64_law L \<and>
     (\<forall>r d. marshal L r = Some d \<longrightarrow> record_fits r \<and> 10 \<notin> set d \<and>
        (\<forall>raw \<in> {d, d @ [10]}.
           utf8_valid L raw \<and> validUnicodeEscapes raw \<and> json_parse L raw = Some (record_json L r)))"

lemma decode_marshal:
  assumes "json_law L" "marshal L r = Some d"
  shows "decodeConsumerJSON L d = Inr (canon r)" "decodeConsumerJSON L (d @ [10]) = Inr (canon r)" "10 \<notin> set d"
  using assms
  by (simp_all add: json_law_def decodeConsumerJSON_def checkJSON_def json_value_def check_record_json
      record_shape_ok decode_record_json)

section \<open>Properties\<close>

text \<open>(C39) The consumer's decoder accepts exactly what the journal's encoder produces: the value of a
  record passes the checks for duplicate keys and nesting, has the shape of its Go type with every
  field that is not optional, no unknown one, and canonical numbers, and decodes to the record, where an empty
  byte slice has become \<open>nil\<close>.\<close>

theorem record_json_roundtrip:
  assumes "b64_law L" "record_fits r"
  shows "check_value 0 (record_json L r) = [] \<and> consumerShape L (record_json L r) record_shape False = [] \<and>
    decode_record L (record_json L r) = canon r"
  using assms by (simp add: check_record_json record_shape_ok decode_record_json)

lemma byte_mod: "word_of_nat (unat x mod 256) = (x :: byte)"
proof -
  have "unat x < 256" using unsigned_less [of x] by simp
  then show ?thesis by simp
qed

lemma demo_b64_law: "b64_law demo_lib"
  by (simp add: b64_law_def demo_lib_def comp_def byte_mod)

theorem record_json_roundtrip_witness:
  "decode_record demo_lib (record_json demo_lib
     ((initial_record ''sbx'' ''j'')\<lparr>r_TxBytes := 18446744073709551615,
        r_Producer := Some ((evidence ''inc'')\<lparr>pe_Raw := Some []\<rparr>)\<rparr>)) =
   (initial_record ''sbx'' ''j'')\<lparr>r_TxBytes := 18446744073709551615, r_Producer := Some (evidence ''inc'')\<rparr>"
proof -
  let ?r = "(initial_record ''sbx'' ''j'')\<lparr>r_TxBytes := 18446744073709551615,
        r_Producer := Some ((evidence ''inc'')\<lparr>pe_Raw := Some []\<rparr>)\<rparr>"
  have f: "record_fits ?r"
    by (simp add: record_fits_def evidence_fits_def initial_record_def evidence_def u64_ok_def int64_ok_def max_u64_def)
  have "canon ?r = (initial_record ''sbx'' ''j'')\<lparr>r_TxBytes := 18446744073709551615, r_Producer := Some (evidence ''inc'')\<rparr>"
    by (simp add: canon_def canon_evidence_def initial_record_def evidence_def)
  with record_json_roundtrip [OF demo_b64_law f] show ?thesis by simp
qed

end
