(* ===== verification/Replay.thy ===== *)
theory Replay
  imports Correlator RecordJson "HOL-Library.AList" "HOL-Library.List_Lexorder" "HOL-Library.Char_ord"
begin

text \<open>
  The consumer of retained journals (\<open>networkusage/consumer_replay.go\<close>, \<open>closing_validation.go\<close>): it
  reads the records of a journal and regenerates each of them with the same journal and
  correlator code, over a file that compares what is written with the record that was read.
  Only records that the producer's own code reproduces count; what cannot be reproduced stops
  the replay with a named gap, and a contradiction is an error.

  The Go maps are association lists with distinct keys. The journal and the correlator that the
  replay holds share one journal object, which is the correlator's once there is one.
\<close>

section \<open>Fence references\<close>

definition validate_reference :: "CorrelationReference \<Rightarrow> gerr" where
  "validate_reference r =
     (case decodeHeader (header_json (cr_Header r)) of
        Inl e \<Rightarrow> [e]
      | Inr _ \<Rightarrow>
          if ph_Loss (cr_Header r) \<or> ph_RequestID (cr_Header r) = None \<or> ph_RequestSequence (cr_Header r) = None \<or>
             cr_FrameSequence r \<ge> cr_CorrelationSequence r \<or> cr_FrameBytes r < 1 \<or>
             cr_FrameBytes r > MaxProducerFrameBytes \<or> cr_ReceiptBytes r < 1 \<or> cr_ReceiptBytes r > 2048
          then [Err ''invalid retained fence reference'']
          else if (cr_Scope r = TerminalScope \<and> cr_Cutoff r \<noteq> TerminalCutoff) \<or>
                  (cr_Scope r = BaselineScope \<and> cr_Cutoff r \<noteq> '''') \<or>
                  (cr_Scope r \<noteq> BaselineScope \<and> cr_Scope r \<noteq> TerminalScope)
          then [Err ''invalid retained fence scope'']
          else if length (cr_FrameSHA256 r) \<noteq> 64 then [Err ''invalid retained fence hash'']
          else if \<not> hex_ok (cr_FrameSHA256 r) then [Err ''hex'']
          else if length (cr_ReceiptSHA256 r) \<noteq> 64 then [Err ''invalid retained fence hash'']
          else if \<not> hex_ok (cr_ReceiptSHA256 r) then [Err ''hex'']
          else [])"

section \<open>The comparing file\<close>

record consumerCompareSink =
  sk_expected :: Record
  sk_writes :: nat
  sk_now :: int

definition sink_Write :: "jstd \<Rightarrow> bytes \<Rightarrow> consumerCompareSink \<Rightarrow> (int \<times> gerr) \<times> consumerCompareSink" where
  "sink_Write L raw s =
     (case decodeConsumerJSON L raw of
        Inl e \<Rightarrow> ((0, [e]), s)
      | Inr got \<Rightarrow>
          if sk_writes s \<noteq> 0 \<or> got \<noteq> sk_expected s
          then ((0, [Err ''retained record differs from producer replay'']), s)
          else ((int (length raw), []), s\<lparr>sk_writes := sk_writes s + 1\<rparr>))"

definition sink_env :: "jstd \<Rightarrow> consumerCompareSink jenv" where
  "sink_env L = \<lparr>je_lib = L, je_now = (\<lambda>s. (sk_now s, s)), je_Write = sink_Write L,
     je_Sync = (\<lambda>s. ([], s)), je_Close = (\<lambda>s. ([], s)),
     je_beforeSeal = None, je_afterSeal = None, je_onClosed = None\<rparr>"

section \<open>State of the replay\<close>

record VerifiedPrefix =
  vp_FirstSequence :: "int option"
  vp_LastSequence :: "int option"
  vp_LowerBaseline :: "CorrelationReference option"
  vp_UpperTerminal :: "CorrelationReference option"
  vp_Scope :: string
  vp_Devices :: "(string \<times> string \<times> string) list"

record consumerReplay =
  v_id :: string
  v_workload :: WorkloadBinding
  v_journal :: "Journal option"
  v_correlator :: "Correlator option"
  v_previous :: int
  v_attempt :: int
  v_closedPreSequence :: int
  v_closed :: bool
  v_closedPreKnown :: bool
  v_seen :: bool
  v_stopped :: bool
  v_terminalFrame :: bool
  v_maxDevices :: int
  v_totals :: "(string \<times> int \<times> int) list"
  v_prefix :: VerifiedPrefix
  v_baseline :: "CorrelationReference option"
  v_terminal :: "CorrelationReference option"
  v_requestedFrame :: "CorrelationReference option"
  v_gaps :: "string list"

definition newConsumerReplay :: "string \<Rightarrow> WorkloadBinding \<Rightarrow> int \<Rightarrow> consumerReplay" where
  "newConsumerReplay ident workload maxDevices =
     \<lparr>v_id = ident, v_workload = workload, v_journal = None, v_correlator = None, v_previous = 0, v_attempt = 0,
      v_closedPreSequence = 0, v_closed = False, v_closedPreKnown = False, v_seen = False, v_stopped = False,
      v_terminalFrame = False, v_maxDevices = maxDevices, v_totals = [],
      v_prefix = \<lparr>vp_FirstSequence = None, vp_LastSequence = None, vp_LowerBaseline = None,
        vp_UpperTerminal = None, vp_Scope = ''verified_contiguous_activity_prefix'', vp_Devices = []\<rparr>,
      v_baseline = None, v_terminal = None, v_requestedFrame = None, v_gaps = []\<rparr>"

definition replay_gap :: "string \<Rightarrow> consumerReplay \<Rightarrow> consumerReplay" where
  "replay_gap reason v = v\<lparr>v_stopped := True, v_gaps := List.insert reason (v_gaps v)\<rparr>"

section \<open>One record\<close>

definition raw_of :: "ProducerEvidence \<Rightarrow> bytes" where
  "raw_of p = (case pe_Raw p of None \<Rightarrow> [] | Some x \<Rightarrow> x)"

text \<open>The checks of the record's kind and identity.\<close>

definition check_identity :: "consumerReplay \<Rightarrow> Record \<Rightarrow> gerr" where
  "check_identity v r =
     (if r_Kind r \<notin> {''start'', ''producer_binding'', ''producer_request'', ''producer_activity_intent'',
                     ''producer_frame'', ''producer_correlation'', ''gap'', ''closed''}
      then [Err ''unsupported retained journal kind'']
      else if r_SchemaVersion r \<noteq> 1 \<or> r_Complete r \<or> r_Incarnation r \<noteq> v_id v \<or>
              r_SandboxID r \<noteq> wb_SandboxID (v_workload v)
      then [Err ''unsupported or conflicting retained journal identity'']
      else if r_Workload r \<noteq> None \<and> r_Workload r \<noteq> Some (v_workload v)
      then [Err ''retained workload substitution'']
      else if r_Kind r \<noteq> ''start'' \<and> r_Workload r = None then [Err ''missing retained workload binding'']
      else if has_prefix (r_Kind r) ''producer_'' \<and> r_Producer r = None
      then [Err ''missing retained producer structure'']
      else if v_closed v then [Err ''journal record after close'']
      else [])"

text \<open>The position of the record: the close flag, the order, and sequence gaps.\<close>

definition note_closed :: "Record \<Rightarrow> consumerReplay \<Rightarrow> consumerReplay" where
  "note_closed r v =
     (if r_Kind r = ''closed''
      then v\<lparr>v_closed := True, v_closedPreSequence := v_previous v,
             v_closedPreKnown := v_seen v \<and> v_previous v \<noteq> max_u64 \<and> r_Sequence r = u64 (v_previous v + 1)\<rparr>
      else v)"

definition check_sequence :: "Record \<Rightarrow> consumerReplay \<Rightarrow> consumerReplay result" where
  "check_sequence r v =
     (if v_seen v then
        if r_Sequence r \<le> v_previous v then Inl (Err ''duplicate or reordered journal record'')
        else Inr (if v_previous v = max_u64 \<or> r_Sequence r \<noteq> u64 (v_previous v + 1)
                  then replay_gap ''journal_sequence_gap'' v else v)
      else Inr (if r_Sequence r \<noteq> 0 \<or> r_Kind r \<noteq> ''start'' then replay_gap ''journal_start_missing'' v else v))"

text \<open>The structure of the producer evidence. A frame returns the decoded frame.\<close>

definition check_request :: "consumerReplay \<Rightarrow> ProducerEvidence \<Rightarrow> bool" where
  "check_request v p \<longleftrightarrow>
     (case pe_Request p of
        None \<Rightarrow> False
      | Some q \<Rightarrow> tokenOK (pr_ID q) \<and> pr_Sequence q \<noteq> 0 \<and>
                  pr_Incarnation q = wb_ProducerIncarnation (v_workload v) \<and> is_scope (pe_Scope p))"

definition check_bytes :: "jstd \<Rightarrow> ProducerEvidence \<Rightarrow> bool" where
  "check_bytes L p \<longleftrightarrow>
     (if pe_Raw p \<noteq> None \<or> pe_SHA256 p \<noteq> ''''
      then pe_Bytes p = int (length (raw_of p)) \<and> pe_SHA256 p = sha256hex L (raw_of p) else True)"

definition frame_reference :: "Record \<Rightarrow> ProducerEvidence \<Rightarrow> ProducerFrame \<Rightarrow> CorrelationReference" where
  "frame_reference r p f =
     \<lparr>cr_Header = pf_Header f, cr_Scope = '''', cr_Cutoff = '''', cr_CorrelationSequence = 0,
      cr_FrameSequence = r_Sequence r, cr_FrameSHA256 = pe_SHA256 p, cr_FrameBytes = pe_Bytes p,
      cr_ReceiptSHA256 = '''', cr_ReceiptBytes = 0\<rparr>"

definition check_frame_scopes :: "ProducerEvidence \<Rightarrow> ProducerFrame \<Rightarrow> gerr" where
  "check_frame_scopes p f =
     (if pf_DeviceMetricsPresent f \<and> (\<not> pf_NetworkPresent f \<or> pe_NetworkScope p \<noteq> ''device_aggregate'')
      then [Err ''invalid retained device scope'']
      else if \<not> pf_DeviceMetricsPresent f \<and>
              (pe_NetworkScope p \<noteq> ''preboot_no_devices'' \<or> pf_Tx f \<noteq> 0 \<or> pf_Rx f \<noteq> 0)
      then [Err ''invalid retained preboot scope'']
      else if (ph_RequestID (pf_Header f) = None \<and> pe_Scope p \<noteq> '''') \<or>
              (ph_RequestID (pf_Header f) \<noteq> None \<and> \<not> is_scope (pe_Scope p)) \<or>
              ((pf_Cutoff f = TerminalCutoff) \<noteq> (pe_Scope p = TerminalScope))
      then [Err ''invalid retained requested-frame scope'']
      else [])"

definition replay_frame :: "jstd \<Rightarrow> Record \<Rightarrow> ProducerEvidence \<Rightarrow> consumerReplay \<Rightarrow> (ProducerFrame \<times> consumerReplay) result" where
  "replay_frame L r p v =
     (if pe_Request p \<noteq> None \<or> pe_FrameSequence p \<noteq> 0 \<or> pe_FrameSHA256 p \<noteq> '''' \<or> pe_FrameBytes p \<noteq> 0
      then Inl (Err ''invalid frame evidence shape'')
      else case DecodeProducerFrame L (raw_of p) of
        Inl e \<Rightarrow> Inl e
      | Inr f \<Rightarrow>
          if pe_Header p = None \<or> \<not> headersEqual (pf_Header f) (the (pe_Header p)) \<or>
             ph_Incarnation (pf_Header f) \<noteq> wb_ProducerIncarnation (v_workload v) \<or> pf_Cutoff f \<noteq> pe_Cutoff p
          then Inl (Err ''frame header substitution'')
          else (case check_frame_scopes p f of
              e # _ \<Rightarrow> Inl e
            | [] \<Rightarrow>
                if ph_Loss (pf_Header f) \<or> ph_Attempt (pf_Header f) \<le> v_attempt v \<or> v_terminalFrame v
                then Inl (Err ''duplicate, loss, or post-terminal frame'')
                else let v = (if v_attempt v = max_u64 \<or> ph_Attempt (pf_Header f) \<noteq> u64 (v_attempt v + 1)
                              then replay_gap ''producer_attempt_gap'' v else v);
                         v = v\<lparr>v_attempt := ph_Attempt (pf_Header f), v_terminalFrame := (pf_Cutoff f = TerminalCutoff)\<rparr>;
                         v = (if ph_RequestID (pf_Header f) \<noteq> None
                              then v\<lparr>v_requestedFrame := Some (frame_reference r p f)\<rparr> else v)
                     in Inr (f, v)))"

definition replay_correlation :: "jstd \<Rightarrow> Record \<Rightarrow> ProducerEvidence \<Rightarrow> consumerReplay \<Rightarrow> consumerReplay result" where
  "replay_correlation L r p v =
     (if pe_NetworkScope p \<noteq> '''' \<or> pe_FrameSequence p \<ge> r_Sequence r \<or> pe_FrameBytes p < 1 \<or>
         pe_FrameBytes p > MaxProducerFrameBytes \<or> length (pe_FrameSHA256 p) \<noteq> 64
      then Inl (Err ''invalid correlation frame shape'')
      else if \<not> hex_ok (pe_FrameSHA256 p) then Inl (Err ''hex'')
      else case DecodeProducerReceipt L (raw_of p) (pe_Scope p = TerminalScope) of
        Inl e \<Rightarrow> Inl e
      | Inr rc \<Rightarrow>
          if pe_Header p = None \<or> \<not> headersEqual (pc_Header rc) (the (pe_Header p)) \<or> pc_Cutoff rc \<noteq> pe_Cutoff p \<or>
             pe_Request p = None \<or>
             pr_Incarnation (the (pe_Request p)) \<noteq> wb_ProducerIncarnation (v_workload v) \<or>
             the (ph_RequestID (pc_Header rc)) \<noteq> pr_ID (the (pe_Request p)) \<or>
             the (ph_RequestSequence (pc_Header rc)) \<noteq> pr_Sequence (the (pe_Request p))
          then Inl (Err ''receipt header substitution'')
          else (case v_requestedFrame v of
              None \<Rightarrow> Inr (replay_gap ''correlation_source_frame_missing'' v)
            | Some f \<Rightarrow>
                if \<not> headersEqual (cr_Header f) (the (pe_Header p)) \<or> cr_FrameSequence f \<noteq> pe_FrameSequence p \<or>
                   cr_FrameSHA256 f \<noteq> pe_FrameSHA256 p \<or> cr_FrameBytes f \<noteq> pe_FrameBytes p
                then Inl (Err ''correlation substitutes observed frame'')
                else Inr (v\<lparr>v_requestedFrame := None\<rparr>)))"

text \<open>\<open>equalClosingJSON\<close> of two evidence values.\<close>

definition evidence_is :: "ProducerEvidence \<Rightarrow> ProducerEvidence \<Rightarrow> bool" where
  "evidence_is p q \<longleftrightarrow> canon_evidence p = canon_evidence q"

definition check_producer :: "jstd \<Rightarrow> Record \<Rightarrow> consumerReplay \<Rightarrow> (ProducerFrame option \<times> consumerReplay) result" where
  "check_producer L r v =
     (case r_Producer r of
        None \<Rightarrow> Inr (None, v)
      | Some p \<Rightarrow>
          let inc = wb_ProducerIncarnation (v_workload v) in
          if pe_Incarnation p \<noteq> inc then Inl (Err ''producer incarnation substitution'')
          else if r_Kind r \<in> {''producer_request'', ''producer_correlation''} \<and> \<not> check_request v p
          then Inl (Err ''invalid retained request structure'')
          else if \<not> check_bytes L p then Inl (Err ''producer source bytes substituted'')
          else if r_Kind r = ''producer_binding'' then
            if evidence_is p (evidence inc) then Inr (None, v) else Inl (Err ''invalid binding evidence shape'')
          else if r_Kind r = ''producer_activity_intent'' then
            if evidence_is p ((evidence inc)\<lparr>pe_Scope := SampleScope\<rparr>) then Inr (None, v)
            else Inl (Err ''invalid activity evidence shape'')
          else if r_Kind r = ''producer_request'' then
            if evidence_is p ((evidence inc)\<lparr>pe_Request := pe_Request p, pe_Scope := pe_Scope p\<rparr>) then Inr (None, v)
            else Inl (Err ''invalid request evidence shape'')
          else if r_Kind r = ''producer_frame'' then
            bindR (replay_frame L r p v) (\<lambda>(f, v). Inr (Some f, v))
          else if r_Kind r = ''producer_correlation'' then
            bindR (replay_correlation L r p v) (\<lambda>v. Inr (None, v))
          else Inr (None, v))"

definition note_fence :: "Record \<Rightarrow> consumerReplay \<Rightarrow> consumerReplay result" where
  "note_fence r v =
     (if r_Kind r \<noteq> ''producer_correlation'' then Inr v
      else case correlationReference r of
        None \<Rightarrow> Inr v
      | Some ref \<Rightarrow>
          (case validate_reference ref of
             e # _ \<Rightarrow> Inl e
           | [] \<Rightarrow>
               if cr_Scope ref = TerminalScope
               then if v_terminal v \<noteq> None then Inl (Err ''duplicate retained fence'')
                    else Inr (v\<lparr>v_terminal := Some ref\<rparr>)
               else if v_baseline v \<noteq> None then Inl (Err ''duplicate retained fence'')
               else Inr (v\<lparr>v_baseline := Some ref\<rparr>)))"

definition note_invalid :: "Record \<Rightarrow> consumerReplay \<Rightarrow> consumerReplay" where
  "note_invalid r v =
     (if r_Kind r = ''gap'' \<or> \<not> r_Valid r then replay_gap ''invalid_journal_record'' v else v)"

text \<open>The deltas of a frame by device.\<close>

fun device_deltas :: "(string \<times> json) list \<Rightarrow> int \<Rightarrow> (string \<times> int \<times> int) list \<Rightarrow> int \<Rightarrow> int \<Rightarrow> ((string \<times> int \<times> int) list \<times> int \<times> int) result" where
  "device_deltas [] limit res tx rx = Inr (res, tx, rx)"
| "device_deltas ((key, raw) # rest) limit res tx rx =
     (if \<not> has_prefix key ''net_'' then device_deltas rest limit res tx rx
      else if int (length res) \<ge> limit \<or> length key > 256 then Inl (Err ''per-frame device budget'')
      else case object raw [] of Inl e \<Rightarrow> Inl e
        | Inr device \<Rightarrow>
            (case required unmarshal_u64 device ''tx_bytes_count'' of Inl e \<Rightarrow> Inl e
             | Inr x \<Rightarrow>
                (case required unmarshal_u64 device ''rx_bytes_count'' of Inl e \<Rightarrow> Inl e
                 | Inr y \<Rightarrow>
                     if x > u64 (max_u64 - tx) \<or> y > u64 (max_u64 - rx) then Inl (Err ''per-flush device overflow'')
                     else device_deltas rest limit (AList.update key (x, y) res) (u64 (tx + x)) (u64 (rx + y)))))"

definition consumerDeviceDeltas :: "ProducerFrame \<Rightarrow> int \<Rightarrow> (string \<times> int \<times> int) list result" where
  "consumerDeviceDeltas f limit =
     bindR (object (pf_Metrics f) []) (\<lambda>metrics.
     bindR (device_deltas metrics limit [] 0 0) (\<lambda>(res, tx, rx).
     if pf_DeviceMetricsPresent f \<and> (tx \<noteq> pf_Tx f \<or> rx \<noteq> pf_Rx f)
     then Inl (Err ''device aggregate differs from per-device deltas'') else Inr res))"

definition frame_devices :: "ProducerFrame option \<Rightarrow> int \<Rightarrow> (string \<times> int \<times> int) list option result" where
  "frame_devices frame limit =
     (case frame of
        None \<Rightarrow> Inr None
      | Some f \<Rightarrow> bindR (consumerDeviceDeltas f limit) (\<lambda>ds. Inr (Some ds)))"

text \<open>The transition of the producer's code that must have written the record. Its outcome is
  the error and the new journal and correlator; the sink counts what was written.\<close>

definition current_journal :: "consumerReplay \<Rightarrow> Journal option" where
  "current_journal v = (case v_correlator v of Some c \<Rightarrow> Some (c_journal c) | None \<Rightarrow> v_journal v)"

definition replay_transition :: "jstd \<Rightarrow> Record \<Rightarrow> int \<Rightarrow> consumerReplay \<Rightarrow> gerr \<times> consumerReplay \<times> consumerCompareSink" where
  "replay_transition L r now v =
     (let E = sink_env L; s = \<lparr>sk_expected = r, sk_writes = 0, sk_now = now\<rparr> in
      if r_Kind r = ''start'' then
        if v_journal v \<noteq> None then ([Err ''duplicate journal start''], v, s)
        else let (e, j, s) = start_journal E (r_SandboxID r) (v_id v) s in (e, v\<lparr>v_journal := Some j\<rparr>, s)
      else if r_Kind r = ''producer_binding'' then
        (case current_journal v of
           None \<Rightarrow> ([Err ''binding before journal''], v, s)
         | Some j \<Rightarrow>
             if r_Producer r = None then ([Err ''binding before journal''], v, s)
             else case NewCorrelator E (j\<lparr>j_workload := Some (v_workload v)\<rparr>) (wb_ProducerIncarnation (v_workload v)) s of
               (Inl e, j, s) \<Rightarrow> (e, v\<lparr>v_journal := Some j, v_correlator := None\<rparr>, s)
             | (Inr c, j, s) \<Rightarrow> ([], v\<lparr>v_journal := Some j, v_correlator := Some c\<rparr>, s))
      else case v_correlator v of
        None \<Rightarrow> ([Err ''producer record before binding''], v, s)
      | Some c \<Rightarrow>
          if r_Kind r = ''producer_request'' then
            (case r_Producer r of
               None \<Rightarrow> ([Err ''missing producer request''], v, s)
             | Some p \<Rightarrow>
                 (case pe_Request p of
                    None \<Rightarrow> ([Err ''missing producer request''], v, s)
                  | Some q \<Rightarrow>
                      let (res, c, s) = Begin E (pr_ID q) (pe_Scope p) c s
                      in (case res of Inl e \<Rightarrow> e | Inr _ \<Rightarrow> [], v\<lparr>v_correlator := Some c\<rparr>, s)))
          else if r_Kind r = ''producer_activity_intent'' then
            let (e, c, s) = BeginActivity E c s in (e, v\<lparr>v_correlator := Some c\<rparr>, s)
          else if r_Kind r = ''producer_frame'' then
            (case r_Producer r of
               None \<Rightarrow> ([Panic], v, s)
             | Some p \<Rightarrow> let (e, c, s) = ObserveFrame E (raw_of p) c s in (e, v\<lparr>v_correlator := Some c\<rparr>, s))
          else if r_Kind r = ''producer_correlation'' then
            (case r_Producer r of
               None \<Rightarrow> ([Err ''missing producer correlation''], v, s)
             | Some p \<Rightarrow> let (e, c, s) = ObserveReceipt E (raw_of p) c s in (e, v\<lparr>v_correlator := Some c\<rparr>, s))
          else if r_Kind r = ''closed'' then
            let (e, c, s) = Correlator_Close E c s in (e, v\<lparr>v_correlator := Some c\<rparr>, s)
          else ([Err ''unsupported retained record kind''], v, s))"

fun add_totals :: "int \<Rightarrow> (string \<times> int \<times> int) list \<Rightarrow> (string \<times> int \<times> int) list \<Rightarrow> (string \<times> int \<times> int) list result" where
  "add_totals limit [] totals = Inr totals"
| "add_totals limit ((device, dx, dy) # rest) totals =
     (let (px, py) = (case map_of totals device of None \<Rightarrow> (0, 0) | Some p \<Rightarrow> p) in
      if map_of totals device = None \<and> int (length totals) \<ge> limit then Inl (Err ''device identity budget'')
      else if dx > u64 (max_u64 - px) \<or> dy > u64 (max_u64 - py) then Inl (Err ''device total overflow'')
      else add_totals limit rest (AList.update device (u64 (px + dx), u64 (py + dy)) totals))"

definition count_frame :: "Record \<Rightarrow> (string \<times> int \<times> int) list \<Rightarrow> consumerReplay \<Rightarrow> consumerReplay result" where
  "count_frame r devices v =
     (case v_correlator v of
        None \<Rightarrow> Inl Panic
      | Some c \<Rightarrow>
          if \<not> c_activity c then Inr v
          else let p = v_prefix v;
                   p = (if vp_FirstSequence p = None
                        then p\<lparr>vp_FirstSequence := Some (r_Sequence r), vp_LowerBaseline := v_baseline v\<rparr> else p)
               in bindR (add_totals (v_maxDevices v) devices (v_totals v)) (\<lambda>totals.
                  Inr (v\<lparr>v_totals := totals, v_prefix := p\<lparr>vp_LastSequence := Some (r_Sequence r)\<rparr>\<rparr>)))"

definition replay_rest :: "jstd \<Rightarrow> Record \<Rightarrow> int \<Rightarrow> (string \<times> int \<times> int) list option \<Rightarrow> consumerReplay \<Rightarrow> consumerReplay result" where
  "replay_rest L r now devices v =
     (if v_stopped v then Inr v
      else case replay_transition L r now v of
        (e # _, _, _) \<Rightarrow> Inl e
      | ([], v, s) \<Rightarrow>
          if sk_writes s \<noteq> 1 then Inl (Err ''retained transition did not produce exactly one record'')
          else bindR (case devices of None \<Rightarrow> Inr v | Some ds \<Rightarrow> count_frame r ds v) (\<lambda>v.
            Inr (if r_Kind r = ''producer_correlation'' \<and> map_option pe_Scope (r_Producer r) = Some TerminalScope
                 then v\<lparr>v_prefix := (v_prefix v)\<lparr>vp_UpperTerminal := v_terminal v\<rparr>\<rparr> else v)))"

definition replay_record :: "jstd \<Rightarrow> Record \<Rightarrow> consumerReplay \<Rightarrow> consumerReplay result" where
  "replay_record L r v =
     (case check_identity v r of
        e # _ \<Rightarrow> Inl e
      | [] \<Rightarrow>
          bindR (check_sequence r (note_closed r v)) (\<lambda>v.
          bindR (check_producer L r (v\<lparr>v_seen := True, v_previous := r_Sequence r\<rparr>)) (\<lambda>(frame, v).
          if r_Kind r = ''producer_frame'' \<and> frame = None then Inl (Err ''missing producer frame'')
          else bindR (note_fence r v) (\<lambda>v.
          let v = note_invalid r v in
          case parse_time L (r_ObservedAt r) of
            None \<Rightarrow> Inl (Err ''invalid journal timestamp'')
          | Some now \<Rightarrow>
              bindR (frame_devices frame (v_maxDevices v)) (\<lambda>devices.
              replay_rest L r now devices v)))))"

fun replay_records :: "jstd \<Rightarrow> Record list \<Rightarrow> consumerReplay \<Rightarrow> consumerReplay result" where
  "replay_records L [] v = Inr v"
| "replay_records L (r # rs) v = (case replay_record L r v of Inl e \<Rightarrow> Inl e | Inr v \<Rightarrow> replay_records L rs v)"

definition replay_finish :: "consumerReplay \<Rightarrow> VerifiedPrefix" where
  "replay_finish v =
     (v_prefix v)\<lparr>vp_Devices := sort_key fst
        (vp_Devices (v_prefix v) @ map (\<lambda>(d, x, y). (d, FormatUint x, FormatUint y)) (v_totals v))\<rparr>"

section \<open>Reading a segment\<close>

text \<open>The part of a byte string before its first newline, and the part after it.\<close>

definition cut_line :: "bytes \<Rightarrow> (bytes \<times> bytes) option" where
  "cut_line raw = (if 10 \<in> set raw
     then Some (takeWhile (\<lambda>b. b \<noteq> 10) raw, tl (dropWhile (\<lambda>b. b \<noteq> 10) raw)) else None)"

lemma cut_line_length: "cut_line raw = Some (l, rest) \<Longrightarrow> length rest < length raw"
proof -
  assume "cut_line raw = Some (l, rest)"
  then have m: "10 \<in> set raw" and r: "rest = tl (dropWhile (\<lambda>b. b \<noteq> 10) raw)"
    by (auto simp: cut_line_def split: if_splits)
  from m have "dropWhile (\<lambda>b. b \<noteq> 10) raw \<noteq> []" by (simp add: dropWhile_eq_Nil_conv)
  with r have "length rest < length (dropWhile (\<lambda>b. b \<noteq> 10) raw)" by simp
  then show ?thesis using length_dropWhile_le [of "\<lambda>b. b \<noteq> 10" raw] by linarith
qed

function consumerRecordLines :: "jstd \<Rightarrow> bytes \<Rightarrow> int \<Rightarrow> consumerReplay \<Rightarrow> (bool \<times> consumerReplay) result" where
  "consumerRecordLines L raw maxRecord v =
     (if raw = [] then Inr (False, v)
      else case cut_line raw of
        None \<Rightarrow> if int (length raw) > maxRecord then Inl (Err ''partial journal record budget'') else Inr (True, v)
      | Some (l, rest) \<Rightarrow>
          if int (length l) > maxRecord then Inl (Err ''raw journal record budget'')
          else case decodeConsumerJSON L l of
            Inl e \<Rightarrow> Inl e
          | Inr r \<Rightarrow>
              (case replay_record L r v of Inl e \<Rightarrow> Inl e | Inr v \<Rightarrow> consumerRecordLines L rest maxRecord v))"
  by pat_completeness auto
termination
  by (relation "measure (\<lambda>(L, raw, m, v). length raw)") (auto dest: cut_line_length)

declare consumerRecordLines.simps [simp del]

function preflightConsumerRecords :: "bytes \<Rightarrow> int \<Rightarrow> gerr" where
  "preflightConsumerRecords raw maxRecord =
     (if raw = [] then []
      else case cut_line raw of
        None \<Rightarrow> if int (length raw) > maxRecord then [Err ''partial journal record budget''] else []
      | Some (l, rest) \<Rightarrow>
          if int (length l) > maxRecord then [Err ''raw journal record budget before decode'']
          else preflightConsumerRecords rest maxRecord)"
  by pat_completeness auto
termination
  by (relation "measure (\<lambda>(raw, m). length raw)") (auto dest: cut_line_length)

declare preflightConsumerRecords.simps [simp del]

section \<open>Records up to an empty byte slice\<close>

lemma canon_simps [simp]:
  "r_Workload (canon r) = r_Workload r" "r_SchemaVersion (canon r) = r_SchemaVersion r"
  "r_Kind (canon r) = r_Kind r" "r_SandboxID (canon r) = r_SandboxID r"
  "r_Incarnation (canon r) = r_Incarnation r" "r_Sequence (canon r) = r_Sequence r"
  "r_ObservedAt (canon r) = r_ObservedAt r" "r_TxBytes (canon r) = r_TxBytes r"
  "r_RxBytes (canon r) = r_RxBytes r" "r_DeltaTxBytes (canon r) = r_DeltaTxBytes r"
  "r_DeltaRxBytes (canon r) = r_DeltaRxBytes r" "r_Valid (canon r) = r_Valid r"
  "r_Complete (canon r) = r_Complete r" "r_Reason (canon r) = r_Reason r"
  "r_Producer (canon r) = map_option canon_evidence (r_Producer r)"
  by (simp_all add: canon_def)

lemma record_typed_canon [simp]: "record_typed (canon r) = record_typed r"
  by (simp add: record_typed_def)

lemma rec_ext_canon [simp]: "rec_ext (canon a) (canon b) = rec_ext a b"
  by (simp add: rec_ext_def)

lemma rec_step_canon [simp]: "rec_step (canon a) (canon b) = rec_step a b"
  by (simp add: rec_step_def)

lemma start_record_canon [simp]: "start_record (canon r) = start_record r"
  by (simp add: start_record_def)

section \<open>Writing to the comparing file\<close>

lemma sink_env_simps [simp]:
  "je_lib (sink_env L) = L" "je_now (sink_env L) s = (sk_now s, s)" "je_Write (sink_env L) = sink_Write L"
  "je_Sync (sink_env L) s = ([], s)" "je_Close (sink_env L) s = ([], s)"
  "je_beforeSeal (sink_env L) = None" "je_afterSeal (sink_env L) = None" "je_onClosed (sink_env L) = None"
  by (simp_all add: sink_env_def)

lemma write_record_sink:
  assumes "json_law L" "write_record (sink_env L) r s = ([], s')"
  shows "canon r = sk_expected s" "sk_writes s = 0" "s' = s\<lparr>sk_writes := 1\<rparr>"
proof -
  from assms(2) obtain d where d: "marshal L r = Some d"
    by (auto simp: write_record_def split: option.splits)
  with assms(1) have u: "decodeConsumerJSON L (d @ [10]) = Inr (canon r)" by (rule decode_marshal(2))
  with assms(2) d show "canon r = sk_expected s" "sk_writes s = 0" "s' = s\<lparr>sk_writes := 1\<rparr>"
    by (auto simp: write_record_def sink_Write_def Let_def split: if_splits)
qed

lemma append_sink:
  assumes "json_law L" "journal_append (sink_env L) r j s = ([], j', s')"
  shows "canon (j_last j') = sk_expected s" "sk_writes s = 0" "sk_writes s' = 1"
    "j_last j' = stamp (sink_env L) j (sk_now s) r" "\<not> j_closed j'" "j_failed j' = []"
    "s' = s\<lparr>sk_writes := 1\<rparr>"
proof -
  from append_ok(5) [OF assms(2)] have
    w: "write_record (sink_env L) (stamp (sink_env L) j (sk_now s) r) s = ([], s')"
    and j: "j' = (set_reference (stamp (sink_env L) j (sk_now s) r) (j\<lparr>j_last := stamp (sink_env L) j (sk_now s) r\<rparr>))\<lparr>j_lastAt := sk_now s\<rparr>"
    by auto
  note ws = write_record_sink [OF assms(1) w]
  from ws j show "canon (j_last j') = sk_expected s" "sk_writes s = 0" "sk_writes s' = 1"
    "j_last j' = stamp (sink_env L) j (sk_now s) r" "s' = s\<lparr>sk_writes := 1\<rparr>" by simp_all
  show "\<not> j_closed j'" "j_failed j' = []" using append_ok(1,2) [OF assms(2)] by simp_all
qed

text \<open>A successful \<open>persist\<close> to the comparing file: the record that was read continues the last
  one, and its deltas are the counted bytes.\<close>

lemma persist_sink:
  assumes L: "json_law L" and t: "record_typed (j_last (c_journal c))"
    and p: "persist (sink_env L) kind ev tx rx cnt c s = (Inr seq, c', s')"
    and u: "cnt \<Longrightarrow> u64_ok tx \<and> u64_ok rx"
  obtains j where "c' = c\<lparr>c_journal := j\<rparr>" "canon (j_last j) = sk_expected s" "sk_writes s = 0"
    "s' = s\<lparr>sk_writes := 1\<rparr>" "rec_ext (j_last (c_journal c)) (j_last j)" "\<not> j_closed j"
    "\<not> j_closed (c_journal c)"
    "r_Kind (j_last j) = kind"
    "r_DeltaTxBytes (j_last j) = (if cnt then tx else 0)" "r_DeltaRxBytes (j_last j) = (if cnt then rx else 0)"
proof -
  obtain r1 where n1: "journal_next kind (c_journal c) = (Inr r1, c_journal c)"
  proof (cases "journal_next kind (c_journal c)")
    case (Pair res j)
    with p have "\<exists>r. res = Inr r" by (cases res) (auto simp: persist_def)
    then obtain r where "res = Inr r" by blast
    with Pair journal_next_Inr(1) [OF _ t] that show thesis by metis
  qed
  note n = journal_next_Inr [OF n1 t]
  define r2 where "r2 = r1\<lparr>r_Producer := Some ev\<rparr>"
  define r3 where "r3 = (if cnt then count_record tx rx r2 else r2)"
  obtain e j s1 where a: "journal_append (sink_env L) r3 (c_journal c) s = (e, j, s1)" by (metis prod.exhaust)
  from p n1 a have res: "e = []" "r_Valid (j_last j)" "c' = c\<lparr>c_journal := j\<rparr>" "s' = s1"
    by (auto simp: persist_def r2_def r3_def Let_def split: if_splits)
  note as = append_sink [OF L a [unfolded res(1)]]
  have x2: "rec_ext (j_last (c_journal c)) r2" unfolding r2_def by (rule rec_ext_producer [OF n(2)])
  have x3: "rec_ext (j_last (c_journal c)) r3"
    using x2 n(4,5) u unfolding r3_def count_record_def
    by (auto simp: r2_def intro!: rec_ext_overflow_gap rec_ext_add_counters(1))
  have "r_Valid r3" using res(2) as(4) stamp_valid by metis
  then have "r_Kind r3 = kind" "r_DeltaTxBytes r3 = (if cnt then tx else 0)" "r_DeltaRxBytes r3 = (if cnt then rx else 0)"
    using n(3-5) by (auto simp: r3_def count_record_def r2_def overflow_gap_def add_counters_def split: if_splits)
  then show thesis
    using that [OF res(3)] as res(4) rec_ext_stamp [OF x3, of "sink_env L" "c_journal c" "sk_now s"]
      append_ok(4) [OF a [unfolded res(1)]] by simp
qed

section \<open>Devices of a frame\<close>

lemma check_members_distinct:
  "check_members depth seen kvs = [] \<Longrightarrow> distinct (map fst kvs) \<and> set (map fst kvs) \<inter> set seen = {}"
proof (induction kvs arbitrary: seen)
  case (Cons kv kvs)
  obtain k v where kv: "kv = (k, v)" by fastforce
  from Cons.prems kv have "k \<notin> set seen" "check_members depth (k # seen) kvs = []"
    by (auto simp: Let_def split: if_splits)
  with Cons.IH [of "k # seen"] kv show ?case by auto
qed simp

lemma check_members_value:
  "check_members depth seen kvs = [] \<Longrightarrow> (k, v) \<in> set kvs \<Longrightarrow> check_value (depth + 1) v = []"
  by (induction kvs arbitrary: seen) (auto simp: Let_def split: if_splits)

lemma frame_metrics_distinct:
  assumes "DecodeProducerFrame L raw = Inr f"
  shows "\<exists>kvs. pf_Metrics f = JObj kvs \<and> distinct (map fst kvs)"
proof -
  from assms obtain v m metrics where c: "checkJSON L raw = []" and v: "json_value L raw = Inr v"
    and m: "object v [''measurement'', ''metrics'', ''terminal_cutoff''] = Inr m"
    and o: "object_at m ''metrics'' [] = Inr metrics" and f: "pf_Metrics f = JObj metrics"
    by (auto simp: DecodeProducerFrame_def bindR_eq_Inr split: if_splits list.splits)
  from c v have cv: "check_value 0 v = []"
    by (auto simp: checkJSON_def json_value_def split: if_splits option.splits)
  from m have vm: "v = JObj m" by (auto simp: object_def split: json.splits if_splits)
  from o have "(''metrics'', JObj metrics) \<in> set m"
    by (auto simp: object_at_def object_def split: option.splits json.splits dest: map_of_SomeD)
  moreover have "check_members 0 [] m = []" using cv vm by simp
  ultimately have "check_value 1 (JObj metrics) = []" using check_members_value by fastforce
  then have "check_members 1 [] metrics = []" by (simp split: if_splits)
  with f check_members_distinct show ?thesis by blast
qed

abbreviation tx_of :: "string \<times> int \<times> int \<Rightarrow> int" where
  "tx_of d \<equiv> fst (snd d)"

abbreviation rx_of :: "string \<times> int \<times> int \<Rightarrow> int" where
  "rx_of d \<equiv> snd (snd d)"

definition totals_ok :: "(string \<times> int \<times> int) list \<Rightarrow> bool" where
  "totals_ok xs \<longleftrightarrow> distinct (map fst xs) \<and> (\<forall>d \<in> set xs. u64_ok (tx_of d) \<and> u64_ok (rx_of d))"

lemma update_append: "k \<notin> fst ` set xs \<Longrightarrow> AList.update k v xs = xs @ [(k, v)]"
  by (induction xs) auto

lemma set_update_subset: "set (AList.update k v xs) \<subseteq> insert (k, v) (set xs)"
  by (induction xs) auto

lemma sum_update:
  fixes g :: "'v \<Rightarrow> int"
  assumes "distinct (map fst xs)"
  shows "(\<Sum>d\<leftarrow>AList.update k v xs. g (snd d)) =
    (\<Sum>d\<leftarrow>xs. g (snd d)) + g v - (case map_of xs k of None \<Rightarrow> 0 | Some p \<Rightarrow> g p)"
  using assms
  by (induction xs) (auto split: option.splits simp: dest: weak_map_of_SomeI)

lemma u64_add_guard:
  assumes "u64_ok a" "u64_ok b" "\<not> b > u64 (max_u64 - a)"
  shows "u64 (a + b) = a + b" "u64_ok (a + b)"
proof -
  have "u64 (max_u64 - a) = max_u64 - a" using assms(1) by (auto simp: u64_ok_def max_u64_def intro!: u64_id)
  with assms show "u64 (a + b) = a + b" "u64_ok (a + b)"
    by (auto simp: u64_ok_def max_u64_def intro!: u64_id)
qed

lemma device_deltas_sum:
  assumes "device_deltas kvs limit res tx rx = Inr (res', tx', rx')" "distinct (map fst kvs)"
    and "fst ` set res \<inter> fst ` set kvs = {}" "totals_ok res" "u64_ok tx" "u64_ok rx"
    and "(\<Sum>d\<leftarrow>res. tx_of d) = tx" "(\<Sum>d\<leftarrow>res. rx_of d) = rx"
  shows "totals_ok res' \<and> (\<Sum>d\<leftarrow>res'. tx_of d) = tx' \<and> (\<Sum>d\<leftarrow>res'. rx_of d) = rx' \<and> u64_ok tx' \<and> u64_ok rx'"
  using assms
proof (induction kvs arbitrary: res tx rx)
  case (Cons kv kvs)
  obtain k v where kv: "kv = (k, v)" by fastforce
  show ?case
  proof (cases "has_prefix k ''net_''")
    case False
    with Cons.prems kv show ?thesis by (intro Cons.IH) auto
  next
    case True
    with Cons.prems(1) kv obtain dev x y where
      d: "required unmarshal_u64 dev ''tx_bytes_count'' = Inr x" "required unmarshal_u64 dev ''rx_bytes_count'' = Inr y"
      and g: "\<not> x > u64 (max_u64 - tx)" "\<not> y > u64 (max_u64 - rx)"
      and rec: "device_deltas kvs limit (AList.update k (x, y) res) (u64 (tx + x)) (u64 (rx + y)) = Inr (res', tx', rx')"
      by (auto split: if_splits sum.splits)
    have u: "u64_ok x" "u64_ok y" using d by (auto intro: required_u64)
    note gx = u64_add_guard [OF Cons.prems(5) u(1) g(1)] and gy = u64_add_guard [OF Cons.prems(6) u(2) g(2)]
    have new: "k \<notin> fst ` set res" using Cons.prems(3) kv by auto
    show ?thesis
      by (rule Cons.IH [OF rec])
        (use Cons.prems kv new u gx gy in \<open>auto simp: update_append totals_ok_def image_iff\<close>)
  qed
qed auto

lemma device_deltas_sum0:
  assumes "device_deltas kvs limit [] 0 0 = Inr (res, tx, rx)" "distinct (map fst kvs)"
  shows "totals_ok res" "(\<Sum>d\<leftarrow>res. tx_of d) = tx" "(\<Sum>d\<leftarrow>res. rx_of d) = rx"
  using device_deltas_sum [OF assms] by (auto simp: totals_ok_def u64_ok_def max_u64_def)

lemma consumerDeviceDeltas_sum:
  assumes "DecodeProducerFrame L raw = Inr f" "consumerDeviceDeltas f limit = Inr ds" "pf_DeviceMetricsPresent f"
  shows "totals_ok ds" "(\<Sum>d\<leftarrow>ds. tx_of d) = pf_Tx f" "(\<Sum>d\<leftarrow>ds. rx_of d) = pf_Rx f"
proof -
  from frame_metrics_distinct [OF assms(1)] obtain kvs where k: "pf_Metrics f = JObj kvs" "distinct (map fst kvs)" by blast
  from assms(2,3) k(1) have "device_deltas kvs limit [] 0 0 = Inr (ds, pf_Tx f, pf_Rx f)"
    by (auto simp: consumerDeviceDeltas_def object_def bindR_eq_Inr split: if_splits)
  from device_deltas_sum0 [OF this k(2)] show "totals_ok ds" "(\<Sum>d\<leftarrow>ds. tx_of d) = pf_Tx f" "(\<Sum>d\<leftarrow>ds. rx_of d) = pf_Rx f"
    by simp_all
qed

lemma add_totals_sum:
  assumes "add_totals limit ds totals = Inr totals'" "totals_ok totals" "totals_ok ds"
  shows "totals_ok totals' \<and> (\<Sum>d\<leftarrow>totals'. tx_of d) = (\<Sum>d\<leftarrow>totals. tx_of d) + (\<Sum>d\<leftarrow>ds. tx_of d) \<and>
    (\<Sum>d\<leftarrow>totals'. rx_of d) = (\<Sum>d\<leftarrow>totals. rx_of d) + (\<Sum>d\<leftarrow>ds. rx_of d)"
  using assms
proof (induction ds arbitrary: totals)
  case (Cons d ds)
  obtain k dx dy where d: "d = (k, dx, dy)" by (metis prod.exhaust)
  obtain px py where p: "(case map_of totals k of None \<Rightarrow> (0, 0) | Some p \<Rightarrow> p) = (px, py)" by fastforce
  let ?t = "AList.update k (u64 (px + dx), u64 (py + dy)) totals"
  from Cons.prems(1) d p have g: "\<not> dx > u64 (max_u64 - px)" "\<not> dy > u64 (max_u64 - py)"
    and rec: "add_totals limit ds ?t = Inr totals'"
    by (auto simp: Let_def split: if_splits)
  have u: "u64_ok dx" "u64_ok dy" using Cons.prems(3) d by (auto simp: totals_ok_def)
  have up: "u64_ok px" "u64_ok py"
    using p Cons.prems(2) by (auto simp: totals_ok_def u64_ok_def max_u64_def split: option.splits dest!: map_of_SomeD)
  note gx = u64_add_guard [OF up(1) u(1) g(1)] and gy = u64_add_guard [OF up(2) u(2) g(2)]
  have dt: "distinct (map fst totals)" using Cons.prems(2) by (simp add: totals_ok_def)
  have ok: "totals_ok ?t"
    using Cons.prems(2) gx gy set_update_subset [of k "(u64 (px + dx), u64 (py + dy))" totals]
    by (auto simp: totals_ok_def distinct_update)
  have s: "(\<Sum>d\<leftarrow>?t. tx_of d) = (\<Sum>d\<leftarrow>totals. tx_of d) + dx" "(\<Sum>d\<leftarrow>?t. rx_of d) = (\<Sum>d\<leftarrow>totals. rx_of d) + dy"
    using sum_update [OF dt, of fst k "(u64 (px + dx), u64 (py + dy))"]
      sum_update [OF dt, of snd k "(u64 (px + dx), u64 (py + dy))"] p gx gy
    by (auto split: option.splits)
  have "totals_ok ds" using Cons.prems(3) by (auto simp: totals_ok_def)
  from Cons.IH [OF rec ok this] s d show ?case by auto
qed auto

section \<open>Transitions that reproduce a record\<close>

definition sink_step :: "Correlator \<Rightarrow> Correlator \<Rightarrow> Record \<Rightarrow> int \<Rightarrow> int \<Rightarrow> bool" where
  "sink_step c c' r dtx drx \<longleftrightarrow>
     canon (j_last (c_journal c')) = r \<and> rec_ext (j_last (c_journal c)) (j_last (c_journal c')) \<and>
     \<not> j_closed (c_journal c) \<and> (r_Kind r = ''closed'' \<longrightarrow> j_closed (c_journal c')) \<and>
     (\<forall>p. c_pending c' = Some p \<longrightarrow> q_receipt p = None) \<and>
     r_DeltaTxBytes r = dtx \<and> r_DeltaRxBytes r = drx"

definition no_receipt :: "Correlator \<Rightarrow> bool" where
  "no_receipt c \<longleftrightarrow> (\<forall>p. c_pending c = Some p \<longrightarrow> q_receipt p = None)"

lemma sink_stepI:
  assumes "canon (j_last (c_journal c')) = r" "rec_ext (j_last (c_journal c)) (j_last (c_journal c'))"
    and "\<not> j_closed (c_journal c)" "r_Kind (j_last (c_journal c')) \<noteq> ''closed''" "no_receipt c'"
    and "r_DeltaTxBytes (j_last (c_journal c')) = x" "r_DeltaRxBytes (j_last (c_journal c')) = y"
  shows "sink_step c c' r x y"
  using assms by (auto simp: sink_step_def no_receipt_def)

lemma persist_Inl_nonnil [simp]: "persist E kind ev tx rx cnt c w \<noteq> (Inl [], c', w')"
  by (auto simp: persist_def Let_def journal_next_def split: prod.splits sum.splits if_splits)

lemma persist_sink_step:
  assumes "json_law L" "record_typed (j_last (c_journal c))"
    and p: "persist (sink_env L) kind ev tx rx cnt c s = (Inr seq, c', s')" and "cnt \<Longrightarrow> u64_ok tx \<and> u64_ok rx"
    and k: "kind \<noteq> ''closed''" and c: "c_journal c'' = c_journal c'" "no_receipt c''"
  shows "sink_step c c'' (sk_expected s) (if cnt then tx else 0) (if cnt then rx else 0)"
    and "r_Kind (sk_expected s) = kind"
proof -
  from assms(1-4) obtain j where j: "c' = c\<lparr>c_journal := j\<rparr>" "canon (j_last j) = sk_expected s"
    "rec_ext (j_last (c_journal c)) (j_last j)" "\<not> j_closed (c_journal c)" "r_Kind (j_last j) = kind"
    "r_DeltaTxBytes (j_last j) = (if cnt then tx else 0)" "r_DeltaRxBytes (j_last j) = (if cnt then rx else 0)"
    by (rule persist_sink)
  show "sink_step c c'' (sk_expected s) (if cnt then tx else 0) (if cnt then rx else 0)"
    by (rule sink_stepI) (use j k c in simp_all)
  show "r_Kind (sk_expected s) = kind" using j(2,5) by (metis canon_simps(3))
qed

lemma Begin_sink:
  assumes L: "json_law L" and t: "record_typed (j_last (c_journal c))"
    and b: "Begin (sink_env L) ident scope c s = (Inr q, c', s')" and w: "sk_writes s = 0" "sk_writes s' = 1"
  shows "sink_step c c' (sk_expected s) 0 0" "c_activity c' = c_activity c" "r_Kind (sk_expected s) = ''producer_request''"
proof -
  obtain e0 c0 where a: "available c = (e0, c0)" by fastforce
  have "begin_new (sink_env L) ident scope c0 s = (Inr q, c', s')" "e0 = []"
    using b a w by (auto simp: Begin_def Let_def split: if_splits option.splits prod.splits)
  with a available_ok have n: "begin_new (sink_env L) ident scope c s = (Inr q, c', s')" by blast
  let ?req = "\<lparr>pr_Incarnation = c_incarnation c, pr_Sequence = u64 (c_requestSequence c + 1), pr_ID = ident\<rparr>"
  obtain seq c1 where p: "persist (sink_env L) ''producer_request''
      ((evidence (c_incarnation c))\<lparr>pe_Request := Some ?req, pe_Scope := scope\<rparr>) 0 0 False c s = (Inr seq, c1, s')"
    and c': "c' = c1\<lparr>c_preboot := c_preboot c1 \<or> scope = BaselineScope, c_requestSequence := pr_Sequence ?req,
        c_pending := Some (new_pending ?req scope)\<rparr>"
    using n by (auto simp: begin_new_def Let_def split: prod.splits sum.splits)
  have "c_journal c' = c_journal c1" "no_receipt c'" by (simp_all add: c' no_receipt_def new_pending_def)
  from persist_sink_step [OF L t p _ _ this]
  show "sink_step c c' (sk_expected s) 0 0" "r_Kind (sk_expected s) = ''producer_request''" by simp_all
  show "c_activity c' = c_activity c" using persist_keeps(4) [OF p] by (simp add: c')
qed

lemma BeginActivity_sink:
  assumes L: "json_law L" and t: "record_typed (j_last (c_journal c))" and nr: "no_receipt c"
    and b: "BeginActivity (sink_env L) c s = ([], c', s')" and w: "sk_writes s = 0" "sk_writes s' = 1"
  shows "sink_step c c' (sk_expected s) 0 0" "\<not> c_activity c" "c_activity c'"
    "r_Kind (sk_expected s) = ''producer_activity_intent''"
proof -
  obtain e0 c0 where a: "available c = (e0, c0)" by fastforce
  then have e: "e0 = []" using b by (auto simp: BeginActivity_def split: if_splits)
  with a available_ok have c0: "c0 = c" by blast
  obtain res c1 s1 where p: "persist (sink_env L) ''producer_activity_intent''
      ((evidence (c_incarnation c))\<lparr>pe_Scope := SampleScope\<rparr>) 0 0 False c s = (res, c1, s1)" by (metis prod.exhaust)
  have "\<exists>seq. res = Inr seq" "\<not> c_activity c" "c' = c1\<lparr>c_activity := True\<rparr>" "s' = s1"
    using b a e c0 p w
    by (auto simp: BeginActivity_def Let_def split: if_splits option.splits sum.splits)
  then obtain seq where r: "res = Inr seq" and c': "c' = c1\<lparr>c_activity := True\<rparr>" and na: "\<not> c_activity c" by blast
  have "c_journal c' = c_journal c1" "no_receipt c'"
    using nr persist_keeps(1) [OF p] by (simp_all add: c' no_receipt_def)
  from persist_sink_step [OF L t p [unfolded r] _ _ this]
  show "sink_step c c' (sk_expected s) 0 0" "r_Kind (sk_expected s) = ''producer_activity_intent''" by simp_all
  show "\<not> c_activity c" "c_activity c'" using na by (simp_all add: c')
qed

text \<open>A frame that the replay accepts; once activity has begun it must carry device metrics, so
  its bytes are counted.\<close>

lemma ObserveFrame_sink:
  assumes L: "json_law L" and t: "record_typed (j_last (c_journal c))" and nr: "no_receipt c"
    and f: "DecodeProducerFrame L raw = Inr f"
    and b: "ObserveFrame (sink_env L) raw c s = ([], c', s')"
  shows "\<exists>x y. sink_step c c' (sk_expected s) x y \<and>
      (c_activity c \<longrightarrow> pf_DeviceMetricsPresent f \<and> x = pf_Tx f \<and> y = pf_Rx f)"
    "c_activity c' = c_activity c" "r_Kind (sk_expected s) = ''producer_frame''"
proof -
  obtain e0 c0 where a: "available c = (e0, c0)" by fastforce
  then have e: "e0 = []" using b by (auto simp: ObserveFrame_def split: if_splits)
  with a available_ok have c0: "c0 = c" by blast
  have "c_preboot c" using b a e c0 by (auto simp: ObserveFrame_def fail_not_ok split: if_splits)
  with b a e c0 f obtain ns scope where ch: "check_frame c f = Inr (ns, scope)"
    by (cases "check_frame c f") (auto simp: ObserveFrame_def fail_not_ok)
  obtain res c1 s1 where p: "persist (sink_env L) ''producer_frame'' (frame_evidence (sink_env L) c f raw ns scope)
      (pf_Tx f) (pf_Rx f) (ns = ''device_aggregate'') c s = (res, c1, s1)" by (metis prod.exhaust)
  obtain seq where r: "res = Inr seq"
    using b a e c0 f ch p \<open>c_preboot c\<close> by (cases res) (auto simp: ObserveFrame_def)
  have u: "u64_ok (pf_Tx f) \<and> u64_ok (pf_Rx f)"
    using DecodeProducerFrame_ok(1) [OF f] by (simp add: frame_ok_def)
  note k = persist_keeps [OF p]
  have c': "c_journal c' = c_journal c1 \<and> no_receipt c' \<and> c_activity c' = c_activity c1"
  proof (cases "ph_RequestID (pf_Header f) = None")
    case True
    with b a e c0 f ch p r \<open>c_preboot c\<close> have "c' = c1\<lparr>c_attempt := ph_Attempt (pf_Header f)\<rparr>"
      by (auto simp: ObserveFrame_def Let_def)
    with nr k(1) show ?thesis by (simp add: no_receipt_def)
  next
    case False
    with b a e c0 f ch p r \<open>c_preboot c\<close> have
      "match (sink_env L) (c1\<lparr>c_attempt := ph_Attempt (pf_Header f),
         c_pending := map_option (set_frame (sink_env L) f raw seq) (c_pending c1)\<rparr>) s1 = ([], c', s')"
      by (auto simp: ObserveFrame_def Let_def)
    with nr k(1) show ?thesis
      by (cases "c_pending c") (auto simp: match_def no_receipt_def set_frame_def)
  qed
  then have "c_journal c' = c_journal c1" "no_receipt c'" by simp_all
  note st = persist_sink_step [OF L t p [unfolded r] u _ this]
  show "r_Kind (sk_expected s) = ''producer_frame''" using st(2) by simp
  show "c_activity c' = c_activity c" using c' k(4) by simp
  have "c_activity c \<longrightarrow> pf_DeviceMetricsPresent f \<and> ns = ''device_aggregate''"
    using ch by (auto simp: check_frame_def network_scope_def split: if_splits sum.splits)
  with st(1) show "\<exists>x y. sink_step c c' (sk_expected s) x y \<and>
      (c_activity c \<longrightarrow> pf_DeviceMetricsPresent f \<and> x = pf_Tx f \<and> y = pf_Rx f)"
    by (intro exI [of _ "if ns = ''device_aggregate'' then pf_Tx f else 0"]
        exI [of _ "if ns = ''device_aggregate'' then pf_Rx f else 0"]) auto
qed

lemma ObserveReceipt_sink:
  assumes L: "json_law L" and t: "record_typed (j_last (c_journal c))"
    and b: "ObserveReceipt (sink_env L) raw c s = ([], c', s')" and w: "sk_writes s = 0" "sk_writes s' = 1"
  shows "sink_step c c' (sk_expected s) 0 0" "c_activity c' = c_activity c"
    "r_Kind (sk_expected s) = ''producer_correlation''"
proof -
  obtain e0 c0 where a: "available c = (e0, c0)" by fastforce
  then have e: "e0 = []" using b by (auto simp: ObserveReceipt_def split: if_splits)
  with a available_ok have c0: "c0 = c" by blast
  obtain q where m: "match (sink_env L) (c\<lparr>c_pending := Some q\<rparr>) s = ([], c', s')"
    using b a e c0 w
    by (auto simp: ObserveReceipt_def Let_def fail_not_ok split: option.splits sum.splits if_splits)
  then obtain h rc where q: "q_frame q = Some h" "q_receipt q = Some rc"
    using w by (auto simp: match_def split: option.splits)
  obtain res c1 s1 where p: "persist (sink_env L) ''producer_correlation''
      (match_evidence (sink_env L) (c\<lparr>c_pending := Some q\<rparr>) q h) 0 0 False (c\<lparr>c_pending := Some q\<rparr>) s = (res, c1, s1)"
    by (metis prod.exhaust)
  obtain seq where r: "res = Inr seq"
    using m q p by (cases res) (auto simp: match_def fail_not_ok split: if_splits)
  have c': "c_journal c' = c_journal c1" "c_pending c' = None" "c_activity c' = c_activity c1"
    using m q p r by (auto simp: match_def fail_not_ok split: if_splits)
  then have "no_receipt c'" by (simp add: no_receipt_def)
  from persist_sink_step [OF L _ p [unfolded r] _ _ c'(1) this] t
  have "sink_step (c\<lparr>c_pending := Some q\<rparr>) c' (sk_expected s) 0 0" and k: "r_Kind (sk_expected s) = ''producer_correlation''"
    by simp_all
  then show "sink_step c c' (sk_expected s) 0 0" by (simp add: sink_step_def)
  show "r_Kind (sk_expected s) = ''producer_correlation''" by (rule k)
  show "c_activity c' = c_activity c" using c'(3) persist_keeps(4) [OF p] by simp
qed

lemma Correlator_Close_sink:
  assumes L: "json_law L" and t: "record_typed (j_last (c_journal c))"
    and b: "Correlator_Close (sink_env L) c s = ([], c', s')" and w: "sk_writes s = 0" "sk_writes s' = 1"
  shows "sink_step c c' (sk_expected s) 0 0" "c_activity c' = c_activity c"
proof -
  have nc: "\<not> c_closed c" using b w by (auto simp: Correlator_Close_def)
  have np: "c_pending c = None \<and> c_failed c = []"
  proof (rule ccontr)
    assume "\<not> (c_pending c = None \<and> c_failed c = [])"
    with b nc show False
      by (cases "c_failed c = []")
        (auto simp: Correlator_Close_def Let_def correlator_fail_def split: prod.splits if_splits sum.splits)
  qed
  obtain e j s1 where cl: "Journal_Close (sink_env L) (c_journal c) s = (e, j, s1)" by (metis prod.exhaust)
  from b nc np cl have eq: "e = []" "s1 = s'" "c' = c\<lparr>c_closed := True, c_journal := j, c_failed := []\<rparr>"
    by (auto simp: Correlator_Close_def Let_def)
  have jc: "\<not> j_closed (c_journal c)" using cl eq w by (auto simp: Journal_Close_def)
  obtain res j1 where nx: "journal_next ''closed'' (c_journal c) = (res, j1)" by fastforce
  obtain r where r: "res = Inr r"
    using cl jc eq nx journal_next_Inl [of "''closed''" "c_journal c" _ j1]
    by (cases res) (auto simp: Journal_Close_def before_seal_def after_seal_def Let_def)
  note n = journal_next_Inr [OF nx [unfolded r] t]
  let ?r = "r\<lparr>r_Reason := ''terminal_coverage_unverified''\<rparr>"
  obtain e2 j2 s2 where ap: "journal_append (sink_env L) ?r (c_journal c) s = (e2, j2, s2)" by (metis prod.exhaust)
  from cl jc eq nx r n(1) ap have e2: "e2 = []" "j = j2\<lparr>j_closed := True, j_failed := []\<rparr>" "s2 = s'"
    by (auto simp: Journal_Close_def before_seal_def after_seal_def Let_def)
  note as = append_sink [OF L ap [unfolded e2(1)]]
  have "rec_ext (j_last (c_journal c)) (j_last j2)"
    unfolding as(4) by (rule rec_ext_stamp [OF rec_ext_reason [OF n(2)]])
  moreover have "r_DeltaTxBytes (sk_expected s) = 0" "r_DeltaRxBytes (sk_expected s) = 0"
    unfolding as(1) [symmetric] using as(4) n(4,5) by simp_all
  ultimately show "sink_step c c' (sk_expected s) 0 0"
    using eq(3) e2(2) as(1) jc np by (simp add: sink_step_def)
  show "c_activity c' = c_activity c" using eq(3) by simp
qed

section \<open>Accepted records\<close>

definition after_activity :: "Record list \<Rightarrow> Record list" where
  "after_activity rs = dropWhile (\<lambda>r. r_Kind r \<noteq> ''producer_activity_intent'') rs"

definition has_activity :: "Record list \<Rightarrow> bool" where
  "has_activity rs \<longleftrightarrow> (\<exists>r \<in> set rs. r_Kind r = ''producer_activity_intent'')"

lemma after_activity_snoc:
  "after_activity (rs @ [r]) =
     (if has_activity rs then after_activity rs @ [r]
      else if r_Kind r = ''producer_activity_intent'' then [r] else [])"
  by (induction rs) (auto simp: after_activity_def has_activity_def)

lemma no_activity: "\<not> has_activity rs \<Longrightarrow> after_activity rs = []"
  by (simp add: after_activity_def has_activity_def dropWhile_eq_Nil_conv)

lemma has_activity_snoc [simp]:
  "has_activity (rs @ [r]) \<longleftrightarrow> has_activity rs \<or> r_Kind r = ''producer_activity_intent''"
  by (auto simp: has_activity_def)

text \<open>The replay after the records \<open>rs\<close>, while it has not stopped.\<close>

definition replay_core :: "Record list \<Rightarrow> Journal option \<Rightarrow> Correlator option \<Rightarrow> bool" where
  "replay_core rs jo co \<longleftrightarrow>
     (rs = [] \<and> jo = None \<and> co = None) \<or>
     (record_chain rs \<and> jo \<noteq> None \<and>
      (\<exists>j. (case co of Some c \<Rightarrow> Some (c_journal c) | None \<Rightarrow> jo) = Some j \<and> canon (j_last j) = last rs \<and>
         (r_Kind (last rs) = ''closed'' \<longrightarrow> j_closed j)) \<and>
      (case co of None \<Rightarrow> length rs = 1 | Some c \<Rightarrow> no_receipt c \<and> (c_activity c \<longleftrightarrow> has_activity rs) \<and> 2 \<le> length rs))"

definition totals_exact :: "Record list \<Rightarrow> (string \<times> int \<times> int) list \<Rightarrow> bool" where
  "totals_exact rs totals \<longleftrightarrow>
     totals_ok totals \<and>
     (\<Sum>d\<leftarrow>totals. tx_of d) = (\<Sum>r\<leftarrow>after_activity rs. r_DeltaTxBytes r) \<and>
     (\<Sum>d\<leftarrow>totals. rx_of d) = (\<Sum>r\<leftarrow>after_activity rs. r_DeltaRxBytes r)"

lemma replay_core_correlator:
  assumes "replay_core rs jo (Some c)"
  shows "record_chain rs" "canon (j_last (c_journal c)) = last rs" "no_receipt c" "c_activity c \<longleftrightarrow> has_activity rs"
    "record_typed (j_last (c_journal c))" "2 \<le> length rs" "r_Kind (last rs) = ''closed'' \<Longrightarrow> j_closed (c_journal c)"
proof -
  from assms show c: "record_chain rs" and l: "canon (j_last (c_journal c)) = last rs"
    and "no_receipt c" "c_activity c \<longleftrightarrow> has_activity rs"
    "2 \<le> length rs" "r_Kind (last rs) = ''closed'' \<Longrightarrow> j_closed (c_journal c)" by (auto simp: replay_core_def)
  show "record_typed (j_last (c_journal c))" using record_chain_last_typed [OF c] l by (metis record_typed_canon)
qed

lemma replay_core_step:
  assumes i: "replay_core rs jo (Some c)" and s: "sink_step c c' r x y"
    and a: "c_activity c' \<longleftrightarrow> has_activity (rs @ [r])"
  shows "replay_core (rs @ [r]) jo (Some c')"
proof -
  note k = replay_core_correlator [OF i]
  from i have jo: "jo \<noteq> None" by (auto simp: replay_core_def)
  from s have r: "r = canon (j_last (c_journal c'))" "rec_ext (j_last (c_journal c)) (j_last (c_journal c'))"
    "\<not> j_closed (c_journal c)" "r_Kind r = ''closed'' \<longrightarrow> j_closed (c_journal c')" "no_receipt c'"
    by (auto simp: sink_step_def no_receipt_def)
  have "r_Kind (last rs) \<noteq> ''closed''" using k(7) r(3) by blast
  moreover have "rec_ext (last rs) r" unfolding r(1) k(2) [symmetric] using r(2) by simp
  ultimately have "record_chain (rs @ [r])" using record_chain_snoc [OF k(1)] by (simp add: rec_step_def)
  with jo r a k(6) show ?thesis by (auto simp: replay_core_def)
qed

lemma start_sink:
  assumes L: "json_law L" and s: "start_journal (sink_env L) sb ident s = ([], j, s')" and k: "r_Kind (sk_expected s) = ''start''"
  shows "replay_core [sk_expected s] (Some j) None"
proof -
  let ?j0 = "new_journal (initial_record sb ident)" and ?r0 = "(initial_record sb ident)\<lparr>r_Kind := ''start''\<rparr>"
  have "journal_append (sink_env L) ?r0 ?j0 s = ([], j, s')"
    using s by (simp add: start_journal_def Let_def new_journal_def)
  note as = append_sink [OF L this]
  have "start_record (canon (j_last j))" using as(4) by (simp add: start_record_def initial_record_def)
  with as(1) k show ?thesis by (auto simp: replay_core_def record_chain_def)
qed

lemma binding_sink:
  assumes L: "json_law L" and i: "replay_core rs jo co" and j: "(case co of Some c \<Rightarrow> Some (c_journal c) | None \<Rightarrow> jo) = Some j"
    and n: "NewCorrelator (sink_env L) (j\<lparr>j_workload := W\<rparr>) inc s = (Inr c, j', s')"
  shows "replay_core (rs @ [sk_expected s]) (Some j') (Some c)" "co = None"
    "r_Kind (sk_expected s) = ''producer_binding''" "\<not> has_activity rs"
proof -
  let ?j0 = "j\<lparr>j_workload := W, j_correlated := True\<rparr>"
  from i j have rs: "record_chain rs" "canon (j_last j) = last rs" "r_Kind (last rs) = ''closed'' \<longrightarrow> j_closed j"
    "co \<noteq> None \<longrightarrow> 2 \<le> length rs" "co = None \<longrightarrow> length rs = 1"
    by (auto simp: replay_core_def split: option.splits)
  have "record_typed (canon (j_last j))" using record_chain_last_typed [OF rs(1)] rs(2) by simp
  then have t: "record_typed (j_last ?j0)" by simp
  have z: "r_Sequence (j_last j) = 0" "\<not> j_closed j" using n by (auto simp: NewCorrelator_def split: if_splits)
  have "r_Sequence (last rs) = 0" using z(1) rs(2) by (metis canon_simps(6))
  then have "length rs = 1" using record_chain_last_seq [OF rs(1)] by simp
  with rs(4) show co: "co = None" by auto
  obtain res j1 where nx: "journal_next ''producer_binding'' ?j0 = (res, j1)" by fastforce
  obtain r where r: "res = Inr r" using n nx by (cases res) (auto simp: NewCorrelator_def Let_def split: if_splits)
  note nr = journal_next_Inr [OF nx [unfolded r] t]
  let ?r = "r\<lparr>r_Producer := Some (evidence inc)\<rparr>"
  obtain e j2 s2 where ap: "journal_append (sink_env L) ?r ?j0 s = (e, j2, s2)" by (metis prod.exhaust)
  from n nx r nr(1) ap have eq: "e = []" "c_journal c = j2" "j' = j2" "c_pending c = None" "\<not> c_activity c"
    by (auto simp: NewCorrelator_def Let_def split: if_splits)
  note as = append_sink [OF L ap [unfolded eq(1)]]
  have x: "rec_ext (j_last j) (j_last j2)"
    using rec_ext_stamp [OF rec_ext_producer [OF nr(2)]] as(4) by simp
  have k: "r_Kind (j_last j2) = ''producer_binding''" using as(4) nr(3) by simp
  then show k': "r_Kind (sk_expected s) = ''producer_binding''" using as(1) by (metis canon_simps(3))
  have "rec_ext (last rs) (sk_expected s)" unfolding rs(2) [symmetric] as(1) [symmetric] using x by simp
  moreover have "r_Kind (last rs) \<noteq> ''closed''" using rs(3) z(2) by blast
  ultimately have ch: "record_chain (rs @ [sk_expected s])" using record_chain_snoc [OF rs(1)] by (simp add: rec_step_def)
  from rs(1) \<open>length rs = 1\<close> have "r_Kind r = ''start''" if "r \<in> set rs" for r
    using that by (cases rs) (auto simp: record_chain_def start_record_def)
  then show na: "\<not> has_activity rs" by (auto simp: has_activity_def)
  with ch eq as(1) k' \<open>length rs = 1\<close> show "replay_core (rs @ [sk_expected s]) (Some j') (Some c)"
    by (auto simp: replay_core_def no_receipt_def)
qed

definition other_fields :: "consumerReplay \<Rightarrow> consumerReplay \<Rightarrow> bool" where
  "other_fields v v' \<longleftrightarrow> v' = v\<lparr>v_journal := v_journal v', v_correlator := v_correlator v'\<rparr>"

lemma other_fields_simps [simp]:
  "other_fields v (v\<lparr>v_journal := a\<rparr>)" "other_fields v (v\<lparr>v_correlator := b\<rparr>)"
  "other_fields v (v\<lparr>v_journal := a, v_correlator := b\<rparr>)"
  by (cases v; simp add: other_fields_def)+

lemma other_fieldsD:
  assumes "other_fields v v'"
  shows "v_totals v' = v_totals v" "v_maxDevices v' = v_maxDevices v" "v_stopped v' = v_stopped v"
    "v_prefix v' = v_prefix v" "v_baseline v' = v_baseline v" "v_gaps v' = v_gaps v"
  by (subst assms [unfolded other_fields_def]; simp)+

text \<open>A transition that reproduces the record \<open>r\<close> keeps the invariant; only a frame carries
  bytes, and after the activity intent these are the bytes of its devices.\<close>

definition bytes_ok :: "Record \<Rightarrow> Record list \<Rightarrow> Correlator option \<Rightarrow> ProducerFrame \<Rightarrow> bool" where
  "bytes_ok r rs co f \<longleftrightarrow>
     (if r_Kind r = ''producer_frame''
      then \<exists>c. co = Some c \<and> (c_activity c \<longleftrightarrow> has_activity rs) \<and>
        (has_activity rs \<longrightarrow> pf_DeviceMetricsPresent f \<and> r_DeltaTxBytes r = pf_Tx f \<and> r_DeltaRxBytes r = pf_Rx f)
      else has_activity (rs @ [r]) \<longrightarrow> r_DeltaTxBytes r = 0 \<and> r_DeltaRxBytes r = 0)"

lemma transition_correlator:
  assumes L: "json_law L" and i: "replay_core rs (v_journal v) (Some c)" and v: "v_correlator v = Some c"
    and tr: "replay_transition L r now v = ([], v', s)" and w: "sk_writes s = 1"
    and k: "r_Kind r \<noteq> ''start''" "r_Kind r \<noteq> ''producer_binding''"
    and f: "r_Kind r = ''producer_frame'' \<Longrightarrow> \<exists>p. r_Producer r = Some p \<and> DecodeProducerFrame L (raw_of p) = Inr f"
  shows "replay_core (rs @ [r]) (v_journal v') (v_correlator v') \<and> other_fields v v' \<and> bytes_ok r rs (v_correlator v') f"
proof -
  note kc = replay_core_correlator [OF i]
  let ?E = "sink_env L" and ?s = "\<lparr>sk_expected = r, sk_writes = 0, sk_now = now\<rparr>"
  have w0: "sk_writes ?s = 0" by simp
  note fin = replay_core_step [OF i]
  consider (request) i sc x c' where "r_Kind r = ''producer_request''" "Begin ?E i sc c ?s = (Inr x, c', s)"
      "v' = v\<lparr>v_correlator := Some c'\<rparr>"
    | (activity) c' where "r_Kind r = ''producer_activity_intent''" "BeginActivity ?E c ?s = ([], c', s)"
      "v' = v\<lparr>v_correlator := Some c'\<rparr>"
    | (frame) p c' where "r_Kind r = ''producer_frame''" "r_Producer r = Some p" "ObserveFrame ?E (raw_of p) c ?s = ([], c', s)"
      "v' = v\<lparr>v_correlator := Some c'\<rparr>"
    | (receipt) p c' where "r_Kind r = ''producer_correlation''" "ObserveReceipt ?E (raw_of p) c ?s = ([], c', s)"
      "v' = v\<lparr>v_correlator := Some c'\<rparr>"
    | (closed) c' where "r_Kind r = ''closed''" "Correlator_Close ?E c ?s = ([], c', s)"
      "v' = v\<lparr>v_correlator := Some c'\<rparr>"
    | (begin_failed) i sc c' where "Begin ?E i sc c ?s = (Inl [], c', s)"
    using tr v k
    by (auto simp: replay_transition_def Let_def split: if_splits option.splits prod.splits sum.splits)
  then show ?thesis
  proof cases
    case request
    note st = Begin_sink [OF L kc(5) request(2) w0 w, simplified]
    have "c_activity c' \<longleftrightarrow> has_activity (rs @ [r])" using st(2) kc(4) request(1) by simp
    from fin [OF st(1) this] st(1) request show ?thesis by (simp add: bytes_ok_def sink_step_def)
  next
    case activity
    note st = BeginActivity_sink [OF L kc(5,3) activity(2) w0 w, simplified]
    have "c_activity c' \<longleftrightarrow> has_activity (rs @ [r])" using st(3) activity(1) by simp
    from fin [OF st(1) this] st(1) activity show ?thesis by (simp add: bytes_ok_def sink_step_def)
  next
    case frame
    from f frame(1,2) have d: "DecodeProducerFrame L (raw_of p) = Inr f" by auto
    note st = ObserveFrame_sink [OF L kc(5,3) d frame(3), simplified]
    from st(1) obtain x y where s: "sink_step c c' r x y"
      and xy: "c_activity c \<longrightarrow> pf_DeviceMetricsPresent f \<and> x = pf_Tx f \<and> y = pf_Rx f" by blast
    have "c_activity c' \<longleftrightarrow> has_activity (rs @ [r])" using st(2) kc(4) frame(1) by simp
    from fin [OF s this] s xy st(2) kc(4) frame show ?thesis by (auto simp: bytes_ok_def sink_step_def)
  next
    case receipt
    note st = ObserveReceipt_sink [OF L kc(5) receipt(2) w0 w, simplified]
    have "c_activity c' \<longleftrightarrow> has_activity (rs @ [r])" using st(2) kc(4) receipt(1) by simp
    from fin [OF st(1) this] st(1) receipt show ?thesis by (simp add: bytes_ok_def sink_step_def)
  next
    case closed
    note st = Correlator_Close_sink [OF L kc(5) closed(2) w0 w, simplified]
    have "c_activity c' \<longleftrightarrow> has_activity (rs @ [r])" using st(2) kc(4) closed(1) by simp
    from fin [OF st(1) this] st(1) closed show ?thesis by (simp add: bytes_ok_def sink_step_def)
  next
    case begin_failed
    then show ?thesis
      by (auto simp: Begin_def begin_new_def Let_def fail_not_ok split: prod.splits if_splits option.splits sum.splits)
  qed
qed

lemma transition_core:
  assumes L: "json_law L" and i: "replay_core rs (v_journal v) (v_correlator v)"
    and tr: "replay_transition L r now v = ([], v', s)" and w: "sk_writes s = 1"
    and f: "r_Kind r = ''producer_frame'' \<Longrightarrow> \<exists>p. r_Producer r = Some p \<and> DecodeProducerFrame L (raw_of p) = Inr f"
  shows "replay_core (rs @ [r]) (v_journal v') (v_correlator v') \<and> other_fields v v' \<and> bytes_ok r rs (v_correlator v') f"
proof -
  let ?E = "sink_env L" and ?s = "\<lparr>sk_expected = r, sk_writes = 0, sk_now = now\<rparr>"
  consider (start) "r_Kind r = ''start''" | (binding) "r_Kind r = ''producer_binding''"
    | (other) "r_Kind r \<noteq> ''start''" "r_Kind r \<noteq> ''producer_binding''" by blast
  then show ?thesis
  proof cases
    case start
    from tr start have n: "v_journal v = None" by (auto simp: replay_transition_def Let_def split: if_splits)
    obtain j where j: "start_journal ?E (r_SandboxID r) (v_id v) ?s = ([], j, s)" "v' = v\<lparr>v_journal := Some j\<rparr>"
      using tr start n by (auto simp: replay_transition_def Let_def split: prod.splits)
    from i n have "rs = []" "v_correlator v = None" by (auto simp: replay_core_def)
    with start_sink [OF L j(1)] start j(2) show ?thesis by (simp add: bytes_ok_def has_activity_def)
  next
    case binding
    obtain j where cj: "current_journal v = Some j" and p: "r_Producer r \<noteq> None"
      using tr binding by (auto simp: replay_transition_def Let_def split: option.splits if_splits)
    let ?n = "NewCorrelator ?E (j\<lparr>j_workload := Some (v_workload v)\<rparr>) (wb_ProducerIncarnation (v_workload v)) ?s"
    obtain res j' s1 where n: "?n = (res, j', s1)" by (metis prod.exhaust)
    have "\<exists>c. res = Inr c"
    proof (cases res)
      case (Inl e)
      with tr binding cj p n have "e = []"
        by (auto simp: replay_transition_def Let_def)
      with Inl n show ?thesis
        by (auto simp: NewCorrelator_def Let_def journal_next_def split: if_splits prod.splits)
    qed blast
    then obtain c where c: "res = Inr c" by blast
    with tr binding cj p n have v': "v' = v\<lparr>v_journal := Some j', v_correlator := Some c\<rparr>" "s1 = s"
      by (auto simp: replay_transition_def Let_def)
    from binding_sink [OF L i cj [unfolded current_journal_def] n [unfolded c]] v' binding show ?thesis
      by (simp add: bytes_ok_def)
  next
    case other
    then obtain c where c: "v_correlator v = Some c"
      using tr by (cases "v_correlator v") (auto simp: replay_transition_def Let_def)
    from transition_correlator [OF L i [unfolded c] c tr w other f] show ?thesis .
  qed
qed

text \<open>The checks before the transition change neither the replayed state nor the totals, and a
  replay that has stopped stays so.\<close>

definition checks_keep :: "consumerReplay \<Rightarrow> consumerReplay \<Rightarrow> bool" where
  "checks_keep v v' \<longleftrightarrow>
     v_journal v' = v_journal v \<and> v_correlator v' = v_correlator v \<and> v_totals v' = v_totals v \<and>
     v_maxDevices v' = v_maxDevices v \<and> (v_stopped v \<longrightarrow> v_stopped v')"

lemma checks_keep_trans: "checks_keep a b \<Longrightarrow> checks_keep b c \<Longrightarrow> checks_keep a c"
  by (simp add: checks_keep_def)

lemma checks_keep_gap: "checks_keep v (replay_gap reason v)"
  by (simp add: checks_keep_def replay_gap_def)

lemma checks_keep_closed: "checks_keep v (note_closed r v)"
  by (simp add: checks_keep_def note_closed_def)

lemma checks_keep_sequence: "check_sequence r v = Inr v' \<Longrightarrow> checks_keep v v'"
  by (auto simp: check_sequence_def checks_keep_def replay_gap_def split: if_splits)

lemma replay_frame_Inr:
  assumes "replay_frame L r p v = Inr (f, v')"
  shows "checks_keep v v'" "DecodeProducerFrame L (raw_of p) = Inr f"
  using assms
  by (auto simp: replay_frame_def checks_keep_def replay_gap_def Let_def split: if_splits sum.splits list.splits)

lemma replay_correlation_Inr: "replay_correlation L r p v = Inr v' \<Longrightarrow> checks_keep v v'"
  by (auto simp: replay_correlation_def checks_keep_def replay_gap_def split: if_splits sum.splits option.splits)

lemma check_producer_Inr:
  assumes "check_producer L r v = Inr (frame, v')"
  shows "checks_keep v v'"
    and "frame = Some f \<Longrightarrow> r_Kind r = ''producer_frame'' \<and> (\<exists>p. r_Producer r = Some p \<and> DecodeProducerFrame L (raw_of p) = Inr f)"
proof -
  have k: "checks_keep v v" by (simp add: checks_keep_def)
  from assms k show "checks_keep v v'"
    by (auto simp: check_producer_def Let_def bindR_eq_Inr split: option.splits if_splits
        dest: replay_frame_Inr(1) replay_correlation_Inr)
  from assms show "frame = Some f \<Longrightarrow> r_Kind r = ''producer_frame'' \<and> (\<exists>p. r_Producer r = Some p \<and> DecodeProducerFrame L (raw_of p) = Inr f)"
    by (auto simp: check_producer_def Let_def bindR_eq_Inr split: option.splits if_splits
        dest: replay_frame_Inr(2))
qed

lemma checks_keep_fence: "note_fence r v = Inr v' \<Longrightarrow> checks_keep v v'"
  by (auto simp: note_fence_def checks_keep_def split: if_splits option.splits list.splits)

lemma replay_record_Inr:
  assumes "replay_record L r v = Inr v'"
  obtains now frame ds v1 where "checks_keep v v1" "replay_rest L r now ds v1 = Inr v'"
    "frame = None \<Longrightarrow> ds = None" "r_Kind r = ''producer_frame'' \<Longrightarrow> frame \<noteq> None"
    "\<And>f. frame = Some f \<Longrightarrow> r_Kind r = ''producer_frame'' \<and>
       (\<exists>p. r_Producer r = Some p \<and> DecodeProducerFrame L (raw_of p) = Inr f) \<and>
       (\<exists>d. ds = Some d \<and> consumerDeviceDeltas f (v_maxDevices v1) = Inr d)"
proof -
  from assms obtain v2 frame v3 v4 now ds where
    s: "check_sequence r (note_closed r v) = Inr v2"
      "check_producer L r (v2\<lparr>v_seen := True, v_previous := r_Sequence r\<rparr>) = Inr (frame, v3)"
      "note_fence r v3 = Inr v4" "\<not> (r_Kind r = ''producer_frame'' \<and> frame = None)"
    and d: "frame_devices frame (v_maxDevices (note_invalid r v4)) = Inr ds"
    and rest: "replay_rest L r now ds (note_invalid r v4) = Inr v'"
    unfolding replay_record_def Let_def by (auto simp: bindR_eq_Inr split: list.splits if_splits option.splits)
  let ?v5 = "note_invalid r v4"
  have "checks_keep v v2" using checks_keep_trans [OF checks_keep_closed checks_keep_sequence [OF s(1)]] .
  moreover have "checks_keep v2 v3" using check_producer_Inr(1) [OF s(2)] by (simp add: checks_keep_def)
  moreover note checks_keep_fence [OF s(3)]
  moreover have "checks_keep v4 ?v5" by (simp add: note_invalid_def checks_keep_gap) (simp add: checks_keep_def)
  ultimately have "checks_keep v ?v5" by (blast intro: checks_keep_trans)
  then show thesis
    using that [OF _ rest, of frame] d s(4) check_producer_Inr(2) [OF s(2)]
    by (cases frame) (auto simp: frame_devices_def bindR_eq_Inr)
qed

lemma count_frame_Inr:
  assumes "count_frame r ds v = Inr v'"
  shows "v_journal v' = v_journal v" "v_correlator v' = v_correlator v" "v_maxDevices v' = v_maxDevices v"
    "v_stopped v' = v_stopped v"
    "\<exists>c. v_correlator v = Some c \<and>
       (if c_activity c then add_totals (v_maxDevices v) ds (v_totals v) = Inr (v_totals v') else v_totals v' = v_totals v)"
  using assms by (auto simp: count_frame_def Let_def bindR_eq_Inr split: option.splits if_splits)

definition replay_inv :: "Record list \<Rightarrow> consumerReplay \<Rightarrow> bool" where
  "replay_inv rs v \<longleftrightarrow> replay_core rs (v_journal v) (v_correlator v) \<and> totals_exact rs (v_totals v)"

lemma totals_exact_snoc_zero:
  assumes "totals_exact rs t" "has_activity (rs @ [r]) \<longrightarrow> r_DeltaTxBytes r = 0 \<and> r_DeltaRxBytes r = 0"
  shows "totals_exact (rs @ [r]) t"
  using assms
  by (cases "has_activity rs") (auto simp: totals_exact_def after_activity_snoc no_activity)

lemma replay_rest_inv:
  assumes L: "json_law L" and i: "replay_inv rs v" and rest: "replay_rest L r now ds v = Inr v'" and ns: "\<not> v_stopped v'"
    and f: "r_Kind r = ''producer_frame'' \<Longrightarrow>
      (\<exists>p. r_Producer r = Some p \<and> DecodeProducerFrame L (raw_of p) = Inr f) \<and>
      (\<exists>d. ds = Some d \<and> consumerDeviceDeltas f (v_maxDevices v) = Inr d)"
    and nf: "r_Kind r \<noteq> ''producer_frame'' \<Longrightarrow> ds = None"
  shows "replay_inv (rs @ [r]) v'" "\<not> v_stopped v"
proof -
  show nst: "\<not> v_stopped v" using rest ns by (auto simp: replay_rest_def split: if_splits)
  obtain e v1 s where tr: "replay_transition L r now v = (e, v1, s)" by (metis prod.exhaust)
  from rest nst tr have e: "e = []" and w: "sk_writes s = 1"
    by (auto simp: replay_rest_def split: list.splits if_splits)
  from rest nst tr e w obtain v2 where
    c: "(case ds of None \<Rightarrow> Inr v1 | Some d \<Rightarrow> count_frame r d v1) = Inr v2"
    and v': "v_journal v' = v_journal v2" "v_correlator v' = v_correlator v2" "v_totals v' = v_totals v2"
    by (auto simp: replay_rest_def bindR_eq_Inr)
  have core: "replay_core rs (v_journal v) (v_correlator v)" and tot: "totals_exact rs (v_totals v)"
    using i by (simp_all add: replay_inv_def)
  from transition_core [OF L core tr [unfolded e] w, of f] f have
    t: "replay_core (rs @ [r]) (v_journal v1) (v_correlator v1)" "other_fields v v1" "bytes_ok r rs (v_correlator v1) f" by auto
  note of = other_fieldsD [OF t(2)]
  show "replay_inv (rs @ [r]) v'"
  proof (cases "r_Kind r = ''producer_frame''")
    case False
    with c nf v' t of totals_exact_snoc_zero [OF tot] show ?thesis by (simp add: replay_inv_def bytes_ok_def)
  next
    case True
    from f [OF True] obtain p d where p: "DecodeProducerFrame L (raw_of p) = Inr f" and d: "ds = Some d" "consumerDeviceDeltas f (v_maxDevices v) = Inr d"
      by blast
    from c d(1) have cf: "count_frame r d v1 = Inr v2" by simp
    note cr = count_frame_Inr [OF cf]
    from t(3) True obtain c' where c': "v_correlator v1 = Some c'" "c_activity c' \<longleftrightarrow> has_activity rs"
      "has_activity rs \<longrightarrow> pf_DeviceMetricsPresent f \<and> r_DeltaTxBytes r = pf_Tx f \<and> r_DeltaRxBytes r = pf_Rx f"
      by (auto simp: bytes_ok_def)
    have "totals_exact (rs @ [r]) (v_totals v2)"
    proof (cases "has_activity rs")
      case False
      with cr(5) c' of(1) have "v_totals v2 = v_totals v" by auto
      with totals_exact_snoc_zero [OF tot] False True show ?thesis by simp
    next
      case act: True
      with c' have dm: "pf_DeviceMetricsPresent f" and dr: "r_DeltaTxBytes r = pf_Tx f" "r_DeltaRxBytes r = pf_Rx f" by auto
      note ds = consumerDeviceDeltas_sum [OF p d(2) dm]
      from cr(5) c'(1,2) act of(1,2) have "add_totals (v_maxDevices v) d (v_totals v) = Inr (v_totals v2)" by auto
      moreover have "totals_ok (v_totals v)" using tot by (simp add: totals_exact_def)
      ultimately have "totals_ok (v_totals v2) \<and> (\<Sum>d\<leftarrow>v_totals v2. tx_of d) = (\<Sum>d\<leftarrow>v_totals v. tx_of d) + pf_Tx f \<and>
          (\<Sum>d\<leftarrow>v_totals v2. rx_of d) = (\<Sum>d\<leftarrow>v_totals v. rx_of d) + pf_Rx f"
        using add_totals_sum ds by fastforce
      with tot act dr show ?thesis by (simp add: totals_exact_def after_activity_snoc)
    qed
    with t(1) cr(1,2) v' show ?thesis by (simp add: replay_inv_def)
  qed
qed

lemma replay_record_inv:
  assumes "json_law L" "replay_inv rs v" "replay_record L r v = Inr v'" "\<not> v_stopped v'"
  shows "replay_inv (rs @ [r]) v'" "\<not> v_stopped v"
proof -
  from assms(3) have "replay_inv (rs @ [r]) v' \<and> \<not> v_stopped v"
  proof (rule replay_record_Inr)
    fix now frame ds v1
    assume k: "checks_keep v v1" and rest: "replay_rest L r now ds v1 = Inr v'"
      and ff: "frame = None \<Longrightarrow> ds = None" "r_Kind r = ''producer_frame'' \<Longrightarrow> frame \<noteq> None"
        "\<And>f. frame = Some f \<Longrightarrow> r_Kind r = ''producer_frame'' \<and>
          (\<exists>p. r_Producer r = Some p \<and> DecodeProducerFrame L (raw_of p) = Inr f) \<and>
          (\<exists>d. ds = Some d \<and> consumerDeviceDeltas f (v_maxDevices v1) = Inr d)"
    have i1: "replay_inv rs v1" using assms(2) k by (simp add: replay_inv_def checks_keep_def)
    have "r_Kind r = ''producer_frame'' \<Longrightarrow>
      (\<exists>p. r_Producer r = Some p \<and> DecodeProducerFrame L (raw_of p) = Inr (the frame)) \<and>
      (\<exists>d. ds = Some d \<and> consumerDeviceDeltas (the frame) (v_maxDevices v1) = Inr d)"
      using ff(2,3) by (cases frame) auto
    moreover have "r_Kind r \<noteq> ''producer_frame'' \<Longrightarrow> ds = None" using ff by (cases frame) auto
    ultimately have "replay_inv (rs @ [r]) v'" "\<not> v_stopped v1"
      using replay_rest_inv [OF assms(1) i1 rest assms(4), of "the frame"] by blast+
    with k show ?thesis by (auto simp: checks_keep_def)
  qed
  then show "replay_inv (rs @ [r]) v'" "\<not> v_stopped v" by simp_all
qed

lemma replay_record_stopped: "replay_record L r v = Inr v' \<Longrightarrow> v_stopped v \<Longrightarrow> v_stopped v'"
  by (erule replay_record_Inr) (auto simp: replay_rest_def checks_keep_def)

lemma replay_records_stopped: "replay_records L rs v = Inr v' \<Longrightarrow> v_stopped v \<Longrightarrow> v_stopped v'"
  by (induction rs arbitrary: v) (auto split: sum.splits dest: replay_record_stopped)

lemma replay_records_inv:
  assumes "json_law L" "replay_inv qs v" "replay_records L rs v = Inr v'" "\<not> v_stopped v'"
  shows "replay_inv (qs @ rs) v'"
  using assms
proof (induction rs arbitrary: qs v)
  case (Cons r rs)
  then obtain v1 where 1: "replay_record L r v = Inr v1" "replay_records L rs v1 = Inr v'"
    by (auto split: sum.splits)
  with Cons.prems(4) have "\<not> v_stopped v1" using replay_records_stopped by blast
  from Cons.IH [OF Cons.prems(1) replay_record_inv(1) [OF Cons.prems(1,2) 1(1) this] 1(2) Cons.prems(4)]
  show ?case by simp
qed simp

text \<open>(C21) The verified totals are exact: if the replay accepts the records \<open>rs\<close> and has not stopped,
  then they are a complete chain from the start record, and the totals by device, which are
  what the receipt reports, add up to the deltas of the records from the activity intent on,
  in both directions and without wrap-around.\<close>

theorem replay_totals_exact:
  assumes "json_law L" "replay_records L rs (newConsumerReplay ident wl maxDevices) = Inr v" "\<not> v_stopped v" "rs \<noteq> []"
  shows "record_chain rs \<and> distinct (map fst (v_totals v)) \<and>
    (\<Sum>d\<leftarrow>v_totals v. tx_of d) = (\<Sum>r\<leftarrow>after_activity rs. r_DeltaTxBytes r) \<and>
    (\<Sum>d\<leftarrow>v_totals v. rx_of d) = (\<Sum>r\<leftarrow>after_activity rs. r_DeltaRxBytes r)"
proof -
  have "replay_inv [] (newConsumerReplay ident wl maxDevices)"
    by (simp add: replay_inv_def replay_core_def newConsumerReplay_def totals_exact_def totals_ok_def after_activity_def)
  from replay_records_inv [OF assms(1) this assms(2,3)] have "replay_inv rs v" by simp
  with assms(4) show ?thesis
    by (auto simp: replay_inv_def replay_core_def totals_exact_def totals_ok_def)
qed

text \<open>A complete exchange: the start and binding records, a baseline request with its frame and
  correlation, the activity intent, a terminal request with its frame and correlation, and the
  close. The library encodes exactly these records, each as its sequence number.\<close>

definition demo_workload :: WorkloadBinding where
  "demo_workload = \<lparr>wb_SandboxID = ''sbx'', wb_ExecutionID = ''e'', wb_TemplateID = ''t'', wb_BuildID = ''b'',
     wb_TeamID = ''m'', wb_LifecycleID = ''l'', wb_ProducerSHA256 = ''p'', wb_ProducerIncarnation = ''inc''\<rparr>"

definition demo_started :: "Journal \<times> os_file" where
  "demo_started = (case start_journal (os_env proto_lib) ''sbx'' ''j1'' (proto_file\<lparr>of_clock := [1..15]\<rparr>) of (_, j, w) \<Rightarrow> (j, w))"

definition demo_bound :: "Correlator \<times> os_file" where
  "demo_bound =
     (case NewCorrelator (os_env proto_lib) ((fst demo_started)\<lparr>j_workload := Some demo_workload\<rparr>) ''inc'' (snd demo_started) of
        (Inr c, _, w) \<Rightarrow> (c, w) | (Inl _, _, w) \<Rightarrow> (fst proto_new, w))"

definition demo_ops :: "correlator_op list" where
  "demo_ops = [CBegin ''a'' BaselineScope, CFrame [1, 10], CReceipt [2], CActivity,
               CBegin ''b'' TerminalScope, CFrame [3, 10], CReceipt [4], CClose]"

definition demo_records :: "Record list" where
  "demo_records = j_last (fst demo_started) #
     map (\<lambda>k. j_last (c_journal (fst (correlator_run (os_env proto_lib) (take k demo_ops) demo_bound)))) [0..<9]"

definition table_lib :: "Record list \<Rightarrow> jstd" where
  "table_lib rs = proto_lib\<lparr>
     marshal := (\<lambda>r. if r \<in> set rs then Some [word_of_int (r_Sequence r + 11)] else None),
     json_parse := (\<lambda>b. case b of [] \<Rightarrow> None | x # _ \<Rightarrow>
        if uint x < 11 \<or> uint x \<ge> 21 then demo_parse b else Some (record_json proto_lib (rs ! nat (uint x - 11))))\<rparr>"

definition table_law :: "Record list \<Rightarrow> bool" where
  "table_law rs \<longleftrightarrow>
     list_all (\<lambda>r. let d = [word_of_int (r_Sequence r + 11)] in record_fits r \<and> 10 \<notin> set d \<and>
       validUnicodeEscapes d \<and> validUnicodeEscapes (d @ [10]) \<and> 11 \<le> uint (d ! 0) \<and> uint (d ! 0) < 21 \<and>
       rs ! nat (uint (d ! 0) - 11) = r) rs"

lemma record_json_cong: "b64_encode L = b64_encode L' \<Longrightarrow> record_json L r = record_json L' r"
  by (simp add: record_json_def evidence_json_def split: option.splits)

lemma table_lib_law:
  assumes "table_law rs"
  shows "json_law (table_lib rs)"
proof -
  have b: "b64_law (table_lib rs)"
    using demo_b64_law by (simp add: b64_law_def table_lib_def proto_lib_def)
  have j: "record_json (table_lib rs) r = record_json proto_lib r" for r
    by (rule record_json_cong) (simp add: table_lib_def)
  have "record_fits r \<and> 10 \<notin> set d \<and> (\<forall>raw \<in> {d, d @ [10]}. utf8_valid (table_lib rs) raw \<and> validUnicodeEscapes raw \<and>
      json_parse (table_lib rs) raw = Some (record_json (table_lib rs) r))"
    if m: "marshal (table_lib rs) r = Some d" for r d
  proof -
    have "marshal (table_lib rs) r = (if r \<in> set rs then Some [word_of_int (r_Sequence r + 11)] else None)"
      by (simp add: table_lib_def)
    with m have r: "r \<in> set rs" and d: "d = [word_of_int (r_Sequence r + 11)]" by (auto split: if_splits)
    let ?x = "word_of_int (r_Sequence r + 11) :: byte"
    from assms r have t: "record_fits r" "10 \<noteq> ?x" "validUnicodeEscapes [?x]" "validUnicodeEscapes [?x, 10]"
        "11 \<le> uint ?x" "uint ?x < 21" "rs ! nat (uint ?x - 11) = r"
      by (auto simp: table_law_def list_all_iff Let_def simp del: uint_word_of_int_eq)
    have "json_parse (table_lib rs) (?x # b) = Some (record_json proto_lib r)" for b
      using t(5,6,7) by (simp add: table_lib_def del: uint_word_of_int_eq)
    moreover have "utf8_valid (table_lib rs) b" for b
      by (simp add: table_lib_def proto_lib_def demo_lib_def)
    ultimately show ?thesis using t(1-4) by (simp add: d j)
  qed
  with b show ?thesis by (simp add: json_law_def)
qed

lemma demo_records_law: "table_law demo_records"
  by code_simp

theorem replay_totals_exact_witness:
  "\<exists>v. replay_records (table_lib demo_records) demo_records (newConsumerReplay ''j1'' demo_workload 4) = Inr v \<and>
    v_totals v = [(''net_eth0'', 5, 7)] \<and> (\<Sum>r\<leftarrow>after_activity demo_records. r_DeltaTxBytes r) = 5"
proof -
  let ?r = "replay_records (table_lib demo_records) demo_records (newConsumerReplay ''j1'' demo_workload 4)"
  have "(case ?r of Inl _ \<Rightarrow> False | Inr v \<Rightarrow> \<not> v_stopped v \<and> v_totals v = [(''net_eth0'', 5, 7)])" by code_simp
  then obtain v where v: "?r = Inr v" "\<not> v_stopped v" "v_totals v = [(''net_eth0'', 5, 7)]"
    by (auto split: sum.splits)
  have "demo_records \<noteq> []" by (simp add: demo_records_def)
  from replay_totals_exact [OF table_lib_law [OF demo_records_law] v(1,2) this] v show ?thesis by simp
qed

end
