(* ===== verification/Spool.thy ===== *)
theory Spool
  imports RecordJson "HOL-Library.AList"
begin

text \<open>
  The spool of network evidence (\<open>networkusage/spool.go\<close>): journals write through writers that share
  one directory, which holds a bounded number of segments of bounded size. A segment that is being
  written is called \<open>.active\<close>; a complete one \<open>.jsonl\<close>; one whose tail may be torn \<open>.incomplete\<close>. Only an
  acknowledgment with the hash of its exact content removes a segment.

  The directory is part of the state \<open>disk\<close>, with what the operating system will answer to the next calls: every
  call that can fail consumes one answer of \<open>dk_errs\<close> (nil is success, and so is an exhausted list), a write one of
  \<open>dk_writes\<close>, a random name one of \<open>dk_ids\<close>, and a poll of a context one of \<open>dk_cancel\<close>. A call that fails
  leaves the directory alone, except for a write, which may be partial. The mutex of the spool
  serialises the operations. The \<open>int64\<close> and \<open>int\<close> counters are \<open>int\<close>s: the bounds proved below keep them
  in range.
\<close>

section \<open>The directory\<close>

datatype direntry = EFile bytes | EDir | EOther

record disk =
  dk_entries :: "(string \<times> direntry) list"
  dk_errs :: "gerr list"
  dk_writes :: "(nat \<times> gerr) list"
  dk_ids :: "bytes list"
  dk_cancel :: "bool list"
  dk_clock :: "int list"

definition sys :: "disk \<Rightarrow> gerr \<times> disk" where
  "sys d = (case dk_errs d of [] \<Rightarrow> ([], d) | e # es \<Rightarrow> (e, d\<lparr>dk_errs := es\<rparr>))"

text \<open>\<open>ctx.Err() != nil\<close>.\<close>

definition cancelled :: "disk \<Rightarrow> bool \<times> disk" where
  "cancelled d = (case dk_cancel d of [] \<Rightarrow> (False, d) | c # cs \<Rightarrow> (c, d\<lparr>dk_cancel := cs\<rparr>))"

definition put_entry :: "string \<Rightarrow> direntry \<Rightarrow> disk \<Rightarrow> disk" where
  "put_entry n x d = d\<lparr>dk_entries := AList.update n x (dk_entries d)\<rparr>"

definition entry_at :: "disk \<Rightarrow> string \<Rightarrow> direntry option" where
  "entry_at d n = map_of (dk_entries d) n"

text \<open>\<open>os.OpenFile\<close> with \<open>O_CREATE|O_EXCL\<close>, \<open>os.Open\<close> and reading to the end and closing, \<open>os.Rename\<close> (which
  replaces its target), \<open>os.Remove\<close>, and \<open>os.ReadDir\<close>.\<close>

definition fs_create :: "string \<Rightarrow> disk \<Rightarrow> gerr \<times> disk" where
  "fs_create n d =
     (let (e, d) = sys d in
      if e \<noteq> [] then (e, d)
      else if entry_at d n \<noteq> None then ([Err ''file exists''], d)
      else ([], put_entry n (EFile []) d))"

definition fs_read :: "string \<Rightarrow> disk \<Rightarrow> (gerr + bytes) \<times> disk" where
  "fs_read n d =
     (let (e, d) = sys d in
      if e \<noteq> [] then (Inl e, d)
      else case entry_at d n of
        Some (EFile b) \<Rightarrow>
          let (e1, d) = sys d; (e2, d) = sys d in
          (if e1 @ e2 \<noteq> [] then Inl (e1 @ e2) else Inr b, d)
      | _ \<Rightarrow> (Inl [Err ''no such file''], d))"

definition fs_rename :: "string \<Rightarrow> string \<Rightarrow> disk \<Rightarrow> gerr \<times> disk" where
  "fs_rename a b d =
     (let (e, d) = sys d in
      if e \<noteq> [] then (e, d)
      else case entry_at d a of
        None \<Rightarrow> ([Err ''no such file''], d)
      | Some x \<Rightarrow> ([], d\<lparr>dk_entries := AList.update b x (AList.delete a (dk_entries d))\<rparr>))"

definition fs_remove :: "string \<Rightarrow> disk \<Rightarrow> gerr \<times> disk" where
  "fs_remove n d =
     (let (e, d) = sys d in
      if e \<noteq> [] then (e, d)
      else if entry_at d n = None then ([Err ''no such file''], d)
      else ([], d\<lparr>dk_entries := AList.delete n (dk_entries d)\<rparr>))"

text \<open>A write to an open file, at its end: the bytes that were accepted, and the error.\<close>

definition fs_append :: "string \<Rightarrow> bytes \<Rightarrow> disk \<Rightarrow> (int \<times> gerr) \<times> disk" where
  "fs_append n p d =
     (let (k, e) = (case dk_writes d of [] \<Rightarrow> (length p, []) | (k, e) # _ \<Rightarrow> (min k (length p), e));
          d = d\<lparr>dk_writes := tl (dk_writes d)\<rparr>
      in ((int k, e),
          case entry_at d n of Some (EFile b) \<Rightarrow> put_entry n (EFile (b @ take k p)) d | _ \<Rightarrow> d))"

section \<open>Names\<close>

definition segment_base :: "string \<Rightarrow> string" where
  "segment_base name = takeWhile (\<lambda>c. c \<noteq> CHR ''.'') name"

definition segment_ext :: "string \<Rightarrow> string" where
  "segment_ext name = drop 1 (dropWhile (\<lambda>c. c \<noteq> CHR ''.'') name)"

definition segmentName :: "string \<Rightarrow> bool" where
  "segmentName name \<longleftrightarrow>
     length (segment_base name) = 32 \<and> segment_ext name \<in> {''active'', ''jsonl'', ''incomplete''} \<and>
     hex_ok (segment_base name)"

text \<open>\<open>strings.TrimSuffix(name, ".active")\<close>.\<close>

definition trim_active :: "string \<Rightarrow> string" where
  "trim_active name = (if has_suffix name ''.active'' then take (length name - 7) name else name)"

text \<open>\<open>fmt.Sprintf("%x", id)\<close>.\<close>

definition hex_nibble :: "nat \<Rightarrow> char" where
  "hex_nibble n = (if n < 10 then char_of (48 + n) else char_of (87 + n))"

definition hex_string :: "bytes \<Rightarrow> string" where
  "hex_string b = concat (map (\<lambda>x. [hex_nibble (unat x div 16), hex_nibble (unat x mod 16)]) b)"

section \<open>The spool\<close>

record SpoolOptions =
  so_MaxBytes :: int
  so_SegmentBytes :: int
  so_MaxSegments :: int

definition spoolAllows :: "int \<Rightarrow> int \<Rightarrow> int \<Rightarrow> bool \<Rightarrow> SpoolOptions \<Rightarrow> bool" where
  "spoolAllows used count n newSegment options \<longleftrightarrow>
     n \<le> so_SegmentBytes options \<and> n \<le> so_MaxBytes options - used \<and>
     (\<not> newSegment \<or> count < so_MaxSegments options)"

record Segment =
  sg_Name :: string
  sg_SHA256 :: string
  sg_Bytes :: int
  sg_Incomplete :: bool

record Spool =
  s_options :: SpoolOptions
  s_used :: int
  s_count :: int
  s_writers :: int
  s_closed :: bool
  s_failed :: gerr
  s_allowCustody :: bool

definition syncDir :: "Spool \<Rightarrow> disk \<Rightarrow> gerr \<times> Spool \<times> disk" where
  "syncDir s d =
     (let (e, d) = sys d in
      if e \<noteq> [] then (e, s\<lparr>s_failed := e\<rparr>, d)
      else let (e1, d) = sys d; (e2, d) = sys d; f = s_failed s @ e1 @ e2 in (f, s\<lparr>s_failed := f\<rparr>, d))"

text \<open>\<open>openSpoolControl\<close>: the file must be a regular one.\<close>

definition open_control :: "string \<Rightarrow> disk \<Rightarrow> (gerr + bytes) \<times> disk" where
  "open_control n d =
     (let (e, d) = sys d in
      if e \<noteq> [] then (Inl e, d)
      else case entry_at d n of
        Some (EFile b) \<Rightarrow> (Inr b, d)
      | None \<Rightarrow> (Inl [Err ''no such file''], d)
      | _ \<Rightarrow> (Inl [Err ''invalid spool control file''], d))"

definition markIncomplete :: "disk \<Rightarrow> gerr \<times> disk" where
  "markIncomplete d =
     (case open_control ''.incomplete'' d of
        (Inl e, d) \<Rightarrow> (e, d)
      | (Inr b, d) \<Rightarrow>
          let (k, e) = (case dk_writes d of [] \<Rightarrow> (1, []) | (k, e) # _ \<Rightarrow> (k, e));
              d = d\<lparr>dk_writes := tl (dk_writes d)\<rparr>;
              d = (if k = 0 then d else put_entry ''.incomplete'' (EFile (1 # drop 1 b)) d);
              e = (if e = [] \<and> k = 0 then [Err ''short write''] else e);
              (e, d) = (if e = [] then sys d else (e, d));
              (e', d) = sys d
          in (e @ e', d))"

section \<open>Opening and recovery\<close>

text \<open>\<open>lockSpool\<close>: the lock file is created if it is not there, must be an empty regular file, and must not
  be locked by another process.\<close>

definition lockSpool :: "disk \<Rightarrow> gerr \<times> disk" where
  "lockSpool d =
     (let (e, d) = sys d in
      if e \<noteq> [] then (e, d)
      else case entry_at d ''.lock'' of
        None \<Rightarrow> sys (put_entry ''.lock'' (EFile []) d)
      | Some (EFile b) \<Rightarrow> if b \<noteq> [] then ([Err ''invalid spool lock''], d) else sys d
      | _ \<Rightarrow> ([Err ''invalid spool control file''], d))"

text \<open>The marker file: its value is checked, or it is created with the value 0.\<close>

definition open_marker :: "disk \<Rightarrow> gerr \<times> disk" where
  "open_marker d =
     (let (e, d) = sys d;
          created = (entry_at d ''.incomplete'' = None) in
      if e \<noteq> [] then (e, d)
      else case (if created then (Inr [], put_entry ''.incomplete'' (EFile []) d) else open_control ''.incomplete'' d) of
        (Inl e, d) \<Rightarrow> (e, d)
      | (Inr b, d) \<Rightarrow>
          let (e, d) = sys d;
              e = (if e = [] \<and> (\<not> created \<and> length b \<noteq> 1 \<or> length b > 1)
                   then [Err ''invalid network spool incompleteness marker''] else e);
              (e, d) = (if e = [] \<and> created
                        then let ((k, e), d) = fs_append ''.incomplete'' [0] d in (e, d) else (e, d));
              (e, d) = (if e \<noteq> [] then (e, d)
                        else let (e, d) = sys d in
                          (if e \<noteq> [] then e
                           else case entry_at d ''.incomplete'' of
                             Some (EFile (x # _)) \<Rightarrow>
                               if x \<noteq> 0 \<and> x \<noteq> 1 then [Err ''invalid network spool incompleteness marker value''] else []
                           | _ \<Rightarrow> [Err ''EOF''], d));
              (e, d) = (if e = [] then sys d else (e, d));
              (e', d) = sys d
          in (e @ e', d))"

text \<open>The scan of the entries that \<open>ReadDir\<close> returned: one segment, and the loop. The names and types are those of the
  listing; \<open>entry.Info\<close> takes the size of the file as it is when the loop gets to it. An abandoned writer has no
  complete terminal protocol; its bytes are kept under the name of incomplete evidence.\<close>

definition scan_segment :: "string \<Rightarrow> Spool \<Rightarrow> disk \<Rightarrow> gerr \<times> Spool \<times> disk" where
  "scan_segment name s d =
     (let (e, d) = sys d in
      if e \<noteq> [] then (e, s, d)
      else case entry_at d name of
        Some (EFile b) \<Rightarrow>
          if int (length b) > so_MaxBytes (s_options s) - s_used s
          then ([Err ''network spool budget exhausted''], s, d)
          else let s = s\<lparr>s_used := s_used s + int (length b), s_count := s_count s + 1\<rparr> in
            if \<not> has_suffix name ''.active'' then ([], s, d)
            else let (e, d) = fs_rename name (trim_active name @ ''.incomplete'') d in
              if e \<noteq> [] then (e, s, d)
              else let (e, d) = markIncomplete d in (e, s, d)
      | _ \<Rightarrow> ([Err ''no such file''], s, d))"

fun scan_entries :: "(string \<times> direntry) list \<Rightarrow> Spool \<Rightarrow> disk \<Rightarrow> gerr \<times> Spool \<times> disk" where
  "scan_entries [] s d = ([], s, d)"
| "scan_entries ((name, x) # es) s d =
     (if name = ''.custody'' \<and> s_allowCustody s \<and> x = EDir then scan_entries es s d
      else if name = ''.lock'' \<or> name = ''.incomplete'' then scan_entries es s d
      else case x of
        EFile _ \<Rightarrow>
          if \<not> segmentName name then ([Err ''unexpected file in network spool''], s, d)
          else (case scan_segment name s d of
              (e # e', s, d) \<Rightarrow> (e # e', s, d)
            | ([], s, d) \<Rightarrow> scan_entries es s d)
      | _ \<Rightarrow> ([Err ''unexpected file in network spool''], s, d))"

definition options_ok :: "SpoolOptions \<Rightarrow> bool" where
  "options_ok options \<longleftrightarrow>
     so_MaxBytes options \<ge> 2 \<and> so_SegmentBytes options \<ge> 1 \<and>
     so_SegmentBytes options < so_MaxBytes options \<and> so_MaxSegments options \<ge> 1"

definition new_spool :: "SpoolOptions \<Rightarrow> bool \<Rightarrow> Spool" where
  "new_spool options custody =
     \<lparr>s_options = options, s_used = 1, s_count = 0, s_writers = 0, s_closed = False, s_failed = [],
      s_allowCustody = custody\<rparr>"

definition openSpool :: "string \<Rightarrow> SpoolOptions \<Rightarrow> bool \<Rightarrow> disk \<Rightarrow> (gerr + Spool) \<times> disk" where
  "openSpool directory options custody d =
     (if \<not> has_prefix directory ''/'' \<or> \<not> options_ok options then (Inl [Err ''invalid network spool options''], d)
      else let (e, d) = lockSpool d in
        if e \<noteq> [] then (Inl e, d)
        else let (e, d) = open_marker d in
          if e \<noteq> [] then (Inl e, d)
          else let (e, d) = sys d in
            if e \<noteq> [] then (Inl e, d)
            else let (e, s, d) = scan_entries (dk_entries d) (new_spool options custody) d in
              if e \<noteq> [] then (Inl e, d)
              else if s_count s > so_MaxSegments options then (Inl [Err ''network spool budget exhausted''], d)
              else let (e, s, d) = syncDir s d in
                if e \<noteq> [] then (Inl e, d) else (Inr s, d))"

section \<open>Reading and acknowledging\<close>

fun list_segments :: "jstd \<Rightarrow> (string \<times> direntry) list \<Rightarrow> disk \<Rightarrow> (gerr + Segment list) \<times> disk" where
  "list_segments L [] d = (Inr [], d)"
| "list_segments L ((name, x) # es) d =
     (if \<not> segmentName name \<or> has_suffix name ''.active'' then list_segments L es d
      else case fs_read name d of
        (Inl e, d) \<Rightarrow> (Inl e, d)
      | (Inr b, d) \<Rightarrow>
          (case list_segments L es d of
             (Inl e, d) \<Rightarrow> (Inl e, d)
           | (Inr out, d) \<Rightarrow>
               (Inr (\<lparr>sg_Name = name, sg_SHA256 = sha256hex L b, sg_Bytes = int (length b),
                      sg_Incomplete = has_suffix name ''.incomplete''\<rparr> # out), d)))"

definition Segments :: "jstd \<Rightarrow> Spool \<Rightarrow> disk \<Rightarrow> (gerr + Segment list) \<times> disk" where
  "Segments L s d =
     (if s_closed s then (Inl [Err ''spool closed''], d)
      else let (e, d) = sys d in
        if e \<noteq> [] then (Inl e, d) else list_segments L (dk_entries d) d)"

definition acknowledge :: "jstd \<Rightarrow> string \<Rightarrow> string \<Rightarrow> Spool \<Rightarrow> disk \<Rightarrow> gerr \<times> Spool \<times> disk" where
  "acknowledge L name digest s d =
     (let (c, d) = cancelled d in
      if c then ([Err ''cancelled''], s, d)
      else if s_closed s \<or> s_failed s \<noteq> [] \<or> \<not> segmentName name \<or> has_suffix name ''.active''
      then ([Err ''invalid acknowledgment''], s, d)
      else case fs_read name d of
        (Inl e, d) \<Rightarrow> (e, s, d)
      | (Inr b, d) \<Rightarrow>
          if sha256hex L b \<noteq> digest then ([Err ''segment acknowledgment content mismatch''], s, d)
          else let (c, d) = cancelled d in
            if c then ([Err ''cancelled''], s, d)
            else let (e, d) = fs_remove name d in
              if e \<noteq> [] then (e, s, d)
              else syncDir (s\<lparr>s_used := s_used s - int (length b), s_count := s_count s - 1\<rparr>) d)"

definition Spool_Close :: "Spool \<Rightarrow> disk \<Rightarrow> gerr \<times> Spool \<times> disk" where
  "Spool_Close s d =
     (if s_closed s then ([], s, d)
      else if s_writers s \<noteq> 0 then ([Err ''network spool still has writers''], s, d)
      else let (e1, d) = sys d; (e2, d) = sys d in (e1 @ e2, s\<lparr>s_closed := True\<rparr>, d))"

section \<open>Writers\<close>

text \<open>\<open>sw_history\<close> is a history variable and not in the code: the segments that the writer has created, oldest first, by
  the base of their name, with the bytes it has put into them.\<close>

record spoolWriter =
  sw_open :: bool
  sw_name :: string
  sw_size :: int
  sw_failed :: gerr
  sw_closed :: bool
  sw_history :: "(string \<times> bytes) list"

definition new_writer :: spoolWriter where
  "new_writer = \<lparr>sw_open = False, sw_name = '''', sw_size = 0, sw_failed = [], sw_closed = False, sw_history = []\<rparr>"

definition seal :: "spoolWriter \<Rightarrow> Spool \<Rightarrow> disk \<Rightarrow> gerr \<times> spoolWriter \<times> Spool \<times> disk" where
  "seal w s d =
     (if \<not> sw_open w then ([], w, s, d)
      else let (e1, d) = sys d; (e2, d) = sys d; err = e1 @ e2;
               suffix = (if err \<noteq> [] \<or> sw_failed w \<noteq> [] then ''.incomplete'' else ''.jsonl'');
               (e3, d) = fs_rename (sw_name w) (trim_active (sw_name w) @ suffix) d;
               (e4, s, d) = syncDir s d
           in (err @ e3 @ e4, w\<lparr>sw_open := False\<rparr>, s, d))"

text \<open>The part of \<open>Write\<close> that opens a new segment.\<close>

definition new_segment :: "spoolWriter \<Rightarrow> Spool \<Rightarrow> disk \<Rightarrow> gerr \<times> spoolWriter \<times> Spool \<times> disk" where
  "new_segment w s d =
     (case dk_ids d of
        [] \<Rightarrow> ([Err ''rand''], w, s, d)
      | i # ids \<Rightarrow>
          let name = hex_string i @ ''.active'';
              w = w\<lparr>sw_name := name\<rparr>;
              (e, d) = fs_create name (d\<lparr>dk_ids := ids\<rparr>)
          in if e \<noteq> [] then (e, w\<lparr>sw_failed := e\<rparr>, s, d)
             else let w = w\<lparr>sw_open := True, sw_size := 0, sw_history := sw_history w @ [(hex_string i, [])]\<rparr>;
                      (e, s, d) = syncDir (s\<lparr>s_count := s_count s + 1\<rparr>) d
                  in if e \<noteq> [] then (e, w\<lparr>sw_failed := e\<rparr>, s, d) else ([], w, s, d))"

text \<open>The history after the writer has put \<open>b\<close> into its current segment.\<close>

definition add_history :: "bytes \<Rightarrow> (string \<times> bytes) list \<Rightarrow> (string \<times> bytes) list" where
  "add_history b h = (if h = [] then [('''', b)] else butlast h @ [(fst (last h), snd (last h) @ b)])"

text \<open>The part of \<open>Write\<close> that writes to the open segment.\<close>

definition write_segment :: "bytes \<Rightarrow> spoolWriter \<Rightarrow> Spool \<Rightarrow> disk \<Rightarrow> (int \<times> gerr) \<times> spoolWriter \<times> Spool \<times> disk" where
  "write_segment p w s d =
     (let ((n, e), d) = fs_append (sw_name w) p d;
          w = w\<lparr>sw_size := sw_size w + n, sw_history := add_history (take (nat n) p) (sw_history w)\<rparr>;
          s = s\<lparr>s_used := s_used s + n\<rparr>;
          e = (if e = [] \<and> n \<noteq> int (length p) then [Err ''short write''] else e)
      in ((n, e), if e \<noteq> [] then w\<lparr>sw_failed := e\<rparr> else w, s, d))"

definition needs_segment :: "bytes \<Rightarrow> spoolWriter \<Rightarrow> Spool \<Rightarrow> bool" where
  "needs_segment p w s \<longleftrightarrow> \<not> sw_open w \<or> int (length p) > so_SegmentBytes (s_options s) - sw_size w"

definition Writer_Write :: "bytes \<Rightarrow> spoolWriter \<Rightarrow> Spool \<Rightarrow> disk \<Rightarrow> (int \<times> gerr) \<times> spoolWriter \<times> Spool \<times> disk" where
  "Writer_Write p w s d =
     (if sw_closed w then ((0, [Err ''file already closed'']), w, s, d)
      else if s_failed s \<noteq> [] then ((0, s_failed s), w\<lparr>sw_failed := s_failed s\<rparr>, s, d)
      else if sw_failed w \<noteq> [] then ((0, sw_failed w), w, s, d)
      else if \<not> spoolAllows (s_used s) (s_count s) (int (length p)) (needs_segment p w s) (s_options s)
      then let (e, d) = markIncomplete d; f = Err ''network spool budget exhausted'' # e
           in ((0, f), w\<lparr>sw_failed := f\<rparr>, s, d)
      else case (if sw_open w \<and> needs_segment p w s then seal w s d else ([], w, s, d)) of
        (e # es, w, s, d) \<Rightarrow> ((0, e # es), w\<lparr>sw_failed := e # es\<rparr>, s, d)
      | ([], w, s, d) \<Rightarrow>
          (case (if sw_open w then ([], w, s, d) else new_segment w s d) of
             (e # es, w, s, d) \<Rightarrow> ((0, e # es), w, s, d)
           | ([], w, s, d) \<Rightarrow> write_segment p w s d))"

definition Writer_Sync :: "spoolWriter \<Rightarrow> disk \<Rightarrow> gerr \<times> spoolWriter \<times> disk" where
  "Writer_Sync w d =
     (if sw_failed w \<noteq> [] then (sw_failed w, w, d)
      else if \<not> sw_open w then ([Err ''file already closed''], w, d)
      else let (e, d) = sys d in (e, w\<lparr>sw_failed := e\<rparr>, d))"

definition Writer_Close :: "spoolWriter \<Rightarrow> Spool \<Rightarrow> disk \<Rightarrow> gerr \<times> spoolWriter \<times> Spool \<times> disk" where
  "Writer_Close w s d =
     (if sw_closed w then (sw_failed w, w, s, d)
      else let (e, w', s, d) = seal (w\<lparr>sw_closed := True\<rparr>) (s\<lparr>s_writers := s_writers s - 1\<rparr>) d
           in (sw_failed w @ e, w', s, d))"

section \<open>The host\<close>

text \<open>One spool and its directory, with the writers of all journals.\<close>

record host =
  h_spool :: Spool
  h_disk :: disk
  h_writers :: "spoolWriter list"

definition on_writer :: "nat \<Rightarrow> (spoolWriter \<Rightarrow> Spool \<Rightarrow> disk \<Rightarrow> 'a \<times> spoolWriter \<times> Spool \<times> disk) \<Rightarrow> host \<Rightarrow> 'a \<times> host" where
  "on_writer i f h =
     (let (x, w, s, d) = f (h_writers h ! i) (h_spool h) (h_disk h)
      in (x, h\<lparr>h_spool := s, h_disk := d, h_writers := (h_writers h)[i := w]\<rparr>))"

definition host_Write :: "nat \<Rightarrow> bytes \<Rightarrow> host \<Rightarrow> (int \<times> gerr) \<times> host" where
  "host_Write i p h =
     (if i < length (h_writers h) then on_writer i (Writer_Write p) h else ((0, [Panic]), h))"

definition host_Sync :: "nat \<Rightarrow> host \<Rightarrow> gerr \<times> host" where
  "host_Sync i h =
     (if i < length (h_writers h)
      then on_writer i (\<lambda>w s d. let (e, w, d) = Writer_Sync w d in (e, w, s, d)) h else ([Panic], h))"

definition host_Close :: "nat \<Rightarrow> host \<Rightarrow> gerr \<times> host" where
  "host_Close i h = (if i < length (h_writers h) then on_writer i Writer_Close h else ([Panic], h))"

definition host_now :: "host \<Rightarrow> int \<times> host" where
  "host_now h = (case dk_clock (h_disk h) of [] \<Rightarrow> (1, h)
     | t # ts \<Rightarrow> (t, h\<lparr>h_disk := (h_disk h)\<lparr>dk_clock := ts\<rparr>\<rparr>))"

text \<open>The environment of a journal over the \<open>i\<close>-th writer, and \<open>OpenWithSpool\<close>.\<close>

definition spool_env :: "jstd \<Rightarrow> nat \<Rightarrow> host jenv" where
  "spool_env L i = \<lparr>je_lib = L, je_now = host_now, je_Write = host_Write i, je_Sync = host_Sync i,
     je_Close = host_Close i, je_beforeSeal = None, je_afterSeal = None, je_onClosed = None\<rparr>"

definition add_writer :: "host \<Rightarrow> host" where
  "add_writer h = h\<lparr>h_spool := (h_spool h)\<lparr>s_writers := s_writers (h_spool h) + 1\<rparr>,
     h_writers := h_writers h @ [new_writer]\<rparr>"

definition OpenWithSpool :: "jstd \<Rightarrow> string \<Rightarrow> string \<Rightarrow> host \<Rightarrow> (gerr + Journal) \<times> host" where
  "OpenWithSpool L sandboxID ident h =
     (if sandboxID = '''' \<or> length sandboxID > 256 \<or> \<not> utf8_valid L (string_bytes sandboxID)
      then (Inl [Err ''invalid sandbox identity''], h)
      else if s_closed (h_spool h) \<or> s_failed (h_spool h) \<noteq> []
      then (Inl (Err ''spool unavailable'' # s_failed (h_spool h)), h)
      else let i = length (h_writers h);
               (e, j, h) = start_journal (spool_env L i) sandboxID ident (add_writer h)
           in if e \<noteq> [] then let (_, h) = host_Close i h in (Inl e, h) else (Inr j, h))"

section \<open>The segments of a directory\<close>

definition files :: "disk \<Rightarrow> string \<Rightarrow> bytes option" where
  "files d n = (if segmentName n then case entry_at d n of Some (EFile b) \<Rightarrow> Some b | _ \<Rightarrow> None else None)"

definition total_size :: "(string \<Rightarrow> bytes option) \<Rightarrow> int" where
  "total_size m = (\<Sum>n \<in> dom m. int (length (the (m n))))"

lemma finite_files [simp]: "finite (dom (files d))"
proof (rule finite_subset)
  show "dom (files d) \<subseteq> dom (map_of (dk_entries d))"
    by (auto simp: files_def entry_at_def split: if_splits option.splits)
qed (rule finite_dom_map_of)

lemma total_size_new: "finite (dom m) \<Longrightarrow> m n = None \<Longrightarrow> total_size (m(n \<mapsto> b)) = total_size m + int (length b)"
proof -
  assume f: "finite (dom m)" and n: "m n = None"
  then have "n \<notin> dom m" by auto
  then have "(\<Sum>k \<in> dom m. int (length (the ((m(n \<mapsto> b)) k)))) = total_size m"
    unfolding total_size_def by (intro sum.cong) auto
  with f \<open>n \<notin> dom m\<close> show ?thesis by (simp add: total_size_def)
qed

lemma total_size_remove:
  assumes "finite (dom m)" "m n = Some b"
  shows "total_size (m(n := None)) = total_size m - int (length b)"
proof -
  have "(m(n := None))(n \<mapsto> b) = m" using assms(2) by auto
  with total_size_new [of "m(n := None)" n b] assms(1) show ?thesis by simp
qed

lemma total_size_set:
  assumes "finite (dom m)" "m n = Some b"
  shows "total_size (m(n \<mapsto> c)) = total_size m - int (length b) + int (length c)"
proof -
  have "(m(n := None))(n \<mapsto> c) = m(n \<mapsto> c)" by auto
  with total_size_new [of "m(n := None)" n c] total_size_remove [OF assms] assms(1) show ?thesis by simp
qed

lemma card_remove: "finite (dom m) \<Longrightarrow> m n = Some b \<Longrightarrow> int (card (dom (m(n := None)))) = int (card (dom m)) - 1"
proof -
  assume f: "finite (dom m)" and n: "m n = Some b"
  then have "n \<in> dom m" by auto
  with f have "card (dom m) > 0" by (auto simp: card_gt_0_iff)
  with f \<open>n \<in> dom m\<close> show ?thesis by simp
qed

lemma card_set: "m n = Some b \<Longrightarrow> card (dom (m(n \<mapsto> c))) = card (dom m)"
proof -
  assume "m n = Some b"
  then have "dom (m(n \<mapsto> c)) = dom m" by auto
  then show ?thesis by simp
qed

lemma card_new: "finite (dom m) \<Longrightarrow> m n = None \<Longrightarrow> card (dom (m(n \<mapsto> b))) = card (dom m) + 1"
proof -
  assume f: "finite (dom m)" and "m n = None"
  then have "n \<notin> dom m" by auto
  with f show ?thesis by simp
qed

subsection \<open>What the calls change\<close>

text \<open>Two disks with the same entries and names to come.\<close>

definition same_files :: "disk \<Rightarrow> disk \<Rightarrow> bool" where
  "same_files d d' \<longleftrightarrow> files d' = files d \<and> dk_ids d' = dk_ids d"

lemma same_files_refl [simp]: "same_files d d"
  by (simp add: same_files_def)

lemma same_files_trans: "same_files a b \<Longrightarrow> same_files b c \<Longrightarrow> same_files a c"
  by (simp add: same_files_def)

lemma sys_entries: "sys d = (e, d') \<Longrightarrow> dk_entries d' = dk_entries d \<and> dk_ids d' = dk_ids d"
  by (auto simp: sys_def split: list.splits)

lemma files_entries: "dk_entries d' = dk_entries d \<Longrightarrow> files d' = files d"
  by (simp add: files_def entry_at_def fun_eq_iff)

lemma sys_same: "sys d = (e, d') \<Longrightarrow> same_files d d'"
  by (auto simp: same_files_def intro: files_entries dest: sys_entries)

lemma cancelled_same: "cancelled d = (c, d') \<Longrightarrow> same_files d d'"
  by (auto simp: same_files_def cancelled_def intro: files_entries split: list.splits)

lemma entry_at_put [simp]: "entry_at (put_entry n x d) k = (if k = n then Some x else entry_at d k)"
  by (simp add: entry_at_def put_entry_def update_conv')

lemma files_put:
  "files (put_entry n (EFile b) d) = (if segmentName n then (files d)(n \<mapsto> b) else files d)"
  by (auto simp: files_def fun_eq_iff)

lemma put_entry_ids [simp]: "dk_ids (put_entry n x d) = dk_ids d"
  by (simp add: put_entry_def)

lemma files_SomeD: "files d n = Some b \<Longrightarrow> segmentName n \<and> entry_at d n = Some (EFile b)"
  by (auto simp: files_def split: if_splits option.splits direntry.splits)

lemma fs_read_same: "fs_read n d = (r, d') \<Longrightarrow> same_files d d'"
  by (auto simp: fs_read_def Let_def same_files_def intro!: files_entries
      split: prod.splits if_splits option.splits direntry.splits dest!: sys_entries)

lemma fs_read_content: "fs_read n d = (Inr b, d') \<Longrightarrow> entry_at d n = Some (EFile b)"
  by (auto simp: fs_read_def Let_def entry_at_def
      split: prod.splits if_splits option.splits direntry.splits dest!: sys_entries)

lemma fs_create_files:
  assumes "fs_create n d = (e, d')" "segmentName n"
  shows "dk_ids d' = dk_ids d"
    and "e \<noteq> [] \<Longrightarrow> files d' = files d"
    and "e = [] \<Longrightarrow> files d n = None \<and> files d' = (files d)(n \<mapsto> [])"
proof -
  obtain e0 d0 where s: "sys d = (e0, d0)" by (metis prod.exhaust)
  have "files d0 = files d" "dk_ids d0 = dk_ids d" using sys_same [OF s] by (simp_all add: same_files_def)
  moreover have "entry_at d0 n = None \<Longrightarrow> files d0 n = None" by (simp add: files_def)
  ultimately show "dk_ids d' = dk_ids d" "e \<noteq> [] \<Longrightarrow> files d' = files d"
    "e = [] \<Longrightarrow> files d n = None \<and> files d' = (files d)(n \<mapsto> [])"
    using assms s by (auto simp: fs_create_def files_put split: if_splits)
qed

lemma files_rename:
  "segmentName a \<Longrightarrow> segmentName b \<Longrightarrow> entry_at d a = Some (EFile c) \<Longrightarrow>
   files (d\<lparr>dk_entries := AList.update b (EFile c) (AList.delete a (dk_entries d))\<rparr>) = ((files d)(a := None))(b \<mapsto> c)"
  by (auto simp: files_def entry_at_def fun_eq_iff update_conv' delete_conv')

lemma fs_rename_files:
  assumes "fs_rename a b d = (e, d')" "files d a = Some c" "segmentName b"
  shows "dk_ids d' = dk_ids d"
    and "e \<noteq> [] \<Longrightarrow> files d' = files d"
    and "e = [] \<Longrightarrow> files d' = ((files d)(a := None))(b \<mapsto> c)"
proof -
  obtain e0 d0 where s: "sys d = (e0, d0)" by (metis prod.exhaust)
  have d0: "dk_entries d0 = dk_entries d" "dk_ids d0 = dk_ids d" using sys_entries [OF s] by simp_all
  have f0: "files d0 = files d" by (rule files_entries [OF d0(1)])
  have a: "segmentName a" "entry_at d0 a = Some (EFile c)"
    using files_SomeD [OF assms(2)] d0(1) by (simp_all add: entry_at_def)
  from assms(1) s a d0(2) f0 files_rename [OF a(1) assms(3) a(2)]
  show "dk_ids d' = dk_ids d" "e \<noteq> [] \<Longrightarrow> files d' = files d"
    "e = [] \<Longrightarrow> files d' = ((files d)(a := None))(b \<mapsto> c)"
    by (auto simp: fs_rename_def split: if_splits)
qed

lemma fs_remove_files:
  assumes "fs_remove n d = (e, d')" "segmentName n"
  shows "dk_ids d' = dk_ids d"
    and "e \<noteq> [] \<Longrightarrow> files d' = files d"
    and "e = [] \<Longrightarrow> files d' = (files d)(n := None)"
  using assms
  by (auto simp: fs_remove_def Let_def files_def entry_at_def fun_eq_iff delete_conv'
      split: prod.splits if_splits dest!: sys_entries)

lemma fs_append_files:
  assumes "fs_append n p d = ((k, e), d')" "files d n = Some b"
  shows "dk_ids d' = dk_ids d" "0 \<le> k" "k \<le> int (length p)" "files d' = (files d)(n \<mapsto> b @ take (nat k) p)"
proof -
  obtain k0 e0 where o: "(case dk_writes d of [] \<Rightarrow> (length p, []) | (k, e) # _ \<Rightarrow> (min k (length p), e)) = (k0, e0)"
    by (metis prod.exhaust)
  have k0: "k0 \<le> length p" using o by (auto split: list.splits)
  have a: "segmentName n" "entry_at (d\<lparr>dk_writes := tl (dk_writes d)\<rparr>) n = Some (EFile b)"
    using files_SomeD [OF assms(2)] by (simp_all add: entry_at_def)
  have "files (d\<lparr>dk_writes := tl (dk_writes d)\<rparr>) = files d" by (rule files_entries) simp
  with assms(1) o a have "k = int k0" "dk_ids d' = dk_ids d" "files d' = (files d)(n \<mapsto> b @ take k0 p)"
    by (auto simp: fs_append_def files_put)
  with k0 show "dk_ids d' = dk_ids d" "0 \<le> k" "k \<le> int (length p)" "files d' = (files d)(n \<mapsto> b @ take (nat k) p)"
    by simp_all
qed

lemma control_name [simp]: "\<not> segmentName ''.incomplete''" "\<not> segmentName ''.lock''" "\<not> segmentName ''.custody''"
  by (simp_all add: segmentName_def segment_base_def)

lemma open_control_same: "open_control n d = (r, d') \<Longrightarrow> same_files d d'"
  by (auto simp: open_control_def Let_def same_files_def intro!: files_entries
      split: prod.splits if_splits option.splits direntry.splits dest!: sys_entries)

lemma files_writes [simp]: "files (d\<lparr>dk_writes := x\<rparr>) = files d"
  by (rule files_entries) simp

lemma markIncomplete_same: "markIncomplete d = (e, d') \<Longrightarrow> same_files d d'"
  by (auto simp: markIncomplete_def Let_def same_files_def files_put
      split: prod.splits sum.splits if_splits list.splits dest!: open_control_same sys_same)

lemma syncDir_same: "syncDir s d = (e, s', d') \<Longrightarrow> same_files d d'"
  by (auto simp: syncDir_def Let_def same_files_def split: prod.splits if_splits dest!: sys_same)

lemma syncDir_spool: "syncDir s d = (e, s', d') \<Longrightarrow> s' = s\<lparr>s_failed := e\<rparr> \<and> (s_failed s \<noteq> [] \<longrightarrow> e \<noteq> [])"
  by (auto simp: syncDir_def Let_def split: prod.splits if_splits)

subsection \<open>Names of segments\<close>

lemma segmentName_split: "segmentName n \<Longrightarrow> n = segment_base n @ CHR ''.'' # segment_ext n"
proof -
  assume s: "segmentName n"
  have n: "n = segment_base n @ dropWhile (\<lambda>c. c \<noteq> CHR ''.'') n" by (simp add: segment_base_def)
  have "segment_ext n \<noteq> []" using s by (auto simp: segmentName_def)
  then have "dropWhile (\<lambda>c. c \<noteq> CHR ''.'') n \<noteq> []" unfolding segment_ext_def by (metis drop_Nil)
  then obtain c cs where c: "dropWhile (\<lambda>c. c \<noteq> CHR ''.'') n = c # cs" by (meson neq_Nil_conv)
  then have "c = CHR ''.''" using hd_dropWhile [of "\<lambda>c. c \<noteq> CHR ''.''" n] by auto
  with n c show ?thesis by (simp add: segment_ext_def)
qed

lemma segment_parts:
  assumes "CHR ''.'' \<notin> set base"
  shows "segment_base (base @ CHR ''.'' # ext) = base" "segment_ext (base @ CHR ''.'' # ext) = ext"
proof -
  have "takeWhile (\<lambda>c. c \<noteq> CHR ''.'') (base @ CHR ''.'' # ext) = base"
    using assms by (subst takeWhile_append2) auto
  then show "segment_base (base @ CHR ''.'' # ext) = base" by (simp add: segment_base_def)
  have "dropWhile (\<lambda>c. c \<noteq> CHR ''.'') (base @ CHR ''.'' # ext) = CHR ''.'' # ext"
    using assms by (subst dropWhile_append2) auto
  then show "segment_ext (base @ CHR ''.'' # ext) = ext" by (simp add: segment_ext_def)
qed

lemma segment_base_no_dot: "CHR ''.'' \<notin> set (segment_base n)"
  by (auto simp: segment_base_def dest: set_takeWhileD)

lemma has_suffix_append [simp]: "has_suffix (a @ b) b"
  by (simp add: has_suffix_def)

lemma active_suffix:
  assumes "segmentName n"
  shows "has_suffix n ''.active'' \<longleftrightarrow> segment_ext n = ''active''"
proof -
  define base ext where be: "base = segment_base n" "ext = segment_ext n"
  have n: "n = base @ CHR ''.'' # ext" using segmentName_split [OF assms] by (simp add: be)
  have l: "length base = 32" and e: "ext \<in> {''active'', ''jsonl'', ''incomplete''}"
    using assms by (simp_all add: segmentName_def be)
  have "has_suffix n ''.active'' \<longleftrightarrow> ext = ''active''"
    using e l unfolding n has_suffix_def by auto
  then show ?thesis by (simp add: be)
qed

lemma trim_active_base: "segmentName n \<Longrightarrow> segment_ext n = ''active'' \<Longrightarrow> trim_active n = segment_base n"
proof -
  assume s: "segmentName n" "segment_ext n = ''active''"
  define base where b: "base = segment_base n"
  have n: "n = base @ ''.active''" using segmentName_split [OF s(1)] s(2) by (simp add: b)
  have "trim_active n = base" by (simp add: n trim_active_def)
  then show ?thesis by (simp add: b)
qed

lemma renamed:
  assumes "segmentName n" "ext \<in> {''active'', ''jsonl'', ''incomplete''}"
  shows "segmentName (segment_base n @ CHR ''.'' # ext)"
    "segment_base (segment_base n @ CHR ''.'' # ext) = segment_base n" "segment_ext (segment_base n @ CHR ''.'' # ext) = ext"
  using assms segment_parts [OF segment_base_no_dot] by (simp_all add: segmentName_def)

lemma hex_nibble_ok: "n < 16 \<Longrightarrow> hex_char (hex_nibble n) \<and> hex_nibble n \<noteq> CHR ''.''"
proof -
  assume "n < 16"
  then have "n \<in> set [0..<16]" by simp
  moreover have "list_all (\<lambda>n. hex_char (hex_nibble n) \<and> hex_nibble n \<noteq> CHR ''.'') [0..<16]" by code_simp
  ultimately show ?thesis by (simp add: list_all_iff)
qed

lemma hex_string_ok:
  "length (hex_string b) = 2 * length b" "list_all (\<lambda>c. hex_char c \<and> c \<noteq> CHR ''.'') (hex_string b)"
proof -
  have "unat x div 16 < 16" for x :: byte
  proof -
    have "unat x < 256" using unsigned_less [of x] by simp
    then show ?thesis by (simp add: less_mult_imp_div_less)
  qed
  then show "length (hex_string b) = 2 * length b" "list_all (\<lambda>c. hex_char c \<and> c \<noteq> CHR ''.'') (hex_string b)"
    by (induction b) (simp_all add: hex_string_def hex_nibble_ok)
qed

lemma active_name:
  assumes "length i = 16"
  shows "segmentName (hex_string i @ ''.active'')" "segment_base (hex_string i @ ''.active'') = hex_string i"
    "segment_ext (hex_string i @ ''.active'') = ''active''"
proof -
  have "CHR ''.'' \<notin> set (hex_string i)" using hex_string_ok(2) [of i] by (auto simp: list_all_iff)
  from segment_parts [OF this, of "''active''"]
  show b: "segment_base (hex_string i @ ''.active'') = hex_string i"
    "segment_ext (hex_string i @ ''.active'') = ''active''" by simp_all
  have "hex_ok (hex_string i)" using assms hex_string_ok [of i] by (simp add: hex_ok_def list_all_iff)
  with b assms show "segmentName (hex_string i @ ''.active'')" by (simp add: segmentName_def hex_string_ok(1))
qed

section \<open>The invariant\<close>

text \<open>The counters of the spool agree with the directory and stay within the options.\<close>

definition budget :: "Spool \<Rightarrow> disk \<Rightarrow> bool" where
  "budget s d \<longleftrightarrow>
     options_ok (s_options s) \<and> s_used s = 1 + total_size (files d) \<and> s_count s = int (card (dom (files d))) \<and>
     s_used s \<le> so_MaxBytes (s_options s) \<and> s_count s \<le> so_MaxSegments (s_options s)"

text \<open>Segments have different bases, and the random names to come are new.\<close>

definition new_names :: "disk \<Rightarrow> string list" where
  "new_names d = map hex_string (dk_ids d)"

definition names_ok :: "disk \<Rightarrow> bool" where
  "names_ok d \<longleftrightarrow>
     inj_on segment_base (dom (files d)) \<and> distinct (new_names d) \<and> list_all (\<lambda>i. length i = 16) (dk_ids d) \<and>
     set (new_names d) \<inter> segment_base ` dom (files d) = {}"

text \<open>Whole lines.\<close>

definition whole :: "bytes \<Rightarrow> bool" where
  "whole b \<longleftrightarrow> b = [] \<or> last b = 10"

definition sealed_whole :: "disk \<Rightarrow> bool" where
  "sealed_whole d \<longleftrightarrow> (\<forall>n b. files d n = Some b \<longrightarrow> segment_ext n = ''jsonl'' \<longrightarrow> whole b)"

definition bases :: "spoolWriter \<Rightarrow> string set" where
  "bases w = fst ` set (sw_history w)"

text \<open>An open segment has the size that its writer believes, and its end is torn only if the writer has
  failed. What a writer has put into a segment is there as long as the segment is.\<close>

definition writer_ok :: "SpoolOptions \<Rightarrow> disk \<Rightarrow> spoolWriter \<Rightarrow> bool" where
  "writer_ok options d w \<longleftrightarrow>
     (sw_open w \<longrightarrow> (\<exists>b. files d (sw_name w) = Some b \<and> int (length b) = sw_size w \<and> sw_size w \<le> so_SegmentBytes options \<and>
        segment_ext (sw_name w) = ''active'' \<and> (sw_failed w = [] \<longrightarrow> whole b) \<and>
        sw_history w \<noteq> [] \<and> last (sw_history w) = (segment_base (sw_name w), b))) \<and>
     (\<forall>n c b. files d n = Some c \<longrightarrow> (segment_base n, b) \<in> set (sw_history w) \<longrightarrow> c = b) \<and>
     list_all (\<lambda>x. int (length (snd x)) \<le> so_SegmentBytes options) (sw_history w) \<and>
     distinct (map fst (sw_history w)) \<and> bases w \<inter> set (new_names d) = {}"

definition writer_inv :: "spoolWriter \<Rightarrow> Spool \<Rightarrow> disk \<Rightarrow> bool" where
  "writer_inv w s d \<longleftrightarrow> budget s d \<and> names_ok d \<and> sealed_whole d \<and> writer_ok (s_options s) d w"

text \<open>What an operation of a writer leaves alone: the segments of others, and what names may come.\<close>

definition writer_frame :: "spoolWriter \<Rightarrow> disk \<Rightarrow> spoolWriter \<Rightarrow> disk \<Rightarrow> bool" where
  "writer_frame w d w' d' \<longleftrightarrow>
     (\<forall>n. segment_base n \<notin> bases w' \<longrightarrow> files d' n = files d n) \<and>
     bases w \<subseteq> bases w' \<and> bases w' \<subseteq> bases w \<union> set (new_names d) \<and> set (new_names d') \<subseteq> set (new_names d)"

lemma bases_simps [simp]:
  "bases (w\<lparr>sw_open := o1\<rparr>) = bases w" "bases (w\<lparr>sw_name := n\<rparr>) = bases w" "bases (w\<lparr>sw_size := k\<rparr>) = bases w"
  "bases (w\<lparr>sw_failed := e\<rparr>) = bases w" "bases (w\<lparr>sw_closed := c\<rparr>) = bases w"
  by (simp_all add: bases_def)

lemma same_files_inv:
  assumes "same_files d d'"
  shows "budget s d' = budget s d" "names_ok d' = names_ok d" "sealed_whole d' = sealed_whole d"
    "writer_ok options d' w = writer_ok options d w" "writer_inv w s d' = writer_inv w s d"
    "new_names d' = new_names d"
  using assms
  by (simp_all add: same_files_def budget_def names_ok_def sealed_whole_def writer_ok_def writer_inv_def new_names_def)

lemma budget_failed [simp]: "budget (s\<lparr>s_failed := e\<rparr>) d = budget s d" "budget (s\<lparr>s_writers := k\<rparr>) d = budget s d"
  by (simp_all add: budget_def)

lemma writer_inv_failed [simp]:
  "writer_inv w (s\<lparr>s_failed := e\<rparr>) d = writer_inv w s d" "writer_inv w (s\<lparr>s_writers := k\<rparr>) d = writer_inv w s d"
  by (simp_all add: writer_inv_def)

lemma writer_ok_failed: "writer_ok options d w \<Longrightarrow> e \<noteq> [] \<or> e = sw_failed w \<Longrightarrow> writer_ok options d (w\<lparr>sw_failed := e\<rparr>)"
  by (auto simp: writer_ok_def bases_def)

lemma writer_ok_closed [simp]: "writer_ok options d (w\<lparr>sw_closed := c\<rparr>) = writer_ok options d w"
  by (simp add: writer_ok_def bases_def)

lemma frame_refl [simp]: "writer_frame w d w d"
  by (simp add: writer_frame_def)

lemma frame_same: "same_files d d' \<Longrightarrow> bases w' = bases w \<Longrightarrow> writer_frame w d w' d'"
  by (simp add: writer_frame_def same_files_def new_names_def)

lemma frame_trans:
  assumes "writer_frame w1 d1 w2 d2" "writer_frame w2 d2 w3 d3"
  shows "writer_frame w1 d1 w3 d3"
proof -
  have "files d3 n = files d1 n" if "segment_base n \<notin> bases w3" for n
  proof -
    have "segment_base n \<notin> bases w2" using that assms(2) by (auto simp: writer_frame_def)
    with that assms show ?thesis by (simp add: writer_frame_def)
  qed
  moreover have "bases w1 \<subseteq> bases w3" "bases w3 \<subseteq> bases w1 \<union> set (new_names d1)" "set (new_names d3) \<subseteq> set (new_names d1)"
    using assms by (auto simp: writer_frame_def)
  ultimately show ?thesis by (simp add: writer_frame_def)
qed

text \<open>Renaming the open segment keeps the invariant, if the new name claims whole lines only where
  they are.\<close>

lemma rename_inv:
  assumes i: "writer_inv w s d" and o: "sw_open w"
    and e: "ext = ''incomplete'' \<or> ext = ''jsonl'' \<and> sw_failed w = []"
    and r: "fs_rename (sw_name w) (trim_active (sw_name w) @ CHR ''.'' # ext) d = (er, d')"
  shows "writer_inv (w\<lparr>sw_open := False\<rparr>) s d'" "writer_frame w d (w\<lparr>sw_open := False\<rparr>) d'"
proof -
  let ?a = "sw_name w" and ?b = "segment_base (sw_name w) @ CHR ''.'' # ext"
  from i o obtain b where b: "files d ?a = Some b" "segment_ext ?a = ''active''" "sw_failed w = [] \<longrightarrow> whole b"
      "sw_history w \<noteq> []" "last (sw_history w) = (segment_base ?a, b)"
    by (auto simp: writer_inv_def writer_ok_def)
  have a: "segmentName ?a" using files_SomeD [OF b(1)] by simp
  note t = trim_active_base [OF a b(2)]
  have ex: "ext \<in> {''active'', ''jsonl'', ''incomplete''}" using e by auto
  note rn = renamed [OF a ex]
  note f = fs_rename_files [OF r [unfolded t] b(1) rn(1)]
  have inB: "segment_base ?a \<in> bases w" using b(4,5) last_in_set [OF b(4)] by (force simp: bases_def)
  have fr: "writer_frame w d (w\<lparr>sw_open := False\<rparr>) d'" if "files d' = files d \<or> files d' = ((files d)(?a := None))(?b \<mapsto> b)"
    using that inB rn(2) f(1) by (auto simp: writer_frame_def new_names_def)
  have "writer_inv (w\<lparr>sw_open := False\<rparr>) s d' \<and> writer_frame w d (w\<lparr>sw_open := False\<rparr>) d'"
  proof (cases "er = []")
    case False
    then have "same_files d d'" using f(1,2) by (simp add: same_files_def)
    with i f(2) False show ?thesis
      using fr by (auto simp: writer_inv_def writer_ok_def bases_def same_files_inv)
  next
    case True
    note fd = f(3) [OF True]
    have ne: "?b \<noteq> ?a"
      using rn(3) b(2) e by auto
    have inj: "inj_on segment_base (dom (files d))" using i by (simp add: writer_inv_def names_ok_def)
    have nb: "files d ?b = None"
    proof (rule ccontr)
      assume "files d ?b \<noteq> None"
      with b(1) have "?b \<in> dom (files d)" "?a \<in> dom (files d)" by auto
      with inj rn(2) have "?b = ?a" by (auto dest: inj_onD)
      with ne show False ..
    qed
    have dom': "dom (files d') = insert ?b (dom (files d) - {?a})" using fd ne by auto
    have bse: "segment_base ` dom (files d') = segment_base ` dom (files d)"
      using dom' rn(2) b(1) by (auto simp: image_iff)
    have inj': "inj_on segment_base (dom (files d'))"
      unfolding dom' using inj rn(2) b(1) by (auto simp: inj_on_def)
    have "names_ok d'"
      using i inj' bse f(1) by (simp add: writer_inv_def names_ok_def new_names_def)
    moreover have "budget s d'"
    proof -
      define m where m: "m = (files d)(?a := None)"
      have n0: "m ?b = None" "finite (dom m)" using nb ne by (simp_all add: m)
      have fm: "files d' = m(?b \<mapsto> b)" using fd by (simp add: m)
      have "total_size (files d') = total_size (files d)"
        using total_size_new [OF n0(2,1), of b] total_size_remove [OF finite_files b(1), folded m] by (simp add: fm)
      moreover have "int (card (dom (files d'))) = int (card (dom (files d)))"
        using card_new [OF n0(2,1), of b] card_remove [OF finite_files b(1), folded m] unfolding fm by linarith
      ultimately show ?thesis using i by (simp add: writer_inv_def budget_def)
    qed
    moreover have "sealed_whole d'"
      using i fd b(3) e rn(3) by (auto simp: writer_inv_def sealed_whole_def)
    moreover have "writer_ok (s_options s) d' (w\<lparr>sw_open := False\<rparr>)"
    proof -
      have h: "\<And>n c x. files d n = Some c \<Longrightarrow> (segment_base n, x) \<in> set (sw_history w) \<Longrightarrow> c = x"
        and di: "distinct (map fst (sw_history w))" "bases w \<inter> set (new_names d) = {}"
          "list_all (\<lambda>x. int (length (snd x)) \<le> so_SegmentBytes (s_options s)) (sw_history w)"
        using i by (auto simp: writer_inv_def writer_ok_def)
      have "c = x" if "files d' n = Some c" "(segment_base n, x) \<in> set (sw_history w)" for n c x
      proof (cases "n = ?b")
        case True
        then have "segment_base n = segment_base ?a" using rn(2) by simp
        with h [OF b(1)] that(2) have "b = x" by simp
        with that(1) True fd show ?thesis by simp
      next
        case False
        with that fd show ?thesis using h by (auto split: if_splits)
      qed
      with di f(1) show ?thesis by (auto simp: writer_ok_def bases_def new_names_def)
    qed
    ultimately show ?thesis using fr fd by (simp add: writer_inv_def)
  qed
  then show "writer_inv (w\<lparr>sw_open := False\<rparr>) s d'" "writer_frame w d (w\<lparr>sw_open := False\<rparr>) d'" by auto
qed

lemma writer_inv_same: "same_files d d' \<Longrightarrow> writer_inv w s d \<Longrightarrow> writer_inv w s d'"
  by (simp add: same_files_inv)

lemma frame_same_right: "writer_frame w d w' d' \<Longrightarrow> same_files d' d'' \<Longrightarrow> writer_frame w d w' d''"
  by (simp add: writer_frame_def same_files_def new_names_def)

lemma frame_same_left: "same_files d d' \<Longrightarrow> writer_frame w d' w' d'' \<Longrightarrow> writer_frame w d w' d''"
  by (simp add: writer_frame_def same_files_def new_names_def)

lemma seal_inv:
  assumes i: "writer_inv w s d" and r: "seal w s d = (e, w', s', d')"
  shows "writer_inv w' s' d'" "writer_frame w d w' d'" "\<not> sw_open w'" "sw_failed w' = sw_failed w"
    "sw_history w' = sw_history w" "sw_closed w' = sw_closed w" "s_options s' = s_options s" "s_writers s' = s_writers s"
    "s_used s' = s_used s" "s_count s' = s_count s"
proof -
  have "writer_inv w' s' d' \<and> writer_frame w d w' d' \<and> \<not> sw_open w' \<and> sw_failed w' = sw_failed w \<and>
    sw_history w' = sw_history w \<and> sw_closed w' = sw_closed w \<and> s_options s' = s_options s \<and> s_writers s' = s_writers s \<and>
    s_used s' = s_used s \<and> s_count s' = s_count s"
  proof (cases "sw_open w")
    case False
    with r i show ?thesis by (auto simp: seal_def)
  next
    case True
    obtain e1 d1 where 1: "sys d = (e1, d1)" by (metis prod.exhaust)
    obtain e2 d2 where 2: "sys d1 = (e2, d2)" by (metis prod.exhaust)
    define ext where "ext = (if e1 @ e2 \<noteq> [] \<or> sw_failed w \<noteq> [] then ''incomplete'' else ''jsonl'')"
    obtain e3 d3 where 3: "fs_rename (sw_name w) (trim_active (sw_name w) @ CHR ''.'' # ext) d2 = (e3, d3)"
      by (metis prod.exhaust)
    obtain e4 s4 d4 where 4: "syncDir s d3 = (e4, s4, d4)" by (metis prod.exhaust)
    have out: "w' = w\<lparr>sw_open := False\<rparr>" "s' = s4" "d' = d4"
      using r True 1 2 3 4 by (auto simp: seal_def ext_def Let_def split: if_splits)
    have s02: "same_files d d2" using same_files_trans [OF sys_same [OF 1] sys_same [OF 2]] .
    have "writer_inv w s d2" using writer_inv_same [OF s02 i] .
    note rn = rename_inv [OF this True _ 3]
    have "ext = ''incomplete'' \<or> ext = ''jsonl'' \<and> sw_failed w = []" by (auto simp: ext_def)
    note rn = rn(1) [OF this] rn(2) [OF this]
    have "writer_inv w' s' d'"
      using writer_inv_same [OF syncDir_same [OF 4] rn(1)] syncDir_spool [OF 4] out by simp
    moreover have "writer_frame w d w' d'"
      using frame_same_right [OF frame_same_left [OF s02 rn(2)] syncDir_same [OF 4]] out by simp
    ultimately show ?thesis using out syncDir_spool [OF 4] by simp
  qed
  then show "writer_inv w' s' d'" "writer_frame w d w' d'" "\<not> sw_open w'" "sw_failed w' = sw_failed w"
    "sw_history w' = sw_history w" "sw_closed w' = sw_closed w" "s_options s' = s_options s" "s_writers s' = s_writers s"
    "s_used s' = s_used s" "s_count s' = s_count s"
    by auto
qed

lemma new_segment_inv:
  assumes i: "writer_inv w s d" and o: "\<not> sw_open w" and f: "sw_failed w = []"
    and c: "s_count s < so_MaxSegments (s_options s)" and r: "new_segment w s d = (e, w', s', d')"
  shows "writer_inv w' s' d'" "writer_frame w d w' d'" "e = [] \<Longrightarrow> sw_open w' \<and> sw_size w' = 0 \<and> sw_failed w' = []"
    "sw_closed w' = sw_closed w" "s_options s' = s_options s" "s_writers s' = s_writers s" "s_used s' = s_used s"
    "concat (map snd (sw_history w')) = concat (map snd (sw_history w))"
proof -
  have "writer_inv w' s' d' \<and> writer_frame w d w' d' \<and> (e = [] \<longrightarrow> sw_open w' \<and> sw_size w' = 0 \<and> sw_failed w' = []) \<and>
    sw_closed w' = sw_closed w \<and> s_options s' = s_options s \<and> s_writers s' = s_writers s \<and> s_used s' = s_used s \<and>
    concat (map snd (sw_history w')) = concat (map snd (sw_history w))"
  proof (cases "dk_ids d")
    case Nil
    with r i show ?thesis by (auto simp: new_segment_def)
  next
    case (Cons k ids)
    let ?n = "hex_string k @ ''.active''" and ?d0 = "d\<lparr>dk_ids := ids\<rparr>"
    obtain e1 d1 where 1: "fs_create ?n ?d0 = (e1, d1)" by (metis prod.exhaust)
    have k: "length k = 16" and new: "hex_string k \<notin> segment_base ` dom (files d)"
        "set (map hex_string ids) \<inter> segment_base ` dom (files d) = {}" "hex_string k \<notin> set (map hex_string ids)"
        "distinct (map hex_string ids)" "list_all (\<lambda>i. length i = 16) ids" "inj_on segment_base (dom (files d))"
      using i Cons by (auto simp: writer_inv_def names_ok_def new_names_def)
    note nm = active_name [OF k]
    have f0: "files ?d0 = files d" by (rule files_entries) simp
    note cf = fs_create_files [OF 1 nm(1)]
    have wo: "writer_ok (s_options s) d w" "bases w \<inter> set (new_names d) = {}"
      using i by (simp_all add: writer_inv_def writer_ok_def)
    have nn: "new_names d = hex_string k # map hex_string ids" "new_names d1 = map hex_string ids"
      using Cons cf(1) by (simp_all add: new_names_def)
    show ?thesis
    proof (cases "e1 = []")
      case False
      then have out: "w' = w\<lparr>sw_name := ?n, sw_failed := e1\<rparr>" "s' = s" "d' = d1" "e = e1"
        using r Cons 1 by (auto simp: new_segment_def)
      have fd: "files d1 = files d" using cf(2) [OF False] f0 by simp
      have "writer_ok (s_options s) d1 w'"
        using wo o nn fd by (auto simp: writer_ok_def out bases_def)
      moreover have "names_ok d1" using new cf(1) fd by (simp add: names_ok_def nn)
      moreover have "budget s d1" "sealed_whole d1" using i fd by (simp_all add: writer_inv_def budget_def sealed_whole_def)
      moreover have "writer_frame w d w' d1" using fd nn by (auto simp: writer_frame_def out)
      ultimately show ?thesis using out False by (simp add: writer_inv_def)
    next
      case True
      let ?s1 = "s\<lparr>s_count := s_count s + 1\<rparr>"
      obtain e2 s2 d2 where 2: "syncDir ?s1 d1 = (e2, s2, d2)" by (metis prod.exhaust)
      let ?w1 = "w\<lparr>sw_name := ?n, sw_open := True, sw_size := 0, sw_history := sw_history w @ [(hex_string k, [])]\<rparr>"
      have out: "w' = (if e2 \<noteq> [] then ?w1\<lparr>sw_failed := e2\<rparr> else ?w1)" "s' = s2" "d' = d2" "e = e2"
        using r Cons 1 2 True by (auto simp: new_segment_def Let_def split: if_splits)
      have fd: "files d ?n = None" "files d1 = (files d)(?n \<mapsto> [])" using cf(3) [OF True] f0 by simp_all
      have dom1: "dom (files d1) = insert ?n (dom (files d))" using fd by auto
      have "total_size (files d1) = total_size (files d)" "card (dom (files d1)) = card (dom (files d)) + 1"
        using total_size_new [of "files d" ?n "[]"] card_new [of "files d" ?n "[]"] fd(1)
        unfolding fd(2) by simp_all
      moreover have "budget s d" using i by (simp add: writer_inv_def)
      ultimately have "budget ?s1 d1" using c by (simp add: budget_def)
      moreover have "names_ok d1"
        using new nm(2) cf(1) by (auto simp: names_ok_def nn dom1 inj_on_insert)
      moreover have "sealed_whole d1" using i fd(2) nm(3) by (auto simp: writer_inv_def sealed_whole_def)
      moreover have "writer_ok (s_options s) d1 ?w1"
      proof -
        have sb: "so_SegmentBytes (s_options s) \<ge> 0" using i by (simp add: writer_inv_def budget_def options_ok_def)
        have kn: "hex_string k \<notin> bases w" using wo(2) nn(1) by auto
        have h: "c = b" if "files d1 n = Some c" "(segment_base n, b) \<in> set (sw_history ?w1)" for n c b
        proof (cases "segment_base n = hex_string k")
          case True
          with that(2) kn have "b = []" by (force simp: bases_def)
          moreover have "n = ?n"
          proof (rule ccontr)
            assume "n \<noteq> ?n"
            with that(1) fd(2) have "n \<in> dom (files d)" by auto
            with True new(1) show False by force
          qed
          ultimately show ?thesis using that(1) fd(2) by simp
        next
          case False
          then have "n \<noteq> ?n" using nm(2) by auto
          with that False fd(2) wo(1) show ?thesis by (auto simp: writer_ok_def)
        qed
        have "distinct (map fst (sw_history ?w1))" using wo(1) kn by (simp add: writer_ok_def bases_def)
        moreover have "bases ?w1 \<inter> set (new_names d1) = {}" using wo(2) nn new(3) by (auto simp: bases_def)
        ultimately show ?thesis
          using h sb fd(2) nm wo(1) by (auto simp: writer_ok_def whole_def)
      qed
      ultimately have i1: "writer_inv ?w1 ?s1 d1" by (simp add: writer_inv_def)
      note sd = syncDir_same [OF 2] and ss = syncDir_spool [OF 2]
      have i2: "writer_inv ?w1 s2 d2" using writer_inv_same [OF sd i1] ss by simp
      have "writer_inv w' s2 d2"
        using i2 writer_ok_failed [of "s_options s2" d2 ?w1 e2] out(1) by (auto simp: writer_inv_def)
      moreover have "writer_frame w d w' d2"
      proof (rule frame_same_right [OF _ sd])
        have "bases w' = insert (hex_string k) (bases w)" by (simp add: out(1) bases_def)
        then show "writer_frame w d w' d1" using fd(2) nn nm(2) by (auto simp: writer_frame_def)
      qed
      ultimately show ?thesis using out ss f by auto
    qed
  qed
  then show "writer_inv w' s' d'" "writer_frame w d w' d'" "e = [] \<Longrightarrow> sw_open w' \<and> sw_size w' = 0 \<and> sw_failed w' = []"
    "sw_closed w' = sw_closed w" "s_options s' = s_options s" "s_writers s' = s_writers s" "s_used s' = s_used s"
    "concat (map snd (sw_history w')) = concat (map snd (sw_history w))"
    by auto
qed

text \<open>The bytes that a writer has put into segments, and what appending does to them.\<close>

definition written :: "spoolWriter \<Rightarrow> bytes" where
  "written w = concat (map snd (sw_history w))"

lemma written_add_history: "concat (map snd (add_history b h)) = concat (map snd h) @ b"
  by (cases h rule: rev_cases) (simp_all add: add_history_def)

lemma add_history_fst: "h \<noteq> [] \<Longrightarrow> map fst (add_history b h) = map fst h"
  by (cases h rule: rev_cases) (simp_all add: add_history_def)

lemma whole_append: "whole a \<Longrightarrow> whole p \<Longrightarrow> whole (a @ p)"
  by (cases "p = []") (auto simp: whole_def)

lemma write_segment_inv:
  assumes i: "writer_inv w s d" and o: "sw_open w" and f: "sw_failed w = []" and p: "whole p"
    and sz: "sw_size w + int (length p) \<le> so_SegmentBytes (s_options s)"
    and us: "s_used s + int (length p) \<le> so_MaxBytes (s_options s)"
    and r: "write_segment p w s d = ((n, e), w', s', d')"
  shows "writer_inv w' s' d'" "writer_frame w d w' d'" "0 \<le> n" "n \<le> int (length p)"
    "written w' = written w @ take (nat n) p" "sw_closed w' = sw_closed w" "s_options s' = s_options s"
    "s_writers s' = s_writers s"
proof -
  from i o f obtain b where b: "files d (sw_name w) = Some b" "int (length b) = sw_size w"
      "segment_ext (sw_name w) = ''active''" "whole b" "sw_history w \<noteq> []" "last (sw_history w) = (segment_base (sw_name w), b)"
    by (auto simp: writer_inv_def writer_ok_def)
  obtain k e0 d0 where a: "fs_append (sw_name w) p d = ((k, e0), d0)" by (metis prod.exhaust)
  note fa = fs_append_files [OF a b(1)]
  let ?x = "take (nat k) p"
  define e1 where "e1 = (if e0 = [] \<and> k \<noteq> int (length p) then [Err ''short write''] else e0)"
  define w1 where "w1 = w\<lparr>sw_size := sw_size w + k, sw_history := add_history ?x (sw_history w)\<rparr>"
  have out: "n = k" "e = e1" "w' = (if e1 \<noteq> [] then w1\<lparr>sw_failed := e1\<rparr> else w1)" "s' = s\<lparr>s_used := s_used s + k\<rparr>" "d' = d0"
    using r a by (auto simp: write_segment_def e1_def w1_def Let_def split: if_splits)
  have lx: "int (length ?x) = k" using fa(2,3) by simp
  obtain hs where hs: "sw_history w = hs @ [(segment_base (sw_name w), b)]"
    using b(5,6) by (cases "sw_history w" rule: rev_cases) auto
  have hist: "sw_history w1 = hs @ [(segment_base (sw_name w), b @ ?x)]" by (simp add: w1_def add_history_def hs)
  have dom0: "dom (files d0) = dom (files d)" using fa(4) b(1) by auto
  have nn: "new_names d0 = new_names d" using fa(1) by (simp add: new_names_def)
  have bs: "bases w1 = bases w" by (simp add: bases_def hist hs)
  have "budget s' d0"
    using i total_size_set [OF finite_files b(1), of "b @ ?x"] fa(3,4) lx us dom0
    by (simp add: writer_inv_def budget_def out(4))
  moreover have "names_ok d0" using i nn fa(1) by (simp add: writer_inv_def names_ok_def dom0)
  moreover have "sealed_whole d0" using i b(3) fa(4) by (auto simp: writer_inv_def sealed_whole_def)
  moreover have ok1: "writer_ok (s_options s) d0 w'"
  proof -
    have wd: "distinct (map fst (sw_history w))" "bases w \<inter> set (new_names d) = {}"
        "\<And>n c x. files d n = Some c \<Longrightarrow> (segment_base n, x) \<in> set (sw_history w) \<Longrightarrow> c = x"
        "inj_on segment_base (dom (files d))"
        "list_all (\<lambda>x. int (length (snd x)) \<le> so_SegmentBytes (s_options s)) (sw_history w)"
      using i by (auto simp: writer_inv_def writer_ok_def names_ok_def)
    have h: "c = x" if "files d0 m = Some c" "(segment_base m, x) \<in> set (sw_history w1)" for m c x
    proof (cases "m = sw_name w")
      case True
      with that(2) wd(1) have "x = b @ ?x" by (force simp: hist hs)
      with that(1) True fa(4) show ?thesis by simp
    next
      case False
      with that(1) fa(4) have m: "files d m = Some c" by simp
      have "segment_base m \<noteq> segment_base (sw_name w)"
        using wd(4) m b(1) False by (auto dest: inj_onD)
      with that(2) have "(segment_base m, x) \<in> set (sw_history w)" by (simp add: hist hs)
      with wd(3) m show ?thesis by blast
    qed
    have "e1 = [] \<Longrightarrow> whole (b @ ?x)"
      using whole_append [OF b(4) p] by (auto simp: e1_def split: if_splits)
    moreover have "distinct (map fst (sw_history w1))" using wd(1) by (simp add: hist hs)
    ultimately have "writer_ok (s_options s) d0 (w1\<lparr>sw_failed := e1\<rparr>)"
      using fa(3,4) b(2,3) sz h lx wd(2,5) nn bs hist hs o
      by (auto simp: writer_ok_def w1_def)
    moreover have "w' = w1\<lparr>sw_failed := e1\<rparr>" using out(3) f by (simp add: w1_def)
    ultimately show ?thesis by simp
  qed
  ultimately show "writer_inv w' s' d'" by (simp add: writer_inv_def out(4,5))
  have "segment_base (sw_name w) \<in> bases w" by (simp add: bases_def hs)
  then show "writer_frame w d w' d'" using fa(4) nn bs out(3,5) by (auto simp: writer_frame_def)
  show "0 \<le> n" "n \<le> int (length p)" using fa out(1) by simp_all
  show "written w' = written w @ take (nat n) p"
    using out(1,3) by (simp add: written_def w1_def written_add_history)
  show "sw_closed w' = sw_closed w" "s_options s' = s_options s" "s_writers s' = s_writers s"
    by (simp_all add: out w1_def)
qed

lemma Writer_Write_inv:
  assumes i: "writer_inv w s d" and p: "whole p" and r: "Writer_Write p w s d = ((n, e), w', s', d')"
  shows "writer_inv w' s' d' \<and> writer_frame w d w' d' \<and> sw_closed w' = sw_closed w \<and> s_options s' = s_options s \<and>
    s_writers s' = s_writers s"
proof -
  let ?new = "needs_segment p w s"
  consider (stop) "sw_closed w \<or> s_failed s \<noteq> [] \<or> sw_failed w \<noteq> []"
    | (full) "\<not> sw_closed w" "s_failed s = []" "sw_failed w = []"
        "\<not> spoolAllows (s_used s) (s_count s) (int (length p)) ?new (s_options s)"
    | (go) "\<not> sw_closed w" "s_failed s = []" "sw_failed w = []"
        "spoolAllows (s_used s) (s_count s) (int (length p)) ?new (s_options s)"
    by blast
  then show ?thesis
  proof cases
    case stop
    with r i show ?thesis
      by (auto simp: Writer_Write_def writer_inv_def writer_ok_failed split: if_splits intro: frame_same)
  next
    case full
    obtain e1 d1 where m: "markIncomplete d = (e1, d1)" by (metis prod.exhaust)
    note sf = markIncomplete_same [OF m]
    from full r m have out: "w' = w\<lparr>sw_failed := Err ''network spool budget exhausted'' # e1\<rparr>" "s' = s" "d' = d1"
      by (auto simp: Writer_Write_def Let_def)
    have "writer_inv w' s d1"
      using writer_inv_same [OF sf i] writer_ok_failed [of "s_options s" d1 w] out(1) by (auto simp: writer_inv_def)
    with frame_same [OF sf, of w' w] show ?thesis by (simp add: out)
  next
    case go
    obtain e1 w1 s1 d1 where 1: "(if sw_open w \<and> ?new then seal w s d else ([], w, s, d)) = (e1, w1, s1, d1)"
      by (metis prod.exhaust)
    have "writer_inv w1 s1 d1 \<and> writer_frame w d w1 d1 \<and> sw_failed w1 = [] \<and> sw_closed w1 = sw_closed w \<and>
        s_options s1 = s_options s \<and> s_writers s1 = s_writers s \<and> s_used s1 = s_used s \<and> s_count s1 = s_count s \<and>
        (sw_open w1 \<longleftrightarrow> sw_open w \<and> \<not> ?new) \<and> (sw_open w1 \<longrightarrow> w1 = w)"
    proof (cases "sw_open w \<and> ?new")
      case True
      with 1 have "seal w s d = (e1, w1, s1, d1)" by simp
      from seal_inv [OF i this] go(3) True show ?thesis by simp
    next
      case False
      with 1 i go(3) show ?thesis by auto
    qed
    then have i1: "writer_inv w1 s1 d1" and f1: "writer_frame w d w1 d1"
      and u1: "sw_failed w1 = []" "sw_closed w1 = sw_closed w" "s_options s1 = s_options s" "s_writers s1 = s_writers s"
        "s_used s1 = s_used s" "s_count s1 = s_count s" "sw_open w1 \<longleftrightarrow> sw_open w \<and> \<not> ?new" "sw_open w1 \<Longrightarrow> w1 = w"
      by blast+
    show ?thesis
    proof (cases "e1 = []")
      case False
      then have out: "w' = w1\<lparr>sw_failed := e1\<rparr>" "s' = s1" "d' = d1"
        using r go 1 by (auto simp: Writer_Write_def Let_def split: list.splits)
      have "writer_inv w' s1 d1"
        using i1 writer_ok_failed [of "s_options s1" d1 w1 e1] False out(1) by (simp add: writer_inv_def)
      moreover have "writer_frame w d w' d1" using f1 by (simp add: out(1) writer_frame_def)
      ultimately show ?thesis using u1(2-6) by (simp add: out)
    next
      case True
      obtain e2 w2 s2 d2 where 2: "(if sw_open w1 then ([], w1, s1, d1) else new_segment w1 s1 d1) = (e2, w2, s2, d2)"
        by (metis prod.exhaust)
      have cnt: "\<not> sw_open w1 \<Longrightarrow> s_count s1 < so_MaxSegments (s_options s1)"
        using go(4) u1(3,6,7) by (auto simp: spoolAllows_def needs_segment_def)
      have "writer_inv w2 s2 d2 \<and> writer_frame w1 d1 w2 d2 \<and> (e2 = [] \<longrightarrow> sw_open w2 \<and> sw_failed w2 = []) \<and>
          sw_closed w2 = sw_closed w1 \<and> s_options s2 = s_options s1 \<and> s_writers s2 = s_writers s1 \<and> s_used s2 = s_used s1 \<and>
          (\<not> sw_open w1 \<longrightarrow> e2 = [] \<longrightarrow> sw_size w2 = 0) \<and> (sw_open w1 \<longrightarrow> w2 = w1)"
      proof (cases "sw_open w1")
        case True
        with 2 i1 u1(1) show ?thesis by auto
      next
        case False
        with 2 have "new_segment w1 s1 d1 = (e2, w2, s2, d2)" by simp
        from new_segment_inv [OF i1 False u1(1) cnt [OF False] this] False show ?thesis by simp
      qed
      then have i2: "writer_inv w2 s2 d2" and f2: "writer_frame w1 d1 w2 d2"
        and u2: "e2 = [] \<Longrightarrow> sw_open w2 \<and> sw_failed w2 = []" "sw_closed w2 = sw_closed w1" "s_options s2 = s_options s1"
          "s_writers s2 = s_writers s1" "s_used s2 = s_used s1" "\<not> sw_open w1 \<Longrightarrow> e2 = [] \<Longrightarrow> sw_size w2 = 0" "sw_open w1 \<Longrightarrow> w2 = w1"
        by blast+
      show ?thesis
      proof (cases "e2 = []")
        case False
        then have "w' = w2" "s' = s2" "d' = d2"
          using r go 1 True 2 by (auto simp: Writer_Write_def Let_def split: list.splits)
        with i2 frame_trans [OF f1 f2] u1(2-6) u2(2-5) show ?thesis by simp
      next
        case e2: True
        then have ws: "write_segment p w2 s2 d2 = ((n, e), w', s', d')"
          using r go 1 True 2 by (auto simp: Writer_Write_def Let_def)
        have sz: "sw_size w2 + int (length p) \<le> so_SegmentBytes (s_options s2)"
        proof (cases "sw_open w1")
          case True
          with u1(3,7) u1(8) [OF True] u2(3) u2(7) [OF True] show ?thesis by (auto simp: needs_segment_def)
        next
          case False
          with go(4) u1(3) u2(3) u2(6) [OF False e2] show ?thesis by (simp add: spoolAllows_def)
        qed
        have us: "s_used s2 + int (length p) \<le> so_MaxBytes (s_options s2)"
          using go(4) u1(3,5) u2(3,5) by (simp add: spoolAllows_def)
        note wi = write_segment_inv [OF i2 _ _ p sz us ws]
        from u2(1) e2 wi(1,2,6,7,8) frame_trans [OF frame_trans [OF f1 f2] wi(2)] u1(2-6) u2(2-5) show ?thesis by simp
      qed
    qed
  qed
qed

lemma Writer_Sync_inv:
  assumes i: "writer_inv w s d" and r: "Writer_Sync w d = (e, w', d')"
  shows "writer_inv w' s d' \<and> writer_frame w d w' d' \<and> sw_closed w' = sw_closed w"
proof -
  obtain e1 d1 where 1: "sys d = (e1, d1)" by (metis prod.exhaust)
  note sf = sys_same [OF 1]
  have "writer_inv (w\<lparr>sw_failed := e1\<rparr>) s d1" if "sw_failed w = []"
    using writer_inv_same [OF sf i] writer_ok_failed [of "s_options s" d1 w e1] that by (auto simp: writer_inv_def)
  with i r 1 frame_same [OF sf, of "w\<lparr>sw_failed := e1\<rparr>" w] show ?thesis
    by (auto simp: Writer_Sync_def split: if_splits)
qed

lemma Writer_Close_inv:
  assumes i: "writer_inv w s d" and r: "Writer_Close w s d = (e, w', s', d')"
  shows "writer_inv w' s' d' \<and> writer_frame w d w' d' \<and> s_options s' = s_options s \<and> sw_closed w' \<and>
    s_writers s' = s_writers s - (if sw_closed w then 0 else 1)"
proof (cases "sw_closed w")
  case True
  with r i show ?thesis by (simp add: Writer_Close_def)
next
  case False
  let ?w = "w\<lparr>sw_closed := True\<rparr>" and ?s = "s\<lparr>s_writers := s_writers s - 1\<rparr>"
  obtain e1 w1 s1 d1 where 1: "seal ?w ?s d = (e1, w1, s1, d1)" by (metis prod.exhaust)
  have "writer_inv ?w ?s d" using i by (simp add: writer_inv_def)
  note si = seal_inv [OF this 1]
  have "writer_frame w d w1 d1" using si(2) by (simp add: writer_frame_def)
  moreover have "w' = w1" "s' = s1" "d' = d1" using r False 1 by (simp_all add: Writer_Close_def)
  ultimately show ?thesis using si False by simp
qed

section \<open>All writers together\<close>

definition host_inv :: "host \<Rightarrow> bool" where
  "host_inv h \<longleftrightarrow>
     budget (h_spool h) (h_disk h) \<and> names_ok (h_disk h) \<and> sealed_whole (h_disk h) \<and>
     (\<forall>i < length (h_writers h). writer_ok (s_options (h_spool h)) (h_disk h) (h_writers h ! i)) \<and>
     (\<forall>i < length (h_writers h). \<forall>j < length (h_writers h). i \<noteq> j \<longrightarrow>
        bases (h_writers h ! i) \<inter> bases (h_writers h ! j) = {}) \<and>
     s_writers (h_spool h) = int (length (filter (\<lambda>w. \<not> sw_closed w) (h_writers h)))"

lemma host_inv_writer:
  "host_inv h \<Longrightarrow> i < length (h_writers h) \<Longrightarrow> writer_inv (h_writers h ! i) (h_spool h) (h_disk h)"
  by (simp add: host_inv_def writer_inv_def)

text \<open>The other writers do not notice.\<close>

lemma writer_ok_other:
  assumes ok: "writer_ok options d v" and f: "writer_frame w d w' d'" and disj: "bases w \<inter> bases v = {}"
  shows "writer_ok options d' v" "bases w' \<inter> bases v = {}"
proof -
  show dj: "bases w' \<inter> bases v = {}"
    using ok f disj by (auto simp: writer_ok_def writer_frame_def)
  have same: "files d' n = files d n" if "segment_base n \<in> bases v" for n
    using that dj f by (auto simp: writer_frame_def)
  have "sw_open v \<Longrightarrow> sw_history v \<noteq> [] \<Longrightarrow> last (sw_history v) = (segment_base (sw_name v), b) \<Longrightarrow>
      files d' (sw_name v) = files d (sw_name v)" for b
    by (rule same) (metis bases_def fst_conv image_eqI last_in_set)
  moreover have "files d' n = Some c \<Longrightarrow> (segment_base n, b) \<in> set (sw_history v) \<Longrightarrow> files d n = Some c" for n c b
    using same [of n] by (force simp: bases_def)
  moreover have "bases v \<inter> set (new_names d') = {}" using ok f by (auto simp: writer_ok_def writer_frame_def)
  ultimately show "writer_ok options d' v"
    using ok unfolding writer_ok_def by metis
qed

lemma count_open_update:
  assumes "i < length ws"
  shows "int (length (filter (\<lambda>w. \<not> sw_closed w) (ws[i := w']))) =
    int (length (filter (\<lambda>w. \<not> sw_closed w) ws)) + (if sw_closed (ws ! i) then 1 else 0) - (if sw_closed w' then 1 else 0)"
proof -
  have ws: "ws = take i ws @ ws ! i # drop (Suc i) ws" using assms by (simp add: id_take_nth_drop)
  have "ws[i := w'] = take i ws @ w' # drop (Suc i) ws" using assms by (simp add: upd_conv_take_nth_drop)
  moreover have "length (filter (\<lambda>w. \<not> sw_closed w) ws) =
      length (filter (\<lambda>w. \<not> sw_closed w) (take i ws)) + (if sw_closed (ws ! i) then 0 else 1) +
      length (filter (\<lambda>w. \<not> sw_closed w) (drop (Suc i) ws))"
    by (subst ws) simp
  ultimately show ?thesis by simp
qed

lemma host_inv_step:
  assumes i: "host_inv h" and n: "i < length (h_writers h)"
    and wi: "writer_inv w' s' d'" and f: "writer_frame (h_writers h ! i) (h_disk h) w' d'"
    and o: "s_options s' = s_options (h_spool h)"
    and c: "s_writers s' = s_writers (h_spool h) + (if sw_closed (h_writers h ! i) then 1 else 0) - (if sw_closed w' then 1 else 0)"
  shows "host_inv (h\<lparr>h_spool := s', h_disk := d', h_writers := (h_writers h)[i := w']\<rparr>)"
proof -
  let ?ws = "h_writers h"
  have oth: "writer_ok (s_options s') d' (?ws ! j) \<and> bases w' \<inter> bases (?ws ! j) = {}" if "j < length ?ws" "j \<noteq> i" for j
  proof -
    have "writer_ok (s_options s') (h_disk h) (?ws ! j)" "bases (?ws ! i) \<inter> bases (?ws ! j) = {}"
      using i that n o by (auto simp: host_inv_def)
    from writer_ok_other [OF this(1) f this(2)] show ?thesis by simp
  qed
  have "writer_ok (s_options s') d' (?ws[i := w'] ! j)" if "j < length ?ws" for j
    using oth that wi n by (cases "j = i") (auto simp: writer_inv_def)
  moreover have "bases (?ws[i := w'] ! j) \<inter> bases (?ws[i := w'] ! k) = {}"
    if "j < length ?ws" "k < length ?ws" "j \<noteq> k" for j k
    using i oth that n by (cases "j = i"; cases "k = i") (auto simp: host_inv_def)
  moreover have "budget s' d'" "names_ok d'" "sealed_whole d'" using wi by (simp_all add: writer_inv_def)
  ultimately show ?thesis
    using i c count_open_update [OF n, of w'] by (simp add: host_inv_def)
qed

text \<open>The operations on a host: those of the writers, a new writer, an acknowledgment, the listing and the close of the
  spool.\<close>

datatype host_op =
    HWrite nat bytes
  | HSync nat
  | HClose nat
  | HOpen
  | HAck string string
  | HSegments
  | HSpoolClose

definition on_spool :: "(Spool \<Rightarrow> disk \<Rightarrow> 'a \<times> Spool \<times> disk) \<Rightarrow> host \<Rightarrow> 'a \<times> host" where
  "on_spool f h = (let (x, s, d) = f (h_spool h) (h_disk h) in (x, h\<lparr>h_spool := s, h_disk := d\<rparr>))"

definition host_do :: "jstd \<Rightarrow> host_op \<Rightarrow> host \<Rightarrow> host" where
  "host_do L x h = (case x of
     HWrite i p \<Rightarrow> snd (host_Write i p h)
   | HSync i \<Rightarrow> snd (host_Sync i h)
   | HClose i \<Rightarrow> snd (host_Close i h)
   | HOpen \<Rightarrow> if s_closed (h_spool h) \<or> s_failed (h_spool h) \<noteq> [] then h else add_writer h
   | HAck name digest \<Rightarrow> snd (on_spool (acknowledge L name digest) h)
   | HSegments \<Rightarrow> snd (on_spool (\<lambda>s d. let (r, d) = Segments L s d in (r, s, d)) h)
   | HSpoolClose \<Rightarrow> snd (on_spool Spool_Close h))"

definition host_run :: "jstd \<Rightarrow> host_op list \<Rightarrow> host \<Rightarrow> host" where
  "host_run L xs h = fold (host_do L) xs h"

text \<open>Journals write whole lines.\<close>

definition op_whole :: "host_op \<Rightarrow> bool" where
  "op_whole x = (case x of HWrite i p \<Rightarrow> whole p | _ \<Rightarrow> True)"

lemma host_inv_same:
  assumes "host_inv h" "same_files (h_disk h) d'" "budget s' (h_disk h)" "s_options s' = s_options (h_spool h)"
    "s_writers s' = s_writers (h_spool h)"
  shows "host_inv (h\<lparr>h_spool := s', h_disk := d'\<rparr>)"
  using assms same_files_inv [OF assms(2)] by (simp add: host_inv_def)

lemma list_segments_same: "list_segments L es d = (r, d') \<Longrightarrow> same_files d d'"
proof (induction es arbitrary: d r d')
  case (Cons e es)
  obtain name x where e: "e = (name, x)" by (metis prod.exhaust)
  show ?case
  proof (cases "\<not> segmentName name \<or> has_suffix name ''.active''")
    case True
    with Cons e show ?thesis by simp
  next
    case False
    obtain q d1 where r: "fs_read name d = (q, d1)" by (metis prod.exhaust)
    obtain q2 d2 where l: "list_segments L es d1 = (q2, d2)" by (metis prod.exhaust)
    note s = fs_read_same [OF r] and s2 = same_files_trans [OF fs_read_same [OF r] Cons.IH [OF l]]
    from Cons.prems False e r l s s2 show ?thesis by (auto split: sum.splits)
  qed
qed simp

lemma Segments_same: "Segments L s d = (r, d') \<Longrightarrow> same_files d d'"
  by (auto simp: Segments_def split: if_splits prod.splits dest!: sys_same list_segments_same intro: same_files_trans)

lemma writer_ok_fewer:
  assumes ok: "writer_ok options d w" and nn: "new_names d' = new_names d"
    and fewer: "\<And>m c. files d' m = Some c \<Longrightarrow> files d m = Some c"
    and cur: "segment_ext (sw_name w) = ''active'' \<Longrightarrow> files d' (sw_name w) = files d (sw_name w)"
  shows "writer_ok options d' w"
  unfolding writer_ok_def
proof (intro conjI impI allI)
  assume "sw_open w"
  with ok cur show "\<exists>b. files d' (sw_name w) = Some b \<and> int (length b) = sw_size w \<and> sw_size w \<le> so_SegmentBytes options \<and>
      segment_ext (sw_name w) = ''active'' \<and> (sw_failed w = [] \<longrightarrow> whole b) \<and>
      sw_history w \<noteq> [] \<and> last (sw_history w) = (segment_base (sw_name w), b)"
    by (auto simp: writer_ok_def)
next
  fix n c b assume "files d' n = Some c" "(segment_base n, b) \<in> set (sw_history w)"
  moreover from this(1) have "files d n = Some c" by (rule fewer)
  moreover have "\<forall>n c b. files d n = Some c \<longrightarrow> (segment_base n, b) \<in> set (sw_history w) \<longrightarrow> c = b"
    using ok by (simp add: writer_ok_def)
  ultimately show "c = b" by blast
qed (use ok nn in \<open>simp_all add: writer_ok_def\<close>)

lemma files_remove_inv:
  assumes i: "host_inv h" and n: "files (h_disk h) n = Some b" "segment_ext n \<noteq> ''active''"
    and f: "files d' = (files (h_disk h))(n := None)" "dk_ids d' = dk_ids (h_disk h)"
  shows "host_inv (h\<lparr>h_spool := (h_spool h)\<lparr>s_used := s_used (h_spool h) - int (length b), s_count := s_count (h_spool h) - 1\<rparr>,
    h_disk := d'\<rparr>)"
proof -
  let ?d = "h_disk h" and ?s = "h_spool h"
  have sub: "dom (files d') \<subseteq> dom (files ?d)" using f(1) by auto
  have nn: "new_names d' = new_names ?d" by (simp add: new_names_def f(2))
  have wk: "writer_ok (s_options ?s) d' w" if "writer_ok (s_options ?s) ?d w" for w
    by (rule writer_ok_fewer [OF that nn]) (use n(2) f(1) in \<open>auto split: if_splits\<close>)
  have "total_size (files d') = total_size (files ?d) - int (length b)"
    "int (card (dom (files d'))) = int (card (dom (files ?d))) - 1"
    using total_size_remove [of "files ?d" n b] card_remove [of "files ?d" n b] n(1) by (simp_all only: f(1) finite_files)
  moreover have "budget ?s ?d" using i by (simp add: host_inv_def)
  ultimately have "budget (?s\<lparr>s_used := s_used ?s - int (length b), s_count := s_count ?s - 1\<rparr>) d'"
    by (simp add: budget_def)
  moreover have "names_ok d'"
    using i sub nn f(2) by (auto simp: host_inv_def names_ok_def intro: inj_on_subset)
  moreover have "sealed_whole d'" using i f(1) by (auto simp: host_inv_def sealed_whole_def)
  moreover have "\<forall>k < length (h_writers h). writer_ok (s_options ?s) d' (h_writers h ! k)"
    using i wk by (simp add: host_inv_def)
  ultimately show ?thesis using i by (simp add: host_inv_def)
qed

lemma acknowledge_inv:
  assumes i: "host_inv h" and r: "acknowledge L name digest (h_spool h) (h_disk h) = (e, s', d')"
  shows "host_inv (h\<lparr>h_spool := s', h_disk := d'\<rparr>)"
proof -
  let ?s = "h_spool h" and ?d = "h_disk h"
  have b: "budget ?s ?d" using i by (simp add: host_inv_def)
  have keep: "host_inv (h\<lparr>h_spool := ?s, h_disk := d1\<rparr>)" if "same_files ?d d1" for d1
    by (rule host_inv_same [OF i that b]) simp_all
  obtain c1 d1 where 1: "cancelled ?d = (c1, d1)" by (metis prod.exhaust)
  obtain q d2 where 2: "fs_read name d1 = (q, d2)" by (metis prod.exhaust)
  obtain c2 d3 where 3: "cancelled d2 = (c2, d3)" by (metis prod.exhaust)
  obtain e4 d4 where 4: "fs_remove name d3 = (e4, d4)" by (metis prod.exhaust)
  note s1 = cancelled_same [OF 1]
  note s2 = same_files_trans [OF s1 fs_read_same [OF 2]]
  note s3 = same_files_trans [OF s2 cancelled_same [OF 3]]
  consider (early) "s' = ?s" "same_files ?d d'"
    | (rm) x where "segmentName name" "\<not> has_suffix name ''.active''" "q = Inr x"
        "fs_remove name d3 = (e4, d4)"
        "(e4 \<noteq> [] \<and> s' = ?s \<and> d' = d4) \<or>
         (e4 = [] \<and> syncDir (?s\<lparr>s_used := s_used ?s - int (length x), s_count := s_count ?s - 1\<rparr>) d4 = (e, s', d'))"
    using r 1 2 3 4 s1 s2 s3 by (auto simp: acknowledge_def split: if_splits sum.splits)
  then show ?thesis
  proof cases
    case early
    with keep [OF early(2)] show ?thesis by simp
  next
    case rm
    note fr = fs_remove_files [OF rm(4,1)]
    have x: "files ?d name = Some x"
    proof -
      have "entry_at d1 name = Some (EFile x)" using fs_read_content [of name d1 x d2] 2 rm(3) by simp
      then have "files d1 name = Some x" using rm(1) by (simp add: files_def)
      with s1 show ?thesis by (simp add: same_files_def)
    qed
    have ext: "segment_ext name \<noteq> ''active''" using active_suffix [OF rm(1)] rm(2) by simp
    from rm(5) show ?thesis
    proof
      assume "e4 \<noteq> [] \<and> s' = ?s \<and> d' = d4"
      moreover from this have "same_files ?d d4" using fr(1,2) s3 by (simp add: same_files_def)
      ultimately show ?thesis using keep by simp
    next
      let ?s1 = "?s\<lparr>s_used := s_used ?s - int (length x), s_count := s_count ?s - 1\<rparr>"
      assume y: "e4 = [] \<and> syncDir ?s1 d4 = (e, s', d')"
      then have f: "files d4 = (files ?d)(name := None)" "dk_ids d4 = dk_ids ?d" using fr s3 by (simp_all add: same_files_def)
      have i4: "host_inv (h\<lparr>h_spool := ?s1, h_disk := d4\<rparr>)" by (rule files_remove_inv [OF i x ext f])
      have sy: "same_files d4 d'" "s' = ?s1\<lparr>s_failed := e\<rparr>" using y syncDir_same syncDir_spool by blast+
      have "budget ?s1 d4" using i4 by (simp add: host_inv_def)
      then have "budget s' d4" by (simp add: sy(2))
      with host_inv_same [OF i4, of d' s'] sy show ?thesis by simp
    qed
  qed
qed

lemma host_do_inv:
  assumes i: "host_inv h" and w: "op_whole x"
  shows "host_inv (host_do L x h)"
proof (cases x)
  case (HWrite k p)
  show ?thesis
  proof (cases "k < length (h_writers h)")
    case True
    obtain n e w' s' d' where r: "Writer_Write p (h_writers h ! k) (h_spool h) (h_disk h) = ((n, e), w', s', d')"
      by (metis prod.exhaust)
    from Writer_Write_inv [OF host_inv_writer [OF i True] _ r] w HWrite
    have "writer_inv w' s' d' \<and> writer_frame (h_writers h ! k) (h_disk h) w' d' \<and> sw_closed w' = sw_closed (h_writers h ! k) \<and>
      s_options s' = s_options (h_spool h) \<and> s_writers s' = s_writers (h_spool h)" by (simp add: op_whole_def)
    with host_inv_step [OF i True, of w' s' d'] HWrite True r show ?thesis
      by (simp add: host_do_def host_Write_def on_writer_def)
  qed (use i HWrite in \<open>simp add: host_do_def host_Write_def\<close>)
next
  case (HSync k)
  show ?thesis
  proof (cases "k < length (h_writers h)")
    case True
    obtain e w' d' where r: "Writer_Sync (h_writers h ! k) (h_disk h) = (e, w', d')" by (metis prod.exhaust)
    from Writer_Sync_inv [OF host_inv_writer [OF i True] r] host_inv_step [OF i True, of w' "h_spool h" d'] HSync True r
    show ?thesis by (simp add: host_do_def host_Sync_def on_writer_def)
  qed (use i HSync in \<open>simp add: host_do_def host_Sync_def\<close>)
next
  case (HClose k)
  show ?thesis
  proof (cases "k < length (h_writers h)")
    case True
    obtain e w' s' d' where r: "Writer_Close (h_writers h ! k) (h_spool h) (h_disk h) = (e, w', s', d')" by (metis prod.exhaust)
    from Writer_Close_inv [OF host_inv_writer [OF i True] r] host_inv_step [OF i True, of w' s' d'] HClose True r
    show ?thesis by (simp add: host_do_def host_Close_def on_writer_def split: if_splits)
  qed (use i HClose in \<open>simp add: host_do_def host_Close_def\<close>)
next
  case HOpen
  have "writer_ok options d new_writer" for options d by (simp add: writer_ok_def new_writer_def bases_def)
  moreover have "bases new_writer = {}" "\<not> sw_closed new_writer" by (simp_all add: new_writer_def bases_def)
  ultimately have "host_inv (add_writer h)"
    using i by (auto simp: host_inv_def add_writer_def nth_append less_Suc_eq)
  with i HOpen show ?thesis by (simp add: host_do_def)
next
  case (HAck name digest)
  with acknowledge_inv [OF i] show ?thesis by (simp add: host_do_def on_spool_def split: prod.splits)
next
  case HSegments
  obtain q d' where r: "Segments L (h_spool h) (h_disk h) = (q, d')" by (metis prod.exhaust)
  have "budget (h_spool h) (h_disk h)" using i by (simp add: host_inv_def)
  with host_inv_same [OF i Segments_same [OF r], of "h_spool h"] HSegments r show ?thesis by (simp add: host_do_def on_spool_def)
next
  case HSpoolClose
  obtain e s' d' where r: "Spool_Close (h_spool h) (h_disk h) = (e, s', d')" by (metis prod.exhaust)
  have "same_files (h_disk h) d'" using r
    by (auto simp: Spool_Close_def split: if_splits prod.splits dest!: sys_same intro: same_files_trans)
  moreover have "budget s' (h_disk h)" "s_options s' = s_options (h_spool h)" "s_writers s' = s_writers (h_spool h)"
    using i r by (auto simp: Spool_Close_def host_inv_def budget_def split: if_splits prod.splits)
  ultimately show ?thesis using host_inv_same [OF i] HSpoolClose r by (simp add: host_do_def on_spool_def)
qed

lemma host_run_inv: "host_inv h \<Longrightarrow> list_all op_whole xs \<Longrightarrow> host_inv (host_run L xs h)"
  unfolding host_run_def by (induction xs arbitrary: h) (simp_all add: host_do_inv)

section \<open>Recovery\<close>

lemma fs_append_control: "fs_append n p d = (r, d') \<Longrightarrow> \<not> segmentName n \<Longrightarrow> same_files d d'"
  by (auto simp: fs_append_def Let_def same_files_def files_put split: prod.splits option.splits direntry.splits list.splits)

lemma lockSpool_same: "lockSpool d = (e, d') \<Longrightarrow> same_files d d'"
  by (auto simp: lockSpool_def Let_def same_files_def files_put
      split: prod.splits if_splits option.splits direntry.splits dest!: sys_same)

lemma open_marker_same:
  assumes "open_marker d = (e, d')"
  shows "same_files d d'"
proof -
  have put: "same_files x (put_entry ''.incomplete'' (EFile b) x)" for x b by (simp add: same_files_def files_put)
  have app: "same_files x (snd (fs_append ''.incomplete'' p x))" for p x
    by (metis control_name(1) fs_append_control prod.exhaust_sel)
  have sy: "same_files x (snd (sys x))" and oc: "same_files x (snd (open_control n x))" for x n
    by (metis prod.exhaust_sel sys_same, metis prod.exhaust_sel open_control_same)
  from assms show ?thesis
    unfolding open_marker_def Let_def
    using put app sy oc
    by (auto split: prod.splits if_splits sum.splits simp: same_files_def dest!: sys_same open_control_same fs_append_control [OF _ control_name(1)] simp: files_put)
qed

lemma distinct_put: "distinct (map fst (dk_entries d)) \<Longrightarrow> distinct (map fst (dk_entries (put_entry n x d)))"
  by (simp add: put_entry_def distinct_update)

text \<open>The name under which a segment is found after recovery.\<close>

definition recovered :: "string \<Rightarrow> string" where
  "recovered n = (if segment_ext n = ''active'' then segment_base n @ ''.incomplete'' else n)"

text \<open>The segments that the scan has counted, when the entries \<open>es\<close> remain.\<close>

definition counted :: "(string \<times> direntry) list \<Rightarrow> disk \<Rightarrow> string \<Rightarrow> bytes option" where
  "counted es d = files d |` (- fst ` set es)"

definition scan_inv :: "(string \<times> direntry) list \<Rightarrow> Spool \<Rightarrow> disk \<Rightarrow> bool" where
  "scan_inv es s d \<longleftrightarrow>
     distinct (map fst es) \<and> (\<forall>(n, x) \<in> set es. segmentName n \<longrightarrow> entry_at d n = Some x \<and> (\<exists>b. x = EFile b)) \<and>
     names_ok d \<and> sealed_whole d \<and> s_used s = 1 + total_size (counted es d) \<and>
     s_count s = int (card (dom (counted es d))) \<and> s_used s \<le> so_MaxBytes (s_options s) \<and>
     (\<forall>n \<in> dom (counted es d). segment_ext n \<noteq> ''active'')"

lemma finite_counted: "finite (dom (counted es d))"
  by (rule finite_subset [OF _ finite_files]) (auto simp: counted_def)

lemma scan_regular: "scan_entries es s d = ([], s', d') \<Longrightarrow> (n, x) \<in> set es \<Longrightarrow> segmentName n \<Longrightarrow> \<exists>b. x = EFile b"
  by (induction es s d rule: scan_entries.induct)
    (auto split: if_splits direntry.splits prod.splits list.splits)

definition kept :: "disk \<Rightarrow> disk \<Rightarrow> bool" where
  "kept d d' \<longleftrightarrow> (\<forall>n c. files d n = Some c \<longrightarrow> files d' n = Some c \<or> files d' (recovered n) = Some c)"

lemma recovered_idem: "segmentName n \<Longrightarrow> recovered (recovered n) = recovered n"
  using renamed(3) [of n "''incomplete''"] by (simp add: recovered_def)

lemma kept_trans:
  assumes "kept a b" "kept b c"
  shows "kept a c"
proof -
  have "files c n = Some x \<or> files c (recovered n) = Some x" if "files a n = Some x" for n x
  proof -
    have n: "segmentName n" using files_SomeD [OF that] by simp
    from assms(1) that have "files b n = Some x \<or> files b (recovered n) = Some x" by (simp add: kept_def)
    with assms(2) recovered_idem [OF n] show ?thesis unfolding kept_def by metis
  qed
  then show ?thesis by (simp add: kept_def)
qed

lemma kept_same: "same_files d d' \<Longrightarrow> kept d d'"
  by (simp add: kept_def same_files_def)

lemma counted_cons:
  assumes "files d n = Some b" "n \<notin> fst ` set es"
  shows "counted es d = (counted ((n, x) # es) d)(n \<mapsto> b)" "counted ((n, x) # es) d n = None"
  using assms by (auto simp: counted_def restrict_map_def fun_eq_iff)

lemma counted_size:
  assumes "files d n = Some b" "n \<notin> fst ` set es"
  shows "total_size (counted es d) = total_size (counted ((n, x) # es) d) + int (length b)"
    "card (dom (counted es d)) = card (dom (counted ((n, x) # es) d)) + 1"
proof -
  let ?m = "counted ((n, x) # es) d"
  have "?m n = None" "counted es d = ?m(n \<mapsto> b)" using counted_cons [OF assms, of x] by blast+
  then show "total_size (counted es d) = total_size ?m + int (length b)" "card (dom (counted es d)) = card (dom ?m) + 1"
    using total_size_new [of ?m n b] card_new [of ?m n b] finite_counted by metis+
qed

lemma scan_inv_same: "same_files d d' \<Longrightarrow> (\<And>n. segmentName n \<Longrightarrow> entry_at d' n = entry_at d n) \<Longrightarrow> scan_inv es s d \<Longrightarrow> scan_inv es s d'"
proof -
  assume s: "same_files d d'" and e: "\<And>n. segmentName n \<Longrightarrow> entry_at d' n = entry_at d n" and i: "scan_inv es s d"
  have "counted es d' = counted es d" using s by (simp add: counted_def same_files_def)
  moreover have "\<forall>(n, x) \<in> set es. segmentName n \<longrightarrow> entry_at d' n = Some x \<and> (\<exists>b. x = EFile b)"
    using i e by (auto simp: scan_inv_def)
  ultimately show ?thesis using i same_files_inv [OF s] by (simp add: scan_inv_def)
qed

lemma markIncomplete_entries: "markIncomplete d = (e, d') \<Longrightarrow> segmentName n \<Longrightarrow> entry_at d' n = entry_at d n"
proof -
  assume m: "markIncomplete d = (e, d')" and s: "segmentName n"
  then have ne: "n \<noteq> ''.incomplete''" by auto
  have sy: "entry_at x' n = entry_at x n" if "sys x = (a, x')" for x x' a
    using sys_entries [OF that] by (simp add: entry_at_def)
  have wr: "entry_at (x\<lparr>dk_writes := y\<rparr>) n = entry_at x n" for x y by (simp add: entry_at_def)
  have oc: "entry_at x' n = entry_at x n" if "open_control k x = (r, x')" for k x x' r
    using that sy by (auto simp: open_control_def split: prod.splits if_splits option.splits direntry.splits)
  from m ne show ?thesis
    by (auto simp: markIncomplete_def Let_def wr split: prod.splits sum.splits if_splits list.splits dest!: oc sy)
qed

lemma scan_segment_inv:
  assumes i: "scan_inv ((n, EFile b) # es) s d" and n: "segmentName n"
    and r: "scan_segment n s d = ([], s', d')"
  shows "scan_inv es s' d' \<and> kept d d' \<and> s_options s' = s_options s \<and> s_writers s' = s_writers s \<and>
    s_failed s' = s_failed s \<and> s_closed s' = s_closed s"
proof -
  obtain d1 where 1: "sys d = ([], d1)" using r by (auto simp: scan_segment_def split: prod.splits if_splits)
  note sf = sys_same [OF 1]
  let ?s = "s\<lparr>s_used := s_used s + int (length b), s_count := s_count s + 1\<rparr>"
  have i1: "scan_inv ((n, EFile b) # es) s d1"
    by (rule scan_inv_same [OF sf _ i]) (use sys_entries [OF 1] in \<open>simp add: entry_at_def\<close>)
  have e1: "entry_at d1 n = Some (EFile b)" "n \<notin> fst ` set es" "distinct (map fst es)" using i1 n by (auto simp: scan_inv_def)
  have f1: "files d1 n = Some b" using e1(1) n by (simp add: files_def)
  have fit: "\<not> int (length b) > so_MaxBytes (s_options s) - s_used s"
    using r 1 e1(1) by (auto simp: scan_segment_def split: if_splits)
  note cs = counted_size [OF f1 e1(2), of "EFile b"]
  show ?thesis
  proof (cases "has_suffix n ''.active''")
    case False
    then have out: "s' = ?s" "d' = d1" using r 1 fit e1(1) by (auto simp: scan_segment_def)
    have "segment_ext n \<noteq> ''active''" using active_suffix [OF n] False by simp
    moreover have "dom (counted es d1) = insert n (dom (counted ((n, EFile b) # es) d1))"
      using counted_cons(1) [OF f1 e1(2), of "EFile b"] by (metis dom_fun_upd option.distinct(1))
    ultimately have "scan_inv es ?s d1" using i1 cs fit by (auto simp: scan_inv_def)
    with out kept_same [OF sf] show ?thesis by simp
  next
    case True
    have ext: "segment_ext n = ''active''" using active_suffix [OF n] True by simp
    note tr = trim_active_base [OF n ext]
    let ?m = "segment_base n @ ''.incomplete''"
    have rn: "segmentName ?m" "segment_base ?m = segment_base n" "segment_ext ?m = ''incomplete''"
      using renamed [OF n, of "''incomplete''"] by simp_all
    obtain d2 where 2: "fs_rename n ?m d1 = ([], d2)" and 3: "markIncomplete d2 = ([], d')" and out: "s' = ?s"
      using r 1 fit True tr e1(1) by (auto simp: scan_segment_def Let_def split: prod.splits if_splits)
    note fr = fs_rename_files [OF 2 f1 rn(1)]
    have f2: "files d2 = ((files d1)(n := None))(?m \<mapsto> b)" "dk_ids d2 = dk_ids d1" using fr by simp_all
    have ne: "?m \<noteq> n" using rn(3) ext by auto
    have inj: "inj_on segment_base (dom (files d1))" using i1 by (simp add: scan_inv_def names_ok_def)
    have m1: "files d1 ?m = None"
    proof (rule ccontr)
      assume "files d1 ?m \<noteq> None"
      with f1 have "?m \<in> dom (files d1)" "n \<in> dom (files d1)" by auto
      with inj rn(2) ne show False by (auto dest: inj_onD)
    qed
    have mes: "?m \<notin> fst ` set es"
    proof
      assume "?m \<in> fst ` set es"
      then obtain x where "(?m, x) \<in> set es" by auto
      with i1 rn(1) obtain c where "entry_at d1 ?m = Some (EFile c)" by (auto simp: scan_inv_def)
      with rn(1) m1 show False by (simp add: files_def)
    qed
    have ent: "entry_at d2 k = entry_at d1 k" if "k \<noteq> n" "k \<noteq> ?m" for k
      using 2 that sys_entries by (auto simp: fs_rename_def entry_at_def update_conv' delete_conv' split: prod.splits if_splits option.splits)
    have c2: "counted es d2 = (counted ((n, EFile b) # es) d1)(?m \<mapsto> b)"
      using f2(1) mes ne e1(2) by (auto simp: counted_def restrict_map_def fun_eq_iff)
    have cm: "counted ((n, EFile b) # es) d1 ?m = None" using m1 by (simp add: counted_def restrict_map_def)
    have sz: "total_size (counted es d2) = total_size (counted ((n, EFile b) # es) d1) + int (length b)"
      "card (dom (counted es d2)) = card (dom (counted ((n, EFile b) # es) d1)) + 1"
      using total_size_new [of "counted ((n, EFile b) # es) d1" ?m b] card_new [of "counted ((n, EFile b) # es) d1" ?m b]
        finite_counted cm unfolding c2 by blast+
    have dom2: "dom (files d2) = insert ?m (dom (files d1) - {n})" using f2(1) ne by auto
    have img: "segment_base ` dom (files d2) = segment_base ` dom (files d1)"
      using dom2 rn(2) f1 by (auto simp: image_iff)
    have "inj_on segment_base (dom (files d2))" unfolding dom2 using inj rn(2) f1 by (auto simp: inj_on_def)
    then have "names_ok d2" using i1 img f2(2) by (simp add: scan_inv_def names_ok_def new_names_def)
    moreover have "sealed_whole d2" using i1 f2(1) rn(3) by (auto simp: scan_inv_def sealed_whole_def)
    moreover have "\<forall>(k, x) \<in> set es. segmentName k \<longrightarrow> entry_at d2 k = Some x \<and> (\<exists>c. x = EFile c)"
    proof (intro ballI, clarify)
      fix k x assume k: "(k, x) \<in> set es" "segmentName k"
      then have "k \<noteq> n" "k \<noteq> ?m" using e1(2) mes by force+
      moreover have "entry_at d1 k = Some x \<and> (\<exists>c. x = EFile c)" using i1 k by (auto simp: scan_inv_def)
      ultimately show "entry_at d2 k = Some x \<and> (\<exists>c. x = EFile c)" using ent by simp
    qed
    moreover have "\<forall>k \<in> dom (counted es d2). segment_ext k \<noteq> ''active''"
      using i1 rn(3) unfolding c2 by (auto simp: scan_inv_def)
    ultimately have "scan_inv es ?s d2" using i1 sz fit e1(3) by (simp add: scan_inv_def)
    then have "scan_inv es ?s d'"
      using scan_inv_same [OF markIncomplete_same [OF 3] markIncomplete_entries [OF 3]] by blast
    moreover have "kept d1 d2"
    proof -
      have "files d2 k = Some c \<or> files d2 (recovered k) = Some c" if "files d1 k = Some c" for k c
        using that f1 f2(1) m1 ext by (cases "k = n") (auto simp: recovered_def)
      then show ?thesis by (simp add: kept_def)
    qed
    then have "kept d d'"
      using kept_trans [OF kept_trans [OF kept_same [OF sf]] kept_same [OF markIncomplete_same [OF 3]]] by blast
    ultimately show ?thesis by (simp add: out)
  qed
qed

lemma scan_inv_skip:
  assumes "scan_inv ((n, x) # es) s d" "\<not> segmentName n"
  shows "scan_inv es s d"
proof -
  have "counted es d = counted ((n, x) # es) d"
    using assms(2) by (auto simp: counted_def restrict_map_def fun_eq_iff files_def)
  with assms show ?thesis by (auto simp: scan_inv_def)
qed

lemma scan_entries_inv:
  assumes "scan_inv es s d" "scan_entries es s d = ([], s', d')"
  shows "scan_inv [] s' d' \<and> kept d d' \<and> s_options s' = s_options s \<and> s_writers s' = s_writers s \<and>
    s_failed s' = s_failed s \<and> s_closed s' = s_closed s"
  using assms
proof (induction es arbitrary: s d)
  case Nil
  then show ?case by (simp add: kept_same)
next
  case (Cons e es)
  obtain n x where e: "e = (n, x)" by (metis prod.exhaust)
  show ?case
  proof (cases "segmentName n")
    case False
    then have "scan_entries es s d = ([], s', d')"
      using Cons.prems(2) by (auto simp: e split: if_splits direntry.splits)
    with Cons.IH [OF scan_inv_skip [OF Cons.prems(1) [unfolded e] False]] show ?thesis by simp
  next
    case True
    then have nc: "n \<noteq> ''.custody''" "n \<noteq> ''.lock''" "n \<noteq> ''.incomplete''" by auto
    obtain b where x: "x = EFile b" using Cons.prems(1) True by (auto simp: e scan_inv_def)
    obtain s1 d1 where 1: "scan_segment n s d = ([], s1, d1)" "scan_entries es s1 d1 = ([], s', d')"
      using Cons.prems(2) nc True by (auto simp: e x split: prod.splits list.splits)
    note si = scan_segment_inv [OF Cons.prems(1) [unfolded e x] True 1(1)]
    with Cons.IH [OF _ 1(2)] kept_trans show ?thesis by auto
  qed
qed

lemma openSpool_steps:
  assumes "openSpool directory options custody d = (Inr s, d')"
  obtains d1 d2 d3 s4 d4 where "options_ok options" "lockSpool d = ([], d1)" "open_marker d1 = ([], d2)" "sys d2 = ([], d3)"
    "scan_entries (dk_entries d3) (new_spool options custody) d3 = ([], s4, d4)"
    "s_count s4 \<le> so_MaxSegments options" "syncDir s4 d4 = ([], s, d')"
  using assms by (auto simp: openSpool_def split: prod.splits if_splits)

lemma lockSpool_distinct:
  "lockSpool d = (e, d') \<Longrightarrow> distinct (map fst (dk_entries d)) \<Longrightarrow> distinct (map fst (dk_entries d'))"
  by (auto simp: lockSpool_def distinct_put split: prod.splits if_splits option.splits direntry.splits dest!: sys_entries)

lemma fs_append_distinct:
  "fs_append n p d = (r, d') \<Longrightarrow> distinct (map fst (dk_entries d)) \<Longrightarrow> distinct (map fst (dk_entries d'))"
  by (auto simp: fs_append_def Let_def intro!: distinct_put split: prod.splits option.splits direntry.splits list.splits)

lemma open_marker_distinct:
  "open_marker d = (e, d') \<Longrightarrow> distinct (map fst (dk_entries d)) \<Longrightarrow> distinct (map fst (dk_entries d'))"
  unfolding open_marker_def open_control_def
  by (auto simp: Let_def distinct_put split: prod.splits if_splits sum.splits option.splits direntry.splits
      dest!: sys_entries fs_append_distinct)

lemma openSpool_inv:
  assumes r: "openSpool directory options custody d = (Inr s, d')" and di: "distinct (map fst (dk_entries d))"
    and ok: "names_ok d" "sealed_whole d"
  shows "host_inv \<lparr>h_spool = s, h_disk = d', h_writers = []\<rparr>" "s_options s = options" "\<not> s_closed s" "s_failed s = []"
    "files d n = Some b \<Longrightarrow> files d' (recovered n) = Some b"
proof -
  from r obtain d1 d2 d3 s4 d4 where st: "options_ok options" "lockSpool d = ([], d1)" "open_marker d1 = ([], d2)" "sys d2 = ([], d3)"
    "scan_entries (dk_entries d3) (new_spool options custody) d3 = ([], s4, d4)"
    "s_count s4 \<le> so_MaxSegments options" "syncDir s4 d4 = ([], s, d')" by (rule openSpool_steps)
  have sf: "same_files d d3"
    using same_files_trans [OF same_files_trans [OF lockSpool_same [OF st(2)] open_marker_same [OF st(3)]] sys_same [OF st(4)]] .
  have d3: "distinct (map fst (dk_entries d3))"
    using open_marker_distinct [OF st(3) lockSpool_distinct [OF st(2) di]] sys_entries [OF st(4)] by simp
  have none: "counted (dk_entries d3) d3 = Map.empty"
  proof -
    have "dom (files d3) \<subseteq> fst ` set (dk_entries d3)"
      by (auto simp: files_def entry_at_def dest!: map_of_SomeD split: if_splits option.splits direntry.splits) force
    then show ?thesis by (auto simp: counted_def restrict_map_def fun_eq_iff)
  qed
  have "scan_inv (dk_entries d3) (new_spool options custody) d3"
  proof -
    have "entry_at d3 k = Some x" if "(k, x) \<in> set (dk_entries d3)" for k x
      using d3 that by (simp add: entry_at_def)
    then have "\<forall>(k, x) \<in> set (dk_entries d3). segmentName k \<longrightarrow> entry_at d3 k = Some x \<and> (\<exists>b. x = EFile b)"
      using scan_regular [OF st(5)] by blast
    with d3 ok same_files_inv [OF sf] none st(1) show ?thesis
      by (simp add: scan_inv_def new_spool_def total_size_def options_ok_def)
  qed
  from scan_entries_inv [OF this st(5)] have si: "scan_inv [] s4 d4" "kept d3 d4" "s_options s4 = options" "s_writers s4 = 0"
      "s_failed s4 = []" "\<not> s_closed s4"
    by (simp_all add: new_spool_def)
  note sy = syncDir_same [OF st(7)] and ss = syncDir_spool [OF st(7)]
  have all: "counted [] d4 = files d4" by (simp add: counted_def restrict_map_def)
  have "budget s4 d4" using si st(1,6) all by (simp add: scan_inv_def budget_def)
  with si(1) same_files_inv [OF sy] ss have "budget s d'" "names_ok d'" "sealed_whole d'" by (auto simp: scan_inv_def)
  with si(4) ss show "host_inv \<lparr>h_spool = s, h_disk = d', h_writers = []\<rparr>" by (simp add: host_inv_def)
  show "s_options s = options" "\<not> s_closed s" "s_failed s = []" using si ss by simp_all
  show "files d' (recovered n) = Some b" if f: "files d n = Some b"
  proof -
    have f4: "files d3 n = Some b" "files d' = files d4" using f sf sy by (simp_all add: same_files_def)
    from si(2) f4(1) have "files d4 n = Some b \<or> files d4 (recovered n) = Some b" by (simp add: kept_def)
    moreover have "segment_ext n \<noteq> ''active''" if "files d4 n = Some b"
      using si(1) that all by (auto simp: scan_inv_def)
    ultimately show ?thesis using f4(2) by (auto simp: recovered_def)
  qed
qed

section \<open>Properties\<close>

text \<open>(C26) The spool stays within its budget and its books are right: after a successful \<open>openSpool\<close> of a directory as
  the spool leaves it and any sequence of writes of whole lines, syncs and closes of any number of writers, of
  acknowledgments and listings, with any failures of the file system, the counters are exactly the size and the
  number of the segments in the directory, and within the limits, and no segment that a writer has created is longer
  than the segment limit. A directory as the spool leaves it: no two segments with the same name before the
  extension and every \<open>.jsonl\<close> segment ends in a whole line. The random names to come are assumed not to repeat and
  not to be in use, and file names in a directory are distinct. Without the first of these the books are wrong, see \<open>same_base_miscounted\<close> below.\<close>

theorem spool_within_budget:
  assumes "openSpool directory options custody d = (Inr s, d1)" "distinct (map fst (dk_entries d))" "names_ok d" "sealed_whole d"
    and "list_all op_whole xs" "host_run L xs \<lparr>h_spool = s, h_disk = d1, h_writers = []\<rparr> = h"
  shows "s_used (h_spool h) = 1 + total_size (files (h_disk h)) \<and> s_used (h_spool h) \<le> so_MaxBytes (s_options (h_spool h)) \<and>
    s_count (h_spool h) = int (card (dom (files (h_disk h)))) \<and> s_count (h_spool h) \<le> so_MaxSegments (s_options (h_spool h)) \<and>
    (\<forall>w \<in> set (h_writers h). \<forall>n b. segment_base n \<in> bases w \<longrightarrow> files (h_disk h) n = Some b \<longrightarrow>
       int (length b) \<le> so_SegmentBytes (s_options (h_spool h)))"
proof -
  from host_run_inv [OF openSpool_inv(1) [OF assms(1-4)] assms(5), of L] assms(6) have i: "host_inv h" by simp
  then have b: "budget (h_spool h) (h_disk h)" by (simp add: host_inv_def)
  have "int (length b) \<le> so_SegmentBytes (s_options (h_spool h))"
    if "w \<in> set (h_writers h)" "segment_base n \<in> bases w" "files (h_disk h) n = Some b" for w n b
  proof -
    from that(1) i have ok: "writer_ok (s_options (h_spool h)) (h_disk h) w" by (auto simp: host_inv_def in_set_conv_nth)
    from that(2) obtain c where c: "(segment_base n, c) \<in> set (sw_history w)" by (auto simp: bases_def)
    with ok that(3) have "b = c" by (auto simp: writer_ok_def)
    with ok c show ?thesis by (auto simp: writer_ok_def list_all_iff)
  qed
  with b show ?thesis by (auto simp: budget_def)
qed

text \<open>(C28) Recovery loses nothing, and complete segments are complete: what was in a segment before a
  crash is there after \<open>openSpool\<close> (under the name of incomplete evidence if its writer had not
  finished), and later no segment with the name \<open>.jsonl\<close> ever ends in a torn line.\<close>

theorem spool_recovery:
  assumes "openSpool directory options custody d = (Inr s, d1)" "distinct (map fst (dk_entries d))" "names_ok d" "sealed_whole d"
  shows "(\<forall>n b. files d n = Some b \<longrightarrow> files d1 (recovered n) = Some b) \<and>
    (\<forall>xs n b. list_all op_whole xs \<longrightarrow>
       files (h_disk (host_run L xs \<lparr>h_spool = s, h_disk = d1, h_writers = []\<rparr>)) n = Some b \<longrightarrow>
       segment_ext n = ''jsonl'' \<longrightarrow> whole b)"
  using openSpool_inv(5) [OF assms] host_run_inv [OF openSpool_inv(1) [OF assms]]
  by (auto simp: host_inv_def sealed_whole_def)

text \<open>A spool of two segments of at most four bytes, in a directory that is empty or holds the segment of a writer
  that has died.\<close>

definition demo_options :: SpoolOptions where
  "demo_options = \<lparr>so_MaxBytes = 9, so_SegmentBytes = 4, so_MaxSegments = 2\<rparr>"

definition demo_disk :: "(string \<times> direntry) list \<Rightarrow> disk" where
  "demo_disk es = \<lparr>dk_entries = es, dk_errs = [], dk_writes = [], dk_ids = [replicate 16 1, replicate 16 2, replicate 16 3],
     dk_cancel = [], dk_clock = [5, 6, 7]\<rparr>"

definition demo_spool :: "disk \<Rightarrow> host" where
  "demo_spool d = (case openSpool ''/spool'' demo_options False d of
     (Inr s, d1) \<Rightarrow> \<lparr>h_spool = s, h_disk = d1, h_writers = []\<rparr>
   | (Inl _, d1) \<Rightarrow> \<lparr>h_spool = new_spool demo_options False, h_disk = d1, h_writers = []\<rparr>)"

definition dead_name :: string where
  "dead_name = hex_string (replicate 16 0) @ ''.active''"

lemma demo_names: "distinct (new_names (demo_disk es))" "list_all (\<lambda>i. length i = 16) (dk_ids (demo_disk es))"
  "hex_string (replicate 16 0) \<notin> set (new_names (demo_disk es))"
proof -
  have e: "new_names (demo_disk es) = new_names (demo_disk [])" "dk_ids (demo_disk es) = dk_ids (demo_disk [])"
    by (simp_all add: new_names_def demo_disk_def)
  have "distinct (new_names (demo_disk []))" "list_all (\<lambda>i. length i = 16) (dk_ids (demo_disk []))"
    "hex_string (replicate 16 0) \<notin> set (new_names (demo_disk []))" by code_simp+
  then show "distinct (new_names (demo_disk es))" "list_all (\<lambda>i. length i = 16) (dk_ids (demo_disk es))"
    "hex_string (replicate 16 0) \<notin> set (new_names (demo_disk es))" by (simp_all only: e not_False_eq_True)
qed

lemma demo_files: "files (demo_disk []) = Map.empty" "files (demo_disk [(dead_name, EFile [7, 8])]) = [dead_name \<mapsto> [7, 8]]"
proof -
  have "segmentName dead_name" unfolding dead_name_def by (rule active_name) simp
  then show "files (demo_disk []) = Map.empty" "files (demo_disk [(dead_name, EFile [7, 8])]) = [dead_name \<mapsto> [7, 8]]"
    by (auto simp: files_def entry_at_def demo_disk_def fun_eq_iff)
qed

lemma demo_opened_spool:
  "openSpool ''/spool'' demo_options False (demo_disk []) = (Inr (h_spool (demo_spool (demo_disk []))), h_disk (demo_spool (demo_disk [])))"
  "openSpool ''/spool'' demo_options False (demo_disk [(dead_name, EFile [7, 8])]) =
     (Inr (h_spool (demo_spool (demo_disk [(dead_name, EFile [7, 8])]))), h_disk (demo_spool (demo_disk [(dead_name, EFile [7, 8])])))"
  by code_simp+

theorem spool_within_budget_witness:
  "\<exists>h. host_run demo_lib [HOpen, HWrite 0 [1, 10], HOpen, HWrite 1 [1, 2, 3, 10], HWrite 1 [1, 10], HClose 0] (demo_spool (demo_disk [])) = h \<and>
     s_used (h_spool h) = 7 \<and> total_size (files (h_disk h)) = 6 \<and> card (dom (files (h_disk h))) = 2"
proof -
  let ?d = "demo_disk []" and ?xs = "[HOpen, HWrite 0 [1, 10], HOpen, HWrite 1 [1, 2, 3, 10], HWrite 1 [1, 10], HClose 0]"
  let ?h = "host_run demo_lib ?xs (demo_spool ?d)"
  have n: "names_ok ?d" "sealed_whole ?d" "distinct (map fst (dk_entries ?d))"
    using demo_names [of "[]"] demo_files(1) by (simp_all add: names_ok_def sealed_whole_def) (simp add: demo_disk_def)
  have w: "list_all op_whole ?xs" by (simp add: op_whole_def whole_def)
  have s: "s_used (h_spool ?h) = 7" "s_count (h_spool ?h) = 2" by code_simp+
  have e: "demo_spool ?d = \<lparr>h_spool = h_spool (demo_spool ?d), h_disk = h_disk (demo_spool ?d), h_writers = []\<rparr>" by code_simp
  from spool_within_budget [OF demo_opened_spool(1) n(3,1,2) w, of demo_lib ?h] e s show ?thesis by auto
qed

text \<open>In a directory that the spool does not leave behind, with an abandoned and an incomplete segment of one name,
  recovery renames the first over the second: the bytes of the second are gone, and what remains is
  counted twice.\<close>

definition twin_disk :: disk where
  "twin_disk = demo_disk [(dead_name, EFile [7, 8]), (recovered dead_name, EFile [9])]"

lemma same_base_miscounted:
  "case openSpool ''/spool'' demo_options False twin_disk of
     (Inr s, d) \<Rightarrow> s_used s = 5 \<and> s_count s = 2 \<and> entry_at d dead_name = None \<and>
       entry_at d (recovered dead_name) = Some (EFile [7, 8]) \<and> length (dk_entries d) = 3
   | (Inl e, d) \<Rightarrow> False"
  by code_simp

theorem spool_recovery_witness:
  "files (h_disk (demo_spool (demo_disk [(dead_name, EFile [7, 8])]))) (recovered dead_name) = Some [7, 8] \<and>
   recovered dead_name = hex_string (replicate 16 0) @ ''.incomplete''"
proof -
  let ?d = "demo_disk [(dead_name, EFile [7, 8])]"
  have b: "segment_base dead_name = hex_string (replicate 16 0)" "segment_ext dead_name = ''active''"
    unfolding dead_name_def by (rule active_name, simp)+
  have n: "names_ok ?d" "sealed_whole ?d" "distinct (map fst (dk_entries ?d))"
    using demo_names [of "[(dead_name, EFile [7, 8])]"] demo_files(2) b
    by (simp_all add: names_ok_def sealed_whole_def) (simp add: demo_disk_def)
  have "files ?d dead_name = Some [7, 8]" by (simp add: demo_files(2))
  with spool_recovery [OF demo_opened_spool(2) n(3,1,2), of demo_lib]
  have "files (h_disk (demo_spool ?d)) (recovered dead_name) = Some [7, 8]" by blast
  with b show ?thesis by (simp add: recovered_def)
qed

end
