(* ===== verification/SpoolJournal.thy ===== *)
theory SpoolJournal
  imports Spool
begin

text \<open>
  Journals over the spool: a writer of the spool keeps the contract of a durable log, so that what
  is proved of journals holds of the segments that they fill, while other writers, listings and
  acknowledgments go on. The locale \<open>env_invariant\<close> carries an invariant of the world through the operations of a
  journal, which writes whole lines only.
\<close>

section \<open>Invariants of the world of a journal\<close>

locale env_invariant =
  fixes E :: "'w jenv" and P :: "'w \<Rightarrow> bool"
  assumes now_inv: "je_now E w = (t, w') \<Longrightarrow> P w \<Longrightarrow> P w'"
    and write_inv: "je_Write E p w = (r, w') \<Longrightarrow> P w \<Longrightarrow> p \<noteq> [] \<Longrightarrow> last p = 10 \<Longrightarrow> P w'"
    and sync_inv: "je_Sync E w = (e, w') \<Longrightarrow> P w \<Longrightarrow> P w'"
    and close_inv: "je_Close E w = (e, w') \<Longrightarrow> P w \<Longrightarrow> P w'"
    and before_inv: "je_beforeSeal E = Some f \<Longrightarrow> f q bl tr w = (e, w') \<Longrightarrow> P w \<Longrightarrow> P w'"
    and after_inv: "je_afterSeal E = Some g \<Longrightarrow> g q e' w = (e, w') \<Longrightarrow> P w \<Longrightarrow> P w'"
    and closed_inv: "je_onClosed E = Some h \<Longrightarrow> P w \<Longrightarrow> P (h e' w)"
begin

lemma write_record_inv: "write_record E r w = (e, w') \<Longrightarrow> P w \<Longrightarrow> P w'"
  by (auto simp: write_record_def Let_def split: option.splits prod.splits if_splits
      dest: write_inv sync_inv)

lemma append_inv: "journal_append E r j w = (e, j', w') \<Longrightarrow> P w \<Longrightarrow> P w'"
  by (auto simp: journal_append_def Let_def split: if_splits prod.splits dest: now_inv write_record_inv)

lemma Observe_inv: "Observe E tx rx j w = (e, j', w') \<Longrightarrow> P w \<Longrightarrow> P w'"
  by (auto simp: Observe_def Let_def split: if_splits prod.splits sum.splits dest: append_inv)

lemma Gap_inv: "Gap E reason j w = (e, j', w') \<Longrightarrow> P w \<Longrightarrow> P w'"
  by (auto simp: Gap_def split: if_splits prod.splits sum.splits dest: append_inv)

lemma before_seal_inv: "before_seal E j w = (j', w') \<Longrightarrow> P w \<Longrightarrow> P w'"
  by (auto simp: before_seal_def split: option.splits prod.splits dest: before_inv)

lemma after_seal_inv: "after_seal E j w = (j', w') \<Longrightarrow> P w \<Longrightarrow> P w'"
  by (auto simp: after_seal_def split: option.splits prod.splits dest: after_inv)

lemma on_closed_inv: "P w \<Longrightarrow> P (case je_onClosed E of None \<Rightarrow> w | Some f \<Rightarrow> f e w)"
  by (auto split: option.split dest: closed_inv)

lemma Close_inv:
  assumes "Journal_Close E j w = (e, j', w')" "P w"
  shows "P w'"
proof (cases "j_closed j")
  case True
  with assms show ?thesis by (simp add: Journal_Close_def)
next
  case False
  obtain j1 w1 where 1: "before_seal E j w = (j1, w1)" by (metis prod.exhaust)
  note p1 = before_seal_inv [OF 1 assms(2)]
  define T where "T = (case journal_next ''closed'' j1 of (Inl e, j) \<Rightarrow> (e, j, w1)
      | (Inr r, j) \<Rightarrow> journal_append E (r\<lparr>r_Reason := ''terminal_coverage_unverified''\<rparr>) j w1)"
  obtain e2 j2 w2 where T: "T = (e2, j2, w2)" by (cases T)
  note 2 = T [unfolded T_def]
  have p2: "P w2"
  proof (cases "journal_next ''closed'' j1")
    case (Pair x j0)
    show ?thesis
    proof (cases x)
      case (Inl y)
      with Pair 2 p1 show ?thesis by simp
    next
      case (Inr r)
      with Pair 2 have "journal_append E (r\<lparr>r_Reason := ''terminal_coverage_unverified''\<rparr>) j0 w1 = (e2, j2, w2)"
        by simp
      from append_inv [OF this p1] show ?thesis .
    qed
  qed
  obtain e3 w3 where 3: "je_Close E w2 = (e3, w3)" by (metis prod.exhaust)
  obtain j4 w4 where 4: "after_seal E (j2\<lparr>j_closed := True, j_failed := e2 @ e3\<rparr>) w3 = (j4, w4)" by (metis prod.exhaust)
  have "P w4" using after_seal_inv [OF 4 close_inv [OF 3 p2]] .
  from on_closed_inv [OF this] have p5: "P (case je_onClosed E of None \<Rightarrow> w4 | Some f \<Rightarrow> f (j_failed j4) w4)" .
  have "w' = (case je_onClosed E of None \<Rightarrow> w4 | Some f \<Rightarrow> f (j_failed j4) w4)"
    using assms(1) False by (simp add: Journal_Close_def 1 2 3 4 Let_def)
  with p5 show ?thesis by simp
qed

lemma journal_do_inv: "journal_do E x s = (j, w) \<Longrightarrow> P (snd s) \<Longrightarrow> P w"
  by (auto simp: journal_do_def snd_conv_Pair split: journal_op.splits dest: Observe_inv Gap_inv Close_inv)

lemma start_journal_inv: "start_journal E sandboxID ident w = (e, j, w') \<Longrightarrow> P w \<Longrightarrow> P w'"
  by (auto simp: start_journal_def Let_def dest: append_inv)

end

section \<open>The writer of a spool as a durable log\<close>

lemma seal_history: "seal w s d = (e, w', s', d') \<Longrightarrow> sw_history w' = sw_history w"
  by (auto simp: seal_def Let_def split: if_splits prod.splits)

lemma new_segment_written: "new_segment w s d = (e, w', s', d') \<Longrightarrow> written w' = written w"
  by (auto simp: new_segment_def Let_def written_def split: list.splits if_splits prod.splits)

lemma fs_append_bounds: "fs_append n p d = ((k, e), d') \<Longrightarrow> 0 \<le> k \<and> k \<le> int (length p)"
  by (auto simp: fs_append_def Let_def split: list.splits prod.splits)

lemma write_segment_written:
  assumes "write_segment p w s d = ((n, e), w', s', d')"
  shows "0 \<le> n \<and> n \<le> int (length p) \<and> written w' = written w @ take (nat n) p"
proof -
  obtain k e0 d0 where a: "fs_append (sw_name w) p d = ((k, e0), d0)" by (metis prod.exhaust)
  with assms have "n = k" "written w' = written w @ take (nat k) p"
    by (auto simp: write_segment_def Let_def written_def written_add_history split: if_splits)
  with fs_append_bounds [OF a] show ?thesis by simp
qed

lemma Writer_Write_written:
  assumes r: "Writer_Write p w s d = ((n, e), w', s', d')"
  shows "0 \<le> n \<and> n \<le> int (length p) \<and> written w' = written w @ take (nat n) p"
proof (cases "sw_closed w \<or> s_failed s \<noteq> [] \<or> sw_failed w \<noteq> [] \<or>
    \<not> spoolAllows (s_used s) (s_count s) (int (length p)) (needs_segment p w s) (s_options s)")
  case True
  with r show ?thesis
    by (auto simp: Writer_Write_def Let_def written_def split: if_splits prod.splits)
next
  case False
  obtain e1 w1 s1 d1 where 1: "(if sw_open w \<and> needs_segment p w s then seal w s d else ([], w, s, d)) = (e1, w1, s1, d1)"
    by (metis prod.exhaust)
  have w1: "written w1 = written w" using 1 seal_history by (auto simp: written_def split: if_splits)
  show ?thesis
  proof (cases "e1 = []")
    case e1: False
    with r False 1 w1 show ?thesis by (auto simp: Writer_Write_def Let_def written_def split: list.splits)
  next
    case e1: True
    obtain e2 w2 s2 d2 where 2: "(if sw_open w1 then ([], w1, s1, d1) else new_segment w1 s1 d1) = (e2, w2, s2, d2)"
      by (metis prod.exhaust)
    have w2: "written w2 = written w1" using 2 new_segment_written by (auto split: if_splits)
    show ?thesis
    proof (cases "e2 = []")
      case True
      then have "write_segment p w2 s2 d2 = ((n, e), w', s', d')"
        using r False 1 e1 2 by (auto simp: Writer_Write_def Let_def)
      from write_segment_written [OF this] w1 w2 show ?thesis by simp
    next
      case e2: False
      with r False 1 e1 2 w1 w2 show ?thesis by (auto simp: Writer_Write_def Let_def split: list.splits)
    qed
  qed
qed

definition writer_log :: "nat \<Rightarrow> host \<Rightarrow> bytes" where
  "writer_log i h = written (h_writers h ! i)"

lemma Writer_Sync_written: "Writer_Sync w d = (e, w', d') \<Longrightarrow> written w' = written w"
  by (auto simp: Writer_Sync_def written_def split: if_splits prod.splits)

lemma Writer_Close_written: "Writer_Close w s d = (e, w', s', d') \<Longrightarrow> written w' = written w"
  by (auto simp: Writer_Close_def written_def split: if_splits prod.splits dest: seal_history)

interpretation spool: durable_log "spool_env L i" "writer_log i" for L i
proof
  fix p n e and w w' :: host
  assume "je_Write (spool_env L i) p w = ((n, e), w')"
  then show "0 \<le> n \<and> n \<le> int (length p) \<and> writer_log i w' = writer_log i w @ take (nat n) p"
    by (auto simp: spool_env_def host_Write_def on_writer_def writer_log_def split: if_splits prod.splits
        dest!: Writer_Write_written)
next
  fix e and w w' :: host
  assume "je_Sync (spool_env L i) w = (e, w')"
  then show "writer_log i w' = writer_log i w"
    by (auto simp: spool_env_def host_Sync_def on_writer_def writer_log_def split: if_splits prod.splits
        dest!: Writer_Sync_written)
next
  fix e and w w' :: host
  assume "je_Close (spool_env L i) w = (e, w')"
  then show "writer_log i w' = writer_log i w"
    by (auto simp: spool_env_def host_Close_def on_writer_def writer_log_def split: if_splits prod.splits
        dest!: Writer_Close_written)
qed (auto simp: spool_env_def host_now_def writer_log_def split: list.splits)

section \<open>The invariant of the host through a journal\<close>

definition host_inv_at :: "nat \<Rightarrow> host \<Rightarrow> bool" where
  "host_inv_at i h \<longleftrightarrow> host_inv h \<and> i < length (h_writers h)"

lemma host_op_inv:
  "host_inv h \<Longrightarrow> whole p \<Longrightarrow> host_inv (snd (host_Write i p h))"
  "host_inv h \<Longrightarrow> host_inv (snd (host_Sync i h))" "host_inv h \<Longrightarrow> host_inv (snd (host_Close i h))"
  using host_do_inv [of h "HWrite i p"] host_do_inv [of h "HSync i"] host_do_inv [of h "HClose i"]
  by (simp_all add: host_do_def op_whole_def)

lemma host_op_length [simp]:
  "length (h_writers (snd (host_Write i p h))) = length (h_writers h)"
  "length (h_writers (snd (host_Sync i h))) = length (h_writers h)"
  "length (h_writers (snd (host_Close i h))) = length (h_writers h)"
  by (simp_all add: host_Write_def host_Sync_def host_Close_def on_writer_def split: prod.splits)

lemma host_now_inv: "host_now h = (t, h') \<Longrightarrow> host_inv h \<Longrightarrow> host_inv h' \<and> h_writers h' = h_writers h"
proof -
  assume n: "host_now h = (t, h')" and i: "host_inv h"
  have "files (d\<lparr>dk_clock := x\<rparr>) = files d" for d x by (rule files_entries) simp
  then have "same_files (h_disk h) ((h_disk h)\<lparr>dk_clock := x\<rparr>)" for x by (simp add: same_files_def)
  moreover have "budget (h_spool h) (h_disk h)" using i by (simp add: host_inv_def)
  ultimately have "host_inv (h\<lparr>h_disk := (h_disk h)\<lparr>dk_clock := x\<rparr>\<rparr>)" for x
    using host_inv_same [OF i, of _ "h_spool h"] by simp
  with i n show ?thesis by (auto simp: host_now_def split: list.splits)
qed

interpretation spool_inv: env_invariant "spool_env L i" "host_inv_at k" for L i k
proof
  fix p r and w w' :: host
  assume "je_Write (spool_env L i) p w = (r, w')" "host_inv_at k w" "p \<noteq> []" "last p = 10"
  then show "host_inv_at k w'"
    using host_op_inv(1) [of w p i] host_op_length(1) [of i p w] by (auto simp: spool_env_def host_inv_at_def whole_def)
next
  fix e and w w' :: host
  assume "je_Sync (spool_env L i) w = (e, w')" "host_inv_at k w"
  then show "host_inv_at k w'"
    using host_op_inv(2) [of w i] host_op_length(2) [of i w] by (auto simp: spool_env_def host_inv_at_def)
next
  fix e and w w' :: host
  assume "je_Close (spool_env L i) w = (e, w')" "host_inv_at k w"
  then show "host_inv_at k w'"
    using host_op_inv(3) [of w i] host_op_length(3) [of i w] by (auto simp: spool_env_def host_inv_at_def)
qed (auto simp: spool_env_def host_inv_at_def dest: host_now_inv)

section \<open>Journals among other clients of the spool\<close>

text \<open>What the other clients do: operations that do not name the \<open>i\<close>-th writer.\<close>

definition other_op :: "nat \<Rightarrow> host_op \<Rightarrow> bool" where
  "other_op i x = (op_whole x \<and>
     (case x of HWrite k p \<Rightarrow> k \<noteq> i | HSync k \<Rightarrow> k \<noteq> i | HClose k \<Rightarrow> k \<noteq> i | _ \<Rightarrow> True))"

definition mixed_do :: "jstd \<Rightarrow> nat \<Rightarrow> journal_op + host_op \<Rightarrow> Journal \<times> host \<Rightarrow> Journal \<times> host" where
  "mixed_do L i x s = (case x of
     Inl a \<Rightarrow> journal_do (spool_env L i) a s
   | Inr y \<Rightarrow> (fst s, host_do L y (snd s)))"

definition mixed_ok :: "nat \<Rightarrow> journal_op + host_op \<Rightarrow> bool" where
  "mixed_ok i x = (case x of Inl a \<Rightarrow> op_typed a | Inr y \<Rightarrow> other_op i y)"

lemma host_do_other:
  assumes "other_op i x" "i < length (h_writers h)"
  shows "h_writers (host_do L x h) ! i = h_writers h ! i" "i < length (h_writers (host_do L x h))"
  using assms
  by (auto simp: other_op_def host_do_def host_Write_def host_Sync_def host_Close_def on_writer_def on_spool_def
      add_writer_def nth_append split: host_op.splits prod.splits)

definition spool_journal_inv :: "jstd \<Rightarrow> nat \<Rightarrow> Record list \<Rightarrow> Journal \<Rightarrow> host \<Rightarrow> bool" where
  "spool_journal_inv L i rs j h \<longleftrightarrow> jinv (spool_env L i) (writer_log i) [] rs j h \<and> host_inv_at i h"

lemma jinv_log_cong: "logf w' = logf w \<Longrightarrow> jinv E logf base rs j w \<Longrightarrow> jinv E logf base rs j w'"
  by (simp add: jinv_def jlog_def)

lemma mixed_do_inv:
  assumes "spool_journal_inv L i rs j h" "mixed_ok i x" "mixed_do L i x (j, h) = (j', h')"
  shows "\<exists>rs'. spool_journal_inv L i rs' j' h'"
proof (cases x)
  case (Inl a)
  with assms have d: "journal_do (spool_env L i) a (j, h) = (j', h')" and t: "op_typed a"
    by (simp_all add: mixed_do_def mixed_ok_def)
  from assms(1) have j: "jinv (spool_env L i) (writer_log i) [] rs j h" and k: "host_inv_at i h"
    by (simp_all add: spool_journal_inv_def)
  from spool.journal_do_jinv [OF j t d] obtain rs' where "jinv (spool_env L i) (writer_log i) [] rs' j' h'" by blast
  moreover have "host_inv_at i h'" using spool_inv.journal_do_inv [OF d] k by simp
  ultimately show ?thesis by (auto simp: spool_journal_inv_def)
next
  case (Inr y)
  with assms have o: "other_op i y" and eq: "j' = j" "h' = host_do L y h" by (simp_all add: mixed_do_def mixed_ok_def)
  from assms(1) have n: "i < length (h_writers h)" and hi: "host_inv h" by (simp_all add: spool_journal_inv_def host_inv_at_def)
  note od = host_do_other [OF o n, of L]
  have "writer_log i h' = writer_log i h" using od(1) by (simp add: writer_log_def eq)
  with assms(1) have "jinv (spool_env L i) (writer_log i) [] rs j' h'"
    by (auto simp: spool_journal_inv_def eq(1) intro: jinv_log_cong)
  moreover have "host_inv_at i h'"
    using host_do_inv [OF hi, of y L] o od(2) by (simp add: host_inv_at_def eq(2) other_op_def)
  ultimately show ?thesis by (auto simp: spool_journal_inv_def)
qed

lemma mixed_run_inv:
  assumes "spool_journal_inv L i rs j h" "list_all (mixed_ok i) xs" "fold (mixed_do L i) xs (j, h) = (j', h')"
  shows "\<exists>rs'. spool_journal_inv L i rs' j' h'"
  using assms
proof (induction xs arbitrary: rs j h)
  case (Cons x xs)
  obtain j1 h1 where 1: "mixed_do L i x (j, h) = (j1, h1)" by (metis prod.exhaust)
  from mixed_do_inv [OF Cons.prems(1) _ 1] Cons.prems(2) obtain rs1 where "spool_journal_inv L i rs1 j1 h1" by auto
  from Cons.IH [OF this] Cons.prems(2,3) 1 show ?case by simp
qed auto

lemma OpenWithSpool_start:
  assumes "OpenWithSpool L sandboxID ident h = (Inr j, h1)"
  shows "start_journal (spool_env L (length (h_writers h))) sandboxID ident (add_writer h) = ([], j, h1)"
    "\<not> s_closed (h_spool h)" "s_failed (h_spool h) = []"
  using assms by (auto simp: OpenWithSpool_def Let_def split: if_splits prod.splits)

lemma OpenWithSpool_inv:
  assumes o: "OpenWithSpool L sandboxID ident h = (Inr j, h1)" and i: "host_inv h"
  shows "spool_journal_inv L (length (h_writers h)) [j_last j] j h1"
proof -
  let ?i = "length (h_writers h)"
  note st = OpenWithSpool_start [OF o]
  have "host_inv (add_writer h)" using host_do_inv [OF i, of HOpen] st(2,3) by (simp add: host_do_def op_whole_def)
  then have "host_inv_at ?i (add_writer h)" by (simp add: host_inv_at_def add_writer_def)
  from spool_inv.start_journal_inv [OF st(1) this] have "host_inv_at ?i h1" .
  moreover have "writer_log ?i (add_writer h) = []"
    by (simp add: writer_log_def add_writer_def new_writer_def written_def)
  ultimately show ?thesis using spool.start_journal_jinv(1) [OF st(1)] by (simp add: spool_journal_inv_def)
qed

section \<open>Properties\<close>

text \<open>(C25) A journal over the spool is one chain of records: after \<open>OpenWithSpool\<close> and any interleaving of the operations of
  the journal with those of other writers, listings and acknowledgments, with any failures of the file
  system, the bytes that the journal's writer has put into its segments are, in order, the lines of a chain of records
  that ends with the last record of the journal, followed by the beginning of one more line
  only if the journal has failed; and each of those segments that is still in the directory
  holds exactly the bytes that were put into it.\<close>

theorem spool_journal_chain:
  assumes "host_inv h" "OpenWithSpool L sandboxID ident h = (Inr j, h1)"
    and "list_all (mixed_ok (length (h_writers h))) xs" "fold (mixed_do L (length (h_writers h))) xs (j, h1) = (j', h')"
  shows "\<exists>segments rs torn r. sw_history (h_writers h' ! length (h_writers h)) = segments \<and>
    concat (map snd segments) = concat (map (line (spool_env L 0)) rs) @ torn \<and>
    record_chain rs \<and> last rs = j_last j' \<and> prefix torn (line (spool_env L 0) r) \<and> (j_failed j' = [] \<longrightarrow> torn = []) \<and>
    (\<forall>n b c. (segment_base n, b) \<in> set segments \<longrightarrow> files (h_disk h') n = Some c \<longrightarrow> c = b)"
proof -
  let ?i = "length (h_writers h)"
  from mixed_run_inv [OF OpenWithSpool_inv [OF assms(2,1)] assms(3,4)]
  obtain rs where si: "spool_journal_inv L ?i rs j' h'" by blast
  have ln: "line (spool_env L ?i) = line (spool_env L 0)" by (simp add: line_def spool_env_def fun_eq_iff)
  from si obtain torn r where t: "writer_log ?i h' = concat (map (line (spool_env L 0)) rs) @ torn"
      "prefix torn (line (spool_env L 0) r)" "j_failed j' = [] \<longrightarrow> torn = []" and c: "record_chain rs" "last rs = j_last j'"
    by (auto simp: spool_journal_inv_def jinv_def jlog_def ln)
  have "writer_ok (s_options (h_spool h')) (h_disk h') (h_writers h' ! ?i)"
    using si by (simp add: spool_journal_inv_def host_inv_at_def host_inv_def)
  then have "\<forall>n b c. (segment_base n, b) \<in> set (sw_history (h_writers h' ! ?i)) \<longrightarrow> files (h_disk h') n = Some c \<longrightarrow> c = b"
    by (auto simp: writer_ok_def)
  with t c show ?thesis unfolding writer_log_def written_def by blast
qed

theorem spool_journal_chain_witness:
  "\<exists>j h1 j' h' rs. OpenWithSpool demo_lib ''sbx'' ''j'' (demo_spool (demo_disk [])) = (Inr j, h1) \<and>
     fold (mixed_do demo_lib 0) [Inr HOpen, Inl (JObserve 5 6), Inr (HWrite 1 [1, 10])] (j, h1) = (j', h') \<and>
     concat (map snd (sw_history (h_writers h' ! 0))) = concat (map (line (spool_env demo_lib 0)) rs) \<and>
     record_chain rs \<and> r_TxBytes (last rs) = 5"
proof -
  let ?h = "demo_spool (demo_disk [])" and ?xs = "[Inr HOpen, Inl (JObserve 5 6), Inr (HWrite 1 [1, 10])]"
  let ?o = "OpenWithSpool demo_lib ''sbx'' ''j'' ?h"
  have c: "(case ?o of (Inr j, h1) \<Rightarrow> (case fold (mixed_do demo_lib 0) ?xs (j, h1) of
      (j', h') \<Rightarrow> j_failed j' = [] \<and> r_TxBytes (j_last j') = 5) | _ \<Rightarrow> False)" by code_simp
  obtain r h1 where o1: "?o = (r, h1)" by (metis prod.exhaust)
  from c obtain j where r: "r = Inr j" unfolding o1 by (cases r) simp_all
  obtain j' h' where f: "fold (mixed_do demo_lib 0) ?xs (j, h1) = (j', h')" by (metis prod.exhaust)
  from c have g: "j_failed j' = []" "r_TxBytes (j_last j') = 5" unfolding o1 r prod.case sum.case f by blast+
  note o = o1 [unfolded r] f g
  have e: "?h = \<lparr>h_spool = h_spool ?h, h_disk = h_disk ?h, h_writers = []\<rparr>" by code_simp
  have n: "names_ok (demo_disk [])" "sealed_whole (demo_disk [])" "distinct (map fst (dk_entries (demo_disk [])))"
    using demo_names [of "[]"] demo_files(1) by (simp_all add: names_ok_def sealed_whole_def) (simp add: demo_disk_def)
  have hi: "host_inv ?h" using openSpool_inv(1) [OF demo_opened_spool(1) n(3,1,2)] e by simp
  have l: "length (h_writers ?h) = 0" by code_simp
  have m: "list_all (mixed_ok 0) ?xs"
    by (simp add: mixed_ok_def op_typed_def other_op_def op_whole_def whole_def u64_ok_def max_u64_def)
  from spool_journal_chain [OF hi o(1), unfolded l, OF m o(2)] o(3,4) obtain rs where
    "concat (map snd (sw_history (h_writers h' ! 0))) = concat (map (line (spool_env demo_lib 0)) rs)"
    "record_chain rs" "last rs = j_last j'" by auto
  with o show ?thesis by fastforce
qed

end
