(* ===== verification/Custody.thy ===== *)
theory Custody
  imports Spool
begin

text \<open>
  The store that takes custody of segments (\<open>shared/pkg/storage/custody.go\<close> and \<open>custody_aws.go\<close>): the names
  that objects get, and the proof of storage that an upload returns. The client of the object store is a
  parameter, the record \<open>s3\<close> of its operations on a remote state; the locale \<open>s3_client\<close> states
  what is documented of it.
\<close>

section \<open>Names\<close>

definition is_digit :: "char \<Rightarrow> bool" where
  "is_digit c \<longleftrightarrow> 48 \<le> char_code c \<and> char_code c \<le> 57"

definition is_lower :: "char \<Rightarrow> bool" where
  "is_lower c \<longleftrightarrow> 97 \<le> char_code c \<and> char_code c \<le> 122"

definition is_upper :: "char \<Rightarrow> bool" where
  "is_upper c \<longleftrightarrow> 65 \<le> char_code c \<and> char_code c \<le> 90"

definition is_lower_hex :: "char \<Rightarrow> bool" where
  "is_lower_hex c \<longleftrightarrow> is_digit c \<or> 97 \<le> char_code c \<and> char_code c \<le> 102"

text \<open>\<open>strings.Split\<close> with a separator of one character.\<close>

fun split_on :: "char \<Rightarrow> string \<Rightarrow> string list" where
  "split_on c [] = [[]]"
| "split_on c (x # xs) =
     (if x = c then [] # split_on c xs
      else case split_on c xs of [] \<Rightarrow> [[x]] | p # ps \<Rightarrow> (x # p) # ps)"

fun has_dotdot :: "string \<Rightarrow> bool" where
  "has_dotdot (a # b # s) \<longleftrightarrow> a = CHR ''.'' \<and> b = CHR ''.'' \<or> has_dotdot (b # s)"
| "has_dotdot s \<longleftrightarrow> False"

text \<open>The regular expressions.\<close>

definition custodyAccount :: "string \<Rightarrow> bool" where
  "custodyAccount s \<longleftrightarrow> length s = 12 \<and> list_all is_digit s"

definition custodyRegion :: "string \<Rightarrow> bool" where
  "custodyRegion s \<longleftrightarrow> (case split_on (CHR ''-'') s of
     [a, b, c] \<Rightarrow> length a = 2 \<and> list_all is_lower a \<and> b \<noteq> [] \<and> list_all is_lower b \<and> c \<noteq> [] \<and> list_all is_digit c
   | _ \<Rightarrow> False)"

definition custodyBucket :: "string \<Rightarrow> bool" where
  "custodyBucket s \<longleftrightarrow>
     3 \<le> length s \<and> length s \<le> 63 \<and>
     list_all (\<lambda>c. is_lower c \<or> is_digit c \<or> c = CHR ''.'' \<or> c = CHR ''-'') s \<and>
     (is_lower (hd s) \<or> is_digit (hd s)) \<and> (is_lower (last s) \<or> is_digit (last s))"

definition is_alnum :: "char \<Rightarrow> bool" where
  "is_alnum c \<longleftrightarrow> is_lower c \<or> is_upper c \<or> is_digit c"

definition custodyToken :: "string \<Rightarrow> bool" where
  "custodyToken s \<longleftrightarrow>
     s \<noteq> [] \<and> length s \<le> 128 \<and> is_alnum (hd s) \<and>
     list_all (\<lambda>c. is_alnum c \<or> c = CHR ''_'' \<or> c = CHR ''.'' \<or> c = CHR ''-'') s"

definition custodyHash :: "string \<Rightarrow> bool" where
  "custodyHash s \<longleftrightarrow> length s = 64 \<and> list_all is_lower_hex s"

definition ec2ProducerUserID :: "string \<Rightarrow> bool" where
  "ec2ProducerUserID s \<longleftrightarrow>
     take 4 s = ''AROA'' \<and> 21 \<le> length s \<and> list_all (\<lambda>c. is_upper c \<or> is_digit c) (take 17 (drop 4 s)) \<and>
     take 3 (drop 21 s) = '':i-'' \<and> (length s = 32 \<or> length s = 41) \<and> list_all is_lower_hex (drop 24 s)"

section \<open>Destinations, claims and receipts\<close>

definition MaxCustodyObjectBytes :: int where
  "MaxCustodyObjectBytes = 64 * 1024 * 1024"

record CustodyClaim =
  cc_Name :: string
  cc_SHA256 :: string
  cc_Bytes :: int

record CustodyDestination =
  cd_AccountID :: string
  cd_Region :: string
  cd_Bucket :: string
  cd_Prefix :: string
  cd_ClaimedHostID :: string
  cd_ProducerUserID :: string
  cd_MaxObjectBytes :: int

record CustodyReceipt =
  rc_Destination :: CustodyDestination
  rc_Claim :: CustodyClaim
  rc_Key :: string
  rc_VersionID :: string

definition identity_valid :: "CustodyDestination \<Rightarrow> bool" where
  "identity_valid d \<longleftrightarrow>
     (if cd_ProducerUserID d \<noteq> '''' then cd_ClaimedHostID d = '''' \<and> ec2ProducerUserID (cd_ProducerUserID d)
      else custodyToken (cd_ClaimedHostID d))"

definition validate_destination :: "CustodyDestination \<Rightarrow> gerr" where
  "validate_destination d =
     (if \<not> custodyAccount (cd_AccountID d) \<or> \<not> custodyRegion (cd_Region d) \<or> \<not> custodyBucket (cd_Bucket d) \<or>
         has_dotdot (cd_Bucket d) \<or> \<not> identity_valid d \<or> cd_MaxObjectBytes d < 1 \<or>
         cd_MaxObjectBytes d > MaxCustodyObjectBytes
      then [Err ''invalid custody destination'']
      else if \<not> has_prefix (cd_Prefix d) ''network-usage/v1/'' \<or> length (cd_Prefix d) > 256
      then [Err ''invalid custody prefix'']
      else if \<exists>part \<in> set (split_on (CHR ''/'') (cd_Prefix d)). \<not> custodyToken part \<or> part = ''.'' \<or> part = ''..''
      then [Err ''invalid custody prefix component'']
      else [])"

definition identity_of :: "CustodyDestination \<Rightarrow> string" where
  "identity_of d = (if cd_ProducerUserID d \<noteq> '''' then cd_ProducerUserID d else cd_ClaimedHostID d)"

definition ObjectKey :: "CustodyDestination \<Rightarrow> CustodyClaim \<Rightarrow> gerr + string" where
  "ObjectKey d c =
     (if validate_destination d \<noteq> [] then Inl (validate_destination d)
      else if \<not> custodyToken (cc_Name c) \<or> cc_Name c = ''.'' \<or> cc_Name c = ''..'' \<or> \<not> custodyHash (cc_SHA256 c) \<or>
        cc_Bytes c < 0 \<or> cc_Bytes c > cd_MaxObjectBytes d
      then Inl [Err ''invalid custody claim'']
      else Inr (cd_Prefix d @ ''/'' @ cd_AccountID d @ ''/'' @ identity_of d @ ''/'' @ cc_Name c))"

definition Matches :: "CustodyReceipt \<Rightarrow> CustodyDestination \<Rightarrow> CustodyClaim \<Rightarrow> bool" where
  "Matches r d c \<longleftrightarrow> (case ObjectKey d c of Inl e \<Rightarrow> False
     | Inr key \<Rightarrow> rc_Destination r = d \<and> rc_Claim r = c \<and> rc_Key r = key)"

section \<open>The object store\<close>

text \<open>What the client returns. Times are in nanoseconds.\<close>

record s3_head =
  sh_VersionId :: "string option"
  sh_ContentLength :: "int option"
  sh_LastModified :: "int option"
  sh_Governance :: bool
  sh_RetainUntil :: "int option"
  sh_Metadata :: "string \<rightharpoonup> string"
  sh_ChecksumSHA256 :: "string option"
  sh_Composite :: bool
  sh_ETag :: "string option"

datatype put_result = PutOK | PreconditionFailed | PutFailed gerr

record s3_body =
  sb_Metadata :: "string \<rightharpoonup> string"
  sb_bytes :: bytes
  sb_copyErr :: gerr
  sb_closeErr :: gerr

record 'r s3 =
  s3_Put :: "string \<Rightarrow> string \<Rightarrow> string \<Rightarrow> bytes \<Rightarrow> string \<Rightarrow> (string \<times> string) list \<Rightarrow> 'r \<Rightarrow> put_result \<times> 'r"
  s3_Head :: "string \<Rightarrow> string \<Rightarrow> string \<Rightarrow> string option \<Rightarrow> 'r \<Rightarrow> (gerr + s3_head) \<times> 'r"
  s3_Get :: "string \<Rightarrow> string \<Rightarrow> string \<Rightarrow> string option \<Rightarrow> string option \<Rightarrow> 'r \<Rightarrow> (gerr + s3_body) \<times> 'r"
  s3_Now :: "'r \<Rightarrow> int \<times> 'r"

record awsCustody =
  aw_destination :: CustodyDestination
  aw_retentionDays :: int

definition custodyMetadata :: "CustodyDestination \<Rightarrow> CustodyClaim \<Rightarrow> (string \<times> string) list" where
  "custodyMetadata d c =
     [(''custody-schema'', ''raw-segment-v1''), (''sha256'', cc_SHA256 c),
      (if cd_ProducerUserID d \<noteq> '''' then (''producer-user-id'', cd_ProducerUserID d)
       else (''claimed-host-id'', cd_ClaimedHostID d))]"

text \<open>\<open>m[k] = v\<close> for all entries; a key that is not there reads as the empty string. \<open>aws.ToString\<close>.\<close>

definition to_string :: "string option \<Rightarrow> string" where
  "to_string x = (case x of None \<Rightarrow> '''' | Some s \<Rightarrow> s)"

definition metadata_ok :: "(string \<times> string) list \<Rightarrow> (string \<rightharpoonup> string) \<Rightarrow> bool" where
  "metadata_ok kvs m \<longleftrightarrow> list_all (\<lambda>(k, v). to_string (m k) = v) kvs"

definition hex_value :: "char \<Rightarrow> int" where
  "hex_value c = (let n = char_code c in if n \<le> 57 then n - 48 else if n \<le> 70 then n - 55 else n - 87)"

fun hex_decode :: "string \<Rightarrow> bytes option" where
  "hex_decode [] = Some []"
| "hex_decode [a] = None"
| "hex_decode (a # b # s) =
     (if hex_char a \<and> hex_char b
      then map_option (\<lambda>r. word_of_int (16 * hex_value a + hex_value b) # r) (hex_decode s) else None)"

definition retention_ok :: "awsCustody \<Rightarrow> s3_head \<Rightarrow> int \<Rightarrow> bool" where
  "retention_ok a head now \<longleftrightarrow>
     to_string (sh_VersionId head) \<noteq> '''' \<and> to_string (sh_VersionId head) \<noteq> ''null'' \<and> sh_Governance head \<and>
     (case sh_LastModified head of None \<Rightarrow> False | Some m \<Rightarrow>
        (case sh_RetainUntil head of None \<Rightarrow> False | Some u \<Rightarrow>
           u > now \<and> \<not> u < m + aw_retentionDays a * (24 * 3600 * 1000000000)))"

text \<open>The exact bytes are read when the store has no checksum of them.\<close>

definition verify_bytes :: "jstd \<Rightarrow> 'r s3 \<Rightarrow> awsCustody \<Rightarrow> CustodyClaim \<Rightarrow> string \<Rightarrow> s3_head \<Rightarrow> 'r \<Rightarrow> gerr \<times> 'r" where
  "verify_bytes L S a c key head r =
     (let d = aw_destination a;
          (q, r) = s3_Get S (cd_Bucket d) key (cd_AccountID d) (sh_VersionId head) (sh_ETag head) r
      in case q of
        Inl e \<Rightarrow> (e, r)
      | Inr body \<Rightarrow>
          let data = take (nat (cc_Bytes c + 1)) (sb_bytes body); err = sb_copyErr body @ sb_closeErr body in
          (if err \<noteq> [] then err
           else if int (length data) \<noteq> cc_Bytes c \<or> sha256hex L data \<noteq> cc_SHA256 c
           then [Err ''custody remote bytes mismatch'']
           else if \<not> metadata_ok (custodyMetadata d c) (sb_Metadata body)
           then [Err ''custody GET metadata mismatch''] else [], r))"

definition check_integrity :: "jstd \<Rightarrow> 'r s3 \<Rightarrow> awsCustody \<Rightarrow> CustodyClaim \<Rightarrow> string \<Rightarrow> s3_head \<Rightarrow> 'r \<Rightarrow> gerr \<times> 'r" where
  "check_integrity L S a c key head r =
     (case hex_decode (cc_SHA256 c) of
        None \<Rightarrow> ([Err ''invalid hex''], r)
      | Some digest \<Rightarrow>
          (case sh_ChecksumSHA256 head of
             Some x \<Rightarrow> (if x \<noteq> b64_encode L digest \<or> sh_Composite head then [Err ''custody remote checksum mismatch''] else [], r)
           | None \<Rightarrow> verify_bytes L S a c key head r))"

definition verifyExactVersion :: "jstd \<Rightarrow> 'r s3 \<Rightarrow> awsCustody \<Rightarrow> CustodyClaim \<Rightarrow> string \<Rightarrow> 'r \<Rightarrow> (gerr + CustodyReceipt) \<times> 'r" where
  "verifyExactVersion L S a c versionID r =
     (let d = aw_destination a in
      case ObjectKey d c of
        Inl e \<Rightarrow> (Inl e, r)
      | Inr key \<Rightarrow>
          (case s3_Head S (cd_Bucket d) key (cd_AccountID d) (if versionID = '''' then None else Some versionID) r of
             (Inl e, r) \<Rightarrow> (Inl e, r)
           | (Inr head, r) \<Rightarrow>
               if versionID \<noteq> '''' \<and> to_string (sh_VersionId head) \<noteq> versionID
               then (Inl [Err ''custody exact version mismatch''], r)
               else if sh_ContentLength head \<noteq> Some (cc_Bytes c)
               then (Inl [Err ''custody remote length mismatch''], r)
               else let (now, r) = (if aw_retentionDays a > 0 then s3_Now S r else (0, r)) in
                 if aw_retentionDays a > 0 \<and> \<not> retention_ok a head now
                 then (Inl [Err ''protected custody version or retention evidence missing''], r)
                 else if \<not> metadata_ok (custodyMetadata d c) (sh_Metadata head)
                 then (Inl [Err ''custody remote metadata mismatch''], r)
                 else let (e, r) = check_integrity L S a c key head r in
                   if e \<noteq> [] then (Inl e, r)
                   else (Inr \<lparr>rc_Destination = d, rc_Claim = c, rc_Key = key,
                              rc_VersionID = to_string (sh_VersionId head)\<rparr>, r)))"

definition VerifyExact :: "jstd \<Rightarrow> 'r s3 \<Rightarrow> awsCustody \<Rightarrow> CustodyClaim \<Rightarrow> 'r \<Rightarrow> (gerr + CustodyReceipt) \<times> 'r" where
  "VerifyExact L S a c r = verifyExactVersion L S a c '''' r"

definition CreateExact :: "jstd \<Rightarrow> (bytes \<Rightarrow> bytes) \<Rightarrow> 'r s3 \<Rightarrow> awsCustody \<Rightarrow> CustodyClaim \<Rightarrow> bytes \<Rightarrow> 'r \<Rightarrow> (gerr + CustodyReceipt) \<times> 'r" where
  "CreateExact L sha S a c data r =
     (let d = aw_destination a in
      case ObjectKey d c of
        Inl e \<Rightarrow> (Inl e, r)
      | Inr key \<Rightarrow>
          if int (length data) \<noteq> cc_Bytes c \<or> sha256hex L data \<noteq> cc_SHA256 c
          then (Inl [Err ''custody local bytes mismatch''], r)
          else (case s3_Put S (cd_Bucket d) key (cd_AccountID d) data (b64_encode L (sha data)) (custodyMetadata d c) r of
              (PutFailed e, r) \<Rightarrow> (Inl e, r)
            | (_, r) \<Rightarrow> VerifyExact L S a c r))"

section \<open>What is relied on\<close>

text \<open>Hashes and base64 are those of the standard library.\<close>

definition hash_law :: "jstd \<Rightarrow> (bytes \<Rightarrow> bytes) \<Rightarrow> bool" where
  "hash_law L sha \<longleftrightarrow> b64_law L \<and> (\<forall>b. sha256hex L b = hex_string (sha b))"

text \<open>The contract of a store that takes custody: what it promises with a receipt that matches, and that it
  does not lose what it has.\<close>

locale custody_store =
  fixes create :: "CustodyClaim \<Rightarrow> bytes \<Rightarrow> 'r \<Rightarrow> (gerr + CustodyReceipt) \<times> 'r"
    and d :: CustodyDestination
    and holds :: "CustodyClaim \<Rightarrow> 'r \<Rightarrow> bool"
  assumes create_holds: "create c data r = (Inr rc, r') \<Longrightarrow> Matches rc d c \<Longrightarrow> holds c r'"
    and create_keeps: "create c data r = (x, r') \<Longrightarrow> holds c' r \<Longrightarrow> holds c' r'"

definition stored :: "jstd \<Rightarrow> (string \<Rightarrow> string \<Rightarrow> 'r \<Rightarrow> bytes list) \<Rightarrow> CustodyDestination \<Rightarrow> CustodyClaim \<Rightarrow> 'r \<Rightarrow> bool" where
  "stored L obj d c r \<longleftrightarrow> (\<exists>key. ObjectKey d c = Inr key \<and>
     (\<exists>b \<in> set (obj (cd_Bucket d) key r). sha256hex L b = cc_SHA256 c \<and> int (length b) = cc_Bytes c))"

lemma stored_mono:
  "stored L obj d c r \<Longrightarrow> (\<And>b k. set (obj b k r) \<subseteq> set (obj b k r')) \<Longrightarrow> stored L obj d c r'"
  unfolding stored_def by blast

lemma hex_nibble_value:
  assumes "is_lower_hex c"
  shows "hex_char c" "0 \<le> hex_value c" "hex_value c < 16" "hex_nibble (nat (hex_value c)) = c"
proof -
  define m where "m = (of_char c :: nat)"
  have m: "char_code c = int m" "c = char_of m" by (simp_all add: m_def char_code_def of_nat_of_char)
  from assms have r: "48 \<le> m \<and> m \<le> 57 \<or> 97 \<le> m \<and> m \<le> 102"
    by (auto simp: is_lower_hex_def is_digit_def m(1))
  have v: "hex_value c = (if m \<le> 57 then int m - 48 else int m - 87)"
    using r by (auto simp: hex_value_def m(1) Let_def)
  show "hex_char c" using r by (auto simp: hex_char_def m(1) Let_def)
  show "0 \<le> hex_value c" "hex_value c < 16" using r by (auto simp: v)
  have "hex_nibble (nat (hex_value c)) = char_of m"
    using r by (auto simp: hex_nibble_def v nat_diff_distrib)
  then show "hex_nibble (nat (hex_value c)) = c" using m(2) by simp
qed

lemma hex_string_decode: "list_all is_lower_hex s \<Longrightarrow> hex_decode s = Some b \<Longrightarrow> hex_string b = s"
proof (induction s arbitrary: b rule: hex_decode.induct)
  case (3 x y s)
  from 3(2,3) obtain t where t: "hex_decode s = Some t" "b = word_of_int (16 * hex_value x + hex_value y) # t"
      "list_all is_lower_hex s" "is_lower_hex x" "is_lower_hex y" "hex_char x" "hex_char y"
    by (auto split: if_splits)
  note v = hex_nibble_value [OF t(4)] hex_nibble_value [OF t(5)]
  define n where "n = 16 * nat (hex_value x) + nat (hex_value y)"
  have n: "n < 256" "16 * hex_value x + hex_value y = int n" "n div 16 = nat (hex_value x)" "n mod 16 = nat (hex_value y)"
    using v by (simp_all add: n_def)
  have "unat (word_of_int (int n) :: byte) = n" using n(1) by (simp add: unsigned_of_nat take_bit_nat_eq_self)
  then have "hex_string b = hex_nibble (n div 16) # hex_nibble (n mod 16) # hex_string t"
    by (simp add: t(2) hex_string_def n(2))
  with 3(1) [OF _ t(3,1)] t(6,7) v n(3,4) show ?case by simp
qed (auto simp: hex_string_def)

lemma b64_inj: "b64_law L \<Longrightarrow> b64_encode L a = b64_encode L b \<Longrightarrow> a = b"
  unfolding b64_law_def by (metis option.inject)

text \<open>The documented behaviour of the object store, over the contents that were ever stored under a key (none of which
  its operations take away: uploads are conditional on the absence of the object): an answer to
  a HEAD request describes one of them, with a checksum that is the base64 text of its SHA-256, and
  a GET request that ends without an error has read one of them.\<close>

locale s3_client =
  fixes L :: jstd and sha :: "bytes \<Rightarrow> bytes" and S :: "'r s3" and obj :: "string \<Rightarrow> string \<Rightarrow> 'r \<Rightarrow> bytes list"
  assumes hash: "hash_law L sha"
    and put_keeps: "s3_Put S b k ow data sum64 md r = (x, r') \<Longrightarrow> set (obj b' k' r) \<subseteq> set (obj b' k' r')"
    and head_keeps: "s3_Head S b k ow v r = (y, r') \<Longrightarrow> set (obj b' k' r) \<subseteq> set (obj b' k' r')"
    and get_keeps: "s3_Get S b k ow v t r = (z, r') \<Longrightarrow> set (obj b' k' r) \<subseteq> set (obj b' k' r')"
    and now_keeps: "s3_Now S r = (now, r') \<Longrightarrow> set (obj b' k' r) \<subseteq> set (obj b' k' r')"
    and head_describes: "s3_Head S b k ow v r = (Inr h, r') \<Longrightarrow>
      \<exists>c \<in> set (obj b k r'). (\<forall>n. sh_ContentLength h = Some n \<longrightarrow> n = int (length c)) \<and>
        (\<forall>s. sh_ChecksumSHA256 h = Some s \<longrightarrow> \<not> sh_Composite h \<longrightarrow> s = b64_encode L (sha c))"
    and get_reads: "s3_Get S b k ow v t r = (Inr body, r') \<Longrightarrow> sb_copyErr body = [] \<Longrightarrow> sb_bytes body \<in> set (obj b k r')"
    and get_fails: "s3_Get S b k ow v t r = (Inl e, r') \<Longrightarrow> e \<noteq> []"
begin

lemma verify_bytes_stored:
  assumes "verify_bytes L S a c key h r = (e, r')"
  shows "set (obj b' k' r) \<subseteq> set (obj b' k' r')"
    and "e = [] \<Longrightarrow> \<exists>b \<in> set (obj (cd_Bucket (aw_destination a)) key r'). sha256hex L b = cc_SHA256 c \<and> int (length b) = cc_Bytes c"
proof -
  obtain q r1 where q: "s3_Get S (cd_Bucket (aw_destination a)) key (cd_AccountID (aw_destination a)) (sh_VersionId h) (sh_ETag h) r = (q, r1)"
    by (metis prod.exhaust)
  have r: "r' = r1" using assms q by (auto simp: verify_bytes_def Let_def split: sum.splits)
  show "set (obj b' k' r) \<subseteq> set (obj b' k' r')" using get_keeps [OF q] r by simp
  assume e: "e = []"
  with assms q obtain body where b: "q = Inr body" "sb_copyErr body = []"
      "int (length (take (nat (cc_Bytes c + 1)) (sb_bytes body))) = cc_Bytes c"
      "sha256hex L (take (nat (cc_Bytes c + 1)) (sb_bytes body)) = cc_SHA256 c"
    using get_fails [of "cd_Bucket (aw_destination a)"] by (auto simp: verify_bytes_def Let_def split: sum.splits if_splits)
  have "take (nat (cc_Bytes c + 1)) (sb_bytes body) = sb_bytes body" using b(3) by auto
  with b get_reads [OF q [unfolded b(1)] b(2)] r
  show "\<exists>b \<in> set (obj (cd_Bucket (aw_destination a)) key r'). sha256hex L b = cc_SHA256 c \<and> int (length b) = cc_Bytes c"
    by auto
qed

lemma check_integrity_stored:
  assumes "check_integrity L S a c key h r = (e, r')"
  shows "set (obj b' k' r) \<subseteq> set (obj b' k' r')"
    and "e = [] \<Longrightarrow> sh_ChecksumSHA256 h = None \<Longrightarrow>
      \<exists>b \<in> set (obj (cd_Bucket (aw_destination a)) key r'). sha256hex L b = cc_SHA256 c \<and> int (length b) = cc_Bytes c"
    and "e = [] \<Longrightarrow> sh_ChecksumSHA256 h = Some s \<Longrightarrow>
      \<exists>m. hex_decode (cc_SHA256 c) = Some m \<and> s = b64_encode L m \<and> \<not> sh_Composite h"
  using assms verify_bytes_stored [of a c key h r e r']
  by (auto simp: check_integrity_def split: option.splits if_splits)

lemma verifyExactVersion_stored:
  assumes "verifyExactVersion L S a c v r = (x, r')"
  shows "set (obj b' k' r) \<subseteq> set (obj b' k' r')"
    and "x = Inr rc \<Longrightarrow> Matches rc (aw_destination a) c \<and> stored L obj (aw_destination a) c r'"
proof -
  let ?d = "aw_destination a"
  have "set (obj b' k' r) \<subseteq> set (obj b' k' r') \<and>
    (x = Inr rc \<longrightarrow> Matches rc ?d c \<and> stored L obj ?d c r')"
  proof (cases "ObjectKey ?d c")
    case (Inl e)
    with assms show ?thesis by (auto simp: verifyExactVersion_def)
  next
    case (Inr key)
    obtain y r1 where 1: "s3_Head S (cd_Bucket ?d) key (cd_AccountID ?d) (if v = '''' then None else Some v) r = (y, r1)"
      by (metis prod.exhaust)
    obtain now r2 where 2: "(if aw_retentionDays a > 0 then s3_Now S r1 else (0, r1)) = (now, r2)" by (metis prod.exhaust)
    have k1: "set (obj p q r) \<subseteq> set (obj p q r1)" for p q by (rule head_keeps [OF 1])
    have k2: "set (obj p q r1) \<subseteq> set (obj p q r2)" for p q
      using 2 now_keeps by (cases "aw_retentionDays a > 0") auto
    show ?thesis
    proof (cases y)
      case (Inl e)
      with assms Inr 1 k1 show ?thesis by (auto simp: verifyExactVersion_def)
    next
      case h: (Inr h)
      obtain e r3 where 3: "check_integrity L S a c key h r2 = (e, r3)" by (metis prod.exhaust)
      have k3: "set (obj p q r2) \<subseteq> set (obj p q r3)" for p q by (rule check_integrity_stored(1) [OF 3])
      have r': "r' = r1 \<or> r' = r2 \<or> r' = r3"
        using assms Inr 1 2 3 h by (auto simp: verifyExactVersion_def Let_def split: if_splits)
      have keep: "set (obj b' k' r) \<subseteq> set (obj b' k' r')" using r' k1 k2 k3 by blast
      have "Matches rc ?d c \<and> stored L obj ?d c r'" if x: "x = Inr rc"
      proof -
        have f: "sh_ContentLength h = Some (cc_Bytes c)" "e = []" "r' = r3"
            "rc = \<lparr>rc_Destination = ?d, rc_Claim = c, rc_Key = key, rc_VersionID = to_string (sh_VersionId h)\<rparr>"
          using assms Inr 1 2 3 h x by (auto simp: verifyExactVersion_def Let_def split: if_splits)
        have hs: "list_all is_lower_hex (cc_SHA256 c)"
          using Inr by (auto simp: ObjectKey_def custodyHash_def split: if_splits)
        have "\<exists>b \<in> set (obj (cd_Bucket ?d) key r3). sha256hex L b = cc_SHA256 c \<and> int (length b) = cc_Bytes c"
        proof (cases "sh_ChecksumSHA256 h")
          case None
          from check_integrity_stored(2) [OF 3 f(2) None] show ?thesis .
        next
          case (Some s)
          from check_integrity_stored(3) [OF 3 f(2) Some] obtain m
            where m: "hex_decode (cc_SHA256 c) = Some m" "s = b64_encode L m" "\<not> sh_Composite h" by blast
          from head_describes [OF 1 [unfolded h]] f(1) Some m(3) obtain b
            where b: "b \<in> set (obj (cd_Bucket ?d) key r1)" "cc_Bytes c = int (length b)" "s = b64_encode L (sha b)" by auto
          have "m = sha b" using b64_inj [of L m "sha b"] hash m(2) b(3) by (simp add: hash_law_def)
          then have "sha256hex L b = cc_SHA256 c"
            using hex_string_decode [OF hs m(1)] hash by (simp add: hash_law_def)
          with b k2 k3 show ?thesis by fastforce
        qed
        with Inr f(3,4) show ?thesis by (simp add: stored_def Matches_def)
      qed
      with keep show ?thesis by blast
    qed
  qed
  then show "set (obj b' k' r) \<subseteq> set (obj b' k' r')"
    "x = Inr rc \<Longrightarrow> Matches rc ?d c \<and> stored L obj ?d c r'" by blast+
qed

lemma CreateExact_stored:
  assumes "CreateExact L sha S a c data r = (x, r')"
  shows "set (obj b' k' r) \<subseteq> set (obj b' k' r')"
    and "x = Inr rc \<Longrightarrow> Matches rc (aw_destination a) c \<and> stored L obj (aw_destination a) c r' \<and>
      sha256hex L data = cc_SHA256 c \<and> int (length data) = cc_Bytes c"
proof -
  let ?d = "aw_destination a"
  have "set (obj b' k' r) \<subseteq> set (obj b' k' r') \<and> (x = Inr rc \<longrightarrow> Matches rc ?d c \<and> stored L obj ?d c r' \<and>
      sha256hex L data = cc_SHA256 c \<and> int (length data) = cc_Bytes c)"
  proof (cases "(\<exists>e. ObjectKey ?d c = Inl e) \<or> int (length data) \<noteq> cc_Bytes c \<or> sha256hex L data \<noteq> cc_SHA256 c")
    case True
    with assms show ?thesis by (cases "ObjectKey ?d c") (auto simp: CreateExact_def)
  next
    case False
    then obtain key where k: "ObjectKey ?d c = Inr key" "int (length data) = cc_Bytes c" "sha256hex L data = cc_SHA256 c"
      by (cases "ObjectKey ?d c") auto
    obtain p r1 where p: "s3_Put S (cd_Bucket ?d) key (cd_AccountID ?d) data (b64_encode L (sha data)) (custodyMetadata ?d c) r = (p, r1)"
      by (metis prod.exhaust)
    have k1: "set (obj y z r) \<subseteq> set (obj y z r1)" for y z by (rule put_keeps [OF p])
    show ?thesis
    proof (cases "\<exists>e. p = PutFailed e")
      case True
      with assms k p have "r' = r1 \<and> (\<exists>e. x = Inl e)" by (auto simp: CreateExact_def)
      with k1 show ?thesis by blast
    next
      case False
      then have "verifyExactVersion L S a c '''' r1 = (x, r')"
        using assms k p by (cases p) (auto simp: CreateExact_def VerifyExact_def)
      from verifyExactVersion_stored [OF this] k1 k show ?thesis by blast
    qed
  qed
  then show "set (obj b' k' r) \<subseteq> set (obj b' k' r')"
    "x = Inr rc \<Longrightarrow> Matches rc ?d c \<and> stored L obj ?d c r' \<and>
      sha256hex L data = cc_SHA256 c \<and> int (length data) = cc_Bytes c" by blast+
qed

end

text \<open>A store in AWS keeps the contract.\<close>

locale aws_store = s3_client L sha S obj
  for L :: jstd and sha :: "bytes \<Rightarrow> bytes" and S :: "'r s3" and obj :: "string \<Rightarrow> string \<Rightarrow> 'r \<Rightarrow> bytes list" +
  fixes a :: awsCustody

sublocale aws_store \<subseteq> custody_store "CreateExact L sha S a" "aw_destination a" "stored L obj (aw_destination a)"
proof
  show "stored L obj (aw_destination a) c r'"
    if "CreateExact L sha S a c data r = (Inr rc, r')" "Matches rc (aw_destination a) c" for c data r rc r'
    using CreateExact_stored(2) [OF that(1) refl] by blast
  show "stored L obj (aw_destination a) c' r'"
    if "CreateExact L sha S a c data r = (x, r')" "stored L obj (aw_destination a) c' r" for c data r x r' c'
    using stored_mono [OF that(2)] CreateExact_stored(1) [OF that(1)] by blast
qed

context aws_store
begin

lemma is_custody_store: "custody_store (CreateExact L sha S a) (aw_destination a) (stored L obj (aw_destination a))"
  by unfold_locales

end

section \<open>An object store\<close>

text \<open>A store that keeps the newest content of each key, with no checksums, and that rejects a second upload.\<close>

type_synonym demo_remote = "((string \<times> string) \<times> bytes \<times> (string \<times> string) list) list"

definition demo_head :: "bytes \<times> (string \<times> string) list \<Rightarrow> s3_head" where
  "demo_head x = \<lparr>sh_VersionId = Some ''v1'', sh_ContentLength = Some (int (length (fst x))), sh_LastModified = Some 0,
     sh_Governance = True, sh_RetainUntil = Some 8640000000000000, sh_Metadata = map_of (snd x), sh_ChecksumSHA256 = None,
     sh_Composite = False, sh_ETag = None\<rparr>"

definition demo_s3 :: "demo_remote s3" where
  "demo_s3 = \<lparr>
     s3_Put = (\<lambda>b k _ data _ md r. if map_of r (b, k) = None then (PutOK, ((b, k), data, md) # r) else (PreconditionFailed, r)),
     s3_Head = (\<lambda>b k _ _ r. (case map_of r (b, k) of None \<Rightarrow> Inl [Err ''NoSuchKey''] | Some x \<Rightarrow> Inr (demo_head x), r)),
     s3_Get = (\<lambda>b k _ _ _ r. (case map_of r (b, k) of None \<Rightarrow> Inl [Err ''NoSuchKey'']
       | Some x \<Rightarrow> Inr \<lparr>sb_Metadata = map_of (snd x), sb_bytes = fst x, sb_copyErr = [], sb_closeErr = []\<rparr>, r)),
     s3_Now = (\<lambda>r. (5, r))\<rparr>"

definition demo_obj :: "string \<Rightarrow> string \<Rightarrow> demo_remote \<Rightarrow> bytes list" where
  "demo_obj b k r = (case map_of r (b, k) of None \<Rightarrow> [] | Some x \<Rightarrow> [fst x])"

text \<open>A library whose hash is the length of its argument in 32 bytes.\<close>

definition demo_sha :: "bytes \<Rightarrow> bytes" where
  "demo_sha b = replicate 31 0 @ [word_of_nat (length b)]"

definition hash_lib :: jstd where
  "hash_lib = demo_lib\<lparr>sha256hex := \<lambda>b. hex_string (demo_sha b)\<rparr>"

lemma hash_lib_law: "hash_law hash_lib demo_sha"
  using demo_b64_law by (simp add: hash_law_def hash_lib_def b64_law_def)

interpretation demo: s3_client hash_lib demo_sha demo_s3 demo_obj
  by unfold_locales (auto simp: hash_lib_law demo_s3_def demo_obj_def demo_head_def split: if_splits option.splits)

definition demo_destination :: CustodyDestination where
  "demo_destination = \<lparr>cd_AccountID = ''123456789012'', cd_Region = ''eu-west-1'', cd_Bucket = ''evidence'',
     cd_Prefix = ''network-usage/v1/main'', cd_ClaimedHostID = ''host-1'', cd_ProducerUserID = '''', cd_MaxObjectBytes = 100\<rparr>"

interpretation demo: aws_store hash_lib demo_sha demo_s3 demo_obj "\<lparr>aw_destination = demo_destination, aw_retentionDays = 30\<rparr>" ..

section \<open>Properties\<close>

text \<open>A component without slashes at the end of a path is determined by the path.\<close>

lemma first_occurrence: "c \<notin> set a \<Longrightarrow> c \<notin> set b \<Longrightarrow> a @ c # u = b @ c # v \<Longrightarrow> a = b \<and> u = v"
proof (induction a arbitrary: b)
  case Nil
  then show ?case by (cases b) auto
next
  case (Cons x a)
  then show ?case by (cases b) auto
qed

lemma last_component:
  assumes "CHR ''/'' \<notin> set x" "CHR ''/'' \<notin> set y" "p @ ''/'' @ x = q @ ''/'' @ y"
  shows "p = q \<and> x = y"
proof -
  have "rev x @ CHR ''/'' # rev p = rev y @ CHR ''/'' # rev q"
    using arg_cong [OF assms(3), of rev] by simp
  from first_occurrence [OF _ _ this] assms(1,2) show ?thesis by simp
qed

lemma no_slash:
  "custodyToken s \<Longrightarrow> CHR ''/'' \<notin> set s" "custodyAccount s \<Longrightarrow> CHR ''/'' \<notin> set s"
  by (auto simp: custodyToken_def custodyAccount_def list_all_iff is_alnum_def is_digit_def is_lower_def is_upper_def
      char_code_def)

lemma no_slash_producer: "ec2ProducerUserID s \<Longrightarrow> CHR ''/'' \<notin> set s"
proof -
  assume e: "ec2ProducerUserID s"
  have "s = take 4 s @ take 17 (drop 4 s) @ take 3 (drop 21 s) @ drop 24 s"
    using append_take_drop_id [of 4 s] append_take_drop_id [of 17 "drop 4 s"] append_take_drop_id [of 3 "drop 21 s"]
    by (simp only: drop_drop) simp
  then have s: "set s = set (take 4 s) \<union> (set (take 17 (drop 4 s)) \<union> (set (take 3 (drop 21 s)) \<union> set (drop 24 s)))"
    by (metis set_append)
  have "CHR ''/'' \<notin> set (take 4 s)" "CHR ''/'' \<notin> set (take 3 (drop 21 s))"
    using e by (simp_all add: ec2ProducerUserID_def)
  moreover have "CHR ''/'' \<notin> set (take 17 (drop 4 s))"
    using e by (auto simp: ec2ProducerUserID_def list_all_iff is_upper_def is_digit_def char_code_def)
  moreover have "CHR ''/'' \<notin> set (drop 24 s)"
    using e by (auto simp: ec2ProducerUserID_def list_all_iff is_digit_def is_lower_hex_def char_code_def)
  ultimately show ?thesis unfolding s by blast
qed

lemma ObjectKey_Inr:
  assumes "ObjectKey d c = Inr key"
  shows "key = ((cd_Prefix d @ ''/'' @ cd_AccountID d) @ ''/'' @ identity_of d) @ ''/'' @ cc_Name c"
    "CHR ''/'' \<notin> set (cc_Name c)" "CHR ''/'' \<notin> set (identity_of d)" "CHR ''/'' \<notin> set (cd_AccountID d)"
  using assms no_slash no_slash_producer
  by (auto simp: ObjectKey_def validate_destination_def identity_valid_def identity_of_def split: if_splits)

text \<open>Objects of different segments and hosts do not collide: if two claims get the same key, then the prefix, the account,
  the host identity and the name of the segment are the same.\<close>

theorem custody_keys_injective:
  assumes "ObjectKey d c = Inr key" "ObjectKey d' c' = Inr key"
  shows "cd_Prefix d = cd_Prefix d' \<and> cd_AccountID d = cd_AccountID d' \<and> identity_of d = identity_of d' \<and> cc_Name c = cc_Name c'"
proof -
  note k = ObjectKey_Inr [OF assms(1)] and k' = ObjectKey_Inr [OF assms(2)]
  from last_component [OF k(2) k'(2) trans [OF k(1) [symmetric] k'(1)]]
  have 1: "(cd_Prefix d @ ''/'' @ cd_AccountID d) @ ''/'' @ identity_of d = (cd_Prefix d' @ ''/'' @ cd_AccountID d') @ ''/'' @ identity_of d'"
    "cc_Name c = cc_Name c'" by simp_all
  from last_component [OF k(3) k'(3) 1(1)]
  have 2: "cd_Prefix d @ ''/'' @ cd_AccountID d = cd_Prefix d' @ ''/'' @ cd_AccountID d'" "identity_of d = identity_of d'" by simp_all
  from last_component [OF k(4) k'(4) 2(1)] 1(2) 2(2) show ?thesis by simp
qed

text \<open>(C29) A receipt is proof of storage: whatever the client answers, when \<open>CreateExact\<close> returns a receipt, the receipt matches the
  destination and the claim, and under the key of the claim there is content with the length and the
  hash of the bytes that were given.\<close>

theorem receipt_proves_storage:
  assumes "s3_client L sha S obj" "CreateExact L sha S a c data r = (Inr rc, r')"
  shows "Matches rc (aw_destination a) c \<and>
    (\<exists>b \<in> set (obj (cd_Bucket (aw_destination a)) (rc_Key rc) r'). sha256hex L b = sha256hex L data \<and> length b = length data)"
proof -
  from s3_client.CreateExact_stored(2) [OF assms refl] have
    m: "Matches rc (aw_destination a) c" "stored L obj (aw_destination a) c r'" "sha256hex L data = cc_SHA256 c" "int (length data) = cc_Bytes c"
    by blast+
  then show ?thesis by (auto simp: stored_def Matches_def)
qed

definition demo_claim :: "bytes \<Rightarrow> CustodyClaim" where
  "demo_claim b = \<lparr>cc_Name = dead_name, cc_SHA256 = sha256hex hash_lib b, cc_Bytes = int (length b)\<rparr>"

theorem custody_keys_injective_witness:
  "(case ObjectKey demo_destination (demo_claim [1]) of Inr k \<Rightarrow> ObjectKey demo_destination (demo_claim [1, 2]) = Inr k | _ \<Rightarrow> False) \<and>
   cc_Name (demo_claim [1]) = cc_Name (demo_claim [1, 2])"
proof -
  have c: "(case ObjectKey demo_destination (demo_claim [1]) of Inr k \<Rightarrow> ObjectKey demo_destination (demo_claim [1, 2]) = Inr k | _ \<Rightarrow> False)"
    by code_simp
  then obtain k where "ObjectKey demo_destination (demo_claim [1]) = Inr k" "ObjectKey demo_destination (demo_claim [1, 2]) = Inr k"
    by (cases "ObjectKey demo_destination (demo_claim [1])") auto
  from custody_keys_injective [OF this] c show ?thesis by blast
qed

theorem receipt_proves_storage_witness:
  "\<exists>rc r. CreateExact hash_lib demo_sha demo_s3 \<lparr>aw_destination = demo_destination, aw_retentionDays = 30\<rparr> (demo_claim [1, 2]) [1, 2] [] = (Inr rc, r) \<and>
     (\<exists>b \<in> set (demo_obj ''evidence'' (rc_Key rc) r). length b = 2)"
proof -
  let ?x = "CreateExact hash_lib demo_sha demo_s3 \<lparr>aw_destination = demo_destination, aw_retentionDays = 30\<rparr> (demo_claim [1, 2]) [1, 2] []"
  have c: "(case fst ?x of Inr rc \<Rightarrow> True | _ \<Rightarrow> False)" by code_simp
  obtain y r where y: "?x = (y, r)" by (metis prod.exhaust)
  from c obtain rc where "y = Inr rc" unfolding y by (cases y) auto
  with y have x: "?x = (Inr rc, r)" by simp
  have b: "cd_Bucket demo_destination = ''evidence''" by (simp add: demo_destination_def)
  from receipt_proves_storage [OF demo.s3_client_axioms x] x b show ?thesis by (auto simp: numeral_2_eq_2)
qed

end
