(* ===== verification/Delivery.thy ===== *)
theory Delivery
  imports Custody
begin

text \<open>
  Delivery of segments to a store that takes custody (\<open>networkusage/delivery.go\<close>), over the spool. A pass holds the
  mutex of the spool only in short sections; what other goroutines do in between is part of the model,
  as lists of operations of the host that run before each section. A listing sees the
  directory as it is when the pass opens it.
\<close>

section \<open>A pass\<close>

definition spool_unavailable :: "Spool \<Rightarrow> bool" where
  "spool_unavailable s \<longleftrightarrow> s_closed s \<or> s_failed s \<noteq> []"

text \<open>The entries of one chunk of \<open>ReadDir\<close>; the listing stops at \<open>limit\<close> candidates.\<close>

fun chunk_candidates :: "nat \<Rightarrow> int \<Rightarrow> (string \<times> direntry) list \<Rightarrow> Segment list \<Rightarrow> disk \<Rightarrow> (gerr + Segment list) \<times> disk" where
  "chunk_candidates limit maxBytes [] out d = (Inr out, d)"
| "chunk_candidates limit maxBytes ((name, x) # es) out d =
     (let (c, d) = cancelled d in
      if c then (Inl [Err ''cancelled''], d)
      else if \<not> segmentName name \<or> has_suffix name ''.active'' then chunk_candidates limit maxBytes es out d
      else let (e, d) = sys d in
        if e \<noteq> [] then (Inl e, d)
        else case x of
          EFile b \<Rightarrow>
            if int (length b) > maxBytes then (Inl [Err ''invalid delivery candidate''], d)
            else let out = out @ [\<lparr>sg_Name = name, sg_SHA256 = '''', sg_Bytes = int (length b),
                                   sg_Incomplete = has_suffix name ''.incomplete''\<rparr>]
                 in if length out = limit then (Inr out, d) else chunk_candidates limit maxBytes es out d
        | _ \<Rightarrow> (Inl [Err ''invalid delivery candidate''], d))"

function list_candidates :: "nat \<Rightarrow> int \<Rightarrow> (string \<times> direntry) list \<Rightarrow> Segment list \<Rightarrow> disk \<Rightarrow> (gerr + Segment list) \<times> disk" where
  "list_candidates limit maxBytes es out d =
     (if length out \<ge> limit then (Inr out, d)
      else let (c, d) = cancelled d in
        if c then (Inl [Err ''cancelled''], d)
        else let (readErr, d) = sys d in
          case chunk_candidates limit maxBytes (take 16 es) out d of
            (Inl e, d) \<Rightarrow> (Inl e, d)
          | (Inr out, d) \<Rightarrow>
              if readErr \<noteq> [] then (Inl readErr, d)
              else if es = [] then (Inr out, d)
              else list_candidates limit maxBytes (drop 16 es) out d)"
  by pat_completeness auto
termination by (relation "measure (\<lambda>(_, _, es, _). length es)") auto

definition deliveryCandidates :: "nat \<Rightarrow> int \<Rightarrow> Spool \<Rightarrow> disk \<Rightarrow> (gerr + Segment list) \<times> disk" where
  "deliveryCandidates limit maxBytes s d =
     (if spool_unavailable s then (Inl [Err ''spool unavailable''], d)
      else let (c, d) = cancelled d in
        if c then (Inl [Err ''cancelled''], d)
        else let (e, d) = sys d in
          if e \<noteq> [] then (Inl e, d) else list_candidates limit maxBytes (dk_entries d) [] d)"

definition spool_readSegment :: "int \<Rightarrow> Segment \<Rightarrow> Spool \<Rightarrow> disk \<Rightarrow> (gerr + bytes) \<times> disk" where
  "spool_readSegment maxBytes segment s d =
     (if spool_unavailable s \<or> \<not> segmentName (sg_Name segment) \<or> sg_Bytes segment < 0 \<or> sg_Bytes segment > maxBytes
      then (Inl [Err ''invalid delivery segment''], d)
      else case fs_read (sg_Name segment) d of
        (Inl e, d) \<Rightarrow> (Inl e, d)
      | (Inr b, d) \<Rightarrow>
          let data = take (nat (maxBytes + 1)) b in
          if int (length data) \<noteq> sg_Bytes segment then (Inl [Err ''local segment changed before delivery''], d)
          else (Inr data, d))"

text \<open>What others do before the next section of the pass.\<close>

definition others :: "jstd \<Rightarrow> host_op list list \<Rightarrow> host \<Rightarrow> host_op list list \<times> host" where
  "others L xs h = (case xs of [] \<Rightarrow> ([], h) | x # xs \<Rightarrow> (xs, host_run L x h))"

definition on_disk :: "(disk \<Rightarrow> 'a \<times> disk) \<Rightarrow> host \<Rightarrow> 'a \<times> host" where
  "on_disk f h = (let (x, d) = f (h_disk h) in (x, h\<lparr>h_disk := d\<rparr>))"

type_synonym 'r custody = "CustodyClaim \<Rightarrow> bytes \<Rightarrow> 'r \<Rightarrow> (gerr + CustodyReceipt) \<times> 'r"

definition deliver_segment :: "jstd \<Rightarrow> 'r custody \<Rightarrow> CustodyDestination \<Rightarrow> Segment \<Rightarrow> host_op list list \<Rightarrow> host \<Rightarrow> 'r \<Rightarrow> (gerr + unit) \<times> host_op list list \<times> host \<times> 'r" where
  "deliver_segment L create dst segment xs h r =
     (let (xs, h) = others L xs h;
          (c, h) = on_disk cancelled h in
      if c then (Inl [Err ''cancelled''], xs, h, r)
      else case on_disk (spool_readSegment (cd_MaxObjectBytes dst) segment (h_spool h)) h of
        (Inl e, h) \<Rightarrow> (Inl e, xs, h, r)
      | (Inr data, h) \<Rightarrow>
          let claim = \<lparr>cc_Name = sg_Name segment, cc_SHA256 = sha256hex L data, cc_Bytes = sg_Bytes segment\<rparr> in
          (case ObjectKey dst claim of
             Inl e \<Rightarrow> (Inl e, xs, h, r)
           | Inr _ \<Rightarrow>
               (case create claim data r of
                  (Inl e, r) \<Rightarrow> (Inl e, xs, h, r)
                | (Inr receipt, r) \<Rightarrow>
                    if \<not> Matches receipt dst claim then (Inl [Err ''custody receipt identity mismatch''], xs, h, r)
                    else let (xs, h) = others L xs h;
                             (e, h) = on_spool (acknowledge L (sg_Name segment) (cc_SHA256 claim)) h
                         in (if e \<noteq> [] then Inl e else Inr (), xs, h, r))))"

text \<open>The loop: the number of segments delivered, and the error.\<close>

fun deliver_loop :: "jstd \<Rightarrow> 'r custody \<Rightarrow> CustodyDestination \<Rightarrow> nat \<Rightarrow> Segment list \<Rightarrow> nat \<Rightarrow> host_op list list \<Rightarrow> host \<Rightarrow> 'r \<Rightarrow> (nat \<times> gerr) \<times> host \<times> 'r" where
  "deliver_loop L create dst limit [] n xs h r = ((n, []), h, r)"
| "deliver_loop L create dst limit (segment # segments) n xs h r =
     (if n = limit then ((n, []), h, r)
      else case deliver_segment L create dst segment xs h r of
        (Inl e, xs, h, r) \<Rightarrow> ((n, e), h, r)
      | (Inr _, xs, h, r) \<Rightarrow> deliver_loop L create dst limit segments (n + 1) xs h r)"

definition deliverOnce :: "jstd \<Rightarrow> 'r custody option \<Rightarrow> CustodyDestination \<Rightarrow> int \<Rightarrow> host_op list list \<Rightarrow> host \<Rightarrow> 'r \<Rightarrow> (nat \<times> gerr) \<times> host \<times> 'r" where
  "deliverOnce L store dst limit xs h r =
     (case store of
        None \<Rightarrow> ((0, [Err ''invalid delivery configuration'']), h, r)
      | Some create \<Rightarrow>
          if limit < 1 \<or> limit > 100 then ((0, [Err ''invalid delivery configuration'']), h, r)
          else if validate_destination dst \<noteq> [] then ((0, validate_destination dst), h, r)
          else let (xs, h) = others L xs h in
            (case on_disk (deliveryCandidates (nat limit) (cd_MaxObjectBytes dst) (h_spool h)) h of
               (Inl e, h) \<Rightarrow> ((0, e), h, r)
             | (Inr segments, h) \<Rightarrow> deliver_loop L create dst (nat limit) segments 0 xs h r))"

section \<open>Sealed segments stay\<close>

text \<open>The segments that are not being written. Only an acknowledgment takes one away.\<close>

definition sealed :: "disk \<Rightarrow> string \<Rightarrow> bytes option" where
  "sealed d n = (if segment_ext n = ''active'' then None else files d n)"

lemma sealed_same: "same_files d d' \<Longrightarrow> sealed d' = sealed d"
  by (simp add: sealed_def same_files_def fun_eq_iff)

lemma sealed_active: "segment_ext a = ''active'' \<Longrightarrow> files d' = (files d)(a := x) \<Longrightarrow> sealed d' = sealed d"
  by (auto simp: sealed_def fun_eq_iff)

lemma open_segment:
  assumes "writer_inv w s d" "sw_open w"
  obtains b where "files d (sw_name w) = Some b" "segment_ext (sw_name w) = ''active''" "segmentName (sw_name w)"
  using assms files_SomeD by (auto simp: writer_inv_def writer_ok_def)

lemma seal_sealed:
  assumes i: "writer_inv w s d" and r: "seal w s d = (e, w', s', d')"
  shows "sealed d \<subseteq>\<^sub>m sealed d'"
proof (cases "sw_open w")
  case False
  with r show ?thesis by (simp add: seal_def)
next
  case True
  obtain e1 d1 where 1: "sys d = (e1, d1)" by (metis prod.exhaust)
  obtain e2 d2 where 2: "sys d1 = (e2, d2)" by (metis prod.exhaust)
  define ext where "ext = (if e1 @ e2 \<noteq> [] \<or> sw_failed w \<noteq> [] then ''incomplete'' else ''jsonl'')"
  obtain e3 d3 where 3: "fs_rename (sw_name w) (trim_active (sw_name w) @ CHR ''.'' # ext) d2 = (e3, d3)"
    by (metis prod.exhaust)
  obtain e4 s4 d4 where 4: "syncDir s d3 = (e4, s4, d4)" by (metis prod.exhaust)
  have d': "d' = d4" using r True 1 2 3 4 by (auto simp: seal_def ext_def Let_def split: if_splits)
  have s02: "same_files d d2" using same_files_trans [OF sys_same [OF 1] sys_same [OF 2]] .
  note i2 = writer_inv_same [OF s02 i]
  from open_segment [OF i2 True] obtain b
    where b: "files d2 (sw_name w) = Some b" "segment_ext (sw_name w) = ''active''" "segmentName (sw_name w)" .
  note t = trim_active_base [OF b(3,2)]
  have ex: "ext \<in> {''active'', ''jsonl'', ''incomplete''}" "ext \<noteq> ''active''" by (simp_all add: ext_def)
  note rn = renamed [OF b(3) ex(1)]
  note f = fs_rename_files [OF 3 [unfolded t] b(1) rn(1)]
  have inj: "inj_on segment_base (dom (files d2))" using i2 by (simp add: writer_inv_def names_ok_def)
  have nb: "files d2 (segment_base (sw_name w) @ CHR ''.'' # ext) = None"
  proof (rule ccontr)
    assume "files d2 (segment_base (sw_name w) @ CHR ''.'' # ext) \<noteq> None"
    with b(1) inj rn(2) have "segment_base (sw_name w) @ CHR ''.'' # ext = sw_name w" by (auto dest: inj_onD)
    with rn(3) b(2) ex(2) show False by metis
  qed
  have "sealed d2 \<subseteq>\<^sub>m sealed d3"
  proof (cases "e3 = []")
    case True
    with f(3) nb b(2) show ?thesis by (auto simp: map_le_def sealed_def split: if_splits)
  next
    case False
    with f(2) show ?thesis by (simp add: sealed_def map_le_def)
  qed
  then show ?thesis
    using sealed_same [OF s02] sealed_same [OF syncDir_same [OF 4]] d' by simp
qed

lemma new_segment_sealed:
  assumes i: "writer_inv w s d" and r: "new_segment w s d = (e, w', s', d')"
  shows "sealed d' = sealed d"
proof (cases "dk_ids d")
  case Nil
  with r show ?thesis by (simp add: new_segment_def)
next
  case (Cons k ids)
  let ?n = "hex_string k @ ''.active''" and ?d0 = "d\<lparr>dk_ids := ids\<rparr>"
  obtain e1 d1 where 1: "fs_create ?n ?d0 = (e1, d1)" by (metis prod.exhaust)
  obtain e2 s2 d2 where 2: "syncDir (s\<lparr>s_count := s_count s + 1\<rparr>) d1 = (e2, s2, d2)" by (metis prod.exhaust)
  have k: "length k = 16" using i Cons by (auto simp: writer_inv_def names_ok_def)
  note nm = active_name [OF k]
  have f0: "files ?d0 = files d" by (rule files_entries) simp
  note cf = fs_create_files [OF 1 nm(1)]
  have s1: "sealed d1 = sealed d"
  proof (cases "e1 = []")
    case True
    then have "files d1 = (files d)(?n := Some [])" using cf(3) f0 by simp
    with sealed_active [OF nm(3)] show ?thesis by blast
  next
    case False
    with cf(2) f0 show ?thesis by (simp add: sealed_def fun_eq_iff)
  qed
  have "d' = d1 \<or> d' = d2" using r Cons 1 2 by (auto simp: new_segment_def Let_def split: if_splits)
  with s1 sealed_same [OF syncDir_same [OF 2]] show ?thesis by auto
qed

lemma write_segment_sealed:
  assumes i: "writer_inv w s d" and o: "sw_open w" and r: "write_segment p w s d = (x, w', s', d')"
  shows "sealed d' = sealed d"
proof -
  from open_segment [OF i o] obtain b where b: "files d (sw_name w) = Some b" "segment_ext (sw_name w) = ''active''" .
  obtain n e d1 where a: "fs_append (sw_name w) p d = ((n, e), d1)" by (metis prod.exhaust)
  have "d' = d1" using r a by (auto simp: write_segment_def Let_def split: if_splits)
  with sealed_active [OF b(2) fs_append_files(4) [OF a b(1)]] show ?thesis by simp
qed

lemma Writer_Write_sealed:
  assumes i: "writer_inv w s d" and p: "whole p" and r: "Writer_Write p w s d = (x, w', s', d')"
  shows "sealed d \<subseteq>\<^sub>m sealed d'"
proof -
  let ?new = "needs_segment p w s"
  obtain e0 d0 where m: "markIncomplete d = (e0, d0)" by (metis prod.exhaust)
  obtain e1 w1 s1 d1 where 1: "(if sw_open w \<and> ?new then seal w s d else ([], w, s, d)) = (e1, w1, s1, d1)"
    by (metis prod.exhaust)
  obtain e2 w2 s2 d2 where 2: "(if sw_open w1 then ([], w1, s1, d1) else new_segment w1 s1 d1) = (e2, w2, s2, d2)"
    by (metis prod.exhaust)
  obtain y w3 s3 d3 where 3: "write_segment p w2 s2 d2 = (y, w3, s3, d3)" by (metis prod.exhaust)
  have l1: "sealed d \<subseteq>\<^sub>m sealed d1" and i1: "writer_inv w1 s1 d1"
    using 1 i seal_sealed [OF i] seal_inv(1) [OF i] by (auto split: if_splits)
  have l2: "sealed d2 = sealed d1" using 2 new_segment_sealed [OF i1] by (auto split: if_splits)
  let ?go = "sw_failed w = [] \<and> spoolAllows (s_used s) (s_count s) (int (length p)) ?new (s_options s)"
  have "d' \<in> {d, d0} \<or> ?go"
    using r m by (auto simp: Writer_Write_def Let_def split: if_splits)
  moreover have "d' = d1 \<or> d' = d2 \<or> (e1 = [] \<and> e2 = [] \<and> d' = d3)" if "d' \<notin> {d, d0}"
  proof -
    from r that m have g: "(case (e1, w1, s1, d1) of
        (e # es, w, s, d) \<Rightarrow> ((0, e # es), w\<lparr>sw_failed := e # es\<rparr>, s, d)
      | ([], w, s, d) \<Rightarrow> (case (if sw_open w then ([], w, s, d) else new_segment w s d) of
             (e # es, w, s, d) \<Rightarrow> ((0, e # es), w, s, d)
           | ([], w, s, d) \<Rightarrow> write_segment p w s d)) = (x, w', s', d')"
      unfolding 1 [symmetric] by (simp add: Writer_Write_def Let_def split: if_splits)
    show ?thesis
    proof (cases e1)
      case Nil
      with g 2 have "(case (e2, w2, s2, d2) of
             (e # es, w, s, d) \<Rightarrow> ((0, e # es), w, s, d)
           | ([], w, s, d) \<Rightarrow> write_segment p w s d) = (x, w', s', d')" by simp
      with 3 Nil show ?thesis by (cases e2) simp_all
    qed (use g in simp)
  qed
  ultimately consider "d' = d" | "d' = d0" | "d' = d1" | "d' = d2"
    | (go) "sw_failed w = []" "spoolAllows (s_used s) (s_count s) (int (length p)) ?new (s_options s)"
        "e1 = []" "e2 = []" "d' = d3"
    by blast
  then show ?thesis
  proof cases
    case go
    have u: "sw_failed w1 = []" "s_options s1 = s_options s" "s_count s1 = s_count s" "\<not> sw_open w1 \<Longrightarrow> ?new"
    proof -
      have "sw_failed w1 = [] \<and> s_options s1 = s_options s \<and> s_count s1 = s_count s \<and> (\<not> sw_open w1 \<longrightarrow> ?new)"
      proof (cases "sw_open w \<and> ?new")
        case True
        with 1 have "seal w s d = (e1, w1, s1, d1)" by simp
        from seal_inv(4,7,10) [OF i this] go(1) True show ?thesis by simp
      next
        case False
        with 1 go(1) show ?thesis by (auto simp: needs_segment_def)
      qed
      then show "sw_failed w1 = []" "s_options s1 = s_options s" "s_count s1 = s_count s" "\<not> sw_open w1 \<Longrightarrow> ?new" by blast+
    qed
    have "writer_inv w2 s2 d2 \<and> sw_open w2"
    proof (cases "sw_open w1")
      case True
      with 2 i1 show ?thesis by simp
    next
      case False
      with 2 have n: "new_segment w1 s1 d1 = (e2, w2, s2, d2)" by simp
      have "s_count s1 < so_MaxSegments (s_options s1)" using go(2) u(2,3,4) False by (simp add: spoolAllows_def)
      from new_segment_inv(1,3) [OF i1 False u(1) this n] go(4) show ?thesis by simp
    qed
    with write_segment_sealed [of w2 s2 d2 p] 3 have "sealed d3 = sealed d2" by blast
    with l1 l2 go(5) show ?thesis by simp
  qed (use l1 l2 sealed_same [OF markIncomplete_same [OF m]] in simp_all)
qed

lemma Writer_Close_sealed:
  assumes i: "writer_inv w s d" and r: "Writer_Close w s d = (e, w', s', d')"
  shows "sealed d \<subseteq>\<^sub>m sealed d'"
proof (cases "sw_closed w")
  case False
  let ?w = "w\<lparr>sw_closed := True\<rparr>" and ?s = "s\<lparr>s_writers := s_writers s - 1\<rparr>"
  obtain e1 w1 s1 d1 where 1: "seal ?w ?s d = (e1, w1, s1, d1)" by (metis prod.exhaust)
  have "writer_inv ?w ?s d" using i by (simp add: writer_inv_def budget_def)
  from seal_sealed [OF this 1] r False 1 show ?thesis by (simp add: Writer_Close_def)
qed (use r in \<open>simp add: Writer_Close_def\<close>)

lemma Spool_Close_same: "Spool_Close s d = (e, s', d') \<Longrightarrow> same_files d d'"
  by (auto simp: Spool_Close_def split: if_splits prod.splits dest!: sys_same intro: same_files_trans)

text \<open>What others may take away: a segment they acknowledge by its name and the hash of its bytes. Deliveries and
  retention passes run beside this one, so acknowledgments are among the operations \<open>A\<close> of others.\<close>

definition kept_by_others :: "jstd \<Rightarrow> host_op set \<Rightarrow> disk \<Rightarrow> disk \<Rightarrow> bool" where
  "kept_by_others L A d d' \<longleftrightarrow> (\<forall>n b. sealed d n = Some b \<longrightarrow> sealed d' n = Some b \<or> HAck n (sha256hex L b) \<in> A)"

definition work :: "host_op set \<Rightarrow> host_op list list \<Rightarrow> bool" where
  "work A xs \<longleftrightarrow> list_all (list_all op_whole) xs \<and> set (concat xs) \<subseteq> A"

lemma kept_by_others_le: "sealed d \<subseteq>\<^sub>m sealed d' \<Longrightarrow> kept_by_others L A d d'"
  by (auto simp: kept_by_others_def map_le_def dom_def)

lemma kept_by_others_trans: "kept_by_others L A d d1 \<Longrightarrow> kept_by_others L A d1 d2 \<Longrightarrow> kept_by_others L A d d2"
  unfolding kept_by_others_def by blast

lemma on_writer_disk:
  "on_writer i f h = (x, h') \<Longrightarrow> \<exists>w s d. f (h_writers h ! i) (h_spool h) (h_disk h) = (x, w, s, d) \<and> h_disk h' = d"
  by (auto simp: on_writer_def split: prod.splits)

text \<open>An acknowledgment takes away at most the segment it names, and only with the hash of its content.\<close>

lemma acknowledge_sealed:
  assumes r: "acknowledge L name digest s d = (e, s', d')"
  shows "sealed d' = sealed d \<or> (\<exists>b. sealed d name = Some b \<and> sha256hex L b = digest \<and> sealed d' = (sealed d)(name := None))"
proof -
  obtain c1 d1 where 1: "cancelled d = (c1, d1)" by (metis prod.exhaust)
  obtain q d2 where 2: "fs_read name d1 = (q, d2)" by (metis prod.exhaust)
  obtain c2 d3 where 3: "cancelled d2 = (c2, d3)" by (metis prod.exhaust)
  obtain e4 d4 where 4: "fs_remove name d3 = (e4, d4)" by (metis prod.exhaust)
  note s1 = cancelled_same [OF 1]
  note s2 = same_files_trans [OF s1 fs_read_same [OF 2]]
  note s3 = same_files_trans [OF s2 cancelled_same [OF 3]]
  consider (early) "same_files d d'"
    | (rm) x where "segmentName name" "\<not> has_suffix name ''.active''" "q = Inr x" "sha256hex L x = digest"
        "(e4 \<noteq> [] \<and> d' = d4) \<or>
         (e4 = [] \<and> syncDir (s\<lparr>s_used := s_used s - int (length x), s_count := s_count s - 1\<rparr>) d4 = (e, s', d'))"
    using r 1 2 3 4 s1 s2 s3 by (auto simp: acknowledge_def split: if_splits sum.splits)
  then show ?thesis
  proof cases
    case early
    then show ?thesis by (simp add: sealed_same)
  next
    case rm
    note fr = fs_remove_files [OF 4 rm(1)]
    have "entry_at d1 name = Some (EFile x)" using fs_read_content [of name d1 x d2] 2 rm(3) by simp
    then have "files d1 name = Some x" using rm(1) by (simp add: files_def)
    then have "files d name = Some x" using s1 by (simp add: same_files_def)
    moreover have ext: "segment_ext name \<noteq> ''active''" using active_suffix [OF rm(1)] rm(2) by simp
    ultimately have x: "sealed d name = Some x" by (simp add: sealed_def)
    from rm(5) show ?thesis
    proof
      assume "e4 \<noteq> [] \<and> d' = d4"
      with fr(1,2) s3 have "same_files d d'" by (simp add: same_files_def)
      then show ?thesis by (simp add: sealed_same)
    next
      assume y: "e4 = [] \<and> syncDir (s\<lparr>s_used := s_used s - int (length x), s_count := s_count s - 1\<rparr>) d4 = (e, s', d')"
      then have "files d4 = (files d)(name := None)" using fr(3) s3 by (simp add: same_files_def)
      then have "sealed d4 = (sealed d)(name := None)" by (auto simp: sealed_def fun_eq_iff)
      moreover have "sealed d' = sealed d4" by (rule sealed_same [OF syncDir_same [OF conjunct2 [OF y]]])
      ultimately have "sealed d' = (sealed d)(name := None)" by simp
      with x rm(4) show ?thesis by (intro disjI2 exI [of _ x] conjI)
    qed
  qed
qed

lemma host_do_sealed:
  assumes i: "host_inv h" and x: "op_whole x" and na: "\<And>n s. x \<noteq> HAck n s"
  shows "sealed (h_disk h) \<subseteq>\<^sub>m sealed (h_disk (host_do L x h))"
proof (cases x)
  case (HWrite k p)
  obtain y h' where h': "host_Write k p h = (y, h')" by (metis prod.exhaust)
  have p: "whole p" using x HWrite by (simp add: op_whole_def)
  have "sealed (h_disk h) \<subseteq>\<^sub>m sealed (h_disk h')"
  proof (cases "k < length (h_writers h)")
    case True
    with h' have "on_writer k (Writer_Write p) h = (y, h')" by (simp add: host_Write_def)
    from on_writer_disk [OF this] obtain w s d
      where "Writer_Write p (h_writers h ! k) (h_spool h) (h_disk h) = (y, w, s, d)" "h_disk h' = d" by blast
    with Writer_Write_sealed [OF host_inv_writer [OF i True] p] show ?thesis by blast
  qed (use h' in \<open>simp add: host_Write_def\<close>)
  with h' HWrite show ?thesis by (simp add: host_do_def)
next
  case (HSync k)
  obtain e h' where h': "host_Sync k h = (e, h')" by (metis prod.exhaust)
  obtain e1 d1 where 1: "sys (h_disk h) = (e1, d1)" by (metis prod.exhaust)
  have "h_disk h' = h_disk h \<or> h_disk h' = d1"
    using h' 1 by (auto simp: host_Sync_def on_writer_def Writer_Sync_def split: if_splits)
  with sealed_same [OF sys_same [OF 1]] h' HSync show ?thesis by (auto simp: host_do_def)
next
  case (HClose k)
  obtain y h' where h': "host_Close k h = (y, h')" by (metis prod.exhaust)
  have "sealed (h_disk h) \<subseteq>\<^sub>m sealed (h_disk h')"
  proof (cases "k < length (h_writers h)")
    case True
    with h' have "on_writer k Writer_Close h = (y, h')" by (simp add: host_Close_def)
    from on_writer_disk [OF this] obtain w s d
      where "Writer_Close (h_writers h ! k) (h_spool h) (h_disk h) = (y, w, s, d)" "h_disk h' = d" by blast
    with Writer_Close_sealed [OF host_inv_writer [OF i True]] show ?thesis by blast
  qed (use h' in \<open>simp add: host_Close_def\<close>)
  with h' HClose show ?thesis by (simp add: host_do_def)
next
  case HSegments
  obtain q d' where r: "Segments L (h_spool h) (h_disk h) = (q, d')" by (metis prod.exhaust)
  with HSegments sealed_same [OF Segments_same [OF r]] show ?thesis by (simp add: host_do_def on_spool_def)
next
  case HSpoolClose
  obtain e s' d' where r: "Spool_Close (h_spool h) (h_disk h) = (e, s', d')" by (metis prod.exhaust)
  with HSpoolClose sealed_same [OF Spool_Close_same [OF r]] show ?thesis by (simp add: host_do_def on_spool_def)
qed (use na in \<open>auto simp: host_do_def add_writer_def\<close>)

lemma host_do_kept:
  assumes i: "host_inv h" and x: "op_whole x" "x \<in> A"
  shows "kept_by_others L A (h_disk h) (h_disk (host_do L x h))"
proof (cases "\<exists>n s. x = HAck n s")
  case False
  with host_do_sealed [OF i x(1)] show ?thesis by (simp add: kept_by_others_le)
next
  case True
  then obtain n s where a: "x = HAck n s" by blast
  obtain e s' d' where r: "acknowledge L n s (h_spool h) (h_disk h) = (e, s', d')" by (metis prod.exhaust)
  with a have "h_disk (host_do L x h) = d'" by (simp add: host_do_def on_spool_def)
  with acknowledge_sealed [OF r] a x(2) show ?thesis by (auto simp: kept_by_others_def)
qed

lemma host_run_kept:
  "host_inv h \<Longrightarrow> list_all op_whole xs \<Longrightarrow> set xs \<subseteq> A \<Longrightarrow>
    host_inv (host_run L xs h) \<and> kept_by_others L A (h_disk h) (h_disk (host_run L xs h))"
  unfolding host_run_def
proof (induction xs arbitrary: h)
  case (Cons x xs)
  have i: "host_inv (host_do L x h)" using host_do_inv [OF Cons.prems(1)] Cons.prems(2) by simp
  have "kept_by_others L A (h_disk h) (h_disk (host_do L x h))" using host_do_kept Cons.prems by simp
  with Cons.IH [OF i] Cons.prems(2,3) show ?case by (auto intro: kept_by_others_trans)
qed (simp add: kept_by_others_def)

lemma others_kept:
  assumes "others L xs h = (xs', h')" "host_inv h" "work A xs"
  shows "host_inv h' \<and> kept_by_others L A (h_disk h) (h_disk h') \<and> work A xs'"
proof (cases xs)
  case (Cons x ys)
  with assms host_run_kept [OF assms(2), of x A L] show ?thesis by (simp add: others_def work_def)
qed (use assms in \<open>simp add: others_def kept_by_others_def\<close>)

section \<open>What a pass keeps\<close>

lemma spool_readSegment_spec:
  assumes "spool_readSegment m segment s d = (q, d')"
  shows "same_files d d'"
    and "q = Inr data \<Longrightarrow> segmentName (sg_Name segment) \<and> files d (sg_Name segment) = Some data \<and> sg_Bytes segment = int (length data)"
proof -
  obtain q0 d0 where f: "fs_read (sg_Name segment) d = (q0, d0)" by (metis prod.exhaust)
  have "d' = d \<or> d' = d0"
    using assms f by (auto simp: spool_readSegment_def Let_def split: if_splits sum.splits)
  with fs_read_same [OF f] show "same_files d d'" by auto
  assume q: "q = Inr data"
  with assms f obtain b where b: "segmentName (sg_Name segment)" "\<not> sg_Bytes segment > m" "q0 = Inr b"
      "data = take (nat (m + 1)) b" "int (length data) = sg_Bytes segment"
    by (auto simp: spool_readSegment_def Let_def split: if_splits sum.splits)
  from b(2,4,5) have "data = b" by auto
  moreover have "files d (sg_Name segment) = Some b"
    using fs_read_content [OF f [unfolded b(3)]] b(1) by (simp add: files_def)
  ultimately show "segmentName (sg_Name segment) \<and> files d (sg_Name segment) = Some data \<and> sg_Bytes segment = int (length data)"
    using b(1,5) by simp
qed

lemma chunk_candidates_same: "chunk_candidates limit m es out d = (q, d') \<Longrightarrow> same_files d d'"
proof (induction es arbitrary: out d q d')
  case (Cons y es)
  obtain name x where y: "y = (name, x)" by (cases y)
  obtain c d1 where 1: "cancelled d = (c, d1)" by (metis prod.exhaust)
  obtain e d2 where s: "sys d1 = (e, d2)" by (metis prod.exhaust)
  note s1 = cancelled_same [OF 1]
  note s2 = same_files_trans [OF s1 sys_same [OF s]]
  have "d' = d1 \<or> d' = d2 \<or> (\<exists>o2. chunk_candidates limit m es o2 d1 = (q, d') \<or> chunk_candidates limit m es o2 d2 = (q, d'))"
    using Cons.prems 1 s y by (auto simp: Let_def split: if_splits direntry.splits)
  with Cons.IH same_files_trans [OF s1] same_files_trans [OF s2] s1 s2 show ?case by blast
qed simp

lemma list_candidates_same: "list_candidates limit m es out d = (q, d') \<Longrightarrow> same_files d d'"
proof (induction limit m es out d arbitrary: q d' rule: list_candidates.induct)
  case (1 limit m es out d)
  obtain c d1 where c: "cancelled d = (c, d1)" by (metis prod.exhaust)
  obtain e d2 where s: "sys d1 = (e, d2)" by (metis prod.exhaust)
  obtain q3 d3 where k: "chunk_candidates limit m (take 16 es) out d2 = (q3, d3)" by (metis prod.exhaust)
  note s1 = cancelled_same [OF c]
  note s2 = same_files_trans [OF s1 sys_same [OF s]]
  note s3 = same_files_trans [OF s2 chunk_candidates_same [OF k]]
  note IH = "1.IH" [OF _ c [symmetric] refl _ s [symmetric] refl k [symmetric]]
  consider "d' = d" | "d' = d1" | "d' = d3"
    | (go) o3 where "\<not> length out \<ge> limit" "\<not> c" "q3 = Inr o3" "\<not> e \<noteq> []" "es \<noteq> []" "list_candidates limit m (drop 16 es) o3 d3 = (q, d')"
    using "1.prems" c s k by (subst (asm) list_candidates.simps) (auto simp: Let_def split: if_splits sum.splits)
  then show ?case
  proof cases
    case go
    from IH [OF go(1,2,3,4,5)] go(6) have "same_files d3 d'" by blast
    with same_files_trans [OF s3] show ?thesis .
  qed (use s1 s3 in simp_all)
qed

lemma deliveryCandidates_same:
  assumes "deliveryCandidates limit m s d = (q, d')"
  shows "same_files d d'"
proof -
  obtain c d1 where c: "cancelled d = (c, d1)" by (metis prod.exhaust)
  obtain e d2 where s: "sys d1 = (e, d2)" by (metis prod.exhaust)
  obtain q3 d3 where k: "list_candidates limit m (dk_entries d2) [] d2 = (q3, d3)" by (metis prod.exhaust)
  note s1 = cancelled_same [OF c]
  note s2 = same_files_trans [OF s1 sys_same [OF s]]
  note s3 = same_files_trans [OF s2 list_candidates_same [OF k]]
  have "d' = d \<or> d' = d1 \<or> d' = d2 \<or> d' = d3"
    using assms c s k by (auto simp: deliveryCandidates_def simp del: list_candidates.simps split: if_splits)
  with s1 s2 s3 show ?thesis by auto
qed

context custody_store
begin

text \<open>Every sealed segment is still there, in custody, or was acknowledged by others.\<close>

definition kept_or_held :: "jstd \<Rightarrow> host_op set \<Rightarrow> disk \<Rightarrow> disk \<Rightarrow> 'r \<Rightarrow> bool" where
  "kept_or_held L A s s' r \<longleftrightarrow> (\<forall>n b. sealed s n = Some b \<longrightarrow> sealed s' n = Some b \<or> HAck n (sha256hex L b) \<in> A \<or>
     (\<exists>c. cc_Name c = n \<and> cc_SHA256 c = sha256hex L b \<and> cc_Bytes c = int (length b) \<and> holds c r))"

lemma kept_or_held_others: "kept_by_others L A s s' \<Longrightarrow> kept_or_held L A s s' r"
  unfolding kept_or_held_def kept_by_others_def by blast

lemma kept_or_held_trans:
  assumes "kept_or_held L A s s1 r1" "kept_or_held L A s1 s2 r2" "\<And>c. holds c r1 \<Longrightarrow> holds c r2"
  shows "kept_or_held L A s s2 r2"
  using assms unfolding kept_or_held_def by blast

lemma deliver_segment_keeps:
  assumes i: "host_inv h" and xs: "work A xs"
    and r: "deliver_segment L create d segment xs h r = (y, xs', h', r')"
  shows "host_inv h' \<and> work A xs' \<and> kept_or_held L A (h_disk h) (h_disk h') r' \<and>
    (\<forall>c. holds c r \<longrightarrow> holds c r')"
proof -
  obtain xs1 h1 where 1: "others L xs h = (xs1, h1)" by (metis prod.exhaust)
  obtain c d2 where 2: "cancelled (h_disk h1) = (c, d2)" by (metis prod.exhaust)
  obtain q d3 where 3: "spool_readSegment (cd_MaxObjectBytes d) segment (h_spool h1) d2 = (q, d3)" by (metis prod.exhaust)
  define h3 where "h3 = h1\<lparr>h_disk := d3\<rparr>"
  note o1 = others_kept [OF 1 i xs]
  note s2 = cancelled_same [OF 2]
  note s3 = same_files_trans [OF s2 spool_readSegment_spec(1) [OF 3]]
  have b: "budget (h_spool h1) (h_disk h1)" using o1 by (simp add: host_inv_def)
  have keep: "host_inv (h1\<lparr>h_disk := e\<rparr>)" if "same_files (h_disk h1) e" for e
    using host_inv_same [OF _ that b] o1 by simp
  have le: "kept_or_held L A (h_disk h) e ra" if "same_files (h_disk h1) e" for e ra
    by (rule kept_or_held_others) (use o1 sealed_same [OF that] in \<open>simp add: kept_by_others_def\<close>)
  consider (stop) e where "same_files (h_disk h1) e" "h' = h1\<lparr>h_disk := e\<rparr>" "xs' = xs1" "r' = r"
    | (read) data where "q = Inr data" "\<not> c"
    using r 1 2 3 s2 s3
    by (cases q) (auto simp: deliver_segment_def on_disk_def Let_def split: if_splits)
  then show ?thesis
  proof cases
    case stop
    with keep le o1 show ?thesis by simp
  next
    case read
    let ?c = "\<lparr>cc_Name = sg_Name segment, cc_SHA256 = sha256hex L data, cc_Bytes = sg_Bytes segment\<rparr>"
    obtain z r1 where z: "create ?c data r = (z, r1)" by (metis prod.exhaust)
    note hk = create_keeps [OF z]
    obtain xs4 h4 where 4: "others L xs1 h3 = (xs4, h4)" by (metis prod.exhaust)
    obtain e5 h5 where 5: "on_spool (acknowledge L (sg_Name segment) (sha256hex L data)) h4 = (e5, h5)" by (metis prod.exhaust)
    have i3: "host_inv h3" using keep [OF s3] by (simp add: h3_def)
    from o1 have x1: "work A xs1" by simp
    note o4 = others_kept [OF 4 i3 x1]
    consider (early) "h' = h3" "xs' = xs1" "r' = r \<or> r' = r1"
      | (ack) rc where "z = Inr rc" "Matches rc d ?c" "h' = h5" "xs' = xs4" "r' = r1"
      using r 1 2 3 4 5 z read
      by (auto simp: deliver_segment_def on_disk_def Let_def h3_def split: sum.splits if_splits)
    then show ?thesis
    proof cases
      case early
      with i3 le [OF s3] x1 hk show ?thesis by (auto simp: h3_def)
    next
      case ack
      have hc: "holds ?c r1" using create_holds [OF z [unfolded ack(1)] ack(2)] .
      obtain s6 d6 where 6: "acknowledge L (sg_Name segment) (sha256hex L data) (h_spool h4) (h_disk h4) = (e5, s6, d6)"
          "h5 = h4\<lparr>h_spool := s6, h_disk := d6\<rparr>"
        using 5 by (auto simp: on_spool_def split: prod.splits)
      have i5: "host_inv h5" using acknowledge_inv [OF _ 6(1)] o4 6(2) by simp
      have l4: "kept_by_others L A (h_disk h) (h_disk h4)"
        using o1 o4 sealed_same [OF s3] by (auto simp: h3_def kept_by_others_def)
      have "kept_or_held L A (h_disk h4) d6 r1"
        using acknowledge_sealed [OF 6(1)]
      proof (elim disjE exE conjE)
        fix x assume x: "sealed (h_disk h4) (sg_Name segment) = Some x" "sha256hex L x = sha256hex L data" "sealed d6 = (sealed (h_disk h4))(sg_Name segment := None)"
        have ext: "segment_ext (sg_Name segment) \<noteq> ''active''" using x(1) by (auto simp: sealed_def)
        note rd = spool_readSegment_spec(2) [OF 3 read(1)]
        have "sealed d2 (sg_Name segment) = Some data" using rd ext by (simp add: sealed_def)
        then have "sealed d3 (sg_Name segment) = Some data" using sealed_same [OF spool_readSegment_spec(1) [OF 3]] by simp
        moreover have "kept_by_others L A d3 (h_disk h4)" using o4 by (simp add: h3_def)
        ultimately have "x = data \<or> HAck (sg_Name segment) (sha256hex L x) \<in> A"
          using x(1,2) unfolding kept_by_others_def by force
        then show ?thesis unfolding kept_or_held_def using x(1,3) hc rd by auto
      qed (simp add: kept_or_held_def)
      then have "kept_or_held L A (h_disk h) (h_disk h5) r1"
        using kept_or_held_trans [OF kept_or_held_others [OF l4]] 6(2) by simp
      with i5 o4 hk ack(3-5) show ?thesis by blast
    qed
  qed
qed

lemma deliver_loop_keeps:
  assumes "host_inv h" "work A xs" "deliver_loop L create d limit segments n xs h r = (x, h', r')"
  shows "host_inv h' \<and> kept_or_held L A (h_disk h) (h_disk h') r' \<and> (\<forall>c. holds c r \<longrightarrow> holds c r')"
  using assms
proof (induction segments arbitrary: n xs h r)
  case Nil
  then show ?case by (simp add: kept_or_held_def)
next
  case (Cons segment segments)
  obtain y xs1 h1 r1 where 1: "deliver_segment L create d segment xs h r = (y, xs1, h1, r1)" by (metis prod.exhaust)
  note k = deliver_segment_keeps [OF Cons.prems(1,2) 1]
  consider (stop) "h' = h" "r' = r" | (err) "h' = h1" "r' = r1"
    | (go) "deliver_loop L create d limit segments (n + 1) xs1 h1 r1 = (x, h', r')"
    using Cons.prems(3) 1 by (cases y) (auto split: if_splits)
  then show ?case
  proof cases
    case go
    from Cons.IH [OF _ _ go] k have "host_inv h' \<and> kept_or_held L A (h_disk h1) (h_disk h') r' \<and> (\<forall>c. holds c r1 \<longrightarrow> holds c r')"
      by blast
    with k kept_or_held_trans [of L A "h_disk h" "h_disk h1" r1 "h_disk h'" r'] show ?thesis by blast
  qed (use k Cons.prems(1) in \<open>auto simp: kept_or_held_def\<close>)
qed

lemma deliverOnce_keeps:
  assumes i: "host_inv h" and xs: "work A xs"
    and r: "deliverOnce L (Some create) d limit xs h r = (x, h', r')"
  shows "host_inv h' \<and> kept_or_held L A (h_disk h) (h_disk h') r'"
proof -
  obtain xs1 h1 where 1: "others L xs h = (xs1, h1)" by (metis prod.exhaust)
  obtain q d2 where 2: "deliveryCandidates (nat limit) (cd_MaxObjectBytes d) (h_spool h1) (h_disk h1) = (q, d2)" by (metis prod.exhaust)
  define h2 where "h2 = h1\<lparr>h_disk := d2\<rparr>"
  note o1 = others_kept [OF 1 i xs]
  note s2 = deliveryCandidates_same [OF 2]
  have b: "budget (h_spool h1) (h_disk h1)" using o1 by (simp add: host_inv_def)
  have i2: "host_inv h2" using host_inv_same [OF _ s2 b] o1 by (simp add: h2_def)
  have k2: "kept_or_held L A (h_disk h) (h_disk h2) ra" for ra
    by (rule kept_or_held_others) (use o1 sealed_same [OF s2] in \<open>simp add: h2_def kept_by_others_def\<close>)
  consider "h' = h" | "h' = h2" | (go) segments where "deliver_loop L create d (nat limit) segments 0 xs1 h2 r = (x, h', r')"
    using r 1 2 by (auto simp: deliverOnce_def on_disk_def h2_def split: if_splits sum.splits)
  then show ?thesis
  proof cases
    case go
    from deliver_loop_keeps [OF i2 _ go] o1 have k: "host_inv h'" "kept_or_held L A (h_disk h2) (h_disk h') r'" "\<forall>c. holds c r \<longrightarrow> holds c r'"
      by auto
    with kept_or_held_trans [OF k2 [of r]] show ?thesis by blast
  qed (use i i2 k2 in \<open>simp_all add: kept_or_held_def\<close>)
qed

end

text \<open>(C24) Evidence leaves the spool only into custody or by an acknowledgment of others: during a delivery pass to
  AWS, with any failures of the file system and of the store and any other work on the spool in between, writers,
  listings, closes and acknowledgments of segments included, every complete or incomplete segment that was there is
  there afterwards with the same bytes, or the store holds, under a key of the destination that ends with the name of
  the segment, content of the same length and hash, or the other work has acknowledged that segment by its name and
  the hash of its bytes. The pass itself never takes away what the store does not hold.\<close>

theorem delivery_keeps_evidence:
  assumes "s3_client L sha S obj" "host_inv h" "list_all (list_all op_whole) xs"
    and "deliverOnce L (Some (CreateExact L sha S a)) (aw_destination a) limit xs h r = (x, h', r')"
    and "files (h_disk h) n = Some b" "segment_ext n \<noteq> ''active''"
  shows "files (h_disk h') n = Some b \<or> HAck n (sha256hex L b) \<in> set (concat xs) \<or>
    (\<exists>c key. cc_Name c = n \<and> ObjectKey (aw_destination a) c = Inr key \<and>
      (\<exists>b' \<in> set (obj (cd_Bucket (aw_destination a)) key r'). sha256hex L b' = sha256hex L b \<and> length b' = length b))"
proof -
  have st: "custody_store (CreateExact L sha S a) (aw_destination a) (stored L obj (aw_destination a))"
    by (rule aws_store.is_custody_store [OF aws_store.intro [OF assms(1)]])
  have "work (set (concat xs)) xs" using assms(3) by (simp add: work_def)
  from custody_store.deliverOnce_keeps [OF st assms(2) this assms(4)]
  have "custody_store.kept_or_held (stored L obj (aw_destination a)) L (set (concat xs)) (h_disk h) (h_disk h') r'" by blast
  moreover have "sealed (h_disk h) n = Some b" using assms(5,6) by (simp add: sealed_def)
  ultimately consider "sealed (h_disk h') n = Some b" | "HAck n (sha256hex L b) \<in> set (concat xs)"
    | c where "cc_Name c = n" "cc_SHA256 c = sha256hex L b" "cc_Bytes c = int (length b)" "stored L obj (aw_destination a) c r'"
    unfolding custody_store.kept_or_held_def [OF st] by blast
  then show ?thesis
  proof cases
    case 1
    then show ?thesis by (simp add: sealed_def split: if_splits)
  next
    case 3
    then show ?thesis unfolding stored_def by (metis of_nat_eq_iff)
  qed blast
qed

text \<open>Two complete segments: the first is delivered; the second, which the listing has seen, is acknowledged by others
  before it is read, and another writer starts a segment, so the pass ends with an error after one delivery.\<close>

definition demo_aws :: awsCustody where
  "demo_aws = \<lparr>aw_destination = demo_destination, aw_retentionDays = 30\<rparr>"

definition demo_sealed :: host where
  "demo_sealed = host_run hash_lib [HOpen, HWrite 0 [1, 10], HClose 0, HOpen, HWrite 1 [2, 3, 10], HClose 1, HOpen]
     (demo_spool (demo_disk []))"

definition sealed_name :: "byte \<Rightarrow> string" where
  "sealed_name i = hex_string (replicate 16 i) @ ''.jsonl''"

definition demo_others :: "host_op list list" where
  "demo_others = [[], [HSync 2], [HSegments], [HAck (sealed_name 2) (sha256hex hash_lib [2, 3, 10]), HWrite 2 [4, 10]]]"

theorem delivery_keeps_evidence_witness:
  "\<exists>e h r. deliverOnce hash_lib (Some (CreateExact hash_lib demo_sha demo_s3 demo_aws)) demo_destination 5 demo_others demo_sealed [] = ((1, e), h, r) \<and>
     files (h_disk demo_sealed) (sealed_name 1) = Some [1, 10] \<and> files (h_disk h) (sealed_name 1) = None \<and>
     (\<exists>key. \<exists>b' \<in> set (demo_obj ''evidence'' key r). length b' = 2) \<and>
     HAck (sealed_name 2) (sha256hex hash_lib [2, 3, 10]) \<in> set (concat demo_others) \<and> e \<noteq> []"
proof -
  let ?o = "deliverOnce hash_lib (Some (CreateExact hash_lib demo_sha demo_s3 demo_aws)) demo_destination 5 demo_others demo_sealed []"
  have c: "(case ?o of (x, h, r) \<Rightarrow> fst x = 1 \<and> snd x \<noteq> [] \<and> entry_at (h_disk h) (sealed_name 1) = None)" by code_simp
  obtain e h r where o: "?o = ((1, e), h, r)" and x: "e \<noteq> []" and gone: "entry_at (h_disk h) (sealed_name 1) = None"
    using c by (cases ?o) auto
  have f0: "entry_at (h_disk demo_sealed) (sealed_name 1) = Some (EFile [1, 10]) \<and> segmentName (sealed_name 1) \<and> segment_ext (sealed_name 1) \<noteq> ''active''"
    by code_simp
  then have f: "files (h_disk demo_sealed) (sealed_name 1) = Some [1, 10]" by (simp add: files_def)
  have g: "files (h_disk h) (sealed_name 1) = None" using gone by (simp add: files_def)
  have e: "demo_spool (demo_disk []) = \<lparr>h_spool = h_spool (demo_spool (demo_disk [])), h_disk = h_disk (demo_spool (demo_disk [])), h_writers = []\<rparr>"
    by code_simp
  have n: "names_ok (demo_disk [])" "sealed_whole (demo_disk [])" "distinct (map fst (dk_entries (demo_disk [])))"
    using demo_names [of "[]"] demo_files(1) by (simp_all add: names_ok_def sealed_whole_def) (simp add: demo_disk_def)
  have "host_inv (demo_spool (demo_disk []))" using openSpool_inv(1) [OF demo_opened_spool(1) n(3,1,2)] e by simp
  from host_run_inv [OF this] have i: "host_inv demo_sealed" by (simp add: demo_sealed_def op_whole_def whole_def)
  have xs: "list_all (list_all op_whole) demo_others" by (simp add: demo_others_def op_whole_def whole_def)
  have d: "aw_destination demo_aws = demo_destination" "cd_Bucket demo_destination = ''evidence''"
    by (simp_all add: demo_aws_def demo_destination_def)
  have a: "HAck (sealed_name 1) (sha256hex hash_lib [1, 10]) \<notin> set (concat demo_others)" by code_simp
  from delivery_keeps_evidence [OF demo.s3_client_axioms i xs _ f, of demo_aws 5 "[]" "(1, e)" h r, unfolded d, OF o conjunct2 [OF conjunct2 [OF f0]]] g a
  obtain key b' where "b' \<in> set (demo_obj ''evidence'' key r)" "length b' = 2" by auto
  with o x f g show ?thesis by (fastforce simp: demo_others_def)
qed

end
