(* ===== verification/Reservations.thy ===== *)
theory Reservations
  imports Prelude "HOL-Library.AList"
begin

text \<open>
  Reservations of sandbox starts in the API (\<open>api/internal/sandbox/reservations/redis\<close>, used by
  \<open>api/internal/sandbox/store.go\<close>): instances of the API that start sandboxes of a team share a Redis
  store, which holds the index of the stored sandboxes, the pending reservations with their times
  and the results for those who wait for a start made by another instance.

  A Redis command or script is one step. Every call takes a \<open>fault\<close>: it reaches Redis and is
  answered, it never reaches Redis, or it is carried out and the answer is lost. Redis and the API
  read one clock, in seconds (\<open>now\<close> and \<open>staleCutoff\<close> are taken from one reading). The JSON codec of results
  is a parameter. Notifications only wake a waiter earlier, which the model allows at any time.
\<close>

section \<open>Keys\<close>

fun CreateKey :: "string list \<Rightarrow> string" where
  "CreateKey [] = ''''"
| "CreateKey [x] = x"
| "CreateKey (x # y # ks) = x @ '':'' @ CreateKey (y # ks)"

definition SameSlot :: "string \<Rightarrow> string" where
  "SameSlot key = ''{'' @ key @ ''}''"

definition GetTeamPrefix :: "string \<Rightarrow> string" where
  "GetTeamPrefix teamID = CreateKey [''sandbox:storage'', SameSlot teamID]"

definition getStorageIndexKey :: "string \<Rightarrow> string" where
  "getStorageIndexKey teamID = CreateKey [GetTeamPrefix teamID, ''index'']"

definition getReservationPrefix :: "string \<Rightarrow> string" where
  "getReservationPrefix teamID = CreateKey [GetTeamPrefix teamID, ''reservations'']"

definition getPendingSetKey :: "string \<Rightarrow> string" where
  "getPendingSetKey teamID = CreateKey [getReservationPrefix teamID, ''pending'']"

definition getResultKey :: "string \<Rightarrow> string \<Rightarrow> string" where
  "getResultKey teamID sandboxID = CreateKey [getReservationPrefix teamID, sandboxID, ''result'']"

section \<open>Redis\<close>

text \<open>Sets, sorted sets and strings with the time at which they expire.\<close>

record rredis =
  rr_set :: "string \<Rightarrow> string list"
  rr_zset :: "string \<Rightarrow> (string \<times> int) list"
  rr_str :: "string \<Rightarrow> (string \<times> int) option"
  rr_time :: int

definition redis_get :: "string \<Rightarrow> rredis \<Rightarrow> string option" where
  "redis_get k r = (case rr_str r k of None \<Rightarrow> None | Some (v, e) \<Rightarrow> if rr_time r < e then Some v else None)"

definition redis_set_ex :: "string \<Rightarrow> string \<Rightarrow> int \<Rightarrow> rredis \<Rightarrow> rredis" where
  "redis_set_ex k v ttl r = r\<lparr>rr_str := (rr_str r)(k := Some (v, rr_time r + ttl))\<rparr>"

definition redis_del :: "string \<Rightarrow> rredis \<Rightarrow> rredis" where
  "redis_del k r = r\<lparr>rr_str := (rr_str r)(k := None)\<rparr>"

definition redis_sadd :: "string \<Rightarrow> string \<Rightarrow> rredis \<Rightarrow> rredis" where
  "redis_sadd k m r = r\<lparr>rr_set := (rr_set r)(k := List.insert m (rr_set r k))\<rparr>"

definition redis_srem :: "string \<Rightarrow> string \<Rightarrow> rredis \<Rightarrow> rredis" where
  "redis_srem k m r = r\<lparr>rr_set := (rr_set r)(k := filter (\<lambda>x. x \<noteq> m) (rr_set r k))\<rparr>"

definition redis_zadd :: "string \<Rightarrow> int \<Rightarrow> string \<Rightarrow> rredis \<Rightarrow> rredis" where
  "redis_zadd k score m r = r\<lparr>rr_zset := (rr_zset r)(k := AList.update m score (rr_zset r k))\<rparr>"

definition redis_zrem :: "string \<Rightarrow> string \<Rightarrow> rredis \<Rightarrow> rredis" where
  "redis_zrem k m r = r\<lparr>rr_zset := (rr_zset r)(k := AList.delete m (rr_zset r k))\<rparr>"

text \<open>\<open>ZREMRANGEBYSCORE k -inf cutoff\<close>, which includes the cutoff.\<close>

definition redis_zclean :: "string \<Rightarrow> int \<Rightarrow> rredis \<Rightarrow> rredis" where
  "redis_zclean k cutoff r = r\<lparr>rr_zset := (rr_zset r)(k := filter (\<lambda>(_, s). s > cutoff) (rr_zset r k))\<rparr>"

definition redis_zscore :: "string \<Rightarrow> string \<Rightarrow> rredis \<Rightarrow> int option" where
  "redis_zscore k m r = map_of (rr_zset r k) m"

section \<open>The scripts (scripts.go)\<close>

definition reserveResultReserved :: int where "reserveResultReserved = 0"
definition reserveResultAlreadyInStorage :: int where "reserveResultAlreadyInStorage = 1"
definition reserveResultAlreadyPending :: int where "reserveResultAlreadyPending = 2"
definition reserveResultLimitExceeded :: int where "reserveResultLimitExceeded = 3"

definition resultTTL :: int where "resultTTL = 30"
definition staleTTL :: int where "staleTTL = 90"

definition reserveScript :: "string \<Rightarrow> string \<Rightarrow> string \<Rightarrow> string \<Rightarrow> int \<Rightarrow> int \<Rightarrow> int \<Rightarrow> rredis \<Rightarrow> int \<times> rredis" where
  "reserveScript indexKey pendingKey resKey sandboxID limit now cutoff r =
     (let r = redis_zclean pendingKey cutoff r in
      if sandboxID \<in> set (rr_set r indexKey) then (reserveResultAlreadyInStorage, r)
      else if redis_zscore pendingKey sandboxID r \<noteq> None then (reserveResultAlreadyPending, r)
      else if limit \<ge> 0 \<and> int (length (rr_set r indexKey)) + int (length (rr_zset r pendingKey)) \<ge> limit
      then (reserveResultLimitExceeded, r)
      else (reserveResultReserved, redis_zadd pendingKey now sandboxID (redis_del resKey r)))"

definition finishStartScript :: "string \<Rightarrow> string \<Rightarrow> string \<Rightarrow> string \<Rightarrow> int \<Rightarrow> rredis \<Rightarrow> rredis" where
  "finishStartScript pendingKey resKey sandboxID data ttl r = redis_set_ex resKey data ttl (redis_zrem pendingKey sandboxID r)"

definition releaseScript :: "string \<Rightarrow> string \<Rightarrow> string \<Rightarrow> rredis \<Rightarrow> rredis" where
  "releaseScript pendingKey resKey sandboxID r = redis_del resKey (redis_zrem pendingKey sandboxID r)"

section \<open>Results (result.go)\<close>

text \<open>An error of a start: its message, and the code and client message of the \<open>APIError\<close> that it is or wraps.\<close>

record start_error =
  se_Message :: string
  se_Api :: "(int \<times> string) option"

record reservationError =
  re_Message :: string
  re_Code :: int
  re_ClientMsg :: string

record 's reservationResult =
  rs_Sandbox :: 's
  rs_Error :: "reservationError option"

record 's result_codec =
  marshal_result :: "'s reservationResult \<Rightarrow> string option"
  unmarshal_result :: "string \<Rightarrow> 's reservationResult option"

definition codec_law :: "'s result_codec \<Rightarrow> bool" where
  "codec_law J \<longleftrightarrow> (\<forall>x d. marshal_result J x = Some d \<longrightarrow> unmarshal_result J d = Some x)"

definition encodeResult :: "'s result_codec \<Rightarrow> 's \<Rightarrow> start_error option \<Rightarrow> string option" where
  "encodeResult J sbx err = marshal_result J \<lparr>rs_Sandbox = sbx,
     rs_Error = map_option (\<lambda>e. \<lparr>re_Message = se_Message e,
       re_Code = (case se_Api e of None \<Rightarrow> 0 | Some (c, _) \<Rightarrow> c),
       re_ClientMsg = (case se_Api e of None \<Rightarrow> '''' | Some (_, m) \<Rightarrow> m)\<rparr>) err\<rparr>"

definition reconstructError :: "reservationError \<Rightarrow> start_error" where
  "reconstructError re = \<lparr>se_Message = re_Message re,
     se_Api = (if re_Code re \<noteq> 0 then Some (re_Code re, re_ClientMsg re) else None)\<rparr>"

datatype rsv_error =
    RedisFailed
  | ErrAlreadyExists
  | LimitExceeded string
  | UnexpectedResult int
  | BadResult
  | StartFailed start_error
  | NoLongerPending string
  | Cancelled
  | StorageError

definition decodeResult :: "'s result_codec \<Rightarrow> string \<Rightarrow> rsv_error + 's" where
  "decodeResult J data = (case unmarshal_result J data of
     None \<Rightarrow> Inl BadResult
   | Some x \<Rightarrow> (case rs_Error x of Some e \<Rightarrow> Inl (StartFailed (reconstructError e)) | None \<Rightarrow> Inr (rs_Sandbox x)))"

section \<open>Operations (reservation.go)\<close>

datatype fault = Fine | NotSent | LostReply

text \<open>A call that changes Redis, and a reading one: what the caller sees.\<close>

definition run_script :: "fault \<Rightarrow> (rredis \<Rightarrow> 'a \<times> rredis) \<Rightarrow> rredis \<Rightarrow> (rsv_error + 'a) \<times> rredis" where
  "run_script f s r = (case f of
     Fine \<Rightarrow> (let (x, r) = s r in (Inr x, r))
   | NotSent \<Rightarrow> (Inl RedisFailed, r)
   | LostReply \<Rightarrow> (Inl RedisFailed, snd (s r)))"

datatype reserve_reply = FinishStart | WaitForStart

definition Reserve :: "string \<Rightarrow> string \<Rightarrow> int \<Rightarrow> fault \<Rightarrow> rredis \<Rightarrow> (rsv_error + reserve_reply) \<times> rredis" where
  "Reserve teamID sandboxID limit f r =
     (case run_script f (reserveScript (getStorageIndexKey teamID) (getPendingSetKey teamID) (getResultKey teamID sandboxID)
             sandboxID limit (rr_time r) (rr_time r - staleTTL)) r of
        (Inl e, r) \<Rightarrow> (Inl e, r)
      | (Inr result, r) \<Rightarrow>
          (if result = reserveResultReserved then Inr FinishStart
           else if result = reserveResultAlreadyInStorage then Inl ErrAlreadyExists
           else if result = reserveResultAlreadyPending then Inr WaitForStart
           else if result = reserveResultLimitExceeded then Inl (LimitExceeded teamID)
           else Inl (UnexpectedResult result), r))"

definition Release :: "string \<Rightarrow> string \<Rightarrow> fault \<Rightarrow> rredis \<Rightarrow> (rsv_error + unit) \<times> rredis" where
  "Release teamID sandboxID f r =
     run_script f (\<lambda>r. ((), releaseScript (getPendingSetKey teamID) (getResultKey teamID sandboxID) sandboxID r)) r"

definition finishStart :: "'s result_codec \<Rightarrow> string \<Rightarrow> string \<Rightarrow> 's \<Rightarrow> start_error option \<Rightarrow> fault \<Rightarrow> rredis \<Rightarrow> rredis" where
  "finishStart J teamID sandboxID sbx err f r =
     (case encodeResult J sbx err of
        None \<Rightarrow> snd (run_script f (\<lambda>r. ((), redis_zrem (getPendingSetKey teamID) sandboxID r)) r)
      | Some data \<Rightarrow> snd (run_script f (\<lambda>r. ((), finishStartScript (getPendingSetKey teamID) (getResultKey teamID sandboxID)
          sandboxID data resultTTL r)) r))"

text \<open>The index changes with the scripts of the storage.\<close>

definition storage_add :: "string \<Rightarrow> string \<Rightarrow> rredis \<Rightarrow> rredis" where
  "storage_add teamID sandboxID r = redis_sadd (getStorageIndexKey teamID) sandboxID r"

definition storage_remove :: "string \<Rightarrow> string \<Rightarrow> rredis \<Rightarrow> rredis" where
  "storage_remove teamID sandboxID r = redis_srem (getStorageIndexKey teamID) sandboxID r"

text \<open>What instances of the API do between the commands of a waiter; \<open>OTick n\<close> lets \<open>n\<close> seconds pass.\<close>

datatype 's rop =
    OReserve string string int fault
  | ORelease string string fault
  | OFinish string string 's "start_error option" fault
  | OAdd string string
  | ORemove string string
  | OTick nat

definition rop_do :: "'s result_codec \<Rightarrow> 's rop \<Rightarrow> rredis \<Rightarrow> rredis" where
  "rop_do J x r = (case x of
     OReserve t s l f \<Rightarrow> snd (Reserve t s l f r)
   | ORelease t s f \<Rightarrow> snd (Release t s f r)
   | OFinish t s b e f \<Rightarrow> finishStart J t s b e f r
   | OAdd t s \<Rightarrow> storage_add t s r
   | ORemove t s \<Rightarrow> storage_remove t s r
   | OTick n \<Rightarrow> r\<lparr>rr_time := rr_time r + int n\<rparr>)"

definition rop_run :: "'s result_codec \<Rightarrow> 's rop list \<Rightarrow> rredis \<Rightarrow> rredis" where
  "rop_run J xs r = fold (rop_do J) xs r"

text \<open>One probe. Before each of its three commands others run; each command can fail.\<close>

record 's probe =
  pb_ops1 :: "'s rop list"
  pb_get1 :: bool
  pb_ops2 :: "'s rop list"
  pb_score :: bool
  pb_ops3 :: "'s rop list"
  pb_get2 :: bool

definition tryReadResult :: "'s result_codec \<Rightarrow> string \<Rightarrow> string \<Rightarrow> 's probe \<Rightarrow> rredis \<Rightarrow> (rsv_error + 's) option \<times> rredis" where
  "tryReadResult J teamID sandboxID p r =
     (let r = rop_run J (pb_ops1 p) r in
      if pb_get1 p then (Some (Inl RedisFailed), r)
      else case redis_get (getResultKey teamID sandboxID) r of
        Some data \<Rightarrow> (Some (decodeResult J data), r)
      | None \<Rightarrow>
          let r = rop_run J (pb_ops2 p) r in
          if pb_score p then (Some (Inl RedisFailed), r)
          else case redis_zscore (getPendingSetKey teamID) sandboxID r of
            Some _ \<Rightarrow> (None, r)
          | None \<Rightarrow>
              let r = rop_run J (pb_ops3 p) r in
              if pb_get2 p then (Some (Inl RedisFailed), r)
              else (case redis_get (getResultKey teamID sandboxID) r of
                  Some data \<Rightarrow> Some (decodeResult J data)
                | None \<Rightarrow> Some (Inl (NoLongerPending sandboxID)), r))"

text \<open>The wait: an initial probe, then one at each wakeup. A list of wakeups, \<open>None\<close> for the end of the context;
  the result is \<open>None\<close> as long as the waiter waits.\<close>

fun wait_loop :: "'s result_codec \<Rightarrow> string \<Rightarrow> string \<Rightarrow> 's probe option list \<Rightarrow> rredis \<Rightarrow> (rsv_error + 's) option \<times> rredis" where
  "wait_loop J teamID sandboxID [] r = (None, r)"
| "wait_loop J teamID sandboxID (None # ps) r = (Some (Inl Cancelled), r)"
| "wait_loop J teamID sandboxID (Some p # ps) r =
     (case tryReadResult J teamID sandboxID p r of
        (Some x, r) \<Rightarrow> (Some x, r)
      | (None, r) \<Rightarrow> wait_loop J teamID sandboxID ps r)"

definition waitForStart :: "'s result_codec \<Rightarrow> string \<Rightarrow> string \<Rightarrow> 's probe \<Rightarrow> 's probe option list \<Rightarrow> rredis \<Rightarrow> (rsv_error + 's) option \<times> rredis" where
  "waitForStart J teamID sandboxID p ps r = wait_loop J teamID sandboxID (Some p # ps) r"

section \<open>The store (store.go)\<close>

text \<open>\<open>Store.Remove\<close> is two steps, with others in between; \<open>Store.Reserve\<close> turns an existing sandbox into a
  wait that reads the storage.\<close>

definition Store_Remove :: "'s result_codec \<Rightarrow> string \<Rightarrow> string \<Rightarrow> 's rop list \<Rightarrow> rredis \<Rightarrow> rredis" where
  "Store_Remove J teamID sandboxID between r =
     snd (Release teamID sandboxID Fine (rop_run J between (storage_remove teamID sandboxID r)))"

datatype store_reply = Finish | WaitPending | WaitStored

definition Store_Reserve :: "string \<Rightarrow> string \<Rightarrow> int \<Rightarrow> fault \<Rightarrow> rredis \<Rightarrow> (rsv_error + store_reply) \<times> rredis" where
  "Store_Reserve teamID sandboxID limit f r =
     (case Reserve teamID sandboxID limit f r of
        (Inl e, r) \<Rightarrow> (if e = ErrAlreadyExists then Inr WaitStored else Inl e, r)
      | (Inr FinishStart, r) \<Rightarrow> (Inr Finish, r)
      | (Inr WaitForStart, r) \<Rightarrow> (Inr WaitPending, r))"

section \<open>Keys of different teams and sandboxes\<close>

lemma index_key_inj [simp]: "getStorageIndexKey t = getStorageIndexKey t' \<longleftrightarrow> t = t'"
  by (auto simp: getStorageIndexKey_def GetTeamPrefix_def SameSlot_def)

lemma pending_key_inj [simp]: "getPendingSetKey t = getPendingSetKey t' \<longleftrightarrow> t = t'"
  by (auto simp: getPendingSetKey_def getReservationPrefix_def GetTeamPrefix_def SameSlot_def)

lemma result_key_inj:
  "length t = length t' \<Longrightarrow> getResultKey t s = getResultKey t' s' \<longleftrightarrow> t = t' \<and> s = s'"
  by (auto simp: getResultKey_def getReservationPrefix_def GetTeamPrefix_def SameSlot_def)

section \<open>Running and starting sandboxes\<close>

definition running :: "string \<Rightarrow> rredis \<Rightarrow> string set" where
  "running t r = set (rr_set r (getStorageIndexKey t))"

definition starting :: "string \<Rightarrow> rredis \<Rightarrow> string set" where
  "starting t r = fst ` set (rr_zset r (getPendingSetKey t))"

definition sets_ok :: "string \<Rightarrow> rredis \<Rightarrow> bool" where
  "sets_ok t r \<longleftrightarrow> distinct (rr_set r (getStorageIndexKey t)) \<and> distinct (map fst (rr_zset r (getPendingSetKey t)))"

definition within :: "int \<Rightarrow> string \<Rightarrow> rredis \<Rightarrow> bool" where
  "within l t r \<longleftrightarrow> sets_ok t r \<and> int (card (running t r \<union> starting t r)) \<le> l"

text \<open>The reservations of the team use limits of at most \<open>l\<close>.\<close>

definition limit_ok :: "int \<Rightarrow> string \<Rightarrow> 's rop \<Rightarrow> bool" where
  "limit_ok l t x = (case x of OReserve t' _ l' _ \<Rightarrow> t' = t \<longrightarrow> 0 \<le> l' \<and> l' \<le> l | _ \<Rightarrow> True)"

text \<open>\<open>Add\<close> does not ask for a reservation. The number of sandboxes that are stored without holding one at that
  moment: the reservation was never made, or released, or older than 90 seconds when another \<open>Reserve\<close> of the
  team cleaned up.\<close>

fun stray_adds :: "'s result_codec \<Rightarrow> string \<Rightarrow> 's rop list \<Rightarrow> rredis \<Rightarrow> nat" where
  "stray_adds J t [] r = 0"
| "stray_adds J t (x # xs) r =
     (case x of OAdd t' s \<Rightarrow> if t' = t \<and> s \<notin> running t r \<union> starting t r then 1 else 0 | _ \<Rightarrow> 0) + stray_adds J t xs (rop_do J x r)"

lemmas redis_defs = redis_set_ex_def redis_del_def redis_sadd_def redis_srem_def redis_zadd_def redis_zrem_def
  redis_zclean_def redis_zscore_def

lemma distinct_filter_fst: "distinct (map fst z) \<Longrightarrow> distinct (map fst (filter P z))"
  by (simp add: distinct_map_filter)

lemma clean_set: "rr_set (redis_zclean k c r) = rr_set r"
  by (simp add: redis_zclean_def)

lemma sets_ok_clean: "sets_ok t r \<Longrightarrow> sets_ok t (redis_zclean (getPendingSetKey t') c r)"
  by (auto simp: sets_ok_def redis_zclean_def distinct_filter_fst)

text \<open>What the reserve script does, after it has cleaned up.\<close>

lemmas reserve_codes = reserveResultReserved_def reserveResultAlreadyInStorage_def reserveResultAlreadyPending_def
  reserveResultLimitExceeded_def

lemma reserveScript_cases:
  assumes "reserveScript ik pk rk s l now c r = (x, r')"
  obtains (stored) "s \<in> set (rr_set r ik)" "x = reserveResultAlreadyInStorage" "r' = redis_zclean pk c r"
  | (waiting) "s \<notin> set (rr_set r ik)" "redis_zscore pk s (redis_zclean pk c r) \<noteq> None" "x = reserveResultAlreadyPending"
      "r' = redis_zclean pk c r"
  | (full) "x = reserveResultLimitExceeded" "r' = redis_zclean pk c r"
  | (reserved) "s \<notin> set (rr_set r ik)" "redis_zscore pk s (redis_zclean pk c r) = None" "x = reserveResultReserved"
      "l \<ge> 0 \<Longrightarrow> int (length (rr_set r ik)) + int (length (rr_zset (redis_zclean pk c r) pk)) < l"
      "r' = redis_zadd pk now s (redis_del rk (redis_zclean pk c r))"
  using assms unfolding reserveScript_def Let_def clean_set
  by (cases "s \<in> set (rr_set r ik)"; cases "redis_zscore pk s (redis_zclean pk c r) = None";
      cases "l \<ge> 0 \<and> int (length (rr_set r ik)) + int (length (rr_zset (redis_zclean pk c r) pk)) \<ge> l") auto

lemma fewer_starting: "running t (redis_zclean (getPendingSetKey t') c r) = running t r \<and>
    starting t (redis_zclean (getPendingSetKey t') c r) \<subseteq> starting t r"
  by (auto simp: running_def starting_def redis_zclean_def)

lemma within_fewer:
  "within l t r \<Longrightarrow> sets_ok t r' \<Longrightarrow> running t r' \<union> starting t r' \<subseteq> running t r \<union> starting t r \<Longrightarrow> within l t r'"
proof -
  assume a: "within l t r" "sets_ok t r'" "running t r' \<union> starting t r' \<subseteq> running t r \<union> starting t r"
  have "finite (running t r \<union> starting t r)" by (simp add: running_def starting_def)
  from card_mono [OF this a(3)] a(1,2) show ?thesis by (simp add: within_def)
qed

lemma reserveScript_within:
  assumes w: "within l t r" and l: "t' = t \<Longrightarrow> 0 \<le> l' \<and> l' \<le> l"
    and r': "reserveScript (getStorageIndexKey t') (getPendingSetKey t') rk s l' now c r = (x, r')"
  shows "within l t r'"
proof -
  define r1 where "r1 = redis_zclean (getPendingSetKey t') c r"
  have w1: "within l t r1"
    using within_fewer [OF w, of r1] fewer_starting [of t t' c r] sets_ok_clean [of t r t' c] w
    by (auto simp: r1_def within_def)
  show ?thesis
    using r'
  proof (cases rule: reserveScript_cases)
    case reserved
    note s = reserved(4,5) [folded r1_def]
    show ?thesis
    proof (cases "t' = t")
      case True
      have ok: "sets_ok t r1" using w1 by (simp add: within_def)
      then have ok': "sets_ok t r'"
        using True s(2) by (simp add: sets_ok_def redis_zadd_def redis_del_def distinct_update)
      have st: "running t r' = running t r1" "starting t r' = insert s (starting t r1)"
        using s(2) True by (simp_all add: running_def starting_def redis_zadd_def redis_del_def dom_update)
      have "card (running t r1 \<union> starting t r1) \<le> length (rr_set r1 (getStorageIndexKey t)) + length (rr_zset r1 (getPendingSetKey t))"
        unfolding running_def starting_def
        by (rule order.trans [OF card_Un_le add_mono [OF card_length order.trans [OF card_image_le card_length]]]) simp
      moreover have "card (insert s (running t r1 \<union> starting t r1)) \<le> Suc (card (running t r1 \<union> starting t r1))"
        by (rule card_insert_le_m1) auto
      ultimately show ?thesis using ok' st s(1) l True clean_set [of "getPendingSetKey t'" c r] by (simp add: within_def r1_def)
    next
      case False
      then have "rr_set r' (getStorageIndexKey t) = rr_set r1 (getStorageIndexKey t)"
          "rr_zset r' (getPendingSetKey t) = rr_zset r1 (getPendingSetKey t)"
        using s(2) by (auto simp: redis_zadd_def redis_del_def)
      with w1 show ?thesis by (simp add: within_def sets_ok_def running_def starting_def)
    qed
  qed (use w1 in \<open>simp_all add: r1_def\<close>)
qed

lemma Reserve_snd:
  "snd (Reserve t s l f r) = (if f = NotSent then r else
     snd (reserveScript (getStorageIndexKey t) (getPendingSetKey t) (getResultKey t s) s l (rr_time r) (rr_time r - staleTTL) r))"
  by (cases f) (auto simp: Reserve_def run_script_def split: prod.splits sum.splits)

lemma Release_snd:
  "snd (Release t s f r) = (if f = NotSent then r else releaseScript (getPendingSetKey t) (getResultKey t s) s r)"
  by (cases f) (simp_all add: Release_def run_script_def)

lemma finishStart_eq:
  "finishStart J t s b e f r = (if f = NotSent then r else case encodeResult J b e of
     None \<Rightarrow> redis_zrem (getPendingSetKey t) s r
   | Some d \<Rightarrow> finishStartScript (getPendingSetKey t) (getResultKey t s) s d resultTTL r)"
  by (cases f) (auto simp: finishStart_def run_script_def split: option.splits)

lemma zrem_fewer:
  "sets_ok t r \<Longrightarrow> sets_ok t (redis_zrem (getPendingSetKey t') s r)"
  "running t (redis_zrem k s r) = running t r" "starting t (redis_zrem k s r) \<subseteq> starting t r"
  using dom_delete_subset [of s] by (auto simp: sets_ok_def redis_zrem_def distinct_delete running_def starting_def)

lemma within_zrem: "within l t r \<Longrightarrow> within l t (redis_zrem (getPendingSetKey t') s r)"
proof -
  assume w: "within l t r"
  have "sets_ok t (redis_zrem (getPendingSetKey t') s r)" using w by (simp add: within_def zrem_fewer(1))
  moreover have "running t (redis_zrem (getPendingSetKey t') s r) \<union> starting t (redis_zrem (getPendingSetKey t') s r) \<subseteq> running t r \<union> starting t r"
    using zrem_fewer(2,3) [of t "getPendingSetKey t'" s r] by blast
  ultimately show ?thesis by (rule within_fewer [OF w])
qed

lemma within_str [simp]: "within l t (r\<lparr>rr_str := x\<rparr>) = within l t r" "within l t (r\<lparr>rr_time := y\<rparr>) = within l t r"
  by (simp_all add: within_def sets_ok_def running_def starting_def)

lemma within_other:
  "rr_set r' (getStorageIndexKey t) = rr_set r (getStorageIndexKey t) \<Longrightarrow>
   rr_zset r' (getPendingSetKey t) = rr_zset r (getPendingSetKey t) \<Longrightarrow> within l t r' = within l t r"
  by (simp add: within_def sets_ok_def running_def starting_def)

lemma within_mono: "within l t r \<Longrightarrow> l \<le> l' \<Longrightarrow> within l' t r"
  by (simp add: within_def)

lemma rop_within:
  assumes w: "within l t r" and o: "limit_ok l t x"
  shows "within (l + int (stray_adds J t [x] r)) t (rop_do J x r)"
proof (cases x)
  case (OReserve t' s l' f)
  obtain y r' where r': "reserveScript (getStorageIndexKey t') (getPendingSetKey t') (getResultKey t' s) s l' (rr_time r)
      (rr_time r - staleTTL) r = (y, r')" by (metis prod.exhaust)
  have "t' = t \<Longrightarrow> 0 \<le> l' \<and> l' \<le> l" using o OReserve by (simp add: limit_ok_def)
  from reserveScript_within [OF w this r'] w OReserve r' show ?thesis by (simp add: rop_do_def Reserve_snd)
next
  case (ORelease t' s f)
  with within_zrem [OF w, of t' s] w show ?thesis by (simp add: rop_do_def Release_snd releaseScript_def redis_del_def)
next
  case (OFinish t' s b e f)
  with within_zrem [OF w, of t' s] w show ?thesis
    by (simp add: rop_do_def finishStart_eq finishStartScript_def redis_set_ex_def split: option.split)
next
  case (OAdd t' s)
  show ?thesis
  proof (cases "t' = t")
    case True
    let ?n = "int (stray_adds J t [x] r)"
    have "running t (rop_do J x r) = insert s (running t r)" "starting t (rop_do J x r) = starting t r"
      "sets_ok t (rop_do J x r)"
      using w OAdd True by (auto simp: rop_do_def storage_add_def redis_sadd_def running_def starting_def within_def sets_ok_def)
    moreover have "int (card (insert s (running t r \<union> starting t r))) \<le> l + ?n"
    proof (cases "s \<in> running t r \<union> starting t r")
      case False
      have "card (insert s (running t r \<union> starting t r)) \<le> Suc (card (running t r \<union> starting t r))" by (rule card_insert_le_m1) auto
      then show ?thesis using w OAdd True False by (simp add: within_def)
    qed (use w OAdd in \<open>simp add: within_def insert_absorb\<close>)
    ultimately show ?thesis by (simp add: within_def)
  next
    case False
    with OAdd have "within l t (rop_do J x r) = within l t r"
      by (intro within_other) (simp_all add: rop_do_def storage_add_def redis_sadd_def)
    with w OAdd False show ?thesis by simp
  qed
next
  case (ORemove t' s)
  have "running t (rop_do J x r) \<subseteq> running t r" "starting t (rop_do J x r) = starting t r" "sets_ok t (rop_do J x r)"
    using w ORemove by (auto simp: rop_do_def storage_remove_def redis_srem_def running_def starting_def within_def sets_ok_def)
  then have "within l t (rop_do J x r)" by (intro within_fewer [OF w]) blast+
  with ORemove show ?thesis by simp
next
  case (OTick n)
  with w show ?thesis by (simp add: rop_do_def)
qed

lemma limit_ok_mono: "limit_ok l t x \<Longrightarrow> l \<le> l' \<Longrightarrow> limit_ok l' t x"
  by (auto simp: limit_ok_def split: rop.splits)

lemma rops_within:
  "within m t r \<Longrightarrow> list_all (limit_ok l t) xs \<Longrightarrow> l \<le> m \<Longrightarrow> within (m + int (stray_adds J t xs r)) t (rop_run J xs r)"
proof (induction xs arbitrary: r m)
  case (Cons x xs)
  let ?m = "m + int (stray_adds J t [x] r)"
  have "within ?m t (rop_do J x r)"
    using Cons.prems by (intro rop_within) (auto intro: limit_ok_mono)
  with Cons.IH [of ?m] Cons.prems show ?case by (simp add: rop_run_def add.assoc)
qed (simp add: rop_run_def)

section \<open>One reservation\<close>

text \<open>What ends a reservation or replaces it.\<close>

definition keeps_reservation :: "string \<Rightarrow> string \<Rightarrow> 's rop \<Rightarrow> bool" where
  "keeps_reservation t s x = (case x of
     ORelease t' s' _ \<Rightarrow> t' \<noteq> t \<or> s' \<noteq> s
   | OFinish t' s' _ _ _ \<Rightarrow> t' \<noteq> t \<or> s' \<noteq> s
   | _ \<Rightarrow> True)"

definition score :: "string \<Rightarrow> string \<Rightarrow> rredis \<Rightarrow> int option" where
  "score t s r = redis_zscore (getPendingSetKey t) s r"

lemma rop_time: "rr_time r \<le> rr_time (rop_do J x r)"
  by (cases x) (auto simp: rop_do_def Reserve_snd Release_snd finishStart_eq reserveScript_def finishStartScript_def
      releaseScript_def storage_add_def storage_remove_def redis_defs Let_def split: option.split)

lemma rops_time: "rr_time r \<le> rr_time (rop_run J xs r)"
  unfolding rop_run_def by (induction xs arbitrary: r) (auto intro: order.trans [OF rop_time])

lemma score_clean: "sets_ok t r \<Longrightarrow> score t s r = Some n \<Longrightarrow> n > c \<Longrightarrow> score t s (redis_zclean (getPendingSetKey t') c r) = Some n"
proof -
  assume a: "sets_ok t r" "score t s r = Some n" "n > c"
  show "score t s (redis_zclean (getPendingSetKey t') c r) = Some n"
  proof (cases "t' = t")
    case True
    from a have "(s, n) \<in> set (rr_zset r (getPendingSetKey t))" by (auto simp: score_def redis_zscore_def dest: map_of_SomeD)
    with a have "map_of (filter (\<lambda>(_, s). s > c) (rr_zset r (getPendingSetKey t))) s = Some n"
      by (intro map_of_is_SomeI) (auto simp: sets_ok_def distinct_filter_fst)
    with True show ?thesis by (simp add: score_def redis_zscore_def redis_zclean_def)
  next
    case False
    with a show ?thesis by (auto simp: score_def redis_zscore_def redis_zclean_def)
  qed
qed

text \<open>A Redis state that can arise: sorted sets have distinct members and a pending sandbox has no result.\<close>

definition team_ok :: "string \<Rightarrow> rredis \<Rightarrow> bool" where
  "team_ok t r \<longleftrightarrow> sets_ok t r \<and> (\<forall>s n. score t s r = Some n \<longrightarrow> redis_get (getResultKey t s) r = None)"

lemma score_zrem: "score t s (redis_zrem (getPendingSetKey t') s' r) = (if t' = t \<and> s' = s then None else score t s r)"
  by (auto simp: score_def redis_zscore_def redis_zrem_def delete_conv')

lemma score_zadd: "score t s (redis_zadd (getPendingSetKey t') n s' r) = (if t' = t \<and> s' = s then Some n else score t s r)"
  by (auto simp: score_def redis_zscore_def redis_zadd_def update_conv')

lemma score_other [simp]: "score t s (redis_del k r) = score t s r" "score t s (redis_set_ex k v ttl r) = score t s r"
  "score t s (redis_sadd k m r) = score t s r" "score t s (redis_srem k m r) = score t s r"
  "score t s (r\<lparr>rr_time := y\<rparr>) = score t s r"
  by (simp_all add: score_def redis_defs)

lemma score_clean_Some: "sets_ok t r \<Longrightarrow> score t s (redis_zclean (getPendingSetKey t') c r) = Some n \<Longrightarrow> score t s r = Some n"
proof -
  assume a: "sets_ok t r" "score t s (redis_zclean (getPendingSetKey t') c r) = Some n"
  then have "(s, n) \<in> set (rr_zset r (getPendingSetKey t))"
    by (auto simp: score_def redis_zscore_def redis_zclean_def split: if_splits dest!: map_of_SomeD)
  with a(1) show ?thesis by (simp add: score_def redis_zscore_def sets_ok_def)
qed

lemma get_other [simp]: "redis_get k (redis_zrem k' s r) = redis_get k r" "redis_get k (redis_zadd k' n s r) = redis_get k r"
  "redis_get k (redis_zclean k' c r) = redis_get k r" "redis_get k (redis_sadd k' s r) = redis_get k r"
  "redis_get k (redis_srem k' s r) = redis_get k r"
  "redis_get k (redis_del k' r) = (if k = k' then None else redis_get k r)"
  by (simp_all add: redis_get_def redis_defs split: option.split)

lemma get_set_ex: "ttl > 0 \<Longrightarrow> redis_get k (redis_set_ex k' v ttl r) = (if k = k' then Some v else redis_get k r)"
  by (simp add: redis_get_def redis_defs split: option.split)

lemma get_later: "redis_get k r = None \<Longrightarrow> redis_get k (r\<lparr>rr_time := rr_time r + int n\<rparr>) = None"
  by (auto simp: redis_get_def split: option.splits if_splits)

lemma sets_ok_other [simp]: "sets_ok t (redis_del k r) = sets_ok t r" "sets_ok t (redis_set_ex k v ttl r) = sets_ok t r"
  "sets_ok t (r\<lparr>rr_time := y\<rparr>) = sets_ok t r"
  by (simp_all add: sets_ok_def redis_defs)

lemma sets_ok_sets: "sets_ok t r \<Longrightarrow> sets_ok t (redis_sadd k s r)" "sets_ok t r \<Longrightarrow> sets_ok t (redis_srem k s r)"
  "sets_ok t r \<Longrightarrow> sets_ok t (redis_zadd k n s r)"
  by (auto simp: sets_ok_def redis_defs distinct_update)

text \<open>Identifiers of teams are UUIDs in their text form.\<close>

definition op_team :: "'s rop \<Rightarrow> string option" where
  "op_team x = (case x of OReserve t _ _ _ \<Rightarrow> Some t | ORelease t _ _ \<Rightarrow> Some t | OFinish t _ _ _ _ \<Rightarrow> Some t
     | OAdd t _ \<Rightarrow> Some t | ORemove t _ \<Rightarrow> Some t | OTick _ \<Rightarrow> None)"

definition uuid_team :: "string \<Rightarrow> bool" where
  "uuid_team t \<longleftrightarrow> length t = 36"

definition rop_typed :: "'s rop \<Rightarrow> bool" where
  "rop_typed x \<longleftrightarrow> (case op_team x of None \<Rightarrow> True | Some t \<Rightarrow> uuid_team t)"

lemma result_key [simp]: "uuid_team t \<Longrightarrow> uuid_team t' \<Longrightarrow> getResultKey t s = getResultKey t' s' \<longleftrightarrow> t = t' \<and> s = s'"
  by (rule result_key_inj) (simp add: uuid_team_def)

lemma reserve_team_ok:
  assumes ok: "team_ok t r" and u: "uuid_team t" "uuid_team t'"
    and r': "reserveScript (getStorageIndexKey t') (getPendingSetKey t') (getResultKey t' s) s l now c r = (x, r')"
  shows "team_ok t r'"
proof -
  let ?r = "redis_zclean (getPendingSetKey t') c r"
  have so: "sets_ok t r" using ok by (simp add: team_ok_def)
  have c: "team_ok t ?r"
    using ok score_clean_Some [OF so] sets_ok_clean [OF so] unfolding team_ok_def by (metis get_other(3))
  show ?thesis
    using r'
  proof (cases rule: reserveScript_cases)
    case reserved
    have "sets_ok t r'" using c by (simp add: reserved(5) team_ok_def sets_ok_sets)
    moreover have "redis_get (getResultKey t s') r' = None" if "score t s' r' = Some n" for s' n
      using that c u by (auto simp: reserved(5) score_zadd team_ok_def split: if_splits)
    ultimately show ?thesis by (simp add: team_ok_def)
  qed (use c in simp_all)
qed

lemma rop_team_ok:
  assumes ok: "team_ok t r" and u: "uuid_team t" "rop_typed x"
  shows "team_ok t (rop_do J x r)"
proof (cases x)
  case (OReserve t' s l f)
  obtain y r' where r': "reserveScript (getStorageIndexKey t') (getPendingSetKey t') (getResultKey t' s) s l (rr_time r)
      (rr_time r - staleTTL) r = (y, r')" by (metis prod.exhaust)
  have "uuid_team t'" using u OReserve by (simp add: rop_typed_def op_team_def)
  from reserve_team_ok [OF ok u(1) this r'] ok OReserve r' show ?thesis by (simp add: rop_do_def Reserve_snd)
next
  case (ORelease t' s f)
  with ok u show ?thesis
    by (auto simp: rop_do_def Release_snd releaseScript_def team_ok_def zrem_fewer(1) score_zrem split: if_splits)
next
  case (OFinish t' s b e f)
  have "uuid_team t'" using u OFinish by (simp add: rop_typed_def op_team_def)
  with ok u(1) OFinish show ?thesis
    by (auto simp: rop_do_def finishStart_eq finishStartScript_def team_ok_def zrem_fewer(1) score_zrem get_set_ex resultTTL_def
        split: if_splits option.splits)
next
  case (OTick n)
  with ok show ?thesis by (auto simp: rop_do_def team_ok_def get_later)
qed (use ok in \<open>auto simp: rop_do_def storage_add_def storage_remove_def team_ok_def sets_ok_sets\<close>)

lemma rops_team_ok: "team_ok t r \<Longrightarrow> uuid_team t \<Longrightarrow> list_all rop_typed xs \<Longrightarrow> team_ok t (rop_run J xs r)"
  unfolding rop_run_def by (induction xs arbitrary: r) (simp_all add: rop_team_ok)

text \<open>A reservation stays as long as nothing ends it and it is not stale.\<close>

lemma rop_score:
  assumes so: "sets_ok t r" and p: "score t s r = Some n" and k: "keeps_reservation t s x" and young: "rr_time r < n + staleTTL"
  shows "score t s (rop_do J x r) = Some n"
proof (cases x)
  case (OReserve t' s' l f)
  obtain y r' where r': "reserveScript (getStorageIndexKey t') (getPendingSetKey t') (getResultKey t' s') s' l (rr_time r)
      (rr_time r - staleTTL) r = (y, r')" by (metis prod.exhaust)
  have c: "score t s (redis_zclean (getPendingSetKey t') (rr_time r - staleTTL) r) = Some n"
    by (rule score_clean [OF so p]) (use young in simp)
  have "score t s r' = Some n"
    using r'
  proof (cases rule: reserveScript_cases)
    case reserved
    have "\<not> (t' = t \<and> s' = s)" using reserved(2) c by (auto simp: score_def)
    then show ?thesis by (auto simp: reserved(5) score_zadd c)
  qed (use c in simp_all)
  with p r' OReserve show ?thesis by (simp add: rop_do_def Reserve_snd)
next
  case (ORelease t' s' f)
  with p k show ?thesis by (auto simp: rop_do_def Release_snd releaseScript_def score_zrem keeps_reservation_def)
next
  case (OFinish t' s' b e f)
  with p k show ?thesis
    by (auto simp: rop_do_def finishStart_eq finishStartScript_def score_zrem keeps_reservation_def split: option.split)
qed (use p in \<open>simp_all add: rop_do_def storage_add_def storage_remove_def\<close>)

lemma rop_sets_ok: "sets_ok t r \<Longrightarrow> sets_ok t (rop_do J x r)"
proof (cases x)
  case (OReserve t' s l f)
  assume so: "sets_ok t r"
  obtain y r' where r': "reserveScript (getStorageIndexKey t') (getPendingSetKey t') (getResultKey t' s) s l (rr_time r)
      (rr_time r - staleTTL) r = (y, r')" by (metis prod.exhaust)
  have "sets_ok t r'"
    using r' by (cases rule: reserveScript_cases) (simp_all add: sets_ok_clean [OF so] sets_ok_sets)
  with so r' OReserve show ?thesis by (simp add: rop_do_def Reserve_snd)
qed (auto simp: rop_do_def Release_snd releaseScript_def finishStart_eq finishStartScript_def zrem_fewer(1) storage_add_def
    storage_remove_def sets_ok_sets split: option.split)

lemma rops_score:
  "sets_ok t r \<Longrightarrow> score t s r = Some n \<Longrightarrow> list_all (keeps_reservation t s) xs \<Longrightarrow> rr_time (rop_run J xs r) < n + staleTTL \<Longrightarrow>
   score t s (rop_run J xs r) = Some n \<and> sets_ok t (rop_run J xs r)"
proof (induction xs arbitrary: r)
  case (Cons x xs)
  have "rr_time r \<le> rr_time (rop_run J (x # xs) r)" by (rule rops_time)
  with Cons.prems have y: "rr_time r < n + staleTTL" by linarith
  have "score t s (rop_do J x r) = Some n" by (rule rop_score) (use Cons.prems y in simp_all)
  with Cons.IH [OF rop_sets_ok [OF Cons.prems(1)]] Cons.prems(3,4) show ?case by (simp add: rop_run_def)
qed (simp add: rop_run_def)

section \<open>Waiting for a start made by another instance\<close>

text \<open>What a waiter gets to know of an outcome: an error keeps its message, and its code and client message if it has a
  code.\<close>

definition canon_error :: "start_error \<Rightarrow> start_error" where
  "canon_error e = e\<lparr>se_Api := (case se_Api e of None \<Rightarrow> None | Some (c, m) \<Rightarrow> if c \<noteq> 0 then Some (c, m) else None)\<rparr>"

definition start_outcome :: "'s \<Rightarrow> start_error option \<Rightarrow> rsv_error + 's" where
  "start_outcome b e = (case e of None \<Rightarrow> Inr b | Some x \<Rightarrow> Inl (StartFailed (canon_error x)))"

lemma decode_encode: "codec_law J \<Longrightarrow> encodeResult J b e = Some d \<Longrightarrow> decodeResult J d = start_outcome b e"
  unfolding codec_law_def encodeResult_def decodeResult_def start_outcome_def
  by (auto simp: reconstructError_def canon_error_def split: option.splits)

text \<open>Others do not release the reservation that is waited for, nor start the sandbox again; the start may end.\<close>

definition undisturbed :: "'s result_codec \<Rightarrow> string \<Rightarrow> string \<Rightarrow> 's rop \<Rightarrow> bool" where
  "undisturbed J t s x \<longleftrightarrow> rop_typed x \<and> (case x of
     OReserve t' s' _ _ \<Rightarrow> t' \<noteq> t \<or> s' \<noteq> s
   | ORelease t' s' _ \<Rightarrow> t' \<noteq> t \<or> s' \<noteq> s
   | OFinish t' s' b e _ \<Rightarrow> t' = t \<longrightarrow> s' = s \<longrightarrow> encodeResult J b e \<noteq> None
   | _ \<Rightarrow> True)"

definition op_time :: "'s rop \<Rightarrow> int" where
  "op_time x = (case x of OTick n \<Rightarrow> int n | _ \<Rightarrow> 0)"

definition elapsed :: "'s rop list \<Rightarrow> int" where
  "elapsed xs = (\<Sum>x\<leftarrow>xs. op_time x)"

lemma rop_elapsed: "rr_time (rop_do J x r) = rr_time r + op_time x"
  by (cases x) (auto simp: rop_do_def Reserve_snd Release_snd finishStart_eq reserveScript_def finishStartScript_def
      releaseScript_def storage_add_def storage_remove_def redis_defs Let_def op_time_def split: option.split)

lemma elapsed_simps [simp]: "elapsed [] = 0" "elapsed (x # xs) = op_time x + elapsed xs" "elapsed (xs @ ys) = elapsed xs + elapsed ys"
  by (simp_all add: elapsed_def)

lemma op_time_nonneg: "0 \<le> op_time x"
  by (cases x) (simp_all add: op_time_def)

lemma elapsed_nonneg: "0 \<le> elapsed xs"
  by (auto simp: elapsed_def op_time_nonneg intro!: sum_list_nonneg)

text \<open>The start is either pending or has ended with a result that is stored until \<open>t0 + 30\<close> at least.\<close>

definition ended :: "'s result_codec \<Rightarrow> string \<Rightarrow> string \<Rightarrow> int \<Rightarrow> 's rop list \<Rightarrow> rredis \<Rightarrow> bool" where
  "ended J t s t0 xs r \<longleftrightarrow> score t s r = None \<and>
     (\<exists>b e f d ex. OFinish t s b e f \<in> set xs \<and> f \<noteq> NotSent \<and> encodeResult J b e = Some d \<and>
        rr_str r (getResultKey t s) = Some (d, ex) \<and> t0 + resultTTL \<le> ex)"

definition awaited :: "'s result_codec \<Rightarrow> string \<Rightarrow> string \<Rightarrow> int \<Rightarrow> int \<Rightarrow> 's rop list \<Rightarrow> rredis \<Rightarrow> bool" where
  "awaited J t s n t0 xs r \<longleftrightarrow> team_ok t r \<and> t0 \<le> rr_time r \<and> (score t s r = Some n \<or> ended J t s t0 xs r)"

lemma str_other [simp]: "rr_str (redis_zrem k m r) = rr_str r" "rr_str (redis_zadd k n m r) = rr_str r"
  "rr_str (redis_zclean k c r) = rr_str r" "rr_str (redis_sadd k m r) = rr_str r" "rr_str (redis_srem k m r) = rr_str r"
  "rr_str (redis_del k r) = (rr_str r)(k := None)" "rr_str (redis_set_ex k v ttl r) = (rr_str r)(k := Some (v, rr_time r + ttl))"
  by (simp_all add: redis_defs)

lemma time_other [simp]: "rr_time (redis_zrem k m r) = rr_time r"
  by (simp add: redis_defs)

lemma score_clean_None: "sets_ok t r \<Longrightarrow> score t s r = None \<Longrightarrow> score t s (redis_zclean (getPendingSetKey t') c r) = None"
  using score_clean_Some [of t r s t' c] by (cases "score t s (redis_zclean (getPendingSetKey t') c r)") auto

lemma ended_reserve:
  assumes u: "uuid_team t" "uuid_team t'" and o: "t' \<noteq> t \<or> s' \<noteq> s" and so: "sets_ok t r"
    and e: "score t s r = None"
    and r': "reserveScript (getStorageIndexKey t') (getPendingSetKey t') (getResultKey t' s') s' l now c r = (x, r')"
  shows "score t s r' = None \<and> rr_str r' (getResultKey t s) = rr_str r (getResultKey t s)"
proof -
  note n = score_clean_None [OF so e]
  show ?thesis
    using r'
  proof (cases rule: reserveScript_cases)
    case reserved
    show ?thesis using u o n by (auto simp: reserved(5) score_zadd)
  qed (use n in simp_all)
qed

lemma ended_step:
  assumes e: "ended J t s t0 xs r" and u: "uuid_team t" and x: "undisturbed J t s x" and ok: "team_ok t r" and t0: "t0 \<le> rr_time r"
  shows "ended J t s t0 (xs @ [x]) (rop_do J x r)"
proof -
  have so: "sets_ok t r" using ok by (simp add: team_ok_def)
  from e obtain b e0 f d ex where i: "score t s r = None" "OFinish t s b e0 f \<in> set xs" "f \<noteq> NotSent" "encodeResult J b e0 = Some d"
      "rr_str r (getResultKey t s) = Some (d, ex)" "t0 + resultTTL \<le> ex" by (auto simp: ended_def)
  have same: ?thesis if "score t s (rop_do J x r) = None" "rr_str (rop_do J x r) (getResultKey t s) = rr_str r (getResultKey t s)"
    using i that unfolding ended_def by (metis Un_iff set_append)
  show ?thesis
  proof (cases x)
    case (OReserve t' s' l f)
    obtain y r' where r': "reserveScript (getStorageIndexKey t') (getPendingSetKey t') (getResultKey t' s') s' l (rr_time r)
        (rr_time r - staleTTL) r = (y, r')" by (metis prod.exhaust)
    have "uuid_team t'" "t' \<noteq> t \<or> s' \<noteq> s" using x OReserve by (auto simp: undisturbed_def rop_typed_def op_team_def)
    from ended_reserve [OF u this so i(1) r'] i(1) r' OReserve show ?thesis
      by (intro same) (simp_all add: rop_do_def Reserve_snd)
  next
    case (ORelease t' s' f)
    have "uuid_team t'" "t' \<noteq> t \<or> s' \<noteq> s" using x ORelease by (auto simp: undisturbed_def rop_typed_def op_team_def)
    with u i(1) ORelease show ?thesis
      by (intro same) (auto simp: rop_do_def Release_snd releaseScript_def score_zrem)
  next
    case (OFinish t' s' b' e' f')
    have u': "uuid_team t'" using x OFinish by (auto simp: undisturbed_def rop_typed_def op_team_def)
    show ?thesis
    proof (cases "t' = t \<and> s' = s \<and> f' \<noteq> NotSent")
      case True
      then obtain d' where d': "encodeResult J b' e' = Some d'" using x OFinish by (auto simp: undisturbed_def)
      have "score t s (rop_do J x r) = None"
        "rr_str (rop_do J x r) (getResultKey t s) = Some (d', rr_time r + resultTTL)"
        using True OFinish d' by (simp_all add: rop_do_def finishStart_eq finishStartScript_def score_zrem)
      moreover have "OFinish t s b' e' f' \<in> set (xs @ [x])" using True OFinish by simp
      ultimately show ?thesis using d' True t0 unfolding ended_def by (metis add_mono order_refl)
    next
      case False
      with u u' i(1) OFinish show ?thesis
        by (intro same) (auto simp: rop_do_def finishStart_eq finishStartScript_def score_zrem split: option.split)
    qed
  next
    case (OAdd t' s')
    with i(1) show ?thesis by (intro same) (simp_all add: rop_do_def storage_add_def)
  next
    case (ORemove t' s')
    with i(1) show ?thesis by (intro same) (simp_all add: rop_do_def storage_remove_def)
  next
    case (OTick n)
    with i(1) show ?thesis by (intro same) (simp_all add: rop_do_def)
  qed
qed

lemma awaited_step:
  assumes a: "awaited J t s n t0 xs r" and u: "uuid_team t" and x: "undisturbed J t s x" and y: "rr_time r < n + staleTTL"
  shows "awaited J t s n t0 (xs @ [x]) (rop_do J x r)"
proof -
  have ok: "team_ok t r" "t0 \<le> rr_time r" using a by (simp_all add: awaited_def)
  have ok': "team_ok t (rop_do J x r)" by (rule rop_team_ok [OF ok(1) u]) (use x in \<open>simp add: undisturbed_def\<close>)
  have t: "t0 \<le> rr_time (rop_do J x r)" using ok(2) rop_time [of r J x] by linarith
  show ?thesis
  proof (cases "ended J t s t0 xs r")
    case True
    from ended_step [OF True u x ok] ok' t show ?thesis by (simp add: awaited_def)
  next
    case False
    with a have p: "score t s r = Some n" by (simp add: awaited_def)
    show ?thesis
    proof (cases "keeps_reservation t s x")
      case True
      have "score t s (rop_do J x r) = Some n" by (rule rop_score) (use p True y ok in \<open>simp_all add: team_ok_def\<close>)
      with ok' t show ?thesis by (simp add: awaited_def)
    next
      case False
      with x obtain b e f where f: "x = OFinish t s b e f" by (auto simp: undisturbed_def keeps_reservation_def split: rop.splits)
      with x obtain d where d: "encodeResult J b e = Some d" by (auto simp: undisturbed_def)
      show ?thesis
      proof (cases "f = NotSent")
        case True
        with p ok' t f show ?thesis by (simp add: awaited_def rop_do_def finishStart_eq)
      next
        case ns: False
        have "score t s (rop_do J x r) = None"
          "rr_str (rop_do J x r) (getResultKey t s) = Some (d, rr_time r + resultTTL)"
          using f d ns by (simp_all add: rop_do_def finishStart_eq finishStartScript_def score_zrem)
        then have "ended J t s t0 (xs @ [x]) (rop_do J x r)"
          using f d ns ok(2) unfolding ended_def by (metis add_mono in_set_conv_decomp order_refl)
        with ok' t show ?thesis by (simp add: awaited_def)
      qed
    qed
  qed
qed

lemma awaited_run:
  "awaited J t s n t0 xs r \<Longrightarrow> uuid_team t \<Longrightarrow> list_all (undisturbed J t s) ys \<Longrightarrow> rr_time r + elapsed ys < n + staleTTL \<Longrightarrow>
   awaited J t s n t0 (xs @ ys) (rop_run J ys r)"
proof (induction ys arbitrary: xs r)
  case (Cons y ys)
  have "0 \<le> op_time y" "0 \<le> elapsed ys" by (rule op_time_nonneg, rule elapsed_nonneg)
  with Cons.prems(4) have "rr_time r < n + staleTTL" by simp
  from awaited_step [OF Cons.prems(1,2) _ this] Cons.prems(3) have "awaited J t s n t0 (xs @ [y]) (rop_do J y r)" by simp
  from Cons.IH [OF this Cons.prems(2)] Cons.prems(3,4) show ?case by (simp add: rop_run_def rop_elapsed)
qed (simp add: rop_run_def)

lemma rops_elapsed: "rr_time (rop_run J xs r) = rr_time r + elapsed xs"
  unfolding rop_run_def by (induction xs arbitrary: r) (simp_all add: rop_elapsed)

lemma rop_run_append: "rop_run J (xs @ ys) r = rop_run J ys (rop_run J xs r)"
  by (simp add: rop_run_def)

lemma ended_run:
  "ended J t s t0 xs r \<Longrightarrow> uuid_team t \<Longrightarrow> list_all (undisturbed J t s) ys \<Longrightarrow> team_ok t r \<Longrightarrow> t0 \<le> rr_time r \<Longrightarrow>
   ended J t s t0 (xs @ ys) (rop_run J ys r)"
proof (induction ys arbitrary: xs r)
  case (Cons y ys)
  have e: "ended J t s t0 (xs @ [y]) (rop_do J y r)" using ended_step [OF Cons.prems(1,2)] Cons.prems(3-5) by simp
  have k: "team_ok t (rop_do J y r)"
    by (rule rop_team_ok [OF Cons.prems(4,2)]) (use Cons.prems(3) in \<open>simp add: undisturbed_def\<close>)
  have t: "t0 \<le> rr_time (rop_do J y r)" using Cons.prems(5) rop_time [of r J y] by linarith
  from Cons.IH [OF e Cons.prems(2) _ k t] Cons.prems(3) show ?case by (simp add: rop_run_def)
qed (simp add: rop_run_def)

definition probe_ops :: "'s probe \<Rightarrow> 's rop list" where
  "probe_ops p = pb_ops1 p @ pb_ops2 p @ pb_ops3 p"

text \<open>What can come out of one probe.\<close>

definition from_finish :: "'s result_codec \<Rightarrow> string \<Rightarrow> string \<Rightarrow> 's rop list \<Rightarrow> rsv_error + 's \<Rightarrow> bool" where
  "from_finish J t s xs x \<longleftrightarrow> (\<exists>b e f. OFinish t s b e f \<in> set xs \<and> f \<noteq> NotSent \<and> x = start_outcome b e)"

lemma ended_get:
  assumes "codec_law J" "ended J t s t0 xs r" "rr_time r < t0 + resultTTL"
  shows "\<exists>d. redis_get (getResultKey t s) r = Some d \<and> from_finish J t s xs (decodeResult J d)"
proof -
  from assms(2) obtain b e f d ex where f: "OFinish t s b e f \<in> set xs" "f \<noteq> NotSent" "encodeResult J b e = Some d"
      "rr_str r (getResultKey t s) = Some (d, ex)" "t0 + resultTTL \<le> ex" by (auto simp: ended_def)
  have "redis_get (getResultKey t s) r = Some d" using f(4,5) assms(3) by (simp add: redis_get_def)
  with decode_encode [OF assms(1) f(3)] f(1,2) show ?thesis unfolding from_finish_def by blast
qed

lemma awaited_get:
  assumes "codec_law J" "awaited J t s n t0 xs r" "redis_get (getResultKey t s) r = Some d" "rr_time r < t0 + resultTTL"
  shows "from_finish J t s xs (decodeResult J d)"
proof -
  have "score t s r \<noteq> Some n" using assms(2,3) by (auto simp: awaited_def team_ok_def)
  with assms(2) have "ended J t s t0 xs r" by (simp add: awaited_def)
  from ended_get [OF assms(1) this assms(4)] assms(3) show ?thesis by auto
qed

lemma from_finish_mono: "from_finish J t s xs x \<Longrightarrow> set xs \<subseteq> set ys \<Longrightarrow> from_finish J t s ys x"
  unfolding from_finish_def by blast

lemma tryReadResult_outcome:
  assumes law: "codec_law J" and ok: "team_ok t r" and u: "uuid_team t" and p: "score t s r = Some n"
    and q: "list_all (undisturbed J t s) (probe_ops pb)" and e: "elapsed (probe_ops pb) < resultTTL"
    and y: "rr_time r + elapsed (probe_ops pb) < n + staleTTL"
    and r: "tryReadResult J t s pb r = (x, r')"
  shows "(x = None \<and> team_ok t r' \<and> score t s r' = Some n \<and> rr_time r' \<le> rr_time r + elapsed (probe_ops pb)) \<or>
    x = Some (Inl RedisFailed) \<or> (\<exists>z. x = Some z \<and> from_finish J t s (probe_ops pb) z)"
proof -
  define o1 o2 o3 where o: "o1 = pb_ops1 pb" "o2 = pb_ops2 pb" "o3 = pb_ops3 pb"
  define r1 where "r1 = rop_run J o1 r"
  define r2 where "r2 = rop_run J o2 r1"
  define r3 where "r3 = rop_run J o3 r2"
  have po: "probe_ops pb = o1 @ o2 @ o3" by (simp add: probe_ops_def o)
  have el: "0 \<le> elapsed o1" "0 \<le> elapsed o2" "0 \<le> elapsed o3" by (rule elapsed_nonneg)+
  have t: "rr_time r1 = rr_time r + elapsed o1" "rr_time r2 = rr_time r1 + elapsed o2" "rr_time r3 = rr_time r2 + elapsed o3"
    by (simp_all add: r1_def r2_def r3_def rops_elapsed)
  note bnd = y [unfolded po elapsed_simps] e [unfolded po elapsed_simps]
  have a0: "awaited J t s n (rr_time r) [] r" using ok p by (simp add: awaited_def)
  have a1: "awaited J t s n (rr_time r) o1 r1"
    using awaited_run [OF a0 u, of o1] q bnd el by (simp add: po r1_def)
  have a2: "awaited J t s n (rr_time r) (o1 @ o2) r2"
    using awaited_run [OF a1 u, of o2] q bnd el t by (simp add: po r2_def)
  have a3: "awaited J t s n (rr_time r) ((o1 @ o2) @ o3) r3"
    using awaited_run [OF a2 u, of o3] q bnd el t by (simp add: po r3_def)
  have y1: "rr_time r1 < rr_time r + resultTTL" and y3: "rr_time r3 < rr_time r + resultTTL" using t el bnd by linarith+
  consider (failed) "x = Some (Inl RedisFailed)"
    | (first) d where "redis_get (getResultKey t s) r1 = Some d" "x = Some (decodeResult J d)"
    | (pending) m where "score t s r2 = Some m" "x = None" "r' = r2"
    | (second) "score t s r2 = None" "x = (case redis_get (getResultKey t s) r3 of Some d \<Rightarrow> Some (decodeResult J d)
        | None \<Rightarrow> Some (Inl (NoLongerPending s)))"
    using r unfolding tryReadResult_def Let_def o [symmetric] r1_def [symmetric] score_def [symmetric] r2_def [symmetric] r3_def [symmetric]
    by (cases "pb_get1 pb"; cases "redis_get (getResultKey t s) r1"; cases "pb_score pb"; cases "score t s r2"; cases "pb_get2 pb") auto
  then show ?thesis
  proof cases
    case (first d)
    from awaited_get [OF law a1 first(1) y1] first(2) show ?thesis
      by (intro disjI2) (auto intro: from_finish_mono simp: po)
  next
    case (pending m)
    with a2 have "m = n" by (auto simp: awaited_def ended_def)
    with pending a2 t el show ?thesis by (simp add: awaited_def po)
  next
    case second
    from a2 second(1) have "ended J t s (rr_time r) (o1 @ o2) r2" by (simp add: awaited_def)
    then have "ended J t s (rr_time r) ((o1 @ o2) @ o3) r3"
      using a3 ended_run [OF _ u, of J s "rr_time r" "o1 @ o2" r2 o3] q a2 by (simp add: po r3_def awaited_def)
    from ended_get [OF law this y3] obtain d where
      "redis_get (getResultKey t s) r3 = Some d" "from_finish J t s ((o1 @ o2) @ o3) (decodeResult J d)" by blast
    with second(2) show ?thesis by (simp add: po)
  qed simp
qed

text \<open>The whole wait.\<close>

definition probes_of :: "'s probe option list \<Rightarrow> 's probe list" where
  "probes_of ps = concat (map (\<lambda>p. case p of None \<Rightarrow> [] | Some p \<Rightarrow> [p]) ps)"

definition probes_ok :: "'s result_codec \<Rightarrow> string \<Rightarrow> string \<Rightarrow> 's probe list \<Rightarrow> bool" where
  "probes_ok J t s ps \<longleftrightarrow> list_all (\<lambda>p. list_all (undisturbed J t s) (probe_ops p) \<and> elapsed (probe_ops p) < resultTTL) ps"

definition wait_time :: "'s probe list \<Rightarrow> int" where
  "wait_time ps = (\<Sum>p\<leftarrow>ps. elapsed (probe_ops p))"

lemma wait_time_nonneg: "0 \<le> wait_time ps"
  by (auto simp: wait_time_def elapsed_nonneg intro!: sum_list_nonneg)

lemma wait_loop_outcome:
  assumes "codec_law J" "uuid_team t" "team_ok t r" "score t s r = Some n" "probes_ok J t s (probes_of ps)"
    "rr_time r + wait_time (probes_of ps) < n + staleTTL" "wait_loop J t s ps r = (Some x, r')"
  shows "x = Inl Cancelled \<or> x = Inl RedisFailed \<or> from_finish J t s (concat (map probe_ops (probes_of ps))) x"
  using assms(3-7)
proof (induction ps arbitrary: r)
  case (Cons q ps)
  show ?case
  proof (cases q)
    case None
    with Cons.prems(5) show ?thesis by simp
  next
    case (Some p)
    obtain y r1 where r1: "tryReadResult J t s p r = (y, r1)" by (metis prod.exhaust)
    have ps: "probes_of (q # ps) = p # probes_of ps" using Some by (simp add: probes_of_def)
    have w: "0 \<le> wait_time (probes_of ps)" by (rule wait_time_nonneg)
    have q: "list_all (undisturbed J t s) (probe_ops p)" "elapsed (probe_ops p) < resultTTL" "probes_ok J t s (probes_of ps)"
      using Cons.prems(3) by (simp_all add: ps probes_ok_def)
    have t: "rr_time r + elapsed (probe_ops p) + wait_time (probes_of ps) < n + staleTTL"
      using Cons.prems(4) by (simp add: ps wait_time_def)
    with w have t1: "rr_time r + elapsed (probe_ops p) < n + staleTTL" by linarith
    from tryReadResult_outcome [OF assms(1) Cons.prems(1) assms(2) Cons.prems(2) q(1,2) t1 r1]
    show ?thesis
    proof (elim disjE exE conjE)
      assume y: "y = None" "team_ok t r1" "score t s r1 = Some n" "rr_time r1 \<le> rr_time r + elapsed (probe_ops p)"
      have "wait_loop J t s ps r1 = (Some x, r')" using Cons.prems(5) Some r1 y(1) by simp
      with Cons.IH [OF y(2,3) q(3)] t y(4) show ?thesis
        unfolding ps by (auto intro: from_finish_mono)
    next
      assume "y = Some (Inl RedisFailed)"
      with Cons.prems(5) Some r1 show ?thesis by simp
    next
      fix z assume "y = Some z" "from_finish J t s (probe_ops p) z"
      with Cons.prems(5) Some r1 show ?thesis unfolding ps by (auto intro: from_finish_mono)
    qed
  qed
qed simp

definition empty_redis :: "int \<Rightarrow> rredis" where
  "empty_redis now = \<lparr>rr_set = (\<lambda>_. []), rr_zset = (\<lambda>_. []), rr_str = (\<lambda>_. None), rr_time = now\<rparr>"

lemma empty_ok: "team_ok t (empty_redis now)" "0 \<le> l \<Longrightarrow> within l t (empty_redis now)"
  by (simp_all add: empty_redis_def team_ok_def within_def sets_ok_def score_def redis_zscore_def running_def starting_def)

lemma rops_sets_ok: "sets_ok t r \<Longrightarrow> sets_ok t (rop_run J xs r)"
  unfolding rop_run_def by (induction xs arbitrary: r) (simp_all add: rop_sets_ok)

lemma Reserve_cases:
  assumes "Reserve t s l f r = (Inr y, r')"
  obtains (start) "y = FinishStart" "score t s r' = Some (rr_time r)" "rr_time r' = rr_time r"
  | (wait) m where "y = WaitForStart" "score t s r' = Some m" "rr_time r' = rr_time r"
proof -
  have f: "f = Fine" using assms by (cases f) (auto simp: Reserve_def run_script_def split: prod.splits)
  obtain x r1 where r1: "reserveScript (getStorageIndexKey t) (getPendingSetKey t) (getResultKey t s) s l (rr_time r)
      (rr_time r - staleTTL) r = (x, r1)" by (metis prod.exhaust)
  have out: "r' = r1" "(if x = reserveResultReserved then Inr FinishStart
       else if x = reserveResultAlreadyInStorage then Inl ErrAlreadyExists
       else if x = reserveResultAlreadyPending then Inr WaitForStart
       else if x = reserveResultLimitExceeded then Inl (LimitExceeded t) else Inl (UnexpectedResult x)) = Inr y"
    using assms f r1 by (simp_all add: Reserve_def run_script_def)
  show ?thesis
    using r1
  proof (cases rule: reserveScript_cases)
    case stored
    with out(2) show ?thesis by (simp add: reserve_codes)
  next
    case waiting
    with out wait show ?thesis by (auto simp: reserve_codes score_def redis_zclean_def)
  next
    case full
    with out(2) show ?thesis by (simp add: reserve_codes)
  next
    case reserved
    with out start show ?thesis by (simp add: reserve_codes score_zadd) (simp add: redis_defs)
  qed
qed

lemma Reserve_index: "Reserve t s l f r = (Inr y, r') \<Longrightarrow> s \<notin> set (rr_set r' (getStorageIndexKey t))"
  by (cases f) (auto simp: Reserve_def run_script_def reserveScript_def Let_def reserve_codes clean_set redis_zadd_def redis_del_def
      split: if_splits)

section \<open>Properties\<close>

text \<open>(C16) How far a team can exceed its limit. If every reservation of the team uses a limit of at most \<open>l\<close>, then
  after any sequence of reservations, releases, ends of starts, additions, removals, lost answers and lapses of
  time, the sandboxes that run or are being started are at most \<open>l\<close> plus the number of additions of a sandbox that
  held no reservation when it was added. With no such addition the team stays within its limit; each one can
  exceed it by one, because \<open>Add\<close> does not ask for the reservation, which can have lapsed after 90
  seconds or been released by \<open>Store.Remove\<close>.\<close>

theorem team_limit:
  assumes "list_all (limit_ok l t) xs" "0 \<le> l"
  shows "int (card (running t (rop_run J xs (empty_redis now)) \<union> starting t (rop_run J xs (empty_redis now)))) \<le>
    l + int (stray_adds J t xs (empty_redis now))"
  using rops_within [OF empty_ok(2) [OF assms(2)] assms(1) order.refl] by (simp add: within_def)

text \<open>(C17) A sandbox is started once: after \<open>Reserve\<close> has let one caller start it, no other \<open>Reserve\<close> does, as long as the
  start has not ended, the reservation has not been released and 90 seconds have not passed.\<close>

theorem one_start_at_a_time:
  assumes "Reserve t s l f (rop_run J xs0 (empty_redis now)) = (Inr FinishStart, r)"
    and "list_all (keeps_reservation t s) xs" "elapsed xs < staleTTL"
  shows "fst (Reserve t s l' f' (rop_run J xs r)) \<noteq> Inr FinishStart"
proof
  let ?init = "rop_run J xs0 (empty_redis now)" and ?r = "rop_run J xs r"
  assume a: "fst (Reserve t s l' f' ?r) = Inr FinishStart"
  have e0: "sets_ok t (empty_redis now)" using empty_ok(1) [of t now] by (simp add: team_ok_def)
  have so0: "sets_ok t ?init" by (rule rops_sets_ok [OF e0])
  have so: "sets_ok t r"
    using rop_sets_ok [OF so0, of J "OReserve t s l f"] assms(1) by (simp add: rop_do_def)
  have sc: "score t s r = Some (rr_time ?init)" "rr_time r = rr_time ?init"
    using assms(1) by (cases rule: Reserve_cases; simp)+
  have y: "rr_time ?r < rr_time ?init + staleTTL" using assms(3) sc(2) by (simp add: rops_elapsed)
  from rops_score [OF so sc(1) assms(2) y] have p: "score t s ?r = Some (rr_time ?init)" "sets_ok t ?r" by blast+
  have c: "score t s (redis_zclean (getPendingSetKey t) (rr_time ?r - staleTTL) ?r) = Some (rr_time ?init)"
    by (rule score_clean [OF p(2,1)]) (use y in simp)
  obtain x r1 where r1: "reserveScript (getStorageIndexKey t) (getPendingSetKey t) (getResultKey t s) s l' (rr_time ?r)
      (rr_time ?r - staleTTL) ?r = (x, r1)" by (metis prod.exhaust)
  have "x \<noteq> reserveResultReserved"
    using r1 by (cases rule: reserveScript_cases) (use c in \<open>auto simp: score_def reserve_codes\<close>)
  with a r1 show False by (cases f') (auto simp: Reserve_def run_script_def split: if_splits)
qed

text \<open>(C18) What a waiter reports while its start is left alone. Assume that between the commands of the wait nobody
  releases the reservation or reserves the sandbox again, that the result of the start can be encoded, that no probe
  takes 30 seconds and that the wait ends within 90 seconds of the reservation. Then the wait ends with the
  outcome that the starting instance reported, or with the end of the waiter's context, or with a failure
  of Redis. Without the first condition the waiter can also report that the start has vanished, as
  \<open>retry_hides_result\<close> shows.\<close>

theorem waiter_gets_outcome:
  assumes "codec_law J" "uuid_team t" "list_all rop_typed xs0"
    and "Reserve t s l Fine (rop_run J xs0 (empty_redis now)) = (Inr WaitForStart, r)" "score t s r = Some n"
    and "waitForStart J t s p ps r = (Some x, r')" "probes_ok J t s (p # probes_of ps)"
    and "rr_time r + wait_time (p # probes_of ps) < n + staleTTL"
  shows "x = Inl Cancelled \<or> x = Inl RedisFailed \<or>
    (\<exists>b e f. OFinish t s b e f \<in> set (concat (map probe_ops (p # probes_of ps))) \<and> f \<noteq> NotSent \<and> x = start_outcome b e)"
proof -
  have "team_ok t (rop_run J xs0 (empty_redis now))" by (rule rops_team_ok [OF empty_ok(1) assms(2,3)])
  from rop_team_ok [OF this assms(2), of "OReserve t s l Fine" J] assms(2,4) have "team_ok t r"
    by (simp add: rop_do_def rop_typed_def op_team_def)
  moreover have ps: "probes_of (Some p # ps) = p # probes_of ps" by (simp add: probes_of_def)
  ultimately show ?thesis
    using wait_loop_outcome [OF assms(1,2) _ assms(5), of "Some p # ps" x r'] assms(6-8)
    unfolding waitForStart_def ps from_finish_def by blast
qed

text \<open>A retry hides the result of a failed start: if the start fails after the first command of a waiter's probe, and the
  sandbox is reserved again before the last one, then the waiter reports that the sandbox is no longer
  pending and has no result, though the start had a result and the sandbox is pending again.\<close>

theorem retry_hides_result:
  assumes "uuid_team t" "list_all rop_typed xs0" "Reserve t s l Fine (rop_run J xs0 (empty_redis now)) = (Inr WaitForStart, r)"
    and "encodeResult J b (Some e) \<noteq> None"
    and "tryReadResult J t s \<lparr>pb_ops1 = [], pb_get1 = False, pb_ops2 = [OFinish t s b (Some e) Fine], pb_score = False,
      pb_ops3 = [OReserve t s (-1) Fine], pb_get2 = False\<rparr> r = (x, r')"
  shows "x = Some (Inl (NoLongerPending s)) \<and> score t s r' = Some (rr_time r')"
proof -
  let ?init = "rop_run J xs0 (empty_redis now)"
  have "team_ok t ?init" by (rule rops_team_ok [OF empty_ok(1) assms(1,2)])
  from rop_team_ok [OF this assms(1), of "OReserve t s l Fine" J] assms(1,3) have ok: "team_ok t r"
    by (simp add: rop_do_def rop_typed_def op_team_def)
  from assms(3) obtain m where m: "score t s r = Some m" by (cases rule: Reserve_cases) simp_all
  have idx: "s \<notin> set (rr_set r (getStorageIndexKey t))"
    using assms(3) by (rule Reserve_index)
  from assms(4) obtain d where d: "encodeResult J b (Some e) = Some d" by blast
  define r2 where "r2 = redis_set_ex (getResultKey t s) d resultTTL (redis_zrem (getPendingSetKey t) s r)"
  have r2: "rop_run J [OFinish t s b (Some e) Fine] r = r2"
    by (simp add: rop_run_def rop_do_def finishStart_eq finishStartScript_def d r2_def)
  have sc2: "score t s r2 = None" by (simp add: r2_def score_zrem)
  obtain y r3 where r3: "reserveScript (getStorageIndexKey t) (getPendingSetKey t) (getResultKey t s) s (-1) (rr_time r2)
      (rr_time r2 - staleTTL) r2 = (y, r3)" by (metis prod.exhaust)
  have "sets_ok t r2" using ok by (simp add: r2_def team_ok_def zrem_fewer(1))
  note c2 = score_clean_None [OF this sc2, of t "rr_time r2 - staleTTL"]
  have i2: "s \<notin> set (rr_set r2 (getStorageIndexKey t))" using idx by (simp add: r2_def redis_defs)
  have "r3 = redis_zadd (getPendingSetKey t) (rr_time r2) s (redis_del (getResultKey t s) (redis_zclean (getPendingSetKey t) (rr_time r2 - staleTTL) r2))"
    using r3 i2 c2 by (simp add: reserveScript_def clean_set score_def Let_def)
  then have o3: "redis_get (getResultKey t s) r3 = None" "score t s r3 = Some (rr_time r2)" "rr_time r3 = rr_time r2"
    by (simp_all add: score_zadd) (simp add: redis_defs)
  have run3: "rop_run J [OReserve t s (-1) Fine] r2 = r3"
    using r3 by (simp add: rop_run_def rop_do_def Reserve_snd)
  have g: "redis_get (getResultKey t s) r = None" using ok m by (simp add: team_ok_def)
  have e: "rop_run J [] r = r" by (simp add: rop_run_def)
  from assms(5) g sc2 o3 show ?thesis
    by (simp add: tryReadResult_def e r2 run3 score_def [symmetric] Let_def)
qed

text \<open>(C37) Removing a sandbox can take away the reservation of its next start: when \<open>Store.Remove\<close> has removed a sandbox
  from the index and another instance reserves it before the reservation is released, then the
  release drops that fresh reservation, and a third caller is let to start the same sandbox.\<close>

theorem remove_drops_reservation:
  assumes "s \<in> running t r" "score t s r = None" "sets_ok t r"
  shows "fst (Reserve t s (-1) Fine (storage_remove t s r)) = Inr FinishStart \<and>
    fst (Reserve t s (-1) Fine (Store_Remove J t s [OReserve t s (-1) Fine] r)) = Inr FinishStart"
proof -
  have free: "fst (Reserve t s (-1) Fine q) = Inr FinishStart" if "s \<notin> running t q" "score t s q = None" "sets_ok t q" for q
  proof -
    note c = score_clean_None [OF that(3,2), of t "rr_time q - staleTTL"]
    show ?thesis
      using that(1) c by (simp add: Reserve_def run_script_def reserveScript_def clean_set score_def running_def reserve_codes Let_def)
  qed
  let ?q = "storage_remove t s r"
  have q: "s \<notin> running t ?q" "score t s ?q = None" "sets_ok t ?q"
    using assms by (simp_all add: storage_remove_def sets_ok_sets) (simp add: running_def redis_srem_def)
  define q2 where "q2 = rop_run J [OReserve t s (-1) Fine] ?q"
  have so2: "sets_ok t q2" unfolding q2_def by (rule rops_sets_ok [OF q(3)])
  have i2: "s \<notin> running t q2"
    using q(1) by (simp add: q2_def rop_run_def rop_do_def Reserve_snd running_def reserveScript_def Let_def redis_defs)
  have "Store_Remove J t s [OReserve t s (-1) Fine] r = releaseScript (getPendingSetKey t) (getResultKey t s) s q2"
    by (simp add: Store_Remove_def q2_def Release_snd)
  moreover have "s \<notin> running t (releaseScript (getPendingSetKey t) (getResultKey t s) s q2)"
    "score t s (releaseScript (getPendingSetKey t) (getResultKey t s) s q2) = None"
    "sets_ok t (releaseScript (getPendingSetKey t) (getResultKey t s) s q2)"
    using i2 so2 by (simp_all add: releaseScript_def score_zrem zrem_fewer(1)) (simp add: running_def redis_defs)
  ultimately show ?thesis using free q by simp
qed

section \<open>Examples\<close>

definition demo_team :: string where
  "demo_team = ''0b5a9e0c-1111-2222-3333-444455556666''"

definition demo_failure :: start_error where
  "demo_failure = \<lparr>se_Message = ''no node'', se_Api = Some (500, ''try again'')\<rparr>"

definition failed_result :: "string reservationResult" where
  "failed_result = \<lparr>rs_Sandbox = '''', rs_Error = Some \<lparr>re_Message = ''no node'', re_Code = 500, re_ClientMsg = ''try again''\<rparr>\<rparr>"

definition demo_codec :: "string result_codec" where
  "demo_codec = \<lparr>marshal_result = (\<lambda>x. if x = failed_result then Some ''err'' else if rs_Error x = None then Some (CHR ''s'' # rs_Sandbox x) else None),
     unmarshal_result = (\<lambda>d. if d = ''err'' then Some failed_result else case d of [] \<Rightarrow> None | c # b \<Rightarrow> Some \<lparr>rs_Sandbox = b, rs_Error = None\<rparr>)\<rparr>"

lemma demo_codec_law: "codec_law demo_codec"
  by (auto simp: codec_law_def demo_codec_def failed_result_def split: if_splits list.splits)

theorem team_limit_witness:
  "let r = rop_run demo_codec [OReserve demo_team ''a'' 1 Fine, OTick 90, OReserve demo_team ''b'' 1 LostReply, OAdd demo_team ''a'',
       OFinish demo_team ''a'' ''x'' None Fine, OReserve demo_team ''c'' 1 Fine] (empty_redis 0)
   in int (card (running demo_team r \<union> starting demo_team r)) \<le> 1 + 1 \<and> ''a'' \<in> running demo_team r \<and> ''b'' \<in> starting demo_team r \<and>
     ''c'' \<notin> starting demo_team r"
proof -
  let ?xs = "[OReserve demo_team ''a'' 1 Fine, OTick 90, OReserve demo_team ''b'' 1 LostReply, OAdd demo_team ''a'',
       OFinish demo_team ''a'' ''x'' None Fine, OReserve demo_team ''c'' 1 Fine]"
  have "list_all (limit_ok 1 demo_team) ?xs" by (simp add: limit_ok_def)
  moreover have "stray_adds demo_codec demo_team ?xs (empty_redis 0) = 1" by code_simp
  ultimately have "int (card (running demo_team (rop_run demo_codec ?xs (empty_redis 0)) \<union> starting demo_team (rop_run demo_codec ?xs (empty_redis 0)))) \<le> 1 + 1"
    using team_limit [of 1 demo_team ?xs demo_codec 0] by simp
  moreover have "''a'' \<in> running demo_team (rop_run demo_codec ?xs (empty_redis 0)) \<and> ''b'' \<in> starting demo_team (rop_run demo_codec ?xs (empty_redis 0)) \<and>
      ''c'' \<notin> starting demo_team (rop_run demo_codec ?xs (empty_redis 0))"
    by code_simp
  ultimately show ?thesis by (simp add: Let_def)
qed

definition demo_reserved :: rredis where
  "demo_reserved = rop_run demo_codec [OReserve demo_team ''a'' 2 Fine, OTick 5] (empty_redis 0)"

theorem one_start_at_a_time_witness:
  "fst (Reserve demo_team ''a'' (-1) Fine (rop_run demo_codec [OTick 80, OReserve demo_team ''b'' (-1) Fine] (snd (Reserve demo_team ''a'' 2 Fine (empty_redis 0))))) \<noteq> Inr FinishStart"
proof -
  have r: "Reserve demo_team ''a'' 2 Fine (rop_run demo_codec [] (empty_redis 0)) = (Inr FinishStart, snd (Reserve demo_team ''a'' 2 Fine (empty_redis 0)))"
  proof -
    have "fst (Reserve demo_team ''a'' 2 Fine (rop_run demo_codec [] (empty_redis 0))) = Inr FinishStart" by code_simp
    then show ?thesis by (simp add: prod_eq_iff rop_run_def)
  qed
  have "list_all (keeps_reservation demo_team ''a'') [OTick 80, OReserve demo_team ''b'' (-1) Fine]"
    "elapsed [OTick 80, OReserve demo_team ''b'' (-1) Fine] < staleTTL"
    by (simp_all add: keeps_reservation_def op_time_def staleTTL_def)
  from one_start_at_a_time [OF r this] show ?thesis .
qed

definition demo_probe :: "string rop list \<Rightarrow> string rop list \<Rightarrow> string rop list \<Rightarrow> string probe" where
  "demo_probe a b c = \<lparr>pb_ops1 = a, pb_get1 = False, pb_ops2 = b, pb_score = False, pb_ops3 = c, pb_get2 = False\<rparr>"

definition demo_waiting :: rredis where
  "demo_waiting = snd (Reserve demo_team ''a'' 2 Fine demo_reserved)"

lemma demo_waits:
  "Reserve demo_team ''a'' 2 Fine (rop_run demo_codec [OReserve demo_team ''a'' 2 Fine, OTick 5] (empty_redis 0)) = (Inr WaitForStart, demo_waiting)"
proof -
  have "fst (Reserve demo_team ''a'' 2 Fine demo_reserved) = Inr WaitForStart" by code_simp
  then show ?thesis unfolding demo_reserved_def [symmetric] demo_waiting_def by (simp add: prod_eq_iff)
qed

lemma demo_typed: "uuid_team demo_team" "list_all rop_typed [OReserve demo_team ''a'' 2 Fine, OTick 5]"
  by (simp_all add: uuid_team_def demo_team_def rop_typed_def op_team_def)

theorem waiter_gets_outcome_witness:
  "fst (waitForStart demo_codec demo_team ''a'' (demo_probe [] [] []) [Some (demo_probe [OTick 3] [OFinish demo_team ''a'' '''' (Some demo_failure) Fine] [OTick 4])] demo_waiting) =
   Some (Inl (StartFailed demo_failure))"
proof -
  let ?p = "demo_probe [] [] []" and ?q = "demo_probe [OTick 3] [OFinish demo_team ''a'' '''' (Some demo_failure) Fine] [OTick 4]"
  let ?w = "waitForStart demo_codec demo_team ''a'' ?p [Some ?q] demo_waiting"
  have c: "(case fst ?w of Some (Inl (StartFailed _)) \<Rightarrow> True | _ \<Rightarrow> False)" by code_simp
  obtain x r' where w: "?w = (x, r')" by (metis prod.exhaust)
  from c obtain y where x: "x = Some (Inl (StartFailed y))" unfolding w by (auto split: option.splits sum.splits rsv_error.splits)
  have s: "score demo_team ''a'' demo_waiting = Some 0" by code_simp
  have t: "rr_time demo_waiting = 5" by code_simp
  have e: "encodeResult demo_codec '''' (Some demo_failure) \<noteq> None" by code_simp
  have ok: "probes_ok demo_codec demo_team ''a'' (?p # probes_of [Some ?q])" "rr_time demo_waiting + wait_time (?p # probes_of [Some ?q]) < 0 + staleTTL"
    using demo_typed(1) e by (simp_all add: probes_ok_def probes_of_def probe_ops_def demo_probe_def undisturbed_def rop_typed_def op_team_def
        op_time_def resultTTL_def staleTTL_def wait_time_def t)
  from waiter_gets_outcome [OF demo_codec_law demo_typed demo_waits s w [unfolded x] ok]
  have "\<exists>b e f. OFinish demo_team ''a'' b e f \<in> set (concat (map probe_ops (?p # probes_of [Some ?q]))) \<and> f \<noteq> NotSent \<and> (Inl (StartFailed y) :: rsv_error + string) = start_outcome b e"
    by simp
  then have "(Inl (StartFailed y) :: rsv_error + string) = start_outcome '''' (Some demo_failure)"
    by (auto simp: probes_of_def probe_ops_def demo_probe_def)
  then have "y = demo_failure" by (simp add: start_outcome_def canon_error_def demo_failure_def)
  with w x show ?thesis by simp
qed

theorem retry_hides_result_witness:
  "fst (tryReadResult demo_codec demo_team ''a'' \<lparr>pb_ops1 = [], pb_get1 = False, pb_ops2 = [OFinish demo_team ''a'' '''' (Some demo_failure) Fine],
     pb_score = False, pb_ops3 = [OReserve demo_team ''a'' (-1) Fine], pb_get2 = False\<rparr> demo_waiting) = Some (Inl (NoLongerPending ''a''))"
proof -
  have e: "encodeResult demo_codec '''' (Some demo_failure) \<noteq> None" by code_simp
  from retry_hides_result [OF demo_typed demo_waits e] show ?thesis by (metis prod.collapse)
qed

theorem remove_drops_reservation_witness:
  "fst (Reserve demo_team ''a'' (-1) Fine (Store_Remove demo_codec demo_team ''a'' [OReserve demo_team ''a'' (-1) Fine]
     (rop_run demo_codec [OAdd demo_team ''a''] (empty_redis 0)))) = Inr FinishStart"
proof -
  let ?r = "rop_run demo_codec [OAdd demo_team ''a''] (empty_redis 0)"
  have "''a'' \<in> running demo_team ?r" "score demo_team ''a'' ?r = None" "sets_ok demo_team ?r"
    by code_simp+
  from remove_drops_reservation [OF this, of demo_codec] show ?thesis by blast
qed

end
