(* ===== verification/Placement.thy ===== *)
theory Placement
  imports Prelude "HOL-Library.AList" "HOL-Library.Multiset"
begin

text \<open>
  Placement of sandboxes on nodes (\<open>api/internal/orchestrator/placement\<close>) and the part of a node that it reads and
  writes (\<open>api/internal/orchestrator/nodemanager\<close>, \<open>shared/pkg/machineinfo\<close>). Nodes are shared objects: a pointer to a
  node is its index in the list of nodes. Other goroutines change nodes while a placement runs; a
  placement takes lists of their operations. A choice of a node reads one snapshot of the nodes.

  Parameters: the operations of float64 (the record \<open>floats\<close>; of the order, \<open>float_law\<close> says that less-than is
  transitive and irreflexive, which holds with infinities and NaN), the random numbers, the
  state of the connection to a node and the answers of the orchestrators.
\<close>

section \<open>Nodes (nodemanager, machineinfo)\<close>

record MachineInfo =
  mi_CPUArchitecture :: string
  mi_CPUFamily :: string
  mi_CPUModel :: string
  mi_CPUModelName :: string
  mi_CPUFlags :: "string list"

definition IceLakeModel :: string where "IceLakeModel = ''106''"
definition EmeraldRapidsModel :: string where "EmeraldRapidsModel = ''207''"

definition compatibleNodeModels :: "string \<Rightarrow> string list" where
  "compatibleNodeModels model = (if model = IceLakeModel then [EmeraldRapidsModel] else [])"

definition IsCompatibleWith :: "MachineInfo \<Rightarrow> MachineInfo \<Rightarrow> bool" where
  "IsCompatibleWith buildCPU nodeCPU =
     (if mi_CPUArchitecture buildCPU \<noteq> mi_CPUArchitecture nodeCPU \<or> mi_CPUFamily buildCPU \<noteq> mi_CPUFamily nodeCPU then False
      else if mi_CPUModel buildCPU = mi_CPUModel nodeCPU then True
      else mi_CPUModel nodeCPU \<in> set (compatibleNodeModels (mi_CPUModel buildCPU)))"

definition IsExactMatch :: "MachineInfo \<Rightarrow> MachineInfo \<Rightarrow> bool" where
  "IsExactMatch m other \<longleftrightarrow> mi_CPUArchitecture m = mi_CPUArchitecture other \<and> mi_CPUFamily m = mi_CPUFamily other \<and>
     mi_CPUModel m = mi_CPUModel other"

datatype NodeStatus = NodeConnecting | NodeDraining | NodeReady | NodeStandby | NodeUnhealthy

datatype conn_state = ConnIdle | ConnConnecting | ConnReady | ConnTransientFailure | ConnShutdown

record StatusInfo =
  si_Status :: NodeStatus
  si_ChangedAt :: int

record SandboxResources =
  sr_CPUs :: int
  sr_MiBMemory :: int

record DiskMetrics =
  dk_MountPoint :: string
  dk_Device :: string
  dk_FilesystemType :: string
  dk_UsedBytes :: int
  dk_TotalBytes :: int

record Metrics =
  mt_CpuAllocated :: int
  mt_CpuPercent :: int
  mt_CpuCount :: int
  mt_MemoryAllocatedBytes :: int
  mt_MemoryUsedBytes :: int
  mt_MemoryTotalBytes :: int
  mt_SandboxCount :: int
  mt_HugePagesTotal :: int
  mt_HugePagesUsed :: int
  mt_HugePagesReserved :: int
  mt_HugePageSizeBytes :: int
  mt_HostDisks :: "DiskMetrics list"

record PlacementMetrics =
  pm_InProgress :: "(string \<times> SandboxResources) list"
  pm_Success :: int
  pm_Fails :: int

text \<open>Of a node, the fields that placement touches: its address, client, cluster and metadata play no part in it.\<close>

record node =
  n_ID :: string
  n_conn :: conn_state
  n_status :: StatusInfo
  n_metrics :: Metrics
  n_machineInfo :: MachineInfo
  n_labels :: "string list"
  n_PlacementMetrics :: PlacementMetrics

definition removeSandbox :: "string \<Rightarrow> PlacementMetrics \<Rightarrow> PlacementMetrics" where
  "removeSandbox sandboxID p = p\<lparr>pm_InProgress := AList.delete sandboxID (pm_InProgress p)\<rparr>"

definition StartPlacing :: "string \<Rightarrow> SandboxResources \<Rightarrow> PlacementMetrics \<Rightarrow> PlacementMetrics" where
  "StartPlacing sandboxID resources p = p\<lparr>pm_InProgress := AList.update sandboxID resources (pm_InProgress p)\<rparr>"

definition Success :: "string \<Rightarrow> PlacementMetrics \<Rightarrow> PlacementMetrics" where
  "Success sandboxID p = removeSandbox sandboxID (p\<lparr>pm_Success := u64 (pm_Success p + 1)\<rparr>)"

definition Skip :: "string \<Rightarrow> PlacementMetrics \<Rightarrow> PlacementMetrics" where
  "Skip sandboxID p = removeSandbox sandboxID p"

definition Fail :: "string \<Rightarrow> PlacementMetrics \<Rightarrow> PlacementMetrics" where
  "Fail sandboxID p = removeSandbox sandboxID (p\<lparr>pm_Fails := u64 (pm_Fails p + 1)\<rparr>)"

definition on_placement :: "(PlacementMetrics \<Rightarrow> PlacementMetrics) \<Rightarrow> node \<Rightarrow> node" where
  "on_placement f n = n\<lparr>n_PlacementMetrics := f (n_PlacementMetrics n)\<rparr>"

text \<open>The status that others see: a ready node counts as such only while its connection is usable.\<close>

definition Node_StatusInfo :: "node \<Rightarrow> StatusInfo" where
  "Node_StatusInfo n =
     (let status = si_Status (n_status n);
          status = (if status = NodeReady
                    then (case n_conn n of
                        ConnShutdown \<Rightarrow> NodeUnhealthy
                      | ConnTransientFailure \<Rightarrow> NodeConnecting
                      | ConnConnecting \<Rightarrow> NodeConnecting
                      | _ \<Rightarrow> status)
                    else status)
      in \<lparr>si_Status = status, si_ChangedAt = si_ChangedAt (n_status n)\<rparr>)"

definition Node_Status :: "node \<Rightarrow> NodeStatus" where
  "Node_Status n = si_Status (Node_StatusInfo n)"

definition setStatus :: "NodeStatus \<Rightarrow> int \<Rightarrow> node \<Rightarrow> node" where
  "setStatus status changedAt n = n\<lparr>n_status := \<lparr>si_Status = status, si_ChangedAt = changedAt\<rparr>\<rparr>"

definition markUnhealthyLocal :: "int \<Rightarrow> node \<Rightarrow> node" where
  "markUnhealthyLocal now n =
     (if si_Status (n_status n) = NodeUnhealthy then n
      else n\<lparr>n_status := \<lparr>si_Status = NodeUnhealthy, si_ChangedAt = now\<rparr>\<rparr>)"

definition setLabels :: "string list \<Rightarrow> node \<Rightarrow> node" where
  "setLabels labels n =
     (let labelsSet = remdups labels;
          labelsSet = (if length labelsSet = 0 then [''default''] else labelsSet)
      in n\<lparr>n_labels := labelsSet\<rparr>)"

definition setMachineInfo :: "MachineInfo \<Rightarrow> node \<Rightarrow> node" where
  "setMachineInfo info n = n\<lparr>n_machineInfo := info\<rparr>"

text \<open>A report of the orchestrator replaces all metrics.\<close>

definition UpdateMetrics :: "Metrics \<Rightarrow> node \<Rightarrow> node" where
  "UpdateMetrics info n = n\<lparr>n_metrics := info\<rparr>"

text \<open>The first argument says whether optimistic accounting is on (no feature flag client, or the flag is set).\<close>

definition OptimisticAdd :: "bool \<Rightarrow> SandboxResources \<Rightarrow> node \<Rightarrow> node" where
  "OptimisticAdd accounting res n =
     (if \<not> accounting then n
      else let m = n_metrics n in
        n\<lparr>n_metrics := m\<lparr>mt_CpuAllocated := u32 (mt_CpuAllocated m + u32 (sr_CPUs res)),
          mt_MemoryAllocatedBytes := u64 (mt_MemoryAllocatedBytes m + u64 (u64 (sr_MiBMemory res) * 1024 * 1024))\<rparr>\<rparr>)"

definition OptimisticRemove :: "bool \<Rightarrow> SandboxResources \<Rightarrow> node \<Rightarrow> node" where
  "OptimisticRemove accounting res n =
     (if \<not> accounting then n
      else let m = n_metrics n; cpu = u32 (sr_CPUs res); memory = u64 (u64 (sr_MiBMemory res) * 1024 * 1024) in
        if cpu > mt_CpuAllocated m \<or> memory > mt_MemoryAllocatedBytes m then n
        else n\<lparr>n_metrics := m\<lparr>mt_CpuAllocated := u32 (mt_CpuAllocated m - cpu),
          mt_MemoryAllocatedBytes := u64 (mt_MemoryAllocatedBytes m - memory)\<rparr>\<rparr>)"

text \<open>What other goroutines do to nodes: syncs, connection changes, other placements and removals.\<close>

datatype node_op =
    NConn nat conn_state
  | NStatus nat NodeStatus int
  | NUnhealthy nat int
  | NLabels nat "string list"
  | NMachine nat MachineInfo
  | NMetrics nat Metrics
  | NStart nat string SandboxResources
  | NSuccess nat string
  | NSkip nat string
  | NFail nat string
  | NAdd nat bool SandboxResources
  | NRemove nat bool SandboxResources

definition at_node :: "nat \<Rightarrow> (node \<Rightarrow> node) \<Rightarrow> node list \<Rightarrow> node list" where
  "at_node i f w = (if i < length w then w[i := f (w ! i)] else w)"

fun node_do :: "node_op \<Rightarrow> node list \<Rightarrow> node list" where
  "node_do (NConn i c) w = at_node i (\<lambda>n. n\<lparr>n_conn := c\<rparr>) w"
| "node_do (NStatus i s t) w = at_node i (setStatus s t) w"
| "node_do (NUnhealthy i t) w = at_node i (markUnhealthyLocal t) w"
| "node_do (NLabels i ls) w = at_node i (setLabels ls) w"
| "node_do (NMachine i m) w = at_node i (setMachineInfo m) w"
| "node_do (NMetrics i m) w = at_node i (UpdateMetrics m) w"
| "node_do (NStart i s res) w = at_node i (on_placement (StartPlacing s res)) w"
| "node_do (NSuccess i s) w = at_node i (on_placement (Success s)) w"
| "node_do (NSkip i s) w = at_node i (on_placement (Skip s)) w"
| "node_do (NFail i s) w = at_node i (on_placement (Fail s)) w"
| "node_do (NAdd i a res) w = at_node i (OptimisticAdd a res) w"
| "node_do (NRemove i a res) w = at_node i (OptimisticRemove a res) w"

definition node_run :: "node_op list \<Rightarrow> node list \<Rightarrow> node list" where
  "node_run xs w = fold node_do xs w"

section \<open>Best of K (placement_best_of_K.go)\<close>

record 'f floats =
  fl_of :: "int \<Rightarrow> 'f"
  fl_add :: "'f \<Rightarrow> 'f \<Rightarrow> 'f"
  fl_mul :: "'f \<Rightarrow> 'f \<Rightarrow> 'f"
  fl_div :: "'f \<Rightarrow> 'f \<Rightarrow> 'f"
  fl_lt :: "'f \<Rightarrow> 'f \<Rightarrow> bool"
  fl_max :: 'f

record 'f BestOfKConfig =
  bk_R :: 'f
  bk_Alpha :: 'f
  bk_K :: int

definition isNodeCPUCompatible :: "node \<Rightarrow> MachineInfo \<Rightarrow> bool" where
  "isNodeCPUCompatible n buildMachineInfo =
     (if mi_CPUArchitecture buildMachineInfo = '''' then True else IsCompatibleWith buildMachineInfo (n_machineInfo n))"

definition isNodeLabelsCompatible :: "node \<Rightarrow> string list \<Rightarrow> bool" where
  "isNodeLabelsCompatible n requiredLabels = list_all (\<lambda>req. req \<in> set (n_labels n)) requiredLabels"

text \<open>The sum of a map of resources, in the order of the iteration; the addition of int64 wraps around.\<close>

definition Score :: "'f floats \<Rightarrow> node \<Rightarrow> SandboxResources \<Rightarrow> 'f BestOfKConfig \<Rightarrow> 'f" where
  "Score F n resources config =
     (let metrics = n_metrics n;
          pendingCPUs = fold (\<lambda>(_, res) p. i64 (p + sr_CPUs res)) (pm_InProgress (n_PlacementMetrics n)) 0;
          reserved = u32 (mt_CpuAllocated metrics + u32 pendingCPUs);
          usageAvg = fl_div F (fl_of F (mt_CpuPercent metrics)) (fl_of F 100)
      in if mt_CpuCount metrics = 0 then fl_max F
         else let totalCapacity = fl_mul F (bk_R config) (fl_of F (mt_CpuCount metrics));
                  cpuRequested = fl_of F (sr_CPUs resources)
              in fl_div F (fl_add F (fl_add F cpuRequested (fl_of F reserved)) (fl_mul F (bk_Alpha config) usageAvg)) totalCapacity)"

text \<open>The filters of the sampling loop.\<close>

definition passes :: "string list \<Rightarrow> MachineInfo \<Rightarrow> bool \<Rightarrow> string list \<Rightarrow> node \<Rightarrow> bool" where
  "passes excludedNodes buildMachineInfo filterByLabels requiredLabels n =
     (if n_ID n \<in> set excludedNodes then False
      else if Node_Status n \<noteq> NodeReady then False
      else if \<not> isNodeCPUCompatible n buildMachineInfo then False
      else if filterByLabels \<and> \<not> isNodeLabelsCompatible n requiredLabels then False
      else True)"

text \<open>The loop, on the number of remaining indices; \<open>rnd m\<close> is the random number drawn when \<open>m\<close> indices remain.\<close>

fun sample_loop :: "(nat \<Rightarrow> nat) \<Rightarrow> (nat \<Rightarrow> bool) \<Rightarrow> nat \<Rightarrow> nat list \<Rightarrow> nat \<Rightarrow> nat list \<Rightarrow> nat list \<Rightarrow> nat list" where
  "sample_loop rnd ok k items 0 indices candidates = candidates"
| "sample_loop rnd ok k items (Suc m) indices candidates =
     (if length candidates < k then
        let j = rnd (Suc m) mod Suc m; pick = indices ! j;
            indices = indices[j := indices ! m, m := indices ! j];
            n = items ! pick
        in sample_loop rnd ok k items m indices (if ok n then candidates @ [n] else candidates)
      else candidates)"

definition sample :: "(nat \<Rightarrow> nat) \<Rightarrow> node list \<Rightarrow> nat list \<Rightarrow> 'f BestOfKConfig \<Rightarrow> string list \<Rightarrow> MachineInfo \<Rightarrow> bool \<Rightarrow>
    string list \<Rightarrow> nat list" where
  "sample rnd w items config excludedNodes buildMachineInfo filterByLabels requiredLabels =
     (if bk_K config \<le> 0 \<or> length items = 0 then []
      else sample_loop rnd (\<lambda>i. passes excludedNodes buildMachineInfo filterByLabels requiredLabels (w ! i)) (nat (bk_K config))
        items (length items) [0..<length items] [])"

datatype placement_error = TimedOutAttempt nat | NoNodesAvailable | FailedToPlaceSandbox | SandboxCreateFailed

definition best_step :: "'f floats \<Rightarrow> (nat \<Rightarrow> 'f) \<Rightarrow> nat \<Rightarrow> nat option \<times> 'f \<Rightarrow> nat option \<times> 'f" where
  "best_step F score i = (\<lambda>(bestNode, bestScore). if fl_lt F (score i) bestScore then (Some i, score i) else (bestNode, bestScore))"

record placement_request =
  rq_Resources :: SandboxResources
  rq_MachineInfo :: MachineInfo
  rq_filterByLabels :: bool
  rq_requiredLabels :: "string list"

definition chooseNode :: "'f floats \<Rightarrow> 'f BestOfKConfig \<Rightarrow> placement_request \<Rightarrow> (nat \<Rightarrow> nat) \<Rightarrow> node list \<Rightarrow> nat list \<Rightarrow>
    string list \<Rightarrow> placement_error + nat" where
  "chooseNode F config q rnd w nodes excludedNodes =
     (let candidates = sample rnd w nodes config excludedNodes (rq_MachineInfo q) (rq_filterByLabels q) (rq_requiredLabels q)
      in case fst (fold (best_step F (\<lambda>i. Score F (w ! i) (rq_Resources q) config)) candidates (None, fl_max F)) of
           None \<Rightarrow> Inl FailedToPlaceSandbox
         | Some i \<Rightarrow> Inr i)"

section \<open>Placement (placement.go)\<close>

text \<open>The status codes that the loop tells apart; every other code is \<open>OtherCode\<close>.\<close>

datatype grpc_code = ResourceExhausted | OtherCode

record PlacementResult =
  pr_Node :: "nat option"
  pr_WarmedNode :: "nat option"
  pr_TimedOut :: bool

definition maxRetries :: nat where "maxRetries = 3"

text \<open>One turn of the loop: whether the context is done at its head and when \<open>failed\<close> asks, what others do before the choice,
  while the node creates the sandbox and before the outcome is booked, the random numbers, and the answer of the node.\<close>

record round =
  rd_done :: bool
  rd_err :: bool
  rd_before :: "node_op list"
  rd_random :: "nat \<Rightarrow> nat"
  rd_during :: "node_op list"
  rd_answer :: "grpc_code option"
  rd_after :: "node_op list"
  rd_accounting :: bool

type_synonym placement_outcome = "PlacementResult \<times> placement_error option"
type_synonym algorithm = "(nat \<Rightarrow> nat) \<Rightarrow> node list \<Rightarrow> nat list \<Rightarrow> string list \<Rightarrow> placement_error + nat"

definition placement_failed :: "bool \<Rightarrow> nat option \<Rightarrow> placement_error \<Rightarrow> placement_outcome" where
  "placement_failed ctxErr firstTriedNode err =
     (if \<not> ctxErr then (\<lparr>pr_Node = None, pr_WarmedNode = None, pr_TimedOut = False\<rparr>, Some err)
      else (\<lparr>pr_Node = None, pr_WarmedNode = firstTriedNode, pr_TimedOut = True\<rparr>, Some err))"

text \<open>The loop over a list of turns; without an outcome it still runs. The list of attempts, each a node and its answer,
  is a history variable.\<close>

fun place_loop :: "algorithm \<Rightarrow> nat list \<Rightarrow> string \<Rightarrow> SandboxResources \<Rightarrow> round list \<Rightarrow> nat \<Rightarrow> string list \<Rightarrow> nat option \<Rightarrow>
    nat option \<Rightarrow> node list \<Rightarrow> placement_outcome option \<times> (nat \<times> grpc_code option) list \<times> node list" where
  "place_loop algo nodes sbx res [] attempt excluded node tried w = (None, [], w)"
| "place_loop algo nodes sbx res (r # rs) attempt excluded node tried w =
     (if attempt \<ge> maxRetries then (Some (placement_failed (rd_err r) tried SandboxCreateFailed), [], w)
      else if rd_done r then (Some (placement_failed True tried (TimedOutAttempt (attempt + 1))), [], w)
      else
        let w = node_run (rd_before r) w in
        case (case node of Some i \<Rightarrow> Inr i
              | None \<Rightarrow> if length excluded \<ge> length nodes then Inl NoNodesAvailable else algo (rd_random r) w nodes excluded) of
          Inl e \<Rightarrow> (Some (placement_failed (rd_err r) tried e), [], w)
        | Inr i \<Rightarrow>
            let w = node_run (rd_during r) (at_node i (on_placement (StartPlacing sbx res)) w) in
            (case rd_answer r of
               None \<Rightarrow>
                 let w = node_run (rd_after r) (at_node i (on_placement (Success sbx)) w);
                     w = at_node i (OptimisticAdd (rd_accounting r) res) w
                 in (Some (\<lparr>pr_Node = Some i, pr_WarmedNode = None, pr_TimedOut = False\<rparr>, None), [(i, None)], w)
             | Some c \<Rightarrow>
                 let w = node_run (rd_after r) w;
                     tried = (if c \<noteq> ResourceExhausted \<and> tried = None then Some i else tried);
                     (out, attempts, w) =
                       (if c = ResourceExhausted
                        then place_loop algo nodes sbx res rs attempt excluded None tried (at_node i (on_placement (Skip sbx)) w)
                        else place_loop algo nodes sbx res rs (attempt + 1) (List.insert (n_ID (w ! i)) excluded) None tried
                          (at_node i (on_placement (Fail sbx)) w))
                 in (out, (i, Some c) # attempts, w)))"

definition PlaceSandbox :: "algorithm \<Rightarrow> nat list \<Rightarrow> nat option \<Rightarrow> string \<Rightarrow> SandboxResources \<Rightarrow> round list \<Rightarrow> node list \<Rightarrow>
    placement_outcome option \<times> (nat \<times> grpc_code option) list \<times> node list" where
  "PlaceSandbox algo clusterNodes preferredNode sbx res rs w = place_loop algo clusterNodes sbx res rs 0 [] preferredNode None w"

section \<open>Identities and pending entries\<close>

lemma at_node_ids: "(\<And>n. n_ID (f n) = n_ID n) \<Longrightarrow> map n_ID (at_node i f w) = map n_ID w"
  by (auto simp: at_node_def map_update list_update_same_conv)

lemma node_ids [simp]:
  "n_ID (on_placement f n) = n_ID n" "n_ID (setStatus s t n) = n_ID n" "n_ID (markUnhealthyLocal t n) = n_ID n"
  "n_ID (setLabels ls n) = n_ID n" "n_ID (setMachineInfo m n) = n_ID n" "n_ID (UpdateMetrics mt n) = n_ID n"
  "n_ID (OptimisticAdd a res n) = n_ID n" "n_ID (OptimisticRemove a res n) = n_ID n"
  by (simp_all add: on_placement_def setStatus_def markUnhealthyLocal_def setLabels_def setMachineInfo_def UpdateMetrics_def
      OptimisticAdd_def OptimisticRemove_def Let_def)

lemma node_do_ids [simp]: "map n_ID (node_do x w) = map n_ID w"
  by (cases x) (simp_all add: at_node_ids)

lemma node_run_ids [simp]: "map n_ID (node_run xs w) = map n_ID w"
  unfolding node_run_def by (induction xs arbitrary: w) simp_all

text \<open>No node has a pending entry of the sandbox.\<close>

definition not_pending :: "string \<Rightarrow> node \<Rightarrow> bool" where
  "not_pending sbx n \<longleftrightarrow> sbx \<notin> fst ` set (pm_InProgress (n_PlacementMetrics n))"

lemma not_pending_simps [simp]:
  "not_pending sbx (n\<lparr>n_conn := c\<rparr>) = not_pending sbx n" "not_pending sbx (setStatus s t n) = not_pending sbx n"
  "not_pending sbx (markUnhealthyLocal t n) = not_pending sbx n" "not_pending sbx (setLabels ls n) = not_pending sbx n"
  "not_pending sbx (setMachineInfo m n) = not_pending sbx n" "not_pending sbx (UpdateMetrics mt n) = not_pending sbx n"
  "not_pending sbx (OptimisticAdd a res n) = not_pending sbx n" "not_pending sbx (OptimisticRemove a res n) = not_pending sbx n"
  by (simp_all add: not_pending_def setStatus_def markUnhealthyLocal_def setLabels_def setMachineInfo_def UpdateMetrics_def
      OptimisticAdd_def OptimisticRemove_def Let_def)

lemma fst_delete: "fst ` set (AList.delete k al) = fst ` set al - {k}"
  using arg_cong [OF delete_keys [of k al], of set] by simp

lemma in_progress:
  fixes n :: node
  defines "old \<equiv> pm_InProgress (n_PlacementMetrics n)"
  shows "pm_InProgress (n_PlacementMetrics (on_placement (StartPlacing s res) n)) = AList.update s res old"
    and "pm_InProgress (n_PlacementMetrics (on_placement (Success s) n)) = AList.delete s old"
    and "pm_InProgress (n_PlacementMetrics (on_placement (Skip s) n)) = AList.delete s old"
    and "pm_InProgress (n_PlacementMetrics (on_placement (Fail s) n)) = AList.delete s old"
  by (simp_all add: old_def on_placement_def StartPlacing_def Success_def Skip_def Fail_def removeSandbox_def)

lemma not_pending_placement [simp]:
  "not_pending sbx (on_placement (StartPlacing s res) n) \<longleftrightarrow> s \<noteq> sbx \<and> not_pending sbx n"
  "not_pending sbx (on_placement (Success s) n) \<longleftrightarrow> s = sbx \<or> not_pending sbx n"
  "not_pending sbx (on_placement (Skip s) n) \<longleftrightarrow> s = sbx \<or> not_pending sbx n"
  "not_pending sbx (on_placement (Fail s) n) \<longleftrightarrow> s = sbx \<or> not_pending sbx n"
  by (simp_all add: not_pending_def in_progress dom_update fst_delete) blast+

fun starts_other :: "string \<Rightarrow> node_op \<Rightarrow> bool" where
  "starts_other sbx (NStart i s res) = (s \<noteq> sbx)"
| "starts_other sbx _ = True"

definition clear_but :: "string \<Rightarrow> nat option \<Rightarrow> node list \<Rightarrow> bool" where
  "clear_but sbx x w \<longleftrightarrow> (\<forall>i < length w. x \<noteq> Some i \<longrightarrow> not_pending sbx (w ! i))"

lemma clear_at_node: "(\<And>n. not_pending sbx n \<Longrightarrow> not_pending sbx (f n)) \<Longrightarrow> clear_but sbx x w \<Longrightarrow> clear_but sbx x (at_node i f w)"
  by (auto simp: clear_but_def at_node_def nth_list_update)

lemma clear_start: "clear_but sbx None w \<Longrightarrow> clear_but sbx (Some i) (at_node i f w)"
  by (auto simp: clear_but_def at_node_def nth_list_update)

lemma clear_end: "(\<And>n. not_pending sbx (f n)) \<Longrightarrow> clear_but sbx (Some i) w \<Longrightarrow> clear_but sbx None (at_node i f w)"
  by (auto simp: clear_but_def at_node_def nth_list_update)

lemma clear_do: "starts_other sbx x \<Longrightarrow> clear_but sbx y w \<Longrightarrow> clear_but sbx y (node_do x w)"
  by (cases x) (simp_all add: clear_at_node)

lemma clear_run: "list_all (starts_other sbx) xs \<Longrightarrow> clear_but sbx y w \<Longrightarrow> clear_but sbx y (node_run xs w)"
  unfolding node_run_def by (induction xs arbitrary: w) (simp_all add: clear_do)

section \<open>The sample\<close>

lemma sample_loop_spec:
  assumes "mset indices = mset [0..<length items]" "m \<le> length items" "length cands \<le> k"
    and "mset cands = mset (filter ok (map (\<lambda>p. items ! p) (drop m indices)))"
  shows "\<exists>xs. mset (sample_loop rnd ok k items m indices cands) + mset xs = mset (filter ok items) \<and>
    length (sample_loop rnd ok k items m indices cands) \<le> k \<and>
    (length (sample_loop rnd ok k items m indices cands) < k \<longrightarrow> xs = [])"
  using assms
proof (induction m arbitrary: indices cands)
  case 0
  have "mset (filter ok (map (\<lambda>p. items ! p) indices)) = filter_mset ok (image_mset (\<lambda>p. items ! p) (mset indices))"
    by simp
  also have "\<dots> = mset (filter ok (map (\<lambda>p. items ! p) [0..<length items]))" by (simp only: 0 mset_map mset_filter)
  finally show ?case using 0 by (auto simp: map_nth intro!: exI [of _ "[]"])
next
  case (Suc m)
  have len: "length indices = length items" using arg_cong [OF Suc.prems(1), of size] by simp
  show ?case
  proof (cases "length cands < k")
    case False
    have "mset (filter ok (map (\<lambda>p. items ! p) indices)) = filter_mset ok (image_mset (\<lambda>p. items ! p) (mset indices))"
      by simp
    also have "\<dots> = mset (filter ok (map (\<lambda>p. items ! p) [0..<length items]))" by (simp only: Suc.prems(1) mset_map mset_filter)
    finally have "mset (filter ok (map (\<lambda>p. items ! p) (take (Suc m) indices @ drop (Suc m) indices))) = mset (filter ok items)"
      by (simp add: map_nth)
    then show ?thesis using False Suc.prems(3,4)
      by (auto simp: ac_simps simp del: append_take_drop_id mset_filter
          intro!: exI [of _ "filter ok (map (\<lambda>p. items ! p) (take (Suc m) indices))"])
  next
    case True
    let ?j = "rnd (Suc m) mod Suc m"
    let ?ind = "indices[?j := indices ! m, m := indices ! ?j]"
    have j: "?j \<le> m" "m < length indices" using Suc.prems(2) len by (simp_all add: less_Suc_eq_le [symmetric])
    have ms: "mset ?ind = mset [0..<length items]"
      using mset_swap [OF j(2) le_less_trans [OF j]] Suc.prems(1) by (rule trans)
    have drop: "drop m ?ind = indices ! ?j # drop (Suc m) indices"
      using j by (simp add: Cons_nth_drop_Suc [symmetric] nth_list_update)
    show ?thesis using True Suc.prems ms drop Suc.IH [of ?ind "if ok (items ! (indices ! ?j)) then cands @ [items ! (indices ! ?j)] else cands"]
      by (simp add: Let_def)
  qed
qed

lemma sample_spec:
  fixes rnd w nodes config ex b fl ls
  defines "ok \<equiv> \<lambda>i. passes ex b fl ls (w ! i)"
  shows "mset (sample rnd w nodes config ex b fl ls) \<subseteq># mset (filter ok nodes)"
    and "length (sample rnd w nodes config ex b fl ls) = min (nat (bk_K config)) (length (filter ok nodes))"
proof -
  have "mset (sample rnd w nodes config ex b fl ls) \<subseteq># mset (filter ok nodes) \<and>
    length (sample rnd w nodes config ex b fl ls) = min (nat (bk_K config)) (length (filter ok nodes))"
  proof (cases "bk_K config \<le> 0 \<or> length nodes = 0")
    case True
    then show ?thesis by (auto simp: sample_def)
  next
    case False
    let ?s = "sample_loop rnd ok (nat (bk_K config)) nodes (length nodes) [0..<length nodes] []"
    from sample_loop_spec [of "[0..<length nodes]" nodes "length nodes" "[]" "nat (bk_K config)" ok rnd]
    obtain xs where xs: "mset ?s + mset xs = mset (filter ok nodes)" "length ?s \<le> nat (bk_K config)"
      "length ?s < nat (bk_K config) \<longrightarrow> xs = []" by auto
    have "length ?s + length xs = length (filter ok nodes)" using arg_cong [OF xs(1), of size] by (simp only: size_union size_mset)
    moreover have "mset ?s \<subseteq># mset (filter ok nodes)" using xs(1) by (metis mset_subset_eq_add_left)
    ultimately show ?thesis using False xs(2,3) by (cases "xs = []") (auto simp: sample_def ok_def)
  qed
  then show "mset (sample rnd w nodes config ex b fl ls) \<subseteq># mset (filter ok nodes)"
    and "length (sample rnd w nodes config ex b fl ls) = min (nat (bk_K config)) (length (filter ok nodes))" by simp_all
qed

lemma sample_distinct: "distinct nodes \<Longrightarrow> distinct (sample rnd w nodes config ex b fl ls)"
  using sample_spec(1) [of rnd w nodes config ex b fl ls] distinct_filter [of nodes]
  by (metis count_mset_0_iff distinct_count_atmost_1 mset_subset_eq_count le_zero_eq le_Suc_eq One_nat_def)

lemma sample_sub: "i \<in> set (sample rnd w nodes config ex b fl ls) \<Longrightarrow> i \<in> set nodes \<and> passes ex b fl ls (w ! i)"
  using set_mset_mono [OF sample_spec(1) [of rnd w nodes config ex b fl ls]] by auto

definition float_law :: "'f floats \<Rightarrow> bool" where
  "float_law F \<longleftrightarrow> (\<forall>x. \<not> fl_lt F x x) \<and> (\<forall>x y z. fl_lt F x y \<longrightarrow> fl_lt F y z \<longrightarrow> fl_lt F x z)"

lemma best_step_eq: "best_step F score x (b, s) = (if fl_lt F (score x) s then (Some x, score x) else (b, s))"
  by (simp add: best_step_def)

lemma best_member:
  "fold (best_step F score) xs (b0, s0) = (b, s) \<Longrightarrow> b = b0 \<or> b \<in> Some ` set xs"
  by (induction xs arbitrary: b0 s0) (auto simp: best_step_eq split: if_split_asm)

lemma best_chosen: "fst (fold (best_step F score) xs (None, s0)) = Some i \<Longrightarrow> i \<in> set xs"
  using best_member [of F score xs None s0] by (cases "fold (best_step F score) xs (None, s0)") auto

lemma best_spec:
  assumes "float_law F" "fold (best_step F score) xs (None, fl_max F) = (best, bs)"
  shows "(\<forall>i \<in> set xs. \<not> fl_lt F (score i) bs) \<and>
    (case best of None \<Rightarrow> bs = fl_max F | Some i \<Rightarrow> i \<in> set xs \<and> bs = score i \<and> fl_lt F (score i) (fl_max F))"
  using assms(2)
proof (induction xs arbitrary: best bs rule: rev_induct)
  case Nil
  then show ?case by simp
next
  case (snoc x xs)
  obtain b s where bs: "fold (best_step F score) xs (None, fl_max F) = (b, s)" by fastforce
  show ?case
  proof (cases "fl_lt F (score x) s")
    case True
    then have "fl_lt F (score x) (fl_max F)"
      using snoc.IH [OF bs] assms(1) unfolding float_law_def by (auto split: option.splits)
    moreover have "best = Some x" "bs = score x" using snoc.prems bs True by (simp_all add: best_step_eq)
    ultimately show ?thesis using True snoc.IH [OF bs] assms(1) unfolding float_law_def by auto
  next
    case False
    then have "best = b" "bs = s" using snoc.prems bs by (simp_all add: best_step_eq)
    then show ?thesis using snoc.IH [OF bs] False by (auto split: option.splits)
  qed
qed

section \<open>The loop\<close>

text \<open>An attempt that ended with an error other than an exhausted node.\<close>

definition hard :: "nat \<times> grpc_code option \<Rightarrow> bool" where
  "hard x \<longleftrightarrow> snd x \<noteq> None \<and> snd x \<noteq> Some ResourceExhausted"

lemma hard_simps [simp]: "hard (i, None) = False" "hard (i, Some c) \<longleftrightarrow> c \<noteq> ResourceExhausted"
  by (simp_all add: hard_def)

definition no_answer :: "(nat \<times> grpc_code option) list \<Rightarrow> bool" where
  "no_answer xs \<longleftrightarrow> (\<forall>x \<in> set xs. snd x \<noteq> None)"

definition first_tried :: "nat option \<Rightarrow> (nat \<times> grpc_code option) list \<Rightarrow> nat option" where
  "first_tried tried xs = (case tried of Some i \<Rightarrow> Some i | None \<Rightarrow> map_option fst (find hard xs))"

text \<open>The outcome that fits the attempts made.\<close>

definition outcome_fits :: "nat option \<Rightarrow> (nat \<times> grpc_code option) list \<Rightarrow> placement_outcome option \<Rightarrow> bool" where
  "outcome_fits tried xs out =
     (case out of
        None \<Rightarrow> no_answer xs
      | Some (R, None) \<Rightarrow> xs \<noteq> [] \<and> no_answer (butlast xs) \<and> snd (last xs) = None \<and> pr_Node R = Some (fst (last xs)) \<and>
          pr_WarmedNode R = None \<and> \<not> pr_TimedOut R
      | Some (R, Some e) \<Rightarrow> no_answer xs \<and> pr_Node R = None \<and>
          pr_WarmedNode R = (if pr_TimedOut R then first_tried tried xs else None))"

definition attempts_ok :: "(nat \<Rightarrow> string) \<Rightarrow> (nat \<times> grpc_code option) list \<Rightarrow> bool" where
  "attempts_ok ident xs \<longleftrightarrow> sorted_wrt (\<lambda>x y. hard x \<longrightarrow> ident (fst y) \<noteq> ident (fst x)) xs"

lemma outcome_failed: "outcome_fits tried [] (Some (placement_failed b tried e))"
  by (simp add: outcome_fits_def placement_failed_def no_answer_def first_tried_def split: option.splits)

lemma outcome_Cons:
  assumes "outcome_fits (if c \<noteq> ResourceExhausted \<and> tried = None then Some i else tried) xs out"
  shows "outcome_fits tried ((i, Some c) # xs) out"
proof -
  have t: "first_tried (if c \<noteq> ResourceExhausted \<and> tried = None then Some i else tried) xs = first_tried tried ((i, Some c) # xs)"
    by (simp add: first_tried_def hard_def split: option.split)
  have n: "no_answer ((i, Some c) # ys) = no_answer ys" for ys by (simp add: no_answer_def)
  show ?thesis
  proof (cases out)
    case None
    then show ?thesis using assms n by (simp add: outcome_fits_def)
  next
    case (Some o')
    obtain R e where o': "o' = (R, e)" by (cases o')
    show ?thesis
    proof (cases e)
      case None
      then show ?thesis using assms n Some o' by (simp add: outcome_fits_def)
    next
      case (Some e')
      then show ?thesis using assms n t \<open>out = Some o'\<close> o' by (simp add: outcome_fits_def)
    qed
  qed
qed

definition pick_node :: "algorithm \<Rightarrow> nat list \<Rightarrow> (nat \<Rightarrow> nat) \<Rightarrow> node list \<Rightarrow> string list \<Rightarrow> nat option \<Rightarrow> placement_error + nat" where
  "pick_node algo nodes rnd w excluded node =
     (case node of Some i \<Rightarrow> Inr i
      | None \<Rightarrow> if length excluded \<ge> length nodes then Inl NoNodesAvailable else algo rnd w nodes excluded)"

text \<open>The state of the nodes when the answer arrives.\<close>

definition at_answer :: "string \<Rightarrow> SandboxResources \<Rightarrow> round \<Rightarrow> nat \<Rightarrow> node list \<Rightarrow> node list" where
  "at_answer sbx res r i w =
     node_run (rd_during r) (at_node i (on_placement (StartPlacing sbx res)) (node_run (rd_before r) w))"

lemma place_loop_cases:
  assumes "place_loop algo nodes sbx res (r # rs) attempt excluded node tried w = (out, xs, w')"
  obtains (failed) b e where "out = Some (placement_failed b tried e)" "xs = []"
      "w' = w \<or> w' = node_run (rd_before r) w"
  | (success) i where "pick_node algo nodes (rd_random r) (node_run (rd_before r) w) excluded node = Inr i" "rd_answer r = None"
      "out = Some (\<lparr>pr_Node = Some i, pr_WarmedNode = None, pr_TimedOut = False\<rparr>, None)" "xs = [(i, None)]"
      "w' = at_node i (OptimisticAdd (rd_accounting r) res)
        (node_run (rd_after r) (at_node i (on_placement (Success sbx)) (at_answer sbx res r i w)))"
  | (exhausted) i ys where "pick_node algo nodes (rd_random r) (node_run (rd_before r) w) excluded node = Inr i"
      "rd_answer r = Some ResourceExhausted" "xs = (i, Some ResourceExhausted) # ys"
      "place_loop algo nodes sbx res rs attempt excluded None tried
        (at_node i (on_placement (Skip sbx)) (node_run (rd_after r) (at_answer sbx res r i w))) = (out, ys, w')"
  | (hard) i c ys where "pick_node algo nodes (rd_random r) (node_run (rd_before r) w) excluded node = Inr i"
      "rd_answer r = Some c" "c \<noteq> ResourceExhausted" "attempt < maxRetries" "xs = (i, Some c) # ys"
      "place_loop algo nodes sbx res rs (attempt + 1)
        (List.insert (n_ID (node_run (rd_after r) (at_answer sbx res r i w) ! i)) excluded) None
        (if tried = None then Some i else tried)
        (at_node i (on_placement (Fail sbx)) (node_run (rd_after r) (at_answer sbx res r i w))) = (out, ys, w')"
proof (cases "attempt \<ge> maxRetries \<or> rd_done r")
  case True
  then show ?thesis using assms by (auto intro!: failed split: if_split_asm)
next
  case False
  note F = False
  let ?p = "pick_node algo nodes (rd_random r) (node_run (rd_before r) w) excluded node"
  show ?thesis
  proof (cases ?p)
    case (Inl e)
    then show ?thesis using assms False by (intro failed [of "rd_err r" e]) (simp_all add: pick_node_def Let_def)
  next
    case (Inr i)
    show ?thesis
    proof (cases "rd_answer r")
      case None
      then show ?thesis using assms False Inr by (intro success [of i]) (simp_all add: pick_node_def at_answer_def Let_def)
    next
      case (Some c)
      then show ?thesis using assms False Inr
        by (cases "c = ResourceExhausted")
          (auto simp: pick_node_def [symmetric] at_answer_def [symmetric] Let_def split: prod.splits intro: exhausted hard)
    qed
  qed
qed

lemma at_answer_ids [simp]: "map n_ID (at_answer sbx res r i w) = map n_ID w"
  by (simp add: at_answer_def at_node_ids)

lemma clear_answer:
  assumes "list_all (starts_other sbx) (rd_before r @ rd_during r)" "clear_but sbx None w"
  shows "clear_but sbx (Some i) (at_answer sbx res r i w)"
  using assms by (simp add: at_answer_def clear_run clear_start)

text \<open>Nothing is left behind by a turn, however it ends.\<close>

lemma place_loop_clear:
  assumes "place_loop algo nodes sbx res rs attempt excluded node tried w = (out, xs, w')"
    and "\<forall>r \<in> set rs. list_all (starts_other sbx) (rd_before r @ rd_during r @ rd_after r)" "clear_but sbx None w"
  shows "clear_but sbx None w'"
  using assms
proof (induction rs arbitrary: attempt excluded node tried w xs)
  case Nil
  then show ?case by simp
next
  case (Cons r rs)
  have ops: "list_all (starts_other sbx) (rd_before r @ rd_during r)" "list_all (starts_other sbx) (rd_after r)"
    "list_all (starts_other sbx) (rd_before r)" and rest: "\<forall>r \<in> set rs. list_all (starts_other sbx) (rd_before r @ rd_during r @ rd_after r)"
    using Cons.prems(2) by simp_all
  note a = clear_run [OF ops(2) clear_answer [OF ops(1) Cons.prems(3)]]
  from Cons.prems(1) show ?case
  proof (cases rule: place_loop_cases)
    case (failed b e)
    then show ?thesis using Cons.prems(3) ops by (auto intro: clear_run)
  next
    case (success i)
    have "clear_but sbx None (node_run (rd_after r) (at_node i (on_placement (Success sbx)) (at_answer sbx res r i w)))"
      by (intro clear_run [OF ops(2)] clear_end [where i = i] clear_answer [OF ops(1) Cons.prems(3)]) simp
    then show ?thesis using success by (simp add: clear_at_node)
  next
    case (exhausted i ys)
    show ?thesis by (rule Cons.IH [OF exhausted(4) rest], rule clear_end [where i = i]) (simp_all add: a)
  next
    case (hard i c ys)
    show ?thesis by (rule Cons.IH [OF hard(6) rest], rule clear_end [where i = i]) (simp_all add: a)
  qed
qed

text \<open>The interface of a placement algorithm: it chooses among the given nodes, and not an excluded one.\<close>

locale placement_algorithm =
  fixes algo :: algorithm
  assumes chosen: "algo rnd w nodes excluded = Inr i \<Longrightarrow> i \<in> set nodes \<and> n_ID (w ! i) \<notin> set excluded"
begin

lemma pick_node_ok:
  assumes "pick_node algo nodes rnd w excluded node = Inr i" "\<forall>j. node = Some j \<longrightarrow> n_ID (w ! j) \<notin> set excluded"
  shows "n_ID (w ! i) \<notin> set excluded \<and> (i \<in> set nodes \<or> node = Some i)"
  using assms chosen by (auto simp: pick_node_def split: option.splits if_split_asm)

lemma place_loop_attempts:
  assumes "place_loop algo nodes sbx res rs attempt excluded node tried w = (out, xs, w')"
    and "\<forall>i \<in> set nodes \<union> set_option node. i < length w" "\<forall>j. node = Some j \<longrightarrow> n_ID (w ! j) \<notin> set excluded"
    and "attempt \<le> maxRetries"
  shows "map n_ID w' = map n_ID w \<and> attempt + length (filter hard xs) \<le> maxRetries \<and>
    (\<forall>x \<in> set xs. (fst x \<in> set nodes \<or> node = Some (fst x)) \<and> n_ID (w ! fst x) \<notin> set excluded) \<and>
    attempts_ok (\<lambda>i. n_ID (w ! i)) xs \<and> outcome_fits tried xs out"
  using assms
proof (induction rs arbitrary: attempt excluded node tried w xs)
  case Nil
  then show ?case by (simp add: attempts_ok_def outcome_fits_def no_answer_def)
next
  case (Cons r rs)
  have same: "n_ID (v ! i) = n_ID (w ! i)" if "map n_ID v = map n_ID w" "i < length w" for v i
    using that by (metis length_map nth_map)
  have ids: "map n_ID (node_run (rd_before r) w) = map n_ID w" by simp
  have pick: "n_ID (w ! i) \<notin> set excluded \<and> (i \<in> set nodes \<or> node = Some i) \<and> i < length w"
    if "pick_node algo nodes (rd_random r) (node_run (rd_before r) w) excluded node = Inr i" for i
  proof -
    have p: "\<forall>j. node = Some j \<longrightarrow> n_ID (node_run (rd_before r) w ! j) \<notin> set excluded"
      using Cons.prems(2,3) same [OF ids] by simp
    then show ?thesis using pick_node_ok [OF that p] Cons.prems(2) same [OF ids] by auto
  qed
  from Cons.prems(1) show ?case
  proof (cases rule: place_loop_cases)
    case (failed b e)
    then show ?thesis using Cons.prems(4) outcome_failed by (auto simp: attempts_ok_def)
  next
    case (success i)
    then show ?thesis using pick [OF success(1)] Cons.prems(4)
      by (simp add: attempts_ok_def outcome_fits_def no_answer_def at_node_ids)
  next
    case (exhausted i ys)
    let ?v = "at_node i (on_placement (Skip sbx)) (node_run (rd_after r) (at_answer sbx res r i w))"
    have v: "map n_ID ?v = map n_ID w" by (simp add: at_node_ids)
    have len: "length ?v = length w" using arg_cong [OF v, of length] by simp
    from Cons.IH [OF exhausted(4)] Cons.prems(2,4) len
    have IH: "map n_ID w' = map n_ID ?v" "attempt + length (filter hard ys) \<le> maxRetries"
      "\<forall>x \<in> set ys. fst x \<in> set nodes \<and> n_ID (?v ! fst x) \<notin> set excluded" "attempts_ok (\<lambda>i. n_ID (?v ! i)) ys"
      "outcome_fits tried ys out" by simp_all
    have eq: "n_ID (?v ! fst x) = n_ID (w ! fst x)" if "x \<in> set ys" for x
      using that IH(3) Cons.prems(2) by (intro same [OF v]) auto
    have at: "attempts_ok (\<lambda>i. n_ID (w ! i)) ys"
      using IH(4) eq unfolding attempts_ok_def by (auto intro: sorted_wrt_mono_rel [rotated])
    show ?thesis using IH(1,2,3) v eq at pick [OF exhausted(1)] exhausted(3) outcome_Cons [of ResourceExhausted tried i ys out] IH(5)
      by (auto simp: attempts_ok_def)
  next
    case (hard i c ys)
    let ?u = "node_run (rd_after r) (at_answer sbx res r i w)"
    let ?v = "at_node i (on_placement (Fail sbx)) ?u"
    let ?ex = "List.insert (n_ID (?u ! i)) excluded"
    have v: "map n_ID ?v = map n_ID w" and u: "map n_ID ?u = map n_ID w" by (simp_all add: at_node_ids)
    have len: "length ?v = length w" using arg_cong [OF v, of length] by simp
    from Cons.IH [OF hard(6)] Cons.prems(2) hard(4) len
    have IH: "map n_ID w' = map n_ID ?v" "Suc attempt + length (filter hard ys) \<le> maxRetries"
      "\<forall>x \<in> set ys. fst x \<in> set nodes \<and> n_ID (?v ! fst x) \<notin> set ?ex" "attempts_ok (\<lambda>i. n_ID (?v ! i)) ys"
      "outcome_fits (if tried = None then Some i else tried) ys out" by simp_all
    have eq: "n_ID (?v ! fst x) = n_ID (w ! fst x)" if "x \<in> set ys" for x
      using that IH(3) Cons.prems(2) by (intro same [OF v]) auto
    have ex: "set ?ex = insert (n_ID (w ! i)) (set excluded)" using pick [OF hard(1)] same [OF u] by simp
    have at: "attempts_ok (\<lambda>i. n_ID (w ! i)) ys"
      using IH(4) eq unfolding attempts_ok_def by (auto intro: sorted_wrt_mono_rel [rotated])
    show ?thesis using IH(1,2,3) v eq ex at pick [OF hard(1)] hard(3,5) outcome_Cons [of c tried i ys out] IH(5)
      by (auto simp: attempts_ok_def)
  qed
qed

end

interpretation best_of_k: placement_algorithm "chooseNode F config q" for F config q
proof
  fix rnd w nodes excluded i
  assume "chooseNode F config q rnd w nodes excluded = Inr i"
  then have "i \<in> set (sample rnd w nodes config excluded (rq_MachineInfo q) (rq_filterByLabels q) (rq_requiredLabels q))"
    using best_chosen by (fastforce simp: chooseNode_def Let_def split: option.splits)
  from sample_sub [OF this] show "i \<in> set nodes \<and> n_ID (w ! i) \<notin> set excluded" by (simp add: passes_def split: if_split_asm)
qed


lemma place_loop_returns:
  assumes "attempt + length (filter (\<lambda>r. rd_answer r \<noteq> Some ResourceExhausted) rs) > maxRetries \<or> (\<exists>r \<in> set rs. rd_done r)"
    and "attempt \<le> maxRetries"
  shows "fst (place_loop algo nodes sbx res rs attempt excluded node tried w) \<noteq> None"
  using assms
proof (induction rs arbitrary: attempt excluded node tried w)
  case Nil
  then show ?case by simp
next
  case (Cons r rs)
  obtain out xs w' where out: "place_loop algo nodes sbx res (r # rs) attempt excluded node tried w = (out, xs, w')"
    by (metis prod_cases3)
  show ?case
  proof (cases "rd_done r \<or> attempt \<ge> maxRetries")
    case True
    then show ?thesis by auto
  next
    case False
    from out have "out \<noteq> None"
    proof (cases rule: place_loop_cases)
      case (exhausted i ys)
      have "attempt + length (filter (\<lambda>r. rd_answer r \<noteq> Some ResourceExhausted) rs) > maxRetries \<or> (\<exists>r \<in> set rs. rd_done r)"
        using Cons.prems(1) exhausted(2) False by auto
      from Cons.IH [OF this Cons.prems(2)] show ?thesis by (metis exhausted(4) fst_conv)
    next
      case (hard i c ys)
      have "attempt + 1 + length (filter (\<lambda>r. rd_answer r \<noteq> Some ResourceExhausted) rs) > maxRetries \<or> (\<exists>r \<in> set rs. rd_done r)"
        using Cons.prems(1) hard(2,3) False by auto
      from Cons.IH [OF this] hard(4) show ?thesis by (metis hard(6) fst_conv Suc_eq_plus1 Suc_leI)
    qed simp_all
    then show ?thesis using out by simp
  qed
qed

lemma place_loop_goes_on:
  assumes "list_all (\<lambda>r. rd_answer r = Some ResourceExhausted \<and> \<not> rd_done r) rs" "nodes \<noteq> []"
    and "\<And>rnd v. \<exists>i. algo rnd v nodes [] = Inr i" "attempt < maxRetries"
  shows "fst (place_loop algo nodes sbx res rs attempt [] node tried w) = None \<and>
    length (fst (snd (place_loop algo nodes sbx res rs attempt [] node tried w))) = length rs"
  using assms(1)
proof (induction rs arbitrary: node tried w)
  case Nil
  then show ?case by simp
next
  case (Cons r rs)
  obtain i where i: "(case node of Some i \<Rightarrow> Inr i
      | None \<Rightarrow> if length ([] :: string list) \<ge> length nodes then Inl NoNodesAvailable else algo (rd_random r) (node_run (rd_before r) w) nodes []) = Inr i"
    using assms(2) assms(3) [of "rd_random r" "node_run (rd_before r) w"] by (cases node) auto
  show ?case using i Cons assms(4) by (simp add: Let_def split: prod.split) (metis fst_conv snd_conv)
qed

section \<open>Properties\<close>

text \<open>(C20) The choice of a node: of the nodes that pass the filters, \<open>K\<close> different ones are sampled (all, if there are fewer),
  whatever the random numbers; the node chosen is one of the sample with no better score in it,
  and there is none only if no score in the sample is below the largest number.\<close>

theorem chooseNode_best:
  fixes F :: "'f floats" and w q excluded config rnd nodes
  assumes "float_law F" "distinct nodes"
  defines "ok \<equiv> \<lambda>i. passes excluded (rq_MachineInfo q) (rq_filterByLabels q) (rq_requiredLabels q) (w ! i)"
    and "score \<equiv> \<lambda>i. Score F (w ! i) (rq_Resources q) config"
    and "cs \<equiv> sample rnd w nodes config excluded (rq_MachineInfo q) (rq_filterByLabels q) (rq_requiredLabels q)"
  shows "distinct cs \<and> set cs \<subseteq> {i \<in> set nodes. ok i} \<and> length cs = min (nat (bk_K config)) (length (filter ok nodes)) \<and>
    (case chooseNode F config q rnd w nodes excluded of
       Inr i \<Rightarrow> i \<in> set cs \<and> (\<forall>j \<in> set cs. \<not> fl_lt F (score j) (score i))
     | Inl e \<Rightarrow> e = FailedToPlaceSandbox \<and> (\<forall>j \<in> set cs. \<not> fl_lt F (score j) (fl_max F)))"
proof -
  obtain best bs where b: "fold (best_step F score) cs (None, fl_max F) = (best, bs)" by fastforce
  have "case chooseNode F config q rnd w nodes excluded of
       Inr i \<Rightarrow> i \<in> set cs \<and> (\<forall>j \<in> set cs. \<not> fl_lt F (score j) (score i))
     | Inl e \<Rightarrow> e = FailedToPlaceSandbox \<and> (\<forall>j \<in> set cs. \<not> fl_lt F (score j) (fl_max F))"
    using best_spec [OF assms(1) b] b by (cases best) (auto simp: chooseNode_def cs_def score_def Let_def)
  moreover have "set cs \<subseteq> {i \<in> set nodes. ok i}" unfolding cs_def ok_def by (auto dest: sample_sub)
  ultimately show ?thesis
    using sample_distinct [OF assms(2)] sample_spec(2) unfolding cs_def ok_def by blast
qed

text \<open>(C19) Attempts of a placement with the best-of-K choice, while anything happens to the nodes: a sandbox is refused for good
  at most three times, a node that did is not asked again, only the preferred node and nodes of the cluster are asked, and
  the outcome tells what happened: a node is returned exactly if the last attempt succeeded there, and after
  a timeout the first node that did more than decline is reported as warm.\<close>

theorem placement_attempts:
  assumes "PlaceSandbox (chooseNode F config q) nodes preferred sbx (rq_Resources q) rs w = (out, xs, w')"
    and "\<forall>i \<in> set nodes \<union> set_option preferred. i < length w"
  shows "length (filter hard xs) \<le> maxRetries \<and> attempts_ok (\<lambda>i. n_ID (w ! i)) xs \<and>
    (\<forall>x \<in> set xs. fst x \<in> set nodes \<or> preferred = Some (fst x)) \<and> outcome_fits None xs out"
  using best_of_k.place_loop_attempts [OF assms(1) [unfolded PlaceSandbox_def] assms(2)] by simp

text \<open>A placement cleans up: if no other placement uses the name of the sandbox, then, when a placement ends or begins another
  attempt, no node counts the sandbox as being started.\<close>

theorem placement_cleans_up:
  assumes "PlaceSandbox algo nodes preferred sbx res rs w = (out, xs, w')"
    and "\<forall>r \<in> set rs. list_all (starts_other sbx) (rd_before r @ rd_during r @ rd_after r)" "\<forall>n \<in> set w. not_pending sbx n"
  shows "\<forall>n \<in> set w'. not_pending sbx n"
proof -
  have "clear_but sbx None w" using assms(3) by (simp add: clear_but_def)
  from place_loop_clear [OF assms(1) [unfolded PlaceSandbox_def] assms(2) this]
  show ?thesis by (auto simp: clear_but_def in_set_conv_nth)
qed

text \<open>A placement returns: whatever the algorithm does, four turns in which the node does not decline for lack of resources, or
  one in which the context is done, end the loop.\<close>

theorem placement_returns:
  assumes "length (filter (\<lambda>r. rd_answer r \<noteq> Some ResourceExhausted) rs) > maxRetries \<or> (\<exists>r \<in> set rs. rd_done r)"
  shows "fst (PlaceSandbox algo nodes preferred sbx res rs w) \<noteq> None"
  unfolding PlaceSandbox_def by (rule place_loop_returns) (use assms in simp_all)

text \<open>Without such turns it does not: as long as every node that is asked declines for lack of resources and the context
  lives, the loop goes on at once with the next attempt, without a limit.\<close>

theorem exhausted_placement_goes_on:
  assumes "list_all (\<lambda>r. rd_answer r = Some ResourceExhausted \<and> \<not> rd_done r) rs" "nodes \<noteq> []"
    and "\<And>rnd v. \<exists>i. algo rnd v nodes [] = Inr i"
  shows "fst (PlaceSandbox algo nodes preferred sbx res rs w) = None \<and>
    length (fst (snd (PlaceSandbox algo nodes preferred sbx res rs w))) = length rs"
  unfolding PlaceSandbox_def using assms by (intro place_loop_goes_on) (simp_all add: maxRetries_def)

text \<open>The loop counts excluded names against the number of cluster nodes. A preferred node that has left the list in the
  meantime and fails uses up one: a cluster with a single node is never asked.\<close>

theorem departed_node_counts:
  assumes "i \<notin> set nodes" "length nodes = 1" "rd_answer r = Some OtherCode" "\<not> rd_done r" "\<not> rd_done r'"
  shows "fst (PlaceSandbox algo nodes (Some i) sbx res (r # r' # rs) w) = Some (placement_failed (rd_err r') (Some i) NoNodesAvailable) \<and>
    fst (snd (PlaceSandbox algo nodes (Some i) sbx res (r # r' # rs) w)) = [(i, Some OtherCode)]"
  using assms(2-) by (simp add: PlaceSandbox_def maxRetries_def Let_def List.insert_def)

section \<open>Witnesses\<close>

definition demo_floats :: "int floats" where
  "demo_floats = \<lparr>fl_of = (\<lambda>x. x), fl_add = (+), fl_mul = (*), fl_div = (div), fl_lt = (<), fl_max = 1000000\<rparr>"

lemma demo_float_law: "float_law demo_floats"
  by (simp add: float_law_def demo_floats_def)

definition demo_config :: "int BestOfKConfig" where
  "demo_config = \<lparr>bk_R = 4, bk_Alpha = 1, bk_K = 2\<rparr>"

definition demo_cpu :: "string \<Rightarrow> MachineInfo" where
  "demo_cpu model = \<lparr>mi_CPUArchitecture = ''x86_64'', mi_CPUFamily = ''6'', mi_CPUModel = model, mi_CPUModelName = [], mi_CPUFlags = []\<rparr>"

definition demo_metrics :: "int \<Rightarrow> Metrics" where
  "demo_metrics allocated = \<lparr>mt_CpuAllocated = allocated, mt_CpuPercent = 0, mt_CpuCount = 2, mt_MemoryAllocatedBytes = 0,
     mt_MemoryUsedBytes = 0, mt_MemoryTotalBytes = 0, mt_SandboxCount = 0, mt_HugePagesTotal = 0, mt_HugePagesUsed = 0,
     mt_HugePagesReserved = 0, mt_HugePageSizeBytes = 0, mt_HostDisks = []\<rparr>"

definition demo_node :: "string \<Rightarrow> string \<Rightarrow> int \<Rightarrow> node" where
  "demo_node name model allocated = \<lparr>n_ID = name, n_conn = ConnReady, n_status = \<lparr>si_Status = NodeReady, si_ChangedAt = 0\<rparr>,
     n_metrics = demo_metrics allocated,
     n_machineInfo = demo_cpu model, n_labels = [''default''],
     n_PlacementMetrics = \<lparr>pm_InProgress = [], pm_Success = 0, pm_Fails = 0\<rparr>\<rparr>"

definition demo_nodes :: "node list" where
  "demo_nodes = [demo_node ''a'' ''106'' 60, demo_node ''b'' ''207'' 20, demo_node ''c'' ''85'' 0]"

definition demo_request :: placement_request where
  "demo_request = \<lparr>rq_Resources = \<lparr>sr_CPUs = 2, sr_MiBMemory = 512\<rparr>, rq_MachineInfo = demo_cpu ''106'', rq_filterByLabels = True,
     rq_requiredLabels = [''default'']\<rparr>"

definition demo_round :: "grpc_code option \<Rightarrow> round" where
  "demo_round answer = \<lparr>rd_done = False, rd_err = False, rd_before = [], rd_random = (\<lambda>m. 0), rd_during = [NMetrics 1 (demo_metrics 1)], rd_answer = answer, rd_after = [],
     rd_accounting = True\<rparr>"

theorem chooseNode_best_witness:
  "set (sample (\<lambda>m. 0) demo_nodes [0, 1, 2] demo_config [] (demo_cpu ''106'') True [''default'']) \<subseteq> {0, 1, 2} \<and>
   chooseNode demo_floats demo_config demo_request (\<lambda>m. 0) demo_nodes [0, 1, 2] [] = Inr 1"
proof -
  have "chooseNode demo_floats demo_config demo_request (\<lambda>m. 0) demo_nodes [0, 1, 2] [] = Inr 1" by code_simp
  then show ?thesis
    using chooseNode_best [OF demo_float_law, of "[0, 1, 2]" "\<lambda>m. 0" demo_nodes demo_config "[]" demo_request]
    by (auto simp: demo_request_def)
qed

theorem placement_attempts_witness:
  "fst (snd (PlaceSandbox (chooseNode demo_floats demo_config demo_request) [0, 1, 2] (Some 0) ''s'' (rq_Resources demo_request)
     [demo_round (Some OtherCode), demo_round (Some ResourceExhausted), demo_round None] demo_nodes)) =
     [(0, Some OtherCode), (1, Some ResourceExhausted), (1, None)] \<and>
   attempts_ok (\<lambda>i. n_ID (demo_nodes ! i)) [(0, Some OtherCode), (1, Some ResourceExhausted), (1, None)]"
proof -
  let ?p = "PlaceSandbox (chooseNode demo_floats demo_config demo_request) [0, 1, 2] (Some 0) ''s'' (rq_Resources demo_request)
     [demo_round (Some OtherCode), demo_round (Some ResourceExhausted), demo_round None] demo_nodes"
  have p: "fst (snd ?p) = [(0, Some OtherCode), (1, Some ResourceExhausted), (1, None)]" by code_simp
  have n: "\<forall>i \<in> set [0, 1, 2] \<union> set_option (Some 0). i < length demo_nodes" by (simp add: demo_nodes_def)
  obtain out xs w' where P: "?p = (out, xs, w')" by (metis prod_cases3)
  show ?thesis using placement_attempts [OF P n] p P by simp
qed

theorem placement_returns_witness:
  "fst (PlaceSandbox (chooseNode demo_floats demo_config demo_request) [0, 1, 2] None ''s'' (rq_Resources demo_request)
     (replicate 4 (demo_round (Some OtherCode))) demo_nodes) \<noteq> None"
  by (rule placement_returns) (simp add: demo_round_def maxRetries_def)

end
