(* ===== verification/Upload.thy ===== *)
theory Upload
  imports FrameTable "HOL-Library.AList" "HOL-Library.Multiset"
begin

text \<open>
  Compressed uploads (\<open>shared/pkg/storage/compress_upload.go\<close>, \<open>compress_config.go\<close>): a read loop cuts the input into
  frames, goroutines compress them, parts of frames go through a queue to the upload loop, and goroutines
  upload the parts. Every interleaving of these is a run of \<open>stream_step\<close>; an action names the
  goroutine that moves and what the outside answers (rejected codec options, a read error, a failed codec
  or upload, a cancelled context).

  Parameters: the codec (an encoder may compress the same bytes in several ways, the state of the encoder is a number),
  SHA-256, and the uploader of the storage provider, whose contract is the locale \<open>part_uploader\<close>.
  Pooled buffers are values here: a buffer is freed once, by the only goroutine that reads it.
\<close>

section \<open>Configuration (compress_config.go, units)\<close>

definition gcpMultipartUploadChunkSize :: int where "gcpMultipartUploadChunkSize = 50 * 1024 * 1024"
definition cloudMinPartSizeMB :: int where "cloudMinPartSizeMB = 5"
definition cloudMaxParts :: int where "cloudMaxParts = 9000"

definition BytesToMB :: "int \<Rightarrow> int" where "BytesToMB b = b div 2 ^ 20"

record CompressConfig =
  cf_Enabled :: bool
  cf_Type :: string
  cf_Level :: int
  cf_FrameSizeKB :: int
  cf_MinPartSizeMB :: int
  cf_FrameEncodeWorkers :: int
  cf_EncoderConcurrency :: int

definition cfg_CompressionType :: "CompressConfig \<Rightarrow> CompressionType" where
  "cfg_CompressionType c = parseCompressionType (cf_Type c)"

definition cfg_FrameSize :: "CompressConfig \<Rightarrow> int" where
  "cfg_FrameSize c = (if cf_FrameSizeKB c \<le> 0 then DefaultCompressFrameSize else i64 (cf_FrameSizeKB c * 1024))"

definition cfg_MinPartSize :: "CompressConfig \<Rightarrow> int" where
  "cfg_MinPartSize c = (if cf_MinPartSizeMB c \<le> 0 then gcpMultipartUploadChunkSize else i64 (cf_MinPartSizeMB c * 2 ^ 20))"

definition IsCompressionEnabled :: "CompressConfig \<Rightarrow> bool" where
  "IsCompressionEnabled c \<longleftrightarrow> cf_Enabled c \<and> cfg_CompressionType c \<noteq> CompressionNone"

definition clampCloudMinPartSize :: "CompressConfig \<Rightarrow> int \<Rightarrow> CompressConfig" where
  "clampCloudMinPartSize cfg fileSize =
     (let minMB = BytesToMB (cfg_MinPartSize cfg)
      in cfg\<lparr>cf_MinPartSizeMB := max (max minMB cloudMinPartSizeMB) (BytesToMB fileSize div cloudMaxParts + 1)\<rparr>)"

section \<open>State\<close>

text \<open>A frame: the bytes read, whether its goroutine has ended, and the compressed bytes.\<close>

record cframe =
  fr_data :: bytes
  fr_done :: bool
  fr_out :: "bytes option"

record cpart =
  pt_frames :: "cframe list"
  pt_size :: int
  pt_err :: bool

datatype reader_pc = RStart | RRead | RAdd bytes bool | RTest bool | RSend bool | RDone bool

datatype main_pc = MReceive | MPart nat | MDrain | MWork bool | MReturned "(FrameTable \<times> bytes) option"

text \<open>The part at position \<open>i\<close> of \<open>sr_parts\<close> has the index \<open>i + 1\<close>; the last one is the read loop's, until it is sent.
  History variables: the number of parts sent, the number of parts handled by the upload loop,
  and the uploads that have succeeded, in their order.\<close>

record 'u stream =
  sr_in :: bytes
  sr_hash :: bytes
  sr_reader :: reader_pc
  sr_parts :: "cpart list"
  sr_queue :: "nat list"
  sr_main :: main_pc
  sr_sizes :: "FrameSize list"
  sr_cOffset :: int
  sr_sunk :: "(int \<times> bytes) list"
  sr_uploads :: "(nat \<times> bytes) list"
  sr_up :: 'u
  sr_cancelled :: bool
  sr_workErr :: bool
  sr_sent :: nat
  sr_handled :: nat
  sr_uploaded :: "(nat \<times> bytes) list"

record 'u stream_env =
  se_cfg :: CompressConfig
  se_max :: int
  se_compress :: "nat \<Rightarrow> bytes \<Rightarrow> bytes option"
  se_sha :: "bytes \<Rightarrow> bytes"
  se_put :: "nat \<Rightarrow> bytes \<Rightarrow> 'u \<Rightarrow> 'u"

definition new_part :: cpart where
  "new_part = \<lparr>pt_frames = [], pt_size = 0, pt_err = False\<rparr>"

definition new_stream :: "bytes \<Rightarrow> 'u \<Rightarrow> 'u stream" where
  "new_stream input up = \<lparr>sr_in = input, sr_hash = [], sr_reader = RStart, sr_parts = [new_part], sr_queue = [], sr_main = MReceive,
     sr_sizes = [], sr_cOffset = 0, sr_sunk = [], sr_uploads = [], sr_up = up, sr_cancelled = False, sr_workErr = False,
     sr_sent = 0, sr_handled = 0, sr_uploaded = []\<rparr>"

section \<open>Steps (compress_upload.go)\<close>

text \<open>\<open>ACancel\<close> is the caller's context. \<open>AFrame i j k\<close> ends the goroutine of a frame: with an encoder in state \<open>k\<close>, or, without
  one, because its context is cancelled. \<open>AUpload k ok\<close> ends the \<open>k\<close>-th running upload.\<close>

datatype stream_act =
    ACancel
  | AStart bool
  | ARead bool
  | AAdd
  | ATest
  | ASend bool
  | AFrame nat nat "nat option"
  | AReceive
  | APart
  | AUpload nat bool
  | AWork bool bool

text \<open>The work context is cancelled by the caller, by the upload loop, or by the first error of the work group.\<close>

definition stopped :: "'u stream \<Rightarrow> bool" where
  "stopped s \<longleftrightarrow> sr_cancelled s \<or> sr_workErr s"

definition reader_fails :: "'u stream \<Rightarrow> 'u stream" where
  "reader_fails s = s\<lparr>sr_reader := RDone False, sr_workErr := True\<rparr>"

fun is_done :: "reader_pc \<Rightarrow> bool" where
  "is_done (RDone ok) = True"
| "is_done _ = False"

definition reader_done :: "'u stream \<Rightarrow> bool" where
  "reader_done s \<longleftrightarrow> is_done (sr_reader s)"

definition stream_workers :: "'u stream_env \<Rightarrow> int" where
  "stream_workers E = max (cf_FrameEncodeWorkers (se_cfg E)) 1"

definition running_frames :: "cpart \<Rightarrow> nat" where
  "running_frames p = length (filter (\<lambda>f. \<not> fr_done f) (pt_frames p))"

definition newCompressorPool_ok :: "CompressConfig \<Rightarrow> bool" where
  "newCompressorPool_ok cfg \<longleftrightarrow> cfg_CompressionType cfg \<in> {CompressionZstd, CompressionLZ4}"

definition read_frame :: "'u stream_env \<Rightarrow> bool \<Rightarrow> 'u stream \<Rightarrow> 'u stream" where
  "read_frame E readErr s =
     (if stopped s then reader_fails s
      else if readErr then reader_fails s
      else let n = nat (cfg_FrameSize (se_cfg E)); data = take n (sr_in s)
           in s\<lparr>sr_in := drop n (sr_in s), sr_hash := sr_hash s @ data, sr_reader := RAdd data (length data < n)\<rparr>)"

definition addFrame :: "bytes \<Rightarrow> cpart \<Rightarrow> cpart" where
  "addFrame data p = p\<lparr>pt_frames := pt_frames p @ [\<lparr>fr_data = data, fr_done = False, fr_out = None\<rparr>]\<rparr>"

definition test_part :: "'u stream_env \<Rightarrow> bool \<Rightarrow> 'u stream \<Rightarrow> 'u stream" where
  "test_part E eof s =
     (if eof then s\<lparr>sr_reader := (if length (pt_frames (last (sr_parts s))) > 0 then RSend True else RDone True)\<rparr>
      else if pt_size (last (sr_parts s)) \<ge> cfg_MinPartSize (se_cfg E) then s\<lparr>sr_reader := RSend False\<rparr>
      else s\<lparr>sr_reader := RRead\<rparr>)"

definition send_part :: "bool \<Rightarrow> 'u stream \<Rightarrow> 'u stream" where
  "send_part eof s =
     (let s = s\<lparr>sr_queue := sr_queue s @ [length (sr_parts s) - 1], sr_sent := sr_sent s + 1\<rparr>
      in if eof then s\<lparr>sr_reader := RDone True\<rparr> else s\<lparr>sr_parts := sr_parts s @ [new_part], sr_reader := RRead\<rparr>)"

definition frame_ends :: "(nat \<Rightarrow> bytes \<Rightarrow> bytes option) \<Rightarrow> nat \<Rightarrow> nat option \<Rightarrow> cpart \<Rightarrow> cpart" where
  "frame_ends compress j k p =
     (let f = pt_frames p ! j in
      case (case k of None \<Rightarrow> None | Some e \<Rightarrow> compress e (fr_data f)) of
        None \<Rightarrow> p\<lparr>pt_frames := (pt_frames p)[j := f\<lparr>fr_done := True\<rparr>], pt_err := True\<rparr>
      | Some out \<Rightarrow> p\<lparr>pt_frames := (pt_frames p)[j := f\<lparr>fr_done := True, fr_out := Some out\<rparr>],
                     pt_size := i64 (pt_size p + int (length out))\<rparr>)"

definition compressed :: "cframe \<Rightarrow> bytes" where
  "compressed f = (case fr_out f of None \<Rightarrow> [] | Some out \<Rightarrow> out)"

definition frame_size :: "cframe \<Rightarrow> FrameSize" where
  "frame_size f = \<lparr>fsU = i32 (int (length (fr_data f))), fsC = i32 (int (length (compressed f)))\<rparr>"

text \<open>The frames of a part go to the sink one after the other.\<close>

fun sink_frames :: "int \<Rightarrow> cframe list \<Rightarrow> (int \<times> bytes) list \<times> int" where
  "sink_frames c [] = ([], c)"
| "sink_frames c (f # fs) =
     (let (xs, c') = sink_frames (i64 (c + int (length (compressed f)))) fs in ((c, compressed f) # xs, c'))"

definition upload_part :: "nat \<Rightarrow> cpart \<Rightarrow> nat \<times> bytes" where
  "upload_part i p = (i + 1, concat (map compressed (pt_frames p)))"

definition handle_part :: "nat \<Rightarrow> 'u stream \<Rightarrow> 'u stream" where
  "handle_part i s =
     (let p = sr_parts s ! i; (xs, c) = sink_frames (sr_cOffset s) (pt_frames p)
      in s\<lparr>sr_sizes := sr_sizes s @ map frame_size (pt_frames p), sr_sunk := sr_sunk s @ xs, sr_cOffset := c,
           sr_uploads := sr_uploads s @ [upload_part i p], sr_handled := sr_handled s + 1, sr_main := MReceive\<rparr>)"

text \<open>After the work group has ended: an error, or an empty part for an empty input, and the end of the upload.\<close>

definition finish_stream :: "'u stream_env \<Rightarrow> bool \<Rightarrow> bool \<Rightarrow> bool \<Rightarrow> 'u stream \<Rightarrow> 'u stream" where
  "finish_stream E loopErr emptyOk completeOk s =
     (if loopErr \<or> sr_workErr s then s\<lparr>sr_main := MReturned None\<rparr>
      else if length (sr_sizes s) = 0 \<and> \<not> emptyOk then s\<lparr>sr_main := MReturned None\<rparr>
      else let s = (if length (sr_sizes s) = 0 then s\<lparr>sr_up := se_put E 1 [] (sr_up s), sr_uploaded := sr_uploaded s @ [(1, [])]\<rparr> else s)
           in if \<not> completeOk then s\<lparr>sr_main := MReturned None\<rparr>
              else s\<lparr>sr_main := MReturned (Some (NewFullFrameTable (cfg_CompressionType (se_cfg E)) (sr_sizes s), se_sha E (sr_hash s)))\<rparr>)"

definition max_uploads :: "'u stream_env \<Rightarrow> int" where
  "max_uploads E = (if se_max E < 1 then 1 else se_max E)"

definition remove_nth :: "nat \<Rightarrow> 'a list \<Rightarrow> 'a list" where
  "remove_nth k xs = take k xs @ drop (Suc k) xs"

text \<open>A step, or \<open>None\<close> where the action is not possible.\<close>

fun stream_step :: "'u stream_env \<Rightarrow> stream_act \<Rightarrow> 'u stream \<Rightarrow> 'u stream option" where
  "stream_step E ACancel s = (if sr_cancelled s then None else Some (s\<lparr>sr_cancelled := True\<rparr>))"
| "stream_step E (AStart optionsOk) s =
     (if sr_reader s = RStart
      then Some (if optionsOk \<and> newCompressorPool_ok (se_cfg E) then s\<lparr>sr_reader := RRead\<rparr> else reader_fails s) else None)"
| "stream_step E (ARead err) s = (if sr_reader s = RRead then Some (read_frame E err s) else None)"
| "stream_step E AAdd s =
     (case sr_reader s of
        RAdd data eof \<Rightarrow>
          if length data = 0 then Some (s\<lparr>sr_reader := RTest eof\<rparr>)
          else if int (running_frames (last (sr_parts s))) < stream_workers E
          then Some (s\<lparr>sr_parts := butlast (sr_parts s) @ [addFrame data (last (sr_parts s))], sr_reader := RTest eof\<rparr>)
          else None
      | _ \<Rightarrow> None)"
| "stream_step E ATest s = (case sr_reader s of RTest eof \<Rightarrow> Some (test_part E eof s) | _ \<Rightarrow> None)"
| "stream_step E (ASend sent) s =
     (case sr_reader s of
        RSend eof \<Rightarrow>
          if sent then (if length (sr_queue s) < 2 then Some (send_part eof s) else None)
          else (if stopped s then Some (reader_fails s) else None)
      | _ \<Rightarrow> None)"
| "stream_step E (AFrame i j k) s =
     (if i < length (sr_parts s) \<and> j < length (pt_frames (sr_parts s ! i)) \<and> \<not> fr_done (pt_frames (sr_parts s ! i) ! j) \<and>
         (k = None \<longrightarrow> stopped s \<or> pt_err (sr_parts s ! i))
      then Some (s\<lparr>sr_parts := (sr_parts s)[i := frame_ends (se_compress E) j k (sr_parts s ! i)]\<rparr>) else None)"
| "stream_step E AReceive s =
     (case sr_main s of
        MReceive \<Rightarrow> (case sr_queue s of i # q \<Rightarrow> Some (s\<lparr>sr_queue := q, sr_main := MPart i\<rparr>)
                      | [] \<Rightarrow> if reader_done s then Some (s\<lparr>sr_main := MWork False\<rparr>) else None)
      | MDrain \<Rightarrow> (case sr_queue s of i # q \<Rightarrow> Some (s\<lparr>sr_queue := q\<rparr>)
                      | [] \<Rightarrow> if reader_done s then Some (s\<lparr>sr_main := MWork True\<rparr>) else None)
      | _ \<Rightarrow> None)"
| "stream_step E APart s =
     (case sr_main s of
        MPart i \<Rightarrow>
          if running_frames (sr_parts s ! i) > 0 then None
          else if pt_err (sr_parts s ! i) then Some (s\<lparr>sr_cancelled := True, sr_main := MDrain\<rparr>)
          else if int (length (sr_uploads s)) + (if reader_done s then 0 else 1) < max_uploads E + 1 then Some (handle_part i s)
          else None
      | _ \<Rightarrow> None)"
| "stream_step E (AUpload k ok) s =
     (if k < length (sr_uploads s)
      then let (i, data) = sr_uploads s ! k; s = s\<lparr>sr_uploads := remove_nth k (sr_uploads s)\<rparr>
           in Some (if ok then s\<lparr>sr_up := se_put E i data (sr_up s), sr_uploaded := sr_uploaded s @ [(i, data)]\<rparr> else s\<lparr>sr_workErr := True\<rparr>)
      else None)"
| "stream_step E (AWork emptyOk completeOk) s =
     (case sr_main s of
        MWork loopErr \<Rightarrow> if reader_done s \<and> sr_uploads s = [] then Some (finish_stream E loopErr emptyOk completeOk s) else None
      | _ \<Rightarrow> None)"

fun stream_run :: "'u stream_env \<Rightarrow> stream_act list \<Rightarrow> 'u stream \<Rightarrow> 'u stream option" where
  "stream_run E [] s = Some s"
| "stream_run E (a # as) s = (case stream_step E a s of None \<Rightarrow> None | Some s' \<Rightarrow> stream_run E as s')"

text \<open>A file of the local file system in the cloud stores; a stream that is started.\<close>

definition storeFileCompressed :: "'u stream_env \<Rightarrow> bytes \<Rightarrow> 'u \<Rightarrow> 'u stream_env \<times> 'u stream" where
  "storeFileCompressed E file up =
     (E\<lparr>se_cfg := clampCloudMinPartSize (se_cfg E) (int (length file))\<rparr>, new_stream file up)"

section \<open>Uploaders\<close>

definition mem_put :: "nat \<Rightarrow> bytes \<Rightarrow> (nat \<times> bytes) list \<Rightarrow> (nat \<times> bytes) list" where
  "mem_put partIndex data parts = AList.update partIndex data parts"

definition mem_Assemble :: "(nat \<times> bytes) list \<Rightarrow> bytes" where
  "mem_Assemble parts = concat (map (\<lambda>k. case map_of parts k of None \<Rightarrow> [] | Some d \<Rightarrow> d) (sort (map fst parts)))"

text \<open>What the stream relies on: parts with different indices, uploaded in any order, make up the object in the order
  of their indices.\<close>

definition in_order :: "(nat \<times> bytes) list \<Rightarrow> bytes" where
  "in_order xs = concat (map snd (sort_key fst xs))"

locale part_uploader =
  fixes put :: "nat \<Rightarrow> bytes \<Rightarrow> 'u \<Rightarrow> 'u" and start :: 'u and assemble :: "'u \<Rightarrow> bytes"
  assumes assembled: "distinct (map fst xs) \<Longrightarrow> assemble (fold (\<lambda>(i, data). put i data) xs start) = in_order xs"
begin

text \<open>Whatever the order in which the parts \<open>1, 2, \<dots>\<close> were uploaded, they are assembled in the order of their indices.\<close>

lemma assembled_perm:
  assumes "mset xs = mset (map (\<lambda>i. (i + 1, f i)) [0..<n])"
  shows "assemble (fold (\<lambda>(i, data). put i data) xs start) = concat (map f [0..<n])"
proof -
  let ?ys = "map (\<lambda>i. (i + 1, f i)) [0..<n]"
  have inj: "inj_on fst (set ?ys)" by (auto simp: inj_on_def)
  have "mset (map fst xs) = mset (map Suc [0..<n])"
    using arg_cong [OF assms, of "image_mset fst"] by (simp add: comp_def image_mset.compositionality flip: mset_map)
  moreover have "distinct (map Suc [0..<n])" by (simp add: distinct_map)
  ultimately have d: "distinct (map fst xs)" by (metis mset_eq_imp_distinct_iff)
  have "sort_key fst xs = ?ys"
  proof (rule sort_key_inj_key_eq)
    show "mset xs = mset ?ys" by (rule assms)
    show "inj_on fst (set xs)" using inj mset_eq_setD [OF assms] by simp
    show "sorted (map fst ?ys)" by (simp add: comp_def sorted_map)
  qed
  then show ?thesis using assembled [OF d] by (simp add: in_order_def comp_def)
qed

end

lemma update_new: "fst x \<notin> fst ` set ys \<Longrightarrow> AList.update (fst x) (snd x) ys = ys @ [x]"
  by (induction ys) auto

lemma fold_update_new:
  assumes "distinct (map fst (ys @ xs))"
  shows "fold (\<lambda>(i, d). AList.update i d) xs ys = ys @ xs"
  using assms
proof (induction xs arbitrary: ys)
  case Nil
  then show ?case by simp
next
  case (Cons x xs)
  have "AList.update (fst x) (snd x) ys = ys @ [x]" using Cons.prems by (intro update_new) auto
  then show ?case using Cons.IH [of "ys @ [x]"] Cons.prems by (simp add: case_prod_beta)
qed

interpretation mem: part_uploader mem_put "[]" mem_Assemble
proof
  fix xs :: "(nat \<times> bytes) list"
  assume d: "distinct (map fst xs)"
  have "fold (\<lambda>(i, data). mem_put i data) xs [] = xs" using fold_update_new [of "[]" xs] d by (simp add: mem_put_def [abs_def])
  moreover have "sort (map fst xs) = map fst (sort_key fst xs)"
    by (rule properties_for_sort) simp_all
  moreover have val: "(case map_of xs (fst x) of None \<Rightarrow> [] | Some d \<Rightarrow> d) = snd x" if "x \<in> set (sort_key fst xs)" for x
    using map_of_is_SomeI [OF d, of "fst x" "snd x"] that by (simp only: set_sort prod.collapse option.case)
  moreover have "map (\<lambda>x. case map_of xs (fst x) of None \<Rightarrow> [] | Some d \<Rightarrow> d) (sort_key fst xs) = map snd (sort_key fst xs)"
    using val by (intro map_cong) simp_all
  ultimately show "mem_Assemble (fold (\<lambda>(i, data). mem_put i data) xs []) = in_order xs"
    by (simp add: mem_Assemble_def in_order_def comp_def del: map_eq_conv)
qed

section \<open>Invariants\<close>

lemma handle_part_simps [simp]:
  "sr_in (handle_part i s) = sr_in s" "sr_hash (handle_part i s) = sr_hash s" "sr_reader (handle_part i s) = sr_reader s"
  "sr_parts (handle_part i s) = sr_parts s" "sr_queue (handle_part i s) = sr_queue s" "sr_main (handle_part i s) = MReceive"
  "sr_sizes (handle_part i s) = sr_sizes s @ map frame_size (pt_frames (sr_parts s ! i))"
  "sr_uploads (handle_part i s) = sr_uploads s @ [upload_part i (sr_parts s ! i)]" "sr_up (handle_part i s) = sr_up s"
  "sr_cancelled (handle_part i s) = sr_cancelled s" "sr_workErr (handle_part i s) = sr_workErr s" "sr_sent (handle_part i s) = sr_sent s"
  "sr_handled (handle_part i s) = Suc (sr_handled s)" "sr_uploaded (handle_part i s) = sr_uploaded s"
  by (simp_all add: handle_part_def Let_def split: prod.split)

lemma finish_stream_simps [simp]:
  "sr_in (finish_stream E l b c s) = sr_in s" "sr_hash (finish_stream E l b c s) = sr_hash s"
  "sr_reader (finish_stream E l b c s) = sr_reader s" "sr_parts (finish_stream E l b c s) = sr_parts s"
  "sr_queue (finish_stream E l b c s) = sr_queue s" "sr_sizes (finish_stream E l b c s) = sr_sizes s"
  "sr_uploads (finish_stream E l b c s) = sr_uploads s" "sr_cancelled (finish_stream E l b c s) = sr_cancelled s"
  "sr_workErr (finish_stream E l b c s) = sr_workErr s" "sr_sent (finish_stream E l b c s) = sr_sent s"
  "sr_handled (finish_stream E l b c s) = sr_handled s"
  by (simp_all add: finish_stream_def Let_def)

lemma finish_stream_main: "\<exists>r. sr_main (finish_stream E l b c s) = MReturned r"
  by (simp add: finish_stream_def Let_def)

lemma new_part_frames [simp]: "pt_frames new_part = []"
  by (simp add: new_part_def)

definition frames :: "'u stream \<Rightarrow> cframe list" where
  "frames s = concat (map pt_frames (sr_parts s))"

definition pend :: "reader_pc \<Rightarrow> bytes" where
  "pend pc = (case pc of RAdd d _ \<Rightarrow> d | _ \<Rightarrow> [])"

definition at_eof :: "reader_pc \<Rightarrow> bool" where
  "at_eof pc = (case pc of RAdd _ e \<Rightarrow> e | RTest e \<Rightarrow> e | RSend e \<Rightarrow> e | RDone ok \<Rightarrow> ok | _ \<Rightarrow> False)"

lemma pend_simps [simp]: "pend (RAdd d e) = d" "pend RStart = []" "pend RRead = []" "pend (RTest e) = []" "pend (RSend e) = []" "pend (RDone b) = []"
  by (simp_all add: pend_def)

lemma at_eof_simps [simp]: "at_eof (RAdd d e) = e" "at_eof RStart = False" "at_eof RRead = False" "at_eof (RTest e) = e"
  "at_eof (RSend e) = e" "at_eof (RDone b) = b"
  by (simp_all add: at_eof_def)

text \<open>What was read is in the frames, in order.\<close>

definition data_inv :: "bytes \<Rightarrow> 'u stream \<Rightarrow> bool" where
  "data_inv input s \<longleftrightarrow> sr_hash s @ sr_in s = input \<and> concat (map fr_data (frames s)) @ pend (sr_reader s) = sr_hash s \<and>
     (at_eof (sr_reader s) \<longrightarrow> sr_in s = []) \<and> sr_parts s \<noteq> []"

text \<open>A frame has an output of its own bytes, or its goroutine runs, or the part has failed.\<close>

definition frame_inv :: "'u stream_env \<Rightarrow> bool \<Rightarrow> cframe \<Rightarrow> bool" where
  "frame_inv E failed f \<longleftrightarrow> fr_data f \<noteq> [] \<and> length (fr_data f) \<le> nat (cfg_FrameSize (se_cfg E)) \<and>
     (case fr_out f of None \<Rightarrow> fr_done f \<longrightarrow> failed | Some out \<Rightarrow> fr_done f \<and> (\<exists>k. se_compress E k (fr_data f) = Some out))"

definition out_size :: "cframe list \<Rightarrow> int" where
  "out_size fs = sum_list (map (\<lambda>f. int (length (compressed f))) fs)"

definition part_inv :: "'u stream_env \<Rightarrow> cpart \<Rightarrow> bool" where
  "part_inv E p \<longleftrightarrow> (\<forall>f \<in> set (pt_frames p). frame_inv E (pt_err p) f) \<and> pt_size p = i64 (out_size (pt_frames p))"

definition parts_inv :: "'u stream_env \<Rightarrow> 'u stream \<Rightarrow> bool" where
  "parts_inv E s \<longleftrightarrow> (\<forall>p \<in> set (sr_parts s). part_inv E p) \<and> length (pend (sr_reader s)) \<le> nat (cfg_FrameSize (se_cfg E))"

text \<open>Parts are sent and handled one after the other.\<close>

fun queue_ok :: "main_pc \<Rightarrow> nat list \<Rightarrow> nat \<Rightarrow> nat \<Rightarrow> bool \<Rightarrow> bool \<Rightarrow> bool" where
  "queue_ok MReceive q h n reader_ended no_uploads \<longleftrightarrow> q = [h..<n]"
| "queue_ok (MPart i) q h n reader_ended no_uploads \<longleftrightarrow> i = h \<and> i < n \<and> q = [Suc i..<n]"
| "queue_ok MDrain q h n reader_ended no_uploads \<longleftrightarrow> True"
| "queue_ok (MWork failed) q h n reader_ended no_uploads \<longleftrightarrow> reader_ended \<and> (\<not> failed \<longrightarrow> h = n)"
| "queue_ok (MReturned r) q h n reader_ended no_uploads \<longleftrightarrow> reader_ended \<and> no_uploads"

definition queue_inv :: "'u stream \<Rightarrow> bool" where
  "queue_inv s \<longleftrightarrow> queue_ok (sr_main s) (sr_queue s) (sr_handled s) (sr_sent s) (is_done (sr_reader s)) (sr_uploads s = [])"

definition flow_inv :: "'u stream \<Rightarrow> bool" where
  "flow_inv s \<longleftrightarrow> sr_handled s \<le> sr_sent s \<and> queue_inv s \<and> (sr_reader s = RDone False \<longrightarrow> sr_workErr s) \<and>
     (length (sr_parts s) = sr_sent s + 1 \<and> (sr_reader s = RDone True \<longrightarrow> pt_frames (last (sr_parts s)) = []) \<or>
      length (sr_parts s) = sr_sent s \<and> sr_reader s = RDone True)"

text \<open>The parts handled are compressed, and their sizes and uploads are booked.\<close>

definition handled :: "'u stream \<Rightarrow> cframe list" where
  "handled s = concat (map pt_frames (take (sr_handled s) (sr_parts s)))"

lemma frames_append [simp]: "concat (map pt_frames (xs @ [new_part])) = concat (map pt_frames xs)"
  by (simp add: new_part_def)

lemma data_init: "data_inv input (new_stream input up)"
  by (simp add: data_inv_def new_stream_def frames_def new_part_def)

lemma parts_init: "parts_inv E (new_stream input up)"
  by (simp add: parts_inv_def part_inv_def new_stream_def new_part_def out_size_def i64_def)

lemma flow_init: "flow_inv (new_stream input up)"
  by (simp add: flow_inv_def queue_inv_def new_stream_def)

text \<open>The end of a frame changes only its done flag and its output.\<close>

lemma frame_ends_data: "j < length (pt_frames p) \<Longrightarrow> map fr_data (pt_frames (frame_ends c j k p)) = map fr_data (pt_frames p)"
  by (auto simp: frame_ends_def Let_def map_update list_update_same_conv split: option.split)

lemma concat_map_update:
  "i < length ps \<Longrightarrow> map g (f x) = map g (f (ps ! i)) \<Longrightarrow>
   map g (concat (map f (ps[i := x]))) = map g (concat (map f ps))"
  by (simp only: map_concat map_map map_update comp_def) (metis list_update_id nth_map)

lemma butlast_last_concat: "xs \<noteq> [] \<Longrightarrow> concat (map f (butlast xs)) @ f (last xs) = concat (map f xs)"
  by (induction xs) auto

lemma data_step:
  assumes "stream_step E a s = Some s'" "data_inv input s"
  shows "data_inv input s'"
proof (cases a)
  case ACancel
  then show ?thesis using assms by (auto simp: data_inv_def frames_def split: if_split_asm)
next
  case (AStart optionsOk)
  then show ?thesis using assms by (auto simp: data_inv_def frames_def reader_fails_def split: if_split_asm)
next
  case (ARead err)
  then show ?thesis using assms
    by (auto simp: data_inv_def frames_def reader_fails_def read_frame_def Let_def split: if_split_asm)
next
  case AAdd
  then obtain d e where r: "sr_reader s = RAdd d e" using assms(1) by (auto split: reader_pc.split_asm)
  show ?thesis
  proof (cases "d = []")
    case True
    then show ?thesis using assms r AAdd by (auto simp: data_inv_def frames_def)
  next
    case False
    then have s': "s' = s\<lparr>sr_parts := butlast (sr_parts s) @ [addFrame d (last (sr_parts s))], sr_reader := RTest e\<rparr>"
      using assms(1) r AAdd by (simp split: if_split_asm)
    have "concat (map fr_data (frames s')) = concat (map fr_data (frames s)) @ d"
      using butlast_last_concat [of "sr_parts s" pt_frames] assms(2)
      by (simp add: s' frames_def addFrame_def data_inv_def flip: append_assoc)
    then show ?thesis using assms(2) r by (simp add: data_inv_def s')
  qed
next
  case ATest
  then show ?thesis using assms
    by (auto simp: data_inv_def frames_def test_part_def split: reader_pc.split_asm if_split_asm)
next
  case (ASend sent)
  then show ?thesis using assms
    by (auto simp: data_inv_def frames_def send_part_def reader_fails_def Let_def new_part_def split: reader_pc.split_asm if_split_asm)
next
  case (AFrame i j k)
  then have s': "i < length (sr_parts s)" "j < length (pt_frames (sr_parts s ! i))"
    "s' = s\<lparr>sr_parts := (sr_parts s)[i := frame_ends (se_compress E) j k (sr_parts s ! i)]\<rparr>"
    using assms(1) by (auto split: if_split_asm)
  have "map fr_data (frames s') = map fr_data (frames s)"
    unfolding frames_def by (simp add: s'(3) concat_map_update [OF s'(1) frame_ends_data [OF s'(2)]])
  then show ?thesis using assms(2) by (simp add: data_inv_def s'(3))
next
  case AReceive
  then show ?thesis using assms by (auto simp: data_inv_def frames_def split: main_pc.split_asm list.split_asm if_split_asm)
next
  case APart
  then show ?thesis using assms
    by (auto simp: data_inv_def frames_def split: main_pc.split_asm if_split_asm)
next
  case (AUpload k ok)
  then show ?thesis using assms by (auto simp: data_inv_def frames_def Let_def split: if_split_asm prod.split_asm)
next
  case (AWork b c)
  then show ?thesis using assms
    by (auto simp: data_inv_def frames_def split: main_pc.split_asm if_split_asm)
qed

text \<open>The steps of the read loop, of a frame and of the others, for proofs that look at one component of the state.\<close>

lemma i64_add: "i64 (i64 x + y) = i64 (x + y)"
proof -
  have "(x + 9223372036854775808) mod 18446744073709551616 - 9223372036854775808 + y + 9223372036854775808 =
      (x + 9223372036854775808) mod 18446744073709551616 + y" by simp
  then show ?thesis by (simp only: i64_def mod_add_left_eq) (simp add: algebra_simps)
qed

lemma out_size_update:
  "j < length fs \<Longrightarrow> out_size (fs[j := f]) = out_size fs - int (length (compressed (fs ! j))) + int (length (compressed f))"
  unfolding out_size_def by (induction fs arbitrary: j) (auto split: nat.split)

lemma frame_inv_mono: "frame_inv E b f \<Longrightarrow> frame_inv E True f"
  by (auto simp: frame_inv_def split: option.splits)

lemma frame_ends_inv:
  assumes "part_inv E p" "j < length (pt_frames p)" "\<not> fr_done (pt_frames p ! j)"
  shows "part_inv E (frame_ends (se_compress E) j k p)"
proof -
  let ?f = "pt_frames p ! j"
  have f: "frame_inv E (pt_err p) ?f" and all: "\<And>f. f \<in> set (pt_frames p) \<Longrightarrow> frame_inv E (pt_err p) f"
    and sz: "pt_size p = i64 (out_size (pt_frames p))" using assms by (auto simp: part_inv_def)
  have none: "fr_out ?f = None" using f assms(3) by (auto simp: frame_inv_def split: option.splits)
  show ?thesis
  proof (cases "case k of None \<Rightarrow> None | Some e \<Rightarrow> se_compress E e (fr_data ?f)")
    case None
    have "frame_inv E True (?f\<lparr>fr_done := True\<rparr>)" using f none by (simp add: frame_inv_def)
    then have "\<forall>f \<in> set ((pt_frames p)[j := ?f\<lparr>fr_done := True\<rparr>]). frame_inv E True f"
      using all [THEN frame_inv_mono] by (auto dest!: subsetD [OF set_update_subset_insert])
    then show ?thesis using None sz none assms(2) by (simp add: frame_ends_def Let_def part_inv_def out_size_update compressed_def)
  next
    case (Some out)
    then obtain e where e: "se_compress E e (fr_data ?f) = Some out" by (auto split: option.splits)
    have "frame_inv E (pt_err p) (?f\<lparr>fr_done := True, fr_out := Some out\<rparr>)" using f e by (auto simp: frame_inv_def)
    then have "\<forall>f \<in> set ((pt_frames p)[j := ?f\<lparr>fr_done := True, fr_out := Some out\<rparr>]). frame_inv E (pt_err p) f"
      using all by (auto dest!: subsetD [OF set_update_subset_insert])
    then show ?thesis using Some sz none assms(2)
      by (simp add: frame_ends_def Let_def part_inv_def out_size_update compressed_def i64_add)
  qed
qed

lemma addFrame_inv:
  "part_inv E p \<Longrightarrow> d \<noteq> [] \<Longrightarrow> length d \<le> nat (cfg_FrameSize (se_cfg E)) \<Longrightarrow> part_inv E (addFrame d p)"
  by (auto simp: part_inv_def addFrame_def frame_inv_def out_size_def compressed_def)

lemma new_part_inv: "part_inv E new_part"
  by (simp add: part_inv_def new_part_def out_size_def i64_def)

lemma parts_step:
  assumes "stream_step E a s = Some s'" "parts_inv E s" "sr_parts s \<noteq> []"
  shows "parts_inv E s'"
proof (cases a)
  case (AStart optionsOk)
  then show ?thesis using assms by (auto simp: parts_inv_def reader_fails_def split: if_split_asm)
next
  case (ARead err)
  then show ?thesis using assms by (auto simp: parts_inv_def reader_fails_def read_frame_def Let_def split: if_split_asm)
next
  case AAdd
  then obtain d e where r: "sr_reader s = RAdd d e" using assms(1) by (auto split: reader_pc.split_asm)
  have "part_inv E (last (sr_parts s))" "\<And>p. p \<in> set (butlast (sr_parts s)) \<Longrightarrow> part_inv E p"
    using assms(2,3) by (auto simp: parts_inv_def in_set_butlastD)
  then show ?thesis using assms r AAdd addFrame_inv [of E "last (sr_parts s)" d] by (auto simp: parts_inv_def split: if_split_asm)
next
  case ATest
  then show ?thesis using assms by (auto simp: parts_inv_def test_part_def split: reader_pc.split_asm if_split_asm)
next
  case (ASend sent)
  then show ?thesis using assms new_part_inv
    by (auto simp: parts_inv_def send_part_def reader_fails_def Let_def split: reader_pc.split_asm if_split_asm)
next
  case (AFrame i j k)
  then have s': "i < length (sr_parts s)" "j < length (pt_frames (sr_parts s ! i))" "\<not> fr_done (pt_frames (sr_parts s ! i) ! j)"
    "s' = s\<lparr>sr_parts := (sr_parts s)[i := frame_ends (se_compress E) j k (sr_parts s ! i)]\<rparr>"
    using assms(1) by (auto split: if_split_asm)
  have "part_inv E (sr_parts s ! i)" using assms(2) s'(1) by (simp add: parts_inv_def)
  from frame_ends_inv [OF this s'(2,3)] assms(2) show ?thesis
    by (auto simp: parts_inv_def s'(4) dest!: set_update_subset_insert [THEN subsetD])
next
  case APart
  then show ?thesis using assms by (auto simp: parts_inv_def split: main_pc.split_asm if_split_asm)
next
  case (AUpload k ok)
  then show ?thesis using assms by (auto simp: parts_inv_def Let_def split: if_split_asm prod.split_asm)
qed (use assms in \<open>auto simp: parts_inv_def split: main_pc.split_asm list.split_asm if_split_asm\<close>)

lemma read_frame_cases:
  fixes E :: "'u stream_env"
  defines "n \<equiv> nat (cfg_FrameSize (se_cfg E))"
  obtains "read_frame E err s = reader_fails s"
  | "read_frame E err s = s\<lparr>sr_in := drop n (sr_in s), sr_hash := sr_hash s @ take n (sr_in s),
      sr_reader := RAdd (take n (sr_in s)) (length (take n (sr_in s)) < n)\<rparr>"
  unfolding read_frame_def Let_def n_def by (cases "stopped s \<or> err") auto

lemma queue_ok_reader: "queue_ok m q h n False u \<Longrightarrow> queue_ok m q h n d u"
  by (cases m) auto

lemma queue_ok_send: "queue_ok m q h n False u \<Longrightarrow> h \<le> n \<Longrightarrow> queue_ok m (q @ [n]) h (Suc n) d u"
  by (cases m) auto

lemma queue_ok_upload: "queue_ok m q h n d False \<Longrightarrow> queue_ok m q h n d u"
  by (cases m) auto

lemma flow_step:
  assumes "stream_step E a s = Some s'" "flow_inv s" "sr_parts s \<noteq> []"
  shows "flow_inv s'"
proof (cases a)
  case ACancel
  then show ?thesis using assms by (auto simp: flow_inv_def queue_inv_def split: if_split_asm)
next
  case (AStart optionsOk)
  then have r: "sr_reader s = RStart" using assms(1) by (auto split: if_split_asm)
  then show ?thesis using assms AStart queue_ok_reader
    by (cases "optionsOk \<and> newCompressorPool_ok (se_cfg E)") (auto simp: flow_inv_def queue_inv_def reader_fails_def)
next
  case (ARead err)
  then have r: "sr_reader s = RRead" using assms(1) by (auto split: if_split_asm)
  moreover have "s' = read_frame E err s" using assms(1) ARead r by simp
  ultimately show ?thesis using assms(2) queue_ok_reader
    by (cases rule: read_frame_cases [of E err s]) (auto simp: flow_inv_def queue_inv_def reader_fails_def)
next
  case AAdd
  then obtain d e where r: "sr_reader s = RAdd d e" using assms(1) by (auto split: reader_pc.split_asm)
  have "length (sr_parts s) - Suc 0 + 1 = length (sr_parts s)" using assms(3) by (cases "sr_parts s") auto
  then show ?thesis using assms r AAdd
    by (auto simp: flow_inv_def queue_inv_def split: if_split_asm)
next
  case ATest
  then obtain e where r: "sr_reader s = RTest e" using assms(1) by (auto split: reader_pc.split_asm)
  then show ?thesis using assms ATest queue_ok_reader
    by (auto simp: flow_inv_def queue_inv_def test_part_def split: if_split_asm)
next
  case (ASend sent)
  then obtain e where r: "sr_reader s = RSend e" using assms(1) by (auto split: reader_pc.split_asm)
  have len: "length (sr_parts s) = Suc (sr_sent s)" using assms(2) r by (simp add: flow_inv_def)
  show ?thesis using assms r ASend len queue_ok_reader queue_ok_send
    by (auto simp: flow_inv_def queue_inv_def reader_fails_def send_part_def Let_def split: if_split_asm)
next
  case (AFrame i j k)
  then have s': "i < length (sr_parts s)" "j < length (pt_frames (sr_parts s ! i))"
    "s' = s\<lparr>sr_parts := (sr_parts s)[i := frame_ends (se_compress E) j k (sr_parts s ! i)]\<rparr>"
    using assms(1) by (auto split: if_split_asm)
  have "pt_frames (last (sr_parts s')) = []" if "pt_frames (last (sr_parts s)) = []"
  proof -
    have "i \<noteq> length (sr_parts s) - 1" using that s'(1,2) assms(3) by (auto simp: last_conv_nth)
    then show ?thesis using that s' assms(3) by (simp add: last_conv_nth)
  qed
  then show ?thesis using assms(2) s'(3) by (auto simp: flow_inv_def queue_inv_def)
next
  case AReceive
  then show ?thesis using assms(1,2)
    by (auto simp: flow_inv_def queue_inv_def reader_done_def upt_eq_Cons_conv upt_eq_Nil_conv
        split: main_pc.split_asm list.split_asm if_split_asm)
next
  case APart
  then show ?thesis using assms(1,2) by (auto simp: flow_inv_def queue_inv_def split: main_pc.split_asm if_split_asm)
next
  case (AUpload k ok)
  then have "sr_uploads s \<noteq> []" using assms(1) by (auto split: if_split_asm)
  then show ?thesis using assms(1,2) AUpload queue_ok_upload
    by (auto simp: flow_inv_def queue_inv_def Let_def split: if_split_asm prod.split_asm)
next
  case (AWork b c)
  then obtain l where w: "sr_main s = MWork l" "reader_done s" "sr_uploads s = []" "s' = finish_stream E l b c s"
    using assms(1) by (auto split: main_pc.split_asm if_split_asm)
  obtain r where "sr_main s' = MReturned r" using w(4) finish_stream_main by blast
  then show ?thesis using assms(2) w by (auto simp: flow_inv_def queue_inv_def reader_done_def)
qed

text \<open>What was handled does not change.\<close>

definition all_out :: "'u stream \<Rightarrow> bool" where
  "all_out s \<longleftrightarrow> (\<forall>f \<in> set (handled s). fr_out f \<noteq> None)"

lemma handled_nth: "i < sr_handled s \<Longrightarrow> i < length (sr_parts s) \<Longrightarrow> f \<in> set (pt_frames (sr_parts s ! i)) \<Longrightarrow> f \<in> set (handled s)"
  by (auto simp: handled_def in_set_conv_nth [of _ "take _ _"] intro!: bexI [of _ "sr_parts s ! i"] exI [of _ i])

lemma parts_stable:
  assumes "stream_step E a s = Some s'" "flow_inv s" "parts_inv E s" "all_out s" "sr_parts s \<noteq> []"
  shows "take (sr_handled s) (sr_parts s') = take (sr_handled s) (sr_parts s)"
proof (cases a)
  case AAdd
  then obtain d e where r: "sr_reader s = RAdd d e" using assms(1) by (auto split: reader_pc.split_asm)
  then have "sr_handled s \<le> length (sr_parts s) - 1" using assms(2) by (auto simp: flow_inv_def)
  then show ?thesis using assms(1) r AAdd by (auto simp: take_butlast split: if_split_asm) (simp add: butlast_conv_take min_def)
next
  case (ASend sent)
  then obtain e where r: "sr_reader s = RSend e" using assms(1) by (auto split: reader_pc.split_asm)
  then have "sr_handled s \<le> length (sr_parts s)" using assms(2) by (auto simp: flow_inv_def)
  then show ?thesis using assms(1) r ASend by (auto simp: send_part_def reader_fails_def Let_def split: if_split_asm)
next
  case (AFrame i j k)
  then have s': "i < length (sr_parts s)" "j < length (pt_frames (sr_parts s ! i))" "\<not> fr_done (pt_frames (sr_parts s ! i) ! j)"
    "s' = s\<lparr>sr_parts := (sr_parts s)[i := frame_ends (se_compress E) j k (sr_parts s ! i)]\<rparr>"
    using assms(1) by (auto split: if_split_asm)
  have "frame_inv E (pt_err (sr_parts s ! i)) (pt_frames (sr_parts s ! i) ! j)"
    using assms(3) s'(1,2) by (auto simp: parts_inv_def part_inv_def)
  then have "fr_out (pt_frames (sr_parts s ! i) ! j) = None" using s'(3) by (auto simp: frame_inv_def split: option.splits)
  then have "\<not> i < sr_handled s" using assms(4) handled_nth [OF _ s'(1) nth_mem [OF s'(2)]] unfolding all_out_def by blast
  then show ?thesis using s'(4) by simp
qed (use assms(1) in \<open>auto simp: reader_fails_def read_frame_def test_part_def Let_def
    split: reader_pc.split_asm main_pc.split_asm list.split_asm if_split_asm prod.split_asm\<close>)

text \<open>The parts sent have frames.\<close>

fun frames_due :: "reader_pc \<Rightarrow> bool \<Rightarrow> bool" where
  "frames_due (RAdd d e) nonempty \<longleftrightarrow> e \<or> d \<noteq> []"
| "frames_due (RTest e) nonempty \<longleftrightarrow> e \<or> nonempty"
| "frames_due (RSend e) nonempty \<longleftrightarrow> nonempty"
| "frames_due _ nonempty \<longleftrightarrow> True"

definition nonempty_inv :: "'u stream \<Rightarrow> bool" where
  "nonempty_inv s \<longleftrightarrow> (\<forall>p \<in> set (take (sr_sent s) (sr_parts s)). pt_frames p \<noteq> []) \<and>
     frames_due (sr_reader s) (pt_frames (last (sr_parts s)) \<noteq> [])"

lemma nonempty_init: "nonempty_inv (new_stream input up)"
  by (simp add: nonempty_inv_def new_stream_def)

lemma frame_ends_Nil [simp]: "pt_frames (frame_ends c j k p) = [] \<longleftrightarrow> pt_frames p = []"
  by (auto simp: frame_ends_def Let_def split: option.split)

lemma addFrame_nonempty [simp]: "pt_frames (addFrame d p) \<noteq> []"
  by (simp add: addFrame_def)

lemma nonempty_step:
  assumes "stream_step E a s = Some s'" "nonempty_inv s" "flow_inv s" "sr_parts s \<noteq> []" "0 < cfg_FrameSize (se_cfg E)"
  shows "nonempty_inv s'"
proof (cases a)
  case (AStart optionsOk)
  then show ?thesis using assms(1,2) by (auto simp: nonempty_inv_def reader_fails_def split: if_split_asm)
next
  case (ARead err)
  then show ?thesis using assms(1,2,5)
    by (auto simp: nonempty_inv_def reader_fails_def read_frame_def Let_def split: if_split_asm)
next
  case AAdd
  then obtain d e where r: "sr_reader s = RAdd d e" using assms(1) by (auto split: reader_pc.split_asm)
  then have "sr_sent s = length (sr_parts s) - 1" using assms(3) by (auto simp: flow_inv_def)
  then show ?thesis using assms(1,2) r AAdd by (auto simp: nonempty_inv_def butlast_conv_take min_def split: if_split_asm)
next
  case ATest
  then obtain e where r: "sr_reader s = RTest e" using assms(1) by (auto split: reader_pc.split_asm)
  then show ?thesis using assms(1,2) ATest by (auto simp: nonempty_inv_def test_part_def split: if_splits)
next
  case (ASend sent)
  then obtain e where r: "sr_reader s = RSend e" using assms(1) by (auto split: reader_pc.split_asm)
  then have len: "length (sr_parts s) = Suc (sr_sent s)" using assms(3) by (simp add: flow_inv_def)
  then have "sr_parts s = take (sr_sent s) (sr_parts s) @ [last (sr_parts s)]"
    using append_butlast_last_id [OF assms(4)] by (simp add: butlast_conv_take)
  then have "set (sr_parts s) = insert (last (sr_parts s)) (set (take (sr_sent s) (sr_parts s)))"
    by (metis list.set(2) set_append set_append [of _ "[last (sr_parts s)]"] Un_insert_right Un_empty_right list.set(1))
  then show ?thesis using assms(1,2) r ASend len
    by (auto simp: nonempty_inv_def send_part_def reader_fails_def Let_def split: if_split_asm)
next
  case (AFrame i j k)
  then have s': "i < length (sr_parts s)"
    "s' = s\<lparr>sr_parts := (sr_parts s)[i := frame_ends (se_compress E) j k (sr_parts s ! i)]\<rparr>"
    using assms(1) by (auto split: if_split_asm)
  have nth: "(pt_frames (sr_parts s' ! m) = []) = (pt_frames (sr_parts s ! m) = [])" if "m < length (sr_parts s)" for m
    using that s' by (simp add: nth_list_update)
  have "(pt_frames (last (sr_parts s')) = []) = (pt_frames (last (sr_parts s)) = [])"
    using nth [of "length (sr_parts s) - 1"] assms(4) s'(2) by (simp add: last_conv_nth)
  moreover have "\<forall>p \<in> set (take (sr_sent s) (sr_parts s')). pt_frames p \<noteq> []"
    using assms(2) nth s'(2) by (simp add: nonempty_inv_def all_set_conv_all_nth)
  ultimately show ?thesis using assms(2) s'(2) by (simp add: nonempty_inv_def)
next
  case AReceive
  then show ?thesis using assms(1,2) by (auto simp: nonempty_inv_def split: main_pc.split_asm list.split_asm if_split_asm)
next
  case APart
  then show ?thesis using assms(1,2) by (auto simp: nonempty_inv_def split: main_pc.split_asm if_split_asm)
next
  case (AUpload k ok)
  then show ?thesis using assms(1,2) by (auto simp: nonempty_inv_def Let_def split: if_split_asm prod.split_asm)
qed (use assms(1,2) in \<open>auto simp: nonempty_inv_def split: main_pc.split_asm if_split_asm\<close>)

text \<open>The uploads.\<close>

lemma mset_remove_nth: "k < length xs \<Longrightarrow> add_mset (xs ! k) (mset (remove_nth k xs)) = mset xs"
  unfolding remove_nth_def by (metis id_take_nth_drop mset.simps(2) mset_append union_mset_add_mset_right)

definition launched :: "'u stream \<Rightarrow> (nat \<times> bytes) list" where
  "launched s = map (\<lambda>i. upload_part i (sr_parts s ! i)) [0..<sr_handled s]"

definition returned :: "'u stream \<Rightarrow> bool" where
  "returned s \<longleftrightarrow> (case sr_main s of MReturned r \<Rightarrow> True | _ \<Rightarrow> False)"

lemma returned_simps [simp]: "sr_main s = MReturned r \<Longrightarrow> returned s" "sr_main s = MReceive \<Longrightarrow> \<not> returned s"
  "sr_main s = MPart i \<Longrightarrow> \<not> returned s" "sr_main s = MDrain \<Longrightarrow> \<not> returned s" "sr_main s = MWork b \<Longrightarrow> \<not> returned s"
  by (simp_all add: returned_def)

definition upload_inv :: "'u stream_env \<Rightarrow> 'u \<Rightarrow> 'u stream \<Rightarrow> bool" where
  "upload_inv E start s \<longleftrightarrow> all_out s \<and> sr_sizes s = map frame_size (handled s) \<and>
     sr_up s = fold (\<lambda>(i, data). se_put E i data) (sr_uploaded s) start \<and>
     (\<not> sr_workErr s \<longrightarrow> \<not> returned s \<longrightarrow> mset (sr_uploaded s) + mset (sr_uploads s) = mset (launched s))"

lemma upload_init: "upload_inv E up (new_stream input up)"
  by (simp add: upload_inv_def new_stream_def handled_def all_out_def launched_def)

lemma launched_stable:
  assumes "take (sr_handled s) (sr_parts s') = take (sr_handled s) (sr_parts s)" "sr_handled s' = sr_handled s"
  shows "handled s' = handled s" "launched s' = launched s" "all_out s' = all_out s"
proof -
  have "sr_parts s' ! i = sr_parts s ! i" if "i < sr_handled s" for i
    using that assms(1) by (metis nth_take)
  then show "launched s' = launched s" by (simp add: launched_def assms(2))
  show "handled s' = handled s" by (simp add: handled_def assms)
  then show "all_out s' = all_out s" by (simp add: all_out_def)
qed

lemma part_done:
  assumes "part_inv E p" "running_frames p = 0" "\<not> pt_err p" "f \<in> set (pt_frames p)"
  shows "fr_out f \<noteq> None"
  using assms by (fastforce simp: part_inv_def frame_inv_def running_frames_def filter_empty_conv split: option.splits)

text \<open>The other steps leave the uploads alone.\<close>

lemma other_steps:
  assumes "stream_step E a s = Some s'" "a \<noteq> APart" "\<forall>k ok. a \<noteq> AUpload k ok" "\<forall>b c. a \<noteq> AWork b c"
  shows "sr_handled s' = sr_handled s \<and> sr_sizes s' = sr_sizes s \<and> sr_up s' = sr_up s \<and> sr_uploaded s' = sr_uploaded s \<and>
    sr_uploads s' = sr_uploads s \<and> (sr_workErr s \<longrightarrow> sr_workErr s') \<and> returned s' = returned s \<and>
    (returned s \<longrightarrow> sr_main s' = sr_main s)"
  using assms
  by (cases a) (auto simp: returned_def reader_fails_def read_frame_def test_part_def send_part_def Let_def
      split: reader_pc.split_asm main_pc.split_asm list.split_asm if_split_asm prod.split_asm)

lemma upload_step:
  assumes "stream_step E a s = Some s'" "upload_inv E start s" "flow_inv s" "parts_inv E s" "sr_parts s \<noteq> []"
  shows "upload_inv E start s'"
proof -
  have set: "all_out s" using assms(2) by (simp add: upload_inv_def)
  note st = parts_stable [OF assms(1,3,4) set assms(5)]
  consider (part) "a = APart" | (up) k ok where "a = AUpload k ok" | (work) b c where "a = AWork b c"
    | (other) "a \<noteq> APart" "\<forall>k ok. a \<noteq> AUpload k ok" "\<forall>b c. a \<noteq> AWork b c" by blast
  then show ?thesis
  proof cases
    case other
    note o = other_steps [OF assms(1) other]
    show ?thesis using assms(2) o launched_stable [OF st] by (auto simp: upload_inv_def)
  next
    case part
    then obtain i where m: "sr_main s = MPart i" using assms(1) by (auto split: main_pc.split_asm)
    show ?thesis
    proof (cases "pt_err (sr_parts s ! i)")
      case True
      then have s': "s' = s\<lparr>sr_cancelled := True, sr_main := MDrain\<rparr>" using assms(1) part m by (simp split: if_split_asm)
      show ?thesis using assms(2) launched_stable [OF st] m by (simp add: upload_inv_def s')
    next
      case False
      then have s': "s' = handle_part i s" "running_frames (sr_parts s ! i) = 0" using assms(1) part m by (simp_all split: if_split_asm)
      have i: "i = sr_handled s" "i < length (sr_parts s)" using assms(3) m by (auto simp: flow_inv_def queue_inv_def)
      have h: "handled s' = handled s @ pt_frames (sr_parts s ! i)" using i by (simp add: handled_def s'(1) take_Suc_conv_app_nth)
      have l: "launched s' = launched s @ [upload_part i (sr_parts s ! i)]" using i by (simp add: launched_def s'(1))
      have "part_inv E (sr_parts s ! i)" using assms(4) i(2) by (simp add: parts_inv_def)
      note d = part_done [OF this s'(2) False]
      show ?thesis using assms(2) h l d m by (auto simp: upload_inv_def all_out_def s'(1))
    qed
  next
    case (up k ok)
    obtain i d where id: "sr_uploads s ! k = (i, d)" by fastforce
    have k: "k < length (sr_uploads s)" using assms(1) up by (simp split: if_split_asm)
    have s': "s' = (if ok then s\<lparr>sr_uploads := remove_nth k (sr_uploads s), sr_up := se_put E i d (sr_up s), sr_uploaded := sr_uploaded s @ [(i, d)]\<rparr>
        else s\<lparr>sr_uploads := remove_nth k (sr_uploads s), sr_workErr := True\<rparr>)"
      using assms(1) up id k by (cases ok) (simp_all add: Let_def)
    have r: "returned s' = returned s" by (simp add: returned_def s')
    have m: "add_mset (i, d) (mset (sr_uploaded s) + mset (remove_nth k (sr_uploads s))) = mset (sr_uploaded s) + mset (sr_uploads s)"
      using mset_remove_nth [OF k] id by (metis union_mset_add_mset_right)
    show ?thesis using assms(2) launched_stable [OF st] r by (cases ok) (simp_all add: upload_inv_def s' m)
  next
    case (work b c)
    then obtain l where w: "s' = finish_stream E l b c s" "sr_main s = MWork l" using assms(1)
      by (auto split: main_pc.split_asm if_split_asm)
    have "sr_up s' = fold (\<lambda>(i, data). se_put E i data) (sr_uploaded s') start"
      using assms(2) by (auto simp: w finish_stream_def upload_inv_def Let_def)
    moreover have "returned s'" using finish_stream_main w(1) by (metis returned_simps(1))
    ultimately show ?thesis using assms(2) launched_stable [OF st] by (auto simp: upload_inv_def w(1))
  qed
qed

section \<open>The result\<close>

definition stream_inv :: "'u stream_env \<Rightarrow> bytes \<Rightarrow> 'u \<Rightarrow> 'u stream \<Rightarrow> bool" where
  "stream_inv E input start s \<longleftrightarrow> data_inv input s \<and> parts_inv E s \<and> flow_inv s \<and> nonempty_inv s \<and> upload_inv E start s"

text \<open>A result is that of all parts: their frames hold the input, in order, and each has an output.\<close>

definition result_inv :: "'u stream_env \<Rightarrow> bytes \<Rightarrow> 'u \<Rightarrow> 'u stream \<Rightarrow> bool" where
  "result_inv E input start s \<longleftrightarrow>
     (\<forall>ft h. sr_main s = MReturned (Some (ft, h)) \<longrightarrow> h = se_sha E input \<and>
        concat (map fr_data (handled s)) = input \<and>
        ft = NewFullFrameTable (cfg_CompressionType (se_cfg E)) (map frame_size (handled s)) \<and>
        mset (sr_uploaded s) = (if sr_handled s = 0 then {#(1, [])#} else mset (launched s)))"

lemma stream_inv_init: "stream_inv E input start (new_stream input start)"
  by (simp add: stream_inv_def data_init parts_init flow_init nonempty_init upload_init)

lemma stream_inv_step:
  "stream_step E a s = Some s' \<Longrightarrow> stream_inv E input start s \<Longrightarrow> 0 < cfg_FrameSize (se_cfg E) \<Longrightarrow> stream_inv E input start s'"
  unfolding stream_inv_def using data_step [of E a s s' input] parts_step [of E a s s'] flow_step [of E a s s']
    nonempty_step [of E a s s'] upload_step [of E a s s' start]
  by (auto simp: data_inv_def)

lemma part_size_pos: "i < sr_handled s \<Longrightarrow> i < length (sr_parts s) \<Longrightarrow> pt_frames (sr_parts s ! i) \<noteq> [] \<Longrightarrow> handled s \<noteq> []"
  using handled_nth [of i s] by fastforce

lemma result_of_finish:
  assumes "stream_inv E input start s" "sr_main s = MWork l" "reader_done s" "sr_uploads s = []"
  shows "result_inv E input start (finish_stream E l b c s)"
proof (cases "sr_main (finish_stream E l b c s)")
  case (MReturned r)
  show ?thesis
  proof (cases r)
    case None
    then show ?thesis using MReturned by (simp add: result_inv_def)
  next
    case (Some x)
    then have ok: "\<not> l" "\<not> sr_workErr s" "c" "sr_sizes s = [] \<longrightarrow> b"
      and x: "x = (NewFullFrameTable (cfg_CompressionType (se_cfg E)) (sr_sizes s), se_sha E (sr_hash s))"
      and up: "sr_uploaded (finish_stream E l b c s) = (if sr_sizes s = [] then sr_uploaded s @ [(1, [])] else sr_uploaded s)"
      using MReturned by (auto simp: finish_stream_def Let_def split: if_split_asm)
    have inv: "data_inv input s" "flow_inv s" "nonempty_inv s" "upload_inv E start s" using assms(1) by (simp_all add: stream_inv_def)
    have h: "sr_handled s = sr_sent s" using inv(2) assms(2) ok(1) by (auto simp: flow_inv_def queue_inv_def)
    obtain r' where r': "sr_reader s = RDone r'" using assms(3) by (cases "sr_reader s") (auto simp: reader_done_def)
    then have "r'" using inv(2) ok(2) by (cases r') (auto simp: flow_inv_def)
    then have rd: "sr_reader s = RDone True" using r' by simp
    have hf: "handled s = frames s"
    proof (cases "length (sr_parts s) = sr_sent s")
      case True
      then show ?thesis by (simp add: handled_def frames_def h)
    next
      case False
      then have len: "length (sr_parts s) = Suc (sr_sent s)" "pt_frames (last (sr_parts s)) = []"
        using inv(2) rd by (auto simp: flow_inv_def)
      then have ne: "sr_parts s \<noteq> []" by auto
      from len have "take (sr_sent s) (sr_parts s) = butlast (sr_parts s)" by (simp add: butlast_conv_take)
      then show ?thesis using butlast_last_concat [OF ne, of pt_frames] len(2) by (simp add: handled_def frames_def h)
    qed
    have data: "concat (map fr_data (handled s)) = input" "sr_hash s = input"
      using inv(1) rd hf by (auto simp: data_inv_def)
    have len: "sr_handled s \<le> length (sr_parts s)" using inv(2) h by (auto simp: flow_inv_def)
    have none: "handled s = [] \<longleftrightarrow> sr_handled s = 0"
    proof
      assume n: "handled s = []"
      show "sr_handled s = 0"
      proof (rule ccontr)
        assume "sr_handled s \<noteq> 0"
        then have "0 < sr_handled s" by simp
        with less_le_trans [OF this len] have z: "0 < sr_handled s" "0 < length (sr_parts s)" by blast+
        have "pt_frames (sr_parts s ! 0) \<noteq> []" using inv(3) z h by (simp add: nonempty_inv_def all_set_conv_all_nth)
        then show False using part_size_pos [OF z] n by simp
      qed
    qed (simp add: handled_def)
    have sz: "sr_sizes s = map frame_size (handled s)" using inv(4) by (simp add: upload_inv_def)
    have m: "mset (sr_uploaded s) = mset (launched s)" using inv(4) ok(2) assms(2,4) by (simp add: upload_inv_def)
    let ?s' = "finish_stream E l b c s"
    have st: "handled ?s' = handled s" "launched ?s' = launched s" "sr_handled ?s' = sr_handled s"
      by (rule launched_stable; simp)+ simp
    have "sr_handled s = 0 \<Longrightarrow> launched s = []" by (simp add: launched_def)
    then have u: "mset (sr_uploaded ?s') = (if sr_handled ?s' = 0 then {#(1, [])#} else mset (launched ?s'))"
      using m none sz by (simp only: up st) (cases "sr_handled s = 0"; simp)
    show ?thesis unfolding result_inv_def st u MReturned Some x using data sz by simp
  qed
qed (simp_all add: result_inv_def)

lemma result_step:
  assumes "stream_step E a s = Some s'" "stream_inv E input start s" "result_inv E input start s"
  shows "result_inv E input start s'"
proof (cases "\<exists>b c. a = AWork b c")
  case True
  then obtain b c l where w: "sr_main s = MWork l" "reader_done s" "sr_uploads s = []" "s' = finish_stream E l b c s"
    using assms(1) by (auto split: main_pc.split_asm if_split_asm)
  then show ?thesis using result_of_finish [OF assms(2)] by simp
next
  case False
  show ?thesis
  proof (cases "\<exists>r. sr_main s = MReturned r")
    case True
    then obtain r where r: "sr_main s = MReturned r" ..
    then have "a \<noteq> APart" using assms(1) by auto
    moreover have "\<forall>k ok. a \<noteq> AUpload k ok"
      using assms(1,2) r by (auto simp: stream_inv_def flow_inv_def queue_inv_def split: if_split_asm)
    ultimately have o: "sr_handled s' = sr_handled s" "sr_uploaded s' = sr_uploaded s" "sr_main s' = sr_main s"
      using other_steps [OF assms(1)] False r by simp_all
    have "take (sr_handled s) (sr_parts s') = take (sr_handled s) (sr_parts s)"
      using assms(2) by (intro parts_stable [OF assms(1)]) (auto simp: stream_inv_def upload_inv_def data_inv_def)
    then show ?thesis using assms(3) o launched_stable [of s s'] by (simp add: result_inv_def)
  next
    case False
    have "returned s' \<longrightarrow> returned s" if "\<forall>b c. a \<noteq> AWork b c"
      using that assms(1) other_steps [OF assms(1) _ _ that] 
      by (cases a) (auto simp: returned_def Let_def split: main_pc.split_asm if_split_asm prod.split_asm)
    then show ?thesis using False \<open>\<not> (\<exists>b c. a = AWork b c)\<close>
      by (auto simp: result_inv_def returned_def split: main_pc.split_asm)
  qed
qed

lemma stream_run_inv:
  assumes "stream_run E as s = Some s'" "stream_inv E input start s" "result_inv E input start s" "0 < cfg_FrameSize (se_cfg E)"
  shows "stream_inv E input start s' \<and> result_inv E input start s'"
  using assms
proof (induction as arbitrary: s)
  case (Cons a as)
  then obtain s1 where "stream_step E a s = Some s1" "stream_run E as s1 = Some s'" by (auto split: option.split_asm)
  with Cons stream_inv_step result_step show ?case by metis
qed simp

section \<open>The end of a stream\<close>

text \<open>Every step makes this smaller.\<close>

fun reader_left :: "reader_pc \<Rightarrow> nat" where
  "reader_left RStart = 11"
| "reader_left RRead = 10"
| "reader_left (RAdd d e) = (if e then 9 else 24)"
| "reader_left (RTest e) = (if e then 7 else 22)"
| "reader_left (RSend e) = (if e then 6 else 21)"
| "reader_left (RDone ok) = 0"

fun main_left :: "main_pc \<Rightarrow> nat" where
  "main_left MReceive = 3"
| "main_left (MPart i) = 5"
| "main_left MDrain = 3"
| "main_left (MWork b) = 2"
| "main_left (MReturned r) = 0"

definition active :: "'u stream \<Rightarrow> nat" where
  "active s = sum_list (map running_frames (sr_parts s))"

definition left :: "'u stream \<Rightarrow> nat" where
  "left s = 20 * length (sr_in s) + reader_left (sr_reader s) + active s + 3 * length (sr_queue s) + main_left (sr_main s) +
     length (sr_uploads s) + (if sr_cancelled s then 0 else 1)"

lemma running_frame_ends:
  assumes "j < length (pt_frames p)" "\<not> fr_done (pt_frames p ! j)"
  shows "running_frames (frame_ends c j k p) < running_frames p"
proof -
  have *: "length (filter P (xs[j := x])) < length (filter P xs)" if "j < length xs" "P (xs ! j)" "\<not> P x" for P xs and x :: cframe
    using that by (induction xs arbitrary: j) (auto split: nat.split)
  show ?thesis unfolding running_frames_def frame_ends_def Let_def using assms by (auto split: option.split intro!: *)
qed

lemma sum_list_update_less: "i < length xs \<Longrightarrow> (x :: nat) < xs ! i \<Longrightarrow> sum_list (xs[i := x]) < sum_list xs"
  by (induction xs arbitrary: i) (auto split: nat.split)

lemma running_addFrame: "xs \<noteq> [] \<Longrightarrow> sum_list (map running_frames (butlast xs @ [addFrame d (last xs)])) = Suc (sum_list (map running_frames xs))"
  by (induction xs) (auto simp: running_frames_def addFrame_def)

lemma left_decreases:
  assumes "stream_step E a s = Some s'" "sr_parts s \<noteq> []" "0 < cfg_FrameSize (se_cfg E)"
  shows "left s' < left s"
proof (cases a)
  case ACancel
  then show ?thesis using assms by (auto simp: left_def active_def split: if_split_asm)
next
  case (AStart optionsOk)
  then have "sr_reader s = RStart" using assms(1) by (auto split: if_split_asm)
  then show ?thesis using assms AStart
    by (cases "optionsOk \<and> newCompressorPool_ok (se_cfg E)") (auto simp: left_def active_def reader_fails_def)
next
  case (ARead err)
  then have r: "sr_reader s = RRead" "s' = read_frame E err s" using assms(1) by (auto split: if_split_asm)
  let ?n = "nat (cfg_FrameSize (se_cfg E))"
  show ?thesis using r assms(3)
    by (cases rule: read_frame_cases [of E err s]) (auto simp: left_def active_def reader_fails_def)
next
  case AAdd
  then obtain d e where r: "sr_reader s = RAdd d e" using assms(1) by (auto split: reader_pc.split_asm)
  then show ?thesis using assms AAdd running_addFrame [OF assms(2), of d] by (auto simp: left_def active_def split: if_split_asm)
next
  case ATest
  then obtain e where r: "sr_reader s = RTest e" using assms(1) by (auto split: reader_pc.split_asm)
  then show ?thesis using assms ATest by (auto simp: left_def active_def test_part_def split: if_splits)
next
  case (ASend sent)
  then obtain e where r: "sr_reader s = RSend e" using assms(1) by (auto split: reader_pc.split_asm)
  then show ?thesis using assms ASend
    by (auto simp: left_def active_def send_part_def reader_fails_def running_frames_def Let_def split: if_split_asm)
next
  case (AFrame i j k)
  then have s': "i < length (sr_parts s)" "j < length (pt_frames (sr_parts s ! i))" "\<not> fr_done (pt_frames (sr_parts s ! i) ! j)"
    "s' = s\<lparr>sr_parts := (sr_parts s)[i := frame_ends (se_compress E) j k (sr_parts s ! i)]\<rparr>"
    using assms(1) by (auto split: if_split_asm)
  have "active s' < active s" using running_frame_ends [OF s'(2,3)] s'(1)
    by (simp add: active_def s'(4) map_update sum_list_update_less)
  then show ?thesis by (simp add: left_def s'(4))
next
  case AReceive
  then show ?thesis using assms(1) by (auto simp: left_def active_def split: main_pc.split_asm list.split_asm if_split_asm)
next
  case APart
  then show ?thesis using assms(1) by (auto simp: left_def active_def split: main_pc.split_asm if_split_asm)
next
  case (AUpload k ok)
  then have "k < length (sr_uploads s)" using assms(1) by (auto split: if_split_asm)
  then have "length (remove_nth k (sr_uploads s)) < length (sr_uploads s)" by (simp add: remove_nth_def)
  then show ?thesis using assms(1) AUpload by (auto simp: left_def active_def Let_def split: if_split_asm prod.split_asm)
next
  case (AWork b c)
  then obtain l where w: "sr_main s = MWork l" "s' = finish_stream E l b c s"
    using assms(1) by (auto split: main_pc.split_asm if_split_asm)
  obtain r where "sr_main s' = MReturned r" using finish_stream_main w(2) by blast
  then show ?thesis by (simp add: left_def active_def w)
qed

text \<open>No deadlock: as long as the stream has not returned, a goroutine can move.\<close>

definition can_move :: "'u stream_env \<Rightarrow> 'u stream \<Rightarrow> bool" where
  "can_move E s \<longleftrightarrow> (\<exists>a s'. a \<noteq> ACancel \<and> stream_step E a s = Some s')"

lemma frame_can_end:
  assumes "p \<in> set (sr_parts s)" "0 < running_frames p"
  shows "can_move E s"
proof -
  obtain i where i: "i < length (sr_parts s)" "sr_parts s ! i = p" using assms(1) by (auto simp: in_set_conv_nth)
  have "filter (\<lambda>f. \<not> fr_done f) (pt_frames p) \<noteq> []" using assms(2) by (auto simp: running_frames_def)
  then obtain f where "f \<in> set (pt_frames p)" "\<not> fr_done f" by (auto simp: filter_empty_conv)
  then obtain j where "j < length (pt_frames p)" "\<not> fr_done (pt_frames p ! j)" by (auto simp: in_set_conv_nth)
  then have "stream_step E (AFrame i j (Some 0)) s \<noteq> None" using i by simp
  then show ?thesis unfolding can_move_def by blast
qed

lemma reader_can_move:
  assumes "\<not> reader_done s" "sr_parts s \<noteq> []" "sr_queue s = []"
  shows "can_move E s"
proof (cases "sr_reader s")
  case RStart
  then show ?thesis unfolding can_move_def by (intro exI [of _ "AStart True"]) simp
next
  case RRead
  then show ?thesis unfolding can_move_def by (intro exI [of _ "ARead False"]) simp
next
  case (RAdd d e)
  show ?thesis
  proof (cases "d = [] \<or> int (running_frames (last (sr_parts s))) < stream_workers E")
    case True
    then show ?thesis unfolding can_move_def using RAdd by (intro exI [of _ AAdd]) auto
  next
    case False
    then have "0 < running_frames (last (sr_parts s))" by (auto simp: stream_workers_def max_def split: if_split_asm)
    then show ?thesis using assms(2) by (intro frame_can_end [of "last (sr_parts s)"]) simp_all
  qed
next
  case (RTest e)
  then show ?thesis unfolding can_move_def by (intro exI [of _ ATest]) simp
next
  case (RSend e)
  then show ?thesis unfolding can_move_def using assms(3) by (intro exI [of _ "ASend True"]) simp
next
  case (RDone ok)
  then show ?thesis using assms(1) by (simp add: reader_done_def)
qed

lemma no_deadlock:
  assumes "stream_inv E input start s" "\<And>r. sr_main s \<noteq> MReturned r"
  shows "can_move E s"
proof -
  have inv: "flow_inv s" "sr_parts s \<noteq> []" using assms(1) by (auto simp: stream_inv_def data_inv_def)
  have upload: "can_move E s" if "sr_uploads s \<noteq> []"
    unfolding can_move_def using that by (intro exI [of _ "AUpload 0 True"]) (simp add: Let_def split: prod.split)
  have receive: "can_move E s" if "sr_main s = MReceive \<or> sr_main s = MDrain"
  proof (cases "sr_queue s = [] \<and> \<not> reader_done s")
    case True
    then show ?thesis using reader_can_move inv(2) by blast
  next
    case False
    then show ?thesis unfolding can_move_def using that
      by (intro exI [of _ AReceive]) (auto split: list.split)
  qed
  show ?thesis
  proof (cases "sr_main s")
    case (MPart i)
    have i: "i < length (sr_parts s)" using inv(1) MPart by (auto simp: flow_inv_def queue_inv_def)
    show ?thesis
    proof (cases "running_frames (sr_parts s ! i) > 0")
      case True
      then show ?thesis using i by (intro frame_can_end [of "sr_parts s ! i"]) simp_all
    next
      case False
      show ?thesis
      proof (cases "pt_err (sr_parts s ! i) \<or> int (length (sr_uploads s)) + (if reader_done s then 0 else 1) < max_uploads E + 1")
        case True
        then show ?thesis unfolding can_move_def using MPart False by (intro exI [of _ APart]) auto
      next
        case False
        then have "sr_uploads s \<noteq> []" by (auto simp: max_uploads_def split: if_split_asm)
        then show ?thesis by (rule upload)
      qed
    qed
  next
    case (MWork b)
    show ?thesis
    proof (cases "sr_uploads s = []")
      case True
      then show ?thesis unfolding can_move_def using MWork inv(1)
        by (intro exI [of _ "AWork True True"]) (simp add: flow_inv_def queue_inv_def reader_done_def)
    qed (rule upload)
  qed (use receive assms(2) in auto)
qed

lemma run_left:
  assumes "stream_run E as s = Some s'" "stream_inv E input start s" "0 < cfg_FrameSize (se_cfg E)"
  shows "length as + left s' \<le> left s"
  using assms
proof (induction as arbitrary: s)
  case (Cons a as)
  then obtain s1 where s1: "stream_step E a s = Some s1" "stream_run E as s1 = Some s'" by (auto split: option.split_asm)
  have "left s1 < left s" using Cons.prems(2,3) s1(1) by (intro left_decreases) (auto simp: stream_inv_def data_inv_def)
  moreover have "stream_inv E input start s1" using s1(1) Cons.prems(2,3) by (rule stream_inv_step)
  ultimately show ?case using Cons.IH [OF s1(2) _ Cons.prems(3)] by fastforce
qed simp

section \<open>Reading back\<close>

text \<open>The codec: what an encoder makes of some bytes is decoded to them, is not empty, and expands them by a bounded amount.\<close>

definition frame_codec_law :: "(nat \<Rightarrow> bytes \<Rightarrow> bytes option) \<Rightarrow> (bytes \<Rightarrow> bytes option) \<Rightarrow> bool" where
  "frame_codec_law compress decompress \<longleftrightarrow> (\<forall>k x y. compress k x = Some y \<longrightarrow>
     decompress y = Some x \<and> y \<noteq> [] \<and> length y \<le> 2 * length x + 64)"

text \<open>A compressed read of the file system store (storage_fs.go): the range of the frame that starts at the offset is read and
  decompressed.\<close>

definition read_compressed :: "(bytes \<Rightarrow> bytes option) \<Rightarrow> bytes \<Rightarrow> FrameTable \<Rightarrow> int \<Rightarrow> bytes result" where
  "read_compressed decompress obj ft off =
     bindR (LocateCompressed (Some ft) off) (\<lambda>r.
       case decompress (take (nat (srLength r)) (drop (nat (srOffset r)) obj)) of
         None \<Rightarrow> Inl (Err ''decompress'') | Some data \<Rightarrow> Inr data)"

definition frame_fits :: "(bytes \<Rightarrow> bytes option) \<Rightarrow> cframe \<Rightarrow> bool" where
  "frame_fits decompress f \<longleftrightarrow> decompress (compressed f) = Some (fr_data f) \<and> fr_data f \<noteq> [] \<and> compressed f \<noteq> [] \<and>
     length (fr_data f) \<le> 2 ^ 29 \<and> length (compressed f) \<le> 2 * length (fr_data f) + 64"

lemma frame_fits_out:
  assumes "frame_codec_law (se_compress E) decompress" "frame_inv E b f" "fr_out f \<noteq> None" "cfg_FrameSize (se_cfg E) \<le> 2 ^ 29"
  shows "frame_fits decompress f"
proof -
  have "length (fr_data f) \<le> nat (cfg_FrameSize (se_cfg E))" using assms(2) by (simp add: frame_inv_def)
  also have "\<dots> \<le> 2 ^ 29" using assms(4) by simp
  finally show ?thesis using assms(1-3) by (auto simp: frame_fits_def frame_inv_def frame_codec_law_def compressed_def split: option.splits)
qed

lemma frame_size_fits:
  assumes "frame_fits decompress f"
  shows "frame_size f = \<lparr>fsU = int (length (fr_data f)), fsC = int (length (compressed f))\<rparr>"
    "0 < length (fr_data f)" "0 < length (compressed f)" "length (compressed f) \<le> 66 * length (fr_data f)"
    "int (length (fr_data f)) < 2147483648" "int (length (compressed f)) < 2147483648"
proof -
  have n: "0 < length (fr_data f)" "0 < length (compressed f)" "length (fr_data f) \<le> 536870912"
    "length (compressed f) \<le> 2 * length (fr_data f) + 64"
    using assms by (simp_all add: frame_fits_def)
  then show "0 < length (fr_data f)" "0 < length (compressed f)" "length (compressed f) \<le> 66 * length (fr_data f)"
    and b: "int (length (fr_data f)) < 2147483648" "int (length (compressed f)) < 2147483648" by linarith+
  then show "frame_size f = \<lparr>fsU = int (length (fr_data f)), fsC = int (length (compressed f))\<rparr>"
    by (simp add: frame_size_def i32_id)
qed

lemma sizes_ok_frames:
  assumes "\<forall>f \<in> set fs. frame_fits decompress f" "0 \<le> u" "0 \<le> c"
    and "u + int (length (concat (map fr_data fs))) \<le> max_i64" "c + 66 * int (length (concat (map fr_data fs))) \<le> max_i64"
  shows "sizes_ok u c (map frame_size fs)"
  using assms
proof (induction fs arbitrary: u c)
  case Nil
  then show ?case by simp
next
  case (Cons f fs)
  note f = frame_size_fits [of decompress f]
  have "frame_fits decompress f" using Cons.prems(1) by simp
  note f = f [OF this]
  have "int (length (compressed f)) \<le> 66 * int (length (fr_data f))" using f(4) by linarith
  then have "sizes_ok (u + int (length (fr_data f))) (c + int (length (compressed f))) (map frame_size fs)"
    using Cons.prems by (intro Cons.IH) (simp_all add: algebra_simps)
  then show ?case using f Cons.prems(2,3) by simp
qed

lemma newFull_frames:
  assumes "sizes_ok u c (map frame_size fs)" "\<forall>f \<in> set fs. frame_fits decompress f" "e \<in> set (newFull_loop u c (map frame_size fs))"
  shows "\<exists>pre f post. fs = pre @ f # post \<and> StartU e = u + int (length (concat (map fr_data pre))) \<and>
    StartC e = c + int (length (concat (map compressed pre))) \<and> SizeU e = int (length (fr_data f)) \<and> SizeC e = int (length (compressed f))"
  using assms
proof (induction fs arbitrary: u c)
  case Nil
  then show ?case by simp
next
  case (Cons f fs)
  have "frame_fits decompress f" using Cons.prems(2) by simp
  note sz = frame_size_fits(1) [OF this]
  have s: "sizes_ok (u + int (length (fr_data f))) (c + int (length (compressed f))) (map frame_size fs)"
    using Cons.prems(1) sz by simp
  have wrap: "i64 (u + int (length (fr_data f))) = u + int (length (fr_data f))"
    "i64 (c + int (length (compressed f))) = c + int (length (compressed f))"
    using sizes_ok_le [OF s] by (intro i64_id; linarith)+
  show ?case
  proof (cases "e = \<lparr>StartU = u, StartC = c, SizeU = fsU (frame_size f), SizeC = fsC (frame_size f)\<rparr>")
    case True
    then show ?thesis using sz by (intro exI [of _ "[]"] exI [of _ f] exI [of _ fs]) simp
  next
    case False
    then have "e \<in> set (newFull_loop (u + int (length (fr_data f))) (c + int (length (compressed f))) (map frame_size fs))"
      using Cons.prems(3) wrap sz by simp
    from Cons.IH [OF s _ this] Cons.prems(2) obtain pre g post where "fs = pre @ g # post \<and>
        StartU e = u + int (length (fr_data f)) + int (length (concat (map fr_data pre))) \<and>
        StartC e = c + int (length (compressed f)) + int (length (concat (map compressed pre))) \<and>
        SizeU e = int (length (fr_data g)) \<and> SizeC e = int (length (compressed g))" by auto
    then show ?thesis by (intro exI [of _ "f # pre"] exI [of _ g] exI [of _ post]) simp
  qed
qed

lemma take_drop_concat:
  "take (length (g f)) (drop (length (concat (map g pre))) (concat (map g (pre @ f # post)))) = g f"
  by simp

lemma sum_frame_sizes:
  "\<forall>f \<in> set fs. frame_fits decompress f \<Longrightarrow> sum_list (map fsU (map frame_size fs)) = int (length (concat (map fr_data fs)))"
  by (induction fs) (auto dest: frame_size_fits(1))

lemma concat_parts: "concat (map (\<lambda>p. concat (map g (pt_frames p))) ps) = concat (map g (concat (map pt_frames ps)))"
  by (induction ps) simp_all

text \<open>Frames, laid out one after the other, are found and read.\<close>

lemma read_frames:
  fixes ct :: CompressionType
  assumes fits: "\<forall>f \<in> set fs. frame_fits decompress f" and size: "length (concat (map fr_data fs)) \<le> 2 ^ 56"
    and off: "0 \<le> off" "off < int (length (concat (map fr_data fs)))"
  defines "ft \<equiv> NewFullFrameTable ct (map frame_size fs)"
  shows "\<exists>r. LocateUncompressed (Some ft) off = Inr r \<and> srOffset r \<le> off \<and> off < srOffset r + srLength r \<and>
    read_compressed decompress (concat (map compressed fs)) ft (srOffset r) =
      Inr (take (nat (srLength r)) (drop (nat (srOffset r)) (concat (map fr_data fs))))"
proof -
  let ?es = "newFull_loop 0 0 (map frame_size fs)"
  have "int (length (concat (map fr_data fs))) \<le> 72057594037927936" using size by simp
  then have ok: "sizes_ok 0 0 (map frame_size fs)" by (intro sizes_ok_frames [OF fits]) simp_all
  note sum = sum_frame_sizes [OF fits]
  note table = newFull_loop_ok [OF ok]
  obtain e where e: "e \<in> set ?es" "covers_offset e off" using table off unfolding sum by auto
  from newFull_frames [OF ok fits e(1)] obtain pre f post where p: "fs = pre @ f # post"
    "StartU e = int (length (concat (map fr_data pre)))" "StartC e = int (length (concat (map compressed pre)))"
    "SizeU e = int (length (fr_data f))" "SizeC e = int (length (compressed f))" unfolding add_0 by blast
  have loc: "locate (Some ft) x = Inr e" if "covers_offset e x" for x
    using locate_iff [of ft x e] table e(1) that by (simp add: ft_def NewFullFrameTable_def)
  have "fr_data f \<noteq> []" "decompress (compressed f) = Some (fr_data f)" using fits p(1) by (simp_all add: frame_fits_def)
  then have start: "locate (Some ft) (StartU e) = Inr e" using p(4) by (intro loc) simp
  have "read_compressed decompress (concat (map compressed fs)) ft (StartU e) = Inr (fr_data f)"
    using start \<open>decompress (compressed f) = _\<close> p(3,5) take_drop_concat [of compressed f pre post]
    by (simp add: read_compressed_def LocateCompressed_def p(1))
  moreover have "take (nat (SizeU e)) (drop (nat (StartU e)) (concat (map fr_data fs))) = fr_data f"
    using p(2,4) take_drop_concat [of fr_data f pre post] by (simp add: p(1))
  ultimately show ?thesis using loc [OF e(2)] e(2) by (simp add: LocateUncompressed_def)
qed

text \<open>The assembled object holds the compressed frames in order.\<close>

lemma result_object:
  assumes "part_uploader (se_put E) start assemble" "upload_inv E start s" "result_inv E input start s"
    and "sr_main s = MReturned (Some (ft, h))" "sr_handled s \<le> length (sr_parts s)"
  shows "assemble (sr_up s) = concat (map compressed (handled s))"
proof -
  have up: "sr_up s = fold (\<lambda>(i, data). se_put E i data) (sr_uploaded s) start" using assms(2) by (simp add: upload_inv_def)
  have m: "mset (sr_uploaded s) = (if sr_handled s = 0 then {#(1, [])#} else mset (launched s))"
    using assms(3,4) by (simp add: result_inv_def)
  show ?thesis
  proof (cases "sr_handled s = 0")
    case True
    have "mset (sr_uploaded s) = mset (map (\<lambda>i. (i + 1, [])) [0..<1])" using m True by simp
    from part_uploader.assembled_perm [OF assms(1) this] show ?thesis using up True by (simp add: handled_def)
  next
    case False
    let ?out = "\<lambda>i. concat (map compressed (pt_frames (sr_parts s ! i)))"
    have "mset (sr_uploaded s) = mset (map (\<lambda>i. (i + 1, ?out i)) [0..<sr_handled s])"
      using m False by (simp add: launched_def upload_part_def)
    from part_uploader.assembled_perm [OF assms(1) this]
    have "assemble (sr_up s) = concat (map ?out [0..<sr_handled s])" using up by simp
    also have "map ?out [0..<sr_handled s] = map (\<lambda>p. concat (map compressed (pt_frames p))) (take (sr_handled s) (sr_parts s))"
      using assms(5) by (intro nth_equalityI) simp_all
    also have "concat \<dots> = concat (map compressed (handled s))"
      by (simp only: handled_def concat_parts)
    finally show ?thesis .
  qed
qed

section \<open>Parts\<close>

text \<open>The parts that are sent before the end of the input have reached the smallest part size.\<close>

definition large_inv :: "'u stream_env \<Rightarrow> 'u stream \<Rightarrow> bool" where
  "large_inv E s \<longleftrightarrow> (\<forall>i < sr_sent s. Suc i < length (sr_parts s) \<longrightarrow> cfg_MinPartSize (se_cfg E) \<le> out_size (pt_frames (sr_parts s ! i))) \<and>
     (sr_reader s = RSend False \<longrightarrow> cfg_MinPartSize (se_cfg E) \<le> out_size (pt_frames (last (sr_parts s))))"

lemma out_size_nonneg: "0 \<le> out_size fs"
  unfolding out_size_def by (induction fs) auto

lemma out_size_bound:
  assumes "frame_codec_law (se_compress E) decompress" "\<forall>f \<in> set fs. frame_inv E b f"
  shows "out_size fs \<le> 66 * int (length (concat (map fr_data fs)))"
  using assms(2)
proof (induction fs)
  case Nil
  then show ?case by (simp add: out_size_def)
next
  case (Cons f fs)
  have "length (compressed f) \<le> 66 * length (fr_data f)"
    using Cons.prems assms(1) by (cases "fr_data f") (fastforce simp: frame_inv_def frame_codec_law_def compressed_def split: option.splits)+
  then have "int (length (compressed f)) \<le> 66 * int (length (fr_data f))" by linarith
  then show ?case using Cons by (simp add: out_size_def)
qed

lemma part_size_exact:
  assumes "frame_codec_law (se_compress E) decompress" "stream_inv E input start s" "length input \<le> 2 ^ 56" "p \<in> set (sr_parts s)"
  shows "pt_size p = out_size (pt_frames p)"
proof -
  have p: "\<forall>f \<in> set (pt_frames p). frame_inv E (pt_err p) f" "pt_size p = i64 (out_size (pt_frames p))"
    using assms(2,4) by (auto simp: stream_inv_def parts_inv_def part_inv_def)
  obtain xs ys where "sr_parts s = xs @ p # ys" using assms(4) by (auto simp: in_set_conv_decomp)
  then have "length (concat (map fr_data (pt_frames p))) \<le> length (concat (map fr_data (frames s)))" by (simp add: frames_def)
  also have "input = concat (map fr_data (frames s)) @ pend (sr_reader s) @ sr_in s"
    using assms(2) by (auto simp: stream_inv_def data_inv_def)
  then have "length (concat (map fr_data (frames s))) \<le> length input" by simp
  finally have "int (length (concat (map fr_data (pt_frames p)))) \<le> 72057594037927936" using assms(3) by simp
  then have "out_size (pt_frames p) \<le> max_i64" using out_size_bound [OF assms(1) p(1)] by linarith
  then show ?thesis using p(2) out_size_nonneg [of "pt_frames p"] by (simp add: i64_id)
qed

lemma out_size_grows:
  "part_inv E p \<Longrightarrow> j < length (pt_frames p) \<Longrightarrow> \<not> fr_done (pt_frames p ! j) \<Longrightarrow>
   out_size (pt_frames p) \<le> out_size (pt_frames (frame_ends c j k p))"
proof -
  assume a: "part_inv E p" "j < length (pt_frames p)" "\<not> fr_done (pt_frames p ! j)"
  then have "frame_inv E (pt_err p) (pt_frames p ! j)" by (simp add: part_inv_def)
  then have "fr_out (pt_frames p ! j) = None" using a(3) by (auto simp: frame_inv_def split: option.splits)
  then show ?thesis using a(2) by (simp add: frame_ends_def Let_def out_size_update compressed_def split: option.split)
qed

lemma large_init: "large_inv E (new_stream input start)"
  by (simp add: large_inv_def new_stream_def)

lemma large_step:
  assumes "stream_step E a s = Some s'" "large_inv E s" "stream_inv E input start s"
    and "frame_codec_law (se_compress E) decompress" "length input \<le> 2 ^ 56"
  shows "large_inv E s'"
proof -
  have inv: "flow_inv s" "parts_inv E s" "sr_parts s \<noteq> []" using assms(3) by (auto simp: stream_inv_def data_inv_def)
  show ?thesis
  proof (cases a)
    case (AStart optionsOk)
    then show ?thesis using assms(1,2) by (auto simp: large_inv_def reader_fails_def split: if_split_asm)
  next
    case (ARead err)
    then have "s' = read_frame E err s" using assms(1) by (auto split: if_split_asm)
    then show ?thesis using assms(2) by (cases rule: read_frame_cases [of E err s]) (auto simp: large_inv_def reader_fails_def)
  next
    case AAdd
    then obtain d e where r: "sr_reader s = RAdd d e" using assms(1) by (auto split: reader_pc.split_asm)
    then have "length (sr_parts s) = Suc (sr_sent s)" using inv(1) by (auto simp: flow_inv_def)
    then show ?thesis using assms(1,2) r AAdd inv(3) by (auto simp: large_inv_def nth_append nth_butlast split: if_split_asm)
  next
    case ATest
    then obtain e where r: "sr_reader s = RTest e" using assms(1) by (auto split: reader_pc.split_asm)
    have "pt_size (last (sr_parts s)) = out_size (pt_frames (last (sr_parts s)))"
      using part_size_exact [OF assms(4,3,5)] inv(3) by simp
    then show ?thesis using assms(1,2) r ATest by (auto simp: large_inv_def test_part_def split: if_splits)
  next
    case (ASend sent)
    then obtain e where r: "sr_reader s = RSend e" using assms(1) by (auto split: reader_pc.split_asm)
    then have len: "length (sr_parts s) = Suc (sr_sent s)" using inv(1) by (auto simp: flow_inv_def)
    then have "last (sr_parts s) = sr_parts s ! sr_sent s" using inv(3) by (simp add: last_conv_nth)
    then show ?thesis using assms(1,2) r ASend len
      by (auto simp: large_inv_def send_part_def reader_fails_def nth_append less_Suc_eq Let_def split: if_split_asm)
  next
    case (AFrame i j k)
    then have s': "i < length (sr_parts s)" "j < length (pt_frames (sr_parts s ! i))" "\<not> fr_done (pt_frames (sr_parts s ! i) ! j)"
      "s' = s\<lparr>sr_parts := (sr_parts s)[i := frame_ends (se_compress E) j k (sr_parts s ! i)]\<rparr>"
      using assms(1) by (auto split: if_split_asm)
    have "part_inv E (sr_parts s ! i)" using inv(2) s'(1) by (simp add: parts_inv_def)
    note g = out_size_grows [OF this s'(2,3), of "se_compress E" k]
    have grows: "out_size (pt_frames (sr_parts s ! m)) \<le> out_size (pt_frames (sr_parts s' ! m))" if "m < length (sr_parts s)" for m
      using g that by (cases "m = i") (simp_all add: s'(4))
    have "out_size (pt_frames (last (sr_parts s))) \<le> out_size (pt_frames (last (sr_parts s')))"
      using grows [of "length (sr_parts s) - 1"] inv(3) s'(4) by (simp add: last_conv_nth)
    moreover have "cfg_MinPartSize (se_cfg E) \<le> out_size (pt_frames (sr_parts s' ! m))" if "m < sr_sent s" "Suc m < length (sr_parts s)" for m
      using assms(2) that grows [of m] unfolding large_inv_def by force
    ultimately show ?thesis using assms(2) unfolding large_inv_def by (auto simp: s'(4))
  next
    case AReceive
    then show ?thesis using assms(1,2) by (auto simp: large_inv_def split: main_pc.split_asm list.split_asm if_split_asm)
  next
    case APart
    then show ?thesis using assms(1,2) by (auto simp: large_inv_def split: main_pc.split_asm if_split_asm)
  next
    case (AUpload k ok)
    then show ?thesis using assms(1,2) by (auto simp: large_inv_def Let_def split: if_split_asm prod.split_asm)
  qed (use assms(1,2) in \<open>auto simp: large_inv_def split: main_pc.split_asm if_split_asm\<close>)
qed

lemma large_run:
  assumes "stream_run E as s = Some s'" "large_inv E s" "stream_inv E input start s" "0 < cfg_FrameSize (se_cfg E)"
    and "frame_codec_law (se_compress E) decompress" "length input \<le> 2 ^ 56"
  shows "large_inv E s'"
  using assms
proof (induction as arbitrary: s)
  case (Cons a as)
  then obtain s1 where "stream_step E a s = Some s1" "stream_run E as s1 = Some s'" by (auto split: option.split_asm)
  with Cons stream_inv_step large_step show ?case by metis
qed simp

lemma sum_lower: "(\<And>i. i < n \<Longrightarrow> M \<le> f i) \<Longrightarrow> int n * M \<le> sum_list (map f [0..<n])"
  for f :: "nat \<Rightarrow> int"
proof (induction n)
  case (Suc n)
  have "int n * M \<le> sum_list (map f [0..<n])" using Suc by simp
  then show ?case using Suc.prems [of n] by (simp add: algebra_simps)
qed simp

lemma int_sum_list: "int (sum_list (map f xs)) = sum_list (map (\<lambda>x. int (f x)) xs)"
  by (induction xs) auto

lemma div_upper: "0 < d \<Longrightarrow> x < d * (x div d + 1)" for x d :: int
  using pos_mod_bound [of d x] mult_div_mod_eq [of d x] unfolding distrib_left by linarith

lemma clamped_part_size:
  fixes cfg :: CompressConfig
  assumes "0 \<le> fileSize" "fileSize \<le> 2 ^ 56"
  defines "M \<equiv> cfg_MinPartSize (clampCloudMinPartSize cfg fileSize)"
  shows "5 * 2 ^ 20 \<le> M" "fileSize < 9000 * M"
proof -
  let ?mb = "max (max (BytesToMB (cfg_MinPartSize cfg)) cloudMinPartSizeMB) (BytesToMB fileSize div cloudMaxParts + 1)"
  have i: "cfg_MinPartSize cfg \<le> 9223372036854775807"
    using i64_bounds [of "cf_MinPartSizeMB cfg * 2 ^ 20"] by (simp add: cfg_MinPartSize_def gcpMultipartUploadChunkSize_def)
  have b: "BytesToMB (cfg_MinPartSize cfg) \<le> 8796093022207" using i by (simp add: BytesToMB_def)
  have f: "BytesToMB fileSize div cloudMaxParts + 1 \<le> 8796093022207"
    using assms(2) by (simp add: BytesToMB_def cloudMaxParts_def)
  have mb: "5 \<le> ?mb" "?mb \<le> 8796093022207" "fileSize div 1048576 div 9000 + 1 \<le> ?mb"
    using b f by (simp_all add: cloudMinPartSizeMB_def BytesToMB_def cloudMaxParts_def)
  have "cf_MinPartSizeMB (clampCloudMinPartSize cfg fileSize) = ?mb" by (simp add: clampCloudMinPartSize_def Let_def)
  moreover have "i64 (?mb * 1048576) = ?mb * 1048576" using mb by (intro i64_id) linarith+
  moreover have "cfg_MinPartSize c = i64 (cf_MinPartSizeMB c * 1048576)" if "0 < cf_MinPartSizeMB c" for c
    using that by (simp add: cfg_MinPartSize_def)
  ultimately have M: "M = ?mb * 1048576" using mb(1) unfolding M_def by (metis less_le_trans zero_less_numeral)
  show "5 * 2 ^ 20 \<le> M" using mb(1) by (simp add: M)
  obtain b where bd: "b = ?mb" by simp
  have "fileSize < 1048576 * (fileSize div 1048576 + 1)" "fileSize div 1048576 < 9000 * (fileSize div 1048576 div 9000 + 1)"
    by (rule div_upper; simp)+
  moreover have "9000 * (fileSize div 1048576 div 9000 + 1) \<le> 9000 * b" using mb(3) unfolding bd by (rule mult_left_mono) simp
  ultimately have "fileSize < 1048576 * (9000 * b)" by linarith
  then show "fileSize < 9000 * M" unfolding M bd by simp
qed

lemma launched_sizes:
  assumes "i < sr_handled s"
  shows "int (length (snd (launched s ! i))) = out_size (pt_frames (sr_parts s ! i))"
proof -
  have "int (length (concat (map compressed fs))) = out_size fs" for fs by (induction fs) (simp_all add: out_size_def)
  then show ?thesis using assms by (simp add: launched_def upload_part_def)
qed

lemma uploaded_total:
  assumes "mset (sr_uploaded s) = mset (launched s)"
  shows "int (sum_list (map (length \<circ> snd) (sr_uploaded s))) = sum_list (map (\<lambda>i. out_size (pt_frames (sr_parts s ! i))) [0..<sr_handled s])"
proof -
  have "sum_list (map (length \<circ> snd) (sr_uploaded s)) = sum_list (map (length \<circ> snd) (launched s))"
    using assms by (metis mset_map sum_mset_sum_list)
  also have "int \<dots> = sum_list (map (\<lambda>x. int (length (snd x))) (launched s))" by (simp add: int_sum_list)
  also have "map (\<lambda>x. int (length (snd x))) (launched s) = map (\<lambda>i. out_size (pt_frames (sr_parts s ! i))) [0..<sr_handled s]"
    using launched_sizes [of _ s] by (intro nth_equalityI) (simp_all add: launched_def)
  finally show ?thesis .
qed

lemma part_count:
  fixes M L :: int
  assumes "\<And>i. Suc i < n \<Longrightarrow> M \<le> f i" "\<And>i. 0 \<le> f i" "9 * sum_list (map f [0..<n]) \<le> 10 * L" "L < 9000 * M" "5 * 2 ^ 20 \<le> M"
  shows "n \<le> 10000"
proof (cases n)
  case (Suc m)
  have "int m * M \<le> sum_list (map f [0..<m])" using assms(1) Suc by (intro sum_lower) simp
  then have "int m * M \<le> sum_list (map f [0..<n])" using assms(2) [of m] Suc by simp
  then have "int m * M < 10000 * M" using assms(3,4) by linarith
  then have "int m < 10000" using assms(5) by (simp add: mult_less_cancel_right)
  then show ?thesis using Suc by simp
qed simp

section \<open>Properties\<close>

text \<open>(C3) Compressed storage loses nothing: under every interleaving of the goroutines and every outcome of reads, codecs, uploads and
  cancellations, when a stream ends with a frame table, then each offset of the input lies in a frame of
  the table, and reading that frame from the stored object gives the bytes of the input; the checksum is that of the input.\<close>

theorem compressStream_lossless:
  assumes "frame_codec_law (se_compress E) decompress" "part_uploader (se_put E) start assemble"
    and "0 < cfg_FrameSize (se_cfg E)" "cfg_FrameSize (se_cfg E) \<le> 2 ^ 29" "length input \<le> 2 ^ 56"
    and "stream_run E as (new_stream input start) = Some s" "sr_main s = MReturned (Some (ft, h))"
  shows "h = se_sha E input \<and> (\<forall>off. 0 \<le> off \<and> off < int (length input) \<longrightarrow>
    (\<exists>r. LocateUncompressed (Some ft) off = Inr r \<and> srOffset r \<le> off \<and> off < srOffset r + srLength r \<and>
      read_compressed decompress (assemble (sr_up s)) ft (srOffset r) = Inr (take (nat (srLength r)) (drop (nat (srOffset r)) input))))"
proof -
  have init: "result_inv E input start (new_stream input start)" by (simp add: result_inv_def new_stream_def)
  have inv: "stream_inv E input start s" "result_inv E input start s"
    using stream_run_inv [OF assms(6) stream_inv_init init assms(3)] by simp_all
  have len: "sr_handled s \<le> length (sr_parts s)" using inv(1) by (auto simp: stream_inv_def flow_inv_def)
  have up: "upload_inv E start s" using inv(1) by (simp add: stream_inv_def)
  have r: "h = se_sha E input" "concat (map fr_data (handled s)) = input"
    "ft = NewFullFrameTable (cfg_CompressionType (se_cfg E)) (map frame_size (handled s))"
    using inv(2) assms(7) by (simp_all add: result_inv_def)
  have "frame_fits decompress f" if f: "f \<in> set (handled s)" for f
  proof -
    obtain p where p: "p \<in> set (sr_parts s)" "f \<in> set (pt_frames p)" using f by (auto simp: handled_def dest: in_set_takeD)
    then have "frame_inv E (pt_err p) f" using inv(1) by (auto simp: stream_inv_def parts_inv_def part_inv_def)
    then show ?thesis using f up assms(1,4) by (intro frame_fits_out) (auto simp: upload_inv_def all_out_def)
  qed
  then have fits: "\<forall>f \<in> set (handled s). frame_fits decompress f" by simp
  have obj: "assemble (sr_up s) = concat (map compressed (handled s))" by (rule result_object [OF assms(2) up inv(2) assms(7) len])
  show ?thesis using read_frames [OF fits, of _ "cfg_CompressionType (se_cfg E)"] assms(5) unfolding r obj by blast
qed

text \<open>(C7) A stream returns under every scheduler: a run has at most \<open>20 n + 15\<close> steps for an input of \<open>n\<close> bytes, and as long as it
  has not returned, one of its goroutines can move.\<close>

theorem compressStream_returns:
  assumes "stream_run E as (new_stream input start) = Some s" "0 < cfg_FrameSize (se_cfg E)"
  shows "length as \<le> 20 * length input + 15 \<and> ((\<exists>r. sr_main s = MReturned r) \<or> can_move E s)"
proof -
  have init: "result_inv E input start (new_stream input start)" by (simp add: result_inv_def new_stream_def)
  have "stream_inv E input start s" using stream_run_inv [OF assms(1) stream_inv_init init assms(2)] by simp
  then have "(\<exists>r. sr_main s = MReturned r) \<or> can_move E s" by (metis no_deadlock)
  moreover have "length as + left s \<le> left (new_stream input start)" by (rule run_left [OF assms(1) stream_inv_init assms(2)])
  moreover have "left (new_stream input start) = 20 * length input + 15"
    by (simp add: left_def new_stream_def active_def running_frames_def)
  ultimately show ?thesis by simp
qed

text \<open>(C27) When the upload of a file of at most 2 ^ 56 bytes returns without error, it has kept the limits of multipart
  uploads: every part but the last has at least 5 MiB, and, on the condition that compression has expanded the file by
  at most a ninth, there are at most 10000 parts. The clamp of the part size leaves room for that expansion; a codec that expands
  more is not excluded by the code, and then nothing is claimed of the number of parts.\<close>

theorem parts_within_limits:
  assumes "storeFileCompressed E0 input start = (E, s0)" "stream_run E as s0 = Some s" "sr_main s = MReturned (Some x)"
    and "frame_codec_law (se_compress E) decompress" "0 < cfg_FrameSize (se_cfg E)" "length input \<le> 2 ^ 56"
  shows "(\<forall>(i, data) \<in> set (sr_uploaded s). i < length (sr_uploaded s) \<longrightarrow> 5 * 2 ^ 20 \<le> length data) \<and>
    (9 * sum_list (map (length \<circ> snd) (sr_uploaded s)) \<le> 10 * length input \<longrightarrow> length (sr_uploaded s) \<le> 10000)"
proof -
  have E: "se_cfg E = clampCloudMinPartSize (se_cfg E0) (int (length input))" "s0 = new_stream input start"
    using assms(1) by (auto simp: storeFileCompressed_def)
  let ?M = "cfg_MinPartSize (se_cfg E)" and ?n = "sr_handled s"
  have n56: "int (length input) \<le> 2 ^ 56" using assms(6) by simp
  note M = clamped_part_size [of "int (length input)" "se_cfg E0", OF _ n56]
  have init: "result_inv E input start s0" by (simp add: result_inv_def new_stream_def E)
  have sinit: "stream_inv E input start s0" by (simp add: E stream_inv_init)
  have inv: "stream_inv E input start s" "result_inv E input start s"
    using stream_run_inv [OF assms(2) sinit init assms(5)] by simp_all
  have large: "large_inv E s" using large_run [OF assms(2) _ sinit assms(5,4,6)] by (simp add: E large_init)
  have len: "?n \<le> length (sr_parts s)" "?n \<le> sr_sent s" using inv(1) by (auto simp: stream_inv_def flow_inv_def)
  obtain ft h where "x = (ft, h)" by (cases x)
  then have up: "mset (sr_uploaded s) = (if ?n = 0 then {#(1, [])#} else mset (launched s))"
    using inv(2) assms(3) by (simp add: result_inv_def)
  show ?thesis
  proof (cases "?n = 0")
    case True
    then have "sr_uploaded s = [(1, [])]" using up by (cases "sr_uploaded s") (auto split: list.splits)
    then show ?thesis by simp
  next
    case False
    have m: "mset (sr_uploaded s) = mset (launched s)" using up False by simp
    have set: "set (sr_uploaded s) = set (launched s)" and length: "length (sr_uploaded s) = ?n"
      using mset_eq_setD [OF m] mset_eq_length [OF m] by (simp_all add: launched_def)
    have big: "?M \<le> out_size (pt_frames (sr_parts s ! i))" if "Suc i < ?n" for i
      using large that len by (simp add: large_inv_def)
    have "5 * 2 ^ 20 \<le> length data" if i: "(i, data) \<in> set (sr_uploaded s)" "i < length (sr_uploaded s)" for i data
    proof -
      have "(i, data) \<in> set (launched s)" using i set by simp
      then obtain m where "m < length (launched s)" and nth: "launched s ! m = (i, data)" by (auto simp only: in_set_conv_nth)
      then have m: "m < ?n" "launched s ! m = (i, data)" by (simp_all add: launched_def)
      then have "i = Suc m" by (simp add: launched_def upload_part_def)
      then have "?M \<le> int (length data)" using big [of m] launched_sizes [OF m(1)] m(2) i(2) length by simp
      then show ?thesis using M(1) E(1) by simp
    qed
    moreover have "?n \<le> 10000" if total: "9 * sum_list (map (length \<circ> snd) (sr_uploaded s)) \<le> 10 * length input"
      using total uploaded_total [OF m] big M E(1) out_size_nonneg
      by (intro part_count [where M = ?M and L = "int (length input)" and f = "\<lambda>i. out_size (pt_frames (sr_parts s ! i))"]) simp_all
    ultimately show ?thesis using length by auto
  qed
qed

section \<open>Witnesses\<close>

text \<open>An encoder that puts its state before the bytes.\<close>

definition demo_compress :: "nat \<Rightarrow> bytes \<Rightarrow> bytes option" where
  "demo_compress k x = Some (word_of_nat k # x)"

definition demo_decompress :: "bytes \<Rightarrow> bytes option" where
  "demo_decompress y = (case y of [] \<Rightarrow> None | _ # x \<Rightarrow> Some x)"

lemma demo_frame_codec_law: "frame_codec_law demo_compress demo_decompress"
  by (auto simp: frame_codec_law_def demo_compress_def demo_decompress_def)

definition demo_env :: "(nat \<times> bytes) list stream_env" where
  "demo_env = \<lparr>se_cfg = \<lparr>cf_Enabled = True, cf_Type = ''zstd'', cf_Level = 1, cf_FrameSizeKB = 1, cf_MinPartSizeMB = 0,
     cf_FrameEncodeWorkers = 2, cf_EncoderConcurrency = 1\<rparr>, se_max = 1, se_compress = demo_compress, se_sha = (\<lambda>x. take 2 x), se_put = mem_put\<rparr>"

definition demo_acts :: "stream_act list" where
  "demo_acts = [AStart True, ARead False, AAdd, ATest, ASend True, AReceive, AFrame 0 0 (Some 7), APart, AReceive, AUpload 0 True, AWork True True]"

lemma demo_runs:
  "case stream_run demo_env demo_acts (new_stream [1, 2, 3] []) of None \<Rightarrow> False
   | Some s \<Rightarrow> sr_main s = MReturned (Some (\<lparr>compressionType = CompressionZstd,
       entries = [\<lparr>StartU = 0, StartC = 0, SizeU = 3, SizeC = 4\<rparr>]\<rparr>, [1, 2])) \<and> mem_Assemble (sr_up s) = [7, 1, 2, 3] \<and>
       sr_uploaded s = [(1, [7, 1, 2, 3])]"
  by code_simp

lemma demo_end:
  obtains s where "stream_run demo_env demo_acts (new_stream [1, 2, 3] []) = Some s"
    "sr_main s = MReturned (Some (\<lparr>compressionType = CompressionZstd, entries = [\<lparr>StartU = 0, StartC = 0, SizeU = 3, SizeC = 4\<rparr>]\<rparr>, [1, 2]))"
    "mem_Assemble (sr_up s) = [7, 1, 2, 3]" "sr_uploaded s = [(1, [7, 1, 2, 3])]"
  using demo_runs by (auto split: option.splits)

lemma demo_env_simps: "se_compress demo_env = demo_compress" "se_put demo_env = mem_put" "cfg_FrameSize (se_cfg demo_env) = 1024"
  by (simp_all add: demo_env_def cfg_FrameSize_def i64_id)

theorem compressStream_lossless_witness:
  "\<exists>s (r :: SRange). stream_run demo_env demo_acts (new_stream [1, 2, 3] []) = Some s \<and> mem_Assemble (sr_up s) = [7, 1, 2, 3] \<and>
    read_compressed demo_decompress [7, 1, 2, 3] \<lparr>compressionType = CompressionZstd,
      entries = [\<lparr>StartU = 0, StartC = 0, SizeU = 3, SizeC = 4\<rparr>]\<rparr> (srOffset r) =
      Inr (take (nat (srLength r)) (drop (nat (srOffset r)) [1, 2, 3]))"
proof -
  obtain s where s: "stream_run demo_env demo_acts (new_stream [1, 2, 3] []) = Some s"
    "sr_main s = MReturned (Some (\<lparr>compressionType = CompressionZstd, entries = [\<lparr>StartU = 0, StartC = 0, SizeU = 3, SizeC = 4\<rparr>]\<rparr>, [1, 2]))"
    "mem_Assemble (sr_up s) = [7, 1, 2, 3]" by (rule demo_end)
  have "frame_codec_law (se_compress demo_env) demo_decompress" "part_uploader (se_put demo_env) [] mem_Assemble"
    "0 < cfg_FrameSize (se_cfg demo_env)" "cfg_FrameSize (se_cfg demo_env) \<le> 2 ^ 29" "length [1, 2, 3 :: byte] \<le> 2 ^ 56"
    using demo_frame_codec_law mem.part_uploader_axioms by (simp_all add: demo_env_simps)
  note t = compressStream_lossless [OF this s(1,2)]
  have "0 \<le> (0 :: int) \<and> 0 < int (length [1, 2, 3 :: byte])" by simp
  from t [THEN conjunct2, rule_format, OF this, unfolded s(3)] obtain r :: SRange where
    "read_compressed demo_decompress [7, 1, 2, 3] \<lparr>compressionType = CompressionZstd,
      entries = [\<lparr>StartU = 0, StartC = 0, SizeU = 3, SizeC = 4\<rparr>]\<rparr> (srOffset r) =
      Inr (take (nat (srLength r)) (drop (nat (srOffset r)) [1, 2, 3]))" by blast
  with s(1,3) show ?thesis by blast
qed

theorem compressStream_returns_witness:
  "\<exists>s. stream_run demo_env [AStart True, ARead False] (new_stream [1, 2, 3] []) = Some s \<and> can_move demo_env s"
proof -
  have "case stream_run demo_env [AStart True, ARead False] (new_stream [1, 2, 3] []) of None \<Rightarrow> False | Some s \<Rightarrow> sr_main s = MReceive"
    by code_simp
  then obtain s where s: "stream_run demo_env [AStart True, ARead False] (new_stream [1, 2, 3] []) = Some s" "sr_main s = MReceive"
    by (auto split: option.splits)
  have "0 < cfg_FrameSize (se_cfg demo_env)" by (simp add: demo_env_simps)
  from compressStream_returns [OF s(1) this] show ?thesis using s by simp
qed

text \<open>A file of one frame of 8 MiB and a byte is uploaded in two parts, the second before the first.\<close>

definition large_env :: "(nat \<times> bytes) list stream_env" where
  "large_env = demo_env\<lparr>se_cfg := (se_cfg demo_env)\<lparr>cf_FrameSizeKB := 8192, cf_MinPartSizeMB := 1\<rparr>\<rparr>"

definition large_acts :: "stream_act list" where
  "large_acts = [AStart True, ARead False, AAdd, AFrame 0 0 (Some 7), ATest, ASend True, ARead False, AAdd, AFrame 1 0 (Some 8), ATest,
     ASend True, AReceive, APart, AReceive, APart, AUpload 1 True, AUpload 0 True, AReceive, AWork True True]"

lemma two_parts_run:
  assumes "cfg_FrameSize (se_cfg E) = int (length a)" "cfg_MinPartSize (se_cfg E) \<le> i64 (int (length a) + 1)"
    and "newCompressorPool_ok (se_cfg E)" "se_compress E = demo_compress" "max_uploads E = 1" "length a > 1"
  obtains s x where "stream_run E large_acts (new_stream (a @ [1]) up) = Some s" "sr_main s = MReturned (Some x)"
    "sr_uploaded s = [(2, [8, 1]), (1, 7 # a)]"
proof -
  have w: "0 < stream_workers E" by (simp add: stream_workers_def)
  have d: "\<not> length a \<le> 1" "a \<noteq> []" using assms(6) by auto
  have "\<exists>s x. stream_run E large_acts (new_stream (a @ [1]) up) = Some s \<and> sr_main s = MReturned (Some x) \<and> sr_uploaded s = [(2, [8, 1]), (1, 7 # a)]"
    using assms w d
    by (simp add: large_acts_def new_stream_def new_part_def read_frame_def stopped_def running_frames_def addFrame_def frame_ends_def
        demo_compress_def test_part_def send_part_def reader_done_def handle_part_def upload_part_def frame_size_def compressed_def
        finish_stream_def remove_nth_def Let_def add.commute)
  then show ?thesis using that by blast
qed

definition large_file :: bytes where
  "large_file = replicate (2 ^ 23) 0"

theorem parts_within_limits_witness:
  "\<exists>E s data. storeFileCompressed large_env (large_file @ [1]) [] = (E, new_stream (large_file @ [1]) []) \<and>
     stream_run E large_acts (new_stream (large_file @ [1]) []) = Some s \<and> map fst (sr_uploaded s) = [2, 1] \<and>
     (1, data) \<in> set (sr_uploaded s) \<and> 5 * 2 ^ 20 \<le> length data \<and>
     9 * sum_list (map (length \<circ> snd) (sr_uploaded s)) \<le> 10 * length (large_file @ [1]) \<and> length (sr_uploaded s) \<le> 10000"
proof -
  define E where "E = fst (storeFileCompressed large_env (large_file @ [1]) [])"
  define f where "f = large_file"
  have f: "length f = 2 ^ 23" by (simp add: f_def large_file_def)
  have e: "storeFileCompressed large_env (f @ [1]) [] = (E, new_stream (f @ [1]) [])"
    by (simp add: E_def f_def storeFileCompressed_def)
  have cfg: "cfg_FrameSize (se_cfg E) = int (length f)" "cfg_MinPartSize (se_cfg E) = 5 * 2 ^ 20" "newCompressorPool_ok (se_cfg E)"
      "se_compress E = demo_compress" "max_uploads E = 1"
    by (simp_all add: E_def f_def [symmetric] f storeFileCompressed_def large_env_def demo_env_def clampCloudMinPartSize_def
        cfg_FrameSize_def cfg_MinPartSize_def BytesToMB_def i64_id Let_def newCompressorPool_ok_def cfg_CompressionType_def
        parseCompressionType_def cloudMinPartSizeMB_def cloudMaxParts_def max_uploads_def)
  have m: "cfg_MinPartSize (se_cfg E) \<le> i64 (int (length f) + 1)" "length f > 1" unfolding cfg(2) f by (simp_all add: i64_id)
  obtain s x where s: "stream_run E large_acts (new_stream (f @ [1]) []) = Some s" "sr_main s = MReturned (Some x)"
      "sr_uploaded s = [(2, [8, 1]), (1, 7 # f)]"
    by (rule two_parts_run [OF cfg(1) m(1) cfg(3-5) m(2)])
  have c: "frame_codec_law (se_compress E) demo_decompress" "0 < cfg_FrameSize (se_cfg E)" "length (f @ [1 :: byte]) \<le> 2 ^ 56"
    using demo_frame_codec_law f by (simp_all add: cfg(1,4))
  note t = parts_within_limits [OF e s(1,2) c]
  have i: "(1, 7 # f) \<in> set (sr_uploaded s)" "1 < length (sr_uploaded s)" by (simp_all add: s(3))
  have n: "9 * sum_list (map (length \<circ> snd) (sr_uploaded s)) \<le> 10 * length (f @ [1 :: byte])" by (simp add: s(3) f)
  have "5 * 2 ^ 20 \<le> length (7 # f)" "length (sr_uploaded s) \<le> 10000" using t i n by blast+
  moreover have "map fst (sr_uploaded s) = [2, 1]" by (simp add: s(3))
  ultimately show ?thesis unfolding f_def [symmetric] using e s(1) i(1) n by (intro exI [of _ E] exI [of _ s] exI [of _ "7 # f"] conjI)
qed

end
