(* ===== verification/Spec2Isabelle.thy ===== *)
theory Spec2Isabelle
  imports SerialV5 Dedup BuildFile ChunkerRuns Nbd SandboxState Uffd Replay SpoolJournal Delivery Reservations Placement Upload
begin

text \<open>
  \<^bold>\<open>Verification of the sandbox infrastructure: storage core, block devices, page faults, sandbox lifecycle and network usage.\<close>

  \<^bold>\<open>The program.\<close> An API (\<open>packages/api\<close>) keeps the running sandboxes in Redis and asks orchestrators
  (\<open>packages/orchestrator\<close>) to start, pause and kill them. A sandbox is a virtual machine whose disk
  and memory come from a template and from the snapshots taken of it. Every snapshot is a build: it
  stores only the blocks that differ from its parent, and a header (\<open>packages/shared/pkg/storage/header\<close>)
  that says for each byte range of the image which build holds it and where. To resume a sandbox
  the orchestrator loads the header, fetches data of builds on demand, puts a copy-on-write cache
  over it and serves it to the kernel as a block device. To pause it, the dirty blocks are exported,
  deduplicated against the parent, described by a new header and uploaded in compressed frames. The guest memory
  is restored page by page when the guest touches it. What a sandbox sends over the network is measured by
  the hypervisor, kept in journals on the host and handed to a store that takes custody of them.

  \<^bold>\<open>The theories, from the bottom up\<close> (paths under \<open>src/packages\<close>).

  \<^item> \<open>Prelude\<close>: Go's integers (\<open>i64\<close>, \<open>u64\<close>, \<open>u32\<close> wrap around), results \<open>'a result = error + 'a\<close>, list lemmas.
  \<^item> \<open>Bitmap\<close>: the interface \<open>roaring_bitmap\<close> of the third-party bitmaps, as a locale whose laws are
    hypotheses of what uses it, with an instance on sorted lists that the witnesses use.
  \<^item> \<open>Blocks\<close>: block arithmetic, byte ranges, the zero test (\<open>header/block.go\<close>, \<open>header/diff.go\<close>,
    \<open>orchestrator/pkg/sandbox/block/range.go\<close>).
  \<^item> \<open>BuildMapping\<close>: \<open>header/mapping.go\<close> and the validation of \<open>header/inspect.go\<close>. A mapping denotes a
    function from offsets to build and offset; creating, merging, normalizing and validating
    mappings are related to that function.
  \<^item> \<open>Compact\<close>: the columns of \<open>header/compact.go\<close>, refined to the list of mappings.
  \<^item> \<open>Codec\<close>, \<open>FrameTable\<close>, \<open>Serial\<close>, \<open>SerialV5\<close>: encoding/binary as the locales \<open>codec\<close> and \<open>sized_codec\<close>
    interpreted for each field, the frame table of compressed data
    (\<open>shared/pkg/storage/compress_frame_table.go\<close>), the header formats 3, 4 and 5
    (\<open>header/serialization*.go\<close>) with their round trips and size limits.
  \<^item> \<open>Header\<close>: \<open>header/header.go\<close>, \<open>metadata.go\<close>: lookups, and the headers that pause and upload build.
  \<^item> \<open>Tracker\<close>, \<open>Cache\<close>: \<open>block/tracker.go\<close>, \<open>prefetch_tracker.go\<close>, \<open>cache.go\<close>, \<open>overlay.go\<close>. The locale
    \<open>block_device\<close> states what a writable device promises, \<open>block_reader\<close> that its reads go block by block; the
    overlay is an instance of both.
  \<^item> \<open>Dedup\<close>: \<open>block/dedup.go\<close>, the exported memory diff.
  \<^item> \<open>Chunker\<close>, \<open>ChunkerRuns\<close>: \<open>block/streaming_chunk.go\<close>, \<open>fetch_session.go\<close> as a step relation of
    concurrent clients and fetches. The second holds the invariants of runs and the properties.
  \<^item> \<open>BuildFile\<close>: \<open>build/build.go\<close>, \<open>shared/pkg/utils/set_once.go\<close>: reads over the layers of a header and
    the swap to the durable header.
  \<^item> \<open>Upload\<close>: \<open>shared/pkg/storage/compress_upload.go\<close>, \<open>compress_config.go\<close>: the pipeline of a compressed upload as a
    step relation; the locale \<open>part_uploader\<close> states what the uploader of parts promises.
  \<^item> \<open>Nbd\<close>: \<open>nbd/dispatch.go\<close>, the block protocol, over any \<open>block_reader\<close>. A task of the dispatcher touches the
    device once per step: one block of a read, a write or a zero-write.
  \<^item> \<open>GuestMemory\<close>, \<open>Uffd\<close>: \<open>uffd/memory\<close> and \<open>uffd/userfaultfd\<close>: addresses of guest memory, and the handler of page
    faults over a kernel given by the documented behaviour of its calls (the locale \<open>uffd_kernel\<close>).
  \<^item> \<open>SandboxState\<close>: \<open>api/internal/sandbox\<close>, the transitions of a sandbox in Redis.
  \<^item> \<open>Reservations\<close>: \<open>api/internal/sandbox/reservations/redis\<close>, who may start a sandbox and how others wait for it.
  \<^item> \<open>Placement\<close>: \<open>api/internal/orchestrator/placement\<close> and the part of \<open>nodemanager\<close> that it reads.
  \<^item> \<open>Producer\<close>, \<open>Journal\<close>, \<open>RecordJson\<close>, \<open>Correlator\<close>, \<open>Replay\<close>: \<open>orchestrator/pkg/sandbox/networkusage\<close>: the decoders of
    the hypervisor's frames and receipts, the journal and its records as JSON, the correlation of requests,
    frames and receipts, and the consumer that replays a journal.
  \<^item> \<open>Spool\<close>, \<open>SpoolJournal\<close>, \<open>Custody\<close>, \<open>Delivery\<close>: \<open>networkusage/spool.go\<close>, \<open>delivery.go\<close>, \<open>shared/pkg/storage/custody*.go\<close>: the
    directory of segments, journals over it, the store that takes custody of a segment, and a delivery
    pass beside writers and other passes. Every file operation can fail.

  \<^bold>\<open>What is shown.\<close> The image that a header denotes is what reads return: a diff header composes the parent's
  image with the exported blocks, its serialization is lossless, a layered read returns the image, a
  compressed upload can be read back and keeps the limits of multipart uploads, and all its goroutines end.
  The chunker returns upstream content in every interleaving, unless a damaged compressed frame overwrites a
  chunk that is read without compression, and all its callers return. The overlay is an array of bytes over the image, and
  the dispatcher answers as that array for every interleaving of requests. Deduplication restores the exported memory,
  and the snapshot metadata of the page fault handler account for every page that the guest has changed, except pages
  that it wrote while they were being installed. In the API, transitions of
  a sandbox exclude each other as long as their keys live, starts of a sandbox exclude each other while the
  reservation is kept, and a team exceeds its limit by at most the number of sandboxes added without a
  reservation. Network usage: a journal file is a chain of whole records, a reported fence has its request, frame and
  correlation in the file, the consumer's totals are exact, the spool keeps its budget, and a segment
  leaves it only into custody or by an acknowledgment of its content. Error behaviour, bounds and the points
  where the code departs from its comments are stated as properties too.

  \<^bold>\<open>How the code is represented.\<close> A struct is a record, an error a value of \<open>error\<close>, an index out of
  range or a division by zero that would panic is an error value where it can happen. Integers are \<open>int\<close> with
  the wrap-around of their width written out. Loops are total functions with a termination proof;
  the retry loop of a layered read has the number of attempts as fuel, which is the bound the code
  has. Concurrency is a step relation in which the critical sections of a lock are single steps;
  the runs of the chunker and of an upload end because a measure decreases, which also shows that every caller returns.
  What the environment decides (failing calls, cancelled contexts, random numbers, the clock, damaged data, what
  other goroutines and instances do in between) is an argument of the step or a list that the state carries.

  \<^bold>\<open>Not modelled.\<close> Kernel interfaces (mmap, userfaultfd, netlink, ioctl), the hypervisor, object stores,
  gRPC and HTTP handlers, SQL, telemetry, feature flags, generated code, command line tools and deployment
  files: they are sequences of calls to code outside the repository. Third-party codecs and bitmaps
  are parameters. Not modelled though they have logic of their own: the pools of devices and network
  slots, the store of diffs that connects \<open>BuildFile\<close> with \<open>Chunker\<close>, the listing and healing of sandboxes in
  the API, and the services that run the delivery passes.
\<close>

end
